(* ===== verification/Prelude.thy ===== *)
theory Prelude
  imports Main "HOL-Library.Multiset"
begin

text \<open>
  Shared vocabulary of the development: the machine-integer arithmetic the sources rely on,
  the ordered associative container \<open>std::map\<close> and the generic list and multiset lemmas the
  component theories use.

  \<^item> \<open>std::map\<close> is an association list with strictly increasing keys (\<open>omap_wf\<close>). An iterator
    is the key it points at; \<open>end()\<close> is \<open>None\<close>. Iteration order is key order, as in C++.
  \<^item> \<open>u64_add\<close> is addition of \<open>uint64_t\<close> values, with the wrap-around written out.
  \<^item> \<open>trunc_div\<close> is the division of C++, which rounds towards zero.
\<close>

named_theorems inv_intros \<open>rules that establish an invariant of a component\<close>
named_theorems conserve \<open>equations that say what an operation does to the tasks it holds\<close>

section \<open>Machine integers\<close>

definition u64_add :: "nat \<Rightarrow> nat \<Rightarrow> nat" where
  "u64_add a b = (a + b) mod 2 ^ 64"

lemma u64_add_code [code]: "u64_add a b = nat ((int a + int b) mod 2 ^ 64)"
  by (simp add: u64_add_def nat_mod_distrib nat_add_distrib)

lemma u64_add_exact: "a + b < 2 ^ 64 \<Longrightarrow> u64_add a b = a + b"
  by (simp add: u64_add_def)

lemma u64_add_bound: "u64_add a b < 2 ^ 64"
  by (simp add: u64_add_def)

definition trunc_div :: "int \<Rightarrow> int \<Rightarrow> int" where
  "trunc_div a b = (if a < 0 then - ((- a) div b) else a div b)"

lemma trunc_div_nonneg: "0 \<le> a \<Longrightarrow> trunc_div a b = a div b"
  by (simp add: trunc_div_def)

section \<open>std::map as a sorted association list\<close>

type_synonym ('k, 'v) omap = "('k \<times> 'v) list"

definition omap_keys :: "('k, 'v) omap \<Rightarrow> 'k list" where
  "omap_keys m = map fst m"

definition omap_wf :: "('k::linorder, 'v) omap \<Rightarrow> bool" where
  "omap_wf m \<longleftrightarrow> sorted_wrt (<) (omap_keys m)"

text \<open>\<open>find\<close>: the value at a key, \<open>None\<close> for \<open>end()\<close>.\<close>

definition omap_find :: "('k, 'v) omap \<Rightarrow> 'k \<Rightarrow> 'v option" where
  "omap_find m k = map_of m k"

text \<open>\<open>operator[]\<close> used as an assignment: inserts at the key's place or overwrites.\<close>

fun omap_set :: "'k::linorder \<Rightarrow> 'v \<Rightarrow> ('k, 'v) omap \<Rightarrow> ('k, 'v) omap" where
  "omap_set k v [] = [(k, v)]"
| "omap_set k v ((k', v') # m) =
     (if k < k' then (k, v) # (k', v') # m
      else if k = k' then (k, v) # m
      else (k', v') # omap_set k v m)"

definition omap_erase :: "'k \<Rightarrow> ('k, 'v) omap \<Rightarrow> ('k, 'v) omap" where
  "omap_erase k m = filter (\<lambda>p. fst p \<noteq> k) m"

text \<open>\<open>begin()\<close>, and \<open>++iter\<close> wrapping to \<open>begin()\<close> at \<open>end()\<close>.\<close>

definition omap_begin :: "('k, 'v) omap \<Rightarrow> 'k option" where
  "omap_begin m = (case m of [] \<Rightarrow> None | p # _ \<Rightarrow> Some (fst p))"

definition omap_after :: "'k::linorder \<Rightarrow> ('k, 'v) omap \<Rightarrow> 'k list" where
  "omap_after k m = filter (\<lambda>j. k < j) (omap_keys m)"

definition omap_before :: "'k::linorder \<Rightarrow> ('k, 'v) omap \<Rightarrow> 'k list" where
  "omap_before k m = filter (\<lambda>j. j < k) (omap_keys m)"

definition omap_next_cyclic :: "'k::linorder \<Rightarrow> ('k, 'v) omap \<Rightarrow> 'k option" where
  "omap_next_cyclic k m =
     (case omap_after k m of j # _ \<Rightarrow> Some j | [] \<Rightarrow> omap_begin m)"

text \<open>The other keys in the order \<open>++iter\<close> with wrap-around meets them, starting after \<open>k\<close>.\<close>

definition omap_cycle :: "'k::linorder \<Rightarrow> ('k, 'v) omap \<Rightarrow> 'k list" where
  "omap_cycle k m = omap_after k m @ omap_before k m"

lemma omap_wf_Nil [simp]: "omap_wf []"
  by (simp add: omap_wf_def omap_keys_def)

lemma omap_wf_Cons [simp]:
  "omap_wf ((k, v) # m) \<longleftrightarrow> (\<forall>j \<in> fst ` set m. k < j) \<and> omap_wf m"
  by (auto simp: omap_wf_def omap_keys_def)

lemma omap_wf_distinct: "omap_wf m \<Longrightarrow> distinct (map fst m)"
  unfolding omap_wf_def omap_keys_def
  by (metis strict_sorted_iff)

lemma omap_find_Nil [simp]: "omap_find [] k = None"
  by (simp add: omap_find_def)

lemma omap_find_Cons [simp]:
  "omap_find ((k, v) # m) j = (if j = k then Some v else omap_find m j)"
  by (simp add: omap_find_def)

lemma omap_find_set [simp]:
  "omap_find (omap_set k v m) j = (if j = k then Some v else omap_find m j)"
  by (induction k v m rule: omap_set.induct) auto

lemma keys_omap_set: "fst ` set (omap_set k v m) = insert k (fst ` set m)"
  by (induction k v m rule: omap_set.induct) auto

lemma omap_wf_set [simp]: "omap_wf m \<Longrightarrow> omap_wf (omap_set k v m)"
  by (induction k v m rule: omap_set.induct) (auto simp: keys_omap_set)

lemma omap_find_erase [simp]:
  "omap_find (omap_erase k m) j = (if j = k then None else omap_find m j)"
  by (induction m) (auto simp: omap_erase_def)

lemma omap_wf_filter: "omap_wf m \<Longrightarrow> omap_wf (filter P m)"
  by (induction m) auto

lemma omap_wf_erase [simp]: "omap_wf m \<Longrightarrow> omap_wf (omap_erase k m)"
  by (simp add: omap_erase_def omap_wf_filter)

lemma keys_omap_erase: "fst ` set (omap_erase k m) = fst ` set m - {k}"
  by (auto simp: omap_erase_def)

lemma omap_find_key: "omap_find m k \<noteq> None \<longleftrightarrow> k \<in> fst ` set m"
  by (simp add: omap_find_def map_of_eq_None_iff)

lemma omap_find_in_set: "omap_find m k = Some v \<Longrightarrow> (k, v) \<in> set m"
  by (simp add: omap_find_def map_of_SomeD)

lemma omap_in_set_find: "omap_wf m \<Longrightarrow> (k, v) \<in> set m \<Longrightarrow> omap_find m k = Some v"
  by (simp add: omap_find_def omap_wf_distinct)

lemma omap_begin_in: "omap_begin m = Some k \<Longrightarrow> k \<in> fst ` set m"
  by (auto simp: omap_begin_def split: list.splits)

lemma omap_begin_None [simp]: "omap_begin m = None \<longleftrightarrow> m = []"
  by (simp add: omap_begin_def split: list.splits)

lemma omap_next_cyclic_in: "omap_next_cyclic k m = Some j \<Longrightarrow> j \<in> fst ` set m"
proof -
  assume a: "omap_next_cyclic k m = Some j"
  have "set (omap_after k m) \<subseteq> fst ` set m"
    by (auto simp: omap_after_def omap_keys_def)
  with a show ?thesis
    by (auto simp: omap_next_cyclic_def omap_begin_in split: list.splits)
qed

lemma omap_next_cyclic_None [simp]: "omap_next_cyclic k m = None \<longleftrightarrow> m = []"
  by (auto simp: omap_next_cyclic_def omap_after_def omap_keys_def split: list.splits)

lemma omap_next_cyclic_Nil [simp]: "omap_next_cyclic k [] = None"
  by simp

lemma omap_begin_least:
  "omap_wf m \<Longrightarrow> omap_begin m = Some n \<Longrightarrow> k \<in> fst ` set m \<Longrightarrow> n \<le> k"
  by (cases m) (force simp: omap_begin_def)+

lemma omap_after_least:
  "omap_wf m \<Longrightarrow> omap_after a m = n # ns \<Longrightarrow> a < n \<and> (\<forall>k \<in> fst ` set m. a < k \<longrightarrow> n \<le> k)"
proof (induction m)
  case (Cons p m)
  then show ?case by (cases p) (auto simp: omap_after_def omap_keys_def split: if_splits)
qed (simp add: omap_after_def omap_keys_def)

lemma omap_after_Nil: "omap_after a m = [] \<longleftrightarrow> (\<forall>k \<in> fst ` set m. \<not> a < k)"
  by (auto simp: omap_after_def omap_keys_def filter_empty_conv)

text \<open>The next key is the least one above \<open>a\<close>, or the least of all when \<open>a\<close> is the greatest.\<close>

lemma omap_next_cyclic_least:
  assumes "omap_wf m" "omap_next_cyclic a m = Some n"
  shows "(a < n \<and> (\<forall>k \<in> fst ` set m. a < k \<longrightarrow> n \<le> k))
    \<or> ((\<forall>k \<in> fst ` set m. k \<le> a) \<and> (\<forall>k \<in> fst ` set m. n \<le> k))"
proof (cases "omap_after a m")
  case Nil
  then have "omap_begin m = Some n" using assms(2) by (simp add: omap_next_cyclic_def)
  then show ?thesis using Nil omap_begin_least [OF assms(1)] by (auto simp: omap_after_Nil not_less)
next
  case (Cons j js)
  then show ?thesis using assms omap_after_least [OF assms(1) Cons] by (simp add: omap_next_cyclic_def)
qed

lemma omap_next_cyclic_self:
  assumes "omap_wf m" "omap_next_cyclic a m = Some a"
  shows "fst ` set m \<subseteq> {a}"
  using omap_next_cyclic_least [OF assms] by (auto intro: antisym)

lemma set_omap_cycle: "set (omap_cycle k m) = fst ` set m - {k}"
  by (auto simp: omap_cycle_def omap_after_def omap_before_def omap_keys_def)

section \<open>Sums over an ordered map\<close>

text \<open>
  The total of a measure over all entries. It changes at one key only when that key's entry
  changes; the component theories count tasks with it.
\<close>

definition omap_sum :: "('v \<Rightarrow> 'a::comm_monoid_add) \<Rightarrow> ('k, 'v) omap \<Rightarrow> 'a" where
  "omap_sum f m = sum_list (map (\<lambda>p. f (snd p)) m)"

lemma omap_sum_Nil [simp]: "omap_sum f [] = 0"
  by (simp add: omap_sum_def)

lemma omap_sum_Cons [simp]: "omap_sum f ((k, v) # m) = f v + omap_sum f m"
  by (simp add: omap_sum_def)

lemma omap_sum_zero: "(\<And>k v. (k, v) \<in> set m \<Longrightarrow> f v = 0) \<Longrightarrow> omap_sum f m = 0"
  by (induction m) (fastforce simp: omap_sum_def)+

lemma omap_sum_set_new:
  "omap_find m k = None \<Longrightarrow> omap_sum f (omap_set k v m) = f v + omap_sum f m"
  by (induction k v m rule: omap_set.induct) (auto simp: add.left_commute split: if_splits)

lemma omap_find_below:
  "omap_wf ((k', v') # m) \<Longrightarrow> k < k' \<Longrightarrow> omap_find ((k', v') # m) k = None"
  using omap_find_key [of m k] by auto

lemma omap_keys_set_same:
  "omap_wf m \<Longrightarrow> omap_find m k = Some u \<Longrightarrow> omap_keys (omap_set k v m) = omap_keys m"
proof (induction k v m rule: omap_set.induct)
  case (2 k v k' v' m)
  have "\<not> k < k'" using 2(2,3) omap_find_below [of k' v' m k] by auto
  then show ?case using 2 by (auto simp: omap_keys_def)
qed simp

lemma omap_sum_set:
  "omap_wf m \<Longrightarrow> omap_find m k = Some u \<Longrightarrow>
   omap_sum f (omap_set k v m) + f u = omap_sum f m + f v"
proof (induction k v m rule: omap_set.induct)
  case (1 k v)
  then show ?case by simp
next
  case (2 k v k' v' m)
  have "\<not> k < k'"
    using 2(2,3) omap_find_below [of k' v' m k] by auto
  show ?case
  proof (cases "k = k'")
    case True
    then show ?thesis using 2(3) by (simp add: ac_simps)
  next
    case False
    then have "omap_sum f (omap_set k v m) + f u = omap_sum f m + f v"
      using 2 \<open>\<not> k < k'\<close> by simp
    then show ?thesis
      using False \<open>\<not> k < k'\<close> by (simp add: add.assoc)
  qed
qed

lemma omap_sum_erase:
  "omap_wf m \<Longrightarrow> omap_find m k = Some u \<Longrightarrow> omap_sum f (omap_erase k m) + f u = omap_sum f m"
proof (induction m)
  case Nil
  then show ?case by simp
next
  case (Cons p m)
  obtain k' v' where p: "p = (k', v')" by (cases p)
  show ?case
  proof (cases "k = k'")
    case True
    have "omap_erase k m = m"
      using Cons.prems(1) True p by (auto simp: omap_erase_def filter_id_conv)
    then show ?thesis
      using Cons.prems True p by (simp add: omap_erase_def add.commute)
  next
    case False
    then show ?thesis
      using Cons p by (auto simp: omap_erase_def add.assoc)
  qed
qed

section \<open>Lists\<close>

text \<open>Removal of the first element that satisfies a predicate, as the erase loops do.\<close>

fun take_first :: "('a \<Rightarrow> bool) \<Rightarrow> 'a list \<Rightarrow> ('a \<times> 'a list) option" where
  "take_first P [] = None"
| "take_first P (x # xs) =
     (if P x then Some (x, xs)
      else map_option (\<lambda>(y, ys). (y, x # ys)) (take_first P xs))"

lemma take_first_Some:
  "take_first P xs = Some (y, ys) \<Longrightarrow> P y \<and> y \<in> set xs \<and> mset xs = add_mset y (mset ys)"
  by (induction P xs arbitrary: ys rule: take_first.induct) (auto split: if_splits)

lemma take_first_None: "take_first P xs = None \<longleftrightarrow> (\<forall>x \<in> set xs. \<not> P x)"
  by (induction P xs rule: take_first.induct) auto

lemma take_first_length: "take_first P xs = Some (y, ys) \<Longrightarrow> length xs = Suc (length ys)"
  by (metis take_first_Some size_add_mset size_mset)

section \<open>Decimal rendering\<close>

text \<open>\<open>std::to_string\<close> on integers.\<close>

fun nat_to_string :: "nat \<Rightarrow> string" where
  "nat_to_string n =
     (if n < 10 then [char_of (48 + n)] else nat_to_string (n div 10) @ [char_of (48 + n mod 10)])"

declare nat_to_string.simps [simp del]

definition int_to_string :: "int \<Rightarrow> string" where
  "int_to_string i = (if i < 0 then CHR ''-'' # nat_to_string (nat (- i)) else nat_to_string (nat i))"

definition string_to_nat :: "string \<Rightarrow> nat" where
  "string_to_nat s = foldl (\<lambda>a c. 10 * a + (of_char c - 48)) 0 s"

lemma string_to_nat_digits: "string_to_nat (nat_to_string n) = n"
proof (induction n rule: nat_to_string.induct)
  case (1 n)
  show ?case
  proof (cases "n < 10")
    case True
    then show ?thesis by (subst nat_to_string.simps) (simp add: string_to_nat_def)
  next
    case False
    then have "string_to_nat (nat_to_string n)
        = 10 * string_to_nat (nat_to_string (n div 10)) + n mod 10"
      by (subst nat_to_string.simps) (simp add: string_to_nat_def)
    then show ?thesis using 1 False by simp
  qed
qed

lemma nat_to_string_digits: "c \<in> set (nat_to_string n) \<Longrightarrow> 48 \<le> (of_char c :: nat) \<and> of_char c < (58 :: nat)"
proof (induction n rule: nat_to_string.induct)
  case (1 n)
  then show ?case
    by (cases "n < 10") (auto simp: nat_to_string.simps [of n])
qed

lemma nat_to_string_inj: "nat_to_string m = nat_to_string n \<longleftrightarrow> m = n"
  by (metis string_to_nat_digits)

lemma nat_to_string_no_sign: "CHR ''-'' \<notin> set (nat_to_string n)" "CHR ''_'' \<notin> set (nat_to_string n)"
  using nat_to_string_digits [of "CHR ''-''" n] nat_to_string_digits [of "CHR ''_''" n] by auto

lemma int_to_string_inj: "int_to_string i = int_to_string j \<longleftrightarrow> i = j"
proof -
  have "hd (nat_to_string n) \<noteq> CHR ''-''" "nat_to_string n \<noteq> []" for n
  proof -
    show ne: "nat_to_string n \<noteq> []" by (subst nat_to_string.simps) simp
    show "hd (nat_to_string n) \<noteq> CHR ''-''"
      using nat_to_string_no_sign(1) [of n] hd_in_set [OF ne] by metis
  qed
  note h = this
  have "CHR ''-'' # s \<noteq> nat_to_string n" "nat_to_string n \<noteq> CHR ''-'' # s" for s n
    using h by (metis list.sel(1))+
  then show ?thesis
    by (auto simp: int_to_string_def nat_to_string_inj)
qed

lemma int_to_string_no_underscore: "CHR ''_'' \<notin> set (int_to_string i)"
  using nat_to_string_no_sign(2) by (auto simp: int_to_string_def)

lemma length_filter_all:
  "length (filter P xs) = length xs \<longleftrightarrow> (\<forall>x \<in> set xs. P x)"
  "length xs = length (filter P xs) \<longleftrightarrow> (\<forall>x \<in> set xs. P x)"
  by (metis filter_True length_filter_less nless_le) (metis filter_id_conv filter_True length_filter_less less_irrefl)

end
