(* ===== verification/Std_Algorithms.thy ===== *)
theory Std_Algorithms
  imports Prelude
begin

text \<open>
  The algorithms of the C++ standard library that the schedulers call on vectors:
  \<open>std::push_heap\<close>, \<open>std::pop_heap\<close>, \<open>std::make_heap\<close> and \<open>std::sort\<close>, over a comparison
  function, as libstdc++ computes them (\<open>sort\<close> is the stable insertion sort that libstdc++
  runs on ranges of at most 16 elements; the sources sort a handful of schedulers or tables).

  A heap algorithm moves a \<^emph>\<open>hole\<close>; the value for the hole is written at the end. The locale
  \<open>strict_weak_order_on\<close> is the contract the standard puts on the comparison; in it the heap
  property is proved. What every comparison gives, whether or not it is a strict weak order,
  is that the elements are kept: those lemmas stand outside the locale.
\<close>

section \<open>Heap algorithms\<close>

definition heap_parent :: "nat \<Rightarrow> nat" where
  "heap_parent i = (i - 1) div 2"

function sift_up :: "('a \<Rightarrow> 'a \<Rightarrow> bool) \<Rightarrow> 'a list \<Rightarrow> nat \<Rightarrow> nat \<Rightarrow> 'a \<Rightarrow> 'a list" where
  "sift_up lt xs hole rt v =
     (if rt < hole \<and> lt (xs ! heap_parent hole) v
      then sift_up lt (xs[hole := xs ! heap_parent hole]) (heap_parent hole) rt v
      else xs[hole := v])"
  by pat_completeness auto
termination
  by (relation "measure (\<lambda>(lt, xs, hole, rt, v). hole)") (auto simp: heap_parent_def)

declare sift_up.simps [simp del]

function sift_down :: "('a \<Rightarrow> 'a \<Rightarrow> bool) \<Rightarrow> 'a list \<Rightarrow> nat \<Rightarrow> nat \<Rightarrow> 'a list \<times> nat" where
  "sift_down lt xs hole len =
     (if hole < (len - 1) div 2
      then (let c = 2 * (hole + 1);
                d = (if lt (xs ! c) (xs ! (c - 1)) then c - 1 else c)
            in sift_down lt (xs[hole := xs ! d]) d len)
      else if even len \<and> 2 \<le> len \<and> hole = (len - 2) div 2
      then (xs[hole := xs ! (2 * hole + 1)], 2 * hole + 1)
      else (xs, hole))"
  by pat_completeness auto
termination
  by (relation "measure (\<lambda>(lt, xs, hole, len). len - hole)") (auto simp: Let_def)

declare sift_down.simps [simp del]

definition adjust_heap :: "('a \<Rightarrow> 'a \<Rightarrow> bool) \<Rightarrow> 'a list \<Rightarrow> nat \<Rightarrow> 'a \<Rightarrow> 'a list" where
  "adjust_heap lt xs hole v =
     (case sift_down lt xs hole (length xs) of (ys, h) \<Rightarrow> sift_up lt ys h hole v)"

definition push_heap :: "('a \<Rightarrow> 'a \<Rightarrow> bool) \<Rightarrow> 'a list \<Rightarrow> 'a list" where
  "push_heap lt xs = (if xs = [] then [] else sift_up lt xs (length xs - 1) 0 (last xs))"

definition pop_heap :: "('a \<Rightarrow> 'a \<Rightarrow> bool) \<Rightarrow> 'a list \<Rightarrow> 'a list" where
  "pop_heap lt xs =
     (if length xs \<le> 1 then xs else adjust_heap lt (butlast xs) 0 (last xs) @ [hd xs])"

fun make_heap_from :: "('a \<Rightarrow> 'a \<Rightarrow> bool) \<Rightarrow> 'a list \<Rightarrow> nat \<Rightarrow> 'a list" where
  "make_heap_from lt xs 0 = adjust_heap lt xs 0 (xs ! 0)"
| "make_heap_from lt xs (Suc p) = make_heap_from lt (adjust_heap lt xs (Suc p) (xs ! Suc p)) p"

definition make_heap :: "('a \<Rightarrow> 'a \<Rightarrow> bool) \<Rightarrow> 'a list \<Rightarrow> 'a list" where
  "make_heap lt xs =
     (if length xs < 2 then xs else make_heap_from lt xs ((length xs - 2) div 2))"

section \<open>Sorting\<close>

fun insort_by :: "('a \<Rightarrow> 'a \<Rightarrow> bool) \<Rightarrow> 'a \<Rightarrow> 'a list \<Rightarrow> 'a list" where
  "insort_by lt x [] = [x]"
| "insort_by lt x (y # ys) = (if lt x y then x # y # ys else y # insort_by lt x ys)"

definition sort_by :: "('a \<Rightarrow> 'a \<Rightarrow> bool) \<Rightarrow> 'a list \<Rightarrow> 'a list" where
  "sort_by lt xs = foldl (\<lambda>acc x. insort_by lt x acc) [] xs"

section \<open>Every comparison keeps the elements\<close>

lemma heap_parent_less: "0 < i \<Longrightarrow> heap_parent i < i"
  by (auto simp: heap_parent_def)

lemma mset_move_hole:
  "h < length xs \<Longrightarrow> d < length xs \<Longrightarrow> mset ((xs[h := xs ! d])[d := v]) = mset (xs[h := v])"
proof -
  assume h: "h < length xs" and d: "d < length xs"
  let ?ys = "xs[h := v]"
  have "(xs[h := xs ! d])[d := v] = ?ys[h := ?ys ! d, d := ?ys ! h]"
    using h d by (cases "h = d") auto
  also have "mset \<dots> = mset ?ys"
    by (rule mset_swap) (use h d in auto)
  finally show ?thesis .
qed

lemma length_sift_up [simp]: "length (sift_up lt xs hole rt v) = length xs"
  by (induction lt xs hole rt v rule: sift_up.induct) (subst sift_up.simps, simp)

lemma mset_sift_up:
  "hole < length xs \<Longrightarrow> mset (sift_up lt xs hole rt v) = mset (xs[hole := v])"
proof (induction lt xs hole rt v rule: sift_up.induct)
  case (1 lt xs hole rt v)
  show ?case
  proof (cases "rt < hole \<and> lt (xs ! heap_parent hole) v")
    case True
    then have "heap_parent hole < length xs"
      using 1(2) heap_parent_less [of hole] by simp
    with True 1 show ?thesis
      by (simp add: sift_up.simps [of lt xs hole] mset_move_hole)
  next
    case False
    then show ?thesis by (subst sift_up.simps) auto
  qed
qed

lemma sift_down_props:
  "sift_down lt xs hole len = (ys, h) \<Longrightarrow> hole < len \<Longrightarrow> len = length xs \<Longrightarrow>
   length ys = length xs \<and> h < length xs \<and> mset (ys[h := v]) = mset (xs[hole := v])"
proof (induction lt xs hole len rule: sift_down.induct)
  case (1 lt xs hole len)
  define c where "c = 2 * (hole + 1)"
  define d where "d = (if lt (xs ! c) (xs ! (c - 1)) then c - 1 else c)"
  show ?case
  proof (cases "hole < (len - 1) div 2")
    case True
    then have d: "d < length xs"
      using 1(4) by (auto simp: d_def c_def)
    have "sift_down lt (xs[hole := xs ! d]) d len = (ys, h)"
      using 1(2) unfolding sift_down.simps [of lt xs hole len] Let_def
        c_def [symmetric] d_def [symmetric]
      using True by simp
    from 1(1) [OF True c_def d_def this] d 1(3,4) show ?thesis
      by (simp add: mset_move_hole)
  next
    case False
    have k: "2 \<le> len \<Longrightarrow> Suc (len - 2) < len" by arith
    show ?thesis
      using False 1(2-4) k
      by (auto simp: sift_down.simps [of lt xs hole] mset_move_hole split: if_splits)
  qed
qed

lemma adjust_heap_props:
  assumes "hole < length xs"
  shows "length (adjust_heap lt xs hole v) = length xs"
    and "mset (adjust_heap lt xs hole v) = mset (xs[hole := v])"
proof -
  obtain ys h where sd: "sift_down lt xs hole (length xs) = (ys, h)" by fastforce
  note p = sift_down_props [OF sd assms refl]
  show "length (adjust_heap lt xs hole v) = length xs"
    using p by (simp add: adjust_heap_def sd)
  show "mset (adjust_heap lt xs hole v) = mset (xs[hole := v])"
    using p by (simp add: adjust_heap_def sd mset_sift_up)
qed

lemma length_push_heap [simp]: "length (push_heap lt xs) = length xs"
  by (simp add: push_heap_def)

lemma mset_push_heap [conserve]: "mset (push_heap lt xs) = mset xs"
proof (cases "xs = []")
  case False
  then have "xs[length xs - 1 := last xs] = xs"
    by (metis last_conv_nth list_update_id)
  with False show ?thesis by (simp add: push_heap_def mset_sift_up)
qed (simp add: push_heap_def)

lemma pop_heap_last: "xs \<noteq> [] \<Longrightarrow> last (pop_heap lt xs) = hd xs"
  by (cases xs) (auto simp: pop_heap_def)

lemma mset_pop_heap [conserve]: "mset (pop_heap lt xs) = mset xs"
proof (cases "length xs \<le> 1")
  case False
  then obtain x ys y where xs: "xs = x # ys @ [y]"
    by (metis One_nat_def append_butlast_last_id le_Suc_eq le_zero_eq length_0_conv length_Cons
        list.exhaust)
  have "mset (adjust_heap lt (x # ys) 0 y) = mset (y # ys)"
    by (simp add: adjust_heap_props)
  then show ?thesis by (simp add: pop_heap_def xs butlast_append)
qed (simp add: pop_heap_def)

lemma mset_butlast_pop_heap [conserve]:
  "xs \<noteq> [] \<Longrightarrow> add_mset (hd xs) (mset (butlast (pop_heap lt xs))) = mset xs"
proof -
  assume xs: "xs \<noteq> []"
  then have ne: "pop_heap lt xs \<noteq> []"
    by (metis mset_pop_heap mset_zero_iff)
  have "mset (pop_heap lt xs) = add_mset (hd xs) (mset (butlast (pop_heap lt xs)))"
    using append_butlast_last_id [OF ne] pop_heap_last [OF xs]
    by (metis add_mset_add_single mset.simps(1,2) mset_append)
  then show ?thesis by (simp add: mset_pop_heap)
qed

lemma make_heap_from_props:
  "p < length xs \<Longrightarrow>
   length (make_heap_from lt xs p) = length xs \<and> mset (make_heap_from lt xs p) = mset xs"
  by (induction lt xs p rule: make_heap_from.induct) (auto simp: adjust_heap_props)

lemma mset_make_heap [conserve]: "mset (make_heap lt xs) = mset xs"
  using make_heap_from_props [of "(length xs - 2) div 2" xs lt]
  by (auto simp: make_heap_def)

lemma mset_insort_by: "mset (insort_by lt x xs) = add_mset x (mset xs)"
  by (induction lt x xs rule: insort_by.induct) auto

lemma mset_foldl_insort_by:
  "mset (foldl (\<lambda>acc x. insort_by lt x acc) ys xs) = mset ys + mset xs"
  by (induction xs arbitrary: ys) (auto simp: mset_insort_by)

lemma mset_sort_by [conserve]: "mset (sort_by lt xs) = mset xs"
  by (simp add: sort_by_def mset_foldl_insort_by)

lemma set_sort_by [simp]: "set (sort_by lt xs) = set xs"
  by (metis mset_sort_by set_mset_mset)

lemma set_push_heap [simp]: "set (push_heap lt xs) = set xs"
  by (metis mset_push_heap set_mset_mset)

lemma push_heap_Nil [simp]: "push_heap lt xs = [] \<longleftrightarrow> xs = []"
  by (metis length_0_conv length_push_heap)

section \<open>What a strict weak order gives\<close>

text \<open>
  \<open>heap_above lt k xs\<close>: no element is greater than its parent, for parents at \<open>k\<close> and after;
  \<open>heap_above lt 0\<close> is the heap property of the whole vector. \<open>heap_desc k h\<close>: the index \<open>h\<close>
  lies in the subtree of \<open>k\<close>.
\<close>

definition heap_above :: "('a \<Rightarrow> 'a \<Rightarrow> bool) \<Rightarrow> nat \<Rightarrow> 'a list \<Rightarrow> bool" where
  "heap_above lt k xs \<longleftrightarrow>
     (\<forall>i < length xs. 0 < i \<and> k \<le> heap_parent i \<longrightarrow> \<not> lt (xs ! heap_parent i) (xs ! i))"

inductive heap_desc :: "nat \<Rightarrow> nat \<Rightarrow> bool" where
  desc_refl: "heap_desc k k"
| desc_child: "heap_desc k (heap_parent i) \<Longrightarrow> 0 < i \<Longrightarrow> heap_desc k i"

lemma heap_desc_le: "heap_desc k h \<Longrightarrow> k \<le> h"
proof (induction rule: heap_desc.induct)
  case (desc_child k i)
  then show ?case using heap_parent_less [of i] by simp
qed simp

lemma heap_desc_parent: "heap_desc k h \<Longrightarrow> k < h \<Longrightarrow> heap_desc k (heap_parent h)"
  by (erule heap_desc.cases) auto

lemma heap_parent_child: "heap_parent (2 * h + 1) = h" "heap_parent (2 * h + 2) = h"
  by (auto simp: heap_parent_def)

lemma heap_parent_eq: "0 < i \<Longrightarrow> heap_parent i = h \<longleftrightarrow> i = 2 * h + 1 \<or> i = 2 * h + 2"
  by (auto simp: heap_parent_def)

text \<open>The state of a vector whose hole is on its way up (\<open>up_hole\<close>) or down (\<open>down_hole\<close>).\<close>

definition up_hole :: "('a \<Rightarrow> 'a \<Rightarrow> bool) \<Rightarrow> nat \<Rightarrow> 'a list \<Rightarrow> nat \<Rightarrow> 'a \<Rightarrow> bool" where
  "up_hole lt k xs h v \<longleftrightarrow>
     h < length xs \<and> heap_desc k h \<and>
     (\<forall>i < length xs. 0 < i \<and> k \<le> heap_parent i \<and> i \<noteq> h \<longrightarrow>
        \<not> lt ((xs[h := v]) ! heap_parent i) (xs ! i)) \<and>
     (\<forall>i < length xs. 0 < i \<and> heap_parent i = h \<and> k < h \<longrightarrow> \<not> lt (xs ! heap_parent h) (xs ! i))"

definition down_hole :: "('a \<Rightarrow> 'a \<Rightarrow> bool) \<Rightarrow> nat \<Rightarrow> 'a list \<Rightarrow> nat \<Rightarrow> bool" where
  "down_hole lt k xs h \<longleftrightarrow>
     h < length xs \<and> heap_desc k h \<and>
     (\<forall>i < length xs. 0 < i \<and> k \<le> heap_parent i \<and> i \<noteq> h \<and> heap_parent i \<noteq> h \<longrightarrow>
        \<not> lt (xs ! heap_parent i) (xs ! i)) \<and>
     (\<forall>i < length xs. 0 < i \<and> heap_parent i = h \<and> k < h \<longrightarrow> \<not> lt (xs ! heap_parent h) (xs ! i))"

locale strict_weak_order_on =
  fixes S :: "'a set" and lt :: "'a \<Rightarrow> 'a \<Rightarrow> bool"
  assumes lt_irrefl: "x \<in> S \<Longrightarrow> \<not> lt x x"
    and lt_trans: "x \<in> S \<Longrightarrow> y \<in> S \<Longrightarrow> z \<in> S \<Longrightarrow> lt x y \<Longrightarrow> lt y z \<Longrightarrow> lt x z"
    and not_lt_trans: "x \<in> S \<Longrightarrow> y \<in> S \<Longrightarrow> z \<in> S \<Longrightarrow> \<not> lt x y \<Longrightarrow> \<not> lt y z \<Longrightarrow> \<not> lt x z"
begin

lemma lt_asym: "x \<in> S \<Longrightarrow> y \<in> S \<Longrightarrow> lt x y \<Longrightarrow> \<not> lt y x"
  using lt_irrefl lt_trans by blast

lemma in_S: "set xs \<subseteq> S \<Longrightarrow> i < length xs \<Longrightarrow> xs ! i \<in> S"
  using nth_mem by blast

lemma up_hole_stop:
  "up_hole lt k xs h v \<Longrightarrow> \<not> (k < h \<and> lt (xs ! heap_parent h) v) \<Longrightarrow> heap_above lt k (xs[h := v])"
  unfolding up_hole_def heap_above_def
  by (auto simp: nth_list_update dest: heap_parent_less)

lemma up_hole_step:
  assumes S: "set xs \<subseteq> S" "v \<in> S" and u: "up_hole lt k xs h v"
    and c: "k < h" "lt (xs ! heap_parent h) v"
  shows "up_hole lt k (xs[h := xs ! heap_parent h]) (heap_parent h) v"
proof -
  let ?p = "heap_parent h"
  have h: "h < length xs" and p: "?p < h" and dp: "heap_desc k ?p"
    using u c heap_parent_less [of h] by (auto simp: up_hole_def heap_desc_parent)
  have edge: "\<not> lt ((xs[h := v]) ! heap_parent i) (xs ! i)"
    if "i < length xs" "0 < i" "k \<le> heap_parent i" "i \<noteq> h" for i
    using u that by (auto simp: up_hole_def)
  have below: "\<not> lt (xs ! ?p) (xs ! i)" if "i < length xs" "0 < i" "heap_parent i = h" for i
    using u c that by (auto simp: up_hole_def)
  have kp: "k \<le> ?p" by (rule heap_desc_le [OF dp])
  have e1: "\<not> lt (((xs[h := xs ! ?p])[?p := v]) ! heap_parent i) ((xs[h := xs ! ?p]) ! i)"
    if i: "i < length xs" "0 < i" "k \<le> heap_parent i" "i \<noteq> ?p" for i
  proof -
    consider "i = h" | "i \<noteq> h" "heap_parent i = h" | "i \<noteq> h" "heap_parent i = ?p"
      | "i \<noteq> h" "heap_parent i \<noteq> h" "heap_parent i \<noteq> ?p" by blast
    then show ?thesis
    proof cases
      case 1
      then show ?thesis using lt_asym [of "xs ! ?p" v] c S h p by (auto simp: in_S)
    next
      case 2
      then show ?thesis using below [of i] i p h by auto
    next
      case 3
      have "\<not> lt (xs ! ?p) (xs ! i)" using edge [of i] i 3 p by auto
      then show ?thesis
        using 3 lt_trans [of "xs ! ?p" v "xs ! i"] c S i h p by (auto simp: in_S)
    next
      case 4
      then show ?thesis using edge [of i] i by auto
    qed
  qed
  have e2: "\<not> lt ((xs[h := xs ! ?p]) ! heap_parent ?p) ((xs[h := xs ! ?p]) ! i)"
    if i: "i < length xs" "0 < i" "heap_parent i = ?p" "k < ?p" for i
  proof -
    let ?g = "heap_parent ?p"
    have g: "?g < ?p" using i heap_parent_less [of ?p] by simp
    have up: "\<not> lt (xs ! ?g) (xs ! ?p)"
      using edge [of ?p] i p h g heap_desc_le [OF heap_desc_parent [OF dp]] by auto
    show ?thesis
    proof (cases "i = h")
      case True
      then show ?thesis using up g p h by simp
    next
      case False
      have "\<not> lt (xs ! ?p) (xs ! i)" using edge [of i] i kp False p by auto
      then show ?thesis
        using not_lt_trans [of "xs ! ?g" "xs ! ?p" "xs ! i"] up S i g p h False by (auto simp: in_S)
    qed
  qed
  show ?thesis
    unfolding up_hole_def using e1 e2 h p dp by auto
qed

lemma heap_above_sift_up:
  "set xs \<subseteq> S \<Longrightarrow> v \<in> S \<Longrightarrow> up_hole lt k xs h v \<Longrightarrow> heap_above lt k (sift_up lt xs h k v)"
proof (induction h arbitrary: xs rule: less_induct)
  case (less h)
  show ?case
  proof (cases "k < h \<and> lt (xs ! heap_parent h) v")
    case True
    let ?xs = "xs[h := xs ! heap_parent h]"
    have p: "heap_parent h < h" using True heap_parent_less by simp
    have "set ?xs \<subseteq> S"
      using less.prems p by (auto simp: up_hole_def in_S set_update_subsetI)
    moreover have "up_hole lt k ?xs (heap_parent h) v"
      using up_hole_step less.prems True by blast
    ultimately show ?thesis
      using less.IH [OF p] less.prems(2) True by (simp add: sift_up.simps [of lt xs h])
  next
    case False
    then show ?thesis
      using up_hole_stop [OF less.prems(3)] by (subst sift_up.simps) auto
  qed
qed

lemma down_hole_step:
  assumes S: "set xs \<subseteq> S" and u: "down_hole lt k xs h"
    and d: "d < length xs" "0 < d" "heap_parent d = h"
    and sib: "\<And>i. i < length xs \<Longrightarrow> 0 < i \<Longrightarrow> heap_parent i = h \<Longrightarrow> \<not> lt (xs ! d) (xs ! i)"
  shows "down_hole lt k (xs[h := xs ! d]) d"
proof -
  have h: "h < length xs" and dh: "heap_desc k h" and hd: "h < d"
    using u d heap_parent_less [of d] by (auto simp: down_hole_def)
  have edge: "\<not> lt (xs ! heap_parent i) (xs ! i)"
    if "i < length xs" "0 < i" "k \<le> heap_parent i" "i \<noteq> h" "heap_parent i \<noteq> h" for i
    using u that by (auto simp: down_hole_def)
  have above: "\<not> lt (xs ! heap_parent h) (xs ! i)"
    if "i < length xs" "0 < i" "heap_parent i = h" "k < h" for i
    using u that by (auto simp: down_hole_def)
  have kh: "k \<le> h" by (rule heap_desc_le [OF dh])
  have e1: "\<not> lt ((xs[h := xs ! d]) ! heap_parent i) ((xs[h := xs ! d]) ! i)"
    if i: "i < length xs" "0 < i" "k \<le> heap_parent i" "i \<noteq> d" for i
  proof -
    consider "i = h" | "i \<noteq> h" "heap_parent i = h" | "i \<noteq> h" "heap_parent i \<noteq> h" by blast
    then show ?thesis
    proof cases
      case 1
      then have "k < h" "heap_parent h < h" using i heap_parent_less [of h] by auto
      then show ?thesis using 1 above [of d] d h by simp
    next
      case 2
      then show ?thesis using sib [of i] i h by simp
    next
      case 3
      then show ?thesis using edge [of i] i by simp
    qed
  qed
  have e2: "\<not> lt ((xs[h := xs ! d]) ! heap_parent d) ((xs[h := xs ! d]) ! i)"
    if i: "i < length xs" "0 < i" "heap_parent i = d" for i
  proof -
    have "i \<noteq> h" "heap_parent i \<noteq> h" using i hd heap_parent_less [of i] by auto
    then show ?thesis using edge [of i] i d h kh hd by auto
  qed
  show ?thesis
    unfolding down_hole_def using e1 e2 d h dh
    by (auto intro: heap_desc.desc_child)
qed

text \<open>At the bottom the hole has no children, so the value may start its way up from there.\<close>

lemma down_hole_leaf:
  "down_hole lt k xs h \<Longrightarrow> length xs \<le> 2 * h + 1 \<Longrightarrow> up_hole lt k xs h v"
proof -
  assume u: "down_hole lt k xs h" and l: "length xs \<le> 2 * h + 1"
  have "heap_parent i \<noteq> h" if "0 < i" "i < length xs" for i
    using heap_parent_eq [OF that(1), of h] l that(2) by auto
  then have "(xs[h := v]) ! heap_parent i = xs ! heap_parent i" if "0 < i" "i < length xs" for i
    using that by (metis nth_list_update_neq)
  with \<open>\<And>i. 0 < i \<Longrightarrow> i < length xs \<Longrightarrow> heap_parent i \<noteq> h\<close> show ?thesis
    using u by (simp add: down_hole_def up_hole_def)
qed

lemma sift_down_hole:
  "sift_down lt xs h (length xs) = (ys, g) \<Longrightarrow> set xs \<subseteq> S \<Longrightarrow> down_hole lt k xs h \<Longrightarrow>
   set ys \<subseteq> S \<and> down_hole lt k ys g \<and> length ys \<le> 2 * g + 1"
proof (induction "length xs - h" arbitrary: xs h rule: less_induct)
  case less
  have h: "h < length xs" using less.prems(3) by (simp add: down_hole_def)
  let ?c = "2 * (h + 1)"
  define d where "d = (if lt (xs ! ?c) (xs ! (?c - 1)) then ?c - 1 else ?c)"
  consider (inner) "h < (length xs - 1) div 2"
    | (one) "\<not> h < (length xs - 1) div 2" "even (length xs)" "2 \<le> length xs" "h = (length xs - 2) div 2"
    | (leaf) "\<not> h < (length xs - 1) div 2" "\<not> (even (length xs) \<and> 2 \<le> length xs \<and> h = (length xs - 2) div 2)"
    by blast
  then show ?case
  proof cases
    case inner
    have c: "?c < length xs" using inner by auto
    have d: "d < length xs" "0 < d" "heap_parent d = h"
      using c by (auto simp: d_def heap_parent_def)
    have S: "xs ! i \<in> S" if "i < length xs" for i using that less.prems(2) by (simp add: in_S)
    have sib: "\<not> lt (xs ! d) (xs ! i)" if "i < length xs" "0 < i" "heap_parent i = h" for i
    proof -
      have "i = ?c - 1 \<or> i = ?c" using heap_parent_eq [OF that(2), of h] that(3) by auto
      then show ?thesis
        using S [OF c] S [of "?c - 1"] c lt_asym lt_irrefl by (auto simp: d_def)
    qed
    let ?xs = "xs[h := xs ! d]"
    have dh: "down_hole lt k ?xs d" by (rule down_hole_step [OF less.prems(2,3) d sib])
    have sd: "sift_down lt ?xs d (length ?xs) = (ys, g)"
      using less.prems(1) unfolding sift_down.simps [of lt xs h] Let_def d_def [symmetric]
      using inner by simp
    have "set ?xs \<subseteq> S" using less.prems(2) S [OF d(1)] by (simp add: set_update_subsetI)
    moreover have "length ?xs - d < length xs - h"
      using heap_parent_less [OF d(2)] d h by simp
    ultimately show ?thesis using less.hyps [OF _ sd _ dh] by simp
  next
    case one
    have c: "2 * h + 1 < length xs" "length xs = 2 * h + 2" using one(2-4) by auto
    have "down_hole lt k (xs[h := xs ! (2 * h + 1)]) (2 * h + 1)"
    proof (rule down_hole_step [OF less.prems(2,3)])
      fix i
      assume i: "i < length xs" "0 < i" "heap_parent i = h"
      then have "i = 2 * h + 1" using heap_parent_eq [OF i(2), of h] c by auto
      then show "\<not> lt (xs ! (2 * h + 1)) (xs ! i)"
        using lt_irrefl less.prems(2) c by (simp add: in_S)
    qed (use c heap_parent_child in auto)
    moreover have "ys = xs[h := xs ! (2 * h + 1)] \<and> g = 2 * h + 1"
      using less.prems(1) one(1-3) unfolding sift_down.simps [of lt xs h]
      using one(4) [symmetric] by auto
    ultimately show ?thesis
      using less.prems(2) c by (auto simp: set_update_subsetI in_S)
  next
    case leaf
    have "length xs \<le> 2 * h + 1" using leaf h by (auto simp: not_less elim!: oddE evenE)
    then show ?thesis
      using less.prems leaf by (auto simp: sift_down.simps [of lt xs h])
  qed
qed

lemma heap_above_adjust:
  assumes S: "set xs \<subseteq> S" "v \<in> S" and k: "k < length xs" and ha: "heap_above lt (Suc k) xs"
  shows "heap_above lt k (adjust_heap lt xs k v)"
proof -
  obtain ys g where sd: "sift_down lt xs k (length xs) = (ys, g)" by fastforce
  have "down_hole lt k xs k"
    using ha k by (auto simp: down_hole_def heap_above_def intro: heap_desc.desc_refl)
  from sift_down_hole [OF sd S(1) this] have "set ys \<subseteq> S" "up_hole lt k ys g v"
    by (auto intro: down_hole_leaf)
  then show ?thesis using heap_above_sift_up S(2) by (simp add: adjust_heap_def sd)
qed

lemma heap_push:
  assumes "set xs \<subseteq> S" "v \<in> S" "heap_above lt 0 xs"
  shows "heap_above lt 0 (push_heap lt (xs @ [v]))"
proof -
  have nz: "heap_desc 0 i" for i
    by (induction i rule: less_induct)
      (metis desc_refl desc_child heap_parent_less neq0_conv)
  have par: "heap_parent i < length xs" "heap_parent i \<noteq> length xs"
    if "0 < i" "i < Suc (length xs)" for i
    using heap_parent_less [OF that(1)] that(2) by simp_all
  have "up_hole lt 0 (xs @ [v]) (length xs) v"
    using assms(3) nz par
    by (auto simp: up_hole_def heap_above_def nth_append)
  then show ?thesis using heap_above_sift_up [of "xs @ [v]"] assms by (simp add: push_heap_def)
qed

lemma heap_pop:
  assumes "set xs \<subseteq> S" "heap_above lt 0 xs"
  shows "heap_above lt 0 (butlast (pop_heap lt xs))"
proof (cases "length xs \<le> 1")
  case True
  then show ?thesis by (simp add: pop_heap_def heap_above_def)
next
  case False
  then have ne: "xs \<noteq> []" and l: "0 < length (butlast xs)" by auto
  have "heap_above lt 0 (butlast xs)"
    using assms(2) by (force simp: heap_above_def nth_butlast dest: heap_parent_less)
  then have "heap_above lt (Suc 0) (butlast xs)" by (simp add: heap_above_def)
  moreover have "set (butlast xs) \<subseteq> S" "last xs \<in> S"
    using assms(1) ne by (auto dest: in_set_butlastD)
  ultimately have "heap_above lt 0 (adjust_heap lt (butlast xs) 0 (last xs))"
    using l by (intro heap_above_adjust) auto
  with False show ?thesis by (simp add: pop_heap_def)
qed

lemma heap_make_from:
  "set xs \<subseteq> S \<Longrightarrow> p < length xs \<Longrightarrow> heap_above lt (Suc p) xs \<Longrightarrow>
   heap_above lt 0 (make_heap_from lt xs p)"
proof (induction p arbitrary: xs)
  case 0
  then show ?case by (simp add: heap_above_adjust in_S)
next
  case (Suc p)
  let ?ys = "adjust_heap lt xs (Suc p) (xs ! Suc p)"
  have "mset ?ys = mset xs" "length ?ys = length xs"
    using Suc.prems(2) by (simp_all add: adjust_heap_props)
  moreover have "heap_above lt (Suc p) ?ys"
    using Suc.prems by (intro heap_above_adjust) (auto simp: in_S)
  ultimately show ?case
    using Suc by (metis (no_types, lifting) Suc_lessD make_heap_from.simps(2) set_mset_mset)
qed

lemma heap_make:
  assumes "set xs \<subseteq> S"
  shows "heap_above lt 0 (make_heap lt xs)"
proof (cases "length xs < 2")
  case True
  then show ?thesis by (auto simp: make_heap_def heap_above_def)
next
  case False
  have "heap_above lt (Suc ((length xs - 2) div 2)) xs"
    by (auto simp: heap_above_def heap_parent_def)
  then show ?thesis
    using False assms heap_make_from [of xs "(length xs - 2) div 2"] by (auto simp: make_heap_def)
qed

text \<open>The front of a heap is maximal: nothing in the vector is greater.\<close>

lemma heap_front_maximal:
  assumes "set xs \<subseteq> S" "heap_above lt 0 xs"
  shows "i < length xs \<Longrightarrow> \<not> lt (xs ! 0) (xs ! i)"
proof (induction i rule: less_induct)
  case (less i)
  show ?case
  proof (cases "i = 0")
    case True
    then show ?thesis using less.prems assms(1) lt_irrefl by (simp add: in_S)
  next
    case False
    then have p: "heap_parent i < i" by (simp add: heap_parent_less)
    have "\<not> lt (xs ! heap_parent i) (xs ! i)"
      using assms(2) less.prems False by (simp add: heap_above_def)
    moreover have "\<not> lt (xs ! 0) (xs ! heap_parent i)" using less p by simp
    ultimately show ?thesis
      using not_lt_trans [of "xs ! 0" "xs ! heap_parent i" "xs ! i"] less.prems p
        in_S [OF assms(1), of 0] list.size(3) in_S [OF assms(1), of i] in_S [OF assms(1), of "heap_parent i"]
      by fastforce
  qed
qed

lemma sorted_insort_by:
  "set (x # xs) \<subseteq> S \<Longrightarrow> sorted_wrt (\<lambda>a b. \<not> lt b a) xs \<Longrightarrow>
   sorted_wrt (\<lambda>a b. \<not> lt b a) (insort_by lt x xs)"
proof (induction xs)
  case Nil
  then show ?case by simp
next
  case (Cons y ys)
  have set_ins: "set (insort_by lt x ys) = insert x (set ys)"
    by (metis mset_insort_by set_mset_add_mset_insert set_mset_mset)
  show ?case
  proof (cases "lt x y")
    case True
    then have "\<not> lt z x" if "z \<in> set (y # ys)" for z
      using that Cons.prems lt_asym [of x y] not_lt_trans [of z y x] by auto
    then show ?thesis using Cons.prems True by simp
  next
    case False
    then show ?thesis using Cons set_ins by auto
  qed
qed

lemma sorted_sort_by:
  assumes "set xs \<subseteq> S"
  shows "sorted_wrt (\<lambda>a b. \<not> lt b a) (sort_by lt xs)"
proof -
  have "sorted_wrt (\<lambda>a b. \<not> lt b a) (foldl (\<lambda>acc x. insort_by lt x acc) acc xs)"
    if "set acc \<subseteq> S" "sorted_wrt (\<lambda>a b. \<not> lt b a) acc" for acc
    using that assms
  proof (induction xs arbitrary: acc)
    case (Cons x xs)
    have "set (insort_by lt x acc) \<subseteq> S"
      using Cons.prems by (metis insert_subset list.set(2) mset_insort_by
          set_mset_add_mset_insert set_mset_mset)
    then show ?case using Cons by (simp add: sorted_insort_by)
  qed simp
  then show ?thesis by (simp add: sort_by_def)
qed

end

end
