(* ===== verification/Scan_Info.thy ===== *)
theory Scan_Info
  imports Std_Algorithms "HOL-Library.Char_ord" "HOL-Library.List_Lexorder"
    "HOL-Library.Product_Lexorder" "HOL-Library.Option_ord"
begin

text \<open>
  The shared-scan description of a task, \<open>proto/ScanTableInfo.h\<close> and \<open>.cc\<close>: the tables a task
  scans (\<open>ScanTableInfo\<close>), the comparison of two tables, the comparison of two table lists that
  the schedulers order their heaps by (\<open>compareTables\<close>) and the sort that puts the slowest table
  first.

  The lemmas read \<open>compare\<close> as the comparison of a key in a linear order (\<open>sti_key\<close>): it is a
  strict weak order, so the sort is correct. \<open>compareTables\<close> looks at a common prefix only. It is
  a strict partial order in general and a strict weak order between lists of one length, which is
  the instance of \<open>strict_weak_order_on\<close> the heaps of the schedulers rest on.
\<close>

section \<open>Tables and their comparison\<close>

record scanTableInfo =
  stDb :: string
  stTable :: string
  stLockInMemory :: bool
  stScanRating :: int

record scanInfo =
  infoTables :: "scanTableInfo list"
  scanRating :: int

text \<open>\<open>std::string::compare\<close>: lexicographic on unsigned bytes.\<close>

definition string_compare :: "string \<Rightarrow> string \<Rightarrow> int" where
  "string_compare a b = (if a < b then -1 else if b < a then 1 else 0)"

definition ScanTableInfo_compare :: "scanTableInfo \<Rightarrow> scanTableInfo \<Rightarrow> int" where
  "ScanTableInfo_compare this rhs =
     (if \<not> stLockInMemory this then (if stLockInMemory rhs then -1 else 0)
      else if \<not> stLockInMemory rhs then 1
      else if stScanRating this < stScanRating rhs then -1
      else if stScanRating rhs < stScanRating this then 1
      else
        let dbComp = string_compare (stDb this) (stDb rhs) in
        if dbComp < 0 then -1 else if 0 < dbComp then 1
        else
          let tblComp = string_compare (stTable this) (stTable rhs) in
          if tblComp < 0 then -1 else if 0 < tblComp then 1 else 0)"

text \<open>The loop of \<open>compareTables\<close> over the two iterators.\<close>

fun compareTables_loop :: "scanTableInfo list \<Rightarrow> scanTableInfo list \<Rightarrow> int" where
  "compareTables_loop (x # xs) (y # ys) =
     (let tblComp = ScanTableInfo_compare x y in
      if tblComp < 0 then -1 else if 0 < tblComp then 1 else compareTables_loop xs ys)"
| "compareTables_loop _ _ = 0"

definition compareTables :: "scanInfo \<Rightarrow> scanInfo \<Rightarrow> int" where
  "compareTables this rhs =
     (if infoTables this = [] then (if infoTables rhs = [] then 0 else -1)
      else if infoTables rhs = [] then 1
      else compareTables_loop (infoTables this) (infoTables rhs))"

definition slower_first :: "scanTableInfo \<Rightarrow> scanTableInfo \<Rightarrow> bool" where
  "slower_first x y \<longleftrightarrow> 0 < ScanTableInfo_compare x y"

definition sortTablesSlowestFirst :: "scanInfo \<Rightarrow> scanInfo" where
  "sortTablesSlowestFirst s = s\<lparr>infoTables := sort_by slower_first (infoTables s)\<rparr>"

section \<open>compare is the comparison of a key\<close>

definition sti_key :: "scanTableInfo \<Rightarrow> (int \<times> string \<times> string) option" where
  "sti_key t = (if stLockInMemory t then Some (stScanRating t, stDb t, stTable t) else None)"

lemma compare_less: "ScanTableInfo_compare x y < 0 \<longleftrightarrow> sti_key x < sti_key y"
  by (auto simp: ScanTableInfo_compare_def sti_key_def string_compare_def Let_def
      less_prod_def' not_less_iff_gr_or_eq)

lemma compare_greater: "0 < ScanTableInfo_compare x y \<longleftrightarrow> sti_key y < sti_key x"
  by (auto simp: ScanTableInfo_compare_def sti_key_def string_compare_def Let_def
      less_prod_def' not_less_iff_gr_or_eq)

lemma compare_zero: "ScanTableInfo_compare x y = 0 \<longleftrightarrow> sti_key x = sti_key y"
  using compare_less [of x y] compare_greater [of x y] by (metis less_linear less_irrefl)

interpretation tbl_order: strict_weak_order_on UNIV slower_first
  by unfold_locales (auto simp: slower_first_def compare_greater)

section \<open>compareTables\<close>

lemma loop_less_lex:
  "length xs = length ys \<Longrightarrow>
   compareTables_loop xs ys < 0 \<longleftrightarrow> map sti_key xs < map sti_key ys"
proof (induction xs ys rule: compareTables_loop.induct)
  case (1 x xs y ys)
  show ?case
  proof (cases "ScanTableInfo_compare x y = 0")
    case True
    then have "sti_key x = sti_key y" by (simp add: compare_zero)
    then show ?thesis using 1 by (simp add: Let_def compare_less compare_greater)
  next
    case False
    then show ?thesis
      using compare_less [of x y] compare_greater [of x y] by (auto simp: Let_def)
  qed
qed auto

lemma loop_trans:
  "compareTables_loop xs ys < 0 \<Longrightarrow> compareTables_loop ys zs < 0 \<Longrightarrow> compareTables_loop xs zs < 0"
proof (induction xs arbitrary: ys zs)
  case Nil
  then show ?case by simp
next
  case (Cons x xs)
  from Cons.prems obtain y ys' z zs' where l: "ys = y # ys'" "zs = z # zs'"
    by (cases ys; cases zs) auto
  show ?case
    using Cons.prems Cons.IH [of ys' zs'] unfolding l
    by (auto simp: Let_def compare_less compare_greater split: if_splits)
qed

lemma loop_asym: "compareTables_loop xs ys < 0 \<Longrightarrow> \<not> compareTables_loop ys xs < 0"
  by (induction xs ys rule: compareTables_loop.induct)
    (auto simp: Let_def compare_less compare_greater split: if_splits)

lemma compareTables_irrefl: "\<not> compareTables s s < 0"
  using loop_asym by (auto simp: compareTables_def)

lemma compareTables_trans:
  "compareTables a b < 0 \<Longrightarrow> compareTables b c < 0 \<Longrightarrow> compareTables a c < 0"
  using loop_trans by (auto simp: compareTables_def split: if_splits)

text \<open>Between lists of one length \<open>compareTables\<close> is the lexicographic order of the keys.\<close>

definition tables_key :: "scanInfo \<Rightarrow> (int \<times> string \<times> string) option list" where
  "tables_key s = map sti_key (infoTables s)"

lemma compareTables_lex:
  "length (infoTables a) = length (infoTables b) \<Longrightarrow>
   compareTables a b < 0 \<longleftrightarrow> tables_key a < tables_key b"
  by (auto simp: compareTables_def tables_key_def loop_less_lex)

interpretation scan_order: strict_weak_order_on
    "{s. length (infoTables s) = n}" "\<lambda>a b. compareTables a b < 0" for n
  by unfold_locales (auto simp: compareTables_lex)

section \<open>Properties\<close>

text \<open>
  Sorting the tables of a task keeps the tables and puts the slowest first: no table of the
  result is slower than one before it, by the comparison the schedulers use. The other fields are
  unchanged.
\<close>

theorem sortTablesSlowestFirst_correct:
  "mset (infoTables (sortTablesSlowestFirst s)) = mset (infoTables s)
   \<and> sorted_wrt (\<lambda>x y. ScanTableInfo_compare y x \<le> 0) (infoTables (sortTablesSlowestFirst s))
   \<and> scanRating (sortTablesSlowestFirst s) = scanRating s"
  using tbl_order.sorted_sort_by [of "infoTables s"]
  by (simp add: sortTablesSlowestFirst_def mset_sort_by slower_first_def not_less)

end
