(* ===== verification/Mem_Man_Iface.thy ===== *)
theory Mem_Man_Iface
  imports Prelude
begin

text \<open>
  The interface of the memory manager, \<open>memman/MemMan.h\<close>. \<open>MemMan\<close> is an abstract class: its
  virtual methods are a record of functions over a state type (\<open>memMan\<close>), so the schedulers are
  modelled for every implementation. The implementations are in \<open>Memory_Manager\<close>.

  The locale \<open>memman_contract\<close> states what the schedulers rely on: handles are fresh, a failed
  \<open>prepare\<close> and the empty handle hold nothing, \<open>unlock\<close> gives back exactly its handle. Inside it
  stands what follows for any client: a run of calls ends holding exactly the handles that were
  granted and not given back.
\<close>

section \<open>Constants, table descriptions and the virtual methods\<close>

abbreviation (input) ENOENT :: int where "ENOENT \<equiv> 2"
abbreviation (input) EAGAIN :: int where "EAGAIN \<equiv> 11"
abbreviation (input) ENOMEM :: int where "ENOMEM \<equiv> 12"
abbreviation (input) EFAULT :: int where "EFAULT \<equiv> 14"
abbreviation (input) EXDEV :: int where "EXDEV \<equiv> 18"
abbreviation (input) EINVAL :: int where "EINVAL \<equiv> 22"
abbreviation (input) ESPIPE :: int where "ESPIPE \<equiv> 29"

datatype lockType = NOLOCK | REQUIRED | FLEXIBLE | OPTIONAL

record tableInfo =
  tableName :: string
  theData :: lockType
  theIndex :: lockType

text \<open>A handle is a \<open>uint64_t\<close>; 0 and 1 are reserved.\<close>

type_synonym handle = nat

definition H_INVALID :: handle where "H_INVALID = 0"
definition H_ISEMPTY :: handle where "H_ISEMPTY = 1"

text \<open>
  \<open>mmPrepare\<close> returns the handle and the value it leaves in \<open>errno\<close> (meaningful with
  \<open>H_INVALID\<close>); \<open>mmLock\<close> returns an errno value; \<open>mmUnlock\<close> whether the resource was found.
\<close>

record 'm memMan =
  mmPrepare :: "tableInfo list \<Rightarrow> int \<Rightarrow> 'm \<Rightarrow> (handle \<times> int) \<times> 'm"
  mmLock :: "handle \<Rightarrow> bool \<Rightarrow> 'm \<Rightarrow> int \<times> 'm"
  mmUnlock :: "handle \<Rightarrow> 'm \<Rightarrow> bool \<times> 'm"

section \<open>Sequences of calls by a client\<close>

datatype mmCall = CPrepare "tableInfo list" int | CLock handle bool | CUnlock handle

text \<open>
  \<open>mm_run\<close> runs the calls and keeps the client's own book: the handles it was granted and has
  not given back. A strict \<open>lock\<close> that fails has given its handle back.
\<close>

fun mm_run :: "'m memMan \<Rightarrow> mmCall list \<Rightarrow> 'm \<times> handle set \<Rightarrow> 'm \<times> handle set" where
  "mm_run vt [] s = s"
| "mm_run vt (CPrepare ts c # cs) (m, b) =
     (case mmPrepare vt ts c m of ((h, e), m') \<Rightarrow>
        mm_run vt cs (m', if h = H_INVALID \<or> h = H_ISEMPTY then b else insert h b))"
| "mm_run vt (CLock h strict # cs) (m, b) =
     (case mmLock vt h strict m of (rc, m') \<Rightarrow>
        mm_run vt cs (m', if strict \<and> rc \<noteq> 0 then b - {h} else b))"
| "mm_run vt (CUnlock h # cs) (m, b) = mm_run vt cs (snd (mmUnlock vt h m), b - {h})"

section \<open>The contract\<close>

text \<open>
  \<open>budget\<close> is the number of handles the 64-bit handle counter can still give out. \<open>prepare\<close>
  needs one and uses at most one. \<open>issued\<close> are the handles given out so far: a new handle is none of
  them, so a handle that was given back is never confused with a later one.
\<close>

locale memman_contract =
  fixes vt :: "'m memMan" and inv :: "'m \<Rightarrow> bool" and budget :: "'m \<Rightarrow> nat"
    and held :: "'m \<Rightarrow> handle set" and issued :: "'m \<Rightarrow> handle set"
  assumes held_issued: "inv m \<Longrightarrow> held m \<subseteq> issued m"
    and prepare_issued: "inv m \<Longrightarrow> 0 < budget m \<Longrightarrow> mmPrepare vt ts c m = ((h, e), m') \<Longrightarrow>
      if h = H_INVALID \<or> h = H_ISEMPTY then issued m' = issued m
      else h \<notin> issued m \<and> issued m' = insert h (issued m)"
    and lock_issued: "inv m \<Longrightarrow> mmLock vt h s m = (rc, m') \<Longrightarrow> issued m' = issued m"
    and unlock_issued: "inv m \<Longrightarrow> mmUnlock vt h m = (ok, m') \<Longrightarrow> issued m' = issued m"
    and held_valid: "inv m \<Longrightarrow> h \<in> held m \<Longrightarrow> h \<noteq> H_INVALID \<and> h \<noteq> H_ISEMPTY"
    and prepare_inv: "inv m \<Longrightarrow> 0 < budget m \<Longrightarrow> mmPrepare vt ts c m = ((h, e), m') \<Longrightarrow> inv m'"
    and prepare_nothing: "inv m \<Longrightarrow> 0 < budget m \<Longrightarrow> mmPrepare vt ts c m = ((h, e), m') \<Longrightarrow>
      h = H_INVALID \<or> h = H_ISEMPTY \<Longrightarrow> held m' = held m"
    and prepare_fresh: "inv m \<Longrightarrow> 0 < budget m \<Longrightarrow> mmPrepare vt ts c m = ((h, e), m') \<Longrightarrow>
      h \<noteq> H_INVALID \<Longrightarrow> h \<noteq> H_ISEMPTY \<Longrightarrow> h \<notin> held m \<and> held m' = insert h (held m)"
    and prepare_budget: "inv m \<Longrightarrow> 0 < budget m \<Longrightarrow> mmPrepare vt ts c m = ((h, e), m') \<Longrightarrow> budget m \<le> Suc (budget m')"
    and lock_budget: "inv m \<Longrightarrow> mmLock vt h s m = (rc, m') \<Longrightarrow> budget m' = budget m"
    and unlock_budget: "inv m \<Longrightarrow> mmUnlock vt h m = (ok, m') \<Longrightarrow> budget m' = budget m"
    and prepare_empty: "fst (fst (mmPrepare vt [] c m)) = H_ISEMPTY"
    and lock_inv: "inv m \<Longrightarrow> mmLock vt h s m = (rc, m') \<Longrightarrow> inv m'"
    and lock_held: "inv m \<Longrightarrow> mmLock vt h s m = (rc, m') \<Longrightarrow>
      held m' = (if s \<and> rc \<noteq> 0 then held m - {h} else held m)"
    and unlock_inv: "inv m \<Longrightarrow> mmUnlock vt h m = (ok, m') \<Longrightarrow> inv m'"
    and unlock_held: "inv m \<Longrightarrow> mmUnlock vt h m = (ok, m') \<Longrightarrow> held m' = held m - {h}"
    and unlock_found: "inv m \<Longrightarrow> h \<in> held m \<or> h = H_ISEMPTY \<Longrightarrow> fst (mmUnlock vt h m)"
begin

text \<open>
  The client's book agrees with what the manager holds for it, for every sequence of calls that is
  not longer than the budget of handles.
\<close>

lemma run_book:
  "mm_run vt cs (m, b) = (m', b') \<Longrightarrow> inv m \<Longrightarrow> held m = b \<Longrightarrow> length cs \<le> budget m \<Longrightarrow>
   inv m' \<and> held m' = b'"
proof (induction cs arbitrary: m b)
  case Nil
  then show ?case by simp
next
  case (Cons c cs)
  then have room: "0 < budget m" by simp
  show ?case
  proof (cases c)
    case (CPrepare ts ch)
    obtain h e m1 where p: "mmPrepare vt ts ch m = ((h, e), m1)"
      by (metis prod.collapse)
    let ?b = "if h = H_INVALID \<or> h = H_ISEMPTY then b else insert h b"
    have "inv m1" using prepare_inv p Cons.prems(2) room by blast
    moreover have "held m1 = ?b"
      using prepare_nothing [OF _ _ p] prepare_fresh [OF _ _ p] Cons.prems(2,3) room by auto
    moreover have "length cs \<le> budget m1" using prepare_budget [OF Cons.prems(2) room p] Cons.prems(4) by simp
    ultimately show ?thesis using Cons.IH [of m1 ?b] Cons.prems(1) CPrepare p by simp
  next
    case (CLock h s)
    obtain rc m1 where l: "mmLock vt h s m = (rc, m1)" by fastforce
    let ?b = "if s \<and> rc \<noteq> 0 then b - {h} else b"
    have "inv m1" "held m1 = ?b" "length cs \<le> budget m1"
      using lock_inv [OF _ l] lock_held [OF _ l] lock_budget [OF _ l] Cons.prems(2-4) by auto
    then show ?thesis using Cons.IH [of m1 ?b] Cons.prems(1) CLock l by simp
  next
    case (CUnlock h)
    obtain ok m1 where u: "mmUnlock vt h m = (ok, m1)" by fastforce
    then have "inv m1" "held m1 = b - {h}" "length cs \<le> budget m1"
      using unlock_inv unlock_held unlock_budget Cons.prems(2-4) by auto
    then show ?thesis using Cons.IH [of m1 "b - {h}"] Cons.prems(1) CUnlock u by simp
  qed
qed

end

end
