(* ===== verification/Task.thy ===== *)
theory Task
  imports Scan_Info Mem_Man_Iface
begin

text \<open>
  \<open>wbase/Task.h\<close> and \<open>Task.cc\<close>: one query task of a worker. What is fixed when a \<open>Task\<close> is built is
  the record \<open>task\<close> (\<open>tPtr\<close> is the identity of the object); what changes later is the record
  \<open>taskSt\<close>, kept in a store by \<open>tPtr\<close>, so that all holders of a \<open>Task::Ptr\<close> see the change. The
  world of the schedulers is the store and the state of the memory manager.

  Times are counts of the system clock's ticks (nanoseconds). The entry time and its printed form,
  the hash, the user and the identifier string are used for display only and are left out, as is
  the set \<open>allIds\<close> of identifiers that exists for debugging.
\<close>

section \<open>Data\<close>

datatype taskState = CREATED | QUEUED | RUNNING | FINISHED

text \<open>The fields of the protobuf message \<open>TaskMsg\<close> that the constructor reads.\<close>

record taskMsg =
  msgQueryId :: nat
  msgJobId :: int
  msgAttempt :: int
  msgChunkId :: "int option"
  msgScanTables :: "scanTableInfo list"
  msgScanPriority :: int
  msgScanInteractive :: bool

record task =
  tPtr :: nat
  tMsgChunkId :: "int option"
  tQId :: nat
  tJId :: int
  tAttempt :: int
  tScanInfo :: scanInfo
  tScanInteractive :: bool

record taskSt =
  tsMemHandle :: handle
  tsHasMemMan :: bool
  tsRunner :: "nat option"
  tsScheduler :: "nat option"
  tsState :: taskState
  tsQueueTime :: int
  tsStartTime :: int
  tsFinishTime :: int
  tsCancelled :: bool
  tsSafeToMoveRunning :: bool
  tsOnInteractive :: bool
  tsPoolThread :: "nat option"

record 'm world =
  wTasks :: "nat \<Rightarrow> taskSt"
  wMem :: 'm

abbreviation task_st :: "task \<Rightarrow> 'm world \<Rightarrow> taskSt" where
  "task_st t w \<equiv> wTasks w (tPtr t)"

abbreviation upd_task :: "task \<Rightarrow> (taskSt \<Rightarrow> taskSt) \<Rightarrow> 'm world \<Rightarrow> 'm world" where
  "upd_task t g w \<equiv> w\<lparr>wTasks := (wTasks w)(tPtr t := g (wTasks w (tPtr t)))\<rparr>"

section \<open>Construction\<close>

definition Task_new :: "nat \<Rightarrow> taskMsg \<Rightarrow> task" where
  "Task_new ptr msg = \<lparr>tPtr = ptr, tMsgChunkId = msgChunkId msg, tQId = msgQueryId msg,
     tJId = msgJobId msg, tAttempt = msgAttempt msg,
     tScanInfo = sortTablesSlowestFirst
       \<lparr>infoTables = msgScanTables msg, scanRating = msgScanPriority msg\<rparr>,
     tScanInteractive = msgScanInteractive msg\<rparr>"

definition taskSt_new :: taskSt where
  "taskSt_new = \<lparr>tsMemHandle = H_INVALID, tsHasMemMan = False, tsRunner = None, tsScheduler = None,
     tsState = CREATED, tsQueueTime = 0, tsStartTime = 0, tsFinishTime = 0, tsCancelled = False,
     tsSafeToMoveRunning = False, tsOnInteractive = False, tsPoolThread = None\<rparr>"

section \<open>Accessors\<close>

definition getChunkId :: "task \<Rightarrow> int" where
  "getChunkId t = (case tMsgChunkId t of Some c \<Rightarrow> c | None \<Rightarrow> -1)"

definition idsMatch :: "task \<Rightarrow> nat \<Rightarrow> int \<Rightarrow> bool" where
  "idsMatch t qId jId \<longleftrightarrow> tQId t = qId \<and> tJId t = jId"

text \<open>\<open>chunkid()\<close> of a message without a chunk id is the protobuf default 0.\<close>

definition msg_chunkid :: "task \<Rightarrow> int" where
  "msg_chunkid t = (case tMsgChunkId t of Some c \<Rightarrow> c | None \<Rightarrow> 0)"

definition ChunkEqual :: "task option \<Rightarrow> task option \<Rightarrow> bool" where
  "ChunkEqual x y =
     (case (x, y) of
        (Some a, Some b) \<Rightarrow> tMsgChunkId a \<noteq> None \<and> tMsgChunkId b \<noteq> None \<and> msg_chunkid a = msg_chunkid b
      | _ \<Rightarrow> False)"

definition ChunkIdGreater :: "task option \<Rightarrow> task option \<Rightarrow> bool" where
  "ChunkIdGreater x y = (case (x, y) of (Some a, Some b) \<Rightarrow> msg_chunkid b < msg_chunkid a | _ \<Rightarrow> False)"

definition hasMemHandle :: "taskSt \<Rightarrow> bool" where
  "hasMemHandle s \<longleftrightarrow> tsMemHandle s \<noteq> H_INVALID"

definition setMemHandle :: "task \<Rightarrow> handle \<Rightarrow> 'm world \<Rightarrow> 'm world" where
  "setMemHandle t h = upd_task t (\<lambda>s. s\<lparr>tsMemHandle := h\<rparr>)"

definition setMemMan :: "task \<Rightarrow> 'm world \<Rightarrow> 'm world" where
  "setMemMan t = upd_task t (\<lambda>s. s\<lparr>tsHasMemMan := True\<rparr>)"

definition setTaskScheduler :: "task \<Rightarrow> nat \<Rightarrow> 'm world \<Rightarrow> 'm world" where
  "setTaskScheduler t k = upd_task t (\<lambda>s. s\<lparr>tsScheduler := Some k\<rparr>)"

definition setOnInteractive :: "task \<Rightarrow> bool \<Rightarrow> 'm world \<Rightarrow> 'm world" where
  "setOnInteractive t b = upd_task t (\<lambda>s. s\<lparr>tsOnInteractive := b\<rparr>)"

section \<open>Cancellation\<close>

text \<open>The calls that \<open>cancel\<close> makes on other objects, in order.\<close>

datatype cancelCall = RunnerCancel nat | SchedulerTaskCancelled nat

definition Task_cancel :: "taskSt \<Rightarrow> cancelCall list \<times> taskSt" where
  "Task_cancel s =
     (if tsCancelled s then ([], s)
      else ((case tsRunner s of Some r \<Rightarrow> [RunnerCancel r] | None \<Rightarrow> [])
            @ (case tsScheduler s of Some k \<Rightarrow> [SchedulerTaskCancelled k] | None \<Rightarrow> []),
            s\<lparr>tsCancelled := True\<rparr>))"

definition setTaskQueryRunner :: "nat \<Rightarrow> taskSt \<Rightarrow> bool \<times> taskSt" where
  "setTaskQueryRunner r s = (tsCancelled s, s\<lparr>tsRunner := Some r\<rparr>)"

definition freeTaskQueryRunner :: "nat \<Rightarrow> taskSt \<Rightarrow> taskSt" where
  "freeTaskQueryRunner r s = (if tsRunner s = Some r then s\<lparr>tsRunner := None\<rparr> else s)"

section \<open>State and times\<close>

definition Task_queued :: "int \<Rightarrow> taskSt \<Rightarrow> taskSt" where
  "Task_queued now s = s\<lparr>tsState := QUEUED, tsQueueTime := now\<rparr>"

definition Task_started :: "int \<Rightarrow> taskSt \<Rightarrow> taskSt" where
  "Task_started now s = s\<lparr>tsState := RUNNING, tsStartTime := now\<rparr>"

text \<open>\<open>duration_cast<milliseconds>\<close> of a tick count.\<close>

definition to_millis :: "int \<Rightarrow> int" where
  "to_millis ticks = trunc_div ticks 1000000"

definition Task_finished :: "int \<Rightarrow> taskSt \<Rightarrow> int \<times> taskSt" where
  "Task_finished now s =
     (let s' = s\<lparr>tsFinishTime := now, tsState := FINISHED\<rparr>;
          duration = to_millis (tsFinishTime s' - tsStartTime s')
      in (if duration < 1 then 1 else duration, s'))"

definition getRunTime :: "int \<Rightarrow> taskSt \<Rightarrow> int" where
  "getRunTime now s =
     (if tsState s = FINISHED then to_millis (tsFinishTime s - tsStartTime s)
      else if tsState s = RUNNING then to_millis (now - tsStartTime s)
      else 0)"

section \<open>Waiting for the memory manager\<close>

definition waitForMemMan :: "'m memMan \<Rightarrow> task \<Rightarrow> 'm world \<Rightarrow> 'm world" where
  "waitForMemMan vt t w =
     (let w' = (if tsHasMemMan (task_st t w)
                then w\<lparr>wMem := snd (mmLock vt (tsMemHandle (task_st t w)) True (wMem w))\<rparr> else w)
      in upd_task t (\<lambda>s. s\<lparr>tsSafeToMoveRunning := True\<rparr>) w')"

section \<open>Lemmas\<close>

lemma task_store_simps [simp]:
  "wMem (setMemHandle t h w) = wMem w" "wMem (setMemMan t w) = wMem w"
  "wMem (setTaskScheduler t k w) = wMem w" "wMem (setOnInteractive t b w) = wMem w"
  "task_st u (setMemHandle t h w) = (if tPtr u = tPtr t then (task_st t w)\<lparr>tsMemHandle := h\<rparr> else task_st u w)"
  "tsMemHandle (task_st u (setMemMan t w)) = tsMemHandle (task_st u w)"
  "tsMemHandle (task_st u (setTaskScheduler t k w)) = tsMemHandle (task_st u w)"
  "tsMemHandle (task_st u (setOnInteractive t b w)) = tsMemHandle (task_st u w)"
  by (auto simp: setMemHandle_def setMemMan_def setTaskScheduler_def setOnInteractive_def)

text \<open>
  The life of a task: after it was queued, started at \<open>s\<close> and finished at \<open>f\<close>, it is \<open>FINISHED\<close>,
  \<open>finished\<close> has returned a positive number of milliseconds, and that number is the task's run
  time except that a run time below one millisecond (also a negative one, when the clock was set
  back) is reported as 1.
\<close>

theorem finished_duration:
  "let (d, st) = Task_finished f (Task_started s (Task_queued q st0))
   in 1 \<le> d \<and> tsState st = FINISHED \<and> d = max 1 (getRunTime now st)
      \<and> getRunTime now st = to_millis (f - s) \<and> tsQueueTime st = q"
  by (simp add: Task_finished_def Task_started_def Task_queued_def getRunTime_def Let_def)

text \<open>
  Cancelling is idempotent: the first \<open>cancel\<close> marks the task and tells the query runner and the
  scheduler, at most once each; every later call makes no call and changes nothing, also when a
  query runner was attached in between, and attaching one then reports the cancellation.
\<close>

theorem cancel_once:
  "let (calls, s1) = Task_cancel s; (told, s2) = setTaskQueryRunner r s1; (again, s3) = Task_cancel s2
   in tsCancelled s1 \<and> length calls \<le> 2 \<and> distinct calls \<and> told \<and> again = [] \<and> s3 = s2"
  by (auto simp: Task_cancel_def setTaskQueryRunner_def split: option.splits)

section \<open>Concrete tasks\<close>

text \<open>Tasks on one chunk with tables of given scan ratings, and a world of new tasks, for concrete runs.\<close>

definition demo_task :: "nat \<Rightarrow> int \<Rightarrow> int list \<Rightarrow> task" where
  "demo_task ptr chunkId ratings = Task_new ptr \<lparr>msgQueryId = 1, msgJobId = int ptr, msgAttempt = 0,
     msgChunkId = Some chunkId,
     msgScanTables = map (\<lambda>r. \<lparr>stDb = ''LSST'', stTable = ''Object'', stLockInMemory = True, stScanRating = r\<rparr>) ratings,
     msgScanPriority = 1, msgScanInteractive = False\<rparr>"

definition demo_world :: "unit world" where
  "demo_world = \<lparr>wTasks = (\<lambda>_. taskSt_new), wMem = ()\<rparr>"

end
