(* ===== verification/Scheduler_Base.thy ===== *)
theory Scheduler_Base
  imports Task
begin

text \<open>
  \<open>wsched/SchedulerBase.h\<close> and \<open>SchedulerBase.cc\<close>: what the group scheduler, the scan schedulers and
  the blend scheduler share. The record \<open>schedBase\<close> has the members of the class; the two count
  maps (\<open>_userQueryCounts\<close>, \<open>_chunkTasks\<close>) hold an entry only while its count is positive, so a map
  stands for the multiset of its keys (\<open>counts_for\<close>), and the sizes of the maps are the numbers of
  different user queries on the queue and of different chunks in flight.
\<close>

section \<open>Commands and members\<close>

text \<open>
  A \<open>util::Command\<close> is a task or one of the pool's control commands, named by a number: the schedulers
  tell them apart by a dynamic cast to \<open>Task\<close> and never look into a control command.
\<close>

datatype command = TaskCmd task | ControlCmd nat

record schedBase =
  sbName :: string
  sbMaxReserve :: int
  sbMaxReserveDefault :: int
  sbMaxThreads :: int
  sbMaxThreadsAdj :: int
  sbPriority :: int
  sbPriorityDefault :: int
  sbInFlight :: int
  sbUserQueryCounts :: "(nat, int) omap"
  sbChunkTasks :: "(int, int) omap"
  sbMaxActiveChunks :: int
  sbDefaultPosition :: int

definition setMaxActiveChunks :: "int \<Rightarrow> schedBase \<Rightarrow> schedBase" where
  "setMaxActiveChunks maxActive b = b\<lparr>sbMaxActiveChunks := (if maxActive < 1 then 1 else maxActive)\<rparr>"

definition SchedulerBase_new :: "string \<Rightarrow> int \<Rightarrow> int \<Rightarrow> int \<Rightarrow> int \<Rightarrow> schedBase" where
  "SchedulerBase_new name maxThreads maxReserve maxActiveChunks priority =
     setMaxActiveChunks maxActiveChunks
       \<lparr>sbName = name, sbMaxReserve = maxReserve, sbMaxReserveDefault = maxReserve,
        sbMaxThreads = maxThreads, sbMaxThreadsAdj = maxThreads, sbPriority = priority,
        sbPriorityDefault = priority, sbInFlight = 0, sbUserQueryCounts = [], sbChunkTasks = [],
        sbMaxActiveChunks = 0, sbDefaultPosition = 10\<rparr>"

section \<open>Priority and threads\<close>

definition setPriority :: "int \<Rightarrow> schedBase \<Rightarrow> schedBase" where
  "setPriority priority b = b\<lparr>sbPriority := priority\<rparr>"

definition setPriorityDefault :: "schedBase \<Rightarrow> schedBase" where
  "setPriorityDefault b = b\<lparr>sbPriority := sbPriorityDefault b\<rparr>"

definition setMaxReserve :: "int \<Rightarrow> schedBase \<Rightarrow> schedBase" where
  "setMaxReserve maxReserve b = b\<lparr>sbMaxReserve := maxReserve\<rparr>"

definition restoreMaxReserve :: "schedBase \<Rightarrow> schedBase" where
  "restoreMaxReserve b = setMaxReserve (sbMaxReserveDefault b) b"

definition desiredThreadReserve :: "schedBase \<Rightarrow> int" where
  "desiredThreadReserve b = min (sbInFlight b + 1) (sbMaxReserve b)"

definition applyAvailableThreads :: "int \<Rightarrow> schedBase \<Rightarrow> int \<times> schedBase" where
  "applyAvailableThreads availableThreads b =
     (availableThreads - max 0 (sbInFlight b - sbMaxReserve b),
      b\<lparr>sbMaxThreadsAdj := availableThreads + desiredThreadReserve b\<rparr>)"

definition maxInFlight :: "schedBase \<Rightarrow> int" where
  "maxInFlight b = min (sbMaxThreads b) (sbMaxThreadsAdj b)"

section \<open>Count maps\<close>

text \<open>\<open>++m[k]\<close>, and the decrement that drops an entry at 0 and ignores a missing one.\<close>

definition count_at :: "('k, int) omap \<Rightarrow> 'k \<Rightarrow> int" where
  "count_at m k = (case omap_find m k of Some n \<Rightarrow> n | None \<Rightarrow> 0)"

definition count_incr :: "'k::linorder \<Rightarrow> ('k, int) omap \<Rightarrow> ('k, int) omap" where
  "count_incr k m = omap_set k (count_at m k + 1) m"

definition count_decr :: "'k::linorder \<Rightarrow> ('k, int) omap \<Rightarrow> ('k, int) omap" where
  "count_decr k m =
     (case omap_find m k of
        Some n \<Rightarrow> if n - 1 \<le> 0 then omap_erase k m else omap_set k (n - 1) m
      | None \<Rightarrow> m)"

definition incrCountForUserQuery :: "nat \<Rightarrow> schedBase \<Rightarrow> int \<times> schedBase" where
  "incrCountForUserQuery queryId b =
     (let m = count_incr queryId (sbUserQueryCounts b)
      in (count_at m queryId, b\<lparr>sbUserQueryCounts := m\<rparr>))"

definition decrCountForUserQuery :: "nat \<Rightarrow> schedBase \<Rightarrow> int \<times> schedBase" where
  "decrCountForUserQuery queryId b =
     ((case omap_find (sbUserQueryCounts b) queryId of Some n \<Rightarrow> n - 1 | None \<Rightarrow> 0),
      b\<lparr>sbUserQueryCounts := count_decr queryId (sbUserQueryCounts b)\<rparr>)"

definition getUserQueriesInQ :: "schedBase \<Rightarrow> nat" where
  "getUserQueriesInQ b = length (sbUserQueryCounts b)"

definition incrChunkTaskCount :: "int \<Rightarrow> schedBase \<Rightarrow> schedBase" where
  "incrChunkTaskCount chunkId b = b\<lparr>sbChunkTasks := count_incr chunkId (sbChunkTasks b)\<rparr>"

definition decrChunkTaskCount :: "int \<Rightarrow> schedBase \<Rightarrow> schedBase" where
  "decrChunkTaskCount chunkId b = b\<lparr>sbChunkTasks := count_decr chunkId (sbChunkTasks b)\<rparr>"

definition getActiveChunkCount :: "schedBase \<Rightarrow> int" where
  "getActiveChunkCount b = int (length (sbChunkTasks b))"

definition chunkAlreadyActive :: "int \<Rightarrow> schedBase \<Rightarrow> bool" where
  "chunkAlreadyActive chunkId b \<longleftrightarrow> omap_find (sbChunkTasks b) chunkId \<noteq> None"

definition chunkStatusStr :: "schedBase \<Rightarrow> string" where
  "chunkStatusStr b =
     sbName b @ '' ActiveChunks='' @ nat_to_string (length (sbChunkTasks b)) @ '' ''
     @ concat (map (\<lambda>(chunkId, n). ''('' @ int_to_string chunkId @ '':'' @ int_to_string n @ '')'')
         (sbChunkTasks b))"

section \<open>The multiset behind a count map\<close>

definition counts_for :: "('k::linorder, int) omap \<Rightarrow> 'k multiset \<Rightarrow> bool" where
  "counts_for m M \<longleftrightarrow> omap_wf m \<and> (\<forall>k. omap_find m k =
     (if k \<in># M then Some (int (count M k)) else None))"

lemma counts_for_Nil [simp]: "counts_for [] {#}"
  by (simp add: counts_for_def)

lemma counts_for_incr [conserve]:
  assumes "counts_for m M"
  shows "counts_for (count_incr k m) (add_mset k M)"
  using assms by (auto simp: counts_for_def count_incr_def count_at_def not_in_iff)

lemma counts_for_decr [conserve]:
  assumes "counts_for m M"
  shows "counts_for (count_decr k m) (M - {#k#})"
proof (cases "k \<in># M")
  case True
  then have "omap_find m k = Some (int (count M k))" "0 < count M k"
    using assms by (auto simp: counts_for_def)
  then show ?thesis
    using assms by (auto simp: counts_for_def count_decr_def in_diff_count not_in_iff)
next
  case False
  then have "M - {#k#} = M" by (simp add: diff_single_trivial)
  then show ?thesis using False assms by (simp add: counts_for_def count_decr_def)
qed

lemma counts_for_find: "counts_for m M \<Longrightarrow> omap_find m k \<noteq> None \<longleftrightarrow> k \<in># M"
  by (simp add: counts_for_def)

lemma counts_for_size:
  assumes "counts_for m M"
  shows "length m = card (set_mset M)"
proof -
  have "fst ` set m = set_mset M"
    using counts_for_find [OF assms] omap_find_key [of m] by blast
  moreover have "distinct (map fst m)" using assms omap_wf_distinct by (auto simp: counts_for_def)
  ultimately show ?thesis
    by (metis distinct_card length_map set_map)
qed

text \<open>What the scheduler operations below change, field by field.\<close>

lemma base_count_simps [simp]:
  "sbInFlight (snd (incrCountForUserQuery q b)) = sbInFlight b"
  "sbInFlight (snd (decrCountForUserQuery q b)) = sbInFlight b"
  "sbInFlight (incrChunkTaskCount c b) = sbInFlight b"
  "sbInFlight (decrChunkTaskCount c b) = sbInFlight b"
  "sbChunkTasks (snd (incrCountForUserQuery q b)) = sbChunkTasks b"
  "sbChunkTasks (snd (decrCountForUserQuery q b)) = sbChunkTasks b"
  "sbUserQueryCounts (incrChunkTaskCount c b) = sbUserQueryCounts b"
  "sbUserQueryCounts (decrChunkTaskCount c b) = sbUserQueryCounts b"
  "sbUserQueryCounts (snd (incrCountForUserQuery q b)) = count_incr q (sbUserQueryCounts b)"
  "sbUserQueryCounts (snd (decrCountForUserQuery q b)) = count_decr q (sbUserQueryCounts b)"
  "sbChunkTasks (incrChunkTaskCount c b) = count_incr c (sbChunkTasks b)"
  "sbChunkTasks (decrChunkTaskCount c b) = count_decr c (sbChunkTasks b)"
  "maxInFlight (snd (incrCountForUserQuery q b)) = maxInFlight b"
  "maxInFlight (snd (decrCountForUserQuery q b)) = maxInFlight b"
  "maxInFlight (incrChunkTaskCount c b) = maxInFlight b"
  "maxInFlight (decrChunkTaskCount c b) = maxInFlight b"
  by (simp_all add: incrCountForUserQuery_def decrCountForUserQuery_def incrChunkTaskCount_def
      decrChunkTaskCount_def maxInFlight_def Let_def)

end
