(* ===== verification/Task_Collection.thy ===== *)
theory Task_Collection
  imports Scheduler_Base
begin

text \<open>
  \<open>wsched/ChunkTaskCollection.h\<close>: the interface of the collections that a scan scheduler keeps its
  queued tasks in. The abstract class is the record \<open>taskCollection\<close> of its virtual methods; the
  implementations are in \<open>Chunk_Tasks_Queue\<close> and \<open>Chunk_Disk\<close>.

  \<open>mem_request\<close> is the part that both implementations share: asking the memory manager for the
  tables of a task. \<open>acquires\<close> describes all a collection may do to the world: some failed
  requests and some handles given to tasks of its own that had none.

  The locale \<open>task_collection\<close> states the contract, over the multiset of queued tasks; inside it,
  tasks are proved to be conserved by every sequence of operations. \<open>std::bad_exception\<close>, which
  nothing catches, is the error \<open>BadException\<close>; \<open>Bug\<close> and \<open>AssertFailed\<close> are the other ways a
  scheduler can end the worker.
\<close>

section \<open>Requesting memory for a task\<close>

datatype sched_error = BadException | Bug | AssertFailed

definition tblVect :: "bool \<Rightarrow> task \<Rightarrow> tableInfo list" where
  "tblVect useFlexibleLock t =
     map (\<lambda>tbl. \<lparr>tableName = stDb tbl @ ''/'' @ stTable tbl,
                 theData = (if useFlexibleLock then FLEXIBLE else REQUIRED), theIndex = NOLOCK\<rparr>)
       (infoTables (tScanInfo t))"

definition mem_request :: "'m memMan \<Rightarrow> bool \<Rightarrow> task \<Rightarrow> 'm world \<Rightarrow> sched_error + (bool \<times> 'm world)" where
  "mem_request vt useFlexibleLock t w =
     (case mmPrepare vt (tblVect useFlexibleLock t) (getChunkId t) (wMem w) of ((h, errno), m) \<Rightarrow>
        let w' = w\<lparr>wMem := m\<rparr> in
        if h = H_INVALID then
          (if errno = ENOMEM then Inr (False, w')
           else if errno = ENOENT then Inr (True, setMemHandle t H_ISEMPTY w')
           else Inl BadException)
        else Inr (True, setMemHandle t h w'))"

text \<open>
  \<open>acquires vt S n w w'\<close>: from \<open>w\<close> to \<open>w'\<close> by \<open>n\<close> calls of \<open>prepare\<close>, whose handles went to tasks of
  \<open>S\<close> that had no handle.
\<close>

inductive acquires :: "'m memMan \<Rightarrow> task set \<Rightarrow> nat \<Rightarrow> 'm world \<Rightarrow> 'm world \<Rightarrow> bool" for vt S where
  none: "acquires vt S 0 w w"
| refused: "acquires vt S n w w1 \<Longrightarrow> mmPrepare vt ts c (wMem w1) = ((H_INVALID, e), m) \<Longrightarrow>
    acquires vt S (Suc n) w (w1\<lparr>wMem := m\<rparr>)"
| granted: "acquires vt S n w w1 \<Longrightarrow> mmPrepare vt ts c (wMem w1) = ((h, e), m) \<Longrightarrow> h \<noteq> H_INVALID \<Longrightarrow>
    t \<in> S \<Longrightarrow> \<not> hasMemHandle (task_st t w1) \<Longrightarrow>
    acquires vt S (Suc n) w (setMemHandle t h (w1\<lparr>wMem := m\<rparr>))"
| absent: "acquires vt S n w w1 \<Longrightarrow> mmPrepare vt ts c (wMem w1) = ((H_INVALID, e), m) \<Longrightarrow>
    t \<in> S \<Longrightarrow> \<not> hasMemHandle (task_st t w1) \<Longrightarrow>
    acquires vt S (Suc n) w (setMemHandle t H_ISEMPTY (w1\<lparr>wMem := m\<rparr>))"

lemma acquires_mono: "acquires vt S n w w' \<Longrightarrow> S \<subseteq> T \<Longrightarrow> acquires vt T n w w'"
  by (induction rule: acquires.induct) (auto intro: acquires.intros)

lemma acquires_trans:
  assumes "acquires vt S n w w1" "acquires vt S k w1 w2"
  shows "acquires vt S (n + k) w w2"
  using assms(2,1) by (induction rule: acquires.induct) (auto intro: acquires.intros)

lemma acquires_keeps_handles:
  "acquires vt S n w w' \<Longrightarrow> hasMemHandle (wTasks w p) \<Longrightarrow> wTasks w' p = wTasks w p"
  by (induction rule: acquires.induct) (auto simp: setMemHandle_def)

lemma acquires_has_handle:
  "acquires vt S n w w' \<Longrightarrow> hasMemHandle (wTasks w p) \<Longrightarrow> hasMemHandle (wTasks w' p)"
  using acquires_keeps_handles by metis

lemma mem_request_acquires:
  assumes "mem_request vt fl t w = Inr (b, w')" "\<not> hasMemHandle (task_st t w)" "t \<in> S"
  shows "acquires vt S 1 w w'" "b \<longleftrightarrow> hasMemHandle (task_st t w')"
proof -
  obtain h e m where p: "mmPrepare vt (tblVect fl t) (getChunkId t) (wMem w) = ((h, e), m)"
    by (metis prod.collapse)
  show "acquires vt S 1 w w'"
    using assms p acquires.none [of vt S w]
    by (auto simp: mem_request_def Let_def split: if_splits intro: acquires.intros)
  show "b \<longleftrightarrow> hasMemHandle (task_st t w')"
    using assms p by (auto simp: mem_request_def Let_def hasMemHandle_def H_ISEMPTY_def H_INVALID_def
        setMemHandle_def split: if_splits)
qed

section \<open>The virtual methods\<close>

text \<open>
  \<open>tcReady\<close> and \<open>tcGetTask\<close> take the scheduler that owns the collection (\<open>nullptr\<close> is \<open>None\<close>): they
  read its chunk counts.
\<close>

record ('q, 'm) taskCollection =
  tcQueueTask :: "task \<Rightarrow> 'q \<Rightarrow> 'q"
  tcReady :: "'m memMan \<Rightarrow> schedBase option \<Rightarrow> bool \<Rightarrow> 'q \<Rightarrow> 'm world \<Rightarrow> sched_error + (bool \<times> 'q \<times> 'm world)"
  tcGetTask :: "'m memMan \<Rightarrow> schedBase option \<Rightarrow> bool \<Rightarrow> 'q \<Rightarrow> 'm world \<Rightarrow> sched_error + (task option \<times> 'q \<times> 'm world)"
  tcTaskComplete :: "task \<Rightarrow> 'q \<Rightarrow> 'q"
  tcRemoveTask :: "task \<Rightarrow> 'q \<Rightarrow> task option \<times> 'q"
  tcSetResourceStarved :: "bool \<Rightarrow> 'q \<Rightarrow> bool \<times> 'q"
  tcNextTaskDifferentChunkId :: "'q \<Rightarrow> bool"
  tcEmpty :: "'q \<Rightarrow> bool"
  tcGetSize :: "'q \<Rightarrow> int"

text \<open>A run of operations; the tasks delivered and the tasks removed, in order.\<close>

datatype collOp = OpQueue task | OpReady bool | OpGet bool | OpComplete task | OpRemove task

definition op_queued :: "collOp list \<Rightarrow> task multiset" where
  "op_queued ops = mset (concat (map (\<lambda>op. case op of OpQueue t \<Rightarrow> [t] | _ \<Rightarrow> []) ops))"

fun coll_run :: "('q, 'm) taskCollection \<Rightarrow> 'm memMan \<Rightarrow> schedBase option \<Rightarrow> collOp list \<Rightarrow>
    'q \<times> 'm world \<Rightarrow> sched_error + (task list \<times> task list \<times> 'q \<times> 'm world)" where
  "coll_run tc vt sb [] (q, w) = Inr ([], [], q, w)"
| "coll_run tc vt sb (OpQueue t # ops) (q, w) = coll_run tc vt sb ops (tcQueueTask tc t q, w)"
| "coll_run tc vt sb (OpReady fl # ops) (q, w) =
     (case tcReady tc vt sb fl q w of Inl e \<Rightarrow> Inl e
      | Inr (b, q', w') \<Rightarrow> coll_run tc vt sb ops (q', w'))"
| "coll_run tc vt sb (OpGet fl # ops) (q, w) =
     (case tcGetTask tc vt sb fl q w of Inl e \<Rightarrow> Inl e
      | Inr (r, q', w') \<Rightarrow>
          (case coll_run tc vt sb ops (q', w') of Inl e \<Rightarrow> Inl e
           | Inr (out, rem, s) \<Rightarrow> Inr ((case r of Some t \<Rightarrow> t # out | None \<Rightarrow> out), rem, s)))"
| "coll_run tc vt sb (OpComplete t # ops) (q, w) = coll_run tc vt sb ops (tcTaskComplete tc t q, w)"
| "coll_run tc vt sb (OpRemove t # ops) (q, w) =
     (case tcRemoveTask tc t q of (r, q') \<Rightarrow>
        (case coll_run tc vt sb ops (q', w) of Inl e \<Rightarrow> Inl e
         | Inr (out, rem, s) \<Rightarrow> Inr (out, (case r of Some u \<Rightarrow> u # rem | None \<Rightarrow> rem), s)))"

section \<open>The contract\<close>

text \<open>
  \<open>inv q w\<close> is the collection's invariant, \<open>contents q\<close> its queued tasks. The world may change behind
  the collection's back as long as its tasks keep their handles (\<open>inv_world\<close>).
\<close>

locale task_collection =
  fixes tc :: "('q, 'm) taskCollection" and inv :: "'q \<Rightarrow> 'm world \<Rightarrow> bool"
    and contents :: "'q \<Rightarrow> task multiset"
  assumes inv_world: "inv q w \<Longrightarrow>
      (\<And>t. t \<in># contents q \<Longrightarrow> hasMemHandle (task_st t w) \<Longrightarrow> hasMemHandle (task_st t w')) \<Longrightarrow> inv q w'"
    and queue_inv: "inv q w \<Longrightarrow> inv (tcQueueTask tc t q) w"
    and queue_contents: "inv q w \<Longrightarrow> contents (tcQueueTask tc t q) = add_mset t (contents q)"
    and ready_inv: "inv q w \<Longrightarrow> tcReady tc vt sb fl q w = Inr (b, q', w') \<Longrightarrow> inv q' w'"
    and ready_contents: "inv q w \<Longrightarrow> tcReady tc vt sb fl q w = Inr (b, q', w') \<Longrightarrow> contents q' = contents q"
    and ready_world: "inv q w \<Longrightarrow> tcReady tc vt sb fl q w = Inr (b, q', w') \<Longrightarrow>
      \<exists>n \<le> 2. acquires vt (set_mset (contents q)) n w w'"
    and ready_get: "inv q w \<Longrightarrow> tcReady tc vt sb fl q w = Inr (True, q', w') \<Longrightarrow>
      \<exists>t q''. tcGetTask tc vt sb fl' q' w' = Inr (Some t, q'', w')"
    and get_inv: "inv q w \<Longrightarrow> tcGetTask tc vt sb fl q w = Inr (r, q', w') \<Longrightarrow> inv q' w'"
    and get_contents: "inv q w \<Longrightarrow> tcGetTask tc vt sb fl q w = Inr (r, q', w') \<Longrightarrow>
      contents q = (case r of None \<Rightarrow> contents q' | Some t \<Rightarrow> add_mset t (contents q'))"
    and get_world: "inv q w \<Longrightarrow> tcGetTask tc vt sb fl q w = Inr (r, q', w') \<Longrightarrow>
      \<exists>n \<le> 2. acquires vt (set_mset (contents q)) n w w'"
    and get_handle: "inv q w \<Longrightarrow> tcGetTask tc vt sb fl q w = Inr (Some t, q', w') \<Longrightarrow>
      hasMemHandle (task_st t w')"
    and complete_inv: "inv q w \<Longrightarrow> inv (tcTaskComplete tc t q) w"
    and complete_contents: "inv q w \<Longrightarrow> contents (tcTaskComplete tc t q) = contents q"
    and remove_inv: "inv q w \<Longrightarrow> tcRemoveTask tc t q = (r, q') \<Longrightarrow> inv q' w"
    and remove_contents: "inv q w \<Longrightarrow> tcRemoveTask tc t q = (r, q') \<Longrightarrow>
      contents q = (case r of None \<Rightarrow> contents q' | Some u \<Rightarrow> add_mset u (contents q'))"
    and remove_ids: "inv q w \<Longrightarrow> tcRemoveTask tc t q = (Some u, q') \<Longrightarrow> idsMatch u (tQId t) (tJId t)"
    and size_contents: "inv q w \<Longrightarrow> tcGetSize tc q = int (size (contents q))"
    and empty_contents: "inv q w \<Longrightarrow> tcEmpty tc q \<Longrightarrow> contents q = {#}"
begin

text \<open>No operation loses or duplicates a task.\<close>

lemma run_conserves:
  "coll_run tc vt sb ops (q, w) = Inr (out, rem, q', w') \<Longrightarrow> inv q w \<Longrightarrow>
   inv q' w' \<and> contents q + op_queued ops = mset out + mset rem + contents q'"
proof (induction ops arbitrary: q w out rem)
  case Nil
  then show ?case by (simp add: op_queued_def)
next
  case (Cons op ops)
  show ?case
  proof (cases op)
    case (OpQueue t)
    then show ?thesis
      using Cons.IH [of "tcQueueTask tc t q" w out rem] Cons.prems queue_inv queue_contents [OF Cons.prems(2)]
      by (simp add: op_queued_def)
  next
    case (OpReady fl)
    with Cons.prems(1) obtain b q1 w1 where r: "tcReady tc vt sb fl q w = Inr (b, q1, w1)"
      and rec: "coll_run tc vt sb ops (q1, w1) = Inr (out, rem, q', w')"
      by (auto split: sum.splits)
    show ?thesis
      using Cons.IH [OF rec ready_inv [OF Cons.prems(2) r]] ready_contents [OF Cons.prems(2) r] OpReady
      by (simp add: op_queued_def)
  next
    case (OpGet fl)
    with Cons.prems(1) obtain r q1 w1 out' where g: "tcGetTask tc vt sb fl q w = Inr (r, q1, w1)"
      and rec: "coll_run tc vt sb ops (q1, w1) = Inr (out', rem, q', w')"
      and out: "out = (case r of Some t \<Rightarrow> t # out' | None \<Rightarrow> out')"
      by (auto split: sum.splits)
    show ?thesis
      using Cons.IH [OF rec get_inv [OF Cons.prems(2) g]] get_contents [OF Cons.prems(2) g] OpGet out
      by (auto simp: op_queued_def split: option.splits)
  next
    case (OpComplete t)
    then show ?thesis
      using Cons.IH [of "tcTaskComplete tc t q" w out rem] Cons.prems complete_inv
        complete_contents [OF Cons.prems(2)]
      by (simp add: op_queued_def)
  next
    case (OpRemove t)
    obtain r q1 where m: "tcRemoveTask tc t q = (r, q1)" by fastforce
    with OpRemove Cons.prems(1) obtain rem' where
      rec: "coll_run tc vt sb ops (q1, w) = Inr (out, rem', q', w')"
      and rem: "rem = (case r of Some u \<Rightarrow> u # rem' | None \<Rightarrow> rem')"
      by (auto split: sum.splits)
    show ?thesis
      using Cons.IH [OF rec remove_inv [OF Cons.prems(2) m]] remove_contents [OF Cons.prems(2) m] OpRemove rem
      by (auto simp: op_queued_def split: option.splits)
  qed
qed

end

end
