(* ===== verification/Chunk_Tasks_Queue.thy ===== *)
theory Chunk_Tasks_Queue
  imports Task_Collection
begin

text \<open>
  \<open>wsched/ChunkTasksQueue.h\<close> and \<open>ChunkTasksQueue.cc\<close>: the tasks of one chunk (\<open>ChunkTasks\<close>, with its
  heap of runnable tasks, its pending tasks and the tasks in flight) and the queue of all chunks
  (\<open>ChunkTasksQueue\<close>), which walks the chunks in ascending order from the active chunk on.

  A \<open>ChunkTasks::Ptr\<close> and an iterator into the chunk map are the chunk id (the map never holds two
  entries for one id, and an entry is erased only while no pointer to it is kept). The while loop of
  \<open>_ready\<close> is a recursion over the other chunk ids in the order in which \<open>++iter\<close>, wrapping at the
  end, meets them; it ends because that list is finite.
\<close>

section \<open>SlowTableHeap\<close>

definition slow_compare :: "task \<Rightarrow> task \<Rightarrow> bool" where
  "slow_compare x y \<longleftrightarrow> compareTables (tScanInfo x) (tScanInfo y) < 0"

definition SlowTableHeap_push :: "task \<Rightarrow> task list \<Rightarrow> task list" where
  "SlowTableHeap_push t ts = push_heap slow_compare (ts @ [t])"

definition SlowTableHeap_pop :: "task list \<Rightarrow> task option \<times> task list" where
  "SlowTableHeap_pop ts =
     (if ts = [] then (None, ts) else (Some (hd ts), butlast (pop_heap slow_compare ts)))"

definition SlowTableHeap_top :: "task list \<Rightarrow> task option" where
  "SlowTableHeap_top ts = (case ts of [] \<Rightarrow> None | t # _ \<Rightarrow> Some t)"

definition SlowTableHeap_heapify :: "task list \<Rightarrow> task list" where
  "SlowTableHeap_heapify ts = make_heap slow_compare ts"

section \<open>ChunkTasks\<close>

datatype readyState = READY | NOT_READY | NO_RESOURCES

record chunkTasks =
  ctChunkId :: int
  ctActive :: bool
  ctResourceStarved :: bool
  ctReadyTask :: "task option"
  ctActiveTasks :: "task list"
  ctPendingTasks :: "task list"
  ctInFlightTasks :: "nat set"

definition ChunkTasks_new :: "int \<Rightarrow> chunkTasks" where
  "ChunkTasks_new chunkId = \<lparr>ctChunkId = chunkId, ctActive = False, ctResourceStarved = False,
     ctReadyTask = None, ctActiveTasks = [], ctPendingTasks = [], ctInFlightTasks = {}\<rparr>"

definition ChunkTasks_size :: "chunkTasks \<Rightarrow> nat" where
  "ChunkTasks_size ct = length (ctActiveTasks ct) + length (ctPendingTasks ct)"

definition ChunkTasks_empty :: "chunkTasks \<Rightarrow> bool" where
  "ChunkTasks_empty ct \<longleftrightarrow> ctActiveTasks ct = [] \<and> ctPendingTasks ct = []"

definition ChunkTasks_queTask :: "task \<Rightarrow> chunkTasks \<Rightarrow> chunkTasks" where
  "ChunkTasks_queTask a ct =
     (if ctActive ct then ct\<lparr>ctPendingTasks := ctPendingTasks ct @ [a]\<rparr>
      else ct\<lparr>ctActiveTasks := SlowTableHeap_push a (ctActiveTasks ct)\<rparr>)"

definition ChunkTasks_movePendingToActive :: "chunkTasks \<Rightarrow> chunkTasks" where
  "ChunkTasks_movePendingToActive ct =
     ct\<lparr>ctActiveTasks := foldl (\<lambda>h t. SlowTableHeap_push t h) (ctActiveTasks ct) (ctPendingTasks ct),
        ctPendingTasks := []\<rparr>"

definition ChunkTasks_setActive :: "bool \<Rightarrow> chunkTasks \<Rightarrow> chunkTasks" where
  "ChunkTasks_setActive active ct =
     (if ctActive ct \<noteq> active \<and> ctActive ct \<and> \<not> active then ChunkTasks_movePendingToActive ct else ct)
       \<lparr>ctActive := active\<rparr>"

definition ChunkTasks_readyToAdvance :: "chunkTasks \<Rightarrow> bool" where
  "ChunkTasks_readyToAdvance ct \<longleftrightarrow> ctActiveTasks ct = [] \<and> ctInFlightTasks ct = {}"

definition ChunkTasks_setResourceStarved :: "bool \<Rightarrow> chunkTasks \<Rightarrow> bool \<times> chunkTasks" where
  "ChunkTasks_setResourceStarved starved ct = (ctResourceStarved ct, ct\<lparr>ctResourceStarved := starved\<rparr>)"

definition ChunkTasks_ready ::
    "'m memMan \<Rightarrow> bool \<Rightarrow> chunkTasks \<Rightarrow> 'm world \<Rightarrow> sched_error + (readyState \<times> chunkTasks \<times> 'm world)" where
  "ChunkTasks_ready vt useFlexibleLock ct w =
     (if ctReadyTask ct \<noteq> None then Inr (READY, ct, w)
      else case SlowTableHeap_top (ctActiveTasks ct) of
        None \<Rightarrow> Inr (NOT_READY, ct, w)
      | Some t \<Rightarrow>
          (let take = (\<lambda>ct. ct\<lparr>ctActiveTasks := snd (SlowTableHeap_pop (ctActiveTasks ct)),
                               ctReadyTask := Some t\<rparr>) in
           if hasMemHandle (task_st t w) then Inr (READY, take ct, w)
           else case mem_request vt useFlexibleLock t w of
             Inl e \<Rightarrow> Inl e
           | Inr (False, w') \<Rightarrow> Inr (NO_RESOURCES, snd (ChunkTasks_setResourceStarved True ct), w')
           | Inr (True, w') \<Rightarrow> Inr (READY, take (snd (ChunkTasks_setResourceStarved False ct)), w')))"

definition ChunkTasks_getTask ::
    "'m memMan \<Rightarrow> bool \<Rightarrow> chunkTasks \<Rightarrow> 'm world \<Rightarrow> sched_error + (task option \<times> chunkTasks \<times> 'm world)" where
  "ChunkTasks_getTask vt useFlexibleLock ct w =
     (case ChunkTasks_ready vt useFlexibleLock ct w of
        Inl e \<Rightarrow> Inl e
      | Inr (rs, ct', w') \<Rightarrow>
          if rs \<noteq> READY then Inr (None, ct', w')
          else case ctReadyTask ct' of
            None \<Rightarrow> Inr (None, ct', w')
          | Some t \<Rightarrow> Inr (Some t,
              ct'\<lparr>ctReadyTask := None,
                  ctInFlightTasks := (if getChunkId t = ctChunkId ct' then insert (tPtr t) (ctInFlightTasks ct')
                                      else ctInFlightTasks ct')\<rparr>, w'))"

definition ChunkTasks_taskComplete :: "task \<Rightarrow> chunkTasks \<Rightarrow> chunkTasks" where
  "ChunkTasks_taskComplete t ct = ct\<lparr>ctInFlightTasks := ctInFlightTasks ct - {tPtr t}\<rparr>"

definition ChunkTasks_removeTask :: "task \<Rightarrow> chunkTasks \<Rightarrow> task option \<times> chunkTasks" where
  "ChunkTasks_removeTask t ct =
     (let eraseFunc = take_first (\<lambda>u. idsMatch u (tQId t) (tJId t)) in
      case eraseFunc (ctActiveTasks ct) of
        Some (r, ts) \<Rightarrow> (Some r, ct\<lparr>ctActiveTasks := SlowTableHeap_heapify ts\<rparr>)
      | None \<Rightarrow>
          (case eraseFunc (ctPendingTasks ct) of
             Some (r, ts) \<Rightarrow> (Some r, ct\<lparr>ctPendingTasks := ts\<rparr>)
           | None \<Rightarrow> (None, ct)))"

section \<open>ChunkTasksQueue\<close>

record chunkTasksQueue =
  cqChunkMap :: "(int, chunkTasks) omap"
  cqActiveChunk :: "int option"
  cqReadyChunk :: "int option"
  cqTaskCount :: int
  cqResourceStarved :: bool

definition ChunkTasksQueue_new :: chunkTasksQueue where
  "ChunkTasksQueue_new = \<lparr>cqChunkMap = [], cqActiveChunk = None, cqReadyChunk = None,
     cqTaskCount = 0, cqResourceStarved = False\<rparr>"

definition cq_chunk :: "chunkTasksQueue \<Rightarrow> int \<Rightarrow> chunkTasks" where
  "cq_chunk q k = (case omap_find (cqChunkMap q) k of Some ct \<Rightarrow> ct | None \<Rightarrow> ChunkTasks_new k)"

definition cq_put :: "int \<Rightarrow> chunkTasks \<Rightarrow> chunkTasksQueue \<Rightarrow> chunkTasksQueue" where
  "cq_put k ct q = q\<lparr>cqChunkMap := omap_set k ct (cqChunkMap q)\<rparr>"

text \<open>\<open>insertChunkTask\<close> of \<open>queueTask\<close> finds the chunk's entry or makes a new one.\<close>

definition ChunkTasksQueue_queueTask :: "task \<Rightarrow> chunkTasksQueue \<Rightarrow> chunkTasksQueue" where
  "ChunkTasksQueue_queueTask t q =
     (let chunkId = getChunkId t in
      cq_put chunkId (ChunkTasks_queTask t (cq_chunk q chunkId)) (q\<lparr>cqTaskCount := cqTaskCount q + 1\<rparr>))"

text \<open>
  The parts of \<open>_ready\<close>: setting the first active chunk, advancing the active chunk, and the scan
  over the other chunks.
\<close>

definition cq_begin :: "chunkTasksQueue \<Rightarrow> chunkTasksQueue" where
  "cq_begin q =
     (case cqActiveChunk q of
        Some a \<Rightarrow> q
      | None \<Rightarrow>
          (case omap_begin (cqChunkMap q) of
             None \<Rightarrow> q
           | Some a \<Rightarrow> (cq_put a (ChunkTasks_setActive True (cq_chunk q a)) q)\<lparr>cqActiveChunk := Some a\<rparr>))"

definition cq_advance :: "int \<Rightarrow> chunkTasksQueue \<Rightarrow> chunkTasksQueue" where
  "cq_advance a q =
     (let newActive = omap_next_cyclic a (cqChunkMap q);
          old = ChunkTasks_setActive False (cq_chunk q a);
          q1 = cq_put a old q;
          (newActive1, q2) =
            (if ChunkTasks_empty old
             then (if newActive = Some a then None else newActive,
                   q1\<lparr>cqChunkMap := omap_erase a (cqChunkMap q1)\<rparr>)
             else (newActive, q1));
          q3 = q2\<lparr>cqActiveChunk := newActive1\<rparr>
      in case newActive1 of
           None \<Rightarrow> q3
         | Some n \<Rightarrow> cq_put n (ChunkTasks_setActive True (ChunkTasks_movePendingToActive (cq_chunk q3 n))) q3)"

definition chunk_limit :: "schedBase option \<Rightarrow> int \<Rightarrow> bool" where
  "chunk_limit sched k \<longleftrightarrow>
     (case sched of
        None \<Rightarrow> False
      | Some sb \<Rightarrow> sbMaxActiveChunks sb \<le> getActiveChunkCount sb \<and> \<not> chunkAlreadyActive k sb)"

fun cq_scan :: "'m memMan \<Rightarrow> schedBase option \<Rightarrow> bool \<Rightarrow> int list \<Rightarrow> chunkTasksQueue \<Rightarrow> 'm world \<Rightarrow>
    sched_error + (bool \<times> chunkTasksQueue \<times> 'm world)" where
  "cq_scan vt sched fl [] q w = Inr (False, q, w)"
| "cq_scan vt sched fl (k # ks) q w =
     (if chunk_limit sched k then Inr (False, q, w)
      else case ChunkTasks_ready vt fl (cq_chunk q k) w of
        Inl e \<Rightarrow> Inl e
      | Inr (READY, ct, w') \<Rightarrow> Inr (True, (cq_put k ct q)\<lparr>cqReadyChunk := Some k\<rparr>, w')
      | Inr (NO_RESOURCES, ct, w') \<Rightarrow> Inr (False, cq_put k ct q, w')
      | Inr (NOT_READY, ct, w') \<Rightarrow> cq_scan vt sched fl ks (cq_put k ct q) w')"

definition cq_scan_from :: "'m memMan \<Rightarrow> schedBase option \<Rightarrow> bool \<Rightarrow> int \<Rightarrow> chunkTasksQueue \<Rightarrow> 'm world \<Rightarrow>
    sched_error + (bool \<times> chunkTasksQueue \<times> 'm world)" where
  "cq_scan_from vt sched fl a q w =
     (case ChunkTasks_ready vt fl (cq_chunk q a) w of
        Inl e \<Rightarrow> Inl e
      | Inr (READY, ct, w') \<Rightarrow> Inr (True, (cq_put a ct q)\<lparr>cqReadyChunk := Some a\<rparr>, w')
      | Inr (NO_RESOURCES, ct, w') \<Rightarrow> Inr (False, cq_put a ct q, w')
      | Inr (NOT_READY, ct, w') \<Rightarrow>
          cq_scan vt sched fl (omap_cycle a (cqChunkMap q)) (cq_put a ct q) w')"

definition ChunkTasksQueue_ready :: "'m memMan \<Rightarrow> schedBase option \<Rightarrow> bool \<Rightarrow> chunkTasksQueue \<Rightarrow> 'm world \<Rightarrow>
    sched_error + (bool \<times> chunkTasksQueue \<times> 'm world)" where
  "ChunkTasksQueue_ready vt sched fl q w =
     (if cqReadyChunk q \<noteq> None then Inr (True, q, w)
      else if cqChunkMap q = [] then Inr (False, q, w)
      else
        (let q1 = cq_begin q in
         case cqActiveChunk q1 of
           None \<Rightarrow> Inr (False, q1, w)
         | Some a \<Rightarrow>
             (case ChunkTasks_ready vt fl (cq_chunk q1 a) w of
                Inl e \<Rightarrow> Inl e
              | Inr (rs, ct, w1) \<Rightarrow>
                  (let q2 = cq_put a ct q1 in
                   if rs = READY then Inr (True, q2\<lparr>cqReadyChunk := Some a\<rparr>, w1)
                   else if ChunkTasks_readyToAdvance ct then
                     (let q3 = cq_advance a q2 in
                      case cqActiveChunk q3 of
                        None \<Rightarrow> Inr (False, q3, w1)
                      | Some n \<Rightarrow> cq_scan_from vt sched fl n q3 w1)
                   else cq_scan_from vt sched fl a q2 w1))))"

definition ChunkTasksQueue_getTask :: "'m memMan \<Rightarrow> schedBase option \<Rightarrow> bool \<Rightarrow> chunkTasksQueue \<Rightarrow> 'm world \<Rightarrow>
    sched_error + (task option \<times> chunkTasksQueue \<times> 'm world)" where
  "ChunkTasksQueue_getTask vt sched fl q w =
     (case ChunkTasksQueue_ready vt sched fl q w of
        Inl e \<Rightarrow> Inl e
      | Inr (_, q1, w1) \<Rightarrow>
          (case cqReadyChunk q1 of
             None \<Rightarrow> Inr (None, q1, w1)
           | Some k \<Rightarrow>
               (case ChunkTasks_getTask vt fl (cq_chunk q1 k) w1 of
                  Inl e \<Rightarrow> Inl e
                | Inr (t, ct, w2) \<Rightarrow>
                    Inr (t, (cq_put k ct q1)\<lparr>cqReadyChunk := None, cqTaskCount := cqTaskCount q1 - 1\<rparr>, w2))))"

definition ChunkTasksQueue_nextTaskDifferentChunkId :: "chunkTasksQueue \<Rightarrow> bool" where
  "ChunkTasksQueue_nextTaskDifferentChunkId q =
     (case cqActiveChunk q of None \<Rightarrow> True | Some a \<Rightarrow> ChunkTasks_readyToAdvance (cq_chunk q a))"

definition ChunkTasksQueue_taskComplete :: "task \<Rightarrow> chunkTasksQueue \<Rightarrow> chunkTasksQueue" where
  "ChunkTasksQueue_taskComplete t q =
     (case omap_find (cqChunkMap q) (getChunkId t) of
        None \<Rightarrow> q
      | Some ct \<Rightarrow> cq_put (getChunkId t) (ChunkTasks_taskComplete t ct) q)"

definition ChunkTasksQueue_setResourceStarved :: "bool \<Rightarrow> chunkTasksQueue \<Rightarrow> bool \<times> chunkTasksQueue" where
  "ChunkTasksQueue_setResourceStarved starved q = (cqResourceStarved q, q\<lparr>cqResourceStarved := starved\<rparr>)"

definition ChunkTasksQueue_getActiveChunkId :: "chunkTasksQueue \<Rightarrow> int" where
  "ChunkTasksQueue_getActiveChunkId q =
     (case cqActiveChunk q of None \<Rightarrow> -1 | Some a \<Rightarrow> ctChunkId (cq_chunk q a))"

definition ChunkTasksQueue_removeTask :: "task \<Rightarrow> chunkTasksQueue \<Rightarrow> task option \<times> chunkTasksQueue" where
  "ChunkTasksQueue_removeTask t q =
     (case omap_find (cqChunkMap q) (getChunkId t) of
        None \<Rightarrow> (None, q)
      | Some ct \<Rightarrow>
          (case ChunkTasks_removeTask t ct of (ret, ct') \<Rightarrow>
             (let q1 = cq_put (getChunkId t) ct' q in
              (ret, if ret \<noteq> None then q1\<lparr>cqTaskCount := cqTaskCount q1 - 1\<rparr> else q1))))"

definition ChunkTasksQueue_empty :: "chunkTasksQueue \<Rightarrow> bool" where
  "ChunkTasksQueue_empty q \<longleftrightarrow> cqChunkMap q = []"

definition ChunkTasksQueue_getSize :: "chunkTasksQueue \<Rightarrow> int" where
  "ChunkTasksQueue_getSize q = cqTaskCount q"

definition chunkTasksQueue_tc :: "(chunkTasksQueue, 'm) taskCollection" where
  "chunkTasksQueue_tc = \<lparr>tcQueueTask = ChunkTasksQueue_queueTask, tcReady = ChunkTasksQueue_ready,
     tcGetTask = ChunkTasksQueue_getTask, tcTaskComplete = ChunkTasksQueue_taskComplete,
     tcRemoveTask = ChunkTasksQueue_removeTask, tcSetResourceStarved = ChunkTasksQueue_setResourceStarved,
     tcNextTaskDifferentChunkId = ChunkTasksQueue_nextTaskDifferentChunkId,
     tcEmpty = ChunkTasksQueue_empty, tcGetSize = ChunkTasksQueue_getSize\<rparr>"

section \<open>Tasks of one chunk\<close>

definition ct_tasks :: "chunkTasks \<Rightarrow> task multiset" where
  "ct_tasks ct = mset (ctActiveTasks ct) + mset (ctPendingTasks ct)
     + (case ctReadyTask ct of Some t \<Rightarrow> {#t#} | None \<Rightarrow> {#})"

lemma mset_slow_push [conserve]: "mset (SlowTableHeap_push t ts) = add_mset t (mset ts)"
  by (simp add: SlowTableHeap_push_def mset_push_heap)

lemma mset_slow_pop [conserve]: "ts \<noteq> [] \<Longrightarrow> mset (snd (SlowTableHeap_pop ts)) = mset ts - {#hd ts#}"
  using mset_butlast_pop_heap [of ts slow_compare]
  by (simp add: SlowTableHeap_pop_def) (metis add_mset_remove_trivial)

lemma mset_heapify [conserve]: "mset (SlowTableHeap_heapify ts) = mset ts"
  by (simp add: SlowTableHeap_heapify_def mset_make_heap)

lemma mset_push_all [conserve]:
  "mset (foldl (\<lambda>h t. SlowTableHeap_push t h) hp ts) = mset hp + mset ts"
  by (induction ts arbitrary: hp) (auto simp: conserve)

lemma ct_tasks_movePending [conserve]: "ct_tasks (ChunkTasks_movePendingToActive ct) = ct_tasks ct"
  by (simp add: ct_tasks_def ChunkTasks_movePendingToActive_def conserve)

lemma ct_tasks_setActive [conserve]: "ct_tasks (ChunkTasks_setActive a ct) = ct_tasks ct"
proof -
  have "ct_tasks (ct\<lparr>ctActive := b\<rparr>) = ct_tasks ct" for b ct by (simp add: ct_tasks_def)
  then show ?thesis by (simp add: ChunkTasks_setActive_def ct_tasks_movePending)
qed

lemma ct_tasks_queTask [conserve]: "ct_tasks (ChunkTasks_queTask t ct) = add_mset t (ct_tasks ct)"
  by (simp add: ct_tasks_def ChunkTasks_queTask_def conserve)

lemma ct_frame [simp]:
  "ctChunkId (ChunkTasks_setActive b ct) = ctChunkId ct" "ctReadyTask (ChunkTasks_setActive b ct) = ctReadyTask ct"
  "ctActive (ChunkTasks_setActive b ct) = b"
  "ctInFlightTasks (ChunkTasks_setActive b ct) = ctInFlightTasks ct"
  "ctChunkId (ChunkTasks_movePendingToActive ct) = ctChunkId ct"
  "ctReadyTask (ChunkTasks_movePendingToActive ct) = ctReadyTask ct"
  "ctInFlightTasks (ChunkTasks_movePendingToActive ct) = ctInFlightTasks ct"
  "ctPendingTasks (ChunkTasks_movePendingToActive ct) = []"
  "ctChunkId (ChunkTasks_queTask t ct) = ctChunkId ct" "ctReadyTask (ChunkTasks_queTask t ct) = ctReadyTask ct"
  "ctActive (ChunkTasks_queTask t ct) = ctActive ct"
  "ctInFlightTasks (ChunkTasks_queTask t ct) = ctInFlightTasks ct"
  "ctChunkId (ChunkTasks_taskComplete t ct) = ctChunkId ct" "ctReadyTask (ChunkTasks_taskComplete t ct) = ctReadyTask ct"
  "ctActive (ChunkTasks_taskComplete t ct) = ctActive ct"
  "ctActiveTasks (ChunkTasks_taskComplete t ct) = ctActiveTasks ct"
  "ctPendingTasks (ChunkTasks_taskComplete t ct) = ctPendingTasks ct"
  "ctPendingTasks (ChunkTasks_setActive True ct) = ctPendingTasks ct"
  by (simp_all add: ChunkTasks_setActive_def ChunkTasks_movePendingToActive_def ChunkTasks_queTask_def
      ChunkTasks_taskComplete_def)

text \<open>The outcomes of \<open>ChunkTasks::ready\<close>, and what each leaves behind.\<close>

lemma ct_ready_cases:
  assumes "ChunkTasks_ready vt fl ct w = Inr (rs, ct', w')"
  obtains (already) "ctReadyTask ct \<noteq> None" "rs = READY" "ct' = ct" "w' = w"
  | (idle) "ctReadyTask ct = None" "ctActiveTasks ct = []" "rs = NOT_READY" "ct' = ct" "w' = w"
  | (granted) t ts s where "ctReadyTask ct = None" "ctActiveTasks ct = t # ts" "rs = READY"
      "ct' = ct\<lparr>ctResourceStarved := s, ctActiveTasks := snd (SlowTableHeap_pop (t # ts)), ctReadyTask := Some t\<rparr>"
      "hasMemHandle (task_st t w) \<and> w' = w \<or> \<not> hasMemHandle (task_st t w) \<and> mem_request vt fl t w = Inr (True, w')"
  | (refused) t ts where "ctReadyTask ct = None" "ctActiveTasks ct = t # ts" "rs = NO_RESOURCES"
      "ct' = ct\<lparr>ctResourceStarved := True\<rparr>" "\<not> hasMemHandle (task_st t w)" "mem_request vt fl t w = Inr (False, w')"
proof (cases "ctReadyTask ct")
  case (Some t)
  have "rs = READY" "ct' = ct" "w' = w" using assms Some by (simp_all add: ChunkTasks_ready_def)
  then show ?thesis using already Some by blast
next
  case None
  show ?thesis
  proof (cases "ctActiveTasks ct")
    case Nil
    have "rs = NOT_READY" "ct' = ct" "w' = w"
      using assms None Nil by (simp_all add: ChunkTasks_ready_def SlowTableHeap_top_def)
    then show ?thesis using idle None Nil by blast
  next
    case (Cons t ts)
    show ?thesis
    proof (cases "hasMemHandle (task_st t w)")
      case True
      have "rs = READY" "w' = w" and r: "ct' = ct\<lparr>ctActiveTasks := snd (SlowTableHeap_pop (t # ts)), ctReadyTask := Some t\<rparr>"
        using assms None Cons True by (simp_all add: ChunkTasks_ready_def SlowTableHeap_top_def Let_def)
      moreover have "ct' = ct\<lparr>ctResourceStarved := ctResourceStarved ct,
          ctActiveTasks := snd (SlowTableHeap_pop (t # ts)), ctReadyTask := Some t\<rparr>"
        unfolding r by simp
      ultimately show ?thesis using granted [OF None Cons] True by blast
    next
      case False
      note facts = None Cons False
      show ?thesis
      proof (cases "mem_request vt fl t w")
        case (Inl e)
        then have "ChunkTasks_ready vt fl ct w = Inl e"
          using facts by (simp add: ChunkTasks_ready_def SlowTableHeap_top_def Let_def)
        with assms show ?thesis by simp
      next
        case (Inr r)
        obtain b w1 where r: "r = (b, w1)" by fastforce
        show ?thesis
        proof (cases b)
          case True
          have "ChunkTasks_ready vt fl ct w = Inr (READY, ct\<lparr>ctResourceStarved := False,
              ctActiveTasks := snd (SlowTableHeap_pop (t # ts)), ctReadyTask := Some t\<rparr>, w1)"
            using facts Inr r True
            by (simp add: ChunkTasks_ready_def SlowTableHeap_top_def Let_def ChunkTasks_setResourceStarved_def)
          then show ?thesis using granted [OF None Cons] assms False Inr r True by simp
        next
          case no: False
          have "ChunkTasks_ready vt fl ct w = Inr (NO_RESOURCES, ct\<lparr>ctResourceStarved := True\<rparr>, w1)"
            using facts Inr r no
            by (simp add: ChunkTasks_ready_def SlowTableHeap_top_def Let_def ChunkTasks_setResourceStarved_def)
          then show ?thesis using refused [OF None Cons] assms False Inr r no by simp
        qed
      qed
    qed
  qed
qed

lemma ct_ready_frame:
  assumes "ChunkTasks_ready vt fl ct w = Inr (rs, ct', w')"
  shows "ct_tasks ct' = ct_tasks ct" "ctChunkId ct' = ctChunkId ct" "ctActive ct' = ctActive ct"
    "ctPendingTasks ct' = ctPendingTasks ct" "ctInFlightTasks ct' = ctInFlightTasks ct"
    "rs = READY \<longleftrightarrow> ctReadyTask ct' \<noteq> None"
    "rs \<noteq> READY \<Longrightarrow> ctActiveTasks ct' = ctActiveTasks ct \<and> ctReadyTask ct = None"
    "rs = NOT_READY \<Longrightarrow> ctActiveTasks ct' = [] \<and> w' = w \<and> ct' = ct"
  using assms
  by (cases rule: ct_ready_cases; auto simp: ct_tasks_def conserve)+

lemma ct_ready_world:
  assumes "ChunkTasks_ready vt fl ct w = Inr (rs, ct', w')"
  shows "\<exists>n \<le> 1. acquires vt (set_mset (ct_tasks ct)) n w w'"
    "(\<And>t. ctReadyTask ct = Some t \<Longrightarrow> hasMemHandle (task_st t w)) \<Longrightarrow>
     ctReadyTask ct' = Some t \<Longrightarrow> hasMemHandle (task_st t w')"
proof -
  show "\<exists>n \<le> 1. acquires vt (set_mset (ct_tasks ct)) n w w'"
    using assms
  proof (cases rule: ct_ready_cases)
    case (granted t ts s)
    then have "t \<in> set_mset (ct_tasks ct)" by (simp add: ct_tasks_def)
    with granted(5) mem_request_acquires(1) [of vt fl t w True w'] show ?thesis
      by (auto intro: acquires.none)
  next
    case (refused t ts)
    then have "t \<in> set_mset (ct_tasks ct)" by (simp add: ct_tasks_def)
    with refused(5,6) mem_request_acquires(1) [of vt fl t w False w'] show ?thesis by auto
  qed (auto intro: acquires.none)
  show "ctReadyTask ct' = Some t \<Longrightarrow> hasMemHandle (task_st t w')"
    if "\<And>t. ctReadyTask ct = Some t \<Longrightarrow> hasMemHandle (task_st t w)"
    using assms that
    by (cases rule: ct_ready_cases) (auto dest: mem_request_acquires(2))
qed

section \<open>The invariant of the queue\<close>

text \<open>
  Every task lies in the entry of its own chunk; only the active chunk is flagged active and only it
  has pending tasks; at most one chunk has a ready task, the chunk \<open>_readyChunk\<close>; and \<open>_taskCount\<close>
  is the number of queued tasks.
\<close>

definition ct_ok :: "int option \<Rightarrow> int option \<Rightarrow> int \<Rightarrow> chunkTasks \<Rightarrow> bool" where
  "ct_ok act rdy k ct \<longleftrightarrow> ctChunkId ct = k \<and> (\<forall>t \<in># ct_tasks ct. getChunkId t = k) \<and>
     (ctActive ct \<longleftrightarrow> act = Some k) \<and> (ctPendingTasks ct \<noteq> [] \<longrightarrow> ctActive ct) \<and>
     (ctReadyTask ct \<noteq> None \<longleftrightarrow> rdy = Some k)"

definition cq_contents :: "chunkTasksQueue \<Rightarrow> task multiset" where
  "cq_contents q = omap_sum ct_tasks (cqChunkMap q)"

definition cq_ok :: "chunkTasksQueue \<Rightarrow> bool" where
  "cq_ok q \<longleftrightarrow> omap_wf (cqChunkMap q) \<and>
     (\<forall>k ct. omap_find (cqChunkMap q) k = Some ct \<longrightarrow> ct_ok (cqActiveChunk q) (cqReadyChunk q) k ct) \<and>
     (\<forall>a. cqActiveChunk q = Some a \<longrightarrow> omap_find (cqChunkMap q) a \<noteq> None) \<and>
     (\<forall>k. cqReadyChunk q = Some k \<longrightarrow> omap_find (cqChunkMap q) k \<noteq> None) \<and>
     cqTaskCount q = int (size (cq_contents q))"

definition cq_inv :: "chunkTasksQueue \<Rightarrow> 'm world \<Rightarrow> bool" where
  "cq_inv q w \<longleftrightarrow> cq_ok q \<and>
     (\<forall>k ct t. omap_find (cqChunkMap q) k = Some ct \<longrightarrow> ctReadyTask ct = Some t \<longrightarrow> hasMemHandle (task_st t w))"

lemma cq_okD:
  assumes "cq_ok q"
  shows "omap_wf (cqChunkMap q)"
    "omap_find (cqChunkMap q) k = Some ct \<Longrightarrow> ct_ok (cqActiveChunk q) (cqReadyChunk q) k ct"
    "cqActiveChunk q = Some a \<Longrightarrow> \<exists>ct. omap_find (cqChunkMap q) a = Some ct"
    "cqReadyChunk q = Some k \<Longrightarrow> \<exists>ct. omap_find (cqChunkMap q) k = Some ct"
    "cqTaskCount q = int (size (cq_contents q))"
  using assms by (auto simp: cq_ok_def)

lemma cq_ready_task_in:
  assumes "omap_wf (cqChunkMap q)" "omap_find (cqChunkMap q) k = Some ct" "ctReadyTask ct = Some t"
  shows "t \<in># cq_contents q"
proof -
  have "omap_sum ct_tasks (omap_erase k (cqChunkMap q)) + ct_tasks ct = cq_contents q"
    using omap_sum_erase [OF assms(1,2), of ct_tasks] by (simp add: cq_contents_def)
  moreover have "t \<in># ct_tasks ct" using assms(3) by (simp add: ct_tasks_def)
  ultimately show ?thesis by (metis union_iff)
qed

lemma cq_chunk_find [simp]: "omap_find (cqChunkMap q) k = Some ct \<Longrightarrow> cq_chunk q k = ct"
  by (simp add: cq_chunk_def)

lemma cq_put_simps [simp]:
  "cqActiveChunk (cq_put k ct q) = cqActiveChunk q" "cqReadyChunk (cq_put k ct q) = cqReadyChunk q"
  "cqTaskCount (cq_put k ct q) = cqTaskCount q"
  "cqChunkMap (cq_put k ct q) = omap_set k ct (cqChunkMap q)"
  by (simp_all add: cq_put_def)

lemma cq_contents_put:
  assumes "omap_wf (cqChunkMap q)" "omap_find (cqChunkMap q) k = Some ct"
  shows "cq_contents (cq_put k ct' q) + ct_tasks ct = cq_contents q + ct_tasks ct'"
  using omap_sum_set [OF assms, of ct_tasks ct'] by (simp add: cq_contents_def)

text \<open>Replacing the entry of one chunk.\<close>

lemma cq_put_ok:
  assumes ok: "cq_ok q" and f: "omap_find (cqChunkMap q) k = Some ct"
    and new: "ct_ok (cqActiveChunk q) rdy k ct'" and keep: "\<And>j. j \<noteq> k \<Longrightarrow> rdy = Some j \<longleftrightarrow> cqReadyChunk q = Some j"
    and count: "n = int (size (cq_contents (cq_put k ct' q)))"
  shows "cq_ok ((cq_put k ct' q)\<lparr>cqReadyChunk := rdy, cqTaskCount := n\<rparr>)"
proof -
  have "ct_ok (cqActiveChunk q) rdy j cj"
    if "omap_find (cqChunkMap q) j = Some cj" "j \<noteq> k" for j cj
    using cq_okD(2) [OF ok that(1)] keep that(2) by (auto simp: ct_ok_def)
  moreover have "omap_find (omap_set k ct' (cqChunkMap q)) j \<noteq> None" if "rdy = Some j" for j
    using cq_okD(4) [OF ok, of j] keep [of j] that by auto
  moreover have "omap_find (omap_set k ct' (cqChunkMap q)) a \<noteq> None" if "cqActiveChunk q = Some a" for a
    using cq_okD(3) [OF ok that] by auto
  ultimately show ?thesis
    using cq_okD(1) [OF ok] new count by (auto simp: cq_ok_def cq_contents_def)
qed

lemma cq_put_same:
  assumes ok: "cq_ok q" and f: "omap_find (cqChunkMap q) k = Some ct"
    and new: "ct_ok (cqActiveChunk q) rdy k ct'" and keep: "\<And>j. j \<noteq> k \<Longrightarrow> rdy = Some j \<longleftrightarrow> cqReadyChunk q = Some j"
    and same: "ct_tasks ct' = ct_tasks ct"
  shows "cq_ok ((cq_put k ct' q)\<lparr>cqReadyChunk := rdy\<rparr>)"
    "cq_contents (cq_put k ct' q) = cq_contents q"
proof -
  show c: "cq_contents (cq_put k ct' q) = cq_contents q"
    using cq_contents_put [OF cq_okD(1) [OF ok] f, of ct'] same by simp
  have "cqTaskCount q = int (size (cq_contents (cq_put k ct' q)))"
    using c cq_okD(5) [OF ok] by simp
  from cq_put_ok [OF ok f new keep this] show "cq_ok ((cq_put k ct' q)\<lparr>cqReadyChunk := rdy\<rparr>)"
    by (simp add: cq_put_def)
qed

lemma ct_in_contents:
  assumes "cq_ok q" "omap_find (cqChunkMap q) k = Some ct"
  shows "set_mset (ct_tasks ct) \<subseteq> set_mset (cq_contents q)"
  using omap_sum_erase [OF cq_okD(1) [OF assms(1)] assms(2), of ct_tasks]
  by (metis cq_contents_def set_mset_mono mset_subset_eq_add_right)

section \<open>The steps of _ready\<close>

text \<open>Asking one chunk, when no chunk has a ready task.\<close>

lemma cq_try_ok:
  assumes inv: "cq_inv q w" and none: "cqReadyChunk q = None" and f: "omap_find (cqChunkMap q) k = Some ct"
    and r: "ChunkTasks_ready vt fl ct w = Inr (rs, ct', w')"
  shows "cq_inv ((cq_put k ct' q)\<lparr>cqReadyChunk := (if rs = READY then Some k else None)\<rparr>) w'"
    "cq_contents (cq_put k ct' q) = cq_contents q"
    "\<exists>n \<le> 1. acquires vt (set_mset (cq_contents q)) n w w'"
proof -
  have ok: "cq_ok q" using inv by (simp add: cq_inv_def)
  note fr = ct_ready_frame [OF r] and cto = cq_okD(2) [OF ok f]
  let ?rdy = "if rs = READY then Some k else None"
  have "ct_ok (cqActiveChunk q) ?rdy k ct'"
    using cto fr(1-6) by (auto simp: ct_ok_def)
  then have put: "cq_ok ((cq_put k ct' q)\<lparr>cqReadyChunk := ?rdy\<rparr>)"
    and "cq_contents (cq_put k ct' q) = cq_contents q"
    using cq_put_same [OF ok f _ _ fr(1), of ?rdy] none by (auto split: if_splits)
  then show "cq_contents (cq_put k ct' q) = cq_contents q" by simp
  have idle: "ctReadyTask cj = None" if "omap_find (cqChunkMap q) j = Some cj" for j cj
    using cq_okD(2) [OF ok that] none by (simp add: ct_ok_def)
  have "hasMemHandle (task_st t w')" if "ctReadyTask ct' = Some t" for t
    using ct_ready_world(2) [OF r _ that] idle [OF f] by simp
  then show "cq_inv ((cq_put k ct' q)\<lparr>cqReadyChunk := ?rdy\<rparr>) w'"
    using put idle by (auto simp: cq_inv_def split: if_splits)
  obtain n where "n \<le> 1" "acquires vt (set_mset (ct_tasks ct)) n w w'"
    using ct_ready_world(1) [OF r] by blast
  then show "\<exists>n \<le> 1. acquires vt (set_mset (cq_contents q)) n w w'"
    using acquires_mono ct_in_contents [OF ok f] by blast
qed

lemma cq_put_none: "cqReadyChunk q = None \<Longrightarrow> (cq_put k ct q)\<lparr>cqReadyChunk := None\<rparr> = cq_put k ct q"
  by (simp add: cq_put_def)

lemma cq_contents_ready [simp]: "cq_contents (q\<lparr>cqReadyChunk := r\<rparr>) = cq_contents q"
  "cq_contents (q\<lparr>cqActiveChunk := a\<rparr>) = cq_contents q" "cq_contents (q\<lparr>cqTaskCount := n\<rparr>) = cq_contents q"
  by (simp_all add: cq_contents_def)

text \<open>What a step of the search may do to the queue and the world.\<close>

definition cq_step :: "'m memMan \<Rightarrow> nat \<Rightarrow> chunkTasksQueue \<Rightarrow> 'm world \<Rightarrow> bool \<Rightarrow> chunkTasksQueue \<Rightarrow> 'm world \<Rightarrow> bool" where
  "cq_step vt n q w b q' w' \<longleftrightarrow> cq_inv q' w' \<and> cq_contents q' = cq_contents q \<and>
     (b \<longleftrightarrow> cqReadyChunk q' \<noteq> None) \<and> (\<exists>k \<le> n. acquires vt (set_mset (cq_contents q)) k w w')"

lemma cq_step_try:
  assumes "cq_inv q w" "cqReadyChunk q = None" "omap_find (cqChunkMap q) k = Some ct"
    "ChunkTasks_ready vt fl ct w = Inr (rs, ct', w')"
  shows "cq_step vt 1 q w (rs = READY) ((cq_put k ct' q)\<lparr>cqReadyChunk := (if rs = READY then Some k else None)\<rparr>) w'"
  using cq_try_ok [OF assms] by (simp add: cq_step_def)

lemma cq_step_try_not:
  assumes "cq_inv q w" "cqReadyChunk q = None" "omap_find (cqChunkMap q) k = Some ct"
    "ChunkTasks_ready vt fl ct w = Inr (rs, ct', w')" "rs \<noteq> READY"
  shows "cq_step vt 1 q w False (cq_put k ct' q) w'"
  using cq_step_try [OF assms(1-4)] assms(5) cq_put_none [OF assms(2)] by simp

lemma cq_step_trans:
  assumes "cq_step vt n q w b q1 w1" "cq_step vt m q1 w1 c q' w'"
  shows "cq_step vt (n + m) q w c q' w'"
proof -
  obtain i j where "i \<le> n" "acquires vt (set_mset (cq_contents q)) i w w1"
    "j \<le> m" "acquires vt (set_mset (cq_contents q)) j w1 w'"
    using assms by (auto simp: cq_step_def)
  then have "i + j \<le> n + m" "acquires vt (set_mset (cq_contents q)) (i + j) w w'"
    using acquires_trans by auto
  then show ?thesis using assms by (auto simp: cq_step_def)
qed

lemma cq_step_mono: "cq_step vt n q w b q' w' \<Longrightarrow> n \<le> m \<Longrightarrow> cq_step vt m q w b q' w'"
  by (auto simp: cq_step_def intro: le_trans)

lemma cq_step_refl: "cq_inv q w \<Longrightarrow> cq_step vt n q w (cqReadyChunk q \<noteq> None) q w"
  by (auto simp: cq_step_def intro: acquires.none)

lemma cq_scan_step:
  "cq_scan vt sched fl ks q w = Inr (b, q', w') \<Longrightarrow> cq_inv q w \<Longrightarrow> cqReadyChunk q = None \<Longrightarrow>
   set ks \<subseteq> fst ` set (cqChunkMap q) \<Longrightarrow> cq_step vt 1 q w b q' w'"
proof (induction ks arbitrary: q w)
  case Nil
  then show ?case using cq_step_refl [of q w vt 1] by simp
next
  case (Cons k ks)
  obtain ct where f: "omap_find (cqChunkMap q) k = Some ct"
    using Cons.prems(4) omap_find_key [of "cqChunkMap q" k] by auto
  show ?case
  proof (cases "chunk_limit sched k")
    case True
    then show ?thesis using Cons.prems cq_step_refl [of q w vt 1] by simp
  next
    case False
    obtain rs ct' w1 where r: "ChunkTasks_ready vt fl ct w = Inr (rs, ct', w1)"
      using Cons.prems(1) False f by (auto split: sum.splits)
    note tr = cq_step_try [OF Cons.prems(2,3) f r] and tn = cq_step_try_not [OF Cons.prems(2,3) f r]
    show ?thesis
    proof (cases rs)
      case READY
      then show ?thesis using Cons.prems(1) False f r tr by simp
    next
      case NO_RESOURCES
      then show ?thesis using Cons.prems(1) False f r tn by auto
    next
      case NOT_READY
      have w1: "w1 = w" using ct_ready_frame(8) [OF r] NOT_READY by simp
      have put: "cq_step vt 1 q w False (cq_put k ct' q) w" using tn NOT_READY w1 by simp
      have rec: "cq_scan vt sched fl ks (cq_put k ct' q) w = Inr (b, q', w')"
        using Cons.prems(1) False f r NOT_READY w1 by simp
      have "cq_step vt 1 (cq_put k ct' q) w b q' w'"
        by (rule Cons.IH [OF rec]) (use put Cons.prems(3,4) in \<open>auto simp: cq_step_def keys_omap_set\<close>)
      then show ?thesis using put by (auto simp: cq_step_def)
    qed
  qed
qed

lemma cq_scan_from_step:
  assumes s: "cq_scan_from vt sched fl a q w = Inr (b, q', w')" and inv: "cq_inv q w"
    and none: "cqReadyChunk q = None" and f: "omap_find (cqChunkMap q) a = Some ct"
  shows "cq_step vt 1 q w b q' w'"
proof -
  obtain rs ct' w1 where r: "ChunkTasks_ready vt fl ct w = Inr (rs, ct', w1)"
    using s f by (auto simp: cq_scan_from_def split: sum.splits)
  note tr = cq_step_try [OF inv none f r]
  show ?thesis
  proof (cases rs)
    case READY
    then show ?thesis using s f r tr by (simp add: cq_scan_from_def)
  next
    case NO_RESOURCES
    then show ?thesis using s f r cq_step_try_not [OF inv none f r] by (auto simp: cq_scan_from_def)
  next
    case NOT_READY
    have w1: "w1 = w" using ct_ready_frame(8) [OF r] NOT_READY by simp
    have put: "cq_step vt 1 q w False (cq_put a ct' q) w"
      using cq_step_try_not [OF inv none f r] NOT_READY w1 by simp
    have "cq_scan vt sched fl (omap_cycle a (cqChunkMap q)) (cq_put a ct' q) w = Inr (b, q', w')"
      using s f r NOT_READY w1 by (simp add: cq_scan_from_def)
    then have "cq_step vt 1 (cq_put a ct' q) w b q' w'"
      by (rule cq_scan_step) (use put none in \<open>auto simp: cq_step_def keys_omap_set set_omap_cycle\<close>)
    then show ?thesis using put by (auto simp: cq_step_def)
  qed
qed

text \<open>Changing the active chunk.\<close>

lemma cq_activate:
  assumes ok: "cq_ok (q\<lparr>cqActiveChunk := None\<rparr>)" and f: "omap_find (cqChunkMap q) n = Some ct"
    and new: "ct_ok (Some n) (cqReadyChunk q) n ct'" and same: "ct_tasks ct' = ct_tasks ct"
  shows "cq_ok ((cq_put n ct' q)\<lparr>cqActiveChunk := Some n\<rparr>)"
    "cq_contents (cq_put n ct' q) = cq_contents q"
proof -
  show c: "cq_contents (cq_put n ct' q) = cq_contents q"
    using cq_contents_put [of q n ct ct'] cq_okD(1) [OF ok] f same by simp
  have "ct_ok (Some n) (cqReadyChunk q) j cj" if "omap_find (cqChunkMap q) j = Some cj" "j \<noteq> n" for j cj
    using cq_okD(2) [OF ok, of j cj] that by (auto simp: ct_ok_def)
  moreover have "omap_find (cqChunkMap q) k \<noteq> None" if "cqReadyChunk q = Some k" for k
    using cq_okD(4) [OF ok, of k] that by simp
  ultimately show "cq_ok ((cq_put n ct' q)\<lparr>cqActiveChunk := Some n\<rparr>)"
    using cq_okD(1,5) [OF ok] new c f by (auto simp: cq_ok_def)
qed

lemma cq_deactivate:
  assumes ok: "cq_ok q" and a: "cqActiveChunk q = Some a" and f: "omap_find (cqChunkMap q) a = Some ct"
  shows "cq_ok ((cq_put a (ChunkTasks_setActive False ct) q)\<lparr>cqActiveChunk := None\<rparr>)"
    "cq_contents (cq_put a (ChunkTasks_setActive False ct) q) = cq_contents q"
proof -
  let ?ct = "ChunkTasks_setActive False ct"
  show c: "cq_contents (cq_put a ?ct q) = cq_contents q"
    using cq_contents_put [OF cq_okD(1) [OF ok] f, of ?ct] by (simp add: ct_tasks_setActive)
  have "ct_ok None (cqReadyChunk q) j cj" if "omap_find (cqChunkMap q) j = Some cj" "j \<noteq> a" for j cj
    using cq_okD(2) [OF ok that(1)] that(2) a by (auto simp: ct_ok_def)
  moreover have "ctActive ct" using cq_okD(2) [OF ok f] a by (simp add: ct_ok_def)
  then have "ctPendingTasks ?ct = []"
    by (simp add: ChunkTasks_setActive_def ChunkTasks_movePendingToActive_def)
  then have "ct_ok None (cqReadyChunk q) a ?ct"
    using cq_okD(2) [OF ok f] a by (simp add: ct_ok_def ct_tasks_setActive)
  moreover have "omap_find (cqChunkMap q) k \<noteq> None" if "cqReadyChunk q = Some k" for k
    using cq_okD(4) [OF ok that] by simp
  ultimately show "cq_ok ((cq_put a ?ct q)\<lparr>cqActiveChunk := None\<rparr>)"
    using cq_okD(1,5) [OF ok] c by (auto simp: cq_ok_def)
qed

lemma cq_erase_empty:
  assumes ok: "cq_ok q" and f: "omap_find (cqChunkMap q) a = Some ct" and e: "ct_tasks ct = {#}"
    and "cqActiveChunk q \<noteq> Some a" "cqReadyChunk q \<noteq> Some a"
  shows "cq_ok (q\<lparr>cqChunkMap := omap_erase a (cqChunkMap q)\<rparr>)"
    "cq_contents (q\<lparr>cqChunkMap := omap_erase a (cqChunkMap q)\<rparr>) = cq_contents q"
proof -
  show c: "cq_contents (q\<lparr>cqChunkMap := omap_erase a (cqChunkMap q)\<rparr>) = cq_contents q"
    using omap_sum_erase [OF cq_okD(1) [OF ok] f, of ct_tasks] e by (simp add: cq_contents_def)
  show "cq_ok (q\<lparr>cqChunkMap := omap_erase a (cqChunkMap q)\<rparr>)"
    using ok c assms(4,5) by (auto simp: cq_ok_def split: if_splits)
qed

lemma cq_begin_ok:
  assumes inv: "cq_inv q w" and ne: "cqChunkMap q \<noteq> []"
  shows "cq_inv (cq_begin q) w" "cq_contents (cq_begin q) = cq_contents q"
    "cqReadyChunk (cq_begin q) = cqReadyChunk q" "\<exists>a. cqActiveChunk (cq_begin q) = Some a"
proof -
  have ok: "cq_ok q" using inv by (simp add: cq_inv_def)
  have "cq_inv (cq_begin q) w \<and> cq_contents (cq_begin q) = cq_contents q \<and>
    cqReadyChunk (cq_begin q) = cqReadyChunk q \<and> (\<exists>a. cqActiveChunk (cq_begin q) = Some a)"
  proof (cases "cqActiveChunk q")
    case (Some a)
    with inv show ?thesis by (simp add: cq_begin_def)
  next
    case None
    obtain a where a: "omap_begin (cqChunkMap q) = Some a" using ne omap_begin_None by fastforce
    obtain ct where f: "omap_find (cqChunkMap q) a = Some ct"
      using omap_begin_in [OF a] omap_find_key [of "cqChunkMap q" a] by auto
    let ?ct = "ChunkTasks_setActive True ct"
    have new: "ct_ok (Some a) (cqReadyChunk q) a ?ct"
      using cq_okD(2) [OF ok f] by (simp add: ct_ok_def ct_tasks_setActive)
    have "q\<lparr>cqActiveChunk := None\<rparr> = q" using None by simp
    then have act: "cq_ok ((cq_put a ?ct q)\<lparr>cqActiveChunk := Some a\<rparr>)" "cq_contents (cq_put a ?ct q) = cq_contents q"
      using cq_activate [of q a ct ?ct] ok f new by (simp_all add: ct_tasks_setActive)
    have "cq_begin q = (cq_put a ?ct q)\<lparr>cqActiveChunk := Some a\<rparr>"
      using None a f by (simp add: cq_begin_def)
    then show ?thesis using act inv f by (auto simp: cq_inv_def split: if_splits)
  qed
  then show "cq_inv (cq_begin q) w" "cq_contents (cq_begin q) = cq_contents q"
    "cqReadyChunk (cq_begin q) = cqReadyChunk q" "\<exists>a. cqActiveChunk (cq_begin q) = Some a" by auto
qed

lemma omap_next_cyclic_find:
  "omap_next_cyclic a m = Some n \<Longrightarrow> \<exists>v. omap_find m n = Some v"
  using omap_next_cyclic_in [of a m n] omap_find_key [of m n] by auto

lemma ct_empty_tasks:
  "ChunkTasks_empty ct \<Longrightarrow> ctReadyTask ct = None \<Longrightarrow> ct_tasks ct = {#}"
  by (simp add: ChunkTasks_empty_def ct_tasks_def)

text \<open>After the old active chunk was closed and, if empty, erased.\<close>

lemma cq_close_ok:
  assumes ok: "cq_ok q" and none: "cqReadyChunk q = None" and a: "cqActiveChunk q = Some a"
    and f: "omap_find (cqChunkMap q) a = Some ct"
  defines "old \<equiv> ChunkTasks_setActive False ct"
  defines "q2 \<equiv> (if ChunkTasks_empty old
       then (cq_put a old q)\<lparr>cqChunkMap := omap_erase a (omap_set a old (cqChunkMap q))\<rparr> else cq_put a old q)"
  shows "cq_ok (q2\<lparr>cqActiveChunk := None\<rparr>)" "cq_contents q2 = cq_contents q" "cqReadyChunk q2 = None"
    "omap_find (cqChunkMap q2) k = (if k = a then if ChunkTasks_empty old then None else Some old
       else omap_find (cqChunkMap q) k)"
proof -
  let ?q1 = "(cq_put a old q)\<lparr>cqActiveChunk := None\<rparr>"
  have d: "cq_ok ?q1" "cq_contents ?q1 = cq_contents q"
    using cq_deactivate [OF ok a f] by (simp_all add: old_def)
  have "ctReadyTask old = None" using cq_okD(2) [OF ok f] none by (simp add: ct_ok_def old_def)
  then have e: "ChunkTasks_empty old \<Longrightarrow> ct_tasks old = {#}" by (rule ct_empty_tasks [rotated])
  have er: "cq_ok (?q1\<lparr>cqChunkMap := omap_erase a (cqChunkMap ?q1)\<rparr>)"
    "cq_contents (?q1\<lparr>cqChunkMap := omap_erase a (cqChunkMap ?q1)\<rparr>) = cq_contents ?q1" if "ChunkTasks_empty old"
    using cq_erase_empty [OF d(1), of a old] e [OF that] none by simp_all
  have comm: "x\<lparr>cqChunkMap := m, cqActiveChunk := None\<rparr> = x\<lparr>cqActiveChunk := None, cqChunkMap := m\<rparr>"
    for x :: chunkTasksQueue and m by (cases x) simp
  show "cq_ok (q2\<lparr>cqActiveChunk := None\<rparr>)" "cq_contents q2 = cq_contents q"
    using d er unfolding q2_def by (auto simp: cq_contents_def comm)
  show "cqReadyChunk q2 = None" using none by (simp add: q2_def)
  show "omap_find (cqChunkMap q2) k = (if k = a then if ChunkTasks_empty old then None else Some old
       else omap_find (cqChunkMap q) k)" by (simp add: q2_def)
qed

lemma cq_advance_ok:
  assumes inv: "cq_inv q w" and none: "cqReadyChunk q = None" and a: "cqActiveChunk q = Some a"
  shows "cq_inv (cq_advance a q) w \<and> cq_contents (cq_advance a q) = cq_contents q
    \<and> cqReadyChunk (cq_advance a q) = None"
proof -
  have ok: "cq_ok q" using inv by (simp add: cq_inv_def)
  obtain ct where f: "omap_find (cqChunkMap q) a = Some ct" using cq_okD(3) [OF ok a] by blast
  let ?old = "ChunkTasks_setActive False ct"
  let ?q2 = "if ChunkTasks_empty ?old
       then (cq_put a ?old q)\<lparr>cqChunkMap := omap_erase a (omap_set a ?old (cqChunkMap q))\<rparr> else cq_put a ?old q"
  let ?n = "if ChunkTasks_empty ?old \<and> omap_next_cyclic a (cqChunkMap q) = Some a then None
            else omap_next_cyclic a (cqChunkMap q)"
  note cl = cq_close_ok [OF ok none a f]
  have idle: "ctReadyTask cj = None" if "omap_find (cqChunkMap q) j = Some cj" for j cj
    using cq_okD(2) [OF ok that] none by (simp add: ct_ok_def)
  show ?thesis
  proof (cases ?n)
    case None
    then have "cq_advance a q = ?q2\<lparr>cqActiveChunk := None\<rparr>"
      using f by (auto simp: cq_advance_def Let_def split: if_splits)
    then show ?thesis using cl idle idle [OF f] by (auto simp: cq_inv_def split: if_splits)
  next
    case (Some n)
    have "\<exists>cn. omap_find (cqChunkMap ?q2) n = Some cn"
      using Some omap_next_cyclic_find [of a "cqChunkMap q" n] cl(4) [of n] by (auto split: if_splits)
    then obtain cn where cn: "omap_find (cqChunkMap ?q2) n = Some cn" by blast
    let ?cn = "ChunkTasks_setActive True (ChunkTasks_movePendingToActive cn)"
    have cto: "ct_ok None None n cn" using cq_okD(2) [OF cl(1), of n cn] cn cl(3) by simp
    have new: "ct_ok (Some n) (cqReadyChunk ?q2) n ?cn"
      using cto cl(3) by (simp add: ct_ok_def ct_tasks_setActive ct_tasks_movePending)
    have adv: "cq_advance a q = (cq_put n ?cn ?q2)\<lparr>cqActiveChunk := Some n\<rparr>"
      using Some f cn by (auto simp: cq_advance_def Let_def cq_chunk_def cq_put_def split: if_splits)
    have same: "ct_tasks ?cn = ct_tasks cn" by (simp add: ct_tasks_setActive ct_tasks_movePending)
    note act = cq_activate [OF cl(1) cn new same]
    have "ctReadyTask ?cn = None" using cto by (simp add: ct_ok_def)
    moreover have "ctReadyTask cj = None" if "omap_find (cqChunkMap ?q2) j = Some cj" for j cj
      using that cl(4) [of j] idle f by (auto split: if_splits)
    ultimately show ?thesis
      using act cl(2,3) adv by (auto simp: cq_inv_def split: if_splits)
  qed
qed

lemma cq_ready_step:
  assumes r: "ChunkTasksQueue_ready vt sched fl q w = Inr (b, q', w')" and inv: "cq_inv q w"
  shows "cq_step vt 2 q w b q' w'"
proof (cases "cqReadyChunk q \<noteq> None \<or> cqChunkMap q = []")
  case True
  have "cqReadyChunk q = None" if "cqChunkMap q = []"
    using that cq_okD(4) [of q] inv by (cases "cqReadyChunk q") (auto simp: cq_inv_def)
  with True r inv cq_step_refl [OF inv, of vt 2] show ?thesis
    by (auto simp: ChunkTasksQueue_ready_def split: if_splits)
next
  case False
  then have none: "cqReadyChunk q = None" and ne: "cqChunkMap q \<noteq> []" by auto
  let ?q1 = "cq_begin q"
  note bg = cq_begin_ok [OF inv ne]
  obtain a where a: "cqActiveChunk ?q1 = Some a" using bg(4) by blast
  have ok1: "cq_ok ?q1" using bg(1) by (simp add: cq_inv_def)
  obtain ct where f: "omap_find (cqChunkMap ?q1) a = Some ct" using cq_okD(3) [OF ok1 a] by blast
  obtain rs ct' w1 where rd: "ChunkTasks_ready vt fl ct w = Inr (rs, ct', w1)"
    using r False a f by (auto simp: ChunkTasksQueue_ready_def Let_def split: sum.splits)
  have none1: "cqReadyChunk ?q1 = None" using bg(3) none by simp
  let ?q2 = "cq_put a ct' ?q1"
  have "cq_step vt 2 ?q1 w b q' w'"
  proof (cases "rs = READY")
    case True
    then have "cq_step vt 1 ?q1 w b q' w'"
      using cq_step_try [OF bg(1) none1 f rd] r False a f rd
      by (auto simp: ChunkTasksQueue_ready_def Let_def)
    then show ?thesis by (rule cq_step_mono) simp
  next
    case no: False
    have st: "cq_step vt 1 ?q1 w False ?q2 w1" by (rule cq_step_try_not [OF bg(1) none1 f rd no])
    have inv2: "cq_inv ?q2 w1" using st by (simp add: cq_step_def)
    have none2: "cqReadyChunk ?q2 = None" "cqActiveChunk ?q2 = Some a" using none1 a by simp_all
    let ?q3 = "if ChunkTasks_readyToAdvance ct' then cq_advance a ?q2 else ?q2"
    have adv: "cq_inv ?q3 w1" "cq_contents ?q3 = cq_contents ?q2" "cqReadyChunk ?q3 = None"
      using cq_advance_ok [OF inv2 none2] inv2 none2 by auto
    have "cq_step vt 1 ?q3 w1 b q' w'"
    proof (cases "cqActiveChunk ?q3")
      case None
      then show ?thesis
        using r False a f rd no none2 adv cq_step_refl [OF adv(1), of vt 1]
        by (auto simp: ChunkTasksQueue_ready_def Let_def split: if_splits)
    next
      case (Some n)
      then have "cq_scan_from vt sched fl n ?q3 w1 = Inr (b, q', w')"
        using r False a f rd no none2
        by (auto simp: ChunkTasksQueue_ready_def Let_def split: if_splits)
      moreover obtain cn where "omap_find (cqChunkMap ?q3) n = Some cn"
        using cq_okD(3) [of ?q3 n] adv(1) Some by (auto simp: cq_inv_def)
      ultimately show ?thesis using cq_scan_from_step adv by blast
    qed
    then have "cq_step vt 1 ?q2 w1 b q' w'" using adv(2) by (simp add: cq_step_def)
    from cq_step_trans [OF st this] show ?thesis by (simp add: numeral_2_eq_2)
  qed
  then show ?thesis using bg(2) by (simp add: cq_step_def)
qed

section \<open>The other operations\<close>

lemma ct_getTask_ready:
  assumes "ctReadyTask ct = Some t"
  shows "ChunkTasks_getTask vt fl ct w = Inr (Some t, ct\<lparr>ctReadyTask := None, ctInFlightTasks :=
    (if getChunkId t = ctChunkId ct then insert (tPtr t) (ctInFlightTasks ct) else ctInFlightTasks ct)\<rparr>, w)"
  using assms by (simp add: ChunkTasks_getTask_def ChunkTasks_ready_def)

lemma cq_take_ok:
  assumes inv: "cq_inv q w" and rdy: "cqReadyChunk q = Some k"
  shows "\<exists>t ct ct'. omap_find (cqChunkMap q) k = Some ct \<and> ctReadyTask ct = Some t
    \<and> ct' = ct\<lparr>ctReadyTask := None, ctInFlightTasks := insert (tPtr t) (ctInFlightTasks ct)\<rparr>
    \<and> ChunkTasks_getTask vt fl (cq_chunk q k) w = Inr (Some t, ct', w)
    \<and> hasMemHandle (task_st t w) \<and> getChunkId t = k
    \<and> cq_inv ((cq_put k ct' q)\<lparr>cqReadyChunk := None, cqTaskCount := cqTaskCount q - 1\<rparr>) w
    \<and> cq_contents q = add_mset t (cq_contents (cq_put k ct' q))"
proof -
  have ok: "cq_ok q" using inv by (simp add: cq_inv_def)
  obtain ct where f: "omap_find (cqChunkMap q) k = Some ct" using cq_okD(4) [OF ok rdy] by blast
  note cto = cq_okD(2) [OF ok f]
  obtain t where t: "ctReadyTask ct = Some t" using cto rdy by (auto simp: ct_ok_def)
  have chunk: "getChunkId t = k" "ctChunkId ct = k" using cto t by (auto simp: ct_ok_def ct_tasks_def)
  let ?ct = "ct\<lparr>ctReadyTask := None, ctInFlightTasks := insert (tPtr t) (ctInFlightTasks ct)\<rparr>"
  have tasks: "ct_tasks ct = add_mset t (ct_tasks ?ct)" using t by (simp add: ct_tasks_def)
  have c: "cq_contents q = add_mset t (cq_contents (cq_put k ?ct q))"
    using cq_contents_put [OF cq_okD(1) [OF ok] f, of ?ct] tasks by simp
  have "ct_ok (cqActiveChunk q) None k ?ct" using cto tasks by (auto simp: ct_ok_def)
  moreover have "cqTaskCount q - 1 = int (size (cq_contents (cq_put k ?ct q)))"
    using cq_okD(5) [OF ok] c by simp
  ultimately have "cq_ok ((cq_put k ?ct q)\<lparr>cqReadyChunk := None, cqTaskCount := cqTaskCount q - 1\<rparr>)"
    using cq_put_ok [OF ok f, of None ?ct "cqTaskCount q - 1"] rdy by auto
  then have "cq_inv ((cq_put k ?ct q)\<lparr>cqReadyChunk := None, cqTaskCount := cqTaskCount q - 1\<rparr>) w"
    using inv by (auto simp: cq_inv_def split: if_splits)
  moreover have "hasMemHandle (task_st t w)" using inv f t by (auto simp: cq_inv_def)
  ultimately show ?thesis using f t chunk c ct_getTask_ready [OF t, of vt fl w] by simp
qed

lemma cq_get_cases:
  assumes g: "ChunkTasksQueue_getTask vt sched fl q w = Inr (r, q', w')" and inv: "cq_inv q w"
  obtains (none) q1 where "ChunkTasksQueue_ready vt sched fl q w = Inr (False, q1, w')" "r = None" "q' = q1"
      "cq_inv q' w'" "cq_contents q' = cq_contents q"
  | (some) q1 k t ct where "ChunkTasksQueue_ready vt sched fl q w = Inr (True, q1, w')" "r = Some t"
      "cqReadyChunk q1 = Some k" "omap_find (cqChunkMap q1) k = Some ct" "ctReadyTask ct = Some t"
      "q' = (cq_put k (ct\<lparr>ctReadyTask := None, ctInFlightTasks := insert (tPtr t) (ctInFlightTasks ct)\<rparr>) q1)
         \<lparr>cqReadyChunk := None, cqTaskCount := cqTaskCount q1 - 1\<rparr>"
      "hasMemHandle (task_st t w')" "getChunkId t = k" "cq_inv q' w'" "cq_contents q = add_mset t (cq_contents q')"
proof -
  obtain b q1 w1 where rd: "ChunkTasksQueue_ready vt sched fl q w = Inr (b, q1, w1)"
    using g by (auto simp: ChunkTasksQueue_getTask_def split: sum.splits)
  have st: "cq_step vt 2 q w b q1 w1" by (rule cq_ready_step [OF rd inv])
  show ?thesis
  proof (cases "cqReadyChunk q1")
    case None
    then have "b = False" "r = None" "q' = q1" "w' = w1"
      using g rd st by (auto simp: ChunkTasksQueue_getTask_def cq_step_def)
    then show ?thesis using none rd st by (simp add: cq_step_def)
  next
    case (Some k)
    have inv1: "cq_inv q1 w1" using st by (simp add: cq_step_def)
    obtain t ct ct' where tk: "omap_find (cqChunkMap q1) k = Some ct" "ctReadyTask ct = Some t"
        "ct' = ct\<lparr>ctReadyTask := None, ctInFlightTasks := insert (tPtr t) (ctInFlightTasks ct)\<rparr>"
        "ChunkTasks_getTask vt fl (cq_chunk q1 k) w1 = Inr (Some t, ct', w1)"
        "hasMemHandle (task_st t w1)" "getChunkId t = k"
        "cq_inv ((cq_put k ct' q1)\<lparr>cqReadyChunk := None, cqTaskCount := cqTaskCount q1 - 1\<rparr>) w1"
        "cq_contents q1 = add_mset t (cq_contents (cq_put k ct' q1))"
      using cq_take_ok [OF inv1 Some, of vt fl] by blast
    have "r = Some t" "w' = w1" "q' = (cq_put k ct' q1)\<lparr>cqReadyChunk := None, cqTaskCount := cqTaskCount q1 - 1\<rparr>"
      using g rd Some tk(4) by (simp_all add: ChunkTasksQueue_getTask_def)
    moreover have "b = True" "cq_contents q1 = cq_contents q" using st Some by (auto simp: cq_step_def)
    ultimately show ?thesis using some [of q1 t k ct] rd Some tk by simp
  qed
qed

lemma ct_queue_ok:
  assumes "ct_ok act rdy k ct" "getChunkId t = k"
  shows "ct_ok act rdy k (ChunkTasks_queTask t ct)"
proof -
  have "ctPendingTasks (ChunkTasks_queTask t ct) = [] \<or> ctActive ct"
    using assms(1) by (auto simp: ct_ok_def ChunkTasks_queTask_def)
  then show ?thesis using assms by (auto simp: ct_ok_def ct_tasks_queTask)
qed

lemma cq_queue_ok:
  assumes ok: "cq_ok q"
  shows "cq_ok (ChunkTasksQueue_queueTask t q)"
    "cq_contents (ChunkTasksQueue_queueTask t q) = add_mset t (cq_contents q)"
proof -
  let ?k = "getChunkId t" and ?q' = "ChunkTasksQueue_queueTask t q"
  let ?ct = "ChunkTasks_queTask t (cq_chunk q ?k)"
  have q': "?q' = (cq_put ?k ?ct q)\<lparr>cqTaskCount := cqTaskCount q + 1\<rparr>"
    by (simp add: ChunkTasksQueue_queueTask_def Let_def cq_put_def cq_chunk_def)
  have "ct_ok (cqActiveChunk q) (cqReadyChunk q) ?k (cq_chunk q ?k)"
  proof (cases "omap_find (cqChunkMap q) ?k")
    case None
    with ok have "cqActiveChunk q \<noteq> Some ?k" "cqReadyChunk q \<noteq> Some ?k" by (auto simp: cq_ok_def)
    then show ?thesis using None by (simp add: cq_chunk_def ct_ok_def ChunkTasks_new_def ct_tasks_def)
  next
    case (Some ct)
    then show ?thesis using cq_okD(2) [OF ok Some] by simp
  qed
  then have new: "ct_ok (cqActiveChunk q) (cqReadyChunk q) ?k ?ct" by (rule ct_queue_ok) simp
  show c: "cq_contents ?q' = add_mset t (cq_contents q)"
  proof (cases "omap_find (cqChunkMap q) ?k")
    case None
    then have "ct_tasks (cq_chunk q ?k) = {#}" by (simp add: cq_chunk_def ChunkTasks_new_def ct_tasks_def)
    then show ?thesis using None
      by (simp add: q' cq_contents_def omap_sum_set_new ct_tasks_queTask)
  next
    case (Some ct)
    then show ?thesis
      using cq_contents_put [OF cq_okD(1) [OF ok] Some, of ?ct] by (simp add: q' ct_tasks_queTask)
  qed
  show "cq_ok ?q'"
    using ok new c by (auto simp: cq_ok_def q')
qed

lemma ct_remove_cases:
  assumes "ChunkTasks_removeTask t ct = (r, ct')"
  obtains (none) "r = None" "ct' = ct"
  | (active) u ts where "r = Some u" "idsMatch u (tQId t) (tJId t)"
      "mset (ctActiveTasks ct) = add_mset u (mset ts)" "ct' = ct\<lparr>ctActiveTasks := SlowTableHeap_heapify ts\<rparr>"
  | (pending) u ts where "r = Some u" "idsMatch u (tQId t) (tJId t)"
      "mset (ctPendingTasks ct) = add_mset u (mset ts)" "ct' = ct\<lparr>ctPendingTasks := ts\<rparr>"
proof (cases "take_first (\<lambda>u. idsMatch u (tQId t) (tJId t)) (ctActiveTasks ct)")
  case (Some p)
  obtain u ts where p: "p = (u, ts)" by fastforce
  have "r = Some u" "ct' = ct\<lparr>ctActiveTasks := SlowTableHeap_heapify ts\<rparr>"
    using assms Some p by (simp_all add: ChunkTasks_removeTask_def)
  then show ?thesis using active take_first_Some [OF Some [unfolded p]] by blast
next
  case no: None
  show ?thesis
  proof (cases "take_first (\<lambda>u. idsMatch u (tQId t) (tJId t)) (ctPendingTasks ct)")
    case (Some p)
    obtain u ts where p: "p = (u, ts)" by fastforce
    have "r = Some u" "ct' = ct\<lparr>ctPendingTasks := ts\<rparr>"
      using assms no Some p by (simp_all add: ChunkTasks_removeTask_def)
    then show ?thesis using pending take_first_Some [OF Some [unfolded p]] by blast
  next
    case None
    have "r = None" "ct' = ct" using assms no None by (simp_all add: ChunkTasks_removeTask_def)
    then show ?thesis using none by blast
  qed
qed

lemma ct_remove_ok:
  assumes "ChunkTasks_removeTask t ct = (r, ct')" "ct_ok act rdy k ct"
  shows "ct_ok act rdy k ct'" "ctReadyTask ct' = ctReadyTask ct" "ctInFlightTasks ct' = ctInFlightTasks ct"
    "ct_tasks ct = (case r of None \<Rightarrow> ct_tasks ct' | Some u \<Rightarrow> add_mset u (ct_tasks ct'))"
    "r = Some u \<Longrightarrow> idsMatch u (tQId t) (tJId t)"
proof -
  show c: "ct_tasks ct = (case r of None \<Rightarrow> ct_tasks ct' | Some u \<Rightarrow> add_mset u (ct_tasks ct'))"
    using assms(1) by (cases rule: ct_remove_cases) (simp_all add: ct_tasks_def mset_heapify)
  have sub: "set_mset (ct_tasks ct') \<subseteq> set_mset (ct_tasks ct)" unfolding c by (auto split: option.split)
  show "ct_ok act rdy k ct'"
    using assms(1)
  proof (cases rule: ct_remove_cases)
    case (pending v ts)
    then have "ctPendingTasks ct \<noteq> []" by auto
    then show ?thesis using assms(2) pending sub by (auto simp: ct_ok_def)
  qed (use assms(2) sub in \<open>auto simp: ct_ok_def\<close>)
  show "ctReadyTask ct' = ctReadyTask ct" "ctInFlightTasks ct' = ctInFlightTasks ct"
    "r = Some u \<Longrightarrow> idsMatch u (tQId t) (tJId t)"
    using assms(1) by (cases rule: ct_remove_cases; simp)+
qed

lemma cq_remove_ok:
  assumes inv: "cq_inv q w" and r: "ChunkTasksQueue_removeTask t q = (r, q')"
  shows "cq_inv q' w" "cq_contents q = (case r of None \<Rightarrow> cq_contents q' | Some u \<Rightarrow> add_mset u (cq_contents q'))"
    "r = Some u \<Longrightarrow> idsMatch u (tQId t) (tJId t)"
proof -
  let ?k = "getChunkId t"
  have ok: "cq_ok q" using inv by (simp add: cq_inv_def)
  have "cq_inv q' w \<and> cq_contents q = (case r of None \<Rightarrow> cq_contents q' | Some u \<Rightarrow> add_mset u (cq_contents q'))
    \<and> (r = Some u \<longrightarrow> idsMatch u (tQId t) (tJId t))"
  proof (cases "omap_find (cqChunkMap q) ?k")
    case None
    with r inv show ?thesis by (auto simp: ChunkTasksQueue_removeTask_def)
  next
    case (Some ct)
    obtain ct' where m: "ChunkTasks_removeTask t ct = (r, ct')"
      and q': "q' = (cq_put ?k ct' q)\<lparr>cqTaskCount := cqTaskCount q - (if r = None then 0 else 1)\<rparr>"
      using r Some by (cases "ChunkTasks_removeTask t ct")
        (auto simp: ChunkTasksQueue_removeTask_def Let_def cq_put_def)
    note ro = ct_remove_ok [OF m cq_okD(2) [OF ok Some]]
    obtain C where C: "C = cq_contents (cq_put ?k ct' q)" by blast
    have cC: "cq_contents q = (case r of None \<Rightarrow> C | Some u \<Rightarrow> add_mset u C)"
      using cq_contents_put [OF cq_okD(1) [OF ok] Some, of ct'] ro(4) C by (cases r) simp_all
    moreover have "cq_contents q' = C" unfolding q' C by simp
    ultimately have c: "cq_contents q = (case r of None \<Rightarrow> cq_contents q' | Some u \<Rightarrow> add_mset u (cq_contents q'))"
      by (cases r) simp_all
    have "cqTaskCount q - (if r = None then 0 else 1) = int (size C)"
      using cC cq_okD(5) [OF ok] by (cases r) simp_all
    then have "cqTaskCount q - (if r = None then 0 else 1) = int (size (cq_contents (cq_put ?k ct' q)))"
      by (simp add: C)
    from cq_put_ok [OF ok Some ro(1) _ this] have "cq_ok q'"
      unfolding q' by (simp add: cq_put_def)
    moreover have "hasMemHandle (task_st v w)"
      if "omap_find (cqChunkMap q') j = Some cj" "ctReadyTask cj = Some v" for j cj v
      using that inv Some ro(2) by (cases "j = ?k") (auto simp: cq_inv_def q')
    ultimately show ?thesis using c ro(5) unfolding cq_inv_def by blast
  qed
  then show "cq_inv q' w" "cq_contents q = (case r of None \<Rightarrow> cq_contents q' | Some u \<Rightarrow> add_mset u (cq_contents q'))"
    "r = Some u \<Longrightarrow> idsMatch u (tQId t) (tJId t)" by auto
qed

lemma cq_complete_ok:
  assumes inv: "cq_inv q w"
  shows "cq_inv (ChunkTasksQueue_taskComplete t q) w"
    "cq_contents (ChunkTasksQueue_taskComplete t q) = cq_contents q"
proof -
  have ok: "cq_ok q" using inv by (simp add: cq_inv_def)
  have "cq_inv (ChunkTasksQueue_taskComplete t q) w \<and> cq_contents (ChunkTasksQueue_taskComplete t q) = cq_contents q"
  proof (cases "omap_find (cqChunkMap q) (getChunkId t)")
    case None
    with inv show ?thesis by (simp add: ChunkTasksQueue_taskComplete_def)
  next
    case (Some ct)
    let ?ct = "ChunkTasks_taskComplete t ct"
    have same: "ct_tasks ?ct = ct_tasks ct" by (simp add: ct_tasks_def)
    then have "ct_ok (cqActiveChunk q) (cqReadyChunk q) (getChunkId t) ?ct"
      using cq_okD(2) [OF ok Some] by (auto simp: ct_ok_def)
    note put = cq_put_same [OF ok Some this _ same]
    have "ChunkTasksQueue_taskComplete t q = (cq_put (getChunkId t) ?ct q)\<lparr>cqReadyChunk := cqReadyChunk q\<rparr>"
      using Some by (simp add: ChunkTasksQueue_taskComplete_def cq_put_def)
    then show ?thesis using put inv Some by (auto simp: cq_inv_def split: if_splits)
  qed
  then show "cq_inv (ChunkTasksQueue_taskComplete t q) w"
    "cq_contents (ChunkTasksQueue_taskComplete t q) = cq_contents q" by auto
qed

section \<open>The contract\<close>

interpretation cq: task_collection "chunkTasksQueue_tc :: (chunkTasksQueue, 'm) taskCollection" cq_inv cq_contents
proof (unfold_locales, goal_cases)
  case (1 q w w')
  then show ?case using cq_ready_task_in [of q] by (auto simp: cq_inv_def cq_ok_def)
next
  case (2 q w t)
  have ready: "ctReadyTask ct = ctReadyTask (cq_chunk q k)"
    if "omap_find (cqChunkMap (ChunkTasksQueue_queueTask t q)) k = Some ct" for k ct
    using that by (auto simp: ChunkTasksQueue_queueTask_def Let_def cq_chunk_def split: if_splits)
  have "hasMemHandle (task_st u w)"
    if "omap_find (cqChunkMap (ChunkTasksQueue_queueTask t q)) k = Some ct" "ctReadyTask ct = Some u" for k ct u
    using ready [OF that(1)] that(2) 2
    by (auto simp: cq_inv_def cq_chunk_def ChunkTasks_new_def split: option.splits)
  then show ?case using 2 cq_queue_ok(1) [of q t] by (simp add: cq_inv_def chunkTasksQueue_tc_def)
next
  case (3 q w t)
  then show ?case using cq_queue_ok(2) [of q t] by (simp add: cq_inv_def chunkTasksQueue_tc_def)
next
  case (4 q w vt sb fl b q' w')
  then show ?case using cq_ready_step [of vt sb fl q w b q' w'] by (simp add: chunkTasksQueue_tc_def cq_step_def)
next
  case (5 q w vt sb fl b q' w')
  then show ?case using cq_ready_step [of vt sb fl q w b q' w'] by (simp add: chunkTasksQueue_tc_def cq_step_def)
next
  case (6 q w vt sb fl b q' w')
  then show ?case using cq_ready_step [of vt sb fl q w b q' w'] by (simp add: chunkTasksQueue_tc_def cq_step_def)
next
  case (7 q w vt sb fl q' w' fl')
  then have st: "cq_step vt 2 q w True q' w'" using cq_ready_step by (simp add: chunkTasksQueue_tc_def)
  then obtain k where k: "cqReadyChunk q' = Some k" and inv: "cq_inv q' w'" by (auto simp: cq_step_def)
  obtain t ct' where "ChunkTasks_getTask vt fl' (cq_chunk q' k) w' = Inr (Some t, ct', w')"
    using cq_take_ok [OF inv k, of vt fl'] by blast
  then show ?case using k by (simp add: chunkTasksQueue_tc_def ChunkTasksQueue_getTask_def ChunkTasksQueue_ready_def)
next
  case (8 q w vt sb fl r q' w')
  then have "ChunkTasksQueue_getTask vt sb fl q w = Inr (r, q', w')" by (simp add: chunkTasksQueue_tc_def)
  then show ?case using 8(1) by (cases rule: cq_get_cases) auto
next
  case (9 q w vt sb fl r q' w')
  then have "ChunkTasksQueue_getTask vt sb fl q w = Inr (r, q', w')" by (simp add: chunkTasksQueue_tc_def)
  then show ?case using 9(1) by (cases rule: cq_get_cases) auto
next
  case (10 q w vt sb fl r q' w')
  then have g: "ChunkTasksQueue_getTask vt sb fl q w = Inr (r, q', w')" by (simp add: chunkTasksQueue_tc_def)
  then obtain b q1 where "ChunkTasksQueue_ready vt sb fl q w = Inr (b, q1, w')"
    using 10(1) by (cases rule: cq_get_cases) auto
  then show ?case using cq_ready_step [OF _ 10(1)] by (auto simp: cq_step_def)
next
  case (11 q w vt sb fl t q' w')
  then have "ChunkTasksQueue_getTask vt sb fl q w = Inr (Some t, q', w')" by (simp add: chunkTasksQueue_tc_def)
  then show ?case using 11(1) by (cases rule: cq_get_cases) auto
next
  case (12 q w t)
  then show ?case using cq_complete_ok(1) by (simp add: chunkTasksQueue_tc_def)
next
  case (13 q w t)
  then show ?case using cq_complete_ok(2) by (simp add: chunkTasksQueue_tc_def)
next
  case (14 q w t r q')
  then show ?case using cq_remove_ok(1) by (simp add: chunkTasksQueue_tc_def)
next
  case (15 q w t r q')
  then show ?case using cq_remove_ok(2) by (simp add: chunkTasksQueue_tc_def)
next
  case (16 q w t u q')
  then show ?case using cq_remove_ok(3) [OF _ _ refl] by (simp add: chunkTasksQueue_tc_def)
next
  case (17 q w)
  then show ?case using cq_okD(5) [of q] by (simp add: cq_inv_def chunkTasksQueue_tc_def ChunkTasksQueue_getSize_def)
next
  case (18 q w)
  then show ?case by (simp add: chunkTasksQueue_tc_def ChunkTasksQueue_empty_def cq_contents_def)
qed

lemma cq_new_inv: "cq_inv ChunkTasksQueue_new w" "cq_contents ChunkTasksQueue_new = {#}"
  by (simp_all add: cq_inv_def cq_ok_def ChunkTasksQueue_new_def cq_contents_def)

end
