(* ===== verification/Memory_Manager.thy ===== *)
theory Memory_Manager
  imports Mem_Man_Iface "HOL-Library.Word" "HOL-Library.Char_ord" "HOL-Library.List_Lexorder"
begin

text \<open>
  The memory managers of \<open>memman/\<close>: \<open>Memory\<close> (accounting of reserved and locked bytes),
  \<open>MemFile\<close> (one database file, shared by reference count), \<open>MemFileSet\<close> (the files of one
  request), \<open>MemManReal\<close> (handles to file sets) and \<open>MemManNone\<close>.

  The state \<open>mmState\<close> holds what the sources keep in static objects and in the manager objects:
  the file cache (\<open>fileCache\<close>, by path), the handle cache (\<open>hanCache\<close>), the handle counter and,
  per manager, its \<open>Memory\<close> and its counters. A \<open>MemFile*\<close> is its path: the cache holds at most
  one object per path and an object leaves the cache when its last reference is released. A
  \<open>Memory&\<close> is the number of its manager, so that the ownership tests (\<open>EXDEV\<close>, \<open>isOwner\<close>) are
  those of the code. Each method is one atomic step; the mutexes are not part of the state.

  The operating system is a parameter: \<open>os\<close> answers \<open>stat\<close>, \<open>open\<close>, \<open>fstat\<close>, \<open>mmap\<close> and \<open>mlock\<close>.
  The first argument of each answer is the number of system calls made so far, so the same call
  may succeed once and fail later. \<open>os_documented\<close> is what the theorems assume of it: a failing
  call reports an error number other than 0 and a database file keeps its size.
\<close>

section \<open>State\<close>

record memInfo =
  miAddr :: "nat option"
  miErrCode :: int
  miSize :: nat

record memory =
  mDbDir :: string
  mMaxBytes :: nat
  mLokBytes :: nat
  mRsvBytes :: nat
  mNumMapErrs :: "32 word"
  mNumLokErrs :: "32 word"
  mFlexNum :: "32 word"

record memFile =
  mfMemory :: nat
  mfInfo :: memInfo
  mfRefs :: int
  mfIsMapped :: bool
  mfIsReserved :: bool
  mfIsLocked :: bool
  mfIsFlex :: bool
  mfMlocking :: bool

record memFileSet =
  fsMemory :: nat
  fsLockFiles :: "string list"
  fsFlexFiles :: "string list"
  fsLockBytes :: nat
  fsNumFiles :: "32 word"
  fsChunk :: int

record mgrCounters =
  mcNumErrors :: "32 word"
  mcNumLkerrs :: "32 word"
  mcNumLocks :: "32 word"
  mcNumReqdFiles :: "32 word"
  mcNumFlexFiles :: "32 word"

record mmState =
  fileCache :: "(string, memFile) omap"
  hanCache :: "(handle, memFileSet) omap"
  handleNum :: handle
  memories :: "nat \<Rightarrow> memory"
  counters :: "nat \<Rightarrow> mgrCounters"
  sysCalls :: nat

record os =
  osStat :: "nat \<Rightarrow> string \<Rightarrow> int + int"
  osOpen :: "nat \<Rightarrow> string \<Rightarrow> int option"
  osFstat :: "nat \<Rightarrow> string \<Rightarrow> int + int"
  osMmap :: "nat \<Rightarrow> string \<Rightarrow> nat \<Rightarrow> int + nat"
  osMlock :: "nat \<Rightarrow> nat option \<Rightarrow> nat \<Rightarrow> int option"

definition os_documented :: "os \<Rightarrow> (string \<Rightarrow> int) \<Rightarrow> bool" where
  "os_documented os sz \<longleftrightarrow>
     (\<forall>k p s. osStat os k p = Inr s \<longrightarrow> s = sz p) \<and>
     (\<forall>k p s. osFstat os k p = Inr s \<longrightarrow> s = sz p) \<and>
     (\<forall>k p e. osStat os k p = Inl e \<longrightarrow> e \<noteq> 0) \<and>
     (\<forall>k p e. osOpen os k p = Some e \<longrightarrow> e \<noteq> 0) \<and>
     (\<forall>k p e. osFstat os k p = Inl e \<longrightarrow> e \<noteq> 0) \<and>
     (\<forall>k p n e. osMmap os k p n = Inl e \<longrightarrow> e \<noteq> 0) \<and>
     (\<forall>k a n e. osMlock os k a n = Some e \<longrightarrow> e \<noteq> 0)"

abbreviation upd_memory :: "nat \<Rightarrow> (memory \<Rightarrow> memory) \<Rightarrow> mmState \<Rightarrow> mmState" where
  "upd_memory mid g st \<equiv> st\<lparr>memories := (memories st)(mid := g (memories st mid))\<rparr>"

abbreviation upd_counters :: "nat \<Rightarrow> (mgrCounters \<Rightarrow> mgrCounters) \<Rightarrow> mmState \<Rightarrow> mmState" where
  "upd_counters mid g st \<equiv> st\<lparr>counters := (counters st)(mid := g (counters st mid))\<rparr>"

abbreviation put_file :: "string \<Rightarrow> memFile \<Rightarrow> mmState \<Rightarrow> mmState" where
  "put_file p f st \<equiv> st\<lparr>fileCache := omap_set p f (fileCache st)\<rparr>"

abbreviation tick :: "mmState \<Rightarrow> mmState" where
  "tick st \<equiv> st\<lparr>sysCalls := Suc (sysCalls st)\<rparr>"

section \<open>MemInfo and Memory\<close>

definition MemInfo_new :: memInfo where
  "MemInfo_new = \<lparr>miAddr = None, miErrCode = 0, miSize = 0\<rparr>"

definition MemInfo_errCode :: "memInfo \<Rightarrow> int" where
  "MemInfo_errCode i = (if miSize i = 0 then miErrCode i else 0)"

definition MemInfo_isValid :: "memInfo \<Rightarrow> bool" where
  "MemInfo_isValid i \<longleftrightarrow> miSize i \<noteq> 0"

definition MemInfo_setErrCode :: "int \<Rightarrow> memInfo \<Rightarrow> memInfo" where
  "MemInfo_setErrCode e i = i\<lparr>miSize := 0, miErrCode := e\<rparr>"

definition Memory_new :: "string \<Rightarrow> nat \<Rightarrow> memory" where
  "Memory_new dbDir memSZ = \<lparr>mDbDir = dbDir, mMaxBytes = memSZ, mLokBytes = 0, mRsvBytes = 0,
     mNumMapErrs = 0, mNumLokErrs = 0, mFlexNum = 0\<rparr>"

definition Memory_bytesFree :: "memory \<Rightarrow> nat" where
  "Memory_bytesFree m = (if mMaxBytes m \<le> mRsvBytes m then 0 else mMaxBytes m - mRsvBytes m)"

definition Memory_memReserve :: "nat \<Rightarrow> memory \<Rightarrow> memory" where
  "Memory_memReserve memSZ m = m\<lparr>mRsvBytes := u64_add (mRsvBytes m) memSZ\<rparr>"

definition Memory_memRestore :: "nat \<Rightarrow> memory \<Rightarrow> memory" where
  "Memory_memRestore memSZ m =
     (if mRsvBytes m \<le> memSZ then m\<lparr>mRsvBytes := 0\<rparr>
      else m\<lparr>mRsvBytes := mRsvBytes m - memSZ\<rparr>)"

definition Memory_fileInfo :: "os \<Rightarrow> string \<Rightarrow> mmState \<Rightarrow> memInfo \<times> mmState" where
  "Memory_fileInfo os fPath st =
     ((case osStat os (sysCalls st) fPath of
         Inl e \<Rightarrow> MemInfo_new\<lparr>miErrCode := e\<rparr>
       | Inr st_size \<Rightarrow>
           if 0 < st_size then MemInfo_new\<lparr>miSize := nat st_size\<rparr>
           else MemInfo_new\<lparr>miErrCode := ESPIPE\<rparr>), tick st)"

definition Memory_filePath :: "memory \<Rightarrow> string \<Rightarrow> int \<Rightarrow> bool \<Rightarrow> string" where
  "Memory_filePath m dbTable chunk isIndex =
     mDbDir m @ ''/'' @ dbTable @ ''_'' @ int_to_string chunk
     @ (if isIndex then ''.MYI'' else ''.MYD'')"

definition Memory_memLock :: "os \<Rightarrow> nat \<Rightarrow> memInfo \<Rightarrow> bool \<Rightarrow> mmState \<Rightarrow> int \<times> mmState" where
  "Memory_memLock os mid mInfo isFlex st =
     (if \<not> MemInfo_isValid mInfo then (EFAULT, st)
      else case osMlock os (sysCalls st) (miAddr mInfo) (miSize mInfo) of
        None \<Rightarrow> (0, upd_memory mid (\<lambda>m. m\<lparr>mLokBytes := u64_add (mLokBytes m) (miSize mInfo),
                  mFlexNum := (if isFlex then mFlexNum m + 1 else mFlexNum m)\<rparr>) (tick st))
      | Some e \<Rightarrow> (if e = EAGAIN then ENOMEM else e,
                  upd_memory mid (\<lambda>m. m\<lparr>mNumLokErrs := mNumLokErrs m + 1\<rparr>) (tick st)))"

definition Memory_mapFile :: "os \<Rightarrow> nat \<Rightarrow> string \<Rightarrow> mmState \<Rightarrow> memInfo \<times> mmState" where
  "Memory_mapFile os mid fPath st0 =
     (let st = tick st0 in
      case osOpen os (sysCalls st0) fPath of
        Some e \<Rightarrow> (MemInfo_setErrCode e MemInfo_new, st)
      | None \<Rightarrow>
         (let st' = tick st in
          case osFstat os (sysCalls st) fPath of
            Inl e \<Rightarrow> (MemInfo_setErrCode e MemInfo_new, st')
          | Inr st_size \<Rightarrow>
             if 0 < st_size then
               (let mInfo = MemInfo_new\<lparr>miSize := nat st_size\<rparr>; st'' = tick st' in
                case osMmap os (sysCalls st') fPath (miSize mInfo) of
                  Inl e \<Rightarrow> (MemInfo_setErrCode e mInfo,
                            upd_memory mid (\<lambda>m. m\<lparr>mNumMapErrs := mNumMapErrs m + 1\<rparr>) st'')
                | Inr a \<Rightarrow> (mInfo\<lparr>miAddr := Some a\<rparr>, st''))
             else (MemInfo_setErrCode ESPIPE MemInfo_new, st')))"

definition Memory_memRel :: "nat \<Rightarrow> memInfo \<Rightarrow> bool \<Rightarrow> mmState \<Rightarrow> memInfo \<times> mmState" where
  "Memory_memRel mid mInfo islkd st =
     (if 0 < miSize mInfo \<and> miAddr mInfo \<noteq> None then
        (mInfo\<lparr>miSize := 0, miAddr := None\<rparr>,
         if islkd then
           upd_memory mid (\<lambda>m. m\<lparr>mLokBytes :=
             (if miSize mInfo < mLokBytes m then mLokBytes m - miSize mInfo else 0)\<rparr>) st
         else st)
      else (mInfo, st))"

record memStats =
  bytesMax :: nat
  bytesReserved :: nat
  bytesLocked :: nat
  numMapErrors :: "32 word"
  numLokErrors :: "32 word"
  numFlexFiles :: "32 word"

definition Memory_statistics :: "memory \<Rightarrow> memStats" where
  "Memory_statistics m = \<lparr>bytesMax = mMaxBytes m, bytesReserved = mRsvBytes m,
     bytesLocked = mLokBytes m, numMapErrors = mNumMapErrs m, numLokErrors = mNumLokErrs m,
     numFlexFiles = mFlexNum m\<rparr>"

section \<open>MemFile\<close>

definition MemFile_new :: "nat \<Rightarrow> memInfo \<Rightarrow> bool \<Rightarrow> memFile" where
  "MemFile_new mid minfo isFlex = \<lparr>mfMemory = mid, mfInfo = minfo, mfRefs = 1, mfIsMapped = False,
     mfIsReserved = False, mfIsLocked = False, mfIsFlex = isFlex, mfMlocking = False\<rparr>"

text \<open>
  \<open>memLock\<close>: the bytes locked and the errno value. The flag \<open>_mlocking\<close> is raised on the branch
  that does not call \<open>mlock\<close> and is down again before the method returns.
\<close>

definition MemFile_memLock :: "os \<Rightarrow> string \<Rightarrow> mmState \<Rightarrow> (nat \<times> int) \<times> mmState" where
  "MemFile_memLock os p st =
     (case omap_find (fileCache st) p of
        None \<Rightarrow> ((0, EFAULT), st)
      | Some f \<Rightarrow>
          if mfIsLocked f then ((miSize (mfInfo f), 0), st)
          else
            let (rc, st') =
              (if \<not> mfIsMapped f then (ENOMEM, st)
               else Memory_memLock os (mfMemory f) (mfInfo f) (mfIsFlex f) st)
            in if rc = 0
               then ((miSize (mfInfo f), 0), put_file p (f\<lparr>mfMlocking := False, mfIsLocked := True\<rparr>) st')
               else ((0, if mfIsFlex f then 0 else rc), put_file p (f\<lparr>mfMlocking := False\<rparr>) st'))"

definition MemFile_memMap :: "os \<Rightarrow> string \<Rightarrow> mmState \<Rightarrow> int \<times> mmState" where
  "MemFile_memMap os p st =
     (case omap_find (fileCache st) p of
        None \<Rightarrow> (EFAULT, st)
      | Some f \<Rightarrow>
          if mfIsMapped f then (0, st)
          else if mfMlocking f then (0, st)
          else if \<not> mfIsReserved f \<and> Memory_bytesFree (memories st (mfMemory f)) < miSize (mfInfo f)
          then ((if mfIsFlex f then 0 else ENOMEM), st)
          else
            let st1 = (if mfIsReserved f then st
                       else upd_memory (mfMemory f) (Memory_memReserve (miSize (mfInfo f))) st);
                f1 = f\<lparr>mfIsReserved := True\<rparr>;
                (mInfo, st2) = Memory_mapFile os (mfMemory f) p st1
            in if MemInfo_isValid mInfo
               then (0, put_file p (f1\<lparr>mfInfo := mInfo, mfIsMapped := True\<rparr>) st2)
               else if mfIsFlex f \<and> MemInfo_errCode mInfo = ENOMEM
               then (0, put_file p f1 st2)
               else (MemInfo_errCode mInfo,
                     put_file p (f1\<lparr>mfIsReserved := False\<rparr>)
                       (upd_memory (mfMemory f) (Memory_memRestore (miSize (mfInfo f))) st2)))"

definition MemFile_numFiles :: "mmState \<Rightarrow> nat" where
  "MemFile_numFiles st = length (fileCache st)"

text \<open>\<open>obtain\<close>: the \<open>MFResult\<close> is the path of the file object, or an errno value.\<close>

definition MemFile_obtain ::
    "os \<Rightarrow> string \<Rightarrow> nat \<Rightarrow> bool \<Rightarrow> mmState \<Rightarrow> (int + string) \<times> mmState" where
  "MemFile_obtain os fPath mid isFlex st =
     (case omap_find (fileCache st) fPath of
        Some f \<Rightarrow>
          if mfMemory f \<noteq> mid then (Inl EXDEV, st)
          else (Inr fPath, put_file fPath (f\<lparr>mfRefs := mfRefs f + 1\<rparr>) st)
      | None \<Rightarrow>
          (case Memory_fileInfo os fPath st of (mInfo, st') \<Rightarrow>
             if \<not> MemInfo_isValid mInfo then (Inl (MemInfo_errCode mInfo), st')
             else (Inr fPath, put_file fPath (MemFile_new mid mInfo isFlex) st')))"

definition MemFile_release :: "string \<Rightarrow> mmState \<Rightarrow> mmState" where
  "MemFile_release p st =
     (case omap_find (fileCache st) p of
        None \<Rightarrow> st
      | Some f \<Rightarrow>
          if 0 < mfRefs f - 1 then put_file p (f\<lparr>mfRefs := mfRefs f - 1\<rparr>) st
          else
            let st1 = st\<lparr>fileCache := omap_erase p (fileCache st)\<rparr>;
                fSize = miSize (mfInfo f);
                st2 = (if mfIsMapped f
                       then snd (Memory_memRel (mfMemory f) (mfInfo f) (mfIsLocked f) st1) else st1)
            in if mfIsReserved f then upd_memory (mfMemory f) (Memory_memRestore fSize) st2 else st2)"

section \<open>MemFileSet\<close>

definition MemFileSet_new :: "nat \<Rightarrow> int \<Rightarrow> memFileSet" where
  "MemFileSet_new mid chunk = \<lparr>fsMemory = mid, fsLockFiles = [], fsFlexFiles = [],
     fsLockBytes = 0, fsNumFiles = 0, fsChunk = chunk\<rparr>"

text \<open>The destructor: every file of the set is released.\<close>

fun release_all :: "string list \<Rightarrow> mmState \<Rightarrow> mmState" where
  "release_all [] st = st"
| "release_all (p # ps) st = release_all ps (MemFile_release p st)"

definition MemFileSet_destroy :: "memFileSet \<Rightarrow> mmState \<Rightarrow> mmState" where
  "MemFileSet_destroy fs st = release_all (fsFlexFiles fs) (release_all (fsLockFiles fs) st)"

definition MemFileSet_add ::
    "os \<Rightarrow> string \<Rightarrow> int \<Rightarrow> bool \<Rightarrow> bool \<Rightarrow> memFileSet \<Rightarrow> mmState \<Rightarrow> int \<times> memFileSet \<times> mmState" where
  "MemFileSet_add os tabname chunk iFile mustLK fs st =
     (let fPath = Memory_filePath (memories st (fsMemory fs)) tabname chunk iFile in
      case MemFile_obtain os fPath (fsMemory fs) (\<not> mustLK) st of
        (Inl retc, st') \<Rightarrow> (retc, fs, st')
      | (Inr mfP, st') \<Rightarrow>
          (0, (if mustLK then fs\<lparr>fsLockFiles := fsLockFiles fs @ [mfP]\<rparr>
               else fs\<lparr>fsFlexFiles := fsFlexFiles fs @ [mfP]\<rparr>)
              \<lparr>fsNumFiles := fsNumFiles fs + 1\<rparr>, st'))"

text \<open>
  The loop of \<open>lockAll\<close> over the required files: the errno of the first failure when \<open>strict\<close>
  (0 otherwise), the bytes locked so far and the state. The loop over the flexible files ignores
  errors.
\<close>

fun lock_required :: "os \<Rightarrow> bool \<Rightarrow> string list \<Rightarrow> nat \<Rightarrow> mmState \<Rightarrow> int \<times> nat \<times> mmState" where
  "lock_required os strict [] tot st = (0, tot, st)"
| "lock_required os strict (p # ps) tot st =
     (case MemFile_memLock os p st of ((bLocked, retc), st') \<Rightarrow>
        let tot' = u64_add tot bLocked in
        if retc \<noteq> 0 \<and> strict then (retc, tot', st') else lock_required os strict ps tot' st')"

fun lock_flexible :: "os \<Rightarrow> string list \<Rightarrow> nat \<Rightarrow> mmState \<Rightarrow> nat \<times> mmState" where
  "lock_flexible os [] tot st = (tot, st)"
| "lock_flexible os (p # ps) tot st =
     (case MemFile_memLock os p st of ((bLocked, retc), st') \<Rightarrow>
        lock_flexible os ps (u64_add tot bLocked) st')"

definition MemFileSet_lockAll ::
    "os \<Rightarrow> bool \<Rightarrow> memFileSet \<Rightarrow> mmState \<Rightarrow> int \<times> memFileSet \<times> mmState" where
  "MemFileSet_lockAll os strict fs st =
     (case lock_required os strict (fsLockFiles fs) 0 st of (retc, tot, st1) \<Rightarrow>
        if retc \<noteq> 0 then (retc, fs\<lparr>fsLockBytes := u64_add (fsLockBytes fs) tot\<rparr>, st1)
        else case lock_flexible os (fsFlexFiles fs) tot st1 of (tot', st2) \<Rightarrow>
          (0, fs\<lparr>fsLockBytes := u64_add (fsLockBytes fs) tot'\<rparr>, st2))"

text \<open>The two loops of \<open>mapAll\<close>.\<close>

fun map_required :: "os \<Rightarrow> string list \<Rightarrow> mmState \<Rightarrow> int \<times> mmState" where
  "map_required os [] st = (0, st)"
| "map_required os (p # ps) st =
     (case MemFile_memMap os p st of (rc, st') \<Rightarrow>
        if rc \<noteq> 0 then (rc, st') else map_required os ps st')"

definition MemFileSet_mapAll :: "os \<Rightarrow> memFileSet \<Rightarrow> mmState \<Rightarrow> int \<times> mmState" where
  "MemFileSet_mapAll os fs st =
     (case map_required os (fsLockFiles fs) st of (rc, st1) \<Rightarrow>
        if rc \<noteq> 0 then (rc, st1) else (0, snd (map_required os (fsFlexFiles fs) st1)))"

record memManStatus =
  bytesLock :: nat
  numFiles :: "32 word"
  chunk :: int

definition MemFileSet_status :: "memFileSet \<Rightarrow> memManStatus" where
  "MemFileSet_status fs = \<lparr>bytesLock = fsLockBytes fs, numFiles = fsNumFiles fs, chunk = fsChunk fs\<rparr>"

section \<open>MemManReal\<close>

definition count_lock :: "lockType \<Rightarrow> tableInfo list \<Rightarrow> nat" where
  "count_lock l tables = length (filter (\<lambda>t. theData t = l) tables)
                       + length (filter (\<lambda>t. theIndex t = l) tables)"

definition add_if ::
    "os \<Rightarrow> string \<Rightarrow> int \<Rightarrow> bool \<Rightarrow> lockType \<Rightarrow> memFileSet \<Rightarrow> mmState \<Rightarrow> int \<times> memFileSet \<times> mmState" where
  "add_if os tab ch iFile l fs st =
     (let mustLock = (l = REQUIRED) in
      if mustLock \<or> l = FLEXIBLE then MemFileSet_add os tab ch iFile mustLock fs st else (0, fs, st))"

text \<open>Pass 2 of \<open>prepare\<close>: the files of each table, data then index, stopping at an error.\<close>

fun add_tables ::
    "os \<Rightarrow> int \<Rightarrow> tableInfo list \<Rightarrow> memFileSet \<Rightarrow> mmState \<Rightarrow> int \<times> memFileSet \<times> mmState" where
  "add_tables os ch [] fs st = (0, fs, st)"
| "add_tables os ch (tab # tabs) fs st =
     (case add_if os (tableName tab) ch False (theData tab) fs st of (retc, fs1, st1) \<Rightarrow>
        if retc \<noteq> 0 then (retc, fs1, st1)
        else case add_if os (tableName tab) ch True (theIndex tab) fs1 st1 of (retc, fs2, st2) \<Rightarrow>
          if retc \<noteq> 0 then (retc, fs2, st2) else add_tables os ch tabs fs2 st2)"

definition MemManReal_prepare ::
    "os \<Rightarrow> nat \<Rightarrow> tableInfo list \<Rightarrow> int \<Rightarrow> mmState \<Rightarrow> (handle \<times> int) \<times> mmState" where
  "MemManReal_prepare os mid tables ch st =
     (let lockNum = count_lock REQUIRED tables; flexNum = count_lock FLEXIBLE tables in
      if lockNum = 0 \<and> flexNum = 0 then ((H_ISEMPTY, 0), st)
      else
        case add_tables os ch tables (MemFileSet_new mid ch) st of (retc1, fileSet, st1) \<Rightarrow>
          let (retc, st2) = (if retc1 = 0 then MemFileSet_mapAll os fileSet st1 else (retc1, st1)) in
          if retc = 0 then
            let h = u64_add (handleNum st2) 1;
                st3 = upd_counters mid (\<lambda>c. c\<lparr>mcNumReqdFiles := mcNumReqdFiles c + of_nat lockNum,
                        mcNumFlexFiles := mcNumFlexFiles c + of_nat flexNum\<rparr>) st2
            in ((h, 0), st3\<lparr>handleNum := h,
                  hanCache := (if omap_find (hanCache st3) h = None
                               then omap_set h fileSet (hanCache st3) else hanCache st3)\<rparr>)
          else
            ((H_INVALID, retc),
             MemFileSet_destroy fileSet
               (upd_counters mid (\<lambda>c. c\<lparr>mcNumErrors := mcNumErrors c + 1\<rparr>) st2)))"

definition MemManReal_unlock :: "nat \<Rightarrow> handle \<Rightarrow> mmState \<Rightarrow> bool \<times> mmState" where
  "MemManReal_unlock mid h st =
     (if h = H_ISEMPTY then (True, st)
      else if h = H_INVALID then (False, st)
      else case omap_find (hanCache st) h of
        None \<Rightarrow> (False, st)
      | Some fs \<Rightarrow>
          if fsMemory fs \<noteq> mid then (False, st)
          else (True, MemFileSet_destroy fs (st\<lparr>hanCache := omap_erase h (hanCache st)\<rparr>)))"

definition MemManReal_lock :: "os \<Rightarrow> nat \<Rightarrow> handle \<Rightarrow> bool \<Rightarrow> mmState \<Rightarrow> int \<times> mmState" where
  "MemManReal_lock os mid h strict st =
     (if h = H_ISEMPTY then (0, st)
      else if h = H_INVALID then (EINVAL, st)
      else case omap_find (hanCache st) h of
        None \<Rightarrow> (ENOENT, st)
      | Some fs \<Rightarrow>
          if fsMemory fs \<noteq> mid then (ENOENT, st)
          else
            case MemFileSet_lockAll os strict fs
                   (upd_counters mid (\<lambda>c. c\<lparr>mcNumLocks := mcNumLocks c + 1\<rparr>) st) of (rc, fs', st1) \<Rightarrow>
              let st2 = st1\<lparr>hanCache := omap_set h fs' (hanCache st1)\<rparr> in
              if rc \<noteq> 0 then
                let st3 = upd_counters mid (\<lambda>c. c\<lparr>mcNumLkerrs := mcNumLkerrs c + 1\<rparr>) st2 in
                (rc, if strict then snd (MemManReal_unlock mid h st3) else st3)
              else (rc, st2))"

text \<open>\<open>unlockAll\<close>: the loop over the handle cache, destroying the file sets this manager owns.\<close>

fun unlock_owned :: "nat \<Rightarrow> (handle \<times> memFileSet) list \<Rightarrow> mmState \<Rightarrow> mmState" where
  "unlock_owned mid [] st = st"
| "unlock_owned mid ((h, fs) # es) st =
     (if fsMemory fs = mid
      then unlock_owned mid es (MemFileSet_destroy fs (st\<lparr>hanCache := omap_erase h (hanCache st)\<rparr>))
      else unlock_owned mid es st)"

definition MemManReal_unlockAll :: "nat \<Rightarrow> mmState \<Rightarrow> mmState" where
  "MemManReal_unlockAll mid st = unlock_owned mid (hanCache st) st"

definition MemManReal_getStatus :: "nat \<Rightarrow> handle \<Rightarrow> mmState \<Rightarrow> memManStatus" where
  "MemManReal_getStatus mid h st =
     (let null = \<lparr>bytesLock = 0, numFiles = 0, chunk = -1\<rparr> in
      if h \<noteq> H_INVALID \<and> h \<noteq> H_ISEMPTY then
        (case omap_find (hanCache st) h of
           Some fs \<Rightarrow> if fsMemory fs = mid then MemFileSet_status fs else null
         | None \<Rightarrow> null)
      else null)"

record memManStatistics =
  sBytesLockMax :: nat
  sBytesLocked :: nat
  sBytesReserved :: nat
  sNumMapErrors :: "32 word"
  sNumLokErrors :: "32 word"
  sNumFSets :: "32 word"
  sNumFiles :: "32 word"
  sNumReqdFiles :: "32 word"
  sNumFlexFiles :: "32 word"
  sNumFlexLock :: "32 word"
  sNumLocks :: "32 word"
  sNumErrors :: "32 word"

definition MemManReal_getStatistics :: "nat \<Rightarrow> mmState \<Rightarrow> memManStatistics" where
  "MemManReal_getStatistics mid st =
     (let m = Memory_statistics (memories st mid); c = counters st mid in
      \<lparr>sBytesLockMax = bytesMax m, sBytesLocked = bytesLocked m, sBytesReserved = bytesReserved m,
       sNumMapErrors = numMapErrors m, sNumLokErrors = numLokErrors m,
       sNumFSets = of_nat (length (hanCache st)), sNumFiles = of_nat (MemFile_numFiles st),
       sNumReqdFiles = mcNumReqdFiles c, sNumFlexFiles = mcNumFlexFiles c,
       sNumFlexLock = numFlexFiles m, sNumLocks = mcNumLocks c, sNumErrors = mcNumErrors c\<rparr>)"

definition memManReal :: "os \<Rightarrow> nat \<Rightarrow> mmState memMan" where
  "memManReal os mid = \<lparr>mmPrepare = MemManReal_prepare os mid, mmLock = MemManReal_lock os mid,
     mmUnlock = MemManReal_unlock mid\<rparr>"

section \<open>MemManNone\<close>

definition MemManNone_prepare ::
    "bool \<Rightarrow> tableInfo list \<Rightarrow> int \<Rightarrow> unit \<Rightarrow> (handle \<times> int) \<times> unit" where
  "MemManNone_prepare alwaysLock tables ch st =
     ((if alwaysLock then (H_ISEMPTY, 0)
       else if \<exists>t \<in> set tables. theData t = REQUIRED \<or> theIndex t = REQUIRED then (H_INVALID, ENOMEM)
       else (H_ISEMPTY, 0)), st)"

definition memManNone :: "bool \<Rightarrow> unit memMan" where
  "memManNone alwaysLock = \<lparr>mmPrepare = MemManNone_prepare alwaysLock,
     mmLock = (\<lambda>h strict st. (0, st)), mmUnlock = (\<lambda>h st. (True, st))\<rparr>"

section \<open>Creation\<close>

text \<open>
  The static objects at program start, with the managers that \<open>MemManReal\<close>'s constructor creates:
  \<open>cfg mid\<close> is the database directory and the byte limit of manager \<open>mid\<close>.
\<close>

definition mm_init :: "(nat \<Rightarrow> string \<times> nat) \<Rightarrow> mmState" where
  "mm_init cfg = \<lparr>fileCache = [], hanCache = [], handleNum = H_ISEMPTY,
     memories = (\<lambda>mid. Memory_new (fst (cfg mid)) (snd (cfg mid))),
     counters = (\<lambda>mid. \<lparr>mcNumErrors = 0, mcNumLkerrs = 0, mcNumLocks = 0, mcNumReqdFiles = 0,
       mcNumFlexFiles = 0\<rparr>), sysCalls = 0\<rparr>"

end
