(* ===== verification/Chunk_Tasks_Order.thy ===== *)
theory Chunk_Tasks_Order
  imports Chunk_Tasks_Queue Memory_Manager
begin

text \<open>
  What \<open>ChunkTasksQueue\<close> promises about order and progress: in which order chunks are searched, when
  the active chunk advances, that tasks arriving for the active chunk wait, and that the queue is
  never stuck without a reason. The theorems rest on the contract and the lemmas of
  \<open>Chunk_Tasks_Queue\<close>.
\<close>

section \<open>What the search leaves unchanged\<close>

definition cq_frame :: "chunkTasksQueue \<Rightarrow> chunkTasksQueue \<Rightarrow> bool" where
  "cq_frame q q' \<longleftrightarrow> cqActiveChunk q' = cqActiveChunk q \<and> omap_keys (cqChunkMap q') = omap_keys (cqChunkMap q) \<and>
     (\<forall>j. ctPendingTasks (cq_chunk q' j) = ctPendingTasks (cq_chunk q j) \<and>
          ctInFlightTasks (cq_chunk q' j) = ctInFlightTasks (cq_chunk q j))"

lemma cq_frame_refl [simp]: "cq_frame q q"
  by (simp add: cq_frame_def)

lemma cq_frame_trans: "cq_frame q q1 \<Longrightarrow> cq_frame q1 q2 \<Longrightarrow> cq_frame q q2"
  by (simp add: cq_frame_def)

lemma cq_frame_ready [simp]: "cq_frame q (q'\<lparr>cqReadyChunk := r\<rparr>) = cq_frame q q'"
  by (simp add: cq_frame_def cq_chunk_def)

lemma cq_chunk_put: "cq_chunk (cq_put k ct q) j = (if j = k then ct else cq_chunk q j)"
  by (simp add: cq_chunk_def)

lemma cq_chunk_ready [simp]: "cq_chunk (q\<lparr>cqReadyChunk := r\<rparr>) j = cq_chunk q j"
  by (simp add: cq_chunk_def)

lemma cq_frame_try:
  assumes "cq_ok q" "omap_find (cqChunkMap q) k = Some ct" "ChunkTasks_ready vt fl ct w = Inr (rs, ct', w')"
  shows "cq_frame q (cq_put k ct' q)"
  using omap_keys_set_same [OF cq_okD(1) [OF assms(1)] assms(2)] ct_ready_frame [OF assms(3)] assms(2)
  by (simp add: cq_frame_def cq_chunk_put)

text \<open>A chunk has runnable tasks when its heap is not empty; it is blocked when the memory manager refused.\<close>

definition runnable :: "chunkTasksQueue \<Rightarrow> int \<Rightarrow> bool" where
  "runnable q k \<longleftrightarrow> ctActiveTasks (cq_chunk q k) \<noteq> []"

definition blocked :: "chunkTasksQueue \<Rightarrow> int \<Rightarrow> bool" where
  "blocked q k \<longleftrightarrow> runnable q k \<and> ctResourceStarved (cq_chunk q k)"

lemma ct_ready_blocked:
  "ChunkTasks_ready vt fl ct w = Inr (NO_RESOURCES, ct', w') \<Longrightarrow> ctActiveTasks ct' \<noteq> [] \<and> ctResourceStarved ct'"
  by (cases rule: ct_ready_cases) auto

lemma cq_scan_result:
  "cq_scan vt sched fl ks q w = Inr (b, q', w') \<Longrightarrow> cq_inv q w \<Longrightarrow> cqReadyChunk q = None \<Longrightarrow>
   set ks \<subseteq> set (omap_keys (cqChunkMap q)) \<Longrightarrow> distinct ks \<Longrightarrow>
   cq_frame q q' \<and> (\<forall>j. j \<notin> set ks \<longrightarrow> cq_chunk q' j = cq_chunk q j) \<and>
   (if b then \<exists>pre k post. ks = pre @ k # post \<and> cqReadyChunk q' = Some k \<and> (\<forall>j \<in> set pre. \<not> runnable q' j)
    else (\<exists>k \<in> set ks. blocked q' k) \<or> (\<exists>k \<in> set ks. chunk_limit sched k) \<or> (\<forall>k \<in> set ks. \<not> runnable q' k))"
proof (induction ks arbitrary: q w)
  case Nil
  then show ?case by simp
next
  case (Cons k ks)
  have ok: "cq_ok q" using Cons.prems(2) by (simp add: cq_inv_def)
  obtain ct where f: "omap_find (cqChunkMap q) k = Some ct"
    using Cons.prems(4) omap_find_key [of "cqChunkMap q" k] by (auto simp: omap_keys_def)
  show ?case
  proof (cases "chunk_limit sched k")
    case True
    then show ?thesis using Cons.prems(1) by simp
  next
    case False
    obtain rs ct' w1 where r: "ChunkTasks_ready vt fl ct w = Inr (rs, ct', w1)"
      using Cons.prems(1) False f by (auto split: sum.splits)
    note fr = cq_frame_try [OF ok f r]
    show ?thesis
    proof (cases rs)
      case READY
      then have q': "b" "q' = (cq_put k ct' q)\<lparr>cqReadyChunk := Some k\<rparr>"
        using Cons.prems(1) False f r by auto
      moreover have "k # ks = [] @ k # ks" by simp
      ultimately show ?thesis using fr by (fastforce simp: cq_chunk_put)
    next
      case NO_RESOURCES
      then have q': "\<not> b" "q' = cq_put k ct' q" using Cons.prems(1) False f r by auto
      then show ?thesis using fr ct_ready_blocked [OF r [unfolded NO_RESOURCES]]
        by (auto simp: blocked_def runnable_def cq_chunk_put)
    next
      case NOT_READY
      let ?q1 = "cq_put k ct' q"
      have ct': "ctActiveTasks ct' = []" "w1 = w" using ct_ready_frame(8) [OF r] NOT_READY by auto
      have rec: "cq_scan vt sched fl ks ?q1 w = Inr (b, q', w')"
        using Cons.prems(1) False f r NOT_READY ct' by simp
      have "cq_inv ?q1 w" "cqReadyChunk ?q1 = None"
        using cq_step_try_not [OF Cons.prems(2,3) f r] NOT_READY ct' Cons.prems(3) by (auto simp: cq_step_def)
      note ih = Cons.IH [OF rec this]
      have keys: "set ks \<subseteq> set (omap_keys (cqChunkMap ?q1))" "distinct ks" "k \<notin> set ks"
        using Cons.prems(4,5) fr by (auto simp: cq_frame_def)
      note ih = ih [OF keys(1,2)]
      have idle: "\<not> runnable q' k" using ih keys(3) ct' by (simp add: runnable_def cq_chunk_put)
      have qq': "cq_frame q q'" using ih fr cq_frame_trans by blast
      have same: "\<forall>j. j \<notin> set (k # ks) \<longrightarrow> cq_chunk q' j = cq_chunk q j" using ih by (simp add: cq_chunk_put)
      show ?thesis
      proof (cases b)
        case True
        with ih obtain pre j post where p: "ks = pre @ j # post" "cqReadyChunk q' = Some j"
          "\<forall>i \<in> set pre. \<not> runnable q' i" by auto
        then have "k # ks = (k # pre) @ j # post" "\<forall>i \<in> set (k # pre). \<not> runnable q' i" using idle by auto
        then show ?thesis using True p(2) qq' same by (simp only: if_True) blast
      next
        case False
        then show ?thesis using ih idle qq' same by auto
      qed
    qed
  qed
qed

text \<open>The chunks in the order of the search.\<close>

definition search_order :: "chunkTasksQueue \<Rightarrow> int list" where
  "search_order q = (case cqActiveChunk q of None \<Rightarrow> [] | Some a \<Rightarrow> a # omap_cycle a (cqChunkMap q))"

lemma cq_frame_search: "cq_frame q q' \<Longrightarrow> search_order q' = search_order q"
  by (simp add: cq_frame_def search_order_def omap_cycle_def omap_after_def omap_before_def split: option.split)

lemma distinct_omap_cycle: "omap_wf m \<Longrightarrow> distinct (omap_cycle k m)"
  using omap_wf_distinct [of m]
  by (auto simp: omap_cycle_def omap_after_def omap_before_def omap_keys_def)

lemma set_search_order:
  "cqActiveChunk q = Some a \<Longrightarrow> omap_find (cqChunkMap q) a \<noteq> None \<Longrightarrow>
   set (search_order q) = fst ` set (cqChunkMap q)"
  using omap_find_key [of "cqChunkMap q" a] by (auto simp: search_order_def set_omap_cycle)

definition search_result :: "schedBase option \<Rightarrow> bool \<Rightarrow> chunkTasksQueue \<Rightarrow> bool" where
  "search_result sched b q \<longleftrightarrow>
     (if b then \<exists>pre k post. search_order q = pre @ k # post \<and> cqReadyChunk q = Some k \<and> (\<forall>j \<in> set pre. \<not> runnable q j)
      else (\<exists>k \<in> set (search_order q). blocked q k) \<or> (\<exists>k \<in> set (search_order q). chunk_limit sched k)
        \<or> (\<forall>k \<in> set (search_order q). \<not> runnable q k))"

lemma cq_scan_from_result:
  assumes s: "cq_scan_from vt sched fl a q w = Inr (b, q', w')" and inv: "cq_inv q w"
    and none: "cqReadyChunk q = None" and a: "cqActiveChunk q = Some a" and f: "omap_find (cqChunkMap q) a = Some ct"
  shows "cq_frame q q'" "search_result sched b q'"
proof -
  have ok: "cq_ok q" using inv by (simp add: cq_inv_def)
  obtain rs ct' w1 where r: "ChunkTasks_ready vt fl ct w = Inr (rs, ct', w1)"
    using s f by (auto simp: cq_scan_from_def split: sum.splits)
  let ?q1 = "cq_put a ct' q" and ?ks = "omap_cycle a (cqChunkMap q)"
  note fr = cq_frame_try [OF ok f r]
  have order: "search_order x = a # ?ks" if "cq_frame q x" for x
    using cq_frame_search [OF that] a by (simp add: search_order_def)
  have "cq_frame q q' \<and> search_result sched b q'"
  proof (cases rs)
    case READY
    then have q': "b" "q' = ?q1\<lparr>cqReadyChunk := Some a\<rparr>" using s f r by (auto simp: cq_scan_from_def)
    then have "search_order q' = [] @ a # ?ks" "cqReadyChunk q' = Some a" using order [of q'] fr by auto
    then show ?thesis using q' fr by (fastforce simp: search_result_def)
  next
    case NO_RESOURCES
    then have q': "\<not> b" "q' = ?q1" using s f r by (auto simp: cq_scan_from_def)
    moreover have "blocked ?q1 a"
      using ct_ready_blocked [OF r [unfolded NO_RESOURCES]] by (simp add: blocked_def runnable_def cq_chunk_put)
    ultimately show ?thesis using fr order [OF fr] by (auto simp: search_result_def)
  next
    case NOT_READY
    have ct': "ctActiveTasks ct' = []" "w1 = w" using ct_ready_frame(8) [OF r] NOT_READY by auto
    have rec: "cq_scan vt sched fl ?ks ?q1 w = Inr (b, q', w')"
      using s f r NOT_READY ct' by (simp add: cq_scan_from_def)
    have "cq_inv ?q1 w" "cqReadyChunk ?q1 = None"
      using cq_step_try_not [OF inv none f r] NOT_READY ct' none by (auto simp: cq_step_def)
    moreover have "set ?ks \<subseteq> set (omap_keys (cqChunkMap ?q1))"
      using fr set_omap_cycle [of a "cqChunkMap q"] by (auto simp: cq_frame_def omap_keys_def)
    ultimately have sc: "cq_frame ?q1 q'" "\<forall>j. j \<notin> set ?ks \<longrightarrow> cq_chunk q' j = cq_chunk ?q1 j"
      "if b then \<exists>pre k post. ?ks = pre @ k # post \<and> cqReadyChunk q' = Some k \<and> (\<forall>j \<in> set pre. \<not> runnable q' j)
       else (\<exists>k \<in> set ?ks. blocked q' k) \<or> (\<exists>k \<in> set ?ks. chunk_limit sched k) \<or> (\<forall>k \<in> set ?ks. \<not> runnable q' k)"
      using cq_scan_result [OF rec] distinct_omap_cycle [OF cq_okD(1) [OF ok]] by auto
    have qq': "cq_frame q q'" using cq_frame_trans [OF fr sc(1)] .
    have "a \<notin> set ?ks" by (simp add: set_omap_cycle)
    then have idle: "\<not> runnable q' a" using sc(2) ct' by (simp add: runnable_def cq_chunk_put)
    show ?thesis
    proof (cases b)
      case True
      then obtain pre k post where p: "?ks = pre @ k # post" "cqReadyChunk q' = Some k"
        "\<forall>j \<in> set pre. \<not> runnable q' j" using sc(3) by auto
      then have "search_order q' = (a # pre) @ k # post" "\<forall>j \<in> set (a # pre). \<not> runnable q' j"
        using order [OF qq'] idle by auto
      then show ?thesis using qq' p(2) True unfolding search_result_def by metis
    next
      case False
      then show ?thesis using qq' sc(3) idle order [OF qq'] by (auto simp: search_result_def)
    qed
  qed
  then show "cq_frame q q'" "search_result sched b q'" by auto
qed

lemma cq_scan_from_heap:
  assumes s: "cq_scan_from vt sched fl a q w = Inr (False, q', w')" and inv: "cq_inv q w"
    and none: "cqReadyChunk q = None" and f: "omap_find (cqChunkMap q) a = Some ct"
    and heap: "ctActiveTasks ct \<noteq> []"
  shows "blocked q' a"
proof -
  obtain rs ct' w1 where r: "ChunkTasks_ready vt fl ct w = Inr (rs, ct', w1)"
    using s f by (auto simp: cq_scan_from_def split: sum.splits)
  have "rs \<noteq> NOT_READY" using ct_ready_frame(8) [OF r] heap by auto
  moreover have "rs \<noteq> READY" using s f r by (auto simp: cq_scan_from_def)
  ultimately have no: "rs = NO_RESOURCES" by (cases rs) auto
  then have "q' = cq_put a ct' q" using s f r by (simp add: cq_scan_from_def)
  then show ?thesis using ct_ready_blocked [OF r [unfolded no]] by (simp add: blocked_def runnable_def cq_chunk_put)
qed

section \<open>The three courses of _ready\<close>

lemma cq_begin_keep: "cqActiveChunk q = Some a \<Longrightarrow> cq_begin q = q"
  by (simp add: cq_begin_def)

lemma cq_ready_shape:
  fixes vt :: "'m memMan"
  assumes r: "ChunkTasksQueue_ready vt sched fl q w = Inr (b, q', w')" and inv: "cq_inv q w"
    and none: "cqReadyChunk q = None" and ne: "cqChunkMap q \<noteq> []"
  obtains (active) a where "cqActiveChunk (cq_begin q) = Some a" "b" "cq_frame (cq_begin q) q'" "cqReadyChunk q' = Some a"
  | (stay) a q2 w1 where "cqActiveChunk (cq_begin q) = Some a" "\<not> ChunkTasks_readyToAdvance (cq_chunk (cq_begin q) a)"
      "cq_frame (cq_begin q) q2" "cq_inv q2 w1" "cqReadyChunk q2 = None" "cq_contents q2 = cq_contents q"
      "cq_scan_from vt sched fl a q2 w1 = Inr (b, q', w')"
      "ctActiveTasks (cq_chunk q2 a) = ctActiveTasks (cq_chunk (cq_begin q) a)"
  | (gone) a q2 and w1 :: "'m world" where "cqActiveChunk (cq_begin q) = Some a" "ChunkTasks_readyToAdvance (cq_chunk (cq_begin q) a)"
      "cq_frame (cq_begin q) q2" "cq_inv q2 w1" "cqReadyChunk q2 = None" "cq_contents q2 = cq_contents q"
      "q' = cq_advance a q2" "cqActiveChunk q' = None" "\<not> b"
  | (moved) a q2 w1 n where "cqActiveChunk (cq_begin q) = Some a" "ChunkTasks_readyToAdvance (cq_chunk (cq_begin q) a)"
      "cq_frame (cq_begin q) q2" "cq_inv q2 w1" "cqReadyChunk q2 = None" "cq_contents q2 = cq_contents q"
      "cqActiveChunk (cq_advance a q2) = Some n" "cq_scan_from vt sched fl n (cq_advance a q2) w1 = Inr (b, q', w')"
proof -
  let ?q1 = "cq_begin q"
  note bg = cq_begin_ok [OF inv ne]
  obtain a where a: "cqActiveChunk ?q1 = Some a" using bg(4) by blast
  have ok1: "cq_ok ?q1" using bg(1) by (simp add: cq_inv_def)
  obtain ct where f: "omap_find (cqChunkMap ?q1) a = Some ct" using cq_okD(3) [OF ok1 a] by blast
  obtain rs ct' w1 where rd: "ChunkTasks_ready vt fl ct w = Inr (rs, ct', w1)"
    using r none ne a f by (auto simp: ChunkTasksQueue_ready_def Let_def split: sum.splits)
  have none1: "cqReadyChunk ?q1 = None" using bg(3) none by simp
  let ?q2 = "cq_put a ct' ?q1"
  note fr = cq_frame_try [OF ok1 f rd]
  note def = r [unfolded ChunkTasksQueue_ready_def] none ne a f rd
  show ?thesis
  proof (cases "rs = READY")
    case True
    then have "b" "q' = ?q2\<lparr>cqReadyChunk := Some a\<rparr>" using def by (simp_all add: Let_def)
    then show ?thesis using active [OF a] fr by simp
  next
    case False
    have st: "cq_step vt 1 ?q1 w False ?q2 w1" by (rule cq_step_try_not [OF bg(1) none1 f rd False])
    then have q2: "cq_inv ?q2 w1" "cq_contents ?q2 = cq_contents q" "cqReadyChunk ?q2 = None"
      using bg(2) none1 by (auto simp: cq_step_def)
    have adv: "ChunkTasks_readyToAdvance ct' \<longleftrightarrow> ChunkTasks_readyToAdvance (cq_chunk ?q1 a)"
      using ct_ready_frame(5,7) [OF rd] False f by (simp add: ChunkTasks_readyToAdvance_def)
    show ?thesis
    proof (cases "ChunkTasks_readyToAdvance ct'")
      case no: False
      then have "cq_scan_from vt sched fl a ?q2 w1 = Inr (b, q', w')" using def False by (simp add: Let_def)
      moreover have "ctActiveTasks (cq_chunk ?q2 a) = ctActiveTasks (cq_chunk ?q1 a)"
        using ct_ready_frame(7) [OF rd] False f by (simp add: cq_chunk_put)
      ultimately show ?thesis using stay [OF a _ fr q2(1) q2(3) q2(2)] adv no by blast
    next
      case yes: True
      show ?thesis
      proof (cases "cqActiveChunk (cq_advance a ?q2)")
        case None
        then have "\<not> b" "q' = cq_advance a ?q2" using def False yes by (simp_all add: Let_def)
        then show ?thesis using gone [of a ?q2 w1] a fr q2 adv yes None by blast
      next
        case (Some n)
        then have "cq_scan_from vt sched fl n (cq_advance a ?q2) w1 = Inr (b, q', w')"
          using def False yes by (simp add: Let_def)
        then show ?thesis using moved [OF a _ fr q2(1) q2(3) q2(2) Some] adv yes by blast
      qed
    qed
  qed
qed

lemma cq_advance_active:
  assumes "cq_ok q" "omap_find (cqChunkMap q) a = Some ct"
  shows "cqActiveChunk (cq_advance a q) = omap_next_cyclic a (cqChunkMap q)
    \<or> cqActiveChunk (cq_advance a q) = None \<and> omap_next_cyclic a (cqChunkMap q) = Some a
      \<and> ChunkTasks_empty (ChunkTasks_setActive False ct)"
  using assms(2) by (auto simp: cq_advance_def Let_def split: option.splits)

lemma cq_contents_empty:
  "(\<And>k ct. (k, ct) \<in> set (cqChunkMap q) \<Longrightarrow> ct_tasks ct = {#}) \<Longrightarrow> cq_contents q = {#}"
  unfolding cq_contents_def by (rule omap_sum_zero)

text \<open>The active chunk becomes undefined only when nothing is queued.\<close>

lemma cq_advance_gone:
  assumes inv: "cq_inv q w" and none: "cqReadyChunk q = None" and a: "cqActiveChunk q = Some a"
    and gone: "cqActiveChunk (cq_advance a q) = None"
  shows "cq_contents q = {#}"
proof -
  have ok: "cq_ok q" using inv by (simp add: cq_inv_def)
  obtain ct where f: "omap_find (cqChunkMap q) a = Some ct" using cq_okD(3) [OF ok a] by blast
  have e: "ChunkTasks_empty (ChunkTasks_setActive False ct)" "omap_next_cyclic a (cqChunkMap q) = Some a"
    using cq_advance_active [OF ok f] gone omap_next_cyclic_None [of a "cqChunkMap q"] f
    by (auto simp del: omap_next_cyclic_None)
  have "ct_tasks ct = {#}"
    using e(1) ct_empty_tasks [of "ChunkTasks_setActive False ct"] cq_okD(2) [OF ok f] none
    by (simp add: ct_tasks_setActive ct_ok_def)
  moreover have "k = a" if "(k, v) \<in> set (cqChunkMap q)" for k v
    using omap_next_cyclic_self [OF cq_okD(1) [OF ok] e(2)] that by force
  ultimately show ?thesis
    using cq_contents_empty [of q] omap_in_set_find [OF cq_okD(1) [OF ok]] f by fastforce
qed

text \<open>After an advance no chunk has pending tasks.\<close>

lemma cq_advance_pending:
  assumes inv: "cq_inv q w" and none: "cqReadyChunk q = None" and a: "cqActiveChunk q = Some a"
    and n: "cqActiveChunk (cq_advance a q) = Some n" and f: "omap_find (cqChunkMap (cq_advance a q)) k = Some ct"
  shows "ctPendingTasks ct = []"
proof -
  have ok: "cq_ok (cq_advance a q)" using cq_advance_ok [OF inv none a] by (simp add: cq_inv_def)
  show ?thesis
  proof (cases "k = n")
    case False
    then show ?thesis using cq_okD(2) [OF ok f] n by (auto simp: ct_ok_def)
  next
    case True
    let ?c = "\<lambda>q2. ChunkTasks_setActive True (ChunkTasks_movePendingToActive (cq_chunk q2 n))"
    obtain q3 where "cq_advance a q = cq_put n (?c q3) q3"
      using n by (auto simp: cq_advance_def Let_def split: option.splits if_splits prod.splits)
    then have ct: "ct = ?c q3" using f True by simp
    show ?thesis unfolding ct by simp
  qed
qed

lemma no_work_contents:
  assumes ok: "cq_ok q" and none: "cqReadyChunk q = None"
    and idle: "\<And>k ct. omap_find (cqChunkMap q) k = Some ct \<Longrightarrow> ctActiveTasks ct = []"
  shows "cq_contents q = (case cqActiveChunk q of None \<Rightarrow> {#} | Some a \<Rightarrow> mset (ctPendingTasks (cq_chunk q a)))"
proof -
  have tasks: "ct_tasks ct = (if cqActiveChunk q = Some k then mset (ctPendingTasks ct) else {#})"
    if "omap_find (cqChunkMap q) k = Some ct" for k ct
    using cq_okD(2) [OF ok that] idle [OF that] none by (auto simp: ct_ok_def ct_tasks_def)
  show ?thesis
  proof (cases "cqActiveChunk q")
    case None
    then show ?thesis
      using cq_contents_empty [of q] tasks omap_in_set_find [OF cq_okD(1) [OF ok]] by fastforce
  next
    case (Some a)
    obtain ct where f: "omap_find (cqChunkMap q) a = Some ct" using cq_okD(3) [OF ok Some] by blast
    have "omap_sum ct_tasks (omap_erase a (cqChunkMap q)) = {#}"
    proof (rule omap_sum_zero)
      fix k v assume "(k, v) \<in> set (omap_erase a (cqChunkMap q))"
      then have "omap_find (cqChunkMap q) k = Some v" "k \<noteq> a"
        using omap_in_set_find [OF cq_okD(1) [OF ok]] by (auto simp: omap_erase_def)
      then show "ct_tasks v = {#}" using tasks Some by simp
    qed
    then show ?thesis
      using omap_sum_erase [OF cq_okD(1) [OF ok] f, of ct_tasks] tasks [OF f] Some f
      by (simp add: cq_contents_def)
  qed
qed

text \<open>The third reason for which a search ends: the scheduler has its maximum of active chunks, and a chunk of the queue is not one of them.\<close>

definition at_chunk_limit :: "schedBase option \<Rightarrow> chunkTasksQueue \<Rightarrow> bool" where
  "at_chunk_limit sched q \<longleftrightarrow> (\<exists>sb. sched = Some sb \<and> sbMaxActiveChunks sb \<le> getActiveChunkCount sb
     \<and> (\<exists>k \<in> fst ` set (cqChunkMap q). \<not> chunkAlreadyActive k sb))"

lemma at_chunk_limitI: "chunk_limit sched k \<Longrightarrow> k \<in> fst ` set (cqChunkMap q) \<Longrightarrow> at_chunk_limit sched q"
  unfolding at_chunk_limit_def chunk_limit_def by (cases sched) auto

lemma search_result_idle:
  assumes "search_result sched False q" "cqActiveChunk q = Some a" "cq_ok q" "\<not> (\<exists>k. blocked q k)" "\<not> at_chunk_limit sched q"
    "omap_find (cqChunkMap q) k = Some ct"
  shows "ctActiveTasks ct = []"
proof -
  have so: "set (search_order q) = fst ` set (cqChunkMap q)"
    by (rule set_search_order [OF assms(2)]) (use cq_okD(3) [OF assms(3,2)] in auto)
  then have "k \<in> set (search_order q)" using assms(6) omap_find_key [of "cqChunkMap q" k] by simp
  moreover have "\<forall>k \<in> set (search_order q). \<not> chunk_limit sched k" using at_chunk_limitI assms(5) unfolding so by blast
  then have "\<forall>k \<in> set (search_order q). \<not> runnable q k"
    using assms(1,4) by (auto simp: search_result_def)
  ultimately show ?thesis using assms(6) by (auto simp: runnable_def)
qed

section \<open>Concrete runs\<close>

text \<open>The state after a sequence of operations with a manager that grants all.\<close>

definition demo_run :: "collOp list \<Rightarrow> chunkTasksQueue \<times> unit world" where
  "demo_run ops =
     (case coll_run chunkTasksQueue_tc (memManNone True) None ops (ChunkTasksQueue_new, demo_world) of
        Inr (out, rem, s) \<Rightarrow> s
      | Inl e \<Rightarrow> (ChunkTasksQueue_new, demo_world))"

lemma demo_run_inv: "cq_inv (fst (demo_run ops)) (snd (demo_run ops))"
proof (cases "coll_run chunkTasksQueue_tc (memManNone True) None ops (ChunkTasksQueue_new, demo_world)")
  case (Inl e)
  then show ?thesis by (simp add: demo_run_def cq_new_inv)
next
  case (Inr r)
  obtain out rem q w where r: "r = (out, rem, q, w)" by (metis prod.collapse)
  have "cq_inv q w" using cq.run_conserves [OF Inr [unfolded r] cq_new_inv(1)] by blast
  then show ?thesis using Inr r by (simp add: demo_run_def)
qed

section \<open>Properties\<close>

text \<open>
  C19. Whatever sequence of queueing, readiness checks, deliveries, completions and removals runs on a
  new queue, with any memory manager and any scheduler limit, as long as no file system error ends
  the worker: each queued task is delivered once, or removed once, or still queued, and \<open>getSize\<close> is
  the number of queued tasks.
\<close>

theorem chunk_queue_conserves:
  assumes "coll_run chunkTasksQueue_tc vt sched ops (ChunkTasksQueue_new, w) = Inr (delivered, removed, q', w')"
  shows "op_queued ops = mset delivered + mset removed + cq_contents q'
    \<and> ChunkTasksQueue_getSize q' = int (size (cq_contents q'))"
  using cq.run_conserves [OF assms cq_new_inv(1)] cq_new_inv(2) cq.size_contents [of q' w']
  by (simp add: chunkTasksQueue_tc_def)

lemma chunk_queue_conserves_witness:
  "\<exists>q' w'. coll_run chunkTasksQueue_tc (memManNone True) None
     [OpQueue (demo_task 1 5 [1]), OpQueue (demo_task 2 7 [1]), OpQueue (demo_task 3 7 [1]), OpGet False,
      OpRemove (demo_task 3 7 [1])] (ChunkTasksQueue_new, demo_world)
     = Inr ([demo_task 1 5 [1]], [demo_task 3 7 [1]], q', w') \<and> cq_contents q' = {#demo_task 2 7 [1]#}"
proof -
  let ?ops = "[OpQueue (demo_task 1 5 [1]), OpQueue (demo_task 2 7 [1]), OpQueue (demo_task 3 7 [1]), OpGet False,
      OpRemove (demo_task 3 7 [1])]"
  let ?r = "coll_run chunkTasksQueue_tc (memManNone True) None ?ops (ChunkTasksQueue_new, demo_world)"
  have "case ?r of Inl e \<Rightarrow> False | Inr (out, rem, s) \<Rightarrow> out = [demo_task 1 5 [1]] \<and> rem = [demo_task 3 7 [1]]"
    by code_simp
  then obtain q' w' where r: "?r = Inr ([demo_task 1 5 [1]], [demo_task 3 7 [1]], q', w')"
    by (auto split: sum.splits)
  from chunk_queue_conserves [OF r] have "cq_contents q' = {#demo_task 2 7 [1]#}"
    by (simp add: op_queued_def)
  with r show ?thesis by blast
qed

text \<open>
  When \<open>ready\<close> returned true, the next \<open>getTask\<close> delivers a task, whatever the locking mode, without
  asking the memory manager again, and the task carries a memory handle.
\<close>

theorem ready_delivers:
  assumes "cq_inv q w" and "ChunkTasksQueue_ready vt sched fl q w = Inr (True, q', w')"
  shows "\<exists>t q''. ChunkTasksQueue_getTask vt sched fl' q' w' = Inr (Some t, q'', w')
    \<and> tsMemHandle (task_st t w') \<noteq> H_INVALID \<and> t \<in># cq_contents q"
proof -
  note rd = assms(2)
  have inv: "cq_inv q' w'" "cq_contents q' = cq_contents q"
    using cq_ready_step [OF rd assms(1)] by (auto simp: cq_step_def)
  obtain t q'' where g: "ChunkTasksQueue_getTask vt sched fl' q' w' = Inr (Some t, q'', w')"
    using cq.ready_get [of q w vt sched fl q' w' fl'] assms by (auto simp: chunkTasksQueue_tc_def)
  moreover have "t \<in># cq_contents q'"
    using cq.get_contents [of q' w' vt sched fl' "Some t" q'' w'] inv g by (simp add: chunkTasksQueue_tc_def)
  ultimately show ?thesis
    using inv cq.get_handle [of q' w' vt sched fl' t q'' w'] by (auto simp: chunkTasksQueue_tc_def hasMemHandle_def)
qed

lemma ready_delivers_witness:
  "\<exists>q' w' t q''. ChunkTasksQueue_ready (memManNone True) None False (fst (demo_run [OpQueue (demo_task 1 5 [1])]))
       (snd (demo_run [OpQueue (demo_task 1 5 [1])])) = Inr (True, q', w')
     \<and> ChunkTasksQueue_getTask (memManNone True) None True q' w' = Inr (Some t, q'', w')"
proof -
  let ?s = "demo_run [OpQueue (demo_task 1 5 [1])]"
  have "case ChunkTasksQueue_ready (memManNone True) None False (fst ?s) (snd ?s) of Inl e \<Rightarrow> False | Inr (b, s) \<Rightarrow> b"
    by code_simp
  then obtain q' w' where r: "ChunkTasksQueue_ready (memManNone True) None False (fst ?s) (snd ?s) = Inr (True, q', w')"
    by (auto split: sum.splits)
  with ready_delivers [OF demo_run_inv r, of True] show ?thesis by blast
qed

text \<open>
  The search takes the chunks in ascending order from the active chunk on, wrapping around: the
  chunk that was found ready is the first one in that order with a runnable task.
\<close>

theorem ready_first_in_order:
  assumes "cq_inv q w" and "cqReadyChunk q = None"
    and "ChunkTasksQueue_ready vt sched fl q w = Inr (True, q', w')"
  shows "\<exists>pre k post. search_order q' = pre @ k # post \<and> cqReadyChunk q' = Some k
    \<and> (\<forall>j \<in> set pre. ctActiveTasks (cq_chunk q' j) = [])"
proof -
  have ne: "cqChunkMap q \<noteq> []" using assms(2,3) by (auto simp: ChunkTasksQueue_ready_def)
  have "search_result sched True q'"
    using assms(3,1,2) ne
  proof (cases rule: cq_ready_shape)
    case (active a)
    have "search_order q' = [] @ a # omap_cycle a (cqChunkMap (cq_begin q))"
      using active cq_frame_search [OF active(3)] by (simp add: search_order_def)
    then show ?thesis using active(4) unfolding search_result_def by fastforce
  next
    case (stay a q2 w1)
    have a2: "cqActiveChunk q2 = Some a" using stay(1,3) by (simp add: cq_frame_def)
    obtain ct where "omap_find (cqChunkMap q2) a = Some ct"
      using cq_okD(3) [of q2 a] stay(4) a2 by (auto simp: cq_inv_def)
    then show ?thesis using cq_scan_from_result(2) [OF stay(7,4,5) a2] by blast
  next
    case (moved a q2 w1 n)
    have a2: "cqActiveChunk q2 = Some a" using moved(1,3) by (simp add: cq_frame_def)
    note ad = cq_advance_ok [OF moved(4,5) a2]
    obtain ct where "omap_find (cqChunkMap (cq_advance a q2)) n = Some ct"
      using cq_okD(3) [of "cq_advance a q2" n] ad moved(7) by (auto simp: cq_inv_def)
    then show ?thesis using cq_scan_from_result(2) [OF moved(8) _ _ moved(7)] ad by blast
  qed simp
  then show ?thesis by (auto simp: search_result_def runnable_def)
qed

lemma ready_first_in_order_witness:
  "\<exists>q' w'. ChunkTasksQueue_ready (memManNone True) None False
       (fst (demo_run [OpQueue (demo_task 1 5 [1]), OpQueue (demo_task 2 7 [1]), OpGet False]))
       (snd (demo_run [OpQueue (demo_task 1 5 [1]), OpQueue (demo_task 2 7 [1]), OpGet False])) = Inr (True, q', w')
     \<and> search_order q' = [5, 7] \<and> cqReadyChunk q' = Some 7 \<and> ctActiveTasks (cq_chunk q' 5) = []"
proof -
  let ?s = "demo_run [OpQueue (demo_task 1 5 [1]), OpQueue (demo_task 2 7 [1]), OpGet False]"
  let ?r = "ChunkTasksQueue_ready (memManNone True) None False (fst ?s) (snd ?s)"
  have "case ?r of Inl e \<Rightarrow> False | Inr (b, q, w) \<Rightarrow> b \<and> search_order q = [5, 7] \<and> cqReadyChunk q = Some 7"
    by code_simp
  then obtain q' w' where r: "?r = Inr (True, q', w')" and v: "search_order q' = [5, 7]" "cqReadyChunk q' = Some 7"
    by (auto split: sum.splits)
  have n: "cqReadyChunk (fst ?s) = None" by code_simp
  have "ctActiveTasks (cq_chunk q' 5) = []"
    using ready_first_in_order [OF demo_run_inv n r] v by (auto simp: Cons_eq_append_conv)
  with r v show ?thesis by blast
qed

text \<open>
  The active chunk changes only when none of its tasks is runnable or in flight, and then to the
  chunk with the next higher id, or to the lowest one when it was the highest; it becomes undefined
  only when the queue holds no task at all.
\<close>

theorem active_chunk_advances:
  assumes "cq_inv q w" and "cqActiveChunk q = Some a"
    and "ChunkTasksQueue_ready vt sched fl q w = Inr (b, q', w')" and "cqActiveChunk q' \<noteq> Some a"
  shows "ctActiveTasks (cq_chunk q a) = [] \<and> ctInFlightTasks (cq_chunk q a) = {} \<and>
    (case cqActiveChunk q' of
       None \<Rightarrow> cq_contents q = {#}
     | Some n \<Rightarrow> omap_next_cyclic a (cqChunkMap q) = Some n)"
proof -
  have inv: "cq_inv q w" and a: "cqActiveChunk q = Some a" using assms by auto
  have none: "cqReadyChunk q = None" and ne: "cqChunkMap q \<noteq> []"
    using assms(2-4) by (auto simp: ChunkTasksQueue_ready_def split: if_splits)
  note bg = cq_begin_keep [OF a]
  have nx: "omap_next_cyclic a (cqChunkMap q2) = omap_next_cyclic a (cqChunkMap q)" if "cq_frame q q2" for q2
    using that by (auto simp: cq_frame_def omap_next_cyclic_def omap_after_def omap_begin_def omap_keys_def
        split: list.splits)
  show ?thesis
    using assms(3) inv none ne
  proof (cases rule: cq_ready_shape)
    case (active c)
    then show ?thesis using assms(4) a bg by (simp add: cq_frame_def)
  next
    case (stay c q2 w1)
    have "cqActiveChunk q2 = Some c" using stay(1,3) by (simp add: cq_frame_def)
    moreover obtain ct where "omap_find (cqChunkMap q2) c = Some ct"
      using cq_okD(3) [of q2 c] stay(4) calculation by (auto simp: cq_inv_def)
    ultimately have "cq_frame q2 q'" using cq_scan_from_result(1) [OF stay(7,4,5)] by blast
    then show ?thesis using assms(4) a bg stay(1,3) by (simp add: cq_frame_def)
  next
    case (gone c q2 w1)
    have c: "c = a" "cq_frame q q2" using gone(1,3) a bg by auto
    have a2: "cqActiveChunk q2 = Some a" and ok2: "cq_ok q2" using c a gone(4) by (auto simp: cq_frame_def cq_inv_def)
    have "cq_contents q2 = {#}" using cq_advance_gone [OF gone(4,5) a2] gone(7,8) c by simp
    then show ?thesis using gone(2,6,8) c bg by (simp add: ChunkTasks_readyToAdvance_def)
  next
    case (moved c q2 w1 n)
    have c: "c = a" "cq_frame q q2" using moved(1,3) a bg by auto
    have a2: "cqActiveChunk q2 = Some a" and ok2: "cq_ok q2" using c a moved(4) by (auto simp: cq_frame_def cq_inv_def)
    obtain ct where f: "omap_find (cqChunkMap q2) a = Some ct" using cq_okD(3) [OF ok2 a2] by blast
    note ad = cq_advance_ok [OF moved(4,5) a2]
    obtain cn where "omap_find (cqChunkMap (cq_advance a q2)) n = Some cn"
      using cq_okD(3) [of "cq_advance a q2" n] ad moved(7) c by (auto simp: cq_inv_def)
    then have "cqActiveChunk q' = Some n"
      using cq_scan_from_result(1) [OF moved(8) _ _ moved(7)] ad moved(7) c by (auto simp: cq_frame_def)
    moreover have "omap_next_cyclic a (cqChunkMap q) = Some n"
      using cq_advance_active [OF ok2 f] moved(7) nx [OF c(2)] c by auto
    ultimately show ?thesis using moved(2) c bg by (simp add: ChunkTasks_readyToAdvance_def)
  qed
qed

lemma active_chunk_advances_witness:
  "\<exists>q' w'. ChunkTasksQueue_ready (memManNone True) None False
       (fst (demo_run [OpQueue (demo_task 1 5 [1]), OpQueue (demo_task 2 7 [1]), OpGet False, OpComplete (demo_task 1 5 [1])]))
       (snd (demo_run [OpQueue (demo_task 1 5 [1]), OpQueue (demo_task 2 7 [1]), OpGet False, OpComplete (demo_task 1 5 [1])]))
       = Inr (True, q', w')
     \<and> omap_next_cyclic 5 (cqChunkMap (fst (demo_run [OpQueue (demo_task 1 5 [1]), OpQueue (demo_task 2 7 [1]), OpGet False,
         OpComplete (demo_task 1 5 [1])]))) = Some 7"
proof -
  let ?s = "demo_run [OpQueue (demo_task 1 5 [1]), OpQueue (demo_task 2 7 [1]), OpGet False, OpComplete (demo_task 1 5 [1])]"
  let ?r = "ChunkTasksQueue_ready (memManNone True) None False (fst ?s) (snd ?s)"
  have "case ?r of Inl e \<Rightarrow> False | Inr (b, q, w) \<Rightarrow> b \<and> cqActiveChunk q = Some 7" by code_simp
  then obtain q' w' where r: "?r = Inr (True, q', w')" and v: "cqActiveChunk q' = Some 7"
    by (auto split: sum.splits)
  have a: "cqActiveChunk (fst ?s) = Some 5" by code_simp
  show ?thesis using active_chunk_advances [OF demo_run_inv a r] v r by simp
qed

text \<open>
  Tasks that arrive for the active chunk wait: while the active chunk has a runnable task or a task
  in flight, \<open>getTask\<close> leaves its pending tasks where they are and keeps it active, so new queries for
  one chunk cannot hold the scan there.
\<close>

theorem pending_tasks_wait:
  assumes "cq_inv q w" and "cqActiveChunk q = Some a"
    and "ctActiveTasks (cq_chunk q a) \<noteq> [] \<or> ctInFlightTasks (cq_chunk q a) \<noteq> {}"
    and "ChunkTasksQueue_getTask vt sched fl q w = Inr (r, q', w')"
  shows "cqActiveChunk q' = Some a \<and> ctPendingTasks (cq_chunk q' a) = ctPendingTasks (cq_chunk q a)"
proof -
  have frame: "cq_frame q q1" if rd: "ChunkTasksQueue_ready vt sched fl q w = Inr (b, q1, w1)" for b q1 w1
  proof (cases "cqReadyChunk q \<noteq> None \<or> cqChunkMap q = []")
    case True
    then show ?thesis using rd by (auto simp: ChunkTasksQueue_ready_def split: if_splits)
  next
    case False
    then have "cqReadyChunk q = None" "cqChunkMap q \<noteq> []" by auto
    with rd assms(1) show ?thesis
    proof (cases rule: cq_ready_shape)
      case (stay c q2 w2)
      have "cqActiveChunk q2 = Some c" using stay(1,3) by (simp add: cq_frame_def)
      moreover obtain ct where "omap_find (cqChunkMap q2) c = Some ct"
        using cq_okD(3) [of q2 c] stay(4) calculation by (auto simp: cq_inv_def)
      ultimately have "cq_frame q2 q1" using cq_scan_from_result(1) [OF stay(7,4,5)] by blast
      then show ?thesis using stay(3) cq_begin_keep [OF assms(2)] cq_frame_trans by simp
    qed (use assms(2,3) cq_begin_keep [OF assms(2)] in \<open>auto simp: ChunkTasks_readyToAdvance_def\<close>)
  qed
  show ?thesis
    using assms(4,1)
  proof (cases rule: cq_get_cases)
    case (none q1)
    then show ?thesis using frame [of False q1 w'] assms(2) by (simp add: cq_frame_def)
  next
    case (some q1 k t ct)
    then have "cq_frame q q1" by (simp add: frame)
    moreover have "ctPendingTasks (cq_chunk q' a) = ctPendingTasks (cq_chunk q1 a)" "cqActiveChunk q' = cqActiveChunk q1"
      using some(4,6) by (simp_all add: cq_chunk_def)
    ultimately show ?thesis using assms(2) by (simp add: cq_frame_def)
  qed
qed

lemma pending_tasks_wait_witness:
  "\<exists>r q' w'. ChunkTasksQueue_getTask (memManNone True) None False
       (fst (demo_run [OpQueue (demo_task 1 5 [1]), OpGet False, OpQueue (demo_task 2 5 [1])]))
       (snd (demo_run [OpQueue (demo_task 1 5 [1]), OpGet False, OpQueue (demo_task 2 5 [1])])) = Inr (r, q', w')
     \<and> ctPendingTasks (cq_chunk q' 5) = [demo_task 2 5 [1]]"
proof -
  let ?s = "demo_run [OpQueue (demo_task 1 5 [1]), OpGet False, OpQueue (demo_task 2 5 [1])]"
  let ?r = "ChunkTasksQueue_getTask (memManNone True) None False (fst ?s) (snd ?s)"
  have "case ?r of Inl e \<Rightarrow> False | Inr s \<Rightarrow> True" by code_simp
  then obtain r q' w' where r: "?r = Inr (r, q', w')" by (auto split: sum.splits)
  have a: "cqActiveChunk (fst ?s) = Some 5" by code_simp
  have f: "1 \<in> ctInFlightTasks (cq_chunk (fst ?s) 5)" by code_simp
  have p: "ctPendingTasks (cq_chunk (fst ?s) 5) = [demo_task 2 5 [1]]" by code_simp
  show ?thesis using pending_tasks_wait [OF demo_run_inv a _ r] f p r by auto
qed

text \<open>
  C26. The queue is never stuck without a reason: when a queue that holds tasks reports that nothing is
  ready, then either the memory manager has refused the next task of some chunk, or its scheduler has reached its
  maximum of active chunks and the queue has a chunk that is not one of them, or all queued tasks
  are pending on the active chunk, which waits for its tasks in flight.
\<close>

theorem queue_not_stuck:
  assumes "cq_inv q w" and "ChunkTasksQueue_ready vt sched fl q w = Inr (False, q', w')"
    and "cq_contents q \<noteq> {#}"
  shows "(\<exists>k. ctActiveTasks (cq_chunk q' k) \<noteq> [] \<and> ctResourceStarved (cq_chunk q' k))
    \<or> at_chunk_limit sched q'
    \<or> (\<exists>a. cqActiveChunk q' = Some a \<and> ctInFlightTasks (cq_chunk q' a) \<noteq> {}
         \<and> cq_contents q' = mset (ctPendingTasks (cq_chunk q' a)))"
proof -
  have st: "cq_step vt 2 q w False q' w'" by (rule cq_ready_step [OF assms(2,1)])
  then have inv': "cq_inv q' w'" "cq_ok q'" "cq_contents q' = cq_contents q" "cqReadyChunk q' = None"
    by (auto simp: cq_step_def cq_inv_def)
  have none: "cqReadyChunk q = None"
    using assms(2) by (cases "cqReadyChunk q") (auto simp: ChunkTasksQueue_ready_def)
  have ne: "cqChunkMap q \<noteq> []" using assms(3) by (auto simp: cq_contents_def)
  have idle: "cq_contents q' = mset (ctPendingTasks (cq_chunk q' a))"
    if "search_result sched False q'" "cqActiveChunk q' = Some a" "\<not> (\<exists>k. blocked q' k)" "\<not> at_chunk_limit sched q'" for a
    using no_work_contents [OF inv'(2,4) search_result_idle [OF that(1,2) inv'(2) that(3,4)]] that(2) by simp
  show ?thesis
  proof (cases "at_chunk_limit sched q'")
    case lim: False
    show ?thesis
      using assms(2,1) none ne
    proof (cases rule: cq_ready_shape)
      case (stay a q2 w1)
      have a2: "cqActiveChunk q2 = Some a" using stay(1,3) by (simp add: cq_frame_def)
      obtain ct where f: "omap_find (cqChunkMap q2) a = Some ct"
        using cq_okD(3) [of q2 a] stay(4) a2 by (auto simp: cq_inv_def)
      note sr = cq_scan_from_result [OF stay(7,4,5) a2 f]
      have a': "cqActiveChunk q' = Some a" using sr(1) a2 by (simp add: cq_frame_def)
      show ?thesis
      proof (cases "\<exists>k. blocked q' k")
        case True
        then show ?thesis by (auto simp: blocked_def runnable_def)
      next
        case False
        then have "ctActiveTasks (cq_chunk (cq_begin q) a) = []"
          using cq_scan_from_heap [OF stay(7,4,5) f] stay(8) f by fastforce
        then have "ctInFlightTasks (cq_chunk q' a) \<noteq> {}"
          using stay(2,3) sr(1) by (auto simp: ChunkTasks_readyToAdvance_def cq_frame_def)
        then show ?thesis using idle [OF sr(2) a' False lim] a' by blast
      qed
    next
      case (gone a q2 w1)
      have "cqActiveChunk q2 = Some a" using gone(1,3) by (simp add: cq_frame_def)
      then show ?thesis using cq_advance_gone [OF gone(4,5)] gone(6,7,8) assms(3) by simp
    next
      case (moved a q2 w1 n)
      have a2: "cqActiveChunk q2 = Some a" using moved(1,3) by (simp add: cq_frame_def)
      note ad = cq_advance_ok [OF moved(4,5) a2]
      obtain cn where cn: "omap_find (cqChunkMap (cq_advance a q2)) n = Some cn"
        using cq_okD(3) [of "cq_advance a q2" n] ad moved(7) by (auto simp: cq_inv_def)
      have sr: "cq_frame (cq_advance a q2) q'" "search_result sched False q'"
        using cq_scan_from_result [OF moved(8) _ _ moved(7) cn] ad by auto
      have "cqActiveChunk q' = Some n" "ctPendingTasks (cq_chunk q' n) = []"
        using sr(1) moved(7) cn cq_advance_pending [OF moved(4,5) a2 moved(7) cn] by (auto simp: cq_frame_def)
      then show ?thesis
        using idle [OF sr(2) _ _ lim] inv'(3) assms(3) by (auto simp: blocked_def runnable_def)
    qed simp
  qed simp
qed

lemma queue_not_stuck_witness:
  "\<exists>q' w'. ChunkTasksQueue_ready (memManNone False) (Some (SchedulerBase_new ''scan'' 4 2 10 1)) False
       (fst (demo_run [OpQueue (demo_task 1 5 [1])])) (snd (demo_run [OpQueue (demo_task 1 5 [1])])) = Inr (False, q', w')
     \<and> (\<exists>k. ctActiveTasks (cq_chunk q' k) \<noteq> [] \<and> ctResourceStarved (cq_chunk q' k))"
proof -
  let ?s = "demo_run [OpQueue (demo_task 1 5 [1])]" and ?sb = "SchedulerBase_new ''scan'' 4 2 10 1"
  let ?r = "ChunkTasksQueue_ready (memManNone False) (Some ?sb) False (fst ?s) (snd ?s)"
  have "case ?r of Inl e \<Rightarrow> False | Inr (b, q, w) \<Rightarrow> \<not> b \<and> cqActiveChunk q = Some 5 \<and> ctInFlightTasks (cq_chunk q 5) = {}"
    by code_simp
  then obtain q' w' where r: "?r = Inr (False, q', w')"
    and v: "cqActiveChunk q' = Some 5" "ctInFlightTasks (cq_chunk q' 5) = {}" by (auto split: sum.splits)
  have "\<not> sbMaxActiveChunks ?sb \<le> getActiveChunkCount ?sb" by code_simp
  then have lim: "\<not> at_chunk_limit (Some ?sb) q'" by (simp add: at_chunk_limit_def)
  have "ChunkTasksQueue_getSize (fst ?s) = 1" by code_simp
  then have "cq_contents (fst ?s) \<noteq> {#}"
    using cq_okD(5) [of "fst ?s"] demo_run_inv [of "[OpQueue (demo_task 1 5 [1])]"]
    by (auto simp: cq_inv_def ChunkTasksQueue_getSize_def)
  then show ?thesis using queue_not_stuck [OF demo_run_inv r] v r lim by auto
qed

section \<open>The heap of runnable tasks\<close>

text \<open>
  \<open>compareTables\<close> compares table lists position by position and calls a list equal to its own
  extensions, so it orders tasks strictly and weakly only among tasks with the same number of tables.
\<close>

definition same_tables :: "nat \<Rightarrow> task set" where
  "same_tables n = {t. length (infoTables (tScanInfo t)) = n}"

interpretation slow_order: strict_weak_order_on "same_tables n" slow_compare for n
  by unfold_locales (auto simp: same_tables_def slow_compare_def compareTables_lex)

text \<open>The heaps that the operations of \<open>ChunkTasks\<close> build from tasks of a set.\<close>

inductive heap_reach :: "task set \<Rightarrow> task list \<Rightarrow> bool" for S where
  start: "heap_reach S []"
| push: "heap_reach S ts \<Longrightarrow> t \<in> S \<Longrightarrow> heap_reach S (SlowTableHeap_push t ts)"
| pop: "heap_reach S ts \<Longrightarrow> heap_reach S (snd (SlowTableHeap_pop ts))"
| remove: "heap_reach S ts \<Longrightarrow> take_first P ts = Some (u, us) \<Longrightarrow> heap_reach S (SlowTableHeap_heapify us)"

lemma heap_reach_heap:
  "heap_reach (same_tables n) ts \<Longrightarrow> set ts \<subseteq> same_tables n \<and> heap_above slow_compare 0 ts"
proof (induction rule: heap_reach.induct)
  case start
  then show ?case by (simp add: heap_above_def)
next
  case (push ts t)
  then show ?case using slow_order.heap_push [of ts n t] by (auto simp: SlowTableHeap_push_def)
next
  case (pop ts)
  show ?case
  proof (cases "ts = []")
    case False
    then have "set_mset (mset (snd (SlowTableHeap_pop ts))) \<subseteq> set_mset (mset ts)"
      using mset_slow_pop [of ts] by (metis diff_subset_eq_self set_mset_mono)
    then show ?thesis
      using pop False slow_order.heap_pop [of ts n] by (auto simp: SlowTableHeap_pop_def)
  qed (use pop in \<open>simp add: SlowTableHeap_pop_def\<close>)
next
  case (remove ts P u us)
  have "mset ts = add_mset u (mset us)" using take_first_Some [OF remove.hyps(2)] by simp
  then have "set us \<subseteq> set ts" by (metis set_mset_add_mset_insert set_mset_mset subset_insertI)
  then have "set us \<subseteq> same_tables n" using remove.IH by blast
  moreover have "set (SlowTableHeap_heapify us) = set us" by (metis mset_heapify set_mset_mset)
  ultimately show ?case using slow_order.heap_make [of us n] by (simp add: SlowTableHeap_heapify_def)
qed

text \<open>
  Among tasks with the same number of scan tables the heap delivers the slowest first: after any
  pushes, pops and removals, the task that \<open>pop\<close> takes is not faster, by the comparison of table
  lists, than any task in the heap.
\<close>

theorem heap_pops_slowest:
  assumes "heap_reach (same_tables n) ts" and "SlowTableHeap_pop ts = (Some t, ts')" and "u \<in> set ts"
  shows "tables_key (tScanInfo u) \<le> tables_key (tScanInfo t)"
proof -
  note h = heap_reach_heap [OF assms(1)]
  have ne: "ts \<noteq> []" and t: "t = ts ! 0"
    using assms(2) by (auto simp: SlowTableHeap_pop_def hd_conv_nth split: if_splits)
  obtain i where "i < length ts" "u = ts ! i" using assms(3) by (auto simp: in_set_conv_nth)
  then have "\<not> slow_compare t u" using slow_order.heap_front_maximal [OF conjunct1 [OF h] conjunct2 [OF h]] t by simp
  moreover have "t \<in> same_tables n" "u \<in> same_tables n" using h assms(3) ne t by auto
  ultimately show ?thesis
    using compareTables_lex [of "tScanInfo t" "tScanInfo u"] by (simp add: slow_compare_def same_tables_def)
qed

lemma heap_pops_slowest_witness:
  "\<exists>t ts'. SlowTableHeap_pop (SlowTableHeap_push (demo_task 2 5 [3]) (SlowTableHeap_push (demo_task 1 5 [1]) []))
      = (Some t, ts') \<and> tables_key (tScanInfo (demo_task 1 5 [1])) \<le> tables_key (tScanInfo t)"
proof -
  let ?ts = "SlowTableHeap_push (demo_task 2 5 [3]) (SlowTableHeap_push (demo_task 1 5 [1]) [])"
  have "demo_task 1 5 [1] \<in> same_tables 1" "demo_task 2 5 [3] \<in> same_tables 1"
    unfolding same_tables_def mem_Collect_eq by code_simp+
  then have h: "heap_reach (same_tables 1) ?ts" by (intro heap_reach.intros)
  have p: "SlowTableHeap_pop ?ts = (Some (demo_task 2 5 [3]), [demo_task 1 5 [1]])" by code_simp
  have "demo_task 1 5 [1] \<in> set ?ts" by (simp add: SlowTableHeap_push_def)
  from heap_pops_slowest [OF h p this] p show ?thesis by blast
qed

text \<open>
  With different numbers of scan tables this fails: \<open>compareTables\<close> calls the lists 3 and 3, 2 equal,
  and the heap built by four pushes delivers a task although a strictly slower one is queued.
\<close>

theorem heap_mixed_lengths:
  "case SlowTableHeap_pop (foldl (\<lambda>h x. SlowTableHeap_push x h) []
       [demo_task 1 5 [3, 1], demo_task 2 5 [3], demo_task 3 5 [1], demo_task 4 5 [3, 2]]) of
     (Some t, ts') \<Rightarrow> tPtr t = 1 \<and> demo_task 4 5 [3, 2] \<in> set ts'
       \<and> compareTables (tScanInfo t) (tScanInfo (demo_task 4 5 [3, 2])) < 0
   | (None, ts') \<Rightarrow> False"
  by code_simp

end
