(* ===== verification/Chunk_Disk.thy ===== *)
theory Chunk_Disk
  imports Chunk_Tasks_Order
begin

text \<open>
  \<open>wsched/ChunkDisk.h\<close> and \<open>ChunkDisk.cc\<close>: the other implementation of the task collection, two heaps
  ordered by chunk id (the scan that is under way and the next one). \<open>removeTask\<close> and \<open>taskComplete\<close>
  do nothing in the code.
\<close>

section \<open>MinHeap\<close>

definition min_compare :: "task \<Rightarrow> task \<Rightarrow> bool" where
  "min_compare x y \<longleftrightarrow>
     (if getChunkId y < getChunkId x then True
      else if getChunkId x < getChunkId y then False
      else compareTables (tScanInfo x) (tScanInfo y) < 0)"

definition MinHeap_push :: "task \<Rightarrow> task list \<Rightarrow> task list" where
  "MinHeap_push t ts = push_heap min_compare (ts @ [t])"

definition MinHeap_pop :: "task list \<Rightarrow> task option \<times> task list" where
  "MinHeap_pop ts = (if ts = [] then (None, ts) else (Some (hd ts), butlast (pop_heap min_compare ts)))"

definition MinHeap_top :: "task list \<Rightarrow> task option" where
  "MinHeap_top ts = (case ts of [] \<Rightarrow> None | t # _ \<Rightarrow> Some t)"

definition MinHeap_heapify :: "task list \<Rightarrow> task list" where
  "MinHeap_heapify ts = make_heap min_compare ts"

section \<open>ChunkDisk\<close>

record chunkDisk =
  cdActiveTasks :: "task list"
  cdPendingTasks :: "task list"
  cdLastChunk :: int
  cdResourceStarved :: bool

definition ChunkDisk_new :: chunkDisk where
  "ChunkDisk_new = \<lparr>cdActiveTasks = [], cdPendingTasks = [], cdLastChunk = -100, cdResourceStarved = False\<rparr>"

definition ChunkDisk_queueTask :: "task \<Rightarrow> chunkDisk \<Rightarrow> chunkDisk" where
  "ChunkDisk_queueTask a d =
     (if getChunkId a \<le> cdLastChunk d then d\<lparr>cdPendingTasks := MinHeap_push a (cdPendingTasks d)\<rparr>
      else d\<lparr>cdActiveTasks := MinHeap_push a (cdActiveTasks d)\<rparr>)"

definition ChunkDisk_nextTaskDifferentChunkId :: "chunkDisk \<Rightarrow> bool" where
  "ChunkDisk_nextTaskDifferentChunkId d =
     (case MinHeap_top (cdActiveTasks d) of None \<Rightarrow> True | Some t \<Rightarrow> getChunkId t \<noteq> cdLastChunk d)"

definition ChunkDisk_setResourceStarved :: "bool \<Rightarrow> chunkDisk \<Rightarrow> bool \<times> chunkDisk" where
  "ChunkDisk_setResourceStarved starved d =
     (if starved \<noteq> cdResourceStarved d then (True, d\<lparr>cdResourceStarved := starved\<rparr>) else (False, d))"

definition cd_swap :: "chunkDisk \<Rightarrow> chunkDisk" where
  "cd_swap d =
     (if cdActiveTasks d = [] \<and> cdPendingTasks d \<noteq> []
      then d\<lparr>cdActiveTasks := cdPendingTasks d, cdPendingTasks := cdActiveTasks d\<rparr> else d)"

definition ChunkDisk_ready :: "'m memMan \<Rightarrow> schedBase option \<Rightarrow> bool \<Rightarrow> chunkDisk \<Rightarrow> 'm world \<Rightarrow>
    sched_error + (bool \<times> chunkDisk \<times> 'm world)" where
  "ChunkDisk_ready vt sched useFlexibleLock d0 w =
     (let d = cd_swap d0 in
      case MinHeap_top (cdActiveTasks d) of
        None \<Rightarrow> Inr (False, d, w)
      | Some t \<Rightarrow>
          if hasMemHandle (task_st t w) then Inr (True, d, w)
          else case mem_request vt useFlexibleLock t w of
            Inl e \<Rightarrow> Inl e
          | Inr (False, w') \<Rightarrow> Inr (False, snd (ChunkDisk_setResourceStarved True d), w')
          | Inr (True, w') \<Rightarrow>
              Inr (True, (snd (ChunkDisk_setResourceStarved False d))\<lparr>cdLastChunk := getChunkId t\<rparr>, w'))"

definition ChunkDisk_getTask :: "'m memMan \<Rightarrow> schedBase option \<Rightarrow> bool \<Rightarrow> chunkDisk \<Rightarrow> 'm world \<Rightarrow>
    sched_error + (task option \<times> chunkDisk \<times> 'm world)" where
  "ChunkDisk_getTask vt sched useFlexibleLock d w =
     (case ChunkDisk_ready vt sched useFlexibleLock d w of
        Inl e \<Rightarrow> Inl e
      | Inr (rdy, d1, w1) \<Rightarrow>
          if \<not> rdy then Inr (None, d1, w1)
          else case MinHeap_pop (cdActiveTasks d1) of (t, ts) \<Rightarrow> Inr (t, d1\<lparr>cdActiveTasks := ts\<rparr>, w1))"

definition ChunkDisk_empty :: "chunkDisk \<Rightarrow> bool" where
  "ChunkDisk_empty d \<longleftrightarrow> cdActiveTasks d = [] \<and> cdPendingTasks d = []"

definition ChunkDisk_getSize :: "chunkDisk \<Rightarrow> int" where
  "ChunkDisk_getSize d = int (length (cdActiveTasks d) + length (cdPendingTasks d))"

definition chunkDisk_tc :: "(chunkDisk, 'm) taskCollection" where
  "chunkDisk_tc = \<lparr>tcQueueTask = ChunkDisk_queueTask, tcReady = ChunkDisk_ready,
     tcGetTask = ChunkDisk_getTask, tcTaskComplete = (\<lambda>t d. d), tcRemoveTask = (\<lambda>t d. (None, d)),
     tcSetResourceStarved = ChunkDisk_setResourceStarved,
     tcNextTaskDifferentChunkId = ChunkDisk_nextTaskDifferentChunkId,
     tcEmpty = ChunkDisk_empty, tcGetSize = ChunkDisk_getSize\<rparr>"

section \<open>The contract\<close>

definition cd_contents :: "chunkDisk \<Rightarrow> task multiset" where
  "cd_contents d = mset (cdActiveTasks d) + mset (cdPendingTasks d)"

lemma mset_min_push [conserve]: "mset (MinHeap_push t ts) = add_mset t (mset ts)"
  by (simp add: MinHeap_push_def mset_push_heap)

lemma mset_min_pop [conserve]: "ts \<noteq> [] \<Longrightarrow> mset ts = add_mset (hd ts) (mset (snd (MinHeap_pop ts)))"
  using mset_butlast_pop_heap [of ts min_compare] by (simp add: MinHeap_pop_def)

lemma cd_swap_simps [simp]: "cd_contents (cd_swap d) = cd_contents d" "cdLastChunk (cd_swap d) = cdLastChunk d"
  by (auto simp: cd_swap_def cd_contents_def)

lemma cd_swap_nonempty: "cdActiveTasks d \<noteq> [] \<Longrightarrow> cd_swap d = d"
  by (simp add: cd_swap_def)

lemma cd_starved_simps [simp]:
  "cdActiveTasks (snd (ChunkDisk_setResourceStarved b d)) = cdActiveTasks d"
  "cdPendingTasks (snd (ChunkDisk_setResourceStarved b d)) = cdPendingTasks d"
  "cdLastChunk (snd (ChunkDisk_setResourceStarved b d)) = cdLastChunk d"
  by (auto simp: ChunkDisk_setResourceStarved_def)

lemma cd_ready_cases:
  assumes "ChunkDisk_ready vt sched fl d w = Inr (b, d', w')"
  obtains (idle) "\<not> b" "d' = cd_swap d" "w' = w" "cdActiveTasks d' = []"
  | (some) t ts where "cdActiveTasks (cd_swap d) = t # ts" "cdActiveTasks d' = t # ts"
      "cdPendingTasks d' = cdPendingTasks (cd_swap d)" "b \<longleftrightarrow> hasMemHandle (task_st t w')" "t \<in># cd_contents d"
      "\<exists>n \<le> 2. acquires vt (set_mset (cd_contents d)) n w w'"
      "cdLastChunk d' = (if b \<and> \<not> hasMemHandle (task_st t w) then getChunkId t else cdLastChunk d)"
proof (cases "cdActiveTasks (cd_swap d)")
  case Nil
  then show ?thesis using assms idle by (auto simp: ChunkDisk_ready_def MinHeap_top_def)
next
  case (Cons t ts)
  have t: "t \<in># cd_contents d" using Cons by (metis cd_contents_def cd_swap_simps(1) list.set_intros(1)
      set_mset_mset union_iff)
  show ?thesis
  proof (cases "hasMemHandle (task_st t w)")
    case True
    have "b" "d' = cd_swap d" "w' = w" using assms Cons True by (auto simp: ChunkDisk_ready_def MinHeap_top_def)
    then show ?thesis using some [of t ts] Cons True t by (auto intro: acquires.none)
  next
    case False
    obtain w1 c where m: "mem_request vt fl t w = Inr (c, w1)"
      using assms Cons False
      by (cases "mem_request vt fl t w") (auto simp: ChunkDisk_ready_def MinHeap_top_def Let_def)
    have r: "ChunkDisk_ready vt sched fl d w = Inr (c, (if c then (snd (ChunkDisk_setResourceStarved False (cd_swap d)))
        \<lparr>cdLastChunk := getChunkId t\<rparr> else snd (ChunkDisk_setResourceStarved True (cd_swap d))), w1)"
      using Cons False m by (cases c) (simp_all add: ChunkDisk_ready_def MinHeap_top_def)
    have "b = c" "w' = w1" and d': "d' = (if c then (snd (ChunkDisk_setResourceStarved False (cd_swap d)))
        \<lparr>cdLastChunk := getChunkId t\<rparr> else snd (ChunkDisk_setResourceStarved True (cd_swap d)))"
      using assms r by (auto simp del: if_split)
    moreover have "\<exists>n \<le> 2. acquires vt (set_mset (cd_contents d)) n w w1"
      using mem_request_acquires(1) [OF m False t] by (intro exI [of _ 1]) simp
    ultimately show ?thesis
      using some [of t ts] Cons False t mem_request_acquires(2) [OF m False t] by auto
  qed
qed

lemma cd_ready_contents:
  assumes "ChunkDisk_ready vt sched fl d w = Inr (b, d', w')"
  shows "cd_contents d' = cd_contents d"
proof -
  have "cd_contents d' = cd_contents (cd_swap d)"
    using assms by (cases rule: cd_ready_cases) (simp_all add: cd_contents_def)
  then show ?thesis by simp
qed

lemma cd_get_cases:
  assumes "ChunkDisk_getTask vt sched fl d w = Inr (r, d', w')"
  obtains (none) "ChunkDisk_ready vt sched fl d w = Inr (False, d', w')" "r = None"
  | (some) d1 t ts where "ChunkDisk_ready vt sched fl d w = Inr (True, d1, w')" "cdActiveTasks d1 = t # ts"
      "r = Some t" "d' = d1\<lparr>cdActiveTasks := snd (MinHeap_pop (t # ts))\<rparr>" "hasMemHandle (task_st t w')"
proof -
  obtain b d1 w1 where r: "ChunkDisk_ready vt sched fl d w = Inr (b, d1, w1)"
    using assms by (auto simp: ChunkDisk_getTask_def split: sum.splits)
  show ?thesis
  proof (cases b)
    case False
    then show ?thesis using none r assms by (simp add: ChunkDisk_getTask_def)
  next
    case True
    from r obtain t ts where t: "cdActiveTasks d1 = t # ts" "hasMemHandle (task_st t w1)"
      using True by (cases rule: cd_ready_cases) auto
    then have "r = Some t" "w' = w1" "d' = d1\<lparr>cdActiveTasks := snd (MinHeap_pop (t # ts))\<rparr>"
      using assms r True by (auto simp: ChunkDisk_getTask_def MinHeap_pop_def)
    then show ?thesis using some [of d1 t ts] r True t by simp
  qed
qed

lemma cd_ready_world:
  "ChunkDisk_ready vt sched fl d w = Inr (b, d', w') \<Longrightarrow> \<exists>n \<le> 2. acquires vt (set_mset (cd_contents d)) n w w'"
  by (cases rule: cd_ready_cases) (auto intro: acquires.none)

interpretation cd: task_collection "chunkDisk_tc :: (chunkDisk, 'm) taskCollection" "\<lambda>_ _. True" cd_contents
proof (unfold_locales, goal_cases)
  case (3 q w t)
  then show ?case by (simp add: chunkDisk_tc_def ChunkDisk_queueTask_def cd_contents_def conserve)
next
  case (5 q w vt sb fl b q' w')
  then show ?case by (simp add: chunkDisk_tc_def cd_ready_contents)
next
  case (6 q w vt sb fl b q' w')
  then show ?case using cd_ready_world by (simp add: chunkDisk_tc_def)
next
  case (7 q w vt sb fl q' w' fl')
  then have "ChunkDisk_ready vt sb fl q w = Inr (True, q', w')" by (simp add: chunkDisk_tc_def)
  then obtain t ts where t: "cdActiveTasks q' = t # ts" "hasMemHandle (task_st t w')"
    by (cases rule: cd_ready_cases) auto
  then have "ChunkDisk_ready vt sb fl' q' w' = Inr (True, q', w')"
    by (simp add: ChunkDisk_ready_def cd_swap_nonempty MinHeap_top_def)
  then show ?case using t by (simp add: chunkDisk_tc_def ChunkDisk_getTask_def MinHeap_pop_def)
next
  case (9 q w vt sb fl r q' w')
  then have "ChunkDisk_getTask vt sb fl q w = Inr (r, q', w')" by (simp add: chunkDisk_tc_def)
  then show ?case
  proof (cases rule: cd_get_cases)
    case (some d1 t ts)
    then show ?thesis
      using cd_ready_contents [OF some(1)] mset_min_pop [of "t # ts"] by (simp add: cd_contents_def)
  qed (simp add: cd_ready_contents)
next
  case (10 q w vt sb fl r q' w')
  then have "ChunkDisk_getTask vt sb fl q w = Inr (r, q', w')" by (simp add: chunkDisk_tc_def)
  then show ?case using cd_ready_world by (cases rule: cd_get_cases) blast+
next
  case (11 q w vt sb fl t q' w')
  then have "ChunkDisk_getTask vt sb fl q w = Inr (Some t, q', w')" by (simp add: chunkDisk_tc_def)
  then show ?case by (cases rule: cd_get_cases) auto
qed (auto simp: chunkDisk_tc_def cd_contents_def ChunkDisk_getSize_def ChunkDisk_empty_def)

section \<open>Scan order\<close>

interpretation min_order: strict_weak_order_on "same_tables n" min_compare for n
  by unfold_locales (auto simp: same_tables_def min_compare_def compareTables_lex split: if_splits)

text \<open>
  The invariant of a disk all of whose tasks have \<open>n\<close> tables: both vectors are heaps and no runnable
  task lies before the chunk that was granted last, unless the scan has just wrapped around.
\<close>

definition cd_ok :: "nat \<Rightarrow> chunkDisk \<Rightarrow> bool" where
  "cd_ok n d \<longleftrightarrow> set (cdActiveTasks d) \<subseteq> same_tables n \<and> set (cdPendingTasks d) \<subseteq> same_tables n \<and>
     heap_above min_compare 0 (cdActiveTasks d) \<and> heap_above min_compare 0 (cdPendingTasks d)"

lemma cd_ok_queue: "cd_ok n d \<Longrightarrow> t \<in> same_tables n \<Longrightarrow> cd_ok n (ChunkDisk_queueTask t d)"
  using min_order.heap_push [of _ n t] by (auto simp: cd_ok_def ChunkDisk_queueTask_def MinHeap_push_def)

lemma cd_ok_ready:
  assumes "ChunkDisk_ready vt sched fl d w = Inr (b, d', w')" "cd_ok n d"
  shows "cd_ok n d'"
proof -
  have ok: "cd_ok n (cd_swap d)" using assms(2) by (auto simp: cd_ok_def cd_swap_def)
  show ?thesis using assms(1) by (cases rule: cd_ready_cases) (use ok in \<open>auto simp: cd_ok_def\<close>)
qed

lemma cd_ok_get:
  assumes "ChunkDisk_getTask vt sched fl d w = Inr (r, d', w')" "cd_ok n d"
  shows "cd_ok n d'"
  using assms(1)
proof (cases rule: cd_get_cases)
  case none
  then show ?thesis using cd_ok_ready assms(2) by blast
next
  case (some d1 t ts)
  have ok: "cd_ok n d1" using cd_ok_ready some(1) assms(2) by blast
  have "mset (t # ts) = add_mset t (mset (snd (MinHeap_pop (t # ts))))" using mset_min_pop [of "t # ts"] by simp
  then have "set (snd (MinHeap_pop (t # ts))) \<subseteq> set (t # ts)"
    by (metis set_mset_add_mset_insert set_mset_mset subset_insertI)
  moreover have "snd (MinHeap_pop (t # ts)) = butlast (pop_heap min_compare (t # ts))" by (simp add: MinHeap_pop_def)
  ultimately show ?thesis
    using ok some(2,4) min_order.heap_pop [of "t # ts" n] by (auto simp: cd_ok_def)
qed

text \<open>The disks that queueing and delivering build from tasks with \<open>n\<close> tables.\<close>

inductive disk_reach :: "nat \<Rightarrow> 'm memMan \<Rightarrow> chunkDisk \<Rightarrow> 'm world \<Rightarrow> bool" for n vt where
  start: "disk_reach n vt ChunkDisk_new w"
| queue: "disk_reach n vt d w \<Longrightarrow> t \<in> same_tables n \<Longrightarrow> disk_reach n vt (ChunkDisk_queueTask t d) w"
| ready: "disk_reach n vt d w \<Longrightarrow> ChunkDisk_ready vt sched fl d w = Inr (b, d', w') \<Longrightarrow> disk_reach n vt d' w'"
| get: "disk_reach n vt d w \<Longrightarrow> ChunkDisk_getTask vt sched fl d w = Inr (r, d', w') \<Longrightarrow> disk_reach n vt d' w'"

lemma disk_reach_ok: "disk_reach n vt d w \<Longrightarrow> cd_ok n d"
  by (induction rule: disk_reach.induct)
    (auto simp: cd_ok_queue cd_ok_ready cd_ok_get, simp add: cd_ok_def ChunkDisk_new_def heap_above_def)

section \<open>Properties\<close>

text \<open>
  \<open>ChunkDisk\<close> neither loses nor duplicates a task in any sequence of operations: every queued task
  has been delivered once or is still queued, and nothing is ever removed.
\<close>

theorem chunk_disk_conserves:
  assumes "coll_run chunkDisk_tc vt sched ops (ChunkDisk_new, w) = Inr (delivered, removed, d', w')"
  shows "op_queued ops = mset delivered + mset removed + cd_contents d'"
  using cd.run_conserves [OF assms] by (simp add: cd_contents_def ChunkDisk_new_def)

lemma chunk_disk_conserves_witness:
  "\<exists>d' w'. coll_run chunkDisk_tc (memManNone True) None
     [OpQueue (demo_task 1 7 [1]), OpQueue (demo_task 2 5 [1]), OpGet False] (ChunkDisk_new, demo_world)
     = Inr ([demo_task 2 5 [1]], [], d', w') \<and> cd_contents d' = {#demo_task 1 7 [1]#}"
proof -
  let ?r = "coll_run chunkDisk_tc (memManNone True) None
     [OpQueue (demo_task 1 7 [1]), OpQueue (demo_task 2 5 [1]), OpGet False] (ChunkDisk_new, demo_world)"
  have "case ?r of Inl e \<Rightarrow> False | Inr (out, rem, s) \<Rightarrow> out = [demo_task 2 5 [1]] \<and> rem = []" by code_simp
  then obtain d' w' where r: "?r = Inr ([demo_task 2 5 [1]], [], d', w')" by (auto split: sum.splits)
  from chunk_disk_conserves [OF r] have "cd_contents d' = {#demo_task 1 7 [1]#}" by (simp add: op_queued_def)
  with r show ?thesis by blast
qed

text \<open>
  The scan goes up through the chunks: with tasks of one number of tables, the task that \<open>getTask\<close>
  delivers has the lowest chunk id of all tasks of the scan under way.
\<close>

theorem disk_delivers_lowest_chunk:
  assumes "disk_reach n vt d w" and "ChunkDisk_getTask vt sched fl d w = Inr (Some t, d', w')"
    and "u \<in> set (cdActiveTasks d')"
  shows "getChunkId t \<le> getChunkId u"
  using assms(2)
proof (cases rule: cd_get_cases)
  case (some d1 v ts)
  have ok: "set (t # ts) \<subseteq> same_tables n" "heap_above min_compare 0 (t # ts)"
    using cd_ok_ready [OF some(1) disk_reach_ok [OF assms(1)]] some(2,3) by (auto simp: cd_ok_def)
  have "mset (t # ts) = add_mset t (mset (cdActiveTasks d'))"
    using mset_min_pop [of "t # ts"] some(3,4) by simp
  then have "u \<in> set (t # ts)" using assms(3) by (metis insertCI set_mset_add_mset_insert set_mset_mset)
  then obtain i where "i < length (t # ts)" "u = (t # ts) ! i" by (metis in_set_conv_nth)
  then have "\<not> min_compare t u" using min_order.heap_front_maximal [OF ok] by (metis nth_Cons_0)
  then show ?thesis by (auto simp: min_compare_def split: if_splits)
qed simp

lemma disk_delivers_lowest_chunk_witness:
  "\<exists>t d' w'. ChunkDisk_getTask (memManNone True) None False
       (ChunkDisk_queueTask (demo_task 2 5 [1]) (ChunkDisk_queueTask (demo_task 1 7 [1]) ChunkDisk_new)) demo_world
       = Inr (Some t, d', w') \<and> getChunkId t \<le> 7"
proof -
  let ?d = "ChunkDisk_queueTask (demo_task 2 5 [1]) (ChunkDisk_queueTask (demo_task 1 7 [1]) ChunkDisk_new)"
  let ?r = "ChunkDisk_getTask (memManNone True) None False ?d demo_world"
  have "case ?r of Inr (Some t, d, w) \<Rightarrow> cdActiveTasks d = [demo_task 1 7 [1]] | _ \<Rightarrow> False" by code_simp
  then obtain t d' w' where r: "?r = Inr (Some t, d', w')" and v: "cdActiveTasks d' = [demo_task 1 7 [1]]"
    by (auto split: sum.splits option.splits)
  have s: "demo_task 1 7 [1] \<in> same_tables 1" "demo_task 2 5 [1] \<in> same_tables 1"
    unfolding same_tables_def mem_Collect_eq by code_simp+
  have "disk_reach 1 (memManNone True) ?d demo_world" by (intro disk_reach.queue disk_reach.start s)
  from disk_delivers_lowest_chunk [OF this r, of "demo_task 1 7 [1]"] v r show ?thesis
    by (auto simp: getChunkId_def demo_task_def Task_new_def)
qed

end
