(* ===== verification/Scan_Scheduler.thy ===== *)
theory Scan_Scheduler
  imports Chunk_Disk Complex_Main
begin

text \<open>
  \<open>wsched/ScanScheduler.h\<close> and \<open>ScanScheduler.cc\<close>: a scheduler for shared scans. Its tasks are in a task
  collection; a task leaves it only with a memory handle. When a task finishes, its handle is kept
  until the next \<open>_ready\<close> or \<open>commandFinish\<close> (\<open>_memManHandleToUnlock\<close>), so that a following task can
  use the same tables without locking them again.

  The collection is a \<open>ChunkTasksQueue\<close> (what the constructor makes) or a \<open>ChunkDisk\<close>; a call of one of
  its virtual methods is a call through the record of methods (\<open>tq_tc\<close>). The flag \<open>_infoChanged\<close> only
  limits logging and is left out. As in \<open>Group_Scheduler\<close>, \<open>getCmd\<close> is one evaluation of its wait
  condition.
\<close>

section \<open>The task collection of a scan scheduler\<close>

datatype taskQueue = TQQueue chunkTasksQueue | TQDisk chunkDisk

definition tq_map :: "(chunkTasksQueue \<Rightarrow> chunkTasksQueue) \<Rightarrow> (chunkDisk \<Rightarrow> chunkDisk) \<Rightarrow> taskQueue \<Rightarrow> taskQueue" where
  "tq_map f g tq = (case tq of TQQueue q \<Rightarrow> TQQueue (f q) | TQDisk d \<Rightarrow> TQDisk (g d))"

definition tq_read :: "(chunkTasksQueue \<Rightarrow> 'a) \<Rightarrow> (chunkDisk \<Rightarrow> 'a) \<Rightarrow> taskQueue \<Rightarrow> 'a" where
  "tq_read f g tq = (case tq of TQQueue q \<Rightarrow> f q | TQDisk d \<Rightarrow> g d)"

text \<open>Results of the fallible methods, with the collection wrapped up again.\<close>

definition tq_wrap :: "('q \<Rightarrow> taskQueue) \<Rightarrow> sched_error + ('a \<times> 'q \<times> 'w) \<Rightarrow> sched_error + ('a \<times> taskQueue \<times> 'w)" where
  "tq_wrap c r = (case r of Inl e \<Rightarrow> Inl e | Inr (a, q, w) \<Rightarrow> Inr (a, c q, w))"

definition tq_tc :: "(taskQueue, 'm) taskCollection" where
  "tq_tc = \<lparr>tcQueueTask = (\<lambda>t. tq_map (ChunkTasksQueue_queueTask t) (ChunkDisk_queueTask t)),
     tcReady = (\<lambda>vt sb fl tq w. tq_read (\<lambda>q. tq_wrap TQQueue (ChunkTasksQueue_ready vt sb fl q w))
       (\<lambda>d. tq_wrap TQDisk (ChunkDisk_ready vt sb fl d w)) tq),
     tcGetTask = (\<lambda>vt sb fl tq w. tq_read (\<lambda>q. tq_wrap TQQueue (ChunkTasksQueue_getTask vt sb fl q w))
       (\<lambda>d. tq_wrap TQDisk (ChunkDisk_getTask vt sb fl d w)) tq),
     tcTaskComplete = (\<lambda>t. tq_map (ChunkTasksQueue_taskComplete t) (\<lambda>d. d)),
     tcRemoveTask = (\<lambda>t tq. tq_read (\<lambda>q. apsnd TQQueue (ChunkTasksQueue_removeTask t q)) (\<lambda>d. (None, TQDisk d)) tq),
     tcSetResourceStarved = (\<lambda>b tq. tq_read (\<lambda>q. apsnd TQQueue (ChunkTasksQueue_setResourceStarved b q))
       (\<lambda>d. apsnd TQDisk (ChunkDisk_setResourceStarved b d)) tq),
     tcNextTaskDifferentChunkId = tq_read ChunkTasksQueue_nextTaskDifferentChunkId ChunkDisk_nextTaskDifferentChunkId,
     tcEmpty = tq_read ChunkTasksQueue_empty ChunkDisk_empty,
     tcGetSize = tq_read ChunkTasksQueue_getSize ChunkDisk_getSize\<rparr>"

definition isChunkDisk :: "taskQueue \<Rightarrow> bool" where
  "isChunkDisk = tq_read (\<lambda>_. False) (\<lambda>_. True)"

section \<open>ScanScheduler\<close>

record scanScheduler =
  ssBase :: schedBase
  ssTaskQueue :: taskQueue
  ssHandleToUnlock :: handle
  ssMinRating :: int
  ssMaxRating :: int
  ssMaxTimeMinutes :: real

definition ScanScheduler_new ::
    "string \<Rightarrow> int \<Rightarrow> int \<Rightarrow> int \<Rightarrow> int \<Rightarrow> int \<Rightarrow> int \<Rightarrow> real \<Rightarrow> sched_error + scanScheduler" where
  "ScanScheduler_new name maxThreads maxReserve priority maxActiveChunks minRating maxRating maxTimeMinutes =
     (if minRating \<le> maxRating
      then Inr \<lparr>ssBase = SchedulerBase_new name maxThreads maxReserve maxActiveChunks priority,
             ssTaskQueue = TQQueue ChunkTasksQueue_new, ssHandleToUnlock = H_INVALID,
             ssMinRating = minRating, ssMaxRating = maxRating, ssMaxTimeMinutes = maxTimeMinutes\<rparr>
      else Inl AssertFailed)"

definition isRatingInRange :: "int \<Rightarrow> scanScheduler \<Rightarrow> bool" where
  "isRatingInRange rating s \<longleftrightarrow> ssMinRating s \<le> rating \<and> rating \<le> ssMaxRating s"

text \<open>\<open>commandStart\<close> only logs.\<close>

definition ScanScheduler_commandStart :: "command \<Rightarrow> scanScheduler \<Rightarrow> scanScheduler" where
  "ScanScheduler_commandStart cmd s = s"

definition ss_unlock_old :: "'m memMan \<Rightarrow> scanScheduler \<Rightarrow> 'm world \<Rightarrow> scanScheduler \<times> 'm world" where
  "ss_unlock_old vt s w =
     (if ssHandleToUnlock s \<noteq> H_INVALID
      then (s\<lparr>ssHandleToUnlock := H_INVALID\<rparr>, w\<lparr>wMem := snd (mmUnlock vt (ssHandleToUnlock s) (wMem w))\<rparr>)
      else (s, w))"

definition ScanScheduler_commandFinish ::
    "'m memMan \<Rightarrow> command \<Rightarrow> scanScheduler \<Rightarrow> 'm world \<Rightarrow> scanScheduler \<times> 'm world" where
  "ScanScheduler_commandFinish vt cmd s w =
     (case cmd of
        ControlCmd c \<Rightarrow> (s, w)
      | TaskCmd t \<Rightarrow>
          (let s1 = s\<lparr>ssTaskQueue := tcTaskComplete (tq_tc :: (taskQueue, 'm) taskCollection) t (ssTaskQueue s)\<rparr>;
               s2 = s1\<lparr>ssBase := (ssBase s1)\<lparr>sbInFlight := sbInFlight (ssBase s1) - 1\<rparr>\<rparr>;
               (s3, w3) = ss_unlock_old vt s2 w;
               h = tsMemHandle (task_st t w3);
               (s4, w4) = (if \<not> tcEmpty (tq_tc :: (taskQueue, 'm) taskCollection) (ssTaskQueue s3)
                           then (s3\<lparr>ssHandleToUnlock := h\<rparr>, w3)
                           else (s3, w3\<lparr>wMem := snd (mmUnlock vt h (wMem w3))\<rparr>))
           in (s4\<lparr>ssBase := decrChunkTaskCount (getChunkId t) (ssBase s4)\<rparr>, w4)))"

definition ScanScheduler_ready ::
    "'m memMan \<Rightarrow> scanScheduler \<Rightarrow> 'm world \<Rightarrow> sched_error + (bool \<times> scanScheduler \<times> 'm world)" where
  "ScanScheduler_ready vt s w =
     (if maxInFlight (ssBase s) \<le> sbInFlight (ssBase s) then Inr (False, s, w)
      else if isChunkDisk (ssTaskQueue s)
           \<and> tcNextTaskDifferentChunkId (tq_tc :: (taskQueue, 'm) taskCollection) (ssTaskQueue s)
           \<and> sbMaxActiveChunks (ssBase s) \<le> getActiveChunkCount (ssBase s) then Inr (False, s, w)
      else
        (let useFlexibleLock = (sbInFlight (ssBase s) < 1) in
         case tcReady tq_tc vt (Some (ssBase s)) useFlexibleLock (ssTaskQueue s) w of
           Inl e \<Rightarrow> Inl e
         | Inr (rdy, tq, w1) \<Rightarrow>
             (let s1 = s\<lparr>ssTaskQueue := tq\<rparr> in
              if ssHandleToUnlock s1 \<noteq> H_INVALID then
                (let (s2, w2) = ss_unlock_old vt s1 w1 in
                 if \<not> rdy then
                   (case tcReady tq_tc vt (Some (ssBase s2)) useFlexibleLock (ssTaskQueue s2) w2 of
                      Inl e \<Rightarrow> Inl e
                    | Inr (rdy2, tq2, w3) \<Rightarrow> Inr (rdy2, s2\<lparr>ssTaskQueue := tq2\<rparr>, w3))
                 else Inr (rdy, s2, w2))
              else Inr (rdy, s1, w1))))"

definition ScanScheduler_getSize :: "scanScheduler \<Rightarrow> int" where
  "ScanScheduler_getSize s = tcGetSize (tq_tc :: (taskQueue, unit) taskCollection) (ssTaskQueue s)"

definition ScanScheduler_getCmd ::
    "'m memMan \<Rightarrow> scanScheduler \<Rightarrow> 'm world \<Rightarrow> sched_error + (task option \<times> scanScheduler \<times> 'm world)" where
  "ScanScheduler_getCmd vt s w =
     (case ScanScheduler_ready vt s w of
        Inl e \<Rightarrow> Inl e
      | Inr (rdy, s1, w1) \<Rightarrow>
          if \<not> rdy then Inr (None, s1, w1)
          else
            (let useFlexibleLock = (sbInFlight (ssBase s1) < 1) in
             case tcGetTask tq_tc vt (Some (ssBase s1)) useFlexibleLock (ssTaskQueue s1) w1 of
               Inl e \<Rightarrow> Inl e
             | Inr (None, tq, w2) \<Rightarrow> Inr (None, s1\<lparr>ssTaskQueue := tq\<rparr>, w2)
             | Inr (Some t, tq, w2) \<Rightarrow>
                 (let b = (ssBase s1)\<lparr>sbInFlight := sbInFlight (ssBase s1) + 1\<rparr> in
                  Inr (Some t, s1\<lparr>ssTaskQueue := tq,
                       ssBase := incrChunkTaskCount (getChunkId t) (snd (decrCountForUserQuery (tQId t) b))\<rparr>, w2))))"

definition ScanScheduler_queCmd :: "command \<Rightarrow> scanScheduler \<Rightarrow> 'm world \<Rightarrow> scanScheduler \<times> 'm world" where
  "ScanScheduler_queCmd cmd s w =
     (case cmd of
        ControlCmd c \<Rightarrow> (s, w)
      | TaskCmd t \<Rightarrow>
          (s\<lparr>ssBase := snd (incrCountForUserQuery (tQId t) (ssBase s)),
             ssTaskQueue := tcQueueTask (tq_tc :: (taskQueue, 'm) taskCollection) t (ssTaskQueue s)\<rparr>,
           setMemMan t w))"

text \<open>
  \<open>removeTask\<close>: whether the task was taken off the queue, and whether the running task's thread was told
  to leave the pool (\<open>leavePool\<close>, which makes the pool report the task as finished).
\<close>

record removal =
  rmInQueue :: bool
  rmLeavePool :: "nat option"

definition ScanScheduler_removeTask ::
    "task \<Rightarrow> bool \<Rightarrow> scanScheduler \<Rightarrow> 'm world \<Rightarrow> removal \<times> scanScheduler \<times> 'm world" where
  "ScanScheduler_removeTask t removeRunning s w =
     (case tcRemoveTask (tq_tc :: (taskQueue, 'm) taskCollection) t (ssTaskQueue s) of (rmTask, tq) \<Rightarrow>
        (let s1 = s\<lparr>ssTaskQueue := tq\<rparr> in
         if rmTask \<noteq> None then (\<lparr>rmInQueue = True, rmLeavePool = None\<rparr>, s1, w)
         else if \<not> removeRunning then (\<lparr>rmInQueue = False, rmLeavePool = None\<rparr>, s1, w)
         else if \<not> tsSafeToMoveRunning (task_st t w) then (\<lparr>rmInQueue = False, rmLeavePool = None\<rparr>, s1, w)
         else (\<lparr>rmInQueue = False, rmLeavePool = tsPoolThread (task_st t w)\<rparr>, s1,
               upd_task t (\<lambda>x. x\<lparr>tsPoolThread := None\<rparr>) w)))"

section \<open>The dispatched collection keeps the contract\<close>

definition tq_inv :: "taskQueue \<Rightarrow> 'm world \<Rightarrow> bool" where
  "tq_inv tq w = (case tq of TQQueue q \<Rightarrow> cq_inv q w | TQDisk d \<Rightarrow> True)"

definition tq_contents :: "taskQueue \<Rightarrow> task multiset" where
  "tq_contents = tq_read cq_contents cd_contents"

lemma tq_wrap_Inr:
  "tq_wrap c r = Inr (a, tq, w) \<longleftrightarrow> (\<exists>q. r = Inr (a, q, w) \<and> tq = c q)"
  by (auto simp: tq_wrap_def split: sum.splits)

text \<open>The laws of the two collections, over their own operations.\<close>

lemmas cq_inv_world = cq.inv_world
lemmas cq_queue_inv = cq.queue_inv [unfolded chunkTasksQueue_tc_def, simplified]
lemmas cq_queue_contents = cq.queue_contents [unfolded chunkTasksQueue_tc_def, simplified]
lemmas cd_queue_contents = cd.queue_contents [unfolded chunkDisk_tc_def, simplified]
lemmas cq_ready_inv = cq.ready_inv [unfolded chunkTasksQueue_tc_def, simplified]
lemmas cq_ready_contents = cq.ready_contents [unfolded chunkTasksQueue_tc_def, simplified]
lemmas cd_ready_contents = cd.ready_contents [unfolded chunkDisk_tc_def, simplified]
lemmas cq_ready_world = cq.ready_world [unfolded chunkTasksQueue_tc_def, simplified]
lemmas cd_ready_world = cd.ready_world [unfolded chunkDisk_tc_def, simplified]
lemmas cq_ready_get = cq.ready_get [unfolded chunkTasksQueue_tc_def, simplified]
lemmas cd_ready_get = cd.ready_get [unfolded chunkDisk_tc_def, simplified]
lemmas cq_get_inv = cq.get_inv [unfolded chunkTasksQueue_tc_def, simplified]
lemmas cq_get_contents = cq.get_contents [unfolded chunkTasksQueue_tc_def, simplified]
lemmas cd_get_contents = cd.get_contents [unfolded chunkDisk_tc_def, simplified]
lemmas cq_get_world = cq.get_world [unfolded chunkTasksQueue_tc_def, simplified]
lemmas cd_get_world = cd.get_world [unfolded chunkDisk_tc_def, simplified]
lemmas cq_get_handle = cq.get_handle [unfolded chunkTasksQueue_tc_def, simplified]
lemmas cd_get_handle = cd.get_handle [unfolded chunkDisk_tc_def, simplified]
lemmas cq_complete_inv = cq.complete_inv [unfolded chunkTasksQueue_tc_def, simplified]
lemmas cq_complete_contents = cq.complete_contents [unfolded chunkTasksQueue_tc_def, simplified]
lemmas cq_remove_inv = cq.remove_inv [unfolded chunkTasksQueue_tc_def, simplified]
lemmas cq_remove_contents = cq.remove_contents [unfolded chunkTasksQueue_tc_def, simplified]
lemmas cq_remove_ids = cq.remove_ids [unfolded chunkTasksQueue_tc_def, simplified]
lemmas cq_size_contents = cq.size_contents [unfolded chunkTasksQueue_tc_def, simplified]
lemmas cd_size_contents = cd.size_contents [unfolded chunkDisk_tc_def, simplified]
lemmas cq_empty_contents = cq.empty_contents [unfolded chunkTasksQueue_tc_def, simplified]
lemmas cd_empty_contents = cd.empty_contents [unfolded chunkDisk_tc_def, simplified]

lemmas tq_defs = tq_inv_def tq_contents_def tq_tc_def tq_map_def tq_read_def tq_wrap_Inr

interpretation tq: task_collection "tq_tc :: (taskQueue, 'm) taskCollection" tq_inv tq_contents
proof (unfold_locales, goal_cases)
  case (1 q w w')
  then show ?case using cq_inv_world by (cases q) (auto simp: tq_defs)
next
  case (2 q w t)
  then show ?case using cq_queue_inv by (cases q) (auto simp: tq_defs)
next
  case (3 q w t)
  then show ?case using cq_queue_contents cd_queue_contents by (cases q) (auto simp: tq_defs)
next
  case (4 q w vt sb fl b q' w')
  then show ?case using cq_ready_inv by (cases q) (auto simp: tq_defs)
next
  case (5 q w vt sb fl b q' w')
  then show ?case using cq_ready_contents cd_ready_contents by (cases q) (auto simp: tq_defs)
next
  case (6 q w vt sb fl b q' w')
  then show ?case using cq_ready_world cd_ready_world by (cases q) (auto simp: tq_defs)
next
  case (7 q w vt sb fl q' w' fl')
  then show ?case using cq_ready_get cd_ready_get by (cases q) (auto simp: tq_defs)
next
  case (8 q w vt sb fl r q' w')
  then show ?case using cq_get_inv by (cases q) (auto simp: tq_defs)
next
  case (9 q w vt sb fl r q' w')
  then show ?case using cq_get_contents cd_get_contents by (cases q; cases r) (fastforce simp: tq_defs)+
next
  case (10 q w vt sb fl r q' w')
  then show ?case using cq_get_world cd_get_world by (cases q) (auto simp: tq_defs)
next
  case (11 q w vt sb fl t q' w')
  then show ?case using cq_get_handle cd_get_handle by (cases q) (auto simp: tq_defs)
next
  case (12 q w t)
  then show ?case using cq_complete_inv by (cases q) (auto simp: tq_defs)
next
  case (13 q w t)
  then show ?case using cq_complete_contents by (cases q) (auto simp: tq_defs)
next
  case (14 q w t r q')
  show ?case
  proof (cases q)
    case (TQQueue x)
    obtain r1 x1 where "ChunkTasksQueue_removeTask t x = (r1, x1)" by fastforce
    then show ?thesis using 14 TQQueue cq_remove_inv [of x w t] by (auto simp: tq_defs split: option.splits)
  qed (use 14 in \<open>auto simp: tq_defs\<close>)
next
  case (15 q w t r q')
  show ?case
  proof (cases q)
    case (TQQueue x)
    obtain r1 x1 where "ChunkTasksQueue_removeTask t x = (r1, x1)" by fastforce
    then show ?thesis using 15 TQQueue cq_remove_contents [of x w t] by (auto simp: tq_defs split: option.splits)
  qed (use 15 in \<open>auto simp: tq_defs\<close>)
next
  case (16 q w t u q')
  show ?case
  proof (cases q)
    case (TQQueue x)
    obtain r1 x1 where "ChunkTasksQueue_removeTask t x = (r1, x1)" by fastforce
    then show ?thesis using 16 TQQueue cq_remove_ids [of x w t] by (auto simp: tq_defs split: option.splits)
  qed (use 16 in \<open>auto simp: tq_defs\<close>)
next
  case (17 q w)
  then show ?case using cq_size_contents cd_size_contents by (cases q) (auto simp: tq_defs)
next
  case (18 q w)
  then show ?case using cq_empty_contents cd_empty_contents by (cases q) (auto simp: tq_defs)
qed

end
