(* ===== verification/Memory_Accounting.thy ===== *)
theory Memory_Accounting
  imports Memory_Manager
begin

text \<open>
  Correctness of the memory managers of \<open>Memory_Manager\<close>: the accounting invariant \<open>mm_ok\<close> (byte
  counts are sums over the cached files and within the limit, reference counts are the occurrences
  in the file sets, handles are unique), its preservation by every operation, the interpretation
  of the contract \<open>memman_contract\<close> by both managers, and the reachable states.
\<close>

section \<open>The invariant\<close>

text \<open>
  \<open>file_ok\<close>: a cached file has its size on disk, is referenced, and is locked only if mapped and
  mapped only if its memory is reserved. \<open>mm_ok sz ext st\<close>: every cached file is well formed, the
  reserved and locked bytes of each memory are the sums over its files and within its limit, the
  reference count of a file is the number of its occurrences in the file sets behind the handles
  and in \<open>ext\<close> (the files of a set that is being built or destroyed), and the handles given out
  are at most the counter.
\<close>

definition file_ok :: "(string \<Rightarrow> int) \<Rightarrow> string \<Rightarrow> memFile \<Rightarrow> bool" where
  "file_ok sz p f \<longleftrightarrow>
     0 < sz p \<and> miSize (mfInfo f) = nat (sz p) \<and> 0 < mfRefs f \<and> (mfIsLocked f \<longrightarrow> mfIsMapped f) \<and>
     (mfIsMapped f \<longrightarrow> mfIsReserved f \<and> miAddr (mfInfo f) \<noteq> None) \<and> \<not> mfMlocking f"

definition rsv_of :: "nat \<Rightarrow> memFile \<Rightarrow> nat" where
  "rsv_of mid f = (if mfMemory f = mid \<and> mfIsReserved f then miSize (mfInfo f) else 0)"

definition lok_of :: "nat \<Rightarrow> memFile \<Rightarrow> nat" where
  "lok_of mid f = (if mfMemory f = mid \<and> mfIsLocked f then miSize (mfInfo f) else 0)"

definition set_paths :: "memFileSet \<Rightarrow> string multiset" where
  "set_paths fs = mset (fsLockFiles fs) + mset (fsFlexFiles fs)"

definition held_paths :: "mmState \<Rightarrow> string multiset" where
  "held_paths st = omap_sum set_paths (hanCache st)"

definition refs_of :: "mmState \<Rightarrow> string \<Rightarrow> int" where
  "refs_of st p = (case omap_find (fileCache st) p of None \<Rightarrow> 0 | Some f \<Rightarrow> mfRefs f)"

definition memory_ok :: "(string, memFile) omap \<Rightarrow> nat \<Rightarrow> memory \<Rightarrow> bool" where
  "memory_ok c mid m \<longleftrightarrow>
     mRsvBytes m = omap_sum (rsv_of mid) c \<and> mLokBytes m = omap_sum (lok_of mid) c \<and>
     mRsvBytes m \<le> mMaxBytes m \<and> mMaxBytes m < 2 ^ 64"

definition mm_ok :: "(string \<Rightarrow> int) \<Rightarrow> string multiset \<Rightarrow> mmState \<Rightarrow> bool" where
  "mm_ok sz ext st \<longleftrightarrow>
     omap_wf (fileCache st) \<and>
     (\<forall>p f. omap_find (fileCache st) p = Some f \<longrightarrow> file_ok sz p f) \<and>
     (\<forall>mid. memory_ok (fileCache st) mid (memories st mid)) \<and>
     (\<forall>p. refs_of st p = int (count (held_paths st + ext) p)) \<and>
     omap_wf (hanCache st) \<and>
     (\<forall>h. omap_find (hanCache st) h \<noteq> None \<longrightarrow> 1 < h \<and> h \<le> handleNum st) \<and>
     1 \<le> handleNum st \<and> handleNum st < 2 ^ 64"

lemma omap_sum_mono:
  "(\<And>k v. (k, v) \<in> set m \<Longrightarrow> f v \<le> g v) \<Longrightarrow> omap_sum f m \<le> (omap_sum g m :: nat)"
proof (induction m)
  case (Cons p m)
  obtain k v where p: "p = (k, v)" by (cases p)
  have "f v \<le> g v" using Cons.prems [of k v] p by simp
  moreover have "omap_sum f m \<le> omap_sum g m"
    by (rule Cons.IH) (use Cons.prems in auto)
  ultimately show ?case by (simp add: p add_mono)
qed simp

lemma file_lok_le_rsv: "file_ok sz p f \<Longrightarrow> lok_of mid f \<le> rsv_of mid f"
  by (auto simp: file_ok_def lok_of_def rsv_of_def)

lemma cache_lok_le_rsv:
  assumes "omap_wf c" "\<And>p f. omap_find c p = Some f \<Longrightarrow> file_ok sz p f"
  shows "omap_sum (lok_of mid) c \<le> omap_sum (rsv_of mid) c"
  using assms by (intro omap_sum_mono) (blast intro: file_lok_le_rsv dest: omap_in_set_find)

lemma mm_okD:
  assumes "mm_ok sz ext st"
  shows "omap_wf (fileCache st)" "omap_wf (hanCache st)"
    and "omap_find (fileCache st) p = Some f \<Longrightarrow> file_ok sz p f"
    and "memory_ok (fileCache st) mid (memories st mid)"
    and "refs_of st p = int (count (held_paths st) p + count ext p)"
    and "omap_find (hanCache st) h = Some fs \<Longrightarrow> 1 < h \<and> h \<le> handleNum st"
  using assms by (auto simp: mm_ok_def)

text \<open>
  The one preservation argument: an operation replaces the file at one path (whose memory stays
  the same) and moves the bytes of that memory by the same amount.
\<close>

definition moves_bytes :: "memFile \<Rightarrow> memFile \<Rightarrow> memory \<Rightarrow> memory \<Rightarrow> bool" where
  "moves_bytes f f' m m' \<longleftrightarrow>
     mMaxBytes m' = mMaxBytes m \<and> mRsvBytes m' \<le> mMaxBytes m \<and>
     mRsvBytes m' + rsv_of (mfMemory f) f = mRsvBytes m + rsv_of (mfMemory f) f' \<and>
     mLokBytes m' + lok_of (mfMemory f) f = mLokBytes m + lok_of (mfMemory f) f'"

lemma memory_ok_put:
  assumes "omap_wf c" "omap_find c p = Some f" "mfMemory f' = mfMemory f" "memory_ok c mid m"
    and "mid = mfMemory f \<Longrightarrow> moves_bytes f f' m m'"
    and "mid \<noteq> mfMemory f \<Longrightarrow> m' = m"
  shows "memory_ok (omap_set p f' c) mid m'"
proof -
  have r: "omap_sum (rsv_of mid) (omap_set p f' c) + rsv_of mid f = omap_sum (rsv_of mid) c + rsv_of mid f'"
    and l: "omap_sum (lok_of mid) (omap_set p f' c) + lok_of mid f = omap_sum (lok_of mid) c + lok_of mid f'"
    using assms(1,2) by (rule omap_sum_set)+
  show ?thesis
  proof (cases "mid = mfMemory f")
    case True
    with assms(4,5) r l show ?thesis by (auto simp: memory_ok_def moves_bytes_def)
  next
    case False
    then have "rsv_of mid f = 0" "rsv_of mid f' = 0" "lok_of mid f = 0" "lok_of mid f' = 0"
      using assms(3) by (auto simp: rsv_of_def lok_of_def)
    with assms(4,6) r l False show ?thesis by (simp add: memory_ok_def)
  qed
qed

lemma mm_ok_put:
  assumes ok: "mm_ok sz ext st" and f: "omap_find (fileCache st) p = Some f"
    and f': "file_ok sz p f'" "mfMemory f' = mfMemory f"
    and st': "fileCache st' = omap_set p f' (fileCache st)" "hanCache st' = hanCache st"
      "handleNum st' = handleNum st"
    and mem: "moves_bytes f f' (memories st (mfMemory f)) (memories st' (mfMemory f))"
      "\<And>mid. mid \<noteq> mfMemory f \<Longrightarrow> memories st' mid = memories st mid"
    and refs: "mfRefs f' + int (count ext p) = mfRefs f + int (count ext' p)"
      "\<And>q. q \<noteq> p \<Longrightarrow> count ext' q = count ext q"
  shows "mm_ok sz ext' st'"
proof -
  have "memory_ok (fileCache st') mid (memories st' mid)" for mid
    unfolding st'(1) by (rule memory_ok_put [OF mm_okD(1) [OF ok] f f'(2) mm_okD(4) [OF ok]]) (use mem in auto)
  moreover have "refs_of st' q = int (count (held_paths st' + ext') q)" for q
    using mm_okD(5) [OF ok, of q] refs f st'(1,2)
    by (cases "q = p") (auto simp: refs_of_def held_paths_def)
  ultimately show ?thesis
    using ok f'(1) st' by (auto simp: mm_ok_def)
qed

lemma moves_nothing:
  "mfMemory f' = mfMemory f \<Longrightarrow> mfInfo f' = mfInfo f \<Longrightarrow> mfIsReserved f' = mfIsReserved f \<Longrightarrow>
   mfIsLocked f' = mfIsLocked f \<Longrightarrow> mRsvBytes m \<le> mMaxBytes m \<Longrightarrow>
   mMaxBytes m' = mMaxBytes m \<Longrightarrow> mRsvBytes m' = mRsvBytes m \<Longrightarrow> mLokBytes m' = mLokBytes m \<Longrightarrow>
   moves_bytes f f' m m'"
  by (simp add: moves_bytes_def rsv_of_def lok_of_def)

text \<open>Locking: the file is reserved but not yet locked, so the sum stays below the limit.\<close>

lemma lock_fits:
  assumes ok: "mm_ok sz ext st" and f: "omap_find (fileCache st) p = Some f"
    and "mfIsMapped f" "\<not> mfIsLocked f"
  shows "mLokBytes (memories st (mfMemory f)) + miSize (mfInfo f) < 2 ^ 64"
proof -
  let ?c = "fileCache st" and ?mid = "mfMemory f" and ?f' = "f\<lparr>mfIsLocked := True\<rparr>"
  have fo: "file_ok sz p f" "file_ok sz p ?f'"
    using mm_okD(3) [OF ok f] assms(3) by (auto simp: file_ok_def)
  have "omap_sum (lok_of ?mid) (omap_set p ?f' ?c) \<le> omap_sum (rsv_of ?mid) (omap_set p ?f' ?c)"
    by (rule cache_lok_le_rsv [of _ sz]) (use mm_okD(1,3) [OF ok] fo in \<open>auto split: if_splits\<close>)
  moreover have "omap_sum (lok_of ?mid) (omap_set p ?f' ?c) = omap_sum (lok_of ?mid) ?c + miSize (mfInfo f)"
    using omap_sum_set [OF mm_okD(1) [OF ok] f, of "lok_of ?mid" ?f'] assms(4)
    by (simp add: lok_of_def)
  moreover have "omap_sum (rsv_of ?mid) (omap_set p ?f' ?c) = omap_sum (rsv_of ?mid) ?c"
    using omap_sum_set [OF mm_okD(1) [OF ok] f, of "rsv_of ?mid" ?f'] by (simp add: rsv_of_def split: if_splits)
  ultimately show ?thesis
    using mm_okD(4) [OF ok, of ?mid] by (simp add: memory_ok_def)
qed

lemma memLock_ok:
  assumes ok: "mm_ok sz ext st" and os: "os_documented os sz"
    and r: "MemFile_memLock os p st = ((b, rc), st')"
  shows "mm_ok sz ext st'" "hanCache st' = hanCache st" "handleNum st' = handleNum st"
proof -
  have "mm_ok sz ext st' \<and> hanCache st' = hanCache st \<and> handleNum st' = handleNum st"
  proof (cases "omap_find (fileCache st) p")
    case None
    with r ok show ?thesis by (simp add: MemFile_memLock_def)
  next
    case (Some f)
    note fo = mm_okD(3) [OF ok Some] and mo = mm_okD(4) [OF ok, of "mfMemory f"]
    consider (locked) "mfIsLocked f" | (unmapped) "\<not> mfIsLocked f" "\<not> mfIsMapped f"
      | (mapped) "\<not> mfIsLocked f" "mfIsMapped f" by blast
    then show ?thesis
    proof cases
      case locked
      with r ok Some show ?thesis by (simp add: MemFile_memLock_def)
    next
      case unmapped
      with r Some have "st' = put_file p (f\<lparr>mfMlocking := False\<rparr>) st"
        by (auto simp: MemFile_memLock_def)
      moreover have "mm_ok sz ext st'"
        by (rule mm_ok_put [OF ok Some, where f' = "f\<lparr>mfMlocking := False\<rparr>"])
          (use fo mo calculation in \<open>auto simp: file_ok_def memory_ok_def intro!: moves_nothing\<close>)
      ultimately show ?thesis by simp
    next
      case mapped
      have v: "MemInfo_isValid (mfInfo f)" using fo by (auto simp: file_ok_def MemInfo_isValid_def)
      show ?thesis
      proof (cases "osMlock os (sysCalls st) (miAddr (mfInfo f)) (miSize (mfInfo f))")
        case None
        with r Some mapped v have st': "st' = put_file p (f\<lparr>mfMlocking := False, mfIsLocked := True\<rparr>)
            (upd_memory (mfMemory f) (\<lambda>m. m\<lparr>mLokBytes := u64_add (mLokBytes m) (miSize (mfInfo f)),
                mFlexNum := (if mfIsFlex f then mFlexNum m + 1 else mFlexNum m)\<rparr>) (tick st))"
          by (auto simp: MemFile_memLock_def Memory_memLock_def)
        have "mm_ok sz ext st'"
          by (rule mm_ok_put [OF ok Some, where f' = "f\<lparr>mfMlocking := False, mfIsLocked := True\<rparr>"])
            (use fo mo mapped lock_fits [OF ok Some] st' in
              \<open>auto simp: file_ok_def memory_ok_def moves_bytes_def rsv_of_def lok_of_def u64_add_exact\<close>)
        then show ?thesis by (simp add: st')
      next
        case (Some e)
        with os have "e \<noteq> 0" by (auto simp: os_documented_def)
        with r \<open>omap_find (fileCache st) p = Some f\<close> mapped v Some
        have st': "st' = put_file p (f\<lparr>mfMlocking := False\<rparr>)
            (upd_memory (mfMemory f) (\<lambda>m. m\<lparr>mNumLokErrs := mNumLokErrs m + 1\<rparr>) (tick st))"
          by (auto simp: MemFile_memLock_def Memory_memLock_def split: if_splits)
        have "mm_ok sz ext st'"
          by (rule mm_ok_put [OF ok \<open>omap_find (fileCache st) p = Some f\<close>,
              where f' = "f\<lparr>mfMlocking := False\<rparr>"])
            (use fo mo mapped st' in \<open>auto simp: file_ok_def memory_ok_def intro!: moves_nothing\<close>)
        then show ?thesis by (simp add: st')
      qed
    qed
  qed
  then show "mm_ok sz ext st'" "hanCache st' = hanCache st" "handleNum st' = handleNum st" by auto
qed

text \<open>Mapping a file touches no byte count; a valid mapping has the file's size.\<close>

lemma mapFile_frame:
  assumes "Memory_mapFile os mid p st = (i, st')" "os_documented os sz"
  shows "fileCache st' = fileCache st" "hanCache st' = hanCache st" "handleNum st' = handleNum st"
    and "mMaxBytes (memories st' k) = mMaxBytes (memories st k)"
    and "mRsvBytes (memories st' k) = mRsvBytes (memories st k)"
    and "mLokBytes (memories st' k) = mLokBytes (memories st k)"
    and "k \<noteq> mid \<Longrightarrow> memories st' k = memories st k"
    and "MemInfo_isValid i \<Longrightarrow> 0 < sz p \<and> miSize i = nat (sz p) \<and> miAddr i \<noteq> None"
  using assms
  by (auto simp: Memory_mapFile_def Let_def MemInfo_isValid_def MemInfo_new_def MemInfo_setErrCode_def
      os_documented_def split: option.splits sum.splits if_splits)

lemma reserve_map:
  assumes ok: "mm_ok sz ext st" and f: "omap_find (fileCache st) p = Some f" and os: "os_documented os sz"
    and room: "\<not> mfIsReserved f \<Longrightarrow> miSize (mfInfo f) \<le> Memory_bytesFree (memories st (mfMemory f))"
    and m: "Memory_mapFile os (mfMemory f) p
        (if mfIsReserved f then st
         else upd_memory (mfMemory f) (Memory_memReserve (miSize (mfInfo f))) st) = (i, st2)"
  shows "fileCache st2 = fileCache st" "hanCache st2 = hanCache st" "handleNum st2 = handleNum st"
    "mMaxBytes (memories st2 (mfMemory f)) = mMaxBytes (memories st (mfMemory f))"
    "mLokBytes (memories st2 (mfMemory f)) = mLokBytes (memories st (mfMemory f))"
    "mRsvBytes (memories st2 (mfMemory f))
       = mRsvBytes (memories st (mfMemory f)) + (if mfIsReserved f then 0 else miSize (mfInfo f))"
    "mRsvBytes (memories st2 (mfMemory f)) \<le> mMaxBytes (memories st (mfMemory f))"
    "k \<noteq> mfMemory f \<Longrightarrow> memories st2 k = memories st k"
proof -
  note fr = mapFile_frame [OF m os] and fo = mm_okD(3) [OF ok f]
    and mo = mm_okD(4) [OF ok, of "mfMemory f"]
  have fits: "mRsvBytes (memories st (mfMemory f)) + miSize (mfInfo f) \<le> mMaxBytes (memories st (mfMemory f))"
    if "\<not> mfIsReserved f"
    using room [OF that] fo mo by (auto simp: Memory_bytesFree_def memory_ok_def file_ok_def split: if_splits)
  show rsv: "mRsvBytes (memories st2 (mfMemory f))
      = mRsvBytes (memories st (mfMemory f)) + (if mfIsReserved f then 0 else miSize (mfInfo f))"
    using fr(5) [of "mfMemory f"] fits mo
    by (auto simp: Memory_memReserve_def u64_add_exact memory_ok_def)
  then show "mRsvBytes (memories st2 (mfMemory f)) \<le> mMaxBytes (memories st (mfMemory f))"
    using fits mo by (auto simp: memory_ok_def)
qed (use mapFile_frame [OF m os] in \<open>auto simp: Memory_memReserve_def split: if_splits\<close>)

lemma memMap_ok:
  assumes ok: "mm_ok sz ext st" and os: "os_documented os sz" and r: "MemFile_memMap os p st = (rc, st')"
  shows "mm_ok sz ext st'" "hanCache st' = hanCache st" "handleNum st' = handleNum st"
proof -
  have "mm_ok sz ext st' \<and> hanCache st' = hanCache st \<and> handleNum st' = handleNum st"
  proof (cases "omap_find (fileCache st) p")
    case None
    with r ok show ?thesis by (simp add: MemFile_memMap_def)
  next
    case (Some f)
    let ?k = "mfMemory f"
    note fo = mm_okD(3) [OF ok Some] and mo = mm_okD(4) [OF ok, of ?k]
    let ?full = "\<not> mfIsReserved f \<and> Memory_bytesFree (memories st ?k) < miSize (mfInfo f)"
    show ?thesis
    proof (cases "mfIsMapped f \<or> ?full")
      case True
      with r ok Some fo show ?thesis
        by (auto simp: MemFile_memMap_def file_ok_def split: if_splits)
    next
      case False
      obtain i st2 where m: "Memory_mapFile os ?k p (if mfIsReserved f then st
          else upd_memory ?k (Memory_memReserve (miSize (mfInfo f))) st) = (i, st2)" by fastforce
      have room: "\<not> mfIsReserved f \<Longrightarrow> miSize (mfInfo f) \<le> Memory_bytesFree (memories st ?k)"
        using False by auto
      note rm = reserve_map [OF ok Some os room m] and valid = mapFile_frame(8) [OF m os]
      let ?flex = "mfIsFlex f \<and> MemInfo_errCode i = ENOMEM"
      let ?f' = "if MemInfo_isValid i then f\<lparr>mfIsReserved := True, mfInfo := i, mfIsMapped := True\<rparr>
                 else if ?flex then f\<lparr>mfIsReserved := True\<rparr> else f\<lparr>mfIsReserved := False\<rparr>"
      let ?st3 = "if MemInfo_isValid i \<or> ?flex then st2
                  else upd_memory ?k (Memory_memRestore (miSize (mfInfo f))) st2"
      have st': "st' = put_file p ?f' ?st3"
        using r Some False fo m by (auto simp: MemFile_memMap_def file_ok_def Let_def split: if_splits)
      have own: "miSize (mfInfo f) \<le> mRsvBytes (memories st ?k)" if "mfIsReserved f"
        using that mo omap_sum_erase [OF mm_okD(1) [OF ok] Some, of "rsv_of ?k"]
        by (simp add: memory_ok_def rsv_of_def)
      have "mm_ok sz ext st'"
        by (rule mm_ok_put [OF ok Some, where f' = ?f'])
          (use fo mo rm valid st' own False in
            \<open>auto simp: file_ok_def memory_ok_def moves_bytes_def rsv_of_def lok_of_def
               Memory_memRestore_def split: if_splits\<close>)
      then show ?thesis by (simp add: st' rm)
    qed
  qed
  then show "mm_ok sz ext st'" "hanCache st' = hanCache st" "handleNum st' = handleNum st" by auto
qed

lemma fileInfo_valid:
  "Memory_fileInfo os p st = (i, st') \<Longrightarrow> os_documented os sz \<Longrightarrow>
   st' = tick st \<and> (MemInfo_isValid i \<longrightarrow> 0 < sz p \<and> miSize i = nat (sz p) \<and> miAddr i = None)
   \<and> (\<not> MemInfo_isValid i \<longrightarrow> MemInfo_errCode i \<noteq> 0)"
  by (auto simp: Memory_fileInfo_def MemInfo_isValid_def MemInfo_errCode_def MemInfo_new_def
      os_documented_def split: sum.splits if_splits)

lemma mm_ok_tick: "mm_ok sz ext (tick st) = mm_ok sz ext st"
  by (simp add: mm_ok_def refs_of_def held_paths_def)

lemma mm_ok_counters: "mm_ok sz ext (upd_counters mid g st) = mm_ok sz ext st"
  by (simp add: mm_ok_def refs_of_def held_paths_def)

text \<open>Obtaining a file adds one reference, held by the set under construction.\<close>

lemma obtain_ok:
  assumes ok: "mm_ok sz ext st" and os: "os_documented os sz"
    and r: "MemFile_obtain os p mid fl st = (res, st')"
  shows "mm_ok sz (case res of Inl e \<Rightarrow> ext | Inr q \<Rightarrow> add_mset q ext) st'"
    and "hanCache st' = hanCache st" "handleNum st' = handleNum st"
    and "res = Inr q \<Longrightarrow> q = p" "res = Inl e \<Longrightarrow> e \<noteq> 0"
proof -
  have main: "mm_ok sz (case res of Inl e \<Rightarrow> ext | Inr q \<Rightarrow> add_mset q ext) st'
      \<and> hanCache st' = hanCache st \<and> handleNum st' = handleNum st"
  proof (cases "omap_find (fileCache st) p")
    case (Some f)
    show ?thesis
    proof (cases "mfMemory f = mid")
      case True
      with r Some have res: "res = Inr p" and st': "st' = put_file p (f\<lparr>mfRefs := mfRefs f + 1\<rparr>) st"
        by (auto simp: MemFile_obtain_def)
      have "mm_ok sz (add_mset p ext) st'"
        by (rule mm_ok_put [OF ok Some, where f' = "f\<lparr>mfRefs := mfRefs f + 1\<rparr>"])
          (use mm_okD(3) [OF ok Some] mm_okD(4) [OF ok, of "mfMemory f"] st' in
            \<open>auto simp: file_ok_def memory_ok_def intro!: moves_nothing\<close>)
      then show ?thesis by (simp add: res st')
    next
      case False
      with r Some ok show ?thesis by (auto simp: MemFile_obtain_def)
    qed
  next
    case None
    obtain i st1 where fi: "Memory_fileInfo os p st = (i, st1)" by fastforce
    note v = fileInfo_valid [OF fi os]
    show ?thesis
    proof (cases "MemInfo_isValid i")
      case False
      with r None fi v ok show ?thesis by (auto simp: MemFile_obtain_def mm_ok_tick)
    next
      case True
      let ?f = "MemFile_new mid i fl"
      have res: "res = Inr p" and st': "st' = put_file p ?f (tick st)"
        using r None fi v True by (auto simp: MemFile_obtain_def)
      have "memory_ok (fileCache st') k (memories st' k)" for k
        using mm_okD(4) [OF ok, of k]
        by (simp add: st' memory_ok_def omap_sum_set_new [OF None] rsv_of_def lok_of_def MemFile_new_def)
      moreover have "refs_of st' q = int (count (held_paths st' + add_mset p ext) q)" for q
        using mm_okD(5) [OF ok, of q] None
        by (auto simp: refs_of_def held_paths_def st' MemFile_new_def)
      moreover have "file_ok sz p ?f" using v True by (simp add: file_ok_def MemFile_new_def)
      ultimately have "mm_ok sz (add_mset p ext) st'"
        using ok by (auto simp: mm_ok_def st')
      then show ?thesis by (simp add: res st')
    qed
  qed
  then show "mm_ok sz (case res of Inl e \<Rightarrow> ext | Inr q \<Rightarrow> add_mset q ext) st'"
    and "hanCache st' = hanCache st" "handleNum st' = handleNum st" by auto
  show "res = Inr q \<Longrightarrow> q = p" "res = Inl e \<Longrightarrow> e \<noteq> 0"
    using r by (auto simp: MemFile_obtain_def split: option.splits if_splits prod.splits
      dest: fileInfo_valid [OF _ os])
qed

text \<open>Releasing one of the set's files; the last release gives its bytes back.\<close>

lemma release_ok:
  assumes ok: "mm_ok sz (add_mset p ext) st"
  shows "mm_ok sz ext (MemFile_release p st)" "hanCache (MemFile_release p st) = hanCache st"
    "handleNum (MemFile_release p st) = handleNum st"
proof -
  have "0 < refs_of st p" using mm_okD(5) [OF ok, of p] by simp
  then obtain f where f: "omap_find (fileCache st) p = Some f"
    by (auto simp: refs_of_def split: option.splits)
  note fo = mm_okD(3) [OF ok f]
  let ?k = "mfMemory f"
  have "mm_ok sz ext (MemFile_release p st) \<and> hanCache (MemFile_release p st) = hanCache st
    \<and> handleNum (MemFile_release p st) = handleNum st"
  proof (cases "0 < mfRefs f - 1")
    case True
    then have st': "MemFile_release p st = put_file p (f\<lparr>mfRefs := mfRefs f - 1\<rparr>) st"
      using f by (simp add: MemFile_release_def)
    have "mm_ok sz ext (MemFile_release p st)"
      by (rule mm_ok_put [OF ok f, where f' = "f\<lparr>mfRefs := mfRefs f - 1\<rparr>"])
        (use fo mm_okD(4) [OF ok, of ?k] st' True in
          \<open>auto simp: file_ok_def memory_ok_def intro!: moves_nothing\<close>)
    then show ?thesis by (simp add: st')
  next
    case False
    then have last: "mfRefs f = 1" using fo by (simp add: file_ok_def)
    let ?c = "omap_erase p (fileCache st)" and ?st' = "MemFile_release p st"
    have cache: "fileCache ?st' = ?c" "hanCache ?st' = hanCache st" "handleNum ?st' = handleNum st"
      "\<And>k. k \<noteq> ?k \<Longrightarrow> memories ?st' k = memories st k"
      "mMaxBytes (memories ?st' ?k) = mMaxBytes (memories st ?k)"
      using f False by (auto simp: MemFile_release_def Let_def Memory_memRel_def Memory_memRestore_def)
    have bytes: "mRsvBytes (memories ?st' ?k) = mRsvBytes (memories st ?k) - rsv_of ?k f"
      "mLokBytes (memories ?st' ?k) = mLokBytes (memories st ?k) - lok_of ?k f"
      using f False fo
      by (auto simp: MemFile_release_def Let_def Memory_memRel_def Memory_memRestore_def
          rsv_of_def lok_of_def file_ok_def)
    have sums: "omap_sum (rsv_of k) ?c + rsv_of k f = omap_sum (rsv_of k) (fileCache st)"
      "omap_sum (lok_of k) ?c + lok_of k f = omap_sum (lok_of k) (fileCache st)" for k
      using mm_okD(1) [OF ok] f by (rule omap_sum_erase)+
    have "memory_ok ?c k (memories ?st' k)" for k
      using mm_okD(4) [OF ok, of k] sums [of k] cache(4) [of k] bytes cache(5)
      by (cases "k = ?k") (auto simp: memory_ok_def rsv_of_def lok_of_def)
    moreover have "refs_of ?st' q = int (count (held_paths ?st' + ext) q)" for q
      using mm_okD(5) [OF ok, of q] f last
      by (auto simp: refs_of_def held_paths_def cache)
    ultimately have "mm_ok sz ext ?st'"
      using ok by (auto simp: mm_ok_def cache split: if_splits)
    then show ?thesis by (simp add: cache)
  qed
  then show "mm_ok sz ext (MemFile_release p st)" "hanCache (MemFile_release p st) = hanCache st"
    "handleNum (MemFile_release p st) = handleNum st" by auto
qed

section \<open>File sets\<close>

lemma release_all_ok:
  "mm_ok sz (mset ps + ext) st \<Longrightarrow>
   mm_ok sz ext (release_all ps st) \<and> hanCache (release_all ps st) = hanCache st
   \<and> handleNum (release_all ps st) = handleNum st"
  by (induction ps arbitrary: st) (auto simp: release_ok)

lemma destroy_ok:
  assumes "mm_ok sz (set_paths fs + ext) st"
  shows "mm_ok sz ext (MemFileSet_destroy fs st)"
    "hanCache (MemFileSet_destroy fs st) = hanCache st"
    "handleNum (MemFileSet_destroy fs st) = handleNum st"
  using release_all_ok [of sz "fsLockFiles fs" "mset (fsFlexFiles fs) + ext" st]
    release_all_ok [of sz "fsFlexFiles fs" ext "release_all (fsLockFiles fs) st"] assms
  by (auto simp: MemFileSet_destroy_def set_paths_def ac_simps)

lemma add_ok:
  assumes ok: "mm_ok sz (set_paths fs) st" and os: "os_documented os sz"
    and r: "MemFileSet_add os t c i mu fs st = (rc, fs', st')"
  shows "mm_ok sz (set_paths fs') st' \<and> hanCache st' = hanCache st \<and> handleNum st' = handleNum st
    \<and> fsMemory fs' = fsMemory fs"
proof -
  let ?p = "Memory_filePath (memories st (fsMemory fs)) t c i"
  obtain res st1 where o: "MemFile_obtain os ?p (fsMemory fs) (\<not> mu) st = (res, st1)" by fastforce
  note oo = obtain_ok [OF ok os o]
  show ?thesis
    using r o oo by (cases res) (auto simp: MemFileSet_add_def Let_def set_paths_def)
qed

lemma add_if_ok:
  assumes "mm_ok sz (set_paths fs) st" "os_documented os sz"
    "add_if os t c i l fs st = (rc, fs', st')"
  shows "mm_ok sz (set_paths fs') st' \<and> hanCache st' = hanCache st \<and> handleNum st' = handleNum st
    \<and> fsMemory fs' = fsMemory fs"
  using assms add_ok [OF assms(1,2)] by (auto simp: add_if_def Let_def split: if_splits)

lemma add_tables_ok:
  "add_tables os c ts fs st = (rc, fs', st') \<Longrightarrow> mm_ok sz (set_paths fs) st \<Longrightarrow> os_documented os sz \<Longrightarrow>
   mm_ok sz (set_paths fs') st' \<and> hanCache st' = hanCache st \<and> handleNum st' = handleNum st
   \<and> fsMemory fs' = fsMemory fs"
proof (induction os c ts fs st rule: add_tables.induct)
  case (1 os ch fs st)
  then show ?case by simp
next
  case (2 os ch tab tabs fs st)
  obtain r1 fs1 st1 where a: "add_if os (tableName tab) ch False (theData tab) fs st = (r1, fs1, st1)"
    by (metis prod.collapse)
  obtain r2 fs2 st2 where b: "add_if os (tableName tab) ch True (theIndex tab) fs1 st1 = (r2, fs2, st2)"
    by (metis prod.collapse)
  note a' = add_if_ok [OF 2(3,4) a]
  note b' = add_if_ok [OF conjunct1 [OF a'] 2(4) b]
  consider "r1 \<noteq> 0" | "r1 = 0" "r2 \<noteq> 0" | "r1 = 0" "r2 = 0" by blast
  then show ?case
  proof cases
    case 1
    then show ?thesis using 2(2) a a' by simp
  next
    case c: 2
    then show ?thesis using 2(2) a b a' b' by simp
  next
    case c: 3
    then have rec: "add_tables os ch tabs fs2 st2 = (rc, fs', st')" using 2(2) a b by simp
    have "mm_ok sz (set_paths fs') st' \<and> hanCache st' = hanCache st2 \<and> handleNum st' = handleNum st2
        \<and> fsMemory fs' = fsMemory fs2"
      by (rule 2(1) [OF a [symmetric] refl _ b [symmetric] refl _ rec])
        (use c b' 2(4) in auto)
    then show ?thesis using a' b' by simp
  qed
qed

lemma lock_required_ok:
  "lock_required os strict ps tot st = (rc, tot', st') \<Longrightarrow> mm_ok sz ext st \<Longrightarrow> os_documented os sz \<Longrightarrow>
   mm_ok sz ext st' \<and> hanCache st' = hanCache st \<and> handleNum st' = handleNum st"
proof (induction ps arbitrary: tot st)
  case (Cons p ps)
  obtain b r st1 where l: "MemFile_memLock os p st = ((b, r), st1)" by (metis prod.collapse)
  note lo = memLock_ok [OF Cons.prems(2,3) l]
  show ?case
    using Cons.prems(1) l lo Cons.IH [OF _ lo(1) Cons.prems(3)] by (auto simp: Let_def split: if_splits)
qed simp

lemma lock_flexible_ok:
  "lock_flexible os ps tot st = (tot', st') \<Longrightarrow> mm_ok sz ext st \<Longrightarrow> os_documented os sz \<Longrightarrow>
   mm_ok sz ext st' \<and> hanCache st' = hanCache st \<and> handleNum st' = handleNum st"
proof (induction ps arbitrary: tot st)
  case (Cons p ps)
  obtain b r st1 where l: "MemFile_memLock os p st = ((b, r), st1)" by (metis prod.collapse)
  note lo = memLock_ok [OF Cons.prems(2,3) l]
  show ?case
    using Cons.prems(1) l lo Cons.IH [OF _ lo(1) Cons.prems(3)] by auto
qed simp

lemma lock_required_lax: "lock_required os False ps tot st = (rc, tot', st') \<Longrightarrow> rc = 0"
  by (induction ps arbitrary: tot st) (auto simp: Let_def split: prod.splits)

lemma lockAll_lax: "MemFileSet_lockAll os False fs st = (rc, fs', st') \<Longrightarrow> rc = 0"
  using lock_required_lax
  by (auto simp: MemFileSet_lockAll_def split: prod.splits if_splits)

lemma lockAll_ok:
  assumes "MemFileSet_lockAll os strict fs st = (rc, fs', st')" "mm_ok sz ext st" "os_documented os sz"
  shows "mm_ok sz ext st' \<and> hanCache st' = hanCache st \<and> handleNum st' = handleNum st
    \<and> set_paths fs' = set_paths fs \<and> fsMemory fs' = fsMemory fs"
proof -
  obtain r t st1 where l: "lock_required os strict (fsLockFiles fs) 0 st = (r, t, st1)"
    by (metis prod.collapse)
  obtain t2 st2 where f: "lock_flexible os (fsFlexFiles fs) t st1 = (t2, st2)" by fastforce
  note lo = lock_required_ok [OF l assms(2,3)]
  note fo = lock_flexible_ok [OF f conjunct1 [OF lo] assms(3)]
  show ?thesis
    using assms(1) l f lo fo by (auto simp: MemFileSet_lockAll_def set_paths_def split: if_splits)
qed

lemma map_required_ok:
  "map_required os ps st = (rc, st') \<Longrightarrow> mm_ok sz ext st \<Longrightarrow> os_documented os sz \<Longrightarrow>
   mm_ok sz ext st' \<and> hanCache st' = hanCache st \<and> handleNum st' = handleNum st"
proof (induction ps arbitrary: st)
  case (Cons p ps)
  obtain r st1 where l: "MemFile_memMap os p st = (r, st1)" by fastforce
  note lo = memMap_ok [OF Cons.prems(2,3) l]
  show ?case
    using Cons.prems(1) l lo Cons.IH [OF _ lo(1) Cons.prems(3)] by (auto split: if_splits)
qed simp

lemma mapAll_ok:
  assumes "MemFileSet_mapAll os fs st = (rc, st')" "mm_ok sz ext st" "os_documented os sz"
  shows "mm_ok sz ext st' \<and> hanCache st' = hanCache st \<and> handleNum st' = handleNum st"
proof -
  obtain r st1 where l: "map_required os (fsLockFiles fs) st = (r, st1)" by fastforce
  obtain r2 st2 where f: "map_required os (fsFlexFiles fs) st1 = (r2, st2)" by fastforce
  note lo = map_required_ok [OF l assms(2,3)]
  note fo = map_required_ok [OF f conjunct1 [OF lo] assms(3)]
  show ?thesis
    using assms(1) l f lo fo by (auto simp: MemFileSet_mapAll_def split: if_splits)
qed

section \<open>Handles\<close>

text \<open>Moving a file set behind a handle, and out again, keeps the reference counts.\<close>

lemma mm_ok_insert_handle:
  assumes ok: "mm_ok sz (set_paths fs + ext) st" and new: "omap_find (hanCache st) h = None"
    and h: "h = handleNum st + 1" "h < 2 ^ 64"
  shows "mm_ok sz ext (st\<lparr>handleNum := h, hanCache := omap_set h fs (hanCache st)\<rparr>)"
proof -
  let ?st = "st\<lparr>handleNum := h, hanCache := omap_set h fs (hanCache st)\<rparr>"
  have "held_paths ?st = set_paths fs + held_paths st"
    by (simp add: held_paths_def omap_sum_set_new [OF new])
  then show ?thesis using ok h by (fastforce simp: mm_ok_def refs_of_def)
qed

lemma mm_ok_erase_handle:
  assumes ok: "mm_ok sz ext st" and f: "omap_find (hanCache st) h = Some fs"
  shows "mm_ok sz (set_paths fs + ext) (st\<lparr>hanCache := omap_erase h (hanCache st)\<rparr>)"
proof -
  let ?st = "st\<lparr>hanCache := omap_erase h (hanCache st)\<rparr>"
  have "held_paths ?st + set_paths fs = held_paths st"
    by (simp add: held_paths_def omap_sum_erase [OF mm_okD(2) [OF ok] f])
  then have "count (held_paths st) p = count (held_paths ?st) p + count (set_paths fs) p" for p
    by (metis count_union)
  then show ?thesis using ok by (auto simp: mm_ok_def refs_of_def)
qed

lemma mm_ok_replace_set:
  assumes ok: "mm_ok sz ext st" and f: "omap_find (hanCache st) h = Some fs"
    and eq: "set_paths fs' = set_paths fs"
  shows "mm_ok sz ext (st\<lparr>hanCache := omap_set h fs' (hanCache st)\<rparr>)"
proof -
  let ?st = "st\<lparr>hanCache := omap_set h fs' (hanCache st)\<rparr>"
  have "held_paths ?st = held_paths st"
    using omap_sum_set [OF mm_okD(2) [OF ok] f, of set_paths fs'] eq by (simp add: held_paths_def)
  then show ?thesis using ok f by (auto simp: mm_ok_def refs_of_def)
qed

abbreviation mm_inv :: "(string \<Rightarrow> int) \<Rightarrow> mmState \<Rightarrow> bool" where
  "mm_inv sz st \<equiv> mm_ok sz {#} st"

definition mm_held :: "nat \<Rightarrow> mmState \<Rightarrow> handle set" where
  "mm_held mid st = {h. \<exists>fs. omap_find (hanCache st) h = Some fs \<and> fsMemory fs = mid}"

definition mm_issued :: "mmState \<Rightarrow> handle set" where
  "mm_issued st = {h. H_ISEMPTY < h \<and> h \<le> handleNum st}"

definition mm_budget :: "mmState \<Rightarrow> nat" where
  "mm_budget st = (2 ^ 64 - 1) - handleNum st"

text \<open>
  \<open>prepare\<close>: on every branch the invariant is kept; a failure leaves the handles as they were, a
  success grants one new handle to this manager.
\<close>

lemma prepare_step:
  assumes ok: "mm_inv sz st" and os: "os_documented os sz" and room: "0 < mm_budget st"
    and r: "MemManReal_prepare os mid ts c st = ((h, e), st')"
  shows "mm_inv sz st'"
    and "h = H_INVALID \<or> h = H_ISEMPTY \<Longrightarrow> hanCache st' = hanCache st \<and> handleNum st' = handleNum st"
    and "h \<noteq> H_INVALID \<Longrightarrow> h \<noteq> H_ISEMPTY \<Longrightarrow>
      h = handleNum st + 1 \<and> handleNum st' = h \<and>
      (\<exists>fs. hanCache st' = omap_set h fs (hanCache st) \<and> fsMemory fs = mid)"
proof -
  have fresh: "u64_add (handleNum st) 1 = handleNum st + 1" "handleNum st + 1 < 2 ^ 64"
    using room by (auto simp: mm_budget_def u64_add_def)
  have new: "omap_find (hanCache st) (handleNum st + 1) = None"
    using ok by (force simp: mm_ok_def)
  have start: "mm_ok sz (set_paths (MemFileSet_new mid c)) st"
    using ok by (simp add: set_paths_def MemFileSet_new_def)
  obtain r1 fs st1 where a: "add_tables os c ts (MemFileSet_new mid c) st = (r1, fs, st1)"
    by (metis prod.collapse)
  note ao = add_tables_ok [OF a start os]
  obtain r2 st2 where m: "(if r1 = 0 then MemFileSet_mapAll os fs st1 else (r1, st1)) = (r2, st2)"
    by fastforce
  have mo: "mm_ok sz (set_paths fs + {#}) st2 \<and> hanCache st2 = hanCache st \<and> handleNum st2 = handleNum st"
    using ao m mapAll_ok [OF _ _ os] by (auto split: if_splits)
  let ?empty = "count_lock REQUIRED ts = 0 \<and> count_lock FLEXIBLE ts = 0"
  let ?err = "upd_counters mid (\<lambda>c. c\<lparr>mcNumErrors := mcNumErrors c + 1\<rparr>) st2"
  have err: "mm_ok sz (set_paths fs + {#}) ?err" using mo mm_ok_counters by blast
  show "mm_inv sz st'"
    using r a m ok mo destroy_ok [OF err] new fresh ao
      mm_ok_insert_handle [OF mm_ok_counters [THEN iffD2, OF conjunct1 [OF mo]]]
    by (auto simp: MemManReal_prepare_def Let_def split: if_splits)
  have one: "handleNum st + 1 \<noteq> H_INVALID" "handleNum st + 1 \<noteq> H_ISEMPTY"
    using ok by (auto simp: mm_ok_def H_INVALID_def H_ISEMPTY_def)
  show "h = H_INVALID \<or> h = H_ISEMPTY \<Longrightarrow> hanCache st' = hanCache st \<and> handleNum st' = handleNum st"
    using r a m mo destroy_ok [OF err] fresh one
    by (auto simp: MemManReal_prepare_def Let_def split: if_splits)
  show "h \<noteq> H_INVALID \<Longrightarrow> h \<noteq> H_ISEMPTY \<Longrightarrow>
      h = handleNum st + 1 \<and> handleNum st' = h \<and>
      (\<exists>fs. hanCache st' = omap_set h fs (hanCache st) \<and> fsMemory fs = mid)"
    using r a m mo fresh new ao
    by (auto simp: MemManReal_prepare_def Let_def MemFileSet_new_def split: if_splits)
qed

lemma unlock_step:
  assumes ok: "mm_inv sz st" and r: "MemManReal_unlock mid h st = (b, st')"
  shows "mm_inv sz st'" "handleNum st' = handleNum st"
    "hanCache st' = (if h \<in> mm_held mid st then omap_erase h (hanCache st) else hanCache st)"
    "b \<longleftrightarrow> h = H_ISEMPTY \<or> h \<in> mm_held mid st"
proof -
  have valid: "h \<in> mm_held mid st \<Longrightarrow> h \<noteq> H_ISEMPTY \<and> h \<noteq> H_INVALID"
    using ok by (auto simp: mm_ok_def mm_held_def H_INVALID_def H_ISEMPTY_def)
  show "mm_inv sz st'" "handleNum st' = handleNum st"
    "hanCache st' = (if h \<in> mm_held mid st then omap_erase h (hanCache st) else hanCache st)"
    "b \<longleftrightarrow> h = H_ISEMPTY \<or> h \<in> mm_held mid st"
    using r ok valid destroy_ok [OF mm_ok_erase_handle [OF ok]]
    by (auto simp: MemManReal_unlock_def mm_held_def split: if_splits option.splits)
qed

lemma lock_step:
  assumes ok: "mm_inv sz st" and os: "os_documented os sz"
    and r: "MemManReal_lock os mid h strict st = (rc, st')"
  shows "mm_inv sz st'" "handleNum st' = handleNum st"
    "mm_held k st' = (if strict \<and> rc \<noteq> 0 \<and> k = mid then mm_held k st - {h} else mm_held k st)"
proof -
  have "mm_inv sz st' \<and> handleNum st' = handleNum st \<and>
    mm_held k st' = (if strict \<and> rc \<noteq> 0 \<and> k = mid then mm_held k st - {h} else mm_held k st)"
  proof (cases "h \<in> mm_held mid st")
    case False
    moreover have "h = H_ISEMPTY \<or> h = H_INVALID \<or> h \<notin> mm_held mid st" using False by simp
    ultimately have "st' = st" using r
      by (auto simp: MemManReal_lock_def mm_held_def split: if_splits option.splits)
    with ok False show ?thesis by auto
  next
    case True
    then obtain fs where f: "omap_find (hanCache st) h = Some fs" "fsMemory fs = mid"
      by (auto simp: mm_held_def)
    have h: "h \<noteq> H_ISEMPTY" "h \<noteq> H_INVALID"
      using mm_okD(6) [OF ok f(1)] by (auto simp: H_INVALID_def H_ISEMPTY_def)
    let ?st0 = "upd_counters mid (\<lambda>c. c\<lparr>mcNumLocks := mcNumLocks c + 1\<rparr>) st"
    obtain fs1 st1 rc1 where l: "MemFileSet_lockAll os strict fs ?st0 = (rc1, fs1, st1)"
      by (metis prod.collapse)
    have ok0: "mm_inv sz ?st0" using ok mm_ok_counters by blast
    note lo = lockAll_ok [OF l ok0 os]
    let ?st2 = "st1\<lparr>hanCache := omap_set h fs1 (hanCache st1)\<rparr>"
    have inv2: "mm_inv sz ?st2"
      using mm_ok_replace_set [of sz _ st1 h fs fs1] lo f by simp
    have held2: "mm_held k ?st2 = mm_held k st"
      using lo f by (auto simp: mm_held_def)
    show ?thesis
    proof (cases "rc1 \<noteq> 0")
      case False
      with r f h l inv2 held2 lo show ?thesis by (auto simp: MemManReal_lock_def Let_def)
    next
      case err: True
      let ?st3 = "upd_counters mid (\<lambda>c. c\<lparr>mcNumLkerrs := mcNumLkerrs c + 1\<rparr>) ?st2"
      have inv3: "mm_inv sz ?st3" using inv2 mm_ok_counters by blast
      have held3: "mm_held k ?st3 = mm_held k st" using held2 by (simp add: mm_held_def)
      have "strict" using lockAll_lax l err by (cases strict) auto
      obtain b st4 where u: "MemManReal_unlock mid h ?st3 = (b, st4)" by fastforce
      note us = unlock_step [OF inv3 u]
      have "st' = st4" "rc = rc1" using r f h l err u \<open>strict\<close>
        by (auto simp: MemManReal_lock_def Let_def)
      moreover have "mm_held k st4 = (if k = mid then mm_held k st - {h} else mm_held k st)"
        using us(3) lo f by (auto simp: mm_held_def split: if_splits)
      ultimately show ?thesis using us err \<open>strict\<close> lo by simp
    qed
  qed
  then show "mm_inv sz st'" "handleNum st' = handleNum st"
    "mm_held k st' = (if strict \<and> rc \<noteq> 0 \<and> k = mid then mm_held k st - {h} else mm_held k st)"
    by auto
qed

lemma unlock_owned_step:
  "mm_inv sz st \<Longrightarrow> distinct (map fst es) \<Longrightarrow>
   (\<And>h fs. (h, fs) \<in> set es \<Longrightarrow> omap_find (hanCache st) h = Some fs) \<Longrightarrow>
   mm_inv sz (unlock_owned mid es st)
   \<and> hanCache (unlock_owned mid es st)
     = filter (\<lambda>p. \<not> (\<exists>fs. (fst p, fs) \<in> set es \<and> fsMemory fs = mid)) (hanCache st)"
proof (induction mid es st rule: unlock_owned.induct)
  case (1 mid st)
  then show ?case by simp
next
  case (2 mid h fs es st)
  let ?st = "MemFileSet_destroy fs (st\<lparr>hanCache := omap_erase h (hanCache st)\<rparr>)"
  show ?case
  proof (cases "fsMemory fs = mid")
    case True
    have "omap_find (hanCache st) h = Some fs" using 2(5) by simp
    note er = mm_ok_erase_handle [OF 2(3) this]
    have st: "mm_inv sz ?st" "hanCache ?st = omap_erase h (hanCache st)"
      using destroy_ok [OF er] by auto
    have "mm_inv sz (unlock_owned mid es ?st) \<and> hanCache (unlock_owned mid es ?st)
        = filter (\<lambda>p. \<not> (\<exists>fs. (fst p, fs) \<in> set es \<and> fsMemory fs = mid)) (hanCache ?st)"
      by (rule 2(1) [OF True st(1)]) (use 2(4,5) st(2) in \<open>auto split: if_splits\<close>, force)
    with True st(2) show ?thesis
      by (auto simp: omap_erase_def intro!: filter_cong)
  next
    case False
    have "mm_inv sz (unlock_owned mid es st) \<and> hanCache (unlock_owned mid es st)
        = filter (\<lambda>p. \<not> (\<exists>fs. (fst p, fs) \<in> set es \<and> fsMemory fs = mid)) (hanCache st)"
      by (rule 2(2) [OF False 2(3)]) (use 2(4,5) in auto)
    with False show ?thesis by (auto intro!: filter_cong)
  qed
qed

lemma unlockAll_step:
  assumes ok: "mm_inv sz st"
  shows "mm_inv sz (MemManReal_unlockAll mid st)"
    "hanCache (MemManReal_unlockAll mid st) = filter (\<lambda>p. fsMemory (snd p) \<noteq> mid) (hanCache st)"
proof -
  note wf = mm_okD(2) [OF ok]
  note u = unlock_owned_step [OF ok omap_wf_distinct [OF wf] omap_in_set_find [OF wf], of mid]
  show "mm_inv sz (MemManReal_unlockAll mid st)" using u by (simp add: MemManReal_unlockAll_def)
  have "(\<exists>fs. (fst p, fs) \<in> set (hanCache st) \<and> fsMemory fs = mid) \<longleftrightarrow> fsMemory (snd p) = mid"
    if "p \<in> set (hanCache st)" for p
    using that omap_in_set_find [OF wf] by (metis option.inject prod.collapse)
  then show "hanCache (MemManReal_unlockAll mid st) = filter (\<lambda>p. fsMemory (snd p) \<noteq> mid) (hanCache st)"
    using u by (auto simp: MemManReal_unlockAll_def intro!: filter_cong)
qed

section \<open>The implementations satisfy the contract\<close>

definition mm_real_inv :: "os \<Rightarrow> (string \<Rightarrow> int) \<Rightarrow> mmState \<Rightarrow> bool" where
  "mm_real_inv os sz st \<longleftrightarrow> os_documented os sz \<and> mm_inv sz st"

interpretation mm_real: memman_contract
    "memManReal os mid" "mm_real_inv os sz" mm_budget "mm_held mid" mm_issued for os mid sz
proof (unfold_locales, goal_cases)
  case (1 m)
  then show ?case using mm_okD(6) [of sz "{#}" m] by (auto simp: mm_real_inv_def mm_held_def mm_issued_def H_ISEMPTY_def)
next
  case (2 m ts c h e m')
  then have "mm_inv sz m" "os_documented os sz" "0 < mm_budget m" "MemManReal_prepare os mid ts c m = ((h, e), m')"
    by (auto simp: mm_real_inv_def memManReal_def)
  note ps = prepare_step [OF this]
  have "1 \<le> handleNum m" using 2(1) by (simp add: mm_real_inv_def mm_ok_def)
  then show ?case using ps(2,3) by (auto simp: mm_issued_def H_ISEMPTY_def)
next
  case (3 m h s rc m')
  then show ?case using lock_step(2) [of sz m os mid h s rc m'] by (simp add: mm_real_inv_def memManReal_def mm_issued_def)
next
  case (4 m h ok m')
  then show ?case using unlock_step(2) [of sz m mid h ok m'] by (simp add: mm_real_inv_def memManReal_def mm_issued_def)
next
  case (5 m h)
  then show ?case by (auto simp: mm_real_inv_def mm_ok_def mm_held_def H_INVALID_def H_ISEMPTY_def)
next
  case (6 m ts c h e m')
  then show ?case using prepare_step(1) by (auto simp: mm_real_inv_def memManReal_def)
next
  case (7 m ts c h e m')
  then show ?case using prepare_step(2) [of sz m os mid ts c h e m']
    by (auto simp: mm_real_inv_def memManReal_def mm_held_def)
next
  case (8 m ts c h e m')
  then have "h = handleNum m + 1 \<and> (\<exists>fs. hanCache m' = omap_set h fs (hanCache m) \<and> fsMemory fs = mid)"
    using prepare_step(3) [of sz m os mid ts c h e m'] by (auto simp: mm_real_inv_def memManReal_def)
  moreover have "handleNum m + 1 \<notin> mm_held mid m"
    using 8(1) by (force simp: mm_real_inv_def mm_ok_def mm_held_def)
  ultimately show ?case by (auto simp: mm_held_def split: if_splits)
next
  case (9 m ts c h e m')
  then show ?case using prepare_step(2,3) [of sz m os mid ts c h e m']
    by (fastforce simp: mm_real_inv_def memManReal_def mm_budget_def)
next
  case (10 m h s rc m')
  then show ?case using lock_step(2) by (auto simp: mm_real_inv_def memManReal_def mm_budget_def)
next
  case (11 m h ok m')
  then show ?case using unlock_step(2) by (auto simp: mm_real_inv_def memManReal_def mm_budget_def)
next
  case (12 c m)
  then show ?case by (simp add: memManReal_def MemManReal_prepare_def count_lock_def)
next
  case (13 m h s rc m')
  then show ?case using lock_step(1) by (auto simp: mm_real_inv_def memManReal_def)
next
  case (14 m h s rc m')
  then show ?case using lock_step(3) [of sz m os mid h s rc m' mid] by (auto simp: mm_real_inv_def memManReal_def)
next
  case (15 m h ok m')
  then show ?case using unlock_step(1) by (auto simp: mm_real_inv_def memManReal_def)
next
  case (16 m h ok m')
  then show ?case using unlock_step(3) [of sz m mid h ok m']
    by (auto simp: mm_real_inv_def memManReal_def mm_held_def split: if_splits)
next
  case (17 m h)
  then show ?case using unlock_step(4) [OF _ prod.collapse [symmetric], of sz m mid h]
    by (auto simp: mm_real_inv_def memManReal_def)
qed

interpretation mm_none: memman_contract
    "memManNone alwaysLock" "\<lambda>_. True" "\<lambda>_. b" "\<lambda>_. {}" "\<lambda>_. {}" for alwaysLock b
  by unfold_locales (auto simp: memManNone_def MemManNone_prepare_def split: if_splits)

section \<open>Reachable states\<close>

text \<open>
  The calls of all managers in any order. \<open>prepare\<close> needs a handle number below \<open>2 ^ 64\<close>.
\<close>

inductive mm_reach :: "os \<Rightarrow> (nat \<Rightarrow> string \<times> nat) \<Rightarrow> mmState \<Rightarrow> bool" for os cfg where
  start: "mm_reach os cfg (mm_init cfg)"
| prepare: "mm_reach os cfg st \<Longrightarrow> 0 < mm_budget st \<Longrightarrow>
    mm_reach os cfg (snd (MemManReal_prepare os mid tables ch st))"
| lock: "mm_reach os cfg st \<Longrightarrow> mm_reach os cfg (snd (MemManReal_lock os mid h strict st))"
| unlock: "mm_reach os cfg st \<Longrightarrow> mm_reach os cfg (snd (MemManReal_unlock mid h st))"
| unlockAll: "mm_reach os cfg st \<Longrightarrow> mm_reach os cfg (MemManReal_unlockAll mid st)"

lemma mm_init_ok:
  assumes "\<And>mid. snd (cfg mid) < 2 ^ 64"
  shows "mm_inv sz (mm_init cfg)"
  using assms by (auto simp: mm_ok_def mm_init_def Memory_new_def memory_ok_def refs_of_def held_paths_def
      H_ISEMPTY_def)

lemma mm_reach_inv:
  assumes "mm_reach os cfg st" "os_documented os sz" "\<And>mid. snd (cfg mid) < 2 ^ 64"
  shows "mm_inv sz st"
  using assms(1)
proof induction
  case start
  then show ?case using mm_init_ok assms(3) by blast
next
  case (prepare st mid tables ch)
  then show ?case using prepare_step(1) [OF _ assms(2)] by (metis prod.collapse)
next
  case (lock st mid h strict)
  then show ?case using lock_step(1) [OF _ assms(2)] by (metis prod.collapse)
next
  case (unlock st mid h)
  then show ?case using unlock_step(1) by (metis prod.collapse)
next
  case (unlockAll st mid)
  then show ?case using unlockAll_step(1) by blast
qed



section \<open>What a granted handle guarantees\<close>

text \<open>
  The files of a set are found at the paths of the tables; once \<open>memMap\<close> returned 0 for a file it
  is mapped, or it is an object that was created as flexible.
\<close>

definition file_ready :: "mmState \<Rightarrow> string \<Rightarrow> bool" where
  "file_ready st p \<longleftrightarrow> (\<exists>f. omap_find (fileCache st) p = Some f \<and> (mfIsMapped f \<or> mfIsFlex f))"

lemma memMap_ready:
  assumes ok: "mm_ok sz ext st" and os: "os_documented os sz" and r: "MemFile_memMap os p st = (rc, st')"
  shows "file_ready st q \<Longrightarrow> file_ready st' q" "rc = 0 \<Longrightarrow> file_ready st' p"
proof -
  have "rc = 0 \<Longrightarrow> omap_find (fileCache st) p \<noteq> None"
    using r by (cases "omap_find (fileCache st) p") (auto simp: MemFile_memMap_def)
  moreover have "(file_ready st q \<longrightarrow> file_ready st' q) \<and> (rc = 0 \<longrightarrow> file_ready st' p)"
    if f: "omap_find (fileCache st) p = Some f" for f
  proof -
    let ?st1 = "if mfIsReserved f then st
         else upd_memory (mfMemory f) (Memory_memReserve (miSize (mfInfo f))) st"
    obtain i st2 where m: "Memory_mapFile os (mfMemory f) p ?st1 = (i, st2)" by fastforce
    have err: "MemInfo_isValid i \<or> MemInfo_errCode i \<noteq> 0"
      using m os by (auto simp: Memory_mapFile_def Let_def MemInfo_isValid_def MemInfo_errCode_def
          MemInfo_new_def MemInfo_setErrCode_def os_documented_def split: option.splits sum.splits if_splits)
    have c: "fileCache st2 = fileCache st" using mapFile_frame(1) [OF m os] by (simp split: if_splits)
    show ?thesis
      using r f m err c mm_okD(3) [OF ok f]
      by (auto simp: MemFile_memMap_def Let_def file_ready_def file_ok_def split: if_splits)
  qed
  moreover have "omap_find (fileCache st) p = None \<Longrightarrow> st' = st"
    using r by (simp add: MemFile_memMap_def)
  ultimately show "file_ready st q \<Longrightarrow> file_ready st' q" "rc = 0 \<Longrightarrow> file_ready st' p" by auto
qed

lemma map_required_ready:
  "map_required os ps st = (rc, st') \<Longrightarrow> mm_ok sz ext st \<Longrightarrow> os_documented os sz \<Longrightarrow>
   (\<forall>q. file_ready st q \<longrightarrow> file_ready st' q) \<and> (rc = 0 \<longrightarrow> (\<forall>p \<in> set ps. file_ready st' p))"
proof (induction ps arbitrary: st)
  case (Cons p ps)
  obtain r st1 where m: "MemFile_memMap os p st = (r, st1)" by fastforce
  note mo = memMap_ok [OF Cons.prems(2,3) m] and mr = memMap_ready [OF Cons.prems(2,3) m]
  show ?case
  proof (cases "r = 0")
    case False
    with Cons.prems(1) m mr show ?thesis by auto
  next
    case True
    then have rec: "map_required os ps st1 = (rc, st')" using Cons.prems(1) m by simp
    show ?thesis
      using Cons.IH [OF rec mo(1) Cons.prems(3)] mr True by auto
  qed
qed simp

lemma mapAll_ready:
  assumes "MemFileSet_mapAll os fs st = (0, st')" "mm_ok sz ext st" "os_documented os sz"
  shows "\<forall>p \<in> set (fsLockFiles fs). file_ready st' p"
proof -
  obtain r st1 where l: "map_required os (fsLockFiles fs) st = (r, st1)" by fastforce
  obtain r2 st2 where f: "map_required os (fsFlexFiles fs) st1 = (r2, st2)" by fastforce
  have "mm_ok sz ext st1" using map_required_ok [OF l assms(2,3)] by simp
  then show ?thesis
    using assms(1) l f map_required_ready [OF l assms(2,3)] map_required_ready [OF f _ assms(3)]
    by (auto simp: MemFileSet_mapAll_def split: if_splits)
qed

lemma obtain_memories: "MemFile_obtain os p mid fl st = (res, st') \<Longrightarrow> memories st' = memories st"
  by (auto simp: MemFile_obtain_def Memory_fileInfo_def split: option.splits if_splits prod.splits)

lemma obtain_path: "MemFile_obtain os p mid fl st = (Inr q, st') \<Longrightarrow> q = p"
  by (auto simp: MemFile_obtain_def split: option.splits if_splits prod.splits)

lemma obtain_error: "MemFile_obtain os p mid fl st = (Inl e, st') \<Longrightarrow> os_documented os sz \<Longrightarrow> e \<noteq> 0"
  by (auto simp: MemFile_obtain_def split: option.splits if_splits prod.splits dest: fileInfo_valid)

lemma add_if_files:
  assumes "add_if os t c i l fs st = (0, fs', st')" "os_documented os sz" "mm_ok sz (set_paths fs) st"
  shows "memories st' = memories st" "set (fsLockFiles fs) \<subseteq> set (fsLockFiles fs')"
    "l = REQUIRED \<Longrightarrow> Memory_filePath (memories st (fsMemory fs)) t c i \<in> set (fsLockFiles fs')"
  using assms
  by (auto simp: add_if_def MemFileSet_add_def Let_def split: if_splits prod.splits sum.splits
      dest: obtain_memories obtain_path obtain_error [OF _ assms(2)])

abbreviation lock_of :: "tableInfo \<Rightarrow> bool \<Rightarrow> lockType" where
  "lock_of t i \<equiv> (if i then theIndex t else theData t)"

lemma add_tables_files:
  "add_tables os c ts fs st = (0, fs', st') \<Longrightarrow> os_documented os sz \<Longrightarrow> mm_ok sz (set_paths fs) st \<Longrightarrow>
   set (fsLockFiles fs) \<subseteq> set (fsLockFiles fs') \<and>
   (\<forall>t \<in> set ts. \<forall>i. lock_of t i = REQUIRED \<longrightarrow>
      Memory_filePath (memories st (fsMemory fs)) (tableName t) c i \<in> set (fsLockFiles fs'))"
proof (induction os c ts fs st rule: add_tables.induct)
  case (1 os ch fs st)
  then show ?case by simp
next
  case (2 os ch tab tabs fs st)
  obtain r1 fs1 st1 where a: "add_if os (tableName tab) ch False (theData tab) fs st = (r1, fs1, st1)"
    by (metis prod.collapse)
  obtain r2 fs2 st2 where b: "add_if os (tableName tab) ch True (theIndex tab) fs1 st1 = (r2, fs2, st2)"
    by (metis prod.collapse)
  have r: "r1 = 0" "r2 = 0" and rec: "add_tables os ch tabs fs2 st2 = (0, fs', st')"
    using 2(2) a b by (auto split: if_splits)
  note a' = add_if_ok [OF 2(4,3) a] and af = add_if_files [OF a [unfolded r] 2(3,4)]
  note b' = add_if_ok [OF conjunct1 [OF a'] 2(3) b]
    and bf = add_if_files [OF b [unfolded r] 2(3) conjunct1 [OF a']]
  have ih: "set (fsLockFiles fs2) \<subseteq> set (fsLockFiles fs') \<and>
     (\<forall>t \<in> set tabs. \<forall>i. lock_of t i = REQUIRED \<longrightarrow>
        Memory_filePath (memories st2 (fsMemory fs2)) (tableName t) ch i \<in> set (fsLockFiles fs'))"
    by (rule 2(1) [OF a [symmetric] refl _ b [symmetric] refl _ rec 2(3)]) (use r b' in auto)
  have here: "Memory_filePath (memories st (fsMemory fs)) (tableName tab) ch i \<in> set (fsLockFiles fs2)"
    if "lock_of tab i = REQUIRED" for i
    using that af bf a' by (cases i) auto
  show ?case using ih here af bf a' b' by auto
qed

lemma prepare_ready:
  assumes ok: "mm_inv sz st" and os: "os_documented os sz"
    and r: "MemManReal_prepare os mid ts c st = ((h, e), st')" and h: "h \<noteq> H_INVALID" "h \<noteq> H_ISEMPTY"
    and t: "t \<in> set ts" "lock_of t i = REQUIRED"
  shows "file_ready st' (Memory_filePath (memories st mid) (tableName t) c i)"
proof -
  have start: "mm_ok sz (set_paths (MemFileSet_new mid c)) st"
    using ok by (simp add: set_paths_def MemFileSet_new_def)
  obtain r1 fs st1 where a: "add_tables os c ts (MemFileSet_new mid c) st = (r1, fs, st1)"
    by (metis prod.collapse)
  obtain r2 st2 where m: "(if r1 = 0 then MemFileSet_mapAll os fs st1 else (r1, st1)) = (r2, st2)"
    by fastforce
  have good: "r2 = 0" "fileCache st' = fileCache st2"
    using r a m h by (auto simp: MemManReal_prepare_def Let_def split: if_splits)
  then have z: "r1 = 0" "MemFileSet_mapAll os fs st1 = (0, st2)" using m by (auto split: if_splits)
  have "mm_ok sz (set_paths fs) st1" using add_tables_ok [OF a start os] by simp
  then have "\<forall>p \<in> set (fsLockFiles fs). file_ready st2 p" using mapAll_ready z(2) os by blast
  moreover have "Memory_filePath (memories st mid) (tableName t) c i \<in> set (fsLockFiles fs)"
    using add_tables_files [OF a [unfolded z] os start] t by (auto simp: MemFileSet_new_def)
  ultimately show ?thesis using good by (simp add: file_ready_def)
qed

section \<open>Properties\<close>

text \<open>Two tables on a file system where every call succeeds, for the witnesses.\<close>

definition os_good :: os where
  "os_good = \<lparr>osStat = (\<lambda>k p. Inr 10), osOpen = (\<lambda>k p. None), osFstat = (\<lambda>k p. Inr 10),
     osMmap = (\<lambda>k p n. Inr 4096), osMlock = (\<lambda>k a n. None)\<rparr>"

definition cfg_15 :: "nat \<Rightarrow> string \<times> nat" where
  "cfg_15 mid = (''/db'', 15)"

definition tab_obj :: "lockType \<Rightarrow> tableInfo" where
  "tab_obj l = \<lparr>tableName = ''LSST/Object'', theData = l, theIndex = NOLOCK\<rparr>"

definition st_prepared :: mmState where
  "st_prepared = snd (MemManReal_prepare os_good 0 [tab_obj REQUIRED] 7 (mm_init cfg_15))"

lemma os_good_documented: "os_documented os_good (\<lambda>p. 10)"
  by (simp add: os_documented_def os_good_def)

lemma st_prepared_reach: "mm_reach os_good cfg_15 st_prepared"
  unfolding st_prepared_def
  by (intro mm_reach.prepare mm_reach.start) (simp add: mm_budget_def mm_init_def H_ISEMPTY_def)






text \<open>
  C13. For every sequence of calls of one client (\<open>prepare\<close>, strict or lax \<open>lock\<close>, \<open>unlock\<close>), whatever
  succeeds or fails in it, the real manager ends holding exactly the handles that it granted to
  the client and the client did not give back (a failed strict \<open>lock\<close> gives its handle back).
\<close>

theorem manager_agrees_with_client:
  assumes "os_documented os sz" and "mm_ok sz {#} st" and "length calls \<le> mm_budget st"
    and "mm_run (memManReal os mid) calls (st, mm_held mid st) = (st', book)"
  shows "mm_ok sz {#} st' \<and> mm_held mid st' = book"
  using mm_real.run_book [OF assms(4) _ refl assms(3)] assms(1,2) by (auto simp: mm_real_inv_def)

definition demo_calls :: "mmCall list" where
  "demo_calls = [CPrepare [tab_obj REQUIRED] 7, CPrepare [tab_obj REQUIRED] 8, CLock 2 True, CUnlock 2]"

lemma manager_agrees_with_client_witness:
  "mm_held 0 (fst (mm_run (memManReal os_good 0) demo_calls (mm_init cfg_15, {}))) = {}"
proof -
  have i: "mm_inv (\<lambda>p. 10) (mm_init cfg_15)" by (rule mm_init_ok) (simp add: cfg_15_def)
  have n: "length demo_calls \<le> mm_budget (mm_init cfg_15)"
    by (simp add: demo_calls_def mm_budget_def mm_init_def H_ISEMPTY_def)
  have h: "mm_held 0 (mm_init cfg_15) = {}" by (simp add: mm_held_def mm_init_def)
  have b: "snd (mm_run (memManReal os_good 0) demo_calls (mm_init cfg_15, {})) = {}"
    by code_simp
  show ?thesis
    using manager_agrees_with_client [OF os_good_documented i n, of 0] h b
    by (metis prod.collapse)
qed

text \<open>
  \<open>lock\<close> of a handle that the manager holds: without \<open>strict\<close> it returns 0 and keeps the handle,
  even when a required file could not be locked; with \<open>strict\<close> an error means that the handle and
  its files have been released, and success that the handle is still held.
\<close>

theorem lock_outcome:
  assumes "mm_ok sz {#} st" and "os_documented os sz" and "h \<in> mm_held mid st"
    and "MemManReal_lock os mid h strict st = (rc, st')"
  shows "(\<not> strict \<longrightarrow> rc = 0) \<and> (h \<in> mm_held mid st' \<longleftrightarrow> rc = 0) \<and>
    mm_held mid st' - {h} = mm_held mid st - {h}"
proof -
  have "\<not> strict \<Longrightarrow> rc = 0"
    using assms(3,4) lockAll_lax mm_real.held_valid [of os sz st h mid] assms(1,2)
    by (auto simp: MemManReal_lock_def mm_real_inv_def mm_held_def Let_def split: if_splits prod.splits)
  then show ?thesis using lock_step(3) [OF assms(1,2,4), of mid] assms(3) by auto
qed

definition os_nolock :: os where
  "os_nolock = os_good\<lparr>osMlock := (\<lambda>k a n. Some ENOMEM)\<rparr>"

lemma lock_outcome_witness:
  "fst (MemManReal_lock os_nolock 0 2 False st_prepared) = 0
   \<and> fst (MemManReal_lock os_nolock 0 2 True st_prepared) = ENOMEM
   \<and> 2 \<notin> mm_held 0 (snd (MemManReal_lock os_nolock 0 2 True st_prepared))"
proof -
  have os: "os_documented os_nolock (\<lambda>p. 10)" by (simp add: os_documented_def os_nolock_def os_good_def)
  have i: "mm_inv (\<lambda>p. 10) st_prepared"
    by (rule mm_reach_inv [OF st_prepared_reach os_good_documented]) (simp add: cfg_15_def)
  have "omap_find (hanCache st_prepared) 2 = Some (snd (hd (hanCache st_prepared)))"
    "fsMemory (snd (hd (hanCache st_prepared))) = 0" by code_simp+
  then have h: "2 \<in> mm_held 0 st_prepared" by (simp add: mm_held_def)
  have rc: "fst (MemManReal_lock os_nolock 0 2 True st_prepared) = ENOMEM" by code_simp
  show ?thesis
    using lock_outcome [OF i os h, of False] lock_outcome [OF i os h, of True] rc
    by (metis prod.collapse zero_neq_numeral)
qed

text \<open>
  When \<open>prepare\<close> grants a handle, the file of every table part that was asked for as required is
  in the cache and mapped, or it is a file object that an earlier request created as flexible.
\<close>

theorem prepare_maps_required:
  assumes "mm_ok sz {#} st" and "os_documented os sz"
    and "MemManReal_prepare os mid tables ch st = ((h, e), st')" and "h \<noteq> H_INVALID" and "h \<noteq> H_ISEMPTY"
    and "t \<in> set tables" and "(if isIndex then theIndex t else theData t) = REQUIRED"
  shows "\<exists>f. omap_find (fileCache st') (Memory_filePath (memories st mid) (tableName t) ch isIndex) = Some f
    \<and> (mfIsMapped f \<or> mfIsFlex f)"
  using prepare_ready [OF assms] by (simp add: file_ready_def)

lemma prepare_maps_required_witness:
  "\<exists>f. omap_find (fileCache st_prepared) ''/db/LSST/Object_7.MYD'' = Some f \<and> (mfIsMapped f \<or> mfIsFlex f)"
proof -
  have i: "mm_inv (\<lambda>p. 10) (mm_init cfg_15)" by (rule mm_init_ok) (simp add: cfg_15_def)
  have p: "MemManReal_prepare os_good 0 [tab_obj REQUIRED] 7 (mm_init cfg_15) = ((2, 0), st_prepared)"
    by (rule prod_eqI) (unfold st_prepared_def, code_simp, simp)
  have q: "Memory_filePath (memories (mm_init cfg_15) 0) (tableName (tab_obj REQUIRED)) 7 False
      = ''/db/LSST/Object_7.MYD''" by code_simp
  show ?thesis
    using prepare_maps_required [OF i os_good_documented p, of "tab_obj REQUIRED" False] q
    by (simp add: H_INVALID_def H_ISEMPTY_def tab_obj_def)
qed

text \<open>
  The exception is real: a file that is first requested as flexible while memory is short stays
  unmapped, and a later request that requires the same file is granted a handle all the same.
\<close>

theorem prepare_required_unmapped:
  "\<exists>h f. let small = (\<lambda>mid::nat. (''/db'', 5::nat));
         st1 = snd (MemManReal_prepare os_good 0 [tab_obj FLEXIBLE] 7 (mm_init small));
         ((h', e), st2) = MemManReal_prepare os_good 0 [tab_obj REQUIRED] 7 st1
     in h' = h \<and> h \<noteq> H_INVALID \<and> h \<noteq> H_ISEMPTY
        \<and> omap_find (fileCache st2) ''/db/LSST/Object_7.MYD'' = Some f \<and> \<not> mfIsMapped f"
  by (rule exI [of _ 3], rule exI [of _ "\<lparr>mfMemory = 0, mfInfo = \<lparr>miAddr = None, miErrCode = 0,
      miSize = 10\<rparr>, mfRefs = 2, mfIsMapped = False, mfIsReserved = False, mfIsLocked = False,
      mfIsFlex = True, mfMlocking = False\<rparr>"]) code_simp

text \<open>
  Different table, chunk or kind (data or index) means a different file path, so the file cache
  never mixes two files up.
\<close>

theorem filePath_injective:
  "Memory_filePath m t c i = Memory_filePath m t' c' i' \<longleftrightarrow> t = t' \<and> c = c' \<and> i = i'"
proof -
  have split_last: "xs = ys \<and> us = vs"
    if "xs @ CHR ''_'' # us = ys @ CHR ''_'' # vs" "CHR ''_'' \<notin> set us" "CHR ''_'' \<notin> set vs"
    for xs ys us vs :: string
    using that by (auto simp: append_eq_append_conv2 append_eq_Cons_conv Cons_eq_append_conv)
  let ?ext = "\<lambda>i. if i then ''.MYI'' else ''.MYD''"
  have ext: "int_to_string c @ ?ext i = int_to_string c' @ ?ext i' \<longleftrightarrow> c = c' \<and> i = i'"
    by (auto simp: int_to_string_inj append_eq_append_conv split: if_splits)
  have "t @ CHR ''_'' # (int_to_string c @ ?ext i) = t' @ CHR ''_'' # (int_to_string c' @ ?ext i')
      \<longleftrightarrow> t = t' \<and> c = c' \<and> i = i'"
    using split_last [of t "int_to_string c @ ?ext i" t' "int_to_string c' @ ?ext i'"] ext
      int_to_string_no_underscore by (auto split: if_splits)
  then show ?thesis by (simp add: Memory_filePath_def)
qed

end
