(* ===== verification/Scan_Handles.thy ===== *)
theory Scan_Handles
  imports Scan_Scheduler Memory_Accounting
begin

text \<open>
  A scan scheduler and its memory manager together: runs of a scan scheduler (\<open>scan_reach\<close>, with the
  tasks in flight and the tasks whose strict lock failed), what such a run keeps (\<open>handles_ok\<close>,
  proved in the context of \<open>memman_contract\<close> for every memory manager), and the theorems for the real
  one: no memory handle leaks, and the tables of a running task stay locked.
\<close>

section \<open>Runs of a scan scheduler\<close>

definition real_handle :: "handle \<Rightarrow> bool" where
  "real_handle h \<longleftrightarrow> h \<noteq> H_INVALID \<and> h \<noteq> H_ISEMPTY"

abbreviation handle_of :: "task \<Rightarrow> 'm world \<Rightarrow> handle" where
  "handle_of t w \<equiv> tsMemHandle (task_st t w)"

abbreviation live_tasks :: "scanScheduler \<Rightarrow> task multiset \<Rightarrow> task multiset" where
  "live_tasks s F \<equiv> tq_contents (ssTaskQueue s) + F"

text \<open>
  \<open>F\<close> are the tasks in flight: delivered by \<open>getCmd\<close> and not yet reported by \<open>commandFinish\<close>. \<open>L\<close> are
  those of them for which \<open>waitForMemMan\<close> could not lock the tables. A task object is queued once
  (\<open>que\<close>) with no handle, and its memory may be used for a new task when no live task is there
  (\<open>alloc\<close>). A task that is taken off the queue again has no handle yet (\<open>remove\<close>). The budget premises
  say that the 64-bit handle counter has numbers left.
\<close>

inductive scan_reach :: "'m memMan \<Rightarrow> ('m \<Rightarrow> nat) \<Rightarrow> scanScheduler \<Rightarrow> 'm \<Rightarrow>
    scanScheduler \<Rightarrow> 'm world \<Rightarrow> task multiset \<Rightarrow> nat set \<Rightarrow> bool" for vt budget s0 m0 where
  start: "scan_reach vt budget s0 m0 s0 \<lparr>wTasks = (\<lambda>_. taskSt_new), wMem = m0\<rparr> {#} {}"
| alloc: "scan_reach vt budget s0 m0 s w F L \<Longrightarrow> p \<notin># image_mset tPtr (live_tasks s F) \<Longrightarrow>
    scan_reach vt budget s0 m0 s (w\<lparr>wTasks := (wTasks w)(p := taskSt_new)\<rparr>) F L"
| que: "scan_reach vt budget s0 m0 s w F L \<Longrightarrow> tPtr t \<notin># image_mset tPtr (live_tasks s F) \<Longrightarrow>
    handle_of t w = H_INVALID \<Longrightarrow> ScanScheduler_queCmd (TaskCmd t) s w = (s', w') \<Longrightarrow>
    scan_reach vt budget s0 m0 s' w' F L"
| ready: "scan_reach vt budget s0 m0 s w F L \<Longrightarrow> 6 \<le> budget (wMem w) \<Longrightarrow>
    ScanScheduler_ready vt s w = Inr (b, s', w') \<Longrightarrow> scan_reach vt budget s0 m0 s' w' F L"
| get: "scan_reach vt budget s0 m0 s w F L \<Longrightarrow> 6 \<le> budget (wMem w) \<Longrightarrow>
    ScanScheduler_getCmd vt s w = Inr (r, s', w') \<Longrightarrow>
    scan_reach vt budget s0 m0 s' w' (case r of None \<Rightarrow> F | Some t \<Rightarrow> add_mset t F) L"
| wait: "scan_reach vt budget s0 m0 s w F L \<Longrightarrow> t \<in># F \<Longrightarrow> mmLock vt (handle_of t w) True (wMem w) = (rc, m) \<Longrightarrow>
    scan_reach vt budget s0 m0 s (waitForMemMan vt t w) F (if rc = 0 then L else insert (tPtr t) L)"
| finish: "scan_reach vt budget s0 m0 s w F L \<Longrightarrow> t \<in># F \<Longrightarrow>
    ScanScheduler_commandFinish vt (TaskCmd t) s w = (s', w') \<Longrightarrow>
    scan_reach vt budget s0 m0 s' w' (F - {#t#}) (L - {tPtr t})"
| remove: "scan_reach vt budget s0 m0 s w F L \<Longrightarrow> ScanScheduler_removeTask t removeRunning s w = (rm, s', w') \<Longrightarrow>
    (\<And>u. tq_contents (ssTaskQueue s) = add_mset u (tq_contents (ssTaskQueue s')) \<Longrightarrow> handle_of u w = H_INVALID) \<Longrightarrow>
    scan_reach vt budget s0 m0 s' w' F L"

section \<open>Who owns which handle\<close>

text \<open>
  \<open>H\<close> are the handles the manager holds, \<open>I\<close> those it has issued, \<open>P\<close> the live tasks (by their
  pointers) with the handles \<open>hm\<close>, \<open>h0\<close> the handle whose unlocking is deferred: every held handle
  belongs to a live task or is \<open>h0\<close>, no two owners share one, and the handle of a live task is held
  unless its strict lock failed.
\<close>

definition owners :: "(nat \<Rightarrow> handle) \<Rightarrow> nat set \<Rightarrow> nat set" where
  "owners hm P = {p \<in> P. real_handle (hm p)}"

definition handles_ok :: "handle set \<Rightarrow> handle set \<Rightarrow> (nat \<Rightarrow> handle) \<Rightarrow> nat set \<Rightarrow> nat set \<Rightarrow> handle \<Rightarrow> bool" where
  "handles_ok H I hm P L h0 \<longleftrightarrow>
     Ball H real_handle \<and> H \<subseteq> insert h0 (hm ` owners hm P) \<and> hm ` (owners hm P - L) \<subseteq> H \<and>
     hm ` owners hm P \<subseteq> I \<and> h0 \<notin> hm ` owners hm P \<and> (real_handle h0 \<longrightarrow> h0 \<in> I) \<and>
     inj_on hm (owners hm P)"

lemma not_real [simp]: "\<not> real_handle H_INVALID" "\<not> real_handle H_ISEMPTY"
  by (simp_all add: real_handle_def)

lemma owners_simps [simp]:
  "owners hm (insert p P) = (if real_handle (hm p) then insert p (owners hm P) else owners hm P)"
  "owners hm (P - {p}) = owners hm P - {p}" "owners hm {} = {}"
  by (auto simp: owners_def)

lemma owners_upd:
  "p \<in> P \<Longrightarrow> owners (hm(p := h)) P = (if real_handle h then insert p (owners hm P) else owners hm P - {p})"
  by (auto simp: owners_def)

lemma owners_cong: "(\<And>p. p \<in> P \<Longrightarrow> hm' p = hm p) \<Longrightarrow> owners hm' P = owners hm P"
  by (auto simp: owners_def)

lemma owners_sub: "owners hm P \<subseteq> P"
  by (auto simp: owners_def)

lemma handles_ok_cong:
  assumes "handles_ok H I hm P L h0" "\<And>p. p \<in> P \<Longrightarrow> hm' p = hm p"
  shows "handles_ok H I hm' P L h0"
proof -
  have e: "hm' p = hm p" if "p \<in> owners hm P" for p using that owners_sub assms(2) by blast
  have "hm' ` owners hm P = hm ` owners hm P" "hm' ` (owners hm P - L) = hm ` (owners hm P - L)"
    "inj_on hm' (owners hm P) = inj_on hm (owners hm P)"
    by (auto simp: e intro!: image_cong inj_on_cong)
  then show ?thesis using assms(1) unfolding handles_ok_def by (simp add: owners_cong [of P hm' hm, OF assms(2)])
qed

lemma handles_ok_unlock_old:
  assumes "handles_ok H I hm P L h0"
  shows "handles_ok (H - {h0}) I hm P L H_INVALID"
proof -
  have "H_INVALID \<notin> hm ` owners hm P" by (auto simp: owners_def)
  then show ?thesis using assms unfolding handles_ok_def by auto
qed

lemma handles_ok_defer:
  assumes "handles_ok H I hm P L H_INVALID" "p \<in> P"
  shows "handles_ok H I hm (P - {p}) (L - {p}) (hm p)"
proof (cases "real_handle (hm p)")
  case True
  with assms(2) have p: "p \<in> owners hm P" by (simp add: owners_def)
  have inj: "inj_on hm (owners hm P)" using assms by (simp add: handles_ok_def)
  have "hm p \<notin> hm ` (owners hm P - {p})" using inj p by (metis DiffE Diff_subset inj_on_image_mem_iff insertI1)
  moreover have "owners hm P - {p} - (L - {p}) \<subseteq> owners hm P - L" by auto
  moreover have "H \<subseteq> insert (hm p) (hm ` (owners hm P - {p}))"
    using assms(1) p not_real(1) unfolding handles_ok_def by blast
  ultimately show ?thesis
    using assms(1) p inj_on_diff [OF inj] True unfolding handles_ok_def by (simp, blast)
next
  case False
  then have "p \<notin> owners hm P" by (simp add: owners_def)
  moreover have "hm p \<notin> hm ` owners hm P" using False by (auto simp: owners_def)
  moreover have "owners hm P - (L - {p}) = owners hm P - L" using \<open>p \<notin> owners hm P\<close> by auto
  moreover have "H \<subseteq> hm ` owners hm P" using assms(1) not_real(1) unfolding handles_ok_def by blast
  ultimately show ?thesis using assms(1) False unfolding handles_ok_def by auto
qed

lemma handles_ok_release:
  assumes "handles_ok H I hm P L H_INVALID" "p \<in> P"
  shows "handles_ok (H - {hm p}) I hm (P - {p}) (L - {p}) H_INVALID"
  using handles_ok_unlock_old [OF handles_ok_defer [OF assms]] .

lemma handles_ok_drop:
  assumes ok: "handles_ok H I hm P L h0" and "p \<in> P"
  shows "handles_ok (H - {hm p}) I hm P (insert p L) h0"
proof -
  have inj: "inj_on hm (owners hm P)" using ok by (simp add: handles_ok_def)
  have "hm q \<in> H - {hm p}" if q: "q \<in> owners hm P - insert p L" for q
  proof -
    have "hm q \<noteq> hm p"
    proof
      assume e: "hm q = hm p"
      then have "p \<in> owners hm P" using q \<open>p \<in> P\<close> by (auto simp: owners_def)
      then show False using inj_onD [OF inj e] q by blast
    qed
    then show ?thesis using q ok by (auto simp: handles_ok_def)
  qed
  then have "hm ` (owners hm P - insert p L) \<subseteq> H - {hm p}" by (rule image_subsetI)
  moreover have "hm ` (owners hm P - L) \<subseteq> H" "Ball (H - {hm p}) real_handle" "H - {hm p} \<subseteq> insert h0 (hm ` owners hm P)"
    using ok by (auto simp: handles_ok_def)
  ultimately show ?thesis using ok by (simp add: handles_ok_def)
qed

lemma handles_ok_new:
  assumes "handles_ok H I hm P L h0" "hm p = H_INVALID"
  shows "handles_ok H I hm (insert p P) L h0"
  using assms by (simp add: handles_ok_def)

lemma handles_ok_less:
  assumes "handles_ok H I hm P L h0" "hm p = H_INVALID"
  shows "handles_ok H I hm (P - {p}) L h0"
proof -
  have "owners hm P - {p} = owners hm P" using assms(2) by (auto simp: owners_def)
  then show ?thesis using assms by (simp add: handles_ok_def)
qed

text \<open>A task gets a handle that was never issued before, or the empty one.\<close>

lemma handles_ok_grant:
  assumes ok: "handles_ok H I hm P L h0" and p: "p \<in> P" "hm p = H_INVALID"
    and h: "h \<notin> I" "real_handle h"
  shows "handles_ok (insert h H) (insert h I) (hm(p := h)) P L h0"
proof -
  have no: "p \<notin> owners hm P" using p by (auto simp: owners_def)
  have up: "(hm(p := h)) ` A = hm ` A" if "p \<notin> A" for A using that by auto
  have "inj_on (hm(p := h)) (owners hm P) = inj_on hm (owners hm P)" using no by (intro inj_on_cong) auto
  then have "inj_on (hm(p := h)) (owners hm P)" using ok by (simp add: handles_ok_def)
  moreover have "h \<notin> hm ` owners hm P" "h \<noteq> h0" using ok h by (auto simp: handles_ok_def)
  moreover have "(hm(p := h)) ` (insert p (owners hm P) - L) \<subseteq> insert h (hm ` (owners hm P - L))" by auto
  ultimately show ?thesis
    using ok h no unfolding handles_ok_def owners_upd [OF p(1)] by (auto simp: up)
qed

lemma handles_ok_empty:
  assumes ok: "handles_ok H I hm P L h0" and p: "p \<in> P" "hm p = H_INVALID"
  shows "handles_ok H I (hm(p := H_ISEMPTY)) P L h0"
proof -
  have no: "p \<notin> owners hm P" using p by (auto simp: owners_def)
  have up: "owners hm P \<inter> {x. x \<noteq> p} = owners hm P" "(owners hm P - L) \<inter> {x. x \<noteq> p} = owners hm P - L" using no by auto
  have "inj_on (hm(p := H_ISEMPTY)) (owners hm P) = inj_on hm (owners hm P)" using no by (intro inj_on_cong) auto
  then have "inj_on (hm(p := H_ISEMPTY)) (owners hm P)" using ok by (simp add: handles_ok_def)
  then show ?thesis using ok no unfolding handles_ok_def owners_upd [OF p(1)] by (simp add: up)
qed

lemma handles_ok_owner:
  assumes "handles_ok H I hm P L h0" "p \<in> owners hm P"
  shows "p \<notin> L \<Longrightarrow> hm p \<in> H" "hm p \<noteq> h0" "q \<in> owners hm P \<Longrightarrow> hm q = hm p \<Longrightarrow> q = p"
  using assms by (auto simp: handles_ok_def dest: inj_onD)

lemma handles_ok_lost:
  assumes "handles_ok H I hm P L h0" "L \<subseteq> L'"
  shows "handles_ok H I hm P L' h0"
proof -
  have "hm ` (owners hm P - L') \<subseteq> hm ` (owners hm P - L)" using assms(2) by blast
  moreover have "hm ` (owners hm P - L) \<subseteq> H" using assms(1) by (simp add: handles_ok_def)
  ultimately have "hm ` (owners hm P - L') \<subseteq> H" by (rule subset_trans)
  then show ?thesis using assms(1) by (simp add: handles_ok_def)
qed

section \<open>The invariant of a run\<close>

definition distinct_ptrs :: "task multiset \<Rightarrow> bool" where
  "distinct_ptrs M \<longleftrightarrow> (\<forall>p. count (image_mset tPtr M) p \<le> 1)"

lemma distinct_ptrs_simps [simp]:
  "distinct_ptrs {#}"
  "distinct_ptrs (add_mset t M) \<longleftrightarrow> tPtr t \<notin> tPtr ` set_mset M \<and> distinct_ptrs M"
proof -
  show "distinct_ptrs {#}" by (simp add: distinct_ptrs_def)
  have zero: "count (image_mset tPtr M) (tPtr t) = 0 \<longleftrightarrow> tPtr t \<notin> tPtr ` set_mset M"
    by (metis not_in_iff set_image_mset)
  show "distinct_ptrs (add_mset t M) \<longleftrightarrow> tPtr t \<notin> tPtr ` set_mset M \<and> distinct_ptrs M"
  proof
    assume d: "distinct_ptrs (add_mset t M)"
    then have "count (image_mset tPtr (add_mset t M)) (tPtr t) \<le> 1" unfolding distinct_ptrs_def by blast
    moreover have "count (image_mset tPtr M) p \<le> count (image_mset tPtr (add_mset t M)) p" for p by simp
    ultimately show "tPtr t \<notin> tPtr ` set_mset M \<and> distinct_ptrs M"
      using d zero unfolding distinct_ptrs_def by (metis count_add_mset image_mset_add_mset le_trans add_le_same_cancel2 plus_1_eq_Suc add.commute le_zero_eq)
  next
    assume "tPtr t \<notin> tPtr ` set_mset M \<and> distinct_ptrs M"
    then show "distinct_ptrs (add_mset t M)" using zero by (auto simp: distinct_ptrs_def)
  qed
qed

abbreviation handle_map :: "'m world \<Rightarrow> nat \<Rightarrow> handle" where
  "handle_map w \<equiv> \<lambda>p. tsMemHandle (wTasks w p)"

definition scan_ok :: "('m \<Rightarrow> handle set) \<Rightarrow> ('m \<Rightarrow> handle set) \<Rightarrow> scanScheduler \<Rightarrow> 'm world \<Rightarrow>
    task multiset \<Rightarrow> nat set \<Rightarrow> bool" where
  "scan_ok held issued s w F L \<longleftrightarrow>
     tq_inv (ssTaskQueue s) w \<and> distinct_ptrs (live_tasks s F) \<and>
     handles_ok (held (wMem w)) (issued (wMem w)) (handle_map w) (tPtr ` set_mset (live_tasks s F)) L
       (ssHandleToUnlock s) \<and>
     sbInFlight (ssBase s) = int (size F) \<and>
     counts_for (sbChunkTasks (ssBase s)) (image_mset getChunkId F)"

lemma handle_map_set [simp]:
  "handle_map (setMemHandle t h w) = (handle_map w)(tPtr t := h)"
  "handle_map (setMemMan t w) = handle_map w"
  by (auto simp: setMemHandle_def setMemMan_def)

lemma acquires_frame: "acquires vt S n w w' \<Longrightarrow> p \<notin> tPtr ` S \<Longrightarrow> wTasks w' p = wTasks w p"
  by (induction rule: acquires.induct) (auto simp: setMemHandle_def)

lemma hasMemHandle_invalid: "\<not> hasMemHandle s \<longleftrightarrow> tsMemHandle s = H_INVALID"
  by (simp add: hasMemHandle_def)

context memman_contract
begin

lemma acquires_ok:
  assumes "acquires vt S n w w'" "inv (wMem w)" "n \<le> budget (wMem w)" "tPtr ` S \<subseteq> P"
    and "handles_ok (held (wMem w)) (issued (wMem w)) (handle_map w) P L h0"
  shows "inv (wMem w') \<and> budget (wMem w) \<le> budget (wMem w') + n \<and>
    handles_ok (held (wMem w')) (issued (wMem w')) (handle_map w') P L h0"
  using assms
proof (induction rule: acquires.induct)
  case (none w)
  then show ?case by simp
next
  case (refused n w w1 ts c e m)
  then have i: "inv (wMem w1)" "0 < budget (wMem w1)" by auto
  then show ?case
    using refused prepare_inv [OF i refused.hyps(2)] prepare_budget [OF i refused.hyps(2)]
      prepare_nothing [OF i refused.hyps(2)] prepare_issued [OF i refused.hyps(2)] by auto
next
  case (granted n w w1 ts c h e m t)
  then have i: "inv (wMem w1)" "0 < budget (wMem w1)" by auto
  note p = prepare_inv [OF i granted.hyps(2)] prepare_budget [OF i granted.hyps(2)]
    prepare_nothing [OF i granted.hyps(2)] prepare_issued [OF i granted.hyps(2)] prepare_fresh [OF i granted.hyps(2)]
  have ok: "handles_ok (held (wMem w1)) (issued (wMem w1)) (handle_map w1) P L h0"
    and t: "tPtr t \<in> P" "handle_map w1 (tPtr t) = H_INVALID"
    using granted by (auto simp: hasMemHandle_invalid)
  have "handles_ok (held m) (issued m) ((handle_map w1)(tPtr t := h)) P L h0"
  proof (cases "h = H_ISEMPTY")
    case True
    then show ?thesis using handles_ok_empty [OF ok t] p by simp
  next
    case False
    then show ?thesis using handles_ok_grant [OF ok t, of h] p granted.hyps(3) by (simp add: real_handle_def)
  qed
  then show ?case using p granted.IH granted.prems by simp
next
  case (absent n w w1 ts c e m t)
  then have i: "inv (wMem w1)" "0 < budget (wMem w1)" by auto
  have ok: "handles_ok (held (wMem w1)) (issued (wMem w1)) (handle_map w1) P L h0"
    and t: "tPtr t \<in> P" "handle_map w1 (tPtr t) = H_INVALID"
    using absent by (auto simp: hasMemHandle_invalid)
  show ?case
    using absent handles_ok_empty [OF ok t] prepare_inv [OF i absent.hyps(2)] prepare_budget [OF i absent.hyps(2)]
      prepare_nothing [OF i absent.hyps(2)] prepare_issued [OF i absent.hyps(2)] by simp
qed

text \<open>A call of the collection: its tasks may have got handles, its contents are the same.\<close>

lemma collection_step:
  assumes "scan_ok held issued s w F L" "acquires vt (set_mset (tq_contents (ssTaskQueue s))) n w w1"
    and "tq_inv tq w1" "tq_contents tq = tq_contents (ssTaskQueue s)" "inv (wMem w)" "n \<le> budget (wMem w)"
  shows "inv (wMem w1) \<and> budget (wMem w) \<le> budget (wMem w1) + n \<and> scan_ok held issued (s\<lparr>ssTaskQueue := tq\<rparr>) w1 F L"
proof -
  have "inv (wMem w1) \<and> budget (wMem w) \<le> budget (wMem w1) + n \<and>
      handles_ok (held (wMem w1)) (issued (wMem w1)) (handle_map w1) (tPtr ` set_mset (live_tasks s F)) L (ssHandleToUnlock s)"
    using assms(1) by (intro acquires_ok [OF assms(2,5,6)]) (auto simp: scan_ok_def)
  then show ?thesis using assms(1,3,4) by (simp add: scan_ok_def)
qed

lemma collection_ready:
  assumes "scan_ok held issued s w F L" "inv (wMem w)" "2 \<le> budget (wMem w)"
    and r: "tcReady tq_tc vt sb fl (ssTaskQueue s) w = Inr (b, tq, w1)"
  shows "inv (wMem w1) \<and> budget (wMem w) \<le> budget (wMem w1) + 2 \<and>
    scan_ok held issued (s\<lparr>ssTaskQueue := tq\<rparr>) w1 F L \<and> tq_contents tq = tq_contents (ssTaskQueue s)"
proof -
  have q: "tq_inv (ssTaskQueue s) w" using assms(1) by (simp add: scan_ok_def)
  obtain n where n: "n \<le> 2" "acquires vt (set_mset (tq_contents (ssTaskQueue s))) n w w1"
    using tq.ready_world [OF q r] by blast
  show ?thesis
    using collection_step [OF assms(1) n(2) tq.ready_inv [OF q r] tq.ready_contents [OF q r] assms(2)] n(1) assms(3)
      tq.ready_contents [OF q r] by auto
qed

lemma unlock_old_ok:
  assumes ok: "scan_ok held issued s w F L" and i: "inv (wMem w)" and u: "ss_unlock_old vt s w = (s', w')"
  shows "inv (wMem w') \<and> budget (wMem w') = budget (wMem w) \<and> scan_ok held issued s' w' F L \<and>
    ssHandleToUnlock s' = H_INVALID \<and> ssTaskQueue s' = ssTaskQueue s \<and> ssBase s' = ssBase s \<and> wTasks w' = wTasks w"
proof (cases "ssHandleToUnlock s = H_INVALID")
  case True
  then show ?thesis using assms by (simp add: ss_unlock_old_def)
next
  case False
  obtain found m where m: "mmUnlock vt (ssHandleToUnlock s) (wMem w) = (found, m)" by fastforce
  have eq: "s' = s\<lparr>ssHandleToUnlock := H_INVALID\<rparr>" "w' = w\<lparr>wMem := m\<rparr>"
    using u False m by (auto simp: ss_unlock_old_def)
  have "handles_ok (held m) (issued m) (handle_map w) (tPtr ` set_mset (live_tasks s F)) L H_INVALID"
    using ok handles_ok_unlock_old unlock_held [OF i m] unlock_issued [OF i m] by (fastforce simp: scan_ok_def)
  moreover have "tq_inv (ssTaskQueue s) w'" using ok tq.inv_world eq by (fastforce simp: scan_ok_def)
  ultimately show ?thesis
    using ok eq unlock_inv [OF i m] unlock_budget [OF i m] by (simp add: scan_ok_def)
qed

lemma scheduler_ready:
  assumes ok: "scan_ok held issued s w F L" and i: "inv (wMem w)" and b: "4 \<le> budget (wMem w)"
    and r: "ScanScheduler_ready vt s w = Inr (rdy, s', w')"
  shows "inv (wMem w') \<and> budget (wMem w) \<le> budget (wMem w') + 4 \<and> scan_ok held issued s' w' F L \<and>
    ssBase s' = ssBase s \<and> (rdy \<longrightarrow> sbInFlight (ssBase s) < maxInFlight (ssBase s))"
proof (cases "maxInFlight (ssBase s) \<le> sbInFlight (ssBase s) \<or> isChunkDisk (ssTaskQueue s)
    \<and> tcNextTaskDifferentChunkId (tq_tc :: (taskQueue, 'm) taskCollection) (ssTaskQueue s)
    \<and> sbMaxActiveChunks (ssBase s) \<le> getActiveChunkCount (ssBase s)")
  case True
  then show ?thesis using ok i r by (auto simp: ScanScheduler_ready_def split: if_splits)
next
  case False
  let ?fl = "sbInFlight (ssBase s) < 1"
  have r': "(case tcReady tq_tc vt (Some (ssBase s)) ?fl (ssTaskQueue s) w of
           Inl e \<Rightarrow> Inl e
         | Inr (rdy, tq, w1) \<Rightarrow>
             (let s1 = s\<lparr>ssTaskQueue := tq\<rparr> in
              if ssHandleToUnlock s1 \<noteq> H_INVALID then
                (let (s2, w2) = ss_unlock_old vt s1 w1 in
                 if \<not> rdy then
                   (case tcReady tq_tc vt (Some (ssBase s2)) ?fl (ssTaskQueue s2) w2 of
                      Inl e \<Rightarrow> Inl e
                    | Inr (rdy2, tq2, w3) \<Rightarrow> Inr (rdy2, s2\<lparr>ssTaskQueue := tq2\<rparr>, w3))
                 else Inr (rdy, s2, w2))
              else Inr (rdy, s1, w1))) = Inr (rdy, s', w')"
    using r False by (auto simp: ScanScheduler_ready_def Let_def split: if_splits)
  then obtain rdy1 tq w1 where t: "tcReady tq_tc vt (Some (ssBase s)) ?fl (ssTaskQueue s) w = Inr (rdy1, tq, w1)"
    by (auto split: sum.splits)
  let ?s1 = "s\<lparr>ssTaskQueue := tq\<rparr>"
  have 1: "inv (wMem w1)" "budget (wMem w) \<le> budget (wMem w1) + 2" "scan_ok held issued ?s1 w1 F L"
    using collection_ready [OF ok i _ t] b by auto
  obtain s2 w2 where u: "ss_unlock_old vt ?s1 w1 = (s2, w2)" by fastforce
  note 2 = unlock_old_ok [OF 1(3,1) u]
  show ?thesis
  proof (cases "ssHandleToUnlock s = H_INVALID \<or> rdy1")
    case True
    then show ?thesis using r' t u 1 2 False by (auto simp: Let_def split: if_splits)
  next
    case no: False
    then obtain tq2 w3 where t2: "tcReady tq_tc vt (Some (ssBase s2)) ?fl (ssTaskQueue s2) w2 = Inr (rdy, tq2, w3)"
      and s': "s' = s2\<lparr>ssTaskQueue := tq2\<rparr>" "w' = w3"
      using r' t u by (auto simp: Let_def split: sum.splits)
    show ?thesis
      using collection_ready [OF _ _ _ t2, of F L] 1 2 b s' False by (auto simp: not_le)
  qed
qed

lemma scheduler_get:
  assumes ok: "scan_ok held issued s w F L" and i: "inv (wMem w)" and b: "6 \<le> budget (wMem w)"
    and g: "ScanScheduler_getCmd vt s w = Inr (r, s', w')"
  shows "inv (wMem w') \<and> scan_ok held issued s' w' (case r of None \<Rightarrow> F | Some t \<Rightarrow> add_mset t F) L"
proof -
  obtain rdy s1 w1 where y: "ScanScheduler_ready vt s w = Inr (rdy, s1, w1)"
    using g by (auto simp: ScanScheduler_getCmd_def split: sum.splits)
  have 1: "inv (wMem w1)" "2 \<le> budget (wMem w1)" "scan_ok held issued s1 w1 F L"
    using scheduler_ready [OF ok i _ y] b by auto
  have q: "tq_inv (ssTaskQueue s1) w1" using 1(3) by (simp add: scan_ok_def)
  show ?thesis
  proof (cases rdy)
    case False
    then show ?thesis using g y 1 by (simp add: ScanScheduler_getCmd_def)
  next
    case True
    let ?b = "(ssBase s1)\<lparr>sbInFlight := sbInFlight (ssBase s1) + 1\<rparr>"
    obtain tq where t: "tcGetTask tq_tc vt (Some (ssBase s1)) (sbInFlight (ssBase s1) < 1) (ssTaskQueue s1) w1 = Inr (r, tq, w')"
      and s': "s' = (case r of None \<Rightarrow> s1\<lparr>ssTaskQueue := tq\<rparr>
        | Some t \<Rightarrow> s1\<lparr>ssTaskQueue := tq, ssBase := incrChunkTaskCount (getChunkId t) (snd (decrCountForUserQuery (tQId t) ?b))\<rparr>)"
      using g y True by (auto simp: ScanScheduler_getCmd_def Let_def split: sum.splits option.splits)
    obtain n where n: "n \<le> 2" "acquires vt (set_mset (tq_contents (ssTaskQueue s1))) n w1 w'"
      using tq.get_world [OF q t] by blast
    have live: "live_tasks s1 F = live_tasks s' (case r of None \<Rightarrow> F | Some t \<Rightarrow> add_mset t F)"
      using tq.get_contents [OF q t] s' by (cases r) auto
    have "inv (wMem w') \<and> budget (wMem w1) \<le> budget (wMem w') + n \<and>
      handles_ok (held (wMem w')) (issued (wMem w')) (handle_map w') (tPtr ` set_mset (live_tasks s1 F)) L (ssHandleToUnlock s1)"
      using 1 n(1) by (intro acquires_ok [OF n(2)]) (auto simp: scan_ok_def)
    moreover have "tq_inv (ssTaskQueue s') w'" using tq.get_inv [OF q t] s' by (cases r) auto
    moreover have "sbInFlight (ssBase s') = int (size (case r of None \<Rightarrow> F | Some t \<Rightarrow> add_mset t F))"
      "counts_for (sbChunkTasks (ssBase s')) (image_mset getChunkId (case r of None \<Rightarrow> F | Some t \<Rightarrow> add_mset t F))"
      "ssHandleToUnlock s' = ssHandleToUnlock s1"
      using 1(3) s' by (cases r; simp add: scan_ok_def counts_for_incr)+
    ultimately show ?thesis using 1(3) unfolding scan_ok_def live by simp
  qed
qed

lemma scheduler_finish:
  assumes ok: "scan_ok held issued s w F L" and i: "inv (wMem w)" and t: "t \<in># F"
    and f: "ScanScheduler_commandFinish vt (TaskCmd t) s w = (s', w')"
  shows "inv (wMem w') \<and> scan_ok held issued s' w' (F - {#t#}) (L - {tPtr t})"
proof -
  let ?tq = "tcTaskComplete (tq_tc :: (taskQueue, 'm) taskCollection) t (ssTaskQueue s)"
  let ?s2 = "s\<lparr>ssTaskQueue := ?tq, ssBase := (ssBase s)\<lparr>sbInFlight := sbInFlight (ssBase s) - 1\<rparr>\<rparr>"
  have q: "tq_inv (ssTaskQueue s) w" using ok by (simp add: scan_ok_def)
  have c: "tq_inv ?tq w" "tq_contents ?tq = tq_contents (ssTaskQueue s)"
    using tq.complete_inv [OF q] tq.complete_contents [OF q] by auto
  have ok1: "scan_ok held issued (s\<lparr>ssTaskQueue := ?tq\<rparr>) w F L" using ok c by (simp add: scan_ok_def)
  obtain s3 w3 where u: "ss_unlock_old vt (s\<lparr>ssTaskQueue := ?tq\<rparr>) w = (s3, w3)" by fastforce
  have u2: "ss_unlock_old vt ?s2 w = (s3\<lparr>ssBase := (ssBase s)\<lparr>sbInFlight := sbInFlight (ssBase s) - 1\<rparr>\<rparr>, w3)"
    using u by (auto simp: ss_unlock_old_def split: if_splits)
  have 3: "inv (wMem w3)" "scan_ok held issued s3 w3 F L" "ssHandleToUnlock s3 = H_INVALID" "ssBase s3 = ssBase s"
    "ssTaskQueue s3 = ?tq" "wTasks w3 = wTasks w"
    using unlock_old_ok [OF ok1 i u] by simp_all
  obtain M where F: "F = add_mset t M" using t by (metis insert_DiffM)
  obtain found m where m: "mmUnlock vt (handle_map w3 (tPtr t)) (wMem w3) = (found, m)" by fastforce
  let ?P = "tPtr ` set_mset (live_tasks s3 F)"
  have ptrs: "tPtr ` set_mset (live_tasks s3 M) = ?P - {tPtr t}"
    using 3(2) by (auto simp: scan_ok_def F)
  have hok: "handles_ok (held (wMem w3)) (issued (wMem w3)) (handle_map w3) ?P L H_INVALID" and tp: "tPtr t \<in> ?P"
    using 3(2,3) by (auto simp: scan_ok_def F)
  note rel = handles_ok_release [OF hok tp, folded ptrs] and def = handles_ok_defer [OF hok tp, folded ptrs]
  have base: "tq_inv (ssTaskQueue s3) w3" "distinct_ptrs (live_tasks s3 M)" "sbInFlight (ssBase s) - 1 = int (size M)"
    "counts_for (count_decr (getChunkId t) (sbChunkTasks (ssBase s))) (image_mset getChunkId M)"
    using 3(2,4) counts_for_decr [of "sbChunkTasks (ssBase s)" "image_mset getChunkId F" "getChunkId t"]
    by (auto simp: scan_ok_def F)
  show ?thesis
  proof (cases "tcEmpty (tq_tc :: (taskQueue, 'm) taskCollection) ?tq")
    case True
    then have eq: "s' = s3\<lparr>ssBase := decrChunkTaskCount (getChunkId t) ((ssBase s)\<lparr>sbInFlight := sbInFlight (ssBase s) - 1\<rparr>)\<rparr>"
        "w' = w3\<lparr>wMem := m\<rparr>"
      using f u2 3(5) m by (auto simp: ScanScheduler_commandFinish_def Let_def)
    have "tq_inv (ssTaskQueue s3) w'" using base(1) tq.inv_world eq by fastforce
    then show ?thesis
      using rel base eq unlock_inv [OF 3(1) m] unlock_held [OF 3(1) m] unlock_issued [OF 3(1) m]
      by (simp add: scan_ok_def F 3(3))
  next
    case False
    then have eq: "s' = s3\<lparr>ssBase := decrChunkTaskCount (getChunkId t) ((ssBase s)\<lparr>sbInFlight := sbInFlight (ssBase s) - 1\<rparr>),
        ssHandleToUnlock := handle_map w3 (tPtr t)\<rparr>" "w' = w3"
      using f u2 3(5) by (auto simp: ScanScheduler_commandFinish_def Let_def)
    show ?thesis
      using def base eq 3(1) by (simp add: scan_ok_def F)
  qed
qed

lemma scheduler_wait:
  assumes ok: "scan_ok held issued s w F L" and i: "inv (wMem w)" and t: "t \<in># F"
    and l: "mmLock vt (handle_of t w) True (wMem w) = (rc, m)"
  shows "inv (wMem (waitForMemMan vt t w)) \<and>
    scan_ok held issued s (waitForMemMan vt t w) F (if rc = 0 then L else insert (tPtr t) L)"
proof -
  let ?w = "waitForMemMan vt t w" and ?L = "if rc = 0 then L else insert (tPtr t) L"
  let ?P = "tPtr ` set_mset (live_tasks s F)"
  have hm: "handle_map ?w = handle_map w" by (auto simp: waitForMemMan_def Let_def)
  have mem: "wMem ?w = (if tsHasMemMan (task_st t w) then m else wMem w)"
    using l by (simp add: waitForMemMan_def Let_def)
  have hok: "handles_ok (held (wMem w)) (issued (wMem w)) (handle_map w) ?P L (ssHandleToUnlock s)" and tp: "tPtr t \<in> ?P"
    using ok t by (auto simp: scan_ok_def)
  have "handles_ok (held (wMem ?w)) (issued (wMem ?w)) (handle_map w) ?P ?L (ssHandleToUnlock s)"
    using hok handles_ok_lost [OF hok, of "insert (tPtr t) L"] handles_ok_drop [OF hok tp] lock_held [OF i l] lock_issued [OF i l]
    by (auto simp: mem)
  moreover have "tq_inv (ssTaskQueue s) ?w"
    using ok tq.inv_world [of "ssTaskQueue s" w ?w] fun_cong [OF hm] by (simp add: scan_ok_def hasMemHandle_def)
  moreover have "inv (wMem ?w)" using i lock_inv [OF i l] mem by simp
  ultimately show ?thesis using ok by (simp add: scan_ok_def hm)
qed

lemma scheduler_que:
  assumes ok: "scan_ok held issued s w F L" and new: "tPtr t \<notin># image_mset tPtr (live_tasks s F)"
    and h: "handle_of t w = H_INVALID" and q: "ScanScheduler_queCmd (TaskCmd t) s w = (s', w')"
  shows "wMem w' = wMem w \<and> scan_ok held issued s' w' F L"
proof -
  have i: "tq_inv (ssTaskQueue s) w" using ok by (simp add: scan_ok_def)
  have eq: "s' = s\<lparr>ssBase := snd (incrCountForUserQuery (tQId t) (ssBase s)),
      ssTaskQueue := tcQueueTask (tq_tc :: (taskQueue, 'm) taskCollection) t (ssTaskQueue s)\<rparr>" "w' = setMemMan t w"
    using q by (auto simp: ScanScheduler_queCmd_def)
  have "tq_inv (ssTaskQueue s') w'"
    using tq.inv_world [OF tq.queue_inv [OF i, of t], of w'] eq by (simp add: hasMemHandle_def)
  moreover have "live_tasks s' F = add_mset t (live_tasks s F)"
    using tq.queue_contents [OF i, of t] eq by simp
  moreover have "handles_ok (held (wMem w)) (issued (wMem w)) (handle_map w)
      (insert (tPtr t) (tPtr ` set_mset (live_tasks s F))) L (ssHandleToUnlock s)"
    using ok handles_ok_new [of _ _ "handle_map w" _ _ _ "tPtr t"] h by (simp add: scan_ok_def)
  moreover have "distinct_ptrs (add_mset t (live_tasks s F))" using ok new by (auto simp: scan_ok_def)
  ultimately show ?thesis using ok eq by (simp add: scan_ok_def)
qed

lemma scheduler_alloc:
  assumes ok: "scan_ok held issued s w F L" and p: "p \<notin># image_mset tPtr (live_tasks s F)"
  shows "scan_ok held issued s (w\<lparr>wTasks := (wTasks w)(p := x)\<rparr>) F L"
proof -
  let ?w = "w\<lparr>wTasks := (wTasks w)(p := x)\<rparr>"
  have "tq_inv (ssTaskQueue s) ?w" by (rule tq.inv_world [of _ w]) (use ok p in \<open>auto simp: scan_ok_def\<close>)
  moreover have "handles_ok (held (wMem w)) (issued (wMem w)) (handle_map ?w) (tPtr ` set_mset (live_tasks s F)) L (ssHandleToUnlock s)"
    by (rule handles_ok_cong [where hm = "handle_map w"]) (use ok p in \<open>auto simp: scan_ok_def\<close>)
  ultimately show ?thesis using ok by (simp add: scan_ok_def)
qed

lemma scheduler_remove:
  assumes ok: "scan_ok held issued s w F L" and r: "ScanScheduler_removeTask t removeRunning s w = (rm, s', w')"
    and h: "\<And>u. tq_contents (ssTaskQueue s) = add_mset u (tq_contents (ssTaskQueue s')) \<Longrightarrow> handle_of u w = H_INVALID"
  shows "wMem w' = wMem w \<and> scan_ok held issued s' w' F L"
proof -
  have i: "tq_inv (ssTaskQueue s) w" using ok by (simp add: scan_ok_def)
  obtain u tq where c: "tcRemoveTask (tq_tc :: (taskQueue, 'm) taskCollection) t (ssTaskQueue s) = (u, tq)" by fastforce
  have s': "s' = s\<lparr>ssTaskQueue := tq\<rparr>" and hm: "handle_map w' = handle_map w" and mem: "wMem w' = wMem w"
    using r c by (auto simp: ScanScheduler_removeTask_def Let_def split: if_splits)
  have tq': "tq_inv tq w'"
    using tq.inv_world [OF tq.remove_inv [OF i c], of w'] fun_cong [OF hm] by (simp add: hasMemHandle_def)
  have cont: "tq_contents (ssTaskQueue s) = (case u of None \<Rightarrow> tq_contents tq | Some u \<Rightarrow> add_mset u (tq_contents tq))"
    by (rule tq.remove_contents [OF i c])
  show ?thesis
  proof (cases u)
    case None
    then show ?thesis using ok cont tq' mem s' by (simp add: scan_ok_def hm)
  next
    case (Some v)
    then have hv: "handle_map w (tPtr v) = H_INVALID" using h cont s' by simp
    have ptrs: "tPtr ` set_mset (live_tasks s' F) = tPtr ` set_mset (live_tasks s F) - {tPtr v}"
      using ok cont Some s' by (auto simp: scan_ok_def)
    have "handles_ok (held (wMem w)) (issued (wMem w)) (handle_map w) (tPtr ` set_mset (live_tasks s' F)) L (ssHandleToUnlock s)"
      using ok handles_ok_less [of _ _ "handle_map w" _ _ _ "tPtr v", OF _ hv] unfolding scan_ok_def ptrs by blast
    then show ?thesis using ok cont Some tq' mem s' by (simp add: scan_ok_def hm)
  qed
qed

lemma scan_reach_ok:
  assumes "scan_reach vt budget s0 m0 s w F L" "inv m0" "held m0 = {}"
    and "tq_contents (ssTaskQueue s0) = {#}" "\<And>w :: 'm world. tq_inv (ssTaskQueue s0) w"
    and "ssHandleToUnlock s0 = H_INVALID" "sbInFlight (ssBase s0) = 0" "sbChunkTasks (ssBase s0) = []"
  shows "inv (wMem w) \<and> scan_ok held issued s w F L"
  using assms
proof (induction rule: scan_reach.induct)
  case start
  then show ?case by (simp add: scan_ok_def handles_ok_def)
next
  case (alloc s w F L p)
  then show ?case using scheduler_alloc by simp
next
  case (que s w F L t s' w')
  then show ?case using scheduler_que [of s w F L t s' w'] by simp
next
  case (ready s w F L b s' w')
  then show ?case using scheduler_ready [of s w F L b s' w'] by simp
next
  case (get s w F L r s' w')
  then show ?case using scheduler_get [of s w F L r s' w'] by simp
next
  case (wait s w F L t rc m)
  then show ?case using scheduler_wait [of s w F L t rc m] by simp
next
  case (finish s w F L t s' w')
  then show ?case using scheduler_finish [of s w F L t s' w'] by simp
next
  case (remove s w F L t removeRunning rm s' w')
  then show ?case using scheduler_remove [of s w F L t removeRunning rm s' w'] by simp
qed

end

section \<open>A running task has a handle\<close>

lemma scan_new_start:
  assumes "ScanScheduler_new name threads reserve prio chunks lo hi minutes = Inr s0"
  shows "tq_contents (ssTaskQueue s0) = {#}" "tq_inv (ssTaskQueue s0) w" "ssHandleToUnlock s0 = H_INVALID"
    "sbInFlight (ssBase s0) = 0" "sbChunkTasks (ssBase s0) = []"
  using assms
  by (auto simp: ScanScheduler_new_def SchedulerBase_new_def setMaxActiveChunks_def tq_defs ChunkTasksQueue_new_def
      cq_contents_def cq_inv_def cq_ok_def split: if_splits)

lemmas scan_new_ok = mm_real.scan_reach_ok [OF _ _ _ scan_new_start]

lemma scan_real_ok:
  assumes "os_documented os sz" "\<forall>mid. snd (cfg mid) < 2 ^ 64"
    and "ScanScheduler_new name threads reserve prio chunks lo hi minutes = Inr s0"
    and "scan_reach (memManReal os mid) mm_budget s0 (mm_init cfg) s w F L"
  shows "mm_ok sz {#} (wMem w) \<and> scan_ok (mm_held mid) mm_issued s w F L"
proof -
  have i: "mm_real_inv os sz (mm_init cfg)" using assms(1,2) mm_init_ok [of cfg sz] by (simp add: mm_real_inv_def)
  have "mm_held mid (mm_init cfg) = {}" by (simp add: mm_held_def mm_init_def)
  then have "mm_real_inv os sz (wMem w) \<and> scan_ok (mm_held mid) mm_issued s w F L"
    using scan_new_ok [OF assms(4) i _ assms(3,3,3,3,3)] by simp
  then show ?thesis by (simp add: mm_real_inv_def)
qed

lemma scan_ready_frame:
  assumes q: "tq_inv (ssTaskQueue s) w" and r: "ScanScheduler_ready vt s w = Inr (rdy, s', w')"
  shows "ssBase s' = ssBase s \<and> tq_inv (ssTaskQueue s') w' \<and> tq_contents (ssTaskQueue s') = tq_contents (ssTaskQueue s)
    \<and> (rdy \<longrightarrow> sbInFlight (ssBase s) < maxInFlight (ssBase s))"
proof -
  have unlock: "ssBase s2 = ssBase s1 \<and> ssTaskQueue s2 = ssTaskQueue s1 \<and> wTasks w2 = wTasks w1"
    if "ss_unlock_old vt s1 w1 = (s2, w2)" for s1 s2 w1 w2
    using that by (auto simp: ss_unlock_old_def split: if_splits)
  have inv2: "tq_inv tq w2" if "tq_inv tq w1" "wTasks w2 = wTasks w1" for tq and w1 w2 :: "'a world"
    by (rule tq.inv_world [OF that(1)]) (simp add: that(2))
  have ready: "tq_inv tq w2 \<and> tq_contents tq = tq_contents tq0"
    if "tcReady tq_tc vt sb fl tq0 w1 = Inr (b, tq, w2)" "tq_inv tq0 w1" for sb fl tq0 w1 b tq w2
    using tq.ready_inv [OF that(2,1)] tq.ready_contents [OF that(2,1)] by blast
  show ?thesis
    using r q unfolding ScanScheduler_ready_def Let_def
    by (auto split: if_splits sum.splits prod.splits dest!: ready unlock dest: inv2)
qed

section \<open>Properties\<close>

text \<open>Concrete run: one task is queued, delivered and finished.\<close>

definition demo_scan :: "sched_error + scanScheduler" where
  "demo_scan = ScanScheduler_new ''scan'' 4 2 1 3 0 100 60"

definition demo_scan_run :: "sched_error + (task option \<times> scanScheduler \<times> mmState world)" where
  "demo_scan_run = (case demo_scan of Inl e \<Rightarrow> Inl e
     | Inr s0 \<Rightarrow> (case ScanScheduler_queCmd (TaskCmd (demo_task 1 7 [1])) s0 \<lparr>wTasks = (\<lambda>_. taskSt_new), wMem = mm_init cfg_15\<rparr> of
         (s1, w1) \<Rightarrow> ScanScheduler_getCmd (memManReal os_good 0) s1 w1))"

lemma demo_scan_run_value:
  "\<exists>s0 s w. demo_scan = Inr s0 \<and> demo_scan_run = Inr (Some (demo_task 1 7 [1]), s, w)
     \<and> handle_of (demo_task 1 7 [1]) w = 2
     \<and> scan_reach (memManReal os_good 0) mm_budget s0 (mm_init cfg_15) s w {#demo_task 1 7 [1]#} {}"
proof -
  let ?t = "demo_task 1 7 [1]" and ?w0 = "\<lparr>wTasks = (\<lambda>_. taskSt_new), wMem = mm_init cfg_15\<rparr>"
  have "case demo_scan of Inl e \<Rightarrow> False | Inr s0 \<Rightarrow> tq_read (\<lambda>q. cqChunkMap q = []) (\<lambda>d. False) (ssTaskQueue s0)" by code_simp
  then obtain s0 where s0: "demo_scan = Inr s0" by (auto split: sum.splits)
  obtain s1 w1 where q: "ScanScheduler_queCmd (TaskCmd ?t) s0 ?w0 = (s1, w1)" by fastforce
  have run: "demo_scan_run = ScanScheduler_getCmd (memManReal os_good 0) s1 w1"
    using q by (simp add: demo_scan_run_def s0)
  have "case demo_scan_run of Inl e \<Rightarrow> False
      | Inr (r, s, w) \<Rightarrow> r = Some ?t \<and> tsMemHandle (wTasks w 1) = 2" by code_simp
  then obtain s w where r: "demo_scan_run = Inr (Some ?t, s, w)" "tsMemHandle (wTasks w 1) = 2"
    by (auto split: sum.splits)
  have p: "tPtr ?t = 1" by (simp add: demo_task_def Task_new_def)
  have "tq_contents (ssTaskQueue s0) = {#}"
    by (rule scan_new_start) (use s0 in \<open>simp add: demo_scan_def\<close>)
  then have 1: "scan_reach (memManReal os_good 0) mm_budget s0 (mm_init cfg_15) s1 w1 {#} {}"
    using scan_reach.que [OF scan_reach.start _ _ q] by (simp add: taskSt_new_def)
  have "mm_budget (wMem w1) = 2 ^ 64 - 2"
    using q by (auto simp: ScanScheduler_queCmd_def mm_budget_def mm_init_def H_ISEMPTY_def)
  then have "scan_reach (memManReal os_good 0) mm_budget s0 (mm_init cfg_15) s w {#?t#} {}"
    using scan_reach.get [OF 1 _ r(1) [unfolded run]] by simp
  then show ?thesis using s0 r p by auto
qed

text \<open>
  C1. No memory handle leaks from a scan scheduler with the real memory manager. In every state that a
  run can reach, a handle the manager holds for the scheduler's memory belongs to a queued task, to a
  task in flight, or is the one whose unlocking was put off; so with an empty queue, no task in flight and no
  unlocking put off, no handle is held.
\<close>

theorem scan_no_handle_leak:
  assumes "os_documented os sz" and "\<forall>mid. snd (cfg mid) < 2 ^ 64"
    and "ScanScheduler_new name threads reserve prio chunks lo hi minutes = Inr s0"
    and "scan_reach (memManReal os mid) mm_budget s0 (mm_init cfg) s w F L"
  shows "mm_held mid (wMem w) \<subseteq> insert (ssHandleToUnlock s) ((\<lambda>t. handle_of t w) ` set_mset (live_tasks s F))
    \<and> (ScanScheduler_getSize s = 0 \<longrightarrow> F = {#} \<longrightarrow> ssHandleToUnlock s = H_INVALID \<longrightarrow> mm_held mid (wMem w) = {})"
proof -
  have ok: "scan_ok (mm_held mid) mm_issued s w F L" using scan_real_ok [OF assms] by blast
  have sub: "mm_held mid (wMem w) \<subseteq> insert (ssHandleToUnlock s) ((\<lambda>t. handle_of t w) ` set_mset (live_tasks s F))"
    and real: "Ball (mm_held mid (wMem w)) real_handle"
    using ok by (auto simp: scan_ok_def handles_ok_def owners_def)
  have "ScanScheduler_getSize s = int (size (tq_contents (ssTaskQueue s)))"
    using ok by (auto simp: scan_ok_def ScanScheduler_getSize_def tq_defs cq_inv_def cq_ok_def
        ChunkTasksQueue_getSize_def cd_size_contents split: taskQueue.splits)
  then show ?thesis using sub real not_real(1) by fastforce
qed

text \<open>
  After the task of the concrete run has finished its handle is put off (the queue still has an entry
  for the chunk), and the next look at the queue gives it back.
\<close>

definition demo_scan_end :: "sched_error + (task option \<times> scanScheduler \<times> mmState world)" where
  "demo_scan_end = (case demo_scan_run of Inl e \<Rightarrow> Inl e
     | Inr (r, s, w) \<Rightarrow> (case ScanScheduler_commandFinish (memManReal os_good 0) (TaskCmd (demo_task 1 7 [1])) s w of
         (s', w') \<Rightarrow> if handleNum (wMem w') = 2 then ScanScheduler_getCmd (memManReal os_good 0) s' w' else Inl Bug))"

lemma scan_no_handle_leak_witness:
  "\<exists>s0 s w. scan_reach (memManReal os_good 0) mm_budget s0 (mm_init cfg_15) s w {#} {} \<and> mm_held 0 (wMem w) = {}
     \<and> handleNum (wMem w) = 2"
proof -
  let ?t = "demo_task 1 7 [1]" and ?vt = "memManReal os_good 0"
  obtain s0 s w where s0: "demo_scan = Inr s0" and r: "demo_scan_run = Inr (Some ?t, s, w)"
    and reach: "scan_reach ?vt mm_budget s0 (mm_init cfg_15) s w {#?t#} {}"
    using demo_scan_run_value by blast
  obtain s1 w1 where f: "ScanScheduler_commandFinish ?vt (TaskCmd ?t) s w = (s1, w1)" by fastforce
  have "case demo_scan_end of Inl e \<Rightarrow> False
      | Inr (r, s, w) \<Rightarrow> r = None \<and> ScanScheduler_getSize s = 0 \<and> ssHandleToUnlock s = H_INVALID
          \<and> handleNum (wMem w) = 2" by code_simp
  then obtain s2 w2 where e: "demo_scan_end = Inr (None, s2, w2)"
    and v: "ScanScheduler_getSize s2 = 0" "ssHandleToUnlock s2 = H_INVALID" "handleNum (wMem w2) = 2"
    by (auto split: sum.splits)
  have n: "handleNum (wMem w1) = 2" and g: "ScanScheduler_getCmd ?vt s1 w1 = Inr (None, s2, w2)"
    using e by (simp_all only: demo_scan_end_def r f sum.case prod.case split: if_splits) simp_all
  have 1: "scan_reach ?vt mm_budget s0 (mm_init cfg_15) s1 w1 {#} {}"
    using scan_reach.finish [OF reach _ f] by simp
  have "scan_reach ?vt mm_budget s0 (mm_init cfg_15) s2 w2 {#} {}"
    using scan_reach.get [OF 1 _ g] n by (simp add: mm_budget_def)
  then show ?thesis
    using scan_no_handle_leak [OF os_good_documented _ s0 [unfolded demo_scan_def], of cfg_15 0 s2 w2 "{#}" "{}"] v
    by (auto simp: cfg_15_def)
qed

text \<open>
  C11. The tables of a running task stay reserved: in every state that a run can reach, the memory manager
  still holds the handle of each task in flight, unless the handle is the empty one or the strict lock
  of that task failed; and no two live tasks have the same handle, so finishing one task never
  releases the tables of another.
\<close>

theorem running_task_keeps_tables:
  assumes "os_documented os sz" and "\<forall>mid. snd (cfg mid) < 2 ^ 64"
    and "ScanScheduler_new name threads reserve prio chunks lo hi minutes = Inr s0"
    and "scan_reach (memManReal os mid) mm_budget s0 (mm_init cfg) s w F L"
    and "t \<in># F" and "handle_of t w \<noteq> H_INVALID" and "handle_of t w \<noteq> H_ISEMPTY"
  shows "(tPtr t \<notin> L \<longrightarrow> handle_of t w \<in> mm_held mid (wMem w)) \<and> handle_of t w \<noteq> ssHandleToUnlock s
    \<and> (\<forall>u \<in># live_tasks s F. handle_of u w = handle_of t w \<longrightarrow> tPtr u = tPtr t)"
proof -
  let ?O = "owners (handle_map w) (tPtr ` set_mset (live_tasks s F))"
  have h: "handles_ok (mm_held mid (wMem w)) (mm_issued (wMem w)) (handle_map w) (tPtr ` set_mset (live_tasks s F)) L
      (ssHandleToUnlock s)"
    using scan_real_ok [OF assms(1-4)] by (simp add: scan_ok_def)
  have t: "tPtr t \<in> ?O" using assms(5-7) by (simp add: owners_def real_handle_def)
  have same: "tPtr u = tPtr t" if u: "u \<in># live_tasks s F" "handle_of u w = handle_of t w" for u
  proof -
    have "tPtr u \<in> ?O" using u t by (auto simp: owners_def)
    then show ?thesis using handles_ok_owner(3) [OF h t, of "tPtr u"] u(2) by simp
  qed
  then show ?thesis using handles_ok_owner(1,2) [OF h t] by blast
qed

lemma running_task_keeps_tables_witness:
  "\<exists>s w. demo_scan_run = Inr (Some (demo_task 1 7 [1]), s, w) \<and> 2 \<in> mm_held 0 (wMem w)"
proof -
  obtain s0 s w where s0: "demo_scan = Inr s0" and r: "demo_scan_run = Inr (Some (demo_task 1 7 [1]), s, w)"
    and h: "handle_of (demo_task 1 7 [1]) w = 2"
    and reach: "scan_reach (memManReal os_good 0) mm_budget s0 (mm_init cfg_15) s w {#demo_task 1 7 [1]#} {}"
    using demo_scan_run_value by blast
  have "handle_of (demo_task 1 7 [1]) w \<in> mm_held 0 (wMem w)"
    using running_task_keeps_tables [OF os_good_documented _ s0 [unfolded demo_scan_def] reach, of "demo_task 1 7 [1]"] h
    by (simp add: cfg_15_def H_INVALID_def H_ISEMPTY_def)
  then show ?thesis using r h by auto
qed

text \<open>
  C29. The counters of a scan scheduler are exact: in every state that a run can reach, \<open>getInFlight\<close> is the
  number of tasks delivered and not finished, \<open>getActiveChunkCount\<close> the number of different chunks
  among them, \<open>chunkAlreadyActive\<close> tells whether a chunk is one of them, and \<open>getSize\<close> is the number of
  tasks on the queue.
\<close>

theorem scan_counters_exact:
  assumes "os_documented os sz" and "\<forall>mid. snd (cfg mid) < 2 ^ 64"
    and "ScanScheduler_new name threads reserve prio chunks lo hi minutes = Inr s0"
    and "scan_reach (memManReal os mid) mm_budget s0 (mm_init cfg) s w F L"
  shows "sbInFlight (ssBase s) = int (size F)
    \<and> getActiveChunkCount (ssBase s) = int (card (getChunkId ` set_mset F))
    \<and> (chunkAlreadyActive c (ssBase s) \<longleftrightarrow> (\<exists>t \<in># F. getChunkId t = c))
    \<and> ScanScheduler_getSize s = int (size (tq_contents (ssTaskQueue s)))"
proof -
  have ok: "scan_ok (mm_held mid) mm_issued s w F L" using scan_real_ok [OF assms] by blast
  then have c: "counts_for (sbChunkTasks (ssBase s)) (image_mset getChunkId F)" by (simp add: scan_ok_def)
  have "ScanScheduler_getSize s = int (size (tq_contents (ssTaskQueue s)))"
    using ok by (auto simp: scan_ok_def ScanScheduler_getSize_def tq_defs cq_inv_def cq_ok_def
        ChunkTasksQueue_getSize_def cd_size_contents split: taskQueue.splits)
  then show ?thesis
    using ok counts_for_size [OF c] counts_for_find [OF c, of c]
    by (auto simp: scan_ok_def getActiveChunkCount_def chunkAlreadyActive_def)
qed

lemma scan_counters_exact_witness:
  "\<exists>s w. demo_scan_run = Inr (Some (demo_task 1 7 [1]), s, w) \<and> sbInFlight (ssBase s) = 1
     \<and> getActiveChunkCount (ssBase s) = 1"
proof -
  obtain s0 s w where s0: "demo_scan = Inr s0" and r: "demo_scan_run = Inr (Some (demo_task 1 7 [1]), s, w)"
    and reach: "scan_reach (memManReal os_good 0) mm_budget s0 (mm_init cfg_15) s w {#demo_task 1 7 [1]#} {}"
    using demo_scan_run_value by blast
  then have "sbInFlight (ssBase s) = 1 \<and> getActiveChunkCount (ssBase s) = 1"
    using scan_counters_exact [OF os_good_documented _ s0 [unfolded demo_scan_def] reach] by (simp add: cfg_15_def)
  then show ?thesis using r by blast
qed

text \<open>
  A scan scheduler respects its thread limits: when \<open>getCmd\<close> delivers a task, the number of tasks in flight,
  this one included, is at most \<open>maxInFlight\<close> (the smaller of its own limit and the share of the pool's threads
  it was given), the task has a memory handle, and the user-query and chunk counters moved by one.
  This is so for every memory manager and every state of a well-formed queue.
\<close>

theorem scan_getCmd_within_limits:
  assumes "tq_inv (ssTaskQueue s) w" and "ScanScheduler_getCmd vt s w = Inr (Some t, s', w')"
  shows "sbInFlight (ssBase s') = sbInFlight (ssBase s) + 1 \<and> sbInFlight (ssBase s') \<le> maxInFlight (ssBase s')
    \<and> maxInFlight (ssBase s') = maxInFlight (ssBase s) \<and> hasMemHandle (task_st t w')
    \<and> sbChunkTasks (ssBase s') = count_incr (getChunkId t) (sbChunkTasks (ssBase s))
    \<and> sbUserQueryCounts (ssBase s') = count_decr (tQId t) (sbUserQueryCounts (ssBase s))
    \<and> tq_contents (ssTaskQueue s) = add_mset t (tq_contents (ssTaskQueue s'))"
proof -
  obtain rdy s1 w1 where y: "ScanScheduler_ready vt s w = Inr (rdy, s1, w1)"
    using assms(2) by (auto simp: ScanScheduler_getCmd_def split: sum.splits)
  have rdy: "rdy" using assms(2) y by (auto simp: ScanScheduler_getCmd_def split: if_splits)
  note r = scan_ready_frame [OF assms(1) y] rdy
  let ?b = "(ssBase s1)\<lparr>sbInFlight := sbInFlight (ssBase s1) + 1\<rparr>"
  obtain tq where g: "tcGetTask tq_tc vt (Some (ssBase s1)) (sbInFlight (ssBase s1) < 1) (ssTaskQueue s1) w1 = Inr (Some t, tq, w')"
    and s': "s' = s1\<lparr>ssTaskQueue := tq, ssBase := incrChunkTaskCount (getChunkId t) (snd (decrCountForUserQuery (tQId t) ?b))\<rparr>"
    using assms(2) y rdy by (auto simp: ScanScheduler_getCmd_def Let_def split: sum.splits option.splits)
  have "maxInFlight ?b = maxInFlight (ssBase s1)" by (simp add: maxInFlight_def)
  then show ?thesis
    using r s' tq.get_handle [OF _ g] tq.get_contents [OF _ g] by auto
qed

lemma scan_getCmd_within_limits_witness:
  "\<exists>s w. demo_scan_run = Inr (Some (demo_task 1 7 [1]), s, w) \<and> sbInFlight (ssBase s) \<le> maxInFlight (ssBase s)"
proof -
  let ?t = "demo_task 1 7 [1]" and ?w0 = "\<lparr>wTasks = (\<lambda>_. taskSt_new), wMem = mm_init cfg_15\<rparr>"
  obtain s0 s w where s0: "demo_scan = Inr s0" and r: "demo_scan_run = Inr (Some ?t, s, w)"
    using demo_scan_run_value by blast
  obtain s1 w1 where q: "ScanScheduler_queCmd (TaskCmd ?t) s0 ?w0 = (s1, w1)" by fastforce
  have i: "tq_inv (ssTaskQueue s1) w1"
    using tq.queue_inv [OF scan_new_start(2) [OF s0 [unfolded demo_scan_def]]] q by (auto simp: ScanScheduler_queCmd_def)
  have "ScanScheduler_getCmd (memManReal os_good 0) s1 w1 = Inr (Some ?t, s, w)"
    using r q by (simp add: demo_scan_run_def s0)
  from scan_getCmd_within_limits [OF i this] r show ?thesis by blast
qed

end
