(* ===== verification/Group_Scheduler.thy ===== *)
theory Group_Scheduler
  imports Task_Collection
begin

text \<open>
  \<open>wsched/GroupScheduler.h\<close> and \<open>GroupScheduler.cc\<close>: the scheduler of the interactive queries. Tasks are
  served in the order they came in, except that tasks of one chunk are grouped, up to a limit per
  group. \<open>getCmd\<close> is one evaluation of its wait condition: \<open>None\<close> is the null pointer of the call
  without waiting, and for a waiting call means that it goes on waiting.
\<close>

section \<open>GroupQueue\<close>

record groupQueue =
  gqHasChunkId :: bool
  gqChunkId :: int
  gqMaxAccepted :: int
  gqAccepted :: int
  gqTasks :: "task list"

definition GroupQueue_queTask :: "task \<Rightarrow> groupQueue \<Rightarrow> bool \<times> groupQueue" where
  "GroupQueue_queTask t g =
     (let hasChunkId = (tMsgChunkId t \<noteq> None) in
      if hasChunkId \<noteq> gqHasChunkId g then (False, g)
      else if hasChunkId \<and> msg_chunkid t \<noteq> gqChunkId g then (False, g)
      else if gqAccepted g < gqMaxAccepted g
      then (True, g\<lparr>gqAccepted := gqAccepted g + 1, gqTasks := gqTasks g @ [t]\<rparr>)
      else (False, g))"

text \<open>The constructor asserts that the group takes its first task.\<close>

definition GroupQueue_new :: "int \<Rightarrow> task \<Rightarrow> sched_error + groupQueue" where
  "GroupQueue_new maxAccepted t =
     (case GroupQueue_queTask t \<lparr>gqHasChunkId = (tMsgChunkId t \<noteq> None),
          gqChunkId = (if tMsgChunkId t \<noteq> None then msg_chunkid t else 0),
          gqMaxAccepted = maxAccepted, gqAccepted = 0, gqTasks = []\<rparr> of
        (ok, g) \<Rightarrow> if ok then Inr g else Inl AssertFailed)"

text \<open>\<open>front\<close> of an empty deque is undefined in C++; the invariant shows that it is never asked for.\<close>

definition GroupQueue_getTask :: "groupQueue \<Rightarrow> task option \<times> groupQueue" where
  "GroupQueue_getTask g =
     (case gqTasks g of [] \<Rightarrow> (None, g) | t # ts \<Rightarrow> (Some t, g\<lparr>gqTasks := ts\<rparr>))"

definition GroupQueue_isEmpty :: "groupQueue \<Rightarrow> bool" where
  "GroupQueue_isEmpty g \<longleftrightarrow> gqTasks g = []"

section \<open>GroupScheduler\<close>

record groupScheduler =
  gsBase :: schedBase
  gsQueue :: "groupQueue list"
  gsMaxGroupSize :: int

definition GroupScheduler_new :: "string \<Rightarrow> int \<Rightarrow> int \<Rightarrow> int \<Rightarrow> int \<Rightarrow> groupScheduler" where
  "GroupScheduler_new name maxThreads maxReserve maxGroupSize priority =
     \<lparr>gsBase = SchedulerBase_new name maxThreads maxReserve 0 priority, gsQueue = [],
      gsMaxGroupSize = maxGroupSize\<rparr>"

text \<open>The loop of \<open>queCmd\<close>: the first group that accepts the task.\<close>

fun gs_offer :: "task \<Rightarrow> groupQueue list \<Rightarrow> bool \<times> groupQueue list" where
  "gs_offer t [] = (False, [])"
| "gs_offer t (g # gs) =
     (case GroupQueue_queTask t g of (ok, g') \<Rightarrow>
        if ok then (True, g' # gs) else (case gs_offer t gs of (ok', gs') \<Rightarrow> (ok', g # gs')))"

definition GroupScheduler_queCmd :: "command \<Rightarrow> groupScheduler \<Rightarrow> sched_error + groupScheduler" where
  "GroupScheduler_queCmd cmd s =
     (case cmd of
        ControlCmd c \<Rightarrow> Inr s
      | TaskCmd t \<Rightarrow>
          (case gs_offer t (gsQueue s) of (queued, q) \<Rightarrow>
             (let count = (\<lambda>s. s\<lparr>gsBase := snd (incrCountForUserQuery (tQId t) (gsBase s))\<rparr>) in
              if queued then Inr (count (s\<lparr>gsQueue := q\<rparr>))
              else case GroupQueue_new (gsMaxGroupSize s) t of
                Inl e \<Rightarrow> Inl e
              | Inr g \<Rightarrow> Inr (count (s\<lparr>gsQueue := gsQueue s @ [g]\<rparr>)))))"

definition GroupScheduler_ready :: "groupScheduler \<Rightarrow> bool" where
  "GroupScheduler_ready s \<longleftrightarrow> gsQueue s \<noteq> [] \<and> sbInFlight (gsBase s) < maxInFlight (gsBase s)"

definition GroupScheduler_getCmd :: "groupScheduler \<Rightarrow> task option \<times> groupScheduler" where
  "GroupScheduler_getCmd s =
     (if \<not> GroupScheduler_ready s then (None, s)
      else case gsQueue s of
        [] \<Rightarrow> (None, s)
      | g # gs \<Rightarrow>
          (case GroupQueue_getTask g of
             (None, g') \<Rightarrow> (None, s)
           | (Some t, g') \<Rightarrow>
               (let s1 = s\<lparr>gsQueue := (if GroupQueue_isEmpty g' then gs else g' # gs)\<rparr>;
                    b = (gsBase s1)\<lparr>sbInFlight := sbInFlight (gsBase s1) + 1\<rparr>
                in (Some t, s1\<lparr>gsBase := incrChunkTaskCount (getChunkId t)
                                           (snd (decrCountForUserQuery (tQId t) b))\<rparr>))))"

definition GroupScheduler_commandFinish :: "command \<Rightarrow> groupScheduler \<Rightarrow> groupScheduler" where
  "GroupScheduler_commandFinish cmd s =
     (let b = (gsBase s)\<lparr>sbInFlight := sbInFlight (gsBase s) - 1\<rparr> in
      s\<lparr>gsBase := (case cmd of TaskCmd t \<Rightarrow> decrChunkTaskCount (getChunkId t) b | ControlCmd c \<Rightarrow> b)\<rparr>)"

definition GroupScheduler_empty :: "groupScheduler \<Rightarrow> bool" where
  "GroupScheduler_empty s \<longleftrightarrow> gsQueue s = []"

definition GroupScheduler_getSize :: "groupScheduler \<Rightarrow> int" where
  "GroupScheduler_getSize s = int (length (gsQueue s))"

section \<open>Invariant\<close>

text \<open>
  \<open>gs_tasks\<close> lists the queued tasks in the order in which they will be served. A group is not empty,
  holds tasks of one chunk only and at most as many as it accepted, which is at most the limit; of
  two groups for one chunk the first is full.
\<close>

definition gs_tasks :: "groupScheduler \<Rightarrow> task list" where
  "gs_tasks s = concat (map gqTasks (gsQueue s))"

definition group_chunk :: "groupQueue \<Rightarrow> int option" where
  "group_chunk g = (if gqHasChunkId g then Some (gqChunkId g) else None)"

definition group_ok :: "int \<Rightarrow> groupQueue \<Rightarrow> bool" where
  "group_ok n g \<longleftrightarrow> gqTasks g \<noteq> [] \<and> (\<forall>t \<in> set (gqTasks g). tMsgChunkId t = group_chunk g) \<and>
     int (length (gqTasks g)) \<le> gqAccepted g \<and> gqAccepted g \<le> gqMaxAccepted g \<and> gqMaxAccepted g = n"

definition full_before :: "groupQueue \<Rightarrow> groupQueue \<Rightarrow> bool" where
  "full_before g h \<longleftrightarrow> (group_chunk g = group_chunk h \<longrightarrow> gqAccepted g = gqMaxAccepted g)"

definition gs_ok :: "groupScheduler \<Rightarrow> bool" where
  "gs_ok s \<longleftrightarrow> (\<forall>g \<in> set (gsQueue s). group_ok (gsMaxGroupSize s) g) \<and> sorted_wrt full_before (gsQueue s) \<and>
     counts_for (sbUserQueryCounts (gsBase s)) (image_mset tQId (mset (gs_tasks s))) \<and> 1 \<le> gsMaxGroupSize s"

lemma msg_chunkid_Some: "tMsgChunkId t = Some c \<Longrightarrow> msg_chunkid t = c"
  by (simp add: msg_chunkid_def)

text \<open>A group accepts a task exactly when it is for the task's chunk and not full.\<close>

lemma queTask_accepts:
  "GroupQueue_queTask t g = (ok, g') \<Longrightarrow>
   (ok \<longleftrightarrow> tMsgChunkId t = group_chunk g \<and> gqAccepted g < gqMaxAccepted g) \<and>
   g' = (if ok then g\<lparr>gqAccepted := gqAccepted g + 1, gqTasks := gqTasks g @ [t]\<rparr> else g)"
  by (cases "tMsgChunkId t")
    (auto simp: GroupQueue_queTask_def group_chunk_def msg_chunkid_def Let_def split: if_splits)

text \<open>Where the task goes: into the last group of its chunk, or nowhere when that group is full.\<close>

lemma gs_offer_shape:
  assumes "gs_offer t gs = (ok, gs')"
  shows "(ok \<and> (\<exists>pre g post. gs = pre @ g # post
      \<and> gs' = pre @ g\<lparr>gqAccepted := gqAccepted g + 1, gqTasks := gqTasks g @ [t]\<rparr> # post
      \<and> tMsgChunkId t = group_chunk g \<and> gqAccepted g < gqMaxAccepted g))
    \<or> (\<not> ok \<and> gs' = gs \<and> (\<forall>g \<in> set gs. tMsgChunkId t = group_chunk g \<longrightarrow> gqMaxAccepted g \<le> gqAccepted g))"
  using assms
proof (induction gs arbitrary: ok gs')
  case Nil
  then show ?case by simp
next
  case (Cons g gs)
  obtain a g1 where q: "GroupQueue_queTask t g = (a, g1)" by fastforce
  note acc = queTask_accepts [OF q]
  show ?case
  proof (cases a)
    case True
    then have "ok" "gs' = [] @ g1 # gs" "g # gs = [] @ g # gs" using Cons.prems q by auto
    then show ?thesis using acc True by metis
  next
    case False
    obtain b gs1 where r: "gs_offer t gs = (b, gs1)" by fastforce
    then have o: "ok = b" "gs' = g # gs1" using Cons.prems q False by auto
    from Cons.IH [OF r] show ?thesis
    proof
      assume "b \<and> (\<exists>pre h post. gs = pre @ h # post
        \<and> gs1 = pre @ h\<lparr>gqAccepted := gqAccepted h + 1, gqTasks := gqTasks h @ [t]\<rparr> # post
        \<and> tMsgChunkId t = group_chunk h \<and> gqAccepted h < gqMaxAccepted h)"
      then obtain pre h post where "b" "g # gs = (g # pre) @ h # post"
        "gs' = (g # pre) @ h\<lparr>gqAccepted := gqAccepted h + 1, gqTasks := gqTasks h @ [t]\<rparr> # post"
        "tMsgChunkId t = group_chunk h" "gqAccepted h < gqMaxAccepted h" using o by auto
      then show ?thesis using o by metis
    next
      assume "\<not> b \<and> gs1 = gs \<and> (\<forall>g \<in> set gs. tMsgChunkId t = group_chunk g \<longrightarrow> gqMaxAccepted g \<le> gqAccepted g)"
      then show ?thesis using o acc False by auto
    qed
  qed
qed

lemma GroupQueue_new_eq:
  "GroupQueue_new n t = (if 0 < n then Inr \<lparr>gqHasChunkId = (tMsgChunkId t \<noteq> None),
     gqChunkId = (if tMsgChunkId t \<noteq> None then msg_chunkid t else 0), gqMaxAccepted = n, gqAccepted = 1,
     gqTasks = [t]\<rparr> else Inl AssertFailed)"
  by (auto simp: GroupQueue_new_def GroupQueue_queTask_def Let_def)

text \<open>The two ways \<open>queCmd\<close> queues a task.\<close>

lemma gs_que_cases:
  assumes q: "GroupScheduler_queCmd (TaskCmd t) s = Inr s'" and n: "1 \<le> gsMaxGroupSize s"
  obtains (joined) pre g post where "gsQueue s = pre @ g # post"
      "gsQueue s' = pre @ g\<lparr>gqAccepted := gqAccepted g + 1, gqTasks := gqTasks g @ [t]\<rparr> # post"
      "tMsgChunkId t = group_chunk g" "gqAccepted g < gqMaxAccepted g"
  | (opened) g where "gsQueue s' = gsQueue s @ [g]" "group_chunk g = tMsgChunkId t" "gqTasks g = [t]"
      "gqAccepted g = 1" "gqMaxAccepted g = gsMaxGroupSize s"
      "\<forall>h \<in> set (gsQueue s). tMsgChunkId t = group_chunk h \<longrightarrow> gqMaxAccepted h \<le> gqAccepted h"
proof -
  obtain ok gs' where o: "gs_offer t (gsQueue s) = (ok, gs')" by fastforce
  show ?thesis
  proof (cases ok)
    case True
    then have "gsQueue s' = gs'" using q o by (auto simp: GroupScheduler_queCmd_def Let_def)
    then show ?thesis using joined gs_offer_shape [OF o] True by blast
  next
    case False
    obtain g where g: "GroupQueue_new (gsMaxGroupSize s) t = Inr g" and s': "gsQueue s' = gsQueue s @ [g]"
      using q o False by (auto simp: GroupScheduler_queCmd_def Let_def split: sum.splits)
    have "group_chunk g = tMsgChunkId t" "gqTasks g = [t]" "gqAccepted g = 1" "gqMaxAccepted g = gsMaxGroupSize s"
      using g by (auto simp: GroupQueue_new_eq group_chunk_def msg_chunkid_def split: if_splits)
    then show ?thesis using opened s' gs_offer_shape [OF o] False by blast
  qed
qed

lemma gs_que_frame:
  assumes "GroupScheduler_queCmd (TaskCmd t) s = Inr s'"
  shows "gsMaxGroupSize s' = gsMaxGroupSize s" "gsBase s' = snd (incrCountForUserQuery (tQId t) (gsBase s))"
  using assms by (auto simp: GroupScheduler_queCmd_def Let_def split: prod.splits if_splits sum.splits)

lemma gs_que_total: "1 \<le> gsMaxGroupSize s \<Longrightarrow> \<exists>s'. GroupScheduler_queCmd (TaskCmd t) s = Inr s'"
  by (auto simp: GroupScheduler_queCmd_def GroupQueue_new_eq Let_def split: prod.splits)

lemma filter_same_chunk:
  "\<forall>u \<in> set us. P u \<longleftrightarrow> b \<Longrightarrow> filter P us = (if b then us else [])"
  by (induction us) auto

lemma gs_que_order:
  assumes ok: "gs_ok s" and q: "GroupScheduler_queCmd (TaskCmd t) s = Inr s'"
  shows "filter (\<lambda>u. tMsgChunkId u = c) (gs_tasks s') = filter (\<lambda>u. tMsgChunkId u = c) (gs_tasks s @ [t])"
    "mset (gs_tasks s') = add_mset t (mset (gs_tasks s))"
proof -
  have n: "1 \<le> gsMaxGroupSize s" using ok by (simp add: gs_ok_def)
  have "filter (\<lambda>u. tMsgChunkId u = c) (gs_tasks s') = filter (\<lambda>u. tMsgChunkId u = c) (gs_tasks s @ [t])
    \<and> mset (gs_tasks s') = add_mset t (mset (gs_tasks s))"
    using q n
  proof (cases rule: gs_que_cases)
    case (joined pre g post)
    have "group_chunk h \<noteq> tMsgChunkId t" if "h \<in> set post" for h
      using ok joined that by (auto simp: gs_ok_def sorted_wrt_append full_before_def)
    moreover have "\<forall>u \<in> set (gqTasks h). tMsgChunkId u = group_chunk h" if "h \<in> set post" for h
      using ok joined(1) that by (auto simp: gs_ok_def group_ok_def)
    ultimately have other: "tMsgChunkId u \<noteq> tMsgChunkId t" if "u \<in> set (concat (map gqTasks post))" for u
      using that by fastforce
    then have "filter (\<lambda>u. tMsgChunkId u = tMsgChunkId t) (concat (map gqTasks post)) = []"
      by (auto simp: filter_empty_conv)
    then show ?thesis using joined by (auto simp: gs_tasks_def)
  next
    case (opened g)
    then show ?thesis by (auto simp: gs_tasks_def)
  qed
  then show "filter (\<lambda>u. tMsgChunkId u = c) (gs_tasks s') = filter (\<lambda>u. tMsgChunkId u = c) (gs_tasks s @ [t])"
    "mset (gs_tasks s') = add_mset t (mset (gs_tasks s))" by auto
qed

lemma gs_que_ok:
  assumes ok: "gs_ok s" and q: "GroupScheduler_queCmd (TaskCmd t) s = Inr s'"
  shows "gs_ok s'"
proof -
  have n: "1 \<le> gsMaxGroupSize s" using ok by (simp add: gs_ok_def)
  note fr = gs_que_frame [OF q]
  have "counts_for (count_incr (tQId t) (sbUserQueryCounts (gsBase s))) (add_mset (tQId t) (image_mset tQId (mset (gs_tasks s))))"
    using ok counts_for_incr unfolding gs_ok_def by blast
  then have "counts_for (sbUserQueryCounts (gsBase s')) (image_mset tQId (mset (gs_tasks s')))"
    using gs_que_order(2) [OF ok q] fr(2) by simp
  moreover have "(\<forall>g \<in> set (gsQueue s'). group_ok (gsMaxGroupSize s) g) \<and> sorted_wrt full_before (gsQueue s')"
    using q n
  proof (cases rule: gs_que_cases)
    case (joined pre g post)
    let ?g = "g\<lparr>gqAccepted := gqAccepted g + 1, gqTasks := gqTasks g @ [t]\<rparr>"
    have chunk: "group_chunk ?g = group_chunk g" by (simp add: group_chunk_def)
    have gok: "group_ok (gsMaxGroupSize s) ?g" using ok joined chunk by (auto simp: gs_ok_def group_ok_def)
    have "group_chunk h \<noteq> group_chunk g" if "h \<in> set post" for h
      using ok joined that by (auto simp: gs_ok_def sorted_wrt_append full_before_def)
    then have "full_before ?g h" if "h \<in> set post" for h using that chunk by (metis full_before_def)
    moreover have "full_before h ?g" if "h \<in> set pre" for h
      using ok joined(1) that chunk by (auto simp: gs_ok_def sorted_wrt_append full_before_def)
    ultimately show ?thesis using ok joined gok by (auto simp: gs_ok_def sorted_wrt_append)
  next
    case (opened g)
    have "group_ok (gsMaxGroupSize s) g" using opened n by (auto simp: group_ok_def)
    moreover have "full_before h g" if "h \<in> set (gsQueue s)" for h
      using opened(2,6) that ok by (fastforce simp: full_before_def gs_ok_def group_ok_def)
    ultimately show ?thesis using ok opened(1) by (auto simp: gs_ok_def sorted_wrt_append)
  qed
  ultimately show ?thesis using n fr(1) by (simp add: gs_ok_def)
qed

lemma gs_get_cases:
  assumes "GroupScheduler_getCmd s = (r, s')" "gs_ok s"
  obtains (none) "\<not> GroupScheduler_ready s" "r = None" "s' = s"
  | (some) g gs t ts where "GroupScheduler_ready s" "gsQueue s = g # gs" "gqTasks g = t # ts" "r = Some t"
      "gsQueue s' = (if ts = [] then gs else g\<lparr>gqTasks := ts\<rparr> # gs)" "gsMaxGroupSize s' = gsMaxGroupSize s"
      "gsBase s' = incrChunkTaskCount (getChunkId t)
         (snd (decrCountForUserQuery (tQId t) ((gsBase s)\<lparr>sbInFlight := sbInFlight (gsBase s) + 1\<rparr>)))"
proof (cases "GroupScheduler_ready s")
  case False
  then show ?thesis using none assms by (simp add: GroupScheduler_getCmd_def)
next
  case True
  then obtain g gs where g: "gsQueue s = g # gs" by (cases "gsQueue s") (auto simp: GroupScheduler_ready_def)
  then have "gqTasks g \<noteq> []" using assms(2) by (simp add: gs_ok_def group_ok_def)
  then obtain t ts where t: "gqTasks g = t # ts" by (cases "gqTasks g") auto
  show ?thesis
    by (rule some [OF True g t])
      (use assms(1) True g t in \<open>auto simp: GroupScheduler_getCmd_def GroupQueue_getTask_def GroupQueue_isEmpty_def Let_def\<close>)
qed

lemma gs_get_ok:
  assumes r: "GroupScheduler_getCmd s = (r, s')" and ok: "gs_ok s"
  shows "gs_ok s'" "gs_tasks s = (case r of None \<Rightarrow> gs_tasks s' | Some t \<Rightarrow> t # gs_tasks s')"
proof -
  have "gs_ok s' \<and> gs_tasks s = (case r of None \<Rightarrow> gs_tasks s' | Some t \<Rightarrow> t # gs_tasks s')"
    using r ok
  proof (cases rule: gs_get_cases)
    case none
    then show ?thesis using ok by simp
  next
    case (some g gs t ts)
    have tasks: "gs_tasks s = t # gs_tasks s'" using some by (simp add: gs_tasks_def)
    have c: "counts_for (sbUserQueryCounts (gsBase s')) (image_mset tQId (mset (gs_tasks s')))"
      using ok tasks counts_for_decr [of "sbUserQueryCounts (gsBase s)" _ "tQId t"] some(7) by (fastforce simp: gs_ok_def)
    have "group_chunk (g\<lparr>gqTasks := ts\<rparr>) = group_chunk g" by (simp add: group_chunk_def)
    then have "(\<forall>h \<in> set (gsQueue s'). group_ok (gsMaxGroupSize s) h) \<and> sorted_wrt full_before (gsQueue s')"
      using ok some(2,3,5) by (auto simp: gs_ok_def group_ok_def full_before_def)
    then show ?thesis using ok tasks some(4,6) c by (simp add: gs_ok_def)
  qed
  then show "gs_ok s'" "gs_tasks s = (case r of None \<Rightarrow> gs_tasks s' | Some t \<Rightarrow> t # gs_tasks s')" by auto
qed

lemma gs_finish_ok: "gs_ok s \<Longrightarrow> gs_ok (GroupScheduler_commandFinish cmd s)"
  by (auto simp: gs_ok_def GroupScheduler_commandFinish_def Let_def gs_tasks_def split: command.splits)

section \<open>Runs\<close>

datatype gsOp = GQue task | GGet | GFinish command

fun gs_run :: "gsOp list \<Rightarrow> groupScheduler \<Rightarrow> sched_error + (task list \<times> groupScheduler)" where
  "gs_run [] s = Inr ([], s)"
| "gs_run (GQue t # ops) s =
     (case GroupScheduler_queCmd (TaskCmd t) s of Inl e \<Rightarrow> Inl e | Inr s' \<Rightarrow> gs_run ops s')"
| "gs_run (GGet # ops) s =
     (case GroupScheduler_getCmd s of (r, s') \<Rightarrow>
        (case gs_run ops s' of Inl e \<Rightarrow> Inl e
         | Inr (out, s'') \<Rightarrow> Inr (case r of Some t \<Rightarrow> t # out | None \<Rightarrow> out, s'')))"
| "gs_run (GFinish cmd # ops) s = gs_run ops (GroupScheduler_commandFinish cmd s)"

definition gs_queued :: "gsOp list \<Rightarrow> task list" where
  "gs_queued ops = concat (map (\<lambda>op. case op of GQue t \<Rightarrow> [t] | _ \<Rightarrow> []) ops)"

lemma gs_finish_simps [simp]:
  "gs_tasks (GroupScheduler_commandFinish cmd s) = gs_tasks s"
  "gsQueue (GroupScheduler_commandFinish cmd s) = gsQueue s"
  by (simp_all add: GroupScheduler_commandFinish_def gs_tasks_def Let_def)

lemma gs_run_fifo:
  "gs_run ops s = Inr (out, s') \<Longrightarrow> gs_ok s \<Longrightarrow>
   gs_ok s' \<and> filter (\<lambda>u. tMsgChunkId u = c) (gs_tasks s @ gs_queued ops)
     = filter (\<lambda>u. tMsgChunkId u = c) (out @ gs_tasks s')"
proof (induction ops s arbitrary: out rule: gs_run.induct)
  case (1 s)
  then show ?case by (simp add: gs_queued_def)
next
  case (2 t ops s)
  obtain s1 where q: "GroupScheduler_queCmd (TaskCmd t) s = Inr s1" using 2(2) by (auto split: sum.splits)
  have rec: "gs_run ops s1 = Inr (out, s')" using 2(2) q by simp
  have step: "filter (\<lambda>u. tMsgChunkId u = c) (gs_tasks s1) @ xs
      = filter (\<lambda>u. tMsgChunkId u = c) (gs_tasks s) @ filter (\<lambda>u. tMsgChunkId u = c) [t] @ xs" for xs
    using gs_que_order(1) [OF 2(3) q, of c] by simp
  have "gs_queued (GQue t # ops) = [t] @ gs_queued ops" by (simp add: gs_queued_def)
  then show ?case
    using 2(1) [OF q rec gs_que_ok [OF 2(3) q]] step by (simp only: filter_append)
next
  case (3 ops s)
  obtain r s1 where g: "GroupScheduler_getCmd s = (r, s1)" by fastforce
  obtain out1 where rec: "gs_run ops s1 = Inr (out1, s')"
    and out: "out = (case r of Some t \<Rightarrow> t # out1 | None \<Rightarrow> out1)"
    using 3(2) g by (auto split: sum.splits)
  note gok = gs_get_ok [OF g 3(3)]
  from 3(1) [OF g [symmetric] rec gok(1)] gok(2) out show ?case
    by (auto simp: gs_queued_def split: option.splits)
next
  case (4 cmd ops s)
  then show ?case using gs_finish_ok by (simp add: gs_queued_def)
qed

text \<open>
  \<open>gs_room\<close>: how many tasks a list of groups can still deliver, those it holds and those it may yet
  accept.
\<close>

definition gs_room :: "groupQueue list \<Rightarrow> int" where
  "gs_room gs = sum_list (map (\<lambda>g. int (length (gqTasks g)) + gqMaxAccepted g - gqAccepted g) gs)"

lemma gs_room_simps [simp]:
  "gs_room [] = 0" "gs_room (g # gs) = int (length (gqTasks g)) + gqMaxAccepted g - gqAccepted g + gs_room gs"
  "gs_room (gs @ hs) = gs_room gs + gs_room hs"
  by (simp_all add: gs_room_def)

lemma gs_room_bounds:
  "\<forall>g \<in> set gs. group_ok n g \<Longrightarrow> int (length gs) \<le> gs_room gs \<and> gs_room gs \<le> int (length gs) * n"
proof (induction gs)
  case (Cons g gs)
  have "group_ok n g" using Cons.prems by simp
  then have g: "1 \<le> int (length (gqTasks g))" "int (length (gqTasks g)) \<le> gqAccepted g" "gqAccepted g \<le> n"
      "gqMaxAccepted g = n"
    by (auto simp: group_ok_def Suc_le_eq)
  have e: "int (length (g # gs)) * n = int (length gs) * n + n" "int (length (g # gs)) = int (length gs) + 1"
    by (simp_all add: algebra_simps)
  have "int (length gs) \<le> gs_room gs" "gs_room gs \<le> int (length gs) * n" using Cons by auto
  then show ?case unfolding gs_room_simps e(1) unfolding e(2) using g by (intro conjI) linarith+
qed simp

text \<open>Queueing keeps the room before a waiting task and its place; a delivery uses one place up.\<close>

lemma gs_que_ahead:
  assumes q: "GroupScheduler_queCmd (TaskCmd u) s = Inr s'" and n: "1 \<le> gsMaxGroupSize s"
    and pos: "gsQueue s = pre @ g # post" "gqTasks g = t # ts"
  obtains pre' g' post' ts' where "gsQueue s' = pre' @ g' # post'" "gqTasks g' = t # ts'" "gs_room pre' = gs_room pre"
  using q n
proof (cases rule: gs_que_cases)
  case (opened h)
  then show ?thesis using that [of pre g "post @ [h]" ts] pos by simp
next
  case (joined p h r)
  let ?h = "h\<lparr>gqAccepted := gqAccepted h + 1, gqTasks := gqTasks h @ [u]\<rparr>"
  have "pre @ g # post = p @ h # r" using joined(1) pos(1) by simp
  then consider "pre = p" "g = h" "post = r" | q where "pre = p @ h # q" "r = q @ g # post"
    | q where "p = pre @ g # q" "post = q @ h # r"
    by (auto simp: append_eq_append_conv2 Cons_eq_append_conv append_eq_Cons_conv)
  then show ?thesis
  proof cases
    case 1
    then show ?thesis using that [of pre ?h post "ts @ [u]"] joined(2) pos(2) by simp
  next
    case (2 q)
    then show ?thesis using that [of "p @ ?h # q" g post ts] joined(2) pos(2) by simp
  next
    case (3 q)
    then show ?thesis using that [of pre g "q @ ?h # r" ts] joined(2) pos(2) by simp
  qed
qed

lemma gs_run_wait:
  "gs_run ops s = Inr (out, s') \<Longrightarrow> gs_ok s \<Longrightarrow> gsQueue s = pre @ g # post \<Longrightarrow> gqTasks g = t # ts \<Longrightarrow>
   gs_room pre < int (length out) \<Longrightarrow> t \<in> set out"
proof (induction ops s arbitrary: out pre g post ts rule: gs_run.induct)
  case (1 s)
  then show ?case using gs_room_bounds [of pre "gsMaxGroupSize s"] by (auto simp: gs_ok_def)
next
  case (2 u ops s)
  obtain s1 where q: "GroupScheduler_queCmd (TaskCmd u) s = Inr s1" using 2(2) by (auto split: sum.splits)
  have rec: "gs_run ops s1 = Inr (out, s')" using 2(2) q by simp
  have "1 \<le> gsMaxGroupSize s" using 2(3) by (simp add: gs_ok_def)
  then obtain pre' g' post' ts' where "gsQueue s1 = pre' @ g' # post'" "gqTasks g' = t # ts'" "gs_room pre' = gs_room pre"
    using gs_que_ahead [OF q _ 2(4,5)] by metis
  then show ?case using 2(1) [OF q rec gs_que_ok [OF 2(3) q]] 2(6) by metis
next
  case (3 ops s)
  obtain r s1 where gc: "GroupScheduler_getCmd s = (r, s1)" by fastforce
  obtain out1 where rec: "gs_run ops s1 = Inr (out1, s')"
    and out: "out = (case r of Some t \<Rightarrow> t # out1 | None \<Rightarrow> out1)"
    using 3(2) gc by (auto split: sum.splits)
  have ok1: "gs_ok s1" using gs_get_ok [OF gc 3(3)] by simp
  note ih = 3(1) [OF gc [symmetric] rec ok1]
  show ?case
    using gc 3(3)
  proof (cases rule: gs_get_cases)
    case none
    then show ?thesis using ih [OF _ 3(5), of pre post] 3(4,6) out by simp
  next
    case (some h hs u us)
    show ?thesis
    proof (cases pre)
      case Nil
      then show ?thesis using some(2,3,4) 3(4,5) out by simp
    next
      case (Cons h' pre')
      then have h: "h' = h" "hs = pre' @ g # post" using some(2) 3(4) by auto
      let ?pre = "if us = [] then pre' else h\<lparr>gqTasks := us\<rparr> # pre'"
      have q1: "gsQueue s1 = ?pre @ g # post" using some(5) h by simp
      have "group_ok (gsMaxGroupSize s) h" using 3(3) some(2) by (simp add: gs_ok_def)
      then have "gs_room ?pre < int (length out1)"
        using 3(6) Cons h some(3,4) out by (auto simp: group_ok_def)
      then show ?thesis using ih [OF q1 3(5)] some(4) out by simp
    qed
  qed
next
  case (4 cmd ops s)
  then show ?case using gs_finish_ok by simp
qed

section \<open>Properties\<close>

lemma gs_new_ok: "1 \<le> maxGroupSize \<Longrightarrow> gs_ok (GroupScheduler_new name maxThreads maxReserve maxGroupSize priority)"
  by (simp add: gs_ok_def GroupScheduler_new_def SchedulerBase_new_def setMaxActiveChunks_def gs_tasks_def)

text \<open>
  The group scheduler is first-in first-out for each chunk (and for the tasks without a chunk): in
  every run from a new scheduler, the tasks of a chunk are delivered in the order in which they were
  queued, without loss or repetition, the rest being still queued in that order.
\<close>

theorem group_fifo_per_chunk:
  assumes "gs_run ops (GroupScheduler_new name maxThreads maxReserve maxGroupSize priority) = Inr (delivered, s')"
    and "1 \<le> maxGroupSize"
  shows "filter (\<lambda>t. tMsgChunkId t = c) (gs_queued ops) = filter (\<lambda>t. tMsgChunkId t = c) (delivered @ gs_tasks s')"
  using gs_run_fifo [OF assms(1) gs_new_ok [OF assms(2)], of c]
  by (simp add: GroupScheduler_new_def gs_tasks_def)

lemma group_fifo_per_chunk_witness:
  "\<exists>s'. gs_run [GQue (demo_task 1 5 []), GQue (demo_task 2 7 []), GQue (demo_task 3 5 []), GGet, GGet]
      (GroupScheduler_new ''group'' 4 2 10 1) = Inr ([demo_task 1 5 [], demo_task 3 5 []], s')
    \<and> filter (\<lambda>t. tMsgChunkId t = Some 5) (gs_tasks s') = []"
proof -
  let ?ops = "[GQue (demo_task 1 5 []), GQue (demo_task 2 7 []), GQue (demo_task 3 5 []), GGet, GGet]"
  let ?r = "gs_run ?ops (GroupScheduler_new ''group'' 4 2 10 1)"
  have "case ?r of Inl e \<Rightarrow> False | Inr (out, s') \<Rightarrow> out = [demo_task 1 5 [], demo_task 3 5 []]" by code_simp
  then obtain s' where r: "?r = Inr ([demo_task 1 5 [], demo_task 3 5 []], s')"
    by (auto simp del: gs_run.simps split: sum.splits)
  from group_fifo_per_chunk [OF r, of "Some 5"] have "filter (\<lambda>t. tMsgChunkId t = Some 5) (gs_tasks s') = []"
    by (auto simp: gs_queued_def demo_task_def Task_new_def)
  with r show ?thesis by blast
qed

text \<open>
  No starvation in the group scheduler: the task at the front of the group at position \<open>k\<close> is
  delivered after at most \<open>k\<close> times the group size other deliveries, whatever is queued meanwhile.
\<close>

theorem group_bounded_wait:
  assumes "gs_ok s" and "gs_run ops s = Inr (delivered, s')"
    and "k < length (gsQueue s)" and "gqTasks (gsQueue s ! k) = t # ts"
    and "int k * gsMaxGroupSize s < int (length delivered)"
  shows "t \<in> set delivered"
proof -
  have q: "gsQueue s = take k (gsQueue s) @ gsQueue s ! k # drop (Suc k) (gsQueue s)"
    using assms(3) by (simp add: id_take_nth_drop)
  have "gs_room (take k (gsQueue s)) \<le> int k * gsMaxGroupSize s"
    using gs_room_bounds [of "take k (gsQueue s)" "gsMaxGroupSize s"] assms(1,3)
    by (auto simp: gs_ok_def dest: in_set_takeD)
  then show ?thesis using gs_run_wait [OF assms(2,1) q assms(4)] assms(5) by simp
qed

lemma group_bounded_wait_witness:
  "\<exists>s delivered s'. gs_run [GQue (demo_task 1 5 []), GQue (demo_task 2 7 [])] (GroupScheduler_new ''group'' 9 2 2 1) = Inr ([], s)
    \<and> gs_run [GGet, GQue (demo_task 3 5 []), GGet, GGet] s = Inr (delivered, s') \<and> demo_task 2 7 [] \<in> set delivered"
proof -
  let ?r = "gs_run [GQue (demo_task 1 5 []), GQue (demo_task 2 7 [])] (GroupScheduler_new ''group'' 9 2 2 1)"
  have "case ?r of Inl e \<Rightarrow> False | Inr (out, s) \<Rightarrow> out = [] \<and> length (gsQueue s) = 2 \<and>
      gqTasks (gsQueue s ! 1) = [demo_task 2 7 []] \<and> gsMaxGroupSize s = 2 \<and>
      (case gs_run [GGet, GQue (demo_task 3 5 []), GGet, GGet] s of Inl e \<Rightarrow> False | Inr (d, s') \<Rightarrow> length d = 3)"
    by code_simp
  then obtain s where r: "?r = Inr ([], s)" and v: "length (gsQueue s) = 2"
      "gqTasks (gsQueue s ! 1) = [demo_task 2 7 []]" "gsMaxGroupSize s = 2"
      and c: "case gs_run [GGet, GQue (demo_task 3 5 []), GGet, GGet] s of Inl e \<Rightarrow> False | Inr (d, s') \<Rightarrow> length d = 3"
    by (cases ?r) (auto simp del: gs_run.simps)
  then obtain d s' where g: "gs_run [GGet, GQue (demo_task 3 5 []), GGet, GGet] s = Inr (d, s')" "length d = 3"
    by (cases "gs_run [GGet, GQue (demo_task 3 5 []), GGet, GGet] s") (auto simp del: gs_run.simps)
  have "gs_ok s" using gs_run_fifo [OF r gs_new_ok] by simp
  from group_bounded_wait [OF this g(1), of 1] g(2) v have "demo_task 2 7 [] \<in> set d" by simp
  with r g(1) show ?thesis by blast
qed

end
