(* ===== verification/Queries_And_Chunks.thy ===== *)
theory Queries_And_Chunks
  imports Scheduler_Base "HOL-Library.List_Lexorder" "HOL-Library.Char_ord" Complex_Main
begin

text \<open>
  \<open>wpublish/QueriesAndChunks.h\<close> and \<open>QueriesAndChunks.cc\<close>: statistics of the user queries and of the
  chunks on a worker. Tasks report being queued, started and finished; statistics of a query that is
  complete and was not touched for a while are removed; the time a table takes on a chunk is averaged
  and its share of the whole scan of the table tells how long a task may run there.

  A \<open>QueryStatistics\<close> object is shared: the map of all queries and the maps of possibly dead queries hold
  pointers to it. The objects are in a store (\<open>qcObjects\<close>) and the maps hold addresses. The objects
  for chunks and tables have one owner each and are kept in place. Times are ticks of the system clock
  (nanoseconds), \<open>double\<close> is modelled by real numbers. The examination of running tasks needs the
  schedulers and is in \<open>Blend_Scheduler\<close>; here is the share of time it uses (\<open>calcScanTableSums\<close>). The two
  threads of the class call \<open>removeDead\<close> and \<open>examineAll\<close> again and again; destruction joins them.
\<close>

section \<open>Statistics of a user query\<close>

record queryStatistics =
  qsQueryId :: nat
  qsTouched :: int
  qsSize :: int
  qsTasksCompleted :: int
  qsTasksRunning :: int
  qsTasksBooted :: int
  qsQueryBooted :: bool
  qsTotalTimeMinutes :: real
  qsTaskMap :: "(int, task) omap"

definition QueryStatistics_new :: "int \<Rightarrow> nat \<Rightarrow> queryStatistics" where
  "QueryStatistics_new now queryId = \<lparr>qsQueryId = queryId, qsTouched = now, qsSize = 0, qsTasksCompleted = 0,
     qsTasksRunning = 0, qsTasksBooted = 0, qsQueryBooted = False, qsTotalTimeMinutes = 0, qsTaskMap = []\<rparr>"

text \<open>\<open>std::map::insert\<close> keeps an entry that is there.\<close>

definition omap_insert :: "'k::linorder \<Rightarrow> 'v \<Rightarrow> ('k, 'v) omap \<Rightarrow> ('k, 'v) omap" where
  "omap_insert k v m = (if omap_find m k = None then omap_set k v m else m)"

definition QueryStatistics_addTask :: "task \<Rightarrow> queryStatistics \<Rightarrow> queryStatistics" where
  "QueryStatistics_addTask t s = s\<lparr>qsTaskMap := omap_insert (tJId t) t (qsTaskMap s)\<rparr>"

definition isMostlyDead :: "queryStatistics \<Rightarrow> bool" where
  "isMostlyDead s \<longleftrightarrow> qsSize s \<le> qsTasksCompleted s"

text \<open>A duration in seconds as ticks.\<close>

definition seconds :: "int \<Rightarrow> int" where
  "seconds s = s * 1000000000"

definition isDead :: "int \<Rightarrow> int \<Rightarrow> queryStatistics \<Rightarrow> bool" where
  "isDead deadTime now s \<longleftrightarrow> isMostlyDead s \<and> seconds deadTime < now - qsTouched s"

section \<open>Statistics of a chunk\<close>

record chunkTableData =
  ctdTasksCompleted :: nat
  ctdTasksBooted :: nat
  ctdAvgCompletionTime :: real

record chunkTableStats =
  ctsChunkId :: int
  ctsScanTableName :: string
  ctsData :: chunkTableData

record chunkStatistics =
  csChunkId :: int
  csTableStats :: "(string, chunkTableStats) omap"

definition makeTableName :: "string \<Rightarrow> string \<Rightarrow> string" where
  "makeTableName db table = db @ '':'' @ table"

definition ChunkTableStats_new :: "int \<Rightarrow> string \<Rightarrow> chunkTableStats" where
  "ChunkTableStats_new chunkId name = \<lparr>ctsChunkId = chunkId, ctsScanTableName = name,
     ctsData = \<lparr>ctdTasksCompleted = 0, ctdTasksBooted = 0, ctdAvgCompletionTime = 0\<rparr>\<rparr>"

definition weightAvg :: real where "weightAvg = 49"
definition weightNew :: real where "weightNew = 1"
definition weightSum :: real where "weightSum = weightAvg + weightNew"

definition addTaskFinished :: "real \<Rightarrow> chunkTableStats \<Rightarrow> chunkTableStats" where
  "addTaskFinished minutes c =
     (let n = u64_add (ctdTasksCompleted (ctsData c)) 1 in
      c\<lparr>ctsData := (ctsData c)\<lparr>ctdTasksCompleted := n,
          ctdAvgCompletionTime :=
            (if 1 < n then (ctdAvgCompletionTime (ctsData c) * weightAvg + minutes * weightNew) / weightSum
             else minutes)\<rparr>\<rparr>)"

definition ChunkStatistics_new :: "int \<Rightarrow> chunkStatistics" where
  "ChunkStatistics_new chunkId = \<lparr>csChunkId = chunkId, csTableStats = []\<rparr>"

definition ChunkStatistics_add :: "string \<Rightarrow> real \<Rightarrow> chunkStatistics \<Rightarrow> chunkStatistics" where
  "ChunkStatistics_add scanTableName minutes c =
     (let st = (case omap_find (csTableStats c) scanTableName of
                  Some s \<Rightarrow> s | None \<Rightarrow> ChunkTableStats_new (csChunkId c) scanTableName)
      in c\<lparr>csTableStats := omap_set scanTableName (addTaskFinished minutes st) (csTableStats c)\<rparr>)"

definition ChunkStatistics_getStats :: "string \<Rightarrow> chunkStatistics \<Rightarrow> chunkTableStats option" where
  "ChunkStatistics_getStats scanTableName c = omap_find (csTableStats c) scanTableName"

section \<open>QueriesAndChunks\<close>

record queriesAndChunks =
  qcObjects :: "nat \<Rightarrow> queryStatistics"
  qcNext :: nat
  qcQueryStats :: "(nat, nat) omap"
  qcChunkStats :: "(int, chunkStatistics) omap"
  qcDeadQueries :: "(nat, nat) omap"
  qcNewlyDead :: "(nat, nat) omap"
  qcDeadAfter :: int
  qcMaxTasksBooted :: int
  qcRequiredTasksCompleted :: nat

definition QueriesAndChunks_new :: "int \<Rightarrow> int \<Rightarrow> queriesAndChunks" where
  "QueriesAndChunks_new deadAfter maxTasksBooted = \<lparr>qcObjects = (\<lambda>_. QueryStatistics_new 0 0), qcNext = 0,
     qcQueryStats = [], qcChunkStats = [], qcDeadQueries = [], qcNewlyDead = [], qcDeadAfter = deadAfter,
     qcMaxTasksBooted = maxTasksBooted, qcRequiredTasksCompleted = 50\<rparr>"

definition setRequiredTasksCompleted :: "nat \<Rightarrow> queriesAndChunks \<Rightarrow> queriesAndChunks" where
  "setRequiredTasksCompleted value q = q\<lparr>qcRequiredTasksCompleted := value\<rparr>"

definition upd_stats :: "nat \<Rightarrow> (queryStatistics \<Rightarrow> queryStatistics) \<Rightarrow> queriesAndChunks \<Rightarrow> queriesAndChunks" where
  "upd_stats a g q = q\<lparr>qcObjects := (qcObjects q)(a := g (qcObjects q a))\<rparr>"

text \<open>\<open>getStats\<close>: the address of the statistics of a query.\<close>

definition QueriesAndChunks_getStats :: "nat \<Rightarrow> queriesAndChunks \<Rightarrow> nat option" where
  "QueriesAndChunks_getStats qId q = omap_find (qcQueryStats q) qId"

definition QueriesAndChunks_addTask :: "int \<Rightarrow> task \<Rightarrow> queriesAndChunks \<Rightarrow> queriesAndChunks" where
  "QueriesAndChunks_addTask now t q =
     (let qid = tQId t;
          (a, q1) = (case omap_find (qcQueryStats q) qid of
             None \<Rightarrow> (qcNext q, q\<lparr>qcObjects := (qcObjects q)(qcNext q := QueryStatistics_new now qid),
                qcNext := Suc (qcNext q), qcQueryStats := omap_set qid (qcNext q) (qcQueryStats q)\<rparr>)
           | Some a \<Rightarrow> (a, q))
      in upd_stats a (QueryStatistics_addTask t) q1)"

definition queuedTask :: "int \<Rightarrow> task \<Rightarrow> queriesAndChunks \<Rightarrow> 'm world \<Rightarrow> queriesAndChunks \<times> 'm world" where
  "queuedTask now t q w =
     (let w1 = upd_task t (Task_queued now) w in
      case QueriesAndChunks_getStats (tQId t) q of
        None \<Rightarrow> (q, w1)
      | Some a \<Rightarrow> (upd_stats a (\<lambda>s. s\<lparr>qsTouched := now, qsSize := qsSize s + 1\<rparr>) q, w1))"

definition startedTask :: "int \<Rightarrow> task \<Rightarrow> queriesAndChunks \<Rightarrow> 'm world \<Rightarrow> queriesAndChunks \<times> 'm world" where
  "startedTask now t q w =
     (let w1 = upd_task t (Task_started now) w in
      case QueriesAndChunks_getStats (tQId t) q of
        None \<Rightarrow> (q, w1)
      | Some a \<Rightarrow> (upd_stats a (\<lambda>s. s\<lparr>qsTouched := now, qsTasksRunning := qsTasksRunning s + 1\<rparr>) q, w1))"

definition finishedTaskForChunk :: "task \<Rightarrow> real \<Rightarrow> queriesAndChunks \<Rightarrow> queriesAndChunks" where
  "finishedTaskForChunk t minutes q =
     (let c = (case omap_find (qcChunkStats q) (getChunkId t) of
                 Some c \<Rightarrow> c | None \<Rightarrow> ChunkStatistics_new (getChunkId t));
          tblName = (case infoTables (tScanInfo t) of [] \<Rightarrow> [] | sti # _ \<Rightarrow> makeTableName (stDb sti) (stTable sti))
      in q\<lparr>qcChunkStats := omap_set (getChunkId t) (ChunkStatistics_add tblName minutes c) (qcChunkStats q)\<rparr>)"

definition finishedTask :: "int \<Rightarrow> task \<Rightarrow> queriesAndChunks \<Rightarrow> 'm world \<Rightarrow> queriesAndChunks \<times> 'm world" where
  "finishedTask now t q w =
     (case Task_finished now (task_st t w) of (millis, st) \<Rightarrow>
        (let w1 = upd_task t (\<lambda>_. st) w;
             taskDuration = real_of_int millis / 60000;
             q1 = (case QueriesAndChunks_getStats (tQId t) q of
                None \<Rightarrow> q
              | Some a \<Rightarrow>
                  (let q1 = upd_stats a (\<lambda>s. s\<lparr>qsTouched := now, qsTasksRunning := qsTasksRunning s - 1,
                               qsTasksCompleted := qsTasksCompleted s + 1,
                               qsTotalTimeMinutes := qsTotalTimeMinutes s + taskDuration\<rparr>) q
                   in if isMostlyDead (qcObjects q1 a)
                      then q1\<lparr>qcNewlyDead := omap_set (tQId t) a (qcNewlyDead q1)\<rparr> else q1))
         in (finishedTaskForChunk t taskDuration q1, w1)))"

section \<open>Removal of dead queries\<close>

definition removeDead_one :: "nat \<Rightarrow> queriesAndChunks \<Rightarrow> queriesAndChunks" where
  "removeDead_one a q = q\<lparr>qcQueryStats := omap_erase (qsQueryId (qcObjects q a)) (qcQueryStats q)\<rparr>"

definition copy_dead :: "(nat, nat) omap \<Rightarrow> (nat, nat) omap \<Rightarrow> (nat, nat) omap" where
  "copy_dead newlyDead dead = foldl (\<lambda>m (k, a). omap_set k a m) dead newlyDead"

definition removeDead :: "int \<Rightarrow> queriesAndChunks \<Rightarrow> queriesAndChunks" where
  "removeDead now q =
     (let dead = copy_dead (qcNewlyDead q) (qcDeadQueries q);
          gone = (\<lambda>a. isDead (qcDeadAfter q) now (qcObjects q a));
          dList = map snd (filter (\<lambda>(k, a). gone a) dead);
          q1 = q\<lparr>qcNewlyDead := [], qcDeadQueries := filter (\<lambda>(k, a). \<not> gone a) dead\<rparr>
      in foldl (\<lambda>q a. removeDead_one a q) q1 dList)"

section \<open>Shares of the time of a table scan\<close>

record chunkTimePercent =
  ctpShardTime :: real
  ctpPercent :: real
  ctpValid :: bool

record scanTableSums =
  stsTotalTime :: real
  stsChunkPercentages :: "(int, chunkTimePercent) omap"

definition ScanTableSums_new :: scanTableSums where
  "ScanTableSums_new = \<lparr>stsTotalTime = 0, stsChunkPercentages = []\<rparr>"

definition ChunkTimePercent_new :: chunkTimePercent where
  "ChunkTimePercent_new = \<lparr>ctpShardTime = 0, ctpPercent = 0, ctpValid = False\<rparr>"

text \<open>One table of one chunk enters the sums.\<close>

definition sum_entry :: "nat \<Rightarrow> int \<Rightarrow> string \<times> chunkTableStats \<Rightarrow> (string, scanTableSums) omap \<Rightarrow> (string, scanTableSums) omap" where
  "sum_entry required chunkId e acc =
     (case e of (tblName, cts) \<Rightarrow>
        if tblName = [] then acc
        else
          (let s = (case omap_find acc tblName of Some s \<Rightarrow> s | None \<Rightarrow> ScanTableSums_new);
               data = ctsData cts;
               ctp = (case omap_find (stsChunkPercentages s) chunkId of Some p \<Rightarrow> p | None \<Rightarrow> ChunkTimePercent_new);
               ctp' = ctp\<lparr>ctpShardTime := ctdAvgCompletionTime data, ctpValid := required \<le> ctdTasksCompleted data\<rparr>
           in omap_set tblName
                \<lparr>stsTotalTime = stsTotalTime s + ctdAvgCompletionTime data,
                 stsChunkPercentages = omap_set chunkId ctp' (stsChunkPercentages s)\<rparr> acc))"

definition sum_chunk :: "nat \<Rightarrow> chunkStatistics \<Rightarrow> (string, scanTableSums) omap \<Rightarrow> (string, scanTableSums) omap" where
  "sum_chunk required c acc = foldl (\<lambda>m e. sum_entry required (csChunkId c) e m) acc (csTableStats c)"

definition set_percent :: "scanTableSums \<Rightarrow> scanTableSums" where
  "set_percent s = s\<lparr>stsChunkPercentages :=
     map (\<lambda>(k, p). (k, p\<lparr>ctpPercent := ctpShardTime p / stsTotalTime s\<rparr>)) (stsChunkPercentages s)\<rparr>"

definition calcScanTableSums :: "queriesAndChunks \<Rightarrow> (string, scanTableSums) omap" where
  "calcScanTableSums q =
     map (\<lambda>(n, s). (n, set_percent s))
       (foldl (\<lambda>m c. sum_chunk (qcRequiredTasksCompleted q) c m) [] (map snd (qcChunkStats q)))"

end
