(* ===== verification/Query_Lifetime.thy ===== *)
theory Query_Lifetime
  imports Queries_And_Chunks
begin

text \<open>
  What the statistics of \<open>Queries_And_Chunks\<close> guarantee: runs of the operations together with the tasks
  queued and not finished (\<open>qc_reach\<close>), the invariant of such runs, the lifetime of the statistics of a
  user query, and the averages and shares of time.
\<close>

section \<open>Runs\<close>

text \<open>
  \<open>Q\<close> are the outstanding tasks: reported by \<open>queuedTask\<close> and not yet by \<open>finishedTask\<close>. A task is queued when
  the statistics of its query exist (\<open>Foreman\<close> calls \<open>addTask\<close> just before it queues the task).
\<close>

inductive qc_reach :: "int \<Rightarrow> int \<Rightarrow> queriesAndChunks \<Rightarrow> 'm world \<Rightarrow> task multiset \<Rightarrow> bool" for deadAfter maxBooted where
  start: "qc_reach deadAfter maxBooted (QueriesAndChunks_new deadAfter maxBooted) w {#}"
| world: "qc_reach deadAfter maxBooted q w Q \<Longrightarrow> qc_reach deadAfter maxBooted q w' Q"
| required: "qc_reach deadAfter maxBooted q w Q \<Longrightarrow> qc_reach deadAfter maxBooted (setRequiredTasksCompleted n q) w Q"
| add: "qc_reach deadAfter maxBooted q w Q \<Longrightarrow> qc_reach deadAfter maxBooted (QueriesAndChunks_addTask now t q) w Q"
| queued: "qc_reach deadAfter maxBooted q w Q \<Longrightarrow> QueriesAndChunks_getStats (tQId t) q \<noteq> None \<Longrightarrow>
    queuedTask now t q w = (q', w') \<Longrightarrow> qc_reach deadAfter maxBooted q' w' (add_mset t Q)"
| started: "qc_reach deadAfter maxBooted q w Q \<Longrightarrow> startedTask now t q w = (q', w') \<Longrightarrow>
    qc_reach deadAfter maxBooted q' w' Q"
| finished: "qc_reach deadAfter maxBooted q w Q \<Longrightarrow> t \<in># Q \<Longrightarrow> finishedTask now t q w = (q', w') \<Longrightarrow>
    qc_reach deadAfter maxBooted q' w' (Q - {#t#})"
| dead: "qc_reach deadAfter maxBooted q w Q \<Longrightarrow> qc_reach deadAfter maxBooted (removeDead now q) w Q"

section \<open>Invariant\<close>

text \<open>
  The difference of the two counters of a query is the number of its outstanding tasks; an entry of the
  maps of possibly dead queries is the current statistics of its query, and a complete query that
  had a task is in one of them.
\<close>

definition tasks_of :: "nat \<Rightarrow> task multiset \<Rightarrow> task multiset" where
  "tasks_of k Q = filter_mset (\<lambda>t. tQId t = k) Q"

definition recorded :: "nat \<Rightarrow> queriesAndChunks \<Rightarrow> nat option" where
  "recorded k q = (case omap_find (qcNewlyDead q) k of Some a \<Rightarrow> Some a | None \<Rightarrow> omap_find (qcDeadQueries q) k)"

definition stats_ok :: "queriesAndChunks \<Rightarrow> task multiset \<Rightarrow> nat \<Rightarrow> nat \<Rightarrow> bool" where
  "stats_ok q Q k a \<longleftrightarrow> a < qcNext q \<and> qsQueryId (qcObjects q a) = k \<and> 0 \<le> qsTasksCompleted (qcObjects q a) \<and>
     qsSize (qcObjects q a) - qsTasksCompleted (qcObjects q a) = int (size (tasks_of k Q)) \<and>
     (0 < qsTasksCompleted (qcObjects q a) \<longrightarrow> isMostlyDead (qcObjects q a) \<longrightarrow> recorded k q = Some a)"

definition qc_ok :: "queriesAndChunks \<Rightarrow> task multiset \<Rightarrow> bool" where
  "qc_ok q Q \<longleftrightarrow>
     omap_wf (qcQueryStats q) \<and> omap_wf (qcNewlyDead q) \<and> omap_wf (qcDeadQueries q) \<and>
     (\<forall>k a. omap_find (qcQueryStats q) k = Some a \<longrightarrow> stats_ok q Q k a) \<and>
     (\<forall>k. omap_find (qcQueryStats q) k = None \<longrightarrow> tasks_of k Q = {#}) \<and>
     (\<forall>k a. omap_find (qcNewlyDead q) k = Some a \<or> omap_find (qcDeadQueries q) k = Some a \<longrightarrow>
        omap_find (qcQueryStats q) k = Some a \<and> 0 < qsTasksCompleted (qcObjects q a))"

lemma tasks_of_simps [simp]:
  "tasks_of k {#} = {#}"
  "tasks_of k (add_mset t Q) = (if tQId t = k then add_mset t (tasks_of k Q) else tasks_of k Q)"
  by (simp_all add: tasks_of_def)

lemma qc_okD:
  assumes "qc_ok q Q"
  shows "omap_wf (qcQueryStats q)" "omap_wf (qcNewlyDead q)" "omap_wf (qcDeadQueries q)"
    "omap_find (qcQueryStats q) k = Some a \<Longrightarrow> stats_ok q Q k a"
    "omap_find (qcQueryStats q) k = None \<Longrightarrow> tasks_of k Q = {#}"
    "omap_find (qcNewlyDead q) k = Some a \<Longrightarrow> omap_find (qcQueryStats q) k = Some a \<and> 0 < qsTasksCompleted (qcObjects q a)"
    "omap_find (qcDeadQueries q) k = Some a \<Longrightarrow> omap_find (qcQueryStats q) k = Some a \<and> 0 < qsTasksCompleted (qcObjects q a)"
  using assms unfolding qc_ok_def by blast+

lemma recorded_cong:
  "qcNewlyDead q' = qcNewlyDead q \<Longrightarrow> qcDeadQueries q' = qcDeadQueries q \<Longrightarrow> recorded k q' = recorded k q"
  by (simp add: recorded_def split: option.split)

lemma recorded_stats: "qc_ok q Q \<Longrightarrow> recorded k q = Some a \<Longrightarrow>
    omap_find (qcQueryStats q) k = Some a \<and> 0 < qsTasksCompleted (qcObjects q a)"
  using qc_okD(6,7) by (fastforce simp: recorded_def split: option.splits)

lemma stats_inj:
  assumes "qc_ok q Q" "omap_find (qcQueryStats q) k = Some a" "omap_find (qcQueryStats q) j = Some a"
  shows "k = j"
  using qc_okD(4) [OF assms(1,2)] qc_okD(4) [OF assms(1,3)] by (simp add: stats_ok_def)

text \<open>
  An update of the counters of one query by a task of that query, which may record the query as
  possibly dead (\<open>r\<close>).
\<close>

definition touch_stats :: "bool \<Rightarrow> nat \<Rightarrow> nat \<Rightarrow> (queryStatistics \<Rightarrow> queryStatistics) \<Rightarrow> queriesAndChunks \<Rightarrow> queriesAndChunks" where
  "touch_stats r k a f q =
     (if r then (upd_stats a f q)\<lparr>qcNewlyDead := omap_set k a (qcNewlyDead q)\<rparr> else upd_stats a f q)"

lemma touch_stats_simps [simp]:
  "qcQueryStats (touch_stats r k a f q) = qcQueryStats q"
  "qcDeadQueries (touch_stats r k a f q) = qcDeadQueries q"
  "qcNext (touch_stats r k a f q) = qcNext q"
  "qcObjects (touch_stats r k a f q) b = (if b = a then f (qcObjects q a) else qcObjects q b)"
  "qcNewlyDead (touch_stats r k a f q) = (if r then omap_set k a (qcNewlyDead q) else qcNewlyDead q)"
  by (simp_all add: touch_stats_def upd_stats_def)

lemma recorded_touch: "recorded j (touch_stats r k a f q) = (if r \<and> j = k then Some a else recorded j q)"
  by (simp add: recorded_def split: option.split)

lemma touch_stats_ok:
  assumes ok: "qc_ok q Q" and a: "omap_find (qcQueryStats q) k = Some a"
    and f: "qsQueryId (f (qcObjects q a)) = k"
      "qsTasksCompleted (qcObjects q a) \<le> qsTasksCompleted (f (qcObjects q a))"
      "qsSize (f (qcObjects q a)) - qsTasksCompleted (f (qcObjects q a)) = int (size (tasks_of k Q'))"
      "0 < qsTasksCompleted (f (qcObjects q a)) \<Longrightarrow> isMostlyDead (f (qcObjects q a)) \<Longrightarrow> r \<or> recorded k q = Some a"
      "r \<Longrightarrow> 0 < qsTasksCompleted (f (qcObjects q a))"
    and other: "\<And>j. j \<noteq> k \<Longrightarrow> tasks_of j Q' = tasks_of j Q"
  shows "qc_ok (touch_stats r k a f q) Q'"
  unfolding qc_ok_def
proof (intro conjI allI impI)
  let ?q = "touch_stats r k a f q"
  have st: "stats_ok q Q k a" by (rule qc_okD(4) [OF ok a])
  show "omap_wf (qcQueryStats ?q)" "omap_wf (qcNewlyDead ?q)" "omap_wf (qcDeadQueries ?q)"
    using qc_okD(1-3) [OF ok] by simp_all
  fix j b
  show "stats_ok ?q Q' j b" if b: "omap_find (qcQueryStats ?q) j = Some b"
  proof (cases "j = k")
    case True
    then have "b = a" using b a by simp
    then show ?thesis using True st f unfolding stats_ok_def recorded_touch by auto
  next
    case False
    then have "b \<noteq> a" using b a stats_inj [OF ok a, of j] by auto
    then show ?thesis
      using False other [OF False] qc_okD(4) [OF ok, of j b] b unfolding stats_ok_def recorded_touch by simp
  qed
  show "tasks_of j Q' = {#}" if "omap_find (qcQueryStats ?q) j = None"
    using that a other [of j] qc_okD(5) [OF ok, of j] by (cases "j = k") auto
  assume d: "omap_find (qcNewlyDead ?q) j = Some b \<or> omap_find (qcDeadQueries ?q) j = Some b"
  show "omap_find (qcQueryStats ?q) j = Some b"
    using d a qc_okD(6,7) [OF ok, of j b] by (auto split: if_splits)
  show "0 < qsTasksCompleted (qcObjects ?q b)"
  proof (cases "b = a")
    case True
    have "omap_find (qcNewlyDead q) j = Some b \<or> omap_find (qcDeadQueries q) j = Some b \<or> r"
      using d by (auto split: if_splits)
    then have "0 < qsTasksCompleted (qcObjects q b) \<or> r" using qc_okD(6,7) [OF ok, of j b] by blast
    then show ?thesis using True f(2,5) by auto
  next
    case False
    then have "omap_find (qcNewlyDead q) j = Some b \<or> omap_find (qcDeadQueries q) j = Some b"
      using d by (auto split: if_splits)
    then show ?thesis using False qc_okD(6,7) [OF ok, of j b] by auto
  qed
qed

lemma finishedTaskForChunk_ok: "qc_ok (finishedTaskForChunk t m q) Q \<longleftrightarrow> qc_ok q Q"
proof -
  let ?q = "finishedTaskForChunk t m q"
  have "recorded k ?q = recorded k q" for k by (rule recorded_cong) (simp_all add: finishedTaskForChunk_def Let_def)
  then show ?thesis by (simp add: qc_ok_def stats_ok_def) (simp add: finishedTaskForChunk_def Let_def)
qed

lemma queuedTask_ok:
  assumes ok: "qc_ok q Q" and s: "QueriesAndChunks_getStats (tQId t) q \<noteq> None" and r: "queuedTask now t q w = (q', w')"
  shows "qc_ok q' (add_mset t Q)"
proof -
  obtain a where a: "omap_find (qcQueryStats q) (tQId t) = Some a" using s by (auto simp: QueriesAndChunks_getStats_def)
  have q': "q' = touch_stats False (tQId t) a (\<lambda>s. s\<lparr>qsTouched := now, qsSize := qsSize s + 1\<rparr>) q"
    using r a by (simp add: queuedTask_def QueriesAndChunks_getStats_def Let_def touch_stats_def)
  show ?thesis unfolding q'
    by (rule touch_stats_ok [OF ok a]) (use qc_okD(4) [OF ok a] in \<open>auto simp: stats_ok_def isMostlyDead_def\<close>)
qed

lemma startedTask_ok:
  assumes ok: "qc_ok q Q" and r: "startedTask now t q w = (q', w')"
  shows "qc_ok q' Q"
proof (cases "omap_find (qcQueryStats q) (tQId t)")
  case None
  then show ?thesis using ok r by (simp add: startedTask_def QueriesAndChunks_getStats_def Let_def)
next
  case (Some a)
  have q': "q' = touch_stats False (tQId t) a (\<lambda>s. s\<lparr>qsTouched := now, qsTasksRunning := qsTasksRunning s + 1\<rparr>) q"
    using r Some by (simp add: startedTask_def QueriesAndChunks_getStats_def Let_def touch_stats_def)
  show ?thesis unfolding q'
    by (rule touch_stats_ok [OF ok Some]) (use qc_okD(4) [OF ok Some] in \<open>auto simp: stats_ok_def isMostlyDead_def\<close>)
qed

lemma finishedTask_ok:
  assumes ok: "qc_ok q Q" and t: "t \<in># Q" and r: "finishedTask now t q w = (q', w')"
  shows "qc_ok q' (Q - {#t#})"
proof -
  obtain Q0 where Q: "Q = add_mset t Q0" using t by (metis insert_DiffM)
  obtain a where a: "omap_find (qcQueryStats q) (tQId t) = Some a"
    using qc_okD(5) [OF ok, of "tQId t"] Q by fastforce
  obtain millis st where f: "Task_finished now (task_st t w) = (millis, st)" by fastforce
  let ?g = "\<lambda>s. s\<lparr>qsTouched := now, qsTasksRunning := qsTasksRunning s - 1,
      qsTasksCompleted := qsTasksCompleted s + 1, qsTotalTimeMinutes := qsTotalTimeMinutes s + real_of_int millis / 60000\<rparr>"
  let ?r = "isMostlyDead (?g (qcObjects q a))"
  have q': "q' = finishedTaskForChunk t (real_of_int millis / 60000) (touch_stats ?r (tQId t) a ?g q)"
    using r a f by (auto simp: finishedTask_def QueriesAndChunks_getStats_def touch_stats_def upd_stats_def Let_def)
  have "qc_ok (touch_stats ?r (tQId t) a ?g q) Q0"
    by (rule touch_stats_ok [OF ok a]) (use qc_okD(4) [OF ok a] Q in \<open>auto simp: stats_ok_def\<close>)
  then show ?thesis using q' Q by (simp add: finishedTaskForChunk_ok)
qed

lemma addTask_ok:
  assumes ok: "qc_ok q Q"
  shows "qc_ok (QueriesAndChunks_addTask now t q) Q"
proof (cases "omap_find (qcQueryStats q) (tQId t)")
  case (Some a)
  then have "QueriesAndChunks_addTask now t q = touch_stats False (tQId t) a (QueryStatistics_addTask t) q"
    by (simp add: QueriesAndChunks_addTask_def touch_stats_def)
  moreover have "qc_ok (touch_stats False (tQId t) a (QueryStatistics_addTask t) q) Q"
    by (rule touch_stats_ok [OF ok Some])
      (use qc_okD(4) [OF ok Some] in \<open>auto simp: stats_ok_def QueryStatistics_addTask_def isMostlyDead_def\<close>)
  ultimately show ?thesis by simp
next
  case None
  let ?q = "QueriesAndChunks_addTask now t q" and ?a = "qcNext q" and ?k = "tQId t"
  let ?s = "QueryStatistics_addTask t (QueryStatistics_new now ?k)"
  have f: "qcQueryStats ?q = omap_set ?k ?a (qcQueryStats q)" "qcNext ?q = Suc ?a"
    "qcObjects ?q = (qcObjects q)(?a := ?s)" "qcNewlyDead ?q = qcNewlyDead q" "qcDeadQueries ?q = qcDeadQueries q"
    using None by (simp_all add: QueriesAndChunks_addTask_def upd_stats_def Let_def)
  have r: "recorded j ?q = recorded j q" for j by (rule recorded_cong) (simp_all add: f)
  have old: "omap_find (qcQueryStats q) j = Some b \<Longrightarrow> b < ?a" for j b
    using qc_okD(4) [OF ok] by (auto simp: stats_ok_def)
  show ?thesis
    unfolding qc_ok_def
  proof (intro conjI allI impI)
    show "omap_wf (qcQueryStats ?q)" "omap_wf (qcNewlyDead ?q)" "omap_wf (qcDeadQueries ?q)"
      using qc_okD(1-3) [OF ok] by (simp_all add: f)
    fix j b
    show "stats_ok ?q Q j b" if "omap_find (qcQueryStats ?q) j = Some b"
    proof (cases "j = ?k")
      case True
      then show ?thesis using that qc_okD(5) [OF ok None]
        by (simp add: stats_ok_def f QueryStatistics_addTask_def QueryStatistics_new_def)
    next
      case False
      then show ?thesis using that qc_okD(4) [OF ok, of j b] old [of j b] r [of j] by (auto simp: stats_ok_def f)
    qed
    show "tasks_of j Q = {#}" if "omap_find (qcQueryStats ?q) j = None"
      using that qc_okD(5) [OF ok, of j] by (simp add: f split: if_splits)
    assume "omap_find (qcNewlyDead ?q) j = Some b \<or> omap_find (qcDeadQueries ?q) j = Some b"
    then have d: "omap_find (qcQueryStats q) j = Some b \<and> 0 < qsTasksCompleted (qcObjects q b)"
      using qc_okD(6,7) [OF ok, of j b] by (auto simp: f)
    then show "omap_find (qcQueryStats ?q) j = Some b" using None by (auto simp: f)
    show "0 < qsTasksCompleted (qcObjects ?q b)" using d old [of j b] by (simp add: f)
  qed
qed

text \<open>The loops of \<open>removeDead\<close>.\<close>

lemma removeDead_ones:
  "qcQueryStats (foldl (\<lambda>q a. removeDead_one a q) q as) =
     foldl (\<lambda>m a. omap_erase (qsQueryId (qcObjects q a)) m) (qcQueryStats q) as"
  "qcObjects (foldl (\<lambda>q a. removeDead_one a q) q as) = qcObjects q"
  "qcNext (foldl (\<lambda>q a. removeDead_one a q) q as) = qcNext q"
  "qcNewlyDead (foldl (\<lambda>q a. removeDead_one a q) q as) = qcNewlyDead q"
  "qcDeadQueries (foldl (\<lambda>q a. removeDead_one a q) q as) = qcDeadQueries q"
  by (induction as arbitrary: q) (simp_all add: removeDead_one_def)

lemma erase_all:
  "omap_wf m \<Longrightarrow> omap_wf (foldl (\<lambda>m a. omap_erase (h a) m) m as) \<and>
     omap_find (foldl (\<lambda>m a. omap_erase (h a) m) m as) k = (if k \<in> h ` set as then None else omap_find m k)"
  by (induction as arbitrary: m) auto

lemma copy_dead_find:
  assumes "omap_wf new" "omap_wf dead"
  shows "omap_wf (copy_dead new dead)"
    "omap_find (copy_dead new dead) k = (case omap_find new k of Some a \<Rightarrow> Some a | None \<Rightarrow> omap_find dead k)"
proof -
  have "omap_wf (foldl (\<lambda>m (k, a). omap_set k a m) m xs)" if "omap_wf m" for m xs
    using that by (induction xs arbitrary: m) auto
  then show "omap_wf (copy_dead new dead)" using assms(2) by (simp add: copy_dead_def)
  have "omap_find (foldl (\<lambda>m (k, a). omap_set k a m) m xs) k = (case omap_find xs k of Some a \<Rightarrow> Some a | None \<Rightarrow> omap_find m k)"
    if "omap_wf xs" for m xs
    using that
  proof (induction xs arbitrary: m)
    case (Cons p xs)
    obtain j a where p: "p = (j, a)" by (cases p)
    have "omap_find xs j = None" using Cons.prems p omap_find_key [of xs j] by (auto simp: p)
    then show ?case using Cons p by (auto split: option.split)
  qed simp
  then show "omap_find (copy_dead new dead) k = (case omap_find new k of Some a \<Rightarrow> Some a | None \<Rightarrow> omap_find dead k)"
    using assms(1) by (simp add: copy_dead_def)
qed

lemma omap_find_filter:
  "omap_wf m \<Longrightarrow> omap_find (filter (\<lambda>(k, a). P a) m) k = (case omap_find m k of Some a \<Rightarrow> if P a then Some a else None | None \<Rightarrow> None)"
proof (induction m)
  case (Cons p m)
  obtain j a where p: "p = (j, a)" by (cases p)
  have "omap_find m j = None" using Cons.prems p omap_find_key [of m j] by auto
  then show ?case using Cons p by (auto split: option.split)
qed simp

lemma omap_values_filter:
  assumes m: "omap_wf m" and h: "\<And>j a. omap_find m j = Some a \<Longrightarrow> h a = j"
  shows "k \<in> h ` set (map snd (filter (\<lambda>(k, a). P a) m)) \<longleftrightarrow> (\<exists>a. omap_find m k = Some a \<and> P a)"
proof
  assume "k \<in> h ` set (map snd (filter (\<lambda>(k, a). P a) m))"
  then obtain j a where "(j, a) \<in> set m" "P a" "h a = k" by auto
  then show "\<exists>a. omap_find m k = Some a \<and> P a" using omap_in_set_find [OF m, of j a] h [of j a] by auto
next
  assume "\<exists>a. omap_find m k = Some a \<and> P a"
  then obtain a where "(k, a) \<in> set m" "P a" "h a = k" using omap_find_in_set [of m k] h [of k] by auto
  then show "k \<in> h ` set (map snd (filter (\<lambda>(k, a). P a) m))" by force
qed

lemma removeDead_fields:
  assumes ok: "qc_ok q Q"
  shows "qcObjects (removeDead now q) = qcObjects q" "qcNext (removeDead now q) = qcNext q"
    "qcNewlyDead (removeDead now q) = []" "omap_wf (qcDeadQueries (removeDead now q))"
    "omap_wf (qcQueryStats (removeDead now q))"
    "omap_find (qcDeadQueries (removeDead now q)) k =
       (case recorded k q of Some a \<Rightarrow> if isDead (qcDeadAfter q) now (qcObjects q a) then None else Some a | None \<Rightarrow> None)"
    "omap_find (qcQueryStats (removeDead now q)) k =
       (case recorded k q of Some a \<Rightarrow> if isDead (qcDeadAfter q) now (qcObjects q a) then None else Some a
        | None \<Rightarrow> omap_find (qcQueryStats q) k)"
proof -
  let ?dead = "copy_dead (qcNewlyDead q) (qcDeadQueries q)" and ?gone = "\<lambda>a. isDead (qcDeadAfter q) now (qcObjects q a)"
  note D = copy_dead_find [OF qc_okD(2,3) [OF ok]]
  have rec: "omap_find ?dead j = recorded j q" for j by (simp add: D(2) recorded_def)
  show "qcObjects (removeDead now q) = qcObjects q" "qcNext (removeDead now q) = qcNext q" "qcNewlyDead (removeDead now q) = []"
    by (simp_all add: removeDead_def Let_def removeDead_ones)
  have dq: "qcDeadQueries (removeDead now q) = filter (\<lambda>(k, a). \<not> ?gone a) ?dead"
    by (simp add: removeDead_def Let_def removeDead_ones)
  show "omap_wf (qcDeadQueries (removeDead now q))" by (simp add: dq omap_wf_filter D(1))
  show "omap_find (qcDeadQueries (removeDead now q)) k =
       (case recorded k q of Some a \<Rightarrow> if ?gone a then None else Some a | None \<Rightarrow> None)"
    by (simp add: dq omap_find_filter [OF D(1)] rec split: option.split)
  let ?as = "map snd (filter (\<lambda>(k, a). ?gone a) ?dead)"
  have qs: "qcQueryStats (removeDead now q) = foldl (\<lambda>m a. omap_erase (qsQueryId (qcObjects q a)) m) (qcQueryStats q) ?as"
    by (simp add: removeDead_def Let_def removeDead_ones)
  show "omap_wf (qcQueryStats (removeDead now q))" unfolding qs by (rule erase_all [OF qc_okD(1) [OF ok], THEN conjunct1])
  have id: "qsQueryId (qcObjects q a) = j" if "recorded j q = Some a" for j a
    using qc_okD(4) [OF ok] recorded_stats [OF ok that] by (auto simp: stats_ok_def)
  have "k \<in> (\<lambda>a. qsQueryId (qcObjects q a)) ` set ?as \<longleftrightarrow> (\<exists>a. recorded k q = Some a \<and> ?gone a)"
    using omap_values_filter [OF D(1), of "\<lambda>a. qsQueryId (qcObjects q a)" k ?gone] id by (simp only: rec)
  then show "omap_find (qcQueryStats (removeDead now q)) k =
       (case recorded k q of Some a \<Rightarrow> if ?gone a then None else Some a | None \<Rightarrow> omap_find (qcQueryStats q) k)"
    using erase_all [OF qc_okD(1) [OF ok], where k = k and as = ?as and h = "\<lambda>a. qsQueryId (qcObjects q a)"]
      recorded_stats [OF ok, of k] by (auto simp: qs split: option.splits)
qed

lemma removeDead_ok:
  assumes ok: "qc_ok q Q"
  shows "qc_ok (removeDead now q) Q"
proof -
  let ?q = "removeDead now q" and ?gone = "\<lambda>a. isDead (qcDeadAfter q) now (qcObjects q a)"
  note F = removeDead_fields [OF ok, of now]
  have rec: "recorded k ?q = (case recorded k q of Some a \<Rightarrow> if ?gone a then None else Some a | None \<Rightarrow> None)" for k
    unfolding recorded_def [of k ?q] by (simp add: F(3,6))
  have find: "omap_find (qcQueryStats q) k = Some a \<and> \<not> (recorded k q = Some a \<and> ?gone a)"
    if "omap_find (qcQueryStats ?q) k = Some a" for k a
    using that recorded_stats [OF ok, of k] by (auto simp: F(7) split: option.splits if_splits)
  show ?thesis
    unfolding qc_ok_def
  proof (intro conjI allI impI)
    show "omap_wf (qcQueryStats ?q)" "omap_wf (qcNewlyDead ?q)" "omap_wf (qcDeadQueries ?q)" by (simp_all add: F)
    fix k a
    show "stats_ok ?q Q k a" if "omap_find (qcQueryStats ?q) k = Some a"
      using find [OF that] qc_okD(4) [OF ok, of k a] by (auto simp: stats_ok_def F(1,2) rec)
    show "tasks_of k Q = {#}" if none: "omap_find (qcQueryStats ?q) k = None"
    proof (cases "omap_find (qcQueryStats q) k")
      case None
      then show ?thesis by (rule qc_okD(5) [OF ok])
    next
      case (Some a)
      then have "isMostlyDead (qcObjects q a)"
        using none recorded_stats [OF ok, of k] by (auto simp: F(7) isDead_def split: option.splits if_splits)
      then have "int (size (tasks_of k Q)) \<le> 0" using qc_okD(4) [OF ok Some] unfolding stats_ok_def isMostlyDead_def by linarith
      then show ?thesis by simp
    qed
    assume "omap_find (qcNewlyDead ?q) k = Some a \<or> omap_find (qcDeadQueries ?q) k = Some a"
    then have "recorded k q = Some a \<and> \<not> ?gone a" by (auto simp: F(3,6) split: option.splits if_splits)
    then show "omap_find (qcQueryStats ?q) k = Some a" "0 < qsTasksCompleted (qcObjects ?q a)"
      using recorded_stats [OF ok, of k a] by (simp_all add: F(1,7))
  qed
qed

lemma deadAfter_ops:
  "qcDeadAfter (QueriesAndChunks_addTask now t q) = qcDeadAfter q"
  "queuedTask now t q w = (q', w') \<Longrightarrow> qcDeadAfter q' = qcDeadAfter q"
  "startedTask now t q w = (q', w') \<Longrightarrow> qcDeadAfter q' = qcDeadAfter q"
  "finishedTask now t q w = (q', w') \<Longrightarrow> qcDeadAfter q' = qcDeadAfter q"
  by (auto simp: QueriesAndChunks_addTask_def queuedTask_def startedTask_def finishedTask_def finishedTaskForChunk_def
      Let_def upd_stats_def split: option.splits prod.splits)

lemma qc_reach_ok: "qc_reach deadAfter maxBooted q w Q \<Longrightarrow> qc_ok q Q \<and> qcDeadAfter q = deadAfter"
proof (induction rule: qc_reach.induct)
  case (start w)
  then show ?case by (simp add: qc_ok_def QueriesAndChunks_new_def)
next
  case (required q w Q n)
  have "recorded k (setRequiredTasksCompleted n q) = recorded k q" for k
    by (rule recorded_cong) (simp_all add: setRequiredTasksCompleted_def)
  then show ?case using required by (simp add: qc_ok_def stats_ok_def) (simp add: setRequiredTasksCompleted_def)
next
  case (add q w Q now t)
  then show ?case using addTask_ok deadAfter_ops(1) by metis
next
  case (queued q w Q t now q' w')
  then show ?case using queuedTask_ok deadAfter_ops(2) by metis
next
  case (started q w Q now t q' w')
  then show ?case using startedTask_ok deadAfter_ops(3) by metis
next
  case (finished q w Q t now q' w')
  then show ?case using finishedTask_ok deadAfter_ops(4) by metis
next
  case (dead q w Q now)
  have "qcDeadAfter (foldl (\<lambda>q a. removeDead_one a q) q as) = qcDeadAfter q" for q as
    by (induction as arbitrary: q) (simp_all add: removeDead_one_def)
  then have "qcDeadAfter (removeDead now q) = qcDeadAfter q" by (simp add: removeDead_def Let_def)
  then show ?case using dead.IH removeDead_ok by simp
qed

section \<open>Properties\<close>

text \<open>Two tasks of one query, the second added when the statistics of the query were about to be removed.\<close>

definition qc_one :: "queriesAndChunks \<times> unit world" where
  "qc_one = (let t = demo_task 1 7 [1]; q = QueriesAndChunks_addTask 0 t (QueriesAndChunks_new 300 25)
     in queuedTask 10 t q demo_world)"

definition qc_done :: "queriesAndChunks \<times> unit world" where
  "qc_done = (case qc_one of (q, w) \<Rightarrow> (case startedTask 20 (demo_task 1 7 [1]) q w of (q, w) \<Rightarrow>
     finishedTask 60000000020 (demo_task 1 7 [1]) q w))"

lemma qc_one_reach: "qc_reach 300 25 (fst qc_one) (snd qc_one) {#demo_task 1 7 [1]#}"
proof -
  let ?t = "demo_task 1 7 [1]" and ?q = "QueriesAndChunks_addTask 0 (demo_task 1 7 [1]) (QueriesAndChunks_new 300 25)"
  have 1: "qc_reach 300 25 ?q demo_world {#}" by (rule qc_reach.add [OF qc_reach.start])
  have "QueriesAndChunks_getStats (tQId ?t) ?q \<noteq> None" by code_simp
  moreover have "queuedTask 10 ?t ?q demo_world = (fst qc_one, snd qc_one)" by (simp add: qc_one_def Let_def)
  ultimately show ?thesis by (rule qc_reach.queued [OF 1])
qed

lemma qc_done_reach: "qc_reach 300 25 (fst qc_done) (snd qc_done) {#}"
proof -
  let ?t = "demo_task 1 7 [1]"
  obtain q w where s: "startedTask 20 ?t (fst qc_one) (snd qc_one) = (q, w)" by fastforce
  have "qc_reach 300 25 q w {#?t#}" by (rule qc_reach.started [OF qc_one_reach s])
  moreover have "finishedTask 60000000020 ?t q w = (fst qc_done, snd qc_done)"
    using s by (simp add: qc_done_def case_prod_unfold)
  ultimately show ?thesis using qc_reach.finished [of 300 25 q w "{#?t#}" ?t] by simp
qed

text \<open>
  The statistics of a user query are never removed while one of its tasks is queued or running: for
  every outstanding task of a reachable state, the query's statistics are there, the difference of the
  numbers of queued and of completed tasks is the number of outstanding tasks of the query, and the query
  does not count as complete.
\<close>

theorem outstanding_query_kept:
  assumes "qc_reach deadAfter maxBooted q w Q" and "t \<in># Q"
  shows "\<exists>a. QueriesAndChunks_getStats (tQId t) q = Some a
    \<and> qsSize (qcObjects q a) - qsTasksCompleted (qcObjects q a) = int (size (tasks_of (tQId t) Q))
    \<and> \<not> isMostlyDead (qcObjects q a)"
proof -
  have ok: "qc_ok q Q" using qc_reach_ok [OF assms(1)] by simp
  have some: "t \<in># tasks_of (tQId t) Q" using assms(2) by (simp add: tasks_of_def)
  then obtain a where a: "omap_find (qcQueryStats q) (tQId t) = Some a" using qc_okD(5) [OF ok, of "tQId t"] by fastforce
  have "0 < size (tasks_of (tQId t) Q)" using some by (auto simp: nonempty_has_size [symmetric])
  then show ?thesis
    using qc_okD(4) [OF ok a] a by (auto simp: stats_ok_def QueriesAndChunks_getStats_def isMostlyDead_def)
qed

lemma outstanding_query_kept_witness:
  "\<exists>a. QueriesAndChunks_getStats 1 (fst qc_one) = Some a \<and> \<not> isMostlyDead (qcObjects (fst qc_one) a)"
  using outstanding_query_kept [OF qc_one_reach, of "demo_task 1 7 [1]"] by (auto simp: demo_task_def Task_new_def)

text \<open>
  \<open>removeDead\<close> removes exactly the queries that are done: in a reachable state it removes the statistics of a
  query if at least one of its tasks completed, no task is outstanding and nothing touched it for
  longer than \<open>deadAfter\<close> seconds, and it keeps all others.
\<close>

theorem removeDead_exact:
  assumes "qc_reach deadAfter maxBooted q w Q"
  shows "QueriesAndChunks_getStats k (removeDead now q) =
    (case QueriesAndChunks_getStats k q of
       None \<Rightarrow> None
     | Some a \<Rightarrow> if 0 < qsTasksCompleted (qcObjects q a) \<and> tasks_of k Q = {#}
                    \<and> seconds deadAfter < now - qsTouched (qcObjects q a) then None else Some a)"
proof -
  have ok: "qc_ok q Q" and d: "qcDeadAfter q = deadAfter" using qc_reach_ok [OF assms] by auto
  have rec: "recorded k q = Some a \<longleftrightarrow> 0 < qsTasksCompleted (qcObjects q a)"
    if "omap_find (qcQueryStats q) k = Some a" "isMostlyDead (qcObjects q a)" for a
    using qc_okD(4) [OF ok that(1)] recorded_stats [OF ok, of k a] that by (auto simp: stats_ok_def)
  have dead: "isMostlyDead (qcObjects q a) \<longleftrightarrow> tasks_of k Q = {#}" if "omap_find (qcQueryStats q) k = Some a" for a
  proof -
    have "qsSize (qcObjects q a) - qsTasksCompleted (qcObjects q a) = int (size (tasks_of k Q))"
      using qc_okD(4) [OF ok that] by (simp add: stats_ok_def)
    then have "isMostlyDead (qcObjects q a) \<longleftrightarrow> size (tasks_of k Q) = 0" unfolding isMostlyDead_def by linarith
    then show ?thesis by simp
  qed
  note F = removeDead_fields(7) [OF ok, of now k]
  show ?thesis
  proof (cases "omap_find (qcQueryStats q) k")
    case None
    then have "recorded k q = None" using recorded_stats [OF ok, of k] by (cases "recorded k q") auto
    then show ?thesis using None F by (simp add: QueriesAndChunks_getStats_def)
  next
    case (Some a)
    have "recorded k q = None \<or> recorded k q = Some a"
      using recorded_stats [OF ok, of k] Some by (cases "recorded k q") auto
    then show ?thesis
      using rec [OF Some] dead [OF Some] Some F by (auto simp: QueriesAndChunks_getStats_def isDead_def d)
  qed
qed

lemma removeDead_exact_witness:
  "QueriesAndChunks_getStats 1 (fst qc_done) \<noteq> None
   \<and> QueriesAndChunks_getStats 1 (removeDead 360000000021 (fst qc_done)) = None
   \<and> QueriesAndChunks_getStats 1 (removeDead 360000000020 (fst qc_done)) \<noteq> None"
proof -
  have v: "case QueriesAndChunks_getStats 1 (fst qc_done) of None \<Rightarrow> False
      | Some a \<Rightarrow> qsTasksCompleted (qcObjects (fst qc_done) a) = 1 \<and> qsTouched (qcObjects (fst qc_done) a) = 60000000020"
    by code_simp
  then show ?thesis
    using removeDead_exact [OF qc_done_reach, of 1 360000000021] removeDead_exact [OF qc_done_reach, of 1 360000000020]
    by (auto simp: seconds_def split: option.splits)
qed

text \<open>
  There is a window in which a task escapes the statistics: \<open>addTask\<close> does not touch the query, so when a
  further task of a query arrives after its earlier tasks are done for \<open>deadAfter\<close> seconds, and
  \<open>removeDead\<close> runs between \<open>addTask\<close> and \<open>queuedTask\<close>, then the statistics (with the map of the query's tasks)
  are gone and the new task is never counted.
\<close>

theorem late_task_escapes:
  "let t2 = demo_task 2 8 [1];
       q = QueriesAndChunks_addTask 360000000021 t2 (fst qc_done);
       (q', w') = queuedTask 360000000022 t2 (removeDead 360000000021 q) (snd qc_done)
   in qc_reach 300 25 q (snd qc_done) {#} \<and> QueriesAndChunks_getStats (tQId t2) q \<noteq> None
      \<and> tsState (task_st t2 w') = QUEUED \<and> QueriesAndChunks_getStats (tQId t2) q' = None"
proof -
  let ?t = "demo_task 2 8 [1]" and ?q = "QueriesAndChunks_addTask 360000000021 (demo_task 2 8 [1]) (fst qc_done)"
  have "qc_reach 300 25 ?q (snd qc_done) {#}" by (rule qc_reach.add [OF qc_done_reach])
  moreover have "QueriesAndChunks_getStats (tQId ?t) ?q \<noteq> None" by code_simp
  moreover have "case queuedTask 360000000022 ?t (removeDead 360000000021 ?q) (snd qc_done) of (q', w') \<Rightarrow>
      tsState (task_st ?t w') = QUEUED \<and> QueriesAndChunks_getStats (tQId ?t) q' = None" by code_simp
  ultimately show ?thesis by (simp only: Let_def split: prod.split) auto
qed

section \<open>Averages and shares of time\<close>

lemma addTaskFinished_between:
  assumes "lo \<le> m" "m \<le> hi" "0 < ctdTasksCompleted (ctsData c) \<Longrightarrow>
      lo \<le> ctdAvgCompletionTime (ctsData c) \<and> ctdAvgCompletionTime (ctsData c) \<le> hi"
  shows "lo \<le> ctdAvgCompletionTime (ctsData (addTaskFinished m c)) \<and> ctdAvgCompletionTime (ctsData (addTaskFinished m c)) \<le> hi"
proof (cases "1 < u64_add (ctdTasksCompleted (ctsData c)) 1")
  case True
  then have "0 < ctdTasksCompleted (ctsData c)" by (cases "ctdTasksCompleted (ctsData c)") (simp_all add: u64_add_def)
  then show ?thesis
    using assms True by (simp add: addTaskFinished_def Let_def weightSum_def weightAvg_def weightNew_def)
next
  case False
  then show ?thesis using assms by (simp add: addTaskFinished_def Let_def)
qed

text \<open>
  The average completion time of a table on a chunk stays between the shortest and the longest time of the
  tasks that finished there, whatever their number, and the number of tasks is counted exactly (up to
  the range of the 64-bit counter).
\<close>

theorem average_within_samples:
  assumes "samples \<noteq> []" and "length samples < 2 ^ 64" and "\<forall>m \<in> set samples. lo \<le> m \<and> m \<le> hi"
  shows "let d = ctsData (foldl (\<lambda>c m. addTaskFinished m c) (ChunkTableStats_new chunkId name) samples)
    in lo \<le> ctdAvgCompletionTime d \<and> ctdAvgCompletionTime d \<le> hi \<and> ctdTasksCompleted d = length samples"
proof -
  have "ctdTasksCompleted (ctsData (foldl (\<lambda>c m. addTaskFinished m c) c ms)) = ctdTasksCompleted (ctsData c) + length ms \<and>
      (0 < ctdTasksCompleted (ctsData c) + length ms \<longrightarrow>
        lo \<le> ctdAvgCompletionTime (ctsData (foldl (\<lambda>c m. addTaskFinished m c) c ms)) \<and>
        ctdAvgCompletionTime (ctsData (foldl (\<lambda>c m. addTaskFinished m c) c ms)) \<le> hi)"
    if "ctdTasksCompleted (ctsData c) + length ms < 2 ^ 64" "\<forall>m \<in> set ms. lo \<le> m \<and> m \<le> hi"
      "0 < ctdTasksCompleted (ctsData c) \<Longrightarrow> lo \<le> ctdAvgCompletionTime (ctsData c) \<and> ctdAvgCompletionTime (ctsData c) \<le> hi"
    for c ms
    using that
  proof (induction ms arbitrary: c)
    case (Cons m ms)
    have "ctdTasksCompleted (ctsData (addTaskFinished m c)) = Suc (ctdTasksCompleted (ctsData c))"
      using Cons.prems(1) by (simp add: addTaskFinished_def Let_def u64_add_exact)
    then show ?case
      using Cons.IH [of "addTaskFinished m c"] Cons.prems addTaskFinished_between [of lo m hi c] by auto
  qed simp
  from this [of "ChunkTableStats_new chunkId name" samples] show ?thesis
    using assms by (simp add: ChunkTableStats_new_def Let_def)
qed

lemma average_within_samples_witness:
  "let d = ctsData (foldl (\<lambda>c m. addTaskFinished m c) (ChunkTableStats_new 7 ''LSST:Object'') [2, 5, 3])
   in 2 \<le> ctdAvgCompletionTime d \<and> ctdAvgCompletionTime d \<le> 5 \<and> ctdTasksCompleted d = 3"
  using average_within_samples [of "[2, 5, 3]" 2 5 7 "''LSST:Object''"] by (simp add: Let_def)

text \<open>The statistics of the chunks: filed under their chunk, all averages positive.\<close>

definition chunk_ok :: "chunkStatistics \<Rightarrow> bool" where
  "chunk_ok c \<longleftrightarrow> omap_wf (csTableStats c) \<and>
     (\<forall>n s. omap_find (csTableStats c) n = Some s \<longrightarrow> 0 < ctdAvgCompletionTime (ctsData s))"

definition chunks_ok :: "(int, chunkStatistics) omap \<Rightarrow> bool" where
  "chunks_ok m \<longleftrightarrow> omap_wf m \<and> (\<forall>k c. omap_find m k = Some c \<longrightarrow> csChunkId c = k \<and> chunk_ok c)"

lemma addTaskFinished_positive:
  "0 < m \<Longrightarrow> 0 \<le> ctdAvgCompletionTime (ctsData c) \<Longrightarrow> 0 < ctdAvgCompletionTime (ctsData (addTaskFinished m c))"
  by (simp add: addTaskFinished_def Let_def weightSum_def weightAvg_def weightNew_def add_nonneg_pos)

lemma ChunkStatistics_add_ok:
  assumes "chunk_ok c" "0 < m"
  shows "chunk_ok (ChunkStatistics_add n m c) \<and> csChunkId (ChunkStatistics_add n m c) = csChunkId c"
proof -
  let ?s = "case omap_find (csTableStats c) n of Some s \<Rightarrow> s | None \<Rightarrow> ChunkTableStats_new (csChunkId c) n"
  have "0 \<le> ctdAvgCompletionTime (ctsData ?s)"
    using assms(1) by (auto simp: chunk_ok_def ChunkTableStats_new_def less_imp_le split: option.split)
  then have "0 < ctdAvgCompletionTime (ctsData (addTaskFinished m ?s))"
    by (rule addTaskFinished_positive [OF assms(2)])
  then show ?thesis using assms(1) by (simp add: chunk_ok_def ChunkStatistics_add_def Let_def)
qed

lemma finishedTaskForChunk_chunks:
  assumes ok: "chunks_ok (qcChunkStats q)" and "0 < m"
  shows "chunks_ok (qcChunkStats (finishedTaskForChunk t m q))"
proof -
  let ?c = "case omap_find (qcChunkStats q) (getChunkId t) of Some c \<Rightarrow> c | None \<Rightarrow> ChunkStatistics_new (getChunkId t)"
  have "chunk_ok ?c \<and> csChunkId ?c = getChunkId t"
    using ok by (auto simp: chunks_ok_def chunk_ok_def ChunkStatistics_new_def split: option.split)
  then show ?thesis
    using ok ChunkStatistics_add_ok [OF _ assms(2), of ?c] by (simp add: chunks_ok_def finishedTaskForChunk_def Let_def)
qed

lemma qc_reach_chunks: "qc_reach deadAfter maxBooted q w Q \<Longrightarrow> chunks_ok (qcChunkStats q)"
proof (induction rule: qc_reach.induct)
  case (finished q w Q t now q' w')
  obtain millis st where f: "Task_finished now (task_st t w) = (millis, st)" by fastforce
  then have pos: "0 < real_of_int millis / 60000" by (auto simp: Task_finished_def Let_def split: if_splits)
  obtain q1 where "q' = finishedTaskForChunk t (real_of_int millis / 60000) q1" "qcChunkStats q1 = qcChunkStats q"
    using finished.hyps(3) f by (fastforce simp: finishedTask_def Let_def upd_stats_def split: option.splits if_splits)
  then show ?case using finishedTaskForChunk_chunks [of q1, OF _ pos] finished.IH by simp
next
  case (dead q w Q now)
  have "qcChunkStats (foldl (\<lambda>q a. removeDead_one a q) q as) = qcChunkStats q" for q as
    by (induction as arbitrary: q) (simp_all add: removeDead_one_def)
  then show ?case using dead.IH by (simp add: removeDead_def Let_def)
qed (auto simp: QueriesAndChunks_new_def chunks_ok_def setRequiredTasksCompleted_def QueriesAndChunks_addTask_def
    queuedTask_def startedTask_def Let_def upd_stats_def split: option.splits)

text \<open>While the sums are built: the total of a table is the sum of the times of its chunks.\<close>

definition table_sum_ok :: "scanTableSums \<Rightarrow> bool" where
  "table_sum_ok s \<longleftrightarrow> omap_wf (stsChunkPercentages s) \<and> stsTotalTime s = omap_sum ctpShardTime (stsChunkPercentages s) \<and>
     stsChunkPercentages s \<noteq> [] \<and> (\<forall>k p. omap_find (stsChunkPercentages s) k = Some p \<longrightarrow> 0 < ctpShardTime p)"

definition sums_ok :: "(string, scanTableSums) omap \<Rightarrow> bool" where
  "sums_ok acc \<longleftrightarrow> omap_wf acc \<and> (\<forall>n s. omap_find acc n = Some s \<longrightarrow> table_sum_ok s)"

definition unseen :: "(string, scanTableSums) omap \<Rightarrow> string \<Rightarrow> int \<Rightarrow> bool" where
  "unseen acc n c \<longleftrightarrow> (\<forall>s. omap_find acc n = Some s \<longrightarrow> omap_find (stsChunkPercentages s) c = None)"

lemma omap_set_ne [simp]: "omap_set k v m \<noteq> []"
  by (induction k v m rule: omap_set.induct) auto

lemma sum_entry_ok:
  assumes ok: "sums_ok acc" and new: "unseen acc n c" and pos: "0 < ctdAvgCompletionTime (ctsData cts)"
  shows "sums_ok (sum_entry req c (n, cts) acc)"
    "(m, d) \<noteq> (n, c) \<Longrightarrow> unseen acc m d \<Longrightarrow> unseen (sum_entry req c (n, cts) acc) m d"
proof -
  let ?s = "case omap_find acc n of Some s \<Rightarrow> s | None \<Rightarrow> ScanTableSums_new"
  let ?p = "ChunkTimePercent_new\<lparr>ctpShardTime := ctdAvgCompletionTime (ctsData cts), ctpValid := req \<le> ctdTasksCompleted (ctsData cts)\<rparr>"
  have s: "omap_wf (stsChunkPercentages ?s)" "stsTotalTime ?s = omap_sum ctpShardTime (stsChunkPercentages ?s)"
    "\<And>k p. omap_find (stsChunkPercentages ?s) k = Some p \<Longrightarrow> 0 < ctpShardTime p"
    "omap_find (stsChunkPercentages ?s) c = None"
    using ok new by (auto simp: sums_ok_def table_sum_ok_def unseen_def ScanTableSums_new_def split: option.splits)
  have e: "sum_entry req c (n, cts) acc = (if n = [] then acc else omap_set n
      \<lparr>stsTotalTime = stsTotalTime ?s + ctdAvgCompletionTime (ctsData cts),
       stsChunkPercentages = omap_set c ?p (stsChunkPercentages ?s)\<rparr> acc)"
    using s(4) by (simp add: sum_entry_def Let_def)
  show "sums_ok (sum_entry req c (n, cts) acc)"
    using ok s pos by (auto simp: e sums_ok_def table_sum_ok_def omap_sum_set_new)
  show "unseen (sum_entry req c (n, cts) acc) m d" if "(m, d) \<noteq> (n, c)" "unseen acc m d"
    using that by (auto simp: e unseen_def ScanTableSums_new_def split: option.splits)
qed

lemma sum_chunk_ok:
  assumes "sums_ok acc" "chunk_ok cs" "\<And>n. unseen acc n (csChunkId cs)"
  shows "sums_ok (sum_chunk req cs acc) \<and> (\<forall>n d. d \<noteq> csChunkId cs \<longrightarrow> unseen acc n d \<longrightarrow> unseen (sum_chunk req cs acc) n d)"
proof -
  have "sums_ok (foldl (\<lambda>m e. sum_entry req c e m) acc es) \<and>
      (\<forall>n d. d \<noteq> c \<longrightarrow> unseen acc n d \<longrightarrow> unseen (foldl (\<lambda>m e. sum_entry req c e m) acc es) n d)"
    if "sums_ok acc" "omap_wf es" "\<And>n s. (n, s) \<in> set es \<Longrightarrow> 0 < ctdAvgCompletionTime (ctsData s) \<and> unseen acc n c"
    for c es acc
    using that
  proof (induction es arbitrary: acc)
    case (Cons e es)
    obtain n s where e: "e = (n, s)" by (cases e)
    have h: "0 < ctdAvgCompletionTime (ctsData s)" "unseen acc n c" using Cons.prems(3) [of n s] e by auto
    note S = sum_entry_ok [OF Cons.prems(1) h(2,1), where req = req]
    have "unseen (sum_entry req c e acc) m c" if m: "(m, s') \<in> set es" for m s'
    proof -
      have "n < m" using Cons.prems(2) m e by force
      then show ?thesis using S(2) [of m c] Cons.prems(3) [of m s'] m e by simp
    qed
    then have "0 < ctdAvgCompletionTime (ctsData s') \<and> unseen (sum_entry req c e acc) m c" if "(m, s') \<in> set es" for m s'
      using that Cons.prems(3) [of m s'] by auto
    then have "sums_ok (foldl (\<lambda>m e. sum_entry req c e m) (sum_entry req c e acc) es) \<and> (\<forall>n d. d \<noteq> c \<longrightarrow>
        unseen (sum_entry req c e acc) n d \<longrightarrow> unseen (foldl (\<lambda>m e. sum_entry req c e m) (sum_entry req c e acc) es) n d)"
      using Cons.IH [of "sum_entry req c e acc"] S(1) Cons.prems(2) e by simp
    then show ?case using S(2) e by simp
  qed simp
  moreover have "0 < ctdAvgCompletionTime (ctsData s) \<and> unseen acc n (csChunkId cs)" if "(n, s) \<in> set (csTableStats cs)" for n s
    using assms(2,3) omap_in_set_find [of "csTableStats cs" n s] that by (auto simp: chunk_ok_def)
  ultimately show ?thesis using assms(1,2) by (simp add: sum_chunk_def chunk_ok_def)
qed

lemma sum_chunks_ok:
  assumes "chunks_ok m"
  shows "sums_ok (foldl (\<lambda>acc c. sum_chunk req c acc) [] (map snd m))"
proof -
  have "sums_ok (foldl (\<lambda>acc c. sum_chunk req c acc) acc (map snd es))"
    if "sums_ok acc" "omap_wf es" "\<And>k c. (k, c) \<in> set es \<Longrightarrow> csChunkId c = k \<and> chunk_ok c \<and> (\<forall>n. unseen acc n k)" for es acc
    using that
  proof (induction es arbitrary: acc)
    case (Cons e es)
    obtain k c where e: "e = (k, c)" by (cases e)
    have c: "csChunkId c = k" "chunk_ok c" "\<And>n. unseen acc n (csChunkId c)" using Cons.prems(3) [of k c] e by auto
    note S = sum_chunk_ok [OF Cons.prems(1) c(2,3), where req = req]
    have "csChunkId c' = j \<and> chunk_ok c' \<and> (\<forall>n. unseen (sum_chunk req c acc) n j)" if j: "(j, c') \<in> set es" for j c'
    proof -
      have "k < j" using Cons.prems(2) j e by force
      then show ?thesis using S Cons.prems(3) [of j c'] j c(1) by auto
    qed
    then show ?case using Cons.IH [of "sum_chunk req c acc"] S Cons.prems(2) e by simp
  qed simp
  moreover have "csChunkId c = k \<and> chunk_ok c \<and> (\<forall>n. unseen [] n k)" if "(k, c) \<in> set m" for k c
    using assms that omap_in_set_find [of m k c] by (auto simp: chunks_ok_def unseen_def)
  moreover have "sums_ok []" "omap_wf m" using assms by (auto simp: chunks_ok_def sums_ok_def)
  ultimately show ?thesis by blast
qed

lemma omap_sum_pos: "m \<noteq> [] \<Longrightarrow> (\<And>k v. (k, v) \<in> set m \<Longrightarrow> 0 < f v) \<Longrightarrow> 0 < (omap_sum f m :: real)"
proof (induction m)
  case (Cons p m)
  then show ?case by (cases p; cases "m = []") (fastforce intro: add_pos_pos)+
qed simp

lemma omap_sum_member: "(k, v) \<in> set m \<Longrightarrow> (\<And>k v. (k, v) \<in> set m \<Longrightarrow> 0 \<le> f v) \<Longrightarrow> f v \<le> (omap_sum f m :: real)"
proof (induction m)
  case (Cons p m)
  have "0 \<le> omap_sum f m" unfolding omap_sum_def by (rule sum_list_nonneg) (use Cons.prems(2) in fastforce)
  then show ?case using Cons by (cases p) (fastforce simp: add_increasing)
qed simp

lemma sum_list_divide: "(\<Sum>p\<leftarrow>ps. f p / T) = (\<Sum>p\<leftarrow>ps. f p) / (T :: real)"
  by (induction ps) (simp_all add: add_divide_distrib)

text \<open>
  The shares of time are shares: in every reachable state, for each table that some finished task scanned,
  the percentages of its chunks lie in (0, 1] and add up to 1, so the time limits of the chunks add up
  to the time limit of the scan.
\<close>

theorem shares_add_up:
  assumes "qc_reach deadAfter maxBooted q w Q" and "(n, s) \<in> set (calcScanTableSums q)"
  shows "(\<Sum>(c, p) \<leftarrow> stsChunkPercentages s. ctpPercent p) = 1
    \<and> (\<forall>(c, p) \<in> set (stsChunkPercentages s). 0 < ctpPercent p \<and> ctpPercent p \<le> 1)"
proof -
  let ?acc = "foldl (\<lambda>acc c. sum_chunk (qcRequiredTasksCompleted q) c acc) [] (map snd (qcChunkStats q))"
  have ok: "sums_ok ?acc" by (rule sum_chunks_ok [OF qc_reach_chunks [OF assms(1)]])
  obtain s0 where s0: "(n, s0) \<in> set ?acc" "s = set_percent s0" using assms(2) by (auto simp: calcScanTableSums_def)
  then have t: "table_sum_ok s0" using ok omap_in_set_find [of ?acc n s0] by (auto simp: sums_ok_def)
  let ?ps = "stsChunkPercentages s0" and ?T = "stsTotalTime s0"
  have each: "0 < ctpShardTime p" if "(c, p) \<in> set ?ps" for c p
    using t omap_in_set_find [of ?ps c p] that by (auto simp: table_sum_ok_def)
  have T: "0 < ?T" "?T = omap_sum ctpShardTime ?ps"
    using t omap_sum_pos [of ?ps ctpShardTime, OF _ each] by (auto simp: table_sum_ok_def)
  have "(\<Sum>(c, p) \<leftarrow> stsChunkPercentages s. ctpPercent p) = (\<Sum>p \<leftarrow> ?ps. ctpShardTime (snd p) / ?T)"
    by (simp add: s0(2) set_percent_def comp_def case_prod_unfold)
  also have "\<dots> = 1" using T by (simp add: sum_list_divide omap_sum_def)
  finally have "(\<Sum>(c, p) \<leftarrow> stsChunkPercentages s. ctpPercent p) = 1" .
  moreover have "ctpShardTime p \<le> ?T" if "(c, p) \<in> set ?ps" for c p
    unfolding T(2) by (rule omap_sum_member [OF that]) (use each in \<open>auto intro: less_imp_le\<close>)
  ultimately show ?thesis using T(1) each by (auto simp: s0(2) set_percent_def)
qed

lemma shares_add_up_witness:
  "\<exists>s. calcScanTableSums (fst qc_done) = [(''LSST:Object'', s)]
     \<and> (\<Sum>(c, p) \<leftarrow> stsChunkPercentages s. ctpPercent p) = 1"
proof -
  have "map fst (calcScanTableSums (fst qc_done)) = [''LSST:Object'']" by code_simp
  then obtain s where s: "calcScanTableSums (fst qc_done) = [(''LSST:Object'', s)]"
    by (cases "calcScanTableSums (fst qc_done)") auto
  then show ?thesis using shares_add_up [OF qc_done_reach, of "''LSST:Object''" s] by simp
qed

end
