(* ===== verification/Blend_Scheduler.thy ===== *)
theory Blend_Scheduler
  imports Group_Scheduler Scan_Scheduler Queries_And_Chunks
begin

text \<open>
  \<open>wsched/BlendScheduler.h\<close> and \<open>BlendScheduler.cc\<close>: the scheduler that the thread pool of a worker talks to.
  It owns the group scheduler, the scan schedulers and the snail scan, gives each task to one of them,
  and asks them in order of priority for the next task to run.

  The sub-schedulers are used through the virtual methods of \<open>SchedulerBase\<close>, the record \<open>schedIface\<close>; \<open>sub_if\<close> is
  the dispatch on the two classes. A pointer to a sub-scheduler is a number, the objects are in a store
  (\<open>bsSubs\<close>) and \<open>_schedulers\<close> is the list \<open>bsOrder\<close> of pointers. The flag \<open>_infoChanged\<close> only limits logging.
  A task without a message, for which \<open>queCmd\<close> throws, does not exist in the model (\<open>Task_new\<close> takes the message).
  As for the other schedulers, \<open>getCmd\<close> is one evaluation of its wait condition. The times that the code reads
  from the system clock are arguments (\<open>now\<close>).

  The parts of \<open>wpublish/QueriesAndChunks.cc\<close> that work on the schedulers are here too: \<open>removeQueryFrom\<close>,
  \<open>_bootTask\<close> and \<open>examineAll\<close>. They may tell a thread to leave the pool, which reports its task as finished; the
  pool's \<open>leavePool\<close> is the argument \<open>leave\<close>, given by the thread pool.
\<close>

section \<open>The virtual methods of a sub-scheduler\<close>

record ('s, 'm) schedIface =
  siBase :: "'s \<Rightarrow> schedBase"
  siSetBase :: "(schedBase \<Rightarrow> schedBase) \<Rightarrow> 's \<Rightarrow> 's"
  siIsScan :: "'s \<Rightarrow> bool"
  siRatingInRange :: "int \<Rightarrow> 's \<Rightarrow> bool"
  siMaxTimeMinutes :: "'s \<Rightarrow> real"
  siQueCmd :: "command \<Rightarrow> 's \<Rightarrow> 'm world \<Rightarrow> sched_error + ('s \<times> 'm world)"
  siReady :: "'m memMan \<Rightarrow> 's \<Rightarrow> 'm world \<Rightarrow> sched_error + (bool \<times> 's \<times> 'm world)"
  siGetCmd :: "'m memMan \<Rightarrow> 's \<Rightarrow> 'm world \<Rightarrow> sched_error + (task option \<times> 's \<times> 'm world)"
  siCommandStart :: "command \<Rightarrow> 's \<Rightarrow> 's"
  siCommandFinish :: "'m memMan \<Rightarrow> command \<Rightarrow> 's \<Rightarrow> 'm world \<Rightarrow> 's \<times> 'm world"
  siGetSize :: "'s \<Rightarrow> int"
  siRemoveTask :: "task \<Rightarrow> bool \<Rightarrow> 's \<Rightarrow> 'm world \<Rightarrow> removal \<times> 's \<times> 'm world"

datatype subSched = SubGroup groupScheduler | SubScan scanScheduler

definition sub_read :: "(groupScheduler \<Rightarrow> 'a) \<Rightarrow> (scanScheduler \<Rightarrow> 'a) \<Rightarrow> subSched \<Rightarrow> 'a" where
  "sub_read f g s = (case s of SubGroup x \<Rightarrow> f x | SubScan x \<Rightarrow> g x)"

text \<open>\<open>removeTask\<close> of \<open>SchedulerBase\<close> (so of the group scheduler) does nothing.\<close>

definition sub_if :: "(subSched, 'm) schedIface" where
  "sub_if = \<lparr>siBase = sub_read gsBase ssBase,
     siSetBase = (\<lambda>f. sub_read (\<lambda>x. SubGroup (x\<lparr>gsBase := f (gsBase x)\<rparr>)) (\<lambda>x. SubScan (x\<lparr>ssBase := f (ssBase x)\<rparr>))),
     siIsScan = sub_read (\<lambda>_. False) (\<lambda>_. True),
     siRatingInRange = (\<lambda>r. sub_read (\<lambda>_. False) (isRatingInRange r)),
     siMaxTimeMinutes = sub_read (\<lambda>_. 0) ssMaxTimeMinutes,
     siQueCmd = (\<lambda>c s w. sub_read (\<lambda>x. case GroupScheduler_queCmd c x of Inl e \<Rightarrow> Inl e | Inr x' \<Rightarrow> Inr (SubGroup x', w))
        (\<lambda>x. case ScanScheduler_queCmd c x w of (x', w') \<Rightarrow> Inr (SubScan x', w')) s),
     siReady = (\<lambda>vt s w. sub_read (\<lambda>x. Inr (GroupScheduler_ready x, SubGroup x, w))
        (\<lambda>x. case ScanScheduler_ready vt x w of Inl e \<Rightarrow> Inl e | Inr (b, x', w') \<Rightarrow> Inr (b, SubScan x', w')) s),
     siGetCmd = (\<lambda>vt s w. sub_read (\<lambda>x. case GroupScheduler_getCmd x of (r, x') \<Rightarrow> Inr (r, SubGroup x', w))
        (\<lambda>x. case ScanScheduler_getCmd vt x w of Inl e \<Rightarrow> Inl e | Inr (r, x', w') \<Rightarrow> Inr (r, SubScan x', w')) s),
     siCommandStart = (\<lambda>c. sub_read (\<lambda>x. SubGroup x) (\<lambda>x. SubScan (ScanScheduler_commandStart c x))),
     siCommandFinish = (\<lambda>vt c s w. sub_read (\<lambda>x. (SubGroup (GroupScheduler_commandFinish c x), w))
        (\<lambda>x. case ScanScheduler_commandFinish vt c x w of (x', w') \<Rightarrow> (SubScan x', w')) s),
     siGetSize = sub_read GroupScheduler_getSize ScanScheduler_getSize,
     siRemoveTask = (\<lambda>t r s w. sub_read (\<lambda>x. (\<lparr>rmInQueue = False, rmLeavePool = None\<rparr>, SubGroup x, w))
        (\<lambda>x. case ScanScheduler_removeTask t r x w of (rm, x', w') \<Rightarrow> (rm, SubScan x', w')) s)\<rparr>"

section \<open>State and construction\<close>

record 's blendScheduler =
  bsCtrlCmdQueue :: "nat list"
  bsSchedMaxThreads :: int
  bsGroup :: nat
  bsScanSnail :: nat
  bsSubs :: "nat \<Rightarrow> 's"
  bsOrder :: "nat list"
  bsQueries :: queriesAndChunks
  bsPrioritizeByInFlight :: bool
  bsReadySched :: "nat option"

definition upd_sub :: "nat \<Rightarrow> 's \<Rightarrow> 's blendScheduler \<Rightarrow> 's blendScheduler" where
  "upd_sub k s b = b\<lparr>bsSubs := (bsSubs b)(k := s)\<rparr>"

text \<open>The comparison of \<open>_sortScanSchedulers\<close>.\<close>

definition lessThan :: "('s, 'm) schedIface \<Rightarrow> 's blendScheduler \<Rightarrow> nat \<Rightarrow> nat \<Rightarrow> bool" where
  "lessThan si b x y =
     (if x = bsGroup b then True
      else if y = bsGroup b then False
      else if x = bsScanSnail b then False
      else if y = bsScanSnail b then True
      else
        (let bx = siBase si (bsSubs b x); by = siBase si (bsSubs b y);
             xInFlight = sbInFlight bx - sbPriority bx; yInFlight = sbInFlight by - sbPriority by
         in if bsPrioritizeByInFlight b \<and> xInFlight < yInFlight then True
            else if bsPrioritizeByInFlight b \<and> yInFlight < xInFlight then False
            else sbDefaultPosition bx < sbDefaultPosition by))"

definition sortScanSchedulers :: "('s, 'm) schedIface \<Rightarrow> 's blendScheduler \<Rightarrow> 's blendScheduler" where
  "sortScanSchedulers si b = b\<lparr>bsOrder := sort_by (lessThan si b) (bsOrder b)\<rparr>"

text \<open>The constructor: the pointers are the default positions.\<close>

definition BlendScheduler_new ::
    "('s, 'm) schedIface \<Rightarrow> queriesAndChunks \<Rightarrow> int \<Rightarrow> 's \<Rightarrow> 's \<Rightarrow> 's list \<Rightarrow> 's blendScheduler" where
  "BlendScheduler_new si queries schedMaxThreads grp snail scans =
     (let n = length scans;
          obj = (\<lambda>k. if k = 0 then grp else if k \<le> n then scans ! (k - 1) else snail);
          place = (\<lambda>k. siSetBase si (\<lambda>b. b\<lparr>sbDefaultPosition := int k\<rparr>) (obj k))
      in sortScanSchedulers si
           \<lparr>bsCtrlCmdQueue = [], bsSchedMaxThreads = schedMaxThreads, bsGroup = 0, bsScanSnail = Suc n,
            bsSubs = place, bsOrder = [0..<n + 2], bsQueries = queries, bsPrioritizeByInFlight = False,
            bsReadySched = None\<rparr>)"

definition setPrioritizeByInFlight :: "bool \<Rightarrow> 's blendScheduler \<Rightarrow> 's blendScheduler" where
  "setPrioritizeByInFlight val b = b\<lparr>bsPrioritizeByInFlight := val\<rparr>"

section \<open>Control commands\<close>

definition ControlCommandQueue_queCmd :: "nat \<Rightarrow> nat list \<Rightarrow> nat list" where
  "ControlCommandQueue_queCmd c q = q @ [c]"

definition ControlCommandQueue_getCmd :: "nat list \<Rightarrow> nat option \<times> nat list" where
  "ControlCommandQueue_getCmd q = (case q of [] \<Rightarrow> (None, []) | c # cs \<Rightarrow> (Some c, cs))"

definition ControlCommandQueue_ready :: "nat list \<Rightarrow> bool" where
  "ControlCommandQueue_ready q \<longleftrightarrow> q \<noteq> []"

section \<open>Queueing, start and finish\<close>

text \<open>The choice of the sub-scheduler in \<open>queCmd\<close>.\<close>

definition choose_sched :: "('s, 'm) schedIface \<Rightarrow> task \<Rightarrow> 's blendScheduler \<Rightarrow> nat" where
  "choose_sched si t b =
     (if infoTables (tScanInfo t) = [] \<or> tScanInteractive t then bsGroup b
      else
        (let fit = List.find (\<lambda>k. siIsScan si (bsSubs b k) \<and> siRatingInRange si (scanRating (tScanInfo t)) (bsSubs b k))
                     (bsOrder b);
             booted = (case QueriesAndChunks_getStats (tQId t) (bsQueries b) of
                         Some a \<Rightarrow> qsQueryBooted (qcObjects (bsQueries b) a) | None \<Rightarrow> False)
         in if booted then bsScanSnail b else case fit of Some k \<Rightarrow> k | None \<Rightarrow> bsScanSnail b))"

definition BlendScheduler_queCmd ::
    "('s, 'm) schedIface \<Rightarrow> int \<Rightarrow> command \<Rightarrow> 's blendScheduler \<Rightarrow> 'm world \<Rightarrow> sched_error + ('s blendScheduler \<times> 'm world)" where
  "BlendScheduler_queCmd si now cmd b w =
     (case cmd of
        ControlCmd c \<Rightarrow> Inr (b\<lparr>bsCtrlCmdQueue := ControlCommandQueue_queCmd c (bsCtrlCmdQueue b)\<rparr>, w)
      | TaskCmd t \<Rightarrow>
          (let k = choose_sched si t b;
               w1 = setOnInteractive t (infoTables (tScanInfo t) = [] \<or> tScanInteractive t) w;
               w2 = setTaskScheduler t k w1
           in case siQueCmd si (TaskCmd t) (bsSubs b k) w2 of
                Inl e \<Rightarrow> Inl e
              | Inr (s, w3) \<Rightarrow>
                  (case queuedTask now t (bsQueries b) w3 of (q, w4) \<Rightarrow>
                     Inr ((upd_sub k s b)\<lparr>bsQueries := q\<rparr>, w4))))"

definition BlendScheduler_commandStart ::
    "('s, 'm) schedIface \<Rightarrow> int \<Rightarrow> command \<Rightarrow> 's blendScheduler \<Rightarrow> 'm world \<Rightarrow> 's blendScheduler \<times> 'm world" where
  "BlendScheduler_commandStart si now cmd b w =
     (case cmd of
        ControlCmd c \<Rightarrow> (b, w)
      | TaskCmd t \<Rightarrow>
          (let b1 = (case tsScheduler (task_st t w) of
                       Some k \<Rightarrow> upd_sub k (siCommandStart si (TaskCmd t) (bsSubs b k)) b | None \<Rightarrow> b)
           in case startedTask now t (bsQueries b1) w of (q, w1) \<Rightarrow> (b1\<lparr>bsQueries := q\<rparr>, w1)))"

definition BlendScheduler_commandFinish ::
    "('s, 'm) schedIface \<Rightarrow> 'm memMan \<Rightarrow> int \<Rightarrow> command \<Rightarrow> 's blendScheduler \<Rightarrow> 'm world \<Rightarrow> 's blendScheduler \<times> 'm world" where
  "BlendScheduler_commandFinish si vt now cmd b w =
     (case cmd of
        ControlCmd c \<Rightarrow> (b, w)
      | TaskCmd t \<Rightarrow>
          (let (b1, w1) = (case tsScheduler (task_st t w) of
                 Some k \<Rightarrow> (case siCommandFinish si vt (TaskCmd t) (bsSubs b k) w of (s, w1) \<Rightarrow> (upd_sub k s b, w1))
               | None \<Rightarrow> (b, w))
           in case finishedTask now t (bsQueries b1) w1 of (q, w2) \<Rightarrow> (b1\<lparr>bsQueries := q\<rparr>, w2)))"

section \<open>The next command\<close>

definition calcAvailableTheads :: "('s, 'm) schedIface \<Rightarrow> 's blendScheduler \<Rightarrow> int" where
  "calcAvailableTheads si b =
     bsSchedMaxThreads b - sum_list (map (\<lambda>k. desiredThreadReserve (siBase si (bsSubs b k))) (bsOrder b))"

text \<open>The loop of \<open>_ready\<close>: each scheduler is told its share of the threads and then asked.\<close>

fun first_ready :: "('s, 'm) schedIface \<Rightarrow> 'm memMan \<Rightarrow> nat list \<Rightarrow> int \<Rightarrow> 's blendScheduler \<Rightarrow> 'm world \<Rightarrow>
    sched_error + (nat option \<times> 's blendScheduler \<times> 'm world)" where
  "first_ready si vt [] avail b w = Inr (None, b, w)"
| "first_ready si vt (k # ks) avail b w =
     (let s = siSetBase si (\<lambda>x. snd (applyAvailableThreads avail x)) (bsSubs b k);
          avail' = fst (applyAvailableThreads avail (siBase si (bsSubs b k)))
      in case siReady si vt s w of
           Inl e \<Rightarrow> Inl e
         | Inr (rdy, s', w') \<Rightarrow>
             if rdy then Inr (Some k, upd_sub k s' b, w') else first_ready si vt ks avail' (upd_sub k s' b) w')"

definition BlendScheduler_ready :: "('s, 'm) schedIface \<Rightarrow> 'm memMan \<Rightarrow> 's blendScheduler \<Rightarrow> 'm world \<Rightarrow>
    sched_error + (bool \<times> 's blendScheduler \<times> 'm world)" where
  "BlendScheduler_ready si vt b w =
     (if bsReadySched b \<noteq> None then Inr (True, b, w)
      else case first_ready si vt (bsOrder b) (calcAvailableTheads si b) b w of
          Inl e \<Rightarrow> Inl e
        | Inr (Some k, b', w') \<Rightarrow> Inr (True, b'\<lparr>bsReadySched := Some k\<rparr>, w')
        | Inr (None, b', w') \<Rightarrow> Inr (ControlCommandQueue_ready (bsCtrlCmdQueue b'), b', w'))"

definition BlendScheduler_getCmd :: "('s, 'm) schedIface \<Rightarrow> 'm memMan \<Rightarrow> 's blendScheduler \<Rightarrow> 'm world \<Rightarrow>
    sched_error + (command option \<times> 's blendScheduler \<times> 'm world)" where
  "BlendScheduler_getCmd si vt b w =
     (case BlendScheduler_ready si vt b w of
        Inl e \<Rightarrow> Inl e
      | Inr (rdy, b1, w1) \<Rightarrow>
          (let from_sched = (case bsReadySched b1 of
                 Some k \<Rightarrow> if \<not> rdy then Inr (None, b1, w1)
                   else (case siGetCmd si vt (bsSubs b1 k) w1 of
                           Inl e \<Rightarrow> Inl e
                         | Inr (r, s, w2) \<Rightarrow>
                             Inr (r, sortScanSchedulers si ((upd_sub k s b1)\<lparr>bsReadySched := None\<rparr>), w2))
               | None \<Rightarrow> Inr (None, b1, w1))
           in case from_sched of
                Inl e \<Rightarrow> Inl e
              | Inr (Some t, b2, w2) \<Rightarrow> Inr (Some (TaskCmd t), b2, w2)
              | Inr (None, b2, w2) \<Rightarrow>
                  (case ControlCommandQueue_getCmd (bsCtrlCmdQueue b2) of (c, q) \<Rightarrow>
                     Inr (map_option ControlCmd c, b2\<lparr>bsCtrlCmdQueue := q\<rparr>, w2))))"

definition getAdjustedMaxThreads :: "int \<Rightarrow> int \<Rightarrow> int" where
  "getAdjustedMaxThreads oldAdjMax inFlight =
     (let newAdjMax = oldAdjMax - max (inFlight - 1) 0 in if newAdjMax < 1 then 1 else newAdjMax)"

definition BlendScheduler_getSize :: "('s, 'm) schedIface \<Rightarrow> 's blendScheduler \<Rightarrow> int" where
  "BlendScheduler_getSize si b = sum_list (map (\<lambda>k. siGetSize si (bsSubs b k)) (bsOrder b))"

definition BlendScheduler_getInFlight :: "('s, 'm) schedIface \<Rightarrow> 's blendScheduler \<Rightarrow> int" where
  "BlendScheduler_getInFlight si b = sum_list (map (\<lambda>k. sbInFlight (siBase si (bsSubs b k))) (bsOrder b))"

definition isScanSnail :: "nat \<Rightarrow> 's blendScheduler \<Rightarrow> bool" where
  "isScanSnail k b \<longleftrightarrow> k = bsScanSnail b"

section \<open>Moving a user query\<close>

type_synonym ('s, 'm) leavePool = "nat \<Rightarrow> task \<Rightarrow> 's blendScheduler \<times> 'm world \<Rightarrow> 's blendScheduler \<times> 'm world"

text \<open>A call of \<open>removeTask\<close> of sub-scheduler \<open>k\<close>, with the thread leaving the pool.\<close>

definition remove_from :: "('s, 'm) schedIface \<Rightarrow> ('s, 'm) leavePool \<Rightarrow> task \<Rightarrow> bool \<Rightarrow> nat \<Rightarrow>
    's blendScheduler \<times> 'm world \<Rightarrow> bool \<times> 's blendScheduler \<times> 'm world" where
  "remove_from si leave t removeRunning k bw =
     (case bw of (b, w) \<Rightarrow>
        (case siRemoveTask si t removeRunning (bsSubs b k) w of (rm, s, w1) \<Rightarrow>
           (rmInQueue rm,
            (case rmLeavePool rm of Some th \<Rightarrow> leave th t (upd_sub k s b, w1) | None \<Rightarrow> (upd_sub k s b, w1)))))"

text \<open>
  The lambda \<open>moveTasks\<close>: the tasks taken off their queue and the tasks that were not; tasks on another
  scheduler are dropped from the list.
\<close>

fun moveTasks :: "('s, 'm) schedIface \<Rightarrow> ('s, 'm) leavePool \<Rightarrow> nat option \<Rightarrow> bool \<Rightarrow> task list \<Rightarrow>
    's blendScheduler \<times> 'm world \<Rightarrow> task list \<times> task list \<times> 's blendScheduler \<times> 'm world" where
  "moveTasks si leave sched moveRunning [] bw = ([], [], bw)"
| "moveTasks si leave sched moveRunning (t # ts) bw =
     (case tsScheduler (task_st t (snd bw)) of
        None \<Rightarrow> moveTasks si leave sched moveRunning ts bw
      | Some k \<Rightarrow>
          if sched = Some k \<or> sched = None then
            (case remove_from si leave t moveRunning k bw of (inQueue, bw1) \<Rightarrow>
               (case moveTasks si leave sched moveRunning ts bw1 of (removed, rest, bw2) \<Rightarrow>
                  if inQueue then (t # removed, rest, bw2) else (removed, t # rest, bw2)))
          else moveTasks si leave sched moveRunning ts bw)"

definition removeQueryFrom :: "('s, 'm) schedIface \<Rightarrow> ('s, 'm) leavePool \<Rightarrow> nat \<Rightarrow> nat option \<Rightarrow>
    's blendScheduler \<times> 'm world \<Rightarrow> task list \<times> 's blendScheduler \<times> 'm world" where
  "removeQueryFrom si leave qId sched bw =
     (case QueriesAndChunks_getStats qId (bsQueries (fst bw)) of
        None \<Rightarrow> ([], bw)
      | Some a \<Rightarrow>
          (let taskList = map snd (qsTaskMap (qcObjects (bsQueries (fst bw)) a)) in
           case moveTasks si leave sched False taskList bw of (removed1, taskList1, bw1) \<Rightarrow>
             (case moveTasks si leave sched True taskList1 bw1 of (removed2, taskList2, bw2) \<Rightarrow>
                (removed1 @ removed2, bw2))))"

text \<open>The loop of \<open>moveUserQuery\<close> that puts the tasks on the destination.\<close>

fun queue_all :: "('s, 'm) schedIface \<Rightarrow> nat \<Rightarrow> task list \<Rightarrow> 's blendScheduler \<times> 'm world \<Rightarrow>
    sched_error + (int \<times> 's blendScheduler \<times> 'm world)" where
  "queue_all si dest [] bw = Inr (0, bw)"
| "queue_all si dest (t # ts) (b, w) =
     (case siQueCmd si (TaskCmd t) (bsSubs b dest) (setTaskScheduler t dest w) of
        Inl e \<Rightarrow> Inl e
      | Inr (s, w1) \<Rightarrow>
          (case queue_all si dest ts (upd_sub dest s b, w1) of
             Inl e \<Rightarrow> Inl e | Inr (n, bw) \<Rightarrow> Inr (n + 1, bw)))"

definition moveUserQuery :: "('s, 'm) schedIface \<Rightarrow> ('s, 'm) leavePool \<Rightarrow> nat \<Rightarrow> nat option \<Rightarrow> nat option \<Rightarrow>
    's blendScheduler \<times> 'm world \<Rightarrow> sched_error + (int \<times> 's blendScheduler \<times> 'm world)" where
  "moveUserQuery si leave qId source destination bw =
     (case destination of
        None \<Rightarrow> Inr (0, bw)
      | Some dest \<Rightarrow>
          (case removeQueryFrom si leave qId source bw of (taskList, bw1) \<Rightarrow> queue_all si dest taskList bw1))"

definition moveUserQueryToSnail :: "('s, 'm) schedIface \<Rightarrow> ('s, 'm) leavePool \<Rightarrow> nat \<Rightarrow> nat option \<Rightarrow>
    's blendScheduler \<times> 'm world \<Rightarrow> sched_error + (int \<times> 's blendScheduler \<times> 'm world)" where
  "moveUserQueryToSnail si leave qId source bw =
     (if source = Some (bsScanSnail (fst bw)) then Inr (0, bw)
      else moveUserQuery si leave qId source (Some (bsScanSnail (fst bw))) bw)"

section \<open>Examination of the running tasks\<close>

text \<open>
  \<open>_bootTask\<close>. Moving the whole query to the snail scan is disabled in the code (\<open>false &&\<close>), the rest of the
  branches only log.
\<close>

definition bootTask :: "('s, 'm) schedIface \<Rightarrow> ('s, 'm) leavePool \<Rightarrow> nat \<Rightarrow> task \<Rightarrow> nat \<Rightarrow>
    's blendScheduler \<times> 'm world \<Rightarrow> 's blendScheduler \<times> 'm world" where
  "bootTask si leave a t k bw =
     (case remove_from si leave t True k bw of (inQueue, b, w) \<Rightarrow>
        (b\<lparr>bsQueries := upd_stats a (\<lambda>s. s\<lparr>qsTasksBooted := qsTasksBooted s + 1\<rparr>) (bsQueries b)\<rparr>, w))"

text \<open>
  Whether a running task has used up its share of the scheduler's time. When the total time of the table is 0 the
  share is 0/0, which is not a number for a \<open>double\<close>, and the comparison is false.
\<close>

definition task_too_slow :: "(string, scanTableSums) omap \<Rightarrow> real \<Rightarrow> int \<Rightarrow> task \<Rightarrow> taskSt \<Rightarrow> bool" where
  "task_too_slow scanTblSums schedMaxTime now t st =
     (case infoTables (tScanInfo t) of
        [] \<Rightarrow> False
      | sti # _ \<Rightarrow>
          (case omap_find scanTblSums (makeTableName (stDb sti) (stTable sti)) of
             None \<Rightarrow> False
           | Some s \<Rightarrow>
               (case omap_find (stsChunkPercentages s) (getChunkId t) of
                  None \<Rightarrow> False
                | Some p \<Rightarrow>
                    (let maxTimeChunk = ctpPercent p * schedMaxTime;
                         runTimeMinutes = real_of_int (getRunTime now st) / 60000
                     in stsTotalTime s \<noteq> 0 \<and> maxTimeChunk < runTimeMinutes \<and> ctpValid p))))"

definition running_on_scan :: "('s, 'm) schedIface \<Rightarrow> 's blendScheduler \<Rightarrow> 'm world \<Rightarrow> task \<Rightarrow> bool" where
  "running_on_scan si b w t \<longleftrightarrow> tsState (task_st t w) = RUNNING \<and>
     (case tsScheduler (task_st t w) of Some k \<Rightarrow> siIsScan si (bsSubs b k) | None \<Rightarrow> False)"

definition examine_task :: "('s, 'm) schedIface \<Rightarrow> ('s, 'm) leavePool \<Rightarrow> (string, scanTableSums) omap \<Rightarrow> int \<Rightarrow> nat \<Rightarrow>
    's blendScheduler \<times> 'm world \<Rightarrow> task \<Rightarrow> 's blendScheduler \<times> 'm world" where
  "examine_task si leave scanTblSums now a bw t =
     (case tsScheduler (task_st t (snd bw)) of
        None \<Rightarrow> bw
      | Some k \<Rightarrow>
          if siIsScan si (bsSubs (fst bw) k)
             \<and> task_too_slow scanTblSums (siMaxTimeMinutes si (bsSubs (fst bw) k)) now t (task_st t (snd bw))
          then bootTask si leave a t k bw else bw)"

definition examine_query :: "('s, 'm) schedIface \<Rightarrow> ('s, 'm) leavePool \<Rightarrow> (string, scanTableSums) omap \<Rightarrow> int \<Rightarrow>
    's blendScheduler \<times> 'm world \<Rightarrow> nat \<Rightarrow> 's blendScheduler \<times> 'm world" where
  "examine_query si leave scanTblSums now bw a =
     (let runningTasks = filter (running_on_scan si (fst bw) (snd bw)) (map snd (qsTaskMap (qcObjects (bsQueries (fst bw)) a)))
      in foldl (examine_task si leave scanTblSums now a) bw runningTasks)"

definition examineAll :: "('s, 'm) schedIface \<Rightarrow> ('s, 'm) leavePool \<Rightarrow> int \<Rightarrow>
    's blendScheduler \<times> 'm world \<Rightarrow> 's blendScheduler \<times> 'm world" where
  "examineAll si leave now bw =
     (let scanTblSums = calcScanTableSums (bsQueries (fst bw))
      in foldl (examine_query si leave scanTblSums now) bw (map snd (qcQueryStats (bsQueries (fst bw)))))"

end
