(* ===== verification/Blend_Contract.thy ===== *)
theory Blend_Contract
  imports Blend_Scheduler
begin

text \<open>
  The contract between the blend scheduler and its sub-schedulers (locale \<open>scheduler_contract\<close>), and what follows
  from it for the blend scheduler whatever the sub-schedulers are: every operation keeps the invariant
  \<open>blend_ok\<close>, conserves the queued tasks, and keeps the books of the sub-schedulers exact (\<open>blend_books\<close>): each
  queued task is on the queue of the scheduler it points to, and each scheduler counts in flight the running
  tasks that point to it. \<open>Blend_Properties\<close> has the proof that the group and the scan schedulers keep the contract.
\<close>

section \<open>The contract\<close>

text \<open>What the operations leave of a task: an assigned handle stays assigned, its scheduler stays.\<close>

definition keeps_handles :: "'m world \<Rightarrow> 'm world \<Rightarrow> bool" where
  "keeps_handles w w' \<longleftrightarrow> (\<forall>p. hasMemHandle (wTasks w p) \<longrightarrow> hasMemHandle (wTasks w' p))"

definition task_frame :: "'m world \<Rightarrow> 'm world \<Rightarrow> bool" where
  "task_frame w w' \<longleftrightarrow> keeps_handles w w' \<and> (\<forall>p. tsScheduler (wTasks w' p) = tsScheduler (wTasks w p))"

lemma keeps_handles_refl [simp]: "keeps_handles w w"
  by (simp add: keeps_handles_def)

lemma keeps_handles_trans: "keeps_handles w w1 \<Longrightarrow> keeps_handles w1 w2 \<Longrightarrow> keeps_handles w w2"
  by (simp add: keeps_handles_def)

lemma task_frame_refl [simp]: "task_frame w w"
  by (simp add: task_frame_def)

lemma task_frame_trans: "task_frame w w1 \<Longrightarrow> task_frame w1 w2 \<Longrightarrow> task_frame w w2"
  using keeps_handles_trans by (fastforce simp: task_frame_def)

lemma task_frame_keeps: "task_frame w w' \<Longrightarrow> keeps_handles w w'"
  by (simp add: task_frame_def)

lemma task_frame_sched: "task_frame w w' \<Longrightarrow> tsScheduler (task_st t w') = tsScheduler (task_st t w)"
  by (simp add: task_frame_def)

lemma task_frame_upd:
  "(\<And>s. tsMemHandle (g s) = tsMemHandle s) \<Longrightarrow> (\<And>s. tsScheduler (g s) = tsScheduler s) \<Longrightarrow> task_frame w (upd_task t g w)"
  by (auto simp: task_frame_def keeps_handles_def hasMemHandle_def)

text \<open>Changes of the shared members that a sub-scheduler allows: the counts of its user queries are its own.\<close>

definition base_change :: "(schedBase \<Rightarrow> schedBase) \<Rightarrow> bool" where
  "base_change f \<longleftrightarrow> (\<forall>b. sbUserQueryCounts (f b) = sbUserQueryCounts b)"

locale scheduler_contract =
  fixes si :: "('s, 'm) schedIface" and iv :: "'s \<Rightarrow> 'm world \<Rightarrow> bool" and contents :: "'s \<Rightarrow> task multiset"
  assumes inv_world: "iv s w \<Longrightarrow> keeps_handles w w' \<Longrightarrow> iv s w'"
    and base_inv: "iv s w \<Longrightarrow> base_change f \<Longrightarrow> iv (siSetBase si f s) w"
    and base_contents: "contents (siSetBase si f s) = contents s"
    and base_base: "siBase si (siSetBase si f s) = f (siBase si s)"
    and que_total: "iv s w \<Longrightarrow> \<exists>s' w'. siQueCmd si (TaskCmd t) s w = Inr (s', w')"
    and que_inv: "iv s w \<Longrightarrow> siQueCmd si (TaskCmd t) s w = Inr (s', w') \<Longrightarrow> iv s' w' \<and> task_frame w w'"
    and que_contents: "iv s w \<Longrightarrow> siQueCmd si (TaskCmd t) s w = Inr (s', w') \<Longrightarrow> contents s' = add_mset t (contents s)"
    and que_base: "iv s w \<Longrightarrow> siQueCmd si (TaskCmd t) s w = Inr (s', w') \<Longrightarrow>
      sbInFlight (siBase si s') = sbInFlight (siBase si s)"
    and ready_inv: "iv s w \<Longrightarrow> siReady si vt s w = Inr (b, s', w') \<Longrightarrow> iv s' w' \<and> task_frame w w'"
    and ready_contents: "iv s w \<Longrightarrow> siReady si vt s w = Inr (b, s', w') \<Longrightarrow> contents s' = contents s"
    and ready_base: "iv s w \<Longrightarrow> siReady si vt s w = Inr (b, s', w') \<Longrightarrow> siBase si s' = siBase si s"
    and ready_limit: "iv s w \<Longrightarrow> siReady si vt s w = Inr (True, s', w') \<Longrightarrow>
      sbInFlight (siBase si s) < maxInFlight (siBase si s)"
    and ready_get: "iv s w \<Longrightarrow> siReady si vt s w = Inr (True, s', w') \<Longrightarrow>
      \<exists>t s'' w''. siGetCmd si vt s' w' = Inr (Some t, s'', w'')"
    and get_inv: "iv s w \<Longrightarrow> siGetCmd si vt s w = Inr (r, s', w') \<Longrightarrow> iv s' w' \<and> task_frame w w'"
    and get_contents: "iv s w \<Longrightarrow> siGetCmd si vt s w = Inr (r, s', w') \<Longrightarrow>
      contents s = (case r of None \<Rightarrow> contents s' | Some t \<Rightarrow> add_mset t (contents s'))"
    and get_base: "iv s w \<Longrightarrow> siGetCmd si vt s w = Inr (r, s', w') \<Longrightarrow>
      sbInFlight (siBase si s') = sbInFlight (siBase si s) + (case r of None \<Rightarrow> 0 | Some t \<Rightarrow> 1)"
    and finish_inv: "iv s w \<Longrightarrow> siCommandFinish si vt (TaskCmd t) s w = (s', w') \<Longrightarrow> iv s' w' \<and> task_frame w w'"
    and finish_contents: "iv s w \<Longrightarrow> siCommandFinish si vt (TaskCmd t) s w = (s', w') \<Longrightarrow> contents s' = contents s"
    and finish_base: "iv s w \<Longrightarrow> siCommandFinish si vt (TaskCmd t) s w = (s', w') \<Longrightarrow>
      sbInFlight (siBase si s') = sbInFlight (siBase si s) - 1"
    and start_inv: "iv s w \<Longrightarrow> iv (siCommandStart si cmd s) w"
    and start_contents: "contents (siCommandStart si cmd s) = contents s"
    and start_base: "siBase si (siCommandStart si cmd s) = siBase si s"

section \<open>The order of the sub-schedulers\<close>

definition blend_ok :: "('s \<Rightarrow> 'm world \<Rightarrow> bool) \<Rightarrow> 's blendScheduler \<Rightarrow> 'm world \<Rightarrow> bool" where
  "blend_ok iv b w \<longleftrightarrow> (\<exists>ss. bsOrder b = bsGroup b # ss @ [bsScanSnail b]) \<and> distinct (bsOrder b) \<and>
     (\<forall>k. bsReadySched b = Some k \<longrightarrow> k \<in> set (bsOrder b)) \<and> (\<forall>k \<in> set (bsOrder b). iv (bsSubs b k) w)"

definition blend_contents :: "('s \<Rightarrow> task multiset) \<Rightarrow> 's blendScheduler \<Rightarrow> task multiset" where
  "blend_contents contents b = (\<Sum>k \<in> set (bsOrder b). contents (bsSubs b k))"

lemma upd_sub_simps [simp]:
  "bsOrder (upd_sub k s b) = bsOrder b" "bsSubs (upd_sub k s b) = (bsSubs b)(k := s)" "bsGroup (upd_sub k s b) = bsGroup b"
  "bsScanSnail (upd_sub k s b) = bsScanSnail b" "bsReadySched (upd_sub k s b) = bsReadySched b"
  "bsCtrlCmdQueue (upd_sub k s b) = bsCtrlCmdQueue b" "bsQueries (upd_sub k s b) = bsQueries b"
  "bsSchedMaxThreads (upd_sub k s b) = bsSchedMaxThreads b" "bsPrioritizeByInFlight (upd_sub k s b) = bsPrioritizeByInFlight b"
  by (simp_all add: upd_sub_def)

lemma sort_simps [simp]:
  "set (bsOrder (sortScanSchedulers si b)) = set (bsOrder b)" "bsSubs (sortScanSchedulers si b) = bsSubs b"
  "bsGroup (sortScanSchedulers si b) = bsGroup b" "bsScanSnail (sortScanSchedulers si b) = bsScanSnail b"
  "bsReadySched (sortScanSchedulers si b) = bsReadySched b" "bsCtrlCmdQueue (sortScanSchedulers si b) = bsCtrlCmdQueue b"
  "bsQueries (sortScanSchedulers si b) = bsQueries b" "bsSchedMaxThreads (sortScanSchedulers si b) = bsSchedMaxThreads b"
  "bsPrioritizeByInFlight (sortScanSchedulers si b) = bsPrioritizeByInFlight b"
  by (simp_all add: sortScanSchedulers_def)

text \<open>The comparison puts the group scheduler first and the snail scan last; in between it is a weak order.\<close>

lemma foldl_insort_front:
  "\<forall>x \<in> set xs. \<not> lt x g \<Longrightarrow>
   foldl (\<lambda>acc x. insort_by lt x acc) (g # ys) xs = g # foldl (\<lambda>acc x. insort_by lt x acc) ys xs"
  by (induction xs arbitrary: ys) auto

lemma insort_by_last: "\<forall>y \<in> set ys. \<not> lt x y \<Longrightarrow> insort_by lt x ys = ys @ [x]"
  by (induction ys) auto

lemma sort_by_ends:
  assumes "\<forall>x \<in> set ss. \<not> lt x g \<and> \<not> lt l x" "\<not> lt l g"
  shows "sort_by lt (g # ss @ [l]) = g # sort_by lt ss @ [l]"
proof -
  have "sort_by lt (g # ss @ [l]) = g # foldl (\<lambda>acc x. insort_by lt x acc) [] (ss @ [l])"
    unfolding sort_by_def using assms foldl_insort_front [of "ss @ [l]" lt g "[]"] by simp
  also have "\<dots> = g # insort_by lt l (sort_by lt ss)" by (simp add: sort_by_def)
  also have "\<dots> = g # sort_by lt ss @ [l]" using assms by (simp add: insort_by_last)
  finally show ?thesis .
qed

definition scan_key :: "('s, 'm) schedIface \<Rightarrow> 's blendScheduler \<Rightarrow> nat \<Rightarrow> int \<times> int" where
  "scan_key si b k =
     (let sb = siBase si (bsSubs b k)
      in (if bsPrioritizeByInFlight b then sbInFlight sb - sbPriority sb else 0, sbDefaultPosition sb))"

lemma lessThan_scans:
  "x \<notin> {bsGroup b, bsScanSnail b} \<Longrightarrow> y \<notin> {bsGroup b, bsScanSnail b} \<Longrightarrow>
   lessThan si b x y \<longleftrightarrow> fst (scan_key si b x) < fst (scan_key si b y) \<or>
     fst (scan_key si b x) = fst (scan_key si b y) \<and> snd (scan_key si b x) < snd (scan_key si b y)"
  by (auto simp: lessThan_def scan_key_def Let_def)

lemma sort_order:
  assumes o: "bsOrder b = bsGroup b # ss @ [bsScanSnail b]" and d: "distinct (bsOrder b)"
  shows "bsOrder (sortScanSchedulers si b) = bsGroup b # sort_by (lessThan si b) ss @ [bsScanSnail b]"
    "distinct (bsOrder (sortScanSchedulers si b))"
    "sorted_wrt (\<lambda>x y. \<not> lessThan si b y x) (sort_by (lessThan si b) ss)"
proof -
  have ends: "\<forall>x \<in> set ss. \<not> lessThan si b x (bsGroup b) \<and> \<not> lessThan si b (bsScanSnail b) x"
    "\<not> lessThan si b (bsScanSnail b) (bsGroup b)"
    using d unfolding o by (auto simp: lessThan_def)
  show e: "bsOrder (sortScanSchedulers si b) = bsGroup b # sort_by (lessThan si b) ss @ [bsScanSnail b]"
    unfolding sortScanSchedulers_def using sort_by_ends [OF ends] o by simp
  have "mset (bsOrder (sortScanSchedulers si b)) = mset (bsOrder b)" by (simp add: sortScanSchedulers_def mset_sort_by)
  then show "distinct (bsOrder (sortScanSchedulers si b))" using d by (metis mset_eq_imp_distinct_iff)
  have scans: "x \<notin> {bsGroup b, bsScanSnail b}" if "x \<in> set ss" for x using d that unfolding o by auto
  note less = lessThan_scans [OF scans scans]
  have "strict_weak_order_on (set ss) (lessThan si b)"
    by unfold_locales (auto simp: less)
  then show "sorted_wrt (\<lambda>x y. \<not> lessThan si b y x) (sort_by (lessThan si b) ss)"
    by (rule strict_weak_order_on.sorted_sort_by) simp
qed

lemma sort_ok: "blend_ok iv b w \<Longrightarrow> blend_ok iv (sortScanSchedulers si b) w"
  using sort_order [of b _ si] by (auto simp: blend_ok_def)

lemma sort_contents [simp]: "blend_contents c (sortScanSchedulers si b) = blend_contents c b"
  by (simp add: blend_contents_def)

lemma blend_contents_upd:
  assumes "k \<in> set (bsOrder b)"
  shows "blend_contents c (upd_sub k s b) + c (bsSubs b k) = blend_contents c b + c s"
proof -
  have "blend_contents c (upd_sub k s b) = c s + (\<Sum>j \<in> set (bsOrder b) - {k}. c (bsSubs b j))"
    using assms by (simp add: blend_contents_def sum.remove [of _ k])
  moreover have "blend_contents c b = c (bsSubs b k) + (\<Sum>j \<in> set (bsOrder b) - {k}. c (bsSubs b j))"
    using assms by (simp add: blend_contents_def sum.remove [of _ k])
  ultimately show ?thesis by (simp add: ac_simps)
qed

lemma blend_in_order:
  assumes "blend_ok iv b w"
  shows "bsGroup b \<in> set (bsOrder b)" "bsScanSnail b \<in> set (bsOrder b)"
  using assms by (auto simp: blend_ok_def)

lemma choose_in_order: "blend_ok iv b w \<Longrightarrow> choose_sched si t b \<in> set (bsOrder b)"
  using blend_in_order [of iv b w] by (auto simp: choose_sched_def Let_def find_Some_iff split: option.split)

lemma query_frame:
  "queuedTask now t q w = (q', w') \<Longrightarrow> task_frame w w'"
  "startedTask now t q w = (q', w') \<Longrightarrow> task_frame w w'"
  "finishedTask now t q w = (q', w') \<Longrightarrow> task_frame w w'"
  by (auto simp: queuedTask_def startedTask_def finishedTask_def Task_queued_def Task_started_def Task_finished_def
      task_frame_def keeps_handles_def hasMemHandle_def Let_def
      split: option.splits if_splits)

section \<open>The books of the blend scheduler\<close>

text \<open>
  \<open>Q\<close> are the tasks queued and not yet delivered, \<open>R\<close> the tasks delivered and not yet finished.
\<close>

definition on_sched :: "nat \<Rightarrow> 'm world \<Rightarrow> task multiset \<Rightarrow> task multiset" where
  "on_sched k w M = filter_mset (\<lambda>t. tsScheduler (task_st t w) = Some k) M"

definition blend_books :: "('s, 'm) schedIface \<Rightarrow> ('s \<Rightarrow> task multiset) \<Rightarrow> 's blendScheduler \<Rightarrow> 'm world \<Rightarrow>
    task multiset \<Rightarrow> task multiset \<Rightarrow> bool" where
  "blend_books si contents b w Q R \<longleftrightarrow>
     (\<forall>k \<in> set (bsOrder b). contents (bsSubs b k) = on_sched k w Q \<and>
        sbInFlight (siBase si (bsSubs b k)) = int (size (on_sched k w R))) \<and>
     (\<forall>t \<in># Q + R. \<exists>k \<in> set (bsOrder b). tsScheduler (task_st t w) = Some k)"

lemma on_sched_frame: "task_frame w w' \<Longrightarrow> on_sched k w' M = on_sched k w M"
  by (simp add: on_sched_def task_frame_sched)

lemma on_sched_simps [simp]:
  "on_sched k w {#} = {#}"
  "on_sched k w (add_mset t M) = (if tsScheduler (task_st t w) = Some k then add_mset t (on_sched k w M) else on_sched k w M)"
  by (simp_all add: on_sched_def)

lemma on_sched_diff: "on_sched k w (M - N) = on_sched k w M - on_sched k w N"
  by (simp add: on_sched_def)

lemma on_sched_sub: "t \<in># on_sched k w M \<longleftrightarrow> t \<in># M \<and> tsScheduler (task_st t w) = Some k"
  by (simp add: on_sched_def)

lemma on_sched_other:
  "tPtr t \<notin> tPtr ` set_mset M \<Longrightarrow> (\<And>p. p \<noteq> tPtr t \<Longrightarrow> tsScheduler (wTasks w' p) = tsScheduler (wTasks w p)) \<Longrightarrow>
   on_sched k w' M = on_sched k w M"
  unfolding on_sched_def by (rule filter_mset_cong) (metis image_eqI)+

lemma books_frame: "blend_books si c b w Q R \<Longrightarrow> task_frame w w' \<Longrightarrow> blend_books si c b w' Q R"
  by (simp add: blend_books_def on_sched_frame task_frame_sched)

text \<open>The books depend on the contents and the counts in flight only.\<close>

lemma books_cong:
  assumes "blend_books si c b w Q R" "set (bsOrder b') = set (bsOrder b)"
    "\<And>k. k \<in> set (bsOrder b) \<Longrightarrow> c (bsSubs b' k) = c (bsSubs b k) \<and>
       sbInFlight (siBase si (bsSubs b' k)) = sbInFlight (siBase si (bsSubs b k))"
  shows "blend_books si c b' w Q R"
  using assms by (simp add: blend_books_def)

lemma sum_on_sched:
  assumes "finite K" "\<forall>t \<in># M. \<exists>k \<in> K. tsScheduler (task_st t w) = Some k"
  shows "(\<Sum>k \<in> K. on_sched k w M) = M"
  using assms(2)
proof (induction M)
  case (add t M)
  then obtain k0 where k0: "k0 \<in> K" "tsScheduler (task_st t w) = Some k0" by auto
  have "(\<Sum>k \<in> K. on_sched k w (add_mset t M)) = (\<Sum>k \<in> K. on_sched k w M + (if k = k0 then {#t#} else {#}))"
    by (rule sum.cong) (auto simp: k0)
  also have "\<dots> = M + {#t#}"
    using add k0 assms(1) by (simp add: sum.distrib sum.delta)
  finally show ?case by simp
qed simp

lemma books_total:
  assumes "blend_books si c b w Q R"
  shows "blend_contents c b = Q" "(\<Sum>k \<in> set (bsOrder b). sbInFlight (siBase si (bsSubs b k))) = int (size R)"
proof -
  have all: "\<forall>t \<in># Q. \<exists>k \<in> set (bsOrder b). tsScheduler (task_st t w) = Some k"
    "\<forall>t \<in># R. \<exists>k \<in> set (bsOrder b). tsScheduler (task_st t w) = Some k"
    using assms by (auto simp: blend_books_def)
  show "blend_contents c b = Q"
    using assms sum_on_sched [OF _ all(1)] by (simp add: blend_contents_def blend_books_def)
  have "(\<Sum>k \<in> set (bsOrder b). sbInFlight (siBase si (bsSubs b k))) = (\<Sum>k \<in> set (bsOrder b). int (size (on_sched k w R)))"
    using assms by (simp add: blend_books_def)
  also have "\<dots> = int (size (\<Sum>k \<in> set (bsOrder b). on_sched k w R))" by (simp add: size_multiset_sum)
  finally show "(\<Sum>k \<in> set (bsOrder b). sbInFlight (siBase si (bsSubs b k))) = int (size R)"
    using sum_on_sched [OF _ all(2)] by simp
qed

section \<open>The operations keep the invariant and the books\<close>

text \<open>A change of the sub-schedulers only.\<close>

definition subs_only :: "'s blendScheduler \<Rightarrow> 's blendScheduler \<Rightarrow> bool" where
  "subs_only b b' \<longleftrightarrow> b' = b\<lparr>bsSubs := bsSubs b'\<rparr>"

lemma subs_only_upd [simp]: "subs_only b b" "subs_only b (upd_sub k s b)"
  by (simp_all add: subs_only_def upd_sub_def)

lemma subs_only_trans: "subs_only b b1 \<Longrightarrow> subs_only b1 b2 \<Longrightarrow> subs_only b b2"
  unfolding subs_only_def by (metis blendScheduler.surjective blendScheduler.update_convs(5))

lemma subs_only_fields:
  assumes "subs_only b b'"
  shows "bsOrder b' = bsOrder b" "bsGroup b' = bsGroup b" "bsScanSnail b' = bsScanSnail b" "bsReadySched b' = bsReadySched b"
    "bsCtrlCmdQueue b' = bsCtrlCmdQueue b" "bsSchedMaxThreads b' = bsSchedMaxThreads b" "bsQueries b' = bsQueries b"
    "bsPrioritizeByInFlight b' = bsPrioritizeByInFlight b"
  using assms unfolding subs_only_def
  by (metis blendScheduler.select_convs blendScheduler.surjective blendScheduler.update_convs(5))+

lemma base_change_avail: "base_change (\<lambda>x. snd (applyAvailableThreads n x))"
  by (simp add: base_change_def applyAvailableThreads_def)

text \<open>The sub-scheduler as \<open>_ready\<close> asks it, with its share of the threads applied.\<close>

definition shared :: "('s, 'm) schedIface \<Rightarrow> int \<Rightarrow> 's \<Rightarrow> 's" where
  "shared si avail s = siSetBase si (\<lambda>x. snd (applyAvailableThreads avail x)) s"

context scheduler_contract
begin

lemma blend_upd_ok:
  "blend_ok iv b w \<Longrightarrow> keeps_handles w w' \<Longrightarrow> (k \<in> set (bsOrder b) \<Longrightarrow> iv s w') \<Longrightarrow> blend_ok iv (upd_sub k s b) w'"
  using inv_world unfolding blend_ok_def by auto

lemma blend_world_ok: "blend_ok iv b w \<Longrightarrow> keeps_handles w w' \<Longrightarrow> blend_ok iv b w'"
  using inv_world unfolding blend_ok_def by blast

lemma shared_facts:
  "iv s w \<Longrightarrow> iv (shared si avail s) w" "contents (shared si avail s) = contents s"
  "siBase si (shared si avail s) = snd (applyAvailableThreads avail (siBase si s))"
  "sbInFlight (siBase si (shared si avail s)) = sbInFlight (siBase si s)"
  unfolding shared_def
  by (rule base_inv [OF _ base_change_avail]) (simp_all add: base_contents base_base applyAvailableThreads_def)

lemma ask_ok:
  assumes ok: "blend_ok iv b w" and k: "k \<in> set (bsOrder b)"
    and r: "siReady si vt (shared si avail (bsSubs b k)) w = Inr (rdy, s', w')"
  shows "blend_ok iv (upd_sub k s' b) w'" "task_frame w w'" "contents s' = contents (bsSubs b k)"
    "siBase si s' = snd (applyAvailableThreads avail (siBase si (bsSubs b k)))"
    "iv (shared si avail (bsSubs b k)) w"
proof -
  show i: "iv (shared si avail (bsSubs b k)) w" using ok k shared_facts(1) by (simp add: blend_ok_def)
  note s' = ready_inv [OF i r] ready_contents [OF i r] ready_base [OF i r]
  then show "blend_ok iv (upd_sub k s' b) w'" using blend_upd_ok [OF ok] task_frame_keeps by blast
  show "task_frame w w'" "contents s' = contents (bsSubs b k)"
    "siBase si s' = snd (applyAvailableThreads avail (siBase si (bsSubs b k)))"
    using s' shared_facts by auto
qed

lemma ask_books:
  assumes ok: "blend_ok iv b w" and bk: "blend_books si contents b w Q R" and k: "k \<in> set (bsOrder b)"
    and r: "siReady si vt (shared si avail (bsSubs b k)) w = Inr (rdy, s', w')"
  shows "blend_books si contents (upd_sub k s' b) w' Q R"
proof -
  note a = ask_ok [OF ok k r]
  have "blend_books si contents (upd_sub k s' b) w Q R"
    by (rule books_cong [OF bk]) (use a in \<open>auto simp: applyAvailableThreads_def\<close>)
  then show ?thesis using a(2) by (rule books_frame)
qed

lemma first_ready_step:
  assumes "first_ready si vt ks avail b w = Inr (r, b', w')" "blend_ok iv b w" "blend_books si contents b w Q R"
    "set ks \<subseteq> set (bsOrder b)"
  shows "blend_ok iv b' w' \<and> task_frame w w' \<and> blend_books si contents b' w' Q R \<and> subs_only b b' \<and>
    (\<forall>k. r = Some k \<longrightarrow> k \<in> set ks \<and> (\<exists>t s'' w''. siGetCmd si vt (bsSubs b' k) w' = Inr (Some t, s'', w'')))"
  using assms
proof (induction ks arbitrary: avail b w)
  case (Cons k ks)
  let ?s = "shared si avail (bsSubs b k)"
  have k: "k \<in> set (bsOrder b)" using Cons.prems(4) by simp
  obtain rdy s1 w1 where r: "siReady si vt ?s w = Inr (rdy, s1, w1)"
    using Cons.prems(1) by (auto simp: shared_def Let_def split: sum.splits)
  note a = ask_ok(1,2) [OF Cons.prems(2) k r] ask_books [OF Cons.prems(2,3) k r]
  show ?case
  proof (cases rdy)
    case True
    then have "r = Some k" "b' = upd_sub k s1 b" "w' = w1" using Cons.prems(1) r by (auto simp: shared_def Let_def)
    moreover have "iv ?s w" using Cons.prems(2) k shared_facts(1) by (simp add: blend_ok_def)
    ultimately show ?thesis using a ready_get r True by fastforce
  next
    case False
    then have rec: "first_ready si vt ks (fst (applyAvailableThreads avail (siBase si (bsSubs b k)))) (upd_sub k s1 b) w1 = Inr (r, b', w')"
      using Cons.prems(1) r by (simp add: shared_def Let_def)
    have "set ks \<subseteq> set (bsOrder (upd_sub k s1 b))" using Cons.prems(4) by simp
    from Cons.IH [OF rec a(1,3) this] show ?thesis
      using a(2) task_frame_trans subs_only_trans subs_only_upd(2) by fastforce
  qed
qed simp

lemma blend_ready_step:
  assumes r: "BlendScheduler_ready si vt b w = Inr (rdy, b', w')" and ok: "blend_ok iv b w"
    and bk: "blend_books si contents b w Q R"
  shows "blend_ok iv b' w'" "task_frame w w'" "blend_books si contents b' w' Q R" "bsOrder b' = bsOrder b"
    "bsCtrlCmdQueue b' = bsCtrlCmdQueue b"
    "bsReadySched b = None \<Longrightarrow> bsReadySched b' = Some k \<Longrightarrow> \<exists>t s'' w''. siGetCmd si vt (bsSubs b' k) w' = Inr (Some t, s'', w'')"
proof -
  have "blend_ok iv b' w' \<and> task_frame w w' \<and> blend_books si contents b' w' Q R \<and> bsOrder b' = bsOrder b \<and>
    bsCtrlCmdQueue b' = bsCtrlCmdQueue b \<and>
    (bsReadySched b = None \<longrightarrow> bsReadySched b' = Some k \<longrightarrow> (\<exists>t s'' w''. siGetCmd si vt (bsSubs b' k) w' = Inr (Some t, s'', w'')))"
  proof (cases "bsReadySched b")
    case None
    obtain x b1 where f: "first_ready si vt (bsOrder b) (calcAvailableTheads si b) b w = Inr (x, b1, w')"
      and b': "b' = (case x of Some j \<Rightarrow> b1\<lparr>bsReadySched := Some j\<rparr> | None \<Rightarrow> b1)"
      using r None by (auto simp: BlendScheduler_ready_def split: sum.splits option.splits)
    note st = first_ready_step [OF f ok bk subset_refl]
    then have sf: "bsReadySched b1 = None" "bsOrder b1 = bsOrder b" "bsCtrlCmdQueue b1 = bsCtrlCmdQueue b"
      using None subs_only_fields [of b b1] by auto
    show ?thesis
      using st sf b' by (cases x) (auto simp: blend_ok_def blend_books_def)
  qed (use r ok bk in \<open>auto simp: BlendScheduler_ready_def\<close>)
  then show "blend_ok iv b' w'" "task_frame w w'" "blend_books si contents b' w' Q R" "bsOrder b' = bsOrder b"
    "bsCtrlCmdQueue b' = bsCtrlCmdQueue b"
    "bsReadySched b = None \<Longrightarrow> bsReadySched b' = Some k \<Longrightarrow> \<exists>t s'' w''. siGetCmd si vt (bsSubs b' k) w' = Inr (Some t, s'', w'')"
    by auto
qed

text \<open>The delivery of a task by sub-scheduler \<open>k\<close>.\<close>

lemma take_step:
  assumes ok: "blend_ok iv b w" and bk: "blend_books si contents b w Q R" and k: "k \<in> set (bsOrder b)"
    and g: "siGetCmd si vt (bsSubs b k) w = Inr (r, s, w')"
  shows "blend_ok iv (upd_sub k s b) w'" "task_frame w w'"
    "case r of None \<Rightarrow> blend_books si contents (upd_sub k s b) w' Q R
      | Some t \<Rightarrow> t \<in># Q \<and> blend_books si contents (upd_sub k s b) w' (Q - {#t#}) (add_mset t R)"
proof -
  have i: "iv (bsSubs b k) w" using ok k by (simp add: blend_ok_def)
  note s' = get_inv [OF i g] get_contents [OF i g] get_base [OF i g]
  then show "blend_ok iv (upd_sub k s b) w'" using blend_upd_ok [OF ok] task_frame_keeps by blast
  show f: "task_frame w w'" using s' by simp
  show "case r of None \<Rightarrow> blend_books si contents (upd_sub k s b) w' Q R
      | Some t \<Rightarrow> t \<in># Q \<and> blend_books si contents (upd_sub k s b) w' (Q - {#t#}) (add_mset t R)"
  proof (cases r)
    case None
    have "blend_books si contents (upd_sub k s b) w Q R"
      by (rule books_cong [OF bk]) (use s' None in auto)
    then show ?thesis using None f books_frame by auto
  next
    case (Some t)
    have c: "on_sched k w Q = add_mset t (contents s)" using bk k s'(2) Some by (simp add: blend_books_def)
    then have t: "t \<in># Q" "tsScheduler (task_st t w) = Some k" using on_sched_sub [of t k w Q] by auto
    have "blend_books si contents (upd_sub k s b) w (Q - {#t#}) (add_mset t R)"
      using bk c t s'(3) Some unfolding blend_books_def by (auto simp: on_sched_diff dest: in_diffD)
    then show ?thesis using Some f books_frame t(1) by auto
  qed
qed

lemma blend_get_step:
  assumes g: "BlendScheduler_getCmd si vt b w = Inr (r, b', w')" and ok: "blend_ok iv b w"
    and bk: "blend_books si contents b w Q R"
  shows "blend_ok iv b' w' \<and> task_frame w w' \<and>
    (case r of Some (TaskCmd t) \<Rightarrow> t \<in># Q \<and> blend_books si contents b' w' (Q - {#t#}) (add_mset t R)
     | _ \<Rightarrow> blend_books si contents b' w' Q R)"
proof -
  obtain rdy b1 w1 where r: "BlendScheduler_ready si vt b w = Inr (rdy, b1, w1)"
    using g by (auto simp: BlendScheduler_getCmd_def split: sum.splits)
  note st = blend_ready_step(1,2,3) [OF r ok bk]
  have ctrl: "blend_ok iv (b2\<lparr>bsCtrlCmdQueue := q\<rparr>) w2 \<longleftrightarrow> blend_ok iv b2 w2"
    "blend_books si contents (b2\<lparr>bsCtrlCmdQueue := q\<rparr>) w2 Q R \<longleftrightarrow> blend_books si contents b2 w2 Q R" for b2 q w2
    by (auto simp: blend_ok_def blend_books_def)
  have sorted: "blend_ok iv (sortScanSchedulers si (b2\<lparr>bsReadySched := None\<rparr>)) w2" if "blend_ok iv b2 w2" for b2 w2
    by (rule sort_ok) (use that in \<open>auto simp: blend_ok_def\<close>)
  have books: "blend_books si contents (sortScanSchedulers si (b2\<lparr>bsReadySched := None\<rparr>)) w2 X Y \<longleftrightarrow>
    blend_books si contents b2 w2 X Y" for b2 w2 X Y by (simp add: blend_books_def)
  show ?thesis
  proof (cases "rdy \<and> bsReadySched b1 \<noteq> None")
    case False
    then have "w' = w1 \<and> (\<exists>q. b' = b1\<lparr>bsCtrlCmdQueue := q\<rparr>) \<and> (\<forall>t. r \<noteq> Some (TaskCmd t))"
      using g r by (auto simp: BlendScheduler_getCmd_def Let_def split: option.splits prod.splits)
    then show ?thesis using st ctrl by (auto split: option.splits command.splits)
  next
    case True
    then obtain k where k: "bsReadySched b1 = Some k" by auto
    obtain x s w2 where x: "siGetCmd si vt (bsSubs b1 k) w1 = Inr (x, s, w2)"
      using g r k True by (auto simp: BlendScheduler_getCmd_def Let_def split: sum.splits)
    have "k \<in> set (bsOrder b1)" using st(1) k by (simp add: blend_ok_def)
    note tk = take_step [OF st(1,3) this x]
    let ?b2 = "sortScanSchedulers si ((upd_sub k s b1)\<lparr>bsReadySched := None\<rparr>)"
    have "w' = w2 \<and> (case x of Some t \<Rightarrow> r = Some (TaskCmd t) \<and> b' = ?b2
        | None \<Rightarrow> (\<exists>q. b' = ?b2\<lparr>bsCtrlCmdQueue := q\<rparr>) \<and> (\<forall>t. r \<noteq> Some (TaskCmd t)))"
      using g r k True x by (auto simp: BlendScheduler_getCmd_def Let_def split: option.splits prod.splits)
    then show ?thesis
      using tk st(2) ctrl sorted [OF tk(1)] books task_frame_trans [OF st(2) tk(2)]
      by (auto split: option.splits command.splits)
  qed
qed

lemma blend_que_step:
  assumes q: "BlendScheduler_queCmd si now (TaskCmd t) b w = Inr (b', w')" and ok: "blend_ok iv b w"
    and bk: "blend_books si contents b w Q R" and new: "tPtr t \<notin> tPtr ` set_mset (Q + R)"
  shows "blend_ok iv b' w'" "blend_books si contents b' w' (add_mset t Q) R"
    "tsScheduler (task_st t w') = Some (choose_sched si t b)"
proof -
  let ?k = "choose_sched si t b"
  let ?w2 = "setTaskScheduler t ?k (setOnInteractive t (infoTables (tScanInfo t) = [] \<or> tScanInteractive t) w)"
  have k: "?k \<in> set (bsOrder b)" using ok by (rule choose_in_order)
  obtain s w3 qc where s: "siQueCmd si (TaskCmd t) (bsSubs b ?k) ?w2 = Inr (s, w3)"
    and qt: "queuedTask now t (bsQueries b) w3 = (qc, w')" and b': "b' = (upd_sub ?k s b)\<lparr>bsQueries := qc\<rparr>"
    using q by (auto simp: BlendScheduler_queCmd_def Let_def split: sum.splits prod.splits)
  have h: "keeps_handles w ?w2"
    by (auto simp: keeps_handles_def hasMemHandle_def setTaskScheduler_def setOnInteractive_def)
  then have i: "iv (bsSubs b ?k) ?w2" using ok k inv_world by (auto simp: blend_ok_def)
  note s' = que_inv [OF i s] que_contents [OF i s] que_base [OF i s]
  have f: "task_frame ?w2 w'" using s'(1) query_frame(1) [OF qt] task_frame_trans by blast
  have w2: "tsScheduler (task_st t ?w2) = Some ?k"
    "\<And>p. p \<noteq> tPtr t \<Longrightarrow> tsScheduler (wTasks ?w2 p) = tsScheduler (wTasks w p)"
    by (auto simp: setTaskScheduler_def setOnInteractive_def)
  then show "tsScheduler (task_st t w') = Some ?k" using f task_frame_sched by metis
  have "blend_ok iv (upd_sub ?k s b) w'"
    by (rule blend_upd_ok [OF ok])
      (use h f s'(1) query_frame(1) [OF qt] inv_world in \<open>auto dest: task_frame_keeps intro: keeps_handles_trans\<close>)
  then show "blend_ok iv b' w'" using b' by (simp add: blend_ok_def)
  have "tPtr t \<notin> tPtr ` set_mset Q" "tPtr t \<notin> tPtr ` set_mset R" using new by auto
  then have old: "on_sched j ?w2 Q = on_sched j w Q" "on_sched j ?w2 R = on_sched j w R" for j
    using w2(2) by (auto intro: on_sched_other)
  have other: "tsScheduler (task_st u ?w2) = tsScheduler (task_st u w)" if "u \<in># Q + R" for u
    using w2(2) [of "tPtr u"] new that by (metis image_eqI)
  have "blend_books si contents b' ?w2 (add_mset t Q) R"
    using bk w2(1) k s'(2,3) old other unfolding blend_books_def b' by auto
  then show "blend_books si contents b' w' (add_mset t Q) R" using f by (rule books_frame)
qed

lemma blend_start_step:
  assumes c: "BlendScheduler_commandStart si now (TaskCmd t) b w = (b', w')" and ok: "blend_ok iv b w"
    and bk: "blend_books si contents b w Q R"
  shows "blend_ok iv b' w'" "blend_books si contents b' w' Q R"
proof -
  define b1 where "b1 = (case tsScheduler (task_st t w) of
      Some k \<Rightarrow> upd_sub k (siCommandStart si (TaskCmd t) (bsSubs b k)) b | None \<Rightarrow> b)"
  obtain q where st: "startedTask now t (bsQueries b1) w = (q, w')" and b': "b' = b1\<lparr>bsQueries := q\<rparr>"
    using c by (auto simp: BlendScheduler_commandStart_def b1_def Let_def split: prod.splits)
  have "blend_ok iv b1 w"
    using ok by (auto simp: b1_def start_inv blend_ok_def split: option.splits)
  then show "blend_ok iv b' w'"
    using blend_world_ok [of b1 w w'] task_frame_keeps [OF query_frame(2) [OF st]] b'
    by (simp add: blend_ok_def)
  have "blend_books si contents b1 w Q R"
    by (rule books_cong [OF bk]) (auto simp: b1_def start_contents start_base split: option.splits)
  then show "blend_books si contents b' w' Q R"
    using books_frame [of si contents b1 w Q R w'] query_frame(2) [OF st] b' by (simp add: blend_books_def)
qed

lemma blend_finish_step:
  assumes c: "BlendScheduler_commandFinish si vt now (TaskCmd t) b w = (b', w')" and ok: "blend_ok iv b w"
    and bk: "blend_books si contents b w Q R" and t: "t \<in># R"
  shows "blend_ok iv b' w'" "blend_books si contents b' w' Q (R - {#t#})"
proof -
  obtain k where k: "k \<in> set (bsOrder b)" "tsScheduler (task_st t w) = Some k"
    using bk t by (auto simp: blend_books_def)
  obtain s w1 q where s: "siCommandFinish si vt (TaskCmd t) (bsSubs b k) w = (s, w1)"
    and ft: "finishedTask now t (bsQueries b) w1 = (q, w')" and b': "b' = (upd_sub k s b)\<lparr>bsQueries := q\<rparr>"
    using c k(2) by (auto simp: BlendScheduler_commandFinish_def Let_def split: prod.splits)
  have i: "iv (bsSubs b k) w" using ok k by (simp add: blend_ok_def)
  note s' = finish_inv [OF i s] finish_contents [OF i s] finish_base [OF i s]
  have f: "task_frame w w'" using s'(1) query_frame(3) [OF ft] task_frame_trans by blast
  have "blend_ok iv (upd_sub k s b) w'"
    by (rule blend_upd_ok [OF ok])
      (use f s'(1) query_frame(3) [OF ft] inv_world in \<open>auto dest: task_frame_keeps\<close>)
  then show "blend_ok iv b' w'" using b' by (simp add: blend_ok_def)
  have sz: "int (size (on_sched j w (R - {#t#}))) = int (size (on_sched j w R)) - (if j = k then 1 else 0)" for j
  proof -
    have "on_sched j w R = on_sched j w (add_mset t (R - {#t#}))" using t by simp
    also have "\<dots> = (if j = k then add_mset t (on_sched j w (R - {#t#})) else on_sched j w (R - {#t#}))"
      by (simp add: k(2))
    finally show ?thesis by simp
  qed
  have "blend_books si contents b' w Q (R - {#t#})"
    using bk k s'(2,3) sz unfolding blend_books_def b' by (auto dest: in_diffD)
  then show "blend_books si contents b' w' Q (R - {#t#})" using f by (rule books_frame)
qed

end

section \<open>Runs of the blend scheduler\<close>

text \<open>
  The calls that the worker makes: tasks and control commands are queued, the pool asks for commands, reports
  that tasks start and finish, and in between the tasks and the memory manager change their own state (\<open>world\<close>).
\<close>

inductive blend_reach :: "('s, 'm) schedIface \<Rightarrow> 'm memMan \<Rightarrow> 's blendScheduler \<Rightarrow> 'm world \<Rightarrow>
    's blendScheduler \<Rightarrow> 'm world \<Rightarrow> task multiset \<Rightarrow> task multiset \<Rightarrow> bool" for si vt b0 w0 where
  start: "blend_reach si vt b0 w0 b0 w0 {#} {#}"
| queue: "blend_reach si vt b0 w0 b w Q R \<Longrightarrow> tPtr t \<notin> tPtr ` set_mset (Q + R) \<Longrightarrow>
    BlendScheduler_queCmd si now (TaskCmd t) b w = Inr (b', w') \<Longrightarrow> blend_reach si vt b0 w0 b' w' (add_mset t Q) R"
| control: "blend_reach si vt b0 w0 b w Q R \<Longrightarrow> BlendScheduler_queCmd si now (ControlCmd c) b w = Inr (b', w') \<Longrightarrow>
    blend_reach si vt b0 w0 b' w' Q R"
| ready: "blend_reach si vt b0 w0 b w Q R \<Longrightarrow> BlendScheduler_ready si vt b w = Inr (r, b', w') \<Longrightarrow>
    blend_reach si vt b0 w0 b' w' Q R"
| deliver: "blend_reach si vt b0 w0 b w Q R \<Longrightarrow> BlendScheduler_getCmd si vt b w = Inr (Some (TaskCmd t), b', w') \<Longrightarrow>
    blend_reach si vt b0 w0 b' w' (Q - {#t#}) (add_mset t R)"
| no_task: "blend_reach si vt b0 w0 b w Q R \<Longrightarrow> BlendScheduler_getCmd si vt b w = Inr (r, b', w') \<Longrightarrow>
    \<forall>t. r \<noteq> Some (TaskCmd t) \<Longrightarrow> blend_reach si vt b0 w0 b' w' Q R"
| started: "blend_reach si vt b0 w0 b w Q R \<Longrightarrow> t \<in># R \<Longrightarrow>
    BlendScheduler_commandStart si now (TaskCmd t) b w = (b', w') \<Longrightarrow> blend_reach si vt b0 w0 b' w' Q R"
| finished: "blend_reach si vt b0 w0 b w Q R \<Longrightarrow> t \<in># R \<Longrightarrow>
    BlendScheduler_commandFinish si vt now (TaskCmd t) b w = (b', w') \<Longrightarrow> blend_reach si vt b0 w0 b' w' Q (R - {#t#})"
| prioritize: "blend_reach si vt b0 w0 b w Q R \<Longrightarrow> blend_reach si vt b0 w0 (setPrioritizeByInFlight v b) w Q R"
| world: "blend_reach si vt b0 w0 b w Q R \<Longrightarrow> task_frame w w' \<Longrightarrow> blend_reach si vt b0 w0 b w' Q R"

context scheduler_contract
begin

lemma blend_reach_ok:
  assumes "blend_reach si vt b0 w0 b w Q R" "blend_ok iv b0 w0" "blend_books si contents b0 w0 {#} {#}"
  shows "blend_ok iv b w \<and> blend_books si contents b w Q R"
  using assms
proof (induction rule: blend_reach.induct)
  case start
  then show ?case by simp
next
  case (queue b w Q R t now b' w')
  then show ?case using blend_que_step by blast
next
  case (control b w Q R now c b' w')
  then have "b' = b\<lparr>bsCtrlCmdQueue := ControlCommandQueue_queCmd c (bsCtrlCmdQueue b)\<rparr>" "w' = w"
    by (simp_all add: BlendScheduler_queCmd_def)
  then show ?case using control by (simp add: blend_ok_def blend_books_def)
next
  case (ready b w Q R r b' w')
  then show ?case using blend_ready_step(1,3) by blast
next
  case (deliver b w Q R t b' w')
  then show ?case using blend_get_step [OF deliver(2), of Q R] by auto
next
  case (no_task b w Q R r b' w')
  then show ?case using blend_get_step [OF no_task(2), of Q R] by (auto split: option.splits command.splits)
next
  case (started b w Q R t now b' w')
  then show ?case using blend_start_step by blast
next
  case (finished b w Q R t now b' w')
  then show ?case using blend_finish_step by blast
next
  case (prioritize b w Q R v)
  then show ?case by (simp add: setPrioritizeByInFlight_def blend_ok_def blend_books_def)
next
  case (world b w Q R w')
  then show ?case using blend_world_ok books_frame task_frame_keeps by blast
qed

text \<open>The blend scheduler just made.\<close>

lemma blend_new_ok:
  assumes subs: "\<And>s. s \<in> set (grp # scans @ [snail]) \<Longrightarrow> iv s w \<and> contents s = {#} \<and> sbInFlight (siBase si s) = 0"
  shows "blend_ok iv (BlendScheduler_new si queries n grp snail scans) w"
    "blend_books si contents (BlendScheduler_new si queries n grp snail scans) w {#} {#}"
proof -
  define place where "place = (\<lambda>k. siSetBase si (\<lambda>b. b\<lparr>sbDefaultPosition := int k\<rparr>)
    (if k = 0 then grp else if k \<le> length scans then scans ! (k - 1) else snail))"
  define b where "b = \<lparr>bsCtrlCmdQueue = [], bsSchedMaxThreads = n, bsGroup = 0, bsScanSnail = Suc (length scans),
    bsSubs = place, bsOrder = [0..<length scans + 2], bsQueries = queries, bsPrioritizeByInFlight = False, bsReadySched = None\<rparr>"
  have new: "BlendScheduler_new si queries n grp snail scans = sortScanSchedulers si b"
    by (simp add: BlendScheduler_new_def b_def place_def Let_def)
  have "base_change (\<lambda>b. b\<lparr>sbDefaultPosition := i\<rparr>)" for i by (simp add: base_change_def)
  then have p: "iv (place k) w \<and> contents (place k) = {#} \<and> sbInFlight (siBase si (place k)) = 0"
    if "k \<in> set (bsOrder b)" for k
    using subs that by (auto simp: place_def b_def base_contents base_base intro!: base_inv)
  have o: "bsOrder b = bsGroup b # [1..<length scans + 1] @ [bsScanSnail b]"
    using upt_conv_Cons [of 0 "length scans + 2"] by (simp add: b_def del: upt_conv_Cons)
  have d: "distinct (bsOrder b)" "bsReadySched b = None" by (simp_all add: b_def)
  have sub: "bsSubs b = place" by (simp add: b_def)
  have "blend_ok iv b w"
    unfolding blend_ok_def by (intro conjI exI, rule o) (use d p sub in auto)
  then show "blend_ok iv (BlendScheduler_new si queries n grp snail scans) w" using new sort_ok by metis
  show "blend_books si contents (BlendScheduler_new si queries n grp snail scans) w {#} {#}"
    using p sub by (simp add: new blend_books_def)
qed

end

section \<open>Shares of the threads\<close>

text \<open>
  \<open>share_before si b pre\<close>: the threads that \<open>_ready\<close> has left when the schedulers \<open>pre\<close> have been asked: those
  not reserved, less what the schedulers of \<open>pre\<close> use above their reserve.
\<close>

definition sub_base :: "('s, 'm) schedIface \<Rightarrow> 's blendScheduler \<Rightarrow> nat \<Rightarrow> schedBase" where
  "sub_base si b k = siBase si (bsSubs b k)"

definition over_reserve :: "('s, 'm) schedIface \<Rightarrow> 's blendScheduler \<Rightarrow> nat \<Rightarrow> int" where
  "over_reserve si b k = max 0 (sbInFlight (sub_base si b k) - sbMaxReserve (sub_base si b k))"

definition share_before :: "('s, 'm) schedIface \<Rightarrow> 's blendScheduler \<Rightarrow> nat list \<Rightarrow> int" where
  "share_before si b pre = calcAvailableTheads si b - sum_list (map (over_reserve si b) pre)"

lemma share_fits:
  assumes "bsOrder b = pre @ k # post"
    and "sbInFlight (sub_base si b k) < share_before si b pre + desiredThreadReserve (sub_base si b k)"
  shows "sum_list (map (\<lambda>j. sbInFlight (sub_base si b j)) pre) + (sbInFlight (sub_base si b k) + 1)
    + sum_list (map (\<lambda>j. desiredThreadReserve (sub_base si b j)) post) \<le> bsSchedMaxThreads b"
proof -
  let ?want = "\<lambda>j. desiredThreadReserve (sub_base si b j)"
  have "sbInFlight (sub_base si b j) \<le> ?want j + over_reserve si b j" for j
    by (simp add: desiredThreadReserve_def over_reserve_def)
  then have "sum_list (map (\<lambda>j. sbInFlight (sub_base si b j)) pre)
      \<le> sum_list (map ?want pre) + sum_list (map (over_reserve si b) pre)"
    unfolding sum_list_addf [symmetric] by (rule sum_list_mono)
  moreover have "calcAvailableTheads si b
      = bsSchedMaxThreads b - (sum_list (map ?want pre) + ?want k + sum_list (map ?want post))"
    unfolding calcAvailableTheads_def assms(1) sub_base_def by simp
  ultimately show ?thesis using assms(2) unfolding share_before_def by linarith
qed

context scheduler_contract
begin

text \<open>One step of the search: the scheduler is ready within its share, or the next one is asked.\<close>

lemma first_ready_cases:
  assumes f: "first_ready si vt (k # ks) avail b w = Inr (r, b', w')" and ok: "blend_ok iv b w"
    and k: "k \<in> set (bsOrder b)" "k \<notin> set ks"
  obtains (found) "r = Some k"
      "sbInFlight (sub_base si b k) < min (sbMaxThreads (sub_base si b k)) (avail + desiredThreadReserve (sub_base si b k))"
  | (next_one) s1 w1 where "siReady si vt (shared si avail (bsSubs b k)) w = Inr (False, s1, w1)" "task_frame w w1"
      "blend_ok iv (upd_sub k s1 b) w1" "first_ready si vt ks (avail - over_reserve si b k) (upd_sub k s1 b) w1 = Inr (r, b', w')"
      "\<And>j. j \<in> set ks \<Longrightarrow> sub_base si (upd_sub k s1 b) j = sub_base si b j \<and> bsSubs (upd_sub k s1 b) j = bsSubs b j
         \<and> over_reserve si (upd_sub k s1 b) j = over_reserve si b j"
proof -
  obtain rdy s1 w1 where q: "siReady si vt (shared si avail (bsSubs b k)) w = Inr (rdy, s1, w1)"
    using f by (auto simp: shared_def Let_def split: sum.splits)
  note a = ask_ok [OF ok k(1) q]
  show ?thesis
  proof (cases rdy)
    case True
    have "sbInFlight (sub_base si b k) < maxInFlight (siBase si (shared si avail (bsSubs b k)))"
      using ready_limit [OF a(5)] q True shared_facts(4) by (fastforce simp: sub_base_def)
    then have "sbInFlight (sub_base si b k) < min (sbMaxThreads (sub_base si b k)) (avail + desiredThreadReserve (sub_base si b k))"
      by (simp add: shared_facts(3) maxInFlight_def applyAvailableThreads_def sub_base_def)
    moreover have "r = Some k" using f q True by (auto simp: shared_def Let_def)
    ultimately show ?thesis using found by blast
  next
    case False
    show ?thesis
    proof (rule next_one [OF _ a(2,1)])
      show "siReady si vt (shared si avail (bsSubs b k)) w = Inr (False, s1, w1)" using q False by simp
      show "first_ready si vt ks (avail - over_reserve si b k) (upd_sub k s1 b) w1 = Inr (r, b', w')"
        using f q False by (simp add: shared_def Let_def applyAvailableThreads_def over_reserve_def sub_base_def)
    qed (use k(2) in \<open>auto simp: sub_base_def over_reserve_def\<close>)
  qed
qed

lemma first_ready_found:
  assumes "first_ready si vt ks avail b w = Inr (Some k, b', w')" "blend_ok iv b w" "set ks \<subseteq> set (bsOrder b)" "distinct ks"
  shows "\<exists>pre post. ks = pre @ k # post \<and> sbInFlight (sub_base si b k) < min (sbMaxThreads (sub_base si b k))
    (avail - sum_list (map (over_reserve si b) pre) + desiredThreadReserve (sub_base si b k))"
  using assms
proof (induction ks arbitrary: avail b w)
  case (Cons i ks)
  have i: "i \<in> set (bsOrder b)" "i \<notin> set ks" using Cons.prems by auto
  from Cons.prems(1,2) i show ?case
  proof (cases rule: first_ready_cases)
    case found
    then have "i # ks = [] @ k # ks \<and> sbInFlight (sub_base si b k) < min (sbMaxThreads (sub_base si b k))
        (avail - sum_list (map (over_reserve si b) []) + desiredThreadReserve (sub_base si b k))" by simp
    then show ?thesis by blast
  next
    case (next_one s1 w1)
    obtain pre post where p: "ks = pre @ k # post"
      "sbInFlight (sub_base si (upd_sub i s1 b) k) < min (sbMaxThreads (sub_base si (upd_sub i s1 b) k))
        (avail - over_reserve si b i - sum_list (map (over_reserve si (upd_sub i s1 b)) pre)
         + desiredThreadReserve (sub_base si (upd_sub i s1 b) k))"
      using Cons.IH [OF next_one(4,3)] Cons.prems(3,4) by auto
    moreover have "map (over_reserve si (upd_sub i s1 b)) pre = map (over_reserve si b) pre"
      using next_one(5) p(1) by simp
    ultimately have "i # ks = (i # pre) @ k # post \<and> sbInFlight (sub_base si b k) < min (sbMaxThreads (sub_base si b k))
        (avail - sum_list (map (over_reserve si b) (i # pre)) + desiredThreadReserve (sub_base si b k))"
      using next_one(5) [of k] by simp
    then show ?thesis by blast
  qed
qed simp

lemma first_ready_none:
  assumes "first_ready si vt ks avail b w = Inr (None, b', w')" "blend_ok iv b w" "set ks \<subseteq> set (bsOrder b)" "distinct ks"
    and "ks = pre @ k # post"
  shows "\<exists>w1 w2 s'. task_frame w w1 \<and>
    siReady si vt (shared si (avail - sum_list (map (over_reserve si b) pre)) (bsSubs b k)) w1 = Inr (False, s', w2)"
  using assms
proof (induction ks arbitrary: avail b w pre)
  case (Cons i ks)
  have i: "i \<in> set (bsOrder b)" "i \<notin> set ks" using Cons.prems(3,4) by auto
  from Cons.prems(1,2) i show ?case
  proof (cases rule: first_ready_cases)
    case (next_one s1 w1)
    show ?thesis
    proof (cases pre)
      case Nil
      then have "siReady si vt (shared si (avail - sum_list (map (over_reserve si b) pre)) (bsSubs b k)) w = Inr (False, s1, w1)"
        using next_one(1) Cons.prems(5) by simp
      then show ?thesis using task_frame_refl by blast
    next
      case (Cons j pre')
      then have p: "ks = pre' @ k # post" "j = i" using Cons.prems(5) by auto
      obtain w2 w3 s' where "task_frame w1 w2" "siReady si vt (shared si (avail - over_reserve si b i
          - sum_list (map (over_reserve si (upd_sub i s1 b)) pre')) (bsSubs (upd_sub i s1 b) k)) w2 = Inr (False, s', w3)"
        using Cons.IH [OF next_one(4,3) _ _ p(1)] Cons.prems(3,4) by auto
      moreover have "map (over_reserve si (upd_sub i s1 b)) pre' = map (over_reserve si b) pre'"
        using next_one(5) p(1) by simp
      ultimately show ?thesis
        using next_one(5) [of k] p Cons task_frame_trans [OF next_one(2)] by (auto simp: diff_diff_eq)
    qed
  qed simp
qed simp

text \<open>A delivery by \<open>getCmd\<close> when no scheduler was found ready before: from the first scheduler that is ready.\<close>

lemma get_cases:
  assumes g: "BlendScheduler_getCmd si vt b w = Inr (r, b', w')" and ok: "blend_ok iv b w"
    and bk: "blend_books si contents b w Q R" and none: "bsReadySched b = None"
  obtains (task) k t b1 w1 s where "first_ready si vt (bsOrder b) (calcAvailableTheads si b) b w = Inr (Some k, b1, w1)"
      "r = Some (TaskCmd t)" "siGetCmd si vt (bsSubs b1 k) w1 = Inr (Some t, s, w')"
      "b' = sortScanSchedulers si ((upd_sub k s b1)\<lparr>bsReadySched := None\<rparr>)"
  | (idle) b1 where "first_ready si vt (bsOrder b) (calcAvailableTheads si b) b w = Inr (None, b1, w')"
      "r = map_option ControlCmd (fst (ControlCommandQueue_getCmd (bsCtrlCmdQueue b)))"
      "b' = b1\<lparr>bsCtrlCmdQueue := tl (bsCtrlCmdQueue b)\<rparr>"
proof -
  obtain x b1 w1 where f: "first_ready si vt (bsOrder b) (calcAvailableTheads si b) b w = Inr (x, b1, w1)"
    using g none by (auto simp: BlendScheduler_getCmd_def BlendScheduler_ready_def split: sum.splits option.splits)
  note st = first_ready_step [OF f ok bk subset_refl]
  have sf: "bsReadySched b1 = None" "bsCtrlCmdQueue b1 = bsCtrlCmdQueue b"
    using st none subs_only_fields [of b b1] by auto
  show ?thesis
  proof (cases x)
    case (Some k)
    then obtain t s w2 where t: "siGetCmd si vt (bsSubs b1 k) w1 = Inr (Some t, s, w2)" using st by blast
    have "b1\<lparr>bsReadySched := Some k, bsSubs := (bsSubs b1)(k := s), bsReadySched := None\<rparr>
        = (upd_sub k s b1)\<lparr>bsReadySched := None\<rparr>" by (simp add: upd_sub_def)
    then have "r = Some (TaskCmd t)" "w' = w2" "b' = sortScanSchedulers si ((upd_sub k s b1)\<lparr>bsReadySched := None\<rparr>)"
      using g f none Some t by (auto simp: BlendScheduler_getCmd_def BlendScheduler_ready_def upd_sub_def)
    then show ?thesis using task f t Some by blast
  next
    case None
    show ?thesis
      by (rule idle) (use g f none None sf in
        \<open>auto simp: BlendScheduler_getCmd_def BlendScheduler_ready_def ControlCommandQueue_getCmd_def split: list.splits\<close>)
  qed
qed

lemma get_within_share:
  assumes g: "BlendScheduler_getCmd si vt b w = Inr (Some (TaskCmd t), b', w')" and ok: "blend_ok iv b w"
    and bk: "blend_books si contents b w Q R" and none: "bsReadySched b = None"
  shows "\<exists>pre k post. bsOrder b = pre @ k # post \<and> tsScheduler (task_st t w') = Some k
    \<and> sbInFlight (sub_base si b k) < sbMaxThreads (sub_base si b k)
    \<and> sum_list (map (\<lambda>j. sbInFlight (sub_base si b j)) pre) + (sbInFlight (sub_base si b k) + 1)
        + sum_list (map (\<lambda>j. desiredThreadReserve (sub_base si b j)) post) \<le> bsSchedMaxThreads b"
  using g ok bk none
proof (cases rule: get_cases)
  case (task k u b1 w1 s)
  have d: "distinct (bsOrder b)" using ok by (simp add: blend_ok_def)
  note st = first_ready_step [OF task(1) ok bk subset_refl]
  then have k: "k \<in> set (bsOrder b1)" using subs_only_fields(1) by fastforce
  have "contents (bsSubs b1 k) = add_mset t (contents s)"
    using get_contents [OF _ task(3)] st k task(2) by (auto simp: blend_ok_def)
  then have "t \<in># on_sched k w1 Q" using st k unfolding blend_books_def by (metis union_single_eq_member)
  moreover have "task_frame w1 w'" using get_inv [OF _ task(3)] st k by (auto simp: blend_ok_def)
  ultimately have "tsScheduler (task_st t w') = Some k" using task_frame_sched [of w1 w' t] by (simp add: on_sched_sub)
  moreover obtain pre post where p: "bsOrder b = pre @ k # post" "sbInFlight (sub_base si b k) < min (sbMaxThreads (sub_base si b k))
      (share_before si b pre + desiredThreadReserve (sub_base si b k))"
    using first_ready_found [OF task(1) ok subset_refl d] by (auto simp: share_before_def)
  ultimately show ?thesis using share_fits [OF p(1), of si] by auto
qed (auto dest: sym simp: map_option_case split: option.splits)

lemma get_nothing:
  assumes g: "BlendScheduler_getCmd si vt b w = Inr (r, b', w')" and ok: "blend_ok iv b w"
    and bk: "blend_books si contents b w Q R" and none: "bsReadySched b = None" and nt: "\<forall>t. r \<noteq> Some (TaskCmd t)"
  shows "bsCtrlCmdQueue b = (case r of Some (ControlCmd c) \<Rightarrow> c # bsCtrlCmdQueue b' | _ \<Rightarrow> [])
    \<and> (\<forall>pre k post. bsOrder b = pre @ k # post \<longrightarrow>
        (\<exists>w1 w2 s'. task_frame w w1 \<and> siReady si vt (shared si (share_before si b pre) (bsSubs b k)) w1 = Inr (False, s', w2)))"
  using g ok bk none
proof (cases rule: get_cases)
  case (task k u b1 w1 s)
  then show ?thesis using nt by simp
next
  case (idle b1)
  have d: "distinct (bsOrder b)" using ok by (simp add: blend_ok_def)
  have "bsCtrlCmdQueue b = (case r of Some (ControlCmd c) \<Rightarrow> c # bsCtrlCmdQueue b' | _ \<Rightarrow> [])"
    using idle(2,3) by (auto simp: ControlCommandQueue_getCmd_def split: list.splits)
  then show ?thesis
    using first_ready_none [OF idle(1) ok subset_refl d] by (auto simp: share_before_def)
qed

lemma get_sorted:
  assumes g: "BlendScheduler_getCmd si vt b w = Inr (Some (TaskCmd t), b', w')" and ok: "blend_ok iv b w"
    and bk: "blend_books si contents b w Q R"
  shows "mset (bsOrder b') = mset (bsOrder b)
    \<and> (\<exists>ss. bsOrder b' = bsGroup b' # ss @ [bsScanSnail b'] \<and> sorted_wrt (\<lambda>x y. \<not> lessThan si b' y x) ss)"
proof -
  obtain rdy b1 w1 where r: "BlendScheduler_ready si vt b w = Inr (rdy, b1, w1)"
    using g by (auto simp: BlendScheduler_getCmd_def split: sum.splits)
  obtain k s where b': "b' = sortScanSchedulers si ((upd_sub k s b1)\<lparr>bsReadySched := None\<rparr>)"
    using g r by (auto simp: BlendScheduler_getCmd_def Let_def split: option.splits sum.splits if_splits prod.splits)
  let ?b = "(upd_sub k s b1)\<lparr>bsReadySched := None\<rparr>"
  obtain ss where o: "bsOrder ?b = bsGroup ?b # ss @ [bsScanSnail ?b]" and d: "distinct (bsOrder ?b)"
    using blend_ready_step(1) [OF r ok bk] by (auto simp: blend_ok_def)
  have "lessThan si b' = lessThan si ?b" by (simp add: b' fun_eq_iff lessThan_def sortScanSchedulers_def)
  moreover have "mset (bsOrder b') = mset (bsOrder b)"
    using blend_ready_step(4) [OF r ok bk] by (simp add: b' sortScanSchedulers_def mset_sort_by)
  ultimately show ?thesis using sort_order [OF o d, of si] b' by auto
qed

end

end
