(* ===== verification/Blend_Properties.thy ===== *)
theory Blend_Properties
  imports Blend_Contract Scan_Handles
begin

text \<open>
  The group scheduler and the scan schedulers keep the contract of the blend scheduler (interpretation \<open>sub\<close>),
  and what this gives for the blend scheduler of a worker: no task is lost or run twice, the books are
  exact, threads stay reserved, interactive tasks come first, and control commands wait for idle schedulers.
\<close>

section \<open>The sub-schedulers keep the contract\<close>

text \<open>The constructor of a scan scheduler makes a \<open>ChunkTasksQueue\<close>; nothing replaces it later.\<close>

definition sub_inv :: "subSched \<Rightarrow> 'm world \<Rightarrow> bool" where
  "sub_inv s w = (case s of SubGroup g \<Rightarrow> gs_ok g | SubScan x \<Rightarrow> tq_inv (ssTaskQueue x) w \<and> \<not> isChunkDisk (ssTaskQueue x))"

definition sub_contents :: "subSched \<Rightarrow> task multiset" where
  "sub_contents = sub_read (\<lambda>g. mset (gs_tasks g)) (\<lambda>x. tq_contents (ssTaskQueue x))"

lemma acquires_frame_sched: "acquires vt S n w w' \<Longrightarrow> tsScheduler (wTasks w' p) = tsScheduler (wTasks w p)"
  by (induction rule: acquires.induct) (auto simp: setMemHandle_def)

lemma acquires_task_frame: "acquires vt S n w w' \<Longrightarrow> task_frame w w'"
  using acquires_has_handle acquires_frame_sched by (fastforce simp: task_frame_def keeps_handles_def)

lemma same_tasks_frame: "wTasks w' = wTasks w \<Longrightarrow> task_frame w w'"
  by (simp add: task_frame_def keeps_handles_def)

lemma tq_inv_frame: "tq_inv tq w \<Longrightarrow> keeps_handles w w' \<Longrightarrow> tq_inv tq w'"
  by (erule tq.inv_world) (auto simp: keeps_handles_def)

lemma ss_unlock_old_frame:
  assumes "ss_unlock_old vt s w = (s', w')"
  shows "task_frame w w'" "ssBase s' = ssBase s" "ssTaskQueue s' = ssTaskQueue s" "ssHandleToUnlock s' = H_INVALID"
  using assms by (auto simp: ss_unlock_old_def intro!: same_tasks_frame split: if_splits)

text \<open>The kind of the collection stays.\<close>

lemma tq_kind:
  "tcReady tq_tc vt sb fl q w = Inr (b, q', w') \<Longrightarrow> isChunkDisk q' = isChunkDisk q"
  "tcGetTask tq_tc vt sb fl q w = Inr (r, q', w') \<Longrightarrow> isChunkDisk q' = isChunkDisk q"
  "isChunkDisk (tcQueueTask (tq_tc :: (taskQueue, 'm) taskCollection) t q) = isChunkDisk q"
  "isChunkDisk (tcTaskComplete (tq_tc :: (taskQueue, 'm) taskCollection) t q) = isChunkDisk q"
  by (cases q; auto simp: tq_defs isChunkDisk_def)+

text \<open>A queue that was ready stays ready, whoever asks.\<close>

lemma cq_ready_stable:
  assumes "tq_inv q w" "\<not> isChunkDisk q" "tcReady tq_tc vt sb fl q w = Inr (True, q', w')"
  shows "tcReady tq_tc vt sb' fl' q' w2 = Inr (True, q', w2)"
proof (cases q)
  case (TQQueue x)
  then obtain x' where x: "ChunkTasksQueue_ready vt sb fl x w = Inr (True, x', w')" "q' = TQQueue x'"
    using assms(3) by (auto simp: tq_defs)
  have "cq_step vt 2 x w True x' w'" using cq_ready_step [OF x(1)] assms(1) TQQueue by (simp add: tq_inv_def)
  then have "cqReadyChunk x' \<noteq> None" by (simp add: cq_step_def)
  then show ?thesis using x(2) by (auto simp: tq_defs ChunkTasksQueue_ready_def tq_wrap_def)
qed (use assms in \<open>simp add: isChunkDisk_def tq_read_def\<close>)

lemma scan_ready_cases:
  fixes vt :: "'m memMan"
  assumes "ScanScheduler_ready vt s w = Inr (rdy, s', w')"
  obtains (busy) "\<not> rdy" "s' = s" "w' = w"
  | (once) tq w1 where "sbInFlight (ssBase s) < maxInFlight (ssBase s)"
      "tcReady tq_tc vt (Some (ssBase s)) (sbInFlight (ssBase s) < 1) (ssTaskQueue s) w = Inr (rdy, tq, w1)"
      "ss_unlock_old vt (s\<lparr>ssTaskQueue := tq\<rparr>) w1 = (s', w')"
  | (twice) tq w1 s2 w2 tq2 where "sbInFlight (ssBase s) < maxInFlight (ssBase s)"
      "tcReady tq_tc vt (Some (ssBase s)) (sbInFlight (ssBase s) < 1) (ssTaskQueue s) w = Inr (False, tq, w1)"
      "ss_unlock_old vt (s\<lparr>ssTaskQueue := tq\<rparr>) w1 = (s2, w2)"
      "tcReady tq_tc vt (Some (ssBase s2)) (sbInFlight (ssBase s) < 1) (ssTaskQueue s2) w2 = Inr (rdy, tq2, w')"
      "s' = s2\<lparr>ssTaskQueue := tq2\<rparr>"
proof (cases "maxInFlight (ssBase s) \<le> sbInFlight (ssBase s) \<or> (isChunkDisk (ssTaskQueue s)
    \<and> tcNextTaskDifferentChunkId (tq_tc :: (taskQueue, 'm) taskCollection) (ssTaskQueue s)
    \<and> sbMaxActiveChunks (ssBase s) \<le> getActiveChunkCount (ssBase s))")
  case True
  then show ?thesis using busy assms by (auto simp: ScanScheduler_ready_def split: if_splits)
next
  case False
  then have lim: "sbInFlight (ssBase s) < maxInFlight (ssBase s)" by auto
  obtain r1 tq w1 where r: "tcReady tq_tc vt (Some (ssBase s)) (sbInFlight (ssBase s) < 1) (ssTaskQueue s) w = Inr (r1, tq, w1)"
    using assms False by (auto simp: ScanScheduler_ready_def Let_def split: sum.splits)
  obtain s2 w2 where u: "ss_unlock_old vt (s\<lparr>ssTaskQueue := tq\<rparr>) w1 = (s2, w2)" by fastforce
  show ?thesis
  proof (cases "r1 \<or> ssHandleToUnlock s = H_INVALID")
    case True
    then have "rdy = r1 \<and> s' = s2 \<and> w' = w2"
      using assms False r u by (auto simp: ScanScheduler_ready_def ss_unlock_old_def Let_def split: if_splits)
    then show ?thesis using once lim r u by blast
  next
    case no: False
    let ?again = "tcReady tq_tc vt (Some (ssBase s2)) (sbInFlight (ssBase s) < 1) (ssTaskQueue s2) w2"
    have e: "ScanScheduler_ready vt s w = (case ?again of Inl e \<Rightarrow> Inl e | Inr (rdy2, tq2, w3) \<Rightarrow> Inr (rdy2, s2\<lparr>ssTaskQueue := tq2\<rparr>, w3))"
      using False no r u by (auto simp: ScanScheduler_ready_def Let_def)
    obtain tq2 where "?again = Inr (rdy, tq2, w')" "s' = s2\<lparr>ssTaskQueue := tq2\<rparr>"
      using assms unfolding e by (auto split: sum.splits)
    moreover have "r1 = False" using no by simp
    ultimately show ?thesis using twice [OF lim] r u by simp
  qed
qed

lemma scan_ready_facts:
  assumes q: "tq_inv (ssTaskQueue s) w" and r: "ScanScheduler_ready vt s w = Inr (rdy, s', w')"
  shows "task_frame w w'" "isChunkDisk (ssTaskQueue s') = isChunkDisk (ssTaskQueue s)"
    "rdy \<Longrightarrow> \<not> isChunkDisk (ssTaskQueue s) \<Longrightarrow> ssHandleToUnlock s' = H_INVALID
       \<and> (\<forall>sb fl. tcReady tq_tc vt sb fl (ssTaskQueue s') w' = Inr (True, ssTaskQueue s', w'))"
proof -
  have ready: "task_frame w1 w2 \<and> isChunkDisk tq = isChunkDisk tq0 \<and> tq_inv tq w2"
    if "tcReady tq_tc vt sb fl tq0 w1 = Inr (b, tq, w2)" "tq_inv tq0 w1" for sb fl tq0 w1 b tq w2
    using tq.ready_world [OF that(2,1)] tq.ready_inv [OF that(2,1)] tq_kind(1) [OF that(1)] acquires_task_frame by blast
  have "task_frame w w' \<and> isChunkDisk (ssTaskQueue s') = isChunkDisk (ssTaskQueue s) \<and>
    (rdy \<longrightarrow> \<not> isChunkDisk (ssTaskQueue s) \<longrightarrow> ssHandleToUnlock s' = H_INVALID
       \<and> (\<forall>sb fl. tcReady tq_tc vt sb fl (ssTaskQueue s') w' = Inr (True, ssTaskQueue s', w')))"
    using r
  proof (cases rule: scan_ready_cases)
    case (once tq w1)
    note u = ss_unlock_old_frame [OF once(3)] and q1 = ready [OF once(2) q]
    have "task_frame w w'" using u(1) q1 task_frame_trans by blast
    then show ?thesis using u(3,4) q1 once(2) cq_ready_stable [OF q] by auto
  next
    case (twice tq w1 s2 w2 tq2)
    note u = ss_unlock_old_frame [OF twice(3)] and q1 = ready [OF twice(2) q]
    have "tq_inv (ssTaskQueue s2) w2" using u(3) q1 tq_inv_frame [OF _ task_frame_keeps [OF u(1)]] by simp
    note q2 = ready [OF twice(4) this] and st = cq_ready_stable [OF this]
    have "task_frame w w'" using u(1) q1 q2 task_frame_trans by blast
    then show ?thesis using u(3,4) q1 q2 twice(4,5) st by auto
  qed simp
  then show "task_frame w w'" "isChunkDisk (ssTaskQueue s') = isChunkDisk (ssTaskQueue s)"
    "rdy \<Longrightarrow> \<not> isChunkDisk (ssTaskQueue s) \<Longrightarrow> ssHandleToUnlock s' = H_INVALID
       \<and> (\<forall>sb fl. tcReady tq_tc vt sb fl (ssTaskQueue s') w' = Inr (True, ssTaskQueue s', w'))" by auto
qed

lemma scan_get_facts:
  assumes q: "tq_inv (ssTaskQueue s) w" and g: "ScanScheduler_getCmd vt s w = Inr (r, s', w')"
  shows "tq_inv (ssTaskQueue s') w' \<and> isChunkDisk (ssTaskQueue s') = isChunkDisk (ssTaskQueue s) \<and> task_frame w w'
    \<and> tq_contents (ssTaskQueue s) = (case r of None \<Rightarrow> tq_contents (ssTaskQueue s') | Some t \<Rightarrow> add_mset t (tq_contents (ssTaskQueue s')))
    \<and> sbInFlight (ssBase s') = sbInFlight (ssBase s) + (case r of None \<Rightarrow> 0 | Some t \<Rightarrow> 1)"
proof -
  obtain rdy s1 w1 where rd: "ScanScheduler_ready vt s w = Inr (rdy, s1, w1)"
    using g by (auto simp: ScanScheduler_getCmd_def split: sum.splits)
  note fr = scan_ready_frame [OF q rd] scan_ready_facts(1,2) [OF q rd]
  show ?thesis
  proof (cases rdy)
    case False
    then have "r = None \<and> s' = s1 \<and> w' = w1" using g rd by (simp add: ScanScheduler_getCmd_def)
    then show ?thesis using fr by simp
  next
    case True
    obtain x tq where x: "tcGetTask tq_tc vt (Some (ssBase s1)) (sbInFlight (ssBase s1) < 1) (ssTaskQueue s1) w1 = Inr (x, tq, w')"
      and e: "r = x" "ssTaskQueue s' = tq" "sbInFlight (ssBase s') = sbInFlight (ssBase s1) + (case r of None \<Rightarrow> 0 | Some t \<Rightarrow> 1)"
      using g rd True by (auto simp: ScanScheduler_getCmd_def Let_def split: sum.splits option.splits)
    have i: "tq_inv (ssTaskQueue s1) w1" using fr by simp
    note t = tq.get_inv [OF i x] tq.get_contents [OF i x] tq_kind(2) [OF x]
    have "task_frame w1 w'" using tq.get_world [OF i x] acquires_task_frame by blast
    then have "task_frame w w'" using fr(2) task_frame_trans by blast
    then show ?thesis using fr(1,3) t e by (cases x) auto
  qed
qed

lemma scan_finish_facts:
  assumes q: "tq_inv (ssTaskQueue s) w" and f: "ScanScheduler_commandFinish vt (TaskCmd t) s w = (s', w')"
  shows "tq_inv (ssTaskQueue s') w' \<and> isChunkDisk (ssTaskQueue s') = isChunkDisk (ssTaskQueue s) \<and> task_frame w w'
    \<and> tq_contents (ssTaskQueue s') = tq_contents (ssTaskQueue s) \<and> sbInFlight (ssBase s') = sbInFlight (ssBase s) - 1"
proof -
  have e: "ssTaskQueue s' = tcTaskComplete (tq_tc :: (taskQueue, 'a) taskCollection) t (ssTaskQueue s)"
    "sbInFlight (ssBase s') = sbInFlight (ssBase s) - 1" "wTasks w' = wTasks w"
    using f by (auto simp: ScanScheduler_commandFinish_def ss_unlock_old_def Let_def split: if_splits)
  have fr: "task_frame w w'" using same_tasks_frame [OF e(3)] .
  have "tq_inv (ssTaskQueue s') w" using tq.complete_inv [OF q, of t] e(1) by simp
  then have "tq_inv (ssTaskQueue s') w'" using tq_inv_frame task_frame_keeps [OF fr] by blast
  then show ?thesis using e fr tq.complete_contents [OF q, of t] tq_kind(4) [of t "ssTaskQueue s"] by simp
qed

lemmas sub_defs = sub_if_def sub_inv_def sub_contents_def sub_read_def

text \<open>A group scheduler that says it is ready delivers.\<close>

lemma gs_ready_get:
  assumes "gs_ok g" "GroupScheduler_ready g"
  shows "\<exists>t g'. GroupScheduler_getCmd g = (Some t, g')"
proof -
  obtain r g' where g: "GroupScheduler_getCmd g = (r, g')" by fastforce
  from g assms(1) show ?thesis by (cases rule: gs_get_cases) (use assms(2) g in auto)
qed

lemma scan_ready_get:
  assumes "tq_inv (ssTaskQueue s) w" "\<not> isChunkDisk (ssTaskQueue s)" "ScanScheduler_ready vt s w = Inr (True, s', w')"
  shows "\<exists>t s'' w''. ScanScheduler_getCmd vt s' w' = Inr (Some t, s'', w'')"
proof -
  note fr = scan_ready_frame [OF assms(1,3)] scan_ready_facts(2,3) [OF assms(1,3)]
  have st: "ssHandleToUnlock s' = H_INVALID" "tcReady tq_tc vt sb fl (ssTaskQueue s') w' = Inr (True, ssTaskQueue s', w')" for sb fl
    using fr assms(2) by auto
  have again: "ScanScheduler_ready vt s' w' = Inr (True, s', w')"
    using fr assms(2) st by (simp add: ScanScheduler_ready_def Let_def)
  have "tq_inv (ssTaskQueue s') w'" using fr(1) by simp
  from tq.ready_get [OF this st(2)] obtain t q'' where
    "tcGetTask tq_tc vt (Some (ssBase s')) (sbInFlight (ssBase s') < 1) (ssTaskQueue s') w' = Inr (Some t, q'', w')" by blast
  then show ?thesis using again by (simp add: ScanScheduler_getCmd_def Let_def)
qed

interpretation sub: scheduler_contract "sub_if :: (subSched, 'm) schedIface" sub_inv sub_contents
proof (unfold_locales, goal_cases)
  case (1 s w w')
  then show ?case using tq_inv_frame by (cases s) (auto simp: sub_defs)
next
  case (2 s w f)
  then show ?case by (cases s) (auto simp: sub_defs gs_ok_def gs_tasks_def base_change_def)
next
  case (3 f s)
  then show ?case by (cases s) (auto simp: sub_defs gs_tasks_def)
next
  case (4 f s)
  then show ?case by (cases s) (auto simp: sub_defs)
next
  case (5 s w t)
  then show ?case
  proof (cases s)
    case (SubGroup g)
    then have "1 \<le> gsMaxGroupSize g" using 5 by (simp add: sub_defs gs_ok_def)
    then obtain g' where "GroupScheduler_queCmd (TaskCmd t) g = Inr g'" using gs_que_total by blast
    then show ?thesis using SubGroup by (auto simp: sub_defs)
  qed (auto simp: sub_defs split: prod.splits)
next
  case (6 s w t s' w')
  show ?case
  proof (cases s)
    case (SubGroup g)
    then show ?thesis using 6 gs_que_ok by (auto simp: sub_defs split: sum.splits)
  next
    case (SubScan x)
    have "task_frame w (setMemMan t w)" unfolding setMemMan_def by (rule task_frame_upd) auto
    then show ?thesis
      using 6 SubScan tq.queue_inv tq_kind(3) tq_inv_frame task_frame_keeps
      by (fastforce simp: sub_defs ScanScheduler_queCmd_def)
  qed
next
  case (7 s w t s' w')
  then show ?case using gs_que_order(2) tq.queue_contents
    by (cases s) (fastforce simp: sub_defs ScanScheduler_queCmd_def split: sum.splits)+
next
  case (8 s w t s' w')
  then show ?case using gs_que_frame(2)
    by (cases s) (fastforce simp: sub_defs ScanScheduler_queCmd_def split: sum.splits)+
next
  case (9 s w vt b s' w')
  show ?case
  proof (cases s)
    case (SubScan x)
    then obtain x' where x: "ScanScheduler_ready vt x w = Inr (b, x', w')" "s' = SubScan x'"
      using 9 by (auto simp: sub_defs split: sum.splits)
    then show ?thesis using 9 SubScan scan_ready_frame [OF _ x(1)] scan_ready_facts(1,2) [OF _ x(1)] by (auto simp: sub_defs)
  qed (use 9 in \<open>auto simp: sub_defs\<close>)
next
  case (10 s w vt b s' w')
  then show ?case using scan_ready_frame by (cases s) (fastforce simp: sub_defs split: sum.splits)+
next
  case (11 s w vt b s' w')
  then show ?case using scan_ready_frame by (cases s) (fastforce simp: sub_defs split: sum.splits)+
next
  case (12 s w vt s' w')
  then show ?case using scan_ready_frame
    by (cases s) (fastforce simp: sub_defs GroupScheduler_ready_def split: sum.splits)+
next
  case (13 s w vt s' w')
  show ?case
  proof (cases s)
    case (SubGroup g)
    then show ?thesis using 13 gs_ready_get [of g] by (auto simp: sub_defs)
  next
    case (SubScan x)
    then obtain x' where x: "ScanScheduler_ready vt x w = Inr (True, x', w')" "s' = SubScan x'"
      using 13 by (auto simp: sub_defs split: sum.splits)
    then show ?thesis using 13 SubScan scan_ready_get [OF _ _ x(1)] by (fastforce simp: sub_defs)
  qed
next
  case (14 s w vt r s' w')
  then show ?case using gs_get_ok(1) scan_get_facts by (cases s) (fastforce simp: sub_defs split: sum.splits prod.splits)+
next
  case (15 s w vt r s' w')
  then show ?case using gs_get_ok(2) scan_get_facts by (cases s; cases r) (fastforce simp: sub_defs split: sum.splits prod.splits)+
next
  case (16 s w vt r s' w')
  show ?case
  proof (cases s)
    case (SubGroup g)
    then obtain g' where g: "GroupScheduler_getCmd g = (r, g')" "s' = SubGroup g'"
      using 16 by (auto simp: sub_defs split: prod.splits)
    have "gs_ok g" using 16 SubGroup by (simp add: sub_defs)
    with g(1) have "sbInFlight (gsBase g') = sbInFlight (gsBase g) + (case r of None \<Rightarrow> 0 | Some t \<Rightarrow> 1)"
      by (cases rule: gs_get_cases) auto
    then show ?thesis using SubGroup g(2) by (simp add: sub_defs)
  next
    case (SubScan x)
    then show ?thesis using 16 scan_get_facts by (fastforce simp: sub_defs split: sum.splits prod.splits)
  qed
next
  case (17 s w vt t s' w')
  then show ?case using gs_finish_ok scan_finish_facts by (cases s) (fastforce simp: sub_defs split: prod.splits)+
next
  case (18 s w vt t s' w')
  then show ?case using scan_finish_facts by (cases s) (fastforce simp: sub_defs split: prod.splits)+
next
  case (19 s w vt t s' w')
  then show ?case using scan_finish_facts
    by (cases s) (fastforce simp: sub_defs GroupScheduler_commandFinish_def Let_def split: prod.splits)+
next
  case (20 s w cmd)
  then show ?case by (cases s) (auto simp: sub_defs ScanScheduler_commandStart_def)
next
  case (21 cmd s)
  then show ?case by (cases s) (auto simp: sub_defs ScanScheduler_commandStart_def)
next
  case (22 cmd s)
  then show ?case by (cases s) (auto simp: sub_defs ScanScheduler_commandStart_def)
qed

end
