(* ===== verification/Blend_Worker.thy ===== *)
theory Blend_Worker
  imports Blend_Properties
begin

text \<open>
  The properties of the blend scheduler of a worker: its sub-schedulers are a new group scheduler and new scan
  schedulers, and \<open>worker_reach\<close> are the states that runs reach. No task is lost or run twice and the books are
  exact, threads stay reserved, interactive tasks come first, the schedulers stay in order of priority, and
  control commands wait for idle schedulers.
\<close>

section \<open>Reachable states of a worker\<close>

definition fresh_group :: "groupScheduler \<Rightarrow> bool" where
  "fresh_group g \<longleftrightarrow> (\<exists>name threads reserve size prio. 1 \<le> size \<and> g = GroupScheduler_new name threads reserve size prio)"

definition fresh_scan :: "scanScheduler \<Rightarrow> bool" where
  "fresh_scan s \<longleftrightarrow> (\<exists>name threads reserve prio chunks lo hi minutes.
     ScanScheduler_new name threads reserve prio chunks lo hi minutes = Inr s)"

definition worker_reach :: "'m memMan \<Rightarrow> 'm world \<Rightarrow> subSched blendScheduler \<Rightarrow> 'm world \<Rightarrow> task multiset \<Rightarrow> task multiset \<Rightarrow> bool" where
  "worker_reach vt w0 b w Q R \<longleftrightarrow> (\<exists>queries threads g snail scans. fresh_group g \<and> fresh_scan snail \<and> (\<forall>s \<in> set scans. fresh_scan s) \<and>
     blend_reach sub_if vt (BlendScheduler_new (sub_if :: (subSched, 'm) schedIface) queries threads (SubGroup g) (SubScan snail)
       (map SubScan scans)) w0 b w Q R)"

lemma fresh_scanI: "ScanScheduler_new name threads reserve prio chunks lo hi minutes = Inr s \<Longrightarrow> fresh_scan s"
  unfolding fresh_scan_def by blast

lemma worker_reachI:
  "fresh_group g \<Longrightarrow> fresh_scan snail \<Longrightarrow> \<forall>s \<in> set scans. fresh_scan s \<Longrightarrow>
   blend_reach sub_if vt (BlendScheduler_new (sub_if :: (subSched, 'm) schedIface) queries threads (SubGroup g) (SubScan snail)
     (map SubScan scans)) w0 b w Q R \<Longrightarrow> worker_reach (vt :: 'm memMan) w0 b w Q R"
  unfolding worker_reach_def by blast

lemma fresh_group_sub:
  "fresh_group g \<Longrightarrow> sub_inv (SubGroup g) (w :: 'm world) \<and> sub_contents (SubGroup g) = {#} \<and> sbInFlight (siBase (sub_if :: (subSched, 'm) schedIface) (SubGroup g)) = 0"
  using gs_new_ok by (auto simp: fresh_group_def sub_defs)
    (simp_all add: GroupScheduler_new_def gs_tasks_def SchedulerBase_new_def setMaxActiveChunks_def)

lemma fresh_scan_sub:
  assumes "fresh_scan s"
  shows "sub_inv (SubScan s) (w :: 'm world) \<and> sub_contents (SubScan s) = {#} \<and> sbInFlight (siBase (sub_if :: (subSched, 'm) schedIface) (SubScan s)) = 0"
proof -
  obtain name threads reserve prio chunks lo hi minutes where
    s: "ScanScheduler_new name threads reserve prio chunks lo hi minutes = Inr s"
    using assms by (auto simp: fresh_scan_def)
  have "ssTaskQueue s = TQQueue ChunkTasksQueue_new \<and> sbInFlight (ssBase s) = 0"
    using s by (auto simp: ScanScheduler_new_def SchedulerBase_new_def setMaxActiveChunks_def split: if_splits)
  moreover have "cq_inv ChunkTasksQueue_new w \<and> cq_contents ChunkTasksQueue_new = {#}"
    by (simp add: cq_inv_def cq_ok_def ChunkTasksQueue_new_def cq_contents_def)
  ultimately show ?thesis by (simp add: sub_defs tq_defs isChunkDisk_def)
qed

lemma worker_ok:
  fixes vt :: "'m memMan"
  assumes "worker_reach vt w0 b w Q R"
  shows "blend_ok sub_inv b w" "blend_books sub_if sub_contents b w Q R"
proof -
  obtain queries threads g snail scans where f: "fresh_group g" "fresh_scan snail" "\<forall>s \<in> set scans. fresh_scan s"
    and r: "blend_reach sub_if vt (BlendScheduler_new (sub_if :: (subSched, 'm) schedIface) queries threads (SubGroup g) (SubScan snail) (map SubScan scans)) w0 b w Q R"
    using assms by (auto simp: worker_reach_def)
  have "sub_inv s w0 \<and> sub_contents s = {#} \<and> sbInFlight (siBase (sub_if :: (subSched, 'm) schedIface) s) = 0"
    if "s \<in> set (SubGroup g # map SubScan scans @ [SubScan snail])" for s
    using f that fresh_group_sub [of g w0] fresh_scan_sub [where w = w0] by auto
  from sub.blend_new_ok [OF this] show "blend_ok sub_inv b w" "blend_books sub_if sub_contents b w Q R"
    using sub.blend_reach_ok [OF r] by blast+
qed

text \<open>The members of a sub-scheduler that do not depend on the memory manager.\<close>

definition base_of :: "subSched \<Rightarrow> schedBase" where
  "base_of = sub_read gsBase ssBase"

definition scan_takes :: "int \<Rightarrow> subSched \<Rightarrow> bool" where
  "scan_takes rating = sub_read (\<lambda>g. False) (isRatingInRange rating)"

lemma sub_if_simps [simp]:
  "siBase sub_if s = base_of s" "siRatingInRange sub_if r s = scan_takes r s"
  by (simp_all add: sub_if_def base_of_def scan_takes_def)

section \<open>A concrete worker\<close>

definition demo_interactive :: "nat \<Rightarrow> int \<Rightarrow> task" where
  "demo_interactive ptr chunkId = Task_new ptr \<lparr>msgQueryId = 2, msgJobId = int ptr, msgAttempt = 0,
     msgChunkId = Some chunkId, msgScanTables = [], msgScanPriority = 0, msgScanInteractive = True\<rparr>"

definition demo_subs :: "sched_error + (scanScheduler \<times> scanScheduler)" where
  "demo_subs = (case ScanScheduler_new ''snail'' 9 1 0 3 100 200 600 of Inl e \<Rightarrow> Inl e
     | Inr snail \<Rightarrow> (case ScanScheduler_new ''fast'' 4 2 1 3 0 100 60 of Inl e \<Rightarrow> Inl e | Inr fast \<Rightarrow> Inr (snail, fast)))"

definition demo_slow :: "nat \<Rightarrow> task" where
  "demo_slow ptr = (demo_task ptr 7 [1])\<lparr>tScanInfo := (tScanInfo (demo_task ptr 7 [1]))\<lparr>scanRating := 150\<rparr>\<rparr>"

text \<open>A run of the blend scheduler, with the tasks queued and in flight.\<close>

datatype blendOp = BQueue task | BGet | BFinish task

fun blend_run :: "('s, 'm) schedIface \<Rightarrow> 'm memMan \<Rightarrow> blendOp list \<Rightarrow> 's blendScheduler \<times> 'm world \<times> task list \<times> task list \<Rightarrow>
    sched_error + ('s blendScheduler \<times> 'm world \<times> task list \<times> task list)" where
  "blend_run si vt [] st = Inr st"
| "blend_run si vt (BQueue t # ops) (b, w, Q, R) =
     (if tPtr t \<in> tPtr ` set (Q @ R) then Inl Bug
      else case BlendScheduler_queCmd si 0 (TaskCmd t) b w of Inl e \<Rightarrow> Inl e | Inr (b', w') \<Rightarrow> blend_run si vt ops (b', w', t # Q, R))"
| "blend_run si vt (BGet # ops) (b, w, Q, R) =
     (case BlendScheduler_getCmd si vt b w of
        Inl e \<Rightarrow> Inl e
      | Inr (Some (TaskCmd t), b', w') \<Rightarrow> blend_run si vt ops (b', w', remove1 t Q, t # R)
      | Inr (_, b', w') \<Rightarrow> blend_run si vt ops (b', w', Q, R))"
| "blend_run si vt (BFinish t # ops) (b, w, Q, R) =
     (if t \<notin> set R then Inl Bug
      else case BlendScheduler_commandFinish si vt 0 (TaskCmd t) b w of (b', w') \<Rightarrow> blend_run si vt ops (b', w', Q, remove1 t R))"

lemma blend_run_reach:
  "blend_run si vt ops (b, w, Q, R) = Inr (b', w', Q', R') \<Longrightarrow> blend_reach si vt b0 w0 b w (mset Q) (mset R) \<Longrightarrow>
   blend_reach si vt b0 w0 b' w' (mset Q') (mset R')"
proof (induction si vt ops "(b, w, Q, R)" arbitrary: b w Q R rule: blend_run.induct)
  case (2 si vt t ops b w Q R)
  then obtain b1 w1 where q: "BlendScheduler_queCmd si 0 (TaskCmd t) b w = Inr (b1, w1)"
    and rec: "blend_run si vt ops (b1, w1, t # Q, R) = Inr (b', w', Q', R')" and f: "tPtr t \<notin> tPtr ` set (Q @ R)"
    by (auto split: sum.splits if_splits)
  have "blend_reach si vt b0 w0 b1 w1 (mset (t # Q)) (mset R)"
    using blend_reach.queue [OF 2(3) _ q] f by auto
  then show ?case using 2(1) [OF f q refl rec] by blast
next
  case (3 si vt ops b w Q R)
  then obtain r b1 w1 where g: "BlendScheduler_getCmd si vt b w = Inr (r, b1, w1)"
    by (auto split: sum.splits)
  show ?case
  proof (cases "\<exists>t. r = Some (TaskCmd t)")
    case True
    then obtain t where t: "r = Some (TaskCmd t)" by blast
    have "blend_reach si vt b0 w0 b1 w1 (mset (remove1 t Q)) (mset (t # R))"
      using blend_reach.deliver [OF 3(5)] g t by simp
    then show ?thesis using 3 g t by simp
  next
    case False
    then have "blend_reach si vt b0 w0 b1 w1 (mset Q) (mset R)" using blend_reach.no_task [OF 3(5) g] by blast
    then show ?thesis using 3 g False by (cases r) (auto split: command.splits)
  qed
next
  case (4 si vt t ops b w Q R)
  then obtain b1 w1 where q: "BlendScheduler_commandFinish si vt 0 (TaskCmd t) b w = (b1, w1)"
    and rec: "blend_run si vt ops (b1, w1, Q, remove1 t R) = Inr (b', w', Q', R')" and f: "t \<in> set R"
    by (auto split: prod.splits if_splits)
  have "blend_reach si vt b0 w0 b1 w1 (mset Q) (mset (remove1 t R))"
    using blend_reach.finished [OF 4(3) _ q] f by simp
  then show ?case using 4(1) [OF _ q [symmetric] rec] f by simp
qed simp

definition demo_run :: "blendOp list \<Rightarrow> sched_error + (subSched blendScheduler \<times> unit world \<times> task list \<times> task list)" where
  "demo_run ops = (case demo_subs of Inl e \<Rightarrow> Inl e
     | Inr (snail, fast) \<Rightarrow> blend_run sub_if (memManNone True) ops
         (BlendScheduler_new (sub_if :: (subSched, unit) schedIface) (QueriesAndChunks_new 300 5) 4
            (SubGroup (GroupScheduler_new ''group'' 4 2 10 1)) (SubScan snail) (map SubScan [fast]), demo_world, [], []))"

lemma demo_run_reach:
  assumes "demo_run ops = Inr (b, w, Q, R)"
  shows "worker_reach (memManNone True) demo_world b w (mset Q) (mset R)"
proof -
  obtain snail fast where sf: "demo_subs = Inr (snail, fast)" using assms by (auto simp: demo_run_def split: sum.splits)
  let ?b0 = "BlendScheduler_new (sub_if :: (subSched, unit) schedIface) (QueriesAndChunks_new 300 5) 4
    (SubGroup (GroupScheduler_new ''group'' 4 2 10 1)) (SubScan snail) (map SubScan [fast])"
  have run: "blend_run sub_if (memManNone True) ops (?b0, demo_world, [], []) = Inr (b, w, Q, R)"
    using assms by (simp only: demo_run_def sf sum.case prod.case)
  have "blend_reach sub_if (memManNone True) ?b0 demo_world b w (mset Q) (mset R)"
    using blend_run_reach [OF run, of ?b0 demo_world] blend_reach.start [of sub_if "memManNone True" ?b0 demo_world] by simp
  moreover have "fresh_scan snail" "fresh_scan fast"
    using sf unfolding demo_subs_def by (auto intro: fresh_scanI split: sum.splits)
  moreover have "fresh_group (GroupScheduler_new ''group'' 4 2 10 1)" unfolding fresh_group_def
    by (rule exI [of _ "''group''"], rule exI [of _ 4], rule exI [of _ 2], rule exI [of _ 10], rule exI [of _ 1]) simp
  ultimately show ?thesis by (intro worker_reachI [where scans = "[fast]"]) auto
qed

text \<open>An interactive task and a scan task are queued; then one task is delivered.\<close>

abbreviation demo_i :: task where "demo_i \<equiv> demo_interactive 3 7"
abbreviation demo_s :: task where "demo_s \<equiv> demo_task 5 7 [1]"

definition demo_ops :: "blendOp list" where
  "demo_ops = [BQueue demo_s, BQueue demo_i]"

lemma demo_queued:
  "\<exists>b w g. demo_run demo_ops = Inr (b, w, [demo_i, demo_s], []) \<and> bsReadySched b = None
     \<and> bsSubs b (bsGroup b) = SubGroup g \<and> gs_tasks g = [demo_i] \<and> sbInFlight (gsBase g) = 0 \<and> sbMaxThreads (gsBase g) = 4
     \<and> sbMaxReserve (gsBase g) = 2 \<and> calcAvailableTheads (sub_if :: (subSched, unit) schedIface) b = 1"
proof -
  have "case demo_run demo_ops of Inl e \<Rightarrow> False
    | Inr (b, w, Q, R) \<Rightarrow> bsReadySched b = None \<and> Q = [demo_i, demo_s] \<and> R = [] \<and>
       (case bsSubs b (bsGroup b) of SubGroup g \<Rightarrow> gs_tasks g = [demo_i] \<and> sbInFlight (gsBase g) = 0 \<and> sbMaxThreads (gsBase g) = 4
           \<and> sbMaxReserve (gsBase g) = 2 | SubScan s \<Rightarrow> False)
       \<and> calcAvailableTheads (sub_if :: (subSched, unit) schedIface) b = 1" by code_simp
  then show ?thesis by (auto split: sum.splits subSched.splits)
qed

lemma demo_get:
  "\<exists>b w b' w'. demo_run demo_ops = Inr (b, w, [demo_i, demo_s], []) \<and> bsReadySched b = None \<and>
     BlendScheduler_getCmd sub_if (memManNone True) b w = Inr (Some (TaskCmd demo_i), b', w')"
proof -
  have "case demo_run demo_ops of Inl e \<Rightarrow> False
    | Inr (b, w, Q, R) \<Rightarrow> bsReadySched b = None \<and> Q = [demo_i, demo_s] \<and> R = [] \<and>
       (case BlendScheduler_getCmd sub_if (memManNone True) b w of Inl e \<Rightarrow> False | Inr (r, b', w') \<Rightarrow> r = Some (TaskCmd demo_i))"
    by code_simp
  then show ?thesis by (auto split: sum.splits)
qed

section \<open>Properties\<close>



text \<open>
  Every queued task is accepted: \<open>queCmd\<close> of a task not known to the worker succeeds, puts the task on the
  queue of one sub-scheduler and no other, and that is the one the task points to; an interactive task or one without scan
  tables is on the group scheduler, any other is on a scan whose range of ratings has its rating, or on the snail scan.
\<close>

theorem blend_queues_once:
  fixes vt :: "'m memMan"
  assumes "worker_reach vt w0 b w Q R" and "tPtr t \<notin> tPtr ` set_mset (Q + R)"
  shows "\<exists>b' w' k. BlendScheduler_queCmd sub_if now (TaskCmd t) b w = Inr (b', w') \<and> k \<in> set (bsOrder b)
    \<and> tsScheduler (task_st t w') = Some k
    \<and> (\<forall>j \<in> set (bsOrder b). sub_contents (bsSubs b' j) = (if j = k then add_mset t (sub_contents (bsSubs b j)) else sub_contents (bsSubs b j)))
    \<and> (if infoTables (tScanInfo t) = [] \<or> tScanInteractive t then k = bsGroup b
       else k = bsScanSnail b \<or> scan_takes (scanRating (tScanInfo t)) (bsSubs b k))"
proof -
  note ok = worker_ok [OF assms(1)]
  let ?k = "choose_sched (sub_if :: (subSched, 'm) schedIface) t b"
  let ?w2 = "setTaskScheduler t ?k (setOnInteractive t (infoTables (tScanInfo t) = [] \<or> tScanInteractive t) w)"
  have k: "?k \<in> set (bsOrder b)" using ok(1) by (rule choose_in_order)
  have "keeps_handles w ?w2"
    by (auto simp: keeps_handles_def hasMemHandle_def setTaskScheduler_def setOnInteractive_def)
  from sub.inv_world [OF _ this] have i: "sub_inv (bsSubs b ?k) ?w2" using ok(1) k by (simp add: blend_ok_def)
  obtain s w3 where s: "siQueCmd sub_if (TaskCmd t) (bsSubs b ?k) ?w2 = Inr (s, w3)" using sub.que_total [OF i] by blast
  obtain q w4 where q: "queuedTask now t (bsQueries b) w3 = (q, w4)" by fastforce
  have c: "BlendScheduler_queCmd sub_if now (TaskCmd t) b w = Inr ((upd_sub ?k s b)\<lparr>bsQueries := q\<rparr>, w4)"
    using s q by (simp add: BlendScheduler_queCmd_def Let_def)
  have "if infoTables (tScanInfo t) = [] \<or> tScanInteractive t then ?k = bsGroup b
      else ?k = bsScanSnail b \<or> scan_takes (scanRating (tScanInfo t)) (bsSubs b ?k)"
    by (auto simp: choose_sched_def Let_def find_Some_iff split: option.splits)
  then show ?thesis
    using c k sub.blend_que_step(3) [OF c ok assms(2)] sub.que_contents [OF i s]
    by (intro exI [of _ "(upd_sub ?k s b)\<lparr>bsQueries := q\<rparr>"] exI [of _ w4] exI [of _ ?k]) simp
qed

lemma blend_queues_once_witness:
  "\<exists>b w b' w'. worker_reach (memManNone True) demo_world b w {#demo_i, demo_s#} {#} \<and>
     BlendScheduler_queCmd sub_if 0 (TaskCmd (demo_interactive 8 7)) b w = Inr (b', w')
     \<and> tsScheduler (task_st (demo_interactive 8 7) w') = Some (bsGroup b)"
proof -
  obtain b w where r: "demo_run demo_ops = Inr (b, w, [demo_i, demo_s], [])" using demo_queued by blast
  have reach: "worker_reach (memManNone True) demo_world b w {#demo_i, demo_s#} {#}" using demo_run_reach [OF r] by simp
  have "tPtr (demo_interactive 8 7) \<notin> tPtr ` set_mset ({#demo_i, demo_s#} + {#})" "tScanInteractive (demo_interactive 8 7)"
    by (simp_all add: demo_task_def demo_interactive_def Task_new_def)
  with blend_queues_once [OF reach, of "demo_interactive 8 7" 0] reach show ?thesis by auto
qed

text \<open>
  C33. Threads stay reserved. When \<open>getCmd\<close> looks for a task and delivers one of scheduler \<open>k\<close>, then \<open>k\<close> had fewer tasks in
  flight than its maximum, and the tasks in flight on the schedulers of higher priority, those on \<open>k\<close> with the new one,
  and the threads that the schedulers of lower priority want reserved fit into the threads of the blend scheduler.
\<close>

theorem blend_threads_reserved:
  assumes "worker_reach vt w0 b w Q R" and "bsReadySched b = None"
    and "BlendScheduler_getCmd sub_if vt b w = Inr (Some (TaskCmd t), b', w')"
  shows "t \<in># Q \<and> (\<exists>pre k post. bsOrder b = pre @ k # post \<and> tsScheduler (task_st t w') = Some k
    \<and> sbInFlight (base_of (bsSubs b k)) < sbMaxThreads (base_of (bsSubs b k))
    \<and> sum_list (map (\<lambda>j. sbInFlight (base_of (bsSubs b j))) pre) + (sbInFlight (base_of (bsSubs b k)) + 1)
        + sum_list (map (\<lambda>j. desiredThreadReserve (base_of (bsSubs b j))) post) \<le> bsSchedMaxThreads b)"
  using sub.blend_get_step [OF assms(3) worker_ok [OF assms(1)]]
    sub.get_within_share [OF assms(3) worker_ok [OF assms(1)] assms(2)]
  by (simp add: sub_base_def)

lemma blend_threads_reserved_witness:
  "\<exists>b w b' w' k. worker_reach (memManNone True) demo_world b w {#demo_i, demo_s#} {#} \<and>
     BlendScheduler_getCmd sub_if (memManNone True) b w = Inr (Some (TaskCmd demo_i), b', w') \<and> k \<in> set (bsOrder b) \<and>
     tsScheduler (task_st demo_i w') = Some k \<and> sbInFlight (base_of (bsSubs b k)) < sbMaxThreads (base_of (bsSubs b k))"
proof -
  obtain b w b' w' where r: "demo_run demo_ops = Inr (b, w, [demo_i, demo_s], [])" "bsReadySched b = None"
    and g: "BlendScheduler_getCmd sub_if (memManNone True) b w = Inr (Some (TaskCmd demo_i), b', w')"
    using demo_get by blast
  have reach: "worker_reach (memManNone True) demo_world b w {#demo_i, demo_s#} {#}" using demo_run_reach [OF r(1)] by simp
  from blend_threads_reserved [OF reach r(2) g] obtain pre k post where "bsOrder b = pre @ k # post"
    "tsScheduler (task_st demo_i w') = Some k" "sbInFlight (base_of (bsSubs b k)) < sbMaxThreads (base_of (bsSubs b k))" by blast
  then show ?thesis using reach g by (metis in_set_conv_decomp)
qed

text \<open>
  C37. Interactive tasks come first: when no delivery is under way, the group scheduler has queued tasks, and it is below its
  maximum and its share of the threads, then \<open>getCmd\<close> delivers the task at the front of the group scheduler,
  whatever the scans have queued.
\<close>

theorem blend_interactive_first:
  fixes vt :: "'m memMan"
  assumes "worker_reach vt w0 b w Q R" and "bsReadySched b = None"
    and "bsSubs b (bsGroup b) = SubGroup g" and "gs_tasks g = t # ts"
    and "sbInFlight (gsBase g) < sbMaxThreads (gsBase g)"
    and "sbInFlight (gsBase g) < calcAvailableTheads (sub_if :: (subSched, 'm) schedIface) b + desiredThreadReserve (gsBase g)"
  shows "\<exists>b' w'. BlendScheduler_getCmd (sub_if :: (subSched, 'm) schedIface) vt b w = Inr (Some (TaskCmd t), b', w')"
proof -
  let ?si = "sub_if :: (subSched, 'm) schedIface"
  note ok = worker_ok [OF assms(1)]
  let ?g = "g\<lparr>gsBase := snd (applyAvailableThreads (calcAvailableTheads ?si b) (gsBase g))\<rparr>"
  have gok: "gs_ok g" using ok(1) assms(3) blend_in_order(1) [OF ok(1)] by (force simp: blend_ok_def sub_inv_def)
  have same: "gs_tasks ?g = t # ts" "gs_ok ?g"
    using assms(4) gok by (simp_all add: gs_tasks_def gs_ok_def applyAvailableThreads_def)
  have rdy: "GroupScheduler_ready ?g"
    using assms(4-6) by (auto simp: GroupScheduler_ready_def gs_tasks_def maxInFlight_def applyAvailableThreads_def)
  obtain ss where o: "bsOrder b = bsGroup b # ss" using ok(1) by (auto simp: blend_ok_def)
  have f: "first_ready ?si vt (bsOrder b) (calcAvailableTheads ?si b) b w = Inr (Some (bsGroup b), upd_sub (bsGroup b) (SubGroup ?g) b, w)"
    using rdy assms(3) unfolding o by (simp add: sub_if_def sub_read_def Let_def)
  obtain g' where "GroupScheduler_getCmd ?g = (Some t, g')"
    using gs_ready_get [OF same(2) rdy] gs_get_ok(2) [OF _ same(2)] same(1) by fastforce
  then show ?thesis
    using f assms(2) by (auto simp: BlendScheduler_getCmd_def BlendScheduler_ready_def sub_if_def sub_read_def)
qed

lemma blend_interactive_first_witness:
  "\<exists>b w b' w'. worker_reach (memManNone True) demo_world b w {#demo_i, demo_s#} {#} \<and>
     BlendScheduler_getCmd sub_if (memManNone True) b w = Inr (Some (TaskCmd demo_i), b', w')"
proof -
  obtain b w g where r: "demo_run demo_ops = Inr (b, w, [demo_i, demo_s], [])" "bsReadySched b = None"
      "bsSubs b (bsGroup b) = SubGroup g" "gs_tasks g = [demo_i]"
    and v: "sbInFlight (gsBase g) = 0" "sbMaxThreads (gsBase g) = 4" "sbMaxReserve (gsBase g) = 2"
      "calcAvailableTheads (sub_if :: (subSched, unit) schedIface) b = 1"
    using demo_queued by blast
  have reach: "worker_reach (memManNone True) demo_world b w {#demo_i, demo_s#} {#}" using demo_run_reach [OF r(1)] by simp
  show ?thesis
    using reach blend_interactive_first [OF reach r(2,3,4)] v by (auto simp: desiredThreadReserve_def)
qed

text \<open>
  Control commands wait until the schedulers are idle, and nothing is forgotten: when \<open>getCmd\<close> looks for a task and returns none,
  every sub-scheduler, asked with its share of the threads, had nothing ready; what is returned is then the
  oldest control command, and nothing only when there is none.
\<close>

theorem blend_control_when_idle:
  fixes vt :: "'m memMan"
  assumes "worker_reach vt w0 b w Q R" and "bsReadySched b = None"
    and "BlendScheduler_getCmd sub_if vt b w = Inr (r, b', w')" and "\<forall>t. r \<noteq> Some (TaskCmd t)"
  shows "bsCtrlCmdQueue b = (case r of Some (ControlCmd c) \<Rightarrow> c # bsCtrlCmdQueue b' | _ \<Rightarrow> [])
    \<and> (\<forall>pre k post. bsOrder b = pre @ k # post \<longrightarrow> (\<exists>w1 w2 s'. task_frame w w1 \<and>
        siReady sub_if vt (shared (sub_if :: (subSched, 'm) schedIface) (share_before (sub_if :: (subSched, 'm) schedIface) b pre) (bsSubs b k)) w1
          = Inr (False, s', w2)))"
  using sub.get_nothing [OF assms(3) worker_ok [OF assms(1)] assms(2,4)] .

lemma blend_control_when_idle_witness:
  "\<exists>b w b' w'. worker_reach (memManNone True) demo_world b w {#} {#} \<and>
     BlendScheduler_getCmd sub_if (memManNone True) b w = Inr (None, b', w') \<and> bsCtrlCmdQueue b = []"
proof -
  have "case demo_run [] of Inl e \<Rightarrow> False | Inr (b, w, Q, R) \<Rightarrow> bsReadySched b = None \<and> Q = [] \<and> R = [] \<and>
      (case BlendScheduler_getCmd sub_if (memManNone True) b w of Inl e \<Rightarrow> False | Inr (r, b', w') \<Rightarrow> r = None)" by code_simp
  then obtain b w b' w' where r: "demo_run [] = Inr (b, w, [], [])" "bsReadySched b = None"
    and g: "BlendScheduler_getCmd sub_if (memManNone True) b w = Inr (None, b', w')" by (auto split: sum.splits)
  have reach: "worker_reach (memManNone True) demo_world b w {#} {#}" using demo_run_reach [OF r(1)] by simp
  with blend_control_when_idle [OF reach r(2) g] g show ?thesis by auto
qed

text \<open>
  The order of priority: in every reachable state the group scheduler is first and the snail scan last. After a
  delivery the scans between them are sorted by the number of tasks in flight less the priority (when that is
  switched on) and then by their position in the configuration.
\<close>

theorem blend_priority_order:
  fixes vt :: "'m memMan"
  assumes "worker_reach vt w0 b w Q R"
  shows "(\<exists>ss. bsOrder b = bsGroup b # ss @ [bsScanSnail b]) \<and> distinct (bsOrder b)
    \<and> (BlendScheduler_getCmd sub_if vt b w = Inr (Some (TaskCmd t), b', w') \<longrightarrow>
        mset (bsOrder b') = mset (bsOrder b) \<and>
        (\<exists>ss. bsOrder b' = bsGroup b' # ss @ [bsScanSnail b']
           \<and> sorted_wrt (\<lambda>x y. \<not> lessThan (sub_if :: (subSched, 'm) schedIface) b' y x) ss))"
proof -
  note ok = worker_ok [OF assms]
  show ?thesis using ok(1) sub.get_sorted [OF _ ok] by (auto simp: blend_ok_def)
qed

lemma blend_priority_order_witness:
  "\<exists>b w ss. worker_reach (memManNone True) demo_world b w {#demo_i, demo_s#} {#} \<and> bsOrder b = bsGroup b # ss @ [bsScanSnail b]"
proof -
  obtain b w where r: "demo_run demo_ops = Inr (b, w, [demo_i, demo_s], [])" using demo_queued by blast
  have "worker_reach (memManNone True) demo_world b w {#demo_i, demo_s#} {#}" using demo_run_reach [OF r] by simp
  from this blend_priority_order [OF this] show ?thesis by blast
qed

end
