(* ===== verification/Thread_Pool.thy ===== *)
theory Thread_Pool
  imports Prelude
begin

text \<open>
  The event threads and the thread pool of \<open>util/\<close>: the virtual methods of
  \<open>util::CommandQueue\<close> that an event thread calls (a record of operations over a queue state),
  the event loop of \<open>EventThread::handleCmds\<close> cut at the points where the thread takes or
  releases a lock, and \<open>ThreadPool\<close> (\<open>newThreadPool\<close>, \<open>resize\<close>, \<open>release\<close>, \<open>shutdownPool\<close>,
  \<open>PoolEventThread::leavePool\<close>). Threads interleave: \<open>thread_step\<close> is one step of one thread and
  \<open>pool_step\<close> adds the calls from outside the pool.

  The locale \<open>command_queue\<close> states what the pool relies on: a queue neither loses nor invents
  commands, wakes the waiting threads when a command arrives, and when no command runs hands out
  a command if it has one. Under it the pool conserves commands and never gets stuck while it is
  larger than its target, which is why \<open>shutdownPool\<close> returns.
\<close>

section \<open>Commands and queues\<close>

text \<open>
  \<open>Command\<close> objects by their dynamic type. A \<open>PriorityCommand\<close> carries the \<open>_priority\<close> it was
  queued with, \<open>MsgEnd\<close> is the local class of \<open>EventThread::queEnd\<close>.
\<close>

datatype command =
    Command nat
  | CommandThreadPool nat
  | PriorityCommand nat int
  | MsgEnd

text \<open>
  The virtual methods of \<open>CommandQueue\<close>. \<open>q_getCmd\<close> is one pass of \<open>getCmd\<close> that does not wait;
  \<open>q_ready\<close> is the predicate the waiting thread passes to its condition variable. \<open>q_queCmd\<close>
  yields \<open>None\<close> where the code throws \<open>Bug\<close>.
\<close>

record 'q queueIface =
  q_queCmd :: "command \<Rightarrow> 'q \<Rightarrow> 'q option"
  q_getCmd :: "'q \<Rightarrow> command option \<times> 'q"
  q_ready :: "'q \<Rightarrow> bool"
  q_commandStart :: "command \<Rightarrow> 'q \<Rightarrow> 'q"
  q_commandFinish :: "command \<Rightarrow> 'q \<Rightarrow> 'q"

text \<open>The base class: a first-in first-out queue with empty start and finish hooks.\<close>

definition cq_queCmd :: "command \<Rightarrow> command list \<Rightarrow> command list" where
  "cq_queCmd c q = q @ [c]"

fun cq_getCmd :: "command list \<Rightarrow> command option \<times> command list" where
  "cq_getCmd [] = (None, [])"
| "cq_getCmd (c # q) = (Some c, q)"

definition cq_if :: "command list queueIface" where
  "cq_if = \<lparr> q_queCmd = \<lambda>c q. Some (cq_queCmd c q), q_getCmd = cq_getCmd,
     q_ready = (\<lambda>q. q \<noteq> []), q_commandStart = \<lambda>_ q. q, q_commandFinish = \<lambda>_ q. q \<rparr>"

section \<open>Event threads\<close>

text \<open>
  Where a thread is in \<open>handleCmds\<close>: about to test \<open>_loop\<close>, blocked in \<open>getCmd\<close>, holding a
  command it has not reported as started, running it, or past the loop.
\<close>

datatype thrState = TGet | TWait | THeld command | TRun command | TExit

record eventThread =
  loop :: bool
  thrSt :: thrState
  commandFinishCalled :: bool
  finishupOnce :: bool

definition newPoolEventThread :: eventThread where
  "newPoolEventThread = \<lparr> loop = True, thrSt = TGet, commandFinishCalled = False,
     finishupOnce = False \<rparr>"

text \<open>
  The pool: its queue, every thread ever created (a thread's address is its index), the
  addresses in \<open>_pool\<close>, the target size, the shutdown flag and the joiner's queue.
  \<open>submitted\<close> and \<open>completed\<close> record history for the statements.
\<close>

record 'q threadPool =
  poolQ :: 'q
  thrs :: "eventThread list"
  members :: "nat list"
  targetThrdCount :: nat
  shutdownFlag :: bool
  joinQ :: "nat list"
  submitted :: "command list"
  completed :: "command list"

definition upd_thr :: "nat \<Rightarrow> (eventThread \<Rightarrow> eventThread) \<Rightarrow> 'q threadPool \<Rightarrow> 'q threadPool" where
  "upd_thr t f p = p\<lparr> thrs := (thrs p)[t := f (thrs p ! t)] \<rparr>"

definition pool_queCmd :: "'q queueIface \<Rightarrow> command \<Rightarrow> 'q threadPool \<Rightarrow> 'q threadPool option" where
  "pool_queCmd qi c p =
     (case q_queCmd qi c (poolQ p) of
        None \<Rightarrow> None
      | Some q \<Rightarrow> Some (p\<lparr> poolQ := q, submitted := submitted p @ [c] \<rparr>))"

section \<open>Resizing\<close>

definition addThread :: "'q threadPool \<Rightarrow> 'q threadPool" where
  "addThread p = p\<lparr> thrs := thrs p @ [newPoolEventThread], members := members p @ [length (thrs p)] \<rparr>"

text \<open>The loop of \<open>_resize\<close> that creates threads.\<close>

function growPool :: "'q threadPool \<Rightarrow> 'q threadPool" where
  "growPool p = (if length (members p) < targetThrdCount p then growPool (addThread p) else p)"
  by pat_completeness auto
termination
  by (relation "measure (\<lambda>p. targetThrdCount p - length (members p))") (auto simp: addThread_def)

declare growPool.simps [simp del]

definition resizeWork :: "'q queueIface \<Rightarrow> 'q threadPool \<Rightarrow> 'q threadPool option" where
  "resizeWork qi p =
     (let p = growPool p
      in if targetThrdCount p < length (members p) then pool_queCmd qi MsgEnd p else Some p)"

definition resize :: "'q queueIface \<Rightarrow> nat \<Rightarrow> 'q threadPool \<Rightarrow> 'q threadPool option" where
  "resize qi n p = resizeWork qi (p\<lparr> targetThrdCount := if shutdownFlag p then 0 else n \<rparr>)"

definition newThreadPool :: "'q queueIface \<Rightarrow> nat \<Rightarrow> 'q \<Rightarrow> 'q threadPool option" where
  "newThreadPool qi n q =
     resizeWork qi \<lparr> poolQ = q, thrs = [], members = [], targetThrdCount = n, shutdownFlag = False,
       joinQ = [], submitted = [], completed = [] \<rparr>"

text \<open>\<open>shutdownPool\<close> up to the wait for the pool to become empty.\<close>

definition shutdownPool :: "'q queueIface \<Rightarrow> 'q threadPool \<Rightarrow> 'q threadPool option" where
  "shutdownPool qi p = resize qi 0 (p\<lparr> shutdownFlag := True \<rparr>)"

definition waitForResize_done :: "'q threadPool \<Rightarrow> bool" where
  "waitForResize_done p \<longleftrightarrow> targetThrdCount p = length (members p)"

definition release :: "'q queueIface \<Rightarrow> nat \<Rightarrow> 'q threadPool \<Rightarrow> (bool \<times> 'q threadPool) option" where
  "release qi t p =
     (if t \<notin> set (members p) then Some (False, p)
      else map_option (Pair True)
             (resizeWork qi (p\<lparr> members := remove1 t (members p), joinQ := joinQ p @ [t] \<rparr>)))"

definition finishup :: "'q queueIface \<Rightarrow> nat \<Rightarrow> 'q threadPool \<Rightarrow> 'q threadPool option" where
  "finishup qi t p =
     (if finishupOnce (thrs p ! t) then Some p
      else map_option snd (release qi t (upd_thr t (\<lambda>th. th\<lparr> finishupOnce := True \<rparr>) p)))"

section \<open>The event loop\<close>

text \<open>One pass of \<open>_q->getCmd()\<close> by thread \<open>t\<close>: it leaves with a command or blocks.\<close>

definition thread_getCmd :: "'q queueIface \<Rightarrow> nat \<Rightarrow> 'q threadPool \<Rightarrow> 'q threadPool" where
  "thread_getCmd qi t p =
     (case q_getCmd qi (poolQ p) of
        (Some c, q) \<Rightarrow> upd_thr t (\<lambda>th. th\<lparr> thrSt := THeld c, commandFinishCalled := False \<rparr>)
                        (p\<lparr> poolQ := q \<rparr>)
      | (None, q) \<Rightarrow> upd_thr t (\<lambda>th. th\<lparr> thrSt := TWait \<rparr>) (p\<lparr> poolQ := q \<rparr>))"

definition thread_start :: "'q queueIface \<Rightarrow> nat \<Rightarrow> command \<Rightarrow> 'q threadPool \<Rightarrow> 'q threadPool" where
  "thread_start qi t c p =
     upd_thr t (\<lambda>th. th\<lparr> thrSt := TRun c \<rparr>) (p\<lparr> poolQ := q_commandStart qi c (poolQ p) \<rparr>)"

definition callCommandFinish ::
    "'q queueIface \<Rightarrow> nat \<Rightarrow> command \<Rightarrow> 'q threadPool \<Rightarrow> 'q threadPool" where
  "callCommandFinish qi t c p =
     (if commandFinishCalled (thrs p ! t) then p
      else upd_thr t (\<lambda>th. th\<lparr> commandFinishCalled := True \<rparr>)
             (p\<lparr> poolQ := q_commandFinish qi c (poolQ p) \<rparr>))"

text \<open>The end of \<open>runAction\<close> and the rest of the loop body; \<open>MsgEnd::action\<close> clears \<open>_loop\<close>.\<close>

definition thread_finish :: "'q queueIface \<Rightarrow> nat \<Rightarrow> command \<Rightarrow> 'q threadPool \<Rightarrow> 'q threadPool" where
  "thread_finish qi t c p =
     (let p = (if c = MsgEnd then upd_thr t (\<lambda>th. th\<lparr> loop := False \<rparr>) p else p);
          p = callCommandFinish qi t c p
      in upd_thr t (\<lambda>th. th\<lparr> thrSt := TGet \<rparr>) (p\<lparr> completed := completed p @ [c] \<rparr>))"

definition thread_exit :: "'q queueIface \<Rightarrow> nat \<Rightarrow> 'q threadPool \<Rightarrow> 'q threadPool option" where
  "thread_exit qi t p = finishup qi t (upd_thr t (\<lambda>th. th\<lparr> thrSt := TExit \<rparr>) p)"

text \<open>
  \<open>PoolEventThread::leavePool(cmd)\<close>: \<open>_loop\<close> is cleared whatever the thread runs, the rest only
  happens when the thread's current command is \<open>cmd\<close>.
\<close>

definition current_command :: "eventThread \<Rightarrow> command option" where
  "current_command th =
     (case thrSt th of THeld c \<Rightarrow> Some c | TRun c \<Rightarrow> Some c | _ \<Rightarrow> None)"

definition leavePool ::
    "'q queueIface \<Rightarrow> nat \<Rightarrow> command \<Rightarrow> 'q threadPool \<Rightarrow> (bool \<times> 'q threadPool) option" where
  "leavePool qi t c p =
     (let p = upd_thr t (\<lambda>th. th\<lparr> loop := False \<rparr>) p
      in if current_command (thrs p ! t) \<noteq> Some c then Some (False, p)
         else map_option (Pair True) (finishup qi t (callCommandFinish qi t c p)))"

inductive thread_step ::
    "'q queueIface \<Rightarrow> nat \<Rightarrow> 'q threadPool \<Rightarrow> 'q threadPool \<Rightarrow> bool" for qi t where
  ts_get: "thrSt (thrs p ! t) = TGet \<Longrightarrow> loop (thrs p ! t) \<Longrightarrow> thread_step qi t p (thread_getCmd qi t p)"
| ts_resume: "thrSt (thrs p ! t) = TWait \<Longrightarrow> q_ready qi (poolQ p) \<Longrightarrow>
    thread_step qi t p (thread_getCmd qi t p)"
| ts_start: "thrSt (thrs p ! t) = THeld c \<Longrightarrow> thread_step qi t p (thread_start qi t c p)"
| ts_finish: "thrSt (thrs p ! t) = TRun c \<Longrightarrow> thread_step qi t p (thread_finish qi t c p)"
| ts_exit: "thrSt (thrs p ! t) = TGet \<Longrightarrow> \<not> loop (thrs p ! t) \<Longrightarrow> thread_exit qi t p = Some p' \<Longrightarrow>
    thread_step qi t p p'"

text \<open>
  A command can only leave the pool through the \<open>_poolEventThread\<close> pointer that
  \<open>specialActions\<close> gives to a \<open>CommandThreadPool\<close> once the command has started.
\<close>

inductive pool_step :: "'q queueIface \<Rightarrow> 'q threadPool \<Rightarrow> 'q threadPool \<Rightarrow> bool" for qi where
  ps_thread: "t < length (thrs p) \<Longrightarrow> thread_step qi t p p' \<Longrightarrow> pool_step qi p p'"
| ps_queCmd: "c \<noteq> MsgEnd \<Longrightarrow> pool_queCmd qi c p = Some p' \<Longrightarrow> pool_step qi p p'"
| ps_leave: "t < length (thrs p) \<Longrightarrow> thrSt (thrs p ! t) = TRun (CommandThreadPool n) \<Longrightarrow>
    leavePool qi t (CommandThreadPool n) p = Some (r, p') \<Longrightarrow> pool_step qi p p'"
| ps_leave_late: "t < length (thrs p) \<Longrightarrow> current_command (thrs p ! t) \<noteq> Some c \<Longrightarrow>
    leavePool qi t c p = Some (r, p') \<Longrightarrow> pool_step qi p p'"
| ps_resize: "resize qi n p = Some p' \<Longrightarrow> pool_step qi p p'"
| ps_shutdown: "shutdownPool qi p = Some p' \<Longrightarrow> pool_step qi p p'"

inductive pool_reach :: "'q queueIface \<Rightarrow> nat \<Rightarrow> 'q \<Rightarrow> 'q threadPool \<Rightarrow> bool" for qi n q0 where
  pr_new: "newThreadPool qi n q0 = Some p \<Longrightarrow> pool_reach qi n q0 p"
| pr_step: "pool_reach qi n q0 p \<Longrightarrow> pool_step qi p p' \<Longrightarrow> pool_reach qi n q0 p'"

section \<open>What a queue promises\<close>

definition held_cmds :: "eventThread \<Rightarrow> command multiset" where
  "held_cmds th = (case current_command th of Some c \<Rightarrow> {#c#} | None \<Rightarrow> {#})"

text \<open>The command whose start the thread has reported and whose finish it has not.\<close>

definition open_cmds :: "eventThread \<Rightarrow> command multiset" where
  "open_cmds th =
     (case thrSt th of TRun c \<Rightarrow> if commandFinishCalled th then {#} else {#c#} | _ \<Rightarrow> {#})"

definition pool_held :: "'q threadPool \<Rightarrow> command multiset" where
  "pool_held p = sum_list (map held_cmds (thrs p))"

definition pool_open :: "'q threadPool \<Rightarrow> command multiset" where
  "pool_open p = sum_list (map open_cmds (thrs p))"

lemma sum_list_update_ms:
  "t < length xs \<Longrightarrow> sum_list (map f (xs[t := y])) + f (xs ! t) = sum_list (map f xs) + (f y :: 'a multiset)"
proof (induction xs arbitrary: t)
  case (Cons x xs)
  then show ?case by (cases t) (auto simp: ac_simps)
qed simp

lemmas upd_thr_sums = sum_list_update_ms [of _ _ held_cmds] sum_list_update_ms [of _ _ open_cmds]

locale command_queue =
  fixes qi :: "'q queueIface"
    and contents :: "'q \<Rightarrow> command multiset"
    and books :: "'q \<Rightarrow> command multiset \<Rightarrow> bool"
  assumes que_ok: "books q R \<Longrightarrow> \<exists>q'. q_queCmd qi c q = Some q'"
    and que: "books q R \<Longrightarrow> q_queCmd qi c q = Some q' \<Longrightarrow>
      books q' R \<and> contents q' = add_mset c (contents q) \<and> q_ready qi q'"
    and get_some: "books q R \<Longrightarrow> q_getCmd qi q = (Some c, q') \<Longrightarrow>
      books q' R \<and> contents q = add_mset c (contents q')"
    and get_none: "books q R \<Longrightarrow> q_getCmd qi q = (None, q') \<Longrightarrow> books q' R \<and> contents q' = contents q"
    and get_idle: "books q {#} \<Longrightarrow> q_getCmd qi q = (None, q') \<Longrightarrow> contents q = {#}"
    and start: "books q R \<Longrightarrow>
      books (q_commandStart qi c q) (add_mset c R) \<and> contents (q_commandStart qi c q) = contents q"
    and finish: "books q (add_mset c R) \<Longrightarrow>
      books (q_commandFinish qi c q) R \<and> contents (q_commandFinish qi c q) = contents q"

text \<open>
  A thread in the pool has not been released; a thread out of the pool has, and at most still
  runs the command with which it left, whose finish has been reported.
\<close>

fun thr_ok :: "bool \<Rightarrow> eventThread \<Rightarrow> bool" where
  "thr_ok True th \<longleftrightarrow> \<not> finishupOnce th \<and> thrSt th \<noteq> TExit
     \<and> (current_command th \<noteq> None \<longrightarrow> \<not> commandFinishCalled th)"
| "thr_ok False th \<longleftrightarrow> finishupOnce th \<and> \<not> loop th
     \<and> (case thrSt th of TGet \<Rightarrow> True | TExit \<Rightarrow> True
        | TRun (CommandThreadPool n) \<Rightarrow> commandFinishCalled th | _ \<Rightarrow> False)"

definition members_ok :: "'q threadPool \<Rightarrow> bool" where
  "members_ok p \<longleftrightarrow> distinct (members p) \<and> set (members p) \<subseteq> {..<length (thrs p)}
     \<and> (\<forall>t < length (thrs p). thr_ok (t \<in> set (members p)) (thrs p ! t))"

definition all_wait :: "'q threadPool \<Rightarrow> bool" where
  "all_wait p \<longleftrightarrow> (\<forall>t \<in> set (members p). thrSt (thrs p ! t) = TWait)"

definition ending :: "eventThread \<Rightarrow> bool" where
  "ending th \<longleftrightarrow> (case thrSt th of THeld c \<Rightarrow> c = MsgEnd | TRun c \<Rightarrow> c = MsgEnd
     | TGet \<Rightarrow> \<not> loop th | _ \<Rightarrow> False)"

lemma upd_thr_sel [simp]:
  "poolQ (upd_thr t f p) = poolQ p" "members (upd_thr t f p) = members p"
  "targetThrdCount (upd_thr t f p) = targetThrdCount p" "shutdownFlag (upd_thr t f p) = shutdownFlag p"
  "submitted (upd_thr t f p) = submitted p" "completed (upd_thr t f p) = completed p"
  "length (thrs (upd_thr t f p)) = length (thrs p)"
  by (simp_all add: upd_thr_def)

lemma upd_thr_nth [simp]:
  "t < length (thrs p) \<Longrightarrow> thrs (upd_thr t f p) ! u = (if u = t then f (thrs p ! t) else thrs p ! u)"
  by (auto simp: upd_thr_def nth_list_update)

lemma pool_held_upd:
  "t < length (thrs p) \<Longrightarrow>
   pool_held (upd_thr t f p) + held_cmds (thrs p ! t) = pool_held p + held_cmds (f (thrs p ! t))"
  by (simp add: upd_thr_def pool_held_def sum_list_update_ms)

lemma pool_open_upd:
  "t < length (thrs p) \<Longrightarrow>
   pool_open (upd_thr t f p) + open_cmds (thrs p ! t) = pool_open p + open_cmds (f (thrs p ! t))"
  by (simp add: upd_thr_def pool_open_def sum_list_update_ms)

lemma pool_sums_upd [simp]:
  "pool_held (p\<lparr> poolQ := x0 \<rparr>) = pool_held p"
  "pool_held (p\<lparr> members := x1 \<rparr>) = pool_held p"
  "pool_held (p\<lparr> targetThrdCount := x2 \<rparr>) = pool_held p"
  "pool_held (p\<lparr> shutdownFlag := x3 \<rparr>) = pool_held p"
  "pool_held (p\<lparr> joinQ := x4 \<rparr>) = pool_held p"
  "pool_held (p\<lparr> submitted := x5 \<rparr>) = pool_held p"
  "pool_held (p\<lparr> completed := x6 \<rparr>) = pool_held p"
  "pool_open (p\<lparr> poolQ := x0 \<rparr>) = pool_open p"
  "pool_open (p\<lparr> members := x1 \<rparr>) = pool_open p"
  "pool_open (p\<lparr> targetThrdCount := x2 \<rparr>) = pool_open p"
  "pool_open (p\<lparr> shutdownFlag := x3 \<rparr>) = pool_open p"
  "pool_open (p\<lparr> joinQ := x4 \<rparr>) = pool_open p"
  "pool_open (p\<lparr> submitted := x5 \<rparr>) = pool_open p"
  "pool_open (p\<lparr> completed := x6 \<rparr>) = pool_open p"
  by (simp_all add: pool_held_def pool_open_def)

lemma members_ok_fields [simp]:
  "members_ok (p\<lparr> poolQ := x0 \<rparr>) = members_ok p"
  "members_ok (p\<lparr> targetThrdCount := x2 \<rparr>) = members_ok p"
  "members_ok (p\<lparr> shutdownFlag := x3 \<rparr>) = members_ok p"
  "members_ok (p\<lparr> joinQ := x4 \<rparr>) = members_ok p"
  "members_ok (p\<lparr> submitted := x5 \<rparr>) = members_ok p"
  "members_ok (p\<lparr> completed := x6 \<rparr>) = members_ok p"
  by (simp_all add: members_ok_def)

lemma members_ok_upd:
  "members_ok p \<Longrightarrow> t < length (thrs p) \<Longrightarrow> thr_ok (t \<in> set (members p)) (f (thrs p ! t)) \<Longrightarrow>
   members_ok (upd_thr t f p)"
  by (auto simp: members_ok_def)

lemma held_new [simp]: "held_cmds newPoolEventThread = {#}" "open_cmds newPoolEventThread = {#}"
  by (simp_all add: held_cmds_def open_cmds_def current_command_def newPoolEventThread_def)

lemma addThread_sel [simp]:
  "poolQ (addThread p) = poolQ p" "targetThrdCount (addThread p) = targetThrdCount p"
  "submitted (addThread p) = submitted p" "completed (addThread p) = completed p"
  "pool_held (addThread p) = pool_held p" "pool_open (addThread p) = pool_open p"
  "shutdownFlag (addThread p) = shutdownFlag p"
  by (simp_all add: addThread_def pool_held_def pool_open_def)

lemma members_ok_add: "members_ok p \<Longrightarrow> members_ok (addThread p)"
proof -
  assume p: "members_ok p"
  have "length (thrs p) \<notin> set (members p)" using p by (auto simp: members_ok_def)
  moreover have "thr_ok True newPoolEventThread" by (simp add: newPoolEventThread_def current_command_def)
  ultimately show ?thesis
    using p by (auto simp: members_ok_def addThread_def nth_append less_Suc_eq)
qed

lemma growPool_sel:
  "poolQ (growPool p) = poolQ p \<and> targetThrdCount (growPool p) = targetThrdCount p
   \<and> submitted (growPool p) = submitted p \<and> completed (growPool p) = completed p
   \<and> pool_held (growPool p) = pool_held p \<and> pool_open (growPool p) = pool_open p"
proof (induction p rule: growPool.induct)
  case (1 p)
  then show ?case
    by (cases "length (members p) < targetThrdCount p") (simp_all add: growPool.simps [of p])
qed

lemma growPool_members: "members_ok p \<Longrightarrow> members_ok (growPool p)"
proof (induction p rule: growPool.induct)
  case (1 p)
  then show ?case
    by (cases "length (members p) < targetThrdCount p")
      (simp_all add: growPool.simps [of p] members_ok_add)
qed

lemma growPool_length: "length (members (growPool p)) = max (targetThrdCount p) (length (members p))"
proof (induction p rule: growPool.induct)
  case (1 p)
  then show ?case
    by (cases "length (members p) < targetThrdCount p")
      (simp_all add: growPool.simps [of p] addThread_def)
qed

lemma newThreadPool_size: "\<exists>p. newThreadPool qi n q = Some p \<and> length (members p) = n"
  by (simp add: newThreadPool_def resizeWork_def growPool_length growPool_sel)

lemma newThreadPool_start:
  "\<exists>p. newThreadPool qi n q = Some p \<and> length (members p) = n \<and> submitted p = []"
  by (simp add: newThreadPool_def resizeWork_def growPool_length growPool_sel)

text \<open>When the loop created a thread, that thread is about to fetch a command.\<close>

lemma growPool_all_wait:
  assumes "members_ok p" "all_wait (growPool p)"
  shows "growPool p = p"
  using assms
proof (induction p rule: growPool.induct)
  case (1 p)
  show ?case
  proof (cases "length (members p) < targetThrdCount p")
    case True
    then have g: "growPool p = growPool (addThread p)" by (simp add: growPool.simps [of p])
    then have "growPool (addThread p) = addThread p" using 1 True members_ok_add by auto
    then have "all_wait (addThread p)" using 1(3) g by simp
    then show ?thesis by (simp add: all_wait_def addThread_def newPoolEventThread_def)
  next
    case False
    then show ?thesis by (simp add: growPool.simps [of p])
  qed
qed

lemma members_ok_card:
  "members_ok p \<Longrightarrow> length (members p) = length (thrs p) \<longleftrightarrow> set (members p) = {..<length (thrs p)}"
  by (metis card_lessThan card_subset_eq distinct_card finite_lessThan members_ok_def)

lemma held_cmds_simps [simp]:
  "thrSt th = THeld c \<Longrightarrow> held_cmds th = {#c#}" "thrSt th = TRun c \<Longrightarrow> held_cmds th = {#c#}"
  "thrSt th = TGet \<Longrightarrow> held_cmds th = {#}" "thrSt th = TWait \<Longrightarrow> held_cmds th = {#}"
  "thrSt th = TExit \<Longrightarrow> held_cmds th = {#}"
  by (simp_all add: held_cmds_def current_command_def)

lemma open_cmds_simps [simp]:
  "thrSt th = THeld c \<Longrightarrow> open_cmds th = {#}"
  "thrSt th = TRun c \<Longrightarrow> open_cmds th = (if commandFinishCalled th then {#} else {#c#})"
  "thrSt th = TGet \<Longrightarrow> open_cmds th = {#}" "thrSt th = TWait \<Longrightarrow> open_cmds th = {#}"
  "thrSt th = TExit \<Longrightarrow> open_cmds th = {#}"
  by (simp_all add: open_cmds_def)

lemma all_wait_no_open:
  assumes "members_ok p" "all_wait p"
  shows "pool_open p = {#}"
proof -
  have "open_cmds (thrs p ! t) = {#}" if "t < length (thrs p)" for t
    using assms that by (cases "t \<in> set (members p)")
      (auto simp: members_ok_def all_wait_def split: thrState.splits command.splits dest!: spec [of _ t])
  then have "sum_list (map open_cmds (thrs p)) = sum_list (map (\<lambda>_. {#}) (thrs p))"
    by (metis (no_types, lifting) in_set_conv_nth map_cong)
  then show ?thesis by (simp add: pool_open_def)
qed

section \<open>The pool's invariant\<close>

definition pool_base ::
    "('q \<Rightarrow> command multiset) \<Rightarrow> ('q \<Rightarrow> command multiset \<Rightarrow> bool) \<Rightarrow> 'q threadPool \<Rightarrow> bool" where
  "pool_base contents books p \<longleftrightarrow> members_ok p \<and> books (poolQ p) (pool_open p)
     \<and> mset (submitted p) = contents (poolQ p) + pool_held p + mset (completed p)"

definition pend_end :: "('q \<Rightarrow> command multiset) \<Rightarrow> 'q threadPool \<Rightarrow> bool" where
  "pend_end contents p \<longleftrightarrow> targetThrdCount p < length (members p) \<longrightarrow>
     MsgEnd \<in># contents (poolQ p) \<or> (\<exists>t \<in> set (members p). ending (thrs p ! t))"

text \<open>No thread waits in vain while the pool has to shrink, or as long as no thread has left it.\<close>

definition no_lost_wakeup :: "'q queueIface \<Rightarrow> ('q \<Rightarrow> command multiset) \<Rightarrow> 'q threadPool \<Rightarrow> bool" where
  "no_lost_wakeup qi contents p \<longleftrightarrow> all_wait p \<longrightarrow> \<not> q_ready qi (poolQ p) \<longrightarrow>
     targetThrdCount p < length (members p) \<or> length (members p) = length (thrs p) \<longrightarrow>
     contents (poolQ p) = {#}"

definition pool_inv :: "'q queueIface \<Rightarrow> ('q \<Rightarrow> command multiset) \<Rightarrow>
    ('q \<Rightarrow> command multiset \<Rightarrow> bool) \<Rightarrow> 'q threadPool \<Rightarrow> bool" where
  "pool_inv qi contents books p \<longleftrightarrow>
     pool_base contents books p \<and> pend_end contents p \<and> no_lost_wakeup qi contents p"

lemma pool_base_members: "pool_base contents books p \<Longrightarrow> members_ok p"
  by (simp add: pool_base_def)

lemma members_ok_thr:
  "members_ok p \<Longrightarrow> t < length (thrs p) \<Longrightarrow> thr_ok (t \<in> set (members p)) (thrs p ! t)"
  by (simp add: members_ok_def)

lemma member_bound: "members_ok p \<Longrightarrow> t \<in> set (members p) \<Longrightarrow> t < length (thrs p)"
  by (auto simp: members_ok_def)

text \<open>A thread that waits for, holds or runs a command and has not left belongs to the pool.\<close>

lemma active_is_member:
  assumes "members_ok p" "t < length (thrs p)"
    and "thrSt (thrs p ! t) = TWait \<or> thrSt (thrs p ! t) = THeld c \<or> loop (thrs p ! t)
      \<or> thrSt (thrs p ! t) = TRun MsgEnd"
  shows "t \<in> set (members p)"
  using members_ok_thr [OF assms(1,2)] assms(3) by (cases "t \<in> set (members p)") auto

lemma not_all_wait:
  "members_ok p \<Longrightarrow> t \<in> set (members p) \<Longrightarrow> thrSt (thrs p ! t) \<noteq> TWait \<Longrightarrow> no_lost_wakeup qi contents p"
  by (auto simp: no_lost_wakeup_def all_wait_def)

lemma pend_end_upd:
  assumes "pend_end contents p" "members_ok p" "t \<in> set (members p)"
    and "ending (thrs p ! t) \<Longrightarrow> ending (f (thrs p ! t))"
    and "MsgEnd \<in># contents (poolQ p) \<Longrightarrow> MsgEnd \<in># contents q \<or> ending (f (thrs p ! t))"
  shows "pend_end contents (upd_thr t f (p\<lparr> poolQ := q \<rparr>))"
proof -
  note lt = member_bound [OF assms(2,3)]
  show ?thesis
    unfolding pend_end_def
  proof (intro impI)
    assume "targetThrdCount (upd_thr t f (p\<lparr> poolQ := q \<rparr>)) < length (members (upd_thr t f (p\<lparr> poolQ := q \<rparr>)))"
    then have "MsgEnd \<in># contents (poolQ p) \<or> (\<exists>u \<in> set (members p). ending (thrs p ! u))"
      using assms(1) by (simp add: pend_end_def)
    then show "MsgEnd \<in># contents (poolQ (upd_thr t f (p\<lparr> poolQ := q \<rparr>)))
      \<or> (\<exists>u \<in> set (members (upd_thr t f (p\<lparr> poolQ := q \<rparr>))). ending (thrs (upd_thr t f (p\<lparr> poolQ := q \<rparr>)) ! u))"
      using assms(3-5) lt by simp metis
  qed
qed

lemma ending_simps [simp]:
  "thrSt th = THeld c \<Longrightarrow> ending th \<longleftrightarrow> c = MsgEnd" "thrSt th = TRun c \<Longrightarrow> ending th \<longleftrightarrow> c = MsgEnd"
  "thrSt th = TGet \<Longrightarrow> ending th \<longleftrightarrow> \<not> loop th" "thrSt th = TWait \<Longrightarrow> \<not> ending th"
  by (simp_all add: ending_def)

context command_queue
begin

lemma pool_queCmd_inv:
  assumes "pool_base contents books p" "pool_queCmd qi c p = Some p'"
  shows "pool_base contents books p'" "no_lost_wakeup qi contents p'"
    "contents (poolQ p') = add_mset c (contents (poolQ p))" "thrs p' = thrs p" "members p' = members p"
    "targetThrdCount p' = targetThrdCount p"
proof -
  from assms(2) obtain q where q: "q_queCmd qi c (poolQ p) = Some q"
    "p' = p\<lparr> poolQ := q, submitted := submitted p @ [c] \<rparr>"
    by (auto simp: pool_queCmd_def split: option.splits)
  have "books (poolQ p) (pool_open p)" using assms(1) by (simp add: pool_base_def)
  note l = que [OF this q(1)]
  have [simp]: "pool_open p' = pool_open p" "pool_held p' = pool_held p" "members_ok p' = members_ok p"
    using q(2) by simp_all
  show "pool_base contents books p'" using assms(1) l q(2) by (simp add: pool_base_def)
  show "no_lost_wakeup qi contents p'" using l q(2) by (simp add: no_lost_wakeup_def)
qed (use assms que in \<open>auto simp: pool_queCmd_def pool_base_def split: option.splits\<close>)

lemma pool_queCmd_ok: "pool_base contents books p \<Longrightarrow> \<exists>p'. pool_queCmd qi c p = Some p'"
  using que_ok [of "poolQ p" "pool_open p" c] by (auto simp: pool_base_def pool_queCmd_def)

lemma resizeWork_ok: "pool_base contents books p \<Longrightarrow> \<exists>p'. resizeWork qi p = Some p'"
proof -
  assume "pool_base contents books p"
  then have "pool_base contents books (growPool p)"
    by (simp add: pool_base_def growPool_sel growPool_members)
  then show ?thesis using pool_queCmd_ok by (simp add: resizeWork_def Let_def)
qed

lemma resizeWork_inv:
  assumes "pool_base contents books p" "resizeWork qi p = Some p'"
    and "all_wait p \<Longrightarrow> \<not> q_ready qi (poolQ p) \<Longrightarrow> length (members p) = length (thrs p) \<Longrightarrow>
      contents (poolQ p) = {#}"
  shows "pool_inv qi contents books p'"
proof -
  let ?g = "growPool p"
  have g: "pool_base contents books ?g"
    using assms(1) by (simp add: pool_base_def growPool_sel growPool_members)
  show ?thesis
  proof (cases "targetThrdCount ?g < length (members ?g)")
    case True
    then have "pool_queCmd qi MsgEnd ?g = Some p'" using assms(2) by (simp add: resizeWork_def Let_def)
    note l = pool_queCmd_inv [OF g this]
    then show ?thesis by (simp add: pool_inv_def pend_end_def)
  next
    case False
    then have p': "p' = ?g" using assms(2) by (simp add: resizeWork_def Let_def)
    have "no_lost_wakeup qi contents ?g"
      unfolding no_lost_wakeup_def
    proof (intro impI)
      assume a: "all_wait ?g" "\<not> q_ready qi (poolQ ?g)"
        "targetThrdCount ?g < length (members ?g) \<or> length (members ?g) = length (thrs ?g)"
      have "?g = p" using growPool_all_wait [OF pool_base_members [OF assms(1)] a(1)] .
      then show "contents (poolQ ?g) = {#}" using a False assms(3) by simp
    qed
    then show ?thesis using g p' False by (simp add: pool_inv_def pend_end_def)
  qed
qed

lemma resize_inv:
  assumes "pool_inv qi contents books p" "resize qi n p = Some p'"
  shows "pool_inv qi contents books p'"
  using assms unfolding resize_def
  by (intro resizeWork_inv [OF _ assms(2) [unfolded resize_def]])
    (auto simp: pool_inv_def pool_base_def no_lost_wakeup_def members_ok_def pool_held_def
       pool_open_def all_wait_def)

lemma newThreadPool_inv:
  assumes "books q {#}" "contents q = {#}" "newThreadPool qi n q = Some p"
  shows "pool_inv qi contents books p"
  using assms unfolding newThreadPool_def
  by (intro resizeWork_inv [OF _ assms(3) [unfolded newThreadPool_def]])
    (auto simp: pool_base_def members_ok_def pool_held_def pool_open_def)

text \<open>Removing a member whose finish has been reported, then resizing.\<close>

lemma release_inv:
  assumes "members_ok p" "t \<in> set (members p)" "thr_ok False (f (thrs p ! t))"
    and "books (poolQ p) (pool_open (upd_thr t f p))"
    and "mset (submitted p) = contents (poolQ p) + pool_held (upd_thr t f p) + mset (completed p)"
    and "release qi t (upd_thr t f p) = Some (r, p')"
  shows "pool_inv qi contents books p'"
proof -
  let ?u = "upd_thr t f p"
  let ?p = "?u\<lparr> members := remove1 t (members ?u), joinQ := joinQ ?u @ [t] \<rparr>"
  note lt = member_bound [OF assms(1,2)]
  have "distinct (members p)" using assms(1) by (simp add: members_ok_def)
  then have mem: "set (members ?p) = set (members p) - {t}" "distinct (members ?p)" by simp_all
  have ok: "members_ok ?p"
    using assms(1,3) mem lt unfolding members_ok_def by auto
  then have b: "pool_base contents books ?p"
    using assms(4,5) by (simp add: pool_base_def)
  have lt2: "length (members ?p) \<noteq> length (thrs ?p)"
    using members_ok_card [OF ok] mem lt by auto
  have "resizeWork qi ?p = Some p'"
    using assms(2,6) by (auto simp: release_def)
  from resizeWork_inv [OF b this] lt2 show ?thesis by blast
qed

lemma thread_getCmd_inv:
  assumes p: "pool_inv qi contents books p" and t: "t \<in> set (members p)"
    and st: "thrSt (thrs p ! t) = TGet \<and> loop (thrs p ! t) \<or> thrSt (thrs p ! t) = TWait"
  shows "pool_inv qi contents books (thread_getCmd qi t p)"
proof -
  have b: "members_ok p" "books (poolQ p) (pool_open p)"
    "mset (submitted p) = contents (poolQ p) + pool_held p + mset (completed p)"
    using p by (simp_all add: pool_inv_def pool_base_def)
  note lt = member_bound [OF b(1) t]
  note ok = members_ok_thr [OF b(1) lt]
  obtain r q where g: "q_getCmd qi (poolQ p) = (r, q)" by fastforce
  let ?f = "case r of Some c \<Rightarrow> (\<lambda>th. th\<lparr> thrSt := THeld c, commandFinishCalled := False \<rparr>)
    | None \<Rightarrow> (\<lambda>th. th\<lparr> thrSt := TWait \<rparr>)"
  let ?p = "upd_thr t ?f (p\<lparr> poolQ := q \<rparr>)"
  have p': "thread_getCmd qi t p = ?p" using g by (simp add: thread_getCmd_def split: option.splits)
  have sums: "pool_held ?p = pool_held p + (case r of Some c \<Rightarrow> {#c#} | None \<Rightarrow> {#})"
    "pool_open ?p = pool_open p"
    using pool_held_upd [of t "p\<lparr> poolQ := q \<rparr>" ?f] pool_open_upd [of t "p\<lparr> poolQ := q \<rparr>" ?f] lt st
    by (auto split: option.splits)
  have "books q (pool_open p)
    \<and> contents (poolQ p) = contents q + (case r of Some c \<Rightarrow> {#c#} | None \<Rightarrow> {#})"
  proof (cases r)
    case None
    then show ?thesis using get_none [OF b(2)] g by simp
  next
    case (Some c)
    then show ?thesis using get_some [OF b(2)] g by simp
  qed
  then have q: "books q (pool_open p)"
    "contents (poolQ p) = contents q + (case r of Some c \<Rightarrow> {#c#} | None \<Rightarrow> {#})" by simp_all
  have mok: "members_ok ?p"
    using members_ok_upd [of "p\<lparr> poolQ := q \<rparr>" t ?f] b(1) lt ok t by (cases r) (auto simp: current_command_def)
  have base: "pool_base contents books ?p"
    using b q mok sums by (simp add: pool_base_def ac_simps)
  have pend: "pend_end contents ?p"
    using p q(2) st unfolding pool_inv_def
    by (intro pend_end_upd [OF _ b(1) t]) (auto split: option.splits)
  have "no_lost_wakeup qi contents ?p"
  proof (cases r)
    case (Some c)
    then show ?thesis using not_all_wait [OF mok, of t qi contents] t lt by simp
  next
    case None
    show ?thesis unfolding no_lost_wakeup_def
    proof (intro impI)
      assume "all_wait ?p"
      then have "pool_open p = {#}" using all_wait_no_open [OF mok] sums(2) by simp
      then show "contents (poolQ ?p) = {#}" using get_idle [of "poolQ p" q] b(2) g None q(2) by simp
    qed
  qed
  then show ?thesis using base pend p' by (simp add: pool_inv_def)
qed

lemma thread_start_inv:
  assumes p: "pool_inv qi contents books p" and lt: "t < length (thrs p)"
    and st: "thrSt (thrs p ! t) = THeld c"
  shows "pool_inv qi contents books (thread_start qi t c p)"
proof -
  have b: "members_ok p" "books (poolQ p) (pool_open p)"
    "mset (submitted p) = contents (poolQ p) + pool_held p + mset (completed p)"
    using p by (simp_all add: pool_inv_def pool_base_def)
  have t: "t \<in> set (members p)" using active_is_member [OF b(1) lt] st by auto
  have fc: "\<not> commandFinishCalled (thrs p ! t)"
    using members_ok_thr [OF b(1) lt] t st by (simp add: current_command_def)
  let ?f = "\<lambda>th. th\<lparr> thrSt := TRun c \<rparr>"
  let ?pq = "p\<lparr> poolQ := q_commandStart qi c (poolQ p) \<rparr>"
  let ?p = "upd_thr t ?f ?pq"
  have sums: "pool_held ?p = pool_held p" "pool_open ?p = add_mset c (pool_open p)"
    using pool_held_upd [of t ?pq ?f] pool_open_upd [of t ?pq ?f] lt st fc by auto
  note q = start [OF b(2), of c]
  have mok: "members_ok ?p"
    using members_ok_upd [of ?pq t ?f] b(1) lt fc t members_ok_thr [OF b(1) lt]
    by (auto simp: current_command_def)
  have "pend_end contents ?p"
    using p q st unfolding pool_inv_def
    by (intro pend_end_upd [OF _ b(1) t]) auto
  moreover have "no_lost_wakeup qi contents ?p"
    using not_all_wait [OF mok, of t qi contents] t lt by simp
  ultimately show ?thesis
    using b q mok sums by (simp add: pool_inv_def pool_base_def thread_start_def)
qed

text \<open>The accounting after \<open>callCommandFinish\<close>, whatever the thread does next.\<close>

lemma thread_finish_inv:
  assumes p: "pool_inv qi contents books p" and lt: "t < length (thrs p)"
    and st: "thrSt (thrs p ! t) = TRun c"
  shows "pool_inv qi contents books (thread_finish qi t c p)"
proof -
  have b: "members_ok p" "books (poolQ p) (pool_open p)"
    "mset (submitted p) = contents (poolQ p) + pool_held p + mset (completed p)"
    using p by (simp_all add: pool_inv_def pool_base_def)
  let ?th = "thrs p ! t"
  note ok = members_ok_thr [OF b(1) lt]
  have fc: "commandFinishCalled ?th \<longleftrightarrow> t \<notin> set (members p)"
    using ok st by (cases "t \<in> set (members p)") (auto simp: current_command_def split: command.splits)
  let ?f = "\<lambda>th. th\<lparr> thrSt := TGet, commandFinishCalled := True, loop := c \<noteq> MsgEnd \<and> loop th \<rparr>"
  let ?q = "if commandFinishCalled ?th then poolQ p else q_commandFinish qi c (poolQ p)"
  let ?p = "upd_thr t ?f (p\<lparr> poolQ := ?q \<rparr>)"
  have eq: "thread_finish qi t c p = ?p\<lparr> completed := completed p @ [c] \<rparr>"
    using lt by (cases p; cases "thrs p ! t")
      (auto simp: thread_finish_def callCommandFinish_def upd_thr_def Let_def)
  have sums: "add_mset c (pool_held ?p) = pool_held p"
    "pool_open p = (if commandFinishCalled ?th then {#} else {#c#}) + pool_open ?p"
    using pool_held_upd [of t "p\<lparr> poolQ := ?q \<rparr>" ?f] pool_open_upd [of t "p\<lparr> poolQ := ?q \<rparr>" ?f] lt st
    by auto
  have q: "books ?q (pool_open ?p)" "contents ?q = contents (poolQ p)"
    using b(2) sums(2) finish [of "poolQ p" c "pool_open ?p"] by auto
  have mok: "members_ok ?p"
    using members_ok_upd [of "p\<lparr> poolQ := ?q \<rparr>" t ?f] b(1) lt ok st
    by (cases "t \<in> set (members p)") (auto simp: current_command_def)
  have base: "pool_base contents books (?p\<lparr> completed := completed p @ [c] \<rparr>)"
    using q mok b(3) sums(1) by (simp add: pool_base_def)
  show ?thesis
  proof (cases "t \<in> set (members p)")
    case True
    have "pend_end contents ?p"
      using p q st unfolding pool_inv_def by (intro pend_end_upd [OF _ b(1) True]) auto
    moreover have "no_lost_wakeup qi contents ?p"
      using not_all_wait [OF mok, of t qi contents] True lt by simp
    ultimately show ?thesis
      using base eq by (simp add: pool_inv_def pend_end_def no_lost_wakeup_def all_wait_def)
  next
    case False
    then have "?q = poolQ p" using fc by simp
    moreover have "\<forall>u \<in> set (members p). thrs ?p ! u = thrs p ! u" using False lt by auto
    ultimately show ?thesis
      using base eq p by (auto simp: pool_inv_def pend_end_def no_lost_wakeup_def all_wait_def)
  qed
qed

lemma thread_exit_inv:
  assumes p: "pool_inv qi contents books p" and lt: "t < length (thrs p)"
    and st: "thrSt (thrs p ! t) = TGet" "\<not> loop (thrs p ! t)" and e: "thread_exit qi t p = Some p'"
  shows "pool_inv qi contents books p'"
proof -
  have b: "members_ok p" "books (poolQ p) (pool_open p)"
    "mset (submitted p) = contents (poolQ p) + pool_held p + mset (completed p)"
    using p by (simp_all add: pool_inv_def pool_base_def)
  note ok = members_ok_thr [OF b(1) lt]
  show ?thesis
  proof (cases "t \<in> set (members p)")
    case True
    let ?f = "\<lambda>th. th\<lparr> thrSt := TExit, finishupOnce := True \<rparr>"
    have "map_option snd (release qi t (upd_thr t ?f p)) = Some p'"
      using e ok True lt by (simp add: thread_exit_def finishup_def upd_thr_def)
    then obtain r where r: "release qi t (upd_thr t ?f p) = Some (r, p')" by auto
    have "pool_held (upd_thr t ?f p) = pool_held p" "pool_open (upd_thr t ?f p) = pool_open p"
      using pool_held_upd [OF lt, of ?f] pool_open_upd [OF lt, of ?f] st by simp_all
    then show ?thesis
      using release_inv [OF b(1) True _ _ _ r] b st by simp
  next
    case False
    let ?f = "\<lambda>th. th\<lparr> thrSt := TExit \<rparr>"
    have p': "p' = upd_thr t ?f p"
      using e ok False lt by (simp add: thread_exit_def finishup_def)
    have "pool_held p' = pool_held p" "pool_open p' = pool_open p"
      using pool_held_upd [OF lt, of ?f] pool_open_upd [OF lt, of ?f] st p' by simp_all
    moreover have "\<forall>u \<in> set (members p). thrs p' ! u = thrs p ! u" using False lt p' by auto
    moreover have "members_ok p'" using members_ok_upd [OF b(1) lt, of ?f] ok False p' by simp
    ultimately show ?thesis
      using p p' by (auto simp: pool_inv_def pool_base_def pend_end_def no_lost_wakeup_def all_wait_def)
  qed
qed

lemma clear_loop_inv:
  assumes p: "pool_inv qi contents books p" and lt: "t < length (thrs p)"
  shows "pool_inv qi contents books (upd_thr t (\<lambda>th. th\<lparr> loop := False \<rparr>) p)"
proof -
  let ?f = "\<lambda>th. th\<lparr> loop := False \<rparr> :: eventThread"
  let ?p = "upd_thr t ?f p"
  have b: "members_ok p" using p by (simp add: pool_inv_def pool_base_def)
  note ok = members_ok_thr [OF b lt]
  have c: "held_cmds (?f th) = held_cmds th" "open_cmds (?f th) = open_cmds th"
    "current_command (?f th) = current_command th" for th
    by (simp_all add: held_cmds_def open_cmds_def current_command_def split: thrState.splits)
  have "pool_held ?p = pool_held p" "pool_open ?p = pool_open p"
    using pool_held_upd [OF lt, of ?f] pool_open_upd [OF lt, of ?f] by (simp_all add: c)
  moreover have "members_ok ?p"
    using ok by (intro members_ok_upd [OF b lt], cases "t \<in> set (members p)")
      (auto simp: c split: thrState.splits command.splits)
  moreover have "ending (thrs p ! u) \<Longrightarrow> ending (thrs ?p ! u)"
    and "thrSt (thrs ?p ! u) = thrSt (thrs p ! u)" for u
    using lt by (auto simp: ending_def split: thrState.splits)
  ultimately show ?thesis
    using p unfolding pool_inv_def pool_base_def pend_end_def no_lost_wakeup_def all_wait_def
    by auto
qed

lemma leavePool_inv:
  assumes p: "pool_inv qi contents books p" and lt: "t < length (thrs p)"
    and st: "thrSt (thrs p ! t) = TRun (CommandThreadPool n)"
    and e: "leavePool qi t (CommandThreadPool n) p = Some (r, p')"
  shows "pool_inv qi contents books p'"
proof -
  let ?c = "CommandThreadPool n"
  let ?l = "upd_thr t (\<lambda>th. th\<lparr> loop := False \<rparr>) p"
  have l: "pool_inv qi contents books ?l" by (rule clear_loop_inv [OF p lt])
  have b: "members_ok ?l" "books (poolQ ?l) (pool_open ?l)"
    "mset (submitted ?l) = contents (poolQ ?l) + pool_held ?l + mset (completed ?l)"
    using l by (simp_all add: pool_inv_def pool_base_def)
  have lt': "t < length (thrs ?l)" and st': "thrSt (thrs ?l ! t) = TRun ?c" "\<not> loop (thrs ?l ! t)"
    using lt st by simp_all
  note ok = members_ok_thr [OF b(1) lt']
  have fin: "finishup qi t (callCommandFinish qi t ?c ?l) = Some p'"
    using e st lt by (auto simp: leavePool_def Let_def current_command_def)
  show ?thesis
  proof (cases "t \<in> set (members ?l)")
    case True
    let ?f = "\<lambda>th. th\<lparr> commandFinishCalled := True, finishupOnce := True \<rparr>"
    let ?q = "?l\<lparr> poolQ := q_commandFinish qi ?c (poolQ ?l) \<rparr>"
    have fc: "\<not> commandFinishCalled (thrs ?l ! t)" "\<not> finishupOnce (thrs ?l ! t)"
      using ok True st'(1) by (simp_all add: current_command_def)
    then have "map_option snd (release qi t (upd_thr t ?f ?q)) = Some p'"
      using fin lt by (simp add: finishup_def callCommandFinish_def upd_thr_def)
    then obtain r where r: "release qi t (upd_thr t ?f ?q) = Some (r, p')" by auto
    have s: "pool_held (upd_thr t ?f ?q) = pool_held ?l" "pool_open ?l = add_mset ?c (pool_open (upd_thr t ?f ?q))"
      using pool_held_upd [of t ?q ?f] pool_open_upd [of t ?q ?f] lt' st' fc by simp_all
    have "books (poolQ ?q) (pool_open (upd_thr t ?f ?q))" "contents (poolQ ?q) = contents (poolQ ?l)"
      using finish [of "poolQ ?l" ?c "pool_open (upd_thr t ?f ?q)"] b(2) s(2) by simp_all
    moreover have "thr_ok False (?f (thrs ?q ! t))" using st' by simp
    moreover have "members_ok ?q" "t \<in> set (members ?q)" using b(1) True by simp_all
    ultimately show ?thesis
      using release_inv [of ?q t ?f r p'] b(3) s(1) r by simp
  next
    case False
    then have "p' = ?l" using fin ok st'(1) by (simp add: finishup_def callCommandFinish_def)
    then show ?thesis using l by simp
  qed
qed

lemma thread_step_inv:
  assumes "pool_inv qi contents books p" "t < length (thrs p)" "thread_step qi t p p'"
  shows "pool_inv qi contents books p'"
  using assms(3)
proof cases
  case ts_get
  then have "t \<in> set (members p)"
    using active_is_member [OF _ assms(2)] assms(1) by (auto simp: pool_inv_def pool_base_def)
  then show ?thesis using thread_getCmd_inv [OF assms(1)] ts_get by simp
next
  case ts_resume
  then have "t \<in> set (members p)"
    using active_is_member [OF _ assms(2)] assms(1) by (auto simp: pool_inv_def pool_base_def)
  then show ?thesis using thread_getCmd_inv [OF assms(1)] ts_resume by simp
qed (use assms(1,2) thread_start_inv thread_finish_inv thread_exit_inv in auto)

lemma pool_step_inv:
  assumes "pool_inv qi contents books p" "pool_step qi p p'"
  shows "pool_inv qi contents books p'"
  using assms(2)
proof cases
  case (ps_thread t)
  then show ?thesis using thread_step_inv assms(1) by blast
next
  case (ps_queCmd c)
  have "pool_base contents books p" using assms(1) by (simp add: pool_inv_def)
  note l = pool_queCmd_inv [OF this ps_queCmd(2)]
  have "pend_end contents p'" using assms(1) l by (auto simp: pool_inv_def pend_end_def)
  then show ?thesis using l by (simp add: pool_inv_def)
next
  case (ps_leave t n r)
  then show ?thesis using leavePool_inv assms(1) by blast
next
  case (ps_leave_late t c r)
  then have "p' = upd_thr t (\<lambda>th. th\<lparr> loop := False \<rparr>) p"
    by (auto simp: leavePool_def Let_def current_command_def split: if_splits)
  then show ?thesis using clear_loop_inv [OF assms(1) ps_leave_late(1)] by simp
next
  case (ps_resize n)
  then show ?thesis using resize_inv assms(1) by blast
next
  case ps_shutdown
  have "pool_inv qi contents books (p\<lparr> shutdownFlag := True \<rparr>)"
    using assms(1) by (simp add: pool_inv_def pool_base_def pend_end_def no_lost_wakeup_def all_wait_def)
  then show ?thesis using resize_inv ps_shutdown by (auto simp: shutdownPool_def)
qed

lemma reach_inv:
  assumes "books q0 {#}" "contents q0 = {#}" "pool_reach qi n q0 p"
  shows "pool_inv qi contents books p"
  using assms(3)
  by induction (auto intro: newThreadPool_inv [OF assms(1,2)] pool_step_inv)

text \<open>No command is lost, duplicated or invented.\<close>

lemma reach_conserves:
  assumes "books q0 {#}" "contents q0 = {#}" "pool_reach qi n q0 p"
  shows "mset (submitted p) = contents (poolQ p) + pool_held p + mset (completed p)"
  using reach_inv [OF assms] by (simp add: pool_inv_def pool_base_def)

text \<open>The queue's records of started commands are those of the threads.\<close>

lemma reach_books:
  assumes "books q0 {#}" "contents q0 = {#}" "pool_reach qi n q0 p"
  shows "books (poolQ p) (pool_open p)"
  using reach_inv [OF assms] by (simp add: pool_inv_def pool_base_def)

lemma finishup_ok:
  assumes "pool_inv qi contents books p" "t < length (thrs p)" "thrSt (thrs p ! t) = TGet"
    "\<not> loop (thrs p ! t)"
  shows "\<exists>p'. thread_exit qi t p = Some p'"
proof -
  have b: "pool_base contents books p" using assms(1) by (simp add: pool_inv_def)
  let ?f = "\<lambda>th. th\<lparr> thrSt := TExit, finishupOnce := True \<rparr>"
  let ?u = "upd_thr t ?f p"
  let ?r = "?u\<lparr> members := remove1 t (members ?u), joinQ := joinQ ?u @ [t] \<rparr>"
  show ?thesis
  proof (cases "t \<in> set (members p)")
    case True
    have m: "members_ok p" using b by (simp add: pool_base_def)
    have "distinct (members p)" using m by (simp add: members_ok_def)
    then have "members_ok ?r"
      using m assms(2-4) unfolding members_ok_def by auto
    moreover have "pool_held ?r = pool_held p" "pool_open ?r = pool_open p"
      using pool_held_upd [OF assms(2), of ?f] pool_open_upd [OF assms(2), of ?f] assms(3) by simp_all
    ultimately have "pool_base contents books ?r" using b by (simp add: pool_base_def)
    then obtain p' where "resizeWork qi ?r = Some p'" using resizeWork_ok by blast
    then have "release qi t ?u = Some (True, p')" using True by (simp add: release_def)
    moreover have "\<not> finishupOnce (thrs p ! t)" using members_ok_thr [OF m assms(2)] True by simp
    ultimately show ?thesis using assms(2) by (simp add: thread_exit_def finishup_def upd_thr_def)
  next
    case False
    then show ?thesis using b assms(2) members_ok_thr [of p t]
      by (simp add: pool_base_def thread_exit_def finishup_def)
  qed
qed

text \<open>A member that is not blocked in \<open>getCmd\<close> can always take its next step.\<close>

lemma member_can_step:
  assumes "pool_inv qi contents books p" "t \<in> set (members p)"
    "thrSt (thrs p ! t) \<noteq> TWait \<or> q_ready qi (poolQ p)"
  shows "\<exists>p'. thread_step qi t p p'"
proof -
  have m: "members_ok p" using assms(1) by (simp add: pool_inv_def pool_base_def)
  note lt = member_bound [OF m assms(2)]
  show ?thesis
  proof (cases "thrSt (thrs p ! t)")
    case TGet
    then show ?thesis using finishup_ok [OF assms(1) lt] by (cases "loop (thrs p ! t)") (auto intro: thread_step.intros)
  next
    case TExit
    then show ?thesis using members_ok_thr [OF m lt] assms(2) by simp
  qed (use assms(3) in \<open>auto intro: thread_step.intros\<close>)
qed

text \<open>While the pool is larger than its target some thread of it can run.\<close>

lemma shrink_not_stuck:
  assumes inv: "pool_inv qi contents books p" and "targetThrdCount p < length (members p)"
  shows "\<exists>t \<in> set (members p). \<exists>p'. thread_step qi t p p'"
proof (rule ccontr)
  assume no: "\<not> ?thesis"
  have m: "members_ok p" using inv by (simp add: pool_inv_def pool_base_def)
  have w: "\<forall>t \<in> set (members p). thrSt (thrs p ! t) = TWait" "\<not> q_ready qi (poolQ p)"
  proof -
    show "\<forall>t \<in> set (members p). thrSt (thrs p ! t) = TWait" using member_can_step [OF inv] no by blast
    have "members p \<noteq> []" using assms(2) by auto
    then show "\<not> q_ready qi (poolQ p)" using member_can_step [OF inv] no hd_in_set by blast
  qed
  then have "contents (poolQ p) = {#}"
    using inv assms(2) by (simp add: pool_inv_def no_lost_wakeup_def all_wait_def)
  moreover have "\<not> ending (thrs p ! t)" if "t \<in> set (members p)" for t using w that by simp
  ultimately show False using inv assms(2) by (auto simp: pool_inv_def pend_end_def)
qed

text \<open>As long as no thread has left the pool, commands wait only while some thread can run.\<close>

lemma pending_not_stuck:
  assumes inv: "pool_inv qi contents books p"
    and "contents (poolQ p) \<noteq> {#}" "members p \<noteq> []" "length (members p) = length (thrs p)"
  shows "\<exists>t \<in> set (members p). \<exists>p'. thread_step qi t p p'"
proof (rule ccontr)
  assume no: "\<not> ?thesis"
  have "\<forall>t \<in> set (members p). thrSt (thrs p ! t) = TWait" using member_can_step [OF inv] no by blast
  moreover have "\<not> q_ready qi (poolQ p)" using member_can_step [OF inv] no hd_in_set [OF assms(3)] by blast
  ultimately show False
    using inv assms(2,4) by (simp add: pool_inv_def no_lost_wakeup_def all_wait_def)
qed

end

section \<open>The base queue keeps the promise\<close>

lemma cq_if_sel [simp]:
  "q_queCmd cq_if c q = Some (q @ [c])" "q_getCmd cq_if = cq_getCmd" "q_ready cq_if q \<longleftrightarrow> q \<noteq> []"
  "q_commandStart cq_if c q = q" "q_commandFinish cq_if c q = q"
  by (simp_all add: cq_if_def cq_queCmd_def)

lemma cq_getCmd_cases: "cq_getCmd q = (r, q') \<Longrightarrow> q = (case r of None \<Rightarrow> [] | Some c \<Rightarrow> c # q') \<and> (r = None \<longrightarrow> q' = [])"
  by (cases q) auto

interpretation cq: command_queue cq_if mset "\<lambda>_ _. True"
  by unfold_locales (auto dest: cq_getCmd_cases)

end
