(* ===== verification/Qdisp_Pool.thy ===== *)
theory Qdisp_Pool
  imports Thread_Pool
begin

text \<open>
  The czar's priority queue and message pool (\<open>qdisp/QdispPool.h\<close>, \<open>qdisp/QdispPool.cc\<close>):
  \<open>PriorityQueue\<close> as a \<open>util::CommandQueue\<close> with one first-in first-out queue and one counter of
  running commands per priority. The interpretation \<open>pq\<close> shows that it keeps the contract the
  thread pool relies on; the rest is about which command is handed out and in which order.
\<close>

section \<open>The priority queue\<close>

record priQ =
  priQ_priority :: int
  minRunning :: int
  maxRunning :: int
  running :: int
  qu :: "command list"

record priorityQueue =
  queues :: "(int, priQ) omap"
  defaultPriority :: int
  shuttingDown :: bool
  changed :: bool

definition newPriQ :: "int \<Rightarrow> int \<Rightarrow> int \<Rightarrow> priQ" where
  "newPriQ p mn mx = \<lparr> priQ_priority = p, minRunning = mn, maxRunning = mx, running = 0, qu = [] \<rparr>"

definition newPriorityQueue :: "int \<Rightarrow> int \<Rightarrow> int \<Rightarrow> priorityQueue" where
  "newPriorityQueue d mn mx =
     \<lparr> queues = omap_set d (newPriQ d mn mx) [], defaultPriority = d, shuttingDown = False,
       changed = False \<rparr>"

text \<open>\<open>map::insert\<close>: an existing queue of that priority is kept and the call fails.\<close>

definition addPriQueue :: "int \<Rightarrow> int \<Rightarrow> int \<Rightarrow> priorityQueue \<Rightarrow> bool \<times> priorityQueue" where
  "addPriQueue p mn mx q =
     (case omap_find (queues q) p of
        Some _ \<Rightarrow> (False, q)
      | None \<Rightarrow> (True, q\<lparr> queues := omap_set p (newPriQ p mn mx) (queues q) \<rparr>))"

definition putAt :: "int \<Rightarrow> command \<Rightarrow> priorityQueue \<Rightarrow> priorityQueue option" where
  "putAt k c q =
     (case omap_find (queues q) k of
        None \<Rightarrow> None
      | Some b \<Rightarrow> Some (q\<lparr> queues := omap_set k (b\<lparr> qu := qu b @ [c] \<rparr>) (queues q), changed := True \<rparr>))"

text \<open>
  The two overloads of \<open>queCmd\<close>. A priority without a queue falls back to the default queue; the
  command keeps the priority it was given. \<open>None\<close> is the \<open>Bug\<close> thrown without a default queue.
\<close>

fun pq_queCmd :: "command \<Rightarrow> priorityQueue \<Rightarrow> priorityQueue option" where
  "pq_queCmd (PriorityCommand n p) q =
     (case omap_find (queues q) p of
        Some _ \<Rightarrow> putAt p (PriorityCommand n p) q
      | None \<Rightarrow> putAt (defaultPriority q) (PriorityCommand n p) q)"
| "pq_queCmd c q = putAt (defaultPriority q) c q"

text \<open>One of the two loops of \<open>getCmd\<close> over the queues, highest priority first.\<close>

fun scanQueues :: "(priQ \<Rightarrow> bool) \<Rightarrow> (int, priQ) omap \<Rightarrow> (command \<times> (int, priQ) omap) option" where
  "scanQueues P [] = None"
| "scanQueues P ((k, b) # qs) =
     (case (if P b then qu b else []) of
        c # cs \<Rightarrow> Some (c, (k, b\<lparr> qu := cs \<rparr>) # qs)
      | [] \<Rightarrow> map_option (\<lambda>(c, qs'). (c, (k, b) # qs')) (scanQueues P qs))"

definition below_min :: "priQ \<Rightarrow> bool" where "below_min b \<longleftrightarrow> running b < minRunning b"

definition below_max :: "priQ \<Rightarrow> bool" where "below_max b \<longleftrightarrow> running b < maxRunning b"

text \<open>The body of the loop of \<open>getCmd\<close>; the caller waits for \<open>_changed\<close> when it yields \<open>None\<close>.\<close>

definition pq_getCmd :: "priorityQueue \<Rightarrow> command option \<times> priorityQueue" where
  "pq_getCmd q =
     (let q = q\<lparr> changed := False \<rparr>
      in case (if shuttingDown q then None else scanQueues below_min (queues q)) of
           Some (c, qs) \<Rightarrow> (Some c, q\<lparr> queues := qs \<rparr>)
         | None \<Rightarrow>
             (case scanQueues below_max (queues q) of
                Some (c, qs) \<Rightarrow> (Some c, q\<lparr> queues := qs \<rparr>)
              | None \<Rightarrow> (None, q)))"

definition prepareShutdown :: "priorityQueue \<Rightarrow> priorityQueue" where
  "prepareShutdown q = q\<lparr> shuttingDown := True \<rparr>"

fun cmdPriority :: "int \<Rightarrow> command \<Rightarrow> int" where
  "cmdPriority d (PriorityCommand n p) = p"
| "cmdPriority d c = d"

definition incrDecrRunningCount :: "command \<Rightarrow> int \<Rightarrow> priorityQueue \<Rightarrow> priorityQueue" where
  "incrDecrRunningCount c i q =
     (let k = cmdPriority (defaultPriority q) c
      in case omap_find (queues q) k of
           None \<Rightarrow> q
         | Some b \<Rightarrow> q\<lparr> queues := omap_set k (b\<lparr> running := running b + i \<rparr>) (queues q) \<rparr>)"

definition pq_commandStart :: "command \<Rightarrow> priorityQueue \<Rightarrow> priorityQueue" where
  "pq_commandStart c q = incrDecrRunningCount c 1 q"

definition pq_commandFinish :: "command \<Rightarrow> priorityQueue \<Rightarrow> priorityQueue" where
  "pq_commandFinish c q = incrDecrRunningCount c (- 1) q"

definition pq_if :: "priorityQueue queueIface" where
  "pq_if = \<lparr> q_queCmd = pq_queCmd, q_getCmd = pq_getCmd, q_ready = changed,
     q_commandStart = pq_commandStart, q_commandFinish = pq_commandFinish \<rparr>"

text \<open>\<open>QdispPool::_setup\<close>: the queue and the number of threads of the two configurations.\<close>

definition setup_limits :: "bool \<Rightarrow> (int \<times> int \<times> int) list" where
  "setup_limits unitTest =
     (if unitTest
      then [(0, 1, 3), (1, 1, 3), (2, 1, 3), (3, 1, 3), (4, 1, 3), (5, 1, 3), (6, 1, 3), (7, 1, 3)]
      else [(0, 1, 90), (1, 1, 50), (2, 6, 850), (3, 7, 250), (4, 6, 150), (5, 6, 500), (6, 6, 100),
            (7, 6, 20)])"

definition setup_queue :: "bool \<Rightarrow> priorityQueue" where
  "setup_queue unitTest =
     fold (\<lambda>(p, mn, mx) q. snd (addPriQueue p mn mx q)) (setup_limits unitTest) (newPriorityQueue 100 1 5)"

definition setup_threads :: "bool \<Rightarrow> nat" where
  "setup_threads unitTest = (if unitTest then 50 else 1200)"

section \<open>Which command is handed out\<close>

lemma scanQueues_None:
  "scanQueues P qs = None \<longleftrightarrow> (\<forall>(k, b) \<in> set qs. P b \<longrightarrow> qu b = [])"
  by (induction qs) (auto split: list.splits)

text \<open>The first queue in priority order that qualifies and is not empty gives up its front.\<close>

lemma scanQueues_Some:
  assumes "omap_wf qs" "scanQueues P qs = Some (c, qs')"
  obtains k b cs where "omap_find qs k = Some b" "P b" "qu b = c # cs"
    "qs' = omap_set k (b\<lparr> qu := cs \<rparr>) qs"
    "\<And>j b'. omap_find qs j = Some b' \<Longrightarrow> j < k \<Longrightarrow> P b' \<Longrightarrow> qu b' = []"
  using assms
proof (induction qs arbitrary: qs' thesis)
  case (Cons x qs)
  obtain k b where x: "x = (k, b)" by (cases x)
  have below: "k < j" if "omap_find qs j = Some b'" for j b'
    using that Cons.prems(2) omap_find_key [of qs j] x by force
  show ?case
  proof (cases "if P b then qu b else []")
    case (Cons c' cs)
    then have "P b" "qu b = c # cs" "qs' = (k, b\<lparr> qu := cs \<rparr>) # qs"
      using Cons.prems(3) x by (auto split: if_splits)
    then show ?thesis
      using below x by (intro Cons.prems(1) [of k b cs]) (auto split: if_splits dest: below)
  next
    case Nil
    then obtain qs1 where s: "scanQueues P qs = Some (c, qs1)" "qs' = (k, b) # qs1"
      using Cons.prems(3) x by auto
    have wf: "omap_wf qs" using Cons.prems(2) x by simp
    from Cons.IH [OF _ wf s(1)] obtain k' b' cs where h: "omap_find qs k' = Some b'" "P b'" "qu b' = c # cs"
      "qs1 = omap_set k' (b'\<lparr> qu := cs \<rparr>) qs"
      "\<And>j b''. omap_find qs j = Some b'' \<Longrightarrow> j < k' \<Longrightarrow> P b'' \<Longrightarrow> qu b'' = []" by blast
    have "k < k'" using h(1) omap_find_key [of qs k'] Cons.prems(2) x by auto
    then show ?thesis
      using h s(2) x Nil by (intro Cons.prems(1) [of k' b' cs]) (auto split: if_splits)
  qed
qed simp

definition pq_wf :: "priorityQueue \<Rightarrow> bool" where
  "pq_wf q \<longleftrightarrow> omap_wf (queues q) \<and> omap_find (queues q) (defaultPriority q) \<noteq> None"

text \<open>The choice \<open>getCmd\<close> makes, as a relation between the queue and the chosen priority.\<close>

definition served_from :: "priorityQueue \<Rightarrow> int \<Rightarrow> bool" where
  "served_from q k \<longleftrightarrow>
     (\<exists>b. omap_find (queues q) k = Some b \<and> qu b \<noteq> [] \<and>
        (let starving = (\<lambda>j. \<exists>b'. omap_find (queues q) j = Some b' \<and> below_min b' \<and> qu b' \<noteq> []);
             runnable = (\<lambda>j. \<exists>b'. omap_find (queues q) j = Some b' \<and> below_max b' \<and> qu b' \<noteq> [])
         in if \<not> shuttingDown q \<and> (\<exists>j. starving j)
            then starving k \<and> (\<forall>j. starving j \<longrightarrow> k \<le> j)
            else runnable k \<and> (\<forall>j. runnable j \<longrightarrow> k \<le> j)))"

lemma pq_getCmd_unfold:
  "pq_getCmd q =
     (case (if shuttingDown q then None else scanQueues below_min (queues q)) of
        Some (c, qs) \<Rightarrow> (Some c, q\<lparr> changed := False, queues := qs \<rparr>)
      | None \<Rightarrow>
          (case scanQueues below_max (queues q) of
             Some (c, qs) \<Rightarrow> (Some c, q\<lparr> changed := False, queues := qs \<rparr>)
           | None \<Rightarrow> (None, q\<lparr> changed := False \<rparr>)))"
  by (cases "shuttingDown q"; cases "scanQueues below_min (queues q)"; cases "scanQueues below_max (queues q)")
    (auto simp add: pq_getCmd_def Let_def)

lemma pq_getCmd_Some:
  assumes "omap_wf (queues q)" "pq_getCmd q = (Some c, q')"
  obtains k b cs where "omap_find (queues q) k = Some b" "qu b = c # cs" "served_from q k"
    "q' = q\<lparr> changed := False, queues := omap_set k (b\<lparr> qu := cs \<rparr>) (queues q) \<rparr>"
proof (cases "if shuttingDown q then None else scanQueues below_min (queues q)")
  case None
  then obtain qs where s: "scanQueues below_max (queues q) = Some (c, qs)"
    "q' = q\<lparr> changed := False, queues := qs \<rparr>"
    using assms(2) by (auto simp: pq_getCmd_unfold split: option.splits)
  from scanQueues_Some [OF assms(1) s(1)] obtain k b cs where h: "omap_find (queues q) k = Some b"
    "below_max b" "qu b = c # cs" "qs = omap_set k (b\<lparr> qu := cs \<rparr>) (queues q)"
    "\<And>j b'. omap_find (queues q) j = Some b' \<Longrightarrow> j < k \<Longrightarrow> below_max b' \<Longrightarrow> qu b' = []" by blast
  have "shuttingDown q \<or> (\<forall>j b'. omap_find (queues q) j = Some b' \<longrightarrow> below_min b' \<longrightarrow> qu b' = [])"
    using None by (auto simp: scanQueues_None split: if_splits dest!: omap_find_in_set)
  then have "served_from q k"
    using h(1-3) h(5) unfolding served_from_def Let_def by (auto simp: not_less [symmetric])
  then show ?thesis using that h s(2) by blast
next
  case (Some r)
  then obtain qs where s: "\<not> shuttingDown q" "scanQueues below_min (queues q) = Some (c, qs)"
    "q' = q\<lparr> changed := False, queues := qs \<rparr>"
    using assms(2) by (cases r) (auto simp: pq_getCmd_unfold split: if_splits)
  from scanQueues_Some [OF assms(1) s(2)] obtain k b cs where h: "omap_find (queues q) k = Some b"
    "below_min b" "qu b = c # cs" "qs = omap_set k (b\<lparr> qu := cs \<rparr>) (queues q)"
    "\<And>j b'. omap_find (queues q) j = Some b' \<Longrightarrow> j < k \<Longrightarrow> below_min b' \<Longrightarrow> qu b' = []" by blast
  have "served_from q k"
    using h(1-3) h(5) s(1) unfolding served_from_def Let_def by (auto simp: not_less [symmetric])
  then show ?thesis using that h s(3) by blast
qed

lemma omap_find_iff: "omap_wf m \<Longrightarrow> omap_find m k = Some v \<longleftrightarrow> (k, v) \<in> set m"
  using omap_find_in_set omap_in_set_find by metis

lemma pq_getCmd_None:
  assumes "omap_wf (queues q)"
  shows "fst (pq_getCmd q) = None \<longleftrightarrow>
    (\<forall>k b. omap_find (queues q) k = Some b \<longrightarrow> qu b \<noteq> [] \<longrightarrow>
       \<not> below_max b \<and> (shuttingDown q \<or> \<not> below_min b))"
proof -
  have "scanQueues P (queues q) = None \<longleftrightarrow>
    (\<forall>k b. omap_find (queues q) k = Some b \<longrightarrow> P b \<longrightarrow> qu b = [])" for P
    by (auto simp: scanQueues_None omap_find_iff [OF assms])
  note n = this [of below_min] this [of below_max]
  have "fst (pq_getCmd q) = None \<longleftrightarrow> (shuttingDown q \<or> scanQueues below_min (queues q) = None)
    \<and> scanQueues below_max (queues q) = None"
    by (auto simp: pq_getCmd_unfold split: option.splits)
  then show ?thesis unfolding n by blast
qed

lemma pq_getCmd_unchanged: "pq_getCmd q = (None, q') \<Longrightarrow> q' = q\<lparr> changed := False \<rparr>"
  by (auto simp: pq_getCmd_unfold split: option.splits)

section \<open>The contract of the thread pool\<close>

definition pq_contents :: "priorityQueue \<Rightarrow> command multiset" where
  "pq_contents q = omap_sum (\<lambda>b. mset (qu b)) (queues q)"

definition running_as :: "int \<Rightarrow> int \<Rightarrow> command multiset \<Rightarrow> int" where
  "running_as d k R = int (size (filter_mset (\<lambda>c. cmdPriority d c = k) R))"

text \<open>
  Every counter of running commands is the number of commands of that priority whose start has
  been reported and whose finish has not.
\<close>

definition pq_books :: "priorityQueue \<Rightarrow> command multiset \<Rightarrow> bool" where
  "pq_books q R \<longleftrightarrow> pq_wf q \<and> (\<forall>k b. omap_find (queues q) k = Some b \<longrightarrow>
     0 < maxRunning b \<and> running b = running_as (defaultPriority q) k R)"

lemma running_as_add [simp]:
  "running_as d k (add_mset c R) = running_as d k R + (if cmdPriority d c = k then 1 else 0)"
  by (simp add: running_as_def)

lemma running_as_empty [simp]: "running_as d k {#} = 0"
  by (simp add: running_as_def)

lemma pq_books_find:
  "pq_books q R \<Longrightarrow> omap_find (queues q) k = Some b \<Longrightarrow>
   omap_wf (queues q) \<and> 0 < maxRunning b \<and> running b = running_as (defaultPriority q) k R"
  by (simp add: pq_books_def pq_wf_def)

text \<open>Replacing the commands queued at one priority.\<close>

lemma pq_books_qu:
  assumes "pq_books q R" "omap_find (queues q) k = Some b"
  shows "pq_books (q\<lparr> queues := omap_set k (b\<lparr> qu := cs \<rparr>) (queues q), changed := x \<rparr>) R"
  using assms by (auto simp: pq_books_def pq_wf_def)

lemma pq_contents_qu:
  assumes "pq_books q R" "omap_find (queues q) k = Some b"
  shows "pq_contents (q\<lparr> queues := omap_set k (b\<lparr> qu := cs \<rparr>) (queues q), changed := x \<rparr>) + mset (qu b)
    = pq_contents q + mset cs"
  using omap_sum_set [of "queues q" k b "\<lambda>b. mset (qu b)" "b\<lparr> qu := cs \<rparr>"] pq_books_find [OF assms] assms(2)
  by (simp add: pq_contents_def)

lemma putAt_contract:
  assumes "pq_books q R" "putAt k c q = Some q'"
  shows "pq_books q' R \<and> pq_contents q' = add_mset c (pq_contents q) \<and> changed q'"
proof -
  obtain b where b: "omap_find (queues q) k = Some b"
    "q' = q\<lparr> queues := omap_set k (b\<lparr> qu := qu b @ [c] \<rparr>) (queues q), changed := True \<rparr>"
    using assms(2) by (auto simp: putAt_def split: option.splits)
  show ?thesis
    using pq_books_qu [OF assms(1) b(1)] pq_contents_qu [OF assms(1) b(1), of True "qu b @ [c]"] b(2)
    by (simp add: union_assoc [symmetric])
qed

definition queue_of :: "priorityQueue \<Rightarrow> command \<Rightarrow> int" where
  "queue_of q c = (let k = cmdPriority (defaultPriority q) c
     in if omap_find (queues q) k = None then defaultPriority q else k)"

lemma pq_queCmd_putAt: "pq_queCmd c q = putAt (queue_of q c) c q"
  by (cases c) (auto simp: queue_of_def Let_def putAt_def split: option.splits)

lemma queue_of_found: "pq_wf q \<Longrightarrow> omap_find (queues q) (queue_of q c) \<noteq> None"
  by (simp add: pq_wf_def queue_of_def Let_def)

lemma pq_queCmd_ok: "pq_wf q \<Longrightarrow> \<exists>q'. pq_queCmd c q = Some q'"
  using queue_of_found [of q c] by (auto simp: pq_queCmd_putAt putAt_def)

lemma pq_get_contract:
  assumes "pq_books q R" "pq_getCmd q = (Some c, q')"
  shows "pq_books q' R \<and> pq_contents q = add_mset c (pq_contents q')"
proof -
  have "omap_wf (queues q)" using assms(1) by (simp add: pq_books_def pq_wf_def)
  from pq_getCmd_Some [OF this assms(2)] obtain k b cs where h: "omap_find (queues q) k = Some b"
    "qu b = c # cs" "q' = q\<lparr> changed := False, queues := omap_set k (b\<lparr> qu := cs \<rparr>) (queues q) \<rparr>" by metis
  then have q': "q' = q\<lparr> queues := omap_set k (b\<lparr> qu := cs \<rparr>) (queues q), changed := False \<rparr>"
    by (cases q) simp
  show ?thesis
    using pq_books_qu [OF assms(1) h(1)] pq_contents_qu [OF assms(1) h(1), of False cs] q' h(2)
    by (simp add: add_mset_commute union_mset_add_mset_right)
qed

lemma pq_get_idle:
  assumes "pq_books q {#}" "pq_getCmd q = (None, q')"
  shows "pq_contents q = {#}"
proof -
  have wf: "omap_wf (queues q)" using assms(1) by (simp add: pq_books_def pq_wf_def)
  have "fst (pq_getCmd q) = None" using assms(2) by simp
  then have "qu b = []" if "omap_find (queues q) k = Some b" for k b
    using pq_getCmd_None [OF wf] that pq_books_find [OF assms(1) that] by (fastforce simp: below_max_def)
  then show ?thesis
    unfolding pq_contents_def using omap_in_set_find [OF wf] by (intro omap_sum_zero, simp) blast
qed

lemma incrDecr_contract:
  assumes "pq_books q R" "\<And>k. running_as (defaultPriority q) k R' =
    running_as (defaultPriority q) k R + (if cmdPriority (defaultPriority q) c = k then i else 0)"
  shows "pq_books (incrDecrRunningCount c i q) R'
    \<and> pq_contents (incrDecrRunningCount c i q) = pq_contents q"
proof (cases "omap_find (queues q) (cmdPriority (defaultPriority q) c)")
  case None
  then show ?thesis using assms by (fastforce simp: incrDecrRunningCount_def Let_def pq_books_def)
next
  case (Some b)
  let ?k = "cmdPriority (defaultPriority q) c"
  have "omap_sum (\<lambda>b. mset (qu b)) (omap_set ?k (b\<lparr> running := running b + i \<rparr>) (queues q)) = pq_contents q"
    using omap_sum_set [of "queues q" ?k b "\<lambda>b. mset (qu b)" "b\<lparr> running := running b + i \<rparr>"]
      pq_books_find [OF assms(1) Some] Some by (simp add: pq_contents_def)
  then show ?thesis
    using assms Some by (auto simp: incrDecrRunningCount_def Let_def pq_books_def pq_wf_def pq_contents_def)
qed

lemma pq_if_sel [simp]:
  "q_queCmd pq_if = pq_queCmd" "q_getCmd pq_if = pq_getCmd" "q_ready pq_if = changed"
  "q_commandStart pq_if = pq_commandStart" "q_commandFinish pq_if = pq_commandFinish"
  by (simp_all add: pq_if_def)

interpretation pq: command_queue pq_if pq_contents pq_books
proof
  fix q R c q'
  assume b: "pq_books q R"
  show "\<exists>q'. q_queCmd pq_if c q = Some q'" using pq_queCmd_ok b by (simp add: pq_books_def)
  show "q_queCmd pq_if c q = Some q' \<Longrightarrow>
    pq_books q' R \<and> pq_contents q' = add_mset c (pq_contents q) \<and> q_ready pq_if q'"
    using putAt_contract [OF b] by (simp add: pq_queCmd_putAt)
  show "q_getCmd pq_if q = (Some c, q') \<Longrightarrow> pq_books q' R \<and> pq_contents q = add_mset c (pq_contents q')"
    using pq_get_contract [OF b] by simp
  show "q_getCmd pq_if q = (None, q') \<Longrightarrow> pq_books q' R \<and> pq_contents q' = pq_contents q"
    using pq_getCmd_unchanged [of q q'] b by (simp add: pq_books_def pq_wf_def pq_contents_def)
  show "pq_books (q_commandStart pq_if c q) (add_mset c R)
    \<and> pq_contents (q_commandStart pq_if c q) = pq_contents q"
    unfolding pq_if_sel pq_commandStart_def by (rule incrDecr_contract [OF b]) simp
next
  fix q q' show "pq_books q {#} \<Longrightarrow> q_getCmd pq_if q = (None, q') \<Longrightarrow> pq_contents q = {#}"
    using pq_get_idle by simp
next
  fix q c R assume b: "pq_books q (add_mset c R)"
  show "pq_books (q_commandFinish pq_if c q) R \<and> pq_contents (q_commandFinish pq_if c q) = pq_contents q"
    unfolding pq_if_sel pq_commandFinish_def by (rule incrDecr_contract [OF b]) simp
qed

lemma setup_queue_books: "pq_books (setup_queue u) {#}" "pq_contents (setup_queue u) = {#}"
proof -
  have "queues (setup_queue u) = map (\<lambda>(p, mn, mx). (p, newPriQ p mn mx)) (setup_limits u @ [(100, 1, 5)])
    \<and> defaultPriority (setup_queue u) = 100"
    by (cases u) (simp_all add: setup_queue_def setup_limits_def newPriorityQueue_def addPriQueue_def)
  then show "pq_books (setup_queue u) {#}" "pq_contents (setup_queue u) = {#}"
    by (cases u; auto simp: pq_books_def pq_wf_def setup_limits_def newPriQ_def pq_contents_def split: if_splits)+
qed

section \<open>The pool\<close>

text \<open>
  The runs of the message pool: those of its thread pool, and \<open>prepareShutdown\<close>, which \<open>QdispPool::shutdownPool\<close> calls on the queue
  before it shuts the thread pool down.
\<close>

inductive qdisp_reach :: "nat \<Rightarrow> priorityQueue \<Rightarrow> priorityQueue threadPool \<Rightarrow> bool" for n q0 where
  qd_new: "newThreadPool pq_if n q0 = Some p \<Longrightarrow> qdisp_reach n q0 p"
| qd_step: "qdisp_reach n q0 p \<Longrightarrow> pool_step pq_if p p' \<Longrightarrow> qdisp_reach n q0 p'"
| qd_prepare: "qdisp_reach n q0 p \<Longrightarrow> qdisp_reach n q0 (p\<lparr> poolQ := prepareShutdown (poolQ p) \<rparr>)"

lemma prepareShutdown_contract [simp]:
  "pq_books (prepareShutdown q) R = pq_books q R" "pq_contents (prepareShutdown q) = pq_contents q" "changed (prepareShutdown q) = changed q"
  by (simp_all add: prepareShutdown_def pq_books_def pq_wf_def pq_contents_def)

lemma qdisp_reach_inv:
  assumes "pq_books q0 {#}" "pq_contents q0 = {#}" "qdisp_reach n q0 p"
  shows "pool_inv pq_if pq_contents pq_books p"
  using assms(3)
proof induction
  case (qd_new p)
  then show ?case by (rule pq.newThreadPool_inv [OF assms(1,2)])
next
  case (qd_step p p')
  then show ?case using pq.pool_step_inv by blast
next
  case (qd_prepare p)
  then show ?case
    by (simp add: pool_inv_def pool_base_def pend_end_def no_lost_wakeup_def all_wait_def members_ok_def pool_held_def pool_open_def)
qed

section \<open>Order within a priority\<close>

text \<open>
  A history of calls on the queue. Next to the queue the run records, in order, the commands that
  were queued and those that were handed out.
\<close>

datatype pqCall = CallQue command | CallGet | CallStart command | CallFinish command | CallShutdown

fun pq_call :: "pqCall \<Rightarrow> priorityQueue \<times> command list \<times> command list \<Rightarrow>
    (priorityQueue \<times> command list \<times> command list) option" where
  "pq_call (CallQue c) (q, put, got) = map_option (\<lambda>q'. (q', put @ [c], got)) (pq_queCmd c q)"
| "pq_call CallGet (q, put, got) =
     (case pq_getCmd q of (r, q') \<Rightarrow> Some (q', put, got @ (case r of None \<Rightarrow> [] | Some c \<Rightarrow> [c])))"
| "pq_call (CallStart c) (q, put, got) = Some (pq_commandStart c q, put, got)"
| "pq_call (CallFinish c) (q, put, got) = Some (pq_commandFinish c q, put, got)"
| "pq_call CallShutdown (q, put, got) = Some (prepareShutdown q, put, got)"

fun pq_calls :: "pqCall list \<Rightarrow> priorityQueue \<times> command list \<times> command list \<Rightarrow>
    (priorityQueue \<times> command list \<times> command list) option" where
  "pq_calls [] s = Some s"
| "pq_calls (x # xs) s = Option.bind (pq_call x s) (pq_calls xs)"

definition qu_at :: "priorityQueue \<Rightarrow> int \<Rightarrow> command list" where
  "qu_at q k = (case omap_find (queues q) k of Some b \<Rightarrow> qu b | None \<Rightarrow> [])"

definition pq_shape :: "priorityQueue \<Rightarrow> priorityQueue \<Rightarrow> bool" where
  "pq_shape q q' \<longleftrightarrow> pq_wf q' \<and> defaultPriority q' = defaultPriority q
     \<and> (\<forall>k. omap_find (queues q') k = None \<longleftrightarrow> omap_find (queues q) k = None)"

lemma pq_shape_queue_of: "pq_shape q q' \<Longrightarrow> queue_of q' c = queue_of q c"
  by (simp add: pq_shape_def queue_of_def Let_def)

lemma incrDecr_shape:
  "pq_wf q \<Longrightarrow> pq_shape q (incrDecrRunningCount c i q) \<and> qu_at (incrDecrRunningCount c i q) k = qu_at q k"
  by (auto simp: incrDecrRunningCount_def Let_def pq_shape_def pq_wf_def qu_at_def split: option.splits)

lemma pq_shape_trans: "pq_shape a b \<Longrightarrow> pq_shape b c \<Longrightarrow> pq_shape a c"
  by (simp add: pq_shape_def)

lemma pq_getCmd_fifo:
  assumes "pq_wf q" "pq_getCmd q = (r, q')"
    and "\<forall>k. \<forall>c \<in> set (qu_at q k). queue_of q c = k"
  shows "pq_shape q q' \<and> (\<forall>k. qu_at q k = filter (\<lambda>c. queue_of q c = k) (case r of None \<Rightarrow> [] | Some c \<Rightarrow> [c])
    @ qu_at q' k)"
proof (cases r)
  case None
  then show ?thesis
    using pq_getCmd_unchanged [of q q'] assms(1,2) by (simp add: pq_shape_def pq_wf_def qu_at_def)
next
  case (Some c)
  have wf: "omap_wf (queues q)" using assms(1) by (simp add: pq_wf_def)
  from pq_getCmd_Some [OF wf] assms(2) Some obtain k b cs where h: "omap_find (queues q) k = Some b"
    "qu b = c # cs" "q' = q\<lparr> changed := False, queues := omap_set k (b\<lparr> qu := cs \<rparr>) (queues q) \<rparr>" by metis
  have "qu_at q k = c # cs" using h(1,2) by (simp add: qu_at_def)
  then have "queue_of q c = k" using assms(3) by (metis list.set_intros(1))
  then show ?thesis
    using h Some assms(1) by (auto simp: pq_shape_def pq_wf_def qu_at_def)
qed

text \<open>What a history keeps: per queue, the commands handed out and those still queued are those put in.\<close>

definition fifo_inv :: "priorityQueue \<Rightarrow> priorityQueue \<times> command list \<times> command list \<Rightarrow> bool" where
  "fifo_inv q0 = (\<lambda>(q, put, got). pq_shape q0 q \<and>
     (\<forall>k. filter (\<lambda>c. queue_of q0 c = k) put = filter (\<lambda>c. queue_of q0 c = k) got @ qu_at q k))"

lemma fifo_inv_queue_of:
  assumes "fifo_inv q0 (q, put, got)" "c \<in> set (qu_at q k)"
  shows "queue_of q0 c = k"
proof -
  have "c \<in> set (filter (\<lambda>c. queue_of q0 c = k) put)" using assms by (auto simp: fifo_inv_def)
  then show ?thesis by simp
qed

lemma pq_call_fifo:
  assumes i: "fifo_inv q0 (q, put, got)" and c: "pq_call x (q, put, got) = Some s"
  shows "fifo_inv q0 s"
proof -
  have sh: "pq_shape q0 q" and wf: "pq_wf q" using i by (auto simp: fifo_inv_def pq_shape_def)
  note qo = pq_shape_queue_of [OF sh]
  show ?thesis
  proof (cases x)
    case (CallQue d)
    obtain q' where q': "pq_queCmd d q = Some q'" "s = (q', put @ [d], got)"
      using c CallQue by auto
    then obtain b where b: "omap_find (queues q) (queue_of q0 d) = Some b"
      "q' = q\<lparr> queues := omap_set (queue_of q0 d) (b\<lparr> qu := qu b @ [d] \<rparr>) (queues q), changed := True \<rparr>"
      by (auto simp: pq_queCmd_putAt qo putAt_def split: option.splits)
    have "pq_shape q0 q'" using sh b
      by (simp add: pq_shape_def pq_wf_def del: not_None_eq) (metis option.distinct(1))
    moreover have "qu_at q' k = qu_at q k @ (if queue_of q0 d = k then [d] else [])" for k
      using b by (cases "queue_of q0 d = k") (auto simp add: qu_at_def)
    ultimately show ?thesis using i q'(2) by (auto simp: fifo_inv_def)
  next
    case CallGet
    obtain r q' where g: "pq_getCmd q = (r, q')" by fastforce
    have "\<forall>k. \<forall>c \<in> set (qu_at q k). queue_of q c = k" using fifo_inv_queue_of [OF i] qo by simp
    note f = pq_getCmd_fifo [OF wf g this]
    have "pq_shape q0 q'" using pq_shape_trans [OF sh] f by blast
    moreover have "s = (q', put, got @ (case r of None \<Rightarrow> [] | Some c \<Rightarrow> [c]))" using c CallGet g by simp
    ultimately show ?thesis using i f by (simp add: fifo_inv_def qo)
  next
    case (CallStart d)
    then show ?thesis
      using c i incrDecr_shape [OF wf, of d 1] pq_shape_trans [OF sh] by (auto simp: fifo_inv_def pq_commandStart_def)
  next
    case (CallFinish d)
    then show ?thesis
      using c i incrDecr_shape [OF wf, of d "- 1"] pq_shape_trans [OF sh] by (auto simp: fifo_inv_def pq_commandFinish_def)
  next
    case CallShutdown
    then show ?thesis
      using c i by (auto simp: fifo_inv_def prepareShutdown_def pq_shape_def pq_wf_def qu_at_def)
  qed
qed

lemma pq_calls_fifo: "fifo_inv q0 s \<Longrightarrow> pq_calls xs s = Some s' \<Longrightarrow> fifo_inv q0 s'"
proof (induction xs arbitrary: s)
  case (Cons x xs)
  then show ?case
    by (cases s) (auto simp: bind_eq_Some_conv dest: pq_call_fifo)
qed simp

lemma pq_calls_ok:
  assumes "fifo_inv q0 s" shows "\<exists>s'. pq_calls xs s = Some s'"
  using assms
proof (induction xs arbitrary: s)
  case (Cons x xs)
  obtain q put got where s: "s = (q, put, got)" by (cases s)
  have "pq_wf q" using Cons.prems s by (simp add: fifo_inv_def pq_shape_def)
  then have "\<exists>s1. pq_call x s = Some s1" using pq_queCmd_ok s by (cases x) (auto split: prod.splits)
  then obtain s1 where "pq_call x s = Some s1" by blast
  then show ?case using Cons pq_call_fifo s by auto
qed (metis pq_calls.simps(1))

section \<open>Properties\<close>

text \<open>
  \<open>getCmd\<close> without waiting. It hands out the front of a queue exactly when some non-empty queue
  runs fewer commands than its maximum (or, before shutdown, than its minimum). Before shutdown,
  if some non-empty queue runs fewer commands than its minimum, the one of highest priority
  among those is served; otherwise the one of highest priority among those below their maximum.
  Nothing else in the queues changes.
\<close>

theorem priority_queue_choice:
  assumes "omap_wf (queues q)" "pq_getCmd q = (r, q')"
  shows "(r = None \<longleftrightarrow> (\<forall>k b. omap_find (queues q) k = Some b \<longrightarrow> qu b \<noteq> [] \<longrightarrow>
            maxRunning b \<le> running b \<and> (shuttingDown q \<or> minRunning b \<le> running b)))
    \<and> (\<forall>c. r = Some c \<longrightarrow> (\<exists>k b. served_from q k \<and> omap_find (queues q) k = Some b
            \<and> qu b = c # qu_at q' k \<and> (\<forall>j. j \<noteq> k \<longrightarrow> omap_find (queues q') j = omap_find (queues q) j)))"
proof (intro conjI allI impI)
  show "r = None \<longleftrightarrow> (\<forall>k b. omap_find (queues q) k = Some b \<longrightarrow> qu b \<noteq> [] \<longrightarrow>
            maxRunning b \<le> running b \<and> (shuttingDown q \<or> minRunning b \<le> running b))"
    using pq_getCmd_None [OF assms(1)] assms(2) by (simp add: below_max_def below_min_def not_less)
next
  fix c assume "r = Some c"
  then obtain k b cs where "omap_find (queues q) k = Some b" "qu b = c # cs" "served_from q k"
    "q' = q\<lparr> changed := False, queues := omap_set k (b\<lparr> qu := cs \<rparr>) (queues q) \<rparr>"
    using pq_getCmd_Some [OF assms(1), of c q'] assms(2) by metis
  then show "\<exists>k b. served_from q k \<and> omap_find (queues q) k = Some b
            \<and> qu b = c # qu_at q' k \<and> (\<forall>j. j \<noteq> k \<longrightarrow> omap_find (queues q') j = omap_find (queues q) j)"
    by (intro exI [of _ k] exI [of _ b]) (simp add: qu_at_def)
qed

theorem priority_queue_choice_witness:
  "\<exists>q' k b. pq_getCmd (the (pq_queCmd (PriorityCommand 7 2) (setup_queue True))) = (Some (PriorityCommand 7 2), q')
     \<and> served_from (the (pq_queCmd (PriorityCommand 7 2) (setup_queue True))) k
     \<and> omap_find (queues (the (pq_queCmd (PriorityCommand 7 2) (setup_queue True)))) k = Some b
     \<and> qu b = PriorityCommand 7 2 # qu_at q' k"
proof -
  let ?q = "the (pq_queCmd (PriorityCommand 7 2) (setup_queue True))"
  have "fst (pq_getCmd ?q) = Some (PriorityCommand 7 2)" by code_simp
  then obtain q' where g: "pq_getCmd ?q = (Some (PriorityCommand 7 2), q')" by (metis prod.collapse)
  obtain p where p: "pq_queCmd (PriorityCommand 7 2) (setup_queue True) = Some p"
    using pq_queCmd_ok setup_queue_books(1) unfolding pq_books_def by blast
  then have "omap_wf (queues ?q)"
    using putAt_contract [OF setup_queue_books(1)] by (simp add: pq_queCmd_putAt pq_books_def pq_wf_def)
  from priority_queue_choice [OF this g] g show ?thesis by blast
qed

text \<open>
  Commands of one priority are handed out in the order in which they were queued, whatever
  other calls happen in between: in any history of calls from the configured queue, no call
  throws, and for every queue the commands handed out followed by those still queued are those put
  in, in order.
\<close>

theorem priority_queue_fifo:
  "\<exists>q put got. pq_calls xs (setup_queue u, [], []) = Some (q, put, got)
     \<and> (\<forall>k. filter (\<lambda>c. queue_of (setup_queue u) c = k) put
            = filter (\<lambda>c. queue_of (setup_queue u) c = k) got @ qu_at q k)"
proof -
  have "pq_wf (setup_queue u)" using setup_queue_books(1) [of u] by (simp add: pq_books_def)
  moreover have "qu_at (setup_queue u) k = []" for k
  proof (cases "omap_find (queues (setup_queue u)) k")
    case (Some b)
    have "mset (qu b) \<subseteq># pq_contents (setup_queue u)"
      using omap_find_in_set [OF Some] by (auto simp: pq_contents_def omap_sum_def in_set_conv_decomp)
    then show ?thesis using Some setup_queue_books(2) by (simp add: qu_at_def)
  qed (simp add: qu_at_def)
  ultimately have i: "fifo_inv (setup_queue u) (setup_queue u, [], [])"
    by (simp add: fifo_inv_def pq_shape_def)
  from pq_calls_ok [OF i] obtain s where s: "pq_calls xs (setup_queue u, [], []) = Some s" by blast
  show ?thesis using pq_calls_fifo [OF i s] s by (cases s) (auto simp: fifo_inv_def)
qed

text \<open>
  C25. In every reachable state of the czar's message pool, with its threads interleaved in any way,
  each submitted command is queued, held by exactly one thread or completed, and every priority's
  counter of running commands equals the number of its commands whose start has been reported
  and whose finish has not.
\<close>

theorem qdisp_pool_exact:
  assumes "qdisp_reach (setup_threads u) (setup_queue u) p"
  shows "mset (submitted p) = pq_contents (poolQ p) + pool_held p + mset (completed p)
    \<and> (\<forall>k b. omap_find (queues (poolQ p)) k = Some b \<longrightarrow>
         running b = running_as (defaultPriority (poolQ p)) k (pool_open p))"
  using qdisp_reach_inv [OF setup_queue_books assms] by (simp add: pool_inv_def pool_base_def pq_books_def)

theorem qdisp_pool_exact_witness:
  "\<exists>p. qdisp_reach (setup_threads True) (setup_queue True) p
     \<and> length (members p) = 50 \<and> submitted p = [PriorityCommand 7 2]
     \<and> mset (submitted p) = pq_contents (poolQ p) + pool_held p + mset (completed p)"
proof -
  obtain p where p: "newThreadPool pq_if (setup_threads True) (setup_queue True) = Some p" "length (members p) = 50" "submitted p = []"
    using newThreadPool_start [of pq_if "setup_threads True"] by (auto simp: setup_threads_def)
  have r: "qdisp_reach (setup_threads True) (setup_queue True) p" using p(1) by (rule qd_new)
  have "pool_base pq_contents pq_books p"
    using qdisp_reach_inv [OF setup_queue_books r] by (simp add: pool_inv_def)
  from pq.pool_queCmd_ok [OF this] obtain p1 where q: "pool_queCmd pq_if (PriorityCommand 7 2) p = Some p1" by blast
  have "qdisp_reach (setup_threads True) (setup_queue True) p1" by (rule qd_step [OF r ps_queCmd [OF _ q]]) simp
  moreover have "length (members p1) = 50" "submitted p1 = [PriorityCommand 7 2]"
    using q p(2,3) by (auto simp: pool_queCmd_def split: option.splits)
  ultimately show ?thesis using qdisp_pool_exact [of True p1] by blast
qed

text \<open>
  C38. The message pool does not deadlock, also while it is shut down: in every reachable state in which it has more threads than its
  target, which is how \<open>shutdownPool\<close> waits, and in every one in which a command is queued and no thread has left the pool, some
  thread of the pool can take a step.
\<close>

theorem qdisp_pool_not_stuck:
  assumes "qdisp_reach (setup_threads u) (setup_queue u) p"
    and "targetThrdCount p < length (members p)
      \<or> pq_contents (poolQ p) \<noteq> {#} \<and> members p \<noteq> [] \<and> length (members p) = length (thrs p)"
  shows "\<exists>t \<in> set (members p). \<exists>p'. thread_step pq_if t p p'"
  using pq.shrink_not_stuck [OF qdisp_reach_inv [OF setup_queue_books assms(1)]]
    pq.pending_not_stuck [OF qdisp_reach_inv [OF setup_queue_books assms(1)]] assms(2) by blast

theorem qdisp_pool_not_stuck_witness:
  "\<exists>p. qdisp_reach (setup_threads True) (setup_queue True) p \<and> shuttingDown (poolQ p) \<and> targetThrdCount p = 0
     \<and> length (members p) = 50 \<and> (\<exists>t \<in> set (members p). \<exists>p'. thread_step pq_if t p p')"
proof -
  obtain p0 where p0: "newThreadPool pq_if (setup_threads True) (setup_queue True) = Some p0" "length (members p0) = 50"
    using newThreadPool_start [of pq_if "setup_threads True"] by (auto simp: setup_threads_def)
  define p where "p = p0\<lparr> poolQ := prepareShutdown (poolQ p0) \<rparr>"
  have r: "qdisp_reach (setup_threads True) (setup_queue True) p" unfolding p_def using p0(1) by (intro qd_prepare qd_new)
  have p: "length (members p) = 50" "shuttingDown (poolQ p)" using p0(2) by (simp_all add: p_def prepareShutdown_def)
  have "pool_base pq_contents pq_books p"
    using qdisp_reach_inv [OF setup_queue_books r] by (simp add: pool_inv_def)
  then have "pool_base pq_contents pq_books (p\<lparr> shutdownFlag := True, targetThrdCount := 0 \<rparr>)"
    by (simp add: pool_base_def)
  from pq.pool_queCmd_ok [OF this] obtain p1 where
    q: "pool_queCmd pq_if MsgEnd (p\<lparr> shutdownFlag := True, targetThrdCount := 0 \<rparr>) = Some p1" by blast
  then have "shutdownPool pq_if p = Some p1"
    using p(1) by (simp add: shutdownPool_def resize_def resizeWork_def growPool.simps)
  then have r1: "qdisp_reach (setup_threads True) (setup_queue True) p1"
    using r by (auto intro: qd_step ps_shutdown)
  have t: "targetThrdCount p1 = 0" "length (members p1) = 50"
    using q p by (auto simp: pool_queCmd_def split: option.splits)
  have "shuttingDown (poolQ p1)"
    using q p(2) by (auto simp: pool_queCmd_def putAt_def split: option.splits)
  then show ?thesis using qdisp_pool_not_stuck [OF r1] t r1 by auto
qed

text \<open>
  A priority can run more commands than its maximum: a thread reports the start of a command
  only after \<open>getCmd\<close> has returned, so threads that fetch at the same time all see the old count.
  Here four commands of priority 0, whose maximum is 3, run at once.
\<close>

theorem max_running_exceeded:
  "map_option (\<lambda>(q, _, got). (got, map_option (\<lambda>b. (running b, maxRunning b)) (omap_find (queues q) 0)))
     (pq_calls (map (\<lambda>n. CallQue (PriorityCommand n 0)) [1, 2, 3, 4] @ replicate 4 CallGet
        @ map (\<lambda>n. CallStart (PriorityCommand n 0)) [1, 2, 3, 4]) (setup_queue True, [], []))
   = Some (map (\<lambda>n. PriorityCommand n 0) [1, 2, 3, 4], Some (4, 3))"
  by code_simp

text \<open>
  A wake-up can be lost: \<open>getCmd\<close> clears \<open>_changed\<close>, so when two commands arrive before a
  waiting thread runs, the first thread to wake takes one and the second goes back to sleep.
  Here one thread runs a command, another waits with nothing to wake it, and a command that may
  run is queued.
\<close>

theorem wakeup_lost:
  "\<exists>p. pool_reach pq_if 2 (newPriorityQueue 100 1 5) p
     \<and> map thrSt (thrs p) = [THeld (PriorityCommand 1 100), TWait]
     \<and> \<not> q_ready pq_if (poolQ p)
     \<and> fst (pq_getCmd (poolQ p)) = Some (PriorityCommand 2 100)"
proof -
  let ?q = "newPriorityQueue 100 1 5"
  let ?thr = "\<lambda>s. \<lparr> loop = True, thrSt = s, commandFinishCalled = False, finishupOnce = False \<rparr>"
  let ?qs = "\<lambda>cs b. ?q\<lparr> queues := [(100, (newPriQ 100 1 5)\<lparr> qu := cs \<rparr>)], changed := b \<rparr>"
  let ?p = "\<lambda>a b cs x sub. \<lparr> poolQ = ?qs cs x, thrs = [?thr a, ?thr b], members = [0, 1],
     targetThrdCount = 2, shutdownFlag = False, joinQ = [], submitted = sub, completed = [] \<rparr>"
  let ?c1 = "PriorityCommand 1 100" and ?c2 = "PriorityCommand 2 100"
  note d = newPriorityQueue_def newPriQ_def pq_getCmd_def thread_getCmd_def upd_thr_def pool_queCmd_def
    putAt_def below_min_def below_max_def Let_def
  have "newThreadPool pq_if 2 ?q = Some (?p TGet TGet [] False [])"
    by (simp add: newThreadPool_def resizeWork_def growPool.simps addThread_def newPoolEventThread_def d)
  then have r0: "pool_reach pq_if 2 ?q (?p TGet TGet [] False [])" by (rule pr_new)
  have "thread_getCmd pq_if 0 (?p TGet TGet [] False []) = ?p TWait TGet [] False []" by (simp add: d)
  then have r1: "pool_reach pq_if 2 ?q (?p TWait TGet [] False [])"
    using pr_step [OF r0 ps_thread [of 0, OF _ ts_get]] by simp
  have "thread_getCmd pq_if 1 (?p TWait TGet [] False []) = ?p TWait TWait [] False []" by (simp add: d)
  then have r2: "pool_reach pq_if 2 ?q (?p TWait TWait [] False [])"
    using pr_step [OF r1 ps_thread [of 1, OF _ ts_get]] by simp
  have "pool_queCmd pq_if ?c1 (?p TWait TWait [] False []) = Some (?p TWait TWait [?c1] True [?c1])"
    by (simp add: d)
  then have r3: "pool_reach pq_if 2 ?q (?p TWait TWait [?c1] True [?c1])"
    using pr_step [OF r2 ps_queCmd [of ?c1]] by simp
  have "pool_queCmd pq_if ?c2 (?p TWait TWait [?c1] True [?c1]) = Some (?p TWait TWait [?c1, ?c2] True [?c1, ?c2])"
    by (simp add: d)
  then have r4: "pool_reach pq_if 2 ?q (?p TWait TWait [?c1, ?c2] True [?c1, ?c2])"
    using pr_step [OF r3 ps_queCmd [of ?c2]] by simp
  have "thread_getCmd pq_if 0 (?p TWait TWait [?c1, ?c2] True [?c1, ?c2]) = ?p (THeld ?c1) TWait [?c2] False [?c1, ?c2]"
    by (simp add: d)
  then have r5: "pool_reach pq_if 2 ?q (?p (THeld ?c1) TWait [?c2] False [?c1, ?c2])"
    using pr_step [OF r4 ps_thread [of 0, OF _ ts_resume]] by simp
  show ?thesis by (intro exI [of _ "?p (THeld ?c1) TWait [?c2] False [?c1, ?c2]"] conjI r5) (simp_all add: d)
qed

end
