(* ===== verification/Job_Dispatch.thy ===== *)
theory Job_Dispatch
  imports Prelude
begin

text \<open>
  Query dispatch of the czar: \<open>qdisp/JobStatus\<close>, \<open>qdisp/JobDescription\<close>, \<open>qdisp/JobQuery\<close>,
  \<open>qdisp/Executive\<close> and \<open>qdisp/QueryRequest\<close> with its \<open>AskForResponseDataCmd\<close>.

  One executive runs the jobs of a user query. A job owns a handler for its result and is run
  by a sequence of requests, one per attempt; a request is driven by the call-backs of XrdSsi and
  by the ask commands it queues in the czar's message pool. Objects live in stores and shared
  pointers are addresses in them: \<open>jobs\<close>, \<open>reqs\<close> and \<open>asks\<close>. Calls recurse: \<open>squash\<close> cancels jobs,
  which finish their requests, which report to the executive, which squashes. The operations are
  therefore written over the \<open>squash\<close> they call, and the knot is tied where the guard of \<open>squash\<close>
  makes the inner call return at once.

  The response handler, the serialisation of the task message, the check of its payload and the
  iteration order of the \<open>unordered_map\<close> of jobs are fields of \<open>dispEnv\<close>. Call-backs run one at a
  time; the ask command is cut at the place where it waits for data, and \<open>runJob\<close> before its last
  statement, the write of \<open>REQUEST\<close> (\<open>writeRequest\<close>), which call-backs may precede. Message texts and time
  stamps are left out.
\<close>

section \<open>Data\<close>

datatype jobState =
    UNKNOWN | REQUEST | RESPONSE_READY | RESPONSE_ERROR | RESPONSE_DATA | RESPONSE_DATA_NACK
  | RESPONSE_DONE | RESULT_ERROR | MERGE_ERROR | CANCEL | COMPLETE

text \<open>The numeric values of the enumeration, which go into the user's messages.\<close>

fun stateNum :: "jobState \<Rightarrow> int" where
  "stateNum UNKNOWN = 0"
| "stateNum REQUEST = 1203"
| "stateNum RESPONSE_READY = 1204"
| "stateNum RESPONSE_ERROR = 1205"
| "stateNum RESPONSE_DATA = 1206"
| "stateNum RESPONSE_DATA_NACK = 1207"
| "stateNum RESPONSE_DONE = 1208"
| "stateNum RESULT_ERROR = 1209"
| "stateNum MERGE_ERROR = 1210"
| "stateNum CANCEL = 1211"
| "stateNum COMPLETE = 2000"

datatype messageSeverity = MSG_INFO | MSG_ERROR

record queryMessage =
  msg_chunkId :: int
  msg_code :: int
  msg_severity :: messageSeverity

record statusInfo =
  st_state :: jobState
  st_code :: int

definition newStatus :: statusInfo where
  "newStatus = \<lparr> st_state = UNKNOWN, st_code = 0 \<rparr>"

text \<open>The virtual methods of \<open>ResponseHandler\<close> and the other code a job calls.\<close>

record 'h dispEnv =
  h_reset :: "'h \<Rightarrow> bool \<times> 'h"
  h_flush :: "int \<Rightarrow> bool \<Rightarrow> 'h \<Rightarrow> (bool \<times> bool \<times> bool) \<times> 'h"
  h_errorFlush :: "int \<Rightarrow> 'h \<Rightarrow> 'h"
  h_getError :: "'h \<Rightarrow> int"
  h_prepScrubResults :: "int \<Rightarrow> int \<Rightarrow> 'h \<Rightarrow> 'h"
  h_processCancel :: "'h \<Rightarrow> 'h"
  h_nextBuffer :: "'h \<Rightarrow> nat \<times> 'h"
  serializeMsg :: "int \<Rightarrow> int \<Rightarrow> string"
  messageAcceptable :: "string \<Rightarrow> bool"
  iterOrder :: "nat list \<Rightarrow> nat list"

text \<open>
  A \<open>JobQuery\<close> with its \<open>JobDescription\<close> and \<open>JobStatus\<close>. \<open>jq_toWrite\<close> counts the calls of \<open>runJob\<close> that
  have started their request and have not yet written the status \<open>REQUEST\<close>.
\<close>

record 'h job =
  jd_id :: int
  jd_chunk :: int
  jd_mock :: bool
  jd_scanInteractive :: bool
  jd_scanRating :: int
  jd_attemptCount :: int
  jd_payloads :: "int \<rightharpoonup> string"
  jd_handler :: 'h
  jq_status :: statusInfo
  jq_request :: "nat option"
  jq_inSsi :: bool
  jq_cancelled :: bool
  jq_toWrite :: nat

datatype finishStatus = ACTIVE | FINISHED | ERROR

text \<open>
  A \<open>QueryRequest\<close>. \<open>qr_responded\<close> and \<open>qr_destroyed\<close> record that XrdSsi has delivered its response
  and that the last shared pointer to the object is gone.
\<close>

record request =
  qr_job :: "nat option"
  qr_retried :: bool
  qr_calledMarkComplete :: bool
  qr_finishStatus :: finishStatus
  qr_cancelled :: bool
  qr_finishedCalled :: bool
  qr_largeResult :: bool
  qr_ask :: "nat option"
  qr_responded :: bool
  qr_destroyed :: bool

datatype askState = STARTED0 | DATAREADY1 | DONE2

text \<open>Where an ask command is: on the pool's queue, inside its wait, or returned.\<close>

datatype askPhase = AskQueued | AskWaiting | AskReturned

record askCmd =
  ask_req :: nat
  ask_job :: nat
  ask_state :: askState
  ask_blen :: int
  ask_last :: bool
  ask_priority :: int
  ask_phase :: askPhase

text \<open>The calls the czar makes on XrdSsi.\<close>

datatype ssiCall =
    ProcessRequest nat nat
  | Finished nat bool
  | GetResponseData nat nat

record 'h disp =
  jobs :: "'h job list"
  reqs :: "request list"
  asks :: "askCmd list"
  jobMap :: "(int \<times> nat) list"
  incompleteJobs :: "(int \<times> nat) list"
  emptyFlag :: bool
  totalJobs :: int
  requestCount :: int
  execCancelled :: bool
  multiError :: "int list"
  queryMessages :: "queryMessage list"
  ssiCalls :: "ssiCall list"

definition newExecutive :: "'h disp" where
  "newExecutive = \<lparr> jobs = [], reqs = [], asks = [], jobMap = [], incompleteJobs = [],
     emptyFlag = True, totalJobs = 1, requestCount = 0, execCancelled = False, multiError = [],
     queryMessages = [], ssiCalls = [] \<rparr>"

text \<open>The \<open>Bug\<close> that \<open>markCompleted\<close> throws, a null pointer, and the branch below that no run enters.\<close>

datatype dispError = Bug | NullPointer | UnboundedRecursion

type_synonym 'a dispResult = "dispError + 'a"

definition andThen :: "'a dispResult \<Rightarrow> ('a \<Rightarrow> 'b dispResult) \<Rightarrow> 'b dispResult" where
  "andThen r f = (case r of Inl e \<Rightarrow> Inl e | Inr x \<Rightarrow> f x)"

lemma andThen_simps [simp]: "andThen (Inr x) f = f x" "andThen (Inl e) f = Inl e"
  by (simp_all add: andThen_def)

lemma andThen_Inr: "andThen r f = Inr y \<longleftrightarrow> (\<exists>x. r = Inr x \<and> f x = Inr y)"
  by (cases r) auto

definition upd_job :: "nat \<Rightarrow> ('h job \<Rightarrow> 'h job) \<Rightarrow> 'h disp \<Rightarrow> 'h disp" where
  "upd_job a f s = s\<lparr> jobs := (jobs s)[a := f (jobs s ! a)] \<rparr>"

definition upd_req :: "nat \<Rightarrow> (request \<Rightarrow> request) \<Rightarrow> 'h disp \<Rightarrow> 'h disp" where
  "upd_req r f s = s\<lparr> reqs := (reqs s)[r := f (reqs s ! r)] \<rparr>"

definition upd_ask :: "nat \<Rightarrow> (askCmd \<Rightarrow> askCmd) \<Rightarrow> 'h disp \<Rightarrow> 'h disp" where
  "upd_ask k f s = s\<lparr> asks := (asks s)[k := f (asks s ! k)] \<rparr>"

definition ssi :: "ssiCall \<Rightarrow> 'h disp \<Rightarrow> 'h disp" where
  "ssi c s = s\<lparr> ssiCalls := ssiCalls s @ [c] \<rparr>"

definition updateInfo :: "nat \<Rightarrow> jobState \<Rightarrow> int \<Rightarrow> 'h disp \<Rightarrow> 'h disp" where
  "updateInfo a st code s = upd_job a (\<lambda>j. j\<lparr> jq_status := \<lparr> st_state = st, st_code = code \<rparr> \<rparr>) s"

definition on_handler :: "nat \<Rightarrow> ('h \<Rightarrow> 'h) \<Rightarrow> 'h disp \<Rightarrow> 'h disp" where
  "on_handler a f s = upd_job a (\<lambda>j. j\<lparr> jd_handler := f (jd_handler j) \<rparr>) s"

section \<open>Completing and cancelling\<close>

definition unTrack :: "int \<Rightarrow> 'h disp \<Rightarrow> 'h disp" where
  "unTrack i s = s\<lparr> incompleteJobs := filter (\<lambda>p. fst p \<noteq> i) (incompleteJobs s) \<rparr>"

text \<open>\<open>Executive::markCompleted\<close>, over the \<open>squash\<close> it calls.\<close>

definition markCompleted_w ::
    "'h dispEnv \<Rightarrow> ('h disp \<Rightarrow> 'h disp dispResult) \<Rightarrow> int \<Rightarrow> bool \<Rightarrow> 'h disp \<Rightarrow> 'h disp dispResult" where
  "markCompleted_w env sq i success s =
     (if success then Inr (unTrack i s)
      else case map_of (incompleteJobs s) i of
             None \<Rightarrow> if execCancelled s then Inr s else Inl Bug
           | Some a \<Rightarrow>
               (let err = h_getError env (jd_handler (jobs s ! a))
                in case map_of (jobMap s) i of
                     None \<Rightarrow> Inl NullPointer
                   | Some b \<Rightarrow>
                       (let s = updateInfo b RESULT_ERROR err s;
                            s = s\<lparr> multiError := multiError s @ [err] \<rparr>;
                            s = unTrack i s
                        in sq s)))"

definition callMarkComplete_w ::
    "'h dispEnv \<Rightarrow> ('h disp \<Rightarrow> 'h disp dispResult) \<Rightarrow> nat \<Rightarrow> bool \<Rightarrow> 'h disp \<Rightarrow> 'h disp dispResult" where
  "callMarkComplete_w env sq r success s =
     (if qr_calledMarkComplete (reqs s ! r) then Inr s
      else let s = upd_req r (\<lambda>q. q\<lparr> qr_calledMarkComplete := True \<rparr>) s
           in case qr_job (reqs s ! r) of
                None \<Rightarrow> Inr s
              | Some a \<Rightarrow> markCompleted_w env sq (jd_id (jobs s ! a)) success s)"

text \<open>The destructor of a request, and \<open>cleanup\<close>, after which the job may hold the last pointer.\<close>

definition notifyFailed :: "nat \<Rightarrow> 'h disp \<Rightarrow> 'h disp" where
  "notifyFailed k s = upd_ask k (\<lambda>c. c\<lparr> ask_state := DONE2 \<rparr>) s"

definition destroyRequest :: "nat \<Rightarrow> 'h disp \<Rightarrow> 'h disp" where
  "destroyRequest r s =
     (let s = (case qr_ask (reqs s ! r) of None \<Rightarrow> s | Some k \<Rightarrow> notifyFailed k s);
          s = (if qr_finishedCalled (reqs s ! r) then s else ssi (Finished r True) s)
      in upd_req r (\<lambda>q. q\<lparr> qr_destroyed := True \<rparr>) s)"

definition cleanup :: "nat \<Rightarrow> 'h disp \<Rightarrow> 'h disp" where
  "cleanup r s =
     (if qr_finishStatus (reqs s ! r) = ACTIVE then s
      else let s' = upd_req r (\<lambda>q. q\<lparr> qr_job := None \<rparr>) s
           in case qr_job (reqs s ! r) of
                None \<Rightarrow> s'
              | Some a \<Rightarrow> if jq_request (jobs s ! a) = Some r then s' else destroyRequest r s')"

text \<open>
  \<open>QueryRequest::_errorFinish\<close>, over \<open>squash\<close> and the \<open>runJob\<close> it retries with. \<open>True\<close> means that
  this call had the authority to finish the request.
\<close>

definition errorFinish_w ::
    "'h dispEnv \<Rightarrow> ('h disp \<Rightarrow> 'h disp dispResult) \<Rightarrow> (nat \<Rightarrow> 'h disp \<Rightarrow> (bool \<times> 'h disp) dispResult) \<Rightarrow>
     bool \<Rightarrow> nat \<Rightarrow> 'h disp \<Rightarrow> (bool \<times> 'h disp) dispResult" where
  "errorFinish_w env sq run shouldCancel r s =
     (case qr_job (reqs s ! r) of
        None \<Rightarrow> Inr (False, s)
      | Some a \<Rightarrow>
          (if qr_finishStatus (reqs s ! r) \<noteq> ACTIVE then Inr (False, s)
           else let s = upd_req r (\<lambda>q. q\<lparr> qr_finishStatus := ERROR \<rparr>) s;
                    s = ssi (Finished r shouldCancel) s;
                    s = upd_req r (\<lambda>q. q\<lparr> qr_finishedCalled := True \<rparr>) s;
                    retried = qr_retried (reqs s ! r);
                    s = upd_req r (\<lambda>q. q\<lparr> qr_retried := True \<rparr>) s
                in andThen
                     (if \<not> retried \<and> \<not> shouldCancel
                      then andThen (run a s) (\<lambda>(ok, s).
                             if ok then Inr s else callMarkComplete_w env sq r False s)
                      else callMarkComplete_w env sq r False s)
                     (\<lambda>s. Inr (True, cleanup r s))))"

text \<open>\<open>QueryRequest::cancel\<close>: it finishes with \<open>shouldCancel\<close>, which never runs the job again.\<close>

definition no_run :: "nat \<Rightarrow> 'h disp \<Rightarrow> (bool \<times> 'h disp) dispResult" where
  "no_run a s = Inl UnboundedRecursion"

definition requestCancel_w ::
    "'h dispEnv \<Rightarrow> ('h disp \<Rightarrow> 'h disp dispResult) \<Rightarrow> nat \<Rightarrow> 'h disp \<Rightarrow> (bool \<times> 'h disp) dispResult" where
  "requestCancel_w env sq r s =
     (if qr_cancelled (reqs s ! r) then Inr (False, s)
      else let s = upd_req r (\<lambda>q. q\<lparr> qr_cancelled := True, qr_retried := True \<rparr>) s;
               s = (case qr_job (reqs s ! r) of
                      Some a \<Rightarrow> if qr_finishStatus (reqs s ! r) = ACTIVE then updateInfo a CANCEL 0 s else s
                    | None \<Rightarrow> s)
           in errorFinish_w env sq no_run True r s)"

definition jobCancel_w ::
    "'h dispEnv \<Rightarrow> ('h disp \<Rightarrow> 'h disp dispResult) \<Rightarrow> nat \<Rightarrow> 'h disp \<Rightarrow> (bool \<times> 'h disp) dispResult" where
  "jobCancel_w env sq a s =
     (if jq_cancelled (jobs s ! a) then Inr (False, s)
      else let s = upd_job a (\<lambda>j. j\<lparr> jq_cancelled := True \<rparr>) s
           in andThen
                (if jq_inSsi (jobs s ! a)
                 then case jq_request (jobs s ! a) of
                        None \<Rightarrow> Inl NullPointer
                      | Some r \<Rightarrow> requestCancel_w env sq r s
                 else Inr (False, s))
                (\<lambda>(cancelled, s). andThen
                   (if cancelled then Inr s
                    else markCompleted_w env sq (jd_id (jobs s ! a)) False
                           (on_handler a (h_errorFlush env (- 1)) s))
                   (\<lambda>s. Inr (True, on_handler a (h_processCancel env) s))))"

fun cancelAll_w ::
    "'h dispEnv \<Rightarrow> ('h disp \<Rightarrow> 'h disp dispResult) \<Rightarrow> nat list \<Rightarrow> 'h disp \<Rightarrow> 'h disp dispResult" where
  "cancelAll_w env sq [] s = Inr s"
| "cancelAll_w env sq (a # as) s =
     andThen (jobCancel_w env sq a s) (\<lambda>(_, s). cancelAll_w env sq as s)"

text \<open>\<open>Executive::squash\<close>, over the \<open>squash\<close> the cancelled jobs call.\<close>

definition squash_w ::
    "'h dispEnv \<Rightarrow> ('h disp \<Rightarrow> 'h disp dispResult) \<Rightarrow> 'h disp \<Rightarrow> 'h disp dispResult" where
  "squash_w env sq s =
     (if execCancelled s then Inr s
      else cancelAll_w env sq (iterOrder env (map snd (jobMap s))) (s\<lparr> execCancelled := True \<rparr>))"

text \<open>The inner call finds the flag set. \<open>squash_fuel\<close> is the recursion of the source.\<close>

definition squash_inner :: "'h disp \<Rightarrow> 'h disp dispResult" where
  "squash_inner s = (if execCancelled s then Inr s else Inl UnboundedRecursion)"

definition squash :: "'h dispEnv \<Rightarrow> 'h disp \<Rightarrow> 'h disp dispResult" where
  "squash env = squash_w env squash_inner"

text \<open>The recursion of the source, cut off where \<open>n\<close> calls of \<open>squash\<close> are open.\<close>

primrec squash_fuel :: "'h dispEnv \<Rightarrow> nat \<Rightarrow> 'h disp \<Rightarrow> 'h disp dispResult" where
  "squash_fuel env 0 s = Inl UnboundedRecursion"
| "squash_fuel env (Suc n) s = squash_w env (squash_fuel env n) s"

definition markCompleted :: "'h dispEnv \<Rightarrow> int \<Rightarrow> bool \<Rightarrow> 'h disp \<Rightarrow> 'h disp dispResult" where
  "markCompleted env = markCompleted_w env (squash env)"

definition callMarkComplete :: "'h dispEnv \<Rightarrow> nat \<Rightarrow> bool \<Rightarrow> 'h disp \<Rightarrow> 'h disp dispResult" where
  "callMarkComplete env = callMarkComplete_w env (squash env)"

section \<open>Running a job\<close>

definition MAX_JOB_ATTEMPTS :: int where "MAX_JOB_ATTEMPTS = 100"

definition getMaxAttempts :: int where "getMaxAttempts = 5"

definition incrAttemptCountScrubResults :: "'h dispEnv \<Rightarrow> 'h job \<Rightarrow> bool \<times> 'h job" where
  "incrAttemptCountScrubResults env j =
     (let j = (if 0 \<le> jd_attemptCount j
               then j\<lparr> jd_handler := h_prepScrubResults env (jd_id j) (jd_attemptCount j) (jd_handler j) \<rparr>
               else j);
          j = j\<lparr> jd_attemptCount := jd_attemptCount j + 1 \<rparr>
      in if MAX_JOB_ATTEMPTS < jd_attemptCount j then (False, j)
         else (True, j\<lparr> jd_payloads := (jd_payloads j)
                 (jd_attemptCount j \<mapsto> serializeMsg env (jd_id j) (jd_attemptCount j)) \<rparr>))"

definition verifyPayload :: "'h dispEnv \<Rightarrow> 'h job \<Rightarrow> bool" where
  "verifyPayload env j \<longleftrightarrow> jd_mock j
     \<or> (case jd_payloads j (jd_attemptCount j) of Some p \<Rightarrow> messageAcceptable env p | None \<Rightarrow> False)"

definition newRequest :: "nat \<Rightarrow> request" where
  "newRequest a = \<lparr> qr_job = Some a, qr_retried = False, qr_calledMarkComplete = False,
     qr_finishStatus = ACTIVE, qr_cancelled = False, qr_finishedCalled = False, qr_largeResult = False,
     qr_ask = None, qr_responded = False, qr_destroyed = False \<rparr>"

definition startQuery :: "nat \<Rightarrow> 'h disp \<Rightarrow> bool \<times> 'h disp" where
  "startQuery a s =
     (if execCancelled s then (False, s)
      else let r = length (reqs s);
               s = s\<lparr> reqs := reqs s @ [newRequest a] \<rparr>;
               s = upd_job a (\<lambda>j. j\<lparr> jq_request := Some r \<rparr>) s
           in (True, ssi (ProcessRequest r a) s))"

text \<open>
  \<open>runJob\<close> writes the status \<open>REQUEST\<close> after \<open>startQuery\<close> has handed the request to XrdSsi, whose
  call-backs run in other threads and write the same status. The write is therefore a step of its
  own, \<open>writeRequest\<close>, which may come at any later time.
\<close>

definition writeRequest :: "nat \<Rightarrow> 'h disp \<Rightarrow> 'h disp" where
  "writeRequest a s = updateInfo a REQUEST 0 (upd_job a (\<lambda>j. j\<lparr> jq_toWrite := jq_toWrite j - 1 \<rparr>) s)"

definition runJob :: "'h dispEnv \<Rightarrow> nat \<Rightarrow> 'h disp \<Rightarrow> (bool \<times> 'h disp) dispResult" where
  "runJob env a s =
     (let cancelled = execCancelled s;
          (handlerReset, h) = h_reset env (jd_handler (jobs s ! a));
          s = on_handler a (\<lambda>_. h) s;
          criticalErr = (\<lambda>s. andThen (squash env s) (\<lambda>s. Inr (False, s)))
      in if \<not> cancelled \<and> handlerReset
         then if jd_attemptCount (jobs s ! a) < getMaxAttempts
              then let (okCount, j) = incrAttemptCountScrubResults env (jobs s ! a);
                       s = upd_job a (\<lambda>_. j) s
                   in if \<not> okCount then criticalErr s
                      else if \<not> verifyPayload env j then criticalErr s
                      else let s = upd_job a (\<lambda>j. j\<lparr> jq_inSsi := True \<rparr>) s;
                               (started, s) = startQuery a s
                           in if started then Inr (True, upd_job a (\<lambda>j. j\<lparr> jq_toWrite := jq_toWrite j + 1 \<rparr>) s)
                              else Inr (False, upd_job a (\<lambda>j. j\<lparr> jq_inSsi := False \<rparr>) s)
              else criticalErr s
         else Inr (False, s))"

definition errorFinish :: "'h dispEnv \<Rightarrow> bool \<Rightarrow> nat \<Rightarrow> 'h disp \<Rightarrow> (bool \<times> 'h disp) dispResult" where
  "errorFinish env = errorFinish_w env (squash env) (runJob env)"

definition requestCancel :: "'h dispEnv \<Rightarrow> nat \<Rightarrow> 'h disp \<Rightarrow> (bool \<times> 'h disp) dispResult" where
  "requestCancel env = requestCancel_w env (squash env)"

definition finish :: "'h dispEnv \<Rightarrow> nat \<Rightarrow> 'h disp \<Rightarrow> 'h disp dispResult" where
  "finish env r s =
     (if qr_finishStatus (reqs s ! r) \<noteq> ACTIVE then Inr s
      else let s = upd_req r (\<lambda>q. q\<lparr> qr_finishStatus := FINISHED \<rparr>) s;
               s = ssi (Finished r False) s;
               s = upd_req r (\<lambda>q. q\<lparr> qr_finishedCalled := True \<rparr>) s
           in andThen (callMarkComplete env r True s) (\<lambda>s. Inr (cleanup r s)))"

section \<open>Adding jobs, and the end of the query\<close>

record 'h jobDescription =
  desc_id :: int
  desc_chunk :: int
  desc_mock :: bool
  desc_scanInteractive :: bool
  desc_scanRating :: int
  desc_handler :: 'h

definition newJob :: "'h jobDescription \<Rightarrow> 'h job" where
  "newJob d = \<lparr> jd_id = desc_id d, jd_chunk = desc_chunk d, jd_mock = desc_mock d,
     jd_scanInteractive = desc_scanInteractive d, jd_scanRating = desc_scanRating d,
     jd_attemptCount = - 1, jd_payloads = Map.empty, jd_handler = desc_handler d,
     jq_status = newStatus, jq_request = None, jq_inSsi = False, jq_cancelled = False, jq_toWrite = 0 \<rparr>"

definition addJobToMap :: "int \<Rightarrow> nat \<Rightarrow> 'h disp \<Rightarrow> bool \<times> 'h disp" where
  "addJobToMap i a s =
     (let ok = (map_of (jobMap s) i = None);
          m = (if ok then jobMap s @ [(i, a)] else jobMap s)
      in (ok, s\<lparr> jobMap := m, totalJobs := int (length m) \<rparr>))"

definition track :: "int \<Rightarrow> nat \<Rightarrow> 'h disp \<Rightarrow> bool \<times> 'h disp" where
  "track i a s =
     (if map_of (incompleteJobs s) i \<noteq> None then (False, s)
      else (True, s\<lparr> incompleteJobs := incompleteJobs s @ [(i, a)] \<rparr>))"

text \<open>\<open>Executive::add\<close>; it returns the job, or \<open>None\<close> once the query has been cancelled.\<close>

definition add :: "'h dispEnv \<Rightarrow> 'h jobDescription \<Rightarrow> 'h disp \<Rightarrow> (nat option \<times> 'h disp) dispResult" where
  "add env d s =
     (let a = length (jobs s); i = desc_id d
      in if execCancelled s then Inr (None, s)
         else let s = s\<lparr> jobs := jobs s @ [newJob d] \<rparr>;
                  (added, s) = addJobToMap i a s
              in if \<not> added then Inr (Some a, s)
                 else let (tracked, s) = track i a s
                      in if \<not> tracked then Inr (Some a, s)
                         else andThen (runJob env a (s\<lparr> emptyFlag := False, requestCount := requestCount s + 1 \<rparr>))
                                (\<lambda>(_, s). Inr (Some a, s)))"

definition NOTSET :: int where "NOTSET = - 1"

definition addMessage :: "int \<Rightarrow> int \<Rightarrow> messageSeverity \<Rightarrow> queryMessage list \<Rightarrow> queryMessage list" where
  "addMessage c code sev ms = ms @ [\<lparr> msg_chunkId = c, msg_code = code, msg_severity = sev \<rparr>]"

definition addErrorMessage :: "queryMessage list \<Rightarrow> queryMessage list" where
  "addErrorMessage ms = addMessage NOTSET NOTSET MSG_ERROR ms"

definition messageCount :: "int \<Rightarrow> queryMessage list \<Rightarrow> nat" where
  "messageCount code ms = length (filter (\<lambda>m. msg_code m = code) ms)"

definition updateProxyMessages :: "'h dispEnv \<Rightarrow> 'h disp \<Rightarrow> 'h disp" where
  "updateProxyMessages env s =
     (let ms = fold (\<lambda>a. addMessage (jd_chunk (jobs s ! a)) (stateNum (st_state (jq_status (jobs s ! a)))) MSG_INFO)
                 (iterOrder env (map snd (jobMap s))) (queryMessages s);
          ms = (if multiError s \<noteq> [] then addErrorMessage ms else ms)
      in s\<lparr> queryMessages := ms \<rparr>)"

definition jobSucceeded :: "'h job \<Rightarrow> bool" where
  "jobSucceeded j \<longleftrightarrow> st_state (jq_status j) = RESPONSE_DONE \<or> st_state (jq_status j) = COMPLETE"

text \<open>\<open>Executive::join\<close>; \<open>None\<close> while \<open>_waitAllUntilEmpty\<close> still waits.\<close>

definition join :: "'h dispEnv \<Rightarrow> 'h disp \<Rightarrow> (bool \<times> 'h disp) option" where
  "join env s =
     (if incompleteJobs s \<noteq> [] then None
      else let sCount = length (filter (\<lambda>p. jobSucceeded (jobs s ! snd p)) (jobMap s));
               ok = (int sCount = requestCount s);
               s = updateProxyMessages env s
           in Some (ok, s\<lparr> emptyFlag := ok \<rparr>))"

section \<open>Responses\<close>

text \<open>\<open>QueryRequest::GetRequest\<close>: the payload XrdSsi sends; \<open>operator[]\<close> yields an empty string for a missing one.\<close>

definition GetRequest :: "nat \<Rightarrow> 'h disp \<Rightarrow> string" where
  "GetRequest r s =
     (case qr_job (reqs s ! r) of
        None \<Rightarrow> []
      | Some a \<Rightarrow>
          if qr_finishStatus (reqs s ! r) \<noteq> ACTIVE then []
          else (case jd_payloads (jobs s ! a) (jd_attemptCount (jobs s ! a)) of Some p \<Rightarrow> p | None \<Rightarrow> []))"

text \<open>The scan ratings of \<open>proto::ScanInfo::Rating\<close> that choose the pool's queue.\<close>

definition askPriority :: "bool \<Rightarrow> int \<Rightarrow> bool \<Rightarrow> int" where
  "askPriority interactive rating large =
     (if interactive then 0
      else if rating \<le> 10 then (if large then 5 else 2)
      else if rating \<le> 20 then (if large then 6 else 3)
      else if rating \<le> 30 then (if \<not> large then 4 else 7)
      else 7)"

definition queueAskForResponse :: "nat \<Rightarrow> nat \<Rightarrow> 'h disp \<Rightarrow> 'h disp" where
  "queueAskForResponse r a s =
     (let k = length (asks s);
          p = askPriority (jd_scanInteractive (jobs s ! a)) (jd_scanRating (jobs s ! a)) (qr_largeResult (reqs s ! r));
          s = s\<lparr> asks := asks s @ [\<lparr> ask_req = r, ask_job = a, ask_state = STARTED0, ask_blen = - 1,
                                      ask_last = True, ask_priority = p, ask_phase = AskQueued \<rparr>] \<rparr>
      in upd_req r (\<lambda>q. q\<lparr> qr_ask := Some k \<rparr>) s)"

definition importStream :: "nat \<Rightarrow> nat \<Rightarrow> 'h disp \<Rightarrow> 'h disp" where
  "importStream r a s =
     queueAskForResponse r a (case qr_ask (reqs s ! r) of None \<Rightarrow> s | Some k \<Rightarrow> notifyFailed k s)"

definition importError :: "'h dispEnv \<Rightarrow> nat \<Rightarrow> int \<Rightarrow> 'h disp \<Rightarrow> 'h disp dispResult" where
  "importError env r code s =
     (case qr_job (reqs s ! r) of
        None \<Rightarrow> Inr s
      | Some a \<Rightarrow>
          (if qr_finishStatus (reqs s ! r) \<noteq> ACTIVE then Inr s
           else andThen (errorFinish env False r (on_handler a (h_errorFlush env code) s)) (\<lambda>(_, s). Inr s)))"

definition isQueryCancelled :: "nat \<Rightarrow> 'h disp \<Rightarrow> bool" where
  "isQueryCancelled r s =
     (case qr_job (reqs s ! r) of None \<Rightarrow> qr_cancelled (reqs s ! r) | Some _ \<Rightarrow> execCancelled s)"

datatype ssiResponse =
    RespErrInfo
  | RespNone
  | RespData string
  | RespError int
  | RespFile
  | RespStream

text \<open>\<open>QueryRequest::ProcessResponse\<close>.\<close>

definition ProcessResponse :: "'h dispEnv \<Rightarrow> nat \<Rightarrow> ssiResponse \<Rightarrow> 'h disp \<Rightarrow> 'h disp dispResult" where
  "ProcessResponse env r resp s =
     (let s = upd_req r (\<lambda>q. q\<lparr> qr_responded := True \<rparr>) s
      in if isQueryCancelled r s then andThen (requestCancel env r s) (\<lambda>(_, s). Inr s)
         else if qr_finishStatus (reqs s ! r) \<noteq> ACTIVE then Inr s
         else case qr_job (reqs s ! r) of
                None \<Rightarrow> Inl NullPointer
              | Some a \<Rightarrow>
                  (case resp of
                     RespErrInfo \<Rightarrow>
                       (let s = on_handler a (h_errorFlush env (- 1)) s;
                            s = updateInfo a RESPONSE_ERROR 0 s
                        in andThen (errorFinish env False r s) (\<lambda>(_, s). Inr s))
                   | RespNone \<Rightarrow> importError env r (- 1) s
                   | RespData buff \<Rightarrow>
                       if buff = ''MockResponse'' then finish env r (updateInfo a COMPLETE 0 s)
                       else importError env r (- 1) s
                   | RespError eNum \<Rightarrow> importError env r eNum (updateInfo a RESPONSE_ERROR eNum s)
                   | RespFile \<Rightarrow> importError env r (- 1) s
                   | RespStream \<Rightarrow> Inr (importStream r a (updateInfo a RESPONSE_READY 0 s))))"

definition notifyDataSuccess :: "nat \<Rightarrow> int \<Rightarrow> bool \<Rightarrow> 'h disp \<Rightarrow> 'h disp" where
  "notifyDataSuccess k blen isLast s =
     upd_ask k (\<lambda>c. c\<lparr> ask_blen := blen, ask_last := isLast, ask_state := DATAREADY1 \<rparr>) s"

text \<open>\<open>QueryRequest::ProcessResponseData\<close>; \<open>eCode\<close> is the error code XrdSsi reports.\<close>

definition ProcessResponseData ::
    "'h dispEnv \<Rightarrow> nat \<Rightarrow> int \<Rightarrow> int \<Rightarrow> bool \<Rightarrow> 'h disp \<Rightarrow> 'h disp dispResult" where
  "ProcessResponseData env r eCode blen isLast s =
     (case qr_ask (reqs s ! r) of
        None \<Rightarrow> Inr s
      | Some k \<Rightarrow>
          (case qr_job (reqs s ! r) of
             None \<Rightarrow> andThen (errorFinish env False r s) (\<lambda>(_, s). Inr s)
           | Some a \<Rightarrow>
               (if qr_finishStatus (reqs s ! r) \<noteq> ACTIVE
                then andThen (errorFinish env False r s) (\<lambda>(_, s). Inr s)
                else if execCancelled s then andThen (errorFinish env True r s) (\<lambda>(_, s). Inr s)
                else if blen < 0
                then let s = updateInfo a RESPONSE_DATA_NACK eCode s;
                         s = on_handler a (h_errorFlush env eCode) s;
                         s = notifyFailed k s
                     in andThen (errorFinish env False r s) (\<lambda>(_, s). Inr s)
                else Inr (notifyDataSuccess k blen isLast (updateInfo a RESPONSE_DATA 0 s)))))"

text \<open>\<open>QueryRequest::_processData\<close>; \<open>flush\<close> may change \<open>isLast\<close> and report a large result.\<close>

definition processData :: "'h dispEnv \<Rightarrow> nat \<Rightarrow> nat \<Rightarrow> int \<Rightarrow> bool \<Rightarrow> 'h disp \<Rightarrow> 'h disp dispResult" where
  "processData env r a blen isLast s =
     (if execCancelled s then andThen (errorFinish env True r s) (\<lambda>(_, s). Inr s)
      else let s = upd_req r (\<lambda>q. q\<lparr> qr_ask := None \<rparr>) s;
               ((flushOk, isLast, large), h) = h_flush env blen isLast (jd_handler (jobs s ! a));
               s = on_handler a (\<lambda>_. h) s;
               s = (if large then upd_req r (\<lambda>q. q\<lparr> qr_largeResult := True \<rparr>) s else s)
           in if flushOk
              then if isLast then finish env r (updateInfo a COMPLETE 0 s)
                   else Inr (queueAskForResponse r a s)
              else let s = updateInfo a MERGE_ERROR (h_getError env (jd_handler (jobs s ! a))) s;
                       s = upd_req r (\<lambda>q. q\<lparr> qr_retried := True \<rparr>) s
                   in andThen (errorFinish env True r s) (\<lambda>(_, s). Inr s))"

text \<open>
  \<open>AskForResponseDataCmd::action\<close> up to its wait, and from there on. The weak pointer to the request
  is null once the request has been destroyed. The command stays in the store after it returned.
\<close>

definition askStart :: "'h dispEnv \<Rightarrow> nat \<Rightarrow> 'h disp \<Rightarrow> 'h disp dispResult" where
  "askStart env k s =
     (let r = ask_req (asks s ! k); a = ask_job (asks s ! k);
          returned = upd_ask k (\<lambda>c. c\<lparr> ask_state := DONE2, ask_phase := AskReturned \<rparr>)
      in if qr_destroyed (reqs s ! r) then Inr (returned s)
         else if isQueryCancelled r s
         then andThen (errorFinish env True r s) (\<lambda>(_, s). Inr (returned s))
         else let (sz, h) = h_nextBuffer env (jd_handler (jobs s ! a));
                  s = on_handler a (\<lambda>_. h) s;
                  s = ssi (GetResponseData r sz) s
              in Inr (upd_ask k (\<lambda>c. c\<lparr> ask_phase := AskWaiting \<rparr>) s))"

definition askResume :: "'h dispEnv \<Rightarrow> nat \<Rightarrow> 'h disp \<Rightarrow> 'h disp dispResult" where
  "askResume env k s =
     (let c = asks s ! k; r = ask_req c; a = ask_job c;
          s = upd_ask k (\<lambda>c. c\<lparr> ask_phase := AskReturned \<rparr>) s;
          setDone = (\<lambda>s. Inr (upd_ask k (\<lambda>c. c\<lparr> ask_state := DONE2 \<rparr>) s))
      in if ask_state c = DONE2
         then if qr_destroyed (reqs s ! r) then Inr s
              else andThen (errorFinish env False r s) (\<lambda>(_, s). Inr s)
         else if qr_destroyed (reqs s ! r) then setDone s
         else andThen (processData env r a (ask_blen c) (ask_last c) s) setDone)"

section \<open>Runs\<close>

text \<open>
  The events of a query. XrdSsi responds once per request, does not call into a request that has
  been destroyed, and may otherwise deliver anything at any time, also before the thread that sent
  the request has written the status \<open>REQUEST\<close>.
\<close>

datatype 'h dispEvent =
    EvAdd "'h jobDescription"
  | EvSquash
  | EvResponse nat ssiResponse
  | EvData nat int int bool
  | EvAskStart nat
  | EvAskResume nat
  | EvWriteRequest nat

fun enabled :: "'h disp \<Rightarrow> 'h dispEvent \<Rightarrow> bool" where
  "enabled s (EvAdd d) \<longleftrightarrow> True"
| "enabled s EvSquash \<longleftrightarrow> True"
| "enabled s (EvResponse r resp) \<longleftrightarrow>
     r < length (reqs s) \<and> \<not> qr_responded (reqs s ! r) \<and> \<not> qr_destroyed (reqs s ! r)"
| "enabled s (EvData r e blen isLast) \<longleftrightarrow> r < length (reqs s) \<and> \<not> qr_destroyed (reqs s ! r)"
| "enabled s (EvAskStart k) \<longleftrightarrow> k < length (asks s) \<and> ask_phase (asks s ! k) = AskQueued"
| "enabled s (EvAskResume k) \<longleftrightarrow>
     k < length (asks s) \<and> ask_phase (asks s ! k) = AskWaiting \<and> ask_state (asks s ! k) \<noteq> STARTED0"
| "enabled s (EvWriteRequest a) \<longleftrightarrow> a < length (jobs s) \<and> 0 < jq_toWrite (jobs s ! a)"

fun handle :: "'h dispEnv \<Rightarrow> 'h dispEvent \<Rightarrow> 'h disp \<Rightarrow> 'h disp dispResult" where
  "handle env (EvAdd d) s = andThen (add env d s) (\<lambda>(_, s). Inr s)"
| "handle env EvSquash s = squash env s"
| "handle env (EvResponse r resp) s = ProcessResponse env r resp s"
| "handle env (EvData r e blen isLast) s = ProcessResponseData env r e blen isLast s"
| "handle env (EvAskStart k) s = askStart env k s"
| "handle env (EvAskResume k) s = askResume env k s"
| "handle env (EvWriteRequest a) s = Inr (writeRequest a s)"

end
