(* ===== verification/Dispatch_Invariant.thy ===== *)
theory Dispatch_Invariant
  imports Job_Dispatch
begin

text \<open>
  The invariant of query dispatch and its preservation by every call-back of \<open>Job_Dispatch\<close>.
  The parts of the invariant are separate predicates; while an operation is under way a
  request may be closing (\<open>L\<close>), a job may be between two requests (\<open>J\<close>) and a response may not yet
  have been turned into an ask command (\<open>P\<close>).
\<close>

section \<open>The parts of the invariant\<close>

definition active :: "'h disp \<Rightarrow> nat \<Rightarrow> bool" where
  "active s r \<longleftrightarrow> r < length (reqs s) \<and> qr_finishStatus (reqs s ! r) = ACTIVE"

definition tracked :: "'h disp \<Rightarrow> nat \<Rightarrow> bool" where
  "tracked s a \<longleftrightarrow> (jd_id (jobs s ! a), a) \<in> set (incompleteJobs s)"

definition maps_ok :: "'h disp \<Rightarrow> bool" where
  "maps_ok s \<longleftrightarrow> distinct (map fst (jobMap s)) \<and> distinct (map snd (jobMap s))
     \<and> (\<forall>(i, a) \<in> set (jobMap s). a < length (jobs s) \<and> jd_id (jobs s ! a) = i)
     \<and> set (incompleteJobs s) \<subseteq> set (jobMap s) \<and> requestCount s = int (length (jobMap s))"

definition job_ok :: "'h disp \<Rightarrow> nat \<Rightarrow> bool" where
  "job_ok s a \<longleftrightarrow> - 1 \<le> jd_attemptCount (jobs s ! a) \<and> jd_attemptCount (jobs s ! a) \<le> getMaxAttempts
     \<and> (jq_inSsi (jobs s ! a) \<longrightarrow> jq_request (jobs s ! a) \<noteq> None)
     \<and> (\<forall>r. jq_request (jobs s ! a) = Some r \<longrightarrow> r < length (reqs s)
          \<and> (qr_finishStatus (reqs s ! r) = ACTIVE \<longrightarrow> qr_job (reqs s ! r) = Some a))
     \<and> (jq_cancelled (jobs s ! a) \<longrightarrow> execCancelled s)"

text \<open>An active request belongs to a tracked job, which knows it; its payload has been built.\<close>

definition req_ok :: "'h dispEnv \<Rightarrow> nat set \<Rightarrow> 'h disp \<Rightarrow> nat \<Rightarrow> bool" where
  "req_ok env L s r \<longleftrightarrow>
     (qr_finishStatus (reqs s ! r) = ACTIVE \<longrightarrow>
        (\<exists>a. qr_job (reqs s ! r) = Some a \<and> a < length (jobs s) \<and> jq_request (jobs s ! a) = Some r
           \<and> jq_inSsi (jobs s ! a) \<and> tracked s a
           \<and> jd_payloads (jobs s ! a) (jd_attemptCount (jobs s ! a))
              = Some (serializeMsg env (jd_id (jobs s ! a)) (jd_attemptCount (jobs s ! a))))
        \<and> \<not> qr_calledMarkComplete (reqs s ! r) \<and> \<not> qr_destroyed (reqs s ! r))
     \<and> (qr_finishStatus (reqs s ! r) \<noteq> ACTIVE \<and> r \<notin> L \<longrightarrow> qr_job (reqs s ! r) = None)
     \<and> (qr_finishStatus (reqs s ! r) = ACTIVE \<and> r \<notin> L \<longrightarrow> \<not> qr_cancelled (reqs s ! r))
     \<and> (qr_finishedCalled (reqs s ! r) \<longleftrightarrow> qr_finishStatus (reqs s ! r) \<noteq> ACTIVE)"

definition live :: "nat set \<Rightarrow> 'h disp \<Rightarrow> bool" where
  "live J s \<longleftrightarrow> (\<forall>(i, a) \<in> set (incompleteJobs s). a \<in> J
     \<or> (\<exists>r. jq_request (jobs s ! a) = Some r \<and> active s r \<and> qr_job (reqs s ! r) = Some a))"

text \<open>A command that has not returned works for the active request that asked for it.\<close>

definition ask_ok :: "nat set \<Rightarrow> 'h disp \<Rightarrow> nat \<Rightarrow> bool" where
  "ask_ok L s k \<longleftrightarrow> ask_phase (asks s ! k) \<noteq> AskReturned \<longrightarrow> ask_req (asks s ! k) < length (reqs s)
     \<and> (ask_req (asks s ! k) \<in> L \<or> qr_destroyed (reqs s ! ask_req (asks s ! k)) \<or> execCancelled s
        \<or> qr_finishStatus (reqs s ! ask_req (asks s ! k)) = ACTIVE
          \<and> qr_ask (reqs s ! ask_req (asks s ! k)) = Some k
          \<and> qr_job (reqs s ! ask_req (asks s ! k)) = Some (ask_job (asks s ! k)))"

text \<open>A request that has its response waits for a command that is queued, waiting or ready.\<close>

definition has_ask :: "'h disp \<Rightarrow> nat \<Rightarrow> bool" where
  "has_ask s r \<longleftrightarrow> (\<exists>k < length (asks s). qr_ask (reqs s ! r) = Some k \<and> ask_req (asks s ! k) = r
     \<and> ask_phase (asks s ! k) \<noteq> AskReturned)"

definition pend :: "nat set \<Rightarrow> 'h disp \<Rightarrow> bool" where
  "pend P s \<longleftrightarrow> (\<forall>r. active s r \<longrightarrow> (qr_responded (reqs s ! r) \<longrightarrow> r \<notin> P \<longrightarrow> has_ask s r)
     \<and> (\<not> qr_responded (reqs s ! r) \<longrightarrow> qr_ask (reqs s ! r) = None))"

text \<open>A job that is done was marked \<open>COMPLETE\<close>; a late write of \<open>REQUEST\<close> may have replaced that.\<close>

definition stat_ok :: "'h disp \<Rightarrow> bool" where
  "stat_ok s \<longleftrightarrow> execCancelled s \<or> (\<forall>(i, a) \<in> set (jobMap s).
     (i, a) \<in> set (incompleteJobs s) \<or> st_state (jq_status (jobs s ! a)) \<in> {COMPLETE, REQUEST})"

fun is_finished :: "nat \<Rightarrow> ssiCall \<Rightarrow> bool" where
  "is_finished r (Finished r' c) \<longleftrightarrow> r = r'"
| "is_finished r _ \<longleftrightarrow> False"

fun is_request :: "nat \<Rightarrow> ssiCall \<Rightarrow> bool" where
  "is_request a (ProcessRequest r a') \<longleftrightarrow> a = a'"
| "is_request a _ \<longleftrightarrow> False"

definition finished_count :: "'h disp \<Rightarrow> nat \<Rightarrow> nat" where
  "finished_count s r = length (filter (is_finished r) (ssiCalls s))"

definition attempts :: "'h disp \<Rightarrow> nat \<Rightarrow> nat" where
  "attempts s a = length (filter (is_request a) (ssiCalls s))"

definition trace_ok :: "'h disp \<Rightarrow> bool" where
  "trace_ok s \<longleftrightarrow>
     (\<forall>r < length (reqs s). finished_count s r = of_bool (qr_finishedCalled (reqs s ! r)))
     \<and> (\<forall>r \<ge> length (reqs s). finished_count s r = 0)
     \<and> (\<forall>a < length (jobs s). int (attempts s a) \<le> jd_attemptCount (jobs s ! a) + 1)
     \<and> (\<forall>a \<ge> length (jobs s). attempts s a = 0)"

definition dinv :: "'h dispEnv \<Rightarrow> nat set \<Rightarrow> nat set \<Rightarrow> nat set \<Rightarrow> 'h disp \<Rightarrow> bool" where
  "dinv env L J P s \<longleftrightarrow> maps_ok s \<and> (\<forall>a < length (jobs s). job_ok s a)
     \<and> (\<forall>r < length (reqs s). req_ok env L s r) \<and> live J s \<and> (\<forall>k < length (asks s). ask_ok L s k)
     \<and> pend P s \<and> stat_ok s \<and> trace_ok s"

lemma dinvI:
  assumes "maps_ok s" "\<And>a. a < length (jobs s) \<Longrightarrow> job_ok s a" "\<And>r. r < length (reqs s) \<Longrightarrow> req_ok env L s r"
    "live J s" "\<And>k. k < length (asks s) \<Longrightarrow> ask_ok L s k" "pend P s" "stat_ok s" "trace_ok s"
  shows "dinv env L J P s"
  using assms by (simp add: dinv_def)

lemma dinvD:
  assumes "dinv env L J P s"
  shows "maps_ok s" "\<And>a. a < length (jobs s) \<Longrightarrow> job_ok s a" "\<And>r. r < length (reqs s) \<Longrightarrow> req_ok env L s r"
    "live J s" "\<And>k. k < length (asks s) \<Longrightarrow> ask_ok L s k" "pend P s" "stat_ok s" "trace_ok s"
  using assms by (simp_all add: dinv_def)

lemma dinv_mono:
  assumes "dinv env L J P s" "L \<subseteq> L'" "J \<subseteq> J'" "P \<subseteq> P'"
  shows "dinv env L' J' P' s"
proof -
  note d = dinvD [OF assms(1)]
  have "req_ok env L' s r" if "r < length (reqs s)" for r
    using d(3) [OF that] assms(2) by (auto simp: req_ok_def)
  moreover have "live J' s" using d(4) assms(3) unfolding live_def by fastforce
  moreover have "ask_ok L' s k" if "k < length (asks s)" for k
    using d(5) [OF that] assms(2) by (auto simp: ask_ok_def)
  moreover have "pend P' s" using d(6) assms(4) unfolding pend_def by blast
  ultimately show ?thesis using d by (intro dinvI) auto
qed

section \<open>Stores\<close>

lemma upd_job_sel [simp]:
  "reqs (upd_job a f s) = reqs s" "asks (upd_job a f s) = asks s" "jobMap (upd_job a f s) = jobMap s"
  "incompleteJobs (upd_job a f s) = incompleteJobs s" "execCancelled (upd_job a f s) = execCancelled s"
  "requestCount (upd_job a f s) = requestCount s" "ssiCalls (upd_job a f s) = ssiCalls s"
  "length (jobs (upd_job a f s)) = length (jobs s)"
  by (simp_all add: upd_job_def)

lemma upd_req_sel [simp]:
  "jobs (upd_req r g s) = jobs s" "asks (upd_req r g s) = asks s" "jobMap (upd_req r g s) = jobMap s"
  "incompleteJobs (upd_req r g s) = incompleteJobs s" "execCancelled (upd_req r g s) = execCancelled s"
  "requestCount (upd_req r g s) = requestCount s" "ssiCalls (upd_req r g s) = ssiCalls s"
  "length (reqs (upd_req r g s)) = length (reqs s)"
  by (simp_all add: upd_req_def)

lemma upd_ask_sel [simp]:
  "jobs (upd_ask k h s) = jobs s" "reqs (upd_ask k h s) = reqs s" "jobMap (upd_ask k h s) = jobMap s"
  "incompleteJobs (upd_ask k h s) = incompleteJobs s" "execCancelled (upd_ask k h s) = execCancelled s"
  "requestCount (upd_ask k h s) = requestCount s" "ssiCalls (upd_ask k h s) = ssiCalls s"
  "length (asks (upd_ask k h s)) = length (asks s)"
  by (simp_all add: upd_ask_def)

lemma ssi_sel [simp]:
  "jobs (ssi c s) = jobs s" "reqs (ssi c s) = reqs s" "asks (ssi c s) = asks s" "jobMap (ssi c s) = jobMap s"
  "incompleteJobs (ssi c s) = incompleteJobs s" "execCancelled (ssi c s) = execCancelled s"
  "requestCount (ssi c s) = requestCount s" "ssiCalls (ssi c s) = ssiCalls s @ [c]"
  by (simp_all add: ssi_def)

lemma upd_job_nth:
  "jobs (upd_job a f s) ! b = (if b = a \<and> a < length (jobs s) then f (jobs s ! a) else jobs s ! b)"
  by (cases "a < length (jobs s)") (auto simp: upd_job_def nth_list_update list_update_beyond)

lemma upd_req_nth:
  "reqs (upd_req r g s) ! q = (if q = r \<and> r < length (reqs s) then g (reqs s ! r) else reqs s ! q)"
  by (cases "r < length (reqs s)") (auto simp: upd_req_def nth_list_update list_update_beyond)

lemma upd_ask_nth:
  "asks (upd_ask k h s) ! j = (if j = k \<and> k < length (asks s) then h (asks s ! k) else asks s ! j)"
  by (cases "k < length (asks s)") (auto simp: upd_ask_def nth_list_update list_update_beyond)

lemma active_upd [simp]:
  "active (upd_job a f s) = active s" "active (upd_ask k h s) = active s" "active (ssi c s) = active s"
  by (simp_all add: active_def fun_eq_iff)

text \<open>What a change of the handler or the status of a job leaves alone.\<close>

definition job_core :: "'h job \<Rightarrow> int \<times> int \<times> (int \<rightharpoonup> string) \<times> nat option \<times> bool \<times> bool" where
  "job_core j = (jd_id j, jd_attemptCount j, jd_payloads j, jq_request j, jq_inSsi j, jq_cancelled j)"

lemma dinv_job_core:
  assumes "dinv env L J P s" "\<And>j. job_core (f j) = job_core j"
    and "execCancelled s \<or> tracked s a \<or> st_state (jq_status (f (jobs s ! a))) \<in> {COMPLETE, REQUEST}
      \<or> jq_status (f (jobs s ! a)) = jq_status (jobs s ! a)"
  shows "dinv env L J P (upd_job a f s)"
proof -
  let ?s = "upd_job a f s"
  have e: "jd_id (jobs ?s ! b) = jd_id (jobs s ! b)" "jd_attemptCount (jobs ?s ! b) = jd_attemptCount (jobs s ! b)"
    "jd_payloads (jobs ?s ! b) = jd_payloads (jobs s ! b)" "jq_request (jobs ?s ! b) = jq_request (jobs s ! b)"
    "jq_inSsi (jobs ?s ! b) = jq_inSsi (jobs s ! b)" "jq_cancelled (jobs ?s ! b) = jq_cancelled (jobs s ! b)" for b
    using assms(2) [of "jobs s ! a"] by (auto simp: upd_job_nth job_core_def)
  note d = dinvD [OF assms(1)]
  have "stat_ok ?s"
    using d(1,7) assms(3) by (auto simp: stat_ok_def maps_ok_def tracked_def upd_job_nth)
  moreover have "tracked ?s = tracked s" by (simp add: tracked_def e fun_eq_iff)
  ultimately show ?thesis
    using d by (intro dinvI) (simp_all add: maps_ok_def job_ok_def req_ok_def live_def ask_ok_def pend_def
      has_ask_def trace_ok_def finished_count_def attempts_def e)
qed

text \<open>What a change of the flags of a request leaves alone.\<close>

definition req_core ::
    "request \<Rightarrow> nat option \<times> bool \<times> finishStatus \<times> bool \<times> nat option \<times> bool \<times> bool \<times> bool" where
  "req_core q = (qr_job q, qr_calledMarkComplete q, qr_finishStatus q, qr_finishedCalled q, qr_ask q,
     qr_responded q, qr_destroyed q, qr_cancelled q)"

lemma dinv_req_core:
  assumes "dinv env L J P s" "\<And>q. req_core (g q) = req_core q"
  shows "dinv env L J P (upd_req r g s)"
proof -
  let ?s = "upd_req r g s"
  have e: "qr_job (reqs ?s ! q) = qr_job (reqs s ! q)"
    "qr_calledMarkComplete (reqs ?s ! q) = qr_calledMarkComplete (reqs s ! q)"
    "qr_finishStatus (reqs ?s ! q) = qr_finishStatus (reqs s ! q)"
    "qr_finishedCalled (reqs ?s ! q) = qr_finishedCalled (reqs s ! q)"
    "qr_ask (reqs ?s ! q) = qr_ask (reqs s ! q)" "qr_responded (reqs ?s ! q) = qr_responded (reqs s ! q)"
    "qr_destroyed (reqs ?s ! q) = qr_destroyed (reqs s ! q)"
    "qr_cancelled (reqs ?s ! q) = qr_cancelled (reqs s ! q)" for q
    using assms(2) [of "reqs s ! r"] by (auto simp: upd_req_nth req_core_def)
  note d = dinvD [OF assms(1)]
  have "active ?s = active s" by (simp add: active_def e fun_eq_iff)
  then show ?thesis
    using d by (intro dinvI) (simp_all add: maps_ok_def job_ok_def req_ok_def live_def ask_ok_def pend_def
      has_ask_def trace_ok_def finished_count_def attempts_def stat_ok_def tracked_def e)
qed

text \<open>What the notifications of an ask command leave alone.\<close>

definition ask_core :: "askCmd \<Rightarrow> nat \<times> nat \<times> askPhase" where
  "ask_core c = (ask_req c, ask_job c, ask_phase c)"

lemma dinv_ask_core:
  assumes "dinv env L J P s" "\<And>c. ask_core (h c) = ask_core c"
  shows "dinv env L J P (upd_ask k h s)"
proof -
  let ?s = "upd_ask k h s"
  have e: "ask_req (asks ?s ! j) = ask_req (asks s ! j)" "ask_job (asks ?s ! j) = ask_job (asks s ! j)"
    "ask_phase (asks ?s ! j) = ask_phase (asks s ! j)" for j
    using assms(2) [of "asks s ! k"] by (auto simp: upd_ask_nth ask_core_def)
  show ?thesis
    using dinvD [OF assms(1)] by (intro dinvI) (simp_all add: maps_ok_def job_ok_def req_ok_def live_def ask_ok_def
      pend_def has_ask_def trace_ok_def finished_count_def attempts_def stat_ok_def tracked_def e)
qed

lemma dinv_fields:
  assumes "dinv env L J P s"
  shows "dinv env L J P (s\<lparr> multiError := x1 \<rparr>)" "dinv env L J P (s\<lparr> emptyFlag := x2 \<rparr>)"
    "dinv env L J P (ssi (GetResponseData r n) s)"
  using dinvD [OF assms] by (auto intro!: dinvI simp: maps_ok_def job_ok_def req_ok_def live_def ask_ok_def
      pend_def has_ask_def trace_ok_def finished_count_def attempts_def stat_ok_def tracked_def active_def)

lemma active_req:
  assumes "dinv env L J P s" "active s r"
  obtains a where "qr_job (reqs s ! r) = Some a" "a < length (jobs s)" "jq_request (jobs s ! a) = Some r"
    "jq_inSsi (jobs s ! a)" "tracked s a" "\<not> qr_calledMarkComplete (reqs s ! r)" "r < length (reqs s)"
    "\<not> qr_destroyed (reqs s ! r)" "(jd_id (jobs s ! a), a) \<in> set (jobMap s)"
proof -
  have r: "r < length (reqs s)" "qr_finishStatus (reqs s ! r) = ACTIVE" using assms(2) by (simp_all add: active_def)
  with dinvD(3) [OF assms(1) r(1)] obtain a where a: "qr_job (reqs s ! r) = Some a" "a < length (jobs s)"
    "jq_request (jobs s ! a) = Some r" "jq_inSsi (jobs s ! a)" "tracked s a"
    "\<not> qr_calledMarkComplete (reqs s ! r)" "\<not> qr_destroyed (reqs s ! r)" by (auto simp: req_ok_def)
  moreover have "(jd_id (jobs s ! a), a) \<in> set (jobMap s)"
    using a(5) dinvD(1) [OF assms(1)] by (auto simp: tracked_def maps_ok_def)
  ultimately show ?thesis using that r(1) by blast
qed

section \<open>Closing a request\<close>

definition closeReq :: "finishStatus \<Rightarrow> bool \<Rightarrow> bool \<Rightarrow> nat \<Rightarrow> 'h disp \<Rightarrow> 'h disp" where
  "closeReq fs c t r s =
     upd_req r (\<lambda>q. q\<lparr> qr_finishStatus := fs, qr_finishedCalled := True, qr_retried := t \<or> qr_retried q \<rparr>)
       (ssi (Finished r c) s)"

lemma closeReq_sel [simp]:
  "jobs (closeReq fs c t r s) = jobs s" "asks (closeReq fs c t r s) = asks s"
  "jobMap (closeReq fs c t r s) = jobMap s" "incompleteJobs (closeReq fs c t r s) = incompleteJobs s"
  "execCancelled (closeReq fs c t r s) = execCancelled s" "requestCount (closeReq fs c t r s) = requestCount s"
  "ssiCalls (closeReq fs c t r s) = ssiCalls s @ [Finished r c]"
  "length (reqs (closeReq fs c t r s)) = length (reqs s)"
  by (simp_all add: closeReq_def)

lemma closeReq_nth:
  "reqs (closeReq fs c t r s) ! q = (if q = r \<and> r < length (reqs s)
     then (reqs s ! r)\<lparr> qr_finishStatus := fs, qr_finishedCalled := True, qr_retried := t \<or> qr_retried (reqs s ! r) \<rparr>
     else reqs s ! q)"
  by (simp add: closeReq_def upd_req_nth)

lemma closeReq_active: "fs \<noteq> ACTIVE \<Longrightarrow> active (closeReq fs c t r s) q \<longleftrightarrow> active s q \<and> q \<noteq> r"
  by (auto simp: active_def closeReq_nth)

lemma dinv_close:
  assumes d: "dinv env L J P s" and r: "active s r" and a: "qr_job (reqs s ! r) = Some a" and fs: "fs \<noteq> ACTIVE"
  shows "dinv env (insert r L) (insert a J) P (closeReq fs c t r s)"
proof -
  let ?s = "closeReq fs c t r s"
  note d' = dinvD [OF d]
  have lt: "r < length (reqs s)" and A: "qr_finishStatus (reqs s ! r) = ACTIVE" using r by (simp_all add: active_def)
  have e: "qr_job (reqs ?s ! q) = qr_job (reqs s ! q)"
    "qr_calledMarkComplete (reqs ?s ! q) = qr_calledMarkComplete (reqs s ! q)"
    "qr_ask (reqs ?s ! q) = qr_ask (reqs s ! q)" "qr_responded (reqs ?s ! q) = qr_responded (reqs s ! q)"
    "qr_destroyed (reqs ?s ! q) = qr_destroyed (reqs s ! q)" "qr_cancelled (reqs ?s ! q) = qr_cancelled (reqs s ! q)"
    "qr_finishStatus (reqs ?s ! q) = (if q = r then fs else qr_finishStatus (reqs s ! q))"
    "qr_finishedCalled (reqs ?s ! q) \<longleftrightarrow> q = r \<or> qr_finishedCalled (reqs s ! q)" for q
    using lt by (auto simp: closeReq_nth)
  have t: "tracked ?s = tracked s" by (simp add: tracked_def fun_eq_iff)
  have nf: "\<not> qr_finishedCalled (reqs s ! r)" using d'(3) [OF lt] A by (simp add: req_ok_def)
  show ?thesis
  proof (rule dinvI)
    show "maps_ok ?s" using d'(1) by (simp add: maps_ok_def)
    show "job_ok ?s b" if "b < length (jobs ?s)" for b using d'(2) [of b] that fs by (auto simp: job_ok_def e)
    show "req_ok env (insert r L) ?s q" if "q < length (reqs ?s)" for q
      using d'(3) [of q] that fs by (auto simp: req_ok_def e t)
    show "live (insert a J) ?s"
      using d'(4) a unfolding live_def by (fastforce simp: e closeReq_active [OF fs])
    show "ask_ok (insert r L) ?s k" if "k < length (asks ?s)" for k
      using d'(5) [of k] that by (auto simp: ask_ok_def e)
    show "pend P ?s" using d'(6) by (simp add: pend_def has_ask_def e closeReq_active [OF fs])
    show "stat_ok ?s" using d'(7) by (simp add: stat_ok_def)
    have "finished_count ?s q = finished_count s q + of_bool (q = r)" for q by (simp add: finished_count_def)
    moreover have "attempts ?s b = attempts s b" for b by (simp add: attempts_def)
    ultimately show "trace_ok ?s" using d'(8) lt nf by (auto simp: trace_ok_def e)
  qed
qed

section \<open>Leaving the set of incomplete jobs\<close>

lemma maps_unique:
  "maps_ok s \<Longrightarrow> (i, a) \<in> set (jobMap s) \<Longrightarrow> (i, b) \<in> set (jobMap s) \<Longrightarrow> a = b"
  by (simp add: maps_ok_def) (metis Some_eq_map_of_iff option.inject)

lemma unTrack_sel [simp]:
  "jobs (unTrack i s) = jobs s" "reqs (unTrack i s) = reqs s" "asks (unTrack i s) = asks s"
  "jobMap (unTrack i s) = jobMap s" "execCancelled (unTrack i s) = execCancelled s"
  "requestCount (unTrack i s) = requestCount s" "ssiCalls (unTrack i s) = ssiCalls s"
  "incompleteJobs (unTrack i s) = filter (\<lambda>p. fst p \<noteq> i) (incompleteJobs s)"
  "active (unTrack i s) = active s"
  by (simp_all add: unTrack_def active_def fun_eq_iff)

lemma dinv_unTrack:
  assumes d: "dinv env L J P s" and a: "tracked s a"
    and no: "\<And>r. active s r \<Longrightarrow> qr_job (reqs s ! r) \<noteq> Some a"
    and ok: "execCancelled s \<or> st_state (jq_status (jobs s ! a)) = COMPLETE"
  shows "dinv env L (J - {a}) P (unTrack (jd_id (jobs s ! a)) s)"
proof -
  let ?i = "jd_id (jobs s ! a)"
  let ?s = "unTrack ?i s"
  note d' = dinvD [OF d]
  have mp: "(?i, a) \<in> set (jobMap s)" using a d'(1) by (auto simp: tracked_def maps_ok_def)
  have inc: "set (incompleteJobs s) \<subseteq> set (jobMap s)" using d'(1) by (simp add: maps_ok_def)
  have tr: "tracked ?s b" if "tracked s b" "b \<noteq> a" for b
    using that inc mp maps_unique [OF d'(1)] by (auto simp: tracked_def)
  show ?thesis
  proof (rule dinvI)
    show "maps_ok ?s" using d'(1) by (auto simp: maps_ok_def)
    show "job_ok ?s b" if "b < length (jobs ?s)" for b using d'(2) that by (simp add: job_ok_def)
    show "req_ok env L ?s q" if "q < length (reqs ?s)" for q
    proof -
      have "q < length (reqs s)" using that by simp
      then show ?thesis
        using d'(3) [of q] no [of q] tr by (auto simp: req_ok_def active_def)
    qed
    show "live (J - {a}) ?s"
      using d'(4) inc d'(1) unfolding live_def by (fastforce simp: maps_ok_def)
    show "ask_ok L ?s k" if "k < length (asks ?s)" for k using d'(5) [of k] that by (simp add: ask_ok_def)
    show "pend P ?s" using d'(6) by (simp add: pend_def has_ask_def)
    show "stat_ok ?s"
      using d'(7) ok maps_unique [OF d'(1) mp] by (auto simp: stat_ok_def)
    show "trace_ok ?s" using d'(8) by (simp add: trace_ok_def finished_count_def attempts_def)
  qed
qed

section \<open>Cancelling\<close>

text \<open>What cancelling leaves alone; the requests in \<open>L\<close> are closing already.\<close>

definition close_core :: "request \<Rightarrow> nat option \<times> finishStatus \<times> bool" where
  "close_core q = (qr_job q, qr_finishStatus q, qr_calledMarkComplete q)"

definition keeps :: "nat set \<Rightarrow> 'h disp \<Rightarrow> 'h disp \<Rightarrow> bool" where
  "keeps L s s' \<longleftrightarrow> jobMap s' = jobMap s \<and> length (jobs s') = length (jobs s) \<and> length (reqs s') = length (reqs s)
     \<and> asks s' = asks s \<and> (execCancelled s \<longrightarrow> execCancelled s')
     \<and> (\<forall>b. jq_request (jobs s' ! b) = jq_request (jobs s ! b) \<and> jd_id (jobs s' ! b) = jd_id (jobs s ! b))
     \<and> (\<forall>r \<in> L. close_core (reqs s' ! r) = close_core (reqs s ! r))
     \<and> set (incompleteJobs s') \<subseteq> set (incompleteJobs s)"

lemma keeps_refl [simp]: "keeps L s s"
  by (simp add: keeps_def)

lemma keeps_trans: "keeps L s s' \<Longrightarrow> keeps L s' s'' \<Longrightarrow> keeps L s s''"
  unfolding keeps_def by (elim conjE) (intro conjI; auto)

lemma keeps_job:
  "(\<And>j. job_core (f j) = job_core j) \<Longrightarrow> keeps L s (upd_job a f s)"
  by (auto simp: keeps_def upd_job_nth job_core_def)

lemma keeps_req: "r \<notin> L \<or> (\<forall>q. close_core (g q) = close_core q) \<Longrightarrow> keeps L s (upd_req r g s)"
  by (auto simp: keeps_def upd_req_nth)

definition nothing_active :: "'h disp \<Rightarrow> nat \<Rightarrow> bool" where
  "nothing_active s a \<longleftrightarrow> (\<forall>r. active s r \<longrightarrow> qr_job (reqs s ! r) \<noteq> Some a)"

lemma dinv_drop_J:
  assumes "dinv env L J P s" "\<not> tracked s a"
  shows "dinv env L (J - {a}) P s"
proof -
  have "live (J - {a}) s"
    using dinvD(1,4) [OF assms(1)] assms(2) unfolding live_def by (fastforce simp: maps_ok_def tracked_def)
  then show ?thesis using dinvD [OF assms(1)] by (intro dinvI) auto
qed

lemma map_of_incomplete:
  assumes "maps_ok s" "(jd_id (jobs s ! a), a) \<in> set (jobMap s)"
  shows "map_of (incompleteJobs s) (jd_id (jobs s ! a)) = (if tracked s a then Some a else None)"
proof -
  have b: "b = a" if "(jd_id (jobs s ! a), b) \<in> set (incompleteJobs s)" for b
    using that assms maps_unique [OF assms(1)] by (auto simp: maps_ok_def)
  show ?thesis
  proof (cases "map_of (incompleteJobs s) (jd_id (jobs s ! a))")
    case None
    then show ?thesis by (force simp: tracked_def map_of_eq_None_iff)
  next
    case (Some b)
    then show ?thesis using b [of b] map_of_SomeD [OF Some] by (auto simp: tracked_def)
  qed
qed

text \<open>\<open>markCompleted\<close> of a failed job, up to the call of \<open>squash\<close>.\<close>

definition failJob :: "'h dispEnv \<Rightarrow> nat \<Rightarrow> 'h disp \<Rightarrow> 'h disp" where
  "failJob env a s =
     (let err = h_getError env (jd_handler (jobs s ! a))
      in unTrack (jd_id (jobs s ! a))
           ((updateInfo a RESULT_ERROR err s)\<lparr> multiError := multiError s @ [err] \<rparr>))"

lemma markCompleted_False:
  assumes "maps_ok s" "(jd_id (jobs s ! a), a) \<in> set (jobMap s)"
  shows "markCompleted_w env sq (jd_id (jobs s ! a)) False s =
    (if tracked s a then sq (failJob env a s) else if execCancelled s then Inr s else Inl Bug)"
proof -
  have "map_of (jobMap s) (jd_id (jobs s ! a)) = Some a" using assms by (simp add: maps_ok_def)
  then show ?thesis
    by (simp add: markCompleted_w_def map_of_incomplete [OF assms] failJob_def Let_def updateInfo_def upd_job_def)
qed

lemma failJob_sel [simp]:
  "reqs (failJob env a s) = reqs s" "asks (failJob env a s) = asks s" "jobMap (failJob env a s) = jobMap s"
  "execCancelled (failJob env a s) = execCancelled s" "requestCount (failJob env a s) = requestCount s"
  "ssiCalls (failJob env a s) = ssiCalls s" "length (jobs (failJob env a s)) = length (jobs s)"
  "incompleteJobs (failJob env a s) = filter (\<lambda>p. fst p \<noteq> jd_id (jobs s ! a)) (incompleteJobs s)"
  "active (failJob env a s) = active s"
  by (simp_all add: failJob_def Let_def updateInfo_def active_def fun_eq_iff)

lemma failJob_job:
  "b \<noteq> a \<Longrightarrow> jobs (failJob env a s) ! b = jobs s ! b"
  "job_core (jobs (failJob env a s) ! b) = job_core (jobs s ! b)"
  by (auto simp: failJob_def Let_def updateInfo_def upd_job_nth job_core_def)

lemma keeps_failJob: "keeps L s (failJob env a s)"
  using failJob_job(2) [of env a s] by (auto simp: keeps_def job_core_def)

lemma dinv_failJob:
  assumes d: "dinv env L J P s" and a: "tracked s a" and no: "nothing_active s a" and c: "execCancelled s"
  shows "dinv env L (J - {a}) P (failJob env a s)"
proof -
  let ?err = "h_getError env (jd_handler (jobs s ! a))"
  let ?u = "(updateInfo a RESULT_ERROR ?err s)\<lparr> multiError := multiError s @ [?err] \<rparr>"
  have "dinv env L J P ?u"
    unfolding updateInfo_def by (intro dinv_fields dinv_job_core [OF d]) (auto simp: job_core_def c)
  moreover have "jd_id (jobs ?u ! b) = jd_id (jobs s ! b)" for b by (simp add: updateInfo_def upd_job_nth)
  moreover have "tracked ?u a" "\<And>r. active ?u r \<Longrightarrow> qr_job (reqs ?u ! r) \<noteq> Some a"
    using a no by (auto simp: tracked_def nothing_active_def updateInfo_def upd_job_nth active_def)
  ultimately show ?thesis
    using dinv_unTrack [of env L J P ?u a] c by (simp add: failJob_def Let_def updateInfo_def)
qed

text \<open>What \<open>squash\<close> does when called while the query is being cancelled.\<close>

definition returns_when_cancelled :: "('h disp \<Rightarrow> 'h disp dispResult) \<Rightarrow> bool" where
  "returns_when_cancelled sq \<longleftrightarrow> (\<forall>s. execCancelled s \<longrightarrow> sq s = Inr s)"

lemma squash_inner_returns: "returns_when_cancelled squash_inner"
  by (simp add: returns_when_cancelled_def squash_inner_def)

lemma squash_w_returns: "returns_when_cancelled (squash_w env sq)"
  by (simp add: returns_when_cancelled_def squash_w_def)

lemma squash_returns: "returns_when_cancelled (squash env)"
  by (simp add: squash_def squash_w_returns)

lemma markCompleted_cancelled:
  assumes "dinv env L J P s" "execCancelled s" "returns_when_cancelled sq" "nothing_active s a"
    and "(jd_id (jobs s ! a), a) \<in> set (jobMap s)"
  obtains s' where "markCompleted_w env sq (jd_id (jobs s ! a)) False s = Inr s'" "dinv env L (J - {a}) P s'"
    "keeps L s s'" "reqs s' = reqs s" "\<not> tracked s' a" "\<And>b. b \<noteq> a \<Longrightarrow> jobs s' ! b = jobs s ! b"
    "job_core (jobs s' ! a) = job_core (jobs s ! a)" "ssiCalls s' = ssiCalls s"
proof (cases "tracked s a")
  case True
  let ?s = "failJob env a s"
  have "markCompleted_w env sq (jd_id (jobs s ! a)) False s = Inr ?s"
    using markCompleted_False [OF dinvD(1) [OF assms(1)] assms(5)] True assms(2,3)
    by (simp add: returns_when_cancelled_def)
  moreover have "\<not> tracked ?s a" using failJob_job(2) [of env a s a] by (simp add: tracked_def job_core_def)
  ultimately show ?thesis
    using that [of ?s] dinv_failJob [OF assms(1) True assms(4,2)] keeps_failJob [of L s env a] failJob_job
    by fastforce
next
  case False
  have "markCompleted_w env sq (jd_id (jobs s ! a)) False s = Inr s"
    using markCompleted_False [OF dinvD(1) [OF assms(1)] assms(5)] False assms(2) by simp
  then show ?thesis using that [of s] dinv_drop_J [OF assms(1) False] False by simp
qed

lemma upd_req_twice: "r < length (reqs s) \<Longrightarrow> upd_req r g (upd_req r f s) = upd_req r (\<lambda>q. g (f q)) s"
  by (simp add: upd_req_def)

lemma ssi_upd_req: "ssi c (upd_req r f s) = upd_req r f (ssi c s)"
  by (simp add: ssi_def upd_req_def)

text \<open>\<open>_errorFinish\<close> on a request that is active, with its first part folded into \<open>closeReq\<close>.\<close>

lemma errorFinish_active:
  assumes "active s r" "qr_job (reqs s ! r) = Some a"
  shows "errorFinish_w env sq run c r s =
    andThen
      (if \<not> qr_retried (reqs s ! r) \<and> \<not> c
       then andThen (run a (closeReq ERROR c True r s)) (\<lambda>(ok, s).
              if ok then Inr s else callMarkComplete_w env sq r False s)
       else callMarkComplete_w env sq r False (closeReq ERROR c True r s))
      (\<lambda>s. Inr (True, cleanup r s))"
proof -
  have lt: "r < length (reqs s)" using assms(1) by (simp add: active_def)
  have "upd_req r (\<lambda>q. q\<lparr> qr_retried := True \<rparr>) (upd_req r (\<lambda>q. q\<lparr> qr_finishedCalled := True \<rparr>)
      (ssi (Finished r c) (upd_req r (\<lambda>q. q\<lparr> qr_finishStatus := ERROR \<rparr>) s))) = closeReq ERROR c True r s"
    using lt by (simp add: ssi_upd_req upd_req_twice closeReq_def)
  moreover have "qr_retried (reqs (upd_req r (\<lambda>q. q\<lparr> qr_finishedCalled := True \<rparr>)
      (ssi (Finished r c) (upd_req r (\<lambda>q. q\<lparr> qr_finishStatus := ERROR \<rparr>) s))) ! r) = qr_retried (reqs s ! r)"
    using lt by (simp add: upd_req_nth)
  ultimately show ?thesis
    using assms by (cases c) (simp_all add: errorFinish_w_def active_def Let_def)
qed

lemma errorFinish_not_active:
  "r < length (reqs s) \<Longrightarrow> \<not> active s r \<Longrightarrow> errorFinish_w env sq run c r s = Inr (False, s)"
  by (auto simp: errorFinish_w_def active_def split: option.splits)

text \<open>A request that is closing may record that it has reported.\<close>

lemma dinv_report:
  assumes d: "dinv env L J P s" and r: "r < length (reqs s)" "\<not> active s r"
  shows "dinv env L J P (upd_req r (\<lambda>q. q\<lparr> qr_calledMarkComplete := True \<rparr>) s)" (is "dinv _ _ _ _ ?s")
proof -
  note d' = dinvD [OF d]
  have e: "qr_job (reqs ?s ! q) = qr_job (reqs s ! q)"
    "qr_finishStatus (reqs ?s ! q) = qr_finishStatus (reqs s ! q)"
    "qr_finishedCalled (reqs ?s ! q) = qr_finishedCalled (reqs s ! q)"
    "qr_ask (reqs ?s ! q) = qr_ask (reqs s ! q)" "qr_responded (reqs ?s ! q) = qr_responded (reqs s ! q)"
    "qr_destroyed (reqs ?s ! q) = qr_destroyed (reqs s ! q)"
    "qr_cancelled (reqs ?s ! q) = qr_cancelled (reqs s ! q)" for q
    by (auto simp: upd_req_nth)
  have "active ?s = active s" "tracked ?s = tracked s" by (auto simp: active_def tracked_def e fun_eq_iff)
  moreover have "req_ok env L ?s q" if "q < length (reqs s)" for q
  proof (cases "q = r")
    case True
    then show ?thesis using d'(3) [OF that] r by (simp add: req_ok_def e active_def)
  next
    case False
    then show ?thesis using d'(3) [OF that] by (simp add: req_ok_def e \<open>tracked ?s = tracked s\<close> upd_req_nth)
  qed
  ultimately show ?thesis
    using d' by (intro dinvI) (simp_all add: maps_ok_def job_ok_def live_def ask_ok_def pend_def
      has_ask_def trace_ok_def finished_count_def attempts_def stat_ok_def e)
qed

text \<open>\<open>cleanup\<close> ends the closing of a request, if no command of it is left that would still use it.\<close>

lemma destroyRequest_unfold:
  assumes "qr_finishedCalled (reqs s ! r)"
  shows "destroyRequest r s = upd_req r (\<lambda>q. q\<lparr> qr_destroyed := True \<rparr>)
    (case qr_ask (reqs s ! r) of None \<Rightarrow> s | Some k \<Rightarrow> notifyFailed k s)"
  using assms by (simp add: destroyRequest_def Let_def notifyFailed_def split: option.splits)

lemma dinv_unlink:
  assumes d: "dinv env L J P s" and r: "r < length (reqs s)" "\<not> active s r"
    and ok: "execCancelled s \<or> dst \<or> (\<forall>k < length (asks s). ask_req (asks s ! k) = r \<longrightarrow> ask_phase (asks s ! k) = AskReturned)"
  shows "dinv env (L - {r}) J P (upd_req r (\<lambda>q. q\<lparr> qr_job := None, qr_destroyed := dst \<or> qr_destroyed q \<rparr>) s)"
    (is "dinv _ _ _ _ ?s")
proof -
  note d' = dinvD [OF d]
  have na: "qr_finishStatus (reqs s ! r) \<noteq> ACTIVE" using r by (simp add: active_def)
  have e: "qr_job (reqs ?s ! q) = (if q = r then None else qr_job (reqs s ! q))"
    "qr_finishStatus (reqs ?s ! q) = qr_finishStatus (reqs s ! q)"
    "qr_calledMarkComplete (reqs ?s ! q) = qr_calledMarkComplete (reqs s ! q)"
    "qr_finishedCalled (reqs ?s ! q) = qr_finishedCalled (reqs s ! q)"
    "qr_ask (reqs ?s ! q) = qr_ask (reqs s ! q)" "qr_responded (reqs ?s ! q) = qr_responded (reqs s ! q)"
    "qr_destroyed (reqs ?s ! q) \<longleftrightarrow> q = r \<and> dst \<or> qr_destroyed (reqs s ! q)"
    "qr_cancelled (reqs ?s ! q) = qr_cancelled (reqs s ! q)" for q
    using r(1) by (auto simp: upd_req_nth)
  have a: "active ?s = active s" and t: "tracked ?s = tracked s" by (auto simp: active_def tracked_def e fun_eq_iff)
  show ?thesis
  proof (rule dinvI)
    show "job_ok ?s b" if "b < length (jobs ?s)" for b using d'(2) [of b] that na by (auto simp: job_ok_def e)
    show "req_ok env (L - {r}) ?s q" if "q < length (reqs ?s)" for q
      using d'(3) [of q] that na by (cases "q = r") (simp_all add: req_ok_def e t)
    show "live J ?s"
      using d'(4) r(2) unfolding live_def a by (fastforce simp: e)
    show "ask_ok (L - {r}) ?s k" if "k < length (asks ?s)" for k
      using d'(5) [of k] that ok na by (cases "ask_req (asks s ! k) = r") (auto simp: ask_ok_def e)
  qed (use d' in \<open>simp_all add: maps_ok_def job_ok_def pend_def has_ask_def trace_ok_def
      finished_count_def attempts_def stat_ok_def e a\<close>)
qed

lemma dinv_cleanup:
  assumes d: "dinv env L J P s" and r: "r < length (reqs s)" "\<not> active s r"
    and ok: "execCancelled s
      \<or> (\<exists>a. qr_job (reqs s ! r) = Some a \<and> jq_request (jobs s ! a) \<noteq> Some r)
      \<or> (\<forall>k < length (asks s). ask_req (asks s ! k) = r \<longrightarrow> ask_phase (asks s ! k) = AskReturned)"
  shows "dinv env (L - {r}) J P (cleanup r s)"
proof -
  have na: "qr_finishStatus (reqs s ! r) \<noteq> ACTIVE" using r by (simp add: active_def)
  have fc: "qr_finishedCalled (reqs s ! r)" using dinvD(3) [OF d r(1)] na by (simp add: req_ok_def)
  show ?thesis
  proof (cases "\<exists>a. qr_job (reqs s ! r) = Some a \<and> jq_request (jobs s ! a) \<noteq> Some r")
    case False
    then have "cleanup r s = upd_req r (\<lambda>q. q\<lparr> qr_job := None, qr_destroyed := False \<or> qr_destroyed q \<rparr>) s"
      using na by (auto simp: cleanup_def Let_def split: option.splits)
    then show ?thesis using dinv_unlink [OF d r, of False] ok False by simp
  next
    case True
    let ?n = "case qr_ask (reqs s ! r) of None \<Rightarrow> s | Some k \<Rightarrow> notifyFailed k s"
    have n: "dinv env L J P ?n" "r < length (reqs ?n)" "\<not> active ?n r"
      using d r by (auto simp: notifyFailed_def ask_core_def intro!: dinv_ask_core split: option.splits)
    have "cleanup r s = destroyRequest r (upd_req r (\<lambda>q. q\<lparr> qr_job := None \<rparr>) s)"
      using na True by (auto simp: cleanup_def Let_def)
    also have "\<dots> = upd_req r (\<lambda>q. q\<lparr> qr_job := None, qr_destroyed := True \<or> qr_destroyed q \<rparr>) ?n"
      using r(1) fc
      by (auto simp: destroyRequest_unfold upd_req_nth notifyFailed_def upd_ask_def upd_req_def split: option.splits)
    finally show ?thesis using dinv_unlink [OF n, of True] by simp
  qed
qed

lemma one_active:
  assumes "dinv env L J P s" "active s r" "qr_job (reqs s ! r) = Some a" "active s q" "qr_job (reqs s ! q) = Some a"
  shows "q = r"
proof -
  obtain b where "qr_job (reqs s ! r) = Some b" "jq_request (jobs s ! b) = Some r"
    using active_req [OF assms(1,2)] by blast
  moreover obtain c where "qr_job (reqs s ! q) = Some c" "jq_request (jobs s ! c) = Some q"
    using active_req [OF assms(1,4)] by blast
  ultimately show ?thesis using assms(3,5) by simp
qed

lemma close_nothing_active:
  assumes "dinv env L J P s" "active s r" "qr_job (reqs s ! r) = Some a" "fs \<noteq> ACTIVE"
  shows "nothing_active (closeReq fs c t r s) a"
  unfolding nothing_active_def
proof (intro allI impI)
  fix q assume "active (closeReq fs c t r s) q"
  then have "active s q" "q \<noteq> r" by (simp_all add: closeReq_active [OF assms(4)])
  then show "qr_job (reqs (closeReq fs c t r s) ! q) \<noteq> Some a"
    using one_active [OF assms(1-3), of q] by (auto simp: closeReq_nth)
qed

text \<open>The report of a closing request, and its clean-up, once the query is cancelled.\<close>

lemma report_cancelled:
  assumes d: "dinv env (insert r L) J P s" and c: "execCancelled s" "returns_when_cancelled sq"
    and r: "r < length (reqs s)" "\<not> active s r" "r \<notin> L" and a: "qr_job (reqs s ! r) = Some a"
    and n: "nothing_active s a" and m: "(jd_id (jobs s ! a), a) \<in> set (jobMap s)"
    and rep: "tracked s a \<longrightarrow> \<not> qr_calledMarkComplete (reqs s ! r)" and rq: "jq_request (jobs s ! a) = Some r"
  obtains s' where "callMarkComplete_w env sq r False s = Inr s'" "dinv env L (J - {a}) P (cleanup r s')"
    "keeps L s (cleanup r s')" "\<not> tracked (cleanup r s') a"
    "\<And>b. b \<noteq> a \<Longrightarrow> jobs (cleanup r s') ! b = jobs s ! b"
    "job_core (jobs (cleanup r s') ! a) = job_core (jobs s ! a)"
proof -
  have clean: "dinv env L (J - {a}) P (cleanup r s') \<and> keeps L s (cleanup r s') \<and> \<not> tracked (cleanup r s') a
    \<and> jobs (cleanup r s') = jobs s'"
    if "dinv env (insert r L) (J - {a}) P s'" "keeps L s s'" "length (reqs s') = length (reqs s)"
      "qr_finishStatus (reqs s' ! r) = qr_finishStatus (reqs s ! r)" "qr_job (reqs s' ! r) = Some a"
      "\<not> tracked s' a" "jq_request (jobs s' ! a) = Some r" for s' :: "'a disp"
  proof -
    have na: "\<not> active s' r" "r < length (reqs s')" "execCancelled s'"
      using that(2-4) r c(1) by (simp_all add: active_def keeps_def)
    have "cleanup r s' = upd_req r (\<lambda>q. q\<lparr> qr_job := None \<rparr>) s'"
      using na that(5,7) by (simp add: cleanup_def active_def Let_def)
    moreover have "dinv env (insert r L - {r}) (J - {a}) P (cleanup r s')"
      using dinv_cleanup [OF that(1) na(2,1)] na(3) by simp
    ultimately show ?thesis
      using that(2,6) r(3) keeps_trans [OF that(2) keeps_req [of r L "\<lambda>q. q\<lparr> qr_job := None \<rparr>"]]
      by (simp add: tracked_def)
  qed
  show ?thesis
  proof (cases "qr_calledMarkComplete (reqs s ! r)")
    case True
    then have "\<not> tracked s a" using rep by simp
    note cl = clean [OF dinv_drop_J [OF d this] _ _ _ a this rq]
    show ?thesis using that [of s] cl True by (simp add: callMarkComplete_w_def)
  next
    case False
    let ?u = "upd_req r (\<lambda>q. q\<lparr> qr_calledMarkComplete := True \<rparr>) s"
    have u: "dinv env (insert r L) J P ?u" using dinv_report [OF d r(1,2)] .
    have nu: "nothing_active ?u a"
      using n unfolding nothing_active_def by (auto simp: active_def upd_req_nth split: if_splits)
    have cu: "execCancelled ?u" and mu: "(jd_id (jobs ?u ! a), a) \<in> set (jobMap ?u)" using c m by simp_all
    from markCompleted_cancelled [OF u cu c(2) nu mu] obtain s' where
      s': "markCompleted_w env sq (jd_id (jobs ?u ! a)) False ?u = Inr s'" "dinv env (insert r L) (J - {a}) P s'"
        "keeps (insert r L) ?u s'" "reqs s' = reqs ?u" "\<not> tracked s' a" "\<And>b. b \<noteq> a \<Longrightarrow> jobs s' ! b = jobs ?u ! b"
        "job_core (jobs s' ! a) = job_core (jobs ?u ! a)" by metis
    have "callMarkComplete_w env sq r False s = Inr s'"
      using False s'(1) a r(1) by (simp add: callMarkComplete_w_def Let_def upd_req_nth)
    moreover have "keeps L s s'"
      using keeps_trans [OF keeps_req [of r L _ s], of _ s'] s'(3) r(3) by (auto simp: keeps_def)
    moreover have "jq_request (jobs s' ! a) = Some r" using s'(7) rq by (simp add: job_core_def)
    ultimately show ?thesis
      using that [of s'] clean [OF s'(2)] s' a r(1) by (auto simp: upd_req_nth)
  qed
qed

lemma errorFinish_cancelled:
  assumes d: "dinv env (insert r L) J P s" and c: "execCancelled s" "returns_when_cancelled sq"
    and r: "active s r" "r \<notin> L" and a: "qr_job (reqs s ! r) = Some a"
  obtains s' where "errorFinish_w env sq run True r s = Inr (True, s')" "dinv env L (J - {a}) P s'" "keeps L s s'"
    "\<not> tracked s' a" "\<And>b. b \<noteq> a \<Longrightarrow> jobs s' ! b = jobs s ! b" "job_core (jobs s' ! a) = job_core (jobs s ! a)"
proof -
  let ?s = "closeReq ERROR True True r s"
  have b: "a < length (jobs s)" "jq_request (jobs s ! a) = Some r" "\<not> qr_calledMarkComplete (reqs s ! r)"
    "r < length (reqs s)" "(jd_id (jobs s ! a), a) \<in> set (jobMap s)"
    using active_req [OF d r(1)] a by (metis option.inject)+
  have cl: "dinv env (insert r L) (insert a J) P ?s" using dinv_close [OF d r(1) a] by simp
  have "execCancelled ?s" "r < length (reqs ?s)" "\<not> active ?s r" "qr_job (reqs ?s ! r) = Some a"
    "(jd_id (jobs ?s ! a), a) \<in> set (jobMap ?s)" "tracked ?s a \<longrightarrow> \<not> qr_calledMarkComplete (reqs ?s ! r)"
    "jq_request (jobs ?s ! a) = Some r"
    using c b a by (simp_all add: closeReq_active closeReq_nth)
  from report_cancelled [OF cl this(1) c(2) this(2,3) r(2) this(4) close_nothing_active [OF d r(1) a] this(5-7)]
  obtain s' where s': "callMarkComplete_w env sq r False ?s = Inr s'" "dinv env L (insert a J - {a}) P (cleanup r s')"
    "keeps L ?s (cleanup r s')" "\<not> tracked (cleanup r s') a" "\<And>b. b \<noteq> a \<Longrightarrow> jobs (cleanup r s') ! b = jobs ?s ! b"
    "job_core (jobs (cleanup r s') ! a) = job_core (jobs ?s ! a)" by auto
  have "errorFinish_w env sq run True r s = Inr (True, cleanup r s')"
    using errorFinish_active [OF r(1) a, of env sq run True] s'(1) by simp
  moreover have "keeps L s ?s" using r(2) by (auto simp: keeps_def closeReq_nth)
  ultimately show ?thesis
    using that [of "cleanup r s'"] s' keeps_trans [of L s ?s "cleanup r s'"] by simp
qed

lemma dinv_set_cancelled:
  assumes d: "dinv env L J P s"
  shows "dinv env (if active s r then insert r L else L) J P
    (upd_req r (\<lambda>q. q\<lparr> qr_cancelled := True, qr_retried := True \<rparr>) s)" (is "dinv _ ?L _ _ ?s")
proof -
  note d' = dinvD [OF d]
  have e: "qr_job (reqs ?s ! q) = qr_job (reqs s ! q)"
    "qr_calledMarkComplete (reqs ?s ! q) = qr_calledMarkComplete (reqs s ! q)"
    "qr_finishStatus (reqs ?s ! q) = qr_finishStatus (reqs s ! q)"
    "qr_finishedCalled (reqs ?s ! q) = qr_finishedCalled (reqs s ! q)"
    "qr_ask (reqs ?s ! q) = qr_ask (reqs s ! q)" "qr_responded (reqs ?s ! q) = qr_responded (reqs s ! q)"
    "qr_destroyed (reqs ?s ! q) = qr_destroyed (reqs s ! q)" for q
    by (auto simp: upd_req_nth)
  have a: "active ?s = active s" and t: "tracked ?s = tracked s" by (auto simp: active_def tracked_def e fun_eq_iff)
  show ?thesis
  proof (rule dinvI)
    show "req_ok env ?L ?s q" if "q < length (reqs ?s)" for q
    proof -
      have "q < length (reqs s)" using that by simp
      then have "qr_finishStatus (reqs s ! q) = ACTIVE \<and> q \<notin> ?L \<longrightarrow> \<not> qr_cancelled (reqs ?s ! q)"
        using d'(3) [of q] by (auto simp: req_ok_def upd_req_nth active_def split: if_splits)
      then show ?thesis using d'(3) [of q] that by (auto simp: req_ok_def e t split: if_splits)
    qed
    show "ask_ok ?L ?s k" if "k < length (asks ?s)" for k
      using d'(5) [of k] that by (auto simp: ask_ok_def e)
  qed (use d' in \<open>simp_all add: maps_ok_def job_ok_def pend_def has_ask_def trace_ok_def live_def
      finished_count_def attempts_def stat_ok_def e a\<close>)
qed

lemma dinv_jq_cancelled:
  assumes "dinv env L J P s" "execCancelled s"
  shows "dinv env L J P (upd_job a (\<lambda>j. j\<lparr> jq_cancelled := True \<rparr>) s)" (is "dinv _ _ _ _ ?s")
proof -
  have e: "jd_id (jobs ?s ! b) = jd_id (jobs s ! b)" "jd_attemptCount (jobs ?s ! b) = jd_attemptCount (jobs s ! b)"
    "jd_payloads (jobs ?s ! b) = jd_payloads (jobs s ! b)" "jq_request (jobs ?s ! b) = jq_request (jobs s ! b)"
    "jq_inSsi (jobs ?s ! b) = jq_inSsi (jobs s ! b)" for b
    by (auto simp: upd_job_nth)
  have "tracked ?s = tracked s" by (simp add: tracked_def e fun_eq_iff)
  then show ?thesis
    using dinvD [OF assms(1)] assms(2) by (intro dinvI) (simp_all add: maps_ok_def job_ok_def req_ok_def live_def ask_ok_def pend_def
      has_ask_def trace_ok_def finished_count_def attempts_def stat_ok_def e)
qed

definition all_closed :: "nat set \<Rightarrow> 'h disp \<Rightarrow> bool" where
  "all_closed L s \<longleftrightarrow> (\<forall>r \<in> L. \<not> active s r)"

lemma keeps_closed: "keeps L s s' \<Longrightarrow> all_closed L s \<Longrightarrow> all_closed L s'"
  by (auto simp: keeps_def all_closed_def active_def close_core_def)

lemma keeps_untracked: "keeps L s s' \<Longrightarrow> \<not> tracked s a \<Longrightarrow> \<not> tracked s' a"
  by (auto simp: keeps_def tracked_def)

text \<open>Cancelling a job's request: afterwards nothing active is left of the job.\<close>

lemma untracked_nothing_active: "dinv env L J P s \<Longrightarrow> \<not> tracked s a \<Longrightarrow> nothing_active s a"
  unfolding nothing_active_def using active_req by (metis option.inject)

lemma requestCancel_cancelled:
  assumes d: "dinv env L J P s" and c: "execCancelled s" "returns_when_cancelled sq" and cl: "all_closed L s"
    and a: "a < length (jobs s)" "jq_request (jobs s ! a) = Some r"
  obtains b s' where "requestCancel_w env sq r s = Inr (b, s')" "dinv env L J P s'" "keeps L s s'"
    "nothing_active s' a" "b \<Longrightarrow> \<not> tracked s' a" "\<And>b. b \<noteq> a \<Longrightarrow> jobs s' ! b = jobs s ! b"
    "job_core (jobs s' ! a) = job_core (jobs s ! a)"
proof -
  have r: "r < length (reqs s)" and q: "active s r \<longrightarrow> qr_job (reqs s ! r) = Some a"
    using dinvD(2) [OF d a(1)] a(2) by (auto simp: job_ok_def active_def)
  have na: "nothing_active s a" if "\<not> active s r"
    unfolding nothing_active_def using active_req [OF d] a(2) that by (metis option.inject)
  let ?u = "upd_req r (\<lambda>q. q\<lparr> qr_cancelled := True, qr_retried := True \<rparr>) s"
  have ua: "active ?u = active s" by (auto simp: active_def upd_req_nth fun_eq_iff)
  have ku: "keeps L s ?u" by (rule keeps_req) (simp add: close_core_def)
  show ?thesis
  proof (cases "active s r")
    case False
    have "requestCancel_w env sq r s = Inr (False, if qr_cancelled (reqs s ! r) then s else ?u)"
      using False r errorFinish_not_active [of r ?u env sq no_run True]
      by (auto simp: requestCancel_w_def Let_def active_def upd_req_nth split: option.splits)
    moreover have "dinv env L J P ?u" using dinv_set_cancelled [OF d, of r] False by simp
    moreover have "nothing_active ?u a"
      using na [OF False] by (auto simp: nothing_active_def ua upd_req_nth)
    ultimately show ?thesis
      using that [of False "if qr_cancelled (reqs s ! r) then s else ?u"] d ku na [OF False] by simp
  next
    case True
    then have rL: "r \<notin> L" using cl by (auto simp: all_closed_def)
    have nc: "\<not> qr_cancelled (reqs s ! r)"
      using dinvD(3) [OF d r] True rL by (simp add: req_ok_def active_def)
    let ?v = "updateInfo a CANCEL 0 ?u"
    have "dinv env (insert r L) J P ?u" using dinv_set_cancelled [OF d, of r] True by simp
    then have v: "dinv env (insert r L) J P ?v"
      unfolding updateInfo_def by (rule dinv_job_core) (use c in \<open>auto simp: job_core_def\<close>)
    have v': "execCancelled ?v" "active ?v r" "qr_job (reqs ?v ! r) = Some a"
      using c True q by (simp_all add: updateInfo_def ua upd_req_nth)
    have kv: "keeps L s ?v"
      unfolding updateInfo_def by (rule keeps_trans [OF ku keeps_job]) (simp add: job_core_def)
    from errorFinish_cancelled [OF v v'(1) c(2) v'(2) rL v'(3), of no_run] obtain s' where
      s': "errorFinish_w env sq no_run True r ?v = Inr (True, s')" "dinv env L (J - {a}) P s'" "keeps L ?v s'"
        "\<not> tracked s' a" "\<And>b. b \<noteq> a \<Longrightarrow> jobs s' ! b = jobs ?v ! b" "job_core (jobs s' ! a) = job_core (jobs ?v ! a)"
      by metis
    have "requestCancel_w env sq r s = Inr (True, s')"
      using nc True q s'(1) r by (simp add: requestCancel_w_def Let_def active_def upd_req_nth)
    moreover have "dinv env L J P s'" using dinv_mono [OF s'(2)] by blast
    moreover have "job_core (jobs ?v ! a) = job_core (jobs s ! a)"
      by (simp add: updateInfo_def upd_job_nth job_core_def)
    moreover have "\<And>b. b \<noteq> a \<Longrightarrow> jobs ?v ! b = jobs s ! b" by (simp add: updateInfo_def upd_job_nth)
    ultimately show ?thesis
      using that [of True s'] s' keeps_trans [OF kv s'(3)] untracked_nothing_active [OF s'(2,4)] by simp
  qed
qed

lemma jobCancel_cancelled:
  assumes d: "dinv env L J P s" and c: "execCancelled s" "returns_when_cancelled sq" and cl: "all_closed L s"
    and a: "a < length (jobs s)" "(jd_id (jobs s ! a), a) \<in> set (jobMap s)" "\<not> jq_cancelled (jobs s ! a)"
    and na: "\<not> jq_inSsi (jobs s ! a) \<Longrightarrow> nothing_active s a"
  obtains b s' where "jobCancel_w env sq a s = Inr (b, s')" "dinv env L J P s'" "keeps L s s'"
    "\<not> tracked s' a" "\<And>b. b \<noteq> a \<Longrightarrow> jobs s' ! b = jobs s ! b"
proof -
  let ?u = "upd_job a (\<lambda>j. j\<lparr> jq_cancelled := True \<rparr>) s"
  have u: "dinv env L J P ?u" using dinv_jq_cancelled [OF d c(1)] .
  have ku: "keeps L s ?u" by (auto simp: keeps_def upd_job_nth)
  have cu: "execCancelled ?u" "all_closed L ?u" using c cl by (simp_all add: all_closed_def)
  have ja: "jobs ?u ! a = (jobs s ! a)\<lparr> jq_cancelled := True \<rparr>" using a(1) by (simp add: upd_job_nth)
  have "\<exists>b t. (if jq_inSsi (jobs ?u ! a)
      then case jq_request (jobs ?u ! a) of None \<Rightarrow> Inl NullPointer | Some r \<Rightarrow> requestCancel_w env sq r ?u
      else Inr (False, ?u)) = Inr (b, t)
    \<and> dinv env L J P t \<and> keeps L ?u t \<and> nothing_active t a \<and> (b \<longrightarrow> \<not> tracked t a)
    \<and> (\<forall>b. b \<noteq> a \<longrightarrow> jobs t ! b = jobs ?u ! b)"
  proof (cases "jq_inSsi (jobs s ! a)")
    case False
    then show ?thesis using u na ja by (auto simp: nothing_active_def)
  next
    case True
    then obtain r where r: "jq_request (jobs s ! a) = Some r" using dinvD(2) [OF d a(1)] by (auto simp: job_ok_def)
    have "a < length (jobs ?u)" "jq_request (jobs ?u ! a) = Some r" using a(1) r ja by simp_all
    from requestCancel_cancelled [OF u cu(1) c(2) cu(2) this] obtain b t where
      "requestCancel_w env sq r ?u = Inr (b, t)" "dinv env L J P t" "keeps L ?u t" "nothing_active t a"
      "b \<Longrightarrow> \<not> tracked t a" "\<And>b. b \<noteq> a \<Longrightarrow> jobs t ! b = jobs ?u ! b" by metis
    then show ?thesis using True r ja by simp
  qed
  then obtain b t where t: "(if jq_inSsi (jobs ?u ! a)
      then case jq_request (jobs ?u ! a) of None \<Rightarrow> Inl NullPointer | Some r \<Rightarrow> requestCancel_w env sq r ?u
      else Inr (False, ?u)) = Inr (b, t)"
    "dinv env L J P t" "keeps L ?u t" "nothing_active t a" "b \<longrightarrow> \<not> tracked t a"
    "\<And>b. b \<noteq> a \<Longrightarrow> jobs t ! b = jobs ?u ! b" by blast
  let ?e = "on_handler a (h_errorFlush env (- 1)) t"
  have kt: "keeps L s t" using keeps_trans [OF ku t(3)] .
  have ct: "execCancelled t" using t(3) cu by (simp add: keeps_def)
  have "\<exists>v. (if b then Inr t else markCompleted_w env sq (jd_id (jobs t ! a)) False ?e) = Inr v
    \<and> dinv env L J P v \<and> keeps L t v \<and> \<not> tracked v a \<and> (\<forall>b. b \<noteq> a \<longrightarrow> jobs v ! b = jobs t ! b)"
  proof (cases b)
    case True
    then show ?thesis using t by simp
  next
    case False
    have e: "dinv env L J P ?e"
      unfolding on_handler_def using t(2) by (rule dinv_job_core) (auto simp: job_core_def)
    have ke: "keeps L t ?e" unfolding on_handler_def by (rule keeps_job) (simp add: job_core_def)
    have ide: "jd_id (jobs ?e ! a) = jd_id (jobs t ! a)" by (simp add: on_handler_def upd_job_nth)
    have "execCancelled ?e" "nothing_active ?e a" "(jd_id (jobs ?e ! a), a) \<in> set (jobMap ?e)"
      using ct t(4) a(2) kt ide by (auto simp: on_handler_def nothing_active_def keeps_def)
    from markCompleted_cancelled [OF e this(1) c(2) this(2,3)] obtain v where
      "markCompleted_w env sq (jd_id (jobs ?e ! a)) False ?e = Inr v" "dinv env L (J - {a}) P v" "keeps L ?e v"
      "\<not> tracked v a" "\<And>b. b \<noteq> a \<Longrightarrow> jobs v ! b = jobs ?e ! b" by metis
    moreover have "\<And>b. b \<noteq> a \<Longrightarrow> jobs ?e ! b = jobs t ! b" by (simp add: on_handler_def upd_job_nth)
    ultimately show ?thesis
      using False keeps_trans [OF ke] dinv_mono [of env L "J - {a}" P v L J P] ide by auto
  qed
  then obtain v where v: "(if b then Inr t else markCompleted_w env sq (jd_id (jobs t ! a)) False ?e) = Inr v"
    "dinv env L J P v" "keeps L t v" "\<not> tracked v a" "\<And>b. b \<noteq> a \<Longrightarrow> jobs v ! b = jobs t ! b" by blast
  let ?w = "on_handler a (h_processCancel env) v"
  have "jobCancel_w env sq a s = Inr (True, ?w)"
    using a(3) t(1) v(1) by (simp add: jobCancel_w_def Let_def)
  moreover have "dinv env L J P ?w"
    unfolding on_handler_def using v(2) by (rule dinv_job_core) (auto simp: job_core_def)
  moreover have "keeps L v ?w" unfolding on_handler_def by (rule keeps_job) (simp add: job_core_def)
  moreover have "\<And>b. b \<noteq> a \<Longrightarrow> jobs ?w ! b = jobs s ! b" using v(5) t(6) by (simp add: on_handler_def upd_job_nth)
  ultimately show ?thesis
    using that [of True ?w] keeps_trans [OF keeps_trans [OF kt v(3)]] keeps_untracked [OF _ v(4)] by blast
qed

lemma not_inSsi_nothing_active:
  "dinv env L J P s \<Longrightarrow> \<not> jq_inSsi (jobs s ! a) \<Longrightarrow> nothing_active s a"
  unfolding nothing_active_def using active_req by (metis option.inject)

lemma cancelAll_cancelled:
  assumes "dinv env L J P s" "execCancelled s" "returns_when_cancelled sq" "all_closed L s" "distinct as"
    and "\<And>a. a \<in> set as \<Longrightarrow> a < length (jobs s) \<and> (jd_id (jobs s ! a), a) \<in> set (jobMap s) \<and> \<not> jq_cancelled (jobs s ! a)"
  shows "\<exists>s'. cancelAll_w env sq as s = Inr s' \<and> dinv env L J P s' \<and> keeps L s s' \<and> (\<forall>a \<in> set as. \<not> tracked s' a)"
  using assms
proof (induction as arbitrary: s)
  case (Cons a as)
  have a: "a < length (jobs s)" "(jd_id (jobs s ! a), a) \<in> set (jobMap s)" "\<not> jq_cancelled (jobs s ! a)"
    using Cons.prems(6) by auto
  from jobCancel_cancelled [OF Cons.prems(1-4) a not_inSsi_nothing_active [OF Cons.prems(1)]]
  obtain b t where t: "jobCancel_w env sq a s = Inr (b, t)" "dinv env L J P t" "keeps L s t" "\<not> tracked t a"
    "\<And>b. b \<noteq> a \<Longrightarrow> jobs t ! b = jobs s ! b" by metis
  have ct: "execCancelled t" "all_closed L t" "distinct as"
    using t(3) Cons.prems keeps_closed [OF t(3)] by (auto simp: keeps_def)
  have "b < length (jobs t) \<and> (jd_id (jobs t ! b), b) \<in> set (jobMap t) \<and> \<not> jq_cancelled (jobs t ! b)"
    if "b \<in> set as" for b
  proof -
    have "b \<noteq> a" using that Cons.prems(5) by auto
    then show ?thesis using Cons.prems(6) [of b] that t(3,5) by (auto simp: keeps_def)
  qed
  from Cons.IH [OF t(2) ct(1) Cons.prems(3) ct(2,3) this] obtain s' where
    s': "cancelAll_w env sq as t = Inr s'" "dinv env L J P s'" "keeps L t s'" "\<forall>a \<in> set as. \<not> tracked s' a" by blast
  then show ?case
    using t(1) keeps_trans [OF t(3) s'(3)] keeps_untracked [OF s'(3) t(4)] by auto
qed simp

definition iter_perm :: "'h dispEnv \<Rightarrow> bool" where
  "iter_perm env \<longleftrightarrow> (\<forall>xs. mset (iterOrder env xs) = mset xs)"

text \<open>\<open>squash\<close> ends every job: no job stays incomplete and no request active.\<close>

lemma squash_inv_flagged:
  assumes c: "dinv env L J P (s\<lparr> execCancelled := True \<rparr>)" and env: "iter_perm env" and cl: "all_closed L s"
    and n: "\<not> execCancelled s" "\<And>a. a < length (jobs s) \<Longrightarrow> \<not> jq_cancelled (jobs s ! a)"
  obtains s' where "squash env s = Inr s'" "dinv env L {} P s'" "keeps L s s'" "execCancelled s'"
    "incompleteJobs s' = []"
proof -
  let ?c = "s\<lparr> execCancelled := True \<rparr>"
  let ?as = "iterOrder env (map snd (jobMap s))"
  have mo: "maps_ok ?c" using dinvD(1) [OF c] .
  have m: "mset ?as = mset (map snd (jobMap s))" using env unfolding iter_perm_def by blast
  then have as: "set ?as = snd ` set (jobMap s)" by (metis list.set_map set_mset_mset)
  have "distinct (map snd (jobMap s))" using mo by (simp add: maps_ok_def)
  then have dist: "distinct ?as" using m by (metis mset_eq_imp_distinct_iff)
  have "a < length (jobs ?c) \<and> (jd_id (jobs ?c ! a), a) \<in> set (jobMap ?c) \<and> \<not> jq_cancelled (jobs ?c ! a)"
    if "a \<in> set ?as" for a
    using that mo n(2) by (auto simp: as maps_ok_def)
  moreover have "all_closed L ?c" using cl by (simp add: all_closed_def active_def)
  ultimately obtain s' where s': "cancelAll_w env squash_inner ?as ?c = Inr s'" "dinv env L J P s'" "keeps L ?c s'"
    "\<forall>a \<in> set ?as. \<not> tracked s' a"
    using cancelAll_cancelled [OF c _ squash_inner_returns _ dist] by auto
  have inc: "incompleteJobs s' = []"
  proof (rule ccontr)
    assume "incompleteJobs s' \<noteq> []"
    then obtain i a where p: "(i, a) \<in> set (incompleteJobs s')"
      using list.set_intros(1) by (metis neq_Nil_conv surj_pair)
    then have "(i, a) \<in> set (jobMap s')" "jd_id (jobs s' ! a) = i" using dinvD(1) [OF s'(2)] by (auto simp: maps_ok_def)
    moreover have "jobMap s' = jobMap s" using s'(3) by (simp add: keeps_def)
    ultimately show False using p s'(4) as by (force simp: tracked_def)
  qed
  have "live {} s'" using inc by (simp add: live_def)
  then have "dinv env L {} P s'" using dinvD [OF s'(2)] by (intro dinvI) auto
  moreover have "keeps L s s'" using s'(3) by (simp add: keeps_def)
  moreover have "squash env s = Inr s'" using s'(1) n(1) by (simp add: squash_def squash_w_def)
  moreover have "execCancelled s'" using s'(3) by (simp add: keeps_def)
  ultimately show ?thesis using that inc by blast
qed

lemma dinv_flag:
  assumes "dinv env L J P s" shows "dinv env L J P (s\<lparr> execCancelled := True \<rparr>)" (is "dinv _ _ _ _ ?c")
proof -
  have "active ?c = active s" "tracked ?c = tracked s" by (auto simp: active_def tracked_def fun_eq_iff)
  then show ?thesis
    using dinvD [OF assms] by (intro dinvI) (auto simp: maps_ok_def job_ok_def req_ok_def live_def ask_ok_def pend_def
      has_ask_def trace_ok_def finished_count_def attempts_def stat_ok_def)
qed

lemma squash_inv:
  assumes d: "dinv env L J P s" and env: "iter_perm env" and cl: "all_closed L s" and n: "\<not> execCancelled s"
  obtains s' where "squash env s = Inr s'" "dinv env L {} P s'" "keeps L s s'" "execCancelled s'"
    "incompleteJobs s' = []"
proof -
  have "\<not> jq_cancelled (jobs s ! a)" if "a < length (jobs s)" for a
    using dinvD(2) [OF d that] n by (simp add: job_ok_def)
  then show ?thesis using squash_inv_flagged [OF dinv_flag [OF d] env cl n] that by blast
qed

text \<open>The same after a job has failed, which is why the query is squashed.\<close>

lemma fail_squash:
  assumes d: "dinv env L J P s" and env: "iter_perm env" and cl: "all_closed L s" and n: "\<not> execCancelled s"
    and a: "tracked s a" "nothing_active s a"
  obtains s' where "squash env (failJob env a s) = Inr s'" "dinv env L {} P s'" "keeps L s s'" "execCancelled s'"
    "incompleteJobs s' = []"
proof -
  let ?f = "failJob env a s"
  let ?c = "s\<lparr> execCancelled := True \<rparr>"
  have "tracked ?c a" "nothing_active ?c a" using a by (auto simp: tracked_def nothing_active_def active_def)
  then have "dinv env L (J - {a}) P (failJob env a ?c)" using dinv_failJob [OF dinv_flag [OF d]] by simp
  moreover have "failJob env a ?c = ?f\<lparr> execCancelled := True \<rparr>"
    by (simp add: failJob_def Let_def updateInfo_def upd_job_def unTrack_def)
  ultimately have c: "dinv env L (J - {a}) P (?f\<lparr> execCancelled := True \<rparr>)" by simp
  have "\<not> jq_cancelled (jobs ?f ! b)" if "b < length (jobs ?f)" for b
    using dinvD(2) [OF d, of b] n that failJob_job(2) [of env a s b] by (auto simp: job_ok_def job_core_def)
  moreover have "all_closed L ?f" using cl by (simp add: all_closed_def)
  ultimately obtain s' where s': "squash env ?f = Inr s'" "dinv env L {} P s'" "keeps L ?f s'" "execCancelled s'"
    "incompleteJobs s' = []"
    using squash_inv_flagged [OF c env] n by auto
  then show ?thesis using that [of s'] keeps_trans [OF keeps_failJob s'(3)] by simp
qed

section \<open>Running a job\<close>

lemma dinv_prepare:
  assumes d: "dinv env L J P s" and n: "nothing_active s a"
    and g: "jd_id (g (jobs s ! a)) = jd_id (jobs s ! a)" "jq_request (g (jobs s ! a)) = jq_request (jobs s ! a)"
      "jq_inSsi (g (jobs s ! a)) = jq_inSsi (jobs s ! a)" "jq_cancelled (g (jobs s ! a)) = jq_cancelled (jobs s ! a)"
      "jq_status (g (jobs s ! a)) = jq_status (jobs s ! a)"
    and at: "jd_attemptCount (jobs s ! a) \<le> jd_attemptCount (g (jobs s ! a))"
      "jd_attemptCount (g (jobs s ! a)) \<le> getMaxAttempts"
  shows "dinv env L J P (upd_job a g s)" (is "dinv _ _ _ _ ?s")
proof -
  note d' = dinvD [OF d]
  have e: "jd_id (jobs ?s ! b) = jd_id (jobs s ! b)" "jq_request (jobs ?s ! b) = jq_request (jobs s ! b)"
    "jq_inSsi (jobs ?s ! b) = jq_inSsi (jobs s ! b)" "jq_cancelled (jobs ?s ! b) = jq_cancelled (jobs s ! b)"
    "jq_status (jobs ?s ! b) = jq_status (jobs s ! b)" for b
    using g by (auto simp: upd_job_nth)
  have le: "jd_attemptCount (jobs s ! b) \<le> jd_attemptCount (jobs ?s ! b)" for b
    using at(1) by (auto simp: upd_job_nth)
  have t: "tracked ?s = tracked s" by (simp add: tracked_def e fun_eq_iff)
  show ?thesis
  proof (rule dinvI)
    show "job_ok ?s b" if "b < length (jobs ?s)" for b
    proof -
      have "jd_attemptCount (jobs ?s ! b) \<le> getMaxAttempts"
        using d'(2) [of b] that at(2) by (auto simp: upd_job_nth job_ok_def)
      then show ?thesis using d'(2) [of b] that le [of b] by (auto simp: job_ok_def e)
    qed
    show "req_ok env L ?s q" if "q < length (reqs ?s)" for q
    proof -
      have "qr_job (reqs s ! q) \<noteq> Some a \<or> qr_finishStatus (reqs s ! q) \<noteq> ACTIVE"
        using n that by (auto simp: nothing_active_def active_def)
      then show ?thesis using d'(3) [of q] that by (auto simp: req_ok_def e t upd_job_nth)
    qed
    show "trace_ok ?s"
      using d'(8) order_trans [OF _ add_right_mono [OF le]]
      by (auto simp: trace_ok_def finished_count_def attempts_def)
  qed (use d' in \<open>simp_all add: maps_ok_def live_def ask_ok_def pend_def has_ask_def stat_ok_def e\<close>)
qed

text \<open>The state after a successful start: one more request, known to its job.\<close>

definition startState :: "nat \<Rightarrow> ('h job \<Rightarrow> 'h job) \<Rightarrow> 'h disp \<Rightarrow> 'h disp" where
  "startState a g s =
     ssi (ProcessRequest (length (reqs s)) a) (upd_job a g (s\<lparr> reqs := reqs s @ [newRequest a] \<rparr>))"

lemma startState_sel [simp]:
  "reqs (startState a g s) = reqs s @ [newRequest a]" "asks (startState a g s) = asks s"
  "jobMap (startState a g s) = jobMap s" "incompleteJobs (startState a g s) = incompleteJobs s"
  "execCancelled (startState a g s) = execCancelled s" "requestCount (startState a g s) = requestCount s"
  "ssiCalls (startState a g s) = ssiCalls s @ [ProcessRequest (length (reqs s)) a]"
  "length (jobs (startState a g s)) = length (jobs s)"
  by (simp_all add: startState_def)

lemma startState_nth:
  "jobs (startState a g s) ! b = (if b = a \<and> a < length (jobs s) then g (jobs s ! a) else jobs s ! b)"
  by (simp add: startState_def upd_job_nth)

lemma startState_active:
  "active (startState a g s) r \<longleftrightarrow> active s r \<or> r = length (reqs s)"
  by (auto simp: active_def nth_append newRequest_def)

lemma dinv_start:
  assumes d: "dinv env L J P s" and n: "nothing_active s a" "\<not> execCancelled s" and a: "a < length (jobs s)" "tracked s a"
    and L: "\<And>r. r \<in> L \<Longrightarrow> r < length (reqs s)"
    and g: "jd_id (g (jobs s ! a)) = jd_id (jobs s ! a)" "jq_cancelled (g (jobs s ! a)) = jq_cancelled (jobs s ! a)"
      "jq_request (g (jobs s ! a)) = Some (length (reqs s))" "jq_inSsi (g (jobs s ! a))"
      "jd_attemptCount (g (jobs s ! a)) = jd_attemptCount (jobs s ! a) + 1" "jd_attemptCount (jobs s ! a) < getMaxAttempts"
      "jd_payloads (g (jobs s ! a)) (jd_attemptCount (g (jobs s ! a)))
        = Some (serializeMsg env (jd_id (jobs s ! a)) (jd_attemptCount (g (jobs s ! a))))"
  shows "dinv env L (J - {a}) P (startState a g s)" (is "dinv _ _ _ _ ?s")
proof -
  let ?r = "length (reqs s)"
  note d' = dinvD [OF d]
  have idb: "jd_id (jobs ?s ! b) = jd_id (jobs s ! b)" for b using g(1) by (simp add: startState_nth)
  have t: "tracked ?s = tracked s" by (simp add: tracked_def idb fun_eq_iff)
  have old: "reqs ?s ! q = reqs s ! q" if "q < ?r" for q using that by (simp add: nth_append)
  have new: "reqs ?s ! ?r = newRequest a" by simp
  have act: "qr_job (reqs s ! q) \<noteq> Some a \<or> qr_finishStatus (reqs s ! q) \<noteq> ACTIVE" if "q < ?r" for q
    using n(1) that by (auto simp: nothing_active_def active_def)
  show ?thesis
  proof (rule dinvI)
    show "maps_ok ?s" using d'(1) by (auto simp: maps_ok_def idb)
    show "job_ok ?s b" if "b < length (jobs ?s)" for b
    proof (cases "b = a")
      case True
      then show ?thesis
        using d'(2) [OF a(1)] a(1) g by (auto simp: job_ok_def startState_nth newRequest_def)
    next
      case False
      then show ?thesis
        using d'(2) [of b] that by (auto simp: job_ok_def startState_nth nth_append)
    qed
    show "req_ok env L ?s q" if "q < length (reqs ?s)" for q
    proof (cases "q = ?r")
      case True
      then show ?thesis
        using a g L [of ?r] by (auto simp: req_ok_def t startState_nth newRequest_def)
    next
      case False
      then have lt: "q < ?r" using that by simp
      show ?thesis
      proof (cases "qr_finishStatus (reqs s ! q) = ACTIVE")
        case True
        then obtain b where b: "qr_job (reqs s ! q) = Some b" using d'(3) [OF lt] by (auto simp: req_ok_def)
        then have "jobs ?s ! b = jobs s ! b" using act [OF lt] True by (auto simp: startState_nth)
        then show ?thesis using d'(3) [OF lt] True b by (simp add: req_ok_def nth_append lt t)
      next
        case False
        then show ?thesis using d'(3) [OF lt] by (simp add: req_ok_def nth_append lt)
      qed
    qed
    have lv: "b \<in> J - {a} \<or> (\<exists>r. jq_request (jobs ?s ! b) = Some r \<and> active ?s r \<and> qr_job (reqs ?s ! r) = Some b)"
      if "(i, b) \<in> set (incompleteJobs s)" for i b
    proof (cases "b = a")
      case True
      then show ?thesis using a(1) g(3) by (simp add: startState_nth startState_active newRequest_def)
    next
      case False
      then have "b \<in> J \<or> (\<exists>r. jq_request (jobs s ! b) = Some r \<and> active s r \<and> qr_job (reqs s ! r) = Some b)"
        using d'(4) that by (auto simp: live_def)
      then show ?thesis using False by (auto simp: startState_nth startState_active active_def nth_append)
    qed
    then show "live (J - {a}) ?s" by (auto simp: live_def)
    show "ask_ok L ?s k" if "k < length (asks ?s)" for k
      using d'(5) [of k] that by (auto simp: ask_ok_def nth_append)
    show "pend P ?s"
      using d'(6) by (auto simp: pend_def has_ask_def startState_active active_def newRequest_def nth_append)
    show "stat_ok ?s"
      using d'(7) a n(2) d'(1) by (auto simp: stat_ok_def startState_nth tracked_def maps_ok_def)
    have "finished_count ?s q = finished_count s q" "attempts ?s b = attempts s b + of_bool (b = a)" for q b
      by (simp_all add: finished_count_def attempts_def)
    then show "trace_ok ?s"
      using d'(8) a(1) g(5) by (auto simp: trace_ok_def startState_nth newRequest_def nth_append less_Suc_eq)
  qed
qed

lemma incrAttempt_props:
  assumes "jd_attemptCount j < getMaxAttempts"
  obtains j' where "incrAttemptCountScrubResults env j = (True, j')" "jd_id j' = jd_id j"
    "jq_request j' = jq_request j" "jq_inSsi j' = jq_inSsi j" "jq_cancelled j' = jq_cancelled j"
    "jq_status j' = jq_status j" "jd_attemptCount j' = jd_attemptCount j + 1"
    "jd_payloads j' (jd_attemptCount j') = Some (serializeMsg env (jd_id j) (jd_attemptCount j'))"
  using assms that [of "snd (incrAttemptCountScrubResults env j)"]
  by (auto simp: incrAttemptCountScrubResults_def Let_def getMaxAttempts_def MAX_JOB_ATTEMPTS_def)

text \<open>
  The three outcomes of \<open>runJob\<close>: the job has a new request; the query was squashed; or the handler
  refused to be reset and nothing else happened.
\<close>

definition run_result ::
    "'h dispEnv \<Rightarrow> nat set \<Rightarrow> nat set \<Rightarrow> nat set \<Rightarrow> nat \<Rightarrow> 'h disp \<Rightarrow> bool \<Rightarrow> 'h disp \<Rightarrow> bool" where
  "run_result env L J P a s ok s' \<longleftrightarrow>
     (if ok then dinv env L (J - {a}) P s' \<and> \<not> execCancelled s' \<and> reqs s' = reqs s @ [newRequest a] \<and> asks s' = asks s
        \<and> jq_request (jobs s' ! a) = Some (length (reqs s))
      else dinv env L J P s' \<and> keeps L s s'
        \<and> (if execCancelled s' then incompleteJobs s' = []
           else tracked s' a \<and> nothing_active s' a \<and> \<not> fst (h_reset env (jd_handler (jobs s ! a)))))"

lemma critical_result:
  assumes "runJob env a s = andThen (squash env t) (\<lambda>s. Inr (False, s))"
    and "dinv env L J P t" "keeps L s t" "\<not> execCancelled t" "iter_perm env" "all_closed L s"
  shows "\<exists>ok s'. runJob env a s = Inr (ok, s') \<and> run_result env L J P a s ok s'"
proof -
  obtain s' where "squash env t = Inr s'" "dinv env L {} P s'" "keeps L t s'" "execCancelled s'" "incompleteJobs s' = []"
    using squash_inv [OF assms(2,5) keeps_closed [OF assms(3,6)] assms(4)] by blast
  then show ?thesis
    using assms(1) keeps_trans [OF assms(3)] dinv_mono [of env L "{}" P s' L J P] by (auto simp: run_result_def)
qed

lemma runJob_inv:
  assumes d: "dinv env L J P s" and env: "iter_perm env" and cl: "all_closed L s"
    and L: "\<And>r. r \<in> L \<Longrightarrow> r < length (reqs s)"
    and n: "nothing_active s a" "\<not> execCancelled s" and a: "a < length (jobs s)" "tracked s a"
  shows "\<exists>ok s'. runJob env a s = Inr (ok, s') \<and> run_result env L J P a s ok s'"
proof -
  obtain hr h where h: "h_reset env (jd_handler (jobs s ! a)) = (hr, h)" by fastforce
  let ?s = "on_handler a (\<lambda>_. h) s"
  have ds: "dinv env L J P ?s"
    unfolding on_handler_def using d by (rule dinv_job_core) (auto simp: job_core_def)
  have ks: "keeps L s ?s" unfolding on_handler_def by (rule keeps_job) (simp add: job_core_def)
  have ns: "nothing_active ?s a" "\<not> execCancelled ?s" "all_closed L ?s" "tracked ?s a" "reqs ?s = reqs s" "asks ?s = asks s"
    "a < length (jobs ?s)"
    using n cl a by (auto simp: on_handler_def nothing_active_def all_closed_def tracked_def upd_job_nth)
  consider (reset) "\<not> hr" | (many) "hr" "\<not> jd_attemptCount (jobs ?s ! a) < getMaxAttempts"
    | (attempt) "hr" "jd_attemptCount (jobs ?s ! a) < getMaxAttempts" by blast
  then show ?thesis
  proof cases
    case reset
    then have "runJob env a s = Inr (False, ?s)" using h by (simp add: runJob_def Let_def)
    then show ?thesis using ds ks ns h reset by (auto simp: run_result_def)
  next
    case many
    then have "runJob env a s = andThen (squash env ?s) (\<lambda>s. Inr (False, s))"
      using h n(2) by (simp add: runJob_def Let_def)
    then show ?thesis using critical_result [OF _ ds ks ns(2) env cl] by blast
  next
    case attempt
    obtain j where j: "incrAttemptCountScrubResults env (jobs ?s ! a) = (True, j)" "jd_id j = jd_id (jobs ?s ! a)"
      "jq_request j = jq_request (jobs ?s ! a)" "jq_inSsi j = jq_inSsi (jobs ?s ! a)"
      "jq_cancelled j = jq_cancelled (jobs ?s ! a)" "jq_status j = jq_status (jobs ?s ! a)"
      "jd_attemptCount j = jd_attemptCount (jobs ?s ! a) + 1"
      "jd_payloads j (jd_attemptCount j) = Some (serializeMsg env (jd_id (jobs ?s ! a)) (jd_attemptCount j))"
      using incrAttempt_props [OF attempt(2)] by metis
    let ?t = "upd_job a (\<lambda>_. j) ?s"
    show ?thesis
    proof (cases "verifyPayload env j")
      case False
      then have r: "runJob env a s = andThen (squash env ?t) (\<lambda>s. Inr (False, s))"
        using h n(2) attempt j(1) by (simp add: runJob_def Let_def)
      have "dinv env L J P ?t"
        using dinv_prepare [OF ds ns(1), of "\<lambda>_. j"] j attempt(2) by simp
      moreover have "keeps L ?s ?t" unfolding keeps_def using j(2,3) by (simp add: upd_job_nth)
      then have "keeps L s ?t" by (rule keeps_trans [OF ks])
      moreover have "\<not> execCancelled ?t" using ns(2) by simp
      ultimately show ?thesis using critical_result [OF r _ _ _ env cl] by blast
    next
      case True
      let ?g = "\<lambda>_. j\<lparr> jq_inSsi := True, jq_request := Some (length (reqs ?s)),
        jq_toWrite := jq_toWrite j + 1 \<rparr>"
      have "runJob env a s = Inr (True, startState a ?g ?s)"
        using h n(2) attempt j(1) True a(1)
        by (simp add: runJob_def Let_def startQuery_def startState_def updateInfo_def upd_job_def ssi_def on_handler_def)
      moreover have "dinv env L (J - {a}) P (startState a ?g ?s)"
        using dinv_start [OF ds ns(1,2,7,4), of ?g] L ns(5) j attempt(2) by simp
      ultimately show ?thesis using ns by (auto simp: run_result_def startState_nth)
    qed
  qed
qed

section \<open>Finishing a request\<close>

definition settled :: "'h dispEnv \<Rightarrow> nat set \<Rightarrow> 'h disp \<Rightarrow> bool" where
  "settled env P s \<longleftrightarrow> dinv env {} {} P s \<and> (execCancelled s \<longrightarrow> incompleteJobs s = [])"

lemma settled_no_active: "settled env P s \<Longrightarrow> execCancelled s \<Longrightarrow> \<not> active s r"
  using active_req [of env "{}" "{}" P s r] by (auto simp: settled_def tracked_def)

lemma settled_drop_P: "settled env P s \<Longrightarrow> \<not> active s r \<Longrightarrow> settled env (P - {r}) s"
proof -
  assume s: "settled env P s" and r: "\<not> active s r"
  then have "pend (P - {r}) s" using dinvD(6) [of env "{}" "{}" P s] unfolding settled_def pend_def by blast
  then show ?thesis using s unfolding settled_def dinv_def by simp
qed

lemma callMarkComplete_first:
  assumes "\<not> qr_calledMarkComplete (reqs s ! r)" "qr_job (reqs s ! r) = Some a" "r < length (reqs s)"
  shows "callMarkComplete_w env sq r b s = markCompleted_w env sq (jd_id (jobs s ! a)) b
    (upd_req r (\<lambda>q. q\<lparr> qr_calledMarkComplete := True \<rparr>) s)"
  using assms by (simp add: callMarkComplete_w_def Let_def upd_req_nth)

lemma report_fails:
  assumes d: "dinv env {r} {a} P s" and env: "iter_perm env" and n: "\<not> execCancelled s"
    and a: "tracked s a" "nothing_active s a"
    and r: "r < length (reqs s)" "\<not> active s r" "qr_job (reqs s ! r) = Some a" "\<not> qr_calledMarkComplete (reqs s ! r)"
  obtains s' where "callMarkComplete_w env (squash env) r False s = Inr s'" "settled env P (cleanup r s')"
    "execCancelled s'"
proof -
  let ?u = "upd_req r (\<lambda>q. q\<lparr> qr_calledMarkComplete := True \<rparr>) s"
  have u: "dinv env {r} {a} P ?u" using dinv_report [OF d r(1,2)] .
  have au: "active ?u = active s" by (auto simp: active_def upd_req_nth fun_eq_iff)
  have tu: "tracked ?u a" "nothing_active ?u a" "\<not> execCancelled ?u" "all_closed {r} ?u"
    using a n r by (auto simp: tracked_def nothing_active_def au upd_req_nth all_closed_def)
  from fail_squash [OF u env tu(4,3,1,2)] obtain s' where s': "squash env (failJob env a ?u) = Inr s'"
    "dinv env {r} {} P s'" "keeps {r} ?u s'" "execCancelled s'" "incompleteJobs s' = []" by metis
  have "(jd_id (jobs ?u ! a), a) \<in> set (jobMap ?u)"
    using dinvD(1) [OF u] tu(1) by (auto simp: tracked_def maps_ok_def)
  then have "markCompleted_w env (squash env) (jd_id (jobs s ! a)) False ?u = Inr s'"
    using markCompleted_False [OF dinvD(1) [OF u], of a env "squash env"] tu(1) s'(1) by simp
  moreover have "\<not> active s' r" "r < length (reqs s')" using s'(3) r au by (auto simp: keeps_def active_def close_core_def upd_req_nth)
  moreover have "execCancelled (cleanup r s') \<longrightarrow> incompleteJobs (cleanup r s') = []"
    using s'(5) by (auto simp: cleanup_def destroyRequest_def Let_def notifyFailed_def split: option.splits)
  ultimately show ?thesis
    using that [of s'] callMarkComplete_first [OF r(4,3,1)] dinv_cleanup [OF s'(2), of r] s'(4) by (simp add: settled_def)
qed

lemma cleanup_fields [simp]:
  "execCancelled (cleanup r s) = execCancelled s" "incompleteJobs (cleanup r s) = incompleteJobs s"
  by (auto simp: cleanup_def destroyRequest_def Let_def notifyFailed_def split: option.splits)

lemma cleanup_active: "active (cleanup r s) = active s"
  by (auto simp: cleanup_def destroyRequest_def Let_def notifyFailed_def active_def upd_req_nth fun_eq_iff split: option.splits)

text \<open>What happens to a closed request: a retry, or the report of the failure.\<close>

lemma retry_or_report:
  assumes cl: "dinv env {r} {a} P s" and env: "iter_perm env"
    and n: "\<not> execCancelled s" and a: "tracked s a" "nothing_active s a" "a < length (jobs s)"
    and r: "r < length (reqs s)" "\<not> active s r" "qr_job (reqs s ! r) = Some a"
      "\<not> qr_calledMarkComplete (reqs s ! r)" "jq_request (jobs s ! a) = Some r"
  shows "\<exists>t. (if again
       then andThen (runJob env a s) (\<lambda>(ok, s). if ok then Inr s else callMarkComplete_w env (squash env) r False s)
       else callMarkComplete_w env (squash env) r False s) = Inr t \<and> settled env P (cleanup r t) \<and> \<not> active t r"
proof (cases again)
  case False
  obtain t where t: "callMarkComplete_w env (squash env) r False s = Inr t" "settled env P (cleanup r t)" "execCancelled t"
    using report_fails [OF cl env n a(1,2) r(1-4)] by metis
  then show ?thesis using False settled_no_active [OF t(2), of r] by (auto simp: cleanup_active)
next
  case True
  have "all_closed {r} s" "\<And>q. q \<in> {r} \<Longrightarrow> q < length (reqs s)" using r by (simp_all add: all_closed_def)
  from runJob_inv [OF cl env this a(2) n a(3,1)] obtain ok s' where
    run: "runJob env a s = Inr (ok, s')" "run_result env {r} {a} P a s ok s'" by blast
  show ?thesis
  proof (cases ok)
    case True
    with run(2) have o: "dinv env {r} {} P s'" "\<not> execCancelled s'" "reqs s' = reqs s @ [newRequest a]"
      "jq_request (jobs s' ! a) = Some (length (reqs s))" by (simp_all add: run_result_def)
    have r': "r < length (reqs s')" "\<not> active s' r" "qr_job (reqs s' ! r) = Some a"
      using o(3) r by (simp_all add: active_def nth_append)
    have "dinv env ({r} - {r}) {} P (cleanup r s')"
      using dinv_cleanup [OF o(1) r'(1,2)] r'(3) o(4) r(1) by auto
    then show ?thesis using \<open>again\<close> run(1) True o(2) r' by (simp add: settled_def)
  next
    case False
    with run(2) have o: "dinv env {r} {a} P s'" "keeps {r} s s'"
      "if execCancelled s' then incompleteJobs s' = [] else tracked s' a \<and> nothing_active s' a"
      by (auto simp: run_result_def)
    have r': "r < length (reqs s')" "\<not> active s' r" "qr_job (reqs s' ! r) = Some a" "\<not> qr_calledMarkComplete (reqs s' ! r)"
      "jq_request (jobs s' ! a) = Some r" "(jd_id (jobs s' ! a), a) \<in> set (jobMap s')"
      using o(2) r a(1) dinvD(1) [OF cl] by (auto simp: keeps_def active_def close_core_def tracked_def maps_ok_def)
    show ?thesis
    proof (cases "execCancelled s'")
      case c: True
      then have nt: "\<not> tracked s' a" using o(3) by (simp add: tracked_def)
      have "tracked s' a \<longrightarrow> \<not> qr_calledMarkComplete (reqs s' ! r)" "r \<notin> {}" using nt by simp_all
      then obtain t where t: "callMarkComplete_w env (squash env) r False s' = Inr t" "dinv env {} ({a} - {a}) P (cleanup r t)"
        "keeps {} s' (cleanup r t)"
        using report_cancelled [OF o(1) c squash_returns r'(1,2) _ r'(3) untracked_nothing_active [OF o(1) nt] r'(6) _ r'(5), of env]
        by metis
      have "settled env P (cleanup r t)"
        using t(2,3) o(3) c by (simp add: settled_def keeps_def)
      moreover have "execCancelled (cleanup r t)" using t(3) c unfolding keeps_def by blast
      ultimately show ?thesis
        using \<open>again\<close> run(1) False t(1) settled_no_active [of env P "cleanup r t" r] by (auto simp: cleanup_active)
    next
      case nc: False
      then obtain t where t: "callMarkComplete_w env (squash env) r False s' = Inr t" "settled env P (cleanup r t)"
        "execCancelled t"
        using report_fails [OF o(1) env nc _ _ r'(1-4)] o(3) by metis
      then show ?thesis
        using \<open>again\<close> run(1) False settled_no_active [OF t(2), of r] by (auto simp: cleanup_active)
    qed
  qed
qed

text \<open>
  \<open>_errorFinish\<close>: either a later attempt of the job takes over, or the query is squashed. A request
  that is not active is left alone.
\<close>

lemma errorFinish_inv:
  assumes s: "settled env P s" and env: "iter_perm env" and lt: "r < length (reqs s)"
  shows "\<exists>b s'. errorFinish env c r s = Inr (b, s') \<and> settled env (P - {r}) s'"
proof (cases "active s r")
  case False
  then show ?thesis
    using errorFinish_not_active [OF lt False] settled_drop_P [OF s False] by (auto simp: errorFinish_def)
next
  case True
  have d: "dinv env {} {} P s" using s by (simp add: settled_def)
  have n: "\<not> execCancelled s" using settled_no_active [OF s] True by blast
  obtain a where a: "qr_job (reqs s ! r) = Some a" "a < length (jobs s)" "jq_request (jobs s ! a) = Some r"
    "tracked s a" "\<not> qr_calledMarkComplete (reqs s ! r)" using active_req [OF d True] by metis
  let ?s = "closeReq ERROR c True r s"
  have cl: "dinv env {r} {a} P ?s" using dinv_close [OF d True a(1)] by simp
  have "\<not> execCancelled ?s" "tracked ?s a" "nothing_active ?s a" "a < length (jobs ?s)" "r < length (reqs ?s)" "\<not> active ?s r"
    "qr_job (reqs ?s ! r) = Some a" "\<not> qr_calledMarkComplete (reqs ?s ! r)" "jq_request (jobs ?s ! a) = Some r"
    using n a lt close_nothing_active [OF d True a(1)] by (simp_all add: tracked_def closeReq_active closeReq_nth)
  from retry_or_report [OF cl env this, of "\<not> qr_retried (reqs s ! r) \<and> \<not> c"] obtain t where
    t: "(if \<not> qr_retried (reqs s ! r) \<and> \<not> c
       then andThen (runJob env a ?s) (\<lambda>(ok, s). if ok then Inr s else callMarkComplete_w env (squash env) r False s)
       else callMarkComplete_w env (squash env) r False ?s) = Inr t" "settled env P (cleanup r t)" "\<not> active t r" by blast
  have "errorFinish env c r s = Inr (True, cleanup r t)"
    unfolding errorFinish_def errorFinish_active [OF True a(1)] t(1) by simp
  then show ?thesis using settled_drop_P [OF t(2)] t(3) by (auto simp: cleanup_active)
qed

end
