(* ===== verification/Dispatch_Properties.thy ===== *)
theory Dispatch_Properties
  imports Dispatch_Invariant
begin

text \<open>
  Every event of a query keeps the invariant of dispatch, and the properties that follow: no job is
  forgotten, no call-back throws, \<open>squash\<close> and \<open>join\<close> do what they promise, and the number of attempts
  and of \<open>Finished\<close> calls is bounded.
\<close>

section \<open>Successful completion\<close>

lemma dinv_finish_report:
  assumes d: "dinv env {} {} P s" and r: "active s r" and a: "qr_job (reqs s ! r) = Some a"
    and st: "st_state (jq_status (jobs s ! a)) = COMPLETE"
    and ask: "\<forall>k < length (asks s). ask_req (asks s ! k) = r \<longrightarrow> ask_phase (asks s ! k) = AskReturned"
  obtains t where "callMarkComplete env r True (closeReq FINISHED False False r s) = Inr t"
    "dinv env {} {} P (cleanup r t)" "execCancelled t = execCancelled s" "\<not> active t r"
    "set (incompleteJobs t) \<subseteq> set (incompleteJobs s)"
proof -
  let ?s = "closeReq FINISHED False False r s"
  let ?u = "upd_req r (\<lambda>q. q\<lparr> qr_calledMarkComplete := True \<rparr>) ?s"
  have b: "a < length (jobs s)" "tracked s a" "\<not> qr_calledMarkComplete (reqs s ! r)" "r < length (reqs s)"
    using active_req [OF d r] a by (metis option.inject)+
  have cl: "dinv env {r} {a} P ?s" using dinv_close [OF d r a] by simp
  have c1: "r < length (reqs ?s)" "\<not> active ?s r" using b by (simp_all add: closeReq_active)
  have u: "dinv env {r} {a} P ?u" by (rule dinv_report [OF cl c1])
  have au: "active ?u = active ?s" by (auto simp: active_def upd_req_nth fun_eq_iff)
  have na: "active ?u q \<Longrightarrow> qr_job (reqs ?u ! q) \<noteq> Some a" for q
    using close_nothing_active [OF d r a, of FINISHED False False]
    by (auto simp: nothing_active_def au upd_req_nth)
  let ?t = "unTrack (jd_id (jobs ?u ! a)) ?u"
  have t: "dinv env {r} ({a} - {a}) P ?t"
    using b(2) st by (intro dinv_unTrack [OF u]) (auto simp: tracked_def na)
  have rt: "r < length (reqs ?t)" "\<not> active ?t r" using c1 au by simp_all
  have "dinv env ({r} - {r}) ({a} - {a}) P (cleanup r ?t)"
    using ask by (intro dinv_cleanup [OF t rt]) (auto simp: closeReq_nth)
  moreover have "callMarkComplete env r True ?s = Inr ?t"
    using a b(3,4) by (simp add: callMarkComplete_def callMarkComplete_w_def markCompleted_w_def Let_def upd_req_nth closeReq_nth)
  ultimately show ?thesis using that [of ?t] rt by auto
qed

lemma finish_closeReq:
  assumes "active s r"
  shows "finish env r s = andThen (callMarkComplete env r True (closeReq FINISHED False False r s)) (\<lambda>s. Inr (cleanup r s))"
proof -
  have lt: "r < length (reqs s)" using assms by (simp add: active_def)
  have "upd_req r (\<lambda>q. q\<lparr> qr_finishedCalled := True \<rparr>) (ssi (Finished r False)
      (upd_req r (\<lambda>q. q\<lparr> qr_finishStatus := FINISHED \<rparr>) s)) = closeReq FINISHED False False r s"
    using lt by (cases "reqs s ! r") (simp add: closeReq_def upd_req_def ssi_def)
  then show ?thesis using assms by (simp add: finish_def active_def Let_def)
qed

lemma finish_inv:
  assumes s: "settled env P s" and r: "active s r" and a: "qr_job (reqs s ! r) = Some a"
    and st: "st_state (jq_status (jobs s ! a)) = COMPLETE"
    and ask: "\<forall>k < length (asks s). ask_req (asks s ! k) = r \<longrightarrow> ask_phase (asks s ! k) = AskReturned"
  shows "\<exists>s'. finish env r s = Inr s' \<and> settled env (P - {r}) s'"
proof -
  have d: "dinv env {} {} P s" using s by (simp add: settled_def)
  obtain t where t: "callMarkComplete env r True (closeReq FINISHED False False r s) = Inr t"
    "dinv env {} {} P (cleanup r t)" "execCancelled t = execCancelled s" "\<not> active t r"
    "set (incompleteJobs t) \<subseteq> set (incompleteJobs s)" using dinv_finish_report [OF d r a st ask] by metis
  have "settled env P (cleanup r t)" using s t by (auto simp: settled_def)
  then show ?thesis
    using finish_closeReq [OF r, of env] t(1,4) settled_drop_P [of env P "cleanup r t" r] by (auto simp: cleanup_active)
qed

section \<open>Ask commands\<close>

lemma dinv_ask_return:
  assumes d: "dinv env L J P s" and h: "\<And>c. ask_req (h c) = ask_req c \<and> ask_job (h c) = ask_job c \<and> ask_phase (h c) = AskReturned"
  shows "dinv env L J (insert (ask_req (asks s ! k)) P) (upd_ask k h s)" (is "dinv _ _ _ ?P ?s")
proof -
  note d' = dinvD [OF d]
  have e: "ask_req (asks ?s ! j) = ask_req (asks s ! j)" "ask_job (asks ?s ! j) = ask_job (asks s ! j)" for j
    using h by (auto simp: upd_ask_nth)
  show ?thesis
  proof (rule dinvI)
    show "ask_ok L ?s j" if "j < length (asks ?s)" for j
      using d'(5) [of j] that h by (auto simp: ask_ok_def upd_ask_nth)
    have "has_ask ?s r" if "has_ask s r" "r \<noteq> ask_req (asks s ! k)" for r
      using that by (auto simp: has_ask_def upd_ask_nth)
    then show "pend ?P ?s" using d'(6) by (auto simp: pend_def)
  qed (use d' in \<open>simp_all add: maps_ok_def job_ok_def req_ok_def live_def trace_ok_def finished_count_def attempts_def stat_ok_def tracked_def\<close>)
qed

lemma settled_ask_return:
  assumes "settled env P s" "\<And>c. ask_req (h c) = ask_req c \<and> ask_job (h c) = ask_job c \<and> ask_phase (h c) = AskReturned"
  shows "settled env (insert (ask_req (asks s ! k)) P) (upd_ask k h s)"
  using assms dinv_ask_return [of env "{}" "{}" P s h k] by (simp add: settled_def)

lemma settled_ask_core:
  assumes "settled env P s" "\<And>c. ask_core (h c) = ask_core c"
  shows "settled env P (upd_ask k h s)"
  using assms dinv_ask_core [of env "{}" "{}" P s h k] by (simp add: settled_def)

lemma settled_job_core:
  assumes "settled env P s" "\<And>j. job_core (f j) = job_core j"
    and "tracked s a \<or> jq_status (f (jobs s ! a)) = jq_status (jobs s ! a)"
  shows "settled env P (upd_job a f s)"
  using assms dinv_job_core [of env "{}" "{}" P s f a] by (auto simp: settled_def)

lemma settled_req_core:
  assumes "settled env P s" "\<And>q. req_core (g q) = req_core q"
  shows "settled env P (upd_req r g s)"
  using assms dinv_req_core [of env "{}" "{}" P s g r] by (simp add: settled_def)

lemma settled_responded:
  assumes "settled env P s"
  shows "settled env (insert r P) (upd_req r (\<lambda>q. q\<lparr> qr_responded := True \<rparr>) s)" (is "settled _ ?P ?s")
proof -
  have d: "dinv env {} {} P s" using assms by (simp add: settled_def)
  note d' = dinvD [OF d]
  have e: "qr_job (reqs ?s ! q) = qr_job (reqs s ! q)"
    "qr_calledMarkComplete (reqs ?s ! q) = qr_calledMarkComplete (reqs s ! q)"
    "qr_finishStatus (reqs ?s ! q) = qr_finishStatus (reqs s ! q)"
    "qr_finishedCalled (reqs ?s ! q) = qr_finishedCalled (reqs s ! q)"
    "qr_ask (reqs ?s ! q) = qr_ask (reqs s ! q)" "qr_cancelled (reqs ?s ! q) = qr_cancelled (reqs s ! q)"
    "qr_destroyed (reqs ?s ! q) = qr_destroyed (reqs s ! q)"
    "qr_responded (reqs ?s ! q) \<longleftrightarrow> q = r \<and> r < length (reqs s) \<or> qr_responded (reqs s ! q)" for q
    by (auto simp: upd_req_nth)
  have a: "active ?s = active s" by (simp add: active_def e fun_eq_iff)
  have "pend ?P ?s" using d'(6) unfolding pend_def a has_ask_def by (simp add: e)
  then have "dinv env {} {} ?P ?s"
    using d' by (intro dinvI) (simp_all add: maps_ok_def job_ok_def req_ok_def live_def ask_ok_def
      trace_ok_def finished_count_def attempts_def stat_ok_def tracked_def e a)
  then show ?thesis using assms by (simp add: settled_def)
qed

text \<open>No command of the request is left.\<close>

definition no_asks :: "'h disp \<Rightarrow> nat \<Rightarrow> bool" where
  "no_asks s r \<longleftrightarrow> (\<forall>k < length (asks s). ask_req (asks s ! k) = r \<longrightarrow> ask_phase (asks s ! k) = AskReturned)"

lemma settled_no_asks:
  assumes s: "settled env P s" and r: "active s r" and n: "qr_ask (reqs s ! r) = None"
  shows "no_asks s r"
proof -
  have d: "dinv env {} {} P s" using s by (simp add: settled_def)
  have "\<not> qr_destroyed (reqs s ! r)" "\<not> execCancelled s"
    using active_req [OF d r] settled_no_active [OF s] r by blast+
  then show ?thesis
    using dinvD(5) [OF d] n unfolding no_asks_def ask_ok_def by fastforce
qed

lemma settled_clear_ask:
  assumes s: "settled env P s" and r: "r \<in> P" "no_asks s r"
  shows "settled env P (upd_req r (\<lambda>q. q\<lparr> qr_ask := None \<rparr>) s)" (is "settled _ _ ?s")
proof -
  have d: "dinv env {} {} P s" using s by (simp add: settled_def)
  note d' = dinvD [OF d]
  have e: "qr_job (reqs ?s ! q) = qr_job (reqs s ! q)"
    "qr_calledMarkComplete (reqs ?s ! q) = qr_calledMarkComplete (reqs s ! q)"
    "qr_finishStatus (reqs ?s ! q) = qr_finishStatus (reqs s ! q)"
    "qr_finishedCalled (reqs ?s ! q) = qr_finishedCalled (reqs s ! q)"
    "qr_cancelled (reqs ?s ! q) = qr_cancelled (reqs s ! q)"
    "qr_destroyed (reqs ?s ! q) = qr_destroyed (reqs s ! q)" "qr_responded (reqs ?s ! q) = qr_responded (reqs s ! q)" for q
    by (auto simp: upd_req_nth)
  have a: "active ?s = active s" by (simp add: active_def e fun_eq_iff)
  have "pend P ?s" using d'(6) r(1) unfolding pend_def a has_ask_def by (auto simp: e upd_req_nth)
  moreover have "ask_ok {} ?s k" if "k < length (asks s)" for k
    using d'(5) [OF that] r(2) that by (auto simp: ask_ok_def e upd_req_nth no_asks_def)
  ultimately have "dinv env {} {} P ?s"
    using d' by (intro dinvI) (simp_all add: maps_ok_def job_ok_def req_ok_def live_def
      trace_ok_def finished_count_def attempts_def stat_ok_def tracked_def e a)
  then show ?thesis using s by (simp add: settled_def)
qed

lemma settled_queueAsk:
  assumes s: "settled env P s" and r: "active s r" "no_asks s r" "qr_responded (reqs s ! r)" "qr_job (reqs s ! r) = Some a"
  shows "settled env (P - {r}) (queueAskForResponse r a s)" (is "settled _ _ ?s")
proof -
  have d: "dinv env {} {} P s" using s by (simp add: settled_def)
  note d' = dinvD [OF d]
  have lt: "r < length (reqs s)" using r(1) by (simp add: active_def)
  obtain pr where asks: "asks ?s = asks s @ [\<lparr> ask_req = r, ask_job = a, ask_state = STARTED0, ask_blen = - 1,
      ask_last = True, ask_priority = pr, ask_phase = AskQueued \<rparr>]"
    by (simp add: queueAskForResponse_def Let_def)
  have o: "jobs ?s = jobs s" "jobMap ?s = jobMap s" "incompleteJobs ?s = incompleteJobs s" "length (reqs ?s) = length (reqs s)"
    "requestCount ?s = requestCount s" "ssiCalls ?s = ssiCalls s" "execCancelled ?s = execCancelled s"
    by (simp_all add: queueAskForResponse_def Let_def)
  have rn: "reqs ?s ! q = (if q = r then (reqs s ! r)\<lparr> qr_ask := Some (length (asks s)) \<rparr> else reqs s ! q)" for q
    using lt by (simp add: queueAskForResponse_def Let_def upd_req_nth)
  have e: "qr_job (reqs ?s ! q) = qr_job (reqs s ! q)"
    "qr_calledMarkComplete (reqs ?s ! q) = qr_calledMarkComplete (reqs s ! q)"
    "qr_finishStatus (reqs ?s ! q) = qr_finishStatus (reqs s ! q)"
    "qr_finishedCalled (reqs ?s ! q) = qr_finishedCalled (reqs s ! q)"
    "qr_cancelled (reqs ?s ! q) = qr_cancelled (reqs s ! q)"
    "qr_destroyed (reqs ?s ! q) = qr_destroyed (reqs s ! q)" "qr_responded (reqs ?s ! q) = qr_responded (reqs s ! q)" for q
    by (simp_all add: rn)
  have a: "active ?s = active s" by (simp add: active_def e o fun_eq_iff)
  have "has_ask ?s q" if "q \<noteq> r" "has_ask s q" for q
    using that by (auto simp: has_ask_def asks rn nth_append)
  moreover have "has_ask ?s r" by (auto simp: has_ask_def asks rn nth_append)
  ultimately have "pend (P - {r}) ?s"
    using d'(6) r(3) unfolding pend_def a by (auto simp: e rn)
  moreover have "ask_ok {} ?s k" if "k < length (asks ?s)" for k
  proof (cases "k < length (asks s)")
    case True
    then show ?thesis using d'(5) [OF True] r(2) by (auto simp: ask_ok_def asks nth_append o e rn no_asks_def)
  next
    case False
    then have "k = length (asks s)" using that asks by simp
    then show ?thesis using r lt by (auto simp: ask_ok_def asks o rn active_def)
  qed
  ultimately have "dinv env {} {} (P - {r}) ?s"
    using d' by (intro dinvI) (simp_all add: maps_ok_def job_ok_def req_ok_def live_def
      trace_ok_def finished_count_def attempts_def stat_ok_def tracked_def e a o)
  then show ?thesis using s by (simp add: settled_def o)
qed

section \<open>Every event keeps the invariant\<close>

lemma errorFinish_then:
  assumes "settled env P s" "iter_perm env" "r < length (reqs s)" "P \<subseteq> {r}"
  shows "\<exists>s'. andThen (errorFinish env c r s) (\<lambda>(_, s). Inr s) = Inr s' \<and> settled env {} s'"
proof -
  obtain b s' where e: "errorFinish env c r s = Inr (b, s')" "settled env (P - {r}) s'"
    using errorFinish_inv [OF assms(1-3)] by blast
  moreover have "P - {r} = {}" using assms(4) by blast
  ultimately show ?thesis by simp
qed

lemma importError_inv:
  assumes "settled env {r} s" "iter_perm env" "active s r" "qr_job (reqs s ! r) = Some a"
  shows "\<exists>s'. importError env r code s = Inr s' \<and> settled env {} s'"
proof -
  let ?s = "on_handler a (h_errorFlush env code) s"
  have "settled env {r} ?s"
    unfolding on_handler_def by (rule settled_job_core [OF assms(1)]) (simp_all add: job_core_def)
  moreover have "r < length (reqs ?s)" using assms(3) by (simp add: active_def on_handler_def)
  ultimately show ?thesis
    using errorFinish_then [of env "{r}" ?s r False] assms(2-4) by (simp add: importError_def active_def)
qed

lemma settled_updateInfo:
  "settled env P s \<Longrightarrow> tracked s a \<Longrightarrow> settled env P (updateInfo a st code s)"
  unfolding updateInfo_def by (rule settled_job_core) (simp_all add: job_core_def)

lemma updateInfo_sel [simp]:
  "reqs (updateInfo a st code s) = reqs s" "asks (updateInfo a st code s) = asks s"
  "active (updateInfo a st code s) = active s" "execCancelled (updateInfo a st code s) = execCancelled s"
  "no_asks (updateInfo a st code s) = no_asks s"
  by (simp_all add: updateInfo_def no_asks_def fun_eq_iff)

lemma updateInfo_state: "a < length (jobs s) \<Longrightarrow> st_state (jq_status (jobs (updateInfo a st code s) ! a)) = st"
  by (simp add: updateInfo_def upd_job_nth)

lemma requestCancel_idle:
  assumes "settled env P s" "r < length (reqs s)" "\<not> active s r"
  shows "\<exists>s'. andThen (requestCancel env r s) (\<lambda>(_, s). Inr s) = Inr s' \<and> settled env (P - {r}) s'"
proof -
  let ?u = "upd_req r (\<lambda>q. q\<lparr> qr_cancelled := True, qr_retried := True \<rparr>) s"
  have a: "active ?u = active s" by (auto simp: active_def upd_req_nth fun_eq_iff)
  have "requestCancel env r s = Inr (False, if qr_cancelled (reqs s ! r) then s else ?u)"
    using assms(2,3) errorFinish_not_active [of r ?u env "squash env" no_run True]
    by (auto simp: requestCancel_def requestCancel_w_def Let_def active_def upd_req_nth split: option.splits)
  moreover have "settled env P ?u"
    using dinv_set_cancelled [of env "{}" "{}" P s r] assms(1,3) by (simp add: settled_def)
  ultimately show ?thesis using assms settled_drop_P [of env P _ r] a by auto
qed

lemma ProcessResponse_inv:
  assumes s: "settled env {} s" and env: "iter_perm env" and en: "enabled s (EvResponse r resp)"
  shows "\<exists>s'. ProcessResponse env r resp s = Inr s' \<and> settled env {} s'"
proof -
  let ?s = "upd_req r (\<lambda>q. q\<lparr> qr_responded := True \<rparr>) s"
  have u: "settled env {r} ?s" using settled_responded [OF s, of r] by simp
  have lt: "r < length (reqs ?s)" and as: "active ?s = active s"
    using en by (auto simp: active_def upd_req_nth fun_eq_iff)
  show ?thesis
  proof (cases "active s r")
    case False
    have idle: "settled env {} ?s" using settled_drop_P [OF u, of r] False as by simp
    show ?thesis
    proof (cases "isQueryCancelled r ?s")
      case True
      then show ?thesis
        using requestCancel_idle [OF u lt] False as by (simp add: ProcessResponse_def Let_def)
    next
      case nc: False
      have "qr_finishStatus (reqs ?s ! r) \<noteq> ACTIVE" using False lt by (simp add: active_def upd_req_nth)
      then show ?thesis using nc idle by (simp add: ProcessResponse_def Let_def)
    qed
  next
    case True
    have d: "dinv env {} {} {} s" using s by (simp add: settled_def)
    obtain a where a: "qr_job (reqs s ! r) = Some a" "a < length (jobs s)" "tracked s a"
      using active_req [OF d True] by metis
    have n: "\<not> execCancelled s" using settled_no_active [OF s] True by blast
    have na: "qr_ask (reqs s ! r) = None"
      using dinvD(6) [OF d] True en by (simp add: pend_def)
    have s': "active ?s r" "qr_job (reqs ?s ! r) = Some a" "tracked ?s a" "a < length (jobs ?s)" "qr_ask (reqs ?s ! r) = None"
      "qr_responded (reqs ?s ! r)" "\<not> isQueryCancelled r ?s" "qr_finishStatus (reqs ?s ! r) = ACTIVE"
      using True a as n na lt by (simp_all add: tracked_def upd_req_nth isQueryCancelled_def active_def)
    have noask: "no_asks ?s r" using settled_no_asks [OF u s'(1,5)] .
    have err: "\<exists>s'. importError env r code t = Inr s' \<and> settled env {} s'"
      if "t = ?s \<or> t = updateInfo a RESPONSE_ERROR code ?s" for t code
      using that importError_inv [OF u env s'(1,2)] importError_inv [OF settled_updateInfo [OF u s'(3)] env, of _ _ a] s'(1,2)
      by auto
    show ?thesis
    proof (cases resp)
      case RespErrInfo
      let ?t = "updateInfo a RESPONSE_ERROR 0 (on_handler a (h_errorFlush env (- 1)) ?s)"
      have h: "settled env {r} (on_handler a (h_errorFlush env (- 1)) ?s)"
        unfolding on_handler_def by (rule settled_job_core [OF u]) (simp_all add: job_core_def)
      have "settled env {r} ?t"
        by (rule settled_updateInfo [OF h]) (use s'(3) in \<open>simp add: on_handler_def tracked_def upd_job_nth\<close>)
      moreover have "r < length (reqs ?t)" using lt by (simp add: on_handler_def)
      ultimately show ?thesis
        using RespErrInfo s' errorFinish_then [OF _ env, of "{r}" ?t r False] by (simp add: ProcessResponse_def Let_def)
    next
      case (RespData buff)
      show ?thesis
      proof (cases "buff = ''MockResponse''")
        case True
        have "settled env {r} (updateInfo a COMPLETE 0 ?s)" by (rule settled_updateInfo [OF u s'(3)])
        from finish_inv [OF this, of r a] s' noask updateInfo_state [OF s'(4)]
        have "\<exists>s'. finish env r (updateInfo a COMPLETE 0 ?s) = Inr s' \<and> settled env {} s'" by (simp add: no_asks_def)
        then show ?thesis using RespData True s' by (simp add: ProcessResponse_def Let_def)
      qed (use RespData s' err in \<open>simp add: ProcessResponse_def Let_def\<close>)
    next
      case RespStream
      let ?t = "updateInfo a RESPONSE_READY 0 ?s"
      have "settled env ({r} - {r}) (queueAskForResponse r a ?t)"
        by (rule settled_queueAsk [OF settled_updateInfo [OF u s'(3)]]) (use s' noask in simp_all)
      then show ?thesis
        using RespStream s' by (simp add: ProcessResponse_def Let_def importStream_def)
    qed (use s' err in \<open>simp_all add: ProcessResponse_def Let_def\<close>)
  qed
qed

lemma ProcessResponseData_inv:
  assumes s: "settled env {} s" and env: "iter_perm env" and lt: "r < length (reqs s)"
  shows "\<exists>s'. ProcessResponseData env r eCode blen isLast s = Inr s' \<and> settled env {} s'"
proof (cases "qr_ask (reqs s ! r)")
  case None
  then show ?thesis using s by (simp add: ProcessResponseData_def)
next
  case (Some k)
  have ef: "\<exists>s'. andThen (errorFinish env c r s) (\<lambda>(_, s). Inr s) = Inr s' \<and> settled env {} s'" for c
    using errorFinish_then [OF s env lt] by simp
  show ?thesis
  proof (cases "active s r")
    case False
    have f: "qr_finishStatus (reqs s ! r) \<noteq> ACTIVE" using False lt by (simp add: active_def)
    then show ?thesis
      using Some ef [of False] by (cases "qr_job (reqs s ! r)") (simp_all add: ProcessResponseData_def)
  next
    case True
    obtain a where a: "qr_job (reqs s ! r) = Some a" "tracked s a"
      using active_req [of env "{}" "{}" "{}" s r] s True by (metis settled_def)
    have n: "\<not> execCancelled s" "qr_finishStatus (reqs s ! r) = ACTIVE"
      using settled_no_active [OF s] True by (auto simp: active_def)
    show ?thesis
    proof (cases "blen < 0")
      case bl: True
      let ?h = "on_handler a (h_errorFlush env eCode) (updateInfo a RESPONSE_DATA_NACK eCode s)"
      let ?t = "notifyFailed k ?h"
      have "settled env {} ?h"
        unfolding on_handler_def
        by (rule settled_job_core [OF settled_updateInfo [OF s a(2)]]) (simp_all add: job_core_def)
      then have "settled env {} ?t"
        unfolding notifyFailed_def by (rule settled_ask_core) (simp add: ask_core_def)
      moreover have "r < length (reqs ?t)" using lt by (simp add: notifyFailed_def on_handler_def)
      ultimately show ?thesis
        using Some a n bl errorFinish_then [OF _ env, of "{}" ?t r False] by (simp add: ProcessResponseData_def Let_def)
    next
      case False
      have "settled env {} (notifyDataSuccess k blen isLast (updateInfo a RESPONSE_DATA 0 s))"
        unfolding notifyDataSuccess_def
        by (rule settled_ask_core [OF settled_updateInfo [OF s a(2)]]) (simp add: ask_core_def)
      then show ?thesis using Some a n False by (simp add: ProcessResponseData_def)
    qed
  qed
qed

lemma askStart_inv:
  assumes s: "settled env {} s" and env: "iter_perm env" and en: "enabled s (EvAskStart k)"
  shows "\<exists>s'. askStart env k s = Inr s' \<and> settled env {} s'"
proof -
  let ?r = "ask_req (asks s ! k)" and ?a = "ask_job (asks s ! k)"
  let ?h = "\<lambda>c. c\<lparr> ask_state := DONE2, ask_phase := AskReturned \<rparr>"
  have d: "dinv env {} {} {} s" using s by (simp add: settled_def)
  have k: "k < length (asks s)" "ask_phase (asks s ! k) \<noteq> AskReturned" using en by simp_all
  have ok: "?r < length (reqs s)" "qr_destroyed (reqs s ! ?r) \<or> execCancelled s \<or> active s ?r \<and> qr_job (reqs s ! ?r) = Some ?a"
    using dinvD(5) [OF d k(1)] k(2) by (auto simp: ask_ok_def active_def)
  have ret: "settled env {} (upd_ask k ?h s)" if "\<not> active s ?r"
    using settled_drop_P [OF settled_ask_return [OF s, of ?h k], of ?r] that by simp
  have dead: "\<not> active s ?r" if "qr_destroyed (reqs s ! ?r) \<or> execCancelled s"
    using that active_req [OF d, of ?r] settled_no_active [OF s] by blast
  consider (dst) "qr_destroyed (reqs s ! ?r)" | (canc) "\<not> qr_destroyed (reqs s ! ?r)" "isQueryCancelled ?r s"
    | (go) "\<not> qr_destroyed (reqs s ! ?r)" "\<not> isQueryCancelled ?r s" by blast
  then show ?thesis
  proof cases
    case dst
    then show ?thesis using ret dead by (simp add: askStart_def Let_def)
  next
    case canc
    then have "execCancelled s" using ok(2) by (auto simp: isQueryCancelled_def)
    then have na: "\<not> active s ?r" using dead by blast
    then have "errorFinish env True ?r s = Inr (False, s)"
      using errorFinish_not_active [OF ok(1)] by (simp add: errorFinish_def)
    then show ?thesis using ret [OF na] canc by (simp add: askStart_def Let_def)
  next
    case go
    obtain sz h where nb: "h_nextBuffer env (jd_handler (jobs s ! ?a)) = (sz, h)" by fastforce
    let ?u = "ssi (GetResponseData ?r sz) (on_handler ?a (\<lambda>_. h) s)"
    have u: "settled env {} ?u"
      using settled_job_core [OF s, of "\<lambda>j. j\<lparr> jd_handler := h \<rparr>" ?a] dinv_fields(3) [of env "{}" "{}" "{}"]
      by (simp add: job_core_def settled_def on_handler_def)
    let ?g = "\<lambda>c. c\<lparr> ask_phase := AskWaiting \<rparr>"
    have "settled env {} (upd_ask k ?g ?u)"
    proof -
      have du: "dinv env {} {} {} ?u" using u by (simp add: settled_def)
      note d' = dinvD [OF du]
      have au: "asks ?u = asks s" by (simp add: on_handler_def)
      have e: "ask_req (asks (upd_ask k ?g ?u) ! j) = ask_req (asks ?u ! j)" "ask_job (asks (upd_ask k ?g ?u) ! j) = ask_job (asks ?u ! j)"
        "ask_phase (asks (upd_ask k ?g ?u) ! j) = AskReturned \<longleftrightarrow> ask_phase (asks ?u ! j) = AskReturned" for j
        using k(2) au by (auto simp: upd_ask_nth)
      have "dinv env {} {} {} (upd_ask k ?g ?u)"
        using d' by (intro dinvI) (simp_all add: maps_ok_def job_ok_def req_ok_def live_def ask_ok_def
          pend_def has_ask_def trace_ok_def finished_count_def attempts_def stat_ok_def tracked_def e)
      then show ?thesis using u by (simp add: settled_def)
    qed
    then show ?thesis using go nb by (simp add: askStart_def Let_def)
  qed
qed

lemma processData_inv:
  assumes s: "settled env {r} s" and env: "iter_perm env" and r: "r < length (reqs s)"
    and ok: "execCancelled s \<or> active s r \<and> qr_job (reqs s ! r) = Some a \<and> no_asks s r \<and> qr_responded (reqs s ! r)"
  shows "\<exists>s'. processData env r a blen isLast s = Inr s' \<and> settled env {} s'"
proof (cases "execCancelled s")
  case True
  then show ?thesis using errorFinish_then [OF s env r] by (simp add: processData_def)
next
  case False
  then have ac: "active s r" "qr_job (reqs s ! r) = Some a" "no_asks s r" "qr_responded (reqs s ! r)" using ok by auto
  have tr: "tracked s a" "a < length (jobs s)"
    using active_req [of env "{}" "{}" "{r}" s r] s ac(1,2) by (metis settled_def option.inject)+
  obtain fl la lg h where f: "h_flush env blen isLast (jd_handler (jobs s ! a)) = ((fl, la, lg), h)" by (metis surj_pair)
  let ?c = "upd_req r (\<lambda>q. q\<lparr> qr_ask := None \<rparr>) s"
  let ?h = "on_handler a (\<lambda>_. h) ?c"
  define t where "t = (if lg then upd_req r (\<lambda>q. q\<lparr> qr_largeResult := True \<rparr>) ?h else ?h)"
  have "settled env {r} ?c" using settled_clear_ask [OF s _ ac(3)] by simp
  then have "settled env {r} ?h"
    unfolding on_handler_def by (rule settled_job_core) (simp_all add: job_core_def)
  then have t: "settled env {r} t" using settled_req_core [of env "{r}" ?h] by (simp add: req_core_def t_def)
  have p: "active t r" "qr_job (reqs t ! r) = Some a" "no_asks t r" "qr_responded (reqs t ! r)" "tracked t a"
    "a < length (jobs t)" "r < length (reqs t)"
    using ac tr r by (auto simp: on_handler_def active_def upd_req_nth upd_job_nth no_asks_def tracked_def t_def)
  have pd: "processData env r a blen isLast s = (if fl then if la then finish env r (updateInfo a COMPLETE 0 t)
      else Inr (queueAskForResponse r a t)
      else andThen (errorFinish env True r (upd_req r (\<lambda>q. q\<lparr> qr_retried := True \<rparr>)
        (updateInfo a MERGE_ERROR (h_getError env (jd_handler (jobs t ! a))) t))) (\<lambda>(_, s). Inr s))"
    using False f by (simp add: processData_def Let_def t_def)
  show ?thesis
  proof (cases fl)
    case True
    show ?thesis
    proof (cases la)
      case la: True
      have "\<exists>s'. finish env r (updateInfo a COMPLETE 0 t) = Inr s' \<and> settled env ({r} - {r}) s'"
        by (rule finish_inv [OF settled_updateInfo [OF t p(5)]]) (use p updateInfo_state [OF p(6)] in \<open>simp_all add: no_asks_def\<close>)
      then show ?thesis using pd True la by simp
    next
      case False
      then show ?thesis using pd True settled_queueAsk [OF t p(1,3,4,2)] by simp
    qed
  next
    case False
    let ?v = "upd_req r (\<lambda>q. q\<lparr> qr_retried := True \<rparr>) (updateInfo a MERGE_ERROR (h_getError env (jd_handler (jobs t ! a))) t)"
    have "settled env {r} ?v"
      by (rule settled_req_core [OF settled_updateInfo [OF t p(5)]]) (simp add: req_core_def)
    moreover have "r < length (reqs ?v)" using p(7) by simp
    ultimately show ?thesis using pd False errorFinish_then [OF _ env, of "{r}" ?v r True] by simp
  qed
qed

lemma askResume_inv:
  assumes s: "settled env {} s" and env: "iter_perm env" and en: "enabled s (EvAskResume k)"
  shows "\<exists>s'. askResume env k s = Inr s' \<and> settled env {} s'"
proof -
  let ?r = "ask_req (asks s ! k)" and ?a = "ask_job (asks s ! k)"
  let ?s = "upd_ask k (\<lambda>c. c\<lparr> ask_phase := AskReturned \<rparr>) s"
  have d: "dinv env {} {} {} s" using s by (simp add: settled_def)
  have k: "k < length (asks s)" "ask_phase (asks s ! k) \<noteq> AskReturned" using en by simp_all
  have u: "settled env {?r} ?s" using settled_ask_return [OF s, of "\<lambda>c. c\<lparr> ask_phase := AskReturned \<rparr>" k] by simp
  have lt: "?r < length (reqs ?s)" using dinvD(5) [OF d k(1)] k(2) by (simp add: ask_ok_def)
  have dst: "settled env {} ?s" if "qr_destroyed (reqs s ! ?r)"
    using settled_drop_P [OF u, of ?r] active_req [OF d, of ?r] that by auto
  have fin: "settled env {} t \<Longrightarrow> settled env {} (upd_ask k (\<lambda>c. c\<lparr> ask_state := DONE2 \<rparr>) t)" for t
    by (rule settled_ask_core) (simp_all add: ask_core_def)
  show ?thesis
  proof (cases "ask_state (asks s ! k) = DONE2")
    case True
    then show ?thesis
      using dst errorFinish_then [OF u env lt, of False] by (cases "qr_destroyed (reqs s ! ?r)") (simp_all add: askResume_def Let_def)
  next
    case nd: False
    show ?thesis
    proof (cases "qr_destroyed (reqs s ! ?r)")
      case True
      then show ?thesis using nd fin [OF dst] by (simp add: askResume_def Let_def)
    next
      case False
      have "execCancelled ?s \<or> active ?s ?r \<and> qr_job (reqs ?s ! ?r) = Some ?a \<and> no_asks ?s ?r \<and> qr_responded (reqs ?s ! ?r)"
      proof (cases "execCancelled s")
        case nc: False
        have o: "active s ?r" "qr_ask (reqs s ! ?r) = Some k" "qr_job (reqs s ! ?r) = Some ?a"
          using dinvD(5) [OF d k(1)] k(2) False nc by (auto simp: ask_ok_def active_def)
        have "qr_responded (reqs s ! ?r)" using dinvD(6) [OF d] o by (auto simp: pend_def)
        moreover have "no_asks ?s ?r"
          unfolding no_asks_def
        proof (intro allI impI)
          fix j assume j: "j < length (asks ?s)" "ask_req (asks ?s ! j) = ?r"
          show "ask_phase (asks ?s ! j) = AskReturned"
            using dinvD(5) [OF d, of j] j o(2) False nc by (cases "j = k") (auto simp: ask_ok_def upd_ask_nth)
        qed
        ultimately show ?thesis using o by simp
      qed simp
      from processData_inv [OF u env lt this] obtain t where
        "processData env ?r ?a (ask_blen (asks s ! k)) (ask_last (asks s ! k)) ?s = Inr t" "settled env {} t" by blast
      then show ?thesis using nd False fin by (simp add: askResume_def Let_def)
    qed
  qed
qed

section \<open>Adding a job\<close>

lemma dinv_append_job:
  assumes d: "dinv env {} {} {} s"
  shows "dinv env {} {} {} (s\<lparr> jobs := jobs s @ [newJob j], totalJobs := x \<rparr>)" (is "dinv _ _ _ _ ?s")
proof -
  note d' = dinvD [OF d]
  have old: "jobs ?s ! a = jobs s ! a" if "a < length (jobs s)" for a using that by (simp add: nth_append)
  have act: "active ?s = active s" by (simp add: active_def fun_eq_iff)
  have inc: "a < length (jobs s)" if "(i, a) \<in> set (jobMap s)" for i a using d'(1) that by (auto simp: maps_ok_def)
  have incs: "a < length (jobs s)" if "(i, a) \<in> set (incompleteJobs s)" for i a
    using d'(1) that inc by (auto simp: maps_ok_def)
  show ?thesis
  proof (rule dinvI)
    show "maps_ok ?s" using d'(1) by (auto simp: maps_ok_def nth_append)
    show "job_ok ?s a" if "a < length (jobs ?s)" for a
      using that d'(2) [of a] by (cases "a < length (jobs s)")
        (auto simp: job_ok_def nth_append newJob_def getMaxAttempts_def less_Suc_eq)
    show "req_ok env {} ?s r" if "r < length (reqs ?s)" for r
      using d'(3) [of r] that by (auto simp: req_ok_def tracked_def nth_append)
    show "live {} ?s" using d'(4) incs by (fastforce simp: live_def act nth_append)
    show "ask_ok {} ?s k" if "k < length (asks ?s)" for k using d'(5) [of k] that by (simp add: ask_ok_def)
    show "pend {} ?s" using d'(6) by (simp add: pend_def act has_ask_def)
    show "stat_ok ?s" using d'(7) inc by (fastforce simp: stat_ok_def nth_append)
    show "trace_ok ?s"
      using d'(8) by (auto simp: trace_ok_def finished_count_def attempts_def nth_append newJob_def less_Suc_eq)
  qed
qed

text \<open>The new job enters both maps; it has no request yet.\<close>

lemma dinv_track:
  assumes d: "dinv env {} {} {} s" and a: "a < length (jobs s)" "jd_id (jobs s ! a) = i"
    and new: "map_of (jobMap s) i = None" "a \<notin> snd ` set (jobMap s)" and x: "\<not> jq_inSsi (jobs s ! a)"
  shows "dinv env {} {a} {} (s\<lparr> jobMap := jobMap s @ [(i, a)], totalJobs := x1,
    incompleteJobs := incompleteJobs s @ [(i, a)], emptyFlag := False, requestCount := requestCount s + 1 \<rparr>)" (is "dinv _ _ _ _ ?s")
proof -
  note d' = dinvD [OF d]
  have act: "active ?s = active s" by (simp add: active_def fun_eq_iff)
  have tr: "tracked s b \<Longrightarrow> tracked ?s b" for b by (simp add: tracked_def)
  show ?thesis
  proof (rule dinvI)
    have "i \<notin> fst ` set (jobMap s)" using new(1) by (simp add: map_of_eq_None_iff)
    then show "maps_ok ?s" using d'(1) a new(2) by (auto simp: maps_ok_def)
    show "job_ok ?s b" if "b < length (jobs ?s)" for b using d'(2) [of b] that by (simp add: job_ok_def)
    show "req_ok env {} ?s r" if "r < length (reqs ?s)" for r
      using d'(3) [of r] that tr by (auto simp: req_ok_def)
    show "live {a} ?s" using d'(4) by (fastforce simp: live_def act)
    show "ask_ok {} ?s k" if "k < length (asks ?s)" for k using d'(5) [of k] that by (simp add: ask_ok_def)
    show "pend {} ?s" using d'(6) by (simp add: pend_def act has_ask_def)
    show "stat_ok ?s" using d'(7) by (auto simp: stat_ok_def)
    show "trace_ok ?s" using d'(8) by (simp add: trace_ok_def finished_count_def attempts_def)
  qed
qed

lemma add_inv:
  assumes s: "settled env {} s" and env: "iter_perm env" and h: "fst (h_reset env (desc_handler j))"
  shows "\<exists>o' s'. add env j s = Inr (o', s') \<and> settled env {} s'"
proof (cases "execCancelled s")
  case True
  then show ?thesis using s by (simp add: add_def)
next
  case n: False
  have d: "dinv env {} {} {} s" using s by (simp add: settled_def)
  let ?a = "length (jobs s)" and ?i = "desc_id j"
  show ?thesis
  proof (cases "map_of (jobMap s) ?i")
    case (Some b)
    have "settled env {} (s\<lparr> jobs := jobs s @ [newJob j], totalJobs := int (length (jobMap s)) \<rparr>)"
      using dinv_append_job [OF d] s by (simp add: settled_def)
    then show ?thesis using n Some by (simp add: add_def addJobToMap_def Let_def)
  next
    case None
    let ?s1 = "s\<lparr> jobs := jobs s @ [newJob j], totalJobs := 0 \<rparr>"
    have d1: "dinv env {} {} {} ?s1" by (rule dinv_append_job [OF d])
    let ?t = "s\<lparr> jobs := jobs s @ [newJob j], jobMap := jobMap s @ [(?i, ?a)], totalJobs := 1 + int (length (jobMap s)),
      incompleteJobs := incompleteJobs s @ [(?i, ?a)], emptyFlag := False, requestCount := requestCount s + 1 \<rparr>"
    have "?a \<notin> snd ` set (jobMap ?s1)" using dinvD(1) [OF d] by (auto simp: maps_ok_def)
    then have "dinv env {} {?a} {} ?t"
      using dinv_track [OF d1, of ?a ?i "1 + int (length (jobMap s))"] None by (simp add: newJob_def)
    moreover have "nothing_active ?t ?a"
      unfolding nothing_active_def
    proof (intro allI impI)
      fix r assume "active ?t r"
      then have "active s r" by (simp add: active_def)
      then have "qr_job (reqs s ! r) \<noteq> Some ?a" using active_req [OF d, of r] by (metis less_irrefl option.inject)
      then show "qr_job (reqs ?t ! r) \<noteq> Some ?a" by simp
    qed
    moreover have "tracked ?t ?a" "?a < length (jobs ?t)" "\<not> execCancelled ?t" "all_closed {} ?t"
      using n by (simp_all add: tracked_def newJob_def all_closed_def)
    ultimately obtain ok s' where r: "runJob env ?a ?t = Inr (ok, s')" "run_result env {} {?a} {} ?a ?t ok s'"
      using runJob_inv [of env "{}" "{?a}" "{}" ?t ?a] env by auto
    have "map_of (incompleteJobs s) ?i = None"
      using None dinvD(1) [OF d] by (force simp: maps_ok_def map_of_eq_None_iff)
    then have "add env j s = Inr (Some ?a, s')"
      using n None r(1) by (simp add: add_def addJobToMap_def track_def Let_def)
    moreover have "settled env {} s'"
    proof (cases ok)
      case True
      then show ?thesis using r(2) by (simp add: run_result_def settled_def)
    next
      case False
      then have "dinv env {} {?a} {} s'" "execCancelled s'" "incompleteJobs s' = []"
        using r(2) h by (auto simp: run_result_def newJob_def split: if_splits)
      then show ?thesis using dinv_drop_J [of env "{}" "{?a}" "{}" s' ?a] by (simp add: settled_def tracked_def)
    qed
    ultimately show ?thesis by blast
  qed
qed

section \<open>Reachable states\<close>

fun event_ok :: "'h dispEnv \<Rightarrow> 'h dispEvent \<Rightarrow> bool" where
  "event_ok env (EvAdd d) \<longleftrightarrow> fst (h_reset env (desc_handler d))"
| "event_ok env _ \<longleftrightarrow> True"

inductive disp_reach :: "'h dispEnv \<Rightarrow> 'h disp \<Rightarrow> bool" for env where
  dr_new: "disp_reach env newExecutive"
| dr_step: "disp_reach env s \<Longrightarrow> enabled s e \<Longrightarrow> event_ok env e \<Longrightarrow> handle env e s = Inr s' \<Longrightarrow> disp_reach env s'"

lemma settled_new: "settled env {} newExecutive"
  by (auto simp: settled_def newExecutive_def dinv_def maps_ok_def live_def pend_def stat_ok_def trace_ok_def
      finished_count_def attempts_def active_def)

lemma handle_inv:
  assumes s: "settled env {} s" and env: "iter_perm env" and en: "enabled s e" "event_ok env e"
  shows "\<exists>s'. handle env e s = Inr s' \<and> settled env {} s'"
proof (cases e)
  case (EvAdd j)
  then show ?thesis using add_inv [OF s env, of j] en by auto
next
  case EvSquash
  have d: "dinv env {} {} {} s" using s by (simp add: settled_def)
  show ?thesis
  proof (cases "execCancelled s")
    case True
    then show ?thesis using EvSquash s by (simp add: squash_def squash_w_def)
  next
    case False
    then show ?thesis
      using squash_inv [OF d env _ False] EvSquash by (force simp: all_closed_def settled_def)
  qed
next
  case (EvResponse r resp)
  then show ?thesis using ProcessResponse_inv [OF s env, of r resp] en by simp
next
  case (EvData r e b l)
  then show ?thesis using ProcessResponseData_inv [OF s env, of r] en by simp
next
  case (EvAskStart k)
  then show ?thesis using askStart_inv [OF s env, of k] en by simp
next
  case (EvAskResume k)
  then show ?thesis using askResume_inv [OF s env, of k] en by simp
next
  case (EvWriteRequest a)
  have "dinv env {} {} {} s" using s by (simp add: settled_def)
  then have "dinv env {} {} {} (writeRequest a s)"
    unfolding writeRequest_def updateInfo_def by (intro dinv_job_core) (simp_all add: job_core_def)
  then show ?thesis using EvWriteRequest s by (simp add: settled_def writeRequest_def updateInfo_def)
qed

lemma reach_settled: "disp_reach env s \<Longrightarrow> iter_perm env \<Longrightarrow> settled env {} s"
proof (induction rule: disp_reach.induct)
  case (dr_step s e s')
  then show ?case using handle_inv [of env s e] by auto
qed (simp add: settled_new)

section \<open>The recursion of squash\<close>

text \<open>
  While the query is cancelled, \<open>squash\<close> returns at once wherever it is called, so it does not matter
  which of two such functions the cancelling operations call.
\<close>

lemma cancelled_markCompleted:
  assumes "returns_when_cancelled sq" "returns_when_cancelled sq'" "execCancelled s"
  shows "markCompleted_w env sq i b s = markCompleted_w env sq' i b s"
    "markCompleted_w env sq i b s = Inr s' \<Longrightarrow> execCancelled s'"
proof -
  have c: "execCancelled (unTrack i ((updateInfo x RESULT_ERROR e s)\<lparr> multiError := m \<rparr>))" for x e m
    using assms(3) by (simp add: updateInfo_def)
  show "markCompleted_w env sq i b s = markCompleted_w env sq' i b s"
    using assms(1,2) c by (simp add: markCompleted_w_def returns_when_cancelled_def Let_def split: option.splits)
  show "execCancelled s'" if "markCompleted_w env sq i b s = Inr s'"
    using that assms(1,3) c
    by (auto simp: markCompleted_w_def returns_when_cancelled_def Let_def split: option.splits if_splits)
qed

lemma cancelled_callMarkComplete:
  assumes "returns_when_cancelled sq" "returns_when_cancelled sq'" "execCancelled s"
  shows "callMarkComplete_w env sq r b s = callMarkComplete_w env sq' r b s"
    "callMarkComplete_w env sq r b s = Inr s' \<Longrightarrow> execCancelled s'"
proof -
  have c: "execCancelled (upd_req r (\<lambda>q. q\<lparr> qr_calledMarkComplete := True \<rparr>) s)" using assms(3) by simp
  note m = cancelled_markCompleted [OF assms(1,2) c]
  show "callMarkComplete_w env sq r b s = callMarkComplete_w env sq' r b s"
    using m(1) by (simp add: callMarkComplete_w_def Let_def split: option.splits)
  show "execCancelled s'" if "callMarkComplete_w env sq r b s = Inr s'"
    using that m(2) assms(3) by (auto simp: callMarkComplete_w_def Let_def split: option.splits if_splits)
qed

lemma cancelled_errorFinish:
  assumes "returns_when_cancelled sq" "returns_when_cancelled sq'" "execCancelled s"
  shows "errorFinish_w env sq no_run True r s = errorFinish_w env sq' no_run True r s"
    "errorFinish_w env sq no_run True r s = Inr (b, s') \<Longrightarrow> execCancelled s'"
proof -
  have c: "execCancelled (upd_req r f (upd_req r g (ssi x (upd_req r h s))))" for f g h x using assms(3) by simp
  note m = cancelled_callMarkComplete [OF assms(1,2) c]
  show "errorFinish_w env sq no_run True r s = errorFinish_w env sq' no_run True r s"
    using m(1) by (simp add: errorFinish_w_def Let_def split: option.splits)
  show "execCancelled s'" if "errorFinish_w env sq no_run True r s = Inr (b, s')"
    using that assms(3)
    by (auto simp: errorFinish_w_def Let_def andThen_Inr split: option.splits if_splits dest!: m(2))
qed

lemma andThen_cong: "r = r' \<Longrightarrow> (\<And>x. r = Inr x \<Longrightarrow> f x = g x) \<Longrightarrow> andThen r f = andThen r' g"
  by (cases r) auto

lemma cancelled_jobCancel:
  assumes "returns_when_cancelled sq" "returns_when_cancelled sq'" "execCancelled s"
  shows "jobCancel_w env sq a s = jobCancel_w env sq' a s"
    "jobCancel_w env sq a s = Inr (b, s') \<Longrightarrow> execCancelled s'"
proof -
  have rc: "requestCancel_w env sq r t = requestCancel_w env sq' r t \<and>
    (\<forall>b t'. requestCancel_w env sq r t = Inr (b, t') \<longrightarrow> execCancelled t')" if "execCancelled t" for r t
  proof -
    let ?u = "upd_req r (\<lambda>q. q\<lparr> qr_cancelled := True, qr_retried := True \<rparr>) t"
    let ?v = "case qr_job (reqs ?u ! r) of Some a \<Rightarrow> if qr_finishStatus (reqs ?u ! r) = ACTIVE then updateInfo a CANCEL 0 ?u else ?u
      | None \<Rightarrow> ?u"
    have c: "execCancelled ?v" using that by (simp add: updateInfo_def split: option.splits)
    show ?thesis
      using cancelled_errorFinish [OF assms(1,2) c, of env r] that by (auto simp: requestCancel_w_def Let_def)
  qed
  let ?s = "upd_job a (\<lambda>j. j\<lparr> jq_cancelled := True \<rparr>) s"
  let ?first = "\<lambda>sq. if jq_inSsi (jobs ?s ! a)
      then case jq_request (jobs ?s ! a) of None \<Rightarrow> Inl NullPointer | Some r \<Rightarrow> requestCancel_w env sq r ?s
      else Inr (False, ?s)"
  let ?second = "\<lambda>sq. \<lambda>(cancelled, s). andThen
      (if cancelled then Inr s else markCompleted_w env sq (jd_id (jobs s ! a)) False (on_handler a (h_errorFlush env (- 1)) s))
      (\<lambda>s. Inr (True, on_handler a (h_processCancel env) s))"
  have un: "jobCancel_w env q a s = (if jq_cancelled (jobs s ! a) then Inr (False, s) else andThen (?first q) (?second q))" for q
    by (simp add: jobCancel_w_def Let_def)
  have s: "execCancelled ?s" using assms(3) by simp
  have f: "?first sq = ?first sq'" "?first sq = Inr (b, t) \<Longrightarrow> execCancelled t" for b t
    using rc [OF s] s by (auto split: option.splits if_splits)
  have se: "?second sq (c, t) = ?second sq' (c, t)" "?second sq (c, t) = Inr (b, t') \<Longrightarrow> execCancelled t'"
    if "execCancelled t" for c t b t'
  proof -
    have o: "execCancelled (on_handler a (h_errorFlush env (- 1)) t)" using that by (simp add: on_handler_def)
    note m = cancelled_markCompleted [OF assms(1,2) o]
    show "?second sq (c, t) = ?second sq' (c, t)" using m(1) by simp
    show "execCancelled t'" if "?second sq (c, t) = Inr (b, t')"
      using that \<open>execCancelled t\<close> m(2) by (auto simp: andThen_Inr on_handler_def split: if_splits)
  qed
  have "andThen (?first sq) (?second sq) = andThen (?first sq') (?second sq')"
  proof (rule andThen_cong [OF f(1)])
    fix x assume x: "?first sq = Inr x"
    obtain c t where ct: "x = (c, t)" by (cases x)
    have "execCancelled t" using f(2) [of c t] x unfolding ct by blast
    then show "?second sq x = ?second sq' x" unfolding ct by (rule se(1))
  qed
  then show "jobCancel_w env sq a s = jobCancel_w env sq' a s" unfolding un by (rule arg_cong)
  show "execCancelled s'" if "jobCancel_w env sq a s = Inr (b, s')"
  proof (cases "jq_cancelled (jobs s ! a)")
    case False
    then have "andThen (?first sq) (?second sq) = Inr (b, s')" using that unfolding un by (simp only: if_False)
    then obtain x where x: "?first sq = Inr x" "?second sq x = Inr (b, s')" unfolding andThen_Inr by blast
    obtain c t where ct: "x = (c, t)" by (cases x)
    have "execCancelled t" using f(2) [of c t] x(1) unfolding ct by blast
    then show ?thesis using se(2) x(2) unfolding ct by blast
  qed (use that assms(3) un in auto)
qed

lemma cancelled_cancelAll:
  assumes "returns_when_cancelled sq" "returns_when_cancelled sq'" "execCancelled s"
  shows "cancelAll_w env sq as s = cancelAll_w env sq' as s"
  using assms(3)
proof (induction as arbitrary: s)
  case (Cons a as)
  note c = cancelled_jobCancel [OF assms(1,2) Cons.prems, of env a]
  show ?case
  proof (cases "jobCancel_w env sq a s")
    case (Inr x)
    obtain b t where x: "x = (b, t)" by (cases x)
    then have "execCancelled t" using c(2) Inr by simp
    then show ?thesis using Inr c(1) Cons.IH [of t] x by simp
  next
    case (Inl e)
    then show ?thesis using c(1) by simp
  qed
qed simp

text \<open>While the query is cancelled, no call is cut off: \<open>squash\<close> returns, and no job is run again.\<close>

lemma squash_fuel_returns: "returns_when_cancelled (squash_fuel env (Suc n))"
  by (simp add: returns_when_cancelled_def squash_w_def)

lemma andThen_eq_Inl: "andThen r f = Inl e \<longleftrightarrow> r = Inl e \<or> (\<exists>x. r = Inr x \<and> f x = Inl e)"
  by (cases r) auto

lemma bounded_markCompleted:
  assumes "returns_when_cancelled sq" "execCancelled s"
  shows "markCompleted_w env sq i b s \<noteq> Inl UnboundedRecursion"
  using assms by (auto simp: markCompleted_w_def returns_when_cancelled_def Let_def updateInfo_def split: option.splits)

lemma bounded_callMarkComplete:
  assumes "returns_when_cancelled sq" "execCancelled s"
  shows "callMarkComplete_w env sq r b s \<noteq> Inl UnboundedRecursion"
  using bounded_markCompleted [OF assms(1)] assms(2) by (simp add: callMarkComplete_w_def Let_def split: option.splits)

lemma bounded_errorFinish:
  assumes "returns_when_cancelled sq" "execCancelled s"
  shows "errorFinish_w env sq no_run True r s \<noteq> Inl UnboundedRecursion"
  using bounded_callMarkComplete [OF assms(1)] assms(2) by (simp add: errorFinish_w_def Let_def andThen_eq_Inl split: option.splits)

lemma bounded_requestCancel:
  assumes "returns_when_cancelled sq" "execCancelled s"
  shows "requestCancel_w env sq r s \<noteq> Inl UnboundedRecursion"
  using bounded_errorFinish [OF assms(1)] assms(2) by (auto simp: requestCancel_w_def Let_def updateInfo_def split: option.splits)

lemma cancelled_requestCancel:
  assumes "returns_when_cancelled sq" "execCancelled s" "requestCancel_w env sq r s = Inr (b, s')"
  shows "execCancelled s'"
proof -
  let ?u = "upd_req r (\<lambda>q. q\<lparr> qr_cancelled := True, qr_retried := True \<rparr>) s"
  let ?v = "case qr_job (reqs ?u ! r) of Some a \<Rightarrow> if qr_finishStatus (reqs ?u ! r) = ACTIVE then updateInfo a CANCEL 0 ?u else ?u
    | None \<Rightarrow> ?u"
  have c: "execCancelled ?v" using assms(2) by (simp add: updateInfo_def split: option.splits)
  show ?thesis
    using cancelled_errorFinish(2) [OF assms(1,1) c, of env r] assms by (auto simp: requestCancel_w_def Let_def split: if_splits)
qed

lemma bounded_jobCancel:
  assumes "returns_when_cancelled sq" "execCancelled s"
  shows "jobCancel_w env sq a s \<noteq> Inl UnboundedRecursion"
proof -
  let ?s = "upd_job a (\<lambda>j. j\<lparr> jq_cancelled := True \<rparr>) s"
  let ?first = "if jq_inSsi (jobs ?s ! a)
      then case jq_request (jobs ?s ! a) of None \<Rightarrow> Inl NullPointer | Some r \<Rightarrow> requestCancel_w env sq r ?s
      else Inr (False, ?s)"
  have s: "execCancelled ?s" using assms(2) by simp
  have "?first \<noteq> Inl UnboundedRecursion"
    using bounded_requestCancel [OF assms(1) s] by (simp split: option.splits)
  moreover have "execCancelled t" if "?first = Inr (b, t)" for b t
    using that s cancelled_requestCancel [OF assms(1) s] by (auto split: if_splits option.splits)
  ultimately have "andThen ?first (\<lambda>(cancelled, s). andThen
      (if cancelled then Inr s else markCompleted_w env sq (jd_id (jobs s ! a)) False (on_handler a (h_errorFlush env (- 1)) s))
      (\<lambda>s. Inr (True, on_handler a (h_processCancel env) s))) \<noteq> Inl UnboundedRecursion"
    using bounded_markCompleted [OF assms(1)] by (auto simp: andThen_eq_Inl on_handler_def split: if_splits)
  then show ?thesis by (simp add: jobCancel_w_def Let_def)
qed

lemma bounded_cancelAll:
  assumes "returns_when_cancelled sq" "execCancelled s"
  shows "cancelAll_w env sq as s \<noteq> Inl UnboundedRecursion"
  using assms(2)
proof (induction as arbitrary: s)
  case (Cons a as)
  have "execCancelled t" if "jobCancel_w env sq a s = Inr (b, t)" for b t
    using cancelled_jobCancel(2) [OF assms(1,1) Cons.prems that] .
  then show ?case
    using bounded_jobCancel [OF assms(1) Cons.prems] Cons.IH by (auto simp: andThen_eq_Inl)
qed simp

section \<open>Concrete runs\<close>

fun drun :: "'h dispEnv \<Rightarrow> 'h dispEvent list \<Rightarrow> 'h disp \<Rightarrow> 'h disp option" where
  "drun env [] s = Some s"
| "drun env (e # es) s =
     (if enabled s e \<and> event_ok env e
      then case handle env e s of Inr s' \<Rightarrow> drun env es s' | Inl _ \<Rightarrow> None
      else None)"

lemma drun_reach: "disp_reach env s \<Longrightarrow> drun env es s = Some s' \<Longrightarrow> disp_reach env s'"
proof (induction es arbitrary: s)
  case (Cons e es)
  then show ?case by (auto split: if_splits sum.splits intro: dr_step)
qed simp

text \<open>A handler that counts the buffers it has merged and can be reset only when told so.\<close>

definition demoEnv :: "(bool \<times> nat) dispEnv" where
  "demoEnv = \<lparr> h_reset = \<lambda>(ok, n). (ok, (ok, 0)), h_flush = \<lambda>blen isLast (ok, n). ((True, isLast, False), (ok, Suc n)),
     h_errorFlush = \<lambda>_ h. h, h_getError = \<lambda>_. 7, h_prepScrubResults = \<lambda>_ _ h. h, h_processCancel = \<lambda>h. h,
     h_nextBuffer = \<lambda>h. (10, h), serializeMsg = \<lambda>i n. int_to_string i @ ''_'' @ int_to_string n,
     messageAcceptable = \<lambda>_. True, iterOrder = \<lambda>xs. xs \<rparr>"

definition demoJob :: "bool \<Rightarrow> int \<Rightarrow> (bool \<times> nat) jobDescription" where
  "demoJob ok i = \<lparr> desc_id = i, desc_chunk = 100 + i, desc_mock = False, desc_scanInteractive = False,
     desc_scanRating = 10, desc_handler = (ok, 0) \<rparr>"

lemma demo_perm: "iter_perm demoEnv"
  by (simp add: iter_perm_def demoEnv_def)

lemma demo_added:
  "map_option (\<lambda>s. (incompleteJobs s, length (reqs s), length (jobs s))) (drun demoEnv [EvAdd (demoJob True 1)] newExecutive)
   = Some ([(1, 0)], 1, 1)"
  by code_simp

lemma demo_done:
  "map_option (\<lambda>s. (incompleteJobs s, jobMap s, execCancelled s, map (st_state \<circ> jq_status) (jobs s), length (reqs s),
       map_option fst (join demoEnv s)))
     (drun demoEnv [EvAdd (demoJob True 1), EvWriteRequest 0, EvResponse 0 RespStream, EvAskStart 0, EvData 0 0 20 True, EvAskResume 0]
       newExecutive)
   = Some ([], [(1, 0)], False, [COMPLETE], 1, Some True)"
  by code_simp

lemma demo_late:
  "map_option (\<lambda>s. (incompleteJobs s, execCancelled s, multiError s, map (st_state \<circ> jq_status) (jobs s), map_option fst (join demoEnv s)))
     (drun demoEnv [EvAdd (demoJob True 1), EvResponse 0 RespStream, EvAskStart 0, EvData 0 0 20 True, EvAskResume 0, EvWriteRequest 0]
       newExecutive)
   = Some ([], False, [], [REQUEST], Some False)"
  by code_simp

lemma demo_six_attempts:
  "map_option (\<lambda>s. (attempts s 0, execCancelled s))
     (drun demoEnv (EvAdd (demoJob True 1) # map (\<lambda>r. EvResponse r (RespError 3)) [0, 1, 2, 3, 4]) newExecutive)
   = Some (6, False)"
  by code_simp

lemma demo_reach1: obtains s where "disp_reach demoEnv s" "incompleteJobs s = [(1, 0)]" "length (reqs s) = 1" "length (jobs s) = 1"
  using demo_added drun_reach [OF dr_new] by (auto simp del: drun.simps)

lemma demo_reach2: obtains s where "disp_reach demoEnv s" "incompleteJobs s = []" "jobMap s = [(1, 0)]" "\<not> execCancelled s"
  "map_option fst (join demoEnv s) = Some True"
  using demo_done drun_reach [OF dr_new] by (auto simp del: drun.simps)

section \<open>Properties\<close>

text \<open>
  C40. \<open>squash\<close> terminates although it calls itself through the jobs it cancels: in every state, and for
  every order in which the jobs are visited, never more than two calls of it are open. Whatever
  larger depth the recursion is allowed, the result is that of \<open>squash\<close>, and the recursion is not cut
  off.
\<close>

theorem squash_recursion:
  assumes "2 \<le> n"
  shows "squash_fuel env n s = squash env s \<and> squash_fuel env n s \<noteq> Inl UnboundedRecursion"
proof -
  obtain m where n: "n = Suc (Suc m)" using assms by (metis Suc_le_D numeral_2_eq_2 Suc_le_mono)
  show ?thesis
  proof (cases "execCancelled s")
    case True
    then show ?thesis unfolding n by (simp add: squash_def squash_w_def)
  next
    case False
    let ?s = "s\<lparr> execCancelled := True \<rparr>"
    have "cancelAll_w env (squash_fuel env (Suc m)) as ?s = cancelAll_w env squash_inner as ?s" for as
      by (rule cancelled_cancelAll [OF squash_fuel_returns squash_inner_returns]) simp
    moreover have "cancelAll_w env squash_inner as ?s \<noteq> Inl UnboundedRecursion" for as
      by (rule bounded_cancelAll [OF squash_inner_returns]) simp
    ultimately show ?thesis
      unfolding n squash_fuel.simps(2) [of env "Suc m"] using False by (simp add: squash_def squash_w_def del: squash_fuel.simps)
  qed
qed

theorem squash_recursion_witness:
  "\<exists>s. disp_reach demoEnv s \<and> incompleteJobs s = [(1, 0)] \<and> squash_fuel demoEnv 2 s = squash demoEnv s
     \<and> squash_fuel demoEnv 2 s \<noteq> Inl UnboundedRecursion"
proof -
  obtain s where s: "disp_reach demoEnv s" "incompleteJobs s = [(1, 0)]" by (rule demo_reach1)
  then show ?thesis using squash_recursion [of 2 demoEnv s] by blast
qed

text \<open>
  C21. No call-back of a query throws: in every reachable state, whatever XrdSsi delivers next,
  \<open>markCompleted\<close> never meets a job it does not track while the query is running, and no null
  pointer is followed.
\<close>

theorem dispatch_never_throws:
  assumes "iter_perm env" "disp_reach env s" "enabled s e" "event_ok env e"
  shows "\<exists>s'. handle env e s = Inr s'"
  using handle_inv [OF reach_settled [OF assms(2,1)] assms(1,3,4)] by blast

theorem dispatch_never_throws_witness:
  "\<exists>s'. handle demoEnv (EvAdd (demoJob True 1)) newExecutive = Inr s'"
  using dispatch_never_throws [OF demo_perm dr_new, of "EvAdd (demoJob True 1)"]
  by (simp add: demoJob_def demoEnv_def del: handle.simps)

text \<open>
  C2. No job is forgotten: every incomplete job of a reachable state has exactly one active request,
  which either still waits for its response from XrdSsi or has an ask command that is queued in
  the pool or waits for data.
\<close>

theorem no_job_forgotten:
  assumes "iter_perm env" "disp_reach env s" "(i, a) \<in> set (incompleteJobs s)"
  shows "\<exists>r. active s r \<and> qr_job (reqs s ! r) = Some a \<and> jq_request (jobs s ! a) = Some r
    \<and> (\<forall>q. active s q \<and> qr_job (reqs s ! q) = Some a \<longrightarrow> q = r)
    \<and> (\<not> qr_responded (reqs s ! r) \<or> has_ask s r)"
proof -
  have d: "dinv env {} {} {} s" using reach_settled [OF assms(2,1)] by (simp add: settled_def)
  obtain r where r: "jq_request (jobs s ! a) = Some r" "active s r" "qr_job (reqs s ! r) = Some a"
    using dinvD(4) [OF d] assms(3) by (auto simp: live_def)
  moreover have "\<not> qr_responded (reqs s ! r) \<or> has_ask s r" using dinvD(6) [OF d] r(2) by (auto simp: pend_def)
  ultimately show ?thesis using one_active [OF d r(2,3)] by blast
qed

theorem no_job_forgotten_witness:
  "\<exists>s. disp_reach demoEnv s \<and> incompleteJobs s = [(1, 0)] \<and> (\<exists>r. active s r \<and> qr_job (reqs s ! r) = Some 0)"
proof -
  obtain s where s: "disp_reach demoEnv s" "incompleteJobs s = [(1, 0)]" by (rule demo_reach1)
  have "\<exists>r. active s r \<and> qr_job (reqs s ! r) = Some 0"
    using no_job_forgotten [OF demo_perm s(1), of 1 0] s(2) by auto
  then show ?thesis using s by blast
qed

text \<open>
  C10. Cancelling ends a query: from every reachable state \<open>squash\<close> returns, afterwards no job is
  incomplete, no request is active, and \<open>join\<close> returns.
\<close>

theorem squash_ends_query:
  assumes "iter_perm env" "disp_reach env s"
  shows "\<exists>s'. squash env s = Inr s' \<and> execCancelled s' \<and> incompleteJobs s' = [] \<and> (\<forall>r. \<not> active s' r)
    \<and> jobMap s' = jobMap s \<and> join env s' \<noteq> None"
proof -
  have s: "settled env {} s" by (rule reach_settled [OF assms(2,1)])
  obtain s' where s': "squash env s = Inr s'" "settled env {} s'" "execCancelled s'" "jobMap s' = jobMap s"
  proof (cases "execCancelled s")
    case True
    then show ?thesis using that [of s] s by (simp add: squash_def squash_w_def)
  next
    case False
    have "dinv env {} {} {} s" using s by (simp add: settled_def)
    then obtain s' where "squash env s = Inr s'" "dinv env {} {} {} s'" "keeps {} s s'" "execCancelled s'"
      "incompleteJobs s' = []"
      using squash_inv [of env "{}" "{}" "{}" s] assms(1) False by (auto simp: all_closed_def)
    then show ?thesis using that [of s'] by (simp add: settled_def keeps_def)
  qed
  moreover have "incompleteJobs s' = []" using s'(2,3) by (simp add: settled_def)
  ultimately show ?thesis
    using settled_no_active [OF s'(2,3)] by (auto simp: join_def Let_def)
qed

theorem squash_ends_query_witness:
  "\<exists>s s'. disp_reach demoEnv s \<and> incompleteJobs s = [(1, 0)] \<and> squash demoEnv s = Inr s' \<and> incompleteJobs s' = []"
proof -
  obtain s where s: "disp_reach demoEnv s" "incompleteJobs s = [(1, 0)]" by (rule demo_reach1)
  then show ?thesis using squash_ends_query [OF demo_perm s(1)] by blast
qed

text \<open>
  C24. \<open>join\<close> reports the outcome: when it returns, the result is \<open>true\<close> exactly if every job that was
  added has succeeded. In a query that was not cancelled every job is done, and its status
  is \<open>COMPLETE\<close> or the \<open>REQUEST\<close> that a late write of \<open>runJob\<close> put in its place: only such a write makes
  \<open>join\<close> report a failure. One message per job and at most one error message have been stored.
\<close>

theorem join_reports_outcome:
  assumes "iter_perm env" "disp_reach env s" "join env s = Some (ok, s')"
  shows "(ok \<longleftrightarrow> (\<forall>(i, a) \<in> set (jobMap s). jobSucceeded (jobs s ! a)))
    \<and> (\<not> execCancelled s \<longrightarrow> incompleteJobs s = [] \<and> (\<forall>r. \<not> active s r)
        \<and> (\<forall>(i, a) \<in> set (jobMap s). st_state (jq_status (jobs s ! a)) \<in> {COMPLETE, REQUEST})
        \<and> (\<not> ok \<longrightarrow> (\<exists>(i, a) \<in> set (jobMap s). st_state (jq_status (jobs s ! a)) = REQUEST)))
    \<and> emptyFlag s' = ok
    \<and> length (queryMessages s') = length (queryMessages s) + length (jobMap s) + of_bool (multiError s \<noteq> [])"
proof -
  have s: "settled env {} s" by (rule reach_settled [OF assms(2,1)])
  have m: "maps_ok s" "stat_ok s" using s dinvD(1,7) by (auto simp: settled_def)
  have inc: "incompleteJobs s = []" using assms(3) by (auto simp: join_def split: if_splits)
  have fl: "length (fold (\<lambda>a. addMessage (f a) (g a) MSG_INFO) as ms) = length ms + length as" for f g as ms
    by (induction as arbitrary: ms) (simp_all add: addMessage_def)
  have len: "length (iterOrder env (map snd (jobMap s))) = length (jobMap s)"
    using assms(1) unfolding iter_perm_def by (metis length_map size_mset)
  have ok: "ok \<longleftrightarrow> int (length (filter (\<lambda>p. jobSucceeded (jobs s ! snd p)) (jobMap s))) = requestCount s"
    "emptyFlag s' = ok" "queryMessages s' = queryMessages (updateProxyMessages env s)"
    using assms(3) inc by (auto simp: join_def Let_def)
  then have eq: "ok \<longleftrightarrow> (\<forall>(i, a) \<in> set (jobMap s). jobSucceeded (jobs s ! a))"
    using m(1) by (auto simp: maps_ok_def length_filter_all)
  moreover have st: "st_state (jq_status (jobs s ! a)) \<in> {COMPLETE, REQUEST}" if "\<not> execCancelled s" "(i, a) \<in> set (jobMap s)" for i a
    using m(2) inc that by (auto simp: stat_ok_def)
  moreover have "\<exists>(i, a) \<in> set (jobMap s). st_state (jq_status (jobs s ! a)) = REQUEST" if n: "\<not> execCancelled s" "\<not> ok"
  proof -
    obtain i a where "(i, a) \<in> set (jobMap s)" "\<not> jobSucceeded (jobs s ! a)" using eq n(2) by blast
    then show ?thesis using st [OF n(1), of i a] by (auto simp: jobSucceeded_def)
  qed
  moreover have "\<not> active s r" for r
    using active_req [of env "{}" "{}" "{}" s r] s inc by (auto simp: settled_def tracked_def)
  moreover have "length (queryMessages s') = length (queryMessages s) + length (jobMap s) + of_bool (multiError s \<noteq> [])"
    using ok(3) len by (simp add: updateProxyMessages_def Let_def fl addErrorMessage_def addMessage_def)
  ultimately show ?thesis using ok(2) inc by blast
qed

theorem join_reports_outcome_witness:
  "\<exists>s s'. disp_reach demoEnv s \<and> jobMap s = [(1, 0)] \<and> \<not> execCancelled s \<and> join demoEnv s = Some (True, s')
     \<and> jobSucceeded (jobs s ! 0) \<and> length (queryMessages s') = length (queryMessages s) + 1 + of_bool (multiError s \<noteq> [])"
proof -
  obtain s where s: "disp_reach demoEnv s" "jobMap s = [(1, 0)]" "\<not> execCancelled s" "map_option fst (join demoEnv s) = Some True"
    by (rule demo_reach2)
  then obtain s' where j: "join demoEnv s = Some (True, s')" by auto
  then show ?thesis using join_reports_outcome [OF demo_perm s(1) j] s by auto
qed

text \<open>
  C34. The number of attempts is bounded: a job is sent to a worker at most six times, whatever goes
  wrong, and the limit of the job description is never reached.
\<close>

theorem attempts_bounded:
  assumes "iter_perm env" "disp_reach env s" "a < length (jobs s)"
  shows "attempts s a \<le> 6 \<and> jd_attemptCount (jobs s ! a) < MAX_JOB_ATTEMPTS"
proof -
  have d: "dinv env {} {} {} s" using reach_settled [OF assms(2,1)] by (simp add: settled_def)
  have "int (attempts s a) \<le> jd_attemptCount (jobs s ! a) + 1" "jd_attemptCount (jobs s ! a) \<le> getMaxAttempts"
    using dinvD(2,8) [OF d] assms(3) by (auto simp: trace_ok_def job_ok_def)
  then show ?thesis by (simp add: getMaxAttempts_def MAX_JOB_ATTEMPTS_def)
qed

theorem attempts_bounded_witness: "\<exists>s. disp_reach demoEnv s \<and> incompleteJobs s = [(1, 0)] \<and> attempts s 0 \<le> 6"
proof -
  obtain s where s: "disp_reach demoEnv s" "incompleteJobs s = [(1, 0)]" "length (jobs s) = 1" by (rule demo_reach1)
  then show ?thesis using attempts_bounded [OF demo_perm s(1), of 0] by auto
qed

text \<open>
  Every request calls \<open>Finished\<close> exactly once, when it stops being active; until then \<open>GetRequest\<close>
  yields the payload that was built for the current attempt of its job.
\<close>

theorem request_finished_once:
  assumes "iter_perm env" "disp_reach env s" "r < length (reqs s)"
  shows "finished_count s r = (if active s r then 0 else 1)
    \<and> (active s r \<longrightarrow> (\<exists>a. qr_job (reqs s ! r) = Some a
         \<and> GetRequest r s = serializeMsg env (jd_id (jobs s ! a)) (jd_attemptCount (jobs s ! a))))"
proof -
  have d: "dinv env {} {} {} s" using reach_settled [OF assms(2,1)] by (simp add: settled_def)
  have "finished_count s r = of_bool (qr_finishedCalled (reqs s ! r))" using dinvD(8) [OF d] assms(3) by (simp add: trace_ok_def)
  then show ?thesis
    using dinvD(3) [OF d assms(3)] assms(3) by (auto simp: req_ok_def active_def GetRequest_def)
qed

theorem request_finished_once_witness:
  "\<exists>s. disp_reach demoEnv s \<and> incompleteJobs s = [(1, 0)] \<and> finished_count s 0 = (if active s 0 then 0 else 1)"
proof -
  obtain s where s: "disp_reach demoEnv s" "incompleteJobs s = [(1, 0)]" "length (reqs s) = 1" by (rule demo_reach1)
  then show ?thesis using request_finished_once [OF demo_perm s(1), of 0] by auto
qed

section \<open>Limits\<close>

text \<open>
  The late write of \<open>REQUEST\<close> makes a query fail that has all its rows: it replaces the \<open>COMPLETE\<close> of a
  job whose result was merged, nothing was cancelled, no error was stored, and \<open>join\<close> returns \<open>false\<close>.
\<close>

lemma late_write_fails_query:
  "\<exists>s s'. disp_reach demoEnv s \<and> \<not> execCancelled s \<and> multiError s = [] \<and> join demoEnv s = Some (False, s')"
proof -
  obtain s where s: "drun demoEnv [EvAdd (demoJob True 1), EvResponse 0 RespStream, EvAskStart 0, EvData 0 0 20 True,
      EvAskResume 0, EvWriteRequest 0] newExecutive = Some s" "\<not> execCancelled s" "multiError s = []"
    "map_option fst (join demoEnv s) = Some False"
    using demo_late by (auto simp del: drun.simps)
  then obtain s' where "join demoEnv s = Some (False, s')" by auto
  then show ?thesis using s drun_reach [OF dr_new s(1)] by blast
qed

text \<open>
  Six attempts do happen although \<open>_getMaxAttempts\<close> is five: the count starts at minus one and is
  compared before it is incremented.
\<close>

lemma six_attempts_happen: "\<exists>s. disp_reach demoEnv s \<and> attempts s 0 = 6 \<and> \<not> execCancelled s"
  using demo_six_attempts drun_reach [OF dr_new] by (auto simp del: drun.simps)

text \<open>
  \<open>add\<close> ignores the result of \<open>runJob\<close>: a job whose handler refuses its first reset stays
  incomplete without any request, so \<open>join\<close> waits until the query is cancelled.
\<close>

lemma reset_failure_strands_job:
  "map_option (\<lambda>s. (incompleteJobs s, length (reqs s), execCancelled s, map_option fst (join demoEnv s)))
     (case handle demoEnv (EvAdd (demoJob False 1)) newExecutive of Inr s \<Rightarrow> Some s | Inl _ \<Rightarrow> None)
   = Some ([(1, 0)], 0, False, None)"
  by code_simp

end
