(* ===== verification/Chunk_Spec.thy ===== *)
theory Chunk_Spec
  imports Std_Algorithms "HOL-Library.Char_ord" "HOL-Library.List_Lexorder"
    "HOL-Library.Product_Lexorder"
begin

text \<open>
  Which chunks a query needs: \<open>qproc/ChunkSpec\<close>, the lookup in the secondary index of \<open>qproc/SecondaryIndex\<close>
  (\<open>MySqlBackend\<close>) and \<open>qproc/IndexMap\<close>, which joins it with the spatial restrictions of the query. The geometry
  library, the chunker and the connection to the index are a parameter (\<open>indexEnv\<close>). Exceptions and the use of
  an iterator at the end of its vector are errors; \<open>NoReturn\<close> is a loop that does not end.

  The lemmas show that \<open>normalize\<close> computes the canonical form of a list of specifications, that the intersection of
  two canonical lists is right chunk by chunk, and exactly when its loop runs past the end of its argument.
\<close>

section \<open>ChunkSpec\<close>

record chunkSpec =
  cs_chunkId :: int
  cs_subChunks :: "int list"

datatype qprocError =
    Bug
  | OutOfRange
  | GeometryError string
  | QueryProcessingError string
  | QueryProcessingBug
  | RangeError
  | NullMapping
  | NoReturn

type_synonym 'a qproc = "qprocError + 'a"

definition CHUNKID_INVALID :: int where
  "CHUNKID_INVALID = -1"

text \<open>\<open>std::merge\<close> and \<open>std::set_intersection\<close> of the C++ library.\<close>

fun std_merge :: "'a::linorder list \<Rightarrow> 'a list \<Rightarrow> 'a list" where
  "std_merge [] ys = ys"
| "std_merge xs [] = xs"
| "std_merge (x # xs) (y # ys) = (if y < x then y # std_merge (x # xs) ys else x # std_merge xs (y # ys))"

fun std_set_intersection :: "'a::linorder list \<Rightarrow> 'a list \<Rightarrow> 'a list" where
  "std_set_intersection [] ys = []"
| "std_set_intersection xs [] = []"
| "std_set_intersection (x # xs) (y # ys) =
     (if x < y then std_set_intersection xs (y # ys)
      else if y < x then std_set_intersection (x # xs) ys
      else x # std_set_intersection xs ys)"

text \<open>\<open>operator<\<close>: by chunk, then by the number of subchunks, then by the first mismatch.\<close>

fun mismatch_less :: "int list \<Rightarrow> int list \<Rightarrow> bool" where
  "mismatch_less (x # xs) (y # ys) = (if x = y then mismatch_less xs ys else x < y)"
| "mismatch_less [] ys = (ys \<noteq> [])"
| "mismatch_less (x # xs) [] = False"

definition spec_less :: "chunkSpec \<Rightarrow> chunkSpec \<Rightarrow> bool" where
  "spec_less a b =
     (if cs_chunkId a < cs_chunkId b then True
      else if cs_chunkId b < cs_chunkId a then False
      else if length (cs_subChunks a) \<noteq> length (cs_subChunks b)
      then length (cs_subChunks a) < length (cs_subChunks b)
      else mismatch_less (cs_subChunks a) (cs_subChunks b))"

definition spec_normalize :: "chunkSpec \<Rightarrow> chunkSpec" where
  "spec_normalize c = c\<lparr> cs_subChunks := remdups_adj (sort (cs_subChunks c)) \<rparr>"

definition mergeUnion :: "chunkSpec \<Rightarrow> chunkSpec \<Rightarrow> chunkSpec qproc" where
  "mergeUnion c rhs =
     (if cs_chunkId c \<noteq> cs_chunkId rhs then Inl Bug
      else Inr (c\<lparr> cs_subChunks := remdups_adj (std_merge (cs_subChunks c) (cs_subChunks rhs)) \<rparr>))"

definition spec_restrict :: "chunkSpec \<Rightarrow> chunkSpec \<Rightarrow> chunkSpec qproc" where
  "spec_restrict c rhs =
     (if cs_chunkId c \<noteq> cs_chunkId rhs then Inl Bug
      else Inr (c\<lparr> cs_subChunks := std_set_intersection (cs_subChunks c) (cs_subChunks rhs) \<rparr>))"

definition spec_intersect :: "chunkSpec \<Rightarrow> chunkSpec \<Rightarrow> chunkSpec qproc" where
  "spec_intersect c rhs = spec_restrict (spec_normalize c) (spec_normalize rhs)"

section \<open>Vectors of specifications\<close>

text \<open>The inner loop of \<open>normalize\<close>: all entries with the chunk of \<open>i\<close> are merged into it.\<close>

fun mergeRun :: "chunkSpec \<Rightarrow> chunkSpec list \<Rightarrow> (chunkSpec \<times> chunkSpec list) qproc" where
  "mergeRun i [] = Inr (i, [])"
| "mergeRun i (j # js) =
     (if cs_chunkId i = cs_chunkId j
      then case mergeUnion i (spec_normalize j) of
             Inl e \<Rightarrow> Inl e
           | Inr i' \<Rightarrow> mergeRun i' js
      else Inr (i, j # js))"

lemma mergeRun_length: "mergeRun i js = Inr (i', js') \<Longrightarrow> length js' \<le> length js"
  by (induction i js rule: mergeRun.induct) (auto split: if_splits sum.splits dest: le_SucI)

function mergeRuns :: "chunkSpec list \<Rightarrow> chunkSpec list qproc" where
  "mergeRuns [] = Inr []"
| "mergeRuns (i # js) =
     (case mergeRun (spec_normalize i) js of
        Inl e \<Rightarrow> Inl e
      | Inr (i', js') \<Rightarrow>
          (case mergeRuns js' of Inl e \<Rightarrow> Inl e | Inr output \<Rightarrow> Inr (i' # output)))"
  by pat_completeness auto
termination by (relation "measure length") (auto dest!: mergeRun_length simp: less_Suc_eq_le)

definition normalize :: "chunkSpec list \<Rightarrow> chunkSpec list qproc" where
  "normalize specs = mergeRuns (sort_by spec_less specs)"

text \<open>
  \<open>intersectSorted\<close>: the inner loop advances in \<open>a\<close> without a test for its end, so it reads past it if
  no chunk is left that is large enough.
\<close>

fun advanceTo :: "int \<Rightarrow> chunkSpec list \<Rightarrow> chunkSpec list qproc" where
  "advanceTo c [] = Inl OutOfRange"
| "advanceTo c (a # as) = (if cs_chunkId a < c then advanceTo c as else Inr (a # as))"

fun intersectSorted :: "chunkSpec list \<Rightarrow> chunkSpec list \<Rightarrow> chunkSpec list qproc" where
  "intersectSorted [] as = Inr []"
| "intersectSorted (d # ds) as =
     (if as = [] then Inr []
      else case advanceTo (cs_chunkId d) as of
             Inl e \<Rightarrow> Inl e
           | Inr as' \<Rightarrow>
               (case (if cs_chunkId (hd as') = cs_chunkId d
                      then map_sum id (\<lambda>cs. if cs_chunkId d \<noteq> CHUNKID_INVALID then [cs] else []) (spec_restrict d (hd as'))
                      else Inr []) of
                  Inl e \<Rightarrow> Inl e
                | Inr tmp \<Rightarrow> map_sum id ((@) tmp) (intersectSorted ds as')))"

definition intersect :: "chunkSpec list \<Rightarrow> chunkSpec list \<Rightarrow> chunkSpec list qproc" where
  "intersect a b =
     (case normalize a of Inl e \<Rightarrow> Inl e
      | Inr asort \<Rightarrow> (case normalize b of Inl e \<Rightarrow> Inl e | Inr bsort \<Rightarrow> intersectSorted asort bsort))"

section \<open>The secondary index\<close>

record constraint =
  co_name :: string
  co_params :: "string list"

datatype queryType = IN | NOT_IN | BETWEEN | NOT_BETWEEN

text \<open>
  \<open>ie_rows\<close> are the rows of the index that answer a query, \<open>ie_region\<close> the constructor of a class of regions,
  \<open>ie_coverage\<close> the chunks and subchunks that a region meets, by \<open>getSubChunksIntersecting\<close>; the last two may throw.
\<close>

record 'r indexEnv =
  ie_rows :: "string \<Rightarrow> (int \<times> int) list"
  ie_region :: "string \<Rightarrow> string list \<Rightarrow> string + 'r"
  ie_coverage :: "'r \<Rightarrow> string + (int \<times> int list) list"
  ie_allChunks :: "int list"
  ie_allSubChunks :: "int \<Rightarrow> int list"

definition isalnum :: "char \<Rightarrow> bool" where
  "isalnum c \<longleftrightarrow>
     (CHR ''0'' \<le> c \<and> c \<le> CHR ''9'') \<or> (CHR ''A'' \<le> c \<and> c \<le> CHR ''Z'') \<or> (CHR ''a'' \<le> c \<and> c \<le> CHR ''z'')"

definition isNameSafe :: "char \<Rightarrow> bool" where
  "isNameSafe c \<longleftrightarrow> isalnum c \<or> c = CHR ''_''"

definition sanitizeName :: "string \<Rightarrow> string" where
  "sanitizeName = filter isNameSafe"

definition buildIndexTableName :: "string \<Rightarrow> string \<Rightarrow> string" where
  "buildIndexTableName db table = ''qservMeta'' @ ''.'' @ sanitizeName db @ ''__'' @ sanitizeName table"

fun joinVals :: "string list \<Rightarrow> string" where
  "joinVals [] = []"
| "joinVals [v] = v"
| "joinVals (v # w # vs) = v @ '', '' @ joinVals (w # vs)"

definition buildLookupQuery :: "string list \<Rightarrow> queryType \<Rightarrow> string qproc" where
  "buildLookupQuery params queryType =
     (case params of
        db # table # key_column # vals \<Rightarrow>
          (let sql = ''SELECT '' @ ''chunkId'' @ '', '' @ ''subChunkId'' @ '' FROM '' @ buildIndexTableName db table
                     @ '' WHERE '' @ key_column
           in case queryType of
                IN \<Rightarrow> Inr (sql @ '' IN'' @ ''('' @ joinVals vals @ '')'')
              | NOT_IN \<Rightarrow> Inr (sql @ '' NOT IN'' @ ''('' @ joinVals vals @ '')'')
              | BETWEEN \<Rightarrow> (case vals of [par3, par4] \<Rightarrow> Inr (sql @ '' BETWEEN '' @ par3 @ '' AND '' @ par4) | _ \<Rightarrow> Inl Bug)
              | NOT_BETWEEN \<Rightarrow>
                  (case vals of [par3, par4] \<Rightarrow> Inr (sql @ '' NOT BETWEEN '' @ par3 @ '' AND '' @ par4) | _ \<Rightarrow> Inl Bug))
      | _ \<Rightarrow> Inl OutOfRange)"

definition addRow :: "int \<times> int \<Rightarrow> (int, int list) omap \<Rightarrow> (int, int list) omap" where
  "addRow r tmp = (case omap_find tmp (fst r) of
                     None \<Rightarrow> omap_set (fst r) [snd r] tmp
                   | Some v \<Rightarrow> omap_set (fst r) (v @ [snd r]) tmp)"

definition sqlLookup :: "'r indexEnv \<Rightarrow> chunkSpec list \<Rightarrow> string list \<Rightarrow> queryType \<Rightarrow> chunkSpec list qproc" where
  "sqlLookup env output params queryType =
     map_sum id (\<lambda>sql. output @ map (\<lambda>(c, subs). \<lparr> cs_chunkId = c, cs_subChunks = subs \<rparr>)
                                  (fold addRow (ie_rows env sql) []))
       (buildLookupQuery params queryType)"

definition indexQueryType :: "string \<Rightarrow> queryType option" where
  "indexQueryType name =
     (if name = ''sIndex'' then Some IN
      else if name = ''sIndexNotIn'' then Some NOT_IN
      else if name = ''sIndexBetween'' then Some BETWEEN
      else if name = ''sIndexNotBetween'' then Some NOT_BETWEEN
      else None)"

fun lookupAll :: "'r indexEnv \<Rightarrow> constraint list \<Rightarrow> bool \<times> chunkSpec list \<Rightarrow> (bool \<times> chunkSpec list) qproc" where
  "lookupAll env [] s = Inr s"
| "lookupAll env (c # cv) (hasIndex, output) =
     (case indexQueryType (co_name c) of
        None \<Rightarrow> lookupAll env cv (hasIndex, output)
      | Some t \<Rightarrow>
          (case sqlLookup env output (co_params c) t of
             Inl e \<Rightarrow> Inl e
           | Inr output' \<Rightarrow> lookupAll env cv (True, output')))"

text \<open>\<open>lookup\<close>: \<open>None\<close> stands for the exception \<open>NoIndexConstraint\<close>, which the caller catches.\<close>

definition lookup :: "'r indexEnv \<Rightarrow> constraint list \<Rightarrow> chunkSpec list option qproc" where
  "lookup env cv =
     (case lookupAll env cv (False, []) of
        Inl e \<Rightarrow> Inl e
      | Inr (hasIndex, output) \<Rightarrow> if hasIndex then map_sum id Some (normalize output) else Inr None)"

section \<open>IndexMap\<close>

definition funcMap :: "(string \<times> string) list" where
  "funcMap = [(''box'', ''Box''), (''circle'', ''Circle''), (''ellipse'', ''Ellipse''), (''poly'', ''ConvexPolygon''),
     (''qserv_areaspec_box'', ''Box''), (''qserv_areaspec_circle'', ''Circle''),
     (''qserv_areaspec_ellipse'', ''Ellipse''), (''qserv_areaspec_poly'', ''ConvexPolygon'')]"

definition getRegion :: "'r indexEnv \<Rightarrow> constraint \<Rightarrow> 'r option qproc" where
  "getRegion env c =
     (case map_of funcMap (co_name c) of
        None \<Rightarrow> Inr None
      | Some f \<Rightarrow> map_sum GeometryError Some (ie_region env f (co_params c)))"

fun getRegions :: "'r indexEnv \<Rightarrow> constraint list \<Rightarrow> 'r option list qproc" where
  "getRegions env [] = Inr []"
| "getRegions env (c # cv) =
     (case getRegion env c of
        Inl e \<Rightarrow> Inl e
      | Inr r \<Rightarrow> map_sum id ((#) r) (getRegions env cv))"

text \<open>
  \<open>getIntersect\<close>: \<open>None\<close> stands for \<open>NoRegion\<close>. Other exceptions of the chunker become a
  \<open>QueryProcessingError\<close> in \<open>getChunks\<close>.
\<close>

fun getIntersect :: "'r indexEnv \<Rightarrow> 'r option list \<Rightarrow> (int \<times> int list) list option qproc" where
  "getIntersect env [] = Inr None"
| "getIntersect env (None # rv) = getIntersect env rv"
| "getIntersect env (Some r # rv) =
     (case ie_coverage env r of
        Inl e \<Rightarrow> Inl (QueryProcessingError e)
      | Inr area \<Rightarrow>
          map_sum id (\<lambda>scv. case scv of None \<Rightarrow> Some area | Some scv \<Rightarrow> Some (area @ scv)) (getIntersect env rv))"

definition convertSgSubChunks :: "int \<times> int list \<Rightarrow> chunkSpec" where
  "convertSgSubChunks sc = \<lparr> cs_chunkId = fst sc, cs_subChunks = snd sc \<rparr>"

definition getAllChunks :: "'r indexEnv \<Rightarrow> chunkSpec list" where
  "getAllChunks env = map (\<lambda>c. \<lparr> cs_chunkId = c, cs_subChunks = ie_allSubChunks env c \<rparr>) (ie_allChunks env)"

definition getChunks :: "'r indexEnv \<Rightarrow> constraint list \<Rightarrow> chunkSpec list qproc" where
  "getChunks env cv =
     (case lookup env cv of Inl e \<Rightarrow> Inl e
      | Inr index \<Rightarrow>
     (case getRegions env cv of Inl e \<Rightarrow> Inl e
      | Inr rv \<Rightarrow>
     (case getIntersect env rv of Inl e \<Rightarrow> Inl e
      | Inr scv \<Rightarrow>
          (case (index, map_option (map convertSgSubChunks) scv) of
             (Some indexSpecs, Some regionSpecs) \<Rightarrow>
               (case normalize indexSpecs of Inl e \<Rightarrow> Inl e
                | Inr i \<Rightarrow> (case normalize regionSpecs of Inl e \<Rightarrow> Inl e | Inr r \<Rightarrow> intersectSorted i r))
           | (Some indexSpecs, None) \<Rightarrow> Inr indexSpecs
           | (None, Some regionSpecs) \<Rightarrow> Inr regionSpecs
           | (None, None) \<Rightarrow> Inr (getAllChunks env)))))"


section \<open>Canonical form\<close>

text \<open>
  The chunks of a list, the pairs of chunk and subchunk that it names, and those that it covers: no subchunks
  stand for all of them.
\<close>

definition chunkIds :: "chunkSpec list \<Rightarrow> int set" where
  "chunkIds specs = cs_chunkId ` set specs"

definition listed :: "chunkSpec list \<Rightarrow> (int \<times> int) set" where
  "listed specs = (\<Union>c \<in> set specs. {cs_chunkId c} \<times> set (cs_subChunks c))"

definition covered :: "chunkSpec list \<Rightarrow> (int \<times> int) set" where
  "covered specs = {(c, s). \<exists>x \<in> set specs. cs_chunkId x = c \<and> (cs_subChunks x = [] \<or> s \<in> set (cs_subChunks x))}"

text \<open>No chunk is asked for both as a whole and by subchunks.\<close>

definition unmixed :: "chunkSpec list \<Rightarrow> bool" where
  "unmixed specs \<longleftrightarrow>
     (\<forall>x \<in> set specs. \<forall>y \<in> set specs. cs_chunkId x = cs_chunkId y \<longrightarrow> (cs_subChunks x = []) = (cs_subChunks y = []))"

text \<open>The reference: one entry per chunk, in order, with its subchunks in order and once.\<close>

definition canonical :: "chunkSpec list \<Rightarrow> chunkSpec list" where
  "canonical specs =
     map (\<lambda>c. \<lparr> cs_chunkId = c,
              cs_subChunks = sorted_list_of_set (\<Union>x \<in> set (filter (\<lambda>x. cs_chunkId x = c) specs). set (cs_subChunks x)) \<rparr>)
       (sorted_list_of_set (chunkIds specs))"

lemma distinct_remdups_adj_sorted: "sorted xs \<Longrightarrow> distinct (remdups_adj xs)"
proof (induction xs rule: remdups_adj.induct)
  case (3 x y xs)
  then show ?case by (cases "x = y") auto
qed simp_all

lemma remdups_adj_sorted_set: "sorted xs \<Longrightarrow> remdups_adj xs = sorted_list_of_set (set xs)" for xs :: "'a::linorder list"
  by (metis distinct_remdups_adj_sorted remdups_adj_set sorted_list_of_set.idem_if_sorted_distinct sorted_remdups_adj)

lemma set_std_merge: "set (std_merge xs ys) = set xs \<union> set ys"
  by (induction xs ys rule: std_merge.induct) auto

lemma sorted_std_merge: "sorted xs \<Longrightarrow> sorted ys \<Longrightarrow> sorted (std_merge xs ys)"
  by (induction xs ys rule: std_merge.induct) (auto simp: set_std_merge)

lemma std_set_intersection_correct:
  "sorted_wrt (<) xs \<Longrightarrow> sorted_wrt (<) ys \<Longrightarrow>
   std_set_intersection xs ys = sorted_list_of_set (set xs \<inter> set ys)" for xs :: "'a::linorder list"
proof -
  assume a: "sorted_wrt (<) xs" "sorted_wrt (<) ys"
  have s: "set (std_set_intersection xs ys) = set xs \<inter> set ys"
    using a by (induction xs ys rule: std_set_intersection.induct) auto
  have "sorted_wrt (<) (std_set_intersection xs ys)"
    using a
  proof (induction xs ys rule: std_set_intersection.induct)
    case (3 x xs y ys)
    have "set (std_set_intersection xs ys) \<subseteq> set xs" for ys
      by (induction xs ys rule: std_set_intersection.induct) auto
    then show ?case using 3 by auto
  qed simp_all
  then show ?thesis using s by (metis sorted_list_of_set.idem_if_sorted_distinct strict_sorted_iff)
qed

lemma spec_normalize_sel [simp]:
  "cs_chunkId (spec_normalize c) = cs_chunkId c"
  "cs_subChunks (spec_normalize c) = sorted_list_of_set (set (cs_subChunks c))"
  by (simp_all add: spec_normalize_def remdups_adj_sorted_set)

lemma mergeUnion_same:
  "cs_chunkId c = cs_chunkId rhs \<Longrightarrow> sorted (cs_subChunks c) \<Longrightarrow> sorted (cs_subChunks rhs) \<Longrightarrow>
   mergeUnion c rhs = Inr \<lparr> cs_chunkId = cs_chunkId c,
     cs_subChunks = sorted_list_of_set (set (cs_subChunks c) \<union> set (cs_subChunks rhs)) \<rparr>"
  by (simp add: mergeUnion_def remdups_adj_sorted_set sorted_std_merge set_std_merge)

text \<open>The inner loop takes the entries of one chunk off the front and joins them.\<close>

lemma mergeRun_result:
  "sorted (cs_subChunks i) \<Longrightarrow>
   mergeRun i js = Inr (\<lparr> cs_chunkId = cs_chunkId i, cs_subChunks =
       if takeWhile (\<lambda>x. cs_chunkId x = cs_chunkId i) js = [] then cs_subChunks i
       else sorted_list_of_set (set (cs_subChunks i)
              \<union> (\<Union>x \<in> set (takeWhile (\<lambda>x. cs_chunkId x = cs_chunkId i) js). set (cs_subChunks x))) \<rparr>,
     dropWhile (\<lambda>x. cs_chunkId x = cs_chunkId i) js)"
  by (induction i js rule: mergeRun.induct) (auto simp: mergeUnion_same Un_assoc)

lemma sorted_ids_split:
  assumes "sorted (map cs_chunkId js)" "\<forall>x \<in> set js. (c::int) \<le> cs_chunkId x"
  shows "set (takeWhile (\<lambda>x. cs_chunkId x = c) js) = {x \<in> set js. cs_chunkId x = c}"
    "set (dropWhile (\<lambda>x. cs_chunkId x = c) js) = {x \<in> set js. c < cs_chunkId x}"
  using assms by (induction js) force+

lemma sorted_list_of_set_insert_least:
  assumes "finite A" "\<forall>x \<in> A. c < x"
  shows "sorted_list_of_set (insert c A) = c # sorted_list_of_set A"
proof -
  have "c \<notin> A" using assms(2) by blast
  then have "sorted_list_of_set (insert c A) = insort c (sorted_list_of_set A)" using assms(1) by simp
  also have "\<dots> = c # sorted_list_of_set A" using assms by (intro insort_is_Cons) (auto simp: less_imp_le)
  finally show ?thesis .
qed

lemma canonical_alt:
  "canonical specs = map (\<lambda>c. \<lparr> cs_chunkId = c, cs_subChunks = sorted_list_of_set (Pair c -` listed specs) \<rparr>)
     (sorted_list_of_set (chunkIds specs))"
proof -
  have "(\<Union>x \<in> set (filter (\<lambda>x. cs_chunkId x = c) specs). set (cs_subChunks x)) = Pair c -` listed specs" for c
    by (auto simp: listed_def)
  then show ?thesis by (simp add: canonical_def)
qed

lemma canonical_Cons:
  assumes "sorted (map cs_chunkId (i # js))"
  shows "canonical (i # js) =
    \<lparr> cs_chunkId = cs_chunkId i, cs_subChunks = sorted_list_of_set (set (cs_subChunks i)
        \<union> (\<Union>x \<in> set (takeWhile (\<lambda>x. cs_chunkId x = cs_chunkId i) js). set (cs_subChunks x))) \<rparr>
    # canonical (dropWhile (\<lambda>x. cs_chunkId x = cs_chunkId i) js)"
proof -
  let ?c = "cs_chunkId i" let ?R = "dropWhile (\<lambda>x. cs_chunkId x = cs_chunkId i) js"
  have le: "\<forall>x \<in> set js. ?c \<le> cs_chunkId x" and so: "sorted (map cs_chunkId js)" using assms by auto
  note sp = sorted_ids_split [OF so le]
  have ids: "chunkIds (i # js) = insert ?c (chunkIds ?R)" using le by (force simp: chunkIds_def sp(2))
  have gt: "\<forall>x \<in> chunkIds ?R. ?c < x" by (auto simp: chunkIds_def sp(2))
  have order: "sorted_list_of_set (chunkIds (i # js)) = ?c # sorted_list_of_set (chunkIds ?R)"
    unfolding ids by (rule sorted_list_of_set_insert_least) (use gt in \<open>auto simp: chunkIds_def\<close>)
  have "Pair c -` listed (i # js) = Pair c -` listed ?R" if "c \<in> chunkIds ?R" for c
    using gt that by (auto simp: listed_def sp(2))
  moreover have "Pair ?c -` listed (i # js)
      = set (cs_subChunks i) \<union> (\<Union>x \<in> set (takeWhile (\<lambda>x. cs_chunkId x = ?c) js). set (cs_subChunks x))"
    by (auto simp: listed_def sp(1))
  moreover have "set (sorted_list_of_set (chunkIds ?R)) = chunkIds ?R" by (simp add: chunkIds_def)
  ultimately show ?thesis by (simp add: canonical_alt order)
qed

lemma sorted_dropWhile_map: "sorted (map f xs) \<Longrightarrow> sorted (map f (dropWhile P xs))"
  by (induction xs) auto

lemma mergeRuns_canonical: "sorted (map cs_chunkId specs) \<Longrightarrow> mergeRuns specs = Inr (canonical specs)"
proof (induction specs rule: mergeRuns.induct)
  case (2 i js)
  let ?R = "dropWhile (\<lambda>x. cs_chunkId x = cs_chunkId i) js"
  have "mergeRuns ?R = Inr (canonical ?R)"
    using 2 sorted_dropWhile_map [of cs_chunkId js] by (auto simp: mergeRun_result)
  then show ?case
    using canonical_Cons [OF 2(2)] by (simp add: mergeRun_result)
qed (simp add: canonical_def chunkIds_def)

section \<open>Order\<close>

definition spec_key :: "chunkSpec \<Rightarrow> int \<times> nat \<times> int list" where
  "spec_key c = (cs_chunkId c, length (cs_subChunks c), cs_subChunks c)"

lemma mismatch_less_lex: "mismatch_less xs ys \<longleftrightarrow> xs < ys"
proof (induction xs ys rule: mismatch_less.induct)
  case (2 ys)
  then show ?case by (cases ys) auto
qed auto

lemma spec_less_key: "spec_less a b \<longleftrightarrow> spec_key a < spec_key b"
  by (auto simp: spec_less_def spec_key_def mismatch_less_lex less_prod_def')

interpretation spec_order: strict_weak_order_on UNIV spec_less
  by unfold_locales (auto simp: spec_less_key)

lemma normalize_canonical: "normalize specs = Inr (canonical specs)"
proof -
  have "sorted_wrt (\<lambda>a b. \<not> spec_less b a) (sort_by spec_less specs)" by (rule spec_order.sorted_sort_by) simp
  then have "sorted (map cs_chunkId (sort_by spec_less specs))"
    unfolding sorted_map by (rule sorted_wrt_mono_rel [rotated]) (auto simp: spec_less_def split: if_splits)
  moreover have "canonical (sort_by spec_less specs) = canonical specs"
    by (simp add: canonical_def chunkIds_def set_sort_by)
  ultimately show ?thesis by (simp add: normalize_def mergeRuns_canonical)
qed

lemma canonical_sorted: "sorted_wrt (<) (map cs_chunkId (canonical specs))"
  by (simp add: canonical_def comp_def)

lemma canonical_subs: "x \<in> set (canonical specs) \<Longrightarrow> sorted_wrt (<) (cs_subChunks x)"
  by (auto simp: canonical_def)

lemma canonical_ids [simp]: "chunkIds (canonical specs) = chunkIds specs"
  by (auto simp: canonical_def chunkIds_def image_image)

lemma canonical_listed [simp]: "listed (canonical specs) = listed specs"
  by (auto simp: canonical_def listed_def chunkIds_def)

lemma canonical_idem [simp]: "canonical (canonical specs) = canonical specs"
  by (simp add: canonical_alt [of "canonical specs"] canonical_alt [of specs, symmetric])

section \<open>Intersection\<close>

lemma advanceTo_result:
  "advanceTo c as = (if \<forall>a \<in> set as. cs_chunkId a < c then Inl OutOfRange
                     else Inr (dropWhile (\<lambda>a. cs_chunkId a < c) as))"
  by (induction c as rule: advanceTo.induct) auto

definition commonSpec :: "chunkSpec list \<Rightarrow> chunkSpec \<Rightarrow> chunkSpec" where
  "commonSpec as d = \<lparr> cs_chunkId = cs_chunkId d,
     cs_subChunks = sorted_list_of_set (set (cs_subChunks d) \<inter> Pair (cs_chunkId d) -` listed as) \<rparr>"

lemma restrict_common:
  assumes "sorted_wrt (<) (map cs_chunkId as)" "a \<in> set as" "cs_chunkId a = cs_chunkId d"
    "sorted_wrt (<) (cs_subChunks a)" "sorted_wrt (<) (cs_subChunks d)"
  shows "spec_restrict d a = Inr (commonSpec as d)"
proof -
  have "distinct (map cs_chunkId as)" using assms(1) strict_sorted_iff by blast
  then have one: "x = a" if "x \<in> set as" "cs_chunkId x = cs_chunkId d" for x
    using that assms(2,3) by (auto simp: distinct_map inj_on_def)
  have "(cs_chunkId d, y) \<in> listed as \<longleftrightarrow> (\<exists>x \<in> set as. cs_chunkId d = cs_chunkId x \<and> y \<in> set (cs_subChunks x))" for y
    by (simp add: listed_def)
  then have "y \<in> Pair (cs_chunkId d) -` listed as \<longleftrightarrow> y \<in> set (cs_subChunks a)" for y
    using one assms(2,3) by (metis vimage_eq)
  then have "Pair (cs_chunkId d) -` listed as = set (cs_subChunks a)" by blast
  then show ?thesis using assms(3-5) by (simp add: spec_restrict_def commonSpec_def std_set_intersection_correct)
qed

text \<open>What the inner loop skips is of no use to the entries that follow.\<close>

lemma dropWhile_ids:
  assumes "sorted_wrt (<) (map cs_chunkId as)"
  shows "set (dropWhile (\<lambda>a. cs_chunkId a < (c::int)) as) = {a \<in> set as. c \<le> cs_chunkId a}"
  using assms by (induction as) force+

lemma commonSpec_drop:
  assumes "sorted_wrt (<) (map cs_chunkId as)" "c \<le> cs_chunkId d"
  shows "commonSpec (dropWhile (\<lambda>a. cs_chunkId a < c) as) d = commonSpec as d"
proof -
  have "Pair (cs_chunkId d) -` listed (dropWhile (\<lambda>a. cs_chunkId a < c) as) = Pair (cs_chunkId d) -` listed as"
    using assms(2) by (auto simp: listed_def dropWhile_ids [OF assms(1)])
  then show ?thesis by (simp add: commonSpec_def)
qed

lemma intersectSorted_step:
  assumes "as \<noteq> []" "advanceTo (cs_chunkId d) as = Inr as'" "cs_chunkId d \<noteq> CHUNKID_INVALID"
    "cs_chunkId (hd as') = cs_chunkId d \<Longrightarrow> spec_restrict d (hd as') = Inr r"
  shows "intersectSorted (d # ds) as
    = map_sum id ((@) (if cs_chunkId (hd as') = cs_chunkId d then [r] else [])) (intersectSorted ds as')"
  using assms by (cases "cs_chunkId (hd as') = cs_chunkId d") simp_all

lemma intersectSorted_result:
  assumes "sorted_wrt (<) (map cs_chunkId ds)" "sorted_wrt (<) (map cs_chunkId as)"
    "\<forall>x \<in> set ds \<union> set as. sorted_wrt (<) (cs_subChunks x)" "CHUNKID_INVALID \<notin> chunkIds ds"
  shows "intersectSorted ds as =
    (if as \<noteq> [] \<and> (\<exists>d \<in> set ds. \<forall>a \<in> set as. cs_chunkId a < cs_chunkId d) then Inl OutOfRange
     else Inr (map (commonSpec as) (filter (\<lambda>d. cs_chunkId d \<in> chunkIds as) ds)))"
  using assms
proof (induction ds arbitrary: as)
  case (Cons d ds)
  let ?as = "dropWhile (\<lambda>a. cs_chunkId a < cs_chunkId d) as"
  show ?case
  proof (cases "as = [] \<or> (\<forall>a \<in> set as. cs_chunkId a < cs_chunkId d)")
    case True
    then show ?thesis by (auto simp: advanceTo_result chunkIds_def)
  next
    case False
    note so = Cons.prems(2)
    have ne: "?as \<noteq> []" using False dropWhile_ids [OF so, of "cs_chunkId d"] by (auto simp: not_less)
    have later: "cs_chunkId d < cs_chunkId x" if "x \<in> set ds" for x using Cons.prems(1) that by auto
    have so': "sorted_wrt (<) (map cs_chunkId ?as)"
      using so by (induction as) auto
    have hd: "cs_chunkId (hd ?as) = cs_chunkId d \<longleftrightarrow> cs_chunkId d \<in> chunkIds as"
    proof -
      obtain a rest where ar: "?as = a # rest" using ne by (cases ?as) auto
      have "cs_chunkId a \<le> x" if "x \<in> chunkIds ?as" for x using so' that by (auto simp: ar chunkIds_def)
      moreover have "cs_chunkId d \<in> chunkIds ?as \<longleftrightarrow> cs_chunkId d \<in> chunkIds as"
        by (auto simp: chunkIds_def dropWhile_ids [OF so])
      moreover have "cs_chunkId d \<le> cs_chunkId a" using dropWhile_ids [OF so, of "cs_chunkId d"] ar by auto
      ultimately show ?thesis using ar by (fastforce simp: chunkIds_def)
    qed
    have in_as: "hd ?as \<in> set ?as" using ne by simp
    have restr: "spec_restrict d (hd ?as) = Inr (commonSpec as d)" if "cs_chunkId (hd ?as) = cs_chunkId d"
      using restrict_common [OF so', of "hd ?as" d] in_as that Cons.prems(3) dropWhile_ids [OF so, of "cs_chunkId d"]
        commonSpec_drop [OF so, of "cs_chunkId d" d] by auto
    have IH: "intersectSorted ds ?as =
      (if (\<exists>x \<in> set ds. \<forall>a \<in> set ?as. cs_chunkId a < cs_chunkId x) then Inl OutOfRange
       else Inr (map (commonSpec ?as) (filter (\<lambda>x. cs_chunkId x \<in> chunkIds ?as) ds)))"
    proof -
      have "\<forall>x \<in> set ds \<union> set ?as. sorted_wrt (<) (cs_subChunks x)"
        using Cons.prems(3) set_dropWhileD by fastforce
      moreover have "CHUNKID_INVALID \<notin> chunkIds ds" using Cons.prems(4) by (simp add: chunkIds_def)
      moreover have "sorted_wrt (<) (map cs_chunkId ds)" using Cons.prems(1) by simp
      ultimately show ?thesis using Cons.IH [of ?as] so' ne by simp
    qed
    have over: "(\<exists>x \<in> set ds. \<forall>a \<in> set ?as. cs_chunkId a < cs_chunkId x)
        \<longleftrightarrow> as \<noteq> [] \<and> (\<exists>x \<in> set (d # ds). \<forall>a \<in> set as. cs_chunkId a < cs_chunkId x)"
    proof -
      have "(\<forall>a \<in> set ?as. cs_chunkId a < cs_chunkId x) \<longleftrightarrow> (\<forall>a \<in> set as. cs_chunkId a < cs_chunkId x)" if "x \<in> set ds" for x
        using later [OF that] dropWhile_ids [OF so, of "cs_chunkId d"] by (metis (mono_tags, lifting) mem_Collect_eq not_le order_less_trans)
      then show ?thesis using False by simp blast
    qed
    have rest: "map (commonSpec ?as) (filter (\<lambda>x. cs_chunkId x \<in> chunkIds ?as) ds)
        = map (commonSpec as) (filter (\<lambda>x. cs_chunkId x \<in> chunkIds as) ds)"
    proof -
      have "cs_chunkId x \<in> chunkIds ?as \<longleftrightarrow> cs_chunkId x \<in> chunkIds as" if "x \<in> set ds" for x
        using later [OF that] by (auto simp: chunkIds_def dropWhile_ids [OF so])
      moreover have "commonSpec ?as x = commonSpec as x" if "x \<in> set ds" for x
        using later [OF that] by (simp add: commonSpec_drop [OF so])
      ultimately show ?thesis by (auto cong: map_cong filter_cong)
    qed
    have adv: "advanceTo (cs_chunkId d) as = Inr ?as" using False by (simp add: advanceTo_result)
    have ok: "as \<noteq> []" "cs_chunkId d \<noteq> CHUNKID_INVALID" using False Cons.prems(4) by (auto simp: chunkIds_def)
    have "intersectSorted (d # ds) as = map_sum id ((@) (if cs_chunkId (hd ?as) = cs_chunkId d then [commonSpec as d] else []))
        (intersectSorted ds ?as)"
      by (rule intersectSorted_step [OF ok(1) adv ok(2) restr])
    then show ?thesis unfolding hd IH over rest by simp
  qed
qed simp

text \<open>The reference: the chunks of both lists, with the pairs that both lists cover.\<close>

definition commonSpecs :: "chunkSpec list \<Rightarrow> chunkSpec list \<Rightarrow> chunkSpec list" where
  "commonSpecs a b = map (\<lambda>c. \<lparr> cs_chunkId = c, cs_subChunks = sorted_list_of_set (Pair c -` (listed a \<inter> listed b)) \<rparr>)
     (sorted_list_of_set (chunkIds a \<inter> chunkIds b))"

definition passesEnd :: "chunkSpec list \<Rightarrow> chunkSpec list \<Rightarrow> bool" where
  "passesEnd a b \<longleftrightarrow> b \<noteq> [] \<and> (\<exists>x \<in> set a. \<forall>y \<in> set b. cs_chunkId y < cs_chunkId x)"

lemma map_common: "map cs_chunkId (commonSpecs a b) = sorted_list_of_set (chunkIds a \<inter> chunkIds b)"
  by (simp add: commonSpecs_def comp_def)

lemma ids_common: "chunkIds (commonSpecs a b) = chunkIds a \<inter> chunkIds b"
proof -
  have "chunkIds (commonSpecs a b) = set (map cs_chunkId (commonSpecs a b))" by (simp add: chunkIds_def)
  also have "\<dots> = chunkIds a \<inter> chunkIds b" unfolding map_common by (simp add: chunkIds_def)
  finally show ?thesis .
qed

lemma finite_section: "finite (Pair c -` listed specs)"
  by (rule finite_vimageI) (auto simp: listed_def inj_on_def)

lemma listed_common: "listed (commonSpecs a b) = listed a \<inter> listed b"
proof -
  have "c \<in> chunkIds a" "c \<in> chunkIds b" if "(c, s) \<in> listed a \<inter> listed b" for c s
    using that by (auto simp: listed_def chunkIds_def)
  moreover have "finite (Pair c -` (listed a \<inter> listed b))" for c
    by (rule finite_subset [OF _ finite_section [of c a]]) auto
  ultimately show ?thesis by (auto simp: commonSpecs_def listed_def [of "map _ _"] chunkIds_def)
qed

lemma filter_sorted_list_of_set:
  "finite A \<Longrightarrow> filter P (sorted_list_of_set A) = sorted_list_of_set {x \<in> A. P x}" for A :: "'a::linorder set"
  by (rule sorted_distinct_set_unique) (auto simp: sorted_wrt_filter)

lemma intersect_canonical:
  assumes "CHUNKID_INVALID \<notin> chunkIds a"
  shows "intersectSorted (canonical a) (canonical b) = (if passesEnd a b then Inl OutOfRange else Inr (commonSpecs a b))"
proof -
  have "canonical b = [] \<longleftrightarrow> b = []" by (auto simp: canonical_alt chunkIds_def)
  moreover have "(\<exists>d \<in> set (canonical a). \<forall>y \<in> set (canonical b). cs_chunkId y < cs_chunkId d)
      \<longleftrightarrow> (\<exists>c \<in> chunkIds (canonical a). \<forall>d \<in> chunkIds (canonical b). d < c)"
    unfolding chunkIds_def by blast
  ultimately have over: "(canonical b \<noteq> [] \<and> (\<exists>d \<in> set (canonical a). \<forall>y \<in> set (canonical b). cs_chunkId y < cs_chunkId d))
      \<longleftrightarrow> passesEnd a b"
    unfolding canonical_ids by (auto simp: passesEnd_def chunkIds_def)
  have common: "map (commonSpec (canonical b)) (filter (\<lambda>d. cs_chunkId d \<in> chunkIds (canonical b)) (canonical a)) = commonSpecs a b"
  proof -
    have "commonSpec (canonical b) \<lparr> cs_chunkId = c, cs_subChunks = sorted_list_of_set (Pair c -` listed a) \<rparr>
        = \<lparr> cs_chunkId = c, cs_subChunks = sorted_list_of_set (Pair c -` (listed a \<inter> listed b)) \<rparr>" for c
      by (simp add: commonSpec_def finite_section vimage_Int)
    then have "map (commonSpec (canonical b)) (filter (\<lambda>d. cs_chunkId d \<in> chunkIds b) (canonical a))
        = map (\<lambda>c. \<lparr> cs_chunkId = c, cs_subChunks = sorted_list_of_set (Pair c -` (listed a \<inter> listed b)) \<rparr>)
            (filter (\<lambda>c. c \<in> chunkIds b) (sorted_list_of_set (chunkIds a)))"
      by (simp add: canonical_alt [of a] filter_map comp_def)
    moreover have "finite (chunkIds a)" "{x \<in> chunkIds a. x \<in> chunkIds b} = chunkIds a \<inter> chunkIds b"
      by (auto simp: chunkIds_def)
    ultimately show ?thesis by (simp add: commonSpecs_def filter_sorted_list_of_set)
  qed
  have subs: "\<forall>x \<in> set (canonical a) \<union> set (canonical b). sorted_wrt (<) (cs_subChunks x)" using canonical_subs by blast
  have valid: "CHUNKID_INVALID \<notin> chunkIds (canonical a)" using assms by simp
  show ?thesis
    using intersectSorted_result [OF canonical_sorted canonical_sorted subs valid] unfolding over common by assumption
qed

section \<open>The index\<close>

lemma addRow_rows: "{(c, s). \<exists>v. omap_find (addRow r m) c = Some v \<and> s \<in> set v}
    = insert r {(c, s). \<exists>v. omap_find m c = Some v \<and> s \<in> set v}"
  by (cases r; cases "omap_find m (fst r)") (auto simp: addRow_def split: if_splits)

lemma fold_addRow_rows:
  "{(c, s). \<exists>v. omap_find (fold addRow rows m) c = Some v \<and> s \<in> set v}
     = set rows \<union> {(c, s). \<exists>v. omap_find m c = Some v \<and> s \<in> set v}"
  by (induction rows arbitrary: m) (auto simp only: fold_Cons comp_apply addRow_rows list.set fold_Nil id_apply)

lemma fold_addRow_wf: "omap_wf m \<Longrightarrow> omap_wf (fold addRow rows m)"
  by (induction rows arbitrary: m) (auto simp: addRow_def split: option.splits)

lemma listed_addRow:
  "listed (map (\<lambda>(c, subs). \<lparr> cs_chunkId = c, cs_subChunks = subs \<rparr>) (fold addRow rows [])) = set rows"
proof -
  let ?m = "fold addRow rows []"
  have "omap_wf ?m" by (rule fold_addRow_wf) simp
  then have "listed (map (\<lambda>(c, subs). \<lparr> cs_chunkId = c, cs_subChunks = subs \<rparr>) ?m)
      = {(c, s). \<exists>v. omap_find ?m c = Some v \<and> s \<in> set v}"
    by (force simp: listed_def dest: omap_find_in_set omap_in_set_find)
  then show ?thesis using fold_addRow_rows [of rows "[]"] by simp
qed

lemma listed_append: "listed (xs @ ys) = listed xs \<union> listed ys"
  by (auto simp: listed_def)

text \<open>The rows of the index that the constraints of a query ask for.\<close>

definition indexRows :: "'r indexEnv \<Rightarrow> constraint \<Rightarrow> (int \<times> int) set" where
  "indexRows env c = (case indexQueryType (co_name c) of
       None \<Rightarrow> {}
     | Some t \<Rightarrow> (case buildLookupQuery (co_params c) t of Inl _ \<Rightarrow> {} | Inr sql \<Rightarrow> set (ie_rows env sql)))"

lemma lookupAll_listed:
  "lookupAll env cv (hasIndex, specs) = Inr (h, out) \<Longrightarrow>
   listed out = listed specs \<union> (\<Union>c \<in> set cv. indexRows env c)
   \<and> (h \<longleftrightarrow> hasIndex \<or> (\<exists>c \<in> set cv. indexQueryType (co_name c) \<noteq> None))"
proof (induction cv arbitrary: hasIndex specs)
  case (Cons c cv)
  show ?case
  proof (cases "indexQueryType (co_name c)")
    case None
    then show ?thesis using Cons by (auto simp: indexRows_def)
  next
    case (Some t)
    then obtain sql where sql: "buildLookupQuery (co_params c) t = Inr sql"
      "lookupAll env cv (True, specs @ map (\<lambda>(c, subs). \<lparr> cs_chunkId = c, cs_subChunks = subs \<rparr>)
         (fold addRow (ie_rows env sql) [])) = Inr (h, out)"
      using Cons.prems by (cases "buildLookupQuery (co_params c) t") (auto simp: sqlLookup_def)
    then show ?thesis
      using Cons.IH [OF sql(2)] Some by (auto simp: indexRows_def listed_append listed_addRow)
  qed
qed simp

lemma lookup_listed:
  assumes "lookup env cv = Inr (Some specs)"
  shows "listed specs = (\<Union>c \<in> set cv. indexRows env c)" "canonical specs = specs"
proof -
  obtain h out where out: "lookupAll env cv (False, []) = Inr (h, out)" "specs = canonical out"
    using assms by (auto simp: lookup_def normalize_canonical split: sum.splits if_splits)
  show "listed specs = (\<Union>c \<in> set cv. indexRows env c)"
    using lookupAll_listed [OF out(1)] by (simp add: out(2) listed_def [of "[]"])
  show "canonical specs = specs" by (simp add: out(2))
qed

section \<open>Coverage\<close>

text \<open>A list that has one entry per chunk covers what it names, and the chunks of which it names no subchunk.\<close>

lemma covered_split: "covered specs = listed specs \<union> {(c, s). \<exists>x \<in> set specs. cs_chunkId x = c \<and> cs_subChunks x = []}"
  by (auto simp: covered_def listed_def)

lemma empty_section: "sorted_list_of_set (Pair c -` listed specs) = [] \<longleftrightarrow> (\<forall>s. (c, s) \<notin> listed specs)"
  using finite_section [of c specs] by (auto simp: sorted_list_of_set_eq_Nil_iff)

lemma covered_canonical:
  "covered (canonical specs) = listed specs \<union> {(c, s). c \<in> chunkIds specs \<and> (\<forall>t. (c, t) \<notin> listed specs)}"
proof -
  have "finite (chunkIds specs)" by (simp add: chunkIds_def)
  then have "(\<exists>x \<in> set (canonical specs). cs_chunkId x = c \<and> cs_subChunks x = [])
      \<longleftrightarrow> c \<in> chunkIds specs \<and> (\<forall>t. (c, t) \<notin> listed specs)" for c
    using empty_section [of c specs] by (auto simp: canonical_alt)
  then show ?thesis by (simp add: covered_split [of "canonical specs"])
qed

lemma unnamed_chunk:
  "(\<forall>t. (c, t) \<notin> listed specs) \<longleftrightarrow> (\<forall>x \<in> set specs. cs_chunkId x = c \<longrightarrow> cs_subChunks x = [])"
proof -
  have "(\<forall>t. (c, t) \<notin> listed specs) \<longleftrightarrow> (\<forall>x \<in> set specs. cs_chunkId x = c \<longrightarrow> (\<forall>t. t \<notin> set (cs_subChunks x)))"
    unfolding listed_def by blast
  moreover have "(\<forall>t. t \<notin> set xs) \<longleftrightarrow> xs = []" for xs :: "int list" by (metis empty_iff empty_set equals0I set_empty)
  ultimately show ?thesis by simp
qed

lemma covered_canonical_subset: "covered (canonical specs) \<subseteq> covered specs"
proof -
  have "(c, s) \<in> covered specs" if "c \<in> chunkIds specs" "\<forall>t. (c, t) \<notin> listed specs" for c s
    using that unnamed_chunk [of c specs] by (auto simp: covered_def chunkIds_def)
  then show ?thesis unfolding covered_canonical by (auto simp: covered_split)
qed

lemma covered_canonical_iff: "covered (canonical specs) = covered specs \<longleftrightarrow> unmixed specs"
proof
  assume u: "unmixed specs"
  have "(c, s) \<in> covered (canonical specs)" if "(c, s) \<in> covered specs" for c s
  proof (cases "(c, s) \<in> listed specs")
    case False
    then obtain x where x: "x \<in> set specs" "cs_chunkId x = c" "cs_subChunks x = []"
      using \<open>(c, s) \<in> covered specs\<close> by (auto simp: covered_split)
    then have "\<forall>y \<in> set specs. cs_chunkId y = c \<longrightarrow> cs_subChunks y = []" using u unfolding unmixed_def by metis
    moreover have "c \<in> chunkIds specs" using x by (auto simp: chunkIds_def)
    ultimately show ?thesis using unnamed_chunk [of c specs] by (simp add: covered_canonical)
  qed (simp add: covered_canonical)
  then show "covered (canonical specs) = covered specs" using covered_canonical_subset by fast
next
  assume e: "covered (canonical specs) = covered specs"
  have "cs_subChunks y = []" if xy: "x \<in> set specs" "y \<in> set specs" "cs_chunkId x = cs_chunkId y" "cs_subChunks x = []" for x y
  proof (rule ccontr)
    assume "cs_subChunks y \<noteq> []"
    let ?c = "cs_chunkId x"
    have "\<exists>t. (?c, t) \<in> listed specs" using xy \<open>cs_subChunks y \<noteq> []\<close> by (auto simp: listed_def intro!: exI [of _ "hd (cs_subChunks y)"])
    then have "Pair ?c -` covered specs = Pair ?c -` listed specs" unfolding e [symmetric] covered_canonical by auto
    moreover have "Pair ?c -` covered specs = UNIV" using xy by (auto simp: covered_def)
    ultimately show False using finite_section [of ?c specs] infinite_UNIV_int by simp
  qed
  then show "unmixed specs" unfolding unmixed_def by metis
qed

lemma covered_common:
  "covered (commonSpecs a b) = (listed a \<inter> listed b)
     \<union> {(c, s). c \<in> chunkIds a \<inter> chunkIds b \<and> (\<forall>t. (c, t) \<notin> listed a \<inter> listed b)}"
proof -
  have fin: "finite (Pair c -` (listed a \<inter> listed b))" for c
    by (rule finite_subset [OF _ finite_section [of c a]]) auto
  have "finite (chunkIds a \<inter> chunkIds b)" by (simp add: chunkIds_def)
  then have "(\<exists>x \<in> set (commonSpecs a b). cs_chunkId x = c \<and> cs_subChunks x = [])
      \<longleftrightarrow> c \<in> chunkIds a \<inter> chunkIds b \<and> (\<forall>t. (c, t) \<notin> listed a \<inter> listed b)" for c
    using fin [of c] by (auto simp: commonSpecs_def sorted_list_of_set_eq_Nil_iff)
  then show ?thesis by (simp add: covered_split [of "commonSpecs a b"] listed_common)
qed

section \<open>Properties\<close>

text \<open>
  C31. \<open>normalize\<close> never throws and computes the canonical form of a list of specifications: one entry per chunk in the
  order of chunks, each with the subchunks named for it, in order and once. Normalizing again changes nothing. An entry without
  subchunks stands for the whole chunk: the result never covers more than the list did, and it covers the same exactly if no chunk is
  asked for both as a whole and by subchunks.
\<close>

theorem normalize_exact:
  "normalize specs = Inr (canonical specs) \<and> sorted_wrt (<) (map cs_chunkId (canonical specs))
   \<and> chunkIds (canonical specs) = chunkIds specs \<and> listed (canonical specs) = listed specs
   \<and> normalize (canonical specs) = Inr (canonical specs)
   \<and> covered (canonical specs) \<subseteq> covered specs
   \<and> (covered (canonical specs) = covered specs) = unmixed specs"
  by (simp add: normalize_canonical canonical_sorted covered_canonical_subset covered_canonical_iff)

text \<open>The union of a whole chunk and one of its subchunks is that subchunk: the rest of the chunk is lost.\<close>

lemma union_loses_chunk:
  "normalize [\<lparr> cs_chunkId = 5, cs_subChunks = [] \<rparr>, \<lparr> cs_chunkId = 5, cs_subChunks = [1] \<rparr>]
     = Inr [\<lparr> cs_chunkId = 5, cs_subChunks = [1] \<rparr>]"
  by code_simp

text \<open>
  C17. A query restricted by the secondary index and by regions gets the chunks that are in both. It covers every pair of chunk and
  subchunk that has a row in the index and is in a region. It covers nothing else of a chunk that has such a pair; a chunk of
  both that has none is left without subchunks and is thereby covered as a whole. The condition is that no chunk of the index
  lies behind all chunks of the regions; if one does, the loop of \<open>intersectSorted\<close> reads behind the end of the vector.
\<close>

theorem query_chunks_exact:
  assumes "lookup env cv = Inr (Some index)" "getRegions env cv = Inr rv" "getIntersect env rv = Inr (Some area)"
    "CHUNKID_INVALID \<notin> chunkIds index"
    "both = (\<Union>c \<in> set cv. indexRows env c) \<inter> (\<Union>(c, subs) \<in> set area. {c} \<times> set subs)"
  shows "if passesEnd index (map convertSgSubChunks area) then getChunks env cv = Inl OutOfRange
    else \<exists>specs. getChunks env cv = Inr specs \<and> sorted_wrt (<) (map cs_chunkId specs)
      \<and> chunkIds specs = chunkIds index \<inter> fst ` set area
      \<and> covered specs = both \<union> {(c, s). c \<in> chunkIds index \<inter> fst ` set area \<and> (\<forall>t. (c, t) \<notin> both)}"
proof -
  let ?R = "map convertSgSubChunks area"
  have "getChunks env cv = intersectSorted (canonical index) (canonical ?R)"
    using assms(1-3) by (simp add: getChunks_def normalize_canonical)
  then have g: "getChunks env cv = (if passesEnd index ?R then Inl OutOfRange else Inr (commonSpecs index ?R))"
    using intersect_canonical [OF assms(4)] by simp
  have "sorted_wrt (<) (map cs_chunkId (commonSpecs index ?R))" by (simp add: map_common)
  moreover have ids: "chunkIds ?R = fst ` set area" by (force simp: chunkIds_def convertSgSubChunks_def)
  then have "chunkIds (commonSpecs index ?R) = chunkIds index \<inter> fst ` set area"
    by (simp add: ids_common)
  moreover have "listed ?R = (\<Union>(c, subs) \<in> set area. {c} \<times> set subs)"
    by (auto simp: listed_def convertSgSubChunks_def)
  then have "listed index \<inter> listed ?R = both"
    using lookup_listed(1) [OF assms(1)] assms(5) by simp
  then have "covered (commonSpecs index ?R) = both \<union> {(c, s). c \<in> chunkIds index \<inter> fst ` set area \<and> (\<forall>t. (c, t) \<notin> both)}"
    using covered_common [of index ?R] unfolding ids by simp
  ultimately show ?thesis using g by simp
qed

text \<open>A director table with two objects, and a box that meets two chunks.\<close>

definition demoIndex :: "(int \<times> int) list \<Rightarrow> string indexEnv" where
  "demoIndex rows = \<lparr> ie_rows = (\<lambda>_. rows), ie_region = (\<lambda>f _. Inr f), ie_coverage = (\<lambda>_. Inr [(7, [3, 1]), (5, [2, 4])]),
     ie_allChunks = [5, 6, 7], ie_allSubChunks = (\<lambda>_. [1, 2, 3, 4]) \<rparr>"

definition demoConstraints :: "constraint list" where
  "demoConstraints = [\<lparr> co_name = ''sIndex'', co_params = [''LSST'', ''Object'', ''objectId'', ''17''] \<rparr>,
     \<lparr> co_name = ''qserv_areaspec_box'', co_params = [''0'', ''0'', ''5'', ''5''] \<rparr>]"

lemma demo_index:
  "lookup (demoIndex [(5, 2), (6, 1), (5, 3)]) demoConstraints
     = Inr (Some [\<lparr> cs_chunkId = 5, cs_subChunks = [2, 3] \<rparr>, \<lparr> cs_chunkId = 6, cs_subChunks = [1] \<rparr>])"
  "getRegions (demoIndex [(5, 2), (6, 1), (5, 3)]) demoConstraints = Inr [None, Some ''Box'']"
  "getIntersect (demoIndex [(5, 2), (6, 1), (5, 3)]) [None, Some ''Box''] = Inr (Some [(7, [3, 1]), (5, [2, 4])])"
  by code_simp+

theorem query_chunks_exact_witness:
  "\<exists>specs. getChunks (demoIndex [(5, 2), (6, 1), (5, 3)]) demoConstraints = Inr specs \<and> covered specs = {(5, 2)}"
proof -
  let ?e = "demoIndex [(5, 2), (6, 1), (5, 3)]"
  let ?i = "[\<lparr> cs_chunkId = 5, cs_subChunks = [2, 3] \<rparr>, \<lparr> cs_chunkId = 6, cs_subChunks = [1::int] \<rparr>]"
  have "\<not> passesEnd ?i (map convertSgSubChunks [(7, [3, 1]), (5, [2, 4])])" "CHUNKID_INVALID \<notin> chunkIds ?i"
    by (simp_all add: passesEnd_def convertSgSubChunks_def chunkIds_def CHUNKID_INVALID_def)
  moreover have "(\<Union>c \<in> set demoConstraints. indexRows ?e c) \<inter> (\<Union>(c, subs) \<in> set [(7, [3, 1]), (5, [2, 4])]. {c} \<times> set subs) = {(5, 2)}"
    by (auto simp: demoConstraints_def indexRows_def indexQueryType_def buildLookupQuery_def demoIndex_def)
  moreover have "chunkIds ?i \<inter> fst ` set [(7, [3, 1 :: int]), (5, [2, 4])] = {5}" by (auto simp: chunkIds_def)
  ultimately show ?thesis using query_chunks_exact [OF demo_index _ refl] by auto
qed

text \<open>
  An object in a chunk behind the box: the loop passes the end of the chunks of the box. The query should have found nothing.
\<close>

lemma index_passes_end: "getChunks (demoIndex [(8, 1)]) demoConstraints = Inl OutOfRange"
  by code_simp

text \<open>
  Specifications of the same chunk without a common subchunk: the result has no subchunks, which stands for all of them, while
  the comment of \<open>ChunkSpec::intersect\<close> says that the chunk becomes invalid; and all subchunks, intersected
  with one, give all again.
\<close>

lemma disjoint_is_all:
  "spec_intersect \<lparr> cs_chunkId = 5, cs_subChunks = [1] \<rparr> \<lparr> cs_chunkId = 5, cs_subChunks = [2] \<rparr>
     = Inr \<lparr> cs_chunkId = 5, cs_subChunks = [] \<rparr>"
  "spec_intersect \<lparr> cs_chunkId = 5, cs_subChunks = [] \<rparr> \<lparr> cs_chunkId = 5, cs_subChunks = [2] \<rparr>
     = Inr \<lparr> cs_chunkId = 5, cs_subChunks = [] \<rparr>"
  by code_simp+

end
