(* ===== verification/Row_Buffer.thy ===== *)
theory Row_Buffer
  imports Prelude "HOL-Library.Sublist"
begin

text \<open>
  How the rows of a result message become the text that MySQL loads: \<open>rproc/ProtoRowBuffer\<close>
  (\<open>escapeString\<close>, \<open>copyColumn\<close>, \<open>_copyRowBundle\<close>, \<open>fetch\<close>) and \<open>mysql/LocalInfile::read\<close>, which hands it
  out in pieces of the size the client asks for.

  The lemmas show that reading returns the text of all rows whatever the buffer sizes are and
  then ends, and that LOAD DATA, read as MySQL documents it, takes the rows out of the text again unless a value
  has characters that the escaping does not protect: a backslash or a quote at its end, a backslash before an N, two quotes
  in a row.
\<close>

section \<open>Escaping\<close>

abbreviation backslash :: char where "backslash \<equiv> CHR 0x5C"
abbreviation quote :: char where "quote \<equiv> CHR 0x27"
abbreviation tab :: char where "tab \<equiv> CHR 0x09"
abbreviation newline :: char where "newline \<equiv> CHR 0x0A"

text \<open>The loop of \<open>escapeString\<close>; it looks one character ahead at a backslash.\<close>

fun escapeString :: "string \<Rightarrow> string" where
  "escapeString [] = []"
| "escapeString (c # cs) =
     (if c = CHR 0x00 then [backslash, CHR ''0'']
      else if c = CHR 0x08 then [backslash, CHR ''b'']
      else if c = newline then [backslash, CHR ''n'']
      else if c = CHR 0x0D then [backslash, CHR ''r'']
      else if c = tab then [backslash, CHR ''t'']
      else if c = CHR 0x1A then [backslash, CHR ''Z'']
      else if c = backslash
        then (case cs of
                [] \<Rightarrow> [c]
              | d # _ \<Rightarrow> if d \<noteq> CHR ''N'' then [backslash, backslash] else [c])
      else [c])
     @ escapeString cs"

definition copyColumn :: "string \<Rightarrow> string" where
  "copyColumn raw = quote # escapeString raw @ [quote]"

text \<open>A row is a list of columns, \<open>None\<close> for a column whose \<open>isnull\<close> flag is set.\<close>

type_synonym row = "string option list"

definition nullToken :: string where "nullToken = [backslash, CHR ''N'']"

definition jobIdStr :: "int \<Rightarrow> string" where
  "jobIdStr i = quote # int_to_string i @ [quote]"

definition columnText :: "string option \<Rightarrow> string" where
  "columnText c = (case c of Some v \<Rightarrow> copyColumn v | None \<Rightarrow> nullToken)"

definition copyRowBundle :: "int \<Rightarrow> row \<Rightarrow> string" where
  "copyRowBundle i r = jobIdStr i @ concat (map (\<lambda>c. tab # columnText c) r)"

section \<open>Handing out the text\<close>

record rowBuffer =
  rb_jobId :: int
  rb_rows :: "row list"
  rb_rowIdx :: nat
  rb_currentRow :: string

definition newRowBuffer :: "int \<Rightarrow> row list \<Rightarrow> rowBuffer" where
  "newRowBuffer i rs =
     \<lparr> rb_jobId = i, rb_rows = rs, rb_rowIdx = 0,
       rb_currentRow = (case rs of [] \<Rightarrow> [] | r # _ \<Rightarrow> copyRowBundle i r) \<rparr>"

definition readNextRow :: "rowBuffer \<Rightarrow> rowBuffer" where
  "readNextRow b =
     (let k = rb_rowIdx b + 1
      in if length (rb_rows b) \<le> k then b\<lparr> rb_rowIdx := k \<rparr>
         else b\<lparr> rb_rowIdx := k, rb_currentRow := newline # copyRowBundle (rb_jobId b) (rb_rows b ! k) \<rparr>)"

text \<open>\<open>ProtoRowBuffer::fetch\<close>: the bytes written to the caller's buffer of size \<open>n\<close>.\<close>

definition fetch :: "nat \<Rightarrow> rowBuffer \<Rightarrow> string \<times> rowBuffer" where
  "fetch n b =
     (let cur = rb_currentRow b;
          out = take n cur;
          b = b\<lparr> rb_currentRow := drop n cur \<rparr>
      in (out, if rb_currentRow b = [] \<and> rb_rowIdx b < length (rb_rows b) then readNextRow b else b))"

definition infileBufferSize :: nat where "infileBufferSize = 1024 * 1024"

record localInfile =
  li_rowBuffer :: rowBuffer
  li_leftover :: string

text \<open>\<open>LocalInfile::read\<close> into a buffer of size \<open>n\<close>.\<close>

definition infile_read :: "nat \<Rightarrow> localInfile \<Rightarrow> string \<times> localInfile" where
  "infile_read n f =
     (let first = take n (li_leftover f);
          f = f\<lparr> li_leftover := drop n (li_leftover f) \<rparr>;
          n = n - length first
      in if n = 0 then (first, f)
         else let (fetched, b) = fetch infileBufferSize (li_rowBuffer f)
              in if fetched = [] then (first, f\<lparr> li_rowBuffer := b \<rparr>)
                 else (first @ take n fetched, f\<lparr> li_rowBuffer := b, li_leftover := drop n fetched \<rparr>))"

text \<open>What is still to come.\<close>

definition rb_remaining :: "rowBuffer \<Rightarrow> string" where
  "rb_remaining b = rb_currentRow b
     @ concat (map (\<lambda>r. newline # copyRowBundle (rb_jobId b) r) (drop (Suc (rb_rowIdx b)) (rb_rows b)))"

definition rb_ok :: "rowBuffer \<Rightarrow> bool" where
  "rb_ok b \<longleftrightarrow> (rb_currentRow b = [] \<longrightarrow> length (rb_rows b) \<le> rb_rowIdx b)"

lemma copyRowBundle_nonempty: "copyRowBundle i r \<noteq> []"
  by (simp add: copyRowBundle_def jobIdStr_def)

lemma drop_Suc_nth: "k < length xs \<Longrightarrow> drop k xs = xs ! k # drop (Suc k) xs"
  by (simp add: Cons_nth_drop_Suc)

lemma readNextRow_remaining:
  assumes "rb_currentRow b = []"
  shows "rb_remaining (readNextRow b) = rb_remaining b \<and> rb_ok (readNextRow b)"
proof (cases "length (rb_rows b) \<le> rb_rowIdx b + 1")
  case True
  then show ?thesis using assms by (simp add: readNextRow_def Let_def rb_remaining_def rb_ok_def)
next
  case False
  then show ?thesis
    using assms drop_Suc_nth [of "Suc (rb_rowIdx b)" "rb_rows b"]
    by (simp add: readNextRow_def Let_def rb_remaining_def rb_ok_def)
qed

lemma fetch_props:
  assumes "rb_ok b" "fetch n b = (out, b')"
  shows "out @ rb_remaining b' = rb_remaining b \<and> length out \<le> n \<and> rb_ok b'
    \<and> (out = [] \<longrightarrow> n = 0 \<or> rb_remaining b = [])"
proof -
  let ?c = "b\<lparr> rb_currentRow := drop n (rb_currentRow b) \<rparr>"
  have f: "out = take n (rb_currentRow b)"
    "b' = (if rb_currentRow ?c = [] \<and> rb_rowIdx ?c < length (rb_rows ?c) then readNextRow ?c else ?c)"
    using assms(2) by (simp_all add: fetch_def Let_def)
  have r: "out @ rb_remaining ?c = rb_remaining b" using f(1) by (simp add: rb_remaining_def append_assoc [symmetric])
  have e: "out = [] \<longrightarrow> n = 0 \<or> rb_remaining b = []"
    using f(1) assms(1) by (auto simp: rb_ok_def rb_remaining_def take_eq_Nil)
  show ?thesis
  proof (cases "rb_currentRow ?c = [] \<and> rb_rowIdx ?c < length (rb_rows ?c)")
    case True
    then show ?thesis using f r e readNextRow_remaining [of ?c] by simp
  next
    case False
    then have "rb_ok ?c" by (auto simp: rb_ok_def)
    then show ?thesis using f r e False by auto
  qed
qed

definition li_remaining :: "localInfile \<Rightarrow> string" where
  "li_remaining f = li_leftover f @ rb_remaining (li_rowBuffer f)"

lemma read_props:
  assumes "rb_ok (li_rowBuffer f)" "infile_read n f = (out, f')"
  shows "out @ li_remaining f' = li_remaining f \<and> length out \<le> n \<and> rb_ok (li_rowBuffer f')
    \<and> (out = [] \<longrightarrow> n = 0 \<or> li_remaining f = [])"
proof -
  let ?first = "take n (li_leftover f)"
  obtain got b where g: "fetch infileBufferSize (li_rowBuffer f) = (got, b)" by fastforce
  note p = fetch_props [OF assms(1) g]
  have sz: "infileBufferSize \<noteq> 0" by (simp add: infileBufferSize_def)
  show ?thesis
  proof (cases "n \<le> length (li_leftover f)")
    case True
    then have "out = ?first" "f' = f\<lparr> li_leftover := drop n (li_leftover f) \<rparr>"
      using assms(2) by (simp_all add: infile_read_def Let_def)
    then show ?thesis
      using True assms(1) by (auto simp: li_remaining_def append_assoc [symmetric])
  next
    case False
    then have first: "?first = li_leftover f" by simp
    let ?m = "n - length (li_leftover f)"
    have un: "infile_read n f = (if got = [] then (li_leftover f, f\<lparr> li_leftover := [], li_rowBuffer := b \<rparr>)
      else (li_leftover f @ take ?m got, f\<lparr> li_leftover := drop ?m got, li_rowBuffer := b \<rparr>))"
      using False g by (cases f) (simp add: infile_read_def Let_def)
    show ?thesis
    proof (cases "got = []")
      case True
      then have "rb_remaining (li_rowBuffer f) = []" "rb_remaining b = []" using p sz by auto
      then show ?thesis using un assms(2) True p False by (auto simp: li_remaining_def)
    next
      case ne: False
      then have o: "out = li_leftover f @ take ?m got" "f' = f\<lparr> li_leftover := drop ?m got, li_rowBuffer := b \<rparr>"
        using un assms(2) by simp_all
      have "take ?m got \<noteq> []" using ne False by (simp add: take_eq_Nil)
      then show ?thesis
        using o p False by (auto simp: li_remaining_def append_assoc [symmetric])
    qed
  qed
qed

text \<open>The client calls \<open>read\<close> again and again, each time with a buffer size of its own choice.\<close>

fun infile_reads :: "nat list \<Rightarrow> localInfile \<Rightarrow> string list \<times> localInfile" where
  "infile_reads [] f = ([], f)"
| "infile_reads (n # ns) f =
     (let (out, f') = infile_read n f; (outs, f'') = infile_reads ns f' in (out # outs, f''))"

definition newLocalInfile :: "rowBuffer \<Rightarrow> localInfile" where
  "newLocalInfile b = \<lparr> li_rowBuffer = b, li_leftover = [] \<rparr>"

lemma reads_props:
  assumes "rb_ok (li_rowBuffer f)" "infile_reads ns f = (outs, f')"
  shows "concat outs @ li_remaining f' = li_remaining f" and "rb_ok (li_rowBuffer f')"
    and "list_all2 (\<lambda>out n. length out \<le> n) outs ns"
  using assms
proof (atomize (full), induction ns arbitrary: f outs)
  case (Cons n ns)
  obtain out g where r: "infile_read n f = (out, g)" by fastforce
  obtain outs' g' where rs: "infile_reads ns g = (outs', g')" by fastforce
  have e: "outs = out # outs'" "f' = g'" using Cons.prems(2) r rs by auto
  note p = read_props [OF Cons.prems(1) r]
  show ?case using Cons.IH [of g outs'] p rs e by simp
qed simp

lemma reads_until_empty:
  assumes "rb_ok (li_rowBuffer f)" "infile_reads ns f = (outs, f')" "\<forall>n \<in> set ns. 0 < n" "[] \<in> set outs"
  shows "li_remaining f' = []"
  using assms
proof (induction ns arbitrary: f outs)
  case (Cons n ns)
  obtain out g where r: "infile_read n f = (out, g)" by fastforce
  obtain outs' g' where rs: "infile_reads ns g = (outs', g')" by fastforce
  have e: "outs = out # outs'" "f' = g'" using Cons.prems(2) r rs by auto
  note p = read_props [OF Cons.prems(1) r]
  show ?case
  proof (cases "out = []")
    case True
    then have "li_remaining g = []" using p Cons.prems(3) by auto
    then show ?thesis using reads_props(1) [OF _ rs] p e by auto
  next
    case False
    then show ?thesis using Cons.IH [of g outs'] p rs e Cons.prems(3,4) by auto
  qed
qed simp

lemma nonempty_parts: "[] \<notin> set xss \<Longrightarrow> length xss \<le> length (concat xss)"
proof (induction xss)
  case (Cons xs xss)
  then have "0 < length xs" "length xss \<le> length (concat xss)" by auto
  then show ?case unfolding concat.simps length_append list.size by linarith
qed simp

definition joinWith :: "'a \<Rightarrow> 'a list list \<Rightarrow> 'a list" where
  "joinWith c xss = (case xss of [] \<Rightarrow> [] | xs # yss \<Rightarrow> xs @ concat (map (\<lambda>ys. c # ys) yss))"

text \<open>The text of a result message as a whole: the rows, with newlines between them.\<close>

definition rowsText :: "int \<Rightarrow> row list \<Rightarrow> string" where
  "rowsText i rs = joinWith newline (map (copyRowBundle i) rs)"

lemma newRowBuffer_ok: "rb_ok (newRowBuffer i rs)"
  by (cases rs) (simp_all add: newRowBuffer_def rb_ok_def copyRowBundle_nonempty)

lemma newRowBuffer_remaining: "li_remaining (newLocalInfile (newRowBuffer i rs)) = rowsText i rs"
  by (cases rs)
    (simp_all add: newRowBuffer_def newLocalInfile_def li_remaining_def rb_remaining_def rowsText_def
      joinWith_def o_def)

text \<open>
  C36. Whatever buffer sizes the client reads with, \<open>LocalInfile::read\<close> never writes past the buffer, and
  what it has returned is the beginning of the text of all rows. A read into a nonempty buffer returns nothing
  only after the whole text, and this happens: a client that goes on reading sees the end after at most one
  read per character and one more.
\<close>

theorem local_infile_delivers_all:
  assumes "\<forall>n \<in> set ns. 0 < n" "infile_reads ns (newLocalInfile (newRowBuffer i rs)) = (outs, f')"
  shows "list_all2 (\<lambda>out n. length out \<le> n) outs ns
    \<and> concat outs = take (length (concat outs)) (rowsText i rs)
    \<and> ([] \<in> set outs \<longrightarrow> concat outs = rowsText i rs)
    \<and> (length (rowsText i rs) < length ns \<longrightarrow> [] \<in> set outs)"
proof (intro conjI impI)
  have ok: "rb_ok (li_rowBuffer (newLocalInfile (newRowBuffer i rs)))"
    by (simp add: newLocalInfile_def newRowBuffer_ok)
  note p = reads_props [OF ok assms(2), unfolded newRowBuffer_remaining]
  show "list_all2 (\<lambda>out n. length out \<le> n) outs ns" by (rule p(3))
  show "concat outs = take (length (concat outs)) (rowsText i rs)" by (simp add: p(1) [symmetric])
  show "concat outs = rowsText i rs" if "[] \<in> set outs"
    using reads_until_empty [OF ok assms(2,1) that] p(1) by simp
  show "[] \<in> set outs" if long: "length (rowsText i rs) < length ns"
  proof (rule ccontr)
    assume "[] \<notin> set outs"
    then have "length outs \<le> length (concat outs)" by (rule nonempty_parts)
    also have "\<dots> \<le> length (rowsText i rs)" by (simp add: p(1) [symmetric])
    finally show False using long list_all2_lengthD [OF p(3)] by simp
  qed
qed

lemma reads_demo:
  "infile_reads [4, 50, 50] (newLocalInfile (newRowBuffer 7 [[Some ''a'', None], [Some ''b'', None]]))
   = ([[quote, CHR ''7'', quote, tab],
       [quote, CHR ''a'', quote, tab, backslash, CHR ''N'', newline, quote, CHR ''7'', quote, tab,
        quote, CHR ''b'', quote, tab, backslash, CHR ''N''], []],
      \<lparr> li_rowBuffer = \<lparr> rb_jobId = 7, rb_rows = [[Some ''a'', None], [Some ''b'', None]], rb_rowIdx = 2,
          rb_currentRow = [] \<rparr>, li_leftover = [] \<rparr>)"
  by (simp add: newLocalInfile_def newRowBuffer_def infile_read_def fetch_def readNextRow_def copyRowBundle_def
      columnText_def copyColumn_def nullToken_def jobIdStr_def int_to_string_def nat_to_string.simps
      infileBufferSize_def Let_def char_of_def bit_Suc_0_iff)

theorem local_infile_delivers_all_witness:
  "concat (fst (infile_reads [4, 50, 50]
      (newLocalInfile (newRowBuffer 7 [[Some ''a'', None], [Some ''b'', None]]))))
   = rowsText 7 [[Some ''a'', None], [Some ''b'', None]]"
proof -
  have "[] \<in> set (fst (infile_reads [4, 50, 50]
      (newLocalInfile (newRowBuffer 7 [[Some ''a'', None], [Some ''b'', None]]))))"
    unfolding reads_demo by simp
  then show ?thesis
    using local_infile_delivers_all [of "[4, 50, 50]" 7 "[[Some ''a'', None], [Some ''b'', None]]",
        OF _ surjective_pairing] by (simp del: infile_reads.simps)
qed

section \<open>Loading the text\<close>

text \<open>
  LOAD DATA with \<open>FIELDS ENCLOSED BY\<close> the quote, as \<open>formLoadInfile\<close> asks for, and the defaults of MySQL: fields end at
  a tab, lines at a newline, and a backslash escapes. The table of the escapes is in the comment of \<open>escapeString\<close>.
\<close>

definition unescapeChar :: "char \<Rightarrow> char" where
  "unescapeChar c =
     (if c = CHR ''0'' then CHR 0x00 else if c = CHR ''b'' then CHR 0x08 else if c = CHR ''n'' then newline
      else if c = CHR ''r'' then CHR 0x0D else if c = CHR ''t'' then tab else if c = CHR ''Z'' then CHR 0x1A
      else c)"

fun unescape :: "string \<Rightarrow> string" where
  "unescape [] = []"
| "unescape [c] = [c]"
| "unescape (c # d # cs) = (if c = backslash then unescapeChar d # unescape cs else c # unescape (d # cs))"

text \<open>
  A field that begins with the quote ends at a quote that is followed by the end of the field, of the line or of the text. Two quotes
  in a row stand for one; any other quote stands for itself. The result is the value and the text from the end of the
  field on.
\<close>

fun enclosedField :: "string \<Rightarrow> string \<times> string" where
  "enclosedField [] = ([], [])"
| "enclosedField [c] = (if c = quote then ([], []) else ([c], []))"
| "enclosedField (c # d # ds) =
     (if c = backslash then apfst ((#) (unescapeChar d)) (enclosedField ds)
      else if c = quote
      then if d = quote then apfst ((#) quote) (enclosedField ds)
           else if d = tab \<or> d = newline then ([], d # ds)
           else apfst ((#) quote) (enclosedField (d # ds))
      else apfst ((#) c) (enclosedField (d # ds)))"

text \<open>Any other field ends at the next tab or newline that is not escaped.\<close>

fun plainField :: "string \<Rightarrow> string \<times> string" where
  "plainField [] = ([], [])"
| "plainField [c] = (if c = tab \<or> c = newline then ([], [c]) else ([c], []))"
| "plainField (c # d # cs) =
     (if c = tab \<or> c = newline then ([], c # d # cs)
      else if c = backslash then apfst (\<lambda>v. c # d # v) (plainField cs)
      else apfst ((#) c) (plainField (d # cs)))"

definition loadField :: "string \<Rightarrow> string option \<times> string" where
  "loadField t =
     (if t \<noteq> [] \<and> List.hd t = quote then apfst Some (enclosedField (tl t))
      else apfst (\<lambda>raw. if raw = nullToken then None else Some (unescape raw)) (plainField t))"

lemma enclosedField_suffix: "suffix (snd (enclosedField t)) t"
  by (induction t rule: enclosedField.induct) (auto intro: suffix_ConsI)

lemma plainField_suffix: "suffix (snd (plainField t)) t"
  by (induction t rule: plainField.induct) (auto intro: suffix_ConsI)

lemma loadField_rest: "\<exists>pre. t = pre @ snd (loadField t)"
  using enclosedField_suffix [of "tl t"] plainField_suffix [of t]
  by (cases t) (auto simp: loadField_def suffix_def intro: exI [of _ "_ # _"])

text \<open>Where a field can end.\<close>

definition fieldEnds :: "string \<Rightarrow> bool" where
  "fieldEnds t \<longleftrightarrow> t = [] \<or> List.hd t = tab \<or> List.hd t = newline"

lemma enclosedField_ends: "fieldEnds (snd (enclosedField t))"
  by (induction t rule: enclosedField.induct) (auto simp: fieldEnds_def)

lemma plainField_ends: "fieldEnds (snd (plainField t))"
  by (induction t rule: plainField.induct) (auto simp: fieldEnds_def)

lemma loadField_ends: "fieldEnds (snd (loadField t))"
  using enclosedField_ends [of "tl t"] plainField_ends [of t] by (simp add: loadField_def)

text \<open>The fields of a line, and the text behind its newline.\<close>

function loadLine :: "string \<Rightarrow> row \<times> string option" where
  "loadLine t =
     (case loadField t of
        (f, []) \<Rightarrow> ([f], None)
      | (f, c # cs) \<Rightarrow> if c = tab then apfst ((#) f) (loadLine cs) else ([f], Some cs))"
  by pat_completeness auto
termination
proof (relation "measure length", goal_cases)
  case (2 t f rest c cs)
  then have f: "snd (loadField t) = c # cs" by (metis snd_conv)
  obtain pre where "t = pre @ c # cs" using loadField_rest [of t] unfolding f by blast
  then show ?case by simp
qed simp

declare loadLine.simps [simp del]

lemma loadLine_behind: "loadLine t = (line, Some cs) \<Longrightarrow> \<exists>pre. t = pre @ newline # cs"
proof (induction t arbitrary: line rule: loadLine.induct)
  case (1 t)
  obtain f rest where f: "loadField t = (f, rest)" by fastforce
  obtain pre where pre: "t = pre @ rest" using loadField_rest [of t] f by auto
  show ?case
  proof (cases rest)
    case Nil
    then show ?thesis using 1(2) f by (simp add: loadLine.simps [of t])
  next
    case (Cons c ds)
    show ?thesis
    proof (cases "c = tab")
      case True
      then obtain line' where "loadLine ds = (line', Some cs)"
        using 1(2) f Cons by (cases "loadLine ds") (auto simp: loadLine.simps [of t])
      then obtain pre' where "ds = pre' @ newline # cs" using 1(1) [OF f [symmetric] _ True] Cons f by blast
      then show ?thesis using pre Cons by (metis append_Cons append_assoc)
    next
      case False
      then have "c = newline" using loadField_ends [of t] f Cons by (simp add: fieldEnds_def)
      moreover have "cs = ds" using 1(2) f Cons False by (simp add: loadLine.simps [of t])
      ultimately show ?thesis using Cons pre by blast
    qed
  qed
qed

function loadRows :: "string \<Rightarrow> row list" where
  "loadRows t =
     (if t = [] then []
      else case loadLine t of (line, None) \<Rightarrow> [line] | (line, Some cs) \<Rightarrow> line # loadRows cs)"
  by pat_completeness auto
termination
proof (relation "measure length", goal_cases)
  case (2 t line rest cs)
  then have "loadLine t = (line, Some cs)" by simp
  then show ?case using loadLine_behind [of t line cs] by auto
qed simp

declare loadRows.simps [simp del]

section \<open>What is loaded\<close>

text \<open>
  The values that the escaping protects: no backslash and no quote at the end, no backslash before an \<open>N\<close>, no two quotes in a
  row.
\<close>

fun loadable :: "string \<Rightarrow> bool" where
  "loadable [] \<longleftrightarrow> True"
| "loadable [c] \<longleftrightarrow> c \<noteq> backslash \<and> c \<noteq> quote"
| "loadable (c # d # cs) \<longleftrightarrow>
     (c = backslash \<longrightarrow> d \<noteq> CHR ''N'') \<and> (c = quote \<longrightarrow> d \<noteq> quote) \<and> loadable (d # cs)"

lemma loadable_tl: "loadable (c # cs) \<Longrightarrow> loadable cs"
  by (cases cs) simp_all

lemma enclosedField_end: "fieldEnds rest \<Longrightarrow> enclosedField (quote # rest) = ([], rest)"
  by (cases rest) (auto simp: fieldEnds_def)

lemma enclosedField_other:
  "cs \<noteq> [] \<Longrightarrow> c \<noteq> backslash \<Longrightarrow> c \<noteq> quote \<Longrightarrow> enclosedField (c # cs) = apfst ((#) c) (enclosedField cs)"
  by (cases cs) simp_all

lemma enclosedField_quote:
  "cs \<noteq> [] \<Longrightarrow> List.hd cs \<notin> {quote, tab, newline} \<Longrightarrow> enclosedField (quote # cs) = apfst ((#) quote) (enclosedField cs)"
  by (cases cs) simp_all

lemma escape_hd: "v \<noteq> [] \<Longrightarrow> List.hd v \<noteq> quote \<Longrightarrow> escapeString v \<noteq> [] \<and> List.hd (escapeString v) \<notin> {quote, tab, newline}"
  by (cases v) (auto split: list.splits)

lemma enclosedField_escape:
  "loadable v \<Longrightarrow> fieldEnds rest \<Longrightarrow> enclosedField (escapeString v @ quote # rest) = (v, rest)"
proof (induction v)
  case Nil
  then show ?case by (simp add: enclosedField_end)
next
  case (Cons c cs)
  note ih = Cons.IH [OF loadable_tl [OF Cons.prems(1)] Cons.prems(2)]
  consider "c = backslash" | "c = quote" | "c \<noteq> backslash" "c \<noteq> quote" by blast
  then show ?case
  proof cases
    case 1
    then have "escapeString (c # cs) = backslash # backslash # escapeString cs" using Cons.prems(1) by (cases cs) auto
    then show ?thesis using ih 1 by (simp add: unescapeChar_def)
  next
    case 2
    then have "cs \<noteq> []" "List.hd cs \<noteq> quote" using Cons.prems(1) by (cases cs; auto)+
    then have "escapeString cs @ quote # rest \<noteq> []" "List.hd (escapeString cs @ quote # rest) \<notin> {quote, tab, newline}"
      using escape_hd [of cs] by auto
    then show ?thesis using ih 2 enclosedField_quote [of "escapeString cs @ quote # rest"] by simp
  next
    case 3
    then show ?thesis using ih by (auto simp: enclosedField_other unescapeChar_def)
  qed
qed

lemma enclosedField_plain:
  "\<forall>c \<in> set v. c \<noteq> backslash \<and> c \<noteq> quote \<Longrightarrow> fieldEnds rest \<Longrightarrow> enclosedField (v @ quote # rest) = (v, rest)"
  by (induction v) (simp_all add: enclosedField_end enclosedField_other)

lemma loadField_column:
  assumes "\<forall>v. c = Some v \<longrightarrow> loadable v" "fieldEnds rest"
  shows "loadField (columnText c @ rest) = (c, rest)"
proof (cases c)
  case None
  have "plainField rest = ([], rest)" using assms(2) by (cases rest rule: plainField.cases) (auto simp: fieldEnds_def)
  then show ?thesis using None by (cases rest) (simp_all add: loadField_def columnText_def nullToken_def)
next
  case (Some v)
  then show ?thesis
    using assms enclosedField_escape [of v rest] by (simp add: loadField_def columnText_def copyColumn_def)
qed

lemma loadField_jobId:
  assumes "fieldEnds rest"
  shows "loadField (jobIdStr i @ rest) = (Some (int_to_string i), rest)"
proof -
  have "\<forall>c \<in> set (int_to_string i). c \<noteq> backslash \<and> c \<noteq> quote"
    using nat_to_string_digits [of backslash] nat_to_string_digits [of quote] by (auto simp: int_to_string_def)
  then show ?thesis using enclosedField_plain [of "int_to_string i" rest] assms by (simp add: loadField_def jobIdStr_def)
qed

abbreviation lineEnd :: "string option \<Rightarrow> string" where
  "lineEnd rest \<equiv> case rest of None \<Rightarrow> [] | Some cs \<Rightarrow> newline # cs"

lemma fieldEnds_columns: "fieldEnds (concat (map (\<lambda>c. tab # columnText c) r) @ lineEnd rest)"
  by (cases r; cases rest) (simp_all add: fieldEnds_def)

lemma loadLine_step:
  assumes "loadField t = (f, concat (map (\<lambda>c. tab # columnText c) r) @ lineEnd rest)"
    "\<forall>v. Some v \<in> set r \<longrightarrow> loadable v"
  shows "loadLine t = (f # r, rest)"
  using assms
proof (induction r arbitrary: t f)
  case Nil
  then show ?case by (cases rest) (simp_all add: loadLine.simps [of t])
next
  case (Cons c r)
  let ?t = "columnText c @ concat (map (\<lambda>c. tab # columnText c) r) @ lineEnd rest"
  have "loadField ?t = (c, concat (map (\<lambda>c. tab # columnText c) r) @ lineEnd rest)"
    by (rule loadField_column) (use Cons.prems(2) fieldEnds_columns in auto)
  then have "loadLine ?t = (c # r, rest)" using Cons by simp
  then show ?case using Cons.prems(1) by (simp add: loadLine.simps [of t])
qed

lemma escape_no_separator: "tab \<notin> set (escapeString v) \<and> newline \<notin> set (escapeString v)"
  by (induction v) (auto split: list.splits)

lemma columnText_no_separator: "tab \<notin> set (columnText c) \<and> newline \<notin> set (columnText c)"
  using escape_no_separator by (cases c) (simp_all add: columnText_def nullToken_def copyColumn_def)

lemma jobIdStr_no_separator: "tab \<notin> set (jobIdStr i) \<and> newline \<notin> set (jobIdStr i)"
  using nat_to_string_digits [of tab] nat_to_string_digits [of newline]
  by (auto simp: jobIdStr_def int_to_string_def)

lemma copyRowBundle_no_newline: "newline \<notin> set (copyRowBundle i r)"
  by (auto simp: copyRowBundle_def columnText_no_separator jobIdStr_no_separator)

lemma rowsText_Cons:
  "rowsText i (r # rs) = copyRowBundle i r @ lineEnd (if rs = [] then None else Some (rowsText i rs))"
  by (cases rs) (simp_all add: rowsText_def joinWith_def)

lemma loadField_row:
  "loadField (copyRowBundle i r @ lineEnd rest)
     = (Some (int_to_string i), concat (map (\<lambda>c. tab # columnText c) r) @ lineEnd rest)"
  unfolding copyRowBundle_def append_assoc by (rule loadField_jobId [OF fieldEnds_columns])

lemma rows_load:
  "\<forall>r \<in> set rs. \<forall>v. Some v \<in> set r \<longrightarrow> loadable v \<Longrightarrow>
   loadRows (rowsText i rs) = map (\<lambda>r. Some (int_to_string i) # r) rs"
proof (induction rs)
  case Nil
  then show ?case by (simp add: rowsText_def joinWith_def loadRows.simps)
next
  case (Cons r rs)
  have "loadLine (rowsText i (r # rs)) = (Some (int_to_string i) # r, if rs = [] then None else Some (rowsText i rs))"
    unfolding rowsText_Cons by (rule loadLine_step [OF loadField_row]) (use Cons.prems in simp)
  moreover have "rowsText i (r # rs) \<noteq> []" by (simp add: rowsText_Cons copyRowBundle_nonempty)
  ultimately show ?case using Cons by (simp add: loadRows.simps [of "rowsText i (r # rs)"])
qed

text \<open>
  C32. The rows of a message arrive in the result table: LOAD DATA, with the rules of MySQL for enclosed fields and escapes, takes
  from the text exactly the rows of the message, NULL columns included, each behind its job id. The condition is that no value ends
  in a backslash or a quote, has a backslash before an \<open>N\<close>, or has two quotes in a row.
\<close>

theorem rows_round_trip:
  assumes "\<forall>r \<in> set rs. \<forall>v. Some v \<in> set r \<longrightarrow> loadable v"
  shows "loadRows (rowsText i rs) = map (\<lambda>r. Some (int_to_string i) # r) rs"
  using assms by (rule rows_load)

theorem rows_round_trip_witness:
  "loadRows (rowsText 12 [[Some [tab, CHR ''a'', backslash, CHR ''b'', newline], None], [Some [], Some [quote, CHR ''N'']]])
   = [[Some (int_to_string 12), Some [tab, CHR ''a'', backslash, CHR ''b'', newline], None],
      [Some (int_to_string 12), Some [], Some [quote, CHR ''N'']]]"
  using rows_round_trip [of "[[Some [tab, CHR ''a'', backslash, CHR ''b'', newline], None], [Some [], Some [quote, CHR ''N'']]]" 12]
  by auto

text \<open>
  The table whose first column is an integer, as LOAD DATA fills it.
\<close>

definition string_to_int :: "string \<Rightarrow> int" where
  "string_to_int s =
     (if s \<noteq> [] \<and> List.hd s = CHR ''-'' then - int (string_to_nat (tl s)) else int (string_to_nat s))"

definition documentedLoad :: "string \<Rightarrow> (int \<times> row) list" where
  "documentedLoad t =
     map (\<lambda>line. (case List.hd line of Some s \<Rightarrow> string_to_int s | None \<Rightarrow> 0, tl line)) (loadRows t)"

lemma string_to_int_to_string: "string_to_int (int_to_string i) = i"
proof (cases "i < 0")
  case True
  then show ?thesis by (simp add: string_to_int_def int_to_string_def string_to_nat_digits)
next
  case False
  have "string_to_int (nat_to_string n) = int n" for n
  proof (cases "nat_to_string n")
    case (Cons c cs)
    then have "c \<noteq> CHR ''-''" using nat_to_string_no_sign(1) [of n] by auto
    then show ?thesis using Cons string_to_nat_digits [of n] by (simp add: string_to_int_def)
  qed (use string_to_nat_digits [of n] in \<open>simp add: string_to_int_def\<close>)
  then show ?thesis using False by (simp add: int_to_string_def)
qed

lemma documentedLoad_rows:
  "\<forall>r \<in> set rs. \<forall>v. Some v \<in> set r \<longrightarrow> loadable v \<Longrightarrow> documentedLoad (rowsText i rs) = map (Pair i) rs"
  using rows_load [of rs i] by (simp add: documentedLoad_def string_to_int_to_string)

text \<open>
  Whatever the values are, every line that is loaded begins with the job id: newlines stand only between rows.
\<close>

lemma joinWith_behind:
  "\<forall>xs \<in> set xss. c \<notin> set xs \<Longrightarrow> joinWith c xss = pre @ c # cs \<Longrightarrow> \<exists>k. cs = joinWith c (drop k xss)"
proof (induction xss arbitrary: pre)
  case Nil
  then show ?case by (simp add: joinWith_def)
next
  case (Cons x xss)
  show ?case
  proof (cases xss)
    case Nil
    then have "x = pre @ c # cs" using Cons.prems(2) by (simp add: joinWith_def)
    then show ?thesis using Cons.prems(1) by auto
  next
    case (Cons y ys)
    then have e: "x @ c # joinWith c xss = pre @ c # cs" using \<open>joinWith c (x # xss) = pre @ c # cs\<close> by (simp add: joinWith_def)
    show ?thesis
    proof (cases "length pre \<le> length x")
      case True
      then have "x = pre @ drop (length pre) x" using e by (metis append_eq_conv_conj append_take_drop_id take_append take_all_iff nle_le)
      then have "drop (length pre) x @ c # joinWith c xss = c # cs" using e by (metis append.assoc append_same_eq same_append_eq)
      moreover have "c \<notin> set (drop (length pre) x)" using Cons.prems(1) by (auto dest: in_set_dropD)
      ultimately have "cs = joinWith c xss" by (cases "drop (length pre) x") auto
      then show ?thesis by (intro exI [of _ 1]) simp
    next
      case False
      then obtain us where "joinWith c xss = us @ c # cs" using e by (auto simp: append_eq_append_conv2 Cons_eq_append_conv)
      then obtain k where "cs = joinWith c (drop k xss)" using Cons.IH [of us] Cons.prems(1) by auto
      then show ?thesis by (intro exI [of _ "Suc k"]) simp
    qed
  qed
qed

lemma rowsText_behind: "rowsText i rs = pre @ newline # cs \<Longrightarrow> \<exists>rs'. cs = rowsText i rs'"
  using joinWith_behind [of "map (copyRowBundle i) rs" newline pre cs] copyRowBundle_no_newline
  by (auto simp: rowsText_def drop_map)

lemma loadLine_hd: "loadLine t = (line, rest) \<Longrightarrow> List.hd line = fst (loadField t)"
  by (auto simp: loadLine.simps [of t] apfst_def map_prod_def split: prod.splits list.splits if_splits)

lemma loadRows_ids: "t = rowsText i rs \<Longrightarrow> line \<in> set (loadRows t) \<Longrightarrow> List.hd line = Some (int_to_string i)"
proof (induction t arbitrary: rs rule: loadRows.induct)
  case (1 t)
  show ?case
  proof (cases rs)
    case Nil
    then show ?thesis using 1(2,3) by (simp add: rowsText_def joinWith_def loadRows.simps)
  next
    case (Cons r rs')
    then have ne: "t \<noteq> []" using 1(2) by (simp add: rowsText_Cons copyRowBundle_nonempty)
    obtain l rest where l: "loadLine t = (l, rest)" by fastforce
    have hd: "List.hd l = Some (int_to_string i)"
      using loadLine_hd [OF l] 1(2) Cons by (simp add: rowsText_Cons loadField_row del: append_assoc)
    show ?thesis
    proof (cases rest)
      case None
      then show ?thesis using 1(3) l ne hd by (simp add: loadRows.simps [of t])
    next
      case (Some cs)
      obtain rs'' where "cs = rowsText i rs''"
        using loadLine_behind l Some rowsText_behind 1(2) by metis
      then show ?thesis using 1(1) [OF ne l [symmetric] Some] 1(3) l ne hd Some by (auto simp: loadRows.simps [of t])
    qed
  qed
qed

lemma documentedLoad_ids: "x \<in> set (documentedLoad (rowsText i rs)) \<Longrightarrow> fst x = i"
  using loadRows_ids [OF refl] by (force simp: documentedLoad_def string_to_int_to_string)

text \<open>
  Outside that set the text is wrong. A backslash at the end of a value escapes the closing quote, so that the next column is
  read as a part of this one; the same happens after a quote at the end. A value with a backslash before an \<open>N\<close> loses it, and
  one with two quotes in a row loses one.
\<close>

lemma unprotected_values:
  "loadRows (rowsText 1 [[Some [backslash], Some ''b'']]) = [[Some ''1'', Some ([quote, tab, quote] @ ''b'')]]"
  "loadRows (rowsText 1 [[Some [quote], Some ''b'']]) = [[Some ''1'', Some ([quote, tab, quote] @ ''b'')]]"
  "loadRows (rowsText 1 [[Some [backslash, CHR ''N'']]]) = [[Some ''1'', Some ''N'']]"
  "loadRows (rowsText 1 [[Some [quote, quote, CHR ''x'']]]) = [[Some ''1'', Some [quote, CHR ''x'']]]"
  by code_simp+

end
