(* ===== verification/Result_Merge.thy ===== *)
theory Result_Merge
  imports Row_Buffer Job_Dispatch
begin

text \<open>
  Merging result messages into the result table of a query: \<open>rproc/InfileMerger\<close> and its
  \<open>InvalidJobAttemptMgr\<close>, which keeps the rows of failed job attempts out of the final result while
  many threads write to the table.

  Each call is cut where it can be interleaved with others: every critical section of \<open>_iJAMtx\<close> and every
  statement sent to MySQL is one step of its thread. What MySQL answers is a parameter or a
  nondeterministic choice: the rows it loads from a text, the size of the table, whether a statement succeeds.

  The lemmas show that after a successful \<open>holdMergingForRowDelete\<close> the table has exactly its rows of valid
  attempts, that no step loses such a row, and that the threads cannot block each other.
\<close>

section \<open>Job attempts\<close>

text \<open>
  The number that tags the rows of one attempt, computed in \<open>int\<close>, here in 32 bits that wrap around; \<open>Inl\<close> is the
  \<open>Bug\<close> it throws.
\<close>

definition to_int32 :: "int \<Rightarrow> int" where
  "to_int32 x = (x + 2 ^ 31) mod 2 ^ 32 - 2 ^ 31"

definition makeJobIdAttempt :: "int \<Rightarrow> int \<Rightarrow> unit + int" where
  "makeJobIdAttempt jobId attemptCount =
     (let jobIdAttempt = to_int32 (jobId * MAX_JOB_ATTEMPTS)
      in if MAX_JOB_ATTEMPTS \<le> attemptCount then Inl () else Inr (to_int32 (jobIdAttempt + attemptCount)))"

record jaMgr =
  ja_invalidJobAttempts :: "int set"
  ja_invalidJAWithRows :: "int set"
  ja_jobIdAttemptsHaveRows :: "int set"
  ja_concurrentMergeCount :: int
  ja_waitFlag :: bool

definition newJaMgr :: jaMgr where
  "newJaMgr = \<lparr> ja_invalidJobAttempts = {}, ja_invalidJAWithRows = {}, ja_jobIdAttemptsHaveRows = {},
     ja_concurrentMergeCount = 0, ja_waitFlag = False \<rparr>"

definition isJobAttemptInvalid :: "int \<Rightarrow> jaMgr \<Rightarrow> bool" where
  "isJobAttemptInvalid j g \<longleftrightarrow> j \<in> ja_invalidJobAttempts g"

text \<open>
  \<open>incrConcurrentMergeCount\<close>: it returns true (\<open>AttemptInvalid\<close>), returns false having counted the merge
  (\<open>MergeCounted\<close>), or gives the mutex up to wait for the flag to clear (\<open>MergeBlocked\<close>).
\<close>

datatype incrOutcome = AttemptInvalid | MergeCounted | MergeBlocked

definition countMerge :: "int \<Rightarrow> jaMgr \<Rightarrow> jaMgr" where
  "countMerge j g = g\<lparr> ja_jobIdAttemptsHaveRows := insert j (ja_jobIdAttemptsHaveRows g),
     ja_concurrentMergeCount := ja_concurrentMergeCount g + 1 \<rparr>"

definition incrConcurrentMergeCount :: "int \<Rightarrow> jaMgr \<Rightarrow> incrOutcome \<times> jaMgr" where
  "incrConcurrentMergeCount j g =
     (if isJobAttemptInvalid j g then (AttemptInvalid, g)
      else if ja_waitFlag g then (MergeBlocked, g)
      else (MergeCounted, countMerge j g))"

text \<open>The rest of it, after the wait.\<close>

definition incrAfterWait :: "int \<Rightarrow> jaMgr \<Rightarrow> incrOutcome \<times> jaMgr" where
  "incrAfterWait j g =
     (if isJobAttemptInvalid j g then (AttemptInvalid, g) else (MergeCounted, countMerge j g))"

definition decrConcurrentMergeCount :: "jaMgr \<Rightarrow> jaMgr" where
  "decrConcurrentMergeCount g = g\<lparr> ja_concurrentMergeCount := ja_concurrentMergeCount g - 1 \<rparr>"

definition cleanupIJA :: "jaMgr \<Rightarrow> jaMgr" where
  "cleanupIJA g = g\<lparr> ja_waitFlag := False \<rparr>"

definition ja_prepScrub :: "int \<Rightarrow> jaMgr \<Rightarrow> bool \<times> jaMgr" where
  "ja_prepScrub j g =
     (let g = g\<lparr> ja_waitFlag := True, ja_invalidJobAttempts := insert j (ja_invalidJobAttempts g) \<rparr>;
          invalidRowsInResult = (j \<in> ja_jobIdAttemptsHaveRows g);
          g = (if invalidRowsInResult then g\<lparr> ja_invalidJAWithRows := insert j (ja_invalidJAWithRows g) \<rparr> else g)
      in (invalidRowsInResult, cleanupIJA g))"

section \<open>The result table\<close>

text \<open>A row of the merge table: the value of the job id column, and the other columns.\<close>

type_synonym mergeTable = "(int \<times> row) list"

text \<open>
  How a DELETE ends; a failing one may have removed some of the rows it names (MyISAM does not roll back).
\<close>

datatype sqlOutcome = SqlOk | SqlFail nat

fun removeFirst :: "nat \<Rightarrow> ('a \<Rightarrow> bool) \<Rightarrow> 'a list \<Rightarrow> 'a list" where
  "removeFirst n P [] = []"
| "removeFirst n P (x # xs) =
     (if n = 0 then x # xs else if P x then removeFirst (n - 1) P xs else x # removeFirst n P xs)"

definition deleteRows :: "sqlOutcome \<Rightarrow> int list \<Rightarrow> mergeTable \<Rightarrow> bool \<times> mergeTable" where
  "deleteRows out js t =
     (case out of
        SqlOk \<Rightarrow> (True, filter (\<lambda>(j, r). j \<notin> set js) t)
      | SqlFail n \<Rightarrow> (False, removeFirst n (\<lambda>(j, r). j \<in> set js) t))"

definition deleteMaxSize :: nat where "deleteMaxSize = 950000"

text \<open>The inner loop of \<open>_deleteInvalidRows\<close>: the list for one DELETE, the attempts in it, those left.\<close>

fun fillBatch :: "bool \<Rightarrow> string \<Rightarrow> int list \<Rightarrow> string \<times> int list \<times> int list" where
  "fillBatch isFirst s [] = (s, [], [])"
| "fillBatch isFirst s (j # js) =
     (if length s < deleteMaxSize
      then let (s', taken, rest) = fillBatch False ((if isFirst then s else s @ '','') @ int_to_string j) js
           in (s', j # taken, rest)
      else (s, [], j # js))"

lemma fillBatch_append: "fillBatch b s js = (s', taken, rest) \<Longrightarrow> js = taken @ rest"
  by (induction b s js arbitrary: s' taken rest rule: fillBatch.induct) (auto split: if_splits prod.splits)

lemma fillBatch_progress: "fillBatch True [] (j # js) = (s', taken, rest) \<Longrightarrow> length rest < length (j # js)"
  using fillBatch_append [of False "int_to_string j" js]
  by (auto simp: deleteMaxSize_def split: prod.splits)

text \<open>The outer loop; \<open>outs k\<close> is how the statement number \<open>k\<close> ends.\<close>

function deleteInvalidRows :: "(nat \<Rightarrow> sqlOutcome) \<Rightarrow> int list \<Rightarrow> mergeTable \<Rightarrow> bool \<times> mergeTable" where
  "deleteInvalidRows outs [] t = (True, t)"
| "deleteInvalidRows outs (j # js) t =
     (case fillBatch True [] (j # js) of
        (invalidStr, taken, rest) \<Rightarrow>
          case deleteRows (outs 0) taken t of
            (ok, t') \<Rightarrow> if ok then deleteInvalidRows (\<lambda>k. outs (Suc k)) rest t' else (False, t'))"
  by pat_completeness auto
termination
proof (relation "measure (\<lambda>(outs, js, t). length js)", goal_cases)
  case (2 outs j js t s' y taken rest ok t')
  then have "fillBatch True [] (j # js) = (s', taken, rest)" by simp
  then show ?case using fillBatch_progress by (simp del: fillBatch.simps)
qed simp

section \<open>The merger\<close>

text \<open>
  The fields of \<open>proto::Result\<close> that the czar reads; \<open>None\<close> is a field that is not set.
\<close>

record result =
  rs_jobid :: int
  rs_attemptcount :: int
  rs_continues :: bool
  rs_largeresult :: bool
  rs_rowcount :: nat
  rs_transmitsize :: nat
  rs_errorcode :: "int option"
  rs_errormsg :: "string option"
  rs_row :: "row list"

text \<open>
  \<open>me_load\<close> is what LOAD DATA reads from a text into a table with the job id column, \<open>me_loadPlain\<close> into one without.
\<close>

record mergeEnv =
  me_load :: "string \<Rightarrow> mergeTable"
  me_loadPlain :: "string \<Rightarrow> row list"
  me_maxResultTableSizeMB :: nat
  me_mergeStmt :: "(row list \<Rightarrow> row list) option"

text \<open>The values that \<open>_error\<close> takes, by where they come from.\<close>

datatype mergeError = NoError | ResponseError int string | SqlError | TableTooLarge | InvalidRowsRemain

text \<open>
  What has become of the merge table: it has its job id column; \<open>finalize\<close> has removed the column, and the table is
  the target; or \<open>finalize\<close> has dropped it. \<open>im_table\<close> has the rows of the first kind only.
\<close>

datatype tableShape = WithJobId | WithoutJobId | Dropped

record merger =
  im_ja :: jaMgr
  im_table :: mergeTable
  im_shape :: tableShape
  im_target :: "row list option"
  im_error :: mergeError
  im_sizeCheckRowCount :: int
  im_isFinished :: bool

definition newMerger :: "mergeEnv \<Rightarrow> merger" where
  "newMerger env = \<lparr> im_ja = newJaMgr, im_table = [], im_shape = WithJobId, im_target = None, im_error = NoError,
     im_sizeCheckRowCount = - (100 * int (me_maxResultTableSizeMB env)), im_isFinished = False \<rparr>"

definition checkSizeEveryXRows :: "mergeEnv \<Rightarrow> int" where
  "checkSizeEveryXRows env = 10 * int (me_maxResultTableSizeMB env)"

text \<open>
  Where a thread inside \<open>merge\<close>, \<open>holdMergingForRowDelete\<close> or \<open>finalize\<close> stands.
\<close>

datatype holdCaller = SizeCheck bool | Finalize

datatype mergePc =
    MergeStart result
  | MergeIncr result int
  | MergeWait result int
  | MergeApply result int
  | MergeDecr int bool
  | MergeCheckSize bool
  | HoldBegin holdCaller
  | HoldWait holdCaller
  | MergeCheckAgain bool bool
  | FinalizeStart
  | FinalizeTable
  | MergeReturned bool
  | MergeThrew
  | FinalizeReturned bool

text \<open>\<open>merge\<close> up to the call of \<open>incrConcurrentMergeCount\<close>.\<close>

definition merge_begin :: "result \<Rightarrow> merger \<Rightarrow> mergePc \<times> merger" where
  "merge_begin r m =
     (if rs_errorcode r \<noteq> None \<or> rs_errormsg r \<noteq> None
      then (MergeReturned False,
            m\<lparr> im_error := ResponseError (case rs_errorcode r of None \<Rightarrow> 0 | Some c \<Rightarrow> c)
                            (case rs_errormsg r of None \<Rightarrow> [] | Some s \<Rightarrow> s) \<rparr>)
      else if rs_row r = [] then (MergeReturned True, m)
      else let m = m\<lparr> im_sizeCheckRowCount := im_sizeCheckRowCount m + int (length (rs_row r)) \<rparr>
           in case makeJobIdAttempt (rs_jobid r) (rs_attemptcount r) of
                Inl _ \<Rightarrow> (MergeThrew, m)
              | Inr j \<Rightarrow> (MergeIncr r j, m))"

definition afterIncr :: "result \<Rightarrow> int \<Rightarrow> incrOutcome \<Rightarrow> mergePc" where
  "afterIncr r j out =
     (case out of AttemptInvalid \<Rightarrow> MergeReturned True | MergeCounted \<Rightarrow> MergeApply r j
      | MergeBlocked \<Rightarrow> MergeWait r j)"

definition merge_incr :: "result \<Rightarrow> int \<Rightarrow> merger \<Rightarrow> mergePc \<times> merger" where
  "merge_incr r j m =
     (let (out, g) = incrConcurrentMergeCount j (im_ja m) in (afterIncr r j out, m\<lparr> im_ja := g \<rparr>))"

definition merge_wake :: "result \<Rightarrow> int \<Rightarrow> merger \<Rightarrow> mergePc \<times> merger" where
  "merge_wake r j m =
     (let (out, g) = incrAfterWait j (im_ja m) in (afterIncr r j out, m\<lparr> im_ja := g \<rparr>))"

text \<open>
  LOAD DATA of the text of the rows; \<open>None\<close> is success, \<open>Some n\<close> failure after \<open>n\<close> rows.
\<close>

definition merge_apply :: "mergeEnv \<Rightarrow> nat option \<Rightarrow> result \<Rightarrow> int \<Rightarrow> merger \<Rightarrow> mergePc \<times> merger" where
  "merge_apply env failed r j m =
     (let text = rowsText j (rs_row r);
          loaded = (case failed of None \<Rightarrow> me_load env text | Some n \<Rightarrow> take n (me_load env text));
          plain = (case failed of None \<Rightarrow> me_loadPlain env text | Some n \<Rightarrow> take n (me_loadPlain env text))
      in case im_shape m of
           WithJobId \<Rightarrow> (MergeDecr j (failed = None), m\<lparr> im_table := im_table m @ loaded \<rparr>)
         | WithoutJobId \<Rightarrow> (MergeDecr j (failed = None), m\<lparr> im_target := map_option (\<lambda>t. t @ plain) (im_target m) \<rparr>)
         | Dropped \<Rightarrow> (MergeDecr j False, m))"

definition merge_decr :: "bool \<Rightarrow> merger \<Rightarrow> mergePc \<times> merger" where
  "merge_decr ret m = (MergeCheckSize ret, m\<lparr> im_ja := decrConcurrentMergeCount (im_ja m) \<rparr>)"

text \<open>The size check of \<open>merge\<close>; \<open>sz\<close> is what \<open>_getResultTableSizeMB\<close> returns.\<close>

definition merge_checkSize :: "mergeEnv \<Rightarrow> nat \<Rightarrow> bool \<Rightarrow> merger \<Rightarrow> mergePc \<times> merger" where
  "merge_checkSize env sz ret m =
     (if checkSizeEveryXRows env \<le> im_sizeCheckRowCount m
      then (if me_maxResultTableSizeMB env < sz then HoldBegin (SizeCheck ret) else MergeReturned ret,
            m\<lparr> im_sizeCheckRowCount := 0 \<rparr>)
      else (MergeReturned ret, m))"

definition merge_checkAgain :: "mergeEnv \<Rightarrow> nat \<Rightarrow> bool \<Rightarrow> bool \<Rightarrow> merger \<Rightarrow> mergePc \<times> merger" where
  "merge_checkAgain env sz ret validResult m =
     (if me_maxResultTableSizeMB env < sz \<or> \<not> validResult
      then (MergeReturned False, m\<lparr> im_error := (if validResult then TableTooLarge else InvalidRowsRemain) \<rparr>)
      else (MergeReturned ret, m))"

text \<open>
  \<open>holdMergingForRowDelete\<close>: up to the wait for running merges, and from there to its end, which
  holds the mutex all the time. A DELETE on a table that has lost its job id column, or is gone, fails.
\<close>

definition holdReturns :: "holdCaller \<Rightarrow> bool \<Rightarrow> mergePc" where
  "holdReturns c res =
     (case c of SizeCheck ret \<Rightarrow> MergeCheckAgain ret res
      | Finalize \<Rightarrow> if res then FinalizeTable else FinalizeReturned False)"

definition hold_delete :: "(nat \<Rightarrow> sqlOutcome) \<Rightarrow> holdCaller \<Rightarrow> merger \<Rightarrow> mergePc \<times> merger" where
  "hold_delete outs c m =
     (let g = im_ja m;
          outs = (if im_shape m = WithJobId then outs else (\<lambda>_. SqlFail 0));
          (res, t) = deleteInvalidRows outs (sorted_list_of_set (ja_invalidJAWithRows g)) (im_table m);
          g = (if res then g\<lparr> ja_invalidJAWithRows := {} \<rparr> else g)
      in (holdReturns c res, m\<lparr> im_ja := cleanupIJA g, im_table := t,
            im_error := (if res then im_error m else SqlError) \<rparr>))"

definition hold_begin :: "(nat \<Rightarrow> sqlOutcome) \<Rightarrow> holdCaller \<Rightarrow> merger \<Rightarrow> mergePc \<times> merger" where
  "hold_begin outs c m =
     (let g = (im_ja m)\<lparr> ja_waitFlag := True \<rparr>
      in if ja_invalidJAWithRows g = {} then (holdReturns c True, m\<lparr> im_ja := cleanupIJA g \<rparr>)
         else if 0 < ja_concurrentMergeCount g then (HoldWait c, m\<lparr> im_ja := g \<rparr>)
         else hold_delete outs c (m\<lparr> im_ja := g \<rparr>))"

text \<open>
  The rest of \<open>finalize\<close>. If the query aggregates, the target is created from the merge table (\<open>ok\<close> is whether
  MySQL can do that; it cannot if the merge table is gone or the target is there), and then the merge table is dropped, also
  if the target could not be created; \<open>dropOk\<close> is whether the drop succeeds. Otherwise the merge table becomes the target by
  losing its job id column; \<open>ok\<close> is whether MySQL can do that.
\<close>

definition finalize_table :: "mergeEnv \<Rightarrow> bool \<Rightarrow> bool \<Rightarrow> merger \<Rightarrow> mergePc \<times> merger" where
  "finalize_table env ok dropOk m =
     (let rows = map snd (im_table m)
      in case me_mergeStmt env of
           Some select \<Rightarrow>
             (let created = (ok \<and> im_shape m = WithJobId \<and> im_target m = None);
                  m = (if created then m\<lparr> im_target := Some (select rows) \<rparr> else m\<lparr> im_error := SqlError \<rparr>);
                  m = (if dropOk then m\<lparr> im_table := [], im_shape := Dropped \<rparr> else m)
              in (FinalizeReturned created, m\<lparr> im_isFinished := True \<rparr>))
         | None \<Rightarrow>
             (let altered = (ok \<and> im_shape m = WithJobId);
                  m = (if altered then m\<lparr> im_target := Some rows, im_table := [], im_shape := WithoutJobId \<rparr>
                       else m\<lparr> im_error := SqlError \<rparr>)
              in (FinalizeReturned altered, m\<lparr> im_isFinished := True \<rparr>)))"

definition infile_prepScrub :: "int \<Rightarrow> int \<Rightarrow> merger \<Rightarrow> unit + (bool \<times> merger)" where
  "infile_prepScrub jobId attemptCount m =
     (case makeJobIdAttempt jobId attemptCount of
        Inl e \<Rightarrow> Inl e
      | Inr j \<Rightarrow> let (found, g) = ja_prepScrub j (im_ja m) in Inr (found, m\<lparr> im_ja := g \<rparr>))"

subsection \<open>The job id column\<close>

text \<open>
  \<open>_addJobIdColumnToSchema\<close>: \<open>_jobIdColName\<close> is \<open>jobId\<close> at first, and \<open>jobId0\<close>, \<open>jobId1\<close>, and so on after
  each clash with a column of the query, when the search starts over.
\<close>

definition jobIdColName :: "nat \<Rightarrow> string" where
  "jobIdColName attempt = (case attempt of 0 \<Rightarrow> ''jobId'' | Suc k \<Rightarrow> ''jobId'' @ nat_to_string k)"

lemma jobIdColName_inject: "jobIdColName a = jobIdColName b \<longleftrightarrow> a = b"
proof -
  have "nat_to_string n \<noteq> []" "[] \<noteq> nat_to_string n" for n by (simp_all add: nat_to_string.simps [of n])
  then show ?thesis by (auto simp: jobIdColName_def nat_to_string_inj split: nat.splits)
qed

function findJobIdCol :: "string list \<Rightarrow> nat \<Rightarrow> string list \<Rightarrow> nat" where
  "findJobIdCol cols attempt [] = attempt"
| "findJobIdCol cols attempt (c # cs) =
     (if c = jobIdColName attempt then findJobIdCol cols (Suc attempt) cols
      else findJobIdCol cols attempt cs)"
  by pat_completeness auto
termination
proof (relation "(\<lambda>(cols, a, cs). card {x \<in> set cols \<union> set cs. \<exists>k \<ge> a. x = jobIdColName k})
    <*mlex*> measure (\<lambda>(cols, a, cs). length cs)", goal_cases)
  case 1
  then show ?case by (simp add: wf_mlex)
next
  case (2 cols a c cs)
  let ?old = "{x \<in> set cols \<union> set (c # cs). \<exists>k \<ge> a. x = jobIdColName k}"
  let ?new = "{x \<in> set cols \<union> set cols. \<exists>k \<ge> Suc a. x = jobIdColName k}"
  have "?new \<subset> ?old"
  proof
    show "?new \<subseteq> ?old" by (auto intro: Suc_leD)
    have "c \<in> ?old" "c \<notin> ?new" using 2 by (auto simp: jobIdColName_inject)
    then show "?new \<noteq> ?old" by blast
  qed
  then have "card ?new < card ?old" by (intro psubset_card_mono) auto
  then show ?case by (intro mlex_less) (simp only: prod.case)
next
  case (3 cols a c cs)
  have "card {x \<in> set cols \<union> set cs. \<exists>k \<ge> a. x = jobIdColName k}
    \<le> card {x \<in> set cols \<union> set (c # cs). \<exists>k \<ge> a. x = jobIdColName k}"
    by (intro card_mono) auto
  then show ?case by (intro mlex_leq) (simp_all only: prod.case, simp)
qed

definition addJobIdColumnToSchema :: "string list \<Rightarrow> string list" where
  "addJobIdColumnToSchema cols = jobIdColName (findJobIdCol cols 0 cols) # cols"

section \<open>Threads\<close>

text \<open>
  One step of the thread with program counter \<open>p\<close>. The condition variables are guards: a thread goes on from
  \<open>MergeWait\<close> when the flag is clear, from \<open>HoldWait\<close> when no merge is running; whoever makes one of
  these true calls \<open>notify_all\<close>.
\<close>

inductive pc_step :: "mergeEnv \<Rightarrow> mergePc \<times> merger \<Rightarrow> mergePc \<times> merger \<Rightarrow> bool"
  for env :: mergeEnv where
  begin_merge: "pc_step env (MergeStart r, m) (merge_begin r m)"
| incr: "pc_step env (MergeIncr r j, m) (merge_incr r j m)"
| wake: "\<not> ja_waitFlag (im_ja m) \<Longrightarrow> pc_step env (MergeWait r j, m) (merge_wake r j m)"
| load: "pc_step env (MergeApply r j, m) (merge_apply env failed r j m)"
| decr: "pc_step env (MergeDecr j ret, m) (merge_decr ret m)"
| check: "pc_step env (MergeCheckSize ret, m) (merge_checkSize env sz ret m)"
| hold: "pc_step env (HoldBegin c, m) (hold_begin outs c m)"
| held: "ja_concurrentMergeCount (im_ja m) = 0 \<Longrightarrow> pc_step env (HoldWait c, m) (hold_delete outs c m)"
| again: "pc_step env (MergeCheckAgain ret valid, m) (merge_checkAgain env sz ret valid m)"
| finalize: "pc_step env (FinalizeStart, m) (HoldBegin Finalize, m)"
| target: "pc_step env (FinalizeTable, m) (finalize_table env ok dropOk m)"

inductive_cases pc_stepE: "pc_step env (p, m) (p', m')"

text \<open>
  The system: threads call \<open>merge\<close> and \<open>finalize\<close>, and jobs whose attempt failed call \<open>prepScrub\<close>.
\<close>

inductive merger_step :: "mergeEnv \<Rightarrow> merger \<times> mergePc list \<Rightarrow> merger \<times> mergePc list \<Rightarrow> bool"
  for env :: mergeEnv where
  thread: "i < length ps \<Longrightarrow> pc_step env (ps ! i, m) (p, m') \<Longrightarrow> merger_step env (m, ps) (m', ps[i := p])"
| call_merge: "merger_step env (m, ps) (m, ps @ [MergeStart r])"
| call_finalize: "merger_step env (m, ps) (m, ps @ [FinalizeStart])"
| scrub: "infile_prepScrub jobId attemptCount m = Inr (found, m') \<Longrightarrow> merger_step env (m, ps) (m', ps)"

inductive merger_reach :: "mergeEnv \<Rightarrow> merger \<times> mergePc list \<Rightarrow> bool" for env :: mergeEnv where
  start: "merger_reach env (newMerger env, [])"
| step: "merger_reach env s \<Longrightarrow> merger_step env s s' \<Longrightarrow> merger_reach env s'"

text \<open>LOAD DATA fills the job id column from the text.\<close>

definition loads_job_ids :: "mergeEnv \<Rightarrow> bool" where
  "loads_job_ids env \<longleftrightarrow> (\<forall>j rs. \<forall>x \<in> set (me_load env (rowsText j rs)). fst x = j)"

section \<open>Invariant\<close>

fun counted :: "mergePc \<Rightarrow> int option" where
  "counted (MergeApply r j) = Some j"
| "counted (MergeDecr j ret) = Some j"
| "counted _ = None"

fun isHoldWait :: "mergePc \<Rightarrow> bool" where
  "isHoldWait (HoldWait c) = True"
| "isHoldWait _ = False"

text \<open>An attempt that has rows, or may get some, is known to have them, also as an invalid one.\<close>

definition tracked :: "jaMgr \<Rightarrow> int \<Rightarrow> bool" where
  "tracked g j \<longleftrightarrow> j \<in> ja_jobIdAttemptsHaveRows g
     \<and> (j \<in> ja_invalidJobAttempts g \<longrightarrow> j \<in> ja_invalidJAWithRows g)"

definition minv :: "merger \<times> mergePc list \<Rightarrow> bool" where
  "minv s \<longleftrightarrow> (case s of (m, ps) \<Rightarrow>
     ja_concurrentMergeCount (im_ja m) = int (length (filter (\<lambda>p. counted p \<noteq> None) ps))
     \<and> (\<forall>p \<in> set ps. \<forall>j. counted p = Some j \<longrightarrow> tracked (im_ja m) j)
     \<and> (\<forall>x \<in> set (im_table m). tracked (im_ja m) (fst x))
     \<and> finite (ja_invalidJAWithRows (im_ja m))
     \<and> ja_invalidJAWithRows (im_ja m) \<subseteq> ja_invalidJobAttempts (im_ja m)
     \<and> (ja_waitFlag (im_ja m) \<longrightarrow> (\<exists>p \<in> set ps. isHoldWait p)))"

lemma removeFirst_keeps: "\<forall>x \<in> set xs. Q x \<longrightarrow> \<not> P x \<Longrightarrow> filter Q (removeFirst n P xs) = filter Q xs"
  by (induction n P xs rule: removeFirst.induct) auto

lemma set_removeFirst: "set (removeFirst n P xs) \<subseteq> set xs"
  by (induction n P xs rule: removeFirst.induct) auto

lemma deleteRows_props:
  assumes "deleteRows out js t = (ok, t')"
  shows "(ok \<longrightarrow> t' = filter (\<lambda>x. fst x \<notin> set js) t) \<and> set t' \<subseteq> set t
    \<and> (\<forall>Q. (\<forall>x \<in> set t. Q x \<longrightarrow> fst x \<notin> set js) \<longrightarrow> filter Q t' = filter Q t)"
proof (cases out)
  case SqlOk
  then have "t' = filter (\<lambda>x. fst x \<notin> set js) t"
    using assms by (auto simp: deleteRows_def split_def)
  then show ?thesis by (auto intro: filter_cong)
next
  case (SqlFail n)
  then have "\<not> ok" "t' = removeFirst n (\<lambda>(j, r). j \<in> set js) t" using assms by (simp_all add: deleteRows_def)
  then show ?thesis
    using set_removeFirst [of n "\<lambda>(j, r). j \<in> set js" t] removeFirst_keeps [of t _ "\<lambda>(j, r). j \<in> set js" n]
    by (simp add: split_def)
qed

lemma deleteInvalidRows_props:
  assumes "deleteInvalidRows outs js t = (ok, t')"
  shows "(ok \<longrightarrow> t' = filter (\<lambda>x. fst x \<notin> set js) t) \<and> set t' \<subseteq> set t
    \<and> (\<forall>Q. (\<forall>x \<in> set t. Q x \<longrightarrow> fst x \<notin> set js) \<longrightarrow> filter Q t' = filter Q t)"
  using assms
proof (induction outs js t arbitrary: ok t' rule: deleteInvalidRows.induct)
  case (1 outs t)
  then show ?case by simp
next
  case (2 outs j js t)
  obtain s taken rest where f: "fillBatch True [] (j # js) = (s, taken, rest)" by (metis prod_cases3)
  obtain k u where d: "deleteRows (outs 0) taken t = (k, u)" by fastforce
  have app: "set (j # js) = set taken \<union> set rest" using fillBatch_append [OF f] by (metis set_append)
  note p = deleteRows_props [OF d]
  show ?case
  proof (cases k)
    case False
    then have "ok = False" "t' = u" using 2(2) f d by (auto simp del: fillBatch.simps)
    then show ?thesis using p app by blast
  next
    case True
    then have r: "deleteInvalidRows (\<lambda>k. outs (Suc k)) rest u = (ok, t')"
      using 2(2) f d by (simp del: fillBatch.simps)
    have u: "u = filter (\<lambda>x. fst x \<notin> set taken) t" using p True by simp
    note q = 2(1) [OF f [symmetric] refl d [symmetric] True r]
    have "filter Q t' = filter Q t" if "\<forall>x \<in> set t. Q x \<longrightarrow> fst x \<notin> set (j # js)" for Q
    proof -
      have "filter Q t' = filter Q u" using q that p app by blast
      also have "\<dots> = filter Q t" using p that app by blast
      finally show ?thesis .
    qed
    moreover have "t' = filter (\<lambda>x. fst x \<notin> set (j # js)) t" if ok
      using q u that app by (auto intro: filter_cong)
    ultimately show ?thesis using q p by blast
  qed
qed

lemma tracked_countMerge:
  "\<not> isJobAttemptInvalid j g \<Longrightarrow> tracked (countMerge j g) j"
  "tracked g i \<Longrightarrow> tracked (countMerge j g) i"
  by (simp_all add: tracked_def countMerge_def isJobAttemptInvalid_def)

lemma tracked_prepScrub: "ja_prepScrub j g = (found, g') \<Longrightarrow> tracked g i \<Longrightarrow> tracked g' i"
  by (auto simp: ja_prepScrub_def tracked_def Let_def cleanupIJA_def split: if_splits)

lemma tracked_waitFlag [simp]: "tracked (g\<lparr> ja_waitFlag := b \<rparr>) j = tracked g j"
  "tracked (g\<lparr> ja_concurrentMergeCount := k \<rparr>) j = tracked g j"
  by (simp_all add: tracked_def)

lemma minvD:
  assumes "minv (m, ps)"
  shows "ja_concurrentMergeCount (im_ja m) = int (length (filter (\<lambda>p. counted p \<noteq> None) ps))"
    "i < length ps \<Longrightarrow> counted (ps ! i) = Some j \<Longrightarrow> tracked (im_ja m) j"
    "x \<in> set (im_table m) \<Longrightarrow> tracked (im_ja m) (fst x)"
    "finite (ja_invalidJAWithRows (im_ja m))"
    "ja_invalidJAWithRows (im_ja m) \<subseteq> ja_invalidJobAttempts (im_ja m)"
    "ja_waitFlag (im_ja m) \<Longrightarrow> \<exists>p \<in> set ps. isHoldWait p"
  using assms nth_mem [of i ps] by (auto simp: minv_def)

lemma countMerge_simps [simp]:
  "ja_concurrentMergeCount (countMerge j g) = ja_concurrentMergeCount g + 1"
  "ja_waitFlag (countMerge j g) = ja_waitFlag g"
  "ja_invalidJAWithRows (countMerge j g) = ja_invalidJAWithRows g"
  "ja_invalidJobAttempts (countMerge j g) = ja_invalidJobAttempts g"
  by (simp_all add: countMerge_def)

lemma minv_thread:
  assumes "minv (m, ps)" "i < length ps"
    "ja_concurrentMergeCount (im_ja m')
      = ja_concurrentMergeCount (im_ja m) - (if counted (ps ! i) = None then 0 else 1) + (if counted p = None then 0 else 1)"
    "\<And>k j. k \<noteq> i \<Longrightarrow> k < length ps \<Longrightarrow> counted (ps ! k) = Some j \<Longrightarrow> tracked (im_ja m') j"
    "\<And>j. counted p = Some j \<Longrightarrow> tracked (im_ja m') j"
    "\<And>x. x \<in> set (im_table m') \<Longrightarrow> tracked (im_ja m') (fst x)"
    "finite (ja_invalidJAWithRows (im_ja m'))"
    "ja_invalidJAWithRows (im_ja m') \<subseteq> ja_invalidJobAttempts (im_ja m')"
    "ja_waitFlag (im_ja m') \<longrightarrow> (\<exists>p \<in> set (ps[i := p]). isHoldWait p)"
  shows "minv (m', ps[i := p])"
proof -
  have "int (length (filter (\<lambda>p. counted p \<noteq> None) (ps[i := p])))
    = int (length (filter (\<lambda>p. counted p \<noteq> None) ps))
      - (if counted (ps ! i) = None then 0 else 1) + (if counted p = None then 0 else 1)"
  proof -
    have "ps = take i ps @ ps ! i # drop (Suc i) ps" using assms(2) by (rule id_take_nth_drop)
    then have "length (filter (\<lambda>p. counted p \<noteq> None) ps)
      = length (filter (\<lambda>p. counted p \<noteq> None) (take i ps @ ps ! i # drop (Suc i) ps))" by metis
    then show ?thesis using assms(2) by (auto simp: upd_conv_take_nth_drop)
  qed
  moreover have "\<forall>q \<in> set (ps[i := p]). \<forall>j. counted q = Some j \<longrightarrow> tracked (im_ja m') j"
    using assms(2,4,5) by (metis in_set_conv_nth length_list_update nth_list_update)
  ultimately show ?thesis using assms by (auto simp: minv_def)
qed

lemma minv_waitFlag_kept:
  assumes "minv (m, ps)" "i < length ps" "\<not> isHoldWait (ps ! i)" "ja_waitFlag (im_ja m)"
  shows "\<exists>q \<in> set (ps[i := p]). isHoldWait q"
proof -
  obtain k where "k < length ps" "isHoldWait (ps ! k)"
    using assms(1,4) by (auto simp: minv_def in_set_conv_nth)
  then have "isHoldWait (ps[i := p] ! k)" "k < length (ps[i := p])" using assms(3)
    by (cases "k = i"; simp)+
  then show ?thesis using nth_mem by blast
qed

lemma minv_plain:
  assumes "minv (m, ps)" "i < length ps" "im_ja m' = im_ja m" "im_table m' = im_table m"
    "counted (ps ! i) = None" "counted p = None" "\<not> isHoldWait (ps ! i)"
  shows "minv (m', ps[i := p])"
proof (rule minv_thread [OF assms(1,2)])
  show "ja_waitFlag (im_ja m') \<longrightarrow> (\<exists>p \<in> set (ps[i := p]). isHoldWait p)"
    using minv_waitFlag_kept [OF assms(1,2,7)] assms(3) by simp
qed (use assms minvD [OF assms(1)] in simp_all)

lemma minv_counts:
  assumes "minv (m, ps)" "i < length ps" "counted (ps ! i) = None" "\<not> isHoldWait (ps ! i)"
    "\<not> isJobAttemptInvalid j (im_ja m)"
  shows "minv (m\<lparr> im_ja := countMerge j (im_ja m) \<rparr>, ps[i := MergeApply r j])"
proof (rule minv_thread [OF assms(1,2)])
  show "ja_waitFlag (im_ja (m\<lparr> im_ja := countMerge j (im_ja m) \<rparr>))
    \<longrightarrow> (\<exists>p \<in> set (ps[i := MergeApply r j]). isHoldWait p)"
    using minv_waitFlag_kept [OF assms(1,2,4)] by simp
qed (use assms minvD [OF assms(1)] tracked_countMerge in simp_all)

lemma minv_drop:
  assumes "minv (m, ps)" "im_ja m' = im_ja m" "im_table m' = im_table m \<or> im_table m' = []"
  shows "minv (m', ps)"
  using assms by (auto simp: minv_def)

lemma minv_incr:
  assumes "minv (m, ps)" "i < length ps" "counted (ps ! i) = None" "\<not> isHoldWait (ps ! i)"
  shows "merge_incr r j m = (p, m') \<Longrightarrow> minv (m', ps[i := p])"
    and "merge_wake r j m = (p, m') \<Longrightarrow> minv (m', ps[i := p])"
  using minv_plain [OF assms(1,2) _ _ assms(3) _ assms(4), of m] minv_counts [OF assms]
  by (auto simp: merge_incr_def merge_wake_def incrConcurrentMergeCount_def incrAfterWait_def afterIncr_def
      split: if_splits)

lemma minv_apply:
  assumes "minv (m, ps)" "i < length ps" "ps ! i = MergeApply r j" "loads_job_ids env"
    "merge_apply env failed r j m = (p, m')"
  shows "minv (m', ps[i := p])"
proof -
  have t: "tracked (im_ja m) j" using minvD(2) [OF assms(1,2)] assms(3) by simp
  have m': "im_ja m' = im_ja m" "counted p = Some j" "\<not> isHoldWait (ps ! i)"
    "set (im_table m') \<subseteq> set (im_table m) \<union> set (me_load env (rowsText j (rs_row r)))"
    using assms(3,5) by (auto simp: merge_apply_def Let_def dest: in_set_takeD split: option.splits tableShape.splits)
  have ids: "fst x = j" if "x \<in> set (me_load env (rowsText j (rs_row r)))" for x
    using that assms(4) by (simp add: loads_job_ids_def)
  have "tracked (im_ja m') (fst x)" if "x \<in> set (im_table m')" for x
  proof -
    have "x \<in> set (im_table m) \<or> x \<in> set (me_load env (rowsText j (rs_row r)))" using that m'(4) by blast
    then have "tracked (im_ja m) (fst x)"
    proof
      assume "x \<in> set (me_load env (rowsText j (rs_row r)))"
      then show ?thesis using ids t by metis
    qed (rule minvD(3) [OF assms(1)])
    then show ?thesis by (simp add: m'(1))
  qed
  then show ?thesis
    using m' t assms(2,3) minvD [OF assms(1)] minv_waitFlag_kept [OF assms(1,2) m'(3)]
    by (intro minv_thread [OF assms(1,2)]) simp_all
qed

lemma minv_decr:
  assumes "minv (m, ps)" "i < length ps" "ps ! i = MergeDecr j ret" "merge_decr ret m = (p, m')"
  shows "minv (m', ps[i := p])"
proof -
  have m': "im_ja m' = (im_ja m)\<lparr> ja_concurrentMergeCount := ja_concurrentMergeCount (im_ja m) - 1 \<rparr>"
    "im_table m' = im_table m" "p = MergeCheckSize ret"
    using assms(4) by (auto simp: merge_decr_def decrConcurrentMergeCount_def)
  show ?thesis
    using m' assms(3) minvD [OF assms(1)] minv_waitFlag_kept [OF assms(1,2)]
    by (intro minv_thread [OF assms(1,2)]) simp_all
qed

text \<open>
  The deletion empties the table of invalid attempts when it succeeds, and otherwise keeps the books right.
\<close>

lemma hold_delete_props:
  assumes "minv (m, ps)" "ja_concurrentMergeCount (im_ja m) = 0"
    "hold_delete outs c (m\<lparr> im_ja := (im_ja m)\<lparr> ja_waitFlag := b \<rparr> \<rparr>) = (p, m')"
  shows "ja_waitFlag (im_ja m') = False"
    "ja_invalidJobAttempts (im_ja m') = ja_invalidJobAttempts (im_ja m)"
    "ja_jobIdAttemptsHaveRows (im_ja m') = ja_jobIdAttemptsHaveRows (im_ja m)"
    "ja_concurrentMergeCount (im_ja m') = 0"
    "ja_invalidJAWithRows (im_ja m') \<subseteq> ja_invalidJAWithRows (im_ja m)"
    "\<forall>x \<in> set (im_table m'). tracked (im_ja m') (fst x)"
    "filter (\<lambda>x. fst x \<notin> ja_invalidJobAttempts (im_ja m)) (im_table m')
      = filter (\<lambda>x. fst x \<notin> ja_invalidJobAttempts (im_ja m)) (im_table m)"
    "p = holdReturns c True \<and> im_table m' = filter (\<lambda>x. fst x \<notin> ja_invalidJobAttempts (im_ja m)) (im_table m)
      \<or> p = holdReturns c False"
proof -
  let ?js = "sorted_list_of_set (ja_invalidJAWithRows (im_ja m))"
  let ?outs = "if im_shape m = WithJobId then outs else (\<lambda>_. SqlFail 0)"
  obtain ok t where d: "deleteInvalidRows ?outs ?js (im_table m) = (ok, t)" by fastforce
  note q = deleteInvalidRows_props [OF d]
  have js: "set ?js = ja_invalidJAWithRows (im_ja m)" using assms(1) by (simp add: minv_def)
  have m': "p = holdReturns c ok" "im_table m' = t"
    "im_ja m' = (if ok then (im_ja m)\<lparr> ja_waitFlag := False, ja_invalidJAWithRows := {} \<rparr>
                 else (im_ja m)\<lparr> ja_waitFlag := False \<rparr>)"
    using assms(3) d by (auto simp: hold_delete_def cleanupIJA_def Let_def split: prod.splits)
  have sub: "ja_invalidJAWithRows (im_ja m) \<subseteq> ja_invalidJobAttempts (im_ja m)"
    and tr: "\<forall>x \<in> set (im_table m). tracked (im_ja m) (fst x)" using assms(1) by (simp_all add: minv_def)
  show "ja_waitFlag (im_ja m') = False"
    "ja_invalidJobAttempts (im_ja m') = ja_invalidJobAttempts (im_ja m)"
    "ja_jobIdAttemptsHaveRows (im_ja m') = ja_jobIdAttemptsHaveRows (im_ja m)"
    "ja_concurrentMergeCount (im_ja m') = 0"
    "ja_invalidJAWithRows (im_ja m') \<subseteq> ja_invalidJAWithRows (im_ja m)"
    using m' assms(2) by auto
  have "fst x \<notin> set ?js \<longleftrightarrow> fst x \<notin> ja_invalidJobAttempts (im_ja m)" if "x \<in> set (im_table m)" for x
    using sub tr that js by (auto simp: tracked_def)
  then have same: "filter (\<lambda>x. fst x \<notin> set ?js) (im_table m)
    = filter (\<lambda>x. fst x \<notin> ja_invalidJobAttempts (im_ja m)) (im_table m)" by (rule filter_cong [OF refl])
  then have eq: "t = filter (\<lambda>x. fst x \<notin> ja_invalidJobAttempts (im_ja m)) (im_table m)" if ok
    using q that by simp
  show "filter (\<lambda>x. fst x \<notin> ja_invalidJobAttempts (im_ja m)) (im_table m')
      = filter (\<lambda>x. fst x \<notin> ja_invalidJobAttempts (im_ja m)) (im_table m)"
  proof -
    have "\<forall>x \<in> set (im_table m). fst x \<notin> ja_invalidJobAttempts (im_ja m) \<longrightarrow> fst x \<notin> set ?js"
      unfolding js using sub by auto
    then show ?thesis using q m'(2) by simp
  qed
  show "p = holdReturns c True \<and> im_table m' = filter (\<lambda>x. fst x \<notin> ja_invalidJobAttempts (im_ja m)) (im_table m)
      \<or> p = holdReturns c False"
    using m' eq by (cases ok) auto
  show "\<forall>x \<in> set (im_table m'). tracked (im_ja m') (fst x)"
  proof (cases ok)
    case True
    then show ?thesis using m' eq tr by (auto simp: tracked_def)
  next
    case False
    have "set t \<subseteq> set (im_table m)" using q by simp
    then show ?thesis using False m' tr by (auto simp: tracked_def)
  qed
qed

lemma minv_hold_delete:
  assumes "minv (m, ps)" "i < length ps" "counted (ps ! i) = None" "ja_concurrentMergeCount (im_ja m) = 0"
    "hold_delete outs c (m\<lparr> im_ja := (im_ja m)\<lparr> ja_waitFlag := b \<rparr> \<rparr>) = (p, m')"
  shows "minv (m', ps[i := p])"
proof -
  note h = hold_delete_props [OF assms(1,4,5)]
  have c: "counted (ps ! k) = None" if "k < length ps" for k
    using minvD(1) [OF assms(1)] assms(4) that nth_mem by (fastforce simp: filter_empty_conv)
  have p: "counted p = None" using h(8) by (auto simp: holdReturns_def split: holdCaller.splits)
  have f: "finite (ja_invalidJAWithRows (im_ja m'))"
    "ja_invalidJAWithRows (im_ja m') \<subseteq> ja_invalidJobAttempts (im_ja m')"
    using minvD(4,5) [OF assms(1)] h(2,5) finite_subset by auto
  show ?thesis by (rule minv_thread [OF assms(1,2)]) (use h c p f assms(3,4) in auto)
qed

lemma minv_hold_begin:
  assumes "minv (m, ps)" "i < length ps" "ps ! i = HoldBegin c" "hold_begin outs c m = (p, m')"
  shows "minv (m', ps[i := p])"
proof -
  let ?m = "m\<lparr> im_ja := (im_ja m)\<lparr> ja_waitFlag := True \<rparr> \<rparr>"
  consider (none) "ja_invalidJAWithRows (im_ja m) = {}"
    | (wait) "ja_invalidJAWithRows (im_ja m) \<noteq> {}" "0 < ja_concurrentMergeCount (im_ja m)"
    | (delete) "ja_invalidJAWithRows (im_ja m) \<noteq> {}" "ja_concurrentMergeCount (im_ja m) = 0"
    using minvD(1) [OF assms(1)] by fastforce
  then show ?thesis
  proof cases
    case none
    then have "p = holdReturns c True" "m' = m\<lparr> im_ja := (im_ja m)\<lparr> ja_waitFlag := False \<rparr> \<rparr>"
      using assms(4) by (auto simp: hold_begin_def Let_def cleanupIJA_def)
    then show ?thesis
      using minvD [OF assms(1)] assms(2,3)
      by (intro minv_thread [OF assms(1,2)]) (auto simp: holdReturns_def split: holdCaller.splits)
  next
    case wait
    then have e: "p = HoldWait c" "m' = ?m" using assms(4) by (auto simp: hold_begin_def Let_def)
    moreover have "HoldWait c \<in> set (ps[i := HoldWait c])" using assms(2) by (simp add: set_update_memI)
    then have "\<exists>q \<in> set (ps[i := HoldWait c]). isHoldWait q" using isHoldWait.simps(1) by blast
    ultimately show ?thesis
      using minvD [OF assms(1)] assms(2,3) by (intro minv_thread [OF assms(1,2)]) auto
  next
    case delete
    then show ?thesis
      using minv_hold_delete [OF assms(1,2), of outs c True p m'] assms(3,4) by (simp add: hold_begin_def Let_def)
  qed
qed

lemma minv_pc_step:
  assumes "minv (m, ps)" "i < length ps" "loads_job_ids env" "pc_step env (ps ! i, m) (p, m')"
  shows "minv (m', ps[i := p])"
  using assms(4)
proof (cases rule: pc_step.cases)
  case (begin_merge r)
  then show ?thesis
    by (intro minv_plain [OF assms(1,2)])
      (auto simp: merge_begin_def Let_def split: if_splits sum.splits)
next
  case (incr r j)
  then show ?thesis using minv_incr(1) [OF assms(1,2)] by simp
next
  case (wake r j)
  then show ?thesis using minv_incr(2) [OF assms(1,2)] by simp
next
  case (load r j failed)
  then show ?thesis using minv_apply [OF assms(1,2) _ assms(3)] by simp
next
  case (decr j ret)
  then show ?thesis using minv_decr [OF assms(1,2)] by simp
next
  case (check ret sz)
  then show ?thesis
    by (intro minv_plain [OF assms(1,2)]) (auto simp: merge_checkSize_def split: if_splits)
next
  case (hold c outs)
  then show ?thesis using minv_hold_begin [OF assms(1,2)] by simp
next
  case (held c outs)
  then show ?thesis
    using minv_hold_delete [OF assms(1,2), of outs c "ja_waitFlag (im_ja m)"] by simp
next
  case (again ret valid sz)
  then show ?thesis
    by (intro minv_plain [OF assms(1,2)]) (auto simp: merge_checkAgain_def split: if_splits)
next
  case finalize
  then show ?thesis by (intro minv_plain [OF assms(1,2)]) auto
next
  case (target ok dropOk)
  have "im_ja m' = im_ja m" "im_table m' = im_table m \<or> im_table m' = []" "counted p = None"
    using target by (auto simp: finalize_table_def Let_def split: option.splits if_splits)
  then show ?thesis
    using minv_drop [OF assms(1)] minv_plain [OF _ assms(2)] assms(1) target(1) by (metis counted.simps(11) isHoldWait.simps(11))
qed

lemma minv_scrub:
  assumes "minv (m, ps)" "infile_prepScrub jobId attemptCount m = Inr (found, m')"
  shows "minv (m', ps)"
proof -
  obtain j g where g: "ja_prepScrub j (im_ja m) = (found, g)" "m' = m\<lparr> im_ja := g \<rparr>"
    using assms(2) by (auto simp: infile_prepScrub_def split: sum.splits prod.splits)
  have "ja_concurrentMergeCount g = ja_concurrentMergeCount (im_ja m)" "\<not> ja_waitFlag g"
    "finite (ja_invalidJAWithRows g)" "ja_invalidJAWithRows g \<subseteq> ja_invalidJobAttempts g"
    using g(1) minvD(4,5) [OF assms(1)] by (auto simp: ja_prepScrub_def Let_def cleanupIJA_def split: if_splits)
  then show ?thesis
    using assms(1) g(2) tracked_prepScrub [OF g(1)] by (auto simp: minv_def)
qed

lemma minv_reach: "merger_reach env s \<Longrightarrow> loads_job_ids env \<Longrightarrow> minv s"
proof (induction rule: merger_reach.induct)
  case start
  then show ?case by (simp add: minv_def newMerger_def newJaMgr_def)
next
  case (step s s')
  then have inv: "minv s" by simp
  from step(2) show ?case
  proof (cases rule: merger_step.cases)
    case (thread i ps m p m')
    then show ?thesis using inv minv_pc_step step(4) by simp
  next
    case (scrub jobId attemptCount m found m' ps)
    then show ?thesis using inv minv_scrub by simp
  qed (use inv in \<open>auto simp: minv_def\<close>)
qed

section \<open>Runs\<close>

text \<open>The system as a function of a schedule, for the examples.\<close>

datatype mergeChoice =
    RunThread nat "nat option" nat "nat \<Rightarrow> sqlOutcome" bool
  | CallMerge result
  | CallFinalize
  | CallScrub int int

definition pc_exec ::
  "mergeEnv \<Rightarrow> nat option \<Rightarrow> nat \<Rightarrow> (nat \<Rightarrow> sqlOutcome) \<Rightarrow> bool \<Rightarrow> mergePc \<Rightarrow> merger \<Rightarrow> (mergePc \<times> merger) option" where
  "pc_exec env failed sz outs ok p m =
     (case p of
        MergeStart r \<Rightarrow> Some (merge_begin r m)
      | MergeIncr r j \<Rightarrow> Some (merge_incr r j m)
      | MergeWait r j \<Rightarrow> if ja_waitFlag (im_ja m) then None else Some (merge_wake r j m)
      | MergeApply r j \<Rightarrow> Some (merge_apply env failed r j m)
      | MergeDecr j ret \<Rightarrow> Some (merge_decr ret m)
      | MergeCheckSize ret \<Rightarrow> Some (merge_checkSize env sz ret m)
      | HoldBegin c \<Rightarrow> Some (hold_begin outs c m)
      | HoldWait c \<Rightarrow> if ja_concurrentMergeCount (im_ja m) = 0 then Some (hold_delete outs c m) else None
      | MergeCheckAgain ret valid \<Rightarrow> Some (merge_checkAgain env sz ret valid m)
      | FinalizeStart \<Rightarrow> Some (HoldBegin Finalize, m)
      | FinalizeTable \<Rightarrow> Some (finalize_table env ok True m)
      | _ \<Rightarrow> None)"

lemma pc_exec_step: "pc_exec env failed sz outs ok p m = Some pm \<Longrightarrow> pc_step env (p, m) pm"
  by (cases p) (auto simp: pc_exec_def intro: pc_step.intros split: if_splits)

fun merger_exec :: "mergeEnv \<Rightarrow> mergeChoice \<Rightarrow> merger \<times> mergePc list \<Rightarrow> (merger \<times> mergePc list) option" where
  "merger_exec env (RunThread i failed sz outs ok) (m, ps) =
     (if i < length ps
      then case pc_exec env failed sz outs ok (ps ! i) m of
             None \<Rightarrow> None
           | Some (p, m') \<Rightarrow> Some (m', ps[i := p])
      else None)"
| "merger_exec env (CallMerge r) (m, ps) = Some (m, ps @ [MergeStart r])"
| "merger_exec env CallFinalize (m, ps) = Some (m, ps @ [FinalizeStart])"
| "merger_exec env (CallScrub jobId attemptCount) (m, ps) =
     (case infile_prepScrub jobId attemptCount m of Inl _ \<Rightarrow> None | Inr (found, m') \<Rightarrow> Some (m', ps))"

lemma merger_exec_step: "merger_exec env ch s = Some s' \<Longrightarrow> merger_step env s s'"
  by (cases "(env, ch, s)" rule: merger_exec.cases)
    (auto split: if_splits option.splits sum.splits intro: merger_step.intros dest: pc_exec_step)

fun merger_run :: "mergeEnv \<Rightarrow> mergeChoice list \<Rightarrow> merger \<times> mergePc list \<Rightarrow> (merger \<times> mergePc list) option" where
  "merger_run env [] s = Some s"
| "merger_run env (ch # chs) s =
     (case merger_exec env ch s of None \<Rightarrow> None | Some s' \<Rightarrow> merger_run env chs s')"

lemma merger_run_reach:
  "merger_reach env s \<Longrightarrow> merger_run env chs s = Some s' \<Longrightarrow> merger_reach env s'"
  by (induction env chs s rule: merger_run.induct)
    (auto split: option.splits dest: merger_exec_step intro: merger_reach.step)

section \<open>Properties\<close>

fun returned :: "mergePc \<Rightarrow> bool" where
  "returned (MergeReturned ret) = True"
| "returned MergeThrew = True"
| "returned (FinalizeReturned ok) = True"
| "returned _ = False"

lemma holdReturns_inject: "holdReturns c a = holdReturns c b \<longleftrightarrow> a = b"
  by (auto simp: holdReturns_def split: holdCaller.splits if_splits)

lemma holdReturns_not_wait: "holdReturns c a \<noteq> HoldWait c"
  by (auto simp: holdReturns_def split: holdCaller.splits if_splits)

text \<open>
  C3. When \<open>holdMergingForRowDelete\<close> returns true, for the size check of \<open>merge\<close> or for \<open>finalize\<close>, the
  merge table has exactly those of its rows that are not of an invalid job attempt, in the order
  they had, whatever merges, scrubs and deletions by other threads were interleaved.
\<close>

theorem hold_leaves_only_valid_rows:
  assumes "loads_job_ids env" "merger_reach env (m, ps)" "i < length ps" "ps ! i = HoldBegin c \<or> ps ! i = HoldWait c"
    "pc_step env (ps ! i, m) (holdReturns c True, m')"
  shows "im_table m' = filter (\<lambda>x. fst x \<notin> ja_invalidJobAttempts (im_ja m')) (im_table m)"
proof -
  have inv: "minv (m, ps)" using minv_reach assms(1,2) by blast
  have none: "im_table m = filter (\<lambda>x. fst x \<notin> ja_invalidJobAttempts (im_ja m)) (im_table m)"
    if "ja_invalidJAWithRows (im_ja m) = {}"
    using minvD(3) [OF inv] that by (intro filter_True [symmetric]) (auto simp: tracked_def)
  have del: "im_table m' = filter (\<lambda>x. fst x \<notin> ja_invalidJobAttempts (im_ja m')) (im_table m)"
    if "ja_concurrentMergeCount (im_ja m) = 0"
      "hold_delete outs c (m\<lparr> im_ja := (im_ja m)\<lparr> ja_waitFlag := b \<rparr> \<rparr>) = (holdReturns c True, m')" for outs b
    using hold_delete_props(2,8) [OF inv that] by (simp add: holdReturns_inject)
  from assms(4) show ?thesis
  proof
    assume "ps ! i = HoldBegin c"
    then obtain outs where h: "hold_begin outs c m = (holdReturns c True, m')"
      using assms(5) by (auto elim: pc_stepE)
    show ?thesis
    proof (cases "ja_invalidJAWithRows (im_ja m) = {}")
      case True
      then have "m' = m\<lparr> im_ja := (im_ja m)\<lparr> ja_waitFlag := False \<rparr> \<rparr>"
        using h by (auto simp: hold_begin_def Let_def cleanupIJA_def)
      then show ?thesis using none [OF True] by simp
    next
      case False
      then have "ja_concurrentMergeCount (im_ja m) = 0"
        using h minvD(1) [OF inv] holdReturns_not_wait
        by (auto simp: hold_begin_def Let_def split: if_splits) (metis holdReturns_not_wait)
      then show ?thesis using del [of outs True] False h by (simp add: hold_begin_def Let_def)
    qed
  next
    assume "ps ! i = HoldWait c"
    then obtain outs where "hold_delete outs c m = (holdReturns c True, m')" "ja_concurrentMergeCount (im_ja m) = 0"
      using assms(5) by (auto elim: pc_stepE)
    then show ?thesis using del [of outs "ja_waitFlag (im_ja m)"] by simp
  qed
qed

text \<open>What the target has after a \<open>finalize\<close> that succeeds on a merge table.\<close>

definition finalRows :: "mergeEnv \<Rightarrow> mergeTable \<Rightarrow> row list" where
  "finalRows env t = (case me_mergeStmt env of Some select \<Rightarrow> select (map snd t) | None \<Rightarrow> map snd t)"

text \<open>
  C12. Valid rows are lost in one way only. In every step of any thread other than the end of \<open>finalize\<close>, also one in which a
  DELETE fails half way, the rows whose attempt is valid afterwards stay in the merge table, in their order, and rows are only
  added behind them. A \<open>finalize\<close> that returns true has put the whole merge table, aggregated if the query asks for it, into the
  target. One that returns false has left the merge table alone or, for a query that aggregates, dropped it.
\<close>

theorem valid_rows_kept:
  assumes "loads_job_ids env" "merger_reach env (m, ps)" "merger_step env (m, ps) (m', ps')"
  shows "(\<exists>new. filter (\<lambda>x. fst x \<notin> ja_invalidJobAttempts (im_ja m')) (im_table m')
      = filter (\<lambda>x. fst x \<notin> ja_invalidJobAttempts (im_ja m')) (im_table m) @ new)
    \<or> (\<exists>i < length ps. ps ! i = FinalizeTable
        \<and> (ps' ! i = FinalizeReturned True \<and> im_target m' = Some (finalRows env (im_table m))
           \<or> ps' ! i = FinalizeReturned False \<and> me_mergeStmt env \<noteq> None \<and> im_shape m' = Dropped))"
proof -
  have inv: "minv (m, ps)" using minv_reach assms(1,2) by blast
  have del: "\<exists>new. filter (\<lambda>x. fst x \<notin> ja_invalidJobAttempts (im_ja n)) (im_table n)
    = filter (\<lambda>x. fst x \<notin> ja_invalidJobAttempts (im_ja n)) (im_table m) @ new"
    if "ja_concurrentMergeCount (im_ja m) = 0"
      "hold_delete outs c (m\<lparr> im_ja := (im_ja m)\<lparr> ja_waitFlag := b \<rparr> \<rparr>) = (p, n)" for outs c b p n
    using hold_delete_props(2,7) [OF inv that] by simp
  have pc: "(\<exists>new. filter (\<lambda>x. fst x \<notin> ja_invalidJobAttempts (im_ja n)) (im_table n)
      = filter (\<lambda>x. fst x \<notin> ja_invalidJobAttempts (im_ja n)) (im_table m) @ new)
    \<or> q = FinalizeTable \<and> (p = FinalizeReturned True \<and> im_target n = Some (finalRows env (im_table m))
         \<or> p = FinalizeReturned False \<and> me_mergeStmt env \<noteq> None \<and> im_shape n = Dropped)"
    if "pc_step env (q, m) (p, n)" for q p n
    using that
  proof (cases rule: pc_step.cases)
    case (hold c outs)
    show ?thesis
    proof (cases "ja_invalidJAWithRows (im_ja m) = {} \<or> 0 < ja_concurrentMergeCount (im_ja m)")
      case True
      then have "im_table n = im_table m" using hold by (auto simp: hold_begin_def Let_def split: if_splits)
      then show ?thesis by simp
    next
      case False
      moreover from this have "ja_concurrentMergeCount (im_ja m) = 0" using minvD(1) [OF inv] by simp
      ultimately show ?thesis using hold del [of outs c True p n] by (simp add: hold_begin_def Let_def)
    qed
  next
    case (held c outs)
    then show ?thesis using del [of outs c "ja_waitFlag (im_ja m)" p n] by simp
  next
    case (load r j failed)
    then show ?thesis by (auto simp: merge_apply_def Let_def split: option.splits tableShape.splits)
  next
    case (target ok dropOk)
    then show ?thesis by (auto simp: finalize_table_def finalRows_def Let_def split: option.splits if_splits)
  qed (auto simp: merge_begin_def merge_incr_def merge_wake_def merge_decr_def merge_checkSize_def
      merge_checkAgain_def Let_def split: if_splits sum.splits prod.splits)
  from assms(3) show ?thesis
  proof (cases rule: merger_step.cases)
    case (thread i p)
    then show ?thesis using pc [of "ps ! i" p m'] by (auto intro!: exI [of _ i])
  next
    case (scrub jobId attemptCount found)
    then have "im_table m' = im_table m" by (auto simp: infile_prepScrub_def split: sum.splits prod.splits)
    then show ?thesis by simp
  qed simp_all
qed

text \<open>
  C30. The threads cannot block each other: as long as some call has not returned, some thread can take a step.
  The flag that stops new merges is set between steps only while a thread waits for the running merges, and these
  finish without it.
\<close>

theorem merge_threads_not_stuck:
  assumes "loads_job_ids env" "merger_reach env (m, ps)" "p \<in> set ps" "\<not> returned p"
  shows "\<exists>i < length ps. \<exists>q m'. pc_step env (ps ! i, m) (q, m')"
proof -
  have inv: "minv (m, ps)" using minv_reach assms(1,2) by blast
  have go: "\<exists>q m'. pc_step env (p, m) (q, m')"
    if "\<not> returned p" "\<And>r j. p = MergeWait r j \<Longrightarrow> \<not> ja_waitFlag (im_ja m)"
      "\<And>c. p = HoldWait c \<Longrightarrow> ja_concurrentMergeCount (im_ja m) = 0" for p
    using that by (cases p) (simp_all, (metis pc_step.intros surj_pair)+)
  have run: ?thesis if "i < length ps" "counted (ps ! i) \<noteq> None" for i
  proof -
    have "\<exists>q m'. pc_step env (ps ! i, m) (q, m')" by (rule go) (use that(2) in \<open>cases "ps ! i"; simp\<close>)+
    then show ?thesis using that(1) by blast
  qed
  have zero: "ja_concurrentMergeCount (im_ja m) = 0" if "\<forall>i < length ps. counted (ps ! i) = None"
    using minvD(1) [OF inv] that by (auto simp: filter_empty_conv in_set_conv_nth)
  show ?thesis
  proof (cases "\<exists>i < length ps. counted (ps ! i) \<noteq> None")
    case True
    then show ?thesis using run by blast
  next
    case False
    then have z: "ja_concurrentMergeCount (im_ja m) = 0" using zero by blast
    show ?thesis
    proof (cases "ja_waitFlag (im_ja m)")
      case True
      then obtain c where "HoldWait c \<in> set ps" using minvD(6) [OF inv] by (metis isHoldWait.elims(2))
      then obtain i where "i < length ps" "ps ! i = HoldWait c" by (auto simp: in_set_conv_nth)
      then show ?thesis using go [of "HoldWait c"] z by fastforce
    next
      case flag: False
      obtain i where "i < length ps" "ps ! i = p" using assms(3) by (auto simp: in_set_conv_nth)
      then show ?thesis using go [of p] z flag assms(4) by blast
    qed
  qed
qed

text \<open>
  The search for a name of the job id column ends, and the column put in front of the schema has a name that no
  column of the query has, the first such name in the order \<open>jobId\<close>, \<open>jobId0\<close>, \<open>jobId1\<close>.
\<close>

theorem jobid_column_fresh:
  "\<exists>a. addJobIdColumnToSchema cols = jobIdColName a # cols
    \<and> jobIdColName a \<notin> set cols \<and> (\<forall>k < a. jobIdColName k \<in> set cols)"
proof -
  have "jobIdColName (findJobIdCol cols a cs) \<notin> set cols
      \<and> (\<forall>k < findJobIdCol cols a cs. jobIdColName k \<in> set cols)"
    if "\<forall>k < a. jobIdColName k \<in> set cols" "set cs \<subseteq> set cols" "jobIdColName a \<notin> set cols - set cs" for a cs
    using that
  proof (induction cols a cs rule: findJobIdCol.induct)
    case (2 cols a c cs)
    show ?case
    proof (cases "c = jobIdColName a")
      case True
      then have "jobIdColName k \<in> set cols" if "k < Suc a" for k using 2 that less_Suc_eq by auto
      then show ?thesis using 2(1) [OF True] True by simp
    next
      case False
      then show ?thesis using 2(2) [OF False] 2(3-) by auto
    qed
  qed auto
  from this [of 0 cols] show ?thesis by (auto simp: addJobIdColumnToSchema_def)
qed

text \<open>
  Below the limit of attempts the tag of an attempt is never that of another one, so that scrubbing one
  attempt touches no rows of any other.
\<close>

lemma to_int32_id: "- (2 ^ 31) \<le> x \<Longrightarrow> x < 2 ^ 31 \<Longrightarrow> to_int32 x = x"
  by (simp add: to_int32_def)

lemma makeJobIdAttempt_injective:
  assumes "0 \<le> a" "a < MAX_JOB_ATTEMPTS" "0 \<le> b" "b < MAX_JOB_ATTEMPTS" "0 \<le> i" "i < 21474836" "0 \<le> j" "j < 21474836"
  shows "makeJobIdAttempt i a = makeJobIdAttempt j b \<longleftrightarrow> i = j \<and> a = b"
proof
  assume "makeJobIdAttempt i a = makeJobIdAttempt j b"
  moreover have "to_int32 (to_int32 (k * 100) + c) = k * 100 + c" if "0 \<le> k" "k < 21474836" "0 \<le> c" "c < 100" for k c
    using that by (simp add: to_int32_id)
  ultimately have e: "i * 100 + a = j * 100 + b" using assms by (simp add: makeJobIdAttempt_def MAX_JOB_ATTEMPTS_def)
  have "(i * 100 + a) div 100 = i" "(j * 100 + b) div 100 = j" using assms by (simp_all add: MAX_JOB_ATTEMPTS_def)
  then show "i = j \<and> a = b" using e by simp
qed simp

text \<open>For a job number above that the tag wraps around: the tags of these two jobs are the same.\<close>

lemma makeJobIdAttempt_wraps: "makeJobIdAttempt 42949673 0 = makeJobIdAttempt 0 4"
  by (simp add: makeJobIdAttempt_def to_int32_def MAX_JOB_ATTEMPTS_def)

text \<open>The example: a job's first attempt is merged, declared invalid and retried; then the table is finalized.\<close>

definition demoMergeEnv :: mergeEnv where
  "demoMergeEnv = \<lparr> me_load = documentedLoad, me_loadPlain = (\<lambda>text. map snd (documentedLoad text)), me_maxResultTableSizeMB = 5000, me_mergeStmt = None \<rparr>"

definition demoResult :: "int \<Rightarrow> int \<Rightarrow> string \<Rightarrow> result" where
  "demoResult j a v = \<lparr> rs_jobid = j, rs_attemptcount = a, rs_continues = False, rs_largeresult = False,
     rs_rowcount = 1, rs_transmitsize = 1, rs_errorcode = None, rs_errormsg = None, rs_row = [[Some v]] \<rparr>"

abbreviation runThread :: "nat \<Rightarrow> mergeChoice" where
  "runThread i \<equiv> RunThread i None 0 (\<lambda>_. SqlOk) True"

definition demoMerges :: "mergeChoice list" where
  "demoMerges =
     [CallMerge (demoResult 3 0 ''old''), runThread 0, runThread 0, runThread 0, CallScrub 3 0,
      CallMerge (demoResult 3 1 ''new''), runThread 1, runThread 1, runThread 1, runThread 1, runThread 0,
      CallFinalize, runThread 2]"

lemma demo_loads: "loads_job_ids demoMergeEnv"
  by (simp add: loads_job_ids_def demoMergeEnv_def documentedLoad_ids)

lemma demo_run_merges:
  "\<exists>m. merger_run demoMergeEnv demoMerges (newMerger demoMergeEnv, [])
      = Some (m, [MergeCheckSize True, MergeCheckSize True, HoldBegin Finalize])
    \<and> im_table m = [(300, [Some ''old'']), (301, [Some ''new''])]
    \<and> ja_invalidJobAttempts (im_ja m) = {300} \<and> ja_invalidJAWithRows (im_ja m) = {300}
    \<and> ja_concurrentMergeCount (im_ja m) = 0 \<and> im_shape m = WithJobId"
  by (simp add: demoMerges_def demoMergeEnv_def newMerger_def newJaMgr_def demoResult_def pc_exec_def merge_begin_def
      makeJobIdAttempt_def to_int32_def MAX_JOB_ATTEMPTS_def merge_incr_def incrConcurrentMergeCount_def isJobAttemptInvalid_def
      afterIncr_def countMerge_def merge_apply_def documentedLoad_rows infile_prepScrub_def ja_prepScrub_def
      cleanupIJA_def merge_decr_def decrConcurrentMergeCount_def Let_def)


theorem hold_leaves_only_valid_rows_witness:
  "\<exists>m m'. merger_run demoMergeEnv demoMerges (newMerger demoMergeEnv, [])
      = Some (m, [MergeCheckSize True, MergeCheckSize True, HoldBegin Finalize])
    \<and> hold_begin (\<lambda>_. SqlOk) Finalize m = (FinalizeTable, m') \<and> im_table m' = [(301, [Some ''new''])]"
proof -
  obtain m where m: "merger_run demoMergeEnv demoMerges (newMerger demoMergeEnv, [])
      = Some (m, [MergeCheckSize True, MergeCheckSize True, HoldBegin Finalize])"
    "im_table m = [(300, [Some ''old'']), (301, [Some ''new''])]" "ja_invalidJobAttempts (im_ja m) = {300}"
    "ja_invalidJAWithRows (im_ja m) = {300}" "ja_concurrentMergeCount (im_ja m) = 0" "im_shape m = WithJobId"
    using demo_run_merges by blast
  obtain m' where h: "hold_begin (\<lambda>_. SqlOk) Finalize m = (FinalizeTable, m')"
    "ja_invalidJobAttempts (im_ja m') = {300}"
    using m by (auto simp: hold_begin_def hold_delete_def holdReturns_def deleteMaxSize_def deleteRows_def
        cleanupIJA_def Let_def)
  have r: "merger_reach demoMergeEnv (m, [MergeCheckSize True, MergeCheckSize True, HoldBegin Finalize])"
    by (rule merger_run_reach [OF merger_reach.start m(1)])
  have "pc_step demoMergeEnv (HoldBegin Finalize, m) (FinalizeTable, m')" using pc_step.hold h(1) by metis
  then have "im_table m' = filter (\<lambda>x. fst x \<notin> ja_invalidJobAttempts (im_ja m')) (im_table m)"
    using hold_leaves_only_valid_rows [OF demo_loads r, of 2 Finalize m'] by (simp add: holdReturns_def)
  then show ?thesis using m(1,2) h by auto
qed

theorem valid_rows_kept_witness:
  "\<exists>m m' new. merger_run demoMergeEnv demoMerges (newMerger demoMergeEnv, [])
      = Some (m, [MergeCheckSize True, MergeCheckSize True, HoldBegin Finalize])
    \<and> hold_begin (\<lambda>_. SqlFail 1) Finalize m = (FinalizeReturned False, m')
    \<and> filter (\<lambda>x. fst x \<noteq> 300) (im_table m') = [(301, [Some ''new''])] @ new"
proof -
  obtain m where m: "merger_run demoMergeEnv demoMerges (newMerger demoMergeEnv, [])
      = Some (m, [MergeCheckSize True, MergeCheckSize True, HoldBegin Finalize])"
    "im_table m = [(300, [Some ''old'']), (301, [Some ''new''])]" "ja_invalidJobAttempts (im_ja m) = {300}"
    "ja_invalidJAWithRows (im_ja m) = {300}" "ja_concurrentMergeCount (im_ja m) = 0" "im_shape m = WithJobId"
    using demo_run_merges by blast
  let ?ps = "[MergeCheckSize True, MergeCheckSize True, HoldBegin Finalize]"
  obtain m' where h: "hold_begin (\<lambda>_. SqlFail 1) Finalize m = (FinalizeReturned False, m')"
    "ja_invalidJobAttempts (im_ja m') = {300}"
    using m by (auto simp: hold_begin_def hold_delete_def holdReturns_def deleteMaxSize_def deleteRows_def
        cleanupIJA_def Let_def)
  have r: "merger_reach demoMergeEnv (m, ?ps)" by (rule merger_run_reach [OF merger_reach.start m(1)])
  have "pc_step demoMergeEnv (?ps ! 2, m) (FinalizeReturned False, m')" using pc_step.hold h(1) by simp metis
  then have "merger_step demoMergeEnv (m, ?ps) (m', ?ps[2 := FinalizeReturned False])"
    by (intro merger_step.thread) simp_all
  from valid_rows_kept [OF demo_loads r this] show ?thesis using m(1,2) h by (auto simp: less_Suc_eq numeral_3_eq_3)
qed

text \<open>
  The rows that a failing \<open>finalize\<close> loses: the CREATE TABLE of a query that aggregates fails, the merge table with the valid row is
  dropped all the same, and a repeated \<open>finalize\<close> cannot succeed.
\<close>

lemma failed_finalize_loses_rows:
  fixes m :: merger
  assumes "me_mergeStmt env = Some select" "finalize_table env False True m = (p, m')"
  shows "p = FinalizeReturned False \<and> im_table m' = [] \<and> im_target m' = im_target m
    \<and> fst (finalize_table env ok dropOk m') = FinalizeReturned False"
  using assms by (auto simp: finalize_table_def Let_def)

theorem merge_threads_not_stuck_witness:
  "\<exists>m. merger_run demoMergeEnv demoMerges (newMerger demoMergeEnv, [])
      = Some (m, [MergeCheckSize True, MergeCheckSize True, HoldBegin Finalize])
    \<and> (\<exists>i < 3. \<exists>q m'. pc_step demoMergeEnv
        ([MergeCheckSize True, MergeCheckSize True, HoldBegin Finalize] ! i, m) (q, m'))"
proof -
  obtain m where m: "merger_run demoMergeEnv demoMerges (newMerger demoMergeEnv, [])
      = Some (m, [MergeCheckSize True, MergeCheckSize True, HoldBegin Finalize])"
    using demo_run_merges by blast
  have "merger_reach demoMergeEnv (m, [MergeCheckSize True, MergeCheckSize True, HoldBegin Finalize])"
    by (rule merger_run_reach [OF merger_reach.start m])
  from merge_threads_not_stuck [OF demo_loads this, of "HoldBegin Finalize"]
  show ?thesis using m by (simp add: numeral_3_eq_3)
qed

end
