(* ===== verification/Result_Stream.thy ===== *)
theory Result_Stream
  imports Result_Merge
begin

text \<open>
  The protocol that carries result messages from a worker to the czar, on the side of the czar:
  \<open>proto/ProtoHeaderWrap\<close> (the frame around the header of a message) and \<open>ccontrol/MergingHandler\<close>
  (the state machine that takes the stream apart, checks each message and passes it to the merger).

  The encoding of a message by protocol buffers and the MD5 sum are parameters, with the law that parsing
  gives back what was encoded. The lemmas show that a framed stream of messages is taken apart into
  exactly these messages, and that nothing is merged whose checksum is wrong.
\<close>

section \<open>Frames\<close>

record protoHeader =
  ph_protocol :: nat
  ph_size :: int
  ph_md5 :: string
  ph_wname :: string
  ph_largeresult :: bool

text \<open>Protocol buffers and MD5.\<close>

record codec =
  serHeader :: "protoHeader \<Rightarrow> string"
  parseHeader :: "string \<Rightarrow> protoHeader option"
  serResult :: "result \<Rightarrow> string"
  parseResult :: "string \<Rightarrow> result option"
  md5 :: "string \<Rightarrow> string"

definition PROTO_HEADER_SIZE :: nat where "PROTO_HEADER_SIZE = 256"

text \<open>\<open>wrap\<close>: the length in one byte, the header, and padding up to the fixed size.\<close>

definition wrap :: "string \<Rightarrow> string" where
  "wrap protoHeaderString =
     (let msgBuf = char_of (length protoHeaderString) # protoHeaderString
      in msgBuf @ replicate (PROTO_HEADER_SIZE - length msgBuf) CHR ''0'')"

definition unwrap :: "codec \<Rightarrow> string \<Rightarrow> (nat \<times> protoHeader) option" where
  "unwrap c buffer =
     (case buffer of
        [] \<Rightarrow> None
      | b # rest \<Rightarrow> let headerSize = of_char b in map_option (Pair headerSize) (parseHeader c (take headerSize rest)))"

lemma length_wrap: "length hs \<le> 255 \<Longrightarrow> length (wrap hs) = PROTO_HEADER_SIZE"
  by (simp add: wrap_def PROTO_HEADER_SIZE_def)

lemma unwrap_wrap: "length hs \<le> 255 \<Longrightarrow> unwrap c (wrap hs) = map_option (Pair (length hs)) (parseHeader c hs)"
  by (simp add: unwrap_def wrap_def Let_def)

section \<open>The handler\<close>

datatype msgState =
  INVALID | HEADER_SIZE_WAIT | RESULT_WAIT | RESULT_EXTRA | RESULT_RECV | HEADER_ERR | RESULT_ERR

abbreviation MSG_RESULT_MD5 :: int where "MSG_RESULT_MD5 \<equiv> 1420"
abbreviation MSG_RESULT_DECODE :: int where "MSG_RESULT_DECODE \<equiv> 1430"
abbreviation MSG_RESULT_ERROR :: int where "MSG_RESULT_ERROR \<equiv> 1470"

record mergeBuffer =
  mb_buff :: string
  mb_targetSize :: int

definition setTargetSize :: "int \<Rightarrow> mergeBuffer \<Rightarrow> mergeBuffer" where
  "setTargetSize sz b = b\<lparr> mb_targetSize := sz \<rparr>"

definition zeroBuffer :: "mergeBuffer \<Rightarrow> mergeBuffer" where
  "zeroBuffer b = (setTargetSize 0 b)\<lparr> mb_buff := [] \<rparr>"

text \<open>\<open>None\<close> is the exception of \<open>vector::resize\<close> on a negative size, converted to a huge unsigned one.\<close>

definition resizeToTargetSize :: "mergeBuffer \<Rightarrow> mergeBuffer option" where
  "resizeToTargetSize b =
     (if mb_targetSize b < 0 then None
      else let n = nat (mb_targetSize b)
           in Some (b\<lparr> mb_buff := take n (mb_buff b) @ replicate (n - length (mb_buff b)) CHR 0x00 \<rparr>))"

text \<open>
  A handler, with the merger \<open>'m\<close> it feeds. \<open>wr_header\<close> and \<open>wr_result\<close> are the parts of \<open>_response\<close> that have
  been filled; \<open>mh_response\<close> is \<open>None\<close> for the null pointer that \<open>_merge\<close> leaves.
\<close>

record workerResponse =
  wr_headerSize :: nat
  wr_header :: "protoHeader option"
  wr_result :: "result option"

record 'm mergingHandler =
  mh_mBuf :: mergeBuffer
  mh_state :: msgState
  mh_response :: "workerResponse option"
  mh_error :: int
  mh_wName :: string
  mh_flushed :: bool
  mh_merger :: 'm

definition newResponse :: workerResponse where
  "newResponse = \<lparr> wr_headerSize = 0, wr_header = None, wr_result = None \<rparr>"

definition initState :: "'m mergingHandler \<Rightarrow> 'm mergingHandler" where
  "initState h = h\<lparr> mh_mBuf := setTargetSize (int PROTO_HEADER_SIZE) (mh_mBuf h), mh_state := HEADER_SIZE_WAIT,
     mh_error := 0 \<rparr>"

definition newHandler :: "'m \<Rightarrow> 'm mergingHandler" where
  "newHandler m = initState \<lparr> mh_mBuf = \<lparr> mb_buff = [], mb_targetSize = 0 \<rparr>, mh_state = INVALID,
     mh_response = Some newResponse, mh_error = 0, mh_wName = ''~'', mh_flushed = False, mh_merger = m \<rparr>"

definition nextBuffer :: "'m mergingHandler \<Rightarrow> (string \<times> 'm mergingHandler) option" where
  "nextBuffer h =
     map_option (\<lambda>b. (mb_buff b, h\<lparr> mh_mBuf := b \<rparr>)) (resizeToTargetSize (mh_mBuf h))"

definition nextBufferSize :: "'m mergingHandler \<Rightarrow> int" where
  "nextBufferSize h = mb_targetSize (mh_mBuf h)"

definition handlerReset :: "'m mergingHandler \<Rightarrow> bool \<times> 'm mergingHandler" where
  "handlerReset h = (if mh_flushed h then (False, h) else (True, initState h))"

definition errorFlush :: "int \<Rightarrow> 'm mergingHandler \<Rightarrow> 'm mergingHandler" where
  "errorFlush code h = h\<lparr> mh_error := code \<rparr>"

text \<open>
  What the handler uses: the codec, \<open>InfileMerger::merge\<close>, and whether the weak pointer to the job query is
  still valid.
\<close>

record 'm handlerEnv =
  he_codec :: codec
  he_merge :: "result \<Rightarrow> 'm \<Rightarrow> bool \<times> 'm"
  he_jobAlive :: bool

text \<open>
  Outcome of a call: \<open>Inl\<close> is a crash, by a null \<open>_response\<close> or the \<open>Bug\<close> of \<open>_merge\<close>.
\<close>

datatype handlerCrash = NullResponse | AlreadyFlushed

definition verifyResult :: "codec \<Rightarrow> protoHeader \<Rightarrow> 'm mergingHandler \<Rightarrow> bool \<times> 'm mergingHandler" where
  "verifyResult c ph h =
     (if ph_md5 ph \<noteq> md5 c (mb_buff (mh_mBuf h))
      then (False, h\<lparr> mh_error := MSG_RESULT_MD5, mh_state := RESULT_ERR \<rparr>) else (True, h))"

definition setResult :: "codec \<Rightarrow> workerResponse \<Rightarrow> 'm mergingHandler \<Rightarrow> result option \<times> 'm mergingHandler" where
  "setResult c w h =
     (case parseResult c (mb_buff (mh_mBuf h)) of
        None \<Rightarrow> (None, h\<lparr> mh_error := MSG_RESULT_DECODE, mh_state := RESULT_ERR \<rparr>)
      | Some r \<Rightarrow> (Some r, h\<lparr> mh_response := Some (w\<lparr> wr_result := Some r \<rparr>) \<rparr>))"

definition handlerMerge :: "'m handlerEnv \<Rightarrow> result \<Rightarrow> 'm mergingHandler \<Rightarrow> handlerCrash + (bool \<times> 'm mergingHandler)" where
  "handlerMerge env r h =
     (if he_jobAlive env
      then if mh_flushed h then Inl AlreadyFlushed
           else let (success, m) = he_merge env r (mh_merger h);
                    h = h\<lparr> mh_merger := m \<rparr>;
                    h = (if success then h else h\<lparr> mh_error := MSG_RESULT_ERROR, mh_state := RESULT_ERR \<rparr>)
                in Inr (success, h\<lparr> mh_response := None \<rparr>)
      else Inr (False, h))"

text \<open>The default values of an absent optional field, for a header that was never parsed.\<close>

definition defaultHeader :: protoHeader where
  "defaultHeader = \<lparr> ph_protocol = 0, ph_size = 0, ph_md5 = [], ph_wname = [], ph_largeresult = False \<rparr>"

definition headerOf :: "workerResponse \<Rightarrow> protoHeader" where
  "headerOf w = (case wr_header w of None \<Rightarrow> defaultHeader | Some ph \<Rightarrow> ph)"

text \<open>
  \<open>flush\<close>: the result, the values of \<open>last\<close> and \<open>largeResult\<close> afterwards, and the new state.
  The number of bytes received is only compared for a log message.
\<close>

text \<open>The two header states; they differ in that the first learns the name of the worker.\<close>

definition flushHeader :: "codec \<Rightarrow> bool \<Rightarrow> workerResponse \<Rightarrow> bool \<Rightarrow> bool \<Rightarrow> 'm mergingHandler
    \<Rightarrow> bool \<times> bool \<times> bool \<times> 'm mergingHandler" where
  "flushHeader c setName w isLast large h =
     (case unwrap c (mb_buff (mh_mBuf h)) of
        None \<Rightarrow> (False, isLast, large, h\<lparr> mh_error := MSG_RESULT_DECODE, mh_state := HEADER_ERR \<rparr>)
      | Some (n, ph) \<Rightarrow>
          let h = h\<lparr> mh_response := Some (w\<lparr> wr_headerSize := n, wr_header := Some ph \<rparr>) \<rparr>;
              h = (if setName \<and> mh_wName h = ''~'' then h\<lparr> mh_wName := ph_wname ph \<rparr> else h);
              h = h\<lparr> mh_mBuf := setTargetSize (ph_size ph) (zeroBuffer (mh_mBuf h)) \<rparr>
          in (True, isLast, ph_largeresult ph, h\<lparr> mh_state := RESULT_WAIT \<rparr>))"

definition flushResult :: "'m handlerEnv \<Rightarrow> workerResponse \<Rightarrow> bool \<Rightarrow> bool \<Rightarrow> 'm mergingHandler
    \<Rightarrow> handlerCrash + (bool \<times> bool \<times> bool \<times> 'm mergingHandler)" where
  "flushResult env w isLast large h =
     (case verifyResult (he_codec env) (headerOf w) h of
        (False, h) \<Rightarrow> Inr (False, isLast, large, h)
      | (True, h) \<Rightarrow>
          (case setResult (he_codec env) w h of
             (None, h) \<Rightarrow> Inr (False, isLast, large, h)
           | (Some r, h) \<Rightarrow>
               let h = h\<lparr> mh_mBuf := zeroBuffer (mh_mBuf h) \<rparr>;
                   msgContinues = rs_continues r;
                   h = (if msgContinues
                        then h\<lparr> mh_state := RESULT_EXTRA,
                                mh_mBuf := setTargetSize (int PROTO_HEADER_SIZE) (mh_mBuf h) \<rparr>
                        else h\<lparr> mh_state := RESULT_RECV \<rparr>);
                   isLast = (isLast \<or> \<not> msgContinues)
               in case handlerMerge env r h of
                    Inl e \<Rightarrow> Inl e
                  | Inr (success, h) \<Rightarrow>
                      Inr (success, isLast, rs_largeresult r,
                           if msgContinues then h\<lparr> mh_response := Some newResponse \<rparr> else h)))"

definition flush :: "'m handlerEnv \<Rightarrow> bool \<Rightarrow> bool \<Rightarrow> 'm mergingHandler
    \<Rightarrow> handlerCrash + (bool \<times> bool \<times> bool \<times> 'm mergingHandler)" where
  "flush env isLast large h =
     (case mh_state h of
        HEADER_SIZE_WAIT \<Rightarrow>
          (case mh_response h of
             None \<Rightarrow> Inl NullResponse
           | Some w \<Rightarrow> Inr (flushHeader (he_codec env) True w isLast large h))
      | RESULT_WAIT \<Rightarrow>
          (case mh_response h of
             None \<Rightarrow> Inl NullResponse
           | Some w \<Rightarrow> flushResult env w isLast large h)
      | RESULT_EXTRA \<Rightarrow>
          (case mh_response h of
             None \<Rightarrow> Inl NullResponse
           | Some w \<Rightarrow> Inr (flushHeader (he_codec env) False w isLast large h))
      | _ \<Rightarrow> Inr (False, isLast, large, h\<lparr> mh_error := MSG_RESULT_ERROR \<rparr>))"

section \<open>Receiving a stream\<close>

text \<open>
  The exchange driven by \<open>QueryRequest\<close>: the handler's buffer is filled with the next bytes of the stream and
  flushed, until an error or the end. \<open>fuel\<close> bounds the number of reads.
\<close>

datatype 'm received =
    Done "'m mergingHandler"
  | Failed "'m mergingHandler"
  | Crashed
  | Unfinished "'m mergingHandler" string

definition fillBuffer :: "string \<Rightarrow> string \<Rightarrow> string" where
  "fillBuffer buf bytes = take (length buf) bytes @ drop (length bytes) buf"

fun receive :: "'m handlerEnv \<Rightarrow> nat \<Rightarrow> 'm mergingHandler \<Rightarrow> string \<Rightarrow> 'm received" where
  "receive env 0 h bytes = Unfinished h bytes"
| "receive env (Suc n) h bytes =
     (case nextBuffer h of
        None \<Rightarrow> Crashed
      | Some (buf, h) \<Rightarrow>
          let h = h\<lparr> mh_mBuf := (mh_mBuf h)\<lparr> mb_buff := fillBuffer buf bytes \<rparr> \<rparr>
          in case flush env False False h of
               Inl e \<Rightarrow> Crashed
             | Inr (ok, isLast, large, h) \<Rightarrow>
                 if \<not> ok then Failed h
                 else if isLast then Done h
                 else receive env n h (drop (length buf) bytes))"

text \<open>The header that announces a message, and the bytes of both.\<close>

definition headerFor :: "codec \<Rightarrow> string \<Rightarrow> bool \<Rightarrow> string \<Rightarrow> protoHeader" where
  "headerFor c wname large msg =
     \<lparr> ph_protocol = 2, ph_size = int (length msg), ph_md5 = md5 c msg, ph_wname = wname, ph_largeresult = large \<rparr>"

definition messageBytes :: "codec \<Rightarrow> string \<Rightarrow> bool \<Rightarrow> result \<Rightarrow> string list" where
  "messageBytes c wname large r =
     (let resultString = serResult c r in [wrap (serHeader c (headerFor c wname large resultString)), resultString])"

text \<open>
  The laws of the encoding at one message: parsing undoes it, and the header is short enough for
  its length to fit in a byte, which \<open>_transmitHeader\<close> asserts.
\<close>

definition codecCarries :: "codec \<Rightarrow> string \<Rightarrow> bool \<times> result \<Rightarrow> bool" where
  "codecCarries c wname msg \<longleftrightarrow> (case msg of (large, r) \<Rightarrow>
     let ph = headerFor c wname large (serResult c r)
     in parseResult c (serResult c r) = Some r \<and> parseHeader c (serHeader c ph) = Some ph
        \<and> length (serHeader c ph) < 255)"

definition streamBytes :: "codec \<Rightarrow> string \<Rightarrow> (bool \<times> result) list \<Rightarrow> string" where
  "streamBytes c wname msgs = concat (map (\<lambda>(large, r). concat (messageBytes c wname large r)) msgs)"

text \<open>Merging messages one after the other; \<open>None\<close> when the merger refuses one.\<close>

fun mergeAll :: "(result \<Rightarrow> 'm \<Rightarrow> bool \<times> 'm) \<Rightarrow> result list \<Rightarrow> 'm \<Rightarrow> 'm option" where
  "mergeAll f [] m = Some m"
| "mergeAll f (r # rs) m = (case f r m of (ok, m') \<Rightarrow> if ok then mergeAll f rs m' else None)"

text \<open>All messages but the last say that the result continues.\<close>

fun continuesUntilLast :: "result list \<Rightarrow> bool" where
  "continuesUntilLast [] = False"
| "continuesUntilLast [r] = (\<not> rs_continues r)"
| "continuesUntilLast (r # rs) = (rs_continues r \<and> continuesUntilLast rs)"

section \<open>Correctness\<close>

lemma receive_read:
  assumes "nextBufferSize h = int (length b)"
  shows "receive env (Suc n) h (b @ rest) =
    (case flush env False False (h\<lparr> mh_mBuf := \<lparr> mb_buff = b, mb_targetSize = int (length b) \<rparr> \<rparr>) of
       Inl e \<Rightarrow> Crashed
     | Inr (ok, isLast, large, h) \<Rightarrow> if \<not> ok then Failed h else if isLast then Done h else receive env n h rest)"
proof -
  obtain buf where buf: "length buf = length b"
    "nextBuffer h = Some (buf, h\<lparr> mh_mBuf := \<lparr> mb_buff = buf, mb_targetSize = int (length b) \<rparr> \<rparr>)"
  proof
    show "length (take (length b) (mb_buff (mh_mBuf h))
        @ replicate (length b - length (mb_buff (mh_mBuf h))) CHR 0x00) = length b" by simp
    show "nextBuffer h = Some (take (length b) (mb_buff (mh_mBuf h))
        @ replicate (length b - length (mb_buff (mh_mBuf h))) CHR 0x00, h\<lparr> mh_mBuf :=
          \<lparr> mb_buff = take (length b) (mb_buff (mh_mBuf h))
              @ replicate (length b - length (mb_buff (mh_mBuf h))) CHR 0x00,
            mb_targetSize = int (length b) \<rparr> \<rparr>)"
      using assms by (cases "mh_mBuf h")
        (simp add: nextBuffer_def nextBufferSize_def resizeToTargetSize_def Let_def)
  qed
  have "fillBuffer buf (b @ rest) = b" using buf(1) by (simp add: fillBuffer_def)
  then show ?thesis using buf by (simp add: Let_def split: sum.split prod.split)
qed

text \<open>The handler waits for the header of a message.\<close>

definition awaitsHeader :: "'m mergingHandler \<Rightarrow> bool" where
  "awaitsHeader h \<longleftrightarrow> (mh_state h = HEADER_SIZE_WAIT \<or> mh_state h = RESULT_EXTRA) \<and> mh_response h \<noteq> None
     \<and> nextBufferSize h = int PROTO_HEADER_SIZE \<and> \<not> mh_flushed h"

lemma newHandler_awaits: "awaitsHeader (newHandler m)" "mh_merger (newHandler m) = m"
  by (simp_all add: awaitsHeader_def newHandler_def initState_def nextBufferSize_def setTargetSize_def)

lemma receive_header:
  assumes "parseHeader (he_codec env) (serHeader (he_codec env) ph) = Some ph"
    "length (serHeader (he_codec env) ph) < 255" "awaitsHeader h"
  obtains h' where "mh_state h' = RESULT_WAIT" "mh_merger h' = mh_merger h" "\<not> mh_flushed h'"
    "\<exists>w. mh_response h' = Some w \<and> headerOf w = ph" "nextBufferSize h' = ph_size ph"
    "\<And>n rest. receive env (Suc n) h (wrap (serHeader (he_codec env) ph) @ rest) = receive env n h' rest"
proof -
  let ?b = "wrap (serHeader (he_codec env) ph)"
  let ?h = "h\<lparr> mh_mBuf := \<lparr> mb_buff = ?b, mb_targetSize = int (length ?b) \<rparr> \<rparr>"
  have len: "length (serHeader (he_codec env) ph) \<le> 255" using assms(2) by simp
  have un: "unwrap (he_codec env) ?b = Some (length (serHeader (he_codec env) ph), ph)"
    using unwrap_wrap [OF len] assms(1) by simp
  have sz: "nextBufferSize h = int (length ?b)" using assms(3) length_wrap [OF len] by (simp add: awaitsHeader_def)
  obtain w where w: "mh_response h = Some w" using assms(3) by (auto simp: awaitsHeader_def)
  let ?r = "flushHeader (he_codec env) (mh_state h = HEADER_SIZE_WAIT) w False False ?h"
  have fl: "flush env False False ?h = Inr ?r" using assms(3) w by (auto simp: flush_def awaitsHeader_def)
  obtain h' where r: "?r = (True, False, ph_largeresult ph, h')" and h': "mh_state h' = RESULT_WAIT"
    "mh_merger h' = mh_merger h" "\<not> mh_flushed h'" "nextBufferSize h' = ph_size ph"
    "\<exists>w. mh_response h' = Some w \<and> headerOf w = ph"
    using un assms(3)
    by (auto simp: flushHeader_def Let_def awaitsHeader_def nextBufferSize_def setTargetSize_def zeroBuffer_def
        headerOf_def)
  show ?thesis
    using h' fl r by (intro that [of h']) (simp_all add: receive_read [OF sz] del: receive.simps)
qed

lemma receive_result:
  assumes "parseResult (he_codec env) (serResult (he_codec env) r) = Some r" "he_jobAlive env" "mh_state h = RESULT_WAIT" "\<not> mh_flushed h"
    "mh_response h = Some w" "ph_md5 (headerOf w) = md5 (he_codec env) (serResult (he_codec env) r)"
    "nextBufferSize h = int (length (serResult (he_codec env) r))" "he_merge env r (mh_merger h) = (True, m')"
  obtains h' where "mh_merger h' = m'" "rs_continues r \<Longrightarrow> awaitsHeader h'"
    "\<not> rs_continues r \<Longrightarrow> mh_state h' = RESULT_RECV \<and> nextBufferSize h' = 0"
    "\<And>n rest. receive env (Suc n) h (serResult (he_codec env) r @ rest)
      = (if rs_continues r then receive env n h' rest else Done h')"
proof -
  let ?b = "serResult (he_codec env) r"
  let ?h = "h\<lparr> mh_mBuf := \<lparr> mb_buff = ?b, mb_targetSize = int (length ?b) \<rparr> \<rparr>"
  have v: "verifyResult (he_codec env) (headerOf w) ?h = (True, ?h)" using assms(6) by (simp add: verifyResult_def)
  have "\<exists>h'. flush env False False ?h = Inr (True, \<not> rs_continues r, rs_largeresult r, h') \<and> mh_merger h' = m'
    \<and> (if rs_continues r then awaitsHeader h' else mh_state h' = RESULT_RECV \<and> nextBufferSize h' = 0)"
    using assms(1-5,8) v
    by (cases "rs_continues r") (simp_all add: flush_def flushResult_def setResult_def handlerMerge_def Let_def
        awaitsHeader_def nextBufferSize_def setTargetSize_def zeroBuffer_def)
  then obtain h' where r: "flush env False False ?h = Inr (True, \<not> rs_continues r, rs_largeresult r, h')"
    and h': "mh_merger h' = m'" "rs_continues r \<Longrightarrow> awaitsHeader h'"
    "\<not> rs_continues r \<Longrightarrow> mh_state h' = RESULT_RECV \<and> nextBufferSize h' = 0"
    by auto
  show ?thesis using r h' by (intro that [of h']) (simp_all add: receive_read [OF assms(7)] del: receive.simps)
qed

lemma receive_message:
  assumes "codecCarries (he_codec env) wname (large, r)" "he_jobAlive env" "awaitsHeader h" "he_merge env r (mh_merger h) = (True, m')"
  obtains h' where "mh_merger h' = m'" "rs_continues r \<Longrightarrow> awaitsHeader h'"
    "\<not> rs_continues r \<Longrightarrow> mh_state h' = RESULT_RECV \<and> nextBufferSize h' = 0"
    "\<And>n rest. receive env (Suc (Suc n)) h (concat (messageBytes (he_codec env) wname large r) @ rest)
      = (if rs_continues r then receive env n h' rest else Done h')"
proof -
  let ?s = "serResult (he_codec env) r"
  let ?ph = "headerFor (he_codec env) wname large ?s"
  have c: "parseHeader (he_codec env) (serHeader (he_codec env) ?ph) = Some ?ph"
    "length (serHeader (he_codec env) ?ph) < 255" "parseResult (he_codec env) ?s = Some r"
    using assms(1) by (simp_all add: codecCarries_def Let_def)
  obtain h1 w where h1: "mh_state h1 = RESULT_WAIT" "mh_merger h1 = mh_merger h" "\<not> mh_flushed h1"
    "mh_response h1 = Some w" "headerOf w = ?ph" "nextBufferSize h1 = ph_size ?ph"
    "\<And>n rest. receive env (Suc n) h (wrap (serHeader (he_codec env) ?ph) @ rest) = receive env n h1 rest"
    using receive_header [OF c(1,2) assms(3)] by metis
  obtain h' where h': "mh_merger h' = m'" "rs_continues r \<Longrightarrow> awaitsHeader h'"
    "\<not> rs_continues r \<Longrightarrow> mh_state h' = RESULT_RECV \<and> nextBufferSize h' = 0"
    "\<And>n rest. receive env (Suc n) h1 (?s @ rest) = (if rs_continues r then receive env n h' rest else Done h')"
    using receive_result [OF c(3) assms(2) h1(1,3,4), of m'] h1(2,5,6) assms(4) by (auto simp: headerFor_def)
  show ?thesis
  proof (rule that [OF h'(1-3)])
    fix n rest
    have "concat (messageBytes (he_codec env) wname large r) @ rest
      = wrap (serHeader (he_codec env) ?ph) @ ?s @ rest" by (simp add: messageBytes_def Let_def)
    then show "receive env (Suc (Suc n)) h (concat (messageBytes (he_codec env) wname large r) @ rest)
      = (if rs_continues r then receive env n h' rest else Done h')"
      using h1(7) [of "Suc n"] h'(4) [of n] by (simp only:)
  qed
qed

lemma receive_stream:
  assumes "\<forall>msg \<in> set msgs. codecCarries (he_codec env) wname msg" "he_jobAlive env" "awaitsHeader h"
    "continuesUntilLast (map snd msgs)"
    "mergeAll (he_merge env) (map snd msgs) (mh_merger h) = Some m'"
  shows "\<exists>h'. receive env (2 * length msgs) h (streamBytes (he_codec env) wname msgs @ rest) = Done h'
    \<and> mh_merger h' = m' \<and> mh_state h' = RESULT_RECV \<and> nextBufferSize h' = 0"
  using assms(1,3-5)
proof (induction msgs arbitrary: h)
  case (Cons msg msgs)
  obtain large r where msg: "msg = (large, r)" by fastforce
  obtain m1 where m1: "he_merge env r (mh_merger h) = (True, m1)"
    "mergeAll (he_merge env) (map snd msgs) m1 = Some m'"
    using Cons.prems(4) msg by (auto split: prod.splits if_splits)
  have carries: "codecCarries (he_codec env) wname (large, r)" using Cons.prems(1) msg by simp
  obtain h1 where h1: "mh_merger h1 = m1" "rs_continues r \<Longrightarrow> awaitsHeader h1"
    "\<not> rs_continues r \<Longrightarrow> mh_state h1 = RESULT_RECV \<and> nextBufferSize h1 = 0"
    "\<And>n rest. receive env (Suc (Suc n)) h (concat (messageBytes (he_codec env) wname large r) @ rest)
      = (if rs_continues r then receive env n h1 rest else Done h1)"
    using receive_message [OF carries assms(2) Cons.prems(2) m1(1)] by metis
  have run: "receive env (2 * length (msg # msgs)) h (streamBytes (he_codec env) wname (msg # msgs) @ rest)
    = (if rs_continues r then receive env (2 * length msgs) h1 (streamBytes (he_codec env) wname msgs @ rest)
       else Done h1)"
    using h1(4) [of "2 * length msgs"] by (simp add: streamBytes_def msg del: receive.simps)
  show ?case
  proof (cases msgs)
    case Nil
    then show ?thesis using run h1 m1 Cons.prems(3) msg by simp
  next
    case (Cons m2 ms)
    then have "rs_continues r" "continuesUntilLast (map snd msgs)" using Cons.prems(3) msg by simp_all
    then show ?thesis using run h1 m1(2) Cons.IH [of h1] Cons.prems(1) by simp
  qed
qed simp

section \<open>Properties\<close>

text \<open>
  The frame of a header has 256 bytes, whatever the header, and taking it apart gives the header back with its
  length, for all headers of up to 255 bytes, although the padding cannot be told from the text.
\<close>

theorem header_round_trip:
  assumes "length hs \<le> 255"
  shows "length (wrap hs) = PROTO_HEADER_SIZE \<and> unwrap c (wrap hs) = map_option (Pair (length hs)) (parseHeader c hs)"
  using length_wrap [OF assms] unwrap_wrap [OF assms] by simp

text \<open>
  A small encoding, for the examples, of messages whose rows have one column of one character. Rows \<open>x\<close> are
  long, others have size one.
\<close>

definition demoSize :: "row \<Rightarrow> nat" where
  "demoSize row = (if row = [Some ''x''] then 3000000 else 1)"

definition demoMsg :: "bool \<Rightarrow> bool \<Rightarrow> row list \<Rightarrow> result" where
  "demoMsg continues large rows = \<lparr> rs_jobid = 3, rs_attemptcount = 0, rs_continues = continues,
     rs_largeresult = large, rs_rowcount = length rows, rs_transmitsize = sum_list (map demoSize rows),
     rs_errorcode = None, rs_errormsg = None, rs_row = rows \<rparr>"

fun demoParseHeader :: "string \<Rightarrow> protoHeader option" where
  "demoParseHeader (a # b # s) = Some \<lparr> ph_protocol = 2, ph_size = int (string_to_nat (takeWhile (\<lambda>c. c \<noteq> CHR ''/'') s)),
     ph_md5 = [b], ph_wname = tl (dropWhile (\<lambda>c. c \<noteq> CHR ''/'') s), ph_largeresult = (a = CHR ''L'') \<rparr>"
| "demoParseHeader _ = None"

fun demoParseResult :: "string \<Rightarrow> result option" where
  "demoParseResult (a # b # s) = Some (demoMsg (a = CHR ''+'') (b = CHR ''L'') (map (\<lambda>c. [Some [c]]) s))"
| "demoParseResult _ = None"

definition rowChar :: "row \<Rightarrow> char" where
  "rowChar row = (case row of [Some [c]] \<Rightarrow> c | _ \<Rightarrow> CHR ''?'')"

definition demoCodec :: codec where
  "demoCodec = \<lparr>
     serHeader = (\<lambda>ph. (if ph_largeresult ph then CHR ''L'' else CHR ''S'') # List.hd (ph_md5 ph)
       # nat_to_string (nat (ph_size ph)) @ CHR ''/'' # ph_wname ph),
     parseHeader = demoParseHeader,
     serResult = (\<lambda>r. (if rs_continues r then CHR ''+'' else CHR ''.'')
       # (if rs_largeresult r then CHR ''L'' else CHR ''S'') # map rowChar (rs_row r)),
     parseResult = demoParseResult,
     md5 = (\<lambda>s. [List.hd s]) \<rparr>"

theorem header_round_trip_witness:
  "unwrap demoCodec (wrap ''L+/worker0'') =
     Some (10, \<lparr> ph_protocol = 2, ph_size = 0, ph_md5 = ''+'', ph_wname = ''worker0'', ph_largeresult = True \<rparr>)"
  using header_round_trip [of "''L+/worker0''" demoCodec] by (simp add: demoCodec_def string_to_nat_def)

text \<open>
  C28. Only verified messages are merged: when \<open>flush\<close> passes anything to the merger, the handler was waiting for a
  message, the buffer has the checksum that the header announced, it parses, and exactly the parsed message is passed,
  once; the result of \<open>flush\<close> is then that of the merge, and the last message is recognized by its flag.
\<close>

theorem only_verified_messages_merged:
  assumes "flush env isLast large h = Inr (ok, isLast', large', h')" "mh_merger h' \<noteq> mh_merger h"
  shows "mh_state h = RESULT_WAIT \<and> (\<exists>w r. mh_response h = Some w
    \<and> ph_md5 (headerOf w) = md5 (he_codec env) (mb_buff (mh_mBuf h))
    \<and> parseResult (he_codec env) (mb_buff (mh_mBuf h)) = Some r
    \<and> he_merge env r (mh_merger h) = (ok, mh_merger h') \<and> isLast' = (isLast \<or> \<not> rs_continues r))"
proof -
  have header: "mh_merger g = mh_merger h"
    if "flushHeader c b w isLast large h = (ok, isLast', large', g)" for c b w g
    using that by (auto simp: flushHeader_def Let_def split: option.splits prod.splits if_splits)
  have st: "mh_state h = RESULT_WAIT"
    using assms header by (auto simp: flush_def split: msgState.splits option.splits)
  then obtain w where w: "mh_response h = Some w" "flushResult env w isLast large h = Inr (ok, isLast', large', h')"
    using assms(1) by (auto simp: flush_def split: option.splits)
  have v: "ph_md5 (headerOf w) = md5 (he_codec env) (mb_buff (mh_mBuf h))"
    using w(2) assms(2) by (auto simp: flushResult_def verifyResult_def split: if_splits)
  then obtain r where r: "parseResult (he_codec env) (mb_buff (mh_mBuf h)) = Some r"
    using w(2) assms(2) by (cases "parseResult (he_codec env) (mb_buff (mh_mBuf h))")
      (auto simp: flushResult_def verifyResult_def setResult_def)
  obtain ok2 m2 where m: "he_merge env r (mh_merger h) = (ok2, m2)" by fastforce
  have "he_merge env r (mh_merger h) = (ok, mh_merger h') \<and> isLast' = (isLast \<or> \<not> rs_continues r)"
    using w(2) v r m assms(2)
    by (cases "rs_continues r"; cases "he_jobAlive env"; cases "mh_flushed h"; cases ok2)
      (auto simp: flushResult_def verifyResult_def setResult_def handlerMerge_def Let_def)
  then show ?thesis using st w(1) v r by blast
qed

definition demoHandlerEnv :: "result list handlerEnv" where
  "demoHandlerEnv = \<lparr> he_codec = demoCodec, he_merge = (\<lambda>r ms. (True, ms @ [r])), he_jobAlive = True \<rparr>"

definition demoHandler :: "result list mergingHandler" where
  "demoHandler = (newHandler [])\<lparr> mh_state := RESULT_WAIT, mh_mBuf := \<lparr> mb_buff = ''.Sx'', mb_targetSize = 3 \<rparr>,
     mh_response := Some \<lparr> wr_headerSize = 3, wr_header = Some (headerFor demoCodec ''w'' False ''.Sx''),
       wr_result = None \<rparr> \<rparr>"

theorem only_verified_messages_merged_witness:
  "\<exists>h' w r. flush demoHandlerEnv False False demoHandler = Inr (True, True, False, h')
    \<and> mh_response demoHandler = Some w \<and> ph_md5 (headerOf w) = ''.''
    \<and> parseResult demoCodec ''.Sx'' = Some r \<and> mh_merger h' = [r]"
proof -
  let ?r = "flush demoHandlerEnv False False demoHandler"
  obtain h' where h': "?r = Inr (True, True, False, h')" "mh_merger h' = [demoMsg False False [[Some ''x'']]]"
    by (simp add: flush_def demoHandler_def newHandler_def initState_def flushResult_def verifyResult_def headerOf_def
        headerFor_def demoHandlerEnv_def demoCodec_def setResult_def demoMsg_def handlerMerge_def zeroBuffer_def
        setTargetSize_def Let_def)
  have "mh_merger demoHandler = []" "mb_buff (mh_mBuf demoHandler) = ''.Sx''"
    "he_codec demoHandlerEnv = demoCodec" "md5 demoCodec ''.Sx'' = ''.''"
    by (simp_all add: demoHandler_def newHandler_def initState_def demoHandlerEnv_def demoCodec_def)
  moreover from this have "mh_merger h' \<noteq> mh_merger demoHandler" using h' by simp
  ultimately show ?thesis
    using only_verified_messages_merged [OF h'(1)] h' by (auto simp: demoHandlerEnv_def)
qed

text \<open>
  A stream that the transport ends too early is not noticed: for a message that says that more follow, \<open>flush\<close>
  returns true and keeps \<open>last\<close> set, with a next header expected, and \<open>QueryRequest\<close> then completes the job.
\<close>

lemma early_end_accepted:
  "\<exists>h'. flush demoHandlerEnv True False (demoHandler\<lparr> mh_mBuf := \<lparr> mb_buff = ''+Sx'', mb_targetSize = 3 \<rparr>,
      mh_response := Some \<lparr> wr_headerSize = 3, wr_header = Some (headerFor demoCodec ''w'' False ''+Sx''),
        wr_result = None \<rparr> \<rparr>)
      = Inr (True, True, False, h')
    \<and> mh_state h' = RESULT_EXTRA \<and> nextBufferSize h' = int PROTO_HEADER_SIZE"
  by (simp add: flush_def demoHandler_def newHandler_def initState_def flushResult_def verifyResult_def headerOf_def
      headerFor_def demoHandlerEnv_def demoCodec_def setResult_def demoMsg_def handlerMerge_def zeroBuffer_def
      setTargetSize_def nextBufferSize_def Let_def)

text \<open>
  Nor does a handler ever refuse to start over: \<open>_flushed\<close> is never set, so that \<open>reset\<close> succeeds also after messages
  have been merged.
\<close>

lemma flush_never_flushed:
  "flush env isLast large h = Inr (ok, isLast', large', h') \<Longrightarrow> mh_flushed h' = mh_flushed h"
  by (auto simp: flush_def flushHeader_def flushResult_def verifyResult_def setResult_def handlerMerge_def Let_def
      split: msgState.splits option.splits prod.splits if_splits sum.splits bool.splits)

end
