(* ===== verification/Query_Runner.thy ===== *)
theory Query_Runner
  imports Result_Stream
begin

text \<open>
  How a worker runs the queries of a task and sends the rows to the czar: \<open>wdb/QueryRunner\<close>
  (\<open>runQuery\<close>, \<open>_dispatchChannel\<close>, \<open>_fillRows\<close>, \<open>_transmit\<close>, \<open>_transmitHeader\<close>).

  The database, the chunk resources, the substitution of the subchunk tag and the sizes that protocol
  buffers report are parameters. \<open>_cancelled\<close> can be set by another thread at any time: \<open>re_cancelledAt k\<close> is the
  value that the read number \<open>k\<close> sees. \<open>qn_sent\<close> has what is passed to \<open>SendChannel::sendStream\<close>, whose result the
  code only logs. The schema that travels with the rows is not modelled.

  The lemmas show that a task that is not cancelled sends the rows of all its queries, in order, in messages
  of bounded size of which only the last is marked so, and that the czar's handler merges exactly these messages.
\<close>

section \<open>The task\<close>

record fragment =
  fr_query :: "string list"
  fr_subchunks :: "int list option"

text \<open>
  What MySQL answers to a query: it refuses it, or it has a number of columns and the rows that \<open>mysql_fetch_row\<close>
  delivers one by one, and then the error, if any, because of which no more rows came. The code reads the null
  pointer after the last row as the end of the result and never asks for that error.
\<close>

datatype ('e, 'a) dbAnswer = DbError 'e | DbRows nat 'a "'e option"

type_synonym util_error = "int \<times> string"

record runnerEnv =
  re_codec :: codec
  re_hostname :: string
  re_jobId :: int
  re_attemptCount :: int
  re_chunkId :: int
  re_protocol :: "nat option"
  re_fragments :: "fragment list"
  re_subst :: "string \<Rightarrow> int \<Rightarrow> string"
  re_connect :: "util_error option"
  re_acquire :: "nat \<Rightarrow> util_error option"
  re_runSql :: "string \<Rightarrow> (util_error, row list) dbAnswer"
  re_byteSize :: "row \<Rightarrow> nat"
  re_cancelledAt :: "nat \<Rightarrow> bool"

record queryRunner =
  qn_result :: result
  qn_largeResult :: bool
  qn_multiError :: "util_error list"
  qn_reads :: nat
  qn_sent :: "(string \<times> bool) list"
  qn_leftPool :: bool
  qn_ran :: "string list"

definition PROTOBUFFER_DESIRED_LIMIT :: nat where "PROTOBUFFER_DESIRED_LIMIT = 2000000"
definition PROTOBUFFER_HARD_LIMIT :: nat where "PROTOBUFFER_HARD_LIMIT = 64000000"

text \<open>\<open>_initMsg\<close>: an empty message; the fields that \<open>_transmit\<close> sets have their defaults.\<close>

definition emptyResult :: result where
  "emptyResult = \<lparr> rs_jobid = 0, rs_attemptcount = 0, rs_continues = False, rs_largeresult = False, rs_rowcount = 0,
     rs_transmitsize = 0, rs_errorcode = None, rs_errormsg = None, rs_row = [] \<rparr>"

definition initMsg :: "queryRunner \<Rightarrow> queryRunner" where
  "initMsg q = q\<lparr> qn_result := emptyResult \<rparr>"

definition newQueryRunner :: queryRunner where
  "newQueryRunner = \<lparr> qn_result = emptyResult, qn_largeResult = False, qn_multiError = [], qn_reads = 0,
     qn_sent = [], qn_leftPool = False, qn_ran = [] \<rparr>"

definition readCancelled :: "runnerEnv \<Rightarrow> queryRunner \<Rightarrow> bool \<times> queryRunner" where
  "readCancelled env q = (re_cancelledAt env (qn_reads q), q\<lparr> qn_reads := qn_reads q + 1 \<rparr>)"

section \<open>Sending\<close>

definition printError :: "util_error \<Rightarrow> string" where
  "printError e = ''['' @ int_to_string (fst e) @ ''] '' @ snd e"

fun toOneLineString :: "util_error list \<Rightarrow> string" where
  "toOneLineString [] = []"
| "toOneLineString [e] = printError e"
| "toOneLineString (e # es) = printError e @ '', '' @ toOneLineString es"

definition transmitHeader :: "runnerEnv \<Rightarrow> string \<Rightarrow> queryRunner \<Rightarrow> queryRunner" where
  "transmitHeader env msg q =
     (let protoHeaderString =
            serHeader (re_codec env) (headerFor (re_codec env) (re_hostname env) (qn_largeResult q) msg);
          (cancelled, q) = readCancelled env q
      in if cancelled then q else q\<lparr> qn_sent := qn_sent q @ [(wrap protoHeaderString, False)] \<rparr>)"

text \<open>The message that \<open>_transmit\<close> completes.\<close>

definition finishResult :: "runnerEnv \<Rightarrow> bool \<Rightarrow> nat \<Rightarrow> nat \<Rightarrow> queryRunner \<Rightarrow> result" where
  "finishResult env isLast rowCount tSize q =
     (let r = (qn_result q)\<lparr> rs_jobid := re_jobId env, rs_continues := \<not> isLast, rs_largeresult := qn_largeResult q,
            rs_rowcount := rowCount, rs_transmitsize := tSize, rs_attemptcount := re_attemptCount env \<rparr>
      in if qn_multiError q = [] then r
         else r\<lparr> rs_errormsg := Some (''Error(s) in result for chunk #'' @ int_to_string (re_chunkId env) @ '': ''
                @ toOneLineString (qn_multiError q)) \<rparr>)"

definition transmit :: "runnerEnv \<Rightarrow> bool \<Rightarrow> nat \<Rightarrow> nat \<Rightarrow> queryRunner \<Rightarrow> queryRunner" where
  "transmit env isLast rowCount tSize q =
     (let resultString = serResult (re_codec env) (finishResult env isLast rowCount tSize q);
          q = transmitHeader env resultString q;
          (cancelled, q) = readCancelled env q;
          q = (if cancelled then q else q\<lparr> qn_sent := qn_sent q @ [(resultString, isLast)] \<rparr>)
      in q\<lparr> qn_largeResult := True \<rparr>)"

text \<open>
  \<open>_fillRows\<close> on the rows that MySQL returns: a false result, and the counters and state it leaves. \<open>numFields\<close> is
  that of the first query of the task.
\<close>

definition fillRow :: "runnerEnv \<Rightarrow> row \<Rightarrow> nat \<times> nat \<times> queryRunner \<Rightarrow> nat \<times> nat \<times> queryRunner" where
  "fillRow env rawRow s = (case s of (rowCount, tSize, q) \<Rightarrow>
     (rowCount + 1, tSize + re_byteSize env rawRow,
      q\<lparr> qn_result := (qn_result q)\<lparr> rs_row := rs_row (qn_result q) @ [rawRow] \<rparr> \<rparr>))"

fun fillRows :: "runnerEnv \<Rightarrow> nat \<Rightarrow> row list \<Rightarrow> nat \<times> nat \<times> queryRunner \<Rightarrow> bool \<times> nat \<times> nat \<times> queryRunner" where
  "fillRows env numFields [] s = (True, s)"
| "fillRows env numFields (row # rows) s =
     (let (rowCount, tSize, q) = fillRow env (take numFields row) s;
          szLimit = min PROTOBUFFER_DESIRED_LIMIT PROTOBUFFER_HARD_LIMIT
      in if szLimit < tSize
         then if PROTOBUFFER_HARD_LIMIT < tSize then (False, rowCount, tSize, q)
              else fillRows env numFields rows
                     (0, 0, (initMsg (transmit env False rowCount tSize q))\<lparr> qn_leftPool := True \<rparr>)
         else fillRows env numFields rows (rowCount, tSize, q))"

section \<open>Running\<close>

definition fragmentQueries :: "runnerEnv \<Rightarrow> fragment \<Rightarrow> string list" where
  "fragmentQueries env f =
     concat (map (\<lambda>queryStr.
       case fr_subchunks f of
         Some ids \<Rightarrow> if ids \<noteq> [] then map (re_subst env queryStr) ids else [queryStr]
       | None \<Rightarrow> [queryStr]) (fr_query f))"

text \<open>
  The locals of \<open>_dispatchChannel\<close>: \<open>erred\<close>, \<open>numFields\<close> (\<open>None\<close> before the first result), the counters, and the
  runner itself.
\<close>

record dispatchState =
  ds_erred :: bool
  ds_numFields :: "nat option"
  ds_rowCount :: nat
  ds_tSize :: nat
  ds_runner :: queryRunner

definition addError :: "util_error \<Rightarrow> dispatchState \<Rightarrow> dispatchState" where
  "addError e d = d\<lparr> ds_runner := (ds_runner d)\<lparr> qn_multiError := qn_multiError (ds_runner d) @ [e] \<rparr> \<rparr>"

text \<open>One query: \<open>_primeResult\<close> passes it to MySQL, which \<open>qn_ran\<close> records, and its rows are fetched.\<close>

definition runFragmentQuery :: "runnerEnv \<Rightarrow> string \<Rightarrow> dispatchState \<Rightarrow> dispatchState" where
  "runFragmentQuery env query d =
     (let d = d\<lparr> ds_runner := (ds_runner d)\<lparr> qn_ran := qn_ran (ds_runner d) @ [query] \<rparr> \<rparr>
      in case re_runSql env query of
        DbError e \<Rightarrow> (addError e d)\<lparr> ds_erred := True \<rparr>
      | DbRows nf rows fetchErrno \<Rightarrow>
          let numFields = (case ds_numFields d of None \<Rightarrow> nf | Some n \<Rightarrow> n);
              (ok, rowCount, tSize, q) = fillRows env numFields rows (ds_rowCount d, ds_tSize d, ds_runner d)
          in d\<lparr> ds_erred := (ds_erred d \<or> \<not> ok), ds_numFields := Some numFields, ds_rowCount := rowCount,
                ds_tSize := tSize, ds_runner := q \<rparr>)"

text \<open>The loop over the fragments; an error of \<open>acquire\<close> is thrown out of it and caught behind it.\<close>

fun runFragments :: "runnerEnv \<Rightarrow> nat \<Rightarrow> fragment list \<Rightarrow> dispatchState \<Rightarrow> dispatchState" where
  "runFragments env i [] d = d"
| "runFragments env i (f # fs) d =
     (let (cancelled, q) = readCancelled env (ds_runner d); d = d\<lparr> ds_runner := q \<rparr>
      in if cancelled then d
         else case re_acquire env i of
                Some e \<Rightarrow> addError e d
              | None \<Rightarrow> runFragments env (Suc i) fs (fold (runFragmentQuery env) (fragmentQueries env f) d))"

definition POISONED :: util_error where "POISONED = (- 1, ''Poisoned.'')"

datatype runnerError = NoFragments | UnsupportedProtocol

definition dispatchChannel :: "runnerEnv \<Rightarrow> queryRunner \<Rightarrow> runnerError + (bool \<times> queryRunner)" where
  "dispatchChannel env q =
     (if re_fragments env = [] then Inl NoFragments
      else let d = runFragments env 0 (re_fragments env)
                 \<lparr> ds_erred = False, ds_numFields = None, ds_rowCount = 0, ds_tSize = 0, ds_runner = initMsg q \<rparr>;
               (cancelled, q) = readCancelled env (ds_runner d); d = d\<lparr> ds_runner := q \<rparr>
           in if cancelled then Inr (False, ds_runner (addError POISONED d))
              else Inr (\<not> ds_erred d, transmit env True (ds_rowCount d) (ds_tSize d) (ds_runner d)))"

text \<open>
  \<open>runQuery\<close>; \<open>c1\<close> and \<open>c2\<close> are the two answers of \<open>Task::getCancelled\<close>, before and after the wait for memory.
\<close>

definition runQuery :: "runnerEnv \<Rightarrow> bool \<Rightarrow> bool \<Rightarrow> queryRunner \<Rightarrow> runnerError + (bool \<times> queryRunner)" where
  "runQuery env c1 c2 q =
     (if c1 then Inr (False, q)
      else if c2 then Inr (False, q)
      else case re_connect env of
             Some e \<Rightarrow> Inr (False, transmit env True 0 0 (initMsg (q\<lparr> qn_multiError := qn_multiError q @ [e] \<rparr>)))
           | None \<Rightarrow>
               (case re_protocol env of
                  Some p \<Rightarrow> if p = 2 then dispatchChannel env q else Inl UnsupportedProtocol
                | None \<Rightarrow> Inl UnsupportedProtocol))"

section \<open>What is sent\<close>

definition neverCancelled :: "runnerEnv \<Rightarrow> bool" where
  "neverCancelled env \<longleftrightarrow> (\<forall>k. \<not> re_cancelledAt env k)"

definition rowsSize :: "runnerEnv \<Rightarrow> row list \<Rightarrow> nat" where
  "rowsSize env rows = sum_list (map (re_byteSize env) rows)"

text \<open>A message of the task: labelled with the attempt, without error, and within the limit.\<close>

definition goodMessage :: "runnerEnv \<Rightarrow> result \<Rightarrow> bool" where
  "goodMessage env r \<longleftrightarrow> rs_jobid r = re_jobId env \<and> rs_attemptcount r = re_attemptCount env
     \<and> rs_errorcode r = None \<and> rs_errormsg r = None \<and> rs_rowcount r = length (rs_row r)
     \<and> rs_transmitsize r = rowsSize env (rs_row r) \<and> rs_transmitsize r \<le> PROTOBUFFER_HARD_LIMIT"

abbreviation msgRows :: "(bool \<times> result) list \<Rightarrow> row list" where
  "msgRows msgs \<equiv> concat (map (\<lambda>msg. rs_row (snd msg)) msgs)"

text \<open>
  Between rows: the messages \<open>msgs\<close> have been sent, all of them to be continued, and the counters are those of the rows
  collected since.
\<close>

definition sending :: "runnerEnv \<Rightarrow> (bool \<times> result) list \<Rightarrow> nat \<Rightarrow> nat \<Rightarrow> queryRunner \<Rightarrow> bool" where
  "sending env msgs rowCount tSize q \<longleftrightarrow>
     concat (map fst (qn_sent q)) = streamBytes (re_codec env) (re_hostname env) msgs
     \<and> map snd (qn_sent q) = replicate (2 * length msgs) False
     \<and> (\<forall>msg \<in> set msgs. goodMessage env (snd msg) \<and> rs_continues (snd msg))
     \<and> qn_result q = emptyResult\<lparr> rs_row := rs_row (qn_result q) \<rparr> \<and> qn_multiError q = []
     \<and> rowCount = length (rs_row (qn_result q)) \<and> tSize = rowsSize env (rs_row (qn_result q))
     \<and> tSize \<le> PROTOBUFFER_DESIRED_LIMIT"

lemma transmit_uncancelled:
  assumes "neverCancelled env"
  shows "transmit env isLast rowCount tSize q =
    q\<lparr> qn_reads := qn_reads q + 2, qn_largeResult := True,
       qn_sent := qn_sent q
         @ map2 Pair (messageBytes (re_codec env) (re_hostname env) (qn_largeResult q)
             (finishResult env isLast rowCount tSize q)) [False, isLast] \<rparr>"
  using assms
  by (cases q) (simp add: transmit_def transmitHeader_def readCancelled_def neverCancelled_def messageBytes_def Let_def)

lemma streamBytes_snoc:
  "streamBytes c w (msgs @ [(large, r)]) = streamBytes c w msgs @ concat (messageBytes c w large r)"
  by (simp add: streamBytes_def)

lemma concat_map2_fst: "length xs = length ys \<Longrightarrow> concat (map fst (map2 Pair xs ys)) = concat xs"
  by (induction xs ys rule: list_induct2) auto

lemma length_messageBytes: "length (messageBytes c w large r) = 2"
  by (simp add: messageBytes_def Let_def)

lemma finishResult_good:
  assumes "qn_result q = emptyResult\<lparr> rs_row := rows \<rparr>" "qn_multiError q = []" "rowCount = length rows"
    "tSize = rowsSize env rows" "tSize \<le> PROTOBUFFER_HARD_LIMIT"
  shows "goodMessage env (finishResult env isLast rowCount tSize q)"
    and "rs_continues (finishResult env isLast rowCount tSize q) = (\<not> isLast)"
    and "rs_row (finishResult env isLast rowCount tSize q) = rows"
  using assms by (simp_all add: finishResult_def goodMessage_def emptyResult_def Let_def)

text \<open>Sending one message off, in the middle or at the end.\<close>

lemma sending_transmit:
  fixes isLast :: bool
  assumes "neverCancelled env" "sending env msgs 0 0 (q\<lparr> qn_result := emptyResult \<rparr>)"
    "qn_result q = emptyResult\<lparr> rs_row := rows \<rparr>" "rowsSize env rows \<le> PROTOBUFFER_HARD_LIMIT"
    and r_def: "r = finishResult env isLast (length rows) (rowsSize env rows) q"
  shows "concat (map fst (qn_sent (transmit env isLast (length rows) (rowsSize env rows) q)))
      = streamBytes (re_codec env) (re_hostname env) (msgs @ [(qn_largeResult q, r)])"
    and "goodMessage env r" "rs_continues r = (\<not> isLast)" "rs_row r = rows"
    and "\<not> isLast \<Longrightarrow> sending env (msgs @ [(qn_largeResult q, r)]) 0 0
      ((initMsg (transmit env isLast (length rows) (rowsSize env rows) q))\<lparr> qn_leftPool := True \<rparr>)"
proof -
  have e: "qn_multiError q = []" "concat (map fst (qn_sent q)) = streamBytes (re_codec env) (re_hostname env) msgs"
    "map snd (qn_sent q) = replicate (2 * length msgs) False" "\<forall>msg \<in> set msgs. goodMessage env (snd msg) \<and> rs_continues (snd msg)"
    using assms(2) by (simp_all add: sending_def)
  show g: "goodMessage env r" "rs_continues r = (\<not> isLast)" "rs_row r = rows"
    unfolding r_def using finishResult_good [OF assms(3) e(1) refl refl assms(4)] by auto
  show s: "concat (map fst (qn_sent (transmit env isLast (length rows) (rowsSize env rows) q)))
      = streamBytes (re_codec env) (re_hostname env) (msgs @ [(qn_largeResult q, r)])"
    using e(2) concat_map2_fst [of _ "[False, isLast]"] length_messageBytes
    by (simp add: transmit_uncancelled [OF assms(1)] streamBytes_snoc r_def del: map2_map_map)
  assume "\<not> isLast"
  then show "sending env (msgs @ [(qn_largeResult q, r)]) 0 0
      ((initMsg (transmit env isLast (length rows) (rowsSize env rows) q))\<lparr> qn_leftPool := True \<rparr>)"
    using s g e
    by (auto simp: sending_def initMsg_def transmit_uncancelled [OF assms(1)] emptyResult_def rowsSize_def
        messageBytes_def Let_def replicate_append_same [symmetric])
qed

abbreviation ROW_LIMIT :: nat where
  "ROW_LIMIT \<equiv> PROTOBUFFER_HARD_LIMIT - PROTOBUFFER_DESIRED_LIMIT"

lemma fillRows_sending:
  assumes "neverCancelled env" "sending env msgs rowCount tSize q"
    "\<forall>row \<in> set rows. re_byteSize env (take nf row) \<le> ROW_LIMIT"
    "fillRows env nf rows (rowCount, tSize, q) = (ok, rowCount', tSize', q')"
  shows "ok \<and> (\<exists>msgs'. sending env msgs' rowCount' tSize' q'
    \<and> msgRows msgs' @ rs_row (qn_result q') = msgRows msgs @ rs_row (qn_result q) @ map (take nf) rows)"
  using assms(2-4)
proof (induction rows arbitrary: msgs rowCount tSize q)
  case Nil
  then show ?case by auto
next
  case (Cons row rows)
  let ?rows = "rs_row (qn_result q) @ [take nf row]"
  let ?q = "q\<lparr> qn_result := (qn_result q)\<lparr> rs_row := ?rows \<rparr> \<rparr>"
  let ?ts = "rowsSize env ?rows"
  have q: "qn_result ?q = emptyResult\<lparr> rs_row := ?rows \<rparr>"
    using Cons.prems(1) by (cases "qn_result q") (simp add: sending_def emptyResult_def)
  have ts: "tSize + re_byteSize env (take nf row) = ?ts" "rowCount + 1 = length ?rows"
    "tSize \<le> PROTOBUFFER_DESIRED_LIMIT"
    using Cons.prems(1) by (simp_all add: sending_def rowsSize_def)
  have start: "sending env msgs 0 0 (?q\<lparr> qn_result := emptyResult \<rparr>)"
    using Cons.prems(1) by (auto simp: sending_def rowsSize_def emptyResult_def)
  have run: "fillRows env nf (row # rows) (rowCount, tSize, q) =
    (if PROTOBUFFER_DESIRED_LIMIT < ?ts
     then if PROTOBUFFER_HARD_LIMIT < ?ts then (False, length ?rows, ?ts, ?q)
          else fillRows env nf rows (0, 0, (initMsg (transmit env False (length ?rows) ?ts ?q))\<lparr> qn_leftPool := True \<rparr>)
     else fillRows env nf rows (length ?rows, ?ts, ?q))"
    using ts(1,2) by (simp add: fillRow_def Let_def PROTOBUFFER_DESIRED_LIMIT_def PROTOBUFFER_HARD_LIMIT_def)
  show ?case
  proof (cases "PROTOBUFFER_DESIRED_LIMIT < ?ts")
    case False
    have "sending env msgs (length ?rows) ?ts ?q"
      using Cons.prems(1) q False by (simp add: sending_def)
    then show ?thesis using Cons.IH [of msgs "length ?rows" ?ts ?q] Cons.prems(2,3) run False by simp
  next
    case True
    have "re_byteSize env (take nf row) \<le> ROW_LIMIT" using Cons.prems(2) by simp
    then have fits: "?ts \<le> PROTOBUFFER_HARD_LIMIT"
      using ts(1,3) by (simp add: PROTOBUFFER_DESIRED_LIMIT_def PROTOBUFFER_HARD_LIMIT_def)
    note t = sending_transmit [OF assms(1) start q fits refl, of False]
    let ?t = "(initMsg (transmit env False (length ?rows) ?ts ?q))\<lparr> qn_leftPool := True \<rparr>"
    have "rs_row (qn_result ?t) = []" by (simp add: initMsg_def emptyResult_def)
    moreover have "fillRows env nf rows (0, 0, ?t) = (ok, rowCount', tSize', q')"
      using Cons.prems(3) run True fits by simp
    ultimately show ?thesis
      using Cons.IH [OF t(5)] Cons.prems(2) t(4) by (simp del: length_append)
  qed
qed

section \<open>The rows of a task\<close>

text \<open>
  The rows that the queries of a task answer, in order, cut to the number of fields of the first answer.
\<close>

fun answers :: "runnerEnv \<Rightarrow> nat option \<Rightarrow> string list \<Rightarrow> row list" where
  "answers env n [] = []"
| "answers env n (query # queries) =
     (case re_runSql env query of
        DbError e \<Rightarrow> answers env n queries
      | DbRows nf rows e \<Rightarrow>
          let k = (case n of None \<Rightarrow> nf | Some k \<Rightarrow> k) in map (take k) rows @ answers env (Some k) queries)"

definition taskQueries :: "runnerEnv \<Rightarrow> fragment list \<Rightarrow> string list" where
  "taskQueries env fs = concat (map (fragmentQueries env) fs)"

text \<open>A query that MySQL answers in full, and one that it refuses.\<close>

definition answered :: "runnerEnv \<Rightarrow> string \<Rightarrow> bool" where
  "answered env query \<longleftrightarrow> (case re_runSql env query of DbError e \<Rightarrow> False | DbRows nf rows e \<Rightarrow> e = None)"

definition refused :: "runnerEnv \<Rightarrow> string \<Rightarrow> bool" where
  "refused env query \<longleftrightarrow> (case re_runSql env query of DbError e \<Rightarrow> True | DbRows nf rows e \<Rightarrow> False)"

definition dispatching :: "runnerEnv \<Rightarrow> (bool \<times> result) list \<Rightarrow> dispatchState \<Rightarrow> bool" where
  "dispatching env msgs d \<longleftrightarrow> sending env msgs (ds_rowCount d) (ds_tSize d) (ds_runner d) \<and> \<not> ds_erred d"

abbreviation dispatchedRows :: "(bool \<times> result) list \<Rightarrow> dispatchState \<Rightarrow> row list" where
  "dispatchedRows msgs d \<equiv> msgRows msgs @ rs_row (qn_result (ds_runner d))"

lemma queries_dispatching:
  assumes "neverCancelled env" "dispatching env msgs d" "\<forall>query \<in> set queries. answered env query"
    "\<forall>row \<in> set (answers env (ds_numFields d) queries). re_byteSize env row \<le> ROW_LIMIT"
  shows "\<exists>msgs'. dispatching env msgs' (fold (runFragmentQuery env) queries d)
    \<and> dispatchedRows msgs' (fold (runFragmentQuery env) queries d)
      = dispatchedRows msgs d @ answers env (ds_numFields d) queries
    \<and> (\<forall>more. answers env (ds_numFields d) (queries @ more)
      = answers env (ds_numFields d) queries @ answers env (ds_numFields (fold (runFragmentQuery env) queries d)) more)"
  using assms(2-4)
proof (induction queries arbitrary: msgs d)
  case (Cons query queries)
  obtain nf rows where a: "re_runSql env query = DbRows nf rows None"
    using Cons.prems(2) by (auto simp: answered_def split: dbAnswer.splits)
  let ?k = "case ds_numFields d of None \<Rightarrow> nf | Some n \<Rightarrow> n"
  let ?q = "(ds_runner d)\<lparr> qn_ran := qn_ran (ds_runner d) @ [query] \<rparr>"
  obtain ok rc ts q where f: "fillRows env ?k rows (ds_rowCount d, ds_tSize d, ?q) = (ok, rc, ts, q)"
    by (metis prod_cases4)
  let ?d = "d\<lparr> ds_erred := (ds_erred d \<or> \<not> ok), ds_numFields := Some ?k, ds_rowCount := rc, ds_tSize := ts,
    ds_runner := q \<rparr>"
  have step: "runFragmentQuery env query d = ?d" using a f by (simp add: runFragmentQuery_def Let_def)
  have sz: "\<forall>row \<in> set rows. re_byteSize env (take ?k row) \<le> ROW_LIMIT"
    "\<forall>row \<in> set (answers env (Some ?k) queries). re_byteSize env row \<le> ROW_LIMIT"
    using Cons.prems(3) a by (auto simp: Let_def)
  obtain msgs1 where m1: "ok" "sending env msgs1 rc ts q"
    "msgRows msgs1 @ rs_row (qn_result q) = dispatchedRows msgs d @ map (take ?k) rows"
    using fillRows_sending [OF assms(1) _ sz(1) f] Cons.prems(1) by (auto simp: dispatching_def sending_def)
  have "dispatching env msgs1 ?d" using m1 Cons.prems(1) by (simp add: dispatching_def)
  from Cons.IH [OF this] show ?case
    using Cons.prems(2) sz(2) m1(3) a step by (auto simp: Let_def)
qed auto

lemma fragments_dispatching:
  assumes "neverCancelled env" "\<forall>i. re_acquire env i = None" "dispatching env msgs d"
    "\<forall>query \<in> set (taskQueries env fs). answered env query"
    "\<forall>row \<in> set (answers env (ds_numFields d) (taskQueries env fs)). re_byteSize env row \<le> ROW_LIMIT"
  shows "\<exists>msgs'. dispatching env msgs' (runFragments env i fs d)
    \<and> dispatchedRows msgs' (runFragments env i fs d)
      = dispatchedRows msgs d @ answers env (ds_numFields d) (taskQueries env fs)"
  using assms(3-5)
proof (induction fs arbitrary: i msgs d)
  case Nil
  then show ?case by (auto simp: taskQueries_def)
next
  case (Cons f fs)
  let ?d = "d\<lparr> ds_runner := (ds_runner d)\<lparr> qn_reads := qn_reads (ds_runner d) + 1 \<rparr> \<rparr>"
  let ?e = "fold (runFragmentQuery env) (fragmentQueries env f) ?d"
  have tq: "taskQueries env (f # fs) = fragmentQueries env f @ taskQueries env fs" by (simp add: taskQueries_def)
  have d: "dispatching env msgs ?d" using Cons.prems(1) by (simp add: dispatching_def sending_def)
  have run: "runFragments env i (f # fs) d = runFragments env (Suc i) fs ?e"
    using assms(1,2) by (simp add: readCancelled_def neverCancelled_def Let_def)
  have ex: "set (answers env n qs) \<subseteq> set (answers env n (qs @ qs'))" for n qs qs'
    by (induction qs arbitrary: n) (auto simp: Let_def split: dbAnswer.splits)
  have fits: "\<forall>row \<in> set (answers env (ds_numFields ?d) (fragmentQueries env f)). re_byteSize env row \<le> ROW_LIMIT"
    using Cons.prems(3) ex [of "ds_numFields d" "fragmentQueries env f" "taskQueries env fs"] by (auto simp: tq)
  have ans: "\<forall>query \<in> set (fragmentQueries env f). answered env query" using Cons.prems(2) by (simp add: tq)
  obtain msgs1 where m1: "dispatching env msgs1 ?e"
    "dispatchedRows msgs1 ?e = dispatchedRows msgs d @ answers env (ds_numFields d) (fragmentQueries env f)"
    "answers env (ds_numFields d) (taskQueries env (f # fs))
      = answers env (ds_numFields d) (fragmentQueries env f) @ answers env (ds_numFields ?e) (taskQueries env fs)"
    using queries_dispatching [OF assms(1) d ans fits] by (auto simp: tq)
  show ?case
    using Cons.IH [OF m1(1), of "Suc i"] Cons.prems(2,3) m1(2,3) run by (auto simp: tq)
qed

lemma continuesUntilLast_snoc:
  "\<forall>r \<in> set rs. rs_continues r \<Longrightarrow> continuesUntilLast (rs @ [r]) = (\<not> rs_continues r)"
proof (induction rs)
  case (Cons r' rs)
  then show ?case by (cases "rs @ [r]") auto
qed simp

section \<open>Properties\<close>

abbreviation taskRows :: "runnerEnv \<Rightarrow> row list" where
  "taskRows env \<equiv> answers env None (taskQueries env (re_fragments env))"

lemma dispatchChannel_sends:
  assumes "neverCancelled env" "\<forall>i. re_acquire env i = None" "re_fragments env \<noteq> []"
    "\<forall>query \<in> set (taskQueries env (re_fragments env)). answered env query"
    "\<forall>row \<in> set (taskRows env). re_byteSize env row \<le> ROW_LIMIT"
  shows "\<exists>q msgs. dispatchChannel env newQueryRunner = Inr (True, q)
    \<and> concat (map fst (qn_sent q)) = streamBytes (re_codec env) (re_hostname env) msgs
    \<and> map snd (qn_sent q) = replicate (2 * length msgs - 1) False @ [True]
    \<and> continuesUntilLast (map snd msgs) \<and> (\<forall>msg \<in> set msgs. goodMessage env (snd msg))
    \<and> msgRows msgs = taskRows env"
proof -
  let ?init = "\<lparr> ds_erred = False, ds_numFields = None, ds_rowCount = 0, ds_tSize = 0,
    ds_runner = initMsg newQueryRunner \<rparr>"
  let ?d = "runFragments env 0 (re_fragments env) ?init"
  have "dispatching env [] ?init"
    by (simp add: dispatching_def sending_def initMsg_def newQueryRunner_def emptyResult_def rowsSize_def
        streamBytes_def)
  from fragments_dispatching [OF assms(1,2) this, of "re_fragments env" 0] obtain msgs where
    d: "dispatching env msgs ?d" "dispatchedRows msgs ?d = taskRows env"
    using assms(4,5) by (auto simp: initMsg_def emptyResult_def)
  let ?q = "(ds_runner ?d)\<lparr> qn_reads := qn_reads (ds_runner ?d) + 1 \<rparr>"
  let ?rows = "rs_row (qn_result ?q)"
  have s: "sending env msgs (ds_rowCount ?d) (ds_tSize ?d) ?q" "\<not> ds_erred ?d"
    using d(1) by (simp_all add: dispatching_def sending_def)
  have q: "qn_result ?q = emptyResult\<lparr> rs_row := ?rows \<rparr>" "ds_rowCount ?d = length ?rows"
    "ds_tSize ?d = rowsSize env ?rows" "rowsSize env ?rows \<le> PROTOBUFFER_HARD_LIMIT"
    "sending env msgs 0 0 (?q\<lparr> qn_result := emptyResult \<rparr>)"
    using s(1) by (auto simp: sending_def emptyResult_def rowsSize_def PROTOBUFFER_DESIRED_LIMIT_def
        PROTOBUFFER_HARD_LIMIT_def)
  let ?r = "finishResult env True (length ?rows) (rowsSize env ?rows) ?q"
  note t = sending_transmit [OF assms(1) q(5,1,4) refl, of True]
  have run: "dispatchChannel env newQueryRunner = Inr (True, transmit env True (length ?rows) (rowsSize env ?rows) ?q)"
    using assms(1,3) q(2,3) s(2) by (simp add: dispatchChannel_def readCancelled_def neverCancelled_def Let_def)
  let ?t = "transmit env True (length ?rows) (rowsSize env ?rows) ?q"
  have flags: "map snd (qn_sent ?t) = replicate (2 * length (msgs @ [(qn_largeResult ?q, ?r)]) - 1) False @ [True]"
    using s(1) by (simp add: sending_def transmit_uncancelled [OF assms(1)] messageBytes_def Let_def
        replicate_append_same)
  have "continuesUntilLast (map snd (msgs @ [(qn_largeResult ?q, ?r)]))"
    using continuesUntilLast_snoc [of "map snd msgs" ?r] s(1) t(3) by (auto simp: sending_def)
  moreover have "\<forall>msg \<in> set (msgs @ [(qn_largeResult ?q, ?r)]). goodMessage env (snd msg)"
    using s(1) t(2) by (auto simp: sending_def)
  moreover have "msgRows (msgs @ [(qn_largeResult ?q, ?r)]) = taskRows env" using d(2) t(4) by simp
  ultimately show ?thesis using run t(1) flags by blast
qed

text \<open>
  C14. A task that is neither cancelled nor fails sends exactly the rows of its queries, in order. The
  bytes on the channel are well-formed messages for this job attempt, with right row counts and sizes and within the
  limit of protocol buffers; all but the last say that more follow, and only the last buffer is sent with the
  flag for the end. The condition is that a single row is not longer than the difference of the two limits.
\<close>

theorem task_rows_sent:
  assumes "neverCancelled env" "\<forall>i. re_acquire env i = None" "re_fragments env \<noteq> []"
    "\<forall>query \<in> set (taskQueries env (re_fragments env)). answered env query"
    "\<forall>row \<in> set (taskRows env). re_byteSize env row \<le> ROW_LIMIT"
  shows "\<exists>q msgs. dispatchChannel env newQueryRunner = Inr (True, q)
    \<and> concat (map fst (qn_sent q)) = streamBytes (re_codec env) (re_hostname env) msgs
    \<and> map snd (qn_sent q) = replicate (2 * length msgs - 1) False @ [True]
    \<and> continuesUntilLast (map snd msgs) \<and> (\<forall>msg \<in> set msgs. goodMessage env (snd msg))
    \<and> msgRows msgs = taskRows env"
  by (rule dispatchChannel_sends [OF assms])

text \<open>A message that the task may send: its rows are among those of the task.\<close>

definition carriedMessage :: "runnerEnv \<Rightarrow> result \<Rightarrow> bool" where
  "carriedMessage env r \<longleftrightarrow> goodMessage env r \<and> set (rs_row r) \<subseteq> set (taskRows env)"

lemma mergeAll_accepts:
  assumes "\<forall>r \<in> set rs. \<forall>m. fst (f r m)"
  shows "mergeAll f rs m = Some (fold (\<lambda>r m. snd (f r m)) rs m)"
  using assms
proof (induction rs arbitrary: m)
  case (Cons r rs)
  obtain m' where "f r m = (True, m')" using Cons.prems by (metis (full_types) fst_conv list.set_intros(1) surj_pair)
  then show ?case using Cons by simp
qed simp

text \<open>
  C5. Worker and czar together: the messages of such a task, carried by the channel and taken apart by the
  handler of the czar, are passed to the merger one by one, and the handler is done after reading as many
  buffers as were sent; together the messages have the rows of the task, in order. This holds for every encoding
  that carries the messages of the task and every merger that accepts them.
\<close>

theorem task_rows_merged:
  assumes "neverCancelled env" "\<forall>i. re_acquire env i = None" "re_fragments env \<noteq> []"
    "\<forall>query \<in> set (taskQueries env (re_fragments env)). answered env query"
    "\<forall>row \<in> set (taskRows env). re_byteSize env row \<le> ROW_LIMIT"
    "he_codec henv = re_codec env" "he_jobAlive henv"
    "\<forall>large r. carriedMessage env r \<longrightarrow> codecCarries (re_codec env) (re_hostname env) (large, r)"
    "\<forall>r m. carriedMessage env r \<longrightarrow> fst (he_merge henv r m)"
  shows "\<exists>q msgs h. dispatchChannel env newQueryRunner = Inr (True, q)
    \<and> receive henv (length (qn_sent q)) (newHandler m) (concat (map fst (qn_sent q))) = Done h
    \<and> mh_merger h = fold (\<lambda>r m. snd (he_merge henv r m)) msgs m
    \<and> concat (map rs_row msgs) = taskRows env"
proof -
  obtain q msgs where q: "dispatchChannel env newQueryRunner = Inr (True, q)"
    "concat (map fst (qn_sent q)) = streamBytes (re_codec env) (re_hostname env) msgs"
    "map snd (qn_sent q) = replicate (2 * length msgs - 1) False @ [True]"
    "continuesUntilLast (map snd msgs)" "\<forall>msg \<in> set msgs. goodMessage env (snd msg)" "msgRows msgs = taskRows env"
    using dispatchChannel_sends [OF assms(1-5)] by blast
  have "msgs \<noteq> []" using q(4) by auto
  then have len: "length (qn_sent q) = 2 * length msgs"
    using arg_cong [OF q(3), of length] by (cases msgs) auto
  have task: "\<forall>msg \<in> set msgs. carriedMessage env (snd msg)"
    using q(5) unfolding carriedMessage_def q(6) [symmetric] by auto
  have carries: "\<forall>msg \<in> set msgs. codecCarries (he_codec henv) (re_hostname env) msg"
    using task assms(6,8) by (metis prod.collapse)
  have merge: "mergeAll (he_merge henv) (map snd msgs) (mh_merger (newHandler m))
    = Some (fold (\<lambda>r m. snd (he_merge henv r m)) (map snd msgs) m)"
    unfolding newHandler_awaits(2) by (rule mergeAll_accepts) (use task assms(9) in auto)
  obtain h where "receive henv (2 * length msgs) (newHandler m)
      (streamBytes (he_codec henv) (re_hostname env) msgs @ []) = Done h"
    "mh_merger h = fold (\<lambda>r m. snd (he_merge henv r m)) (map snd msgs) m"
    using receive_stream [OF carries assms(7) newHandler_awaits(1) q(4) merge, of "[]"] by blast
  then show ?thesis
    using q(1,2,6) len assms(6) by (intro exI [of _ q] exI [of _ "map snd msgs"] exI [of _ h]) (simp add: o_def)
qed

subsection \<open>The queries that are run\<close>

text \<open>Whatever happens, the runner passes a first part of the queries of the task to MySQL, in order and each once.\<close>

lemma transmit_ran [simp]: "qn_ran (transmit env isLast rowCount tSize q) = qn_ran q"
  by (simp add: transmit_def transmitHeader_def readCancelled_def Let_def)

lemma fillRows_ran:
  "fillRows env nf rows s = (ok, rc, ts, q) \<Longrightarrow> qn_ran q = qn_ran (snd (snd s))"
  by (induction env nf rows s rule: fillRows.induct)
    (auto simp: fillRow_def Let_def initMsg_def split: if_splits prod.splits)

lemma query_ran: "qn_ran (ds_runner (runFragmentQuery env query d)) = qn_ran (ds_runner d) @ [query]"
  by (auto simp: runFragmentQuery_def addError_def Let_def dest: fillRows_ran split: dbAnswer.splits prod.splits)

lemma queries_ran: "qn_ran (ds_runner (fold (runFragmentQuery env) queries d)) = qn_ran (ds_runner d) @ queries"
  by (induction queries arbitrary: d) (simp_all add: query_ran)

lemma fragments_ran:
  "\<exists>k. qn_ran (ds_runner (runFragments env i fs d)) = qn_ran (ds_runner d) @ concat (map (fragmentQueries env) (take k fs))
     \<and> (neverCancelled env \<and> (\<forall>i. re_acquire env i = None) \<longrightarrow> length fs \<le> k)"
proof (induction fs arbitrary: i d)
  case (Cons f fs)
  let ?d = "d\<lparr> ds_runner := snd (readCancelled env (ds_runner d)) \<rparr>"
  show ?case
  proof (cases "fst (readCancelled env (ds_runner d)) \<or> re_acquire env i \<noteq> None")
    case True
    then have "qn_ran (ds_runner (runFragments env i (f # fs) d)) = qn_ran (ds_runner d)"
      by (auto simp: readCancelled_def Let_def addError_def split: option.splits)
    moreover have "\<not> (neverCancelled env \<and> (\<forall>i. re_acquire env i = None))"
      using True by (auto simp: neverCancelled_def readCancelled_def)
    ultimately show ?thesis by (intro exI [of _ 0]) auto
  next
    case False
    then have "runFragments env i (f # fs) d
        = runFragments env (Suc i) fs (fold (runFragmentQuery env) (fragmentQueries env f) ?d)"
      by (auto simp: readCancelled_def Let_def split: option.splits)
    moreover obtain k where "qn_ran (ds_runner (runFragments env (Suc i) fs (fold (runFragmentQuery env) (fragmentQueries env f) ?d)))
        = qn_ran (ds_runner d) @ fragmentQueries env f @ concat (map (fragmentQueries env) (take k fs))"
      "neverCancelled env \<and> (\<forall>i. re_acquire env i = None) \<longrightarrow> length fs \<le> k"
      using Cons.IH [of "Suc i" "fold (runFragmentQuery env) (fragmentQueries env f) ?d"]
      by (auto simp: queries_ran readCancelled_def)
    ultimately show ?thesis by (intro exI [of _ "Suc k"]) simp
  qed
qed auto

lemma dispatchChannel_ran:
  assumes "re_fragments env \<noteq> []"
  shows "\<exists>ok q rest. dispatchChannel env newQueryRunner = Inr (ok, q) \<and> qn_ran q @ rest = taskQueries env (re_fragments env)
     \<and> (neverCancelled env \<and> (\<forall>i. re_acquire env i = None) \<longrightarrow> rest = [])"
proof -
  let ?fs = "re_fragments env"
  let ?d = "runFragments env 0 ?fs \<lparr> ds_erred = False, ds_numFields = None, ds_rowCount = 0, ds_tSize = 0,
    ds_runner = initMsg newQueryRunner \<rparr>"
  obtain k where k: "qn_ran (ds_runner ?d) = concat (map (fragmentQueries env) (take k ?fs))"
    "neverCancelled env \<and> (\<forall>i. re_acquire env i = None) \<longrightarrow> length ?fs \<le> k"
    using fragments_ran [of env 0 ?fs "\<lparr> ds_erred = False, ds_numFields = None, ds_rowCount = 0, ds_tSize = 0,
      ds_runner = initMsg newQueryRunner \<rparr>"] by (auto simp: initMsg_def newQueryRunner_def)
  have "\<exists>ok q. dispatchChannel env newQueryRunner = Inr (ok, q) \<and> qn_ran q = qn_ran (ds_runner ?d)"
    using assms by (cases "re_cancelledAt env (qn_reads (ds_runner ?d))")
      (auto simp: dispatchChannel_def readCancelled_def addError_def Let_def)
  then obtain ok q where q: "dispatchChannel env newQueryRunner = Inr (ok, q)" "qn_ran q = qn_ran (ds_runner ?d)" by blast
  have "qn_ran q @ concat (map (fragmentQueries env) (drop k ?fs)) = taskQueries env ?fs"
    unfolding q(2) k(1) taskQueries_def by (metis append_take_drop_id concat_append map_append)
  then show ?thesis using q(1) k(2) by (metis concat.simps(1) drop_all list.simps(8))
qed

subsection \<open>Errors\<close>

lemma transmit_multiError [simp]: "qn_multiError (transmit env isLast rowCount tSize q) = qn_multiError q"
  by (simp add: transmit_def transmitHeader_def readCancelled_def Let_def)

lemma fillRows_multiError:
  "fillRows env nf rows s = (ok, rc, ts, q) \<Longrightarrow> qn_multiError q = qn_multiError (snd (snd s))"
  by (induction env nf rows s rule: fillRows.induct)
    (auto simp: fillRow_def Let_def initMsg_def split: if_splits prod.splits)

definition failed :: "dispatchState \<Rightarrow> bool" where
  "failed d \<longleftrightarrow> ds_erred d \<and> qn_multiError (ds_runner d) \<noteq> []"

lemma failed_query: "failed d \<Longrightarrow> failed (runFragmentQuery env query d)"
  by (auto simp: failed_def runFragmentQuery_def addError_def Let_def dest!: fillRows_multiError
      split: dbAnswer.splits prod.splits)

lemma failed_now: "refused env query \<Longrightarrow> failed (runFragmentQuery env query d)"
  by (auto simp: failed_def refused_def runFragmentQuery_def addError_def split: dbAnswer.splits)

lemma failed_fold: "failed d \<or> (\<exists>query \<in> set queries. refused env query)
    \<Longrightarrow> failed (fold (runFragmentQuery env) queries d)"
  by (induction queries arbitrary: d) (auto intro: failed_query failed_now)

lemma failed_fragments:
  assumes "neverCancelled env" "\<forall>i. re_acquire env i = None"
    "failed d \<or> (\<exists>query \<in> set (taskQueries env fs). refused env query)"
  shows "failed (runFragments env i fs d)"
  using assms(3)
proof (induction fs arbitrary: i d)
  case Nil
  then show ?case by (simp add: taskQueries_def)
next
  case (Cons f fs)
  let ?d = "d\<lparr> ds_runner := (ds_runner d)\<lparr> qn_reads := qn_reads (ds_runner d) + 1 \<rparr> \<rparr>"
  have "runFragments env i (f # fs) d
      = runFragments env (Suc i) fs (fold (runFragmentQuery env) (fragmentQueries env f) ?d)"
    using assms(1,2) by (simp add: readCancelled_def neverCancelled_def Let_def)
  moreover have "failed ?d \<longleftrightarrow> failed d" by (simp add: failed_def)
  moreover have "failed (runFragments env (Suc i) fs (fold (runFragmentQuery env) (fragmentQueries env f) ?d))"
    if "failed ?d \<or> (\<exists>query \<in> set (taskQueries env (f # fs)). refused env query)"
    using that Cons.IH failed_fold [of ?d "fragmentQueries env f" env] by (fastforce simp: taskQueries_def)
  ultimately show ?case using Cons.prems by simp
qed

text \<open>
  C27. A query that MySQL refuses to execute is never hidden: the other queries are still run, but the task reports
  failure, and its last message, which ends the stream, has the error text, so that the merger of the czar
  refuses it without adding its rows.
\<close>

theorem query_error_reaches_czar:
  assumes "neverCancelled env" "\<forall>i. re_acquire env i = None" "re_fragments env \<noteq> []"
    "\<exists>query \<in> set (taskQueries env (re_fragments env)). refused env query"
  shows "\<exists>q sent large r. dispatchChannel env newQueryRunner = Inr (False, q)
    \<and> qn_sent q = sent @ map2 Pair (messageBytes (re_codec env) (re_hostname env) large r) [False, True]
    \<and> \<not> rs_continues r \<and> rs_errormsg r \<noteq> None
    \<and> (\<forall>m. fst (merge_begin r m) = MergeReturned False \<and> im_table (snd (merge_begin r m)) = im_table m)"
proof -
  let ?d = "runFragments env 0 (re_fragments env) \<lparr> ds_erred = False, ds_numFields = None, ds_rowCount = 0,
    ds_tSize = 0, ds_runner = initMsg newQueryRunner \<rparr>"
  let ?q = "(ds_runner ?d)\<lparr> qn_reads := qn_reads (ds_runner ?d) + 1 \<rparr>"
  let ?r = "finishResult env True (ds_rowCount ?d) (ds_tSize ?d) ?q"
  have f: "failed ?d" using failed_fragments assms by blast
  then have "dispatchChannel env newQueryRunner
      = Inr (False, transmit env True (ds_rowCount ?d) (ds_tSize ?d) ?q)"
    using assms(1,3) by (simp add: dispatchChannel_def readCancelled_def neverCancelled_def failed_def Let_def)
  moreover have r: "\<not> rs_continues ?r" "rs_errormsg ?r \<noteq> None"
    using f by (simp_all add: finishResult_def failed_def Let_def)
  moreover have "fst (merge_begin ?r m) = MergeReturned False \<and> im_table (snd (merge_begin ?r m)) = im_table m" for m
    using r(2) by (simp add: merge_begin_def)
  moreover have "qn_sent (transmit env True (ds_rowCount ?d) (ds_tSize ?d) ?q) = qn_sent ?q
      @ map2 Pair (messageBytes (re_codec env) (re_hostname env) (qn_largeResult ?q) ?r) [False, True]"
    by (simp add: transmit_uncancelled [OF assms(1)])
  ultimately show ?thesis by blast
qed

text \<open>
  Two errors are hidden. When the rows collected so far and the next one exceed the hard limit, \<open>_fillRows\<close> gives up and
  the remaining rows of the query are dropped, but no error is recorded: the message that ends the stream is one that
  the merger accepts.
\<close>

definition demoRunnerEnv :: "(row \<Rightarrow> nat) \<Rightarrow> runnerEnv" where
  "demoRunnerEnv sz = \<lparr> re_codec = demoCodec, re_hostname = ''w'', re_jobId = 3, re_attemptCount = 0, re_chunkId = 7,
     re_protocol = Some 2, re_fragments = [\<lparr> fr_query = [''q''], fr_subchunks = None \<rparr>], re_subst = (\<lambda>s i. s),
     re_connect = None, re_acquire = (\<lambda>i. None),
     re_runSql = (\<lambda>s. DbRows 1 [[Some ''x''], [Some ''y'']] None), re_byteSize = sz,
     re_cancelledAt = (\<lambda>k. False) \<rparr>"

lemma oversize_row_hidden:
  "\<exists>q. dispatchChannel (demoRunnerEnv (\<lambda>row. 64000001)) newQueryRunner = Inr (False, q)
    \<and> qn_sent q = map2 Pair (messageBytes demoCodec ''w'' False
        \<lparr> rs_jobid = 3, rs_attemptcount = 0, rs_continues = False, rs_largeresult = False, rs_rowcount = 1,
          rs_transmitsize = 64000001, rs_errorcode = None, rs_errormsg = None, rs_row = [[Some ''x'']] \<rparr>) [False, True]"
  by (simp add: dispatchChannel_def demoRunnerEnv_def readCancelled_def initMsg_def newQueryRunner_def emptyResult_def
      fragmentQueries_def runFragmentQuery_def fillRow_def PROTOBUFFER_DESIRED_LIMIT_def PROTOBUFFER_HARD_LIMIT_def
      transmit_def transmitHeader_def finishResult_def messageBytes_def Let_def)

text \<open>
  And when the rows of a query stop coming because of an error, \<open>_fillRows\<close> takes it for the end of the result: the
  task reports success, and its message, which the merger accepts, has only the rows that came.
\<close>

lemma fetch_error_hidden:
  "\<exists>q. dispatchChannel ((demoRunnerEnv demoSize)\<lparr> re_runSql := (\<lambda>s. DbRows 1 [[Some ''y'']] (Some (2013, ''Lost connection''))) \<rparr>)
      newQueryRunner = Inr (True, q)
    \<and> qn_sent q = map2 Pair (messageBytes demoCodec ''w'' False
        \<lparr> rs_jobid = 3, rs_attemptcount = 0, rs_continues = False, rs_largeresult = False, rs_rowcount = 1,
          rs_transmitsize = 1, rs_errorcode = None, rs_errormsg = None, rs_row = [[Some ''y'']] \<rparr>) [False, True]"
  by (simp add: dispatchChannel_def demoRunnerEnv_def readCancelled_def initMsg_def newQueryRunner_def emptyResult_def
      fragmentQueries_def runFragmentQuery_def fillRow_def PROTOBUFFER_DESIRED_LIMIT_def PROTOBUFFER_HARD_LIMIT_def
      transmit_def transmitHeader_def finishResult_def messageBytes_def demoSize_def Let_def)

lemma demo_task:
  "neverCancelled (demoRunnerEnv sz)" "\<forall>i. re_acquire (demoRunnerEnv sz) i = None"
  "re_fragments (demoRunnerEnv sz) \<noteq> []"
  "\<forall>query \<in> set (taskQueries (demoRunnerEnv sz) (re_fragments (demoRunnerEnv sz))). answered (demoRunnerEnv sz) query"
  "taskRows (demoRunnerEnv sz) = [[Some ''x''], [Some ''y'']]"
  "\<forall>row \<in> set (taskRows (demoRunnerEnv demoSize)). re_byteSize (demoRunnerEnv demoSize) row \<le> ROW_LIMIT"
  by (simp_all add: neverCancelled_def demoRunnerEnv_def taskQueries_def fragmentQueries_def answered_def Let_def
      demoSize_def PROTOBUFFER_DESIRED_LIMIT_def PROTOBUFFER_HARD_LIMIT_def)

theorem task_rows_sent_witness:
  "\<exists>q msgs. dispatchChannel (demoRunnerEnv demoSize) newQueryRunner = Inr (True, q)
    \<and> concat (map fst (qn_sent q)) = streamBytes demoCodec ''w'' msgs
    \<and> continuesUntilLast (map snd msgs) \<and> msgRows msgs = [[Some ''x''], [Some ''y'']]"
  using task_rows_sent [OF demo_task(1-4,6)] by (auto simp: demo_task(5)) (auto simp: demoRunnerEnv_def)

lemma length_nat_to_string: "n < 10 ^ k \<Longrightarrow> 0 < k \<Longrightarrow> length (nat_to_string n) \<le> k"
proof (induction n arbitrary: k rule: nat_to_string.induct)
  case (1 n)
  show ?case
  proof (cases "n < 10")
    case True
    then show ?thesis using 1(3) by (simp add: nat_to_string.simps [of n])
  next
    case False
    then obtain j where j: "k = Suc j" "0 < j" using 1(2,3) by (cases k; cases "k - 1") auto
    then have "n div 10 < 10 ^ j" using 1(2) by (simp add: less_mult_imp_div_less mult.commute)
    then show ?thesis using 1(1) [OF False, of j] j False by (simp add: nat_to_string.simps [of n])
  qed
qed

lemma demo_carries:
  assumes "carriedMessage (demoRunnerEnv demoSize) r"
  shows "codecCarries demoCodec ''w'' (large, r)"
proof -
  have rows: "set (rs_row r) \<subseteq> {[Some ''x''], [Some ''y'']}"
    using assms by (simp add: carriedMessage_def demo_task(5))
  have decode: "map (\<lambda>c. [Some [c]]) (map rowChar rows) = rows"
    if "set rows \<subseteq> {[Some ''x''], [Some ''y'']}" for rows
    using that by (induction rows) (auto simp: rowChar_def)
  have g: "r = demoMsg (rs_continues r) (rs_largeresult r) (rs_row r)" "rs_transmitsize r \<le> 64000000"
    using assms by (auto simp: carriedMessage_def goodMessage_def demoRunnerEnv_def demoMsg_def rowsSize_def
        PROTOBUFFER_HARD_LIMIT_def)
  have "length rows \<le> sum_list (map demoSize rows)" for rows
    by (induction rows) (auto simp: demoSize_def)
  then have n: "length (rs_row r) \<le> 64000000" using g(1,2) by (metis demoMsg_def le_trans result.select_convs(6))
  let ?s = "serResult demoCodec r"
  have s: "length ?s = length (rs_row r) + 2" "parseResult demoCodec ?s = Some r"
    using g(1) decode [OF rows] by (auto simp: demoCodec_def)
  have digits: "CHR ''/'' \<notin> set (nat_to_string k)" for k using nat_to_string_digits [of "CHR ''/''" k] by auto
  then have tw: "takeWhile (\<lambda>c. c \<noteq> CHR ''/'') (nat_to_string k @ CHR ''/'' # w) = nat_to_string k"
    "dropWhile (\<lambda>c. c \<noteq> CHR ''/'') (nat_to_string k @ CHR ''/'' # w) = CHR ''/'' # w" for k w
    by (auto simp: takeWhile_append dropWhile_append)
  have "length (nat_to_string (length ?s)) \<le> 9" using n s(1) by (intro length_nat_to_string) simp_all
  moreover have "nat (2 + int (length (rs_row r))) = length ?s" using s(1) by simp
  ultimately show ?thesis
    using s tw by (simp add: codecCarries_def headerFor_def Let_def)
      (simp add: demoCodec_def string_to_nat_digits)
qed

theorem task_rows_merged_witness:
  "\<exists>q h. dispatchChannel (demoRunnerEnv demoSize) newQueryRunner = Inr (True, q)
    \<and> receive demoHandlerEnv (length (qn_sent q)) (newHandler []) (concat (map fst (qn_sent q))) = Done h
    \<and> concat (map rs_row (mh_merger h)) = [[Some ''x''], [Some ''y'']]"
proof -
  have "fold (\<lambda>r ms. snd (he_merge demoHandlerEnv r ms)) rs m = m @ rs" for rs m
    by (induction rs arbitrary: m) (simp_all add: demoHandlerEnv_def)
  moreover have "he_codec demoHandlerEnv = re_codec (demoRunnerEnv demoSize)" "he_jobAlive demoHandlerEnv"
    "re_codec (demoRunnerEnv demoSize) = demoCodec" "re_hostname (demoRunnerEnv demoSize) = ''w''"
    "\<forall>r m. fst (he_merge demoHandlerEnv r m)"
    by (simp_all add: demoHandlerEnv_def demoRunnerEnv_def)
  ultimately show ?thesis
    using task_rows_merged [OF demo_task(1-4,6), of demoHandlerEnv "[]"] demo_carries by (auto simp: demo_task(5))
qed

theorem query_error_reaches_czar_witness:
  "\<exists>q. dispatchChannel ((demoRunnerEnv demoSize)\<lparr> re_runSql := (\<lambda>s. DbError (1146, ''no such table'')) \<rparr>) newQueryRunner
    = Inr (False, q) \<and> qn_sent q \<noteq> []"
proof -
  let ?env = "(demoRunnerEnv demoSize)\<lparr> re_runSql := (\<lambda>s. DbError (1146, ''no such table'')) \<rparr>"
  have "neverCancelled ?env" "\<forall>i. re_acquire ?env i = None" "re_fragments ?env \<noteq> []"
    "\<exists>query \<in> set (taskQueries ?env (re_fragments ?env)). refused ?env query"
    by (simp_all add: neverCancelled_def demoRunnerEnv_def taskQueries_def fragmentQueries_def refused_def)
  from query_error_reaches_czar [OF this] show ?thesis by (fastforce simp: messageBytes_def Let_def)
qed

end
