(* ===== verification/Chunk_Query.thy ===== *)
theory Chunk_Query
  imports Chunk_Spec Task Query_Runner
begin

text \<open>
  From the chunks of a query to the messages for the workers: \<open>query/QueryTemplate\<close>, \<open>global/sqltoken\<close>, the
  substitution of chunk numbers of \<open>qana/QueryMapping\<close>, \<open>QuerySession::buildChunkQuerySpec\<close> with the
  \<open>ChunkSpecFragmenter\<close> of \<open>qproc/ChunkSpec\<close>, and \<open>TaskMsgFactory::_makeMsg\<close>. The message extends the
  record of the fields that \<open>wbase/Task\<close> reads.

  The lemmas show that the fragments of a message cut the subchunks of a chunk into pieces of at most twenty, and, with the
  query runner of the worker, that every statement of a query is run once for every subchunk.
\<close>

section \<open>Query templates\<close>

datatype queryEntry =
    StringEntry string
  | TableEntry string string
  | ColumnEntry string string string

definition dotted :: "string \<Rightarrow> string" where
  "dotted q = (if q \<noteq> [] then q @ ''.'' else [])"

fun getValue :: "queryEntry \<Rightarrow> string" where
  "getValue (StringEntry s) = s"
| "getValue (TableEntry db table) = dotted db @ table"
| "getValue (ColumnEntry db table column) = dotted db @ dotted table @ column"

type_synonym queryTemplate = "queryEntry list"

definition tolower :: "char \<Rightarrow> char" where
  "tolower c = (if CHR ''A'' \<le> c \<and> c \<le> CHR ''Z'' then char_of ((of_char c :: nat) + 32) else c)"

definition isSeparatingWord :: "string \<Rightarrow> bool" where
  "isSeparatingWord w \<longleftrightarrow>
     map tolower w \<in> {''select'', ''from'', ''where'', ''by'', ''limit'', ''and'', ''or''}"

definition sqlShouldSeparate :: "string \<Rightarrow> char \<Rightarrow> char \<Rightarrow> bool" where
  "sqlShouldSeparate s lst nxt \<longleftrightarrow>
     isSeparatingWord s
     \<or> (isalnum lst \<and> isalnum nxt)
     \<or> (lst = CHR 0x27 \<and> isalnum nxt)
     \<or> (nxt = CHR 0x27 \<and> isalnum lst)
     \<or> (lst = CHR ''*'' \<and> isalnum nxt)
     \<or> (nxt = CHR ''*'' \<and> isalnum lst)
     \<or> (lst = CHR '')'' \<and> isalnum nxt)
     \<or> (lst = CHR ''#'' \<and> isalnum nxt)
     \<or> (lst = CHR ''%'' \<and> isalnum nxt)
     \<or> (nxt = CHR ''%'' \<and> isalnum lst)
     \<or> (lst = CHR ''_'' \<and> isalnum nxt)
     \<or> (nxt = CHR ''_'' \<and> isalnum lst)"

text \<open>The loop of \<open>sqlFragment\<close>, with the stream and \<open>lastEntry\<close>; an empty entry makes the whole text empty.\<close>

fun sqlFragment_loop :: "string \<Rightarrow> string \<Rightarrow> queryTemplate \<Rightarrow> string" where
  "sqlFragment_loop os lastEntry [] = os"
| "sqlFragment_loop os lastEntry (e # es) =
     (let entryStr = getValue e
      in if entryStr = [] then []
         else sqlFragment_loop
                (os @ (if lastEntry \<noteq> [] \<and> sqlShouldSeparate lastEntry (last lastEntry) (hd entryStr) then '' '' else [])
                    @ entryStr) entryStr es)"

definition sqlFragment :: "queryTemplate \<Rightarrow> string" where
  "sqlFragment t = sqlFragment_loop [] [] t"

section \<open>Substitution\<close>

datatype parameter = INVALID | CHUNK | SUBCHUNK | HTM1

record queryMapping =
  qm_subs :: "(string, parameter) omap"
  qm_subChunkTables :: "(string \<times> string, unit) omap"

definition newQueryMapping :: queryMapping where
  "newQueryMapping = \<lparr> qm_subs = [], qm_subChunkTables = [] \<rparr>"

definition insertSubChunkTable :: "string \<times> string \<Rightarrow> queryMapping \<Rightarrow> queryMapping" where
  "insertSubChunkTable t m = m\<lparr> qm_subChunkTables := omap_set t () (qm_subChunkTables m) \<rparr>"

definition insertChunkEntry :: "string \<Rightarrow> queryMapping \<Rightarrow> queryMapping" where
  "insertChunkEntry tag m = m\<lparr> qm_subs := omap_set tag CHUNK (qm_subs m) \<rparr>"

definition hasParameter :: "parameter \<Rightarrow> queryMapping \<Rightarrow> bool" where
  "hasParameter p m \<longleftrightarrow> (\<exists>i \<in> set (qm_subs m). snd i = p)"

definition mapping_hasSubChunks :: "queryMapping \<Rightarrow> bool" where
  "mapping_hasSubChunks m \<longleftrightarrow> qm_subChunkTables m \<noteq> []"

text \<open>\<open>std::string::find\<close> and the loop of \<open>replace\<close>, which never ends for an empty pattern.\<close>

fun find_str :: "string \<Rightarrow> string \<Rightarrow> nat option" where
  "find_str pat [] = (if pat = [] then Some 0 else None)"
| "find_str pat (c # cs) =
     (if take (length pat) (c # cs) = pat then Some 0 else map_option Suc (find_str pat cs))"

function replace_loop :: "string \<Rightarrow> string \<Rightarrow> string \<Rightarrow> string qproc" where
  "replace_loop pat value s =
     (if pat = [] then Inl NoReturn
      else case find_str pat s of
             None \<Rightarrow> Inr s
           | Some j \<Rightarrow> map_sum id (\<lambda>r. take j s @ value @ r) (replace_loop pat value (drop (j + length pat) s)))"
  by pat_completeness auto

lemma find_str_Some: "find_str pat s = Some j \<Longrightarrow> take (length pat) (drop j s) = pat \<and> j + length pat \<le> length s"
proof (induction pat s arbitrary: j rule: find_str.induct)
  case (2 pat c cs)
  show ?case
  proof (cases "take (length pat) (c # cs) = pat")
    case True
    then have "length pat \<le> length (c # cs)" by (metis length_take min.cobounded1)
    then show ?thesis using 2 True by auto
  next
    case False
    then show ?thesis using 2 by auto
  qed
qed (auto split: if_splits)

termination replace_loop
proof (relation "measure (\<lambda>(pat, value, s). length s)")
  fix pat target s :: string and j
  assume "pat \<noteq> []" "find_str pat s = Some j"
  then show "((pat, target, drop (j + length pat) s), pat, target, s) \<in> measure (\<lambda>(pat, value, s). length s)"
    using find_str_Some [of pat s j] by (cases pat) auto
qed simp

definition replace :: "string \<Rightarrow> string \<Rightarrow> string \<Rightarrow> string qproc" where
  "replace s pat value = replace_loop pat value s"

text \<open>The class \<open>Mapping\<close> for a \<open>ChunkSpec\<close>: the pairs of pattern and target of its constructor.\<close>

definition lookup_param :: "string \<Rightarrow> string \<Rightarrow> parameter \<Rightarrow> string qproc" where
  "lookup_param chunkString subChunkString p =
     (case p of
        INVALID \<Rightarrow> Inr ''INVALID''
      | CHUNK \<Rightarrow> Inr chunkString
      | SUBCHUNK \<Rightarrow> Inr subChunkString
      | HTM1 \<Rightarrow> Inl RangeError)"

fun initMap :: "string \<Rightarrow> string \<Rightarrow> (string, parameter) omap \<Rightarrow> (string \<times> string) list qproc" where
  "initMap c sc [] = Inr []"
| "initMap c sc ((pat, p) # m) =
     (case lookup_param c sc p of
        Inl e \<Rightarrow> Inl e
      | Inr target \<Rightarrow> map_sum id ((#) (pat, target)) (initMap c sc m))"

definition newMapping :: "(string, parameter) omap \<Rightarrow> chunkSpec \<Rightarrow> (string \<times> string) list qproc" where
  "newMapping m s =
     initMap (int_to_string (cs_chunkId s))
       (case cs_subChunks s of [] \<Rightarrow> [] | sc # _ \<Rightarrow> int_to_string sc) m"

fun mapEntry :: "(string \<times> string) list \<Rightarrow> string \<Rightarrow> string qproc" where
  "mapEntry [] s = Inr s"
| "mapEntry ((pat, target) # items) s =
     (case replace s pat target of Inl e \<Rightarrow> Inl e | Inr s' \<Rightarrow> mapEntry items s')"

fun generateEntries :: "(string \<times> string) list \<Rightarrow> queryTemplate \<Rightarrow> queryTemplate qproc" where
  "generateEntries items [] = Inr []"
| "generateEntries items (e # es) =
     (case mapEntry items (getValue e) of
        Inl er \<Rightarrow> Inl er
      | Inr s \<Rightarrow> map_sum id ((#) (StringEntry s)) (generateEntries items es))"

definition mapping_apply :: "queryMapping \<Rightarrow> chunkSpec \<Rightarrow> queryTemplate \<Rightarrow> string qproc" where
  "mapping_apply m s t =
     (case newMapping (qm_subs m) s of
        Inl e \<Rightarrow> Inl e
      | Inr items \<Rightarrow> map_sum id sqlFragment (generateEntries items t))"

section \<open>Chunk queries\<close>

datatype chunkQuerySpec = ChunkQuerySpec
  (cq_db: string)
  (cq_chunkId: int)
  (cq_scanInfo: scanInfo)
  (cq_scanInteractive: bool)
  (cq_subChunkTables: "(string \<times> string) list")
  (cq_subChunkIds: "int list")
  (cq_queries: "string list")
  (cq_nextFragment: "chunkQuerySpec option")

text \<open>
  What \<open>buildChunkQuerySpec\<close> reads of the session: whether \<open>_stmtParallel\<close> has a statement, the \<open>queryMapping\<close>, the dominant
  database and the tables to scan of the context.
\<close>

record querySession =
  qs_hasStmt :: bool
  qs_queryMapping :: "queryMapping option"
  qs_dominantDb :: string
  qs_scanInfo :: scanInfo
  qs_scanInteractive :: bool

fun applyAll :: "queryMapping \<Rightarrow> chunkSpec \<Rightarrow> queryTemplate list \<Rightarrow> string list qproc" where
  "applyAll m s [] = Inr []"
| "applyAll m s (t # ts) =
     (case mapping_apply m s t of Inl e \<Rightarrow> Inl e | Inr q \<Rightarrow> map_sum id ((#) q) (applyAll m s ts))"

definition buildChunkQueries :: "querySession \<Rightarrow> queryTemplate list \<Rightarrow> chunkSpec \<Rightarrow> string list qproc" where
  "buildChunkQueries qs ts s =
     (if \<not> qs_hasStmt qs then Inl QueryProcessingBug
      else case qs_queryMapping qs of
             None \<Rightarrow> Inl QueryProcessingBug
           | Some m \<Rightarrow> applyAll m s ts)"

definition GOOD_SUBCHUNK_COUNT :: nat where
  "GOOD_SUBCHUNK_COUNT = 20"

definition shouldSplit :: "chunkSpec \<Rightarrow> bool" where
  "shouldSplit s \<longleftrightarrow> GOOD_SUBCHUNK_COUNT < length (cs_subChunks s)"

record fragmenter =
  fg_original :: chunkSpec
  fg_pos :: nat

definition newFragmenter :: "chunkSpec \<Rightarrow> fragmenter" where
  "newFragmenter s = \<lparr> fg_original = s, fg_pos = 0 \<rparr>"

definition fragmenter_get :: "fragmenter \<Rightarrow> chunkSpec" where
  "fragmenter_get f =
     (let posEnd = min (fg_pos f + GOOD_SUBCHUNK_COUNT) (length (cs_subChunks (fg_original f)))
      in \<lparr> cs_chunkId = cs_chunkId (fg_original f),
           cs_subChunks = take (posEnd - fg_pos f) (drop (fg_pos f) (cs_subChunks (fg_original f))) \<rparr>)"

definition fragmenter_next :: "fragmenter \<Rightarrow> fragmenter" where
  "fragmenter_next f = f\<lparr> fg_pos := fg_pos f + GOOD_SUBCHUNK_COUNT \<rparr>"

definition fragmenter_isDone :: "fragmenter \<Rightarrow> bool" where
  "fragmenter_isDone f \<longleftrightarrow> length (cs_subChunks (fg_original f)) \<le> fg_pos f"

definition newFragmentSpec :: "int list \<Rightarrow> string list \<Rightarrow> chunkQuerySpec option \<Rightarrow> chunkQuerySpec" where
  "newFragmentSpec ids qs nxt = ChunkQuerySpec [] 0 \<lparr> infoTables = [], scanRating = 0 \<rparr> False [] ids qs nxt"

text \<open>\<open>_buildFragment\<close>: the linked list of the remaining fragments.\<close>

function buildFragment :: "querySession \<Rightarrow> queryTemplate list \<Rightarrow> fragmenter \<Rightarrow> chunkQuerySpec option qproc" where
  "buildFragment qs ts f =
     (if fragmenter_isDone f then Inr None
      else let s = fragmenter_get f
           in case buildChunkQueries qs ts s of
                Inl e \<Rightarrow> Inl e
              | Inr q \<Rightarrow> map_sum id (\<lambda>nxt. Some (newFragmentSpec (cs_subChunks s) q nxt))
                           (buildFragment qs ts (fragmenter_next f)))"
  by pat_completeness auto
termination
  by (relation "measure (\<lambda>(qs, ts, f). length (cs_subChunks (fg_original f)) - fg_pos f)")
    (auto simp: fragmenter_isDone_def fragmenter_next_def GOOD_SUBCHUNK_COUNT_def)

definition buildChunkQuerySpec :: "querySession \<Rightarrow> queryTemplate list \<Rightarrow> chunkSpec \<Rightarrow> chunkQuerySpec qproc" where
  "buildChunkQuerySpec qs ts s =
     (case qs_queryMapping qs of
        None \<Rightarrow> Inl NullMapping
      | Some m \<Rightarrow>
          let spec = ChunkQuerySpec (qs_dominantDb qs) (cs_chunkId s) (qs_scanInfo qs) (qs_scanInteractive qs)
                       (omap_keys (qm_subChunkTables m))
          in if \<not> mapping_hasSubChunks m
             then map_sum id (\<lambda>q. spec [] q None) (buildChunkQueries qs ts s)
             else if shouldSplit s
             then let frag = newFragmenter s;
                      s1 = fragmenter_get frag
                  in case buildChunkQueries qs ts s1 of
                       Inl e \<Rightarrow> Inl e
                     | Inr q \<Rightarrow> map_sum id (spec (cs_subChunks s1) q) (buildFragment qs ts (fragmenter_next frag))
             else map_sum id (\<lambda>q. spec (cs_subChunks s) q None) (buildChunkQueries qs ts s))"

section \<open>Task messages\<close>

record fragmentMsg =
  fm_resulttable :: string
  fm_query :: "string list"
  fm_dbtbl :: "(string \<times> string) list"
  fm_id :: "int list"

record taskMessage = taskMsg +
  msgSession :: nat
  msgDb :: string
  msgProtocol :: nat
  msgFragment :: "fragmentMsg list"

definition addFragment :: "string \<Rightarrow> (string \<times> string) list \<Rightarrow> int list \<Rightarrow> string list \<Rightarrow> fragmentMsg" where
  "addFragment resultName subChunkTables subChunkIds queries =
     \<lparr> fm_resulttable = resultName, fm_query = queries, fm_dbtbl = subChunkTables, fm_id = subChunkIds \<rparr>"

primrec specChain :: "chunkQuerySpec \<Rightarrow> (int list \<times> string list) list" where
  "specChain (ChunkQuerySpec db c si sint tabs ids qs nxt) =
     (ids, qs) # (case map_option specChain nxt of None \<Rightarrow> [] | Some l \<Rightarrow> l)"

definition makeMsg :: "nat \<Rightarrow> chunkQuerySpec \<Rightarrow> string \<Rightarrow> nat \<Rightarrow> int \<Rightarrow> int \<Rightarrow> taskMessage" where
  "makeMsg session spec chunkResultName queryId jobId attemptCount =
     (let resultTable = (if chunkResultName \<noteq> [] then chunkResultName else ''Asdfasfd'')
      in \<lparr> msgQueryId = queryId, msgJobId = jobId, msgAttempt = attemptCount, msgChunkId = Some (cq_chunkId spec),
           msgScanTables = infoTables (cq_scanInfo spec), msgScanPriority = scanRating (cq_scanInfo spec),
           msgScanInteractive = cq_scanInteractive spec,
           msgSession = session, msgDb = cq_db spec, msgProtocol = 2,
           msgFragment =
             (if cq_nextFragment spec \<noteq> None
              then map (\<lambda>(ids, qs). addFragment resultTable (cq_subChunkTables spec) ids qs) (specChain spec)
              else [addFragment resultTable (cq_subChunkTables spec) (cq_subChunkIds spec) (cq_queries spec)]) \<rparr>)"

section \<open>Replacement\<close>

text \<open>The reference: occurrences are replaced from the left, and the text behind one is searched again.\<close>

function subst_all :: "string \<Rightarrow> string \<Rightarrow> string \<Rightarrow> string" where
  "subst_all pat target s =
     (if pat = [] \<or> s = [] then s
      else if take (length pat) s = pat then target @ subst_all pat target (drop (length pat) s)
      else hd s # subst_all pat target (tl s))"
  by pat_completeness auto
termination by (relation "measure (\<lambda>(pat, target, s). length s)") auto

declare subst_all.simps [simp del] replace_loop.simps [simp del]

lemma subst_all_find:
  "pat \<noteq> [] \<Longrightarrow> subst_all pat target s =
     (case find_str pat s of None \<Rightarrow> s | Some j \<Rightarrow> take j s @ target @ subst_all pat target (drop (j + length pat) s))"
proof (induction pat s rule: find_str.induct)
  case (2 pat c cs)
  then show ?case by (auto simp: subst_all.simps [of pat target "c # cs"] split: option.splits)
qed (simp add: subst_all.simps)

lemma replace_subst_all: "replace s pat target = (if pat = [] then Inl NoReturn else Inr (subst_all pat target s))"
proof (cases "pat = []")
  case False
  then have "replace_loop pat target s = Inr (subst_all pat target s)"
  proof (induction pat target s rule: replace_loop.induct)
    case (1 pat target s)
    then show ?case
      by (subst replace_loop.simps, subst subst_all_find) (auto split: option.splits)
  qed
  then show ?thesis using False by (simp add: replace_def)
qed (simp add: replace_def replace_loop.simps)

section \<open>Fragments\<close>

fun chainOf :: "chunkQuerySpec option \<Rightarrow> (int list \<times> string list) list" where
  "chainOf None = []"
| "chainOf (Some spec) = specChain spec"

lemma specChain_unfold: "specChain spec = (cq_subChunkIds spec, cq_queries spec) # chainOf (cq_nextFragment spec)"
  by (cases spec; cases "cq_nextFragment spec") auto

declare specChain.simps [simp del]

text \<open>The pieces that the fragmenter cuts a list into, from a position on.\<close>

function pieces :: "int list \<Rightarrow> int list list" where
  "pieces xs = (if xs = [] then [] else take GOOD_SUBCHUNK_COUNT xs # pieces (drop GOOD_SUBCHUNK_COUNT xs))"
  by pat_completeness auto
termination by (relation "measure length") (auto simp: GOOD_SUBCHUNK_COUNT_def)

declare pieces.simps [simp del] buildFragment.simps [simp del]

lemma pieces_props:
  "concat (pieces xs) = xs \<and> (\<forall>p \<in> set (pieces xs). p \<noteq> [] \<and> length p \<le> GOOD_SUBCHUNK_COUNT)
   \<and> length (pieces xs) = (length xs + (GOOD_SUBCHUNK_COUNT - 1)) div GOOD_SUBCHUNK_COUNT"
proof (induction xs rule: pieces.induct)
  case (1 xs)
  show ?case
  proof (cases "xs = []")
    case True
    then show ?thesis by (simp add: pieces.simps GOOD_SUBCHUNK_COUNT_def)
  next
    case False
    then have "Suc ((length xs - 20 + 19) div 20) = (length xs + 19) div 20"
    proof (cases "20 \<le> length xs")
      case True
      then have "length xs + 19 = (length xs - 20 + 19) + 20" by simp
      then show ?thesis by (metis One_nat_def add.commute div_add_self2 plus_1_eq_Suc zero_neq_numeral)
    next
      case False
      then have "(length xs + 19) div 20 = 1" using \<open>xs \<noteq> []\<close> length_greater_0_conv [of xs] by (intro div_nat_eqI) (simp_all add: Suc_le_eq)
      then show ?thesis using False by simp
    qed
    then show ?thesis using 1 [OF False] False
      by (auto simp: pieces.simps [of xs] GOOD_SUBCHUNK_COUNT_def)
  qed
qed

definition chunkOnly :: "queryMapping \<Rightarrow> bool" where
  "chunkOnly m \<longleftrightarrow> (\<forall>i \<in> set (qm_subs m). snd i = CHUNK)"

lemma initMap_chunkOnly: "\<forall>i \<in> set subs. snd i = CHUNK \<Longrightarrow> initMap c sc subs = initMap c sc' subs"
  by (induction c sc subs rule: initMap.induct) (auto simp: lookup_param_def)

lemma applyAll_chunkOnly:
  "chunkOnly m \<Longrightarrow> cs_chunkId s = cs_chunkId s' \<Longrightarrow> applyAll m s ts = applyAll m s' ts"
proof (induction ts)
  case (Cons t ts)
  have "newMapping (qm_subs m) s = newMapping (qm_subs m) s'"
    using Cons.prems initMap_chunkOnly unfolding newMapping_def chunkOnly_def by metis
  then have "mapping_apply m s t = mapping_apply m s' t" by (simp add: mapping_apply_def)
  then show ?case using Cons by (simp split: sum.split)
qed simp

definition sessionOk :: "querySession \<Rightarrow> queryMapping \<Rightarrow> bool" where
  "sessionOk qs m \<longleftrightarrow> qs_hasStmt qs \<and> qs_queryMapping qs = Some m \<and> chunkOnly m"

lemma buildChunkQueries_same:
  "sessionOk qs m \<Longrightarrow> cs_chunkId s = cs_chunkId s' \<Longrightarrow> buildChunkQueries qs ts s = buildChunkQueries qs ts s'"
  using applyAll_chunkOnly [of m s s'] by (simp add: buildChunkQueries_def sessionOk_def)

lemma fragmenter_get_piece:
  "fragmenter_get f = \<lparr> cs_chunkId = cs_chunkId (fg_original f),
     cs_subChunks = take GOOD_SUBCHUNK_COUNT (drop (fg_pos f) (cs_subChunks (fg_original f))) \<rparr>"
  by (auto simp: fragmenter_get_def Let_def min_def)

lemma buildFragment_chain:
  assumes "sessionOk qs m" "buildChunkQueries qs ts (fg_original f) = Inr q"
  shows "\<exists>nxt. buildFragment qs ts f = Inr nxt
    \<and> chainOf nxt = map (\<lambda>p. (p, q)) (pieces (drop (fg_pos f) (cs_subChunks (fg_original f))))"
  using assms
proof (induction qs ts f rule: buildFragment.induct)
  case (1 qs ts f)
  show ?case
  proof (cases "fragmenter_isDone f")
    case True
    then show ?thesis by (simp add: buildFragment.simps fragmenter_isDone_def pieces.simps)
  next
    case False
    have q: "buildChunkQueries qs ts (fragmenter_get f) = Inr q"
      using buildChunkQueries_same [OF 1(2), of "fragmenter_get f" "fg_original f" ts] 1(3) by (simp add: fragmenter_get_piece)
    have n: "fg_original (fragmenter_next f) = fg_original f" "fg_pos (fragmenter_next f) = fg_pos f + GOOD_SUBCHUNK_COUNT"
      by (simp_all add: fragmenter_next_def)
    obtain nxt where nxt: "buildFragment qs ts (fragmenter_next f) = Inr nxt"
      "chainOf nxt = map (\<lambda>p. (p, q)) (pieces (drop (fg_pos f + GOOD_SUBCHUNK_COUNT) (cs_subChunks (fg_original f))))"
      using 1(1) [OF False refl q 1(2)] 1(3) by (auto simp: n)
    let ?rest = "drop (fg_pos f) (cs_subChunks (fg_original f))"
    have "?rest \<noteq> []" using False by (simp add: fragmenter_isDone_def)
    then have "pieces ?rest = take GOOD_SUBCHUNK_COUNT ?rest
        # pieces (drop (fg_pos f + GOOD_SUBCHUNK_COUNT) (cs_subChunks (fg_original f)))"
      by (simp add: pieces.simps [of ?rest] add.commute)
    then show ?thesis
      using False q nxt by (simp add: buildFragment.simps [of qs ts f] Let_def newFragmentSpec_def fragmenter_get_piece specChain_unfold)
  qed
qed

lemma buildChunkQuerySpec_chain:
  assumes "sessionOk qs m" "mapping_hasSubChunks m" "buildChunkQueries qs ts s = Inr q"
  shows "\<exists>spec. buildChunkQuerySpec qs ts s = Inr spec \<and> cq_chunkId spec = cs_chunkId s \<and> cq_db spec = qs_dominantDb qs
    \<and> specChain spec = (if cs_subChunks s = [] then [([], q)] else map (\<lambda>p. (p, q)) (pieces (cs_subChunks s)))"
proof (cases "shouldSplit s")
  case True
  then have ne: "cs_subChunks s \<noteq> []" by (auto simp: shouldSplit_def)
  let ?f = "newFragmenter s"
  have q: "buildChunkQueries qs ts (fragmenter_get ?f) = Inr q"
    using buildChunkQueries_same [OF assms(1), of "fragmenter_get ?f" s ts] assms(3) by (simp add: fragmenter_get_piece newFragmenter_def)
  obtain nxt where nxt: "buildFragment qs ts (fragmenter_next ?f) = Inr nxt"
    "chainOf nxt = map (\<lambda>p. (p, q)) (pieces (drop GOOD_SUBCHUNK_COUNT (cs_subChunks s)))"
    using buildFragment_chain [OF assms(1), of ts "fragmenter_next ?f" q] assms(3)
    by (auto simp: fragmenter_next_def newFragmenter_def)
  then show ?thesis using True ne q assms(1,2)
    by (simp add: buildChunkQuerySpec_def sessionOk_def Let_def specChain_unfold pieces.simps [of "cs_subChunks s"]
        fragmenter_get_piece newFragmenter_def)
next
  case False
  then have "pieces (cs_subChunks s) = [cs_subChunks s]" if "cs_subChunks s \<noteq> []"
    using that by (simp add: pieces.simps [of "cs_subChunks s"] pieces.simps [of "[]"] shouldSplit_def)
  then show ?thesis using False assms
    by (auto simp: buildChunkQuerySpec_def sessionOk_def Let_def specChain_unfold)
qed

section \<open>The worker's queries\<close>

text \<open>The message at the worker: \<open>subchunks\<close> is set in every fragment.\<close>

definition runnerFragments :: "taskMessage \<Rightarrow> fragment list" where
  "runnerFragments msg = map (\<lambda>f. \<lparr> fr_query = fm_query f, fr_subchunks = Some (fm_id f) \<rparr>) (msgFragment msg)"

lemma fragments_makeMsg:
  "msgFragment (makeMsg session spec name queryId jobId attempt)
     = map (\<lambda>(ids, qs). addFragment (if name \<noteq> [] then name else ''Asdfasfd'') (cq_subChunkTables spec) ids qs) (specChain spec)"
  by (cases "cq_nextFragment spec") (simp_all add: makeMsg_def Let_def specChain_unfold)

lemma mset_queries_append:
  "mset [f x i. x \<leftarrow> q, i \<leftarrow> a @ b] = mset [f x i. x \<leftarrow> q, i \<leftarrow> a] + mset [f x i. x \<leftarrow> q, i \<leftarrow> b]"
  by (induction q) auto

lemma taskQueries_pieces:
  assumes "\<forall>p \<in> set ps. p \<noteq> []"
  shows "mset (taskQueries env (map (\<lambda>p. \<lparr> fr_query = q, fr_subchunks = Some p \<rparr>) ps))
    = mset [re_subst env x i. x \<leftarrow> q, i \<leftarrow> concat ps]"
  using assms
proof (induction ps)
  case Nil
  then show ?case by (simp add: taskQueries_def)
next
  case (Cons p ps)
  have "fragmentQueries env \<lparr> fr_query = q, fr_subchunks = Some p \<rparr> = [re_subst env x i. x \<leftarrow> q, i \<leftarrow> p]"
    using Cons.prems by (simp add: fragmentQueries_def)
  then show ?case
    using Cons mset_queries_append [where f = "re_subst env" and q = q and a = p and b = "concat ps"]
    by (simp add: taskQueries_def)
qed

lemma task_fragments:
  assumes "sessionOk qs m" "mapping_hasSubChunks m" "buildChunkQueries qs ts s = Inr q" "cs_subChunks s \<noteq> []"
    "buildChunkQuerySpec qs ts s = Inr spec"
  shows "map (\<lambda>f. (fm_id f, fm_query f)) (msgFragment (makeMsg session spec name queryId jobId attempt))
    = map (\<lambda>p. (p, q)) (pieces (cs_subChunks s))"
  using buildChunkQuerySpec_chain [OF assms(1-3)] assms(4,5)
  by (auto simp: fragments_makeMsg addFragment_def comp_def)

section \<open>Properties\<close>

text \<open>
  The message for a chunk of a query with subchunk tables carries all subchunks of the chunk, in order and once, in fragments of
  at most twenty, as few as possible, and every fragment has the statements of the chunk.
\<close>

theorem subchunks_cut_into_fragments:
  assumes "sessionOk qs m" "mapping_hasSubChunks m" "buildChunkQueries qs ts s = Inr q" "cs_subChunks s \<noteq> []"
  shows "\<exists>spec. buildChunkQuerySpec qs ts s = Inr spec
    \<and> (let msg = makeMsg session spec name queryId jobId attempt; fs = msgFragment msg
       in msgChunkId msg = Some (cs_chunkId s) \<and> concat (map fm_id fs) = cs_subChunks s
        \<and> (\<forall>f \<in> set fs. fm_query f = q \<and> fm_id f \<noteq> [] \<and> length (fm_id f) \<le> 20)
        \<and> length fs = (length (cs_subChunks s) + 19) div 20)"
proof -
  obtain spec where spec: "buildChunkQuerySpec qs ts s = Inr spec" "cq_chunkId spec = cs_chunkId s"
    using buildChunkQuerySpec_chain [OF assms(1-3)] by blast
  let ?fs = "msgFragment (makeMsg session spec name queryId jobId attempt)"
  note tf = task_fragments [OF assms spec(1), of session name queryId jobId attempt]
  have ids: "map fm_id ?fs = pieces (cs_subChunks s)" using arg_cong [OF tf, of "map fst"] by (simp add: comp_def)
  have "fm_query f = q \<and> fm_id f \<noteq> [] \<and> length (fm_id f) \<le> 20" if "f \<in> set ?fs" for f
  proof -
    have "(fm_id f, fm_query f) \<in> set (map (\<lambda>p. (p, q)) (pieces (cs_subChunks s)))"
      using that unfolding tf [symmetric] by auto
    then show ?thesis using pieces_props [of "cs_subChunks s"] by (auto simp: GOOD_SUBCHUNK_COUNT_def)
  qed
  moreover have "length ?fs = (length (cs_subChunks s) + 19) div 20"
    using arg_cong [OF ids, of length] pieces_props [of "cs_subChunks s"] by (simp add: GOOD_SUBCHUNK_COUNT_def)
  moreover have "msgChunkId (makeMsg session spec name queryId jobId attempt) = Some (cs_chunkId s)"
    by (simp add: makeMsg_def Let_def spec(2))
  ultimately show ?thesis using spec(1) ids pieces_props [of "cs_subChunks s"] by (auto simp: Let_def)
qed

text \<open>
  C6. Czar and worker together: when the query runner runs the task of the message, the queries that it passes to MySQL are among
  those of the statements of the chunk with each of its subchunks put in, none of them more than once. If the task is not cancelled
  and the chunk resources are acquired, they are exactly these queries, each once, whether or not MySQL refuses some of them.
\<close>

theorem subchunks_queried_once:
  assumes "sessionOk qs m" "mapping_hasSubChunks m" "buildChunkQueries qs ts s = Inr q" "cs_subChunks s \<noteq> []"
    "buildChunkQuerySpec qs ts s = Inr spec" "msg = makeMsg session spec name queryId jobId attempt"
    "re_fragments env = runnerFragments msg" "re_protocol env = Some (msgProtocol msg)" "re_connect env = None"
  shows "\<exists>ok r. runQuery env False False newQueryRunner = Inr (ok, r)
    \<and> mset (qn_ran r) \<subseteq># mset [re_subst env x i. x \<leftarrow> q, i \<leftarrow> cs_subChunks s]
    \<and> (neverCancelled env \<and> (\<forall>i. re_acquire env i = None) \<longrightarrow>
         mset (qn_ran r) = mset [re_subst env x i. x \<leftarrow> q, i \<leftarrow> cs_subChunks s])"
proof -
  have "runnerFragments msg = map (\<lambda>(ids, qs). \<lparr> fr_query = qs, fr_subchunks = Some ids \<rparr>) (map (\<lambda>f. (fm_id f, fm_query f)) (msgFragment msg))"
    by (simp add: runnerFragments_def)
  also have "\<dots> = map (\<lambda>p. \<lparr> fr_query = q, fr_subchunks = Some p \<rparr>) (pieces (cs_subChunks s))"
    unfolding assms(6) task_fragments [OF assms(1-5)] by simp
  finally have fs: "re_fragments env = map (\<lambda>p. \<lparr> fr_query = q, fr_subchunks = Some p \<rparr>) (pieces (cs_subChunks s))"
    using assms(7) by simp
  then have ne: "re_fragments env \<noteq> []" using assms(4) by (simp add: pieces.simps [of "cs_subChunks s"])
  have tq: "mset (taskQueries env (re_fragments env)) = mset [re_subst env x i. x \<leftarrow> q, i \<leftarrow> cs_subChunks s]"
    using taskQueries_pieces [of "pieces (cs_subChunks s)" env q] pieces_props [of "cs_subChunks s"] by (simp add: fs)
  obtain ok r rest where r: "dispatchChannel env newQueryRunner = Inr (ok, r)"
    "qn_ran r @ rest = taskQueries env (re_fragments env)" "neverCancelled env \<and> (\<forall>i. re_acquire env i = None) \<longrightarrow> rest = []"
    using dispatchChannel_ran [OF ne] by blast
  have "runQuery env False False newQueryRunner = Inr (ok, r)"
    using r(1) assms(6,8,9) by (simp add: runQuery_def makeMsg_def Let_def)
  moreover have "mset (qn_ran r) + mset rest = mset [re_subst env x i. x \<leftarrow> q, i \<leftarrow> cs_subChunks s]"
    unfolding tq [symmetric] r(2) [symmetric] by simp
  ultimately show ?thesis using r(3) by (metis add.right_neutral mset.simps(1) mset_subset_eq_add_left)
qed

text \<open>A near neighbour query on a chunk with twenty-five subchunks.\<close>

definition CHUNK_TAG :: string where
  "CHUNK_TAG = ''%C'' @ [CHR 0x07] @ ''C%''"

definition demoMapping :: queryMapping where
  "demoMapping = insertSubChunkTable (''LSST'', ''Object'') (insertChunkEntry CHUNK_TAG newQueryMapping)"

definition demoSession :: querySession where
  "demoSession = \<lparr> qs_hasStmt = True, qs_queryMapping = Some demoMapping, qs_dominantDb = ''LSST'',
     qs_scanInfo = \<lparr> infoTables = [], scanRating = 0 \<rparr>, qs_scanInteractive = False \<rparr>"

definition demoTemplate :: queryTemplate where
  "demoTemplate = [StringEntry ''SELECT'', StringEntry ''*'', StringEntry ''FROM'', TableEntry ''S'' (''Object_'' @ CHUNK_TAG)]"

definition demoSpec :: chunkSpec where
  "demoSpec = \<lparr> cs_chunkId = 713, cs_subChunks = map int [1..<26] \<rparr>"

lemma demo_queries: "buildChunkQueries demoSession [demoTemplate] demoSpec = Inr [''SELECT * FROM S.Object_713'']"
  by code_simp

lemma demo_session: "sessionOk demoSession demoMapping" "mapping_hasSubChunks demoMapping" "cs_subChunks demoSpec \<noteq> []"
  by (simp_all add: sessionOk_def demoSession_def chunkOnly_def demoMapping_def newQueryMapping_def insertChunkEntry_def
      insertSubChunkTable_def mapping_hasSubChunks_def demoSpec_def)

theorem subchunks_cut_into_fragments_witness:
  "\<exists>spec. buildChunkQuerySpec demoSession [demoTemplate] demoSpec = Inr spec
    \<and> concat (map fm_id (msgFragment (makeMsg 5 spec [] 6 7 0))) = map int [1..<26]
    \<and> length (msgFragment (makeMsg 5 spec [] 6 7 0)) = 2"
  using subchunks_cut_into_fragments [OF demo_session(1,2) demo_queries demo_session(3), of 5 "[]" 6 7 0]
  by (auto simp: Let_def demoSpec_def)

theorem subchunks_queried_once_witness:
  "\<exists>spec ok r. buildChunkQuerySpec demoSession [demoTemplate] demoSpec = Inr spec
    \<and> runQuery ((demoRunnerEnv length)\<lparr> re_fragments := runnerFragments (makeMsg 5 spec [] 6 7 0) \<rparr>) False False newQueryRunner = Inr (ok, r)
    \<and> mset (qn_ran r) = mset [re_subst (demoRunnerEnv length) x i. x \<leftarrow> [''SELECT * FROM S.Object_713''], i \<leftarrow> map int [1..<26]]"
proof -
  obtain spec where spec: "buildChunkQuerySpec demoSession [demoTemplate] demoSpec = Inr spec"
    using buildChunkQuerySpec_chain [OF demo_session(1,2) demo_queries] by blast
  let ?env = "(demoRunnerEnv length)\<lparr> re_fragments := runnerFragments (makeMsg 5 spec [] 6 7 0) \<rparr>"
  have env: "re_protocol ?env = Some (msgProtocol (makeMsg 5 spec [] 6 7 0))" "re_connect ?env = None" "neverCancelled ?env"
    "\<forall>i. re_acquire ?env i = None" "re_subst ?env = re_subst (demoRunnerEnv length)" "cs_subChunks demoSpec = map int [1..<26]"
    by (simp_all add: demoRunnerEnv_def makeMsg_def neverCancelled_def demoSpec_def Let_def)
  have "re_fragments ?env = runnerFragments (makeMsg 5 spec [] 6 7 0)" by simp
  from subchunks_queried_once [OF demo_session(1,2) demo_queries demo_session(3) spec refl this env(1,2)]
  show ?thesis using spec env(3-6) by metis
qed

end
