(* ===== verification/Worker_Resources.thy ===== *)
theory Worker_Resources
  imports Prelude "HOL-Library.Char_ord" "HOL-Library.List_Lexorder"
begin

text \<open>
  The resources of a worker: the paths by which XRootD names them (\<open>global/ResourceUnit\<close>), the inventory of
  chunks (\<open>wpublish/ChunkInventory\<close>), the counters of resources in use (\<open>wpublish/ResourceMonitor\<close>), the provider that
  answers XRootD (\<open>xrdsvc/SsiProvider\<close>), the part of \<open>xrdsvc/SsiRequest\<close> that checks and counts them, and the
  commands that change the inventory (\<open>AddChunkGroupCommand\<close>, \<open>RemoveChunkGroupCommand\<close>, \<open>SetChunkListCommand\<close>). The database behind the
  inventory is a parameter; what is sent to the cluster manager is recorded in order.

  The lemmas show that paths can be read back, that a chunk is present exactly if it was added last,
  what the commands leave in the inventory, and how the counters relate to the requests in progress.
\<close>

section \<open>ResourceUnit\<close>

datatype unitType = GARBAGE | DBCHUNK | CQUERY | UNKNOWN | RESULT | WORKER

record resourceUnit =
  ru_unitType :: unitType
  ru_db :: string
  ru_chunk :: int
  ru_hashName :: string
  ru_vars :: "(string, string) omap"

datatype pathError = AssertFailed

definition slash :: char where "slash = CHR ''/''"

text \<open>
  The \<open>Tokenizer\<close> is given by its separator and the text from the cursor on. \<open>next()\<close> asserts that there is a further
  separator.
\<close>

definition token :: "char \<Rightarrow> string \<Rightarrow> string" where
  "token sep t = takeWhile (\<lambda>c. c \<noteq> sep) t"

definition tok_done :: "char \<Rightarrow> string \<Rightarrow> bool" where
  "tok_done sep t \<longleftrightarrow> sep \<notin> set t"

definition tok_next :: "char \<Rightarrow> string \<Rightarrow> pathError + string" where
  "tok_next sep t = (if tok_done sep t then Inl AssertFailed else Inr (tl (dropWhile (\<lambda>c. c \<noteq> sep) t)))"

lemma tok_next_shorter: "tok_next sep t = Inr t' \<Longrightarrow> length t' < length t"
proof -
  assume a: "tok_next sep t = Inr t'"
  then have "sep \<in> set t" by (auto simp: tok_next_def tok_done_def split: if_splits)
  then have "dropWhile (\<lambda>c. c \<noteq> sep) t \<noteq> []" by simp
  moreover have "length (dropWhile (\<lambda>c. c \<noteq> sep) t) \<le> length t" by (rule length_dropWhile_le)
  ultimately show ?thesis using a by (cases "dropWhile (\<lambda>c. c \<noteq> sep) t") (auto simp: tok_next_def split: if_splits)
qed

text \<open>
  \<open>std::istringstream >> int\<close>: blanks, a sign and digits are read; without digits the result is zero, and a number that does not
  fit is cut off at the limits.
\<close>

definition is_digit :: "char \<Rightarrow> bool" where
  "is_digit c \<longleftrightarrow> CHR ''0'' \<le> c \<and> c \<le> CHR ''9''"

definition is_blank :: "char \<Rightarrow> bool" where
  "is_blank c \<longleftrightarrow> c = CHR '' '' \<or> (CHR 0x09 \<le> c \<and> c \<le> CHR 0x0D)"

definition stream_to_int :: "string \<Rightarrow> int" where
  "stream_to_int s =
     (let t = dropWhile is_blank s;
          neg = (t \<noteq> [] \<and> hd t = CHR ''-'');
          u = (if t \<noteq> [] \<and> (hd t = CHR ''-'' \<or> hd t = CHR ''+'') then tl t else t);
          n = int (string_to_nat (takeWhile is_digit u))
      in max (- (2 ^ 31)) (min (2 ^ 31 - 1) (if neg then - n else n)))"

definition prefix_of :: "unitType \<Rightarrow> string" where
  "prefix_of r = (case r of
       DBCHUNK \<Rightarrow> ''chk''
     | CQUERY \<Rightarrow> ''q''
     | UNKNOWN \<Rightarrow> ''UNKNOWN''
     | RESULT \<Rightarrow> ''result''
     | WORKER \<Rightarrow> ''worker''
     | GARBAGE \<Rightarrow> ''GARBAGE'')"

definition path :: "resourceUnit \<Rightarrow> string" where
  "path u =
     (let ss = [slash] @ prefix_of (ru_unitType u)
      in case ru_unitType u of
           GARBAGE \<Rightarrow> ''/GARBAGE''
         | DBCHUNK \<Rightarrow> ss @ [slash] @ ru_db u @ (if ru_chunk u \<noteq> -1 then [slash] @ int_to_string (ru_chunk u) else [])
         | CQUERY \<Rightarrow> ss @ [slash] @ ru_db u @ (if ru_chunk u \<noteq> -1 then [slash] @ int_to_string (ru_chunk u) else [])
         | UNKNOWN \<Rightarrow> ss @ [slash] @ ''UNKNOWN_RESOURCE_UNIT''
         | RESULT \<Rightarrow> ss @ ru_hashName u
         | WORKER \<Rightarrow> ss @ ru_hashName u)"

definition var :: "string \<Rightarrow> resourceUnit \<Rightarrow> string" where
  "var key u = (case omap_find (ru_vars u) key of Some v \<Rightarrow> v | None \<Rightarrow> [])"

definition makePath :: "int \<Rightarrow> string \<Rightarrow> string" where
  "makePath chunk db = ''/'' @ prefix_of DBCHUNK @ ''/'' @ db @ ''/'' @ int_to_string chunk"

definition makeWorkerPath :: "string \<Rightarrow> string" where
  "makeWorkerPath wid = ''/'' @ prefix_of WORKER @ ''/'' @ wid"

definition setAsDbChunk :: "string \<Rightarrow> int \<Rightarrow> resourceUnit \<Rightarrow> resourceUnit" where
  "setAsDbChunk db chunk u = u\<lparr> ru_unitType := DBCHUNK, ru_db := db, ru_chunk := chunk \<rparr>"

definition setAsCquery :: "string \<Rightarrow> int \<Rightarrow> resourceUnit \<Rightarrow> resourceUnit" where
  "setAsCquery db chunk u = u\<lparr> ru_unitType := CQUERY, ru_db := db, ru_chunk := chunk \<rparr>"

definition ingestKeyStr :: "string \<Rightarrow> (string, string) omap \<Rightarrow> (string, string) omap" where
  "ingestKeyStr keyStr vars =
     (if CHR ''='' \<notin> set keyStr then omap_set keyStr [] vars
      else omap_set (takeWhile (\<lambda>c. c \<noteq> CHR ''='') keyStr) (tl (dropWhile (\<lambda>c. c \<noteq> CHR ''='') keyStr)) vars)"

text \<open>The loop of \<open>_ingestLeafAndKeys\<close>: \<open>defn\<close> is set once and not in the loop.\<close>

function ingestLoop :: "string \<Rightarrow> string \<Rightarrow> (string, string) omap \<Rightarrow> pathError + (string, string) omap" where
  "ingestLoop defn t vars =
     (if defn = [] then Inr vars
      else case tok_next (CHR ''&'') t of
             Inl e \<Rightarrow> Inl e
           | Inr t' \<Rightarrow> ingestLoop defn t' (ingestKeyStr defn vars))"
  by pat_completeness auto
termination by (relation "measure (\<lambda>(defn, t, vars). length t)") (auto dest: tok_next_shorter)

declare ingestLoop.simps [simp del]

definition ingestLeafAndKeys :: "string \<Rightarrow> resourceUnit \<Rightarrow> pathError + resourceUnit" where
  "ingestLeafAndKeys leaf u =
     (let u = u\<lparr> ru_vars := [] \<rparr>
      in if CHR ''?'' \<notin> set leaf then Inr u
         else let t = tl (dropWhile (\<lambda>c. c \<noteq> CHR ''?'') leaf)
              in map_sum id (\<lambda>vars. u\<lparr> ru_vars := vars \<rparr>) (ingestLoop (token (CHR ''&'') t) t []))"

definition setChunkFromPath :: "unitType \<Rightarrow> string \<Rightarrow> resourceUnit \<Rightarrow> pathError + resourceUnit" where
  "setChunkFromPath ty t u =
     (case tok_next slash t of
        Inl _ \<Rightarrow> Inr (u\<lparr> ru_unitType := GARBAGE \<rparr>)
      | Inr t2 \<Rightarrow>
          let u = u\<lparr> ru_unitType := ty, ru_db := token slash t2 \<rparr>
          in if ru_db u = [] then Inr (u\<lparr> ru_unitType := GARBAGE \<rparr>)
             else case tok_next slash t2 of
                    Inl _ \<Rightarrow> Inr (u\<lparr> ru_unitType := GARBAGE \<rparr>)
                  | Inr t3 \<Rightarrow>
                      if token slash t3 = [] then Inr (u\<lparr> ru_unitType := GARBAGE \<rparr>)
                      else ingestLeafAndKeys (token slash t3) (u\<lparr> ru_chunk := stream_to_int (token slash t3) \<rparr>))"

definition setHashFromPath :: "unitType \<Rightarrow> string \<Rightarrow> resourceUnit \<Rightarrow> resourceUnit" where
  "setHashFromPath ty t u =
     (case tok_next slash t of
        Inl _ \<Rightarrow> u\<lparr> ru_unitType := GARBAGE \<rparr>
      | Inr t2 \<Rightarrow> u\<lparr> ru_unitType := (if token slash t2 = [] then GARBAGE else ty), ru_hashName := token slash t2 \<rparr>)"

definition newResourceUnit :: resourceUnit where
  "newResourceUnit = \<lparr> ru_unitType = GARBAGE, ru_db = [], ru_chunk = -1, ru_hashName = [], ru_vars = [] \<rparr>"

definition setFromPath :: "string \<Rightarrow> resourceUnit \<Rightarrow> pathError + resourceUnit" where
  "setFromPath p u =
     (if token slash p \<noteq> [] then Inr (u\<lparr> ru_unitType := UNKNOWN \<rparr>)
      else case tok_next slash p of
             Inl _ \<Rightarrow> Inr (u\<lparr> ru_unitType := GARBAGE \<rparr>)
           | Inr t \<Rightarrow>
               let rTypeString = token slash t
               in if rTypeString = prefix_of DBCHUNK then setChunkFromPath DBCHUNK t u
                  else if rTypeString = prefix_of CQUERY then setChunkFromPath CQUERY t u
                  else if rTypeString = prefix_of RESULT then Inr (setHashFromPath RESULT t u)
                  else if rTypeString = prefix_of WORKER then Inr (setHashFromPath WORKER t u)
                  else Inr (u\<lparr> ru_unitType := GARBAGE \<rparr>))"

definition resourceFromPath :: "string \<Rightarrow> pathError + resourceUnit" where
  "resourceFromPath p = setFromPath p newResourceUnit"

section \<open>ChunkInventory\<close>

type_synonym chunkMap = "(int, unit) omap"
type_synonym existMap = "(string, chunkMap) omap"

record chunkInventory =
  ci_existMap :: existMap
  ci_name :: string
  ci_id :: string

definition existMap_at :: "existMap \<Rightarrow> string \<Rightarrow> chunkMap" where
  "existMap_at m db = (case omap_find m db of None \<Rightarrow> [] | Some s \<Rightarrow> s)"

definition existMap_insert :: "string \<Rightarrow> int \<Rightarrow> existMap \<Rightarrow> existMap" where
  "existMap_insert db chunk m = omap_set db (omap_set chunk () (existMap_at m db)) m"

definition inv_add :: "string \<Rightarrow> int \<Rightarrow> chunkInventory \<Rightarrow> chunkInventory" where
  "inv_add db chunk ci = ci\<lparr> ci_existMap := existMap_insert db chunk (ci_existMap ci) \<rparr>"

definition inv_remove :: "string \<Rightarrow> int \<Rightarrow> chunkInventory \<Rightarrow> chunkInventory" where
  "inv_remove db chunk ci =
     (case omap_find (ci_existMap ci) db of
        None \<Rightarrow> ci
      | Some chunks \<Rightarrow>
          if omap_find chunks chunk = None then ci
          else ci\<lparr> ci_existMap := omap_set db (omap_erase chunk chunks) (ci_existMap ci) \<rparr>)"

definition inv_has :: "string \<Rightarrow> int \<Rightarrow> chunkInventory \<Rightarrow> bool" where
  "inv_has db chunk ci =
     (case omap_find (ci_existMap ci) db of
        None \<Rightarrow> False
      | Some chunks \<Rightarrow> omap_find chunks chunk \<noteq> None)"

definition resetId :: "string \<Rightarrow> chunkInventory \<Rightarrow> chunkInventory" where
  "resetId i ci = ci\<lparr> ci_id := i \<rparr>"

text \<open>The database of the worker: the databases it has, and whether a statement succeeds.\<close>

record inventoryDb =
  db_names :: "string list"
  db_runQuery :: "string \<Rightarrow> bool"

datatype inventoryError = InvalidParamError | QueryError

definition deleteQuery :: "string \<Rightarrow> int \<Rightarrow> chunkInventory \<Rightarrow> string" where
  "deleteQuery db chunk ci = ''DELETE FROM qservw_'' @ ci_name ci @ ''.Chunks WHERE db='' @ [CHR 0x27] @ db @ [CHR 0x27]
     @ '' AND chunk='' @ int_to_string chunk"

definition insertQuery :: "string \<Rightarrow> int \<Rightarrow> chunkInventory \<Rightarrow> string" where
  "insertQuery db chunk ci = ''INSERT INTO qservw_'' @ ci_name ci @ ''.Chunks (db,chunk) VALUES ('' @ [CHR 0x27] @ db
     @ [CHR 0x27] @ '','' @ int_to_string chunk @ '')''"

definition inv_addDb :: "inventoryDb \<Rightarrow> string \<Rightarrow> int \<Rightarrow> chunkInventory \<Rightarrow> inventoryError + chunkInventory" where
  "inv_addDb sc db chunk ci =
     (if db \<notin> set (db_names sc) then Inl InvalidParamError
      else if \<not> db_runQuery sc (deleteQuery db chunk ci) then Inl QueryError
      else if \<not> db_runQuery sc (insertQuery db chunk ci) then Inl QueryError
      else Inr (inv_add db chunk ci))"

definition inv_removeDb :: "inventoryDb \<Rightarrow> string \<Rightarrow> int \<Rightarrow> chunkInventory \<Rightarrow> inventoryError + chunkInventory" where
  "inv_removeDb sc db chunk ci =
     (if \<not> db_runQuery sc (deleteQuery db chunk ci) then Inl QueryError
      else Inr (inv_remove db chunk ci))"

text \<open>\<open>operator-\<close>: an entry of the result is made by the first chunk that is missing, or is the whole entry.\<close>

definition missingChunk :: "chunkMap \<Rightarrow> string \<Rightarrow> int \<times> unit \<Rightarrow> existMap \<Rightarrow> existMap" where
  "missingChunk chunks db c result =
     (if omap_find chunks (fst c) = None then existMap_insert db (fst c) result else result)"

definition missingChunks :: "existMap \<Rightarrow> string \<times> chunkMap \<Rightarrow> existMap \<Rightarrow> existMap" where
  "missingChunks rhs entry result =
     (case omap_find rhs (fst entry) of
        Some chunks \<Rightarrow> fold (missingChunk chunks (fst entry)) (snd entry) result
      | None \<Rightarrow> omap_set (fst entry) (snd entry) result)"

definition inv_minus :: "chunkInventory \<Rightarrow> chunkInventory \<Rightarrow> existMap" where
  "inv_minus lhs rhs = fold (missingChunks (ci_existMap rhs)) (ci_existMap lhs) []"

section \<open>ResourceMonitor\<close>

definition mon_increment :: "string \<Rightarrow> (string, nat) omap \<Rightarrow> (string, nat) omap" where
  "mon_increment r m = omap_set r ((case omap_find m r of None \<Rightarrow> 0 | Some n \<Rightarrow> n) + 1) m"

definition mon_decrement :: "string \<Rightarrow> (string, nat) omap \<Rightarrow> (string, nat) omap" where
  "mon_decrement r m =
     (case omap_find m r of
        None \<Rightarrow> m
      | Some n \<Rightarrow> let m = omap_set r (n - 1) m in if n - 1 = 0 then omap_erase r m else m)"

definition mon_count :: "string \<Rightarrow> (string, nat) omap \<Rightarrow> nat" where
  "mon_count r m = (case omap_find m r of Some n \<Rightarrow> n | None \<Rightarrow> 0)"

definition mon_countChunk :: "int \<Rightarrow> string \<Rightarrow> (string, nat) omap \<Rightarrow> nat" where
  "mon_countChunk chunk db m = mon_count (makePath chunk db) m"

definition mon_countChunks :: "int \<Rightarrow> string list \<Rightarrow> (string, nat) omap \<Rightarrow> nat" where
  "mon_countChunks chunk dbs m = sum_list (map (\<lambda>db. mon_countChunk chunk db m) dbs)"

section \<open>The provider\<close>

datatype rStat = isPresent | notPresent

definition QueryResource :: "string \<Rightarrow> chunkInventory \<Rightarrow> pathError + rStat" where
  "QueryResource rName ci =
     map_sum id (\<lambda>ru.
       if ru_unitType ru = DBCHUNK then (if inv_has (ru_db ru) (ru_chunk ru) ci then isPresent else notPresent)
       else if ru_unitType ru = WORKER
       then (if ci_id ci \<noteq> [] \<and> ci_id ci = ru_hashName ru then isPresent else notPresent)
       else notPresent) (resourceFromPath rName)"

definition ResourceAdded :: "string \<Rightarrow> chunkInventory \<Rightarrow> pathError + chunkInventory" where
  "ResourceAdded rName ci =
     map_sum id (\<lambda>ru.
       if ru_unitType ru = DBCHUNK then inv_add (ru_db ru) (ru_chunk ru) ci
       else if ru_unitType ru = WORKER then resetId (ru_hashName ru) ci
       else ci) (resourceFromPath rName)"

definition ResourceRemoved :: "string \<Rightarrow> chunkInventory \<Rightarrow> pathError + chunkInventory" where
  "ResourceRemoved rName ci =
     map_sum id (\<lambda>ru.
       if ru_unitType ru = DBCHUNK then inv_remove (ru_db ru) (ru_chunk ru) ci
       else if ru_unitType ru = WORKER then resetId [] ci
       else ci) (resourceFromPath rName)"

section \<open>Requests and commands\<close>

text \<open>
  The state of a worker: the inventory of Qserv, the provider's copy, which is used if \<open>DataContext\<close> is set, the
  counters, and the calls \<open>Added\<close> (\<open>True\<close>) and \<open>Removed\<close> of the cluster manager so far.
\<close>

record workerRes =
  wr_inventory :: chunkInventory
  wr_provider :: chunkInventory
  wr_dataContext :: bool
  wr_monitor :: "(string, nat) omap"
  wr_cluster :: "(bool \<times> string) list"

definition validator :: "resourceUnit \<Rightarrow> chunkInventory \<Rightarrow> bool" where
  "validator ru ci =
     (case ru_unitType ru of
        DBCHUNK \<Rightarrow> inv_has (ru_db ru) (ru_chunk ru) ci
      | WORKER \<Rightarrow> ci_id ci = ru_hashName ru
      | _ \<Rightarrow> False)"

datatype execOutcome = Unowned | DecodeFailed | Mismatched | TaskQueued | CommandQueued

text \<open>\<open>SsiRequest::execute\<close>; the message is \<open>None\<close> if it cannot be decoded, else its optional database and chunk.\<close>

definition request_execute ::
    "string \<Rightarrow> (string option \<times> int option) option \<Rightarrow> workerRes \<Rightarrow> pathError + (execOutcome \<times> workerRes)" where
  "request_execute rName msg w =
     map_sum id (\<lambda>ru.
       if \<not> validator ru (wr_inventory w) then (Unowned, w)
       else if ru_unitType ru = DBCHUNK
       then let w = w\<lparr> wr_monitor := mon_increment rName (wr_monitor w) \<rparr>
            in (case msg of
                  None \<Rightarrow> DecodeFailed
                | Some (db, chunk) \<Rightarrow> if db \<noteq> Some (ru_db ru) \<or> chunk \<noteq> Some (ru_chunk ru) then Mismatched else TaskQueued, w)
       else (CommandQueued, w)) (resourceFromPath rName)"

definition request_finished :: "string \<Rightarrow> workerRes \<Rightarrow> pathError + workerRes" where
  "request_finished rName w =
     map_sum id (\<lambda>ru.
       if ru_unitType ru = DBCHUNK then w\<lparr> wr_monitor := mon_decrement rName (wr_monitor w) \<rparr> else w)
       (resourceFromPath rName)"

datatype replyStatus = SUCCESS | INVALID | IN_USE | ERROR

definition errorStatus :: "inventoryError \<Rightarrow> replyStatus" where
  "errorStatus e = (case e of InvalidParamError \<Rightarrow> INVALID | QueryError \<Rightarrow> ERROR)"

text \<open>One turn of the loops of the commands: the cluster manager and the provider are told first, then the inventory changes.\<close>

definition addOne :: "inventoryDb \<Rightarrow> string \<times> int \<Rightarrow> workerRes \<Rightarrow> inventoryError option \<times> workerRes" where
  "addOne sc r w =
     (let w = w\<lparr> wr_cluster := wr_cluster w @ [(True, makePath (snd r) (fst r))] \<rparr>;
          w = (if wr_dataContext w then w\<lparr> wr_provider := inv_add (fst r) (snd r) (wr_provider w) \<rparr> else w)
      in case inv_addDb sc (fst r) (snd r) (wr_inventory w) of
           Inl e \<Rightarrow> (Some e, w)
         | Inr ci \<Rightarrow> (None, w\<lparr> wr_inventory := ci \<rparr>))"

definition removeOne :: "inventoryDb \<Rightarrow> string \<times> int \<Rightarrow> workerRes \<Rightarrow> inventoryError option \<times> workerRes" where
  "removeOne sc r w =
     (let w = w\<lparr> wr_cluster := wr_cluster w @ [(False, makePath (snd r) (fst r))] \<rparr>;
          w = (if wr_dataContext w then w\<lparr> wr_provider := inv_remove (fst r) (snd r) (wr_provider w) \<rparr> else w)
      in case inv_removeDb sc (fst r) (snd r) (wr_inventory w) of
           Inl e \<Rightarrow> (Some e, w)
         | Inr ci \<Rightarrow> (None, w\<lparr> wr_inventory := ci \<rparr>))"

fun untilError :: "('a \<Rightarrow> 's \<Rightarrow> 'e option \<times> 's) \<Rightarrow> 'a list \<Rightarrow> 's \<Rightarrow> 'e option \<times> 's" where
  "untilError f [] s = (None, s)"
| "untilError f (x # xs) s = (case f x s of (Some e, s') \<Rightarrow> (Some e, s') | (None, s') \<Rightarrow> untilError f xs s')"

definition addChunkGroup :: "inventoryDb \<Rightarrow> int \<Rightarrow> string list \<Rightarrow> workerRes \<Rightarrow> replyStatus \<times> workerRes" where
  "addChunkGroup sc chunk dbs w =
     (if dbs = [] then (INVALID, w)
      else case untilError (addOne sc) (map (\<lambda>db. (db, chunk)) dbs) w of
             (Some e, w) \<Rightarrow> (errorStatus e, w)
           | (None, w) \<Rightarrow> (SUCCESS, w))"

definition removeChunkGroup :: "inventoryDb \<Rightarrow> int \<Rightarrow> string list \<Rightarrow> bool \<Rightarrow> workerRes \<Rightarrow> replyStatus \<times> workerRes" where
  "removeChunkGroup sc chunk dbs force w =
     (if dbs = [] then (INVALID, w)
      else if \<not> force \<and> mon_countChunks chunk dbs (wr_monitor w) \<noteq> 0 then (IN_USE, w)
      else case untilError (removeOne sc) (map (\<lambda>db. (db, chunk)) dbs) w of
             (Some e, w) \<Rightarrow> (errorStatus e, w)
           | (None, w) \<Rightarrow> (if mon_countChunks chunk dbs (wr_monitor w) \<noteq> 0 then IN_USE else SUCCESS, w))"

definition mapPairs :: "existMap \<Rightarrow> (string \<times> int) list" where
  "mapPairs m = concat (map (\<lambda>(db, chunks). map (\<lambda>(c, _). (db, c)) chunks) m)"

definition setChunkList :: "inventoryDb \<Rightarrow> (string \<times> int) list \<Rightarrow> bool \<Rightarrow> workerRes \<Rightarrow> replyStatus \<times> workerRes" where
  "setChunkList sc chunks force w =
     (let ci = wr_inventory w;
          newInv = ci\<lparr> ci_existMap := fold (\<lambda>(db, c). existMap_insert db c) chunks [] \<rparr>;
          toBeRemoved = mapPairs (inv_minus ci newInv);
          toBeAdded = mapPairs (inv_minus newInv ci)
      in if \<not> force \<and> (\<exists>(db, c) \<in> set toBeRemoved. mon_countChunk c db (wr_monitor w) \<noteq> 0) then (IN_USE, w)
         else case untilError (removeOne sc) toBeRemoved w of
                (Some e, w) \<Rightarrow> (errorStatus e, w)
              | (None, w) \<Rightarrow>
                  (case untilError (addOne sc) toBeAdded w of
                     (Some e, w) \<Rightarrow> (errorStatus e, w)
                   | (None, w) \<Rightarrow> (SUCCESS, w)))"

section \<open>Paths\<close>

lemma token_simps:
  "sep \<notin> set a \<Longrightarrow> token sep (a @ sep # b) = a" "sep \<notin> set a \<Longrightarrow> token sep a = a" "token sep (sep # b) = []"
  "sep \<notin> set a \<Longrightarrow> tok_next sep (a @ sep # b) = Inr b" "tok_next sep (sep # b) = Inr b"
proof -
  show t: "token sep (a @ sep # b) = a" if "sep \<notin> set a" for a using that by (induction a) (auto simp: token_def)
  show "token sep a = a" if "sep \<notin> set a" using that by (auto simp: token_def takeWhile_eq_all_conv)
  show n: "tok_next sep (a @ sep # b) = Inr b" if "sep \<notin> set a" for a
    using that by (induction a) (auto simp: tok_next_def tok_done_def)
  show "token sep (sep # b) = []" "tok_next sep (sep # b) = Inr b" using t [of "[]"] n [of "[]"] by simp_all
qed

lemma prefix_slash: "slash \<notin> set (prefix_of k)"
  by (cases k) (simp_all add: prefix_of_def slash_def)

lemma prefix_inject: "prefix_of k = prefix_of l \<longleftrightarrow> k = l"
  by (cases k; cases l) (simp_all add: prefix_of_def)

lemma digits_nat_to_string: "c \<in> set (nat_to_string n) \<Longrightarrow> is_digit c"
  using nat_to_string_digits [of c n] by (auto simp: is_digit_def less_eq_char_def)

lemma nat_to_string_ne: "nat_to_string n \<noteq> []"
  by (subst nat_to_string.simps) simp

lemma stream_to_int_to_string:
  assumes "- (2 ^ 31) \<le> n" "n < 2 ^ 31"
  shows "stream_to_int (int_to_string n) = n"
proof -
  have d: "is_digit (hd (nat_to_string k))" "takeWhile is_digit (nat_to_string k) = nat_to_string k" for k
    using digits_nat_to_string hd_in_set [OF nat_to_string_ne] by (auto simp: takeWhile_eq_all_conv)
  have nd: "\<not> is_blank c" "c \<noteq> CHR ''-''" "c \<noteq> CHR ''+''" if "is_digit c" for c
    using that by (auto simp: is_digit_def is_blank_def less_eq_char_def)
  have "dropWhile is_blank (nat_to_string k) = nat_to_string k" for k
    using d(1) [of k] nd(1) nat_to_string_ne [of k] by (cases "nat_to_string k") auto
  moreover have "\<not> is_blank (CHR ''-'')" by (simp add: is_blank_def less_eq_char_def)
  moreover have "string_to_nat (takeWhile is_digit (nat_to_string k)) = k" for k by (simp add: d(2) string_to_nat_digits)
  ultimately show ?thesis
    using assms by (simp add: stream_to_int_def int_to_string_def Let_def nat_to_string_ne nd(2,3) [OF d(1)])
qed

lemma int_to_string_chars: "c \<in> set (int_to_string n) \<Longrightarrow> is_digit c \<or> c = CHR ''-''"
  using digits_nat_to_string by (auto simp: int_to_string_def split: if_splits)

lemma path_chars: "slash \<notin> set (int_to_string n)" "CHR ''?'' \<notin> set (int_to_string n)" "int_to_string n \<noteq> []"
  using int_to_string_chars [of slash n] int_to_string_chars [of "CHR ''?''" n] nat_to_string_ne
  by (auto simp: slash_def is_digit_def less_eq_char_def int_to_string_def)

lemma resourceFromPath_makePath:
  assumes "db \<noteq> []" "slash \<notin> set db" "- (2 ^ 31) \<le> chunk" "chunk < 2 ^ 31"
  shows "resourceFromPath (makePath chunk db) = Inr (setAsDbChunk db chunk newResourceUnit)"
proof -
  have p: "makePath chunk db = slash # prefix_of DBCHUNK @ slash # db @ slash # int_to_string chunk"
    by (simp add: makePath_def slash_def)
  show ?thesis
    unfolding p resourceFromPath_def
    using assms(1,2) path_chars [of chunk] stream_to_int_to_string [OF assms(3,4)] prefix_slash
    by (simp add: setFromPath_def setChunkFromPath_def token_simps Let_def ingestLeafAndKeys_def setAsDbChunk_def
        newResourceUnit_def)
qed

lemma resourceFromPath_makeWorkerPath:
  assumes "wid \<noteq> []" "slash \<notin> set wid"
  shows "resourceFromPath (makeWorkerPath wid) = Inr (newResourceUnit\<lparr> ru_unitType := WORKER, ru_hashName := wid \<rparr>)"
proof -
  have p: "makeWorkerPath wid = slash # prefix_of WORKER @ slash # wid"
    by (simp add: makeWorkerPath_def slash_def)
  show ?thesis
    unfolding p resourceFromPath_def using assms prefix_slash
    by (simp add: setFromPath_def setHashFromPath_def token_simps Let_def prefix_inject newResourceUnit_def)
qed

text \<open>The loop over the variables of a path never ends regularly: with any variable its assertion fails.\<close>

lemma ingestLoop_fails: "defn \<noteq> [] \<Longrightarrow> ingestLoop defn t vars = Inl AssertFailed"
proof (induction t arbitrary: vars rule: length_induct)
  case (1 t)
  show ?case
  proof (cases "tok_next (CHR ''&'') t")
    case (Inl e)
    then show ?thesis using 1(2) by (cases e) (simp add: ingestLoop.simps [of defn t])
  next
    case (Inr t')
    then show ?thesis using 1 tok_next_shorter [OF Inr] by (simp add: ingestLoop.simps [of defn t])
  qed
qed

section \<open>The inventory as a set\<close>

definition entries :: "existMap \<Rightarrow> (string \<times> int) set" where
  "entries m = {(db, c). \<exists>chunks. omap_find m db = Some chunks \<and> omap_find chunks c \<noteq> None}"

definition existMap_wf :: "existMap \<Rightarrow> bool" where
  "existMap_wf m \<longleftrightarrow> omap_wf m \<and> (\<forall>(db, chunks) \<in> set m. omap_wf chunks)"

lemma inv_has_entries: "inv_has db c ci \<longleftrightarrow> (db, c) \<in> entries (ci_existMap ci)"
  by (auto simp: inv_has_def entries_def split: option.splits)

lemma entries_insert [simp]: "entries (existMap_insert db c m) = insert (db, c) (entries m)"
  by (auto simp: existMap_insert_def existMap_at_def entries_def split: option.splits if_splits)

lemma entries_add [simp]: "entries (ci_existMap (inv_add db c ci)) = insert (db, c) (entries (ci_existMap ci))"
  by (simp add: inv_add_def)

lemma entries_remove [simp]: "entries (ci_existMap (inv_remove db c ci)) = entries (ci_existMap ci) - {(db, c)}"
  by (auto simp: inv_remove_def entries_def split: option.splits if_splits)

lemma wf_at: "existMap_wf m \<Longrightarrow> omap_find m db = Some chunks \<Longrightarrow> omap_wf chunks"
  using omap_find_in_set [of m db chunks] by (auto simp: existMap_wf_def)

lemma wf_set:
  assumes "existMap_wf m" "omap_wf chunks"
  shows "existMap_wf (omap_set db chunks m)"
proof -
  have w: "omap_wf (omap_set db chunks m)" using assms(1) by (simp add: existMap_wf_def)
  have "omap_wf ch" if "(d, ch) \<in> set (omap_set db chunks m)" for d ch
    using omap_in_set_find [OF w that] assms wf_at [of m d ch] by (auto split: if_splits)
  then show ?thesis using w by (auto simp: existMap_wf_def)
qed

lemma wf_insert: "existMap_wf m \<Longrightarrow> existMap_wf (existMap_insert db c m)"
  unfolding existMap_insert_def existMap_at_def by (rule wf_set) (auto split: option.splits dest: wf_at)

lemma wf_Nil: "existMap_wf []" by (simp add: existMap_wf_def)

lemma set_mapPairs: "existMap_wf m \<Longrightarrow> set (mapPairs m) = entries m"
proof -
  assume w: "existMap_wf m"
  have "(db, c) \<in> set (mapPairs m) \<longleftrightarrow> (\<exists>chunks. (db, chunks) \<in> set m \<and> (c, ()) \<in> set chunks)" for db c
    by (force simp: mapPairs_def)
  moreover have "(db, chunks) \<in> set m \<longleftrightarrow> omap_find m db = Some chunks" for db chunks
    using w omap_find_in_set omap_in_set_find by (metis existMap_wf_def)
  moreover have "(c, ()) \<in> set chunks \<longleftrightarrow> omap_find chunks c \<noteq> None" if "omap_find m db = Some chunks" for c chunks db
    using omap_in_set_find [OF wf_at [OF w that]] omap_find_in_set [of chunks c "()"] by auto
  ultimately show ?thesis by (auto simp: entries_def)
qed

lemma fold_existMap_insert:
  "existMap_wf m \<Longrightarrow> existMap_wf (fold (\<lambda>(db, c). existMap_insert db c) l m)
     \<and> entries (fold (\<lambda>(db, c). existMap_insert db c) l m) = set l \<union> entries m"
  by (induction l arbitrary: m) (auto simp: wf_insert)

lemma missing_fold:
  assumes "existMap_wf r"
  shows "existMap_wf (fold (missingChunk ch db) l r)"
    "entries (fold (missingChunk ch db) l r) = {db} \<times> {c \<in> fst ` set l. omap_find ch c = None} \<union> entries r"
    "fst ` set (fold (missingChunk ch db) l r) \<subseteq> insert db (fst ` set r)"
proof -
  show "existMap_wf (fold (missingChunk ch db) l r)"
    using assms by (induction l arbitrary: r) (simp_all add: missingChunk_def wf_insert)
  show "entries (fold (missingChunk ch db) l r) = {db} \<times> {c \<in> fst ` set l. omap_find ch c = None} \<union> entries r"
  proof (induction l arbitrary: r)
    case (Cons c l)
    then show ?case by (cases "omap_find ch (fst c)") (auto simp: missingChunk_def)
  qed simp
  show "fst ` set (fold (missingChunk ch db) l r) \<subseteq> insert db (fst ` set r)"
  proof (induction l arbitrary: r)
    case (Cons c l)
    have "fst ` set (missingChunk ch db c r) \<subseteq> insert db (fst ` set r)"
      by (auto simp: missingChunk_def existMap_insert_def keys_omap_set)
    from subset_trans [OF Cons [of "missingChunk ch db c r"] insert_mono [OF this]] show ?case by simp
  qed auto
qed

lemma missingChunks_entries:
  assumes "existMap_wf r" "omap_wf (snd e)" "fst e \<notin> fst ` set r"
  shows "existMap_wf (missingChunks rhs e r)"
    "entries (missingChunks rhs e r) = ({fst e} \<times> fst ` set (snd e) - entries rhs) \<union> entries r"
    "fst ` set (missingChunks rhs e r) \<subseteq> insert (fst e) (fst ` set r)"
proof -
  have none: "omap_find r (fst e) = None" using assms(3) omap_find_key [of r "fst e"] by auto
  show "existMap_wf (missingChunks rhs e r)"
    using missing_fold(1) [OF assms(1)] wf_set [OF assms(1,2)] by (simp add: missingChunks_def split: option.splits)
  show "fst ` set (missingChunks rhs e r) \<subseteq> insert (fst e) (fst ` set r)"
    using missing_fold(3) [OF assms(1)] by (simp add: missingChunks_def keys_omap_set split: option.splits)
  show "entries (missingChunks rhs e r) = ({fst e} \<times> fst ` set (snd e) - entries rhs) \<union> entries r"
  proof (cases "omap_find rhs (fst e)")
    case None
    have "entries (omap_set (fst e) (snd e) r) = {fst e} \<times> fst ` set (snd e) \<union> entries r"
      using none omap_find_key [of "snd e"] by (force simp: entries_def split: if_splits)
    moreover have "({fst e} \<times> fst ` set (snd e)) \<inter> entries rhs = {}" using None by (auto simp: entries_def)
    ultimately show ?thesis using None by (auto simp: missingChunks_def)
  next
    case (Some ch)
    then have "(fst e, c) \<notin> entries rhs \<longleftrightarrow> omap_find ch c = None" for c
      by (cases "omap_find ch c") (simp_all add: entries_def)
    then have "{fst e} \<times> fst ` set (snd e) - entries rhs = {fst e} \<times> {c \<in> fst ` set (snd e). omap_find ch c = None}"
      by blast
    then show ?thesis using Some missing_fold(2) [OF assms(1), of ch "fst e" "snd e"] by (auto simp: missingChunks_def)
  qed
qed

lemma inv_minus_fold:
  assumes "existMap_wf r" "\<forall>(db, chunks) \<in> set l. omap_wf chunks" "distinct (map fst l)" "fst ` set l \<inter> fst ` set r = {}"
  shows "existMap_wf (fold (missingChunks rhs) l r)
    \<and> entries (fold (missingChunks rhs) l r) = ((\<Union>e \<in> set l. {fst e} \<times> fst ` set (snd e)) - entries rhs) \<union> entries r"
  using assms
proof (induction l arbitrary: r)
  case (Cons e l)
  have e: "omap_wf (snd e)" "fst e \<notin> fst ` set r" using Cons.prems by (auto simp: case_prod_beta)
  note m = missingChunks_entries [OF Cons.prems(1) e, of rhs]
  have "fst ` set l \<inter> insert (fst e) (fst ` set r) = {}" using Cons.prems(3,4) by simp
  then have "fst ` set l \<inter> fst ` set (missingChunks rhs e r) = {}" using m(3) by blast
  then show ?case using Cons.IH [OF m(1)] Cons.prems m(2) by auto
qed simp

lemma inv_minus_entries:
  assumes "existMap_wf (ci_existMap lhs)"
  shows "existMap_wf (inv_minus lhs rhs)"
    "entries (inv_minus lhs rhs) = entries (ci_existMap lhs) - entries (ci_existMap rhs)"
proof -
  have "(\<Union>e \<in> set (ci_existMap lhs). {fst e} \<times> fst ` set (snd e)) = set (mapPairs (ci_existMap lhs))"
    by (force simp: mapPairs_def)
  then show "existMap_wf (inv_minus lhs rhs)" "entries (inv_minus lhs rhs) = entries (ci_existMap lhs) - entries (ci_existMap rhs)"
    using inv_minus_fold [OF wf_Nil, of "ci_existMap lhs" "ci_existMap rhs"] assms omap_wf_distinct set_mapPairs [OF assms]
    by (auto simp: inv_minus_def existMap_wf_def entries_def [of "[]"])
qed

section \<open>Commands\<close>

abbreviation owned :: "workerRes \<Rightarrow> (string \<times> int) set" where
  "owned w \<equiv> entries (ci_existMap (wr_inventory w))"

abbreviation published :: "workerRes \<Rightarrow> (string \<times> int) set" where
  "published w \<equiv> entries (ci_existMap (wr_provider w))"

lemma addOne_result:
  "addOne sc r w = (res, w') \<Longrightarrow> wr_monitor w' = wr_monitor w \<and> wr_dataContext w' = wr_dataContext w
   \<and> (if res = None then owned w' = insert r (owned w) else owned w' = owned w)
   \<and> (if wr_dataContext w then published w' = insert r (published w) else published w' = published w)"
  by (cases r) (auto simp: addOne_def Let_def inv_addDb_def split: sum.splits if_splits)

lemma removeOne_result:
  "removeOne sc r w = (res, w') \<Longrightarrow> wr_monitor w' = wr_monitor w \<and> wr_dataContext w' = wr_dataContext w
   \<and> (if res = None then owned w' = owned w - {r} else owned w' = owned w)
   \<and> (if wr_dataContext w then published w' = published w - {r} else published w' = published w)"
  by (cases r) (auto simp: removeOne_def Let_def inv_removeDb_def split: sum.splits if_splits)

lemma untilError_add:
  "untilError (addOne sc) l w = (None, w') \<Longrightarrow> wr_monitor w' = wr_monitor w \<and> wr_dataContext w' = wr_dataContext w
   \<and> owned w' = owned w \<union> set l \<and> (wr_dataContext w \<longrightarrow> published w' = published w \<union> set l)"
proof (induction l arbitrary: w)
  case (Cons r l)
  then obtain v where v: "addOne sc r w = (None, v)" "untilError (addOne sc) l v = (None, w')"
    by (auto split: prod.splits option.splits)
  show ?case using Cons.IH [OF v(2)] addOne_result [OF v(1)] by auto
qed simp

lemma untilError_remove:
  "untilError (removeOne sc) l w = (None, w') \<Longrightarrow> wr_monitor w' = wr_monitor w \<and> wr_dataContext w' = wr_dataContext w
   \<and> owned w' = owned w - set l \<and> (wr_dataContext w \<longrightarrow> published w' = published w - set l)"
proof (induction l arbitrary: w)
  case (Cons r l)
  then obtain v where v: "removeOne sc r w = (None, v)" "untilError (removeOne sc) l v = (None, w')"
    by (auto split: prod.splits option.splits)
  show ?case using Cons.IH [OF v(2)] removeOne_result [OF v(1)] by auto
qed simp

lemma setChunkList_result:
  assumes "existMap_wf (ci_existMap (wr_inventory w))" "setChunkList sc chunks force w = (st, w')"
  shows "(st = SUCCESS \<longrightarrow> owned w' = set chunks
        \<and> (wr_dataContext w \<longrightarrow> published w' = published w - (owned w - set chunks) \<union> (set chunks - owned w)))
    \<and> (st = IN_USE \<longrightarrow> w' = w)
    \<and> (st = IN_USE \<longleftrightarrow> \<not> force \<and> (\<exists>(db, c) \<in> owned w - set chunks. mon_countChunk c db (wr_monitor w) \<noteq> 0))"
proof -
  let ?new = "(wr_inventory w)\<lparr> ci_existMap := fold (\<lambda>(db, c). existMap_insert db c) chunks [] \<rparr>"
  let ?rem = "mapPairs (inv_minus (wr_inventory w) ?new)" let ?add = "mapPairs (inv_minus ?new (wr_inventory w))"
  have new: "existMap_wf (ci_existMap ?new)" "entries (ci_existMap ?new) = set chunks"
    using fold_existMap_insert [OF wf_Nil, of chunks] by (auto simp: entries_def [of "[]"])
  have rem: "set ?rem = owned w - set chunks"
    using set_mapPairs [OF inv_minus_entries(1) [OF assms(1)]] inv_minus_entries(2) [OF assms(1)] new(2) by simp
  have add: "set ?add = set chunks - owned w"
    using set_mapPairs [OF inv_minus_entries(1) [OF new(1)]] inv_minus_entries(2) [OF new(1)] new(2) by simp
  consider (used) "\<not> force \<and> (\<exists>(db, c) \<in> set ?rem. mon_countChunk c db (wr_monitor w) \<noteq> 0)" "st = IN_USE" "w' = w"
    | (error) "force \<or> \<not> (\<exists>(db, c) \<in> set ?rem. mon_countChunk c db (wr_monitor w) \<noteq> 0)" "\<exists>e. st = errorStatus e"
    | (done') v where "force \<or> \<not> (\<exists>(db, c) \<in> set ?rem. mon_countChunk c db (wr_monitor w) \<noteq> 0)" "st = SUCCESS"
        "untilError (removeOne sc) ?rem w = (None, v)" "untilError (addOne sc) ?add v = (None, w')"
    using assms(2) by (auto simp: setChunkList_def Let_def split: if_splits prod.splits option.splits)
  then show ?thesis
  proof cases
    case error
    moreover have "errorStatus e \<noteq> SUCCESS" "errorStatus e \<noteq> IN_USE" for e by (cases e; simp add: errorStatus_def)+
    ultimately show ?thesis unfolding rem by auto
  next
    case done'
    have "owned w' = set chunks"
      "wr_dataContext w \<longrightarrow> published w' = published w - (owned w - set chunks) \<union> (set chunks - owned w)"
      using untilError_remove [OF done'(3)] untilError_add [OF done'(4)] rem add by auto
    then show ?thesis using done'(1,2) unfolding rem by auto
  qed (simp add: rem)
qed

section \<open>Requests in progress\<close>

text \<open>
  A run of requests: \<open>A\<close> are the requests that were executed and have not finished, with the flag whether \<open>execute\<close> counted them, and
  \<open>R\<close> the resources for which a request was refused. The inventory may change at any time.
\<close>

inductive req_reach :: "workerRes \<Rightarrow> (string \<times> bool) multiset \<Rightarrow> string set \<Rightarrow> bool" where
  rr_init: "wr_monitor w = [] \<Longrightarrow> req_reach w {#} {}"
| rr_execute: "req_reach w A R \<Longrightarrow> request_execute r msg w = Inr (res, w') \<Longrightarrow>
    req_reach w' (add_mset (r, res \<notin> {Unowned, CommandQueued}) A) (if res = Unowned then insert r R else R)"
| rr_finished: "req_reach w A R \<Longrightarrow> (r, b) \<in># A \<Longrightarrow> request_finished r w = Inr w' \<Longrightarrow> req_reach w' (A - {#(r, b)#}) R"
| rr_inventory: "req_reach w A R \<Longrightarrow> wr_monitor w' = wr_monitor w \<Longrightarrow> req_reach w' A R"

lemma mon_count_simps [simp]:
  "mon_count r (mon_increment q m) = mon_count r m + of_bool (r = q)"
  "mon_count r (mon_decrement q m) = mon_count r m - of_bool (r = q)"
  by (auto simp: mon_count_def mon_increment_def mon_decrement_def Let_def split: option.splits)

lemma execute_monitor:
  assumes "request_execute q msg w = Inr (res, w')"
  shows "mon_count r (wr_monitor w') = mon_count r (wr_monitor w) + of_bool (r = q \<and> res \<notin> {Unowned, CommandQueued})"
    "res = CommandQueued \<Longrightarrow> resourceFromPath q = Inr ru \<Longrightarrow> ru_unitType ru \<noteq> DBCHUNK"
    "res \<notin> {Unowned, CommandQueued} \<Longrightarrow> resourceFromPath q = Inr ru \<Longrightarrow> ru_unitType ru = DBCHUNK"
proof -
  obtain u where u: "resourceFromPath q = Inr u" using assms by (cases "resourceFromPath q") (auto simp: request_execute_def)
  show "mon_count r (wr_monitor w') = mon_count r (wr_monitor w) + of_bool (r = q \<and> res \<notin> {Unowned, CommandQueued})"
    "res = CommandQueued \<Longrightarrow> resourceFromPath q = Inr ru \<Longrightarrow> ru_unitType ru \<noteq> DBCHUNK"
    "res \<notin> {Unowned, CommandQueued} \<Longrightarrow> resourceFromPath q = Inr ru \<Longrightarrow> ru_unitType ru = DBCHUNK"
    using assms by (auto simp: request_execute_def u Let_def split: if_splits option.splits)
qed

lemma finished_monitor:
  assumes "request_finished q w = Inr w'" "resourceFromPath q = Inr u"
  shows "mon_count r (wr_monitor w') = mon_count r (wr_monitor w) - of_bool (r = q \<and> ru_unitType u = DBCHUNK)"
  using assms by (auto simp: request_finished_def)

text \<open>The counter of a resource never exceeds the requests in progress, and is exact as long as none was refused.\<close>

lemma req_reach_inv:
  assumes "req_reach w A R" "resourceFromPath r = Inr u" "ru_unitType u = DBCHUNK"
  shows "mon_count r (wr_monitor w) \<le> count A (r, True)
    \<and> (r \<notin> R \<longrightarrow> mon_count r (wr_monitor w) = count A (r, True) \<and> count A (r, False) = 0)"
  using assms(1)
proof (induction rule: req_reach.induct)
  case (rr_init w)
  then show ?case by (simp add: mon_count_def)
next
  case (rr_execute w A R q msg res w')
  have "\<not> (res = CommandQueued \<and> q = r)" using execute_monitor(2) [OF rr_execute(2), of u] assms(2,3) by auto
  then show ?case using rr_execute(3) execute_monitor(1) [OF rr_execute(2), of r] by auto
next
  case (rr_finished w A R q b w')
  obtain v where v: "resourceFromPath q = Inr v" using rr_finished(3) by (cases "resourceFromPath q") (auto simp: request_finished_def)
  have m: "mon_count r (wr_monitor w') = mon_count r (wr_monitor w) - of_bool (r = q)"
    using finished_monitor [OF rr_finished(3) v, of r] v assms(2,3) by auto
  have c: "count (A - {#(q, b)#}) (r, True) = count A (r, True) - of_bool (q = r \<and> b)"
    "count (A - {#(q, b)#}) (r, False) = count A (r, False) - of_bool (q = r \<and> \<not> b)" by auto
  have "count A (r, b) > 0" if "q = r" using rr_finished(2) that by simp
  then show ?case using rr_finished(4) unfolding m c by (cases b; cases "q = r") (auto simp: count_eq_zero_iff)
next
  case (rr_inventory w A R w')
  then show ?case by simp
qed

section \<open>Properties\<close>

text \<open>
  The path of a chunk, as the czar and the worker build it, is read back as this database and chunk, for every chunk number of
  type \<open>int\<close> and every name without a slash, and the path of a worker as its identifier.
\<close>

theorem resource_path_round_trip:
  assumes "db \<noteq> []" "slash \<notin> set db" "- (2 ^ 31) \<le> chunk" "chunk < 2 ^ 31"
  shows "resourceFromPath (makePath chunk db) = Inr (setAsDbChunk db chunk newResourceUnit)
    \<and> (chunk \<noteq> -1 \<longrightarrow> path (setAsDbChunk db chunk newResourceUnit) = makePath chunk db)
    \<and> resourceFromPath (makeWorkerPath db) = Inr (newResourceUnit\<lparr> ru_unitType := WORKER, ru_hashName := db \<rparr>)"
  using resourceFromPath_makePath [OF assms] resourceFromPath_makeWorkerPath [OF assms(1,2)]
  by (simp add: path_def setAsDbChunk_def makePath_def slash_def Let_def)

theorem resource_path_round_trip_witness:
  "resourceFromPath ''/chk/LSST/713'' = Inr (setAsDbChunk ''LSST'' 713 newResourceUnit)"
proof -
  have "makePath 713 ''LSST'' = ''/chk/LSST/713''" by code_simp
  then show ?thesis using resource_path_round_trip [of "''LSST''" 713] by (simp add: slash_def)
qed

text \<open>Sequences of events for chunks, and the set of chunks they leave.\<close>

fun resourceEvents :: "(bool \<times> string \<times> int) list \<Rightarrow> chunkInventory \<Rightarrow> pathError + chunkInventory" where
  "resourceEvents [] ci = Inr ci"
| "resourceEvents ((added, db, c) # es) ci =
     (case (if added then ResourceAdded (makePath c db) ci else ResourceRemoved (makePath c db) ci) of
        Inl e \<Rightarrow> Inl e | Inr ci' \<Rightarrow> resourceEvents es ci')"

definition chunkOk :: "string \<times> int \<Rightarrow> bool" where
  "chunkOk r \<longleftrightarrow> fst r \<noteq> [] \<and> slash \<notin> set (fst r) \<and> - (2 ^ 31) \<le> snd r \<and> snd r < 2 ^ 31"

definition eventSet :: "(bool \<times> string \<times> int) list \<Rightarrow> (string \<times> int) set \<Rightarrow> (string \<times> int) set" where
  "eventSet es S = fold (\<lambda>(added, r) S. if added then insert r S else S - {r}) es S"

lemma resourceEvents_entries:
  "\<forall>(added, r) \<in> set es. chunkOk r \<Longrightarrow>
   \<exists>ci'. resourceEvents es ci = Inr ci' \<and> entries (ci_existMap ci') = eventSet es (entries (ci_existMap ci))"
proof (induction es arbitrary: ci)
  case (Cons e es)
  obtain added db c where e: "e = (added, db, c)" by (cases e)
  have "resourceFromPath (makePath c db) = Inr (setAsDbChunk db c newResourceUnit)"
    using Cons.prems by (intro resourceFromPath_makePath) (auto simp: e chunkOk_def)
  then show ?case
    using Cons.IH [of "inv_add db c ci"] Cons.IH [of "inv_remove db c ci"] Cons.prems
    by (auto simp: e ResourceAdded_def ResourceRemoved_def setAsDbChunk_def eventSet_def)
qed (simp add: eventSet_def)

text \<open>
  C20. Whether a worker has a chunk: after any sequence of \<open>ResourceAdded\<close> and \<open>ResourceRemoved\<close> for paths of chunks, \<open>QueryResource\<close>
  answers \<open>isPresent\<close> exactly for the chunks of the set that results from putting them in and taking them out.
\<close>

theorem resource_present_iff:
  assumes "\<forall>(added, r) \<in> set es. chunkOk r" "chunkOk (db, c)"
  shows "\<exists>ci'. resourceEvents es ci = Inr ci'
    \<and> QueryResource (makePath c db) ci'
       = Inr (if (db, c) \<in> eventSet es {(d, k). inv_has d k ci} then isPresent else notPresent)"
proof -
  obtain ci' where ci': "resourceEvents es ci = Inr ci'" "entries (ci_existMap ci') = eventSet es (entries (ci_existMap ci))"
    using resourceEvents_entries [OF assms(1)] by blast
  have "resourceFromPath (makePath c db) = Inr (setAsDbChunk db c newResourceUnit)"
    using assms(2) by (intro resourceFromPath_makePath) (auto simp: chunkOk_def)
  moreover have "{(d, k). inv_has d k ci} = entries (ci_existMap ci)" by (auto simp: inv_has_entries)
  ultimately show ?thesis using ci' by (simp add: QueryResource_def setAsDbChunk_def inv_has_entries)
qed

definition demoInventory :: chunkInventory where
  "demoInventory = \<lparr> ci_existMap = [(''LSST'', [(5, ())])], ci_name = ''w'', ci_id = ''w1'' \<rparr>"

theorem resource_present_iff_witness:
  "\<exists>ci'. resourceEvents [(True, ''LSST'', 7), (False, ''LSST'', 5)] demoInventory = Inr ci'
     \<and> QueryResource (makePath 7 ''LSST'') ci' = Inr isPresent"
  using resource_present_iff [of "[(True, ''LSST'', 7), (False, ''LSST'', 5)]" "''LSST''" 7 demoInventory]
  by (simp add: chunkOk_def slash_def eventSet_def)

text \<open>
  C23. \<open>SetChunkListCommand\<close>: if it succeeds the worker has exactly the requested chunks, and what it publishes has changed by the same
  chunks. Without \<open>force\<close> it refuses, and changes nothing, exactly if a chunk that it would remove is counted as in use.
\<close>

theorem set_chunk_list_exact:
  assumes "existMap_wf (ci_existMap (wr_inventory w))" "setChunkList sc chunks force w = (st, w')"
  shows "(st = SUCCESS \<longrightarrow> owned w' = set chunks
        \<and> (wr_dataContext w \<longrightarrow> published w' = published w - (owned w - set chunks) \<union> (set chunks - owned w)))
    \<and> (st = IN_USE \<longrightarrow> w' = w)
    \<and> (st = IN_USE \<longleftrightarrow> \<not> force \<and> (\<exists>(db, c) \<in> owned w - set chunks. mon_countChunk c db (wr_monitor w) \<noteq> 0))"
  by (rule setChunkList_result [OF assms])

definition demoWorker :: "bool \<Rightarrow> workerRes" where
  "demoWorker ctx = \<lparr> wr_inventory = demoInventory, wr_provider = demoInventory, wr_dataContext = ctx, wr_monitor = [], wr_cluster = [] \<rparr>"

definition demoDb :: "(string \<Rightarrow> bool) \<Rightarrow> inventoryDb" where
  "demoDb ok = \<lparr> db_names = [''LSST''], db_runQuery = ok \<rparr>"

lemma demo_set: "fst (setChunkList (demoDb (\<lambda>_. True)) [(''LSST'', 7)] False (demoWorker True)) = SUCCESS"
  by code_simp

theorem set_chunk_list_exact_witness:
  "owned (snd (setChunkList (demoDb (\<lambda>_. True)) [(''LSST'', 7)] False (demoWorker True))) = {(''LSST'', 7)}"
proof -
  let ?r = "setChunkList (demoDb (\<lambda>_. True)) [(''LSST'', 7)] False (demoWorker True)"
  have "existMap_wf (ci_existMap (wr_inventory (demoWorker True)))"
    by (simp add: demoWorker_def demoInventory_def existMap_wf_def)
  moreover have "?r = (SUCCESS, snd ?r)" using demo_set by (metis prod.collapse)
  ultimately show ?thesis using set_chunk_list_exact by fastforce
qed

text \<open>
  The counter of a chunk's path is never above the number of requests in progress that were accepted for it, and it is this
  number as long as no request for the path has been refused because the worker does not own the chunk.
\<close>

theorem resource_monitor_counts:
  assumes "req_reach w A R" "resourceFromPath r = Inr u" "ru_unitType u = DBCHUNK"
  shows "mon_count r (wr_monitor w) \<le> count A (r, True)
    \<and> (r \<notin> R \<longrightarrow> mon_count r (wr_monitor w) = count A (r, True))"
  using req_reach_inv [OF assms] by blast

lemma demo_request:
  "request_execute ''/chk/LSST/5'' (Some (Some ''LSST'', Some 5)) (demoWorker True)
     = Inr (TaskQueued, (demoWorker True)\<lparr> wr_monitor := [(''/chk/LSST/5'', 1)] \<rparr>)"
  "map_sum id ru_unitType (resourceFromPath ''/chk/LSST/5'') = Inr DBCHUNK"
  by code_simp+

theorem resource_monitor_counts_witness:
  "\<exists>w. req_reach w {#(''/chk/LSST/5'', True)#} {} \<and> mon_count ''/chk/LSST/5'' (wr_monitor w) = 1"
proof -
  have "req_reach (demoWorker True) {#} {}" by (rule rr_init) (simp add: demoWorker_def)
  then have r: "req_reach ((demoWorker True)\<lparr> wr_monitor := [(''/chk/LSST/5'', 1)] \<rparr>) {#(''/chk/LSST/5'', True)#} {}"
    using rr_execute [OF _ demo_request(1)] by fastforce
  obtain u where "resourceFromPath ''/chk/LSST/5'' = Inr u" "ru_unitType u = DBCHUNK"
    using demo_request(2) by (cases "resourceFromPath ''/chk/LSST/5''") auto
  then show ?thesis using resource_monitor_counts [OF r] r by fastforce
qed

section \<open>Limits\<close>

text \<open>The path that \<open>path()\<close> gives for a worker has no separator behind its type, and is not that of a worker any more.\<close>

lemma worker_path_lost:
  "map_sum id path (resourceFromPath (makeWorkerPath ''w1'')) = Inr ''/workerw1''"
  "map_sum id ru_unitType (resourceFromPath ''/workerw1'') = Inr GARBAGE"
  by code_simp+

text \<open>A path with variables fails an assertion, whatever they are; without assertions the loop would not end.\<close>

lemma path_variables_fail: "resourceFromPath ''/chk/LSST/5?a=b&c=d'' = Inl AssertFailed"
  by code_simp

text \<open>
  A refused request is not counted but its end is: here a request for chunk 7 is refused, the chunk is added, a second
  request is accepted, and when the first one finishes the chunk counts as unused.
\<close>

lemma refused_request_miscounted:
  "(case request_execute ''/chk/LSST/7'' None (demoWorker True) of Inl e \<Rightarrow> None | Inr (res1, w1) \<Rightarrow>
    (case addChunkGroup (demoDb (\<lambda>_. True)) 7 [''LSST''] w1 of (st, w2) \<Rightarrow>
    (case request_execute ''/chk/LSST/7'' (Some (Some ''LSST'', Some 7)) w2 of Inl e \<Rightarrow> None | Inr (res2, w3) \<Rightarrow>
    (case request_finished ''/chk/LSST/7'' w3 of Inl e \<Rightarrow> None | Inr w4 \<Rightarrow>
     Some (res1, st, res2, mon_countChunk 7 ''LSST'' (wr_monitor w4), fst (removeChunkGroup (demoDb (\<lambda>_. True)) 7 [''LSST''] False w4))))))
   = Some (Unowned, SUCCESS, TaskQueued, 0, SUCCESS)"
  by code_simp

text \<open>The cluster is told of a chunk before the database is asked, and is not told when that fails.\<close>

lemma failed_add_published:
  "(case addChunkGroup (demoDb (\<lambda>_. False)) 7 [''LSST''] (demoWorker True) of (st, w) \<Rightarrow>
     (st, inv_has ''LSST'' 7 (wr_inventory w), inv_has ''LSST'' 7 (wr_provider w), wr_cluster w))
   = (ERROR, False, True, [(True, ''/chk/LSST/7'')])"
  by code_simp

end
