(* ===== verification/Chunk_Resource.thy ===== *)
theory Chunk_Resource
  imports Prelude "HOL-Library.Char_ord" "HOL-Library.List_Lexorder" "HOL-Library.Product_Lexorder" "HOL-Library.Multiset"
begin

text \<open>
  The subchunk tables of a worker: \<open>wdb/ChunkResource\<close>, which counts the reservations of subchunks, and \<open>wdb/SQLBackend\<close>, which makes and
  drops their in-memory tables. The answers of MySQL are a parameter (\<open>sqlEnv\<close>); a script to create a table, which says
  \<open>IF NOT EXISTS\<close>, leaves the table when it succeeds, and one to drop it, which says \<open>IF EXISTS\<close>, removes it. What a
  failed script to create a table leaves behind is also a parameter.

  The map of a chunk from tables to maps from subchunks to counts is a map from pairs: empty inner maps are not
  observable. Each operation of the manager runs under \<open>_mapMutex\<close> and is one step.

  The lemmas show that no table is left over, that the tables are exactly those of the reservations held if no table is reserved under
  two databases, and that releasing never finds a count missing; also what happens after a failed load, when a reservation is
  assigned, and when two databases share a table.
\<close>

section \<open>The backend\<close>

type_synonym dbTable = "string \<times> string"

type_synonym scTable = "int \<times> dbTable \<times> int"

datatype lockStatus = UNLOCKED | LOCKED_OTHER | LOCKED_OURS

datatype resError = Exits | SqlErrorObject | ReleaseBug | FlushBug

text \<open>
  The lock row is \<open>None\<close> if the query fails, and \<open>Some None\<close> if it has no value; the three predicates say which scripts succeed, and which
  failed ones made their table.
\<close>

record sqlEnv =
  se_lockRow :: "int option option"
  se_uid :: int
  se_create :: "scTable \<Rightarrow> bool"
  se_partial :: "scTable \<Rightarrow> bool"
  se_drop :: "scTable \<Rightarrow> bool"

definition memLockStatus :: "sqlEnv \<Rightarrow> lockStatus" where
  "memLockStatus env =
     (case se_lockRow env of
        None \<Rightarrow> UNLOCKED
      | Some None \<Rightarrow> LOCKED_OTHER
      | Some (Some uid) \<Rightarrow> if uid \<noteq> se_uid env then LOCKED_OTHER else LOCKED_OURS)"

definition memLockRequireOwnership :: "sqlEnv \<Rightarrow> bool" where
  "memLockRequireOwnership env \<longleftrightarrow> memLockStatus env = LOCKED_OURS"

fun discardLoop :: "sqlEnv \<Rightarrow> scTable list \<Rightarrow> scTable set \<Rightarrow> resError option \<times> scTable set" where
  "discardLoop env [] T = (None, T)"
| "discardLoop env (x # xs) T =
     (if se_drop env x then discardLoop env xs (T - {x}) else (Some SqlErrorObject, T))"

definition discard :: "sqlEnv \<Rightarrow> scTable list \<Rightarrow> scTable set \<Rightarrow> resError option \<times> scTable set" where
  "discard env v T = (if \<not> memLockRequireOwnership env then (Some Exits, T) else discardLoop env v T)"

fun loadLoop :: "sqlEnv \<Rightarrow> scTable list \<Rightarrow> scTable list \<Rightarrow> scTable set \<Rightarrow> (resError + bool) \<times> scTable set" where
  "loadLoop env made [] T = (Inr True, T)"
| "loadLoop env made (x # xs) T =
     (if se_create env x then loadLoop env (made @ [x]) xs (insert x T)
      else case discard env made (if se_partial env x then insert x T else T) of
             (None, T) \<Rightarrow> (Inr False, T)
           | (Some e, T) \<Rightarrow> (Inl e, T))"

definition load :: "sqlEnv \<Rightarrow> scTable list \<Rightarrow> scTable set \<Rightarrow> (resError + bool) \<times> scTable set" where
  "load env v T = (if \<not> memLockRequireOwnership env then (Inl Exits, T) else loadLoop env [] v T)"

section \<open>The counts of a chunk\<close>

type_synonym tableMap = "(dbTable \<times> int, int) omap"

record chunkEntry =
  ce_chunkId :: int
  ce_refCount :: int
  ce_tableMap :: tableMap

definition newChunkEntry :: "int \<Rightarrow> chunkEntry" where
  "newChunkEntry c = \<lparr> ce_chunkId = c, ce_refCount = 0, ce_tableMap = [] \<rparr>"

text \<open>The nested loops over tables and subchunks run over the pairs of both.\<close>

fun countUp :: "int \<Rightarrow> (dbTable \<times> int) list \<Rightarrow> scTable list \<times> tableMap \<Rightarrow> scTable list \<times> tableMap" where
  "countUp c [] a = a"
| "countUp c (k # ks) (needed, m) =
     (case omap_find m k of
        None \<Rightarrow> countUp c ks (needed @ [(c, k)], omap_set k 1 m)
      | Some n \<Rightarrow> countUp c ks (needed, omap_set k (n + 1) m))"

fun releaseNeeded :: "scTable list \<Rightarrow> tableMap \<Rightarrow> tableMap" where
  "releaseNeeded [] m = m"
| "releaseNeeded (x # xs) m =
     releaseNeeded xs (omap_set (snd x) ((case omap_find m (snd x) of None \<Rightarrow> 0 | Some n \<Rightarrow> n) - 1) m)"

definition entry_acquire :: "sqlEnv \<Rightarrow> dbTable list \<Rightarrow> int list \<Rightarrow> chunkEntry \<times> scTable set
    \<Rightarrow> resError option \<times> chunkEntry \<times> scTable set" where
  "entry_acquire env tables sc s =
     (let (ce, T) = s
      in if \<not> memLockRequireOwnership env then (Some Exits, ce, T)
         else let (needed, m) = countUp (ce_chunkId ce) (List.product tables sc) ([], ce_tableMap ce);
                  ce = ce\<lparr> ce_refCount := ce_refCount ce + 1, ce_tableMap := m \<rparr>
              in if needed = [] then (None, ce, T)
                 else case load env needed T of
                        (Inr True, T) \<Rightarrow> (None, ce, T)
                      | (Inr False, T) \<Rightarrow> (Some SqlErrorObject, ce\<lparr> ce_tableMap := releaseNeeded needed m \<rparr>, T)
                      | (Inl e, T) \<Rightarrow> (Some e, ce, T))"

fun countDown :: "(dbTable \<times> int) list \<Rightarrow> tableMap \<Rightarrow> resError option \<times> tableMap" where
  "countDown [] m = (None, m)"
| "countDown (k # ks) m =
     (case omap_find m k of
        None \<Rightarrow> (Some ReleaseBug, m)
      | Some n \<Rightarrow> countDown ks (omap_set k (n - 1) m))"

text \<open>
  \<open>flush\<close>: the entries with count zero are erased table by table, so that a negative count stops it after the tables before.
\<close>

definition entry_flush :: "sqlEnv \<Rightarrow> chunkEntry \<times> scTable set \<Rightarrow> resError option \<times> chunkEntry \<times> scTable set" where
  "entry_flush env s =
     (let (ce, T) = s; m = ce_tableMap ce
      in if \<not> memLockRequireOwnership env then (Some Exits, ce, T)
         else case find (\<lambda>e. snd e < 0) m of
                Some bad \<Rightarrow>
                  (Some FlushBug, ce\<lparr> ce_tableMap := filter (\<lambda>e. \<not> (snd e = 0 \<and> fst (fst e) < fst (fst bad))) m \<rparr>, T)
              | None \<Rightarrow>
                  let discardable = map (\<lambda>e. (ce_chunkId ce, fst e)) (filter (\<lambda>e. snd e = 0) m);
                      ce = ce\<lparr> ce_tableMap := filter (\<lambda>e. snd e \<noteq> 0) m \<rparr>
                  in if discardable = [] then (None, ce, T)
                     else case discard env discardable T of (r, T) \<Rightarrow> (r, ce, T))"

definition entry_release :: "sqlEnv \<Rightarrow> dbTable list \<Rightarrow> int list \<Rightarrow> chunkEntry \<times> scTable set
    \<Rightarrow> resError option \<times> chunkEntry \<times> scTable set" where
  "entry_release env tables sc s =
     (let (ce, T) = s
      in if \<not> memLockRequireOwnership env then (Some Exits, ce, T)
         else case countDown (List.product tables sc) (ce_tableMap ce) of
                (Some e, m) \<Rightarrow> (Some e, ce\<lparr> ce_tableMap := m \<rparr>, T)
              | (None, m) \<Rightarrow> entry_flush env (ce\<lparr> ce_tableMap := m, ce_refCount := ce_refCount ce - 1 \<rparr>, T))"

section \<open>The manager\<close>

record resInfo =
  in_db :: string
  in_chunkId :: int
  in_tables :: "dbTable list"
  in_subChunkIds :: "int list"

record resourceMgr =
  rm_dbMap :: "(string, (int, chunkEntry) omap) omap"
  rm_tables :: "scTable set"

text \<open>\<open>_memLockAcquire\<close> drops the tables of a run before.\<close>

definition newMgr :: resourceMgr where
  "newMgr = \<lparr> rm_dbMap = [], rm_tables = {} \<rparr>"

definition getMap :: "string \<Rightarrow> resourceMgr \<Rightarrow> (int, chunkEntry) omap" where
  "getMap db s = (case omap_find (rm_dbMap s) db of None \<Rightarrow> [] | Some m \<Rightarrow> m)"

definition getChunkEntry :: "(int, chunkEntry) omap \<Rightarrow> int \<Rightarrow> chunkEntry" where
  "getChunkEntry m c = (case omap_find m c of None \<Rightarrow> newChunkEntry c | Some ce \<Rightarrow> ce)"

definition putEntry :: "string \<Rightarrow> int \<Rightarrow> chunkEntry \<Rightarrow> scTable set \<Rightarrow> resourceMgr \<Rightarrow> resourceMgr" where
  "putEntry db c ce T s = s\<lparr> rm_dbMap := omap_set db (omap_set c ce (getMap db s)) (rm_dbMap s), rm_tables := T \<rparr>"

definition acquireUnit :: "sqlEnv \<Rightarrow> resInfo \<Rightarrow> resourceMgr \<Rightarrow> resError option \<times> resourceMgr" where
  "acquireUnit env i s =
     (case entry_acquire env (in_tables i) (in_subChunkIds i) (getChunkEntry (getMap (in_db i) s) (in_chunkId i), rm_tables s) of
        (r, ce, T) \<Rightarrow> (r, putEntry (in_db i) (in_chunkId i) ce T s))"

definition mgr_release :: "sqlEnv \<Rightarrow> resInfo \<Rightarrow> resourceMgr \<Rightarrow> resError option \<times> resourceMgr" where
  "mgr_release env i s =
     (case entry_release env (in_tables i) (in_subChunkIds i) (getChunkEntry (getMap (in_db i) s) (in_chunkId i), rm_tables s) of
        (r, ce, T) \<Rightarrow> (r, putEntry (in_db i) (in_chunkId i) ce T s))"

definition getRefCount :: "string \<Rightarrow> int \<Rightarrow> resourceMgr \<Rightarrow> int" where
  "getRefCount db c s = (case omap_find (getMap db s) c of None \<Rightarrow> 0 | Some ce \<Rightarrow> ce_refCount ce)"

text \<open>\<open>ChunkResource::operator=\<close>: the old reservation is forgotten without being released.\<close>

definition resource_assign :: "sqlEnv \<Rightarrow> resInfo \<Rightarrow> resInfo \<Rightarrow> resourceMgr \<Rightarrow> resError option \<times> resourceMgr" where
  "resource_assign env old new s = acquireUnit env new s"

text \<open>
  Runs of the manager in which no operation throws, with the reservations \<open>R\<close> that are held and all reservations \<open>H\<close> that were made.
\<close>

inductive res_reach :: "resourceMgr \<Rightarrow> resInfo multiset \<Rightarrow> resInfo set \<Rightarrow> bool" where
  re_new: "res_reach newMgr {#} {}"
| re_acquire: "res_reach s R H \<Longrightarrow> distinct (in_tables i) \<Longrightarrow> acquireUnit env i s = (None, s') \<Longrightarrow>
    res_reach s' (add_mset i R) (insert i H)"
| re_release: "res_reach s R H \<Longrightarrow> i \<in># R \<Longrightarrow> mgr_release env i s = (None, s') \<Longrightarrow> res_reach s' (R - {#i#}) H"

section \<open>Counting\<close>

definition cnt :: "tableMap \<Rightarrow> dbTable \<times> int \<Rightarrow> int" where
  "cnt m k = (case omap_find m k of None \<Rightarrow> 0 | Some n \<Rightarrow> n)"

lemma countUp_spec:
  assumes "countUp c ks (needed, m) = (needed', m')" "omap_wf m"
  shows "omap_wf m' \<and> (\<forall>k. omap_find m' k = (if k \<in> set ks then Some (cnt m k + int (count_list ks k)) else omap_find m k))
    \<and> set needed' = set needed \<union> Pair c ` {k \<in> set ks. omap_find m k = None}"
  using assms
proof (induction ks arbitrary: needed m)
  case (Cons k ks)
  let ?n = "needed @ (if omap_find m k = None then [(c, k)] else [])" let ?m = "omap_set k (cnt m k + 1) m"
  have run: "countUp c ks (?n, ?m) = (needed', m')"
    using Cons.prems(1) by (cases "omap_find m k") (simp_all add: cnt_def)
  have ih: "omap_wf m'" "\<And>j. omap_find m' j = (if j \<in> set ks then Some (cnt ?m j + int (count_list ks j)) else omap_find ?m j)"
    "set needed' = set ?n \<union> Pair c ` {j \<in> set ks. omap_find ?m j = None}"
    using Cons.IH [OF run omap_wf_set [OF Cons.prems(2)]] by blast+
  have "omap_find m' j = (if j \<in> set (k # ks) then Some (cnt m j + int (count_list (k # ks) j)) else omap_find m j)" for j
    using ih(2) [of j] by (auto simp: cnt_def)
  moreover have new: "{j \<in> set (k # ks). omap_find m j = None}
      = (if omap_find m k = None then {k} else {}) \<union> {j \<in> set ks. omap_find ?m j = None}"
    by (auto simp del: split_paired_All split_paired_Ex)
  have "set needed' = set needed \<union> Pair c ` {j \<in> set (k # ks). omap_find m j = None}"
    unfolding ih(3) new image_Un by (cases "omap_find m k") simp_all
  ultimately show ?case using ih(1) by blast
qed simp

lemma countDown_spec:
  assumes "\<forall>k \<in> set ks. omap_find m k \<noteq> None" "omap_wf m"
  shows "\<exists>m'. countDown ks m = (None, m') \<and> omap_wf m'
    \<and> (\<forall>k. omap_find m' k = (if k \<in> set ks then Some (cnt m k - int (count_list ks k)) else omap_find m k))"
  using assms
proof (induction ks arbitrary: m)
  case (Cons k ks)
  then obtain n where n: "omap_find m k = Some n" by auto
  let ?m = "omap_set k (n - 1) m"
  have "\<forall>j \<in> set ks. omap_find ?m j \<noteq> None" using Cons.prems(1) by simp
  then obtain m' where ih: "countDown ks ?m = (None, m')" "omap_wf m'"
    "\<And>j. omap_find m' j = (if j \<in> set ks then Some (cnt ?m j - int (count_list ks j)) else omap_find ?m j)"
    using Cons.IH [OF _ omap_wf_set [OF Cons.prems(2)]] by blast
  have "omap_find m' j = (if j \<in> set (k # ks) then Some (cnt m j - int (count_list (k # ks) j)) else omap_find m j)" for j
    using ih(3) [of j] n by (auto simp: cnt_def)
  then show ?case using ih(1,2) n by (simp del: split_paired_All)
qed simp

lemma loadLoop_ok: "loadLoop env made v T = (Inr True, T') \<Longrightarrow> T' = T \<union> set v"
  by (induction env made v T rule: loadLoop.induct) (auto split: if_splits prod.splits option.splits)

lemma discardLoop_ok: "discardLoop env v T = (None, T') \<Longrightarrow> T' = T - set v"
  by (induction env v T rule: discardLoop.induct) (auto split: if_splits)

lemma discard_ok: "discard env v T = (None, T') \<Longrightarrow> T' = T - set v"
  by (auto simp: discard_def discardLoop_ok split: if_splits)

lemma discardLoop_errors: "discardLoop env v T = (r, T') \<Longrightarrow> r \<noteq> Some ReleaseBug \<and> r \<noteq> Some FlushBug"
  by (induction env v T rule: discardLoop.induct) (auto split: if_splits)

lemma discard_errors: "discard env v T = (r, T') \<Longrightarrow> r \<noteq> Some ReleaseBug \<and> r \<noteq> Some FlushBug"
  using discardLoop_errors by (auto simp: discard_def split: if_splits)

text \<open>What an operation that does not throw does to the counts and the tables.\<close>

definition counts :: "tableMap \<Rightarrow> (dbTable \<times> int \<Rightarrow> int) \<Rightarrow> bool" where
  "counts m f \<longleftrightarrow> omap_wf m \<and> (\<forall>k. 0 \<le> f k \<and> omap_find m k = (if f k = 0 then None else Some (f k)))"

lemma counts_cnt: "counts m f \<Longrightarrow> cnt m k = f k"
  by (simp add: counts_def cnt_def del: split_paired_All)

lemma counts_unique:
  assumes "omap_wf m" "\<And>k. 0 \<le> f k \<and> omap_find m k = (if f k = 0 then None else Some (f k))"
  shows "counts m f"
  unfolding counts_def using assms by blast

lemma entry_acquire_ok:
  assumes "entry_acquire env tables sc (ce, T) = (None, ce', T')" "counts (ce_tableMap ce) f"
  shows "ce_chunkId ce' = ce_chunkId ce \<and> ce_refCount ce' = ce_refCount ce + 1
    \<and> counts (ce_tableMap ce') (\<lambda>k. f k + int (count_list (List.product tables sc) k))
    \<and> T' = T \<union> Pair (ce_chunkId ce) ` {k \<in> set (List.product tables sc). f k = 0}"
proof -
  let ?ks = "List.product tables sc"
  obtain needed m where u: "countUp (ce_chunkId ce) ?ks ([], ce_tableMap ce) = (needed, m)" by fastforce
  have wf: "omap_wf (ce_tableMap ce)" and fk: "\<And>k. 0 \<le> f k" "\<And>k. omap_find (ce_tableMap ce) k = None \<longleftrightarrow> f k = 0"
    using assms(2) unfolding counts_def by (auto simp del: split_paired_All)
  note spec = countUp_spec [OF u wf]
  have new: "set needed = Pair (ce_chunkId ce) ` {k \<in> set ?ks. f k = 0}" using spec fk(2) by simp
  have "counts m (\<lambda>k. f k + int (count_list ?ks k))"
  proof (rule counts_unique)
    fix k
    have k: "omap_find m k = (if k \<in> set ?ks then Some (f k + int (count_list ?ks k)) else omap_find (ce_tableMap ce) k)"
      using spec [THEN conjunct2, THEN conjunct1, rule_format, of k] counts_cnt [OF assms(2)] by simp
    have "omap_find (ce_tableMap ce) k = (if f k = 0 then None else Some (f k))" using assms(2) unfolding counts_def by blast
    moreover have "k \<in> set ?ks \<Longrightarrow> 0 < count_list ?ks k" by (metis count_list_0_iff gr0I)
    moreover have "k \<notin> set ?ks \<Longrightarrow> count_list ?ks k = 0" by (simp add: count_list_0_iff)
    ultimately show "0 \<le> f k + int (count_list ?ks k) \<and>
        omap_find m k = (if f k + int (count_list ?ks k) = 0 then None else Some (f k + int (count_list ?ks k)))"
      using k fk(1) [of k] by auto
  qed (use spec in blast)
  moreover have out: "ce' = ce\<lparr> ce_refCount := ce_refCount ce + 1, ce_tableMap := m \<rparr>
      \<and> (needed = [] \<and> T' = T \<or> load env needed T = (Inr True, T'))"
    using assms(1) u by (auto simp: entry_acquire_def Let_def split: if_splits sum.splits bool.splits prod.splits)
  then have "T' = T \<union> set needed"
    using loadLoop_ok [of env "[]" needed T T'] by (auto simp: load_def split: if_splits)
  ultimately show ?thesis using new out by simp
qed

lemma entry_flush_ok:
  assumes "entry_flush env (ce, T) = (None, ce', T')" "omap_wf (ce_tableMap ce)"
    "\<And>k. omap_find (ce_tableMap ce) k \<noteq> None \<Longrightarrow> 0 \<le> cnt (ce_tableMap ce) k"
  shows "ce_chunkId ce' = ce_chunkId ce \<and> ce_refCount ce' = ce_refCount ce \<and> counts (ce_tableMap ce') (cnt (ce_tableMap ce))
    \<and> T' = T - Pair (ce_chunkId ce) ` {k. omap_find (ce_tableMap ce) k = Some 0}"
proof -
  let ?m = "ce_tableMap ce"
  have val: "0 \<le> n \<and> omap_find ?m k = Some n" if "(k, n) \<in> set ?m" for k n
    using omap_in_set_find [OF assms(2) that] assms(3) [of k] by (simp add: cnt_def)
  have "find (\<lambda>e. snd e < 0) ?m = None" using val by (force simp: find_None_iff)
  moreover let ?d = "map (\<lambda>e. (ce_chunkId ce, fst e)) (filter (\<lambda>e. snd e = 0) ?m)"
  have d: "set ?d = Pair (ce_chunkId ce) ` fst ` {e \<in> set ?m. snd e = 0}" by (simp add: image_image)
  ultimately have "ce' = ce\<lparr> ce_tableMap := filter (\<lambda>e. snd e \<noteq> 0) ?m \<rparr> \<and> (?d = [] \<and> T' = T \<or> discard env ?d T = (None, T'))"
    using assms(1) by (simp add: entry_flush_def Let_def split: if_splits prod.splits)
  then have out: "ce' = ce\<lparr> ce_tableMap := filter (\<lambda>e. snd e \<noteq> 0) ?m \<rparr>"
    "T' = T - Pair (ce_chunkId ce) ` fst ` {e \<in> set ?m. snd e = 0}"
    using discard_ok [of env ?d T T'] unfolding d [symmetric] by (simp, metis Diff_empty empty_set)
  have "k \<in> fst ` {e \<in> set ?m. snd e = 0} \<longleftrightarrow> (k, 0) \<in> set ?m" for k by force
  then have "fst ` {e \<in> set ?m. snd e = 0} = {k. (k, 0) \<in> set ?m}" by blast
  also have "\<dots> = {k. omap_find ?m k = Some 0}"
    using omap_in_set_find [OF assms(2), of _ 0] omap_find_in_set [of ?m _ 0] by (intro Collect_cong iffI)
  finally have "fst ` {e \<in> set ?m. snd e = 0} = {k. omap_find ?m k = Some 0}" .
  moreover have "counts (filter (\<lambda>e. snd e \<noteq> 0) ?m) (cnt ?m)"
  proof (rule counts_unique)
    fix k
    have "omap_find (filter (\<lambda>e. snd e \<noteq> 0) ?m) k = (if cnt ?m k = 0 then None else Some (cnt ?m k))"
    proof (cases "omap_find ?m k")
      case None
      then have "k \<notin> fst ` set (filter (\<lambda>e. snd e \<noteq> 0) ?m)" using omap_find_key [of ?m k] by auto
      then show ?thesis using None omap_find_key [of "filter (\<lambda>e. snd e \<noteq> 0) ?m" k] by (simp add: cnt_def)
    next
      case (Some n)
      show ?thesis
      proof (cases "n = 0")
        case True
        have "k \<notin> fst ` set (filter (\<lambda>e. snd e \<noteq> 0) ?m)" using val Some True by force
        then show ?thesis using True Some omap_find_key [of "filter (\<lambda>e. snd e \<noteq> 0) ?m" k] by (simp add: cnt_def)
      next
        case False
        then have "(k, n) \<in> set (filter (\<lambda>e. snd e \<noteq> 0) ?m)" using omap_find_in_set [OF Some] by simp
        then show ?thesis using False Some omap_in_set_find [OF omap_wf_filter [OF assms(2)]] by (simp add: cnt_def)
      qed
    qed
    moreover have "0 \<le> cnt ?m k" using assms(3) [of k] by (cases "omap_find ?m k") (simp_all add: cnt_def)
    ultimately show "0 \<le> cnt ?m k \<and> omap_find (filter (\<lambda>e. snd e \<noteq> 0) ?m) k = (if cnt ?m k = 0 then None else Some (cnt ?m k))" by simp
  qed (simp add: omap_wf_filter assms(2))
  ultimately show ?thesis using out by simp
qed

lemma countDown_counts:
  assumes "counts m f" "\<And>k. int (count_list ks k) \<le> f k"
  shows "\<exists>m'. countDown ks m = (None, m') \<and> omap_wf m' \<and> (\<forall>k. omap_find m' k \<noteq> None \<longrightarrow> 0 \<le> cnt m' k)
    \<and> cnt m' = (\<lambda>k. f k - int (count_list ks k)) \<and> {k. omap_find m' k = Some 0} = {k \<in> set ks. f k = int (count_list ks k)}"
proof -
  have pos: "0 < count_list ks k" if "k \<in> set ks" for k using that by (metis count_list_0_iff gr0I)
  have c: "omap_wf m" "\<And>k. omap_find m k = (if f k = 0 then None else Some (f k))" using assms(1) unfolding counts_def by blast+
  have "omap_find m k \<noteq> None" if "k \<in> set ks" for k using pos [OF that] assms(2) [of k] c(2) by auto
  then obtain m' where m': "countDown ks m = (None, m')" "omap_wf m'"
    "\<And>k. omap_find m' k = (if k \<in> set ks then Some (cnt m k - int (count_list ks k)) else omap_find m k)"
    using countDown_spec [of ks m] c(1) by blast
  have find: "omap_find m' k = (if k \<in> set ks then Some (f k - int (count_list ks k)) else if f k = 0 then None else Some (f k))" for k
    using m'(3) [of k] counts_cnt [OF assms(1)] c(2) by simp
  have cnt: "cnt m' k = f k - int (count_list ks k)" for k
    using find [of k] by (auto simp: cnt_def count_list_0_iff)
  have "0 \<le> cnt m' k" for k using cnt [of k] assms(2) [of k] by simp
  moreover have "{k. omap_find m' k = Some 0} = {k \<in> set ks. f k = int (count_list ks k)}"
    using find by (auto simp del: split_paired_All split_paired_Ex split: if_splits)
  ultimately show ?thesis using m'(1,2) cnt by blast
qed

lemma entry_release_ok:
  assumes "entry_release env tables sc (ce, T) = (r, ce', T')" "counts (ce_tableMap ce) f"
    "\<And>k. int (count_list (List.product tables sc) k) \<le> f k"
  shows "r \<noteq> Some ReleaseBug \<and> r \<noteq> Some FlushBug \<and> (r = None \<longrightarrow>
    ce_chunkId ce' = ce_chunkId ce \<and> ce_refCount ce' = ce_refCount ce - 1
    \<and> counts (ce_tableMap ce') (\<lambda>k. f k - int (count_list (List.product tables sc) k))
    \<and> T' = T - Pair (ce_chunkId ce) ` {k \<in> set (List.product tables sc). f k = int (count_list (List.product tables sc) k)})"
proof (cases "memLockRequireOwnership env")
  case True
  obtain m where m: "countDown (List.product tables sc) (ce_tableMap ce) = (None, m)" "omap_wf m"
    "\<And>k. omap_find m k \<noteq> None \<Longrightarrow> 0 \<le> cnt m k"
    "cnt m = (\<lambda>k. f k - int (count_list (List.product tables sc) k))"
    "{k. omap_find m k = Some 0} = {k \<in> set (List.product tables sc). f k = int (count_list (List.product tables sc) k)}"
    using countDown_counts [OF assms(2,3)] by blast
  let ?ce = "ce\<lparr> ce_tableMap := m, ce_refCount := ce_refCount ce - 1 \<rparr>"
  have run: "entry_flush env (?ce, T) = (r, ce', T')" using assms(1) True m(1) by (simp add: entry_release_def)
  have "find (\<lambda>e. snd e < 0) m = None"
    using m(3) omap_in_set_find [OF m(2)] by (force simp: find_None_iff cnt_def)
  then have "r \<noteq> Some ReleaseBug \<and> r \<noteq> Some FlushBug"
    using run True discard_errors by (auto simp: entry_flush_def Let_def split: if_splits prod.splits)
  moreover have "ce_chunkId ce' = ce_chunkId ce \<and> ce_refCount ce' = ce_refCount ce - 1
    \<and> counts (ce_tableMap ce') (\<lambda>k. f k - int (count_list (List.product tables sc) k))
    \<and> T' = T - Pair (ce_chunkId ce) ` {k \<in> set (List.product tables sc). f k = int (count_list (List.product tables sc) k)}" if "r = None"
    using entry_flush_ok [of env ?ce T ce' T'] run that m(2,3) unfolding m(4) [symmetric] m(5) [symmetric] by simp
  ultimately show ?thesis by blast
qed (use assms(1) in \<open>auto simp: entry_release_def\<close>)

section \<open>The reservations held\<close>

definition occ :: "resInfo multiset \<Rightarrow> string \<Rightarrow> int \<Rightarrow> dbTable \<times> int \<Rightarrow> int" where
  "occ R db c k = (\<Sum>i \<in># R. if in_db i = db \<and> in_chunkId i = c
     then int (count_list (List.product (in_tables i) (in_subChunkIds i)) k) else 0)"

definition refs :: "resInfo multiset \<Rightarrow> string \<Rightarrow> int \<Rightarrow> int" where
  "refs R db c = int (size (filter_mset (\<lambda>i. in_db i = db \<and> in_chunkId i = c) R))"

abbreviation entryOf :: "string \<Rightarrow> int \<Rightarrow> resourceMgr \<Rightarrow> chunkEntry" where
  "entryOf db c s \<equiv> getChunkEntry (getMap db s) c"

text \<open>Every table belongs to a reservation held; and if no table was reserved under two databases, every reservation has its tables.\<close>

definition oneHome :: "resInfo set \<Rightarrow> bool" where
  "oneHome H \<longleftrightarrow> (\<forall>i \<in> H. \<forall>k \<in> H. in_db i \<noteq> in_db k \<longrightarrow> set (in_tables i) \<inter> set (in_tables k) = {})"

definition mgr_inv :: "resourceMgr \<Rightarrow> resInfo multiset \<Rightarrow> resInfo set \<Rightarrow> bool" where
  "mgr_inv s R H \<longleftrightarrow>
     (\<forall>db c. ce_chunkId (entryOf db c s) = c \<and> ce_refCount (entryOf db c s) = refs R db c
        \<and> counts (ce_tableMap (entryOf db c s)) (occ R db c))
     \<and> set_mset R \<subseteq> H
     \<and> (\<forall>x \<in> rm_tables s. \<exists>db. 0 < occ R db (fst x) (snd x))
     \<and> (oneHome H \<longrightarrow> (\<forall>db c k. 0 < occ R db c k \<longrightarrow> (c, k) \<in> rm_tables s))"

lemma entryOf_put [simp]: "entryOf d k (putEntry db c ce T s) = (if d = db \<and> k = c then ce else entryOf d k s)"
  by (auto simp: putEntry_def getMap_def getChunkEntry_def)

lemma rm_tables_put [simp]: "rm_tables (putEntry db c ce T s) = T"
  by (simp add: putEntry_def)

lemma occ_add:
  "occ (add_mset i R) db c k = occ R db c k + (if in_db i = db \<and> in_chunkId i = c
     then int (count_list (List.product (in_tables i) (in_subChunkIds i)) k) else 0)"
  by (simp add: occ_def)

lemma occ_nonneg: "0 \<le> occ R db c k"
  by (induction R) (auto simp: occ_add, simp add: occ_def)

lemma refs_add: "refs (add_mset i R) db c = refs R db c + (if in_db i = db \<and> in_chunkId i = c then 1 else 0)"
  by (simp add: refs_def)

lemma occ_member: "i \<in># R \<Longrightarrow> int (count_list (List.product (in_tables i) (in_subChunkIds i)) k) \<le> occ R (in_db i) (in_chunkId i) k"
  using occ_add [of i "R - {#i#}" "in_db i" "in_chunkId i" k] occ_nonneg [of "R - {#i#}" "in_db i" "in_chunkId i" k] by simp

lemma occ_pos: "0 < occ R db c k \<Longrightarrow> \<exists>i \<in># R. in_db i = db \<and> in_chunkId i = c \<and> k \<in> set (List.product (in_tables i) (in_subChunkIds i))"
proof (induction R)
  case (add i R)
  show ?case
  proof (cases "0 < occ R db c k")
    case False
    then have "in_db i = db \<and> in_chunkId i = c \<and> count_list (List.product (in_tables i) (in_subChunkIds i)) k \<noteq> 0"
      using add.prems occ_nonneg [of R db c k] by (auto simp: occ_add split: if_splits)
    then show ?thesis by (metis count_list_0_iff union_single_eq_member)
  qed (use add.IH in auto)
qed (simp add: occ_def)

lemma mgr_inv_new: "mgr_inv newMgr {#} {}"
  by (simp add: mgr_inv_def newMgr_def getMap_def getChunkEntry_def newChunkEntry_def refs_def occ_def counts_def)

lemma mgr_inv_entry:
  assumes "mgr_inv s R H"
  shows "ce_chunkId (entryOf db c s) = c" "ce_refCount (entryOf db c s) = refs R db c" "counts (ce_tableMap (entryOf db c s)) (occ R db c)"
  using assms by (auto simp: mgr_inv_def)

lemma mgr_inv_tables:
  assumes "mgr_inv s R H"
  shows "x \<in> rm_tables s \<Longrightarrow> \<exists>db. 0 < occ R db (fst x) (snd x)"
    and "oneHome H \<Longrightarrow> 0 < occ R db c k \<Longrightarrow> (c, k) \<in> rm_tables s" and "set_mset R \<subseteq> H"
  using assms unfolding mgr_inv_def by blast+

lemma oneHome_mono: "oneHome H' \<Longrightarrow> H \<subseteq> H' \<Longrightarrow> oneHome H"
  unfolding oneHome_def by blast

lemma mgr_inv_acquire:
  assumes "mgr_inv s R H" "acquireUnit env i s = (None, s')"
  shows "mgr_inv s' (add_mset i R) (insert i H)"
proof -
  let ?db = "in_db i" and ?c = "in_chunkId i" and ?ks = "List.product (in_tables i) (in_subChunkIds i)" and ?R = "add_mset i R"
  obtain ce T where ce: "entry_acquire env (in_tables i) (in_subChunkIds i) (entryOf ?db ?c s, rm_tables s) = (None, ce, T)"
    "s' = putEntry ?db ?c ce T s"
    using assms(2) by (auto simp: acquireUnit_def split: prod.splits)
  note e = mgr_inv_entry [OF assms(1), of ?db ?c]
  note ok = entry_acquire_ok [OF ce(1) e(3)]
  have T: "T = rm_tables s \<union> Pair ?c ` {k \<in> set ?ks. occ R ?db ?c k = 0}" using ok e(1) by simp
  have new: "0 < occ ?R ?db ?c k" if "k \<in> set ?ks" for k
  proof -
    have "0 < count_list ?ks k" using that by (metis count_list_0_iff gr0I)
    then show ?thesis using occ_nonneg [of R ?db ?c k] unfolding occ_add simp_thms if_True by linarith
  qed
  have "\<exists>db. 0 < occ ?R db (fst x) (snd x)" if "x \<in> T" for x
  proof (cases "x \<in> rm_tables s")
    case True
    then obtain db where "0 < occ R db (fst x) (snd x)" using mgr_inv_tables(1) [OF assms(1)] by blast
    then show ?thesis by (intro exI [of _ db]) (simp add: occ_add)
  next
    case False
    then have "fst x = ?c" "snd x \<in> set ?ks" using that T by auto
    then show ?thesis using new [of "snd x"] by (intro exI [of _ ?db]) simp
  qed
  moreover have "(c, k) \<in> T" if "oneHome (insert i H)" "0 < occ ?R db c k" for db c k
  proof (cases "0 < occ R db c k")
    case True
    then show ?thesis using mgr_inv_tables(2) [OF assms(1)] oneHome_mono [OF that(1), of H] T by blast
  next
    case False
    then have z: "occ R db c k = 0" "?db = db" "?c = c" "count_list ?ks k \<noteq> 0"
      using that(2) occ_nonneg [of R db c k] by (auto simp: occ_add split: if_splits)
    then have "k \<in> set ?ks" by (metis count_list_0_iff)
    then show ?thesis using z(1-3) T by blast
  qed
  moreover have "counts (ce_tableMap ce) (occ ?R ?db ?c)"
    using ok by (simp add: occ_add [abs_def])
  moreover have "occ ?R d k = occ R d k" if "\<not> (d = ?db \<and> k = ?c)" for d k
    using that by (auto simp: occ_add fun_eq_iff)
  then have "ce_chunkId (entryOf d k s') = k \<and> ce_refCount (entryOf d k s') = refs ?R d k \<and> counts (ce_tableMap (entryOf d k s')) (occ ?R d k)" for d k
    using mgr_inv_entry [OF assms(1), of d k] ok e \<open>counts (ce_tableMap ce) (occ ?R ?db ?c)\<close> ce(2) by (cases "d = ?db \<and> k = ?c") (auto simp: refs_add)
  moreover have "rm_tables s' = T" "set_mset ?R \<subseteq> insert i H" using ce(2) mgr_inv_tables(3) [OF assms(1)] by auto
  ultimately show ?thesis unfolding mgr_inv_def by blast
qed

lemma mgr_inv_release:
  assumes "mgr_inv s R H" "i \<in># R" "mgr_release env i s = (r, s')"
  shows "r \<noteq> Some ReleaseBug \<and> r \<noteq> Some FlushBug \<and> (r = None \<longrightarrow> mgr_inv s' (R - {#i#}) H)"
proof -
  let ?db = "in_db i" and ?c = "in_chunkId i" and ?ks = "List.product (in_tables i) (in_subChunkIds i)" and ?R = "R - {#i#}"
  obtain ce T where ce: "entry_release env (in_tables i) (in_subChunkIds i) (entryOf ?db ?c s, rm_tables s) = (r, ce, T)"
    "s' = putEntry ?db ?c ce T s"
    using assms(3) by (auto simp: mgr_release_def split: prod.splits)
  note e = mgr_inv_entry [OF assms(1), of ?db ?c]
  note rel = entry_release_ok [OF ce(1) e(3) occ_member [OF assms(2)]]
  have occ: "occ R d k x = occ ?R d k x + (if ?db = d \<and> ?c = k then int (count_list ?ks x) else 0)" for d k x
    using occ_add [of i ?R d k x] assms(2) by simp
  have refs: "refs R d k = refs ?R d k + (if ?db = d \<and> ?c = k then 1 else 0)" for d k
    using refs_add [of i ?R d k] assms(2) by simp
  have H: "set_mset ?R \<subseteq> H" "i \<in> H" using mgr_inv_tables(3) [OF assms(1)] assms(2) by (auto dest: in_diffD)
  have "mgr_inv s' ?R H" if "r = None"
  proof -
    have ok: "ce_chunkId ce = ?c" "ce_refCount ce = refs ?R ?db ?c" "counts (ce_tableMap ce) (occ ?R ?db ?c)"
      "T = rm_tables s - Pair ?c ` {k \<in> set ?ks. occ ?R ?db ?c k = 0}"
      using rel that e refs [of ?db ?c] occ [of ?db ?c] by (simp_all add: fun_eq_iff)
    have "\<exists>db. 0 < occ ?R db (fst x) (snd x)" if x: "x \<in> T" for x
    proof -
      obtain db where db: "0 < occ R db (fst x) (snd x)" using mgr_inv_tables(1) [OF assms(1)] x ok(4) by blast
      show ?thesis
      proof (cases "0 < occ ?R db (fst x) (snd x)")
        case False
        then have z: "?db = db" "?c = fst x" "count_list ?ks (snd x) \<noteq> 0" "occ ?R ?db ?c (snd x) = 0"
          using db occ [of db "fst x" "snd x"] occ_nonneg [of ?R db "fst x" "snd x"] by (auto split: if_splits)
        then have "snd x \<in> set ?ks" by (metis count_list_0_iff)
        then have "x \<in> Pair ?c ` {k \<in> set ?ks. occ ?R ?db ?c k = 0}" using z by (metis (mono_tags, lifting) image_eqI mem_Collect_eq prod.collapse)
        then show ?thesis using x ok(4) by blast
      qed blast
    qed
    moreover have "(c, k) \<in> T" if h: "oneHome H" "0 < occ ?R db c k" for db c k
    proof -
      have "0 < occ R db c k" using h(2) occ [of db c k] by (simp split: if_splits)
      then have "(c, k) \<in> rm_tables s" by (rule mgr_inv_tables(2) [OF assms(1) h(1)])
      moreover have "\<not> (c = ?c \<and> k \<in> set ?ks \<and> occ ?R ?db ?c k = 0)"
      proof
        assume z: "c = ?c \<and> k \<in> set ?ks \<and> occ ?R ?db ?c k = 0"
        obtain j where j: "j \<in># ?R" "in_db j = db" "k \<in> set (List.product (in_tables j) (in_subChunkIds j))"
          using occ_pos [OF h(2)] by blast
        have "fst k \<in> set (in_tables i) \<inter> set (in_tables j)" using z j(3) by auto
        then have "in_db i = in_db j" using h(1) H j(1) unfolding oneHome_def by blast
        then show False using z h(2) j(2) by simp
      qed
      ultimately show ?thesis using ok(4) by blast
    qed
    moreover have "ce_chunkId (entryOf d k s') = k \<and> ce_refCount (entryOf d k s') = refs ?R d k
        \<and> counts (ce_tableMap (entryOf d k s')) (occ ?R d k)" for d k
    proof (cases "d = ?db \<and> k = ?c")
      case False
      then have "occ R d k = occ ?R d k" "refs R d k = refs ?R d k" using occ [of d k] refs [of d k] by auto
      then show ?thesis using False mgr_inv_entry [OF assms(1), of d k] ce(2) by auto
    qed (use ok(1-3) ce(2) in simp)
    moreover have "rm_tables s' = T" using ce(2) by simp
    ultimately show ?thesis using H(1) unfolding mgr_inv_def by blast
  qed
  then show ?thesis using rel by blast
qed

lemma res_reach_inv: "res_reach s R H \<Longrightarrow> mgr_inv s R H"
proof (induction rule: res_reach.induct)
  case re_new
  show ?case by (rule mgr_inv_new)
next
  case (re_acquire s R H i env s')
  then show ?case using mgr_inv_acquire by blast
next
  case (re_release s R H i env s')
  then show ?case using mgr_inv_release by blast
qed

text \<open>The subchunk tables of the reservations held.\<close>

definition heldTables :: "resInfo multiset \<Rightarrow> scTable set" where
  "heldTables R = {(in_chunkId i, t, n) | i t n. i \<in># R \<and> t \<in> set (in_tables i) \<and> n \<in> set (in_subChunkIds i)}"

lemma heldTables_occ: "x \<in> heldTables R \<longleftrightarrow> (\<exists>db. 0 < occ R db (fst x) (snd x))"
proof
  assume "x \<in> heldTables R"
  then obtain i t n where x: "x = (in_chunkId i, t, n)" "i \<in># R" "(t, n) \<in> set (List.product (in_tables i) (in_subChunkIds i))"
    by (auto simp: heldTables_def)
  then have "0 < count_list (List.product (in_tables i) (in_subChunkIds i)) (t, n)" by (metis count_list_0_iff gr0I)
  then have "0 < occ R (in_db i) (in_chunkId i) (t, n)" using occ_member [OF x(2), of "(t, n)"] by linarith
  then show "\<exists>db. 0 < occ R db (fst x) (snd x)" using x(1) by auto
next
  assume "\<exists>db. 0 < occ R db (fst x) (snd x)"
  then obtain i where "i \<in># R" "in_chunkId i = fst x" "snd x \<in> set (List.product (in_tables i) (in_subChunkIds i))"
    using occ_pos by blast
  then show "x \<in> heldTables R" by (cases x) (auto simp: heldTables_def)
qed

text \<open>
  C16. In every run of the manager in which no operation throws: no in-memory table is left over that is not a subchunk table of a
  reservation held; if no table was ever reserved under two different databases, the tables that exist are exactly the subchunk tables of the
  reservations held; the reference count of a chunk is the number of its reservations; and releasing a reservation that is held
  never finds a count missing or negative.
\<close>

theorem subchunk_tables_exact:
  assumes "res_reach s R H"
  shows "rm_tables s \<subseteq> heldTables R \<and> (oneHome H \<longrightarrow> rm_tables s = heldTables R)
    \<and> (\<forall>db c. getRefCount db c s = int (size (filter_mset (\<lambda>i. in_db i = db \<and> in_chunkId i = c) R)))
    \<and> (\<forall>i \<in># R. \<forall>env. fst (mgr_release env i s) \<notin> {Some ReleaseBug, Some FlushBug})"
proof -
  note I = res_reach_inv [OF assms]
  have sub: "rm_tables s \<subseteq> heldTables R" using mgr_inv_tables(1) [OF I] heldTables_occ by blast
  moreover have "x \<in> rm_tables s" if h: "oneHome H" "x \<in> heldTables R" for x
  proof -
    obtain db where "0 < occ R db (fst x) (snd x)" using h(2) heldTables_occ by blast
    then have "(fst x, snd x) \<in> rm_tables s" by (rule mgr_inv_tables(2) [OF I h(1)])
    then show ?thesis by simp
  qed
  moreover have "getRefCount db c s = ce_refCount (entryOf db c s)" for db c
    by (simp add: getRefCount_def getChunkEntry_def newChunkEntry_def split: option.splits)
  then have "getRefCount db c s = int (size (filter_mset (\<lambda>i. in_db i = db \<and> in_chunkId i = c) R))" for db c
    using mgr_inv_entry(2) [OF I, of db c] by (simp add: refs_def)
  moreover have "fst (mgr_release env i s) \<notin> {Some ReleaseBug, Some FlushBug}" if "i \<in># R" for i env
    using mgr_inv_release [OF I that, of env] by (cases "mgr_release env i s") auto
  ultimately show ?thesis by blast
qed

definition demoSql :: "(scTable \<Rightarrow> bool) \<Rightarrow> sqlEnv" where
  "demoSql ok = \<lparr> se_lockRow = Some (Some 9), se_uid = 9, se_create = ok, se_partial = (\<lambda>_. False), se_drop = (\<lambda>_. True) \<rparr>"

definition demoInfo :: "string \<Rightarrow> int list \<Rightarrow> resInfo" where
  "demoInfo db sc = \<lparr> in_db = db, in_chunkId = 7, in_tables = [(''LSST'', ''Object'')], in_subChunkIds = sc \<rparr>"

lemmas res_defs = acquireUnit_def mgr_release_def entry_acquire_def entry_release_def entry_flush_def load_def discard_def
  memLockRequireOwnership_def memLockStatus_def getMap_def getChunkEntry_def newChunkEntry_def putEntry_def newMgr_def
  demoSql_def demoInfo_def

theorem subchunk_tables_exact_witness:
  "\<exists>s H. res_reach s {#demoInfo ''LSST'' [2, 3]#} H \<and> rm_tables s = {(7, (''LSST'', ''Object''), 2), (7, (''LSST'', ''Object''), 3)}
     \<and> getRefCount ''LSST'' 7 s = 1"
proof -
  let ?a = "demoInfo ''LSST'' [1, 2]" and ?b = "demoInfo ''LSST'' [2, 3]"
  obtain s where s: "acquireUnit (demoSql (\<lambda>_. True)) ?a newMgr = (None, s)" by (simp add: res_defs)
  obtain t where t: "acquireUnit (demoSql (\<lambda>_. True)) ?b s = (None, t)" using s by (auto simp: res_defs)
  obtain u where u: "mgr_release (demoSql (\<lambda>_. True)) ?a t = (None, u)" using s t by (auto simp: res_defs)
  have "res_reach s (add_mset ?a {#}) {?a}" using s by (intro re_acquire [OF re_new]) (simp_all add: demoInfo_def)
  then have "res_reach t (add_mset ?b (add_mset ?a {#})) {?b, ?a}" by (rule re_acquire [OF _ _ t]) (simp_all add: demoInfo_def)
  then have "res_reach u (add_mset ?b (add_mset ?a {#}) - {#?a#}) {?b, ?a}" by (rule re_release [OF _ _ u]) simp
  then have run: "res_reach u {#?b#} {?b, ?a}" by simp
  have "oneHome {?b, ?a}" by (simp add: oneHome_def demoInfo_def)
  moreover have "heldTables {#?b#} = {(7, (''LSST'', ''Object''), 2), (7, (''LSST'', ''Object''), 3)}"
    by (auto simp: heldTables_def demoInfo_def)
  ultimately show ?thesis using run subchunk_tables_exact [OF run] by (intro exI [of _ u] exI [of _ "{?b, ?a}"]) (auto simp: demoInfo_def)
qed

section \<open>Where the counts go wrong\<close>

text \<open>
  After a load has failed, the counts of the tables that were not made are zero but present: the next reservation of such a
  subchunk succeeds without a table. The reference count of the failed reservation stays.
\<close>

lemma failed_load_leaves_gap:
  "\<exists>s s'. acquireUnit (demoSql (\<lambda>_. False)) (demoInfo ''LSST'' [1]) newMgr = (Some SqlErrorObject, s)
     \<and> acquireUnit (demoSql (\<lambda>_. True)) (demoInfo ''LSST'' [1]) s = (None, s')
     \<and> rm_tables s' = {} \<and> getRefCount ''LSST'' 7 s' = 2"
  by (simp add: res_defs getRefCount_def)

text \<open>A reservation that is assigned to another object's keeps the old reservation for ever.\<close>

lemma assignment_leaks:
  "\<exists>s s' s''. acquireUnit (demoSql (\<lambda>_. True)) (demoInfo ''LSST'' [1]) newMgr = (None, s)
     \<and> resource_assign (demoSql (\<lambda>_. True)) (demoInfo ''LSST'' [1]) (demoInfo ''LSST'' [2]) s = (None, s')
     \<and> mgr_release (demoSql (\<lambda>_. True)) (demoInfo ''LSST'' [2]) s' = (None, s'')
     \<and> rm_tables s'' = {(7, (''LSST'', ''Object''), 1)}"
  by (simp add: res_defs resource_assign_def)

text \<open>
  The counts are kept per database of the query, not per database of the table: of two queries with different databases that use the same table
  the first to finish drops the table of the other.
\<close>

lemma shared_table_dropped:
  "\<exists>s s' s''. acquireUnit (demoSql (\<lambda>_. True)) (demoInfo ''LSST'' [1]) newMgr = (None, s)
     \<and> acquireUnit (demoSql (\<lambda>_. True)) (demoInfo ''Other'' [1]) s = (None, s')
     \<and> mgr_release (demoSql (\<lambda>_. True)) (demoInfo ''LSST'' [1]) s' = (None, s'')
     \<and> rm_tables s'' = {} \<and> getRefCount ''Other'' 7 s'' = 1"
  by (simp add: res_defs getRefCount_def less_char_def)

end
