(* ===== verification/Replica_Plan.thy ===== *)
theory Replica_Plan
  imports Scan_Info
begin

text \<open>
  The planners of the replication system: \<open>replica/FindAllJob\<close> (which replicas of a chunk are good),
  \<open>replica/ReplicateJob\<close> (where to create missing replicas) and \<open>replica/RebalanceJob\<close> (which replicas to move
  from workers above the average to workers below it).

  The maps of the code are lists of their entries in the order of their keys. \<open>std::sort\<close> is a parameter of the
  rebalance planner: it may order entries that compare equal in any way.

  The lemmas show what good means, that a replica is never placed on a worker that has one, and that a rebalance plan
  moves no more than is needed and as much as is possible. They also show where the replication planner goes wrong.
\<close>

section \<open>Good replicas\<close>

datatype replicaStatus = NOT_FOUND | CORRUPT | INCOMPLETE | COMPLETE

record replicaInfo =
  ri_chunk :: nat
  ri_database :: string
  ri_worker :: string
  ri_status :: replicaStatus

definition chunkNumbers :: "replicaInfo list \<Rightarrow> nat list" where
  "chunkNumbers rs = sorted_list_of_set (ri_chunk ` set rs)"

definition databaseNames :: "replicaInfo list \<Rightarrow> nat \<Rightarrow> string list" where
  "databaseNames rs c = sorted_list_of_set (ri_database ` {r \<in> set rs. ri_chunk r = c})"

definition workerNames :: "replicaInfo list \<Rightarrow> nat \<Rightarrow> string \<Rightarrow> string list" where
  "workerNames rs c db = sorted_list_of_set (ri_worker ` {r \<in> set rs. ri_chunk r = c \<and> ri_database r = db})"

text \<open>The workers with any replica of the chunk, and in how many databases, as \<open>worker2numDatabases\<close> has them.\<close>

definition chunkWorkers :: "replicaInfo list \<Rightarrow> nat \<Rightarrow> string list" where
  "chunkWorkers rs c = sorted_list_of_set (\<Union> db \<in> set (databaseNames rs c). set (workerNames rs c db))"

definition numDatabases :: "replicaInfo list \<Rightarrow> nat \<Rightarrow> string \<Rightarrow> nat" where
  "numDatabases rs c w = length (filter (\<lambda>db. w \<in> set (workerNames rs c db)) (databaseNames rs c))"

definition isColocated :: "replicaInfo list \<Rightarrow> nat \<Rightarrow> string \<Rightarrow> bool" where
  "isColocated rs c w \<longleftrightarrow> length (databaseNames rs c) = numDatabases rs c w"

text \<open>\<open>databaseMap.worker(worker)\<close>: the replica; the collection has at most one for a key.\<close>

definition theReplica :: "replicaInfo list \<Rightarrow> nat \<Rightarrow> string \<Rightarrow> string \<Rightarrow> replicaInfo option" where
  "theReplica rs c db w = find (\<lambda>r. ri_chunk r = c \<and> ri_database r = db \<and> ri_worker r = w) rs"

definition isGood :: "replicaInfo list \<Rightarrow> nat \<Rightarrow> string \<Rightarrow> bool" where
  "isGood rs c w \<longleftrightarrow>
     (if isColocated rs c w
      then list_all (\<lambda>db. list_all (\<lambda>thisWorker.
             w = thisWorker \<longrightarrow> (case theReplica rs c db w of None \<Rightarrow> True | Some r \<Rightarrow> ri_status r = COMPLETE))
             (workerNames rs c db)) (databaseNames rs c)
      else False)"

definition goodMap :: "replicaInfo list \<Rightarrow> (nat \<times> (string \<times> bool) list) list" where
  "goodMap rs = map (\<lambda>c. (c, map (\<lambda>w. (w, isGood rs c w)) (chunkWorkers rs c))) (chunkNumbers rs)"

text \<open>The collection is keyed: one replica for a chunk, database and worker.\<close>

definition keyed :: "replicaInfo list \<Rightarrow> bool" where
  "keyed rs \<longleftrightarrow> distinct (map (\<lambda>r. (ri_chunk r, ri_database r, ri_worker r)) rs)"

lemma set_databaseNames: "set (databaseNames rs c) = ri_database ` {r \<in> set rs. ri_chunk r = c}"
  by (simp add: databaseNames_def)

lemma set_workerNames:
  "set (workerNames rs c db) = ri_worker ` {r \<in> set rs. ri_chunk r = c \<and> ri_database r = db}"
  by (simp add: workerNames_def)

lemma colocated_iff:
  "isColocated rs c w \<longleftrightarrow> (\<forall>db \<in> set (databaseNames rs c). w \<in> set (workerNames rs c db))"
  by (simp add: isColocated_def numDatabases_def length_filter_all)

lemma theReplica_keyed:
  assumes "keyed rs" "r \<in> set rs"
  shows "theReplica rs (ri_chunk r) (ri_database r) (ri_worker r) = Some r"
  using assms
proof (induction rs)
  case (Cons s rs)
  then show ?case by (auto simp: theReplica_def keyed_def)
qed simp

lemma good_iff:
  assumes "keyed rs"
  shows "isGood rs c w \<longleftrightarrow> (\<forall>db \<in> set (databaseNames rs c).
    \<exists>r \<in> set rs. ri_chunk r = c \<and> ri_database r = db \<and> ri_worker r = w \<and> ri_status r = COMPLETE)"
proof
  assume g: "isGood rs c w"
  then have col: "\<forall>db \<in> set (databaseNames rs c). w \<in> set (workerNames rs c db)"
    by (auto simp: isGood_def colocated_iff split: if_splits)
  show "\<forall>db \<in> set (databaseNames rs c).
    \<exists>r \<in> set rs. ri_chunk r = c \<and> ri_database r = db \<and> ri_worker r = w \<and> ri_status r = COMPLETE"
  proof
    fix db assume db: "db \<in> set (databaseNames rs c)"
    then obtain r where r: "r \<in> set rs" "ri_chunk r = c" "ri_database r = db" "ri_worker r = w"
      using col by (auto simp: set_workerNames)
    then have "theReplica rs c db w = Some r" using theReplica_keyed [OF assms] by blast
    then have "ri_status r = COMPLETE"
      using g db col by (auto simp: isGood_def list_all_iff split: if_splits)
    then show "\<exists>r \<in> set rs. ri_chunk r = c \<and> ri_database r = db \<and> ri_worker r = w \<and> ri_status r = COMPLETE"
      using r by blast
  qed
next
  assume a: "\<forall>db \<in> set (databaseNames rs c).
    \<exists>r \<in> set rs. ri_chunk r = c \<and> ri_database r = db \<and> ri_worker r = w \<and> ri_status r = COMPLETE"
  then have "isColocated rs c w" by (fastforce simp: colocated_iff set_workerNames)
  moreover have "case theReplica rs c db w of None \<Rightarrow> True | Some r \<Rightarrow> ri_status r = COMPLETE"
    if "db \<in> set (databaseNames rs c)" for db
  proof -
    obtain r where "r \<in> set rs" "ri_chunk r = c" "ri_database r = db" "ri_worker r = w" "ri_status r = COMPLETE"
      using a \<open>db \<in> set (databaseNames rs c)\<close> by blast
    then show ?thesis using theReplica_keyed [OF assms, of r] by simp
  qed
  ultimately show "isGood rs c w" by (simp add: isGood_def list_all_iff)
qed

section \<open>Creating missing replicas\<close>

text \<open>What the precursor job reports: which workers answered, and the replicas found.\<close>

record findAllResult =
  fa_workers :: "(string \<times> bool) list"
  fa_replicas :: "replicaInfo list"

definition chunk2numReplicas2create :: "nat \<Rightarrow> replicaInfo list \<Rightarrow> (nat \<times> nat) list" where
  "chunk2numReplicas2create num rs =
     map (\<lambda>(c, ws). (c, num - length ws)) (filter (\<lambda>(c, ws). length ws < num) (goodMap rs))"

definition worker2occupancy :: "replicaInfo list \<Rightarrow> string \<Rightarrow> nat" where
  "worker2occupancy rs w = length (filter (\<lambda>(c, ws). (w, True) \<in> set ws) (goodMap rs))"

text \<open>The black list \<open>worker2chunks\<close>.\<close>

definition hasReplica :: "replicaInfo list \<Rightarrow> string \<Rightarrow> nat \<Rightarrow> bool" where
  "hasReplica rs w c \<longleftrightarrow> c \<in> set (chunkNumbers rs) \<and> (\<exists>db \<in> set (databaseNames rs c). w \<in> set (workerNames rs c db))"

datatype planError = UnknownWorker | NoWorkers | NoSource nat | NoDestination nat

text \<open>The white list; \<open>workers.at\<close> throws for a configured worker that the precursor job did not ask.\<close>

fun availableWorkers :: "(string \<times> bool) list \<Rightarrow> string list \<Rightarrow> planError + string list" where
  "availableWorkers reported [] = Inr []"
| "availableWorkers reported (w # ws) =
     (case map_of reported w of
        None \<Rightarrow> Inl UnknownWorker
      | Some ok \<Rightarrow> (case availableWorkers reported ws of
          Inl e \<Rightarrow> Inl e
        | Inr us \<Rightarrow> Inr (if ok then w # us else us)))"

definition MAX_SIZE :: nat where "MAX_SIZE = 2 ^ 64 - 1"

lemma MAX_SIZE_pos: "0 < MAX_SIZE"
  by (simp add: MAX_SIZE_def)

fun chooseSource :: "(string \<Rightarrow> nat) \<Rightarrow> (string \<times> bool) list \<Rightarrow> string \<times> nat \<Rightarrow> string \<times> nat" where
  "chooseSource allocations [] best = best"
| "chooseSource allocations ((w, good) # ws) best =
     chooseSource allocations ws (if good \<and> allocations w < snd best then (w, allocations w) else best)"

fun chooseDestination :: "(string \<Rightarrow> bool) \<Rightarrow> (string \<Rightarrow> nat) \<Rightarrow> string list \<Rightarrow> string \<times> nat \<Rightarrow> string \<times> nat" where
  "chooseDestination excluded occupancy [] best = best"
| "chooseDestination excluded occupancy (w # ws) best =
     chooseDestination excluded occupancy ws
       (if excluded w then best
        else if fst best = [] \<or> occupancy w < snd best then (w, occupancy w) else best)"

text \<open>A planned job: the chunk, its source and its destination.\<close>

type_synonym replicaMove = "nat \<times> string \<times> string"

record replicatePlan =
  rp_jobs :: "replicaMove list"
  rp_occupancy :: "string \<Rightarrow> nat"
  rp_allocations :: "string \<Rightarrow> nat"

fun placeReplicas :: "replicaInfo list \<Rightarrow> string list \<Rightarrow> nat \<Rightarrow> string \<Rightarrow> nat \<Rightarrow> replicatePlan
    \<Rightarrow> planError + replicatePlan" where
  "placeReplicas rs workers c src 0 p = Inr p"
| "placeReplicas rs workers c src (Suc n) p =
     (let dst = fst (chooseDestination (\<lambda>w. hasReplica rs w c) (rp_occupancy p) workers ([], MAX_SIZE))
      in if dst = [] then Inl (NoDestination c)
         else placeReplicas rs workers c src n
                (p\<lparr> rp_jobs := rp_jobs p @ [(c, src, dst)],
                    rp_occupancy := (rp_occupancy p)(dst := rp_occupancy p dst + 1),
                    rp_allocations := (rp_allocations p)(src := rp_allocations p src + 1) \<rparr>))"

fun planChunks :: "replicaInfo list \<Rightarrow> string list \<Rightarrow> (nat \<times> nat) list \<Rightarrow> replicatePlan
    \<Rightarrow> planError + replicatePlan" where
  "planChunks rs workers [] p = Inr p"
| "planChunks rs workers ((c, n) # cs) p =
     (let src = fst (chooseSource (rp_allocations p)
                  (map (\<lambda>w. (w, isGood rs c w)) (chunkWorkers rs c)) ([], MAX_SIZE))
      in if src = [] then Inl (NoSource c)
         else case placeReplicas rs workers c src n p of
                Inl e \<Rightarrow> Inl e
              | Inr p \<Rightarrow> planChunks rs workers cs p)"

definition replicateJobs :: "nat \<Rightarrow> string list \<Rightarrow> findAllResult \<Rightarrow> planError + replicaMove list" where
  "replicateJobs num configured d =
     (case availableWorkers (fa_workers d) configured of
        Inl e \<Rightarrow> Inl e
      | Inr workers \<Rightarrow>
          if workers = [] then Inl NoWorkers
          else case planChunks (fa_replicas d) workers (chunk2numReplicas2create num (fa_replicas d))
                      \<lparr> rp_jobs = [], rp_occupancy = worker2occupancy (fa_replicas d),
                        rp_allocations = (\<lambda>w. 0) \<rparr> of
                 Inl e \<Rightarrow> Inl e
               | Inr p \<Rightarrow> Inr (rp_jobs p))"

lemma availableWorkers_set:
  "availableWorkers reported ws = Inr us \<Longrightarrow> set us = {w \<in> set ws. map_of reported w = Some True}"
proof (induction ws arbitrary: us)
  case (Cons w ws)
  then obtain ok vs where v: "map_of reported w = Some ok" "availableWorkers reported ws = Inr vs"
    "us = (if ok then w # vs else vs)" by (auto split: option.splits sum.splits)
  then have vs: "set vs = {w \<in> set ws. map_of reported w = Some True}" using Cons.IH by simp
  have "{x \<in> set (w # ws). P x} = (if P w then insert w {x \<in> set ws. P x} else {x \<in> set ws. P x})" for P
    by auto
  from this [of "\<lambda>x. map_of reported x = Some True"] show ?case unfolding v(3) using v(1) vs by simp
qed simp

lemma chooseSource_good:
  "chooseSource al ws best = (s, m) \<Longrightarrow> s = fst best \<or> (s, True) \<in> set ws"
  by (induction al ws best rule: chooseSource.induct) (auto split: if_splits)

lemma chooseDestination_free:
  "chooseDestination ex occ ws best = (d, m) \<Longrightarrow> d = fst best \<or> (d \<in> set ws \<and> \<not> ex d)"
  by (induction ex occ ws best rule: chooseDestination.induct) (auto split: if_splits)

text \<open>The destination has the lowest occupancy among the workers that are not excluded.\<close>

lemma chooseDestination_min:
  "chooseDestination ex occ ws best = (d, m) \<Longrightarrow> d \<noteq> [] \<Longrightarrow> [] \<notin> set ws
    \<Longrightarrow> (fst best \<noteq> [] \<longrightarrow> m \<le> snd best) \<and> (\<forall>w \<in> set ws. \<not> ex w \<longrightarrow> m \<le> occ w)"
proof (induction ex occ ws best rule: chooseDestination.induct)
  case (2 ex occ w ws best)
  let ?best = "if ex w then best else if fst best = [] \<or> occ w < snd best then (w, occ w) else best"
  have ih: "(fst ?best \<noteq> [] \<longrightarrow> m \<le> snd ?best) \<and> (\<forall>w \<in> set ws. \<not> ex w \<longrightarrow> m \<le> occ w)"
    using 2(1) 2(2-4) by simp
  consider "ex w" | "\<not> ex w" "fst best = [] \<or> occ w < snd best" | "\<not> ex w" "fst best \<noteq> []" "snd best \<le> occ w"
    by fastforce
  then show ?case
  proof cases
    case 2
    then have "m \<le> occ w" "\<forall>w \<in> set ws. \<not> ex w \<longrightarrow> m \<le> occ w" using ih \<open>[] \<notin> set (w # ws)\<close> by auto
    then show ?thesis using 2 by auto
  qed (use ih in auto)
qed simp

definition replicasOf :: "nat \<Rightarrow> replicaMove list \<Rightarrow> nat" where
  "replicasOf c jobs = length (filter (\<lambda>j. fst j = c) jobs)"

lemma placeReplicas_jobs:
  assumes "placeReplicas rs workers c src n p = Inr p'"
  shows "\<exists>ds. rp_jobs p' = rp_jobs p @ map (\<lambda>d. (c, src, d)) ds \<and> length ds = n
    \<and> (\<forall>d \<in> set ds. d \<in> set workers \<and> \<not> hasReplica rs d c)"
  using assms
proof (induction n arbitrary: p)
  case (Suc n)
  let ?c = "chooseDestination (\<lambda>w. hasReplica rs w c) (rp_occupancy p) workers ([], MAX_SIZE)"
  have "fst ?c \<noteq> []" using Suc.prems by (auto simp: Let_def split: if_splits)
  then have d: "fst ?c \<in> set workers \<and> \<not> hasReplica rs (fst ?c) c"
    using chooseDestination_free [of _ _ _ _ "fst ?c" "snd ?c"] by force
  obtain ds where "rp_jobs p' = (rp_jobs p @ [(c, src, fst ?c)]) @ map (\<lambda>d. (c, src, d)) ds" "length ds = n"
    "\<forall>d \<in> set ds. d \<in> set workers \<and> \<not> hasReplica rs d c"
    using Suc.IH Suc.prems \<open>fst ?c \<noteq> []\<close> by (fastforce simp: Let_def)
  then show ?case using d by (intro exI [of _ "fst ?c # ds"]) simp
qed simp

lemma planChunks_jobs:
  assumes "planChunks rs workers cs p = Inr p'" "distinct (map fst cs)"
  shows "\<exists>new. rp_jobs p' = rp_jobs p @ new
    \<and> (\<forall>(c, s, d) \<in> set new. c \<in> set (map fst cs) \<and> isGood rs c s \<and> d \<in> set workers \<and> \<not> hasReplica rs d c)
    \<and> (\<forall>(c, n) \<in> set cs. replicasOf c new = n)"
  using assms
proof (induction rs workers cs p rule: planChunks.induct)
  case (2 rs workers c n cs p)
  let ?ws = "map (\<lambda>w. (w, isGood rs c w)) (chunkWorkers rs c)"
  let ?s = "chooseSource (rp_allocations p) ?ws ([], MAX_SIZE)"
  have ne: "fst ?s \<noteq> []" using 2(2) by (auto simp: Let_def split: if_splits)
  then have good: "isGood rs c (fst ?s)" using chooseSource_good [of _ ?ws _ "fst ?s" "snd ?s"] by force
  obtain q where q: "placeReplicas rs workers c (fst ?s) n p = Inr q" "planChunks rs workers cs q = Inr p'"
    using 2(2) ne by (auto simp: Let_def split: sum.splits)
  obtain ds where ds: "rp_jobs q = rp_jobs p @ map (\<lambda>d. (c, fst ?s, d)) ds" "length ds = n"
    "\<forall>d \<in> set ds. d \<in> set workers \<and> \<not> hasReplica rs d c"
    using placeReplicas_jobs [OF q(1)] by blast
  obtain new where new: "rp_jobs p' = rp_jobs q @ new"
    "\<forall>(c, s, d) \<in> set new. c \<in> set (map fst cs) \<and> isGood rs c s \<and> d \<in> set workers \<and> \<not> hasReplica rs d c"
    "\<forall>(c, n) \<in> set cs. replicasOf c new = n"
    using 2(1) [OF refl ne q(1) q(2)] 2(3) by auto
  have c: "c \<notin> set (map fst cs)" using 2(3) by simp
  have mine: "replicasOf e (map (\<lambda>d. (c, fst ?s, d)) ds) = (if e = c then n else 0)" for e
    using ds(2) by (auto simp: replicasOf_def filter_map o_def)
  have other: "replicasOf c new = 0" using new(2) c by (auto simp: replicasOf_def filter_empty_conv)
  have "replicasOf e (map (\<lambda>d. (c, fst ?s, d)) ds @ new) = k" if "(e, k) \<in> set ((c, n) # cs)" for e k
  proof (cases "e = c")
    case True
    then have "k = n" using that c by (auto simp: image_iff)
    then show ?thesis using True mine [of c] other by (simp add: replicasOf_def)
  next
    case False
    then show ?thesis using that new(3) mine [of e] by (auto simp: replicasOf_def)
  qed
  then show ?case
    using new(1,2) ds good by (intro exI [of _ "map (\<lambda>d. (c, fst ?s, d)) ds @ new"]) auto
qed simp

section \<open>Moving replicas\<close>

definition overflowChunkNumber :: nat where "overflowChunkNumber = 1234567890"

definition reportedWorkers :: "findAllResult \<Rightarrow> string list" where
  "reportedWorkers d = map fst (filter snd (fa_workers d))"

definition goodChunks :: "replicaInfo list \<Rightarrow> string \<Rightarrow> nat list" where
  "goodChunks rs w =
     map fst (filter (\<lambda>(c, ws). c \<noteq> overflowChunkNumber \<and> (w, True) \<in> set ws) (goodMap rs))"

definition totalGoodChunks :: "replicaInfo list \<Rightarrow> nat" where
  "totalGoodChunks rs =
     sum_list (map (\<lambda>(c, ws). length (filter snd ws)) (filter (\<lambda>(c, ws). c \<noteq> overflowChunkNumber) (goodMap rs)))"

definition avgChunks :: "findAllResult \<Rightarrow> nat" where
  "avgChunks d = totalGoodChunks (fa_replicas d) div length (reportedWorkers d)"

text \<open>
  The keys of \<open>worker2goodChunks\<close>: the workers that answered, and those with a good chunk other than the overflow chunk.
\<close>

definition goodWorkers :: "findAllResult \<Rightarrow> string list" where
  "goodWorkers d = sorted_list_of_set (set (reportedWorkers d)
     \<union> \<Union> (set (map (\<lambda>(c, ws). fst ` {x \<in> set ws. snd x})
          (filter (\<lambda>(c, ws). c \<noteq> overflowChunkNumber) (goodMap (fa_replicas d))))))"

definition sourceWorkers :: "findAllResult \<Rightarrow> (string \<times> nat list) list" where
  "sourceWorkers d = filter (\<lambda>(w, cs). avgChunks d < length cs)
     (map (\<lambda>w. (w, goodChunks (fa_replicas d) w)) (goodWorkers d))"

definition destinationWorkers :: "findAllResult \<Rightarrow> (string \<times> nat) list" where
  "destinationWorkers d = map (\<lambda>w. (w, avgChunks d - length (goodChunks (fa_replicas d) w)))
     (filter (\<lambda>w. length (goodChunks (fa_replicas d) w) < avgChunks d) (goodWorkers d))"

text \<open>The first worker in the list with a free slot and without the chunk; its slots are decremented.\<close>

fun takeSlot :: "(string \<Rightarrow> bool) \<Rightarrow> (string \<times> nat) list \<Rightarrow> (string \<times> (string \<times> nat) list) option" where
  "takeSlot claimed [] = None"
| "takeSlot claimed ((w, n) # ds) =
     (if n = 0 \<or> claimed w
      then case takeSlot claimed ds of None \<Rightarrow> None | Some (x, ds') \<Rightarrow> Some (x, (w, n) # ds')
      else Some (w, (w, n - 1) # ds))"

record rebalancePlan =
  rb_destinations :: "(string \<times> nat) list"
  rb_worker2chunks :: "(string \<times> nat) set"
  rb_plan :: "replicaMove list"

fun moveChunks :: "((string \<times> nat) list \<Rightarrow> (string \<times> nat) list) \<Rightarrow> string \<Rightarrow> nat \<Rightarrow> nat list
    \<Rightarrow> rebalancePlan \<Rightarrow> rebalancePlan" where
  "moveChunks srt src numExtraChunks [] p = p"
| "moveChunks srt src numExtraChunks (c # cs) p =
     (if numExtraChunks = 0 then p
      else let p = p\<lparr> rb_destinations := srt (rb_destinations p) \<rparr>
           in case takeSlot (\<lambda>w. (w, c) \<in> rb_worker2chunks p) (rb_destinations p) of
                None \<Rightarrow> moveChunks srt src numExtraChunks cs p
              | Some (dst, ds) \<Rightarrow>
                  moveChunks srt src (numExtraChunks - 1) cs
                    (p\<lparr> rb_destinations := ds, rb_worker2chunks := insert (dst, c) (rb_worker2chunks p),
                        rb_plan := rb_plan p @ [(c, src, dst)] \<rparr>))"

definition rebalanceInit :: "findAllResult \<Rightarrow> rebalancePlan" where
  "rebalanceInit d = \<lparr> rb_destinations = destinationWorkers d,
     rb_worker2chunks = \<Union> (set (map (\<lambda>c. (\<lambda>w. (w, c)) ` set (chunkWorkers (fa_replicas d) c))
       (filter (\<lambda>c. c \<noteq> overflowChunkNumber) (chunkNumbers (fa_replicas d))))),
     rb_plan = [] \<rparr>"

text \<open>
  The planner; \<open>srtS\<close> and \<open>srtD\<close> are the two uses of \<open>std::sort\<close>. It returns no plan where the code finishes early.
\<close>

definition rebalance :: "((string \<times> nat list) list \<Rightarrow> (string \<times> nat list) list)
    \<Rightarrow> ((string \<times> nat) list \<Rightarrow> (string \<times> nat) list) \<Rightarrow> findAllResult \<Rightarrow> rebalancePlan" where
  "rebalance srtS srtD d =
     (if reportedWorkers d = [] \<or> totalGoodChunks (fa_replicas d) = 0 \<or> avgChunks d = 0
         \<or> sourceWorkers d = [] \<or> destinationWorkers d = []
      then rebalanceInit d
      else fold (\<lambda>(src, cs) p. moveChunks srtD src (length cs - avgChunks d) cs p) (srtS (sourceWorkers d))
             (rebalanceInit d))"

definition movedFrom :: "string \<Rightarrow> replicaMove list \<Rightarrow> nat" where
  "movedFrom w plan = length (filter (\<lambda>(c, s, d). s = w) plan)"

definition movedTo :: "string \<Rightarrow> replicaMove list \<Rightarrow> nat" where
  "movedTo w plan = length (filter (\<lambda>(c, s, d). d = w) plan)"

lemma takeSlot_Some:
  assumes "takeSlot claimed ds = Some (w, ds')"
  shows "\<exists>pre n post. ds = pre @ (w, Suc n) # post \<and> ds' = pre @ (w, n) # post \<and> \<not> claimed w"
  using assms
proof (induction claimed ds arbitrary: ds' rule: takeSlot.induct)
  case (2 claimed v n ds)
  show ?case
  proof (cases "n = 0 \<or> claimed v")
    case True
    then obtain es where es: "takeSlot claimed ds = Some (w, es)" "ds' = (v, n) # es"
      using 2(2) by (auto split: option.splits)
    obtain pre k post where "ds = pre @ (w, Suc k) # post" "es = pre @ (w, k) # post" "\<not> claimed w"
      using 2(1) [OF True es(1)] by blast
    then show ?thesis using es(2) by (intro exI [of _ "(v, n) # pre"]) auto
  next
    case False
    then show ?thesis using 2(2) by (intro exI [of _ "[]"] exI [of _ "n - 1"] exI [of _ ds]) auto
  qed
qed simp

lemma takeSlot_None: "takeSlot claimed ds = None \<longleftrightarrow> (\<forall>(w, n) \<in> set ds. n = 0 \<or> claimed w)"
  by (induction claimed ds rule: takeSlot.induct) (auto split: option.splits)

text \<open>
  The books of the planner: every destination has the slots it started with, less the chunks planned for it; the claims
  are those of the start and of the plan; no chunk is planned twice for a worker or for one that has it.
\<close>

definition planInv :: "(string \<times> nat) list \<Rightarrow> (string \<times> nat) set \<Rightarrow> rebalancePlan \<Rightarrow> bool" where
  "planInv slots have p \<longleftrightarrow>
     distinct (map fst (rb_destinations p))
     \<and> (\<forall>(w, n) \<in> set (rb_destinations p). (w, n + movedTo w (rb_plan p)) \<in> set slots)
     \<and> fst ` set (rb_destinations p) = fst ` set slots
     \<and> rb_worker2chunks p = have \<union> (\<lambda>(c, s, d). (d, c)) ` set (rb_plan p)
     \<and> (\<forall>(c, s, d) \<in> set (rb_plan p). (d, c) \<notin> have \<and> d \<in> fst ` set slots)
     \<and> distinct (map (\<lambda>(c, s, d). (d, c)) (rb_plan p))"

lemma planInv_sort:
  assumes "planInv slots have p" "mset (srt (rb_destinations p)) = mset (rb_destinations p)"
  shows "planInv slots have (p\<lparr> rb_destinations := srt (rb_destinations p) \<rparr>)"
proof -
  have "set (srt (rb_destinations p)) = set (rb_destinations p)" using assms(2) by (metis set_mset_mset)
  moreover have "distinct (map fst (srt (rb_destinations p)))"
    using assms by (metis mset_map mset_eq_imp_distinct_iff planInv_def)
  ultimately show ?thesis using assms(1) by (simp add: planInv_def)
qed

lemma movedTo_snoc: "movedTo w (plan @ [(c, s, d)]) = movedTo w plan + (if d = w then 1 else 0)"
  by (simp add: movedTo_def)

lemma planInv_move:
  assumes "planInv slots have p" "takeSlot (\<lambda>w. (w, c) \<in> rb_worker2chunks p) (rb_destinations p) = Some (dst, ds)"
  shows "planInv slots have (p\<lparr> rb_destinations := ds, rb_worker2chunks := insert (dst, c) (rb_worker2chunks p),
    rb_plan := rb_plan p @ [(c, src, dst)] \<rparr>)"
proof -
  obtain pre n post where t: "rb_destinations p = pre @ (dst, Suc n) # post" "ds = pre @ (dst, n) # post"
    "(dst, c) \<notin> rb_worker2chunks p"
    using takeSlot_Some [OF assms(2)] by blast
  have new: "(dst, c) \<notin> have" "(dst, c) \<notin> (\<lambda>(c, s, d). (d, c)) ` set (rb_plan p)" "dst \<in> fst ` set slots"
    using t assms(1) by (auto simp: planInv_def)
  have "\<forall>(w, k) \<in> set ds. (w, k + movedTo w (rb_plan p @ [(c, src, dst)])) \<in> set slots"
  proof -
    have d: "dst \<notin> fst ` set (pre @ post)" using assms(1) t(1) by (auto simp: planInv_def)
    have old: "\<forall>(w, k) \<in> set (pre @ (dst, Suc n) # post). (w, k + movedTo w (rb_plan p)) \<in> set slots"
      using assms(1) t(1) by (simp add: planInv_def)
    then show ?thesis using d t(2) by (auto simp: movedTo_snoc image_iff split: prod.splits) force+
  qed
  moreover have "distinct (map fst ds)" "fst ` set ds = fst ` set slots"
    using assms(1) t(1,2) by (simp_all add: planInv_def)
  moreover have "insert (dst, c) (rb_worker2chunks p)
      = have \<union> (\<lambda>(c, s, d). (d, c)) ` set (rb_plan p @ [(c, src, dst)])"
    using assms(1) by (simp add: planInv_def)
  moreover have "\<forall>(e, s, d) \<in> set (rb_plan p @ [(c, src, dst)]). (d, e) \<notin> have \<and> d \<in> fst ` set slots"
    using assms(1) new by (simp add: planInv_def)
  moreover have "distinct (map (\<lambda>(c, s, d). (d, c)) (rb_plan p @ [(c, src, dst)]))"
    using assms(1) new(2) by (simp add: planInv_def)
  ultimately show ?thesis by (simp add: planInv_def)
qed

text \<open>What one source contributes.\<close>

definition blocked :: "rebalancePlan \<Rightarrow> nat \<Rightarrow> bool" where
  "blocked p c \<longleftrightarrow> (\<forall>w n. (w, n) \<in> set (rb_destinations p) \<longrightarrow> n = 0 \<or> (w, c) \<in> rb_worker2chunks p)"

definition slotsShrink :: "rebalancePlan \<Rightarrow> rebalancePlan \<Rightarrow> bool" where
  "slotsShrink p p' \<longleftrightarrow> rb_worker2chunks p \<subseteq> rb_worker2chunks p'
     \<and> (\<forall>w n'. (w, n') \<in> set (rb_destinations p') \<longrightarrow> (\<exists>n \<ge> n'. (w, n) \<in> set (rb_destinations p)))"

lemma slotsShrink_refl [simp]: "slotsShrink p p"
  by (auto simp: slotsShrink_def)

lemma slotsShrink_trans: "slotsShrink p q \<Longrightarrow> slotsShrink q r \<Longrightarrow> slotsShrink p r"
  unfolding slotsShrink_def by (meson order_trans subset_trans)

lemma blocked_mono: "blocked p c \<Longrightarrow> slotsShrink p p' \<Longrightarrow> blocked p' c"
  unfolding blocked_def slotsShrink_def by (metis le_zero_eq subsetD)

lemma slotsShrink_sort:
  "mset (srt (rb_destinations p)) = mset (rb_destinations p)
    \<Longrightarrow> slotsShrink p (p\<lparr> rb_destinations := srt (rb_destinations p) \<rparr>)"
proof -
  assume "mset (srt (rb_destinations p)) = mset (rb_destinations p)"
  then have "set (srt (rb_destinations p)) = set (rb_destinations p)" by (metis set_mset_mset)
  then show ?thesis by (auto simp: slotsShrink_def)
qed

lemma slotsShrink_move:
  assumes "takeSlot (\<lambda>w. (w, c) \<in> rb_worker2chunks p) (rb_destinations p) = Some (dst, ds)"
  shows "slotsShrink p (p\<lparr> rb_destinations := ds, rb_worker2chunks := insert (dst, c) (rb_worker2chunks p),
    rb_plan := rb_plan p @ [(c, src, dst)] \<rparr>)"
proof -
  obtain pre n post where "rb_destinations p = pre @ (dst, Suc n) # post" "ds = pre @ (dst, n) # post"
    using takeSlot_Some [OF assms] by blast
  then show ?thesis by (auto simp: slotsShrink_def intro: le_SucI)
qed

text \<open>
  One source: at most the given number of its chunks is planned, each once; fewer only if every other chunk is
  blocked.
\<close>

lemma moveChunks_props:
  assumes "\<And>ds. mset (srt ds) = mset ds" "planInv slots have p" "distinct cs"
  shows "planInv slots have (moveChunks srt src k cs p) \<and> slotsShrink p (moveChunks srt src k cs p)
    \<and> (\<exists>new. rb_plan (moveChunks srt src k cs p) = rb_plan p @ new \<and> length new \<le> k
      \<and> (\<forall>(c, s, d) \<in> set new. s = src \<and> c \<in> set cs)
      \<and> (length new = k \<or> (\<forall>c \<in> set cs. c \<in> fst ` set new \<or> blocked (moveChunks srt src k cs p) c)))"
  using assms(2,3)
proof (induction cs arbitrary: k p)
  case Nil
  then show ?case by auto
next
  case (Cons c cs)
  show ?case
  proof (cases "k = 0")
    case True
    then show ?thesis using Cons.prems by auto
  next
    case False
    let ?p = "p\<lparr> rb_destinations := srt (rb_destinations p) \<rparr>"
    have inv: "planInv slots have ?p" using planInv_sort [OF Cons.prems(1), of srt] assms(1) by blast
    have shrink: "slotsShrink p ?p" using slotsShrink_sort [of srt p] assms(1) by blast
    show ?thesis
    proof (cases "takeSlot (\<lambda>w. (w, c) \<in> rb_worker2chunks ?p) (rb_destinations ?p)")
      case None
      then have run: "moveChunks srt src k (c # cs) p = moveChunks srt src k cs ?p" using False by (simp add: Let_def)
      have b: "blocked ?p c" using None unfolding takeSlot_None by (auto simp: blocked_def)
      have ih: "planInv slots have (moveChunks srt src k cs ?p)" "slotsShrink ?p (moveChunks srt src k cs ?p)"
        "\<exists>new. rb_plan (moveChunks srt src k cs ?p) = rb_plan p @ new \<and> length new \<le> k
          \<and> (\<forall>(c, s, d) \<in> set new. s = src \<and> c \<in> set cs)
          \<and> (length new = k \<or> (\<forall>c \<in> set cs. c \<in> fst ` set new \<or> blocked (moveChunks srt src k cs ?p) c))"
        using Cons.IH [OF inv, of k] Cons.prems(2) by auto
      then show ?thesis
        unfolding run using slotsShrink_trans [OF shrink] blocked_mono [OF b] by fastforce
    next
      case (Some a)
      then obtain dst ds where s: "takeSlot (\<lambda>w. (w, c) \<in> rb_worker2chunks ?p) (rb_destinations ?p) = Some (dst, ds)"
        by (cases a) auto
      let ?q = "?p\<lparr> rb_destinations := ds, rb_worker2chunks := insert (dst, c) (rb_worker2chunks ?p),
        rb_plan := rb_plan ?p @ [(c, src, dst)] \<rparr>"
      have run: "moveChunks srt src k (c # cs) p = moveChunks srt src (k - 1) cs ?q"
        using False s by (simp add: Let_def)
      have q: "planInv slots have ?q" "slotsShrink ?p ?q"
        using planInv_move [OF inv s] slotsShrink_move [OF s] by auto
      obtain new where new: "rb_plan (moveChunks srt src (k - 1) cs ?q) = rb_plan ?q @ new" "length new \<le> k - 1"
        "\<forall>(c, s, d) \<in> set new. s = src \<and> c \<in> set cs"
        "length new = k - 1 \<or> (\<forall>c \<in> set cs. c \<in> fst ` set new \<or> blocked (moveChunks srt src (k - 1) cs ?q) c)"
        and ih: "planInv slots have (moveChunks srt src (k - 1) cs ?q)"
          "slotsShrink ?q (moveChunks srt src (k - 1) cs ?q)"
        using Cons.IH [OF q(1), of "k - 1"] Cons.prems(2) by auto
      have "rb_plan (moveChunks srt src (k - 1) cs ?q) = rb_plan p @ (c, src, dst) # new" using new(1) by simp
      moreover have "length ((c, src, dst) # new) \<le> k" using new(2) False by simp
      moreover have "length ((c, src, dst) # new) = k
        \<or> (\<forall>e \<in> set (c # cs). e \<in> fst ` set ((c, src, dst) # new) \<or> blocked (moveChunks srt src (k - 1) cs ?q) e)"
        using new(4) False by auto
      ultimately show ?thesis
        unfolding run using ih(1) new(3) slotsShrink_trans [OF slotsShrink_trans [OF shrink q(2)] ih(2)] by fastforce
    qed
  qed
qed

definition moveAll :: "((string \<times> nat) list \<Rightarrow> (string \<times> nat) list) \<Rightarrow> nat \<Rightarrow> (string \<times> nat list) list
    \<Rightarrow> rebalancePlan \<Rightarrow> rebalancePlan" where
  "moveAll srt avg ss p = fold (\<lambda>(src, cs) p. moveChunks srt src (length cs - avg) cs p) ss p"

lemma movedFrom_append: "movedFrom w (xs @ ys) = movedFrom w xs + movedFrom w ys"
  by (simp add: movedFrom_def)

lemma movedFrom_same: "\<forall>(c, s, d) \<in> set xs. s = src \<Longrightarrow> movedFrom w xs = (if w = src then length xs else 0)"
  by (induction xs) (auto simp: movedFrom_def)

lemma moveAll_props:
  assumes "\<And>ds. mset (srt ds) = mset ds" "planInv slots have p" "distinct (map fst ss)"
    "\<forall>(s, cs) \<in> set ss. distinct cs"
  shows "planInv slots have (moveAll srt avg ss p) \<and> slotsShrink p (moveAll srt avg ss p)
    \<and> (\<exists>new. rb_plan (moveAll srt avg ss p) = rb_plan p @ new
      \<and> (\<forall>(c, s, d) \<in> set new. \<exists>cs. (s, cs) \<in> set ss \<and> c \<in> set cs)
      \<and> (\<forall>(s, cs) \<in> set ss. movedFrom s new \<le> length cs - avg
          \<and> (movedFrom s new = length cs - avg
             \<or> (\<forall>c \<in> set cs. (\<exists>d. (c, s, d) \<in> set new) \<or> blocked (moveAll srt avg ss p) c))))"
  using assms(2-4)
proof (induction ss arbitrary: p)
  case Nil
  then show ?case by (simp add: moveAll_def)
next
  case (Cons x ss)
  obtain src cs where x: "x = (src, cs)" by fastforce
  let ?q = "moveChunks srt src (length cs - avg) cs p"
  let ?r = "moveAll srt avg ss ?q"
  have run: "moveAll srt avg (x # ss) p = ?r" by (simp add: moveAll_def x)
  have "distinct cs" using Cons.prems(3) x by simp
  from moveChunks_props [OF assms(1) Cons.prems(1) this] obtain n1 where
    n1: "rb_plan ?q = rb_plan p @ n1" "length n1 \<le> length cs - avg" "\<forall>(c, s, d) \<in> set n1. s = src \<and> c \<in> set cs"
      "length n1 = length cs - avg \<or> (\<forall>c \<in> set cs. c \<in> fst ` set n1 \<or> blocked ?q c)"
    and q: "planInv slots have ?q" "slotsShrink p ?q" by blast
  have "distinct (map fst ss)" "\<forall>(s, cs) \<in> set ss. distinct cs" using Cons.prems(2,3) by auto
  from Cons.IH [OF q(1) this] obtain n2 where
    n2: "rb_plan ?r = rb_plan ?q @ n2" "\<forall>(c, s, d) \<in> set n2. \<exists>cs. (s, cs) \<in> set ss \<and> c \<in> set cs"
      "\<forall>(s, cs) \<in> set ss. movedFrom s n2 \<le> length cs - avg
          \<and> (movedFrom s n2 = length cs - avg \<or> (\<forall>c \<in> set cs. (\<exists>d. (c, s, d) \<in> set n2) \<or> blocked ?r c))"
    and r: "planInv slots have ?r" "slotsShrink ?q ?r" by blast
  have "movedFrom src n2 = 0"
    using n2(2) Cons.prems(2) x by (force simp: movedFrom_def filter_empty_conv image_iff)
  moreover have m1: "movedFrom w n1 = (if w = src then length n1 else 0)" for w
    by (rule movedFrom_same) (use n1(3) in fastforce)
  ultimately have src: "movedFrom src (n1 @ n2) = length n1" by (simp add: movedFrom_append)
  have first: "movedFrom src (n1 @ n2) \<le> length cs - avg
      \<and> (movedFrom src (n1 @ n2) = length cs - avg
        \<or> (\<forall>c \<in> set cs. (\<exists>d. (c, src, d) \<in> set (n1 @ n2)) \<or> blocked ?r c))"
    unfolding src using n1(2-4) blocked_mono [OF _ r(2)] by fastforce
  have others: "movedFrom s (n1 @ n2) \<le> length es - avg
      \<and> (movedFrom s (n1 @ n2) = length es - avg
        \<or> (\<forall>c \<in> set es. (\<exists>d. (c, s, d) \<in> set (n1 @ n2)) \<or> blocked ?r c))" if "(s, es) \<in> set ss" for s es
  proof -
    have "s \<noteq> src" using that Cons.prems(2) x by (force simp: image_iff)
    then have "movedFrom s (n1 @ n2) = movedFrom s n2" by (simp add: movedFrom_append m1)
    then show ?thesis using n2(3) that by fastforce
  qed
  have "rb_plan ?r = rb_plan p @ (n1 @ n2)" using n1(1) n2(1) by simp
  moreover have "\<forall>(c, s, d) \<in> set (n1 @ n2). \<exists>cs. (s, cs) \<in> set (x # ss) \<and> c \<in> set cs"
    using n1(3) n2(2) x by fastforce
  moreover have "\<forall>(s, es) \<in> set (x # ss). movedFrom s (n1 @ n2) \<le> length es - avg
      \<and> (movedFrom s (n1 @ n2) = length es - avg
        \<or> (\<forall>c \<in> set es. (\<exists>d. (c, s, d) \<in> set (n1 @ n2)) \<or> blocked ?r c))"
  proof (rule ballI, rule case_prodI2)
    fix y s es assume y: "y \<in> set (x # ss)" "y = (s, es)"
    show "movedFrom s (n1 @ n2) \<le> length es - avg
      \<and> (movedFrom s (n1 @ n2) = length es - avg
        \<or> (\<forall>c \<in> set es. (\<exists>d. (c, s, d) \<in> set (n1 @ n2)) \<or> blocked ?r c))"
    proof (cases "y = x")
      case True
      then show ?thesis using first y x by simp
    next
      case False
      then show ?thesis using others [of s es] y by simp
    qed
  qed
  ultimately show ?case
    unfolding run using r(1) slotsShrink_trans [OF q(2) r(2)] by blast
qed

section \<open>Properties\<close>

lemma distinct_chunkNumbers: "distinct (chunkNumbers rs)"
  by (simp add: chunkNumbers_def)

lemma map_fst_goodMap: "map fst (goodMap rs) = chunkNumbers rs"
  by (simp add: goodMap_def o_def)

lemma distinct_filter_fst: "distinct (map fst xs) \<Longrightarrow> distinct (map fst (filter P xs))"
  by (simp add: distinct_map_filter)

lemma distinct_goodChunks: "distinct (goodChunks rs w)"
  unfolding goodChunks_def by (rule distinct_filter_fst) (simp add: map_fst_goodMap distinct_chunkNumbers)

lemma goodChunks_chunk:
  "c \<in> set (goodChunks rs w) \<Longrightarrow> c \<in> set (chunkNumbers rs) \<and> c \<noteq> overflowChunkNumber \<and> isGood rs c w"
  by (auto simp: goodChunks_def goodMap_def)

lemma hasReplica_iff: "hasReplica rs w c \<longleftrightarrow> c \<in> set (chunkNumbers rs) \<and> w \<in> set (chunkWorkers rs c)"
  by (simp add: hasReplica_def chunkWorkers_def)

lemma rebalanceInit_inv: "planInv (destinationWorkers d) (rb_worker2chunks (rebalanceInit d)) (rebalanceInit d)"
proof -
  have "map fst (destinationWorkers d)
      = filter (\<lambda>w. length (goodChunks (fa_replicas d) w) < avgChunks d) (goodWorkers d)"
    by (simp add: destinationWorkers_def o_def)
  then have "distinct (map fst (destinationWorkers d))" by (simp add: goodWorkers_def)
  then show ?thesis by (auto simp: planInv_def rebalanceInit_def movedTo_def)
qed

lemma sourceWorkers_props:
  "distinct (map fst (sourceWorkers d))" "\<forall>(s, cs) \<in> set (sourceWorkers d). distinct cs"
  "(s, cs) \<in> set (sourceWorkers d) \<Longrightarrow> cs = goodChunks (fa_replicas d) s \<and> avgChunks d < length cs"
proof -
  have "distinct (map fst (map (\<lambda>w. (w, goodChunks (fa_replicas d) w)) (goodWorkers d)))"
    by (simp add: o_def goodWorkers_def)
  then show "distinct (map fst (sourceWorkers d))" unfolding sourceWorkers_def by (rule distinct_filter_fst)
qed (auto simp: sourceWorkers_def distinct_goodChunks)

lemma rebalance_props:
  assumes "\<And>ss. mset (srtS ss) = mset ss" "\<And>ds. mset (srtD ds) = mset ds"
    and p_def: "p = rebalance srtS srtD d"
  shows "planInv (destinationWorkers d) (rb_worker2chunks (rebalanceInit d)) p"
    "\<forall>(c, s, dst) \<in> set (rb_plan p). \<exists>cs. (s, cs) \<in> set (sourceWorkers d) \<and> c \<in> set cs"
    "\<forall>(s, cs) \<in> set (sourceWorkers d). movedFrom s (rb_plan p) \<le> length cs - avgChunks d"
    "reportedWorkers d \<noteq> [] \<Longrightarrow> avgChunks d \<noteq> 0 \<Longrightarrow> destinationWorkers d \<noteq> [] \<Longrightarrow>
      \<forall>(s, cs) \<in> set (sourceWorkers d). movedFrom s (rb_plan p) = length cs - avgChunks d
        \<or> (\<forall>c \<in> set cs. (\<exists>dst. (c, s, dst) \<in> set (rb_plan p)) \<or> blocked p c)"
proof -
  let ?early = "reportedWorkers d = [] \<or> totalGoodChunks (fa_replicas d) = 0 \<or> avgChunks d = 0
    \<or> sourceWorkers d = [] \<or> destinationWorkers d = []"
  let ?ss = "srtS (sourceWorkers d)"
  have set: "set ?ss = set (sourceWorkers d)" using assms(1) by (metis set_mset_mset)
  have "distinct (map fst ?ss)"
    using sourceWorkers_props(1) assms(1) by (metis mset_map mset_eq_imp_distinct_iff)
  note m = moveAll_props [OF assms(2) rebalanceInit_inv [of d] this, of "avgChunks d", unfolded set,
      OF sourceWorkers_props(2)]
  have late: "p = moveAll srtD (avgChunks d) ?ss (rebalanceInit d)" if "\<not> ?early"
    using that by (simp add: p_def rebalance_def moveAll_def)
  have early: "p = rebalanceInit d" if ?early using that by (auto simp: p_def rebalance_def)
  have nil: "rb_plan (rebalanceInit d) = []" by (simp add: rebalanceInit_def)
  show "planInv (destinationWorkers d) (rb_worker2chunks (rebalanceInit d)) p"
  proof (cases ?early)
    case True
    then show ?thesis using early rebalanceInit_inv by simp
  next
    case False
    then show ?thesis using m late by simp
  qed
  show "\<forall>(c, s, dst) \<in> set (rb_plan p). \<exists>cs. (s, cs) \<in> set (sourceWorkers d) \<and> c \<in> set cs"
  proof (cases ?early)
    case True
    then show ?thesis using early nil by auto
  next
    case False
    then show ?thesis using m late nil by fastforce
  qed
  show "\<forall>(s, cs) \<in> set (sourceWorkers d). movedFrom s (rb_plan p) \<le> length cs - avgChunks d"
  proof (cases ?early)
    case True
    then show ?thesis using early nil by (simp add: movedFrom_def)
  next
    case False
    then show ?thesis using m late nil by fastforce
  qed
  assume ne: "reportedWorkers d \<noteq> []" "avgChunks d \<noteq> 0" "destinationWorkers d \<noteq> []"
  show "\<forall>(s, cs) \<in> set (sourceWorkers d). movedFrom s (rb_plan p) = length cs - avgChunks d
      \<or> (\<forall>c \<in> set cs. (\<exists>dst. (c, s, dst) \<in> set (rb_plan p)) \<or> blocked p c)"
  proof (cases "sourceWorkers d = []")
    case False
    have "totalGoodChunks (fa_replicas d) \<noteq> 0" using ne(2) by (metis avgChunks_def div_0)
    then have "\<not> ?early" using ne False by blast
    then show ?thesis using m late nil by fastforce
  qed simp
qed

lemma planInv_slots:
  assumes "planInv (destinationWorkers d) have p" "w \<in> fst ` set (rb_destinations p)"
  shows "length (goodChunks (fa_replicas d) w) + movedTo w (rb_plan p) \<le> avgChunks d
    \<and> (\<exists>n. (w, n) \<in> set (rb_destinations p)
      \<and> n = avgChunks d - (length (goodChunks (fa_replicas d) w) + movedTo w (rb_plan p)))"
proof -
  obtain n where n: "(w, n) \<in> set (rb_destinations p)" using assms(2) by auto
  then have "(w, n + movedTo w (rb_plan p)) \<in> set (destinationWorkers d)" using assms(1) by (auto simp: planInv_def)
  then show ?thesis using n by (intro conjI exI [of _ n]) (auto simp: destinationWorkers_def)
qed

text \<open>
  C15. A rebalance plan is sound, however \<open>std::sort\<close> orders equal entries: it moves good replicas from workers above the
  average to workers below it, never to a worker that has any replica of the chunk or gets one by another
  move, and not too many: with its moves carried out no source falls below the average and no destination
  rises above it.
\<close>

theorem rebalance_plan_sound:
  assumes "\<And>ss. mset (srtS ss) = mset ss" "\<And>ds. mset (srtD ds) = mset ds"
  shows "let plan = rb_plan (rebalance srtS srtD d); good = (\<lambda>w. goodChunks (fa_replicas d) w) in
    (\<forall>(c, s, dst) \<in> set plan. c \<in> set (good s) \<and> avgChunks d < length (good s) \<and> length (good dst) < avgChunks d
        \<and> \<not> hasReplica (fa_replicas d) dst c)
    \<and> distinct (map (\<lambda>(c, s, dst). (dst, c)) plan)
    \<and> (\<forall>w. avgChunks d < length (good w) \<longrightarrow> avgChunks d + movedFrom w plan \<le> length (good w))
    \<and> (\<forall>w. length (good w) < avgChunks d \<longrightarrow> length (good w) + movedTo w plan \<le> avgChunks d)"
proof -
  let ?p = "rebalance srtS srtD d" and ?rs = "fa_replicas d"
  note r = rebalance_props [OF assms refl, of d]
  let ?have = "rb_worker2chunks (rebalanceInit d)"
  have dest: "dst \<in> fst ` set (destinationWorkers d)" "(dst, c) \<notin> ?have" if "(c, s, dst) \<in> set (rb_plan ?p)" for c s dst
    using r(1) that by (auto simp: planInv_def)
  have move: "c \<in> set (goodChunks ?rs s) \<and> avgChunks d < length (goodChunks ?rs s)
      \<and> length (goodChunks ?rs dst) < avgChunks d \<and> \<not> hasReplica ?rs dst c"
    if m: "(c, s, dst) \<in> set (rb_plan ?p)" for c s dst
  proof -
    obtain cs where cs: "(s, cs) \<in> set (sourceWorkers d)" "c \<in> set cs" using r(2) m by blast
    have "length (goodChunks ?rs dst) < avgChunks d" using dest(1) [OF m] by (auto simp: destinationWorkers_def)
    moreover have "\<not> hasReplica ?rs dst c"
      using dest(2) [OF m] goodChunks_chunk [of c ?rs s] sourceWorkers_props(3) [OF cs(1)] cs(2)
      by (auto simp: hasReplica_iff rebalanceInit_def)
    ultimately show ?thesis using sourceWorkers_props(3) [OF cs(1)] cs(2) by auto
  qed
  have from_s: "avgChunks d + movedFrom w (rb_plan ?p) \<le> length (goodChunks ?rs w)"
    if "avgChunks d < length (goodChunks ?rs w)" for w
  proof (cases "movedFrom w (rb_plan ?p) = 0")
    case False
    then obtain c dst where "(c, w, dst) \<in> set (rb_plan ?p)" by (fastforce simp: movedFrom_def filter_empty_conv)
    then obtain cs where cs: "(w, cs) \<in> set (sourceWorkers d)" using r(2) by blast
    then have "movedFrom w (rb_plan ?p) \<le> length cs - avgChunks d" using r(3) by fastforce
    then show ?thesis using that sourceWorkers_props(3) [OF cs] by simp
  qed (use that in simp)
  have to_d: "length (goodChunks ?rs w) + movedTo w (rb_plan ?p) \<le> avgChunks d"
    if "length (goodChunks ?rs w) < avgChunks d" for w
  proof (cases "movedTo w (rb_plan ?p) = 0")
    case False
    then obtain c s where "(c, s, w) \<in> set (rb_plan ?p)" by (fastforce simp: movedTo_def filter_empty_conv)
    then have "w \<in> fst ` set (rb_destinations ?p)" using dest(1) r(1) by (auto simp: planInv_def)
    then show ?thesis using planInv_slots [OF r(1)] by blast
  qed (use that in simp)
  have "distinct (map (\<lambda>(c, s, dst). (dst, c)) (rb_plan ?p))" using r(1) by (simp add: planInv_def)
  then show ?thesis unfolding Let_def using move from_s to_d by blast
qed

text \<open>
  C35. A rebalance plan is maximal: a worker stays above the average with its moves carried out only if none of
  its chunks left could have been moved, because each worker below the average ends at the average or has the chunk or gets it.
\<close>

theorem rebalance_plan_maximal:
  assumes "\<And>ss. mset (srtS ss) = mset ss" "\<And>ds. mset (srtD ds) = mset ds"
    "reportedWorkers d \<noteq> []" "avgChunks d \<noteq> 0" "(s, cs) \<in> set (sourceWorkers d)"
    "movedFrom s (rb_plan (rebalance srtS srtD d)) < length cs - avgChunks d" "c \<in> set cs"
    "\<forall>dst. (c, s, dst) \<notin> set (rb_plan (rebalance srtS srtD d))" "(w, n) \<in> set (destinationWorkers d)"
  shows "length (goodChunks (fa_replicas d) w) + movedTo w (rb_plan (rebalance srtS srtD d)) = avgChunks d
    \<or> hasReplica (fa_replicas d) w c \<or> (\<exists>s'. (c, s', w) \<in> set (rb_plan (rebalance srtS srtD d)))"
proof -
  let ?p = "rebalance srtS srtD d"
  note r = rebalance_props [OF assms(1,2) refl, of d]
  have "destinationWorkers d \<noteq> []" using assms(9) by auto
  from bspec [OF r(4) [OF assms(3,4) this] assms(5)] have "blocked ?p c" using assms(6-8) by auto
  have "w \<in> fst ` set (destinationWorkers d)" using assms(9) by force
  then have "w \<in> fst ` set (rb_destinations ?p)" using r(1) by (simp add: planInv_def)
  from planInv_slots [OF r(1) this] obtain k where
    "length (goodChunks (fa_replicas d) w) + movedTo w (rb_plan ?p) \<le> avgChunks d" "(w, k) \<in> set (rb_destinations ?p)"
    "k = avgChunks d - (length (goodChunks (fa_replicas d) w) + movedTo w (rb_plan ?p))" by blast
  with \<open>blocked ?p c\<close> have "length (goodChunks (fa_replicas d) w) + movedTo w (rb_plan ?p) = avgChunks d
      \<or> (w, c) \<in> rb_worker2chunks ?p"
    unfolding blocked_def by (metis diff_is_0_eq le_antisym)
  then show ?thesis
  proof
    assume "(w, c) \<in> rb_worker2chunks ?p"
    then consider "(w, c) \<in> rb_worker2chunks (rebalanceInit d)" | s' where "(c, s', w) \<in> set (rb_plan ?p)"
      using r(1) by (auto simp: planInv_def)
    then show ?thesis by cases (auto simp: rebalanceInit_def hasReplica_iff)
  qed blast
qed

text \<open>
  A replica is good exactly if the worker has a complete replica of the chunk for every database that has the chunk.
\<close>

theorem good_replica_iff:
  assumes "keyed rs"
  shows "isGood rs c w \<longleftrightarrow> (\<forall>db \<in> set (databaseNames rs c).
    \<exists>r \<in> set rs. ri_chunk r = c \<and> ri_database r = db \<and> ri_worker r = w \<and> ri_status r = COMPLETE)"
  by (rule good_iff [OF assms])

text \<open>The workers with a good replica of a chunk once the planned copies are made.\<close>

definition goodAfter :: "replicaInfo list \<Rightarrow> replicaMove list \<Rightarrow> nat \<Rightarrow> string set" where
  "goodAfter rs jobs c = {w \<in> set (chunkWorkers rs c). isGood rs c w} \<union> (\<lambda>(c, s, d). d) ` {j \<in> set jobs. fst j = c}"

lemma goodAfter_card:
  assumes good: "\<forall>w \<in> set (chunkWorkers rs c). isGood rs c w"
    and n: "replicasOf c jobs = num - length (chunkWorkers rs c)" "num \<le> length (chunkWorkers rs c) + 1"
    and free: "\<And>s d. (c, s, d) \<in> set jobs \<Longrightarrow> d \<notin> set (chunkWorkers rs c)"
  shows "card (goodAfter rs jobs c) = max num (length (chunkWorkers rs c))"
proof -
  have d: "card (set (chunkWorkers rs c)) = length (chunkWorkers rs c)"
    by (simp add: chunkWorkers_def distinct_card)
  have mine: "{j \<in> set jobs. fst j = c} = set (filter (\<lambda>j. fst j = c) jobs)" by auto
  have g: "goodAfter rs jobs c = set (chunkWorkers rs c) \<union> (\<lambda>(c, s, d). d) ` set (filter (\<lambda>j. fst j = c) jobs)"
    unfolding goodAfter_def mine using good by auto
  show ?thesis
  proof (cases "num \<le> length (chunkWorkers rs c)")
    case True
    then have "filter (\<lambda>j. fst j = c) jobs = []" using n(1) by (simp add: replicasOf_def)
    then show ?thesis using g d True by simp
  next
    case False
    then have "length (filter (\<lambda>j. fst j = c) jobs) = Suc 0" using n by (simp add: replicasOf_def)
    then obtain j where j: "filter (\<lambda>j. fst j = c) jobs = [j]" by (auto simp: length_Suc_conv)
    have "j \<in> set (filter (\<lambda>j. fst j = c) jobs)" unfolding j by simp
    then have "j \<in> set jobs" "fst j = c" by simp_all
    then obtain s e where se: "j = (c, s, e)" "(c, s, e) \<in> set jobs" by (metis prod.collapse)
    then have "e \<notin> set (chunkWorkers rs c)" using free [of s e] by simp
    then show ?thesis using g d j se(1) False n(2) by simp
  qed
qed

text \<open>
  C39. An accepted replication plan copies good replicas only, each to a configured worker that answered and has no
  replica of the chunk, and plans for a chunk as many copies as the required number exceeds the number of workers on
  which a replica was found, good or not. So a chunk whose replicas are all good and that lacks at most one replica
  has, with the plan carried out, the required number of good replicas on different workers (or the number it had, if
  that is more). For other chunks it need not: \<open>duplicate_replicas_planned\<close> and \<open>bad_replicas_counted\<close> below.
\<close>

theorem replication_plan_sound:
  assumes "replicateJobs num configured d = Inr jobs"
  shows "(\<forall>(c, s, dst) \<in> set jobs. isGood (fa_replicas d) c s \<and> dst \<in> set configured
      \<and> map_of (fa_workers d) dst = Some True \<and> \<not> hasReplica (fa_replicas d) dst c)
    \<and> (\<forall>c \<in> set (chunkNumbers (fa_replicas d)).
        replicasOf c jobs = num - length (chunkWorkers (fa_replicas d) c))
    \<and> (\<forall>c \<in> set (chunkNumbers (fa_replicas d)).
        (\<forall>w \<in> set (chunkWorkers (fa_replicas d) c). isGood (fa_replicas d) c w)
        \<and> num \<le> length (chunkWorkers (fa_replicas d) c) + 1
        \<longrightarrow> card (goodAfter (fa_replicas d) jobs c) = max num (length (chunkWorkers (fa_replicas d) c)))"
proof -
  let ?rs = "fa_replicas d" and ?cs = "chunk2numReplicas2create num (fa_replicas d)"
  obtain workers p where w: "availableWorkers (fa_workers d) configured = Inr workers"
    "planChunks ?rs workers ?cs \<lparr> rp_jobs = [], rp_occupancy = worker2occupancy ?rs, rp_allocations = (\<lambda>w. 0) \<rparr> = Inr p"
    "jobs = rp_jobs p"
    using assms by (auto simp: replicateJobs_def split: sum.splits if_splits)
  have fst: "map fst ?cs = map fst (filter (\<lambda>(c, ws). length ws < num) (goodMap ?rs))"
    by (simp add: chunk2numReplicas2create_def o_def split_def)
  have "distinct (map fst ?cs)"
    unfolding fst by (rule distinct_filter_fst) (simp add: map_fst_goodMap distinct_chunkNumbers)
  from planChunks_jobs [OF w(2) this]
  have j: "\<forall>(c, s, dst) \<in> set jobs. c \<in> set (map fst ?cs) \<and> isGood ?rs c s \<and> dst \<in> set workers \<and> \<not> hasReplica ?rs dst c"
    "\<forall>(c, n) \<in> set ?cs. replicasOf c jobs = n"
    using w(3) by auto
  have n: "replicasOf c jobs = num - length (chunkWorkers ?rs c)" if c: "c \<in> set (chunkNumbers ?rs)" for c
  proof (cases "length (chunkWorkers ?rs c) < num")
    case True
    then have "(c, num - length (chunkWorkers ?rs c)) \<in> set ?cs"
      using c by (force simp: chunk2numReplicas2create_def goodMap_def)
    then show ?thesis using j(2) by fastforce
  next
    case False
    then have "c \<notin> set (map fst ?cs)" by (auto simp: chunk2numReplicas2create_def goodMap_def)
    then have "replicasOf c jobs = 0" using j(1) by (fastforce simp: replicasOf_def filter_empty_conv)
    then show ?thesis using False by simp
  qed
  have free: "d' \<notin> set (chunkWorkers ?rs c)" if "(c, s, d') \<in> set jobs" "c \<in> set (chunkNumbers ?rs)" for c s d'
    using j(1) that by (fastforce simp: hasReplica_iff)
  have "card (goodAfter ?rs jobs c) = max num (length (chunkWorkers ?rs c))"
    if "c \<in> set (chunkNumbers ?rs)" "\<forall>w \<in> set (chunkWorkers ?rs c). isGood ?rs c w"
      "num \<le> length (chunkWorkers ?rs c) + 1" for c
    using that n [OF that(1)] free by (intro goodAfter_card) auto
  moreover have "\<forall>(c, s, dst) \<in> set jobs. isGood ?rs c s \<and> dst \<in> set configured
      \<and> map_of (fa_workers d) dst = Some True \<and> \<not> hasReplica ?rs dst c"
    using j(1) availableWorkers_set [OF w(1)] by fastforce
  ultimately show ?thesis using n by blast
qed

section \<open>Examples\<close>

definition replicaOn :: "nat \<Rightarrow> string \<Rightarrow> replicaStatus \<Rightarrow> replicaInfo" where
  "replicaOn c w st = \<lparr> ri_chunk = c, ri_database = ''db'', ri_worker = w, ri_status = st \<rparr>"

definition demoFound :: findAllResult where
  "demoFound = \<lparr> fa_workers = [(''a'', True), (''b'', True), (''c'', True), (''d'', True)],
     fa_replicas = [replicaOn 5 ''a'' COMPLETE, replicaOn 6 ''a'' COMPLETE, replicaOn 6 ''c'' COMPLETE,
       replicaOn 6 ''d'' COMPLETE] \<rparr>"

lemma demo_workers:
  "chunkNumbers (fa_replicas demoFound) = [5, 6]"
  "chunkWorkers (fa_replicas demoFound) 5 = [''a'']" "chunkWorkers (fa_replicas demoFound) 6 = [''a'', ''c'', ''d'']"
  "isGood (fa_replicas demoFound) 5 ''a''" "isGood (fa_replicas demoFound) 6 ''a''"
  "isGood (fa_replicas demoFound) 6 ''c''" "isGood (fa_replicas demoFound) 6 ''d''"
  by code_simp+

theorem good_replica_iff_witness:
  "isGood (fa_replicas demoFound) 5 ''a'' \<longleftrightarrow> (\<forall>db \<in> set (databaseNames (fa_replicas demoFound) 5).
    \<exists>r \<in> set (fa_replicas demoFound). ri_chunk r = 5 \<and> ri_database r = db \<and> ri_worker r = ''a'' \<and> ri_status r = COMPLETE)"
proof -
  have "keyed (fa_replicas demoFound)" by (simp add: keyed_def demoFound_def replicaOn_def)
  then show ?thesis by (rule good_replica_iff)
qed

lemma demo_goodMap:
  "goodMap (fa_replicas demoFound) = [(5, [(''a'', True)]), (6, [(''a'', True), (''c'', True), (''d'', True)])]"
  by (simp add: goodMap_def demo_workers)

text \<open>
  Two replicas of a chunk are planned for the same worker: the planner raises the occupancy of a destination, but does
  not enter the chunk into its black list.
\<close>

lemma duplicate_replicas_planned:
  "replicateJobs 3 [''a'', ''b'', ''c'', ''d''] demoFound = Inr [(5, ''a'', ''b''), (5, ''a'', ''b'')]"
proof -
  have has: "hasReplica (fa_replicas demoFound) w 5 \<longleftrightarrow> w = ''a''" for w
    by (simp add: hasReplica_iff demo_workers)
  have needs: "chunk2numReplicas2create 3 (fa_replicas demoFound) = [(5, 2)]"
    by (simp add: chunk2numReplicas2create_def demo_goodMap)
  have occ: "worker2occupancy (fa_replicas demoFound) w = (if w = ''a'' then 2 else if w = ''c'' \<or> w = ''d'' then 1 else 0)" for w
    by (simp add: worker2occupancy_def demo_goodMap)
  have ws: "availableWorkers (fa_workers demoFound) [''a'', ''b'', ''c'', ''d''] = Inr [''a'', ''b'', ''c'', ''d'']"
    by (simp add: demoFound_def)
  show ?thesis
    by (simp add: replicateJobs_def ws needs demo_workers has occ MAX_SIZE_pos Let_def numeral_2_eq_2
        del: availableWorkers.simps)
qed

text \<open>With one replica missing, the plan restores the number wanted.\<close>

lemma one_replica_planned:
  "replicateJobs 2 [''a'', ''b'', ''c'', ''d''] demoFound = Inr [(5, ''a'', ''b'')]"
proof -
  have has: "hasReplica (fa_replicas demoFound) w 5 \<longleftrightarrow> w = ''a''" for w
    by (simp add: hasReplica_iff demo_workers)
  have needs: "chunk2numReplicas2create 2 (fa_replicas demoFound) = [(5, Suc 0)]"
    by (simp add: chunk2numReplicas2create_def demo_goodMap)
  have occ: "worker2occupancy (fa_replicas demoFound) w = (if w = ''a'' then 2 else if w = ''c'' \<or> w = ''d'' then 1 else 0)" for w
    by (simp add: worker2occupancy_def demo_goodMap)
  have ws: "availableWorkers (fa_workers demoFound) [''a'', ''b'', ''c'', ''d''] = Inr [''a'', ''b'', ''c'', ''d'']"
    by (simp add: demoFound_def)
  show ?thesis
    by (simp add: replicateJobs_def ws needs demo_workers has occ MAX_SIZE_pos Let_def
        del: availableWorkers.simps)
qed

theorem replication_plan_sound_witness:
  "replicateJobs 2 [''a'', ''b'', ''c'', ''d''] demoFound = Inr [(5, ''a'', ''b'')]
    \<and> card (goodAfter (fa_replicas demoFound) [(5, ''a'', ''b'')] 5) = 2
    \<and> card (goodAfter (fa_replicas demoFound) [(5, ''a'', ''b'')] 6) = 3
    \<and> isGood (fa_replicas demoFound) 5 ''a'' \<and> \<not> hasReplica (fa_replicas demoFound) ''b'' 5"
  using replication_plan_sound [OF one_replica_planned] one_replica_planned
  by (simp add: demo_workers)

text \<open>
  And replicas that are not good are counted as replicas: the chunk below has a single good one and is not
  replicated, although three are wanted.
\<close>

lemma bad_replicas_counted:
  "replicateJobs 3 [''a'', ''b'', ''c''] \<lparr> fa_workers = [(''a'', True), (''b'', True), (''c'', True)],
     fa_replicas = [replicaOn 5 ''a'' COMPLETE, replicaOn 5 ''b'' INCOMPLETE, replicaOn 5 ''c'' CORRUPT] \<rparr> = Inr []"
proof -
  let ?rs = "[replicaOn 5 ''a'' COMPLETE, replicaOn 5 ''b'' INCOMPLETE, replicaOn 5 ''c'' CORRUPT]"
  have "chunkNumbers ?rs = [5]" "chunkWorkers ?rs 5 = [''a'', ''b'', ''c'']" by code_simp+
  then have "chunk2numReplicas2create 3 ?rs = []" by (simp add: chunk2numReplicas2create_def goodMap_def)
  then show ?thesis by (simp add: replicateJobs_def)
qed

text \<open>A worker with three good chunks and one with one: a chunk is moved; the average is two.\<close>

definition demoUnbalanced :: findAllResult where
  "demoUnbalanced = \<lparr> fa_workers = [(''a'', True), (''b'', True)],
     fa_replicas = [replicaOn 5 ''a'' COMPLETE, replicaOn 6 ''a'' COMPLETE, replicaOn 7 ''a'' COMPLETE,
       replicaOn 5 ''b'' COMPLETE] \<rparr>"

lemma demo_unbalanced:
  "avgChunks demoUnbalanced = 2" "goodWorkers demoUnbalanced = [''a'', ''b'']"
  "goodChunks (fa_replicas demoUnbalanced) ''a'' = [5, 6, 7]" "goodChunks (fa_replicas demoUnbalanced) ''b'' = [5]"
  "rb_worker2chunks (rebalanceInit demoUnbalanced) = {(''a'', 5), (''a'', 6), (''a'', 7), (''b'', 5)}"
  "totalGoodChunks (fa_replicas demoUnbalanced) = 4"
proof -
  have c: "chunkNumbers (fa_replicas demoUnbalanced) = [5, 6, 7]"
    "chunkWorkers (fa_replicas demoUnbalanced) 5 = [''a'', ''b'']" "chunkWorkers (fa_replicas demoUnbalanced) 6 = [''a'']"
    "chunkWorkers (fa_replicas demoUnbalanced) 7 = [''a'']"
    "isGood (fa_replicas demoUnbalanced) 5 ''a''" "isGood (fa_replicas demoUnbalanced) 5 ''b''"
    "isGood (fa_replicas demoUnbalanced) 6 ''a''" "isGood (fa_replicas demoUnbalanced) 7 ''a''"
    by code_simp+
  have g: "goodMap (fa_replicas demoUnbalanced)
      = [(5, [(''a'', True), (''b'', True)]), (6, [(''a'', True)]), (7, [(''a'', True)])]"
    by (simp add: goodMap_def c)
  have r: "reportedWorkers demoUnbalanced = [''a'', ''b'']" by (simp add: reportedWorkers_def demoUnbalanced_def)
  show t: "totalGoodChunks (fa_replicas demoUnbalanced) = 4"
    by (simp add: totalGoodChunks_def g overflowChunkNumber_def)
  show "avgChunks demoUnbalanced = 2" unfolding avgChunks_def t r by code_simp
  show "goodChunks (fa_replicas demoUnbalanced) ''a'' = [5, 6, 7]" "goodChunks (fa_replicas demoUnbalanced) ''b'' = [5]"
    by (simp_all add: goodChunks_def g overflowChunkNumber_def)
  have "goodWorkers demoUnbalanced = sorted_list_of_set {''a'', ''b''}"
    unfolding goodWorkers_def by (rule arg_cong [of _ _ sorted_list_of_set]) (auto simp: g r)
  also have "\<dots> = [''a'', ''b'']" by code_simp
  finally show "goodWorkers demoUnbalanced = [''a'', ''b'']" .
  show "rb_worker2chunks (rebalanceInit demoUnbalanced) = {(''a'', 5), (''a'', 6), (''a'', 7), (''b'', 5)}"
    by (auto simp: rebalanceInit_def c overflowChunkNumber_def)
qed

abbreviation moreFirst :: "(string \<times> nat) list \<Rightarrow> (string \<times> nat) list" where
  "moreFirst \<equiv> sort_by (\<lambda>a b. snd b < snd a)"

abbreviation longerFirst :: "(string \<times> nat list) list \<Rightarrow> (string \<times> nat list) list" where
  "longerFirst \<equiv> sort_by (\<lambda>a b. length (snd b) < length (snd a))"

lemma demo_rebalance:
  "rb_plan (rebalance longerFirst moreFirst demoUnbalanced) = [(6, ''a'', ''b'')]"
proof -
  have s: "sourceWorkers demoUnbalanced = [(''a'', [5, 6, 7])]" "destinationWorkers demoUnbalanced = [(''b'', 1)]"
    by (simp_all add: sourceWorkers_def destinationWorkers_def demo_unbalanced)
  have r: "reportedWorkers demoUnbalanced \<noteq> []" by (simp add: reportedWorkers_def demoUnbalanced_def)
  have i: "rebalanceInit demoUnbalanced = \<lparr> rb_destinations = [(''b'', 1)],
      rb_worker2chunks = {(''a'', 5), (''a'', 6), (''a'', 7), (''b'', 5)}, rb_plan = [] \<rparr>"
    using demo_unbalanced(5) s(2) by (simp add: rebalanceInit_def)
  show ?thesis using r by (simp add: rebalance_def s i demo_unbalanced(1,6) sort_by_def Let_def)
qed

theorem rebalance_plan_sound_witness:
  "rb_plan (rebalance longerFirst moreFirst demoUnbalanced) = [(6, ''a'', ''b'')]
    \<and> \<not> hasReplica (fa_replicas demoUnbalanced) ''b'' 6
    \<and> avgChunks demoUnbalanced + movedFrom ''a'' [(6, ''a'', ''b'')] \<le> length (goodChunks (fa_replicas demoUnbalanced) ''a'')"
  using rebalance_plan_sound [of longerFirst moreFirst demoUnbalanced, OF mset_sort_by mset_sort_by]
  by (auto simp: Let_def demo_rebalance demo_unbalanced movedFrom_def)

text \<open>
  With the worker \<open>b\<close> already having all chunks of \<open>a\<close>, incomplete ones, nothing can be moved, and the plan says so.
\<close>

definition demoBlocked :: findAllResult where
  "demoBlocked = \<lparr> fa_workers = [(''a'', True), (''b'', True)],
     fa_replicas = [replicaOn 5 ''a'' COMPLETE, replicaOn 6 ''a'' COMPLETE,
       replicaOn 5 ''b'' INCOMPLETE, replicaOn 6 ''b'' INCOMPLETE] \<rparr>"

lemma demo_blocked:
  "avgChunks demoBlocked = 1" "sourceWorkers demoBlocked = [(''a'', [5, 6])]" "destinationWorkers demoBlocked = [(''b'', 1)]"
  "rb_plan (rebalance longerFirst moreFirst demoBlocked) = []" "reportedWorkers demoBlocked = [''a'', ''b'']"
proof -
  have c: "chunkNumbers (fa_replicas demoBlocked) = [5, 6]"
    "chunkWorkers (fa_replicas demoBlocked) 5 = [''a'', ''b'']" "chunkWorkers (fa_replicas demoBlocked) 6 = [''a'', ''b'']"
    "isGood (fa_replicas demoBlocked) 5 ''a''" "\<not> isGood (fa_replicas demoBlocked) 5 ''b''"
    "isGood (fa_replicas demoBlocked) 6 ''a''" "\<not> isGood (fa_replicas demoBlocked) 6 ''b''"
    by code_simp+
  have g: "goodMap (fa_replicas demoBlocked)
      = [(5, [(''a'', True), (''b'', False)]), (6, [(''a'', True), (''b'', False)])]"
    by (simp add: goodMap_def c)
  show r: "reportedWorkers demoBlocked = [''a'', ''b'']" by (simp add: reportedWorkers_def demoBlocked_def)
  have t: "totalGoodChunks (fa_replicas demoBlocked) = 2" by (simp add: totalGoodChunks_def g overflowChunkNumber_def)
  show avg: "avgChunks demoBlocked = 1" by (simp add: avgChunks_def t r eval_nat_numeral)
  have gc: "goodChunks (fa_replicas demoBlocked) ''a'' = [5, 6]" "goodChunks (fa_replicas demoBlocked) ''b'' = []"
    by (simp_all add: goodChunks_def g overflowChunkNumber_def)
  have "goodWorkers demoBlocked = sorted_list_of_set {''a'', ''b''}"
    unfolding goodWorkers_def by (rule arg_cong [of _ _ sorted_list_of_set]) (auto simp: g r)
  also have "\<dots> = [''a'', ''b'']" by code_simp
  finally have w: "goodWorkers demoBlocked = [''a'', ''b'']" .
  show s: "sourceWorkers demoBlocked = [(''a'', [5, 6])]" and d: "destinationWorkers demoBlocked = [(''b'', 1)]"
    by (simp_all add: sourceWorkers_def destinationWorkers_def w gc avg)
  have "rb_worker2chunks (rebalanceInit demoBlocked) = {(''a'', 5), (''b'', 5), (''a'', 6), (''b'', 6)}"
    by (auto simp: rebalanceInit_def c overflowChunkNumber_def)
  then have i: "rebalanceInit demoBlocked = \<lparr> rb_destinations = [(''b'', 1)],
      rb_worker2chunks = {(''a'', 5), (''b'', 5), (''a'', 6), (''b'', 6)}, rb_plan = [] \<rparr>"
    using d by (simp add: rebalanceInit_def)
  show "rb_plan (rebalance longerFirst moreFirst demoBlocked) = []"
    by (simp add: rebalance_def s d i t r avg sort_by_def Let_def)
qed

theorem rebalance_plan_maximal_witness:
  "length (goodChunks (fa_replicas demoBlocked) ''b'') + movedTo ''b'' [] = avgChunks demoBlocked
    \<or> hasReplica (fa_replicas demoBlocked) ''b'' 5 \<or> (\<exists>s'. (5, s', ''b'') \<in> set ([] :: replicaMove list))"
  using rebalance_plan_maximal [of longerFirst moreFirst demoBlocked "''a''" "[5, 6]" 5 "''b''" 1,
      OF mset_sort_by mset_sort_by, unfolded demo_blocked(4)]
  by (simp add: demo_blocked movedFrom_def)

end
