(* ===== verification/Replica_Jobs.thy ===== *)
theory Replica_Jobs
  imports Replica_Plan
begin

text \<open>
  The job of the replication system that carries out a plan: the life cycle of \<open>replica/Job\<close> and of \<open>replica/ReplicateJob\<close>, which
  starts the jobs of its plan in batches, spreading the load over the workers, and finishes when they have. What the
  children and the precursor job report, and cancellation, are events that come in any order.

  A child is given by a number and the move it makes; the calls of its \<open>start\<close> and \<open>cancel\<close> are recorded in order.
  The lemmas show that every child is started at most once, that the job always has a child in progress until it
  finishes, and that it succeeds only if every job of the plan was carried out.
\<close>

section \<open>Jobs\<close>

datatype replicaJobState = CREATED | IN_PROGRESS | FINISHED

datatype extendedState =
    NONE
  | SUCCESS
  | CONFIG_ERROR
  | FAILED
  | QSERV_FAILED
  | QSERV_CHUNK_IN_USE
  | TIMEOUT_EXPIRED
  | CANCELLED

datatype jobError = LogicError | OutOfRangeError | InvalidArgument

type_synonym childJob = "nat \<times> replicaMove"

record 'r replicateJob =
  rj_state :: replicaJobState
  rj_extendedState :: extendedState
  rj_findAllJob :: bool
  rj_jobs :: "childJob list"
  rj_activeJobs :: "childJob list"
  rj_numLaunched :: nat
  rj_numFinished :: nat
  rj_numSuccess :: nat
  rj_started :: "nat list"
  rj_cancelledJobs :: "nat list"
  rj_replicas :: "'r list"
  rj_chunks :: "nat \<times> string \<times> string \<rightharpoonup> 'r"
  rj_workers :: "string \<rightharpoonup> bool"

definition newReplicateJob :: "'r replicateJob" where
  "newReplicateJob = \<lparr> rj_state = CREATED, rj_extendedState = NONE, rj_findAllJob = False, rj_jobs = [], rj_activeJobs = [],
     rj_numLaunched = 0, rj_numFinished = 0, rj_numSuccess = 0, rj_started = [], rj_cancelledJobs = [],
     rj_replicas = [], rj_chunks = Map.empty, rj_workers = Map.empty \<rparr>"

definition setState :: "replicaJobState \<Rightarrow> extendedState \<Rightarrow> 'r replicateJob \<Rightarrow> 'r replicateJob" where
  "setState st ex j = j\<lparr> rj_state := st, rj_extendedState := ex \<rparr>"

definition cancelImpl :: "'r replicateJob \<Rightarrow> 'r replicateJob" where
  "cancelImpl j = j\<lparr> rj_findAllJob := False, rj_jobs := [],
     rj_cancelledJobs := rj_cancelledJobs j @ map fst (rj_activeJobs j), rj_activeJobs := [],
     rj_numLaunched := 0, rj_numFinished := 0, rj_numSuccess := 0 \<rparr>"

definition job_finish :: "extendedState \<Rightarrow> 'r replicateJob \<Rightarrow> 'r replicateJob" where
  "job_finish ex j =
     (if rj_state j = FINISHED then j
      else let j = setState FINISHED ex j in if ex \<noteq> SUCCESS then cancelImpl j else j)"

definition job_cancel :: "'r replicateJob \<Rightarrow> 'r replicateJob" where
  "job_cancel j = (if rj_state j = FINISHED then j else job_finish CANCELLED j)"

definition job_expired :: "bool \<Rightarrow> 'r replicateJob \<Rightarrow> 'r replicateJob" where
  "job_expired aborted j = (if aborted \<or> rj_state j = FINISHED then j else job_finish TIMEOUT_EXPIRED j)"

definition startImpl :: "'r replicateJob \<Rightarrow> 'r replicateJob" where
  "startImpl j = setState IN_PROGRESS NONE (j\<lparr> rj_findAllJob := True \<rparr>)"

definition job_start :: "'r replicateJob \<Rightarrow> jobError + 'r replicateJob" where
  "job_start j = (if rj_state j \<noteq> CREATED then Inl LogicError else Inr (startImpl j))"

section \<open>Launching\<close>

abbreviation sourceWorker :: "childJob \<Rightarrow> string" where
  "sourceWorker c \<equiv> fst (snd (snd c))"

abbreviation destinationWorker :: "childJob \<Rightarrow> string" where
  "destinationWorker c \<equiv> snd (snd (snd c))"

text \<open>The inner loop of \<open>_launchNextJobs\<close>: the last of the jobs with the lowest load.\<close>

fun pickJob :: "(string \<Rightarrow> nat) \<Rightarrow> (string \<Rightarrow> nat) \<Rightarrow> childJob list \<Rightarrow> nat \<times> childJob option \<Rightarrow> nat \<times> childJob option" where
  "pickJob numAtDest numAtSrc [] best = best"
| "pickJob numAtDest numAtSrc (c # cs) best =
     (let load = numAtDest (destinationWorker c) + numAtSrc (sourceWorker c)
      in pickJob numAtDest numAtSrc cs (if load \<le> fst best then (load, Some c) else best))"

text \<open>\<open>std::list::remove\<close> of a pointer.\<close>

definition removeJob :: "nat \<Rightarrow> childJob list \<Rightarrow> childJob list" where
  "removeJob k cs = filter (\<lambda>c. fst c \<noteq> k) cs"

fun launchLoop :: "nat \<Rightarrow> (string \<Rightarrow> nat) \<Rightarrow> (string \<Rightarrow> nat) \<Rightarrow> nat \<times> 'r replicateJob \<Rightarrow> nat \<times> 'r replicateJob" where
  "launchLoop 0 numAtDest numAtSrc s = s"
| "launchLoop (Suc n) numAtDest numAtSrc (launched, j) =
     (case snd (pickJob numAtDest numAtSrc (rj_jobs j) (MAX_SIZE, None)) of
        None \<Rightarrow> launchLoop n numAtDest numAtSrc (launched, j)
      | Some c \<Rightarrow>
          launchLoop n (numAtDest(destinationWorker c := numAtDest (destinationWorker c) + 1))
            (numAtSrc(sourceWorker c := numAtSrc (sourceWorker c) + 1))
            (launched + 1, j\<lparr> rj_activeJobs := rj_activeJobs j @ [c], rj_jobs := removeJob (fst c) (rj_jobs j),
                             rj_started := rj_started j @ [fst c] \<rparr>))"

definition launchNextJobs :: "nat \<Rightarrow> 'r replicateJob \<Rightarrow> nat \<times> 'r replicateJob" where
  "launchNextJobs numJobs j =
     launchLoop numJobs
       (\<lambda>w. length (filter (\<lambda>c. destinationWorker c = w) (rj_activeJobs j)))
       (\<lambda>w. length (filter (\<lambda>c. sourceWorker c = w) (rj_activeJobs j))) (0, j)"

text \<open>
  \<open>_onPrecursorJobFinish\<close>: the plan is that of \<open>replicateJobs\<close>, where \<open>UnknownWorker\<close> is an exception that nobody
  catches and the other errors make the job fail; \<open>numThreads\<close> is \<open>workerNumProcessingThreads\<close>.
\<close>

definition onPrecursorJobFinish ::
    "nat \<Rightarrow> bool \<Rightarrow> planError + replicaMove list \<Rightarrow> 'r replicateJob \<Rightarrow> jobError + 'r replicateJob" where
  "onPrecursorJobFinish numThreads precursorOk plan j =
     (if rj_state j = FINISHED then Inr j
      else if \<not> precursorOk then Inr (job_finish FAILED j)
      else case plan of
             Inl e \<Rightarrow> if e = UnknownWorker then Inl OutOfRangeError else Inr (job_finish FAILED j)
           | Inr moves \<Rightarrow>
               let j = j\<lparr> rj_jobs := rj_jobs j @ zip [0..<length moves] moves \<rparr>
               in if rj_jobs j = [] then Inr (job_finish SUCCESS j)
                  else let numJobs = card (set (map destinationWorker (rj_jobs j))) * numThreads;
                           (launched, j) = launchNextJobs numJobs j
                       in if launched \<noteq> 0 then Inr (j\<lparr> rj_numLaunched := rj_numLaunched j + launched \<rparr>)
                          else Inr (job_finish FAILED (j\<lparr> rj_jobs := [] \<rparr>)))"

text \<open>
  What a child reports: its replicas and its \<open>chunks\<close>, the nested maps from chunk, database and worker to a replica.
\<close>

type_synonym 'r replicaData = "'r list \<times> (nat \<times> string \<times> string \<rightharpoonup> 'r)"

definition recordResult :: "childJob \<Rightarrow> bool \<Rightarrow> 'r replicaData \<Rightarrow> 'r replicateJob \<Rightarrow> 'r replicateJob" where
  "recordResult c ok rd j =
     (if ok
      then j\<lparr> rj_numSuccess := rj_numSuccess j + 1, rj_replicas := rj_replicas j @ fst rd, rj_chunks := rj_chunks j ++ snd rd,
              rj_workers := (rj_workers j)(destinationWorker c \<mapsto> True) \<rparr>
      else j\<lparr> rj_workers := (rj_workers j)(destinationWorker c \<mapsto> False) \<rparr>)"

definition onCreateJobFinish :: "childJob \<Rightarrow> bool \<Rightarrow> 'r replicaData \<Rightarrow> 'r replicateJob \<Rightarrow> 'r replicateJob" where
  "onCreateJobFinish c ok rd j =
     (if rj_state j = FINISHED then j\<lparr> rj_activeJobs := removeJob (fst c) (rj_activeJobs j) \<rparr>
      else let j = recordResult c ok rd
                     (j\<lparr> rj_activeJobs := removeJob (fst c) (rj_activeJobs j), rj_numFinished := rj_numFinished j + 1 \<rparr>);
               (launched, j) = launchNextJobs 1 j
           in if launched \<noteq> 0 then j\<lparr> rj_numLaunched := rj_numLaunched j + launched \<rparr>
              else if rj_numFinished j = rj_numLaunched j
              then job_finish (if rj_numSuccess j = rj_numLaunched j then SUCCESS else FAILED) j
              else j)"

text \<open>
  The runs of a job with a plan: \<open>D\<close> are the reports of its children so far, with their success. A child reports once and
  only after it was started.
\<close>

inductive rep_reach :: "nat \<Rightarrow> replicaMove list \<Rightarrow> 'r replicateJob \<Rightarrow> (nat \<times> bool) list \<Rightarrow> bool"
  for threads :: nat and moves :: "replicaMove list" where
  rj_new: "rep_reach threads moves newReplicateJob []"
| rj_begin: "rep_reach threads moves j D \<Longrightarrow> job_start j = Inr j' \<Longrightarrow> rep_reach threads moves j' D"
| rj_plan: "rep_reach threads moves j D \<Longrightarrow> rj_state j = IN_PROGRESS \<Longrightarrow> rj_started j = [] \<Longrightarrow>
    (\<forall>ms. plan = Inr ms \<longrightarrow> ms = moves) \<Longrightarrow> onPrecursorJobFinish threads ok plan j = Inr j' \<Longrightarrow>
    rep_reach threads moves j' D"
| rj_report: "rep_reach threads moves j D \<Longrightarrow> fst c \<in> set (rj_started j) \<Longrightarrow> fst c \<notin> fst ` set D \<Longrightarrow>
    snd c = moves ! fst c \<Longrightarrow> rep_reach threads moves (onCreateJobFinish c ok rd j) (D @ [(fst c, ok)])"
| rj_cancel: "rep_reach threads moves j D \<Longrightarrow> rep_reach threads moves (job_cancel j) D"
| rj_timer: "rep_reach threads moves j D \<Longrightarrow> rep_reach threads moves (job_expired aborted j) D"

section \<open>The launched jobs\<close>

lemma pickJob_in:
  "pickJob nd ns cs best = (m, r) \<Longrightarrow> r = snd best \<or> (\<exists>c \<in> set cs. r = Some c)"
  by (induction nd ns cs best rule: pickJob.induct) (auto simp: Let_def split: if_splits)

lemma pickJob_min:
  "pickJob nd ns cs best = (m, r) \<Longrightarrow> m \<le> fst best \<and> (\<forall>c \<in> set cs. m \<le> nd (destinationWorker c) + ns (sourceWorker c))
   \<and> ((\<exists>c \<in> set cs. nd (destinationWorker c) + ns (sourceWorker c) \<le> fst best)
       \<longrightarrow> (\<exists>c \<in> set cs. r = Some c \<and> m = nd (destinationWorker c) + ns (sourceWorker c)))"
proof (induction nd ns cs best rule: pickJob.induct)
  case (2 nd ns c cs best)
  let ?l = "nd (destinationWorker c) + ns (sourceWorker c)"
  let ?b = "if ?l \<le> fst best then (?l, Some c) else best"
  have p: "pickJob nd ns cs ?b = (m, r)" using 2(2) by (simp add: Let_def)
  note ih = 2(1) [OF refl p]
  show ?case
  proof (cases "\<exists>d \<in> set cs. nd (destinationWorker d) + ns (sourceWorker d) \<le> fst ?b")
    case True
    then show ?thesis using ih by (auto split: if_splits)
  next
    case False
    have "pickJob nd ns ds q = q" if "\<forall>d \<in> set ds. \<not> nd (destinationWorker d) + ns (sourceWorker d) \<le> fst q" for ds q
      using that by (induction ds) (auto simp: Let_def)
    then have "(m, r) = ?b" using p False by auto
    then show ?thesis using ih False by (auto split: if_splits)
  qed
qed simp

text \<open>A job is found as long as there is one: no load can exceed the initial \<open>minLoad\<close>.\<close>

lemma pickJob_Some:
  assumes "cs \<noteq> []" "\<forall>w. nd w \<le> k" "\<forall>w. ns w \<le> k" "2 * k \<le> MAX_SIZE"
  shows "\<exists>c \<in> set cs. snd (pickJob nd ns cs (MAX_SIZE, None)) = Some c
    \<and> (\<forall>d \<in> set cs. nd (destinationWorker c) + ns (sourceWorker c) \<le> nd (destinationWorker d) + ns (sourceWorker d))"
proof -
  obtain m r where mr: "pickJob nd ns cs (MAX_SIZE, None) = (m, r)" by (cases "pickJob nd ns cs (MAX_SIZE, None)")
  obtain c where "c \<in> set cs" using assms(1) by (meson last_in_set)
  moreover have "nd (destinationWorker c) + ns (sourceWorker c) \<le> MAX_SIZE"
    using assms(2-4) by (metis add_mono_thms_linordered_semiring(1) le_trans mult_2)
  ultimately show ?thesis using pickJob_min [OF mr] by (auto simp: mr)
qed

lemma removeJob_remove1: "distinct (map fst cs) \<Longrightarrow> c \<in> set cs \<Longrightarrow> removeJob (fst c) cs = remove1 c cs"
proof (induction cs)
  case (Cons d cs)
  have "fst d \<notin> fst ` set cs" using Cons.prems(1) by simp
  then have "removeJob (fst d) cs = cs"
    unfolding removeJob_def by (intro filter_True ballI) (metis imageI)
  then show ?case using Cons by (auto simp: removeJob_def)
qed simp

lemma launchLoop_props:
  assumes "launchLoop n nd ns (l, j) = (l', j')" "distinct (map fst (rj_jobs j))"
    "\<forall>w. nd w \<le> length (rj_activeJobs j)" "\<forall>w. ns w \<le> length (rj_activeJobs j)"
    "2 * (length (rj_jobs j) + length (rj_activeJobs j)) \<le> MAX_SIZE"
  shows "\<exists>cs. length cs = min n (length (rj_jobs j)) \<and> l' = l + length cs \<and> set cs \<subseteq> set (rj_jobs j) \<and> distinct (map fst cs)
    \<and> j' = j\<lparr> rj_activeJobs := rj_activeJobs j @ cs, rj_jobs := filter (\<lambda>c. fst c \<notin> fst ` set cs) (rj_jobs j),
              rj_started := rj_started j @ map fst cs \<rparr>"
  using assms
proof (induction n arbitrary: nd ns l j)
  case 0
  then show ?case by (auto intro: exI [of _ "[]"])
next
  case (Suc n)
  show ?case
  proof (cases "rj_jobs j = []")
    case True
    then have "launchLoop n nd ns (l, j) = (l', j')" using Suc.prems(1) by simp
    then show ?thesis using Suc.IH [of nd ns l j] Suc.prems True by auto
  next
    case False
    obtain c where c: "c \<in> set (rj_jobs j)" "snd (pickJob nd ns (rj_jobs j) (MAX_SIZE, None)) = Some c"
      using pickJob_Some [OF False Suc.prems(3,4)] Suc.prems(5) by auto
    let ?nd = "nd(destinationWorker c := nd (destinationWorker c) + 1)" let ?ns = "ns(sourceWorker c := ns (sourceWorker c) + 1)"
    let ?j = "j\<lparr> rj_activeJobs := rj_activeJobs j @ [c], rj_jobs := removeJob (fst c) (rj_jobs j), rj_started := rj_started j @ [fst c] \<rparr>"
    have len: "length (removeJob (fst c) (rj_jobs j)) = length (rj_jobs j) - 1"
      using removeJob_remove1 [OF Suc.prems(2) c(1)] c(1) by (simp add: length_remove1)
    have l: "launchLoop n ?nd ?ns (l + 1, ?j) = (l', j')" using Suc.prems(1) c(2) by simp
    have "distinct (map fst (rj_jobs ?j))" using Suc.prems(2) by (simp add: removeJob_def distinct_map_filter)
    moreover have "\<forall>w. ?nd w \<le> length (rj_activeJobs ?j)" "\<forall>w. ?ns w \<le> length (rj_activeJobs ?j)"
      using Suc.prems(3,4) by (auto simp: le_SucI)
    moreover have "2 * (length (rj_jobs ?j) + length (rj_activeJobs ?j)) \<le> MAX_SIZE"
      using Suc.prems(5) len False by (cases "rj_jobs j") auto
    ultimately obtain cs where cs: "length cs = min n (length (rj_jobs ?j))" "l' = l + 1 + length cs" "set cs \<subseteq> set (rj_jobs ?j)"
      "distinct (map fst cs)" "j' = ?j\<lparr> rj_activeJobs := rj_activeJobs ?j @ cs,
         rj_jobs := filter (\<lambda>c. fst c \<notin> fst ` set cs) (rj_jobs ?j), rj_started := rj_started ?j @ map fst cs \<rparr>"
      using Suc.IH [OF l] by blast
    have "fst c \<notin> fst ` set cs" using cs(3) by (auto simp: removeJob_def)
    then have dist: "distinct (map fst (c # cs))" using cs(4) by auto
    have sub: "set (c # cs) \<subseteq> set (rj_jobs j)" using cs(3) c(1) by (auto simp: removeJob_def)
    have lcs: "length (c # cs) = min (Suc n) (length (rj_jobs j))" using cs(1) len False by (cases "rj_jobs j") auto
    have "filter (\<lambda>d. fst d \<notin> fst ` set cs) (removeJob (fst c) (rj_jobs j)) = filter (\<lambda>d. fst d \<notin> fst ` set (c # cs)) (rj_jobs j)"
      by (simp add: removeJob_def conj_commute)
    then have "j' = j\<lparr> rj_activeJobs := rj_activeJobs j @ (c # cs),
        rj_jobs := filter (\<lambda>d. fst d \<notin> fst ` set (c # cs)) (rj_jobs j), rj_started := rj_started j @ map fst (c # cs) \<rparr>"
      using cs(5) by simp
    then have "length (c # cs) = min (Suc n) (length (rj_jobs j)) \<and> l' = l + length (c # cs) \<and> set (c # cs) \<subseteq> set (rj_jobs j)
      \<and> distinct (map fst (c # cs)) \<and> j' = j\<lparr> rj_activeJobs := rj_activeJobs j @ (c # cs),
          rj_jobs := filter (\<lambda>d. fst d \<notin> fst ` set (c # cs)) (rj_jobs j), rj_started := rj_started j @ map fst (c # cs) \<rparr>"
      using lcs sub dist cs(2) by (intro conjI) simp_all
    then show ?thesis by blast
  qed
qed

section \<open>Invariant\<close>

definition busy :: "replicaMove list \<Rightarrow> 'r replicateJob \<Rightarrow> (nat \<times> bool) list \<Rightarrow> bool" where
  "busy moves j D \<longleftrightarrow> rj_activeJobs j \<noteq> [] \<and> distinct (map fst (rj_jobs j)) \<and> distinct (map fst (rj_activeJobs j))
     \<and> fst ` set (rj_jobs j) = {0..<length moves} - set (rj_started j)
     \<and> fst ` set (rj_activeJobs j) = set (rj_started j) - fst ` set D
     \<and> rj_numLaunched j = length (rj_started j) \<and> rj_numFinished j = length D \<and> rj_numSuccess j = length (filter snd D)"

definition idle :: "'r replicateJob \<Rightarrow> (nat \<times> bool) list \<Rightarrow> bool" where
  "idle j D \<longleftrightarrow> rj_jobs j = [] \<and> rj_activeJobs j = [] \<and> rj_numLaunched j = 0 \<and> rj_numFinished j = 0 \<and> rj_numSuccess j = 0 \<and> D = []"

definition rep_inv :: "replicaMove list \<Rightarrow> 'r replicateJob \<Rightarrow> (nat \<times> bool) list \<Rightarrow> bool" where
  "rep_inv moves j D \<longleftrightarrow>
     distinct (rj_started j) \<and> set (rj_started j) \<subseteq> {0..<length moves} \<and> distinct (map fst D) \<and> fst ` set D \<subseteq> set (rj_started j)
     \<and> (rj_state j = CREATED \<longrightarrow> rj_started j = [])
     \<and> (rj_state j \<noteq> FINISHED \<and> rj_started j = [] \<longrightarrow> idle j D)
     \<and> (rj_state j = IN_PROGRESS \<and> rj_started j \<noteq> [] \<longrightarrow> busy moves j D)
     \<and> (rj_state j = FINISHED \<and> rj_extendedState j = SUCCESS \<longrightarrow> set (rj_started j) = {0..<length moves} \<and> fst ` set D = {0..<length moves} \<and> (\<forall>d \<in> set D. snd d))
     \<and> (rj_state j = FINISHED \<and> rj_extendedState j \<noteq> SUCCESS \<longrightarrow> set (rj_started j) - fst ` set D \<subseteq> set (rj_cancelledJobs j))"

lemma job_finish_fields:
  "rj_state (job_finish ex j) = FINISHED" "rj_started (job_finish ex j) = rj_started j"
  "rj_state j \<noteq> FINISHED \<Longrightarrow> rj_extendedState (job_finish ex j) = ex"
  "rj_state j \<noteq> FINISHED \<Longrightarrow> ex \<noteq> SUCCESS \<Longrightarrow>
     rj_cancelledJobs (job_finish ex j) = rj_cancelledJobs j @ map fst (rj_activeJobs j)"
  by (auto simp: job_finish_def Let_def setState_def cancelImpl_def)

text \<open>A job that is stopped cancels what it has in progress.\<close>

lemma rep_inv_stop:
  fixes j j' :: "'r replicateJob"
  assumes "rep_inv moves j D" "rj_state j \<noteq> FINISHED" "ex \<noteq> SUCCESS"
    "rj_started j' = rj_started j" "rj_activeJobs j' = rj_activeJobs j" "rj_cancelledJobs j' = rj_cancelledJobs j"
    "rj_state j' \<noteq> FINISHED"
  shows "rep_inv moves (job_finish ex j') D"
proof -
  have "set (rj_started j) - fst ` set D \<subseteq> fst ` set (rj_activeJobs j)"
  proof (cases "rj_started j = []")
    case False
    then have "busy moves j D" using assms(1,2) by (cases "rj_state j") (auto simp: rep_inv_def)
    then show ?thesis by (simp add: busy_def)
  qed simp
  then show ?thesis
    using assms by (auto simp: rep_inv_def job_finish_fields)
qed

lemma launchNextJobs_props:
  assumes "launchNextJobs n j = (l, j')" "distinct (map fst (rj_jobs j))"
    "2 * (length (rj_jobs j) + length (rj_activeJobs j)) \<le> MAX_SIZE"
  shows "\<exists>cs. length cs = min n (length (rj_jobs j)) \<and> l = length cs \<and> set cs \<subseteq> set (rj_jobs j) \<and> distinct (map fst cs)
    \<and> j' = j\<lparr> rj_activeJobs := rj_activeJobs j @ cs, rj_jobs := filter (\<lambda>c. fst c \<notin> fst ` set cs) (rj_jobs j),
              rj_started := rj_started j @ map fst cs \<rparr>"
  using launchLoop_props [OF assms(1) [unfolded launchNextJobs_def] assms(2)] assms(3) by (simp add: le_trans [OF length_filter_le])

text \<open>Jobs that are launched keep the books, whatever they were launched from.\<close>

definition half_busy :: "replicaMove list \<Rightarrow> 'r replicateJob \<Rightarrow> (nat \<times> bool) list \<Rightarrow> bool" where
  "half_busy moves j D \<longleftrightarrow> distinct (rj_started j) \<and> set (rj_started j) \<subseteq> {0..<length moves}
     \<and> distinct (map fst D) \<and> fst ` set D \<subseteq> set (rj_started j)
     \<and> distinct (map fst (rj_jobs j)) \<and> distinct (map fst (rj_activeJobs j))
     \<and> fst ` set (rj_jobs j) = {0..<length moves} - set (rj_started j)
     \<and> fst ` set (rj_activeJobs j) = set (rj_started j) - fst ` set D
     \<and> rj_numLaunched j = length (rj_started j) \<and> rj_numFinished j = length D \<and> rj_numSuccess j = length (filter snd D)"

lemma half_busy_length:
  assumes "half_busy moves j D"
  shows "length (rj_jobs j) + length (rj_activeJobs j) \<le> length moves"
proof -
  have "length (rj_jobs j) = card ({0..<length moves} - set (rj_started j))" "length (rj_activeJobs j) = card (set (rj_started j) - fst ` set D)"
    using assms distinct_card [of "map fst (rj_jobs j)"] distinct_card [of "map fst (rj_activeJobs j)"]
    by (auto simp: half_busy_def)
  moreover have "card ({0..<length moves} - set (rj_started j)) + card (set (rj_started j) - fst ` set D)
      = card (({0..<length moves} - set (rj_started j)) \<union> (set (rj_started j) - fst ` set D))"
    by (rule card_Un_disjoint [symmetric]) auto
  moreover have "card (({0..<length moves} - set (rj_started j)) \<union> (set (rj_started j) - fst ` set D)) \<le> card {0..<length moves}"
    using assms by (intro card_mono) (auto simp: half_busy_def)
  ultimately show ?thesis by simp
qed

lemma half_busy_launch:
  assumes "half_busy moves j D" "launchNextJobs n j = (l, j')" "2 * length moves \<le> MAX_SIZE"
  shows "half_busy moves (j'\<lparr> rj_numLaunched := rj_numLaunched j' + l \<rparr>) D" "l = min n (length (rj_jobs j))"
    "rj_state j' = rj_state j" "l \<noteq> 0 \<Longrightarrow> rj_activeJobs j' \<noteq> [] \<and> rj_started j' \<noteq> []" "l = 0 \<Longrightarrow> j' = j"
proof -
  obtain cs where cs: "length cs = min n (length (rj_jobs j))" "l = length cs" "set cs \<subseteq> set (rj_jobs j)" "distinct (map fst cs)"
    "j' = j\<lparr> rj_activeJobs := rj_activeJobs j @ cs, rj_jobs := filter (\<lambda>c. fst c \<notin> fst ` set cs) (rj_jobs j),
              rj_started := rj_started j @ map fst cs \<rparr>"
    using launchNextJobs_props [OF assms(2)] assms(1,3) half_busy_length [OF assms(1)] by (auto simp: half_busy_def)
  have ids: "fst ` set cs \<subseteq> {0..<length moves} - set (rj_started j)"
    using image_mono [OF cs(3), of fst] assms(1) by (simp add: half_busy_def)
  have d: "fst ` set D \<subseteq> set (rj_started j)" using assms(1) by (simp add: half_busy_def)
  have j1: "fst ` set (filter (\<lambda>c. fst c \<notin> fst ` set cs) (rj_jobs j)) = {0..<length moves} - set (rj_started j) - fst ` set cs"
    using assms(1) unfolding half_busy_def by auto
  show "half_busy moves (j'\<lparr> rj_numLaunched := rj_numLaunched j' + l \<rparr>) D"
    using assms(1) ids d cs(2,4) j1 unfolding half_busy_def cs(5)
    by (auto simp: distinct_map_filter)
  show "l = min n (length (rj_jobs j))" "rj_state j' = rj_state j" using cs by simp_all
  show "l \<noteq> 0 \<Longrightarrow> rj_activeJobs j' \<noteq> [] \<and> rj_started j' \<noteq> []" using cs(2,5) by (cases cs) simp_all
  show "l = 0 \<Longrightarrow> j' = j" using cs by simp
qed

lemma busy_half: "rep_inv moves j D \<Longrightarrow> busy moves j D \<Longrightarrow> half_busy moves j D"
  by (simp add: rep_inv_def busy_def half_busy_def)

lemma half_busy_inv:
  "half_busy moves j D \<Longrightarrow> rj_state j = IN_PROGRESS \<Longrightarrow> rj_activeJobs j \<noteq> [] \<Longrightarrow> rj_started j \<noteq> [] \<Longrightarrow> rep_inv moves j D"
  by (simp add: rep_inv_def busy_def half_busy_def)

lemma rep_inv_plan:
  fixes j :: "'r replicateJob"
  assumes "rep_inv moves j D" "rj_state j = IN_PROGRESS" "rj_started j = []" "\<forall>ms. plan = Inr ms \<longrightarrow> ms = moves"
    "onPrecursorJobFinish threads ok plan j = Inr j'" "2 * length moves \<le> MAX_SIZE"
  shows "rep_inv moves j' D"
proof -
  have idle: "idle j D" using assms(1-3) by (auto simp: rep_inv_def)
  have stop: "rep_inv moves (job_finish FAILED i) D"
    if "rj_started i = rj_started j" "rj_activeJobs i = rj_activeJobs j" "rj_cancelledJobs i = rj_cancelledJobs j" "rj_state i = IN_PROGRESS" for i :: "'r replicateJob"
    using rep_inv_stop [OF assms(1)] assms(2) that by simp
  let ?i = "j\<lparr> rj_jobs := zip [0..<length moves] moves \<rparr>"
  have half: "half_busy moves ?i D" using idle assms(3) by (auto simp: half_busy_def idle_def image_set)
  consider (stopped) "j' = job_finish FAILED j" | (empty) "plan = Inr moves" "moves = []" "j' = job_finish SUCCESS ?i"
    | (run) l i n where "launchNextJobs n ?i = (l, i)" "l \<noteq> 0" "j' = i\<lparr> rj_numLaunched := rj_numLaunched i + l \<rparr>"
    | (none) i n where "launchNextJobs n ?i = (0, i)" "j' = job_finish FAILED (i\<lparr> rj_jobs := [] \<rparr>)"
    using assms(2,4,5) idle
    by (auto simp: onPrecursorJobFinish_def Let_def idle_def split: if_splits sum.splits prod.splits)
  then show ?thesis
  proof cases
    case stopped
    then show ?thesis using stop assms(2) by simp
  next
    case empty
    then show ?thesis using assms(2,3) idle by (simp add: job_finish_def setState_def rep_inv_def idle_def)
  next
    case run
    then show ?thesis using half_busy_launch [OF half run(1) assms(6)] assms(2) by (auto intro!: half_busy_inv)
  next
    case none
    then show ?thesis using half_busy_launch(5) [OF half none(1) assms(6)] assms(2) by (auto intro!: stop)
  qed
qed

lemma recordResult_fields [simp]:
  "rj_state (recordResult c ok rd j) = rj_state j" "rj_jobs (recordResult c ok rd j) = rj_jobs j"
  "rj_activeJobs (recordResult c ok rd j) = rj_activeJobs j" "rj_started (recordResult c ok rd j) = rj_started j"
  "rj_numLaunched (recordResult c ok rd j) = rj_numLaunched j" "rj_numFinished (recordResult c ok rd j) = rj_numFinished j"
  "rj_numSuccess (recordResult c ok rd j) = rj_numSuccess j + (if ok then 1 else 0)"
  by (simp_all add: recordResult_def)

lemma half_busy_report:
  assumes "half_busy moves j D" "fst c \<in> set (rj_started j)" "fst c \<notin> fst ` set D"
  shows "half_busy moves (recordResult c ok rd
           (j\<lparr> rj_activeJobs := removeJob (fst c) (rj_activeJobs j), rj_numFinished := rj_numFinished j + 1 \<rparr>)) (D @ [(fst c, ok)])"
proof -
  have "fst ` set (removeJob (fst c) (rj_activeJobs j)) = fst ` set (rj_activeJobs j) - {fst c}"
    by (auto simp: removeJob_def)
  then show ?thesis using assms by (auto simp: half_busy_def removeJob_def distinct_map_filter)
qed

lemma half_busy_counts:
  assumes "half_busy moves j D"
  shows "rj_numFinished j = rj_numLaunched j \<longleftrightarrow> rj_activeJobs j = []"
    "rj_activeJobs j = [] \<Longrightarrow> fst ` set D = set (rj_started j)"
    "rj_activeJobs j = [] \<Longrightarrow> rj_numSuccess j = rj_numLaunched j \<longleftrightarrow> (\<forall>d \<in> set D. snd d)"
proof -
  have len: "length D = card (fst ` set D)" "length (rj_started j) = card (set (rj_started j))"
    using assms distinct_card [of "map fst D"] distinct_card [of "rj_started j"] by (auto simp: half_busy_def)
  have sub: "fst ` set D \<subseteq> set (rj_started j)" "fst ` set (rj_activeJobs j) = set (rj_started j) - fst ` set D"
    using assms by (auto simp: half_busy_def)
  have nums: "rj_numFinished j = length D" "rj_numLaunched j = length (rj_started j)" "rj_numSuccess j = length (filter snd D)"
    using assms by (auto simp: half_busy_def)
  show all: "fst ` set D = set (rj_started j)" if "rj_activeJobs j = []"
    using sub that by auto
  show "rj_numFinished j = rj_numLaunched j \<longleftrightarrow> rj_activeJobs j = []"
  proof
    assume "rj_numFinished j = rj_numLaunched j"
    then have "fst ` set D = set (rj_started j)" using card_subset_eq [OF _ sub(1)] len nums by simp
    then show "rj_activeJobs j = []" using sub(2) by simp
  next
    assume "rj_activeJobs j = []"
    then show "rj_numFinished j = rj_numLaunched j" using all len nums by simp
  qed
  show "rj_numSuccess j = rj_numLaunched j \<longleftrightarrow> (\<forall>d \<in> set D. snd d)" if "rj_activeJobs j = []"
    using all [OF that] len nums
    by (metis filter_True filter_id_conv length_filter_less nat_neq_iff)
qed

lemma rep_inv_report:
  assumes "rep_inv moves j D" "fst c \<in> set (rj_started j)" "fst c \<notin> fst ` set D" "2 * length moves \<le> MAX_SIZE"
  shows "rep_inv moves (onCreateJobFinish c ok rd j) (D @ [(fst c, ok)])"
proof (cases "rj_state j = FINISHED")
  case True
  then show ?thesis using assms(1-3) by (auto simp: onCreateJobFinish_def rep_inv_def)
next
  case False
  let ?j = "recordResult c ok rd
      (j\<lparr> rj_activeJobs := removeJob (fst c) (rj_activeJobs j), rj_numFinished := rj_numFinished j + 1 \<rparr>)"
  let ?D = "D @ [(fst c, ok)]"
  have st: "rj_state j = IN_PROGRESS" using assms(1,2) False by (cases "rj_state j") (auto simp: rep_inv_def)
  then have "half_busy moves j D" using assms(1,2) by (intro busy_half) (auto simp: rep_inv_def)
  then have half: "half_busy moves ?j ?D" using half_busy_report assms(2,3) by blast
  obtain l i where l: "launchNextJobs 1 ?j = (l, i)" by fastforce
  note go = half_busy_launch [OF half l assms(4)]
  show ?thesis
  proof (cases "l = 0")
    case False
    then have "onCreateJobFinish c ok rd j = i\<lparr> rj_numLaunched := rj_numLaunched i + l \<rparr>"
      using st l by (simp add: onCreateJobFinish_def Let_def)
    then show ?thesis using half_busy_inv [OF go(1)] go(3,4) st False by simp
  next
    case True
    then have i: "i = ?j" "rj_jobs ?j = []" using go(2,5) by (auto simp: min_def split: if_splits)
    then have started: "set (rj_started j) = {0..<length moves}" using half by (auto simp: half_busy_def)
    have fin: "onCreateJobFinish c ok rd j =
        (if rj_activeJobs ?j = [] then job_finish (if \<forall>d \<in> set ?D. snd d then SUCCESS else FAILED) ?j else ?j)"
      using st l True i(1) half_busy_counts(1,3) [OF half] unfolding onCreateJobFinish_def by (auto simp: Let_def)
    show ?thesis
    proof (cases "rj_activeJobs ?j = []")
      case True
      have "rep_inv moves (job_finish (if \<forall>d \<in> set ?D. snd d then SUCCESS else FAILED) ?j) ?D"
        using half half_busy_counts(2) [OF half True] started st
        by (auto simp: rep_inv_def job_finish_def setState_def cancelImpl_def half_busy_def)
      then show ?thesis using fin True by simp
    next
      case False
      then have "rep_inv moves ?j ?D" using assms(2) st by (intro half_busy_inv [OF half]) auto
      then show ?thesis using fin False by simp
    qed
  qed
qed

lemma rep_reach_inv:
  assumes "rep_reach threads moves j D" "2 * length moves \<le> MAX_SIZE"
  shows "rep_inv moves j D"
  using assms(1)
proof induction
  case rj_new
  show ?case by (simp add: rep_inv_def newReplicateJob_def idle_def)
next
  case (rj_begin j D j')
  then show ?case by (auto simp: job_start_def startImpl_def setState_def rep_inv_def idle_def split: if_splits)
next
  case (rj_plan j D plan ok j')
  then show ?case using rep_inv_plan assms(2) by blast
next
  case (rj_report j D c ok rd)
  then show ?case using rep_inv_report assms(2) by blast
next
  case (rj_cancel j D)
  then show ?case using rep_inv_stop [of moves j D CANCELLED j] by (auto simp: job_cancel_def)
next
  case (rj_timer j D aborted)
  then show ?case using rep_inv_stop [of moves j D TIMEOUT_EXPIRED j] by (auto simp: job_expired_def)
qed

lemma rep_inv_books:
  assumes "rep_inv moves j D"
  shows "distinct (rj_started j) \<and> set (rj_started j) \<subseteq> {0..<length moves}
    \<and> (rj_state j = FINISHED \<and> rj_extendedState j \<noteq> SUCCESS \<longrightarrow>
         set (rj_started j) \<subseteq> fst ` set D \<union> set (rj_cancelledJobs j))"
  using assms by (auto simp: rep_inv_def)

lemma rep_inv_active:
  assumes "rep_inv moves j D" "rj_state j = IN_PROGRESS" "rj_started j \<noteq> []"
  shows "\<exists>c \<in> set (rj_activeJobs j). fst c \<in> set (rj_started j) \<and> fst c \<notin> fst ` set D"
proof -
  have b: "rj_activeJobs j \<noteq> []" "fst ` set (rj_activeJobs j) = set (rj_started j) - fst ` set D"
    using assms by (auto simp: rep_inv_def busy_def)
  then have "last (rj_activeJobs j) \<in> set (rj_activeJobs j)" by simp
  then show ?thesis using b(2) by blast
qed

lemma rep_inv_success:
  assumes "rep_inv moves j D" "rj_state j = FINISHED" "rj_extendedState j = SUCCESS"
  shows "set (rj_started j) = {0..<length moves} \<and> (\<forall>k < length moves. (k, True) \<in> set D)"
proof -
  have D: "set (rj_started j) = {0..<length moves}" "fst ` set D = {0..<length moves}" "\<forall>d \<in> set D. snd d"
    using assms by (auto simp: rep_inv_def)
  have "(k, True) \<in> set D" if "k < length moves" for k
  proof -
    have "k \<in> fst ` set D" using D(2) that by simp
    then show ?thesis using D(3) by auto
  qed
  then show ?thesis using D(1) by blast
qed

text \<open>
  C7. Whatever order its children report in and whenever it is cancelled or expires, the replication job starts each job of its plan at most once;
  while it is in progress after the plan was made, it has a child in progress, so it cannot wait for ever
  for a report that never comes; if it finishes with success then every job of the plan was started and every one
  reported success; and if it finishes otherwise then every child it started has either reported or was told to cancel.
\<close>

theorem replicate_job_runs_all:
  assumes "rep_reach threads moves j D" "2 * length moves \<le> MAX_SIZE"
  shows "distinct (rj_started j) \<and> set (rj_started j) \<subseteq> {0..<length moves}
    \<and> (rj_state j = IN_PROGRESS \<and> rj_started j \<noteq> [] \<longrightarrow>
         (\<exists>c \<in> set (rj_activeJobs j). fst c \<in> set (rj_started j) \<and> fst c \<notin> fst ` set D))
    \<and> (rj_state j = FINISHED \<and> rj_extendedState j = SUCCESS \<longrightarrow>
         set (rj_started j) = {0..<length moves} \<and> (\<forall>k < length moves. (k, True) \<in> set D))
    \<and> (rj_state j = FINISHED \<and> rj_extendedState j \<noteq> SUCCESS \<longrightarrow>
         set (rj_started j) \<subseteq> fst ` set D \<union> set (rj_cancelledJobs j))"
  using rep_inv_books [OF rep_reach_inv [OF assms]] rep_inv_active [OF rep_reach_inv [OF assms]]
    rep_inv_success [OF rep_reach_inv [OF assms]] by blast

lemmas job_defs = onPrecursorJobFinish_def startImpl_def newReplicateJob_def setState_def launchNextJobs_def removeJob_def
  onCreateJobFinish_def recordResult_def job_finish_def MAX_SIZE_def

lemma demo_run:
  defines "moves \<equiv> [(7, ''a'', ''b''), (8, ''a'', ''c''), (9, ''c'', ''b'')]"
  shows "\<exists>j :: nat replicateJob. rep_reach 1 moves j [(2, True), (1, True), (0, True)]
    \<and> rj_state j = FINISHED \<and> rj_extendedState j = SUCCESS \<and> rj_started j = [2, 1, 0]"
proof -
  let ?a = "startImpl newReplicateJob :: nat replicateJob"
  obtain b where b: "onPrecursorJobFinish 1 True (Inr moves) ?a = Inr b"
    by (simp add: moves_def job_defs numeral_2_eq_2 card_insert_if)
  define c where "c = onCreateJobFinish (2, moves ! 2) True ([], Map.empty) b"
  define d where "d = onCreateJobFinish (1, moves ! 1) True ([], Map.empty) c"
  define e where "e = onCreateJobFinish (0, moves ! 0) True ([], Map.empty) d"
  have st1: "rj_state b = IN_PROGRESS" "rj_jobs b = [(0, 7, ''a'', ''b'')]" "rj_activeJobs b = [(2, 9, ''c'', ''b''), (1, 8, ''a'', ''c'')]" "rj_numLaunched b = 2"
      "rj_numFinished b = 0" "rj_numSuccess b = 0" "rj_started b = [2, 1]"
    using b by (auto simp: moves_def job_defs numeral_2_eq_2 card_insert_if)
  have st2: "rj_state c = IN_PROGRESS" "rj_jobs c = []" "rj_activeJobs c = [(1, 8, ''a'', ''c''), (0, 7, ''a'', ''b'')]" "rj_numLaunched c = 3"
      "rj_numFinished c = 1" "rj_numSuccess c = 1" "rj_started c = [2, 1, 0]"
    unfolding c_def using st1 by (simp_all add: moves_def job_defs)
  have st3: "rj_state d = IN_PROGRESS" "rj_jobs d = []" "rj_activeJobs d = [(0, 7, ''a'', ''b'')]" "rj_numLaunched d = 3"
      "rj_numFinished d = 2" "rj_numSuccess d = 2" "rj_started d = [2, 1, 0]"
    unfolding d_def using st2 by (simp_all add: moves_def job_defs)
  have st4: "rj_started e = [2, 1, 0] \<and> rj_state e = FINISHED \<and> rj_extendedState e = SUCCESS"
    unfolding e_def using st3 by (simp add: moves_def job_defs)
  have "rep_reach 1 moves ?a []" by (rule rj_begin [OF rj_new]) (simp add: job_start_def newReplicateJob_def)
  then have "rep_reach 1 moves b []"
    by (rule rj_plan [where plan = "Inr moves" and ok = True]) (use b in \<open>simp_all add: startImpl_def newReplicateJob_def setState_def\<close>)
  then have "rep_reach 1 moves c ([] @ [(fst (2, moves ! 2), True)])"
    unfolding c_def by (rule rj_report) (simp_all add: st1)
  then have "rep_reach 1 moves d (([] @ [(fst (2, moves ! 2), True)]) @ [(fst (1, moves ! 1), True)])"
    unfolding d_def by (rule rj_report) (simp_all add: st2)
  then have "rep_reach 1 moves e ((([] @ [(fst (2, moves ! 2), True)]) @ [(fst (1, moves ! 1), True)]) @ [(fst (0, moves ! 0), True)])"
    unfolding e_def by (rule rj_report) (simp_all add: st3)
  then show ?thesis using st4 by (intro exI [of _ e]) simp
qed

theorem replicate_job_runs_all_witness:
  "\<exists>j :: nat replicateJob. rep_reach 1 [(7, ''a'', ''b''), (8, ''a'', ''c''), (9, ''c'', ''b'')] j [(2, True), (1, True), (0, True)]
     \<and> rj_state j = FINISHED \<and> rj_extendedState j = SUCCESS \<and> rj_started j = [2, 1, 0] \<and> distinct (rj_started j)
     \<and> set (rj_started j) = {0..<length [''a'', ''b'', ''c'']}"
proof -
  obtain j :: "nat replicateJob" where j: "rep_reach 1 [(7, ''a'', ''b''), (8, ''a'', ''c''), (9, ''c'', ''b'')] j [(2, True), (1, True), (0, True)]"
    "rj_state j = FINISHED" "rj_extendedState j = SUCCESS" "rj_started j = [2, 1, 0]"
    using demo_run by blast
  then show ?thesis using replicate_job_runs_all [OF j(1)] by (intro exI [of _ j]) (simp add: MAX_SIZE_def)
qed

section \<open>The life cycle of a job\<close>

text \<open>
  What every job promises its controller: the interface of \<open>Job\<close>, with any step of the job as a relation. A job that is finished keeps
  its outcome, and one that was started is never new again.
\<close>

locale job_life =
  fixes jstate :: "'j \<Rightarrow> replicaJobState" and jext :: "'j \<Rightarrow> extendedState"
    and jfinish :: "extendedState \<Rightarrow> 'j \<Rightarrow> 'j" and jstep :: "'j \<Rightarrow> 'j \<Rightarrow> bool"
  assumes finish_state: "jstate (jfinish ex j) = FINISHED"
    and finish_outcome: "jext (jfinish ex j) = (if jstate j = FINISHED then jext j else ex)"
    and step_final: "jstep j j' \<Longrightarrow> jstate j = FINISHED \<Longrightarrow> jstate j' = FINISHED \<and> jext j' = jext j"
    and step_forward: "jstep j j' \<Longrightarrow> jstate j \<noteq> CREATED \<Longrightarrow> jstate j' \<noteq> CREATED"
begin

lemma outcome_final: "jstep\<^sup>*\<^sup>* j j' \<Longrightarrow> jstate j = FINISHED \<Longrightarrow> jstate j' = FINISHED \<and> jext j' = jext j"
  by (induction rule: rtranclp_induct) (auto dest: step_final)

lemma never_new: "jstep\<^sup>*\<^sup>* j j' \<Longrightarrow> jstate j \<noteq> CREATED \<Longrightarrow> jstate j' \<noteq> CREATED"
  by (induction rule: rtranclp_induct) (auto dest: step_forward)

lemma finish_final: "jstep\<^sup>*\<^sup>* (jfinish ex j) j' \<Longrightarrow> jstate j \<noteq> FINISHED \<Longrightarrow> jstate j' = FINISHED \<and> jext j' = ex"
  using outcome_final [of "jfinish ex j" j'] finish_state finish_outcome by simp

end

definition rep_step :: "'r replicateJob \<Rightarrow> 'r replicateJob \<Rightarrow> bool" where
  "rep_step j j' \<longleftrightarrow> job_start j = Inr j' \<or> j' = job_cancel j \<or> (\<exists>aborted. j' = job_expired aborted j)
     \<or> (\<exists>threads ok plan. onPrecursorJobFinish threads ok plan j = Inr j') \<or> (\<exists>c ok rd. j' = onCreateJobFinish c ok rd j)"

lemma job_finish_outcome: "rj_extendedState (job_finish ex j) = (if rj_state j = FINISHED then rj_extendedState j else ex)"
  by (simp add: job_finish_def Let_def setState_def cancelImpl_def)

lemma launchLoop_state: "rj_state (snd (launchLoop n nd ns s)) = rj_state (snd s)"
proof (induction n arbitrary: nd ns s)
  case (Suc n)
  then show ?case by (cases s) (simp split: option.split)
qed simp

lemma launch_state: "launchNextJobs n j = (l, j') \<Longrightarrow> rj_state j' = rj_state j"
  using launchLoop_state by (metis launchNextJobs_def snd_conv)

lemma rep_step_final: "rep_step j j' \<Longrightarrow> rj_state j = FINISHED \<Longrightarrow> rj_state j' = FINISHED \<and> rj_extendedState j' = rj_extendedState j"
  by (auto simp: rep_step_def job_start_def job_cancel_def job_expired_def onPrecursorJobFinish_def onCreateJobFinish_def)

lemma rep_step_forward:
  assumes "rep_step j j'" "rj_state j \<noteq> CREATED"
  shows "rj_state j' \<noteq> CREATED"
proof (cases "rj_state j = FINISHED")
  case True
  then show ?thesis using rep_step_final [OF assms(1)] by simp
next
  case False
  show ?thesis
    using assms False unfolding rep_step_def
    by (auto dest: launch_state simp: job_start_def job_cancel_def job_expired_def onPrecursorJobFinish_def onCreateJobFinish_def job_finish_fields Let_def
        split: if_splits sum.splits prod.splits)
qed

interpretation rj: job_life rj_state rj_extendedState job_finish rep_step
  by unfold_locales (auto simp: job_finish_fields job_finish_outcome rep_step_final rep_step_forward)

end
