(* ===== verification/Fix_Up_Job.thy ===== *)
theory Fix_Up_Job
  imports Replica_Jobs "HOL-Library.Char_ord" "HOL-Library.List_Lexorder" "HOL-Library.Product_Lexorder"
begin

text \<open>
  The locks on chunks, \<open>replica/ChunkLocker\<close>, and the job that uses them to create the replicas that are missing for
  co-location, \<open>replica/FixUpJob\<close>: it locks a chunk before it sends a request for it, and releases the chunk with the last report
  of its requests.

  The map of the locks is the list of its entries in the order of the chunks. The lemmas show that the locks are
  exclusive, that a job in progress holds the lock of every chunk it has a request for, and that it succeeds only if every
  missing replica was created. They also show two ways in which the job fails to do what it means to: it cannot
  start another iteration, and a report that comes late releases a lock that may be another job's.
\<close>

section \<open>Locks\<close>

type_synonym chunkKey = "string \<times> nat"

type_synonym chunkLocker = "(chunkKey \<times> string) list"

definition isLocked :: "chunkKey \<Rightarrow> chunkLocker \<Rightarrow> bool" where
  "isLocked c m \<longleftrightarrow> map_of m c \<noteq> None"

text \<open>\<open>isLocked\<close> with the owner.\<close>

definition isLockedBy :: "chunkKey \<Rightarrow> chunkLocker \<Rightarrow> string option" where
  "isLockedBy c m = map_of m c"

definition lockedImpl :: "string \<Rightarrow> chunkLocker \<Rightarrow> string \<Rightarrow> chunkKey list" where
  "lockedImpl owner m = (\<lambda>chunkOwner. map fst (filter (\<lambda>(c, w). (owner = [] \<or> owner = w) \<and> w = chunkOwner) m))"

definition lockChunk :: "chunkKey \<Rightarrow> string \<Rightarrow> chunkLocker \<Rightarrow> jobError + bool \<times> chunkLocker" where
  "lockChunk c owner m =
     (if owner = [] then Inl InvalidArgument
      else case map_of m c of
             Some w \<Rightarrow> Inr (owner = w, m)
           | None \<Rightarrow> Inr (True, insort_key fst (c, owner) m))"

definition releaseImpl :: "chunkKey \<Rightarrow> chunkLocker \<Rightarrow> string option \<times> chunkLocker" where
  "releaseImpl c m =
     (case map_of m c of
        None \<Rightarrow> (None, m)
      | Some w \<Rightarrow> (Some w, filter (\<lambda>e. fst e \<noteq> c) m))"

definition releaseChunk :: "chunkKey \<Rightarrow> chunkLocker \<Rightarrow> bool \<times> chunkLocker" where
  "releaseChunk c m = (case releaseImpl c m of (w, m') \<Rightarrow> (w \<noteq> None, m'))"

definition releaseOwner :: "string \<Rightarrow> chunkLocker \<Rightarrow> jobError + chunkKey list \<times> chunkLocker" where
  "releaseOwner owner m =
     (if owner = [] then Inl InvalidArgument
      else let chunks = lockedImpl owner m owner
           in Inr (chunks, fold (\<lambda>c m. filter (\<lambda>e. fst e \<noteq> c) m) chunks m))"

section \<open>The job\<close>

text \<open>A request is given by its chunk, its destination worker and its database.\<close>

type_synonym requestKey = "nat \<times> string \<times> string"

record fixUpJob =
  fu_state :: replicaJobState
  fu_extendedState :: extendedState
  fu_findAllJob :: bool
  fu_numIterations :: nat
  fu_numFailedLocks :: nat
  fu_chunk2requests :: "requestKey list"
  fu_requests :: "requestKey list"
  fu_numLaunched :: nat
  fu_numFinished :: nat
  fu_numSuccess :: nat
  fu_replicas :: "replicaInfo list"
  fu_chunks :: "requestKey \<rightharpoonup> replicaInfo"
  fu_workers :: "string \<rightharpoonup> bool"
  fu_sent :: "(requestKey \<times> string) list"
  fu_stopped :: "requestKey list"

definition newFixUpJob :: fixUpJob where
  "newFixUpJob = \<lparr> fu_state = CREATED, fu_extendedState = NONE, fu_findAllJob = False, fu_numIterations = 0,
     fu_numFailedLocks = 0, fu_chunk2requests = [], fu_requests = [], fu_numLaunched = 0, fu_numFinished = 0,
     fu_numSuccess = 0, fu_replicas = [], fu_chunks = Map.empty, fu_workers = Map.empty, fu_sent = [], fu_stopped = [] \<rparr>"

definition fix_startImpl :: "fixUpJob \<Rightarrow> fixUpJob" where
  "fix_startImpl j = j\<lparr> fu_numIterations := fu_numIterations j + 1, fu_findAllJob := True,
     fu_state := IN_PROGRESS, fu_extendedState := NONE \<rparr>"

definition fix_cancelImpl :: "fixUpJob \<Rightarrow> fixUpJob" where
  "fix_cancelImpl j = j\<lparr> fu_findAllJob := False, fu_stopped := fu_stopped j @ fu_requests j, fu_chunk2requests := [],
     fu_requests := [], fu_numFailedLocks := 0, fu_numLaunched := 0, fu_numFinished := 0, fu_numSuccess := 0 \<rparr>"

definition fix_finish :: "extendedState \<Rightarrow> fixUpJob \<Rightarrow> fixUpJob" where
  "fix_finish ex j =
     (if fu_state j = FINISHED then j
      else let j = j\<lparr> fu_state := FINISHED, fu_extendedState := ex \<rparr>
           in if ex \<noteq> SUCCESS then fix_cancelImpl j else j)"

definition fix_cancel :: "fixUpJob \<Rightarrow> fixUpJob" where
  "fix_cancel j = (if fu_state j = FINISHED then j else fix_finish CANCELLED j)"

definition fix_expired :: "bool \<Rightarrow> fixUpJob \<Rightarrow> fixUpJob" where
  "fix_expired aborted j = (if aborted \<or> fu_state j = FINISHED then j else fix_finish TIMEOUT_EXPIRED j)"

definition fix_restart :: "fixUpJob \<Rightarrow> jobError + fixUpJob" where
  "fix_restart j =
     (if fu_findAllJob j \<or> fu_numLaunched j \<noteq> fu_numFinished j then Inl LogicError
      else Inr (j\<lparr> fu_requests := [], fu_numFailedLocks := 0, fu_numLaunched := 0, fu_numFinished := 0, fu_numSuccess := 0 \<rparr>))"

text \<open>The workers of \<open>FindAllJobResult::complete\<close>; \<open>at\<close> throws if there is none.\<close>

definition completeWorkers :: "replicaInfo list \<Rightarrow> nat \<Rightarrow> string \<Rightarrow> string list" where
  "completeWorkers rs c db =
     filter (\<lambda>w. case theReplica rs c db w of None \<Rightarrow> False | Some r \<Rightarrow> ri_status r = COMPLETE) (workerNames rs c db)"

definition sendRequest :: "requestKey \<Rightarrow> string \<Rightarrow> fixUpJob \<Rightarrow> fixUpJob" where
  "sendRequest k source j = j\<lparr> fu_chunk2requests := List.insert k (fu_chunk2requests j), fu_requests := fu_requests j @ [k],
     fu_numLaunched := fu_numLaunched j + 1, fu_sent := fu_sent j @ [(k, source)] \<rparr>"

fun fixDatabases :: "replicaInfo list \<Rightarrow> string \<Rightarrow> nat \<Rightarrow> string \<Rightarrow> string list \<Rightarrow> fixUpJob \<times> chunkLocker
    \<Rightarrow> jobError + fixUpJob \<times> chunkLocker" where
  "fixDatabases rs family c w [] s = Inr s"
| "fixDatabases rs family c w (db # dbs) (j, L) =
     (if w \<in> set (workerNames rs c db) then fixDatabases rs family c w dbs (j, L)
      else if completeWorkers rs c db = [] then Inl OutOfRangeError
      else let sourceWorker = (case find (\<lambda>v. v \<noteq> w) (completeWorkers rs c db) of None \<Rightarrow> [] | Some v \<Rightarrow> v)
           in if sourceWorker = []
              then Inr (fix_finish FAILED j, snd (releaseChunk (family, c) L))
              else fixDatabases rs family c w dbs (sendRequest (c, w, db) sourceWorker j, L))"

fun fixWorkers :: "replicaInfo list \<Rightarrow> string \<Rightarrow> string \<Rightarrow> nat \<Rightarrow> string list \<Rightarrow> fixUpJob \<times> chunkLocker
    \<Rightarrow> jobError + fixUpJob \<times> chunkLocker" where
  "fixWorkers rs family jobId c [] s = Inr s"
| "fixWorkers rs family jobId c (w # ws) (j, L) =
     (if isColocated rs c w then fixWorkers rs family jobId c ws (j, L)
      else case lockChunk (family, c) jobId L of
             Inl e \<Rightarrow> Inl e
           | Inr (False, L) \<Rightarrow> fixWorkers rs family jobId c ws (j\<lparr> fu_numFailedLocks := fu_numFailedLocks j + 1 \<rparr>, L)
           | Inr (True, L) \<Rightarrow>
               (case fixDatabases rs family c w (databaseNames rs c) (j, L) of
                  Inl e \<Rightarrow> Inl e
                | Inr (j, L) \<Rightarrow> if fu_state j = FINISHED then Inr (j, L) else fixWorkers rs family jobId c ws (j, L)))"

fun fixChunks :: "replicaInfo list \<Rightarrow> string \<Rightarrow> string \<Rightarrow> nat list \<Rightarrow> fixUpJob \<times> chunkLocker
    \<Rightarrow> jobError + fixUpJob \<times> chunkLocker" where
  "fixChunks rs family jobId [] s = Inr s"
| "fixChunks rs family jobId (c # cs) s =
     (case fixWorkers rs family jobId c (chunkWorkers rs c) s of
        Inl e \<Rightarrow> Inl e
      | Inr (j, L) \<Rightarrow> if fu_state j = FINISHED then Inr (j, L) else fixChunks rs family jobId cs (j, L))"

definition fix_onPrecursorJobFinish :: "replicaInfo list \<Rightarrow> string \<Rightarrow> string \<Rightarrow> bool \<Rightarrow> fixUpJob \<times> chunkLocker
    \<Rightarrow> jobError + fixUpJob \<times> chunkLocker" where
  "fix_onPrecursorJobFinish rs family jobId precursorOk s =
     (if fu_state (fst s) = FINISHED then Inr s
      else if \<not> precursorOk then Inr (fix_finish FAILED (fst s), snd s)
      else case fixChunks rs family jobId (chunkNumbers rs) s of
             Inl e \<Rightarrow> Inl e
           | Inr (j, L) \<Rightarrow>
               if fu_state j \<noteq> FINISHED \<and> fu_requests j = []
               then if fu_numFailedLocks j = 0 then Inr (fix_finish SUCCESS j, L)
                    else (case fix_restart j of Inl e \<Rightarrow> Inl e | Inr j \<Rightarrow> Inr (j, L))
               else Inr (j, L))"

definition fix_record :: "requestKey \<Rightarrow> bool \<Rightarrow> replicaInfo \<Rightarrow> fixUpJob \<Rightarrow> fixUpJob" where
  "fix_record k ok info j =
     (let w = fst (snd k); j = j\<lparr> fu_numFinished := fu_numFinished j + 1 \<rparr>
      in if ok
         then j\<lparr> fu_numSuccess := fu_numSuccess j + 1, fu_replicas := fu_replicas j @ [info],
                 fu_chunks := (fu_chunks j)(k \<mapsto> info), fu_workers := (fu_workers j)(w \<mapsto> True) \<rparr>
         else j\<lparr> fu_workers := (fu_workers j)(w \<mapsto> False) \<rparr>)"

text \<open>
  \<open>_chunk2requests\<close> is the list of its innermost keys; the code keeps no empty map at an inner level, so \<open>at\<close> throws if
  the chunk and the worker have no request.
\<close>

definition fix_onRequestFinish :: "string \<Rightarrow> requestKey \<Rightarrow> bool \<Rightarrow> replicaInfo \<Rightarrow> fixUpJob \<times> chunkLocker
    \<Rightarrow> jobError + fixUpJob \<times> chunkLocker" where
  "fix_onRequestFinish family k ok info s =
     (let (j, L) = s; c = fst k; w = fst (snd k)
      in if fu_state j = FINISHED then Inr (j, snd (releaseChunk (family, c) L))
         else let j = fix_record k ok info j
              in if \<not> list_ex (\<lambda>r. fst r = c \<and> fst (snd r) = w) (fu_chunk2requests j) then Inl OutOfRangeError
                 else let j = j\<lparr> fu_chunk2requests := filter (\<lambda>r. r \<noteq> k) (fu_chunk2requests j) \<rparr>;
                          L = (if \<not> list_ex (\<lambda>r. fst r = c) (fu_chunk2requests j) then snd (releaseChunk (family, c) L) else L)
                      in if fu_numFinished j = fu_numLaunched j
                         then if fu_numSuccess j = fu_numLaunched j
                              then if fu_numFailedLocks j \<noteq> 0
                                   then (case fix_restart j of Inl e \<Rightarrow> Inl e | Inr j \<Rightarrow> Inr (j, L))
                                   else Inr (fix_finish SUCCESS j, L)
                              else Inr (fix_finish FAILED j, L)
                         else Inr (j, L))"

text \<open>The destructor.\<close>

definition fix_destroy :: "string \<Rightarrow> chunkLocker \<Rightarrow> jobError + chunkLocker" where
  "fix_destroy jobId L = (case releaseOwner jobId L of Inl e \<Rightarrow> Inl e | Inr (cs, L) \<Rightarrow> Inr L)"

text \<open>
  The runs of a job, with what other owners do to the locks in between: they lock chunks for themselves, and they release chunks.
  \<open>release\<close> does not look at the owner, so that others can also release a chunk that this job has locked. \<open>D\<close> are the reports
  so far, \<open>X\<close> the chunks that this job had locked when others released them.
\<close>

inductive fix_reach ::
    "replicaInfo list \<Rightarrow> string \<Rightarrow> string \<Rightarrow> fixUpJob \<Rightarrow> chunkLocker \<Rightarrow> (requestKey \<times> bool) list \<Rightarrow> (string \<times> nat) set \<Rightarrow> bool"
  for rs :: "replicaInfo list" and family :: string and jobId :: string where
  fx_new: "(\<forall>e \<in> set L. snd e \<noteq> jobId) \<Longrightarrow> fix_reach rs family jobId newFixUpJob L [] {}"
| fx_begin: "fix_reach rs family jobId j L D X \<Longrightarrow> fu_state j = CREATED \<Longrightarrow> fix_reach rs family jobId (fix_startImpl j) L D X"
| fx_plan: "fix_reach rs family jobId j L D X \<Longrightarrow> fu_state j = IN_PROGRESS \<Longrightarrow> fu_sent j = [] \<Longrightarrow>
    fix_onPrecursorJobFinish rs family jobId ok (j, L) = Inr (j', L') \<Longrightarrow> fix_reach rs family jobId j' L' D X"
| fx_report: "fix_reach rs family jobId j L D X \<Longrightarrow> k \<in> fst ` set (fu_sent j) \<Longrightarrow> k \<notin> fst ` set D \<Longrightarrow>
    fix_onRequestFinish family k ok info (j, L) = Inr (j', L') \<Longrightarrow> fix_reach rs family jobId j' L' (D @ [(k, ok)]) X"
| fx_cancel: "fix_reach rs family jobId j L D X \<Longrightarrow> fix_reach rs family jobId (fix_cancel j) L D X"
| fx_timer: "fix_reach rs family jobId j L D X \<Longrightarrow> fix_reach rs family jobId (fix_expired aborted j) L D X"
| fx_other_lock: "fix_reach rs family jobId j L D X \<Longrightarrow> owner \<noteq> jobId \<Longrightarrow> lockChunk c owner L = Inr (b, L') \<Longrightarrow>
    fix_reach rs family jobId j L' D X"
| fx_other_release: "fix_reach rs family jobId j L D X \<Longrightarrow>
    fix_reach rs family jobId j (snd (releaseChunk c L)) D (if isLockedBy c L = Some jobId then insert c X else X)"

section \<open>The locks are exclusive\<close>

lemma map_of_insort: "map_of m c = None \<Longrightarrow> map_of (insort_key fst (c, w) m) = (map_of m)(c \<mapsto> w)"
  by (induction m) (auto simp: fun_eq_iff)

lemma map_of_erase: "map_of (filter (\<lambda>e. fst e \<noteq> c) m) = (map_of m)(c := None)"
  by (induction m) (auto simp: fun_eq_iff)

lemma map_of_release: "map_of (snd (releaseChunk c m)) = (map_of m)(c := None)"
  by (auto simp: releaseChunk_def releaseImpl_def map_of_erase split: option.splits prod.splits)

lemma map_of_erase_all:
  "map_of (fold (\<lambda>c m. filter (\<lambda>e. fst e \<noteq> c) m) cs m) = (map_of m) |` (- set cs)"
proof (induction cs arbitrary: m)
  case (Cons c cs)
  then show ?case by (auto simp: map_of_erase fun_eq_iff restrict_map_def)
qed (simp add: restrict_map_def)

lemma lockChunk_cases:
  "lockChunk c owner m = Inr (b, m') \<Longrightarrow>
     (b \<longleftrightarrow> map_of m' c = Some owner) \<and> (map_of m c = None \<longrightarrow> map_of m' = (map_of m)(c \<mapsto> owner))
     \<and> (map_of m c \<noteq> None \<longrightarrow> m' = m)"
  by (auto simp: lockChunk_def map_of_insort split: if_splits option.splits)

lemma lockChunk_mono: "lockChunk c owner m = Inr (b, m') \<Longrightarrow> map_of m d = Some w \<Longrightarrow> map_of m' d = Some w"
  using lockChunk_cases [of c owner m b m'] by (cases "map_of m c") auto

section \<open>The plan\<close>

definition missing :: "replicaInfo list \<Rightarrow> requestKey \<Rightarrow> bool" where
  "missing rs k \<longleftrightarrow> (case k of (c, w, db) \<Rightarrow> c \<in> set (chunkNumbers rs) \<and> w \<in> set (chunkWorkers rs c)
     \<and> db \<in> set (databaseNames rs c) \<and> w \<notin> set (workerNames rs c db))"

text \<open>A request is sound: the replica is missing, the source has a complete one.\<close>

definition sound_request :: "replicaInfo list \<Rightarrow> requestKey \<times> string \<Rightarrow> bool" where
  "sound_request rs r \<longleftrightarrow> missing rs (fst r) \<and> snd r \<noteq> fst (snd (fst r))
     \<and> snd r \<in> set (completeWorkers rs (fst (fst r)) (snd (snd (fst r))))"

abbreviation sentKeys :: "fixUpJob \<Rightarrow> requestKey set" where
  "sentKeys j \<equiv> fst ` set (fu_sent j)"

definition plan_inv :: "replicaInfo list \<Rightarrow> string \<Rightarrow> string \<Rightarrow> fixUpJob \<Rightarrow> chunkLocker \<Rightarrow> bool" where
  "plan_inv rs family jobId j L \<longleftrightarrow> fu_state j = IN_PROGRESS \<and> fu_findAllJob j \<and> fu_numFinished j = 0 \<and> fu_numSuccess j = 0
     \<and> distinct (map fst (fu_sent j)) \<and> distinct (fu_chunk2requests j) \<and> set (fu_chunk2requests j) = sentKeys j
     \<and> fu_requests j = map fst (fu_sent j) \<and> fu_numLaunched j = length (fu_sent j)
     \<and> (\<forall>r \<in> set (fu_sent j). sound_request rs r \<and> map_of L (family, fst (fst r)) = Some jobId)"

lemma plan_inv_send:
  assumes "plan_inv rs family jobId j L" "k \<notin> sentKeys j" "sound_request rs (k, source)" "map_of L (family, fst k) = Some jobId"
  shows "plan_inv rs family jobId (sendRequest k source j) L"
  using assms by (auto simp: plan_inv_def sendRequest_def)

lemma fix_finish_fields:
  "fu_state (fix_finish ex j) = FINISHED" "fu_state j \<noteq> FINISHED \<Longrightarrow> fu_extendedState (fix_finish ex j) = ex"
  "fu_sent (fix_finish ex j) = fu_sent j"
  by (auto simp: fix_finish_def fix_cancelImpl_def Let_def)

lemma sendRequest_fields [simp]:
  "fu_state (sendRequest k source j) = fu_state j" "fu_numFailedLocks (sendRequest k source j) = fu_numFailedLocks j"
  "fu_sent (sendRequest k source j) = fu_sent j @ [(k, source)]"
  by (simp_all add: sendRequest_def)

definition add_keys :: "fixUpJob \<Rightarrow> fixUpJob \<Rightarrow> requestKey set \<Rightarrow> bool" where
  "add_keys j j' K \<longleftrightarrow> sentKeys j \<subseteq> sentKeys j' \<and> sentKeys j' \<subseteq> sentKeys j \<union> K
     \<and> (fu_numFailedLocks j' = 0 \<longrightarrow> fu_numFailedLocks j = 0 \<and> sentKeys j' = sentKeys j \<union> K)"

lemma grow_trans:
  assumes "A \<subseteq> B" "B \<subseteq> A \<union> K" "q \<longrightarrow> p \<and> B = A \<union> K" "B \<subseteq> C" "C \<subseteq> B \<union> M" "r \<longrightarrow> q \<and> C = B \<union> M"
  shows "A \<subseteq> C \<and> C \<subseteq> A \<union> (K \<union> M) \<and> (r \<longrightarrow> p \<and> C = A \<union> (K \<union> M))"
  using assms by blast

lemma add_keys_trans: "add_keys i j K \<Longrightarrow> add_keys j k M \<Longrightarrow> add_keys i k (K \<union> M)"
  unfolding add_keys_def
  by (elim conjE) (rule grow_trans [where B = "sentKeys j" and q = "fu_numFailedLocks j = 0"]; assumption)

lemma add_keysD: "add_keys i j K \<Longrightarrow> k \<in> sentKeys j \<Longrightarrow> k \<in> sentKeys i \<or> k \<in> K"
  unfolding add_keys_def by blast

lemma plan_step:
  assumes "(f \<longrightarrow> e) \<and> (\<not> f \<longrightarrow> p \<and> add_keys j k M)" "add_keys i j K"
  shows "(f \<longrightarrow> e) \<and> (\<not> f \<longrightarrow> p \<and> add_keys i k (K \<union> M))"
  using assms(1) add_keys_trans [OF assms(2), of k M] by satx

lemma fixDatabases_plan:
  assumes "fixDatabases rs family c w dbs (j, L) = Inr (j', L')" "plan_inv rs family jobId j L" "map_of L (family, c) = Some jobId"
    "c \<in> set (chunkNumbers rs)" "w \<in> set (chunkWorkers rs c)" "set dbs \<subseteq> set (databaseNames rs c)" "distinct dbs"
    "\<forall>db \<in> set dbs. (c, w, db) \<notin> sentKeys j"
  shows "(fu_state j' = FINISHED \<longrightarrow> fu_extendedState j' = FAILED)
    \<and> (fu_state j' \<noteq> FINISHED \<longrightarrow> plan_inv rs family jobId j' L' \<and> L' = L
         \<and> add_keys j j' {(c, w, db) | db. db \<in> set dbs \<and> w \<notin> set (workerNames rs c db)})"
  using assms
proof (induction dbs arbitrary: j)
  case Nil
  then show ?case by (auto simp: add_keys_def plan_inv_def)
next
  case (Cons db dbs)
  show ?case
  proof (cases "w \<in> set (workerNames rs c db)")
    case True
    then have keys: "{(c, w, d) | d. d \<in> set (db # dbs) \<and> w \<notin> set (workerNames rs c d)} = {(c, w, d) | d. d \<in> set dbs \<and> w \<notin> set (workerNames rs c d)}"
      by auto
    have "fixDatabases rs family c w dbs (j, L) = Inr (j', L')" using Cons.prems(1) True by simp
    moreover have "set dbs \<subseteq> set (databaseNames rs c)" "distinct dbs" "\<forall>db \<in> set dbs. (c, w, db) \<notin> sentKeys j"
      using Cons.prems(6-8) by auto
    ultimately show ?thesis unfolding keys by (rule Cons.IH [OF _ Cons.prems(2-5)])
  next
    case False
    show ?thesis
    proof (cases "find (\<lambda>v. v \<noteq> w) (completeWorkers rs c db)")
      case None
      then show ?thesis using Cons.prems(1,2) False by (auto simp: fix_finish_fields plan_inv_def split: if_splits)
    next
      case (Some v)
      then have v: "v \<in> set (completeWorkers rs c db)" "v \<noteq> w" by (auto simp: find_Some_iff)
      show ?thesis
      proof (cases "v = []")
        case True
        then show ?thesis using Cons.prems(1,2) False Some by (auto simp: fix_finish_fields plan_inv_def split: if_splits)
      next
        case ne: False
        let ?j = "sendRequest (c, w, db) v j"
        have run: "fixDatabases rs family c w dbs (?j, L) = Inr (j', L')" using Cons.prems(1) False Some ne v(1) by (auto split: if_splits)
        have "sound_request rs ((c, w, db), v)" using Cons.prems(4-6) False v by (auto simp: sound_request_def missing_def)
        then have inv: "plan_inv rs family jobId ?j L" using Cons.prems(2,3,8) by (intro plan_inv_send) auto
        have "\<forall>d \<in> set dbs. (c, w, d) \<notin> sentKeys ?j" using Cons.prems(7,8) by auto
        note ih = Cons.IH [OF run inv Cons.prems(3-5) _ _ this]
        have one: "add_keys j ?j {(c, w, db)}" by (auto simp: add_keys_def)
        have keys: "{(c, w, d) | d. d \<in> set (db # dbs) \<and> w \<notin> set (workerNames rs c d)}
            = {(c, w, db)} \<union> {(c, w, d) | d. d \<in> set dbs \<and> w \<notin> set (workerNames rs c d)}" using False by auto
        have "set dbs \<subseteq> set (databaseNames rs c)" "distinct dbs" using Cons.prems(6,7) by auto
        then show ?thesis unfolding keys using ih add_keys_trans [OF one] by blast
      qed
    qed
  qed
qed

lemma plan_inv_locks:
  assumes "plan_inv rs family jobId j L" "lockChunk c owner L = Inr (b, L')"
  shows "plan_inv rs family jobId j L'" "plan_inv rs family jobId (j\<lparr> fu_numFailedLocks := n \<rparr>) L'"
  using assms(1) lockChunk_mono [OF assms(2)] by (auto simp: plan_inv_def)

lemma fixWorkers_plan:
  assumes "fixWorkers rs family jobId c ws (j, L) = Inr (j', L')" "plan_inv rs family jobId j L"
    "c \<in> set (chunkNumbers rs)" "set ws \<subseteq> set (chunkWorkers rs c)" "distinct ws"
    "\<forall>w \<in> set ws. \<forall>db. (c, w, db) \<notin> sentKeys j"
  shows "(fu_state j' = FINISHED \<longrightarrow> fu_extendedState j' = FAILED)
    \<and> (fu_state j' \<noteq> FINISHED \<longrightarrow> plan_inv rs family jobId j' L' \<and> add_keys j j' {(c, w, db) | w db. w \<in> set ws \<and> missing rs (c, w, db)})"
  using assms
proof (induction ws arbitrary: j L)
  case Nil
  then show ?case by (auto simp: add_keys_def plan_inv_def)
next
  case (Cons w ws)
  let ?K = "\<lambda>w. {(c, w, db) | db. db \<in> set (databaseNames rs c) \<and> w \<notin> set (workerNames rs c db)}"
  let ?M = "\<lambda>ws. {(c, w, db) | w db. w \<in> set ws \<and> missing rs (c, w, db)}"
  have split: "?M (w # ws) = ?K w \<union> ?M ws" using Cons.prems(3,4) by (auto simp: missing_def)
  have ws: "set ws \<subseteq> set (chunkWorkers rs c)" "distinct ws" "w \<in> set (chunkWorkers rs c)" "w \<notin> set ws"
    using Cons.prems(4,5) by auto
  show ?case
  proof (cases "isColocated rs c w")
    case True
    then have keys: "?M (w # ws) = ?M ws" unfolding split by (auto simp: colocated_iff)
    have "fixWorkers rs family jobId c ws (j, L) = Inr (j', L')" using Cons.prems(1) True by simp
    moreover have "\<forall>w \<in> set ws. \<forall>db. (c, w, db) \<notin> sentKeys j" using Cons.prems(6) by simp
    ultimately show ?thesis unfolding keys by (rule Cons.IH [OF _ Cons.prems(2,3) ws(1,2)])
  next
    case False
    then obtain b M where b: "lockChunk (family, c) jobId L = Inr (b, M)"
      using Cons.prems(1) by (cases "lockChunk (family, c) jobId L") auto
    show ?thesis
    proof (cases b)
      case no: False
      let ?j = "j\<lparr> fu_numFailedLocks := fu_numFailedLocks j + 1 \<rparr>"
      have run: "fixWorkers rs family jobId c ws (?j, M) = Inr (j', L')" using Cons.prems(1) False b no by simp
      have one: "add_keys j ?j (?K w)" by (auto simp: add_keys_def)
      have "\<forall>w \<in> set ws. \<forall>db. (c, w, db) \<notin> sentKeys ?j" using Cons.prems(6) by simp
      from Cons.IH [OF run plan_inv_locks(2) [OF Cons.prems(2) b] Cons.prems(3) ws(1,2) this]
      have "(fu_state j' = FINISHED \<longrightarrow> fu_extendedState j' = FAILED)
          \<and> (fu_state j' \<noteq> FINISHED \<longrightarrow> plan_inv rs family jobId j' L' \<and> add_keys ?j j' (?M ws))" .
      from plan_step [OF this one] show ?thesis unfolding split .
    next
      case True
      then have l: "map_of M (family, c) = Some jobId" using lockChunk_cases [OF b] by simp
      obtain i N where i: "fixDatabases rs family c w (databaseNames rs c) (j, M) = Inr (i, N)"
        using Cons.prems(1) False b True by (auto split: sum.splits prod.splits)
      have rest: "if fu_state i = FINISHED then (j', L') = (i, N) else fixWorkers rs family jobId c ws (i, N) = Inr (j', L')"
        using Cons.prems(1) False b True i by (auto split: if_splits)
      have "distinct (databaseNames rs c)" "\<forall>db \<in> set (databaseNames rs c). (c, w, db) \<notin> sentKeys j"
        using Cons.prems(6) by (auto simp: databaseNames_def)
      then have dbs: "(fu_state i = FINISHED \<longrightarrow> fu_extendedState i = FAILED)
          \<and> (fu_state i \<noteq> FINISHED \<longrightarrow> plan_inv rs family jobId i N \<and> N = M \<and> add_keys j i (?K w))"
        by (rule fixDatabases_plan [OF i plan_inv_locks(1) [OF Cons.prems(2) b] l Cons.prems(3) ws(3) subset_refl])
      show ?thesis
      proof (cases "fu_state i = FINISHED")
        case True
        then show ?thesis using rest dbs by simp
      next
        case False
        then have ih: "fixWorkers rs family jobId c ws (i, N) = Inr (j', L')" "plan_inv rs family jobId i N" "add_keys j i (?K w)"
          using rest dbs by auto
        have "(c, v, db) \<notin> ?K w" "(c, v, db) \<notin> sentKeys j" if "v \<in> set ws" for v db using that ws(4) Cons.prems(6) by auto
        then have "\<forall>v \<in> set ws. \<forall>db. (c, v, db) \<notin> sentKeys i" using add_keysD [OF ih(3)] by meson
        from plan_step [OF Cons.IH [OF ih(1,2) Cons.prems(3) ws(1,2) this] ih(3)] show ?thesis unfolding split .
      qed
    qed
  qed
qed

lemma fixChunks_plan:
  assumes "fixChunks rs family jobId cs (j, L) = Inr (j', L')" "plan_inv rs family jobId j L" "set cs \<subseteq> set (chunkNumbers rs)"
    "distinct cs" "\<forall>k \<in> sentKeys j. fst k \<notin> set cs"
  shows "(fu_state j' = FINISHED \<longrightarrow> fu_extendedState j' = FAILED)
    \<and> (fu_state j' \<noteq> FINISHED \<longrightarrow> plan_inv rs family jobId j' L' \<and> add_keys j j' {k. fst k \<in> set cs \<and> missing rs k})"
  using assms
proof (induction cs arbitrary: j L)
  case Nil
  then show ?case by (auto simp: add_keys_def plan_inv_def)
next
  case (Cons c cs)
  let ?K = "{(c, w, db) | w db. w \<in> set (chunkWorkers rs c) \<and> missing rs (c, w, db)}"
  have split: "{k. fst k \<in> set (c # cs) \<and> missing rs k} = ?K \<union> {k. fst k \<in> set cs \<and> missing rs k}"
    by (auto simp: missing_def)
  obtain i N where i: "fixWorkers rs family jobId c (chunkWorkers rs c) (j, L) = Inr (i, N)"
    using Cons.prems(1) by (auto split: sum.splits prod.splits)
  have rest: "if fu_state i = FINISHED then (j', L') = (i, N) else fixChunks rs family jobId cs (i, N) = Inr (j', L')"
    using Cons.prems(1) i by (auto split: if_splits)
  have "distinct (chunkWorkers rs c)" by (simp add: chunkWorkers_def)
  moreover have "\<forall>w \<in> set (chunkWorkers rs c). \<forall>db. (c, w, db) \<notin> sentKeys j" using Cons.prems(5) by fastforce
  ultimately have w: "(fu_state i = FINISHED \<longrightarrow> fu_extendedState i = FAILED)
      \<and> (fu_state i \<noteq> FINISHED \<longrightarrow> plan_inv rs family jobId i N \<and> add_keys j i ?K)"
    using fixWorkers_plan [OF i Cons.prems(2) _ subset_refl] Cons.prems(3) by simp
  show ?case
  proof (cases "fu_state i = FINISHED")
    case True
    then show ?thesis using rest w by simp
  next
    case False
    then have ih: "fixChunks rs family jobId cs (i, N) = Inr (j', L')" "plan_inv rs family jobId i N" "add_keys j i ?K"
      using rest w by auto
    have fresh: "fst k \<notin> set cs" if "k \<in> sentKeys i" for k
    proof -
      have "k \<in> sentKeys j \<or> fst k = c" using add_keysD [OF ih(3) that] by (elim disjE) auto
      then show ?thesis using Cons.prems(4) Cons.prems(5) [rule_format, of k] by auto
    qed
    have "set cs \<subseteq> set (chunkNumbers rs)" "distinct cs" using Cons.prems(3,4) by auto
    moreover have "\<forall>k \<in> sentKeys i. fst k \<notin> set cs" using fresh by blast
    ultimately have "(fu_state j' = FINISHED \<longrightarrow> fu_extendedState j' = FAILED)
        \<and> (fu_state j' \<noteq> FINISHED \<longrightarrow> plan_inv rs family jobId j' L' \<and> add_keys i j' {k. fst k \<in> set cs \<and> missing rs k})"
      by (rule Cons.IH [OF ih(1,2)])
    from plan_step [OF this ih(3)] show ?thesis unfolding split .
  qed
qed

lemma fixDatabases_sound:
  assumes "fixDatabases rs family c w dbs (j, L) = Inr (j', L')" "\<forall>r \<in> set (fu_sent j). sound_request rs r"
    "c \<in> set (chunkNumbers rs)" "w \<in> set (chunkWorkers rs c)" "set dbs \<subseteq> set (databaseNames rs c)"
  shows "\<forall>r \<in> set (fu_sent j'). sound_request rs r"
  using assms
proof (induction dbs arbitrary: j)
  case (Cons db dbs)
  show ?case
  proof (cases "w \<in> set (workerNames rs c db)")
    case True
    then show ?thesis using Cons by simp
  next
    case False
    show ?thesis
    proof (cases "find (\<lambda>v. v \<noteq> w) (completeWorkers rs c db)")
      case None
      then show ?thesis using Cons.prems(1,2) False by (auto simp: fix_finish_fields split: if_splits)
    next
      case (Some v)
      then have v: "v \<in> set (completeWorkers rs c db)" "v \<noteq> w" by (auto simp: find_Some_iff)
      then have "sound_request rs ((c, w, db), v)" using Cons.prems(3-5) False by (auto simp: sound_request_def missing_def)
      then have "\<forall>r \<in> set (fu_sent (sendRequest (c, w, db) v j)). sound_request rs r" using Cons.prems(2) by auto
      then show ?thesis using Cons.IH [of "sendRequest (c, w, db) v j"] Cons.prems False Some
        by (auto simp: fix_finish_fields split: if_splits)
    qed
  qed
qed simp

lemma fixWorkers_sound:
  assumes "fixWorkers rs family jobId c ws (j, L) = Inr (j', L')" "\<forall>r \<in> set (fu_sent j). sound_request rs r"
    "c \<in> set (chunkNumbers rs)" "set ws \<subseteq> set (chunkWorkers rs c)"
  shows "\<forall>r \<in> set (fu_sent j'). sound_request rs r"
  using assms
proof (induction ws arbitrary: j L)
  case (Cons w ws)
  then show ?case
    using fixDatabases_sound [of rs family c w "databaseNames rs c"]
    by (fastforce split: if_splits sum.splits prod.splits bool.splits)
qed simp

lemma fixChunks_sound:
  assumes "fixChunks rs family jobId cs (j, L) = Inr (j', L')" "\<forall>r \<in> set (fu_sent j). sound_request rs r" "set cs \<subseteq> set (chunkNumbers rs)"
  shows "\<forall>r \<in> set (fu_sent j'). sound_request rs r"
  using assms
proof (induction cs arbitrary: j L)
  case (Cons c cs)
  obtain i N where i: "fixWorkers rs family jobId c (chunkWorkers rs c) (j, L) = Inr (i, N)"
    using Cons.prems(1) by (auto split: sum.splits prod.splits)
  have "\<forall>r \<in> set (fu_sent i). sound_request rs r" using fixWorkers_sound [OF i] Cons.prems(2,3) by simp
  then show ?case using Cons.IH [of i N] Cons.prems(1,3) i by (auto split: if_splits)
qed simp

section \<open>The runs of the job\<close>

definition fix_idle :: "fixUpJob \<Rightarrow> bool" where
  "fix_idle j \<longleftrightarrow> fu_chunk2requests j = [] \<and> fu_requests j = [] \<and> fu_numFailedLocks j = 0 \<and> fu_numLaunched j = 0
     \<and> fu_numFinished j = 0 \<and> fu_numSuccess j = 0"

definition fix_running :: "replicaInfo list \<Rightarrow> string \<Rightarrow> string \<Rightarrow> fixUpJob \<Rightarrow> chunkLocker \<Rightarrow> (requestKey \<times> bool) list \<Rightarrow> (string \<times> nat) set \<Rightarrow> bool" where
  "fix_running rs family jobId j L D X \<longleftrightarrow> fu_findAllJob j \<and> distinct (map fst (fu_sent j)) \<and> distinct (fu_chunk2requests j)
     \<and> set (fu_chunk2requests j) = sentKeys j - fst ` set D
     \<and> fu_numLaunched j = length (fu_sent j) \<and> fu_numFinished j = length D \<and> fu_numSuccess j = length (filter snd D)
     \<and> (\<forall>k \<in> set (fu_chunk2requests j). (family, fst k) \<in> X \<or> map_of L (family, fst k) = Some jobId)
     \<and> (fu_numFailedLocks j = 0 \<longrightarrow> sentKeys j = {k. missing rs k})"

definition fix_inv :: "replicaInfo list \<Rightarrow> string \<Rightarrow> string \<Rightarrow> fixUpJob \<Rightarrow> chunkLocker \<Rightarrow> (requestKey \<times> bool) list \<Rightarrow> (string \<times> nat) set \<Rightarrow> bool" where
  "fix_inv rs family jobId j L D X \<longleftrightarrow> distinct (map fst D) \<and> fst ` set D \<subseteq> sentKeys j \<and> (\<forall>r \<in> set (fu_sent j). sound_request rs r)
     \<and> (fu_state j = CREATED \<longrightarrow> fu_sent j = [])
     \<and> (fu_state j \<noteq> FINISHED \<and> fu_sent j = [] \<longrightarrow> fix_idle j)
     \<and> (fu_state j = IN_PROGRESS \<longrightarrow> fu_findAllJob j)
     \<and> (fu_state j = IN_PROGRESS \<and> fu_sent j \<noteq> [] \<longrightarrow> fix_running rs family jobId j L D X \<and> fu_chunk2requests j \<noteq> [])
     \<and> (fu_state j = FINISHED \<and> fu_extendedState j = SUCCESS \<longrightarrow>
          sentKeys j = {k. missing rs k} \<and> fst ` set D = sentKeys j \<and> (\<forall>d \<in> set D. snd d))"

lemma fix_inv_stop:
  assumes "fix_inv rs family jobId j L D X" "ex \<noteq> SUCCESS" "fu_state j \<noteq> FINISHED"
  shows "fix_inv rs family jobId (fix_finish ex j) M D X"
  using assms by (auto simp: fix_inv_def fix_finish_fields)

text \<open>The job in progress cannot start another iteration: the precursor job is still there.\<close>

lemma fix_restart_fails: "fu_findAllJob j \<Longrightarrow> fix_restart j = Inl LogicError"
  by (simp add: fix_restart_def)

lemma fix_inv_plan:
  assumes "fix_inv rs family jobId j L D X" "fu_state j = IN_PROGRESS" "fu_sent j = []"
    "fix_onPrecursorJobFinish rs family jobId ok (j, L) = Inr (j', L')"
  shows "fix_inv rs family jobId j' L' D X"
proof (cases ok)
  case False
  then show ?thesis using assms fix_inv_stop [OF assms(1), of FAILED] by (auto simp: fix_onPrecursorJobFinish_def)
next
  case True
  have D: "D = []" "fix_idle j" using assms(1-3) by (auto simp: fix_inv_def)
  obtain i N where i: "fixChunks rs family jobId (chunkNumbers rs) (j, L) = Inr (i, N)"
    using assms(2,4) True by (auto simp: fix_onPrecursorJobFinish_def split: sum.splits)
  have "plan_inv rs family jobId j L" using assms(1-3) D by (auto simp: plan_inv_def fix_idle_def fix_inv_def)
  then have p: "fu_state i = FINISHED \<longrightarrow> fu_extendedState i = FAILED"
      "fu_state i \<noteq> FINISHED \<longrightarrow> plan_inv rs family jobId i N \<and> add_keys j i {k. fst k \<in> set (chunkNumbers rs) \<and> missing rs k}"
    using fixChunks_plan [OF i _ subset_refl] assms(3) by (simp_all add: chunkNumbers_def)
  have snd: "\<forall>r \<in> set (fu_sent i). sound_request rs r" using fixChunks_sound [OF i] assms(3) by simp
  show ?thesis
  proof (cases "fu_state i = FINISHED")
    case True
    then have "j' = i" using assms(2,4) \<open>ok\<close> i by (simp add: fix_onPrecursorJobFinish_def)
    then show ?thesis using True p(1) snd D(1) by (auto simp: fix_inv_def)
  next
    case False
    then have inv: "plan_inv rs family jobId i N" "add_keys j i {k. fst k \<in> set (chunkNumbers rs) \<and> missing rs k}" using p(2) by auto
    have all: "fu_numFailedLocks i = 0 \<longrightarrow> sentKeys i = {k. missing rs k}"
      using inv(2) assms(3) by (auto simp: add_keys_def missing_def)
    have st: "fu_state i = IN_PROGRESS" "fu_findAllJob i" "fu_requests i = map fst (fu_sent i)" using inv(1) by (auto simp: plan_inv_def)
    have out: "if fu_requests i = [] then fu_numFailedLocks i = 0 \<and> (j', L') = (fix_finish SUCCESS i, N) else (j', L') = (i, N)"
      using assms(2,4) \<open>ok\<close> i st fix_restart_fails [OF st(2)] by (auto simp: fix_onPrecursorJobFinish_def split: if_splits)
    show ?thesis
    proof (cases "fu_requests i = []")
      case True
      then show ?thesis using out all st snd D(1) by (auto simp: fix_inv_def fix_finish_fields)
    next
      case False
      then have "fix_running rs family jobId i N D X" "fu_chunk2requests i \<noteq> []"
        using inv(1) all D(1) st(3) by (auto simp: fix_running_def plan_inv_def)
      then show ?thesis using False out st snd D(1) by (auto simp: fix_inv_def)
    qed
  qed
qed

lemma fix_record_fields [simp]:
  "fu_state (fix_record k ok info j) = fu_state j" "fu_findAllJob (fix_record k ok info j) = fu_findAllJob j"
  "fu_sent (fix_record k ok info j) = fu_sent j" "fu_chunk2requests (fix_record k ok info j) = fu_chunk2requests j"
  "fu_numFailedLocks (fix_record k ok info j) = fu_numFailedLocks j" "fu_numLaunched (fix_record k ok info j) = fu_numLaunched j"
  "fu_numFinished (fix_record k ok info j) = fu_numFinished j + 1"
  "fu_numSuccess (fix_record k ok info j) = fu_numSuccess j + (if ok then 1 else 0)"
  by (simp_all add: fix_record_def Let_def)

lemma fix_running_counts:
  assumes "fix_running rs family jobId j L D X" "distinct (map fst D)" "fst ` set D \<subseteq> sentKeys j"
  shows "fu_numFinished j = fu_numLaunched j \<longleftrightarrow> fu_chunk2requests j = []"
    "fu_chunk2requests j = [] \<Longrightarrow> fst ` set D = sentKeys j"
    "fu_chunk2requests j = [] \<Longrightarrow> fu_numSuccess j = fu_numLaunched j \<longleftrightarrow> (\<forall>d \<in> set D. snd d)"
proof -
  have len: "length D = card (fst ` set D)" "length (fu_sent j) = card (sentKeys j)"
    using assms(1,2) distinct_card [of "map fst D"] distinct_card [of "map fst (fu_sent j)"] by (auto simp: fix_running_def)
  have c: "set (fu_chunk2requests j) = sentKeys j - fst ` set D"
    and nums: "fu_numFinished j = length D" "fu_numLaunched j = length (fu_sent j)" "fu_numSuccess j = length (filter snd D)"
    using assms(1) by (auto simp: fix_running_def)
  show all: "fst ` set D = sentKeys j" if "fu_chunk2requests j = []"
    using c that assms(3) by (metis Diff_eq_empty_iff empty_set subset_antisym)
  show "fu_numFinished j = fu_numLaunched j \<longleftrightarrow> fu_chunk2requests j = []"
  proof
    assume "fu_numFinished j = fu_numLaunched j"
    then have "fst ` set D = sentKeys j" using card_subset_eq [OF _ assms(3)] len nums by simp
    then show "fu_chunk2requests j = []" using c by simp
  next
    assume "fu_chunk2requests j = []"
    then show "fu_numFinished j = fu_numLaunched j" using all len nums by simp
  qed
  show "fu_numSuccess j = fu_numLaunched j \<longleftrightarrow> (\<forall>d \<in> set D. snd d)" if "fu_chunk2requests j = []"
    using all [OF that] len nums by (metis filter_True filter_id_conv length_filter_less nat_neq_iff)
qed

lemma fix_running_report:
  assumes "fix_running rs family jobId j L D X" "k \<in> sentKeys j" "k \<notin> fst ` set D"
    and j': "j' = (fix_record k ok info j)\<lparr> fu_chunk2requests := filter (\<lambda>r. r \<noteq> k) (fu_chunk2requests j) \<rparr>"
    and L': "L' = (if \<not> list_ex (\<lambda>r. fst r = fst k) (fu_chunk2requests j') then snd (releaseChunk (family, fst k) L) else L)"
  shows "fix_running rs family jobId j' L' (D @ [(k, ok)]) X"
proof -
  have locks: "(family, fst r) \<in> X \<or> map_of L' (family, fst r) = Some jobId" if "r \<in> set (fu_chunk2requests j')" for r
  proof -
    have old: "(family, fst r) \<in> X \<or> map_of L (family, fst r) = Some jobId" using assms(1) that by (auto simp: fix_running_def j')
    then show ?thesis using that by (auto simp: L' map_of_release list_ex_iff)
  qed
  have "set (fu_chunk2requests j') = sentKeys j' - fst ` set (D @ [(k, ok)])" using assms(1) by (auto simp: fix_running_def j')
  then show ?thesis using assms(1) locks by (simp add: fix_running_def j')
qed

lemma fix_inv_report:
  assumes "fix_inv rs family jobId j L D X" "k \<in> sentKeys j" "k \<notin> fst ` set D"
    "fix_onRequestFinish family k ok info (j, L) = Inr (j', L')"
  shows "fix_inv rs family jobId j' L' (D @ [(k, ok)]) X"
proof (cases "fu_state j = FINISHED")
  case True
  then have "j' = j" using assms(4) by (auto simp: fix_onRequestFinish_def)
  then show ?thesis using assms(1-3) True by (auto simp: fix_inv_def)
next
  case False
  let ?D = "D @ [(k, ok)]"
  define i where "i = (fix_record k ok info j)\<lparr> fu_chunk2requests := filter (\<lambda>r. r \<noteq> k) (fu_chunk2requests j) \<rparr>"
  define N where "N = (if \<not> list_ex (\<lambda>r. fst r = fst k) (fu_chunk2requests i) then snd (releaseChunk (family, fst k) L) else L)"
  have st: "fu_state j = IN_PROGRESS" "fu_findAllJob j" "fu_sent j \<noteq> []" "fix_running rs family jobId j L D X"
    using assms(1,2) False by (cases "fu_state j"; auto simp: fix_inv_def)+
  have run: "fix_running rs family jobId i N ?D X" using fix_running_report [OF st(4) assms(2,3) i_def N_def] .
  have D: "distinct (map fst ?D)" "fst ` set ?D \<subseteq> sentKeys i" "\<forall>r \<in> set (fu_sent i). sound_request rs r"
    using assms(1-3) by (auto simp: fix_inv_def i_def)
  have i: "fu_state i = IN_PROGRESS" "fu_findAllJob i" "fu_sent i \<noteq> []" using st by (simp_all add: i_def)
  note counts = fix_running_counts [OF run D(1,2)]
  have "k \<in> set (fu_chunk2requests j)" using st(4) assms(2,3) by (simp add: fix_running_def)
  then have "list_ex (\<lambda>r. fst r = fst k \<and> fst (snd r) = fst (snd k)) (fu_chunk2requests j)" by (auto simp: list_ex_iff)
  then have out: "fix_onRequestFinish family k ok info (j, L) =
      (if fu_numFinished i = fu_numLaunched i
       then if fu_numSuccess i = fu_numLaunched i
            then if fu_numFailedLocks i \<noteq> 0 then Inl LogicError else Inr (fix_finish SUCCESS i, N)
            else Inr (fix_finish FAILED i, N)
       else Inr (i, N))"
    using st(1) fix_restart_fails [OF i(2)] by (simp add: fix_onRequestFinish_def Let_def i_def [symmetric] N_def [symmetric])
  show ?thesis
  proof (cases "fu_chunk2requests i = []")
    case True
    have ni: "fu_state i \<noteq> FINISHED" using i(1) by simp
    have all: "fu_numFailedLocks i = 0 \<Longrightarrow> sentKeys i = {k. missing rs k}" using run by (simp add: fix_running_def)
    have "fu_numFinished i = fu_numLaunched i" using counts(1) True by simp
    then consider (good) "\<forall>d \<in> set ?D. snd d" "fu_numFailedLocks i = 0" "j' = fix_finish SUCCESS i" | (bad) "j' = fix_finish FAILED i"
      using assms(4) out counts(3) [OF True] by (auto split: if_splits)
    then show ?thesis
    proof cases
      case good
      then show ?thesis unfolding fix_inv_def good(3) fix_finish_fields fix_finish_fields(2) [OF ni]
        using D counts(2) [OF True] all [OF good(2)] by simp
    next
      case bad
      then show ?thesis unfolding fix_inv_def bad fix_finish_fields fix_finish_fields(2) [OF ni] using D by simp
    qed
  next
    case False
    then have "(j', L') = (i, N)" using assms(4) out counts(1) by simp
    then show ?thesis using False run D i by (auto simp: fix_inv_def)
  qed
qed

lemma fix_inv_locks:
  assumes "fix_inv rs family jobId j L D X"
    "\<And>c. c \<in> X \<or> map_of L c = Some jobId \<Longrightarrow> c \<in> X' \<or> map_of L' c = Some jobId"
  shows "fix_inv rs family jobId j L' D X'"
proof -
  have "fix_running rs family jobId j L D X \<Longrightarrow> fix_running rs family jobId j L' D X'"
    using assms(2) by (simp add: fix_running_def)
  then show ?thesis using assms(1) unfolding fix_inv_def by satx
qed

lemma fix_reach_inv: "fix_reach rs family jobId j L D X \<Longrightarrow> fix_inv rs family jobId j L D X"
proof (induction rule: fix_reach.induct)
  case (fx_new L)
  show ?case by (simp add: fix_inv_def newFixUpJob_def fix_idle_def)
next
  case (fx_begin j L D X)
  then show ?case by (auto simp: fix_startImpl_def fix_inv_def fix_idle_def)
next
  case (fx_plan j L D X ok j' L')
  then show ?case using fix_inv_plan by blast
next
  case (fx_report j L D X k ok info j' L')
  then show ?case using fix_inv_report by blast
next
  case (fx_cancel j L D X)
  then show ?case using fix_inv_stop [of rs family jobId j L D X CANCELLED L] by (auto simp: fix_cancel_def)
next
  case (fx_timer j L D X aborted)
  then show ?case using fix_inv_stop [of rs family jobId j L D X TIMEOUT_EXPIRED L] by (auto simp: fix_expired_def)
next
  case (fx_other_lock j L D X owner c b L')
  then show ?case using fix_inv_locks [OF fx_other_lock(4), of X L'] lockChunk_mono by blast
next
  case (fx_other_release j L D X c)
  show ?case by (rule fix_inv_locks [OF fx_other_release(2)]) (auto simp: map_of_release isLockedBy_def)
qed

text \<open>
  A lock on a chunk is exclusive: \<open>lock\<close> succeeds exactly if the chunk is then owned by the caller, takes no chunk from another
  owner and changes no other chunk; \<open>release\<close> frees the chunk and reports whether there was a lock; the release of an owner
  frees exactly the chunks of that owner and returns them; an empty owner is refused by both.
\<close>

theorem chunk_lock_exclusive:
  "lockChunk c [] m = Inl InvalidArgument \<and> releaseOwner [] m = Inl InvalidArgument
   \<and> (owner \<noteq> [] \<longrightarrow> (\<exists>b m'. lockChunk c owner m = Inr (b, m') \<and> (b \<longleftrightarrow> isLockedBy c m \<in> {None, Some owner})
        \<and> isLockedBy c m' = (if isLocked c m then isLockedBy c m else Some owner) \<and> (\<forall>d. d \<noteq> c \<longrightarrow> isLockedBy d m' = isLockedBy d m)))
   \<and> (\<exists>m'. releaseChunk c m = (isLocked c m, m') \<and> isLockedBy c m' = None \<and> (\<forall>d. d \<noteq> c \<longrightarrow> isLockedBy d m' = isLockedBy d m))
   \<and> (owner \<noteq> [] \<and> distinct (map fst m) \<longrightarrow> (\<exists>cs m'. releaseOwner owner m = Inr (cs, m')
        \<and> set cs = {d. isLockedBy d m = Some owner}
        \<and> (\<forall>d. isLockedBy d m' = (if isLockedBy d m = Some owner then None else isLockedBy d m))))"
proof -
  have lock: "\<exists>b m'. lockChunk c owner m = Inr (b, m') \<and> (b \<longleftrightarrow> isLockedBy c m \<in> {None, Some owner})
      \<and> isLockedBy c m' = (if isLocked c m then isLockedBy c m else Some owner) \<and> (\<forall>d. d \<noteq> c \<longrightarrow> isLockedBy d m' = isLockedBy d m)"
    if "owner \<noteq> []"
    using that by (cases "map_of m c") (auto simp: lockChunk_def isLockedBy_def isLocked_def map_of_insort)
  have rel: "\<exists>m'. releaseChunk c m = (isLocked c m, m') \<and> isLockedBy c m' = None \<and> (\<forall>d. d \<noteq> c \<longrightarrow> isLockedBy d m' = isLockedBy d m)"
    using map_of_release [of c m]
    by (cases "releaseChunk c m") (auto simp: isLockedBy_def isLocked_def releaseChunk_def releaseImpl_def split: option.splits prod.splits)
  have own: "\<exists>cs m'. releaseOwner owner m = Inr (cs, m') \<and> set cs = {d. isLockedBy d m = Some owner}
      \<and> (\<forall>d. isLockedBy d m' = (if isLockedBy d m = Some owner then None else isLockedBy d m))"
    if "owner \<noteq> []" "distinct (map fst m)"
  proof -
    have "set (lockedImpl owner m owner) = {d. isLockedBy d m = Some owner}"
      using that by (force simp: lockedImpl_def isLockedBy_def image_iff dest: map_of_SomeD)
    then show ?thesis using that(1) by (auto simp: releaseOwner_def Let_def isLockedBy_def map_of_erase_all restrict_map_def)
  qed
  show ?thesis using lock rel own by (auto simp: lockChunk_def releaseOwner_def)
qed

text \<open>
  C8. Whatever order its requests report in, whenever it is cancelled or expires and whatever other owners lock and release: the job sends only requests for
  replicas that are missing for co-location, with a source that has a complete replica; while it is in progress it waits for at least one request once it has sent
  any, and holds the lock of the chunk of every request it waits for unless another owner released that chunk while this job held it; and it finishes with success only if every missing
  replica was requested and every request succeeded.
\<close>

theorem fix_up_restores_colocation:
  assumes "fix_reach rs family jobId j L D X"
  shows "(\<forall>((c, w, db), source) \<in> set (fu_sent j). missing rs (c, w, db) \<and> source \<noteq> w \<and> source \<in> set (completeWorkers rs c db))
    \<and> (fu_state j = IN_PROGRESS \<and> fu_sent j \<noteq> [] \<longrightarrow> fu_chunk2requests j \<noteq> []
         \<and> (\<forall>k \<in> sentKeys j - fst ` set D. k \<in> set (fu_chunk2requests j)
             \<and> ((family, fst k) \<notin> X \<longrightarrow> isLockedBy (family, fst k) L = Some jobId)))
    \<and> (fu_state j = FINISHED \<and> fu_extendedState j = SUCCESS \<longrightarrow> (\<forall>k. missing rs k \<longrightarrow> (k, True) \<in> set D))"
proof -
  note I = fix_reach_inv [OF assms]
  have "\<forall>r \<in> set (fu_sent j). sound_request rs r" using I by (simp add: fix_inv_def)
  then have "\<forall>((c, w, db), source) \<in> set (fu_sent j). missing rs (c, w, db) \<and> source \<noteq> w \<and> source \<in> set (completeWorkers rs c db)"
    by (auto simp: sound_request_def)
  moreover have "fu_state j = IN_PROGRESS \<and> fu_sent j \<noteq> [] \<longrightarrow> fu_chunk2requests j \<noteq> []
      \<and> (\<forall>k \<in> sentKeys j - fst ` set D. k \<in> set (fu_chunk2requests j)
             \<and> ((family, fst k) \<notin> X \<longrightarrow> isLockedBy (family, fst k) L = Some jobId))"
    using I by (auto simp: fix_inv_def fix_running_def isLockedBy_def)
  moreover have "(k, True) \<in> set D" if "fu_state j = FINISHED" "fu_extendedState j = SUCCESS" "missing rs k" for k
  proof -
    have "k \<in> fst ` set D" "\<forall>d \<in> set D. snd d" using I that by (auto simp: fix_inv_def)
    then show ?thesis by auto
  qed
  ultimately show ?thesis by blast
qed

theorem chunk_lock_exclusive_witness:
  "lockChunk (''f'', 7) ''job'' [((''f'', 8), ''other'')] = Inr (True, [((''f'', 7), ''job''), ((''f'', 8), ''other'')])
   \<and> (\<forall>d. d \<noteq> (''f'', 7) \<longrightarrow> isLockedBy d [((''f'', 7), ''job''), ((''f'', 8), ''other'')] = isLockedBy d [((''f'', 8), ''other'')])
   \<and> lockChunk (''f'', 8) ''job'' [((''f'', 8), ''other'')] = Inr (False, [((''f'', 8), ''other'')])
   \<and> releaseOwner ''job'' [((''f'', 7), ''job''), ((''f'', 8), ''other'')] = Inr ([(''f'', 7)], [((''f'', 8), ''other'')])"
proof -
  have l: "lockChunk (''f'', 7) ''job'' [((''f'', 8), ''other'')] = Inr (True, [((''f'', 7), ''job''), ((''f'', 8), ''other'')])"
    by (simp add: lockChunk_def)
  then show ?thesis using chunk_lock_exclusive [of "(''f'', 7)" "[((''f'', 8), ''other'')]" "''job''"]
    by (auto simp: lockChunk_def releaseOwner_def lockedImpl_def)
qed

definition demo_replicas :: "replicaInfo list" where
  "demo_replicas =
     [\<lparr> ri_chunk = 7, ri_database = ''d'', ri_worker = ''a'', ri_status = COMPLETE \<rparr>,
      \<lparr> ri_chunk = 7, ri_database = ''e'', ri_worker = ''a'', ri_status = COMPLETE \<rparr>,
      \<lparr> ri_chunk = 7, ri_database = ''d'', ri_worker = ''b'', ri_status = COMPLETE \<rparr>]"

lemma demo_names:
  "chunkNumbers demo_replicas = [7]" "databaseNames demo_replicas 7 = [''d'', ''e'']"
  "workerNames demo_replicas 7 ''d'' = [''a'', ''b'']" "workerNames demo_replicas 7 ''e'' = [''a'']"
  "chunkWorkers demo_replicas 7 = [''a'', ''b'']"
proof -
  have e: "ri_database ` {r \<in> set demo_replicas. ri_chunk r = 7} = {''d'', ''e''}"
    by (auto simp: demo_replicas_def image_iff conj_disj_distribR ex_disj_distrib)
  show "chunkNumbers demo_replicas = [7]" by (simp add: chunkNumbers_def demo_replicas_def)
  show db: "databaseNames demo_replicas 7 = [''d'', ''e'']"
    unfolding databaseNames_def e by (simp add: less_char_def)
  have w: "ri_worker ` {r \<in> set demo_replicas. ri_chunk r = 7 \<and> ri_database r = ''d''} = {''a'', ''b''}"
    "ri_worker ` {r \<in> set demo_replicas. ri_chunk r = 7 \<and> ri_database r = ''e''} = {''a''}"
    by (auto simp: demo_replicas_def image_iff conj_disj_distribR ex_disj_distrib)
  show wn: "workerNames demo_replicas 7 ''d'' = [''a'', ''b'']" "workerNames demo_replicas 7 ''e'' = [''a'']"
    unfolding workerNames_def w by (simp_all add: less_char_def)
  show "chunkWorkers demo_replicas 7 = [''a'', ''b'']"
    unfolding chunkWorkers_def db by (simp add: wn less_char_def)
qed

lemma demo_plan:
  "\<exists>j. fix_onPrecursorJobFinish demo_replicas ''f'' ''job'' True (fix_startImpl newFixUpJob, []) = Inr (j, [((''f'', 7), ''job'')])
     \<and> fu_state j = IN_PROGRESS \<and> fu_sent j = [((7, ''b'', ''e''), ''a'')] \<and> fu_chunk2requests j = [(7, ''b'', ''e'')]
     \<and> fu_numLaunched j = 1 \<and> fu_numFinished j = 0 \<and> fu_numSuccess j = 0 \<and> fu_numFailedLocks j = 0"
proof -
  have c: "completeWorkers demo_replicas 7 ''e'' = [''a'']"
    unfolding completeWorkers_def demo_names by (simp add: theReplica_def demo_replicas_def)
  have col: "isColocated demo_replicas 7 ''a''" "\<not> isColocated demo_replicas 7 ''b''" by (simp_all add: colocated_iff demo_names)
  show ?thesis
    by (simp add: fix_onPrecursorJobFinish_def demo_names col c lockChunk_def fix_startImpl_def newFixUpJob_def sendRequest_def)
qed

theorem fix_up_restores_colocation_witness:
  "\<exists>j L. fix_reach demo_replicas ''f'' ''job'' j L [((7, ''b'', ''e''), True)] {} \<and> fu_state j = FINISHED \<and> fu_extendedState j = SUCCESS
     \<and> missing demo_replicas (7, ''b'', ''e'') \<and> (\<forall>k. missing demo_replicas k \<longrightarrow> k = (7, ''b'', ''e''))"
proof -
  let ?k = "(7, ''b'', ''e'')"
  obtain j where p: "fix_onPrecursorJobFinish demo_replicas ''f'' ''job'' True (fix_startImpl newFixUpJob, []) = Inr (j, [((''f'', 7), ''job'')])"
    and j: "fu_state j = IN_PROGRESS" "fu_sent j = [(?k, ''a'')]" "fu_chunk2requests j = [?k]"
      "fu_numLaunched j = 1" "fu_numFinished j = 0" "fu_numSuccess j = 0" "fu_numFailedLocks j = 0"
    using demo_plan by blast
  obtain i L info where r: "fix_onRequestFinish ''f'' ?k True info (j, [((''f'', 7), ''job'')]) = Inr (i, L)"
      "fu_state i = FINISHED" "fu_extendedState i = SUCCESS"
    using j by (simp add: fix_onRequestFinish_def fix_finish_fields)
  have "fix_reach demo_replicas ''f'' ''job'' (fix_startImpl newFixUpJob) [] [] {}"
    by (rule fx_begin [OF fx_new]) (simp_all add: newFixUpJob_def)
  then have "fix_reach demo_replicas ''f'' ''job'' j [((''f'', 7), ''job'')] [] {}"
    by (rule fx_plan [OF _ _ _ p]) (simp_all add: fix_startImpl_def newFixUpJob_def)
  then have "fix_reach demo_replicas ''f'' ''job'' i L ([] @ [(?k, True)]) {}"
    by (rule fx_report [OF _ _ _ r(1)]) (simp_all add: j)
  then have run: "fix_reach demo_replicas ''f'' ''job'' i L [(?k, True)] {}" by simp
  have "missing demo_replicas ?k" by (simp add: missing_def demo_names)
  moreover have "\<forall>k. missing demo_replicas k \<longrightarrow> (k, True) \<in> set [(?k, True)]"
    using fix_up_restores_colocation [OF run] r(2,3) by blast
  then have "\<forall>k. missing demo_replicas k \<longrightarrow> k = ?k" by simp
  ultimately show ?thesis using run r(2,3) by (intro exI [of _ i] exI [of _ L] conjI)
qed

text \<open>
  The job never makes another iteration: \<open>_restart\<close> requires that there is no precursor job, which nothing clears while
  the job is in progress, so it throws. (It would also start nothing.)
\<close>

lemma fix_never_restarts:
  assumes "fix_reach rs family jobId j L D X" "fu_state j = IN_PROGRESS"
  shows "fix_restart j = Inl LogicError"
  using fix_reach_inv [OF assms(1)] assms(2) by (intro fix_restart_fails) (simp add: fix_inv_def)

text \<open>
  A report that comes after the job finished releases the lock of its chunk without looking at the owner: another job that
  locked the chunk in the meantime loses it.
\<close>

lemma late_report_takes_lock:
  assumes "fu_state j = FINISHED" "isLockedBy (family, fst k) L = Some other"
  shows "\<exists>L'. fix_onRequestFinish family k ok info (j, L) = Inr (j, L') \<and> isLockedBy (family, fst k) L' = None"
  using assms by (simp add: fix_onRequestFinish_def isLockedBy_def map_of_release)

text \<open>If no worker has a complete replica of the database, the job does not fail: the search for a source throws.\<close>

lemma no_complete_replica_throws:
  assumes "w \<notin> set (workerNames rs c db)" "completeWorkers rs c db = []"
  shows "fixDatabases rs family c w (db # dbs) (j, L) = Inl OutOfRangeError"
  using assms by simp

section \<open>The life cycle of the job\<close>

text \<open>The steps of the job with the locks; other owners use the locks in between.\<close>

definition fix_step :: "fixUpJob \<times> chunkLocker \<Rightarrow> fixUpJob \<times> chunkLocker \<Rightarrow> bool" where
  "fix_step s s' \<longleftrightarrow> (fu_state (fst s) = CREATED \<and> fst s' = fix_startImpl (fst s)) \<or> fst s' = fix_cancel (fst s)
     \<or> (\<exists>aborted. fst s' = fix_expired aborted (fst s))
     \<or> (\<exists>rs family jobId ok. fix_onPrecursorJobFinish rs family jobId ok s = Inr s')
     \<or> (\<exists>family k ok info. fix_onRequestFinish family k ok info s = Inr s') \<or> fst s' = fst s"

lemma fix_finish_outcome: "fu_extendedState (fix_finish ex j) = (if fu_state j = FINISHED then fu_extendedState j else ex)"
  by (simp add: fix_finish_def Let_def fix_cancelImpl_def)

lemma fix_step_final:
  "fix_step s s' \<Longrightarrow> fu_state (fst s) = FINISHED \<Longrightarrow> fu_state (fst s') = FINISHED \<and> fu_extendedState (fst s') = fu_extendedState (fst s)"
  by (cases s) (auto simp: fix_step_def fix_cancel_def fix_expired_def fix_onPrecursorJobFinish_def fix_onRequestFinish_def)

lemma fixDatabases_state: "fixDatabases rs family c w dbs s = Inr s' \<Longrightarrow> fu_state (fst s) \<noteq> CREATED \<Longrightarrow> fu_state (fst s') \<noteq> CREATED"
  by (induction rs family c w dbs s rule: fixDatabases.induct) (auto simp: Let_def fix_finish_fields split: if_splits)

lemma fixWorkers_state: "fixWorkers rs family jobId c ws (j, L) = Inr (j', L') \<Longrightarrow> fu_state j \<noteq> CREATED \<Longrightarrow> fu_state j' \<noteq> CREATED"
proof (induction ws arbitrary: j L)
  case (Cons w ws)
  show ?case
  proof (cases "isColocated rs c w")
    case False
    then obtain b M where b: "lockChunk (family, c) jobId L = Inr (b, M)"
      using Cons.prems(1) by (cases "lockChunk (family, c) jobId L") auto
    show ?thesis
    proof (cases b)
      case True
      then obtain i N where i: "fixDatabases rs family c w (databaseNames rs c) (j, M) = Inr (i, N)"
        using Cons.prems(1) False b by (auto split: sum.splits prod.splits)
      have "fu_state i \<noteq> CREATED" using fixDatabases_state [OF i] Cons.prems(2) by simp
      then show ?thesis using Cons.IH [of i N] Cons.prems(1) False b True i by (auto split: if_splits)
    qed (use Cons False b in auto)
  qed (use Cons in auto)
qed simp

lemma fixChunks_state: "fixChunks rs family jobId cs s = Inr s' \<Longrightarrow> fu_state (fst s) \<noteq> CREATED \<Longrightarrow> fu_state (fst s') \<noteq> CREATED"
proof (induction rs family jobId cs s rule: fixChunks.induct)
  case (2 rs family jobId c cs s)
  then show ?case
    using fixWorkers_state [of rs family jobId c "chunkWorkers rs c" "fst s" "snd s"] by (auto split: if_splits sum.splits prod.splits)
qed simp

lemma fix_restart_state: "fix_restart j = Inr j' \<Longrightarrow> fu_state j' = fu_state j"
  by (auto simp: fix_restart_def split: if_splits)

lemma fix_step_forward:
  assumes "fix_step s s'" "fu_state (fst s) \<noteq> CREATED"
  shows "fu_state (fst s') \<noteq> CREATED"
proof -
  have "fu_state (fst s') \<noteq> CREATED" if "fix_onPrecursorJobFinish rs family jobId ok s = Inr s'" for rs family jobId ok
    using that assms(2) fixChunks_state [of rs family jobId "chunkNumbers rs" s]
    by (auto dest: fix_restart_state simp: fix_onPrecursorJobFinish_def fix_finish_fields split: if_splits sum.splits prod.splits)
  moreover have "fu_state (fst s') \<noteq> CREATED" if "fix_onRequestFinish family k ok info s = Inr s'" for family k ok info
    using that assms(2)
    by (cases s) (auto dest: fix_restart_state simp: fix_onRequestFinish_def fix_finish_fields Let_def split: if_splits sum.splits)
  ultimately show ?thesis
    using assms by (auto simp: fix_step_def fix_startImpl_def fix_cancel_def fix_expired_def fix_finish_fields split: if_splits)
qed

interpretation fx: job_life "\<lambda>s. fu_state (fst s)" "\<lambda>s. fu_extendedState (fst s)" "\<lambda>ex s. (fix_finish ex (fst s), snd s)" fix_step
proof unfold_locales
  fix ex :: extendedState and s s' :: "fixUpJob \<times> chunkLocker"
  show "fu_state (fst (fix_finish ex (fst s), snd s)) = FINISHED" by (simp add: fix_finish_fields)
  show "fu_extendedState (fst (fix_finish ex (fst s), snd s)) = (if fu_state (fst s) = FINISHED then fu_extendedState (fst s) else ex)"
    by (simp add: fix_finish_outcome)
  show "fix_step s s' \<Longrightarrow> fu_state (fst s) = FINISHED \<Longrightarrow>
      fu_state (fst s') = FINISHED \<and> fu_extendedState (fst s') = fu_extendedState (fst s)" by (rule fix_step_final)
  show "fix_step s s' \<Longrightarrow> fu_state (fst s) \<noteq> CREATED \<Longrightarrow> fu_state (fst s') \<noteq> CREATED" by (rule fix_step_forward)
qed

text \<open>
  C18. The outcome of a job of the replication system is final: once a replication job or a fix-up job was finished with an outcome, no
  report, timer, cancellation or start changes its state or its outcome, in any sequence of steps.
\<close>

theorem job_outcome_final:
  "(rep_step\<^sup>*\<^sup>* (job_finish ex j) j' \<and> rj_state j \<noteq> FINISHED \<longrightarrow> rj_state j' = FINISHED \<and> rj_extendedState j' = ex)
   \<and> (fix_step\<^sup>*\<^sup>* (fix_finish ex f, L) (f', L') \<and> fu_state f \<noteq> FINISHED \<longrightarrow> fu_state f' = FINISHED \<and> fu_extendedState f' = ex)"
  using rj.finish_final [of ex j j'] fx.finish_final [of ex "(f, L)" "(f', L')"] by simp

theorem job_outcome_final_witness:
  "let j = startImpl newReplicateJob :: nat replicateJob; f = fix_startImpl newFixUpJob
   in (\<forall>c ok rd. rj_state (onCreateJobFinish c ok rd (job_finish CANCELLED j)) = FINISHED
        \<and> rj_extendedState (onCreateJobFinish c ok rd (job_finish CANCELLED j)) = CANCELLED)
     \<and> fu_state (fix_cancel (fix_finish FAILED f)) = FINISHED \<and> fu_extendedState (fix_cancel (fix_finish FAILED f)) = FAILED"
proof -
  define j where "j = (startImpl newReplicateJob :: nat replicateJob)"
  define f where "f = fix_startImpl newFixUpJob"
  have st: "rj_state j \<noteq> FINISHED" "fu_state f \<noteq> FINISHED"
    by (simp_all add: j_def f_def startImpl_def setState_def fix_startImpl_def)
  have "rep_step\<^sup>*\<^sup>* (job_finish CANCELLED j) (onCreateJobFinish c ok rd (job_finish CANCELLED j))" for c ok rd
    unfolding rep_step_def by (rule r_into_rtranclp) blast
  moreover have "fix_step\<^sup>*\<^sup>* (fix_finish FAILED f, []) (fix_cancel (fix_finish FAILED f), [])"
    by (rule r_into_rtranclp) (simp add: fix_step_def)
  ultimately show ?thesis unfolding Let_def j_def [symmetric] f_def [symmetric]
    using st job_outcome_final [where j = j and f = f and ex = CANCELLED] job_outcome_final [where j = j and f = f and ex = FAILED] by blast
qed

end
