(* ===== verification/Spec2Isabelle.thy ===== *)
theory Spec2Isabelle
  imports Scan_Handles Chunk_Tasks_Order Group_Scheduler Query_Lifetime Blend_Worker
    Qdisp_Pool Dispatch_Properties Chunk_Query Worker_Resources Chunk_Resource Fix_Up_Job
begin

text \<open>
  \<^bold>\<open>Verification of Qserv\<close>

  Qserv is a distributed database for very large catalogs. A czar turns a user query into one job per chunk of the
  sky, workers run the jobs on their chunks in shared scans, and a replication system keeps enough copies of every
  chunk. This library models the parts where that logic is, from the sources under \<open>src/core/modules\<close>, and proves
  what makes them correct. Logging, metrics and mutexes are left out everywhere: a section of code that runs under
  one lock is one step of the model, and interleavings are sequences of such steps.

  \<^bold>\<open>Shared theories.\<close> \<open>Prelude\<close> has \<open>std::map\<close> as a sorted association list (\<open>omap\<close>), 64-bit arithmetic and printing;
  \<open>Std_Algorithms\<close> the heap and sort algorithms of the C++ library with the locale of a strict weak order.

  \<^bold>\<open>The worker: memory.\<close> \<open>Scan_Info\<close> is \<open>proto/ScanTableInfo\<close>. \<open>Mem_Man_Iface\<close> is the abstract \<open>memman/MemMan.h\<close>,
  a record of the virtual methods and a locale of what a client may rely on; \<open>Memory_Manager\<close> has \<open>Memory\<close>, \<open>MemFile\<close>,
  \<open>MemFileSet\<close>, \<open>MemManReal\<close> and \<open>MemManNone\<close> over the system calls, which are a parameter (\<open>os\<close>) with the hypothesis
  \<open>os_documented\<close> (a file keeps its size). \<open>Memory_Accounting\<close> shows that reserved and locked bytes stay within the limit and
  are exactly those of the files in use, that nothing stays when the last handle is given back, and that
  the manager refines the book of granted handles.

  \<^bold>\<open>The worker: schedulers.\<close> \<open>Task\<close> is \<open>wbase/Task\<close>: the immutable part of a task, its state in a store, and the \<open>world\<close> of
  tasks and memory manager that the schedulers work on. \<open>Scheduler_Base\<close> is \<open>wsched/SchedulerBase\<close>. \<open>Task_Collection\<close> has
  the interface of the collections of queued tasks and the locale \<open>task_collection\<close>, interpreted by \<open>Chunk_Tasks_Queue\<close>
  and \<open>Chunk_Disk\<close>; \<open>Chunk_Tasks_Order\<close> shows conservation of tasks, the cyclic order of chunks and that the queue is not
  stuck. \<open>Group_Scheduler\<close> and \<open>Scan_Scheduler\<close> are the classes of these names; \<open>Scan_Handles\<close> shows, for all runs
  of a scan scheduler with the real memory manager, that no handle leaks and that the tables of a running task
  stay reserved. \<open>Queries_And_Chunks\<close> is \<open>wpublish/QueriesAndChunks\<close> with \<open>Query_Lifetime\<close> on the removal of
  dead queries and the shares of scan time. \<open>Blend_Scheduler\<close> is \<open>wsched/BlendScheduler\<close> over the virtual methods of its
  sub-schedulers (with \<open>removeQueryFrom\<close>, \<open>_bootTask\<close> and \<open>examineAll\<close>); \<open>Blend_Contract\<close> states their contract as the
  locale \<open>scheduler_contract\<close> and proves the blend scheduler over it, \<open>Blend_Properties\<close> interprets it for
  the group and scan schedulers, and \<open>Blend_Worker\<close> has the properties of a worker's scheduler: exact books,
  threads kept in reserve, interactive tasks first, order of priority, control commands.

  \<^bold>\<open>Threads.\<close> \<open>Thread_Pool\<close> is \<open>util/Command\<close>, \<open>EventThread\<close> and \<open>ThreadPool\<close>: what one thread does between two locked
  sections is one step, the queue of commands is a record of its virtual methods, and the locale of what the pool relies on is
  interpreted for the plain \<open>CommandQueue\<close> and for the czar's queue of priorities. \<open>Qdisp_Pool\<close> is that queue
  (\<open>qdisp/QdispPool\<close>) and the pool over it: which queue is served, order within a priority, exact books of commands and
  running counts, absence of deadlock, with \<open>prepareShutdown\<close> and \<open>shutdownPool\<close> among the steps; also two runs in which a limit is exceeded and a wake-up is lost.

  \<^bold>\<open>The czar: from a query to messages.\<close> \<open>Chunk_Spec\<close> is \<open>qproc/ChunkSpec\<close>, \<open>SecondaryIndex\<close> and \<open>IndexMap\<close>: which chunks and
  subchunks a query needs, with MySQL and the geometry library as a parameter (\<open>indexEnv\<close>). \<open>Chunk_Query\<close> is the way from
  a chunk to the message for its worker: \<open>query/QueryTemplate\<close>, \<open>qana/QueryMapping\<close>, \<open>QuerySession::buildChunkQuerySpec\<close> and
  \<open>TaskMsgFactory\<close>. The lemmas show which chunks are chosen, also where the search runs past the end of a vector, and,
  together with the query runner of the worker, that each statement runs once for each subchunk. A specification without subchunks
  stands for the whole chunk (\<open>covered\<close>); the lemmas show where the set operations do not respect that.

  \<^bold>\<open>The czar: dispatch.\<close> \<open>Job_Dispatch\<close> has \<open>Executive\<close>, \<open>JobQuery\<close>, \<open>JobDescription\<close>, \<open>JobStatus\<close>, \<open>QueryRequest\<close> and \<open>MessageStore\<close> of
  \<open>qdisp\<close>. Jobs and requests are objects in a store, since they point to each other; XrdSsi and the response handler are a
  parameter (\<open>env\<close>), and the call-backs of XrdSsi, the commands of the pool and the calls of the czar are the events of
  \<open>handle\<close>. \<open>Dispatch_Invariant\<close> has the invariant and that every operation keeps it, also the recursion of \<open>squash\<close> through the
  jobs it cancels; \<open>Dispatch_Properties\<close> concludes that nothing throws, that every incomplete job has its one active request,
  that cancelling ends a query, what \<open>join\<close> reports and how often a job is tried. A call-back is one step; \<open>runJob\<close> is cut in
  two, since it writes the status \<open>REQUEST\<close> after the request is with XrdSsi (\<open>writeRequest\<close>), and call-backs may come between: such a late write
  is shown to make \<open>join\<close> report a failure of a query whose jobs all completed.

  \<^bold>\<open>Results, from worker to table.\<close> \<open>Query_Runner\<close> is \<open>wdb/QueryRunner\<close>: rows are packed into messages up to a size, a
  header is sent before each. \<open>Result_Stream\<close> is the frame of a header (\<open>proto/ProtoHeaderWrap\<close>) and the czar's
  \<open>ccontrol/MergingHandler\<close>, whose merger is the interface that \<open>Result_Merge\<close> provides. \<open>Result_Merge\<close> is \<open>rproc/InfileMerger\<close>
  with any number of merging threads, invalid job attempts and the deletion of their rows; \<open>Row_Buffer\<close> is the text that
  is loaded into MySQL (\<open>rproc/ProtoRowBuffer\<close>, \<open>mysql/LocalInfile\<close>), with the rules by which LOAD DATA reads enclosed and
  escaped fields (\<open>loadRows\<close>). Together they show that the rows of a task arrive in order and once, that a query that MySQL refuses
  is reported, that only rows of valid attempts stay in the table and that none of those is lost before \<open>finalize\<close>. They also show
  where the code falls short: an error while rows are fetched is hidden, a \<open>finalize\<close> that fails drops the table, and some
  values are changed by LOAD DATA.

  \<^bold>\<open>Resources of a worker.\<close> \<open>Worker_Resources\<close> has the paths of \<open>global/ResourceUnit\<close>, \<open>wpublish/ChunkInventory\<close> and
  \<open>ResourceMonitor\<close>, the answers of \<open>xrdsvc/SsiProvider\<close>, what \<open>SsiRequest\<close> checks and counts, and the commands that change
  the inventory: paths can be read back, a chunk is present if it was added last, the commands leave what they say, the
  counters are exact, and where they are not. \<open>Chunk_Resource\<close> is \<open>wdb/ChunkResource\<close> with \<open>wdb/SQLBackend\<close>: the in-memory tables of
  subchunks are exactly those of the reservations held, as long as no statement fails and no table is reserved under two
  databases.

  \<^bold>\<open>Replication.\<close> \<open>Replica_Plan\<close> has what \<open>FindAllJob\<close> computes of the replicas it finds, and the plans of \<open>ReplicateJob\<close> and
  \<open>RebalanceJob\<close> in \<open>replica\<close>: the plans are sound, the rebalance plan is maximal, and the replication plan suffices for a chunk that lacks one replica. \<open>Replica_Jobs\<close> is the life cycle of
  \<open>Job\<close> and \<open>ReplicateJob\<close>, which carries out its plan in batches; \<open>Fix_Up_Job\<close> is \<open>ChunkLocker\<close> and \<open>FixUpJob\<close>. What children and
  requests report, cancellation, the expiration timer and the locks of other owners are events in any order. The jobs
  start nothing twice, always wait for something that runs, and succeed only if everything was done. The locale \<open>job_life\<close> is
  what every \<open>Job\<close> promises; it is interpreted for both jobs.

  \<^bold>\<open>Bounds.\<close> Handles, byte counts and task counts that are \<open>uint64_t\<close> wrap at \<open>2 ^ 64\<close> (\<open>u64_add\<close>); the runs of
  \<open>scan_reach\<close> carry the number of handles that can still be given out (\<open>mm_budget\<close>), because the manager's handle number
  would wrap after \<open>2 ^ 64 - 1\<close> requests. \<open>int\<close> counters of tasks and threads are integers: they count objects in memory. \<open>double\<close>
  is modelled by real numbers. Loops are structural recursion or have a measure. Fuel is used twice: \<open>receive\<close> of
  \<open>Result_Stream\<close> counts the reads of the czar, and as many as buffers were sent are shown to be enough; \<open>squash\<close>
  has two levels of its recursion written out, and with any fuel from two on the recursion of the source (\<open>squash_fuel\<close>) is shown to
  give its result and not to exhaust the fuel. \<open>int\<close> is kept at 32 bits in \<open>makeJobIdAttempt\<close>, where a product may overflow.

  \<^bold>\<open>Not modelled.\<close> The SQL parser is generated code, and the query analysis around it rewrites and prints syntax trees, except for the
  templates of queries, which are modelled. XRootD, MySQL,
  protobuf and HTTP services are I/O; where their answers matter they are arguments. Threads, condition variables and
  timers appear only as the steps they take. In the scheduler theories the call of the
  pool that boots a running task is the argument \<open>leave\<close>. The jobs of the replication system that purge, move and delete replicas, its worker services and its ingest
  are not modelled, nor are the metadata (\<open>css\<close>, \<open>qmeta\<close>) and the large result limit of the czar.
\<close>

end
